(* ===== verification/Prelude.thy ===== *)
theory Prelude
  imports Main "HOL-Library.Word"
begin

text \<open>
  Shared material of the development: the collections of rewrite rules the component theories
  extend, and the generic facts on integers read as bit strings of a given width
  (\<^term>\<open>take_bit\<close> and \<^term>\<open>signed_take_bit\<close>), on lists and on options that more than one
  component uses.
\<close>

unbundle bit_operations_syntax

section \<open>Collections\<close>

named_theorems bv_defs "definitions of the bit-vector primitives"
named_theorems bv_eval "what the bit-vector operations compute, over their unsigned reading"
named_theorems expr_defs "definitions of the composite expression builders"
named_theorems kr_defs "definitions of the range domain"

section \<open>Integers of a given width\<close>

text \<open>The two readings of a \<open>w\<close>-bit pattern, by plain arithmetic.\<close>

lemma take_bit_id: "0 \<le> (x::int) \<Longrightarrow> x < 2 ^ w \<Longrightarrow> take_bit w x = x"
  by (simp add: take_bit_int_eq_self)

lemma take_bit_lt: "take_bit w (x::int) < 2 ^ w"
  by simp

lemma take_bit_id_iff: "take_bit w (x::int) = x \<longleftrightarrow> 0 \<le> x \<and> x < 2 ^ w"
  using take_bit_int_eq_self [of x w] take_bit_nonnegative [of w x] take_bit_int_less_exp [of w x]
  by (metis)

lemma pow2_half: "0 < w \<Longrightarrow> (2::int) ^ w = 2 * 2 ^ (w - 1)"
  by (cases w) simp_all

lemma pow2_mono: "m \<le> n \<Longrightarrow> (2::int) ^ m \<le> 2 ^ n"
  by (rule power_increasing) simp_all

lemma lt_pow2_mono: "(x::int) < 2 ^ m \<Longrightarrow> m \<le> n \<Longrightarrow> x < 2 ^ n"
  using pow2_mono [of m n] by linarith

lemma ge_neg_pow2_mono: "- (2 ^ m) \<le> (x::int) \<Longrightarrow> m \<le> n \<Longrightarrow> - (2 ^ n) \<le> x"
  using pow2_mono [of m n] by linarith

lemma signed_take_bit_cases:
  assumes "0 < w" "0 \<le> (x::int)" "x < 2 ^ w"
  shows "signed_take_bit (w - 1) x = (if x < 2 ^ (w - 1) then x else x - 2 ^ w)"
proof -
  have e: "signed_take_bit (w - 1) x = take_bit w (x + 2 ^ (w - 1)) - 2 ^ (w - 1)"
    using assms(1) by (simp add: signed_take_bit_eq_take_bit_shift)
  show ?thesis
  proof (cases "x < 2 ^ (w - 1)")
    case True
    then have "take_bit w (x + 2 ^ (w - 1)) = x + 2 ^ (w - 1)"
      using assms by (intro take_bit_id) (auto simp: pow2_half)
    with e True show ?thesis by simp
  next
    case False
    then have "take_bit w (x + 2 ^ (w - 1) - 2 ^ w) = x + 2 ^ (w - 1) - 2 ^ w"
      using assms by (intro take_bit_id) (auto simp: pow2_half)
    moreover have "take_bit w (x + 2 ^ (w - 1) - 2 ^ w) = take_bit w (x + 2 ^ (w - 1))"
      by (simp add: take_bit_eq_mod)
    ultimately show ?thesis using e False by simp
  qed
qed

lemma signed_take_bit_id:
  assumes "0 < w" "- (2 ^ (w - 1)) \<le> (x::int)" "x < 2 ^ (w - 1)"
  shows "signed_take_bit (w - 1) x = x"
  using assms by (simp add: signed_take_bit_int_eq_self)

lemma signed_take_bit_bounds:
  "- (2 ^ (w - 1)) \<le> signed_take_bit (w - 1) (x::int) \<and> signed_take_bit (w - 1) x < 2 ^ (w - 1)"
  by (simp add: signed_take_bit_int_greater_eq_minus_exp signed_take_bit_int_less_exp)

section \<open>Division\<close>

lemma zle_div_iff:
  assumes "0 < (k::int)" shows "m \<le> x div k \<longleftrightarrow> m * k \<le> x"
proof
  assume "m \<le> x div k"
  then have "m * k \<le> x div k * k" using assms by (intro mult_right_mono) auto
  also have "\<dots> \<le> x" using assms by (metis add_le_same_cancel1 div_mult_mod_eq le_add_same_cancel1 pos_mod_sign)
  finally show "m * k \<le> x" .
next
  assume "m * k \<le> x"
  then have "m * k div k \<le> x div k" using assms by (intro zdiv_mono1) auto
  with assms show "m \<le> x div k" by simp
qed

lemma zdiv_less_iff: "0 < (k::int) \<Longrightarrow> x div k < m \<longleftrightarrow> x < m * k"
  using zle_div_iff [of k m x] by linarith

lemma zdiv_le_self: "0 \<le> (x::int) \<Longrightarrow> 0 < k \<Longrightarrow> x div k \<le> x"
  using zdiv_mono2 [of x 1 k] by simp

end
