(* ===== verification/Bv.thy ===== *)
theory Bv
  imports Prelude "HOL-Library.Signed_Division"
begin

text \<open>
  Bit-vectors whose width is a value, not a type: the value of an \<open>smt::expr\<close> of bit-vector
  sort under an assignment, and at the same time the \<open>llvm::APInt\<close> the compositional
  validator computes with. The primitives are the operations of the SMT-LIB theory of
  fixed-width bit-vectors, which is what the Z3 builders called in \<open>smt/expr.cpp\<close> stand for.
  A bit-vector carries its width and its unsigned reading; \<open>sval\<close> is the two's complement
  reading.
\<close>

section \<open>Bit-vectors and their two readings\<close>

datatype bv = BV (bits: nat) (uval: int)

definition mk :: "nat \<Rightarrow> int \<Rightarrow> bv" where
  "mk w n = BV w (take_bit w n)"

definition wf_bv :: "bv \<Rightarrow> bool" where
  "wf_bv a \<longleftrightarrow> 0 < bits a \<and> 0 \<le> uval a \<and> uval a < 2 ^ bits a"

definition sval :: "bv \<Rightarrow> int" where
  "sval a = signed_take_bit (bits a - 1) (uval a)"

section \<open>Primitives\<close>

definition bvadd :: "bv \<Rightarrow> bv \<Rightarrow> bv" where [bv_defs]: "bvadd a b = mk (bits a) (uval a + uval b)"
definition bvsub :: "bv \<Rightarrow> bv \<Rightarrow> bv" where [bv_defs]: "bvsub a b = mk (bits a) (uval a - uval b)"
definition bvmul :: "bv \<Rightarrow> bv \<Rightarrow> bv" where [bv_defs]: "bvmul a b = mk (bits a) (uval a * uval b)"
definition bvneg :: "bv \<Rightarrow> bv" where [bv_defs]: "bvneg a = mk (bits a) (- uval a)"

definition bvudiv :: "bv \<Rightarrow> bv \<Rightarrow> bv" where [bv_defs]:
  "bvudiv a b = (if uval b = 0 then mk (bits a) (- 1) else mk (bits a) (uval a div uval b))"
definition bvurem :: "bv \<Rightarrow> bv \<Rightarrow> bv" where [bv_defs]:
  "bvurem a b = mk (bits a) (uval a mod uval b)"
definition bvsdiv :: "bv \<Rightarrow> bv \<Rightarrow> bv" where [bv_defs]:
  "bvsdiv a b = (if uval b = 0 then mk (bits a) (if sval a < 0 then 1 else - 1)
                 else mk (bits a) (sval a sdiv sval b))"
definition bvsrem :: "bv \<Rightarrow> bv \<Rightarrow> bv" where [bv_defs]:
  "bvsrem a b = mk (bits a) (sval a smod sval b)"

definition bvand :: "bv \<Rightarrow> bv \<Rightarrow> bv" where [bv_defs]: "bvand a b = mk (bits a) (uval a AND uval b)"
definition bvor :: "bv \<Rightarrow> bv \<Rightarrow> bv" where [bv_defs]: "bvor a b = mk (bits a) (uval a OR uval b)"
definition bvxor :: "bv \<Rightarrow> bv \<Rightarrow> bv" where [bv_defs]: "bvxor a b = mk (bits a) (uval a XOR uval b)"
definition bvnot :: "bv \<Rightarrow> bv" where [bv_defs]: "bvnot a = mk (bits a) (NOT (uval a))"

definition bvshl :: "bv \<Rightarrow> bv \<Rightarrow> bv" where [bv_defs]:
  "bvshl a b = mk (bits a) (push_bit (nat (uval b)) (uval a))"
definition bvlshr :: "bv \<Rightarrow> bv \<Rightarrow> bv" where [bv_defs]:
  "bvlshr a b = mk (bits a) (drop_bit (nat (uval b)) (uval a))"
definition bvashr :: "bv \<Rightarrow> bv \<Rightarrow> bv" where [bv_defs]:
  "bvashr a b = mk (bits a) (drop_bit (nat (uval b)) (sval a))"

definition bvconcat :: "bv \<Rightarrow> bv \<Rightarrow> bv" where [bv_defs]:
  "bvconcat a b = BV (bits a + bits b) (push_bit (bits b) (uval a) + uval b)"
definition bvextract :: "bv \<Rightarrow> nat \<Rightarrow> nat \<Rightarrow> bv" where [bv_defs]:
  "bvextract a high low = mk (Suc high - low) (drop_bit low (uval a))"
definition bvzext :: "bv \<Rightarrow> nat \<Rightarrow> bv" where [bv_defs]: "bvzext a n = BV (bits a + n) (uval a)"
definition bvsext :: "bv \<Rightarrow> nat \<Rightarrow> bv" where [bv_defs]: "bvsext a n = mk (bits a + n) (sval a)"
definition bvtrunc :: "bv \<Rightarrow> nat \<Rightarrow> bv" where [bv_defs]: "bvtrunc a w = mk w (uval a)"

definition bvult :: "bv \<Rightarrow> bv \<Rightarrow> bool" where [bv_defs]: "bvult a b \<longleftrightarrow> uval a < uval b"
definition bvule :: "bv \<Rightarrow> bv \<Rightarrow> bool" where [bv_defs]: "bvule a b \<longleftrightarrow> uval a \<le> uval b"
definition bvslt :: "bv \<Rightarrow> bv \<Rightarrow> bool" where [bv_defs]: "bvslt a b \<longleftrightarrow> sval a < sval b"
definition bvsle :: "bv \<Rightarrow> bv \<Rightarrow> bool" where [bv_defs]: "bvsle a b \<longleftrightarrow> sval a \<le> sval b"

definition bit_at :: "bv \<Rightarrow> nat \<Rightarrow> bool" where
  "bit_at a i \<longleftrightarrow> i < bits a \<and> bit (uval a) i"

section \<open>Basic facts\<close>

lemma bits_mk [simp]: "bits (mk w n) = w"
  by (simp add: mk_def)

lemma uval_mk [simp]: "uval (mk w n) = take_bit w n"
  by (simp add: mk_def)

lemma wf_mk [simp]: "wf_bv (mk w n) \<longleftrightarrow> 0 < w"
  by (simp add: wf_bv_def)

lemma wf_bvD:
  assumes "wf_bv a"
  shows "0 < bits a" "0 \<le> uval a" "uval a < 2 ^ bits a" "take_bit (bits a) (uval a) = uval a"
  using assms by (auto simp: wf_bv_def take_bit_id_iff)

lemma bv_eq_iff: "a = b \<longleftrightarrow> bits a = bits b \<and> uval a = uval b"
  by (cases a; cases b) simp

lemma sval_mk: "0 < w \<Longrightarrow> sval (mk w n) = signed_take_bit (w - 1) n"
  by (cases w) (simp_all add: sval_def signed_take_bit_take_bit)

lemma sval_cases:
  "wf_bv a \<Longrightarrow> sval a = (if uval a < 2 ^ (bits a - 1) then uval a else uval a - 2 ^ bits a)"
  using signed_take_bit_cases [of "bits a" "uval a"] by (simp add: sval_def wf_bv_def)

lemma sval_lower: "- (2 ^ (bits a - 1)) \<le> sval a"
  and sval_upper: "sval a < 2 ^ (bits a - 1)"
  using signed_take_bit_bounds [of "bits a" "uval a"] by (simp_all add: sval_def)

lemma take_bit_sval: "wf_bv a \<Longrightarrow> take_bit (bits a) (sval a) = uval a"
  by (simp add: sval_def wf_bv_def take_bit_signed_take_bit take_bit_int_eq_self)

lemma bv_eq_sval: "wf_bv a \<Longrightarrow> wf_bv b \<Longrightarrow> bits a = bits b \<Longrightarrow> a = b \<longleftrightarrow> sval a = sval b"
  by (metis bv_eq_iff take_bit_sval)

lemma bv_eq_uval: "bits a = bits b \<Longrightarrow> a = b \<longleftrightarrow> uval a = uval b"
  by (simp add: bv_eq_iff)

lemma sval_neg_iff: "wf_bv a \<Longrightarrow> sval a < 0 \<longleftrightarrow> 2 ^ (bits a - 1) \<le> uval a"
  using wf_bvD [of a] by (auto simp: sval_cases)

lemma sval_nonneg_eq: "wf_bv a \<Longrightarrow> 0 \<le> sval a \<longleftrightarrow> sval a = uval a"
  using wf_bvD [of a] by (auto simp: sval_cases)

lemma sval_eq_uval: "wf_bv a \<Longrightarrow> uval a < 2 ^ (bits a - 1) \<Longrightarrow> sval a = uval a"
  by (simp add: sval_cases)

lemma sval_zero_iff: "wf_bv a \<Longrightarrow> sval a = 0 \<longleftrightarrow> uval a = 0"
  using wf_bvD [of a] by (auto simp: sval_cases)

lemma bits_ops [simp]:
  "bits (bvadd a b) = bits a" "bits (bvsub a b) = bits a" "bits (bvmul a b) = bits a"
  "bits (bvneg a) = bits a" "bits (bvudiv a b) = bits a" "bits (bvurem a b) = bits a"
  "bits (bvsdiv a b) = bits a" "bits (bvsrem a b) = bits a" "bits (bvand a b) = bits a"
  "bits (bvor a b) = bits a" "bits (bvxor a b) = bits a" "bits (bvnot a) = bits a"
  "bits (bvshl a b) = bits a" "bits (bvlshr a b) = bits a" "bits (bvashr a b) = bits a"
  "bits (bvconcat a b) = bits a + bits b" "bits (bvextract a h l) = Suc h - l"
  "bits (bvzext a n) = bits a + n" "bits (bvsext a n) = bits a + n" "bits (bvtrunc a w) = w"
  by (simp_all add: bv_defs)

lemma wf_ops [simp]:
  assumes "wf_bv a"
  shows "wf_bv (bvadd a b)" "wf_bv (bvsub a b)" "wf_bv (bvmul a b)" "wf_bv (bvneg a)"
    "wf_bv (bvudiv a b)" "wf_bv (bvurem a b)" "wf_bv (bvsdiv a b)" "wf_bv (bvsrem a b)"
    "wf_bv (bvand a b)" "wf_bv (bvor a b)" "wf_bv (bvxor a b)" "wf_bv (bvnot a)"
    "wf_bv (bvshl a b)" "wf_bv (bvlshr a b)" "wf_bv (bvashr a b)" "wf_bv (bvsext a n)"
  using assms by (simp_all add: bv_defs wf_bvD)

lemma wf_bvzext [simp]: "wf_bv a \<Longrightarrow> wf_bv (bvzext a n)"
  using lt_pow2_mono [of "uval a" "bits a" "bits a + n"] by (auto simp: bv_defs wf_bv_def)

lemma wf_bvextract [simp]: "low \<le> high \<Longrightarrow> wf_bv (bvextract a high low)"
  by (simp add: bv_defs)

lemma wf_bvtrunc [simp]: "0 < w \<Longrightarrow> wf_bv (bvtrunc a w)"
  by (simp add: bv_defs)

section \<open>What the primitives compute\<close>

lemma uval_bvzext [simp]: "uval (bvzext a n) = uval a"
  by (simp add: bv_defs)

lemma sval_bvzext: "wf_bv a \<Longrightarrow> 0 < n \<Longrightarrow> sval (bvzext a n) = uval a"
  using lt_pow2_mono [of "uval a" "bits a" "bits a + n - 1"] wf_bvD [of a]
  by (subst sval_eq_uval) simp_all

lemma sval_bvsext [simp]: "wf_bv a \<Longrightarrow> sval (bvsext a n) = sval a"
  using lt_pow2_mono [OF sval_upper [of a], of "bits a + n - 1"] wf_bvD(1) [of a]
    ge_neg_pow2_mono [OF sval_lower [of a], of "bits a + n - 1"]
  by (simp add: bv_defs sval_mk signed_take_bit_int_eq_self)

lemma sval_mk_id:
  "0 < w \<Longrightarrow> - (2 ^ (w - 1)) \<le> n \<Longrightarrow> n < 2 ^ (w - 1) \<Longrightarrow> sval (mk w n) = n"
  by (simp add: sval_mk signed_take_bit_int_eq_self)

lemma sval_mk_eq_iff:
  "0 < w \<Longrightarrow> sval (mk w n) = n \<longleftrightarrow> - (2 ^ (w - 1)) \<le> n \<and> n < 2 ^ (w - 1)"
  using sval_lower [of "mk w n"] sval_upper [of "mk w n"] by (auto simp: sval_mk_id)

lemma uval_mk_id: "0 \<le> n \<Longrightarrow> n < 2 ^ w \<Longrightarrow> uval (mk w n) = n"
  by (simp add: take_bit_int_eq_self)

lemma mk_sval: "wf_bv a \<Longrightarrow> mk (bits a) (sval a) = a"
  by (simp add: bv_eq_iff take_bit_sval)

lemma mk_uval: "wf_bv a \<Longrightarrow> mk (bits a) (uval a) = a"
  by (simp add: bv_eq_iff wf_bvD)

lemma mk_add_cong: "take_bit w x = take_bit w x' \<Longrightarrow> take_bit w y = take_bit w y' \<Longrightarrow>
    mk w (x + y) = mk w (x' + y')"
  by (metis mk_def take_bit_add)

lemma mk_sub_cong: "take_bit w x = take_bit w x' \<Longrightarrow> take_bit w y = take_bit w y' \<Longrightarrow>
    mk w (x - y) = mk w (x' - y')"
  by (metis mk_def take_bit_diff)

lemma mk_mul_cong: "take_bit w x = take_bit w x' \<Longrightarrow> take_bit w y = take_bit w y' \<Longrightarrow>
    mk w (x * y) = mk w (x' * y')"
  by (metis mk_def take_bit_mult)

text \<open>Addition, subtraction and multiplication are the same on both readings.\<close>

lemma bvadd_signed: "wf_bv a \<Longrightarrow> wf_bv b \<Longrightarrow> bits a = bits b \<Longrightarrow>
    bvadd a b = mk (bits a) (sval a + sval b)"
  unfolding bvadd_def by (rule mk_add_cong) (metis take_bit_sval wf_bvD(4))+

lemma bvsub_signed: "wf_bv a \<Longrightarrow> wf_bv b \<Longrightarrow> bits a = bits b \<Longrightarrow>
    bvsub a b = mk (bits a) (sval a - sval b)"
  unfolding bvsub_def by (rule mk_sub_cong) (metis take_bit_sval wf_bvD(4))+

lemma bvmul_signed: "wf_bv a \<Longrightarrow> wf_bv b \<Longrightarrow> bits a = bits b \<Longrightarrow>
    bvmul a b = mk (bits a) (sval a * sval b)"
  unfolding bvmul_def by (rule mk_mul_cong) (metis take_bit_sval wf_bvD(4))+

lemma bvneg_signed: "wf_bv a \<Longrightarrow> bvneg a = mk (bits a) (- sval a)"
  using mk_sub_cong [of "bits a" 0 0 "uval a" "sval a"]
  by (simp add: bvneg_def take_bit_sval wf_bvD)

end
