(* ===== verification/Expr.thy ===== *)
theory Expr
  imports Bv
begin

text \<open>
  The composite builders of \<open>smt/expr.cpp\<close>. Each of them assembles a formula or a term out of
  the primitive operations; its model computes the value that term denotes, with the same
  primitives in the same order. The syntactic facts a builder consults to pick a cheaper
  encoding (is an operand a numeral, how many leading zeros are evident) are arguments here.
\<close>

section \<open>Constants, sign and resizing\<close>

definition IntSMin :: "nat \<Rightarrow> bv" where [expr_defs]:
  "IntSMin w = (let v = mk 1 1 in if w > 1 then bvconcat v (mk (w - 1) 0) else v)"

definition IntSMax :: "nat \<Rightarrow> bv" where [expr_defs]:
  "IntSMax w = (let v = mk 1 0 in if w > 1 then bvconcat v (mk (w - 1) (- 1)) else v)"

definition IntUMax :: "nat \<Rightarrow> bv" where [expr_defs]: "IntUMax w = mk w (- 1)"

definition sign :: "bv \<Rightarrow> bv" where [expr_defs]:
  "sign a = (let i = bits a - 1 in bvextract a i i)"

definition isNegative :: "bv \<Rightarrow> bool" where [expr_defs]: "isNegative a \<longleftrightarrow> sign a = mk 1 1"

definition zext :: "bv \<Rightarrow> nat \<Rightarrow> bv" where [expr_defs]:
  "zext a n = (if n = 0 then a else bvconcat (mk n 0) a)"

definition trunc :: "bv \<Rightarrow> nat \<Rightarrow> bv" where [expr_defs]: "trunc a w = bvextract a (w - 1) 0"

definition sextOrTrunc :: "bv \<Rightarrow> nat \<Rightarrow> bv" where [expr_defs]:
  "sextOrTrunc a w = (if bits a < w then bvsext a (w - bits a) else trunc a w)"

definition zextOrTrunc :: "bv \<Rightarrow> nat \<Rightarrow> bv" where [expr_defs]:
  "zextOrTrunc a w = (if bits a < w then zext a (w - bits a) else trunc a w)"

definition toBVBool :: "bool \<Rightarrow> bv" where [expr_defs]:
  "toBVBool b = (if b then mk 1 1 else mk 1 0)"

section \<open>Overflow predicates\<close>

text \<open>
  What \<open>isConst()\<close> and \<open>min_leading_zeros()\<close> report about the two operands of an overflow
  predicate. The report is honest when the operand has at least that many leading zeros.
\<close>

record operand_facts =
  is_const :: bool
  min_leading_zeros :: nat

definition honest_facts :: "operand_facts \<Rightarrow> bv \<Rightarrow> bool" where
  "honest_facts f a \<longleftrightarrow> min_leading_zeros f \<le> bits a \<and> uval a < 2 ^ (bits a - min_leading_zeros f)"

definition add_no_soverflow_const :: "bv \<Rightarrow> bv \<Rightarrow> bool" where
  "add_no_soverflow_const a c =
     (let v = bvsub (IntSMin (bits a)) c in
      if isNegative c then bvsle v a else bvsle a (bvsub v (mk (bits c) 1)))"

definition add_no_soverflow ::
  "operand_facts \<Rightarrow> operand_facts \<Rightarrow> bv \<Rightarrow> bv \<Rightarrow> bool" where
  "add_no_soverflow fa fb a b =
     (if min_leading_zeros fa \<ge> 2 \<and> min_leading_zeros fb \<ge> 2 then True
      else if is_const fb then add_no_soverflow_const a b
      else if is_const fa then add_no_soverflow_const b a
      else bvadd (bvsext a 1) (bvsext b 1) = bvsext (bvadd a b) 1)"

definition add_no_uoverflow ::
  "operand_facts \<Rightarrow> operand_facts \<Rightarrow> bv \<Rightarrow> bv \<Rightarrow> bool" where
  "add_no_uoverflow fa fb a b =
     (if min_leading_zeros fa \<ge> 1 \<and> min_leading_zeros fb \<ge> 1 then True
      else if is_const fb then bvule a (bvsub (mk (bits b) (- 1)) b)
      else if is_const fa then bvule b (bvsub (mk (bits a) (- 1)) a)
      else sign (bvadd (zext a 1) (zext b 1)) = mk 1 0)"

definition add_no_usoverflow ::
  "operand_facts \<Rightarrow> operand_facts \<Rightarrow> bv \<Rightarrow> bv \<Rightarrow> bool" where
  "add_no_usoverflow fa fb a b =
     (if min_leading_zeros fa \<ge> 1 \<and> min_leading_zeros fb \<ge> 1 then True
      else sign (bvadd (zext a 1) (bvsext b 1)) = mk 1 0)"

definition sub_no_soverflow ::
  "operand_facts \<Rightarrow> operand_facts \<Rightarrow> bv \<Rightarrow> bv \<Rightarrow> bool" where
  "sub_no_soverflow fa fb a b =
     (if min_leading_zeros fa \<ge> 1 \<and> min_leading_zeros fb \<ge> 1 then True
      else bvsub (bvsext a 1) (bvsext b 1) = bvsext (bvsub a b) 1)"

definition sub_no_uoverflow :: "bv \<Rightarrow> bv \<Rightarrow> bool" where
  "sub_no_uoverflow a b \<longleftrightarrow> sign (bvsub (zext a 1) (zext b 1)) = mk 1 0"

definition mul_no_soverflow :: "bv \<Rightarrow> bv \<Rightarrow> bool" where
  "mul_no_soverflow a b \<longleftrightarrow>
     (let bw = bits a in bvmul (bvsext a bw) (bvsext b bw) = bvsext (bvmul a b) bw)"

definition mul_no_uoverflow :: "bv \<Rightarrow> bv \<Rightarrow> bool" where
  "mul_no_uoverflow a b \<longleftrightarrow>
     (let bw = bits a; p = bvmul (zext a bw) (zext b bw)
      in bvextract p (2 * bw - 1) bw = mk bw 0)"

definition sdiv_exact :: "bv \<Rightarrow> bv \<Rightarrow> bool" where
  "sdiv_exact a b \<longleftrightarrow> bvmul (bvsdiv a b) b = a"

definition udiv_exact :: "bv \<Rightarrow> bv \<Rightarrow> bool" where
  "udiv_exact a b \<longleftrightarrow> bvmul (bvudiv a b) b = a"

definition shl_no_soverflow :: "bv \<Rightarrow> bv \<Rightarrow> bool" where
  "shl_no_soverflow a b \<longleftrightarrow> bvashr (bvshl a b) b = a"

definition shl_no_uoverflow :: "bv \<Rightarrow> bv \<Rightarrow> bool" where
  "shl_no_uoverflow a b \<longleftrightarrow> bvlshr (bvshl a b) b = a"

definition ashr_exact :: "bv \<Rightarrow> bv \<Rightarrow> bool" where
  "ashr_exact a b \<longleftrightarrow> bvshl (bvashr a b) b = a"

definition lshr_exact :: "bv \<Rightarrow> bv \<Rightarrow> bool" where
  "lshr_exact a b \<longleftrightarrow> bvshl (bvlshr a b) b = a"

section \<open>Saturating arithmetic\<close>

definition sadd_sat :: "bv \<Rightarrow> bv \<Rightarrow> bv" where
  "sadd_sat a b =
     (let add_ext = bvadd (bvsext a 1) (bvsext b 1);
          mn = IntSMin (bits a); mx = IntSMax (bits a)
      in if bvsle add_ext (bvsext mn 1) then mn
         else if bvsle (bvsext mx 1) add_ext then mx
         else bvadd a b)"

definition uadd_sat :: "operand_facts \<Rightarrow> operand_facts \<Rightarrow> bv \<Rightarrow> bv \<Rightarrow> bv" where
  "uadd_sat fa fb a b = (if add_no_uoverflow fa fb a b then bvadd a b else IntUMax (bits a))"

definition ssub_sat :: "bv \<Rightarrow> bv \<Rightarrow> bv" where
  "ssub_sat a b =
     (let sub_ext = bvsub (bvsext a 1) (bvsext b 1);
          mn = IntSMin (bits a); mx = IntSMax (bits a)
      in if bvsle sub_ext (bvsext mn 1) then mn
         else if bvsle (bvsext mx 1) sub_ext then mx
         else bvsub a b)"

definition usub_sat :: "bv \<Rightarrow> bv \<Rightarrow> bv" where
  "usub_sat a b = (if bvule a b then mk (bits a) 0 else bvsub a b)"

definition sshl_sat :: "bv \<Rightarrow> bv \<Rightarrow> bv" where
  "sshl_sat a b =
     (if shl_no_soverflow a b then bvshl a b
      else if isNegative a then IntSMin (bits a) else IntSMax (bits a))"

definition ushl_sat :: "bv \<Rightarrow> bv \<Rightarrow> bv" where
  "ushl_sat a b = (if shl_no_uoverflow a b then bvshl a b else IntUMax (bits a))"

section \<open>Facts on the constants and on resizing\<close>

lemma IntSMin_eq: "0 < w \<Longrightarrow> IntSMin w = mk w (2 ^ (w - 1))"
  by (cases "w = 1")
    (auto simp: IntSMin_def bv_defs bv_eq_iff push_bit_eq_mult pow2_half take_bit_int_eq_self Let_def)

lemma IntSMax_eq: "0 < w \<Longrightarrow> IntSMax w = mk w (2 ^ (w - 1) - 1)"
proof -
  assume w: "0 < w"
  have "take_bit w (2 ^ (w - 1) - 1 :: int) = 2 ^ (w - 1) - 1"
    using zero_less_power [of "2::int" "w - 1"] pow2_half [OF w] by (intro take_bit_id) linarith+
  with w show ?thesis
    by (cases "w = 1") (auto simp: IntSMax_def bv_defs bv_eq_iff mask_eq_exp_minus_1 Let_def)
qed

lemma sval_IntSMin [simp]: "0 < w \<Longrightarrow> sval (IntSMin w) = - (2 ^ (w - 1))"
  by (subst sval_cases) (auto simp: IntSMin_eq pow2_half take_bit_int_eq_self)

lemma sval_IntSMax [simp]: "0 < w \<Longrightarrow> sval (IntSMax w) = 2 ^ (w - 1) - 1"
  by (simp add: IntSMax_eq sval_mk_id)

lemma wf_consts [simp]:
  "0 < w \<Longrightarrow> wf_bv (IntSMin w)" "0 < w \<Longrightarrow> wf_bv (IntSMax w)" "0 < w \<Longrightarrow> wf_bv (IntUMax w)"
  by (simp_all add: IntSMin_eq IntSMax_eq IntUMax_def)

lemma bits_consts [simp]:
  "0 < w \<Longrightarrow> bits (IntSMin w) = w" "0 < w \<Longrightarrow> bits (IntSMax w) = w" "bits (IntUMax w) = w"
  by (simp_all add: IntSMin_eq IntSMax_eq IntUMax_def)

lemma uval_IntUMax [simp]: "uval (IntUMax w) = 2 ^ w - 1"
  by (simp add: IntUMax_def mask_eq_exp_minus_1)

lemma zext_eq: "wf_bv a \<Longrightarrow> zext a n = bvzext a n"
  by (auto simp: zext_def bv_defs bv_eq_iff)

lemma trunc_eq: "0 < w \<Longrightarrow> trunc a w = bvtrunc a w"
  by (simp add: trunc_def bv_defs)

lemma sign_top_bit:
  assumes "wf_bv a"
  shows "sign a = mk 1 (if 2 ^ (bits a - 1) \<le> uval a then 1 else 0)"
proof -
  have "drop_bit (bits a - 1) (uval a) = (if 2 ^ (bits a - 1) \<le> uval a then 1 else 0)"
  proof (cases "2 ^ (bits a - 1) \<le> uval a")
    case True
    have "uval a div 2 ^ (bits a - 1) = 1"
      using assms True pow2_half [of "bits a"]
      by (intro int_div_pos_eq [where r = "uval a - 2 ^ (bits a - 1)"]) (auto simp: wf_bv_def)
    with True show ?thesis by (simp add: drop_bit_eq_div)
  next
    case False
    with assms show ?thesis by (simp add: drop_bit_eq_div wf_bv_def)
  qed
  with assms show ?thesis
    by (simp add: sign_def bvextract_def wf_bv_def Let_def Suc_diff_le)
qed

lemma mk1_eq [simp]: "mk (Suc 0) 1 = mk (Suc 0) 0 \<longleftrightarrow> False" "mk (Suc 0) 0 = mk (Suc 0) 1 \<longleftrightarrow> False"
  by (simp_all add: mk_def)

lemma isNegative_iff: "wf_bv a \<Longrightarrow> isNegative a \<longleftrightarrow> sval a < 0"
  by (simp add: isNegative_def sign_top_bit sval_neg_iff)

lemma sign_zero_iff: "wf_bv a \<Longrightarrow> sign a = mk 1 0 \<longleftrightarrow> 0 \<le> sval a"
  by (simp add: sign_top_bit linorder_not_less [symmetric] sval_neg_iff)

section \<open>The overflow predicates say what they are named after\<close>

lemma sext_add_sval:
  assumes "wf_bv a" "wf_bv b" "bits a = bits b"
  shows "sval (bvadd (bvsext a 1) (bvsext b 1)) = sval a + sval b"
proof -
  have "sval (bvadd (bvsext a 1) (bvsext b 1)) = sval (mk (bits a + 1) (sval a + sval b))"
    using assms by (simp add: bvadd_signed)
  also have "\<dots> = sval a + sval b"
    using sval_lower [of a] sval_upper [of a] sval_lower [of b] sval_upper [of b] assms
      pow2_half [of "bits a"] wf_bvD(1) [of a]
    by (intro sval_mk_id) auto
  finally show ?thesis .
qed

lemma sext_sub_sval:
  assumes "wf_bv a" "wf_bv b" "bits a = bits b"
  shows "sval (bvsub (bvsext a 1) (bvsext b 1)) = sval a - sval b"
proof -
  have "sval (bvsub (bvsext a 1) (bvsext b 1)) = sval (mk (bits a + 1) (sval a - sval b))"
    using assms by (simp add: bvsub_signed)
  also have "\<dots> = sval a - sval b"
    using sval_lower [of a] sval_upper [of a] sval_lower [of b] sval_upper [of b] assms
      pow2_half [of "bits a"] wf_bvD(1) [of a]
    by (intro sval_mk_id) auto
  finally show ?thesis .
qed

text \<open>The exact signed result fits in \<open>w\<close> bits.\<close>

definition fits_s :: "nat \<Rightarrow> int \<Rightarrow> bool" where
  "fits_s w n \<longleftrightarrow> - (2 ^ (w - 1)) \<le> n \<and> n < 2 ^ (w - 1)"

definition fits_u :: "nat \<Rightarrow> int \<Rightarrow> bool" where
  "fits_u w n \<longleftrightarrow> 0 \<le> n \<and> n < 2 ^ w"

lemma generic_add_s:
  assumes "wf_bv a" "wf_bv b" "bits a = bits b"
  shows "bvadd (bvsext a 1) (bvsext b 1) = bvsext (bvadd a b) 1 \<longleftrightarrow> fits_s (bits a) (sval a + sval b)"
proof -
  have "bvadd (bvsext a 1) (bvsext b 1) = bvsext (bvadd a b) 1 \<longleftrightarrow>
      sval (bvadd (bvsext a 1) (bvsext b 1)) = sval (bvsext (bvadd a b) 1)"
    using assms by (intro bv_eq_sval) simp_all
  also have "\<dots> \<longleftrightarrow> sval (mk (bits a) (sval a + sval b)) = sval a + sval b"
    using sext_add_sval [OF assms] assms wf_bvD(1) [of b] by (auto simp: bvadd_signed)
  finally show ?thesis using assms wf_bvD(1) by (simp add: sval_mk_eq_iff fits_s_def)
qed

lemma generic_sub_s:
  assumes "wf_bv a" "wf_bv b" "bits a = bits b"
  shows "bvsub (bvsext a 1) (bvsext b 1) = bvsext (bvsub a b) 1 \<longleftrightarrow> fits_s (bits a) (sval a - sval b)"
proof -
  have "bvsub (bvsext a 1) (bvsext b 1) = bvsext (bvsub a b) 1 \<longleftrightarrow>
      sval (bvsub (bvsext a 1) (bvsext b 1)) = sval (bvsext (bvsub a b) 1)"
    using assms by (intro bv_eq_sval) simp_all
  also have "\<dots> \<longleftrightarrow> sval (mk (bits a) (sval a - sval b)) = sval a - sval b"
    using sext_sub_sval [OF assms] assms wf_bvD(1) [of b] by (auto simp: bvsub_signed)
  finally show ?thesis using assms wf_bvD(1) by (simp add: sval_mk_eq_iff fits_s_def)
qed

lemma const_add_s:
  assumes "wf_bv a" "wf_bv c" "bits a = bits c"
  shows "add_no_soverflow_const a c \<longleftrightarrow> fits_s (bits a) (sval a + sval c)"
proof -
  let ?w = "bits a"
  have w: "0 < ?w" using assms(1) by (rule wf_bvD)
  have v: "bvsub (IntSMin ?w) c = mk ?w (- (2 ^ (?w - 1)) - sval c)"
    using assms w by (simp add: bvsub_signed)
  have v1: "bvsub (bvsub (IntSMin ?w) c) (mk ?w 1) = mk ?w (2 ^ (?w - 1) - 1 - sval c)"
  proof -
    have "mk ?w (uval (mk ?w (- (2 ^ (?w - 1)) - sval c)) - uval (mk ?w 1)) =
        mk ?w (2 ^ (?w - 1) - 1 - sval c)"
      using w pow2_half [OF w]
      by (simp add: mk_def take_bit_eq_mod mod_diff_eq) (smt (verit) minus_mod_self2)
    then show ?thesis unfolding v by (simp add: bvsub_def)
  qed
  show ?thesis
  proof (cases "isNegative c")
    case True
    then have "sval c < 0" using assms by (simp add: isNegative_iff)
    then have "sval (mk ?w (- (2 ^ (?w - 1)) - sval c)) = - (2 ^ (?w - 1)) - sval c"
      using w sval_lower [of c] assms(3) by (intro sval_mk_id) auto
    with True v \<open>sval c < 0\<close> sval_upper [of a] show ?thesis
      by (auto simp: add_no_soverflow_const_def bvsle_def fits_s_def)
  next
    case False
    then have c: "0 \<le> sval c" using assms by (simp add: isNegative_iff)
    then have "sval (mk ?w (2 ^ (?w - 1) - 1 - sval c)) = 2 ^ (?w - 1) - 1 - sval c"
      using w sval_upper [of c] assms(3) by (intro sval_mk_id) auto
    with False v1 c sval_lower [of a] assms(3) show ?thesis
      by (auto simp: add_no_soverflow_const_def bvsle_def fits_s_def)
  qed
qed

lemma honest_small:
  assumes "honest_facts f a" "k \<le> min_leading_zeros f"
  shows "uval a < 2 ^ (bits a - k)" "k \<le> bits a"
  using assms lt_pow2_mono [of "uval a" "bits a - min_leading_zeros f" "bits a - k"]
  by (auto simp: honest_facts_def)

lemma add_no_soverflow_iff:
  assumes "wf_bv a" "wf_bv b" "bits a = bits b" "honest_facts fa a" "honest_facts fb b"
  shows "add_no_soverflow fa fb a b \<longleftrightarrow> fits_s (bits a) (sval a + sval b)"
proof (cases "min_leading_zeros fa \<ge> 2 \<and> min_leading_zeros fb \<ge> 2")
  case True
  have s: "uval a < 2 ^ (bits a - 2)" "uval b < 2 ^ (bits a - 2)" "2 \<le> bits a"
    using honest_small [of fa a 2] honest_small [of fb b 2] True assms by simp_all
  have "(2::int) ^ (bits a - 1) = 2 * 2 ^ (bits a - 2)"
    using s pow2_half [of "bits a - 1"] by (simp add: numeral_2_eq_2)
  then have "sval a = uval a" "sval b = uval b" "uval a + uval b < 2 ^ (bits a - 1)"
    using s assms wf_bvD(2) [of a] wf_bvD(2) [of b] by (auto simp: sval_cases)
  with True assms wf_bvD(2) [of a] wf_bvD(2) [of b] show ?thesis
    by (simp add: add_no_soverflow_def fits_s_def)
next
  case False
  with assms show ?thesis
    using generic_add_s const_add_s [of a b] const_add_s [of b a]
    by (auto simp: add_no_soverflow_def add.commute)
qed

lemma sign_zero_uval: "wf_bv a \<Longrightarrow> sign a = mk 1 0 \<longleftrightarrow> uval a < 2 ^ (bits a - 1)"
  by (simp add: sign_top_bit)

lemma fits_u_uval [simp]: "wf_bv a \<Longrightarrow> fits_u (bits a) (uval a)"
  by (simp add: fits_u_def wf_bvD)

lemma add_no_uoverflow_iff:
  assumes "wf_bv a" "wf_bv b" "bits a = bits b" "honest_facts fa a" "honest_facts fb b"
  shows "add_no_uoverflow fa fb a b \<longleftrightarrow> fits_u (bits a) (uval a + uval b)"
proof -
  let ?w = "bits a" and ?ok = "fits_u (bits a) (uval a + uval b)"
  note a = wf_bvD [OF assms(1)] and b = wf_bvD [OF assms(2)]
  have gen: "sign (bvadd (zext a 1) (zext b 1)) = mk 1 0 \<longleftrightarrow> ?ok"
  proof -
    have "uval a + uval b < 2 ^ (?w + 1)" using a(3) b(3) assms(3) by simp
    then have u: "uval (bvadd (zext a 1) (zext b 1)) = uval a + uval b"
      using assms(1,2) a(2) b(2) by (simp add: zext_eq bvadd_def take_bit_id)
    show ?thesis
      using assms(1,2) a(2) b(2) u by (subst sign_zero_uval) (simp_all add: zext_eq fits_u_def)
  qed
  have const: "bvule x (bvsub (mk ?w (- 1)) y) \<longleftrightarrow> fits_u ?w (uval x + uval y)"
    if "wf_bv x" "wf_bv y" "bits x = ?w" "bits y = ?w" for x y
  proof -
    have "uval (bvsub (mk ?w (- 1)) y) = take_bit ?w (2 ^ ?w - 1 - uval y)"
      by (simp add: bvsub_def mask_eq_exp_minus_1)
    also have "\<dots> = 2 ^ ?w - 1 - uval y"
      using that wf_bvD(2,3) [of y] by (intro take_bit_id) simp_all
    finally show ?thesis
      using that wf_bvD(2,3) [of x] wf_bvD(2,3) [of y] by (auto simp: bvule_def fits_u_def)
  qed
  have c1: "bvule a (bvsub (mk (bits b) (- 1)) b) \<longleftrightarrow> ?ok"
    using const [OF assms(1,2) refl assms(3) [symmetric]] by (simp only: assms(3))
  have c2: "bvule b (bvsub (mk ?w (- 1)) a) \<longleftrightarrow> ?ok"
    using const [OF assms(2,1) assms(3) [symmetric] refl] by (simp only: add.commute)
  have big: "?ok" if "min_leading_zeros fa \<ge> 1 \<and> min_leading_zeros fb \<ge> 1"
    using that honest_small(1) [of fa a 1] honest_small(1) [of fb b 1] assms(3-5) a(1,2) b(2)
      pow2_half [of ?w] by (simp add: fits_u_def)
  show ?thesis
    unfolding add_no_uoverflow_def gen c1 c2
    by (cases "min_leading_zeros fa \<ge> 1 \<and> min_leading_zeros fb \<ge> 1") (use big in simp_all)
qed

lemma add_no_usoverflow_iff:
  assumes "wf_bv a" "wf_bv b" "bits a = bits b" "honest_facts fa a" "honest_facts fb b"
  shows "add_no_usoverflow fa fb a b \<longleftrightarrow> fits_u (bits a) (uval a + sval b)"
proof -
  let ?w = "bits a"
  note a = wf_bvD [OF assms(1)] and b = wf_bvD [OF assms(2)]
  have e: "bvadd (zext a 1) (bvsext b 1) = mk (?w + 1) (uval a + sval b)"
    using assms by (simp add: bvadd_def zext_eq bvsext_def mk_def take_bit_eq_mod mod_add_right_eq)
  have gen: "sign (bvadd (zext a 1) (bvsext b 1)) = mk 1 0 \<longleftrightarrow> fits_u ?w (uval a + sval b)"
  proof (cases "0 \<le> uval a + sval b")
    case True
    have "uval (mk (?w + 1) (uval a + sval b)) = uval a + sval b"
      using True a b sval_upper [of b] pow2_half [of ?w] assms(3) by (intro uval_mk_id) auto
    with True show ?thesis using e a by (subst sign_zero_uval) (auto simp: fits_u_def)
  next
    case False
    have "take_bit (?w + 1) (uval a + sval b) = uval a + sval b + 2 ^ (?w + 1)"
      using False a sval_lower [of b] pow2_half [of ?w] assms(3)
        take_bit_id [of "uval a + sval b + 2 ^ (?w + 1)" "?w + 1"]
      by (simp add: take_bit_eq_mod)
    with False show ?thesis using e a sval_lower [of b] pow2_half [of ?w] assms(3)
      by (subst sign_zero_uval) (auto simp: fits_u_def)
  qed
  have big: "fits_u ?w (uval a + sval b)"
    if "min_leading_zeros fa \<ge> 1 \<and> min_leading_zeros fb \<ge> 1"
    using that honest_small(1) [of fa a 1] honest_small(1) [of fb b 1] assms a(1,2) b(2)
      pow2_half [of ?w] by (simp add: fits_u_def sval_eq_uval)
  show ?thesis
    unfolding add_no_usoverflow_def gen
    by (cases "min_leading_zeros fa \<ge> 1 \<and> min_leading_zeros fb \<ge> 1") (use big in simp_all)
qed

lemma sub_no_soverflow_iff:
  assumes "wf_bv a" "wf_bv b" "bits a = bits b" "honest_facts fa a" "honest_facts fb b"
  shows "sub_no_soverflow fa fb a b \<longleftrightarrow> fits_s (bits a) (sval a - sval b)"
proof -
  note a = wf_bvD [OF assms(1)] and b = wf_bvD [OF assms(2)]
  have "fits_s (bits a) (sval a - sval b)"
    if "min_leading_zeros fa \<ge> 1 \<and> min_leading_zeros fb \<ge> 1"
    using that honest_small(1) [of fa a 1] honest_small(1) [of fb b 1] assms a(2) b(2)
    by (auto simp: fits_s_def sval_eq_uval)
  then show ?thesis
    using generic_sub_s [OF assms(1-3)] by (auto simp: sub_no_soverflow_def)
qed

lemma sub_no_uoverflow_iff:
  assumes "wf_bv a" "wf_bv b" "bits a = bits b"
  shows "sub_no_uoverflow a b \<longleftrightarrow> fits_u (bits a) (uval a - uval b)"
proof -
  note a = wf_bvD [OF assms(1)] and b = wf_bvD [OF assms(2)]
  have "take_bit (bits a + 1) (uval a - uval b) =
      (if uval b \<le> uval a then uval a - uval b else uval a - uval b + 2 ^ (bits a + 1))"
    using a b assms(3) take_bit_id [of "uval a - uval b" "bits a + 1"]
      take_bit_id [of "uval a - uval b + 2 ^ (bits a + 1)" "bits a + 1"]
    by (auto simp: take_bit_eq_mod)
  then show ?thesis
    using a b assms unfolding sub_no_uoverflow_def
    by (subst sign_zero_uval) (auto simp: zext_eq bvsub_def fits_u_def)
qed

lemma abs_mult_bound:
  fixes x y :: int
  assumes "\<bar>x\<bar> \<le> m" "\<bar>y\<bar> \<le> m"
  shows "\<bar>x * y\<bar> \<le> m * m"
  using assms by (simp add: abs_mult mult_mono)

lemma sval_abs: "\<bar>sval a\<bar> \<le> 2 ^ (bits a - 1)"
  using sval_lower [of a] sval_upper [of a] by linarith

lemma mul_no_soverflow_iff:
  assumes "wf_bv a" "wf_bv b" "bits b = bits a"
  shows "mul_no_soverflow a b \<longleftrightarrow> fits_s (bits a) (sval a * sval b)"
proof -
  let ?w = "bits a" and ?p = "sval a * sval b"
  have w: "0 < ?w" using assms(1) by (rule wf_bvD)
  have "\<bar>?p\<bar> \<le> 2 ^ (?w - 1) * 2 ^ (?w - 1)"
    using abs_mult_bound [OF sval_abs [of a], of "sval b"] sval_abs [of b] by (simp add: assms(3))
  also have "\<dots> < 2 ^ (?w + ?w - 1)"
    using w by (simp flip: power_add)
  finally have wide: "sval (mk (?w + ?w) ?p) = ?p"
    using w by (intro sval_mk_id) auto
  have "mul_no_soverflow a b \<longleftrightarrow>
      sval (bvmul (bvsext a ?w) (bvsext b ?w)) = sval (bvsext (bvmul a b) ?w)"
    unfolding mul_no_soverflow_def Let_def using assms by (intro bv_eq_sval) simp_all
  also have "\<dots> \<longleftrightarrow> sval (mk ?w ?p) = ?p"
    using assms wide w by (simp add: bvmul_signed eq_commute)
  finally show ?thesis using w by (simp add: sval_mk_eq_iff fits_s_def)
qed

lemma mul_no_uoverflow_iff:
  assumes "wf_bv a" "wf_bv b" "bits b = bits a"
  shows "mul_no_uoverflow a b \<longleftrightarrow> fits_u (bits a) (uval a * uval b)"
proof -
  let ?w = "bits a" and ?p = "uval a * uval b"
  note a = wf_bvD [OF assms(1)] and b = wf_bvD [OF assms(2)]
  have p0: "0 \<le> ?p" using a(2) b(2) by simp
  have "?p < 2 ^ ?w * 2 ^ ?w"
    using a(2,3) b(2,3) by (intro mult_strict_mono) (simp_all add: assms(3))
  then have pw: "?p < 2 ^ (?w + ?w)" by (simp add: power_add)
  then have u: "uval (bvmul (zext a ?w) (zext b ?w)) = ?p"
    using p0 assms by (simp add: zext_eq bvmul_def take_bit_id)
  have "take_bit ?w (drop_bit ?w ?p) = ?p div 2 ^ ?w"
    using pw p0 by (simp add: drop_bit_eq_div take_bit_id pos_imp_zdiv_nonneg_iff
        zdiv_less_iff power_add)
  then have "mul_no_uoverflow a b \<longleftrightarrow> ?p div 2 ^ ?w = 0"
    using a(1) u by (simp add: mul_no_uoverflow_def Let_def bvextract_def bv_eq_iff mult_2)
  also have "\<dots> \<longleftrightarrow> fits_u ?w ?p"
    using p0 by (auto simp: fits_u_def zdiv_eq_0_iff)
  finally show ?thesis .
qed

text \<open>Shifts, over the shift amount read as a number.\<close>

definition amt :: "bv \<Rightarrow> nat" where "amt b = nat (uval b)"

lemma bvshl_mul: "wf_bv a \<Longrightarrow> bvshl a b = mk (bits a) (uval a * 2 ^ amt b)"
  by (simp add: bvshl_def push_bit_eq_mult amt_def)

lemma bvshl_smul: "wf_bv a \<Longrightarrow> bvshl a b = mk (bits a) (sval a * 2 ^ amt b)"
  using mk_mul_cong [of "bits a" "uval a" "sval a" "2 ^ amt b" "2 ^ amt b"]
  by (simp add: bvshl_mul take_bit_sval wf_bvD)

lemma uval_bvlshr: "wf_bv a \<Longrightarrow> uval (bvlshr a b) = uval a div 2 ^ amt b"
proof -
  assume a: "wf_bv a"
  have "uval a div 2 ^ amt b \<le> uval a"
    using wf_bvD(2) [OF a] by (intro zdiv_le_self) auto
  then show ?thesis
    using wf_bvD [OF a] by (simp add: bvlshr_def drop_bit_eq_div amt_def take_bit_id
        pos_imp_zdiv_nonneg_iff)
qed

lemma div_pow2_bounds:
  fixes x :: int assumes "- m \<le> x" "x < m" "0 < m"
  shows "- m \<le> x div 2 ^ k \<and> x div 2 ^ k < m"
proof
  have "- m * 2 ^ k \<le> - m * 1" using assms by (intro mult_left_mono_neg) auto
  with assms have "- m * 2 ^ k \<le> x" by linarith
  then show "- m \<le> x div 2 ^ k" by (simp add: zle_div_iff)
next
  have "m * 1 \<le> m * 2 ^ k" using assms by (intro mult_left_mono) auto
  with assms have "x < m * 2 ^ k" by linarith
  then show "x div 2 ^ k < m" by (simp add: zdiv_less_iff)
qed

lemma sval_bvashr: "wf_bv a \<Longrightarrow> sval (bvashr a b) = sval a div 2 ^ amt b"
  using div_pow2_bounds [OF sval_lower [of a] sval_upper [of a], of "amt b"] wf_bvD(1) [of a]
  by (simp add: bvashr_def drop_bit_eq_div amt_def sval_mk_id)

lemma shl_no_uoverflow_iff:
  assumes "wf_bv a"
  shows "shl_no_uoverflow a b \<longleftrightarrow> fits_u (bits a) (uval a * 2 ^ amt b)"
proof -
  let ?x = "uval a * 2 ^ amt b"
  note a = wf_bvD [OF assms]
  have "shl_no_uoverflow a b \<longleftrightarrow> take_bit (bits a) ?x div 2 ^ amt b = uval a"
    using assms by (simp add: shl_no_uoverflow_def bv_eq_iff uval_bvlshr bvshl_mul a(1))
  also have "\<dots> \<longleftrightarrow> take_bit (bits a) ?x = ?x"
  proof
    assume e: "take_bit (bits a) ?x div 2 ^ amt b = uval a"
    have "?x = take_bit (bits a) ?x div 2 ^ amt b * 2 ^ amt b" by (simp add: e)
    also have "\<dots> \<le> take_bit (bits a) ?x"
      using zle_div_iff [of "2 ^ amt b" "take_bit (bits a) ?x div 2 ^ amt b" "take_bit (bits a) ?x"]
      by simp
    finally show "take_bit (bits a) ?x = ?x"
      using a(2) by (intro take_bit_id) (auto intro: order_le_less_trans)
  qed simp
  finally show ?thesis by (simp add: take_bit_id_iff fits_u_def)
qed

lemma dvd_stb: "k \<le> w \<Longrightarrow> 2 ^ k dvd signed_take_bit w (x::int) - x"
proof -
  assume k: "k \<le> w"
  have "take_bit (Suc w) (signed_take_bit w x) = take_bit (Suc w) x"
    by (simp add: take_bit_signed_take_bit)
  then have "(2::int) ^ Suc w dvd signed_take_bit w x - x"
    by (metis mod_eq_dvd_iff take_bit_eq_mod)
  moreover have "(2::int) ^ k dvd 2 ^ Suc w" using k by (intro le_imp_power_dvd) simp
  ultimately show ?thesis by (rule dvd_trans [rotated])
qed

lemma sval_small_dvd: "wf_bv a \<Longrightarrow> bits a \<le> k \<Longrightarrow> 2 ^ k dvd sval a \<Longrightarrow> sval a = 0"
proof (rule ccontr)
  assume a: "wf_bv a" and k: "bits a \<le> k" and d: "2 ^ k dvd sval a" and n: "sval a \<noteq> 0"
  have "(2::int) ^ k \<le> \<bar>sval a\<bar>" using dvd_imp_le_int [OF n d] by simp
  moreover have "(2::int) ^ (bits a - 1) < 2 ^ k"
    using k wf_bvD(1) [OF a] by (intro power_strict_increasing) auto
  ultimately show False using sval_abs [of a] by linarith
qed

lemma shl_no_soverflow_iff:
  assumes "wf_bv a"
  shows "shl_no_soverflow a b \<longleftrightarrow> fits_s (bits a) (sval a * 2 ^ amt b)"
proof -
  let ?x = "sval a * 2 ^ amt b" and ?v = "sval (bvshl a b)" and ?w = "bits a"
  have w: "0 < ?w" using assms by (rule wf_bvD)
  have v: "?v = signed_take_bit (?w - 1) ?x" using assms w by (simp add: bvshl_smul sval_mk)
  have "shl_no_soverflow a b \<longleftrightarrow> ?v div 2 ^ amt b = sval a"
    unfolding shl_no_soverflow_def using assms by (subst bv_eq_sval) (simp_all add: sval_bvashr)
  also have "\<dots> \<longleftrightarrow> ?v = ?x"
  proof
    assume e: "?v div 2 ^ amt b = sval a"
    have "2 ^ amt b dvd ?v"
    proof (cases "amt b \<le> ?w - 1")
      case True
      then have "2 ^ amt b dvd ?v - ?x" unfolding v by (rule dvd_stb)
      then show ?thesis by (metis dvd_diff_left_iff dvd_triv_right)
    next
      case False
      then have "(2::int) ^ ?w dvd ?x" using w
        by (intro dvd_mult le_imp_power_dvd) simp
      then have "take_bit ?w ?x = 0" by (simp add: take_bit_eq_mod)
      then have "uval (bvshl a b) = 0" using assms by (simp add: bvshl_smul)
      then show ?thesis using assms by (simp add: sval_cases)
    qed
    with e show "?v = ?x" by (metis dvd_div_mult_self)
  qed simp
  also have "\<dots> \<longleftrightarrow> fits_s ?w ?x"
    unfolding v using sval_mk_eq_iff [OF w, of ?x] sval_mk [OF w, of ?x] by (simp add: fits_s_def)
  finally show ?thesis .
qed

lemma lshr_exact_iff:
  assumes "wf_bv a"
  shows "lshr_exact a b \<longleftrightarrow> 2 ^ amt b dvd uval a"
proof -
  note a = wf_bvD [OF assms]
  have le: "uval a div 2 ^ amt b * 2 ^ amt b \<le> uval a"
    using zle_div_iff [of "2 ^ amt b" "uval a div 2 ^ amt b" "uval a"] by simp
  have "lshr_exact a b \<longleftrightarrow> take_bit (bits a) (uval a div 2 ^ amt b * 2 ^ amt b) = uval a"
    using assms by (simp add: lshr_exact_def bv_eq_iff bvshl_mul uval_bvlshr)
  also have "\<dots> \<longleftrightarrow> uval a div 2 ^ amt b * 2 ^ amt b = uval a"
    using le a by (subst take_bit_id) (auto simp: pos_imp_zdiv_nonneg_iff)
  also have "\<dots> \<longleftrightarrow> 2 ^ amt b dvd uval a"
    by (metis dvd_div_mult_self dvd_triv_right)
  finally show ?thesis .
qed

lemma ashr_exact_iff:
  assumes "wf_bv a"
  shows "ashr_exact a b \<longleftrightarrow> 2 ^ amt b dvd sval a"
proof -
  let ?y = "sval a div 2 ^ amt b * 2 ^ amt b" and ?w = "bits a"
  have w: "0 < ?w" using assms by (rule wf_bvD)
  have "ashr_exact a b \<longleftrightarrow> sval (mk ?w ?y) = sval a"
    unfolding ashr_exact_def using assms w
    by (subst bv_eq_sval) (simp_all add: bvshl_smul sval_bvashr)
  also have "\<dots> \<longleftrightarrow> ?y = sval a"
  proof
    assume e: "sval (mk ?w ?y) = sval a"
    have "2 ^ amt b dvd sval (mk ?w ?y) - ?y \<or> sval (mk ?w ?y) = 0"
    proof (cases "amt b \<le> ?w - 1")
      case True
      then show ?thesis using dvd_stb [of "amt b" "?w - 1" ?y] w by (simp add: sval_mk)
    next
      case False
      then have "(2::int) ^ ?w dvd ?y" using w by (intro dvd_mult le_imp_power_dvd) simp
      then have "take_bit ?w ?y = 0" by (simp add: take_bit_eq_mod)
      then show ?thesis using w by (simp add: sval_cases)
    qed
    then have "2 ^ amt b dvd sval a" using e by (metis dvd_0_right dvd_diff_left_iff dvd_triv_right)
    then show "?y = sval a" by simp
  next
    assume "?y = sval a"
    then show "sval (mk ?w ?y) = sval a" using assms by (simp add: mk_sval)
  qed
  also have "\<dots> \<longleftrightarrow> 2 ^ amt b dvd sval a" by (metis dvd_div_mult_self dvd_triv_right)
  finally show ?thesis .
qed

lemma udiv_exact_iff:
  assumes "wf_bv a" "wf_bv b" "bits b = bits a" "uval b \<noteq> 0"
  shows "udiv_exact a b \<longleftrightarrow> uval b dvd uval a"
proof -
  note a = wf_bvD [OF assms(1)] and b = wf_bvD [OF assms(2)]
  have b0: "0 < uval b" using b(2) assms(4) by simp
  have q: "uval (bvudiv a b) = uval a div uval b"
    using assms(4) a b0 zdiv_le_self [OF a(2) b0]
    by (simp add: bvudiv_def take_bit_id pos_imp_zdiv_nonneg_iff)
  have le: "uval a div uval b * uval b \<le> uval a"
    using zle_div_iff [OF b0, of "uval a div uval b" "uval a"] by simp
  have "udiv_exact a b \<longleftrightarrow> take_bit (bits a) (uval a div uval b * uval b) = uval a"
    by (simp add: udiv_exact_def bvmul_def q bv_eq_iff)
  also have "\<dots> \<longleftrightarrow> uval a div uval b * uval b = uval a"
    using le a b0 by (subst take_bit_id) (auto simp: pos_imp_zdiv_nonneg_iff)
  also have "\<dots> \<longleftrightarrow> uval b dvd uval a" by (metis dvd_div_mult_self dvd_triv_right)
  finally show ?thesis .
qed

lemma sdiv_mult_bound: "\<bar>(x sdiv y) * y\<bar> \<le> \<bar>x::int\<bar>"
proof -
  have "\<bar>(x sdiv y) * y\<bar> = \<bar>x\<bar> div \<bar>y\<bar> * \<bar>y\<bar>"
    by (simp add: signed_divide_int_def abs_mult sgn_if div_int_pos_iff)
  also have "\<dots> \<le> \<bar>x\<bar>"
    using zle_div_iff [of "\<bar>y\<bar>" "\<bar>x\<bar> div \<bar>y\<bar>" "\<bar>x\<bar>"] by (cases "y = 0") auto
  finally show ?thesis .
qed

lemma sdiv_mult_iff: "(x sdiv y) * y = x \<longleftrightarrow> (y::int) dvd x"
proof
  assume "y dvd x"
  then obtain k where k: "x = y * k" by (elim dvdE)
  show "(x sdiv y) * y = x"
    by (cases "y = 0") (auto simp: k signed_divide_int_def abs_mult sgn_if mult.commute zero_less_mult_iff)
qed (metis dvd_triv_right)

lemma sdiv_mult_sign: "0 \<le> x \<Longrightarrow> 0 \<le> (x sdiv y) * (y::int)"
  by (auto simp: signed_divide_int_def sgn_if pos_imp_zdiv_nonneg_iff zero_le_mult_iff
      mult_le_0_iff)

lemma sdiv_exact_iff:
  assumes "wf_bv a" "wf_bv b" "bits b = bits a" "uval b \<noteq> 0"
  shows "sdiv_exact a b \<longleftrightarrow> sval b dvd sval a"
proof -
  let ?w = "bits a" and ?p = "(sval a sdiv sval b) * sval b"
  have w: "0 < ?w" using assms(1) by (rule wf_bvD)
  have "mk ?w (uval (bvsdiv a b) * uval b) = mk ?w ?p"
    using assms(4) wf_bvD(4) [OF assms(2)] take_bit_sval [OF assms(2)] assms(3)
    by (intro mk_mul_cong) (simp_all add: bvsdiv_def)
  then have e: "bvmul (bvsdiv a b) b = mk ?w ?p" by (simp add: bvmul_def)
  have rng: "sval (mk ?w ?p) = ?p"
  proof (rule sval_mk_id [OF w])
    show "- (2 ^ (?w - 1)) \<le> ?p"
      using sdiv_mult_bound [of "sval a" "sval b"] sval_abs [of a] by linarith
    show "?p < 2 ^ (?w - 1)"
    proof (cases "0 \<le> sval a")
      case True
      then show ?thesis
        using sdiv_mult_bound [of "sval a" "sval b"] sval_upper [of a] by linarith
    next
      case False
      then have "0 \<le> (- sval a sdiv sval b) * sval b" by (intro sdiv_mult_sign) simp
      then have "?p \<le> 0" by (simp add: signed_divide_int_def sgn_if split: if_splits)
      moreover have "(0::int) < 2 ^ (?w - 1)" by simp
      ultimately show ?thesis by linarith
    qed
  qed
  have "sdiv_exact a b \<longleftrightarrow> sval (mk ?w ?p) = sval a"
    unfolding sdiv_exact_def e using assms(1) w by (intro bv_eq_sval) simp_all
  then show ?thesis unfolding rng by (simp add: sdiv_mult_iff)
qed

lemmas no_overflow_iffs = add_no_soverflow_iff add_no_uoverflow_iff add_no_usoverflow_iff
  sub_no_soverflow_iff sub_no_uoverflow_iff mul_no_soverflow_iff mul_no_uoverflow_iff
  shl_no_soverflow_iff shl_no_uoverflow_iff lshr_exact_iff ashr_exact_iff udiv_exact_iff
  sdiv_exact_iff

section \<open>Saturating arithmetic clamps\<close>

definition clamp :: "int \<Rightarrow> int \<Rightarrow> int \<Rightarrow> int" where
  "clamp lo hi x = max lo (min hi x)"

lemma sadd_sat_sval:
  assumes "wf_bv a" "wf_bv b" "bits a = bits b"
  shows "sval (sadd_sat a b) = clamp (- (2 ^ (bits a - 1))) (2 ^ (bits a - 1) - 1) (sval a + sval b)"
proof -
  have w: "0 < bits a" using assms(1) by (rule wf_bvD)
  have s: "sval (bvadd a b) = sval a + sval b"
    if "- (2 ^ (bits a - 1)) \<le> sval a + sval b" "sval a + sval b < 2 ^ (bits a - 1)"
    using that w by (simp add: bvadd_signed [OF assms] sval_mk_id)
  show ?thesis
    using s w unfolding sadd_sat_def Let_def bvsle_def sext_add_sval [OF assms]
    by (simp add: clamp_def)
qed

lemma ssub_sat_sval:
  assumes "wf_bv a" "wf_bv b" "bits a = bits b"
  shows "sval (ssub_sat a b) = clamp (- (2 ^ (bits a - 1))) (2 ^ (bits a - 1) - 1) (sval a - sval b)"
proof -
  have w: "0 < bits a" using assms(1) by (rule wf_bvD)
  have s: "sval (bvsub a b) = sval a - sval b"
    if "- (2 ^ (bits a - 1)) \<le> sval a - sval b" "sval a - sval b < 2 ^ (bits a - 1)"
    using that w by (simp add: bvsub_signed [OF assms] sval_mk_id)
  show ?thesis
    using s w unfolding ssub_sat_def Let_def bvsle_def sext_sub_sval [OF assms]
    by (simp add: clamp_def)
qed

lemma uadd_sat_uval:
  assumes "wf_bv a" "wf_bv b" "bits a = bits b" "honest_facts fa a" "honest_facts fb b"
  shows "uval (uadd_sat fa fb a b) = clamp 0 (2 ^ bits a - 1) (uval a + uval b)"
proof -
  note a = wf_bvD [OF assms(1)] and b = wf_bvD [OF assms(2)]
  show ?thesis
    using a(2) b(2) unfolding uadd_sat_def add_no_uoverflow_iff [OF assms]
    by (auto simp: clamp_def fits_u_def bvadd_def take_bit_id)
qed

lemma usub_sat_uval:
  assumes "wf_bv a" "wf_bv b" "bits a = bits b"
  shows "uval (usub_sat a b) = clamp 0 (2 ^ bits a - 1) (uval a - uval b)"
proof -
  note a = wf_bvD [OF assms(1)] and b = wf_bvD [OF assms(2)]
  show ?thesis
    using a(2,3) b(2) unfolding usub_sat_def
    by (auto simp: clamp_def bvule_def bvsub_def take_bit_id)
qed

end
