(* ===== verification/ExprBits.thy ===== *)
theory ExprBits
  imports Expr
begin

text \<open>
  The builders of \<open>smt/expr.cpp\<close> that walk over the bits of their operand or combine shifted
  copies of it: funnel shifts, fixed-point products, counting, reversing, gathering and
  scattering bits, minimum, maximum, absolute value and rounding. The loops over bit positions
  are folds over the same positions in the same order.
\<close>

section \<open>Definitions\<close>

definition fshl :: "bv \<Rightarrow> bv \<Rightarrow> bv \<Rightarrow> bv" where
  "fshl a b c =
     (let width = mk (bits a) (int (bits a)); c_mod_width = bvurem c width
      in bvor (bvshl a c_mod_width) (bvlshr b (bvsub width c_mod_width)))"

definition fshr :: "bv \<Rightarrow> bv \<Rightarrow> bv \<Rightarrow> bv" where
  "fshr a b c =
     (let width = mk (bits a) (int (bits a)); c_mod_width = bvurem c width
      in bvor (bvshl a (bvsub width c_mod_width)) (bvlshr b c_mod_width))"

definition smul_fix_helper :: "bv \<Rightarrow> bv \<Rightarrow> bv \<Rightarrow> bv" where
  "smul_fix_helper a b c =
     (let width = bits a; mul = bvmul (bvsext a width) (bvsext b width);
          scale2 = zextOrTrunc c (2 * width)
      in bvashr mul scale2)"

definition smul_fix :: "bv \<Rightarrow> bv \<Rightarrow> bv \<Rightarrow> bv" where
  "smul_fix a b c = trunc (smul_fix_helper a b c) (bits a)"

definition smul_fix_no_soverflow :: "bv \<Rightarrow> bv \<Rightarrow> bv \<Rightarrow> bool" where
  "smul_fix_no_soverflow a b c \<longleftrightarrow>
     (let r = smul_fix_helper a b c; width = bits a; result = trunc r width
      in bvsext result width = r)"

definition smul_fix_sat :: "bv \<Rightarrow> bv \<Rightarrow> bv \<Rightarrow> bv" where
  "smul_fix_sat a b c =
     (let r = smul_fix_helper a b c; width = bits a
      in if smul_fix_no_soverflow a b c then smul_fix a b c
         else if isNegative r then IntSMin width else IntSMax width)"

definition umul_fix_helper :: "bv \<Rightarrow> bv \<Rightarrow> bv \<Rightarrow> bv" where
  "umul_fix_helper a b c =
     (let width = bits a; mul = bvmul (zext a width) (zext b width);
          scale2 = zextOrTrunc c (2 * width)
      in bvlshr mul scale2)"

definition umul_fix :: "bv \<Rightarrow> bv \<Rightarrow> bv \<Rightarrow> bv" where
  "umul_fix a b c = trunc (umul_fix_helper a b c) (bits a)"

definition umul_fix_no_uoverflow :: "bv \<Rightarrow> bv \<Rightarrow> bv \<Rightarrow> bool" where
  "umul_fix_no_uoverflow a b c \<longleftrightarrow>
     (let width = bits a
      in bvextract (umul_fix_helper a b c) (width * 2 - 1) width = mk width 0)"

definition umul_fix_sat :: "bv \<Rightarrow> bv \<Rightarrow> bv \<Rightarrow> bv" where
  "umul_fix_sat a b c =
     (if umul_fix_no_uoverflow a b c then umul_fix a b c else IntUMax (bits a))"

fun log2_rec :: "bv \<Rightarrow> nat \<Rightarrow> nat \<Rightarrow> bv" where
  "log2_rec e 0 bw = mk bw 0"
| "log2_rec e (Suc idx) bw =
     (if bvextract e (Suc idx) (Suc idx) = mk 1 1 then mk bw (int (Suc idx)) else log2_rec e idx bw)"

definition log2 :: "bv \<Rightarrow> nat \<Rightarrow> bv" where
  "log2 a bw_output = log2_rec a (bits a - 1) bw_output"

definition isPowerOf2 :: "bv \<Rightarrow> bool" where
  "isPowerOf2 a \<longleftrightarrow>
     a \<noteq> mk (bits a) 0 \<and> bvand a (bvsub a (mk (bits a) 1)) = mk (bits a) 0"

definition bswap :: "bv \<Rightarrow> bv" where
  "bswap a =
     fold (\<lambda>i res. bvconcat res (bvextract a ((i + 1) * 8 - 1) (i * 8)))
       [1..<bits a div 8] (bvextract a (8 - 1) 0)"

definition bitreverse :: "bv \<Rightarrow> bv" where
  "bitreverse a = fold (\<lambda>i res. bvconcat res (bvextract a i i)) [1..<bits a] (bvextract a 0 0)"

definition cttz :: "bv \<Rightarrow> bv \<Rightarrow> bv" where
  "cttz a val_zero =
     foldr (\<lambda>i c. if bvextract a i i = mk 1 1 then mk (bits a) (int i) else c) [0..<bits a] val_zero"

definition ctlz :: "bv \<Rightarrow> bv" where
  "ctlz a =
     fold (\<lambda>i c. if bvextract a i i = mk 1 1 then mk (bits a) (int (bits a - 1 - i)) else c)
       [0..<bits a] (mk (bits a) (int (bits a)))"

definition ctpop :: "bv \<Rightarrow> bv" where
  "ctpop a = fold (\<lambda>i res. bvadd res (zext (bvextract a i i) (bits a - 1))) [0..<bits a] (mk (bits a) 0)"

definition clmul :: "bv \<Rightarrow> bv \<Rightarrow> bv" where
  "clmul a b =
     fold (\<lambda>i res. bvxor res (bvand (bvsext (bvextract a i i) (bits a - 1))
                                    (bvshl b (mk (bits a) (int i)))))
       [0..<bits a] (mk (bits a) 0)"

definition pext :: "bv \<Rightarrow> bv \<Rightarrow> bv" where
  "pext a mask' =
     fst (fold (\<lambda>i (res, shamt).
            let active = zext (bvextract mask' i i) (bits a - 1)
            in (bvor res (bvshl (bvand active (zext (bvextract a i i) (bits a - 1))) shamt),
                bvadd shamt active))
          [0..<bits a] (mk (bits a) 0, mk (bits a) 0))"

definition pdep :: "bv \<Rightarrow> bv \<Rightarrow> bv" where
  "pdep a mask' =
     fst (fold (\<lambda>i (res, shamt).
            let active = zext (bvextract mask' i i) (bits a - 1)
            in (bvor res (bvshl (bvand active (bvlshr a shamt)) (mk (bits a) (int i))),
                bvadd shamt active))
          [0..<bits a] (mk (bits a) 0, mk (bits a) 0))"

definition umin :: "bv \<Rightarrow> bv \<Rightarrow> bv" where "umin a b = (if bvule a b then a else b)"
definition umax :: "bv \<Rightarrow> bv \<Rightarrow> bv" where "umax a b = (if bvule b a then a else b)"
definition smin :: "bv \<Rightarrow> bv \<Rightarrow> bv" where "smin a b = (if bvsle a b then a else b)"
definition smax :: "bv \<Rightarrow> bv \<Rightarrow> bv" where "smax a b = (if bvsle b a then a else b)"

definition abs_bv :: "bv \<Rightarrow> bv" where
  "abs_bv a = (if bvsle (mk (bits a) 0) a then a else bvmul (mk (bits a) (- 1)) a)"

definition round_up :: "bv \<Rightarrow> bv \<Rightarrow> bv" where
  "round_up a power_of_two =
     (let minus_1 = bvsub power_of_two (mk (bits power_of_two) 1)
      in bvand (bvadd a minus_1) (bvnot minus_1))"

definition round_up_bits :: "bv \<Rightarrow> bv \<Rightarrow> bv" where
  "round_up_bits a nbits = round_up a (bvshl (mk (bits a) 1) (zextOrTrunc nbits (bits a)))"

definition round_up_bits_no_overflow :: "operand_facts \<Rightarrow> operand_facts \<Rightarrow> bv \<Rightarrow> bv \<Rightarrow> bool" where
  "round_up_bits_no_overflow fa fm a nbits \<longleftrightarrow>
     (let power_2 = bvshl (mk (bits a) 1) (zextOrTrunc nbits (bits a));
          minus_1 = bvsub power_2 (mk (bits power_2) 1)
      in add_no_uoverflow fa fm a minus_1)"

section \<open>Single bits\<close>

lemma uval_bit: "uval (bvextract a i i) = (if bit (uval a) i then 1 else 0)"
  by (simp add: bvextract_def Suc_diff_le take_bit_Suc bit_iff_odd_drop_bit odd_iff_mod_2_eq_one
      flip: mod_2_eq_odd)

lemma bit_test: "bvextract a i i = mk 1 1 \<longleftrightarrow> bit (uval a) i"
  by (simp add: bv_eq_iff uval_bit)

lemma wf_bit_bound: "wf_bv a \<Longrightarrow> bit (uval a) i \<Longrightarrow> i < bits a"
  by (metis bit_take_bit_iff wf_bvD(4))

lemma width_lt_pow: "int w < 2 ^ w"
  by (metis less_exp of_nat_less_iff of_nat_numeral of_nat_power)

lemma small_nat_mk: "k \<le> w \<Longrightarrow> uval (mk w (int k)) = int k"
proof -
  assume "k \<le> w"
  then have "int k < 2 ^ w" using width_lt_pow [of w] by linarith
  then show ?thesis by (intro uval_mk_id) simp_all
qed

section \<open>Counting zeros and ones\<close>

lemma cttz_fold:
  "foldr (\<lambda>i c. if bit u i then f i else c) xs z =
     (case find (\<lambda>i. bit (u::int) i) xs of None \<Rightarrow> z | Some i \<Rightarrow> f i)"
  by (induction xs) auto

lemma cttz_some:
  assumes "wf_bv a" "uval a \<noteq> 0"
  shows "\<exists>i < bits a. bit (uval a) i \<and> (\<forall>j < i. \<not> bit (uval a) j) \<and> uval (cttz a z) = int i"
proof -
  have "\<exists>i < bits a. bit (uval a) i"
    using assms wf_bit_bound [OF assms(1)] by (metis bit_eq_iff bit_0_eq bot_apply bot_bool_def)
  then have "find (bit (uval a)) [0..<bits a] \<noteq> None" by (auto simp: find_None_iff)
  then obtain i where i: "find (bit (uval a)) [0..<bits a] = Some i" by blast
  then have "i < bits a" "bit (uval a) i" "\<forall>j<i. \<not> bit (uval a) j"
    by (auto simp: find_Some_iff)
  moreover have "uval (cttz a z) = int i"
    using i \<open>i < bits a\<close> small_nat_mk [of i "bits a"]
    unfolding cttz_def bit_test cttz_fold by simp
  ultimately show ?thesis by blast
qed

lemma cttz_zero:
  assumes "uval a = 0"
  shows "cttz a z = z"
proof -
  have "find (bit (uval a)) [0..<bits a] = None" using assms by (simp add: find_None_iff)
  then show ?thesis unfolding cttz_def bit_test cttz_fold by simp
qed

lemma ctlz_fold:
  "fold (\<lambda>i c. if bit u i then f i else c) xs z =
     (case find (\<lambda>i. bit (u::int) i) (rev xs) of None \<Rightarrow> z | Some i \<Rightarrow> f i)"
  using cttz_fold [of u f "rev xs" z] by (simp add: foldr_conv_fold)

lemma ctlz_some:
  assumes "wf_bv a" "uval a \<noteq> 0"
  shows "\<exists>i < bits a. bit (uval a) i \<and> (\<forall>j. i < j \<longrightarrow> \<not> bit (uval a) j) \<and>
           uval (ctlz a) = int (bits a - 1 - i)"
proof -
  have "\<exists>i < bits a. bit (uval a) i"
    using assms wf_bit_bound [OF assms(1)] by (metis bit_eq_iff bit_0_eq bot_apply bot_bool_def)
  then have "find (bit (uval a)) (rev [0..<bits a]) \<noteq> None" by (auto simp: find_None_iff)
  then obtain i where i: "find (bit (uval a)) (rev [0..<bits a]) = Some i" by blast
  then obtain n where n: "n < bits a" "bit (uval a) i" "i = bits a - 1 - n"
      "\<forall>m<n. \<not> bit (uval a) (bits a - 1 - m)"
    by (auto simp: find_Some_iff rev_nth)
  have "\<not> bit (uval a) j" if "i < j" for j
  proof
    assume b: "bit (uval a) j"
    then have "j < bits a" by (rule wf_bit_bound [OF assms(1)])
    with n that have "bits a - 1 - j < n" "j = bits a - 1 - (bits a - 1 - j)" by auto
    with n b show False by metis
  qed
  moreover have "uval (ctlz a) = int (bits a - 1 - i)"
    using i small_nat_mk [of "bits a - 1 - i" "bits a"]
    unfolding ctlz_def bit_test ctlz_fold by simp
  moreover have "i < bits a" using n by simp
  ultimately show ?thesis using n(2) by blast
qed

lemma ctlz_zero: "uval a = 0 \<Longrightarrow> uval (ctlz a) = int (bits a)"
proof -
  assume u: "uval a = 0"
  have "find (bit (uval a)) (rev [0..<bits a]) = None" by (simp add: find_None_iff u)
  then show ?thesis
    using small_nat_mk [of "bits a" "bits a"] unfolding ctlz_def bit_test ctlz_fold by simp
qed

lemma ctpop_steps:
  assumes "wf_bv a" "n \<le> bits a"
  shows "fold (\<lambda>i res. bvadd res (zext (bvextract a i i) (bits a - 1))) [0..<n] (mk (bits a) 0) =
     mk (bits a) (int (card {i. i < n \<and> bit (uval a) i}))"
  using assms(2)
proof (induction n)
  case 0
  then show ?case by simp
next
  case (Suc n)
  have s: "{i. i < Suc n \<and> bit (uval a) i} =
      (if bit (uval a) n then insert n else id) {i. i < n \<and> bit (uval a) i}"
    by (auto simp: less_Suc_eq)
  have z: "uval (zext (bvextract a n n) (bits a - 1)) = (if bit (uval a) n then 1 else 0)"
    using zext_eq [of "bvextract a n n" "bits a - 1"] by (simp add: uval_bit)
  from Suc z show ?case
    by (simp add: bvadd_def s bv_eq_iff take_bit_eq_mod mod_add_right_eq add.commute)
qed

lemma ctpop_card:
  assumes "wf_bv a"
  shows "uval (ctpop a) = int (card {i. i < bits a \<and> bit (uval a) i})"
proof -
  have "card {i. i < bits a \<and> bit (uval a) i} \<le> card {..<bits a}"
    by (intro card_mono) auto
  then show ?thesis
    unfolding ctpop_def ctpop_steps [OF assms order_refl] by (simp only: small_nat_mk card_lessThan)
qed

section \<open>Reversing bits\<close>

lemma bit_concat1:
  "bit (uval (bvconcat r (bvextract a i i))) j =
     (case j of 0 \<Rightarrow> bit (uval a) i | Suc k \<Rightarrow> bit (uval r) k)"
  by (cases j) (auto simp: bvconcat_def uval_bit bit_0 bit_Suc)

lemma bitreverse_steps:
  assumes "0 < n"
  shows "let r = fold (\<lambda>i res. bvconcat res (bvextract a i i)) [1..<n] (bvextract a 0 0)
     in bits r = n \<and> (\<forall>j < n. bit (uval r) j = bit (uval a) (n - 1 - j))"
  using assms
proof (induction n rule: nat_induct_non_zero)
  case 1
  then show ?case by (simp add: uval_bit)
next
  case (Suc n)
  then show ?case by (auto simp: Let_def bit_concat1 split: nat.splits)
qed

lemma bitreverse_bit:
  assumes "wf_bv a" "j < bits a"
  shows "bits (bitreverse a) = bits a" "bit (uval (bitreverse a)) j = bit (uval a) (bits a - 1 - j)"
  using bitreverse_steps [of "bits a" a] assms wf_bvD(1) [of a]
  by (simp_all add: bitreverse_def Let_def)

section \<open>Logarithms and powers of two\<close>

lemma log2_rec_some:
  "i \<le> idx \<and> (0 < i \<longrightarrow> bit (uval e) i) \<and> (\<forall>j. i < j \<and> j \<le> idx \<longrightarrow> \<not> bit (uval e) j) \<longrightarrow>
     uval (log2_rec e idx bw) = take_bit bw (int i)"
proof (induction idx)
  case 0
  then show ?case by simp
next
  case (Suc idx)
  show ?case
  proof (cases "i = Suc idx")
    case True
    then show ?thesis using bit_test [of e "Suc idx"] by simp
  next
    case False
    with Suc show ?thesis using bit_test [of e "Suc idx"] by auto
  qed
qed

lemma top_bit_pow2:
  assumes "(2::int) ^ i \<le> u" "u < 2 ^ Suc i"
  shows "bit u i" "i < j \<Longrightarrow> \<not> bit u j"
proof -
  have "u div 2 ^ i = 1"
    using assms by (intro int_div_pos_eq [where r = "u - 2 ^ i"]) auto
  then show "bit u i" by (simp add: bit_iff_odd)
  have "0 \<le> u" using assms(1) by (smt (verit) zero_le_power)
  then have "take_bit (Suc i) u = u" using assms by (intro take_bit_id) auto
  then show "i < j \<Longrightarrow> \<not> bit u j" by (metis bit_take_bit_iff not_less_eq)
qed

lemma log2_floor:
  assumes "wf_bv a" "2 ^ k \<le> uval a" "uval a < 2 ^ Suc k"
  shows "log2 a bw = mk bw (int k)"
proof -
  have bit_k: "bit (uval a) k" using top_bit_pow2(1) [OF assms(2,3)] .
  then have "k < bits a" by (rule wf_bit_bound [OF assms(1)])
  then have "k \<le> bits a - 1" by simp
  then have u: "uval (log2 a bw) = take_bit bw (int k)"
    unfolding log2_def using bit_k top_bit_pow2(2) [OF assms(2,3)]
    by (intro log2_rec_some [THEN mp]) blast
  have "bits (log2_rec a n bw) = bw" for n by (induction n) auto
  with u show ?thesis by (simp add: bv_eq_iff log2_def)
qed

section \<open>Minimum, maximum, absolute value\<close>

lemma min_max_vals:
  assumes "wf_bv a" "wf_bv b" "bits a = bits b"
  shows "uval (umin a b) = min (uval a) (uval b)" "uval (umax a b) = max (uval a) (uval b)"
    "sval (smin a b) = min (sval a) (sval b)" "sval (smax a b) = max (sval a) (sval b)"
  by (auto simp: umin_def umax_def smin_def smax_def bvule_def bvsle_def)

lemma abs_bv_uval: "wf_bv a \<Longrightarrow> uval (abs_bv a) = \<bar>sval a\<bar>"
proof -
  assume a: "wf_bv a"
  note w = wf_bvD [OF a]
  have z: "sval (mk (bits a) 0) = 0" using w(1) by (intro sval_mk_id) auto
  have "bvmul (mk (bits a) (- 1)) a = mk (bits a) (- sval a)"
    using a w(1) by (subst bvmul_signed) (simp_all add: sval_mk)
  moreover have "uval (mk (bits a) (- sval a)) = - sval a" if "sval a < 0"
    using that sval_lower [of a] pow2_half [OF w(1)] w(2,3) by (intro uval_mk_id) auto
  ultimately show ?thesis
    using sval_nonneg_eq [OF a] by (auto simp: abs_bv_def bvsle_def z)
qed

section \<open>Funnel shifts\<close>

text \<open>A left funnel shift is the upper half of the concatenation \<open>a:b\<close> shifted left.\<close>

lemma disjoint_or_add:
  fixes x y :: int
  assumes "0 \<le> y" "y < 2 ^ s"
  shows "(x * 2 ^ s) OR y = x * 2 ^ s + y"
proof -
  have "(x * 2 ^ s) AND y = 0"
  proof (rule bit_eqI)
    fix n
    have "\<not> bit y n" if "s \<le> n"
      using that assms by (metis bit_take_bit_iff not_less take_bit_id)
    then show "bit ((x * 2 ^ s) AND y) n = bit 0 n"
      by (auto simp: bit_and_iff push_bit_eq_mult [symmetric] bit_push_bit_iff)
  qed
  then show ?thesis by (simp add: disjunctive_add_eq_or)
qed

lemma fshl_uval:
  assumes "wf_bv a" "wf_bv b" "wf_bv c" "bits b = bits a" "bits c = bits a"
    and s: "s = nat (uval c mod int (bits a))"
  shows "uval (fshl a b c) =
     take_bit (bits a) ((uval a * 2 ^ bits a + uval b) * 2 ^ s div 2 ^ bits a)"
proof -
  let ?w = "bits a"
  note a = wf_bvD [OF assms(1)] and b = wf_bvD [OF assms(2)]
  have sw: "int s = uval c mod int ?w" "s < ?w" using s a(1) by (simp_all add: nat_less_iff)
  have width: "uval (mk ?w (int ?w)) = int ?w" by (rule small_nat_mk) simp
  have cm: "bvurem c (mk ?w (int ?w)) = mk ?w (int s)"
    using sw(1) assms(5) width by (simp add: bvurem_def)
  have us: "uval (mk ?w (int s)) = int s" using sw(2) by (intro small_nat_mk) simp
  have rest: "uval (bvsub (mk ?w (int ?w)) (mk ?w (int s))) = int (?w - s)"
    using width us sw(2) small_nat_mk [of "?w - s" ?w] by (simp add: bvsub_def of_nat_diff)
  have hi: "uval (bvlshr b (bvsub (mk ?w (int ?w)) (mk ?w (int s)))) = uval b div 2 ^ (?w - s)"
    using assms(2) rest by (simp add: uval_bvlshr amt_def)
  have pw: "(2::int) ^ ?w = 2 ^ (?w - s) * 2 ^ s" using sw(2) by (simp flip: power_add)
  have small: "uval b div 2 ^ (?w - s) < 2 ^ s"
    using b(3) pw assms(4) by (simp add: zdiv_less_iff mult.commute)
  have div: "(uval a * 2 ^ ?w + uval b) * 2 ^ s div 2 ^ ?w = uval a * 2 ^ s + uval b div 2 ^ (?w - s)"
  proof -
    have "(uval a * 2 ^ ?w + uval b) * 2 ^ s div 2 ^ ?w = (uval a * 2 ^ ?w + uval b) div 2 ^ (?w - s)"
      unfolding pw by (simp add: div_mult_mult2)
    also have "\<dots> = (uval b + uval a * 2 ^ s * 2 ^ (?w - s)) div 2 ^ (?w - s)"
      by (simp add: pw ac_simps)
    also have "\<dots> = uval b div 2 ^ (?w - s) + uval a * 2 ^ s" by simp
    finally show ?thesis by simp
  qed
  have "uval (fshl a b c) = take_bit ?w (take_bit ?w (uval a * 2 ^ s) OR uval b div 2 ^ (?w - s))"
    unfolding fshl_def Let_def cm using hi us assms(1) by (simp add: bvor_def bvshl_mul amt_def)
  also have "\<dots> = take_bit ?w (uval a * 2 ^ s OR uval b div 2 ^ (?w - s))"
    by (simp only: take_bit_or take_bit_take_bit min.idem)
  also have "\<dots> = take_bit ?w (uval a * 2 ^ s + uval b div 2 ^ (?w - s))"
    using disjoint_or_add [OF _ small] b(2) by (simp add: pos_imp_zdiv_nonneg_iff)
  finally show ?thesis unfolding div .
qed

end
