(* ===== verification/Instr.thy ===== *)
theory Instr
  imports ExprBits
begin

text \<open>
  The integer instructions of \<open>ir/instr.cpp\<close>: what \<open>toSMT\<close> builds for them, over values
  that carry a poison bit (\<open>ir/state_value.h\<close>). A vector value is the list of its lanes, which
  is what \<open>AggregateType::extract\<close> and \<open>aggregateVals\<close> read and write. The undefined
  behaviour an instruction registers in the state is returned as the condition under which it
  is defined. Memory, pointers and floating point are not part of this theory.
\<close>

section \<open>Values with a poison bit\<close>

record state_value =
  sv_value :: bv
  non_poison :: bool

definition sv :: "bv \<Rightarrow> bool \<Rightarrow> state_value" where
  "sv v np = \<lparr>sv_value = v, non_poison = np\<rparr>"

definition sv_mkIf :: "bool \<Rightarrow> state_value \<Rightarrow> state_value \<Rightarrow> state_value" where
  "sv_mkIf c t e = sv (if c then sv_value t else sv_value e) (if c then non_poison t else non_poison e)"

definition sv_zext :: "state_value \<Rightarrow> nat \<Rightarrow> state_value" where
  "sv_zext v n = sv (zext (sv_value v) n) (non_poison v)"

definition sv_trunc :: "state_value \<Rightarrow> nat \<Rightarrow> state_value" where
  "sv_trunc v w = sv (trunc (sv_value v) w) (non_poison v)"

definition sv_zextOrTrunc :: "state_value \<Rightarrow> nat \<Rightarrow> state_value" where
  "sv_zextOrTrunc v w = sv (zextOrTrunc (sv_value v) w) (non_poison v)"

definition sv_concat :: "state_value \<Rightarrow> state_value \<Rightarrow> state_value" where
  "sv_concat a b = sv (bvconcat (sv_value a) (sv_value b)) (non_poison a \<and> non_poison b)"

definition sv_eq :: "state_value \<Rightarrow> state_value \<Rightarrow> bool" where
  "sv_eq a b \<longleftrightarrow> non_poison a = non_poison b \<and> sv_value a = sv_value b"

text \<open>\<open>src.implies(tgt)\<close>: where the source is not poison, the target is not and is equal.\<close>

definition sv_implies :: "state_value \<Rightarrow> state_value \<Rightarrow> bool" where
  "sv_implies a b \<longleftrightarrow> (non_poison a \<longrightarrow> non_poison b \<and> sv_value a = sv_value b)"

definition wf_sv :: "nat \<Rightarrow> state_value \<Rightarrow> bool" where
  "wf_sv w v \<longleftrightarrow> wf_bv (sv_value v) \<and> bits (sv_value v) = w"

section \<open>Binary operations\<close>

datatype binop =
    Add | Sub | Mul | SDiv | UDiv | SRem | URem | Shl | AShr | LShr
  | SAdd_Sat | UAdd_Sat | SSub_Sat | USub_Sat | SShl_Sat | UShl_Sat
  | And | Or | Xor | Cttz | Ctlz
  | SAdd_Overflow | UAdd_Overflow | SSub_Overflow | USub_Overflow | SMul_Overflow | UMul_Overflow
  | UMin | UMax | SMin | SMax | Abs | UCmp | SCmp | Clmul | PExt | PDep

record binop_flags =
  NSW :: bool
  NUW :: bool
  Exact :: bool
  Disjoint :: bool

fun isDivOrRem :: "binop \<Rightarrow> bool" where
  "isDivOrRem SDiv = True"
| "isDivOrRem SRem = True"
| "isDivOrRem UDiv = True"
| "isDivOrRem URem = True"
| "isDivOrRem _ = False"

fun vertical_zip :: "binop \<Rightarrow> bool" where
  "vertical_zip SAdd_Overflow = True"
| "vertical_zip UAdd_Overflow = True"
| "vertical_zip SSub_Overflow = True"
| "vertical_zip USub_Overflow = True"
| "vertical_zip SMul_Overflow = True"
| "vertical_zip UMul_Overflow = True"
| "vertical_zip _ = False"

definition div_ub :: "bv \<Rightarrow> bv \<Rightarrow> bool \<Rightarrow> bool \<Rightarrow> bool" where
  "div_ub a b ap sgnd \<longleftrightarrow>
     b \<noteq> mk (bits b) 0 \<and>
     (sgnd \<longrightarrow> (ap \<and> a \<noteq> IntSMin (bits b)) \<or> b \<noteq> mk (bits b) (- 1))"

text \<open>The undefined behaviour of the instruction: \<open>getVal(*rhs, isDivOrRem())\<close> makes a poison
  divisor undefined, and \<open>div_ub\<close> excludes zero and the signed overflow.\<close>

definition binop_defined :: "binop \<Rightarrow> state_value \<Rightarrow> state_value \<Rightarrow> bool" where
  "binop_defined op a b \<longleftrightarrow>
     (isDivOrRem op \<longrightarrow>
        non_poison b \<and>
        div_ub (sv_value a) (sv_value b) (non_poison a) (op = SDiv \<or> op = SRem))"

fun binop_fn ::
  "operand_facts \<Rightarrow> operand_facts \<Rightarrow> nat \<Rightarrow> binop \<Rightarrow> binop_flags \<Rightarrow> bv \<Rightarrow> bool \<Rightarrow> bv \<Rightarrow> bool \<Rightarrow> bv \<times> bool"
where
  "binop_fn fa fb res Add fl a ap b bp =
     (bvadd a b, (NSW fl \<longrightarrow> add_no_soverflow fa fb a b) \<and> (NUW fl \<longrightarrow> add_no_uoverflow fa fb a b))"
| "binop_fn fa fb res Sub fl a ap b bp =
     (bvsub a b, (NSW fl \<longrightarrow> sub_no_soverflow fa fb a b) \<and> (NUW fl \<longrightarrow> sub_no_uoverflow a b))"
| "binop_fn fa fb res Mul fl a ap b bp =
     (bvmul a b, (NSW fl \<longrightarrow> mul_no_soverflow a b) \<and> (NUW fl \<longrightarrow> mul_no_uoverflow a b))"
| "binop_fn fa fb res SDiv fl a ap b bp = (bvsdiv a b, Exact fl \<longrightarrow> sdiv_exact a b)"
| "binop_fn fa fb res UDiv fl a ap b bp = (bvudiv a b, Exact fl \<longrightarrow> udiv_exact a b)"
| "binop_fn fa fb res SRem fl a ap b bp = (bvsrem a b, True)"
| "binop_fn fa fb res URem fl a ap b bp = (bvurem a b, True)"
| "binop_fn fa fb res Shl fl a ap b bp =
     (bvshl a b, bvult b (mk (bits b) (int (bits b))) \<and>
        (NSW fl \<longrightarrow> shl_no_soverflow a b) \<and> (NUW fl \<longrightarrow> shl_no_uoverflow a b))"
| "binop_fn fa fb res AShr fl a ap b bp =
     (bvashr a b, bvult b (mk (bits b) (int (bits b))) \<and> (Exact fl \<longrightarrow> ashr_exact a b))"
| "binop_fn fa fb res LShr fl a ap b bp =
     (bvlshr a b, bvult b (mk (bits b) (int (bits b))) \<and> (Exact fl \<longrightarrow> lshr_exact a b))"
| "binop_fn fa fb res SAdd_Sat fl a ap b bp = (sadd_sat a b, True)"
| "binop_fn fa fb res UAdd_Sat fl a ap b bp = (uadd_sat fa fb a b, True)"
| "binop_fn fa fb res SSub_Sat fl a ap b bp = (ssub_sat a b, True)"
| "binop_fn fa fb res USub_Sat fl a ap b bp = (usub_sat a b, True)"
| "binop_fn fa fb res SShl_Sat fl a ap b bp = (sshl_sat a b, bvult b (mk (bits b) (int (bits b))))"
| "binop_fn fa fb res UShl_Sat fl a ap b bp = (ushl_sat a b, bvult b (mk (bits b) (int (bits b))))"
| "binop_fn fa fb res And fl a ap b bp = (bvand a b, True)"
| "binop_fn fa fb res Or fl a ap b bp = (bvor a b, if Disjoint fl then bvand a b = mk (bits a) 0 else True)"
| "binop_fn fa fb res Xor fl a ap b bp = (bvxor a b, True)"
| "binop_fn fa fb res Cttz fl a ap b bp =
     (cttz a (mk (bits a) (int (bits a))), b = mk (bits b) 0 \<or> a \<noteq> mk (bits a) 0)"
| "binop_fn fa fb res Ctlz fl a ap b bp = (ctlz a, b = mk (bits b) 0 \<or> a \<noteq> mk (bits a) 0)"
| "binop_fn fa fb res UMin fl a ap b bp = (umin a b, ap \<and> bp)"
| "binop_fn fa fb res UMax fl a ap b bp = (umax a b, ap \<and> bp)"
| "binop_fn fa fb res SMin fl a ap b bp = (smin a b, ap \<and> bp)"
| "binop_fn fa fb res SMax fl a ap b bp = (smax a b, ap \<and> bp)"
| "binop_fn fa fb res Abs fl a ap b bp =
     (abs_bv a, ap \<and> bp \<and> (b = mk (bits b) 0 \<or> a \<noteq> IntSMin (bits a)))"
| "binop_fn fa fb res UCmp fl a ap b bp =
     (if a = b then mk res 0 else if bvult a b then mk res (- 1) else mk res 1, ap \<and> bp)"
| "binop_fn fa fb res SCmp fl a ap b bp =
     (if a = b then mk res 0 else if bvslt a b then mk res (- 1) else mk res 1, ap \<and> bp)"
| "binop_fn fa fb res Clmul fl a ap b bp = (clmul a b, ap \<and> bp)"
| "binop_fn fa fb res PExt fl a ap b bp = (pext a b, ap \<and> bp)"
| "binop_fn fa fb res PDep fl a ap b bp = (pdep a b, ap \<and> bp)"
| "binop_fn fa fb res op fl a ap b bp = (a, True)"

fun binop_zip_fn :: "operand_facts \<Rightarrow> operand_facts \<Rightarrow> binop \<Rightarrow> bv \<Rightarrow> bv \<Rightarrow> bv \<times> bv" where
  "binop_zip_fn fa fb SAdd_Overflow a b = (bvadd a b, toBVBool (\<not> add_no_soverflow fa fb a b))"
| "binop_zip_fn fa fb UAdd_Overflow a b = (bvadd a b, toBVBool (\<not> add_no_uoverflow fa fb a b))"
| "binop_zip_fn fa fb SSub_Overflow a b = (bvsub a b, toBVBool (\<not> sub_no_soverflow fa fb a b))"
| "binop_zip_fn fa fb USub_Overflow a b = (bvsub a b, toBVBool (\<not> sub_no_uoverflow a b))"
| "binop_zip_fn fa fb SMul_Overflow a b = (bvmul a b, toBVBool (\<not> mul_no_soverflow a b))"
| "binop_zip_fn fa fb UMul_Overflow a b = (bvmul a b, toBVBool (\<not> mul_no_uoverflow a b))"
| "binop_zip_fn fa fb op a b = (a, b)"

definition binop_scalar ::
  "operand_facts \<Rightarrow> operand_facts \<Rightarrow> nat \<Rightarrow> binop \<Rightarrow> binop_flags \<Rightarrow> state_value \<Rightarrow> state_value \<Rightarrow> state_value"
where
  "binop_scalar fa fb res op fl a b =
     (case binop_fn fa fb res op fl (sv_value a) (non_poison a) (sv_value b) (non_poison b) of
        (v, np) \<Rightarrow> sv v (non_poison a \<and> non_poison b \<and> np))"

definition binop_zip ::
  "operand_facts \<Rightarrow> operand_facts \<Rightarrow> binop \<Rightarrow> state_value \<Rightarrow> state_value \<Rightarrow> state_value \<times> state_value"
where
  "binop_zip fa fb op a b =
     (case binop_zip_fn fa fb op (sv_value a) (sv_value b) of
        (v1, v2) \<Rightarrow> let np = non_poison a \<and> non_poison b in (sv v1 np, sv v2 np))"

text \<open>
  The vector case: one scalar operation per lane; \<open>Abs\<close>, \<open>Cttz\<close> and \<open>Ctlz\<close> take their second
  operand as a scalar flag for every lane.
\<close>

definition binop_vector ::
  "operand_facts \<Rightarrow> operand_facts \<Rightarrow> nat \<Rightarrow> binop \<Rightarrow> binop_flags \<Rightarrow> state_value list \<Rightarrow> state_value list
   \<Rightarrow> state_value list"
where
  "binop_vector fa fb res op fl as bs =
     (if op \<in> {Abs, Cttz, Ctlz} then map (\<lambda>a. binop_scalar fa fb res op fl a (hd bs)) as
      else map2 (binop_scalar fa fb res op fl) as bs)"

section \<open>Other integer instructions\<close>

datatype unop = BitReverse | BSwap | Ctpop | FFS

definition unop_fn :: "unop \<Rightarrow> bv \<Rightarrow> bv" where
  "unop_fn op v =
     (case op of
        BitReverse \<Rightarrow> bitreverse v
      | BSwap \<Rightarrow> bswap v
      | Ctpop \<Rightarrow> ctpop v
      | FFS \<Rightarrow> bvadd (cttz v (mk (bits v) (- 1))) (mk (bits v) 1))"

definition unop_scalar :: "unop \<Rightarrow> state_value \<Rightarrow> state_value" where
  "unop_scalar op v = sv (unop_fn op (sv_value v)) (non_poison v)"

datatype reduction = RAdd | RMul | RAnd | ROr | RXor | RSMax | RSMin | RUMax | RUMin

definition reduction_step :: "reduction \<Rightarrow> bv \<Rightarrow> bv \<Rightarrow> bv" where
  "reduction_step op r x =
     (case op of RAdd \<Rightarrow> bvadd r x | RMul \<Rightarrow> bvmul r x | RAnd \<Rightarrow> bvand r x | ROr \<Rightarrow> bvor r x
      | RXor \<Rightarrow> bvxor r x | RSMax \<Rightarrow> smax r x | RSMin \<Rightarrow> smin r x | RUMax \<Rightarrow> umax r x
      | RUMin \<Rightarrow> umin r x)"

fun reduction_fold :: "reduction \<Rightarrow> state_value \<Rightarrow> state_value list \<Rightarrow> state_value" where
  "reduction_fold op res [] = res"
| "reduction_fold op res (ith # lanes) =
     reduction_fold op (sv (reduction_step op (sv_value res) (sv_value ith))
                           (non_poison res \<and> non_poison ith)) lanes"

fun reduce_lanes :: "reduction \<Rightarrow> state_value list \<Rightarrow> state_value option" where
  "reduce_lanes op [] = None"
| "reduce_lanes op (first # lanes) = Some (reduction_fold op first lanes)"

datatype ternop = FShl | FShr | SMulFix | UMulFix | SMulFixSat | UMulFixSat

definition ternop_scalar :: "ternop \<Rightarrow> state_value \<Rightarrow> state_value \<Rightarrow> state_value \<Rightarrow> state_value" where
  "ternop_scalar op a b c =
     (let av = sv_value a; bv = sv_value b; cv = sv_value c;
          np = non_poison a \<and> non_poison b \<and> non_poison c
      in case op of
           FShl \<Rightarrow> sv (fshl av bv cv) np
         | FShr \<Rightarrow> sv (fshr av bv cv) np
         | SMulFix \<Rightarrow> sv (smul_fix av bv cv) (np \<and> smul_fix_no_soverflow av bv cv)
         | UMulFix \<Rightarrow> sv (umul_fix av bv cv) (np \<and> umul_fix_no_uoverflow av bv cv)
         | SMulFixSat \<Rightarrow> sv (smul_fix_sat av bv cv) np
         | UMulFixSat \<Rightarrow> sv (umul_fix_sat av bv cv) np)"

datatype convop = SExt | ZExt | Trunc

record conv_flags =
  c_nneg :: bool
  c_nuw :: bool
  c_nsw :: bool

definition conv_fn :: "convop \<Rightarrow> conv_flags \<Rightarrow> nat \<Rightarrow> bv \<Rightarrow> bv \<times> bool" where
  "conv_fn op fl to_bits v =
     (case op of
        SExt \<Rightarrow> (bvsext v (to_bits - bits v), True)
      | ZExt \<Rightarrow> (zext v (to_bits - bits v), if c_nneg fl then \<not> isNegative v else True)
      | Trunc \<Rightarrow>
          let orig_bits = bits v; val_truncated = trunc v to_bits
          in (val_truncated,
              (c_nuw fl \<longrightarrow> bvextract v (orig_bits - 1) to_bits = mk (orig_bits - to_bits) 0) \<and>
              (c_nsw fl \<longrightarrow> bvsext val_truncated (orig_bits - to_bits) = v)))"

definition conv_scalar :: "convop \<Rightarrow> conv_flags \<Rightarrow> nat \<Rightarrow> state_value \<Rightarrow> state_value" where
  "conv_scalar op fl to_bits v =
     (case conv_fn op fl to_bits (sv_value v) of (v2, np) \<Rightarrow> sv v2 (non_poison v \<and> np))"

definition select_scalar :: "state_value \<Rightarrow> state_value \<Rightarrow> state_value \<Rightarrow> state_value" where
  "select_scalar c a b =
     (let cond = (sv_value c = mk (bits (sv_value c)) 1)
      in sv (if cond then sv_value a else sv_value b)
            (non_poison c \<and> (if cond then non_poison a else non_poison b)))"

datatype icmp_cond = EQ | NE | SLE | SLT | SGE | SGT | ULE | ULT | UGE | UGT

definition icmp_fn :: "icmp_cond \<Rightarrow> bv \<Rightarrow> bv \<Rightarrow> bool" where
  "icmp_fn c a b =
     (case c of EQ \<Rightarrow> a = b | NE \<Rightarrow> a \<noteq> b
      | SLE \<Rightarrow> bvsle a b | SLT \<Rightarrow> bvslt a b | SGE \<Rightarrow> bvsle b a | SGT \<Rightarrow> bvslt b a
      | ULE \<Rightarrow> bvule a b | ULT \<Rightarrow> bvult a b | UGE \<Rightarrow> bvule b a | UGT \<Rightarrow> bvult b a)"

definition icmp_scalar :: "icmp_cond \<Rightarrow> bool \<Rightarrow> state_value \<Rightarrow> state_value \<Rightarrow> state_value" where
  "icmp_scalar c samesign a b =
     sv (toBVBool (icmp_fn c (sv_value a) (sv_value b)))
        (non_poison a \<and> non_poison b \<and>
         (samesign \<longrightarrow> sign (sv_value a) = sign (sv_value b)))"

section \<open>Specification of the binary operations\<close>

text \<open>
  What an integer instruction means, in plain arithmetic on the exact results: the number its
  value is congruent to, and the condition under which the result is not poison. The
  definitions follow the LLVM language rules (wrap-around, \<open>nsw\<close>, \<open>nuw\<close>, \<open>exact\<close> and
  \<open>disjoint\<close> flags) and do not mention how the encoding detects an overflow.
\<close>

fun spec_value :: "binop \<Rightarrow> bv \<Rightarrow> bv \<Rightarrow> int option" where
  "spec_value Add a b = Some (uval a + uval b)"
| "spec_value Sub a b = Some (uval a - uval b)"
| "spec_value Mul a b = Some (uval a * uval b)"
| "spec_value SDiv a b = Some (sval a sdiv sval b)"
| "spec_value UDiv a b = Some (uval a div uval b)"
| "spec_value SRem a b = Some (sval a smod sval b)"
| "spec_value URem a b = Some (uval a mod uval b)"
| "spec_value Shl a b = Some (uval a * 2 ^ amt b)"
| "spec_value AShr a b = Some (sval a div 2 ^ amt b)"
| "spec_value LShr a b = Some (uval a div 2 ^ amt b)"
| "spec_value SAdd_Sat a b = Some (clamp (- (2 ^ (bits a - 1))) (2 ^ (bits a - 1) - 1) (sval a + sval b))"
| "spec_value UAdd_Sat a b = Some (clamp 0 (2 ^ bits a - 1) (uval a + uval b))"
| "spec_value SSub_Sat a b = Some (clamp (- (2 ^ (bits a - 1))) (2 ^ (bits a - 1) - 1) (sval a - sval b))"
| "spec_value USub_Sat a b = Some (clamp 0 (2 ^ bits a - 1) (uval a - uval b))"
| "spec_value SShl_Sat a b =
     Some (clamp (- (2 ^ (bits a - 1))) (2 ^ (bits a - 1) - 1) (sval a * 2 ^ amt b))"
| "spec_value UShl_Sat a b = Some (clamp 0 (2 ^ bits a - 1) (uval a * 2 ^ amt b))"
| "spec_value And a b = Some (uval a AND uval b)"
| "spec_value Or a b = Some (uval a OR uval b)"
| "spec_value Xor a b = Some (uval a XOR uval b)"
| "spec_value UMin a b = Some (min (uval a) (uval b))"
| "spec_value UMax a b = Some (max (uval a) (uval b))"
| "spec_value SMin a b = Some (min (sval a) (sval b))"
| "spec_value SMax a b = Some (max (sval a) (sval b))"
| "spec_value Abs a b = Some \<bar>sval a\<bar>"
| "spec_value _ a b = None"

fun spec_no_poison :: "binop \<Rightarrow> binop_flags \<Rightarrow> bv \<Rightarrow> bv \<Rightarrow> bool" where
  "spec_no_poison Add fl a b \<longleftrightarrow> (NSW fl \<longrightarrow> fits_s (bits a) (sval a + sval b)) \<and>
     (NUW fl \<longrightarrow> fits_u (bits a) (uval a + uval b))"
| "spec_no_poison Sub fl a b \<longleftrightarrow> (NSW fl \<longrightarrow> fits_s (bits a) (sval a - sval b)) \<and>
     (NUW fl \<longrightarrow> fits_u (bits a) (uval a - uval b))"
| "spec_no_poison Mul fl a b \<longleftrightarrow> (NSW fl \<longrightarrow> fits_s (bits a) (sval a * sval b)) \<and>
     (NUW fl \<longrightarrow> fits_u (bits a) (uval a * uval b))"
| "spec_no_poison SDiv fl a b \<longleftrightarrow> (Exact fl \<longrightarrow> sval b dvd sval a)"
| "spec_no_poison UDiv fl a b \<longleftrightarrow> (Exact fl \<longrightarrow> uval b dvd uval a)"
| "spec_no_poison Shl fl a b \<longleftrightarrow> amt b < bits a \<and>
     (NSW fl \<longrightarrow> fits_s (bits a) (sval a * 2 ^ amt b)) \<and>
     (NUW fl \<longrightarrow> fits_u (bits a) (uval a * 2 ^ amt b))"
| "spec_no_poison AShr fl a b \<longleftrightarrow> amt b < bits a \<and> (Exact fl \<longrightarrow> 2 ^ amt b dvd sval a)"
| "spec_no_poison LShr fl a b \<longleftrightarrow> amt b < bits a \<and> (Exact fl \<longrightarrow> 2 ^ amt b dvd uval a)"
| "spec_no_poison SShl_Sat fl a b \<longleftrightarrow> amt b < bits a"
| "spec_no_poison UShl_Sat fl a b \<longleftrightarrow> amt b < bits a"
| "spec_no_poison Or fl a b \<longleftrightarrow> (Disjoint fl \<longrightarrow> uval a AND uval b = 0)"
| "spec_no_poison Abs fl a b \<longleftrightarrow> uval b = 0 \<or> sval a \<noteq> - (2 ^ (bits a - 1))"
| "spec_no_poison _ fl a b \<longleftrightarrow> True"

section \<open>The encoding meets the specification\<close>

lemma shift_amount_test:
  assumes "wf_bv b"
  shows "bvult b (mk (bits b) (int (bits b))) \<longleftrightarrow> amt b < bits b"
  using wf_bvD(2) [OF assms] small_nat_mk [of "bits b" "bits b"]
  by (simp add: bvult_def amt_def nat_less_iff)

lemma eq_zero_uval: "a = mk (bits a) 0 \<longleftrightarrow> uval a = 0"
  by (simp add: bv_eq_iff)

lemma eq_smin_sval: "wf_bv a \<Longrightarrow> a = IntSMin (bits a) \<longleftrightarrow> sval a = - (2 ^ (bits a - 1))"
  using wf_bvD(1) [of a] by (subst bv_eq_sval) simp_all

lemma eq_allones_sval: "wf_bv a \<Longrightarrow> a = mk (bits a) (- 1) \<longleftrightarrow> sval a = - 1"
  using wf_bvD(1) [of a] by (subst bv_eq_sval) (simp_all add: sval_mk)

lemma and_zero_iff:
  assumes "wf_bv a" "wf_bv b" "bits b = bits a"
  shows "bvand a b = mk (bits a) 0 \<longleftrightarrow> uval a AND uval b = 0"
proof -
  have "uval a AND uval b < 2 ^ bits a"
    using AND_upper1 [OF wf_bvD(2) [OF assms(1)], of "uval b"] wf_bvD(3) [OF assms(1)]
    by linarith
  moreover have "0 \<le> uval a AND uval b" using wf_bvD(2) [OF assms(1)] by simp
  ultimately have "take_bit (bits a) (uval a AND uval b) = uval a AND uval b"
    by (intro take_bit_id)
  then show ?thesis by (simp only: bvand_def bv_eq_iff bits_mk uval_mk take_bit_0 simp_thms) simp
qed

lemma div_ub_iff:
  assumes "wf_bv a" "wf_bv b" "bits a = bits b"
  shows "div_ub a b True sgnd \<longleftrightarrow>
     uval b \<noteq> 0 \<and> (sgnd \<longrightarrow> \<not> (sval a = - (2 ^ (bits a - 1)) \<and> sval b = - 1))"
  using eq_smin_sval [OF assms(1)] eq_allones_sval [OF assms(2)]
  by (auto simp: div_ub_def eq_zero_uval assms(3))

lemma mk_of_uval: "bits a = w \<Longrightarrow> uval a = take_bit w n \<Longrightarrow> a = mk w n"
  by (simp add: bv_eq_iff)

lemma mk_of_sval: "wf_bv a \<Longrightarrow> bits a = w \<Longrightarrow> sval a = n \<Longrightarrow> a = mk w n"
  using mk_sval [of a] by simp

lemma sshl_sat_sval:
  assumes "wf_bv a"
  shows "sval (sshl_sat a b) =
     clamp (- (2 ^ (bits a - 1))) (2 ^ (bits a - 1) - 1) (sval a * 2 ^ amt b)"
proof -
  let ?x = "sval a * 2 ^ amt b"
  have w: "0 < bits a" using assms by (rule wf_bvD)
  have sgn: "sval a < 0 \<longleftrightarrow> ?x < 0" by (simp add: mult_less_0_iff)
  have one: "(0::int) < 2 ^ (bits a - 1)" by simp
  show ?thesis
  proof (cases "fits_s (bits a) ?x")
    case True
    then have "sval (mk (bits a) ?x) = ?x" using w by (simp add: fits_s_def sval_mk_id)
    with True show ?thesis
      using assms by (simp add: sshl_sat_def shl_no_soverflow_iff bvshl_smul clamp_def fits_s_def)
  next
    case False
    then have "2 ^ (bits a - 1) \<le> ?x \<or> ?x < - (2 ^ (bits a - 1))" by (auto simp: fits_s_def)
    then have x: "(sval a < 0 \<and> ?x < - (2 ^ (bits a - 1))) \<or> (\<not> sval a < 0 \<and> 2 ^ (bits a - 1) \<le> ?x)"
      using sgn one by linarith
    have "sshl_sat a b = (if sval a < 0 then IntSMin (bits a) else IntSMax (bits a))"
      using False assms by (simp add: sshl_sat_def shl_no_soverflow_iff isNegative_iff)
    with x w one show ?thesis by (auto simp: clamp_def)
  qed
qed

lemma ushl_sat_uval:
  assumes "wf_bv a"
  shows "uval (ushl_sat a b) = clamp 0 (2 ^ bits a - 1) (uval a * 2 ^ amt b)"
  using assms wf_bvD(2) [OF assms]
  by (auto simp: ushl_sat_def shl_no_uoverflow_iff bvshl_mul clamp_def fits_u_def take_bit_id)

lemma wf_sat [simp]:
  "wf_bv a \<Longrightarrow> wf_bv (sadd_sat a b)" "wf_bv a \<Longrightarrow> wf_bv (ssub_sat a b)"
  "wf_bv a \<Longrightarrow> wf_bv (sshl_sat a b)"
  by (auto simp: sadd_sat_def ssub_sat_def sshl_sat_def Let_def wf_bvD(1))

lemma bits_sat [simp]:
  "wf_bv a \<Longrightarrow> bits (sadd_sat a b) = bits a" "wf_bv a \<Longrightarrow> bits (ssub_sat a b) = bits a"
  "wf_bv a \<Longrightarrow> bits (sshl_sat a b) = bits a" "wf_bv a \<Longrightarrow> bits (ushl_sat a b) = bits a"
  "bits (uadd_sat fa fb a b) = bits a" "bits (usub_sat a b) = bits a"
  by (auto simp: sadd_sat_def ssub_sat_def sshl_sat_def ushl_sat_def uadd_sat_def usub_sat_def
      Let_def wf_bvD(1))

lemma clamp_bounds: "lo \<le> hi \<Longrightarrow> lo \<le> clamp lo hi x \<and> clamp lo hi x \<le> hi"
  by (simp add: clamp_def)

lemma take_bit_clamp: "take_bit w (clamp 0 (2 ^ w - 1) x) = clamp 0 (2 ^ w - 1) (x::int)"
  using clamp_bounds [of 0 "2 ^ w - 1" x] by (intro take_bit_id) auto

lemma binop_fn_value:
  assumes "wf_bv a" "wf_bv b" "bits a = bits b" "honest_facts fa a" "honest_facts fb b"
    and "isDivOrRem op \<Longrightarrow> uval b \<noteq> 0"
    and "spec_value op a b = Some v"
  shows "fst (binop_fn fa fb res op fl a ap b bp) = mk (bits a) v"
proof -
  note a = assms(1) and b = assms(2)
  have m: "sval (smin a b) = min (sval a) (sval b)" "sval (smax a b) = max (sval a) (sval b)"
    "uval (umin a b) = min (uval a) (uval b)" "uval (umax a b) = max (uval a) (uval b)"
    using min_max_vals [OF assms(1-3)] by simp_all
  have wm: "wf_bv (smin a b)" "wf_bv (smax a b)" "wf_bv (umin a b)" "wf_bv (umax a b)"
    "bits (smin a b) = bits a" "bits (smax a b) = bits a"
    "bits (umin a b) = bits a" "bits (umax a b) = bits a"
    using assms(1-3) by (simp_all add: smin_def smax_def umin_def umax_def)
  have mm: "umin a b = mk (bits a) (min (uval a) (uval b))"
    "umax a b = mk (bits a) (max (uval a) (uval b))"
    using mk_uval [OF wm(3)] mk_uval [OF wm(4)] m wm by simp_all
  have ms: "smin a b = mk (bits a) (min (sval a) (sval b))"
    "smax a b = mk (bits a) (max (sval a) (sval b))"
    using mk_of_sval [OF wm(1,5)] mk_of_sval [OF wm(2,6)] m by simp_all
  have sat_s:
    "sadd_sat a b = mk (bits a) (clamp (- (2 ^ (bits a - 1))) (2 ^ (bits a - 1) - 1) (sval a + sval b))"
    "ssub_sat a b = mk (bits a) (clamp (- (2 ^ (bits a - 1))) (2 ^ (bits a - 1) - 1) (sval a - sval b))"
    "sshl_sat a b = mk (bits a) (clamp (- (2 ^ (bits a - 1))) (2 ^ (bits a - 1) - 1) (sval a * 2 ^ amt b))"
    using a by (auto intro!: mk_of_sval simp: sadd_sat_sval [OF assms(1-3)]
        ssub_sat_sval [OF assms(1-3)] sshl_sat_sval [OF a])
  have sat_u:
    "uadd_sat fa fb a b = mk (bits a) (clamp 0 (2 ^ bits a - 1) (uval a + uval b))"
    "usub_sat a b = mk (bits a) (clamp 0 (2 ^ bits a - 1) (uval a - uval b))"
    "ushl_sat a b = mk (bits a) (clamp 0 (2 ^ bits a - 1) (uval a * 2 ^ amt b))"
    using a by (auto intro!: mk_of_uval simp: uadd_sat_uval [OF assms(1-5)]
        usub_sat_uval [OF assms(1-3)] ushl_sat_uval [OF a] take_bit_clamp)
  have shr: "bvashr a b = mk (bits a) (sval a div 2 ^ amt b)"
    "bvlshr a b = mk (bits a) (uval a div 2 ^ amt b)"
    by (simp_all add: bvashr_def bvlshr_def drop_bit_eq_div amt_def)
  have ab: "abs_bv a = mk (bits a) \<bar>sval a\<bar>"
  proof -
    have "wf_bv (abs_bv a)" "bits (abs_bv a) = bits a" using a by (simp_all add: abs_bv_def wf_bvD(1))
    then show ?thesis using mk_uval [of "abs_bv a"] abs_bv_uval [OF a] by simp
  qed
  show ?thesis
    using assms(6,7)
    by (cases op)
      (auto simp: bvadd_def bvsub_def bvmul_def bvsdiv_def bvudiv_def bvsrem_def bvurem_def
        bvshl_mul [OF a] bvand_def bvor_def bvxor_def mm ms ab shr sat_s sat_u)
qed

lemma binop_fn_poison:
  assumes "wf_bv a" "wf_bv b" "bits a = bits b" "honest_facts fa a" "honest_facts fb b"
    and "isDivOrRem op \<Longrightarrow> uval b \<noteq> 0"
    and "spec_value op a b \<noteq> None"
  shows "snd (binop_fn fa fb res op fl a True b True) \<longleftrightarrow> spec_no_poison op fl a b"
proof -
  note a = assms(1) and b = assms(2) and e = assms(3) [symmetric]
  note iffs = add_no_soverflow_iff [OF assms(1-5)] add_no_uoverflow_iff [OF assms(1-5)]
    sub_no_soverflow_iff [OF assms(1-5)] sub_no_uoverflow_iff [OF assms(1-3)]
    mul_no_soverflow_iff [OF a b e] mul_no_uoverflow_iff [OF a b e]
    shl_no_soverflow_iff [OF a] shl_no_uoverflow_iff [OF a]
    ashr_exact_iff [OF a] lshr_exact_iff [OF a]
    and_zero_iff [OF a b e] eq_smin_sval [OF a] shift_amount_test [OF b, unfolded e]
    eq_zero_uval [of b, unfolded e]
  have x: "uval b \<noteq> 0 \<Longrightarrow> sdiv_exact a b \<longleftrightarrow> sval b dvd sval a"
    "uval b \<noteq> 0 \<Longrightarrow> udiv_exact a b \<longleftrightarrow> uval b dvd uval a"
    using sdiv_exact_iff [OF a b e] udiv_exact_iff [OF a b e] by simp_all
  show ?thesis
    using assms(6,7) by (cases op) (simp_all add: iffs x e)
qed

text \<open>
  The scalar encoding of a binary operation on defined, non-poison operands is exactly the
  specified one; and it never turns a poison operand into a defined result.
\<close>

lemma binop_scalar_correct:
  assumes "wf_sv w a" "wf_sv w b" "non_poison a" "non_poison b"
    and "honest_facts fa (sv_value a)" "honest_facts fb (sv_value b)"
    and "binop_defined op a b" "spec_value op (sv_value a) (sv_value b) = Some v"
  shows "binop_scalar fa fb res op fl a b = sv (mk w v) (spec_no_poison op fl (sv_value a) (sv_value b))"
proof -
  let ?a = "sv_value a" and ?b = "sv_value b"
  have wf: "wf_bv ?a" "wf_bv ?b" "bits ?a = bits ?b" "bits ?a = w"
    using assms(1,2) by (auto simp: wf_sv_def)
  have d: "isDivOrRem op \<Longrightarrow> uval ?b \<noteq> 0"
    using assms(7) by (auto simp: binop_defined_def div_ub_def eq_zero_uval)
  have "fst (binop_fn fa fb res op fl ?a True ?b True) = mk w v"
    using binop_fn_value [OF wf(1-3) assms(5,6) d assms(8)] wf(4) by simp
  moreover have "snd (binop_fn fa fb res op fl ?a True ?b True) \<longleftrightarrow> spec_no_poison op fl ?a ?b"
    using binop_fn_poison [OF wf(1-3) assms(5,6) d] assms(8) by simp
  ultimately show ?thesis
    using assms(3,4) by (simp add: binop_scalar_def case_prod_beta)
qed

lemma binop_scalar_poison:
  "non_poison (binop_scalar fa fb res op fl a b) \<Longrightarrow> non_poison a \<and> non_poison b"
  by (auto simp: binop_scalar_def sv_def split: prod.splits)

lemma binop_scalar_mono:
  assumes "sv_implies a a'" "sv_implies b b'"
  shows "sv_implies (binop_scalar fa fb res op fl a b) (binop_scalar fa fb res op fl a' b')"
proof (cases "non_poison (binop_scalar fa fb res op fl a b)")
  case True
  then have "non_poison a" "non_poison b" by (auto dest: binop_scalar_poison)
  with assms have "a' = a" "b' = b" by (auto simp: sv_implies_def)
  then show ?thesis by (simp add: sv_implies_def)
qed (simp add: sv_implies_def)

end
