(* ===== verification/Llvm.thy ===== *)
theory Llvm
  imports Instr
begin

text \<open>
  The part of an LLVM function the compositional validator under \<open>tv-next/\<close> looks at. LLVM
  itself is not part of the repository: a pointer to an instruction or an argument is an
  identity (a number), and the functions of the LLVM library whose code the validator relies on
  (the printer) are parameters, collected in a record. An empty name is a value without a name,
  as \<open>hasName\<close> tests it.
\<close>

datatype ty = IntTy nat | VoidTy | OtherTy string

text \<open>\<open>OOvf\<close> is a call of a \<open>with.overflow\<close> intrinsic, \<open>OAssume\<close> a call of \<open>llvm.assume\<close>.\<close>

datatype opcode =
    OBin binop
  | OCast convop
  | OCastOther string
  | OSelect
  | OFreeze
  | OICmp icmp_cond
  | OOvf binop
  | OExtractValue nat
  | OAssume
  | OPhi
  | OOther string
  | OTerm string

datatype val =
    ConstInt bv
  | ConstOther string ty
  | ArgV nat
  | InstV nat

record argument =
  arg_name :: string
  arg_ty :: ty

record inst =
  i_id :: nat
  i_name :: string
  i_op :: opcode
  i_ty :: ty
  i_ops :: "val list"
  i_nsw :: bool
  i_nuw :: bool
  i_exact :: bool
  i_disjoint :: bool
  i_nneg :: bool

record func =
  f_name :: string
  f_args :: "argument list"
  f_blocks :: "inst list list"

text \<open>\<open>unique_name\<close> is the name a value gets when it is inserted into a function whose symbol table
  already holds the given names; \<open>const_fold\<close> is the constant an instruction builder returns in
  place of an instruction on constants.\<close>

record llvm_api =
  print_inst :: "func \<Rightarrow> inst \<Rightarrow> string"
  print_operand :: "val \<Rightarrow> string"
  unique_name :: "string list \<Rightarrow> string \<Rightarrow> string"
  const_fold :: "opcode \<Rightarrow> ty \<Rightarrow> val list \<Rightarrow> val option"

section \<open>Navigation\<close>

definition isTerminator :: "inst \<Rightarrow> bool" where
  "isTerminator I = (case i_op I of OTerm _ \<Rightarrow> True | _ \<Rightarrow> False)"

definition all_insts :: "func \<Rightarrow> inst list" where
  "all_insts f = concat (f_blocks f)"

definition isConstant :: "val \<Rightarrow> bool" where
  "isConstant v = (case v of ConstInt _ \<Rightarrow> True | ConstOther _ _ \<Rightarrow> True | _ \<Rightarrow> False)"

definition find_inst :: "func \<Rightarrow> nat \<Rightarrow> inst option" where
  "find_inst f n = find (\<lambda>I. i_id I = n) (all_insts f)"

definition val_name :: "func \<Rightarrow> val \<Rightarrow> string" where
  "val_name f v =
     (case v of
        ArgV n \<Rightarrow> if n < length (f_args f) then arg_name (f_args f ! n) else []
      | InstV n \<Rightarrow> (case find_inst f n of None \<Rightarrow> [] | Some I \<Rightarrow> i_name I)
      | _ \<Rightarrow> [])"

definition val_ty :: "func \<Rightarrow> val \<Rightarrow> ty" where
  "val_ty f v =
     (case v of
        ConstInt c \<Rightarrow> IntTy (bits c)
      | ConstOther _ t \<Rightarrow> t
      | ArgV n \<Rightarrow> if n < length (f_args f) then arg_ty (f_args f ! n) else VoidTy
      | InstV n \<Rightarrow> (case find_inst f n of None \<Rightarrow> VoidTy | Some I \<Rightarrow> i_ty I))"

definition int_width :: "ty \<Rightarrow> nat" where
  "int_width t = (case t of IntTy w \<Rightarrow> w | _ \<Rightarrow> 0)"

definition hasName :: "func \<Rightarrow> val \<Rightarrow> bool" where
  "hasName f v \<longleftrightarrow> val_name f v \<noteq> []"

definition binop_flags_of :: "inst \<Rightarrow> binop_flags" where
  "binop_flags_of I = \<lparr>NSW = i_nsw I, NUW = i_nuw I, Exact = i_exact I, Disjoint = i_disjoint I\<rparr>"

definition conv_flags_of :: "inst \<Rightarrow> conv_flags" where
  "conv_flags_of I = \<lparr>c_nneg = i_nneg I, c_nuw = i_nuw I, c_nsw = i_nsw I\<rparr>"

section \<open>Meaning of a straight-line instruction\<close>

text \<open>
  One step of a straight-line integer instruction, as \<open>ir/instr.cpp\<close> encodes it: the operands
  come from an assignment of values with a poison bit, \<open>defined\<close> fails where the instruction
  has undefined behaviour, and \<open>freeze\<close> of a poison value may be any value of the width, so the
  step is a relation. The pair a \<open>with.overflow\<close> call returns is the concatenation of its members,
  the overflow bit last. An instruction of any other opcode may give any result.
\<close>

type_synonym env = "val \<Rightarrow> state_value"

definition no_facts :: operand_facts where
  "no_facts = \<lparr>is_const = False, min_leading_zeros = 0\<rparr>"

definition inst_defined :: "env \<Rightarrow> inst \<Rightarrow> bool" where
  "inst_defined \<rho> I =
     (case (i_op I, i_ops I) of
        (OBin op, [a, b]) \<Rightarrow> binop_defined op (\<rho> a) (\<rho> b)
      | (OAssume, [c]) \<Rightarrow> non_poison (\<rho> c) \<and> uval (sv_value (\<rho> c)) \<noteq> 0
      | _ \<Rightarrow> True)"

definition freeze_step :: "state_value \<Rightarrow> state_value \<Rightarrow> bool" where
  "freeze_step v r \<longleftrightarrow> non_poison r \<and> wf_bv (sv_value r) \<and> bits (sv_value r) = bits (sv_value v) \<and>
     (non_poison v \<longrightarrow> sv_value r = sv_value v)"

fun inst_result :: "env \<Rightarrow> inst \<Rightarrow> state_value \<Rightarrow> bool" where
  "inst_result \<rho> I r =
     (case (i_op I, i_ops I) of
        (OBin op, [a, b]) \<Rightarrow>
          r = binop_scalar no_facts no_facts (int_width (i_ty I)) op (binop_flags_of I) (\<rho> a) (\<rho> b)
      | (OCast op, [a]) \<Rightarrow> r = conv_scalar op (conv_flags_of I) (int_width (i_ty I)) (\<rho> a)
      | (OSelect, [c, a, b]) \<Rightarrow> r = select_scalar (\<rho> c) (\<rho> a) (\<rho> b)
      | (OICmp c, [a, b]) \<Rightarrow> r = icmp_scalar c False (\<rho> a) (\<rho> b)
      | (OFreeze, [a]) \<Rightarrow> freeze_step (\<rho> a) r
      | (OOvf op, [a, b]) \<Rightarrow> (case binop_zip no_facts no_facts op (\<rho> a) (\<rho> b) of (v, ovf) \<Rightarrow> r = sv_concat v ovf)
      | (OExtractValue i, [a]) \<Rightarrow> i = 1 \<longrightarrow> r = sv (bvextract (sv_value (\<rho> a)) 0 0) (non_poison (\<rho> a))
      | _ \<Rightarrow> True)"

declare inst_result.simps [simp del]

lemma honest_no_facts [simp]: "wf_bv a \<Longrightarrow> honest_facts no_facts a"
  by (simp add: honest_facts_def no_facts_def wf_bvD)

section \<open>Executions\<close>

text \<open>Runs of a straight-line sequence, one result per instruction.\<close>

inductive run :: "env \<Rightarrow> inst list \<Rightarrow> env \<Rightarrow> bool" where
  run_Nil: "run \<rho> [] \<rho>"
| run_Cons: "inst_defined \<rho> I \<Longrightarrow> inst_result \<rho> I v \<Longrightarrow> (\<forall>w. i_ty I = IntTy w \<longrightarrow> 0 < w \<longrightarrow> wf_sv w v) \<Longrightarrow>
    run (\<rho>(InstV (i_id I) := v)) Is \<rho>' \<Longrightarrow> run \<rho> (I # Is) \<rho>'"

inductive_cases run_NilE: "run \<rho> [] \<rho>'"
inductive_cases run_ConsE: "run \<rho> (I # Is) \<rho>'"

text \<open>
  The deterministic integer instructions as a function of the values of their operands. \<open>None\<close>
  is undefined behaviour, or an instruction that is not one of them.
\<close>

definition op_fn ::
  "opcode \<Rightarrow> nat \<Rightarrow> binop_flags \<Rightarrow> conv_flags \<Rightarrow> state_value list \<Rightarrow> state_value option" where
  "op_fn opc w bf cf vs =
     (case (opc, vs) of
        (OBin op, [a, b]) \<Rightarrow>
          if binop_defined op a b then Some (binop_scalar no_facts no_facts w op bf a b) else None
      | (OCast op, [a]) \<Rightarrow> Some (conv_scalar op cf w a)
      | (OSelect, [c, a, b]) \<Rightarrow> Some (select_scalar c a b)
      | (OICmp c, [a, b]) \<Rightarrow> Some (icmp_scalar c False a b)
      | _ \<Rightarrow> None)"

definition inst_fn :: "inst \<Rightarrow> state_value list \<Rightarrow> state_value option" where
  "inst_fn I = op_fn (i_op I) (int_width (i_ty I)) (binop_flags_of I) (conv_flags_of I)"

fun eval_insts :: "env \<Rightarrow> inst list \<Rightarrow> env option" where
  "eval_insts \<rho> [] = Some \<rho>"
| "eval_insts \<rho> (I # Is) =
     (case inst_fn I (map \<rho> (i_ops I)) of
        None \<Rightarrow> None
      | Some v \<Rightarrow> eval_insts (\<rho>(InstV (i_id I) := v)) Is)"

text \<open>The environment a function starts in, and its result: a single block that ends in
  \<open>ret\<close> of a value.\<close>

definition poison_of :: "ty \<Rightarrow> state_value" where
  "poison_of t = sv (mk (int_width t) 0) False"

definition start_env :: "state_value list \<Rightarrow> env" where
  "start_env args v =
     (case v of
        ConstInt c \<Rightarrow> sv c True
      | ConstOther _ t \<Rightarrow> poison_of t
      | ArgV n \<Rightarrow> if n < length args then args ! n else poison_of VoidTy
      | InstV n \<Rightarrow> poison_of VoidTy)"

definition eval_func :: "func \<Rightarrow> state_value list \<Rightarrow> state_value option" where
  "eval_func f args =
     (case f_blocks f of
        [bb] \<Rightarrow>
          (if bb = [] then None
           else case (i_op (last bb), i_ops (last bb)) of
                  (OTerm _, [v]) \<Rightarrow> map_option (\<lambda>\<rho>. \<rho> v) (eval_insts (start_env args) (butlast bb))
                | _ \<Rightarrow> None)
      | _ \<Rightarrow> None)"

text \<open>Refinement between two functions of the same signature: where the source is defined, the
  target is defined and its result refines the source's.\<close>

definition func_refines :: "func \<Rightarrow> func \<Rightarrow> bool" where
  "func_refines src tgt \<longleftrightarrow>
     (\<forall>args v. length args = length (f_args src) \<longrightarrow> list_all2 (\<lambda>a x. wf_sv (int_width (arg_ty a)) x) (f_args src) args \<longrightarrow>
        eval_func src args = Some v \<longrightarrow> (\<exists>v'. eval_func tgt args = Some v' \<and> sv_implies v v'))"

end
