(* ===== verification/Diff.thy ===== *)
theory Diff
  imports Llvm "HOL-Library.Multiset"
begin

text \<open>
  Structural diffing of a source and a target function: \<open>tv-next/diff.h\<close> and
  \<open>tv-next/diff.cpp\<close>. The two lockstep loops are recursions over the two instruction lists;
  the current group, the finished regions and the counter are their accumulators. Printing an
  instruction or a constant operand is LLVM's, and a parameter. A diagnostic and
  \<open>std::nullopt\<close> is \<open>None\<close>.
\<close>

section \<open>Data\<close>

record diff_position =
  inst_idx :: nat
  src_inst :: inst
  tgt_inst :: inst

record diff_region =
  positions :: "diff_position list"
  is_asymmetric :: bool
  src_region :: "inst list"
  tgt_region :: "inst list"
  src_start_idx :: nat
  tgt_start_idx :: nat

record diff_result =
  regions :: "diff_region list"
  identical_count :: nat

definition empty_region :: diff_region where
  "empty_region = \<lparr>positions = [], is_asymmetric = False, src_region = [], tgt_region = [],
     src_start_idx = 0, tgt_start_idx = 0\<rparr>"

definition position :: "nat \<Rightarrow> inst \<Rightarrow> inst \<Rightarrow> diff_position" where
  "position i s t = \<lparr>inst_idx = i, src_inst = s, tgt_inst = t\<rparr>"

section \<open>Comparing instructions\<close>

text \<open>\<open>getOpcode\<close> does not tell comparison predicates apart.\<close>

definition sameOpcode :: "inst \<Rightarrow> inst \<Rightarrow> bool" where
  "sameOpcode s t =
     (case (i_op s, i_op t) of
        (OICmp _, OICmp _) \<Rightarrow> True
      | (a, b) \<Rightarrow> a = b)"

definition operandKey :: "llvm_api \<Rightarrow> func \<Rightarrow> val \<Rightarrow> string" where
  "operandKey L f v = (if isConstant v then print_operand L v else val_name f v)"

text \<open>
  The operands LLVM counts. The operations that are not instructions of LLVM are calls of intrinsics, and the
  callee of a call is its last operand; it is the same for calls of the same operation.
\<close>

definition isCall :: "opcode \<Rightarrow> bool" where
  "isCall oc =
     (case oc of
        OBin op \<Rightarrow> op \<notin> {Add, Sub, Mul, SDiv, UDiv, SRem, URem, Shl, AShr, LShr, And, Or, Xor}
      | OOvf _ \<Rightarrow> True
      | OAssume \<Rightarrow> True
      | _ \<Rightarrow> False)"

definition getOperands :: "inst \<Rightarrow> val list" where
  "getOperands I = i_ops I @ (if isCall (i_op I) then [ConstOther ''callee'' (OtherTy ''ptr'')] else [])"

definition isLikelyCommutativity :: "llvm_api \<Rightarrow> func \<Rightarrow> func \<Rightarrow> inst \<Rightarrow> inst \<Rightarrow> bool" where
  "isLikelyCommutativity L fs ft s t =
     (if \<not> sameOpcode s t then False
      else if length (getOperands s) \<noteq> 2 \<or> length (getOperands t) \<noteq> 2 then False
      else if i_name s \<noteq> i_name t then False
      else mset (map (operandKey L fs) (getOperands s)) = mset (map (operandKey L ft) (getOperands t)))"

text \<open>\<open>s.find(", !")\<close> followed by \<open>resize\<close>: the text before the first occurrence.\<close>

fun cut_at :: "string \<Rightarrow> string \<Rightarrow> string" where
  "cut_at pat [] = []"
| "cut_at pat (c # cs) = (if take (length pat) (c # cs) = pat then [] else c # cut_at pat cs)"

definition instAsText :: "llvm_api \<Rightarrow> func \<Rightarrow> inst \<Rightarrow> string" where
  "instAsText L f I =
     dropWhile (\<lambda>c. c = CHR '' '' \<or> c = CHR 0x09) (cut_at '', !'' (print_inst L f I))"

definition sameText :: "llvm_api \<Rightarrow> func \<Rightarrow> func \<Rightarrow> inst \<Rightarrow> inst \<Rightarrow> bool" where
  "sameText L fs ft s t \<longleftrightarrow> instAsText L fs s = instAsText L ft t"

section \<open>Regions\<close>

definition flush_group :: "diff_position list \<Rightarrow> diff_region list \<Rightarrow> diff_region list" where
  "flush_group current rs = (if current \<noteq> [] then rs @ [empty_region\<lparr>positions := current\<rparr>] else rs)"

text \<open>The loop for equal counts, over \<open>same\<close> and \<open>comm\<close>, the two comparisons.\<close>

fun pair_loop ::
  "(inst \<Rightarrow> inst \<Rightarrow> bool) \<Rightarrow> (inst \<Rightarrow> inst \<Rightarrow> bool) \<Rightarrow> nat \<Rightarrow> inst list \<Rightarrow> inst list
   \<Rightarrow> diff_position list \<Rightarrow> diff_region list \<Rightarrow> nat \<Rightarrow> diff_result" where
  "pair_loop same comm i (s # ss) (t # ts) current rs n =
     (if same s t then pair_loop same comm (Suc i) ss ts [] (flush_group current rs) (Suc n)
      else if comm s t then
        pair_loop same comm (Suc i) ss ts [] (flush_group [position i s t] (flush_group current rs)) n
      else pair_loop same comm (Suc i) ss ts (current @ [position i s t]) rs n)"
| "pair_loop same comm i _ _ current rs n = \<lparr>regions = flush_group current rs, identical_count = n\<rparr>"

text \<open>The loop for different counts; it stops at the first pair that is neither identical nor
  of equal non-empty name, and the rest of both sides is one asymmetric region.\<close>

definition asym_region :: "nat \<Rightarrow> inst list \<Rightarrow> inst list \<Rightarrow> diff_region list" where
  "asym_region i ss ts =
     (if ss \<noteq> [] \<or> ts \<noteq> []
      then [empty_region\<lparr>is_asymmetric := True, src_start_idx := i, tgt_start_idx := i,
              src_region := ss, tgt_region := ts\<rparr>]
      else [])"

fun tail_loop ::
  "(inst \<Rightarrow> inst \<Rightarrow> bool) \<Rightarrow> (inst \<Rightarrow> inst \<Rightarrow> bool) \<Rightarrow> nat \<Rightarrow> inst list \<Rightarrow> inst list
   \<Rightarrow> diff_position list \<Rightarrow> diff_region list \<Rightarrow> nat \<Rightarrow> diff_result" where
  "tail_loop same comm i (s # ss) (t # ts) current rs n =
     (if same s t then tail_loop same comm (Suc i) ss ts [] (flush_group current rs) (Suc n)
      else if i_name s \<noteq> [] \<and> i_name t \<noteq> [] \<and> i_name s = i_name t then
        (if comm s t then
           tail_loop same comm (Suc i) ss ts [] (flush_group [position i s t] (flush_group current rs)) n
         else tail_loop same comm (Suc i) ss ts (current @ [position i s t]) rs n)
      else \<lparr>regions = flush_group current rs @ asym_region i (s # ss) (t # ts), identical_count = n\<rparr>)"
| "tail_loop same comm i ss ts current rs n =
     \<lparr>regions = flush_group current rs @ asym_region i ss ts, identical_count = n\<rparr>"

definition body_insts :: "inst list \<Rightarrow> inst list" where
  "body_insts bb = filter (\<lambda>I. \<not> isTerminator I) bb"

text \<open>\<open>BasicBlock::getTerminator\<close>: the last instruction, if it is a terminator.\<close>

definition getTerminator :: "inst list \<Rightarrow> inst option" where
  "getTerminator bb = (if bb \<noteq> [] \<and> isTerminator (last bb) then Some (last bb) else None)"

definition computeDiffRegions :: "llvm_api \<Rightarrow> func \<Rightarrow> func \<Rightarrow> diff_result option" where
  "computeDiffRegions L src tgt =
     (case (f_blocks src, f_blocks tgt) of
        ([src_bb], [tgt_bb]) \<Rightarrow>
          let src_insts = body_insts src_bb; tgt_insts = body_insts tgt_bb;
              same = sameText L src tgt; comm = isLikelyCommutativity L src tgt;
              result = (if length src_insts = length tgt_insts
                        then pair_loop same comm 0 src_insts tgt_insts [] [] 0
                        else tail_loop same comm 0 src_insts tgt_insts [] [] 0)
          in (case (getTerminator src_bb, getTerminator tgt_bb) of
                (Some s, Some t) \<Rightarrow> if same s t then Some result else None
              | _ \<Rightarrow> Some result)
      | _ \<Rightarrow> None)"

section \<open>What the loops cover\<close>

text \<open>The pairs of a lockstep walk, numbered from \<open>i\<close>.\<close>

fun numbered :: "nat \<Rightarrow> inst list \<Rightarrow> inst list \<Rightarrow> diff_position list" where
  "numbered i (s # ss) (t # ts) = position i s t # numbered (Suc i) ss ts"
| "numbered i _ _ = []"

definition pos_same :: "(inst \<Rightarrow> inst \<Rightarrow> bool) \<Rightarrow> diff_position \<Rightarrow> bool" where
  "pos_same same p = same (src_inst p) (tgt_inst p)"

definition sym_positions :: "diff_region list \<Rightarrow> diff_position list" where
  "sym_positions rs = concat (map positions rs)"

lemma sym_positions_simps [simp]:
  "sym_positions [] = []" "sym_positions (rs @ rs') = sym_positions rs @ sym_positions rs'"
  "sym_positions (asym_region i ss ts) = []"
  "sym_positions (flush_group cur rs) = sym_positions rs @ cur"
  by (simp_all add: sym_positions_def asym_region_def flush_group_def empty_region_def)

lemma pos_same_position [simp]: "pos_same same (position i s t) = same s t"
  by (simp add: pos_same_def position_def)

lemma pair_loop_positions:
  "sym_positions (regions (pair_loop same comm i ss ts cur rs n)) =
     sym_positions rs @ cur @ filter (\<lambda>p. \<not> pos_same same p) (numbered i ss ts)"
  by (induction same comm i ss ts cur rs n rule: pair_loop.induct) simp_all

lemma pair_loop_identical:
  "identical_count (pair_loop same comm i ss ts cur rs n) =
     n + length (filter (pos_same same) (numbered i ss ts))"
  by (induction same comm i ss ts cur rs n rule: pair_loop.induct) simp_all

text \<open>How far the walk for different counts gets.\<close>

fun aligned :: "(inst \<Rightarrow> inst \<Rightarrow> bool) \<Rightarrow> inst list \<Rightarrow> inst list \<Rightarrow> nat" where
  "aligned same (s # ss) (t # ts) =
     (if same s t \<or> i_name s \<noteq> [] \<and> i_name s = i_name t then Suc (aligned same ss ts) else 0)"
| "aligned same _ _ = 0"

lemma tail_loop_positions:
  "sym_positions (regions (tail_loop same comm i ss ts cur rs n)) =
     sym_positions rs @ cur @
       filter (\<lambda>p. \<not> pos_same same p) (numbered i (take (aligned same ss ts) ss) (take (aligned same ss ts) ts))"
  by (induction same comm i ss ts cur rs n rule: tail_loop.induct) auto

lemma tail_loop_identical:
  "identical_count (tail_loop same comm i ss ts cur rs n) =
     n + length (filter (pos_same same) (numbered i (take (aligned same ss ts) ss) (take (aligned same ss ts) ts)))"
  by (induction same comm i ss ts cur rs n rule: tail_loop.induct) auto

definition asym_part :: "diff_region list \<Rightarrow> diff_region list" where
  "asym_part rs = filter is_asymmetric rs"

lemma asym_part_simps [simp]:
  "asym_part [] = []" "asym_part (rs @ rs') = asym_part rs @ asym_part rs'"
  "asym_part (asym_region i ss ts) = asym_region i ss ts" "asym_part (flush_group cur rs) = asym_part rs"
  by (simp_all add: asym_part_def asym_region_def flush_group_def empty_region_def)

lemma tail_loop_asym:
  "asym_part (regions (tail_loop same comm i ss ts cur rs n)) =
     asym_part rs @ asym_region (i + aligned same ss ts) (drop (aligned same ss ts) ss) (drop (aligned same ss ts) ts)"
  by (induction same comm i ss ts cur rs n rule: tail_loop.induct) auto

lemma pair_loop_asym: "asym_part (regions (pair_loop same comm i ss ts cur rs n)) = asym_part rs"
  by (induction same comm i ss ts cur rs n rule: pair_loop.induct) simp_all

lemma aligned_le: "aligned same ss ts \<le> length ss \<and> aligned same ss ts \<le> length ts"
  by (induction same ss ts rule: aligned.induct) auto

lemma length_numbered: "length (numbered i ss ts) = min (length ss) (length ts)"
  by (induction i ss ts rule: numbered.induct) auto

lemma numbered_nth:
  "k < length (numbered i ss ts) \<Longrightarrow> numbered i ss ts ! k = position (i + k) (ss ! k) (ts ! k)"
  by (induction i ss ts arbitrary: k rule: numbered.induct) (auto simp: nth_Cons split: nat.splits)

section \<open>Shape of a region\<close>

text \<open>A symmetric region is non-empty and its indices are consecutive.\<close>

definition consecutive :: "diff_position list \<Rightarrow> bool" where
  "consecutive ps \<longleftrightarrow> ps \<noteq> [] \<and> map inst_idx ps = [inst_idx (hd ps) ..< inst_idx (hd ps) + length ps]"

definition good_region :: "diff_region \<Rightarrow> bool" where
  "good_region r \<longleftrightarrow>
     (if is_asymmetric r then positions r = [] \<and> (src_region r \<noteq> [] \<or> tgt_region r \<noteq> [])
      else consecutive (positions r) \<and> src_region r = [] \<and> tgt_region r = [])"

definition group_ok :: "nat \<Rightarrow> diff_position list \<Rightarrow> bool" where
  "group_ok i cur \<longleftrightarrow> cur = [] \<or> consecutive cur \<and> inst_idx (hd cur) + length cur = i"

lemma group_ok_snoc: "group_ok i cur \<Longrightarrow> group_ok (Suc i) (cur @ [position i s t])"
  by (cases cur) (auto simp: group_ok_def consecutive_def position_def)

lemma flush_good:
  "group_ok i cur \<Longrightarrow> \<forall>r \<in> set rs. good_region r \<Longrightarrow> \<forall>r \<in> set (flush_group cur rs). good_region r"
  by (auto simp: flush_group_def group_ok_def good_region_def empty_region_def)

lemma singleton_ok: "group_ok (Suc i) [position i s t]" "group_ok i []"
  by (simp_all add: group_ok_def consecutive_def position_def)

lemma pair_loop_good:
  "group_ok i cur \<Longrightarrow> \<forall>r \<in> set rs. good_region r \<Longrightarrow>
     \<forall>r \<in> set (regions (pair_loop same comm i ss ts cur rs n)). good_region r"
proof (induction same comm i ss ts cur rs n rule: pair_loop.induct)
  case (1 same comm i s ss t ts cur rs n)
  note f = flush_good [OF 1(4,5)]
  show ?case
    using 1(1) [OF _ singleton_ok(2) f] 1(2) [OF _ _ singleton_ok(2) flush_good [OF singleton_ok(1) f]]
      1(3) [OF _ _ group_ok_snoc [OF 1(4)] 1(5)] by simp
qed (auto dest: flush_good)

lemma asym_good: "\<forall>r \<in> set (asym_region i ss ts). good_region r"
  by (simp add: asym_region_def good_region_def empty_region_def)

lemma tail_loop_good:
  "group_ok i cur \<Longrightarrow> \<forall>r \<in> set rs. good_region r \<Longrightarrow>
     \<forall>r \<in> set (regions (tail_loop same comm i ss ts cur rs n)). good_region r"
proof (induction same comm i ss ts cur rs n rule: tail_loop.induct)
  case (1 same comm i s ss t ts cur rs n)
  note f = flush_good [OF 1(4,5)]
  show ?case
    using 1(1) [OF _ singleton_ok(2) f] 1(2) [OF _ _ _ singleton_ok(2) flush_good [OF singleton_ok(1) f]]
      1(3) [OF _ _ _ group_ok_snoc [OF 1(4)] 1(5)] f asym_good by auto
qed (use asym_good in \<open>auto dest: flush_good\<close>)

section \<open>Properties\<close>

lemma filter_partition: "length (filter P xs) + length (filter (\<lambda>x. \<not> P x) xs) = length xs"
  by (induction xs) auto

lemma computeDiffRegionsE:
  assumes "computeDiffRegions L src tgt = Some res"
  obtains sb tb where "f_blocks src = [sb]" "f_blocks tgt = [tb]"
    "res = (if length (body_insts sb) = length (body_insts tb)
       then pair_loop (sameText L src tgt) (isLikelyCommutativity L src tgt) 0 (body_insts sb) (body_insts tb) [] [] 0
       else tail_loop (sameText L src tgt) (isLikelyCommutativity L src tgt) 0 (body_insts sb) (body_insts tb) [] [] 0)"
  using assms by (auto simp: computeDiffRegions_def Let_def split: list.splits option.splits if_splits)

text \<open>
  C17 (functional). A successful diff accounts for every instruction of both bodies, once. There
  is a number of aligned pairs such that the positions of the symmetric regions are, in order,
  the aligned pairs whose texts differ; \<open>identical_count\<close> counts the aligned pairs whose texts
  agree; and everything after the aligned pairs, on both sides, is the one asymmetric region
  (none when nothing is left). With equal counts every pair is aligned.
\<close>

theorem diff_accounts_for_all:
  assumes "computeDiffRegions L src tgt = Some res" "f_blocks src = [sb]" "f_blocks tgt = [tb]"
  defines "ss \<equiv> body_insts sb" and "ts \<equiv> body_insts tb"
  shows "\<exists>k \<le> min (length ss) (length ts).
    sym_positions (regions res) =
      filter (\<lambda>p. \<not> pos_same (sameText L src tgt) p) (numbered 0 (take k ss) (take k ts)) \<and>
    identical_count res = length (filter (pos_same (sameText L src tgt)) (numbered 0 (take k ss) (take k ts))) \<and>
    asym_part (regions res) = asym_region k (drop k ss) (drop k ts) \<and>
    (length ss = length ts \<longrightarrow> k = length ss) \<and>
    identical_count res + length (sym_positions (regions res)) + length (drop k ss) = length ss \<and>
    identical_count res + length (sym_positions (regions res)) + length (drop k ts) = length ts"
proof -
  let ?same = "sameText L src tgt" and ?comm = "isLikelyCommutativity L src tgt"
  have count: "length (filter (pos_same ?same) (numbered 0 (take k ss) (take k ts))) +
      length (filter (\<lambda>p. \<not> pos_same ?same p) (numbered 0 (take k ss) (take k ts))) = k"
    if "k \<le> length ss" "k \<le> length ts" for k
    using that by (simp add: filter_partition length_numbered)
  have res: "res = (if length ss = length ts then pair_loop ?same ?comm 0 ss ts [] [] 0
      else tail_loop ?same ?comm 0 ss ts [] [] 0)"
    unfolding ss_def ts_def by (rule computeDiffRegionsE [OF assms(1)]) (simp add: assms(2,3))
  show ?thesis
  proof (cases "length ss = length ts")
    case True
    then have res: "res = pair_loop ?same ?comm 0 ss ts [] [] 0" using res by simp
    show ?thesis
      unfolding res using True count [of "length ss"]
      by (intro exI [of _ "length ss"])
        (simp add: pair_loop_positions pair_loop_identical pair_loop_asym asym_region_def)
  next
    case False
    then have res: "res = tail_loop ?same ?comm 0 ss ts [] [] 0" using res by simp
    show ?thesis
      unfolding res using False aligned_le [of ?same ss ts] count [of "aligned ?same ss ts"]
      by (intro exI [of _ "aligned ?same ss ts"])
        (simp add: tail_loop_positions tail_loop_identical tail_loop_asym)
  qed
qed

text \<open>
  Every region of a result has the shape the header promises: a symmetric region
  holds at least one pair and its indices are consecutive, an asymmetric one holds no pair and
  at least one instruction.
\<close>

theorem diff_regions_shape:
  assumes "computeDiffRegions L src tgt = Some res"
  shows "list_all good_region (regions res)"
  unfolding list_all_iff
proof (rule computeDiffRegionsE [OF assms])
  show "\<forall>r \<in> set (regions res). good_region r" if "res = (if c then pair_loop same comm 0 ss ts [] [] 0
      else tail_loop same comm 0 ss ts [] [] 0)" for c same comm ss ts
    unfolding that using pair_loop_good [OF singleton_ok(2), of "[]" same comm 0 ss ts 0]
      tail_loop_good [OF singleton_ok(2), of "[]" same comm 0 ss ts 0]
    by (simp split: if_splits)
qed

text \<open>
  The diff succeeds exactly when both functions are single blocks and, if both blocks
  end in terminators, the texts of these are equal.
\<close>

theorem diff_succeeds_iff:
  "(\<exists>d. computeDiffRegions L src tgt = Some d) \<longleftrightarrow>
     (\<exists>sb tb. f_blocks src = [sb] \<and> f_blocks tgt = [tb] \<and>
        (case (getTerminator sb, getTerminator tb) of
           (Some s, Some t) \<Rightarrow> instAsText L src s = instAsText L tgt t
         | _ \<Rightarrow> True))"
  by (auto simp: computeDiffRegions_def Let_def sameText_def split: list.splits option.splits)

text \<open>A pair of functions with one instruction that differs, printed by name and flag.\<close>

definition demo_api :: llvm_api where
  "demo_api = \<lparr>print_inst = (\<lambda>f I. ''  '' @ i_name I @ (if i_nsw I then '' nsw'' else []) @ '', !dbg''),
     print_operand = (\<lambda>v. ''c''), unique_name = (\<lambda>ns n. n),
     const_fold = (\<lambda>_ _ _. None)\<rparr>"

definition demo_add :: "nat \<Rightarrow> string \<Rightarrow> bool \<Rightarrow> inst" where
  "demo_add n nm nsw = \<lparr>i_id = n, i_name = nm, i_op = OBin Add, i_ty = IntTy 8, i_ops = [ArgV 0, ArgV 1],
     i_nsw = nsw, i_nuw = False, i_exact = False, i_disjoint = False, i_nneg = False\<rparr>"

definition demo_ret :: inst where
  "demo_ret = \<lparr>i_id = 9, i_name = [], i_op = OTerm ''ret'', i_ty = VoidTy, i_ops = [InstV 1],
     i_nsw = False, i_nuw = False, i_exact = False, i_disjoint = False, i_nneg = False\<rparr>"

definition demo_func :: "bool \<Rightarrow> func" where
  "demo_func nsw = \<lparr>f_name = ''f'', f_args = [\<lparr>arg_name = ''x'', arg_ty = IntTy 8\<rparr>, \<lparr>arg_name = ''y'', arg_ty = IntTy 8\<rparr>],
     f_blocks = [[demo_add 0 ''a'' False, demo_add 1 ''b'' nsw, demo_ret]]\<rparr>"

definition demo_result :: diff_result where
  "demo_result = \<lparr>regions = [empty_region\<lparr>positions := [position 1 (demo_add 1 ''b'' False) (demo_add 1 ''b'' True)]\<rparr>],
     identical_count = 1\<rparr>"

lemma demo_diff: "computeDiffRegions demo_api (demo_func False) (demo_func True) = Some demo_result"
  by (simp add: computeDiffRegions_def demo_func_def demo_api_def demo_result_def demo_add_def
      demo_ret_def body_insts_def isTerminator_def getTerminator_def sameText_def instAsText_def
      isLikelyCommutativity_def operandKey_def val_name_def isConstant_def sameOpcode_def flush_group_def
      position_def empty_region_def)

theorem diff_accounts_for_all_witness:
  "\<exists>k \<le> 2. identical_count demo_result + length (sym_positions (regions demo_result)) +
     length (drop k [demo_add 0 ''a'' False, demo_add 1 ''b'' False]) = 2"
  using diff_accounts_for_all [OF demo_diff, of "[demo_add 0 ''a'' False, demo_add 1 ''b'' False, demo_ret]"
      "[demo_add 0 ''a'' False, demo_add 1 ''b'' True, demo_ret]"]
  by (auto simp: demo_func_def body_insts_def demo_add_def demo_ret_def isTerminator_def numeral_2_eq_2)

theorem diff_regions_shape_witness: "list_all good_region (regions demo_result)"
  by (rule diff_regions_shape [OF demo_diff])

end
