(* ===== verification/Unit.thy ===== *)
theory Unit
  imports Diff
begin

text \<open>
  Lifting a difference region to a stand-alone function pair: \<open>tv-next/unit.h\<close> and
  \<open>tv-next/unit.cpp\<close>. A clone gets the next number of the unit function and the operand list
  rewired: constants stay, instructions of the region become their clones, every other value
  becomes the parameter of its name. A look-up the code dereferences without a test
  (\<open>orig_to_clone.find\<close>, \<open>name_to_param.find\<close>) is an option. Data layout and target triple are
  not modelled.
\<close>

record tv_unit =
  u_name :: string
  u_src :: func
  u_tgt :: func

section \<open>Operands from outside\<close>

fun collect_ops :: "func \<Rightarrow> nat set \<Rightarrow> val list \<Rightarrow> (string \<times> ty) list \<Rightarrow> (string \<times> ty) list option" where
  "collect_ops f internal [] out = Some out"
| "collect_ops f internal (V # Vs) out =
     (if isConstant V then collect_ops f internal Vs out
      else if (case V of InstV n \<Rightarrow> n \<in> internal | _ \<Rightarrow> False) then collect_ops f internal Vs out
      else if \<not> hasName f V then None
      else if val_name f V \<in> set (map fst out) then collect_ops f internal Vs out
      else collect_ops f internal Vs (out @ [(val_name f V, val_ty f V)]))"

definition collectExternalOperands ::
  "func \<Rightarrow> inst list \<Rightarrow> nat set \<Rightarrow> (string \<times> ty) list option" where
  "collectExternalOperands f insts internal = collect_ops f internal (concat (map i_ops insts)) []"

fun add_operands :: "(string \<times> ty) list \<Rightarrow> (string \<times> ty) list \<Rightarrow> (string \<times> ty) list option" where
  "add_operands [] out = Some out"
| "add_operands (p # ps) out =
     (case map_of out (fst p) of
        None \<Rightarrow> add_operands ps (out @ [p])
      | Some t \<Rightarrow> if t \<noteq> snd p then None else add_operands ps out)"

definition unionNamedOperands ::
  "(string \<times> ty) list \<Rightarrow> (string \<times> ty) list \<Rightarrow> (string \<times> ty) list option" where
  "unionNamedOperands src_ops tgt_ops =
     (case add_operands src_ops [] of None \<Rightarrow> None | Some out \<Rightarrow> add_operands tgt_ops out)"

section \<open>Cloning\<close>

fun param_index :: "string list \<Rightarrow> string \<Rightarrow> nat option" where
  "param_index [] x = None"
| "param_index (p # ps) x = (if p = x then Some 0 else map_option Suc (param_index ps x))"

definition rewire :: "func \<Rightarrow> nat set \<Rightarrow> (nat \<Rightarrow> nat option) \<Rightarrow> string list \<Rightarrow> val \<Rightarrow> val option" where
  "rewire f internal orig_to_clone params V =
     (if isConstant V then Some V
      else case V of
             InstV n \<Rightarrow>
               if n \<in> internal then map_option InstV (orig_to_clone n)
               else map_option ArgV (param_index params (val_name f V))
           | _ \<Rightarrow> map_option ArgV (param_index params (val_name f V)))"

fun rewire_all :: "(val \<Rightarrow> val option) \<Rightarrow> val list \<Rightarrow> val list option" where
  "rewire_all g [] = Some []"
| "rewire_all g (V # Vs) =
     (case g V of None \<Rightarrow> None | Some V' \<Rightarrow> map_option (Cons V') (rewire_all g Vs))"

fun clone_loop ::
  "llvm_api \<Rightarrow> func \<Rightarrow> nat set \<Rightarrow> string list \<Rightarrow> inst list \<Rightarrow> nat \<Rightarrow> (nat \<Rightarrow> nat option) \<Rightarrow> string list
   \<Rightarrow> inst list option" where
  "clone_loop L f internal params [] next orig_to_clone names = Some []"
| "clone_loop L f internal params (I # Is) next orig_to_clone names =
     (case rewire_all (rewire f internal orig_to_clone params) (i_ops I) of
        None \<Rightarrow> None
      | Some ops \<Rightarrow>
          let nm = (if i_name I = [] then [] else unique_name L names (i_name I));
              cloned = I\<lparr>i_id := next, i_name := nm, i_ops := ops\<rparr>
          in map_option (Cons cloned)
               (clone_loop L f internal params Is (Suc next) (orig_to_clone(i_id I \<mapsto> next))
                  (if nm = [] then names else nm # names)))"

definition ret_inst :: "nat \<Rightarrow> val \<Rightarrow> inst" where
  "ret_inst n v = \<lparr>i_id = n, i_name = [], i_op = OTerm ''ret'', i_ty = VoidTy, i_ops = [v],
     i_nsw = False, i_nuw = False, i_exact = False, i_disjoint = False, i_nneg = False\<rparr>"

definition buildHalf ::
  "llvm_api \<Rightarrow> func \<Rightarrow> inst list \<Rightarrow> string \<Rightarrow> (string \<times> ty) list \<Rightarrow> nat set \<Rightarrow> func option" where
  "buildHalf L f insts fname params internal =
     (if insts = [] then None
      else map_option (\<lambda>clones. \<lparr>f_name = fname,
               f_args = map (\<lambda>p. \<lparr>arg_name = fst p, arg_ty = snd p\<rparr>) params,
               f_blocks = [clones @ [ret_inst (length clones) (InstV (i_id (last clones)))]]\<rparr>)
             (clone_loop L f internal (map fst params) insts 0 Map.empty (map fst params)))"

definition lift_pair ::
  "llvm_api \<Rightarrow> func \<Rightarrow> func \<Rightarrow> inst list \<Rightarrow> inst list \<Rightarrow> string \<Rightarrow> tv_unit option" where
  "lift_pair L src tgt src_insts tgt_insts diag_name =
     (let src_internal = set (map i_id src_insts); tgt_internal = set (map i_id tgt_insts) in
      case collectExternalOperands src src_insts src_internal of None \<Rightarrow> None
      | Some src_externals \<Rightarrow>
      (case collectExternalOperands tgt tgt_insts tgt_internal of None \<Rightarrow> None
      | Some tgt_externals \<Rightarrow>
      (case unionNamedOperands src_externals tgt_externals of None \<Rightarrow> None
      | Some unioned \<Rightarrow>
      (case (buildHalf L src src_insts ''src'' unioned src_internal,
             buildHalf L tgt tgt_insts ''tgt'' unioned tgt_internal) of
         (Some s, Some t) \<Rightarrow> Some \<lparr>u_name = diag_name, u_src = s, u_tgt = t\<rparr>
       | _ \<Rightarrow> None))))"

section \<open>Building a unit\<close>

definition buildAsymTvUnit :: "llvm_api \<Rightarrow> func \<Rightarrow> func \<Rightarrow> diff_region \<Rightarrow> string \<Rightarrow> tv_unit option" where
  "buildAsymTvUnit L src tgt region diag_name =
     (let src_insts = src_region region; tgt_insts = tgt_region region in
      if src_insts = [] \<or> tgt_insts = [] then None
      else if list_ex isTerminator src_insts then None
      else if list_ex isTerminator tgt_insts then None
      else if i_ty (last src_insts) = VoidTy then None
      else if i_ty (last tgt_insts) \<noteq> i_ty (last src_insts) then None
      else lift_pair L src tgt src_insts tgt_insts diag_name)"

text \<open>The per-position checks, in the order of the loop.\<close>

fun check_positions :: "diff_position list \<Rightarrow> bool" where
  "check_positions [] = True"
| "check_positions (dp # dps) =
     (if isTerminator (src_inst dp) \<or> isTerminator (tgt_inst dp) then False
      else if i_ty (src_inst dp) \<noteq> i_ty (tgt_inst dp) then False
      else check_positions dps)"

definition buildTvUnit :: "llvm_api \<Rightarrow> func \<Rightarrow> func \<Rightarrow> diff_region \<Rightarrow> string \<Rightarrow> tv_unit option" where
  "buildTvUnit L src tgt region diag_name =
     (if is_asymmetric region then buildAsymTvUnit L src tgt region diag_name
      else if positions region = [] then None
      else if \<not> check_positions (positions region) then None
      else
        let src_insts = map src_inst (positions region); tgt_insts = map tgt_inst (positions region) in
        if i_ty (last src_insts) = VoidTy then None
        else lift_pair L src tgt src_insts tgt_insts diag_name)"

section \<open>Parameters\<close>

text \<open>A value that the lifted function has to take as a parameter.\<close>

definition external :: "nat set \<Rightarrow> val \<Rightarrow> bool" where
  "external internal V \<longleftrightarrow> \<not> isConstant V \<and> \<not> (case V of InstV n \<Rightarrow> n \<in> internal | _ \<Rightarrow> False)"

lemma collect_ops_names:
  "collect_ops f internal Vs out = Some out' \<Longrightarrow> distinct (map fst out) \<Longrightarrow>
     distinct (map fst out') \<and> set out \<subseteq> set out'"
proof (induction Vs arbitrary: out)
  case (Cons V Vs)
  then show ?case
    using Cons.IH [of out] Cons.IH [of "out @ [(val_name f V, val_ty f V)]"] by (auto split: if_splits)
qed simp

lemma collect_ops_covers:
  "collect_ops f internal Vs out = Some out' \<Longrightarrow> distinct (map fst out) \<Longrightarrow>
     V \<in> set Vs \<Longrightarrow> external internal V \<Longrightarrow> hasName f V \<and> val_name f V \<in> set (map fst out')"
proof (induction Vs arbitrary: out)
  case (Cons W Vs)
  let ?out2 = "out @ [(val_name f W, val_ty f W)]"
  consider (skip) "collect_ops f internal Vs out = Some out'" "external internal W \<Longrightarrow> hasName f W \<and> val_name f W \<in> set (map fst out)"
    | (add) "collect_ops f internal Vs ?out2 = Some out'" "hasName f W" "distinct (map fst ?out2)"
    using Cons.prems(1,2) by (auto simp: external_def split: if_splits)
  then show ?case
  proof cases
    case skip
    have sub: "set (map fst out) \<subseteq> set (map fst out')"
      using collect_ops_names [OF skip(1) Cons.prems(2)] by auto
    show ?thesis
    proof (cases "V = W")
      case True
      then show ?thesis using skip(2) Cons.prems(4) sub by blast
    qed (use Cons.IH [OF skip(1) Cons.prems(2)] Cons.prems(3,4) in simp)
  next
    case add
    have sub: "set (map fst ?out2) \<subseteq> set (map fst out')"
      using image_mono [OF conjunct2 [OF collect_ops_names [OF add(1,3)]], of fst] by simp
    show ?thesis
    proof (cases "V = W")
      case True
      then show ?thesis using add(2) sub by simp
    qed (use Cons.IH [OF add(1,3)] Cons.prems(3,4) in simp)
  qed
qed simp

lemma add_operands_ok:
  "add_operands ps out = Some out' \<Longrightarrow> distinct (map fst out) \<Longrightarrow>
     distinct (map fst out') \<and> set out' = set out \<union> set ps"
proof (induction ps arbitrary: out)
  case (Cons p ps)
  show ?case
  proof (cases "map_of out (fst p)")
    case None
    then have "distinct (map fst (out @ [p]))" using Cons.prems(2) by (simp add: map_of_eq_None_iff)
    then show ?thesis using Cons.IH [of "out @ [p]"] Cons.prems(1) None by auto
  next
    case (Some t)
    then have "p \<in> set out" "add_operands ps out = Some out'"
      using Cons.prems(1) map_of_SomeD [OF Some] by (auto split: if_splits)
    then show ?thesis using Cons.IH [of out] Cons.prems(2) by auto
  qed
qed simp

lemma unionNamedOperands_ok:
  assumes "unionNamedOperands a b = Some u"
  shows "distinct (map fst u) \<and> set u = set a \<union> set b"
proof -
  obtain out where o: "add_operands a [] = Some out" "add_operands b out = Some u"
    using assms by (auto simp: unionNamedOperands_def split: option.splits)
  then show ?thesis using add_operands_ok [OF o(1)] add_operands_ok [OF o(2)] by auto
qed

lemma param_index_nth: "param_index ps x = Some i \<Longrightarrow> i < length ps \<and> ps ! i = x"
  by (induction ps arbitrary: i) (auto split: if_splits)

lemma param_index_in: "x \<in> set ps \<Longrightarrow> \<exists>i. param_index ps x = Some i"
  by (induction ps) auto

section \<open>A clone computes what the original computes\<close>

lemma inst_fn_clone: "inst_fn (I\<lparr>i_id := n, i_name := nm, i_ops := ops\<rparr>) = inst_fn I"
  by (simp add: inst_fn_def binop_flags_of_def conv_flags_of_def)

definition clone_rel ::
  "func \<Rightarrow> nat set \<Rightarrow> string list \<Rightarrow> val set \<Rightarrow> (nat \<Rightarrow> nat option) \<Rightarrow> nat \<Rightarrow> env \<Rightarrow> env \<Rightarrow> bool" where
  "clone_rel f internal params E m nx \<rho> \<sigma> \<longleftrightarrow>
     (\<forall>n k. m n = Some k \<longrightarrow> k < nx \<and> \<sigma> (InstV k) = \<rho> (InstV n)) \<and>
     (\<forall>V \<in> E. \<forall>i. external internal V \<longrightarrow> param_index params (val_name f V) = Some i \<longrightarrow> \<sigma> (ArgV i) = \<rho> V) \<and>
     (\<forall>V. isConstant V \<longrightarrow> \<sigma> V = \<rho> V)"

lemma rewire_value:
  assumes "clone_rel f internal params E m nx \<rho> \<sigma>" "rewire f internal m params V = Some V'" "V \<in> E"
  shows "\<sigma> V' = \<rho> V"
  using assms unfolding rewire_def clone_rel_def external_def
  by (cases V) (auto simp: isConstant_def split: if_splits)

lemma rewire_all_values:
  "clone_rel f internal params E m nx \<rho> \<sigma> \<Longrightarrow> rewire_all (rewire f internal m params) Vs = Some Vs' \<Longrightarrow>
     set Vs \<subseteq> E \<Longrightarrow> map \<sigma> Vs' = map \<rho> Vs"
  by (induction Vs arbitrary: Vs') (auto simp: rewire_value split: option.splits)

lemma clone_rel_step:
  assumes "clone_rel f internal params E m nx \<rho> \<sigma>" "n \<in> internal"
  shows "clone_rel f internal params E (m(n \<mapsto> nx)) (Suc nx) (\<rho>(InstV n := v)) (\<sigma>(InstV nx := v))"
  using assms unfolding clone_rel_def external_def
  by (auto simp: isConstant_def less_Suc_eq split: val.splits)

lemma clone_loop_sim:
  assumes "clone_loop L f internal params Is nx m names = Some cl"
    and "clone_rel f internal params E m nx \<rho> \<sigma>"
    and "set (map i_id Is) \<subseteq> internal" "\<Union> (set ` set (map i_ops Is)) \<subseteq> E" "Is \<noteq> []"
  shows "map_option (\<lambda>\<sigma>. \<sigma> (InstV (i_id (last cl)))) (eval_insts \<sigma> cl) =
         map_option (\<lambda>\<rho>. \<rho> (InstV (i_id (last Is)))) (eval_insts \<rho> Is) \<and> cl \<noteq> []"
  using assms
proof (induction Is arbitrary: nx m names cl \<rho> \<sigma>)
  case (Cons I Is)
  obtain ops where ops: "rewire_all (rewire f internal m params) (i_ops I) = Some ops"
    using Cons.prems(1) by (auto split: option.splits)
  define nm where "nm = (if i_name I = [] then [] else unique_name L names (i_name I))"
  let ?c = "I\<lparr>i_id := nx, i_name := nm, i_ops := ops\<rparr>"
  obtain cl' where cl: "cl = ?c # cl'"
    and rest: "clone_loop L f internal params Is (Suc nx) (m(i_id I \<mapsto> nx))
        (if nm = [] then names else nm # names) = Some cl'"
    using Cons.prems(1) unfolding clone_loop.simps ops Let_def nm_def [symmetric] by auto
  have vals: "map \<sigma> ops = map \<rho> (i_ops I)"
    by (rule rewire_all_values [OF Cons.prems(2) ops]) (use Cons.prems(4) in auto)
  show ?case
  proof (cases "inst_fn I (map \<rho> (i_ops I))")
    case None
    then show ?thesis using vals by (simp add: cl inst_fn_clone)
  next
    case (Some v)
    note rel = clone_rel_step [OF Cons.prems(2), of "i_id I" v]
    show ?thesis
    proof (cases "Is = []")
      case True
      then have "cl' = []" using rest by simp
      then show ?thesis using True Some vals by (simp add: cl inst_fn_clone)
    next
      case False
      have "map_option (\<lambda>\<sigma>. \<sigma> (InstV (i_id (last cl')))) (eval_insts (\<sigma>(InstV nx := v)) cl') =
          map_option (\<lambda>\<rho>. \<rho> (InstV (i_id (last Is)))) (eval_insts (\<rho>(InstV (i_id I) := v)) Is) \<and> cl' \<noteq> []"
        by (rule Cons.IH [OF rest rel]) (use Cons.prems(3,4) False in auto)
      then show ?thesis using Some vals False by (simp add: cl inst_fn_clone)
    qed
  qed
qed simp

text \<open>Constants mean the same in every environment that starts from \<open>start_env\<close>.\<close>

definition const_env :: "env \<Rightarrow> bool" where
  "const_env \<rho> \<longleftrightarrow> (\<forall>V. isConstant V \<longrightarrow> \<rho> V = start_env [] V)"

lemma start_env_const: "isConstant V \<Longrightarrow> start_env vs V = start_env [] V"
  by (simp add: isConstant_def start_env_def split: val.splits)

text \<open>The values of the parameters are those of the operands they stand for.\<close>

definition params_bound :: "func \<Rightarrow> nat set \<Rightarrow> inst list \<Rightarrow> (string \<times> ty) list \<Rightarrow> env \<Rightarrow> state_value list \<Rightarrow> bool" where
  "params_bound f internal insts params \<rho> vs \<longleftrightarrow>
     (\<forall>V \<in> set (concat (map i_ops insts)). \<forall>i. external internal V \<longrightarrow>
        param_index (map fst params) (val_name f V) = Some i \<longrightarrow> i < length vs \<and> vs ! i = \<rho> V)"

lemma buildHalf_computes_exit:
  assumes h: "buildHalf L f insts fname params internal = Some h"
    and i: "set (map i_id insts) \<subseteq> internal" and c: "const_env \<rho>"
    and b: "params_bound f internal insts params \<rho> vs"
  shows "eval_func h vs = map_option (\<lambda>\<rho>. \<rho> (InstV (i_id (last insts)))) (eval_insts \<rho> insts)"
proof -
  obtain cl where cl: "clone_loop L f internal (map fst params) insts 0 Map.empty (map fst params) = Some cl"
    and hb: "f_blocks h = [cl @ [ret_inst (length cl) (InstV (i_id (last cl)))]]" and ne: "insts \<noteq> []"
    using h by (auto simp: buildHalf_def split: if_splits)
  have "clone_rel f internal (map fst params) (set (concat (map i_ops insts))) Map.empty 0 \<rho> (start_env vs)"
    unfolding clone_rel_def
  proof (intro conjI ballI allI impI)
    show "start_env vs (ArgV i) = \<rho> V"
      if "V \<in> set (concat (map i_ops insts))" "external internal V"
        "param_index (map fst params) (val_name f V) = Some i" for V i
      using b [unfolded params_bound_def, rule_format, OF that] by (simp add: start_env_def)
    show "start_env vs V = \<rho> V" if "isConstant V" for V
      using c start_env_const [OF that] that by (simp add: const_env_def)
  qed simp_all
  from clone_loop_sim [OF cl this i _ ne] show ?thesis
    by (simp add: eval_func_def hb ret_inst_def)
qed

section \<open>The dereferences are safe\<close>

text \<open>Instructions of the region are read only after their definition, as in any LLVM block.\<close>

fun in_order :: "nat set \<Rightarrow> nat set \<Rightarrow> inst list \<Rightarrow> bool" where
  "in_order internal seen [] = True"
| "in_order internal seen (I # Is) =
     (list_all (\<lambda>V. case V of InstV n \<Rightarrow> n \<in> internal \<longrightarrow> n \<in> seen | _ \<Rightarrow> True) (i_ops I) \<and>
      in_order internal (insert (i_id I) seen) Is)"

lemma rewire_all_total:
  assumes "\<And>V. V \<in> set Vs \<Longrightarrow> external internal V \<Longrightarrow> val_name f V \<in> set params"
    and "list_all (\<lambda>V. case V of InstV n \<Rightarrow> n \<in> internal \<longrightarrow> n \<in> seen | _ \<Rightarrow> True) Vs" "seen \<subseteq> dom m"
  shows "\<exists>ops. rewire_all (rewire f internal m params) Vs = Some ops"
  using assms
proof (induction Vs)
  case (Cons V Vs)
  have "\<exists>V'. rewire f internal m params V = Some V'"
    using Cons.prems(1) [of V] Cons.prems(2,3) param_index_in [of "val_name f V" params]
    by (cases V) (auto simp: rewire_def external_def isConstant_def)
  moreover have "\<exists>ops. rewire_all (rewire f internal m params) Vs = Some ops"
    by (rule Cons.IH) (use Cons.prems in auto)
  ultimately show ?case by auto
qed simp

lemma clone_loop_total:
  assumes "\<And>V. V \<in> set (concat (map i_ops Is)) \<Longrightarrow> external internal V \<Longrightarrow> val_name f V \<in> set params"
    and "in_order internal seen Is" "seen \<subseteq> dom m"
  shows "\<exists>cl. clone_loop L f internal params Is nx m names = Some cl"
  using assms
proof (induction Is arbitrary: seen m nx names)
  case (Cons I Is)
  obtain ops where ops: "rewire_all (rewire f internal m params) (i_ops I) = Some ops"
    using rewire_all_total [of "i_ops I" internal f params seen m] Cons.prems by auto
  have "\<exists>cl. clone_loop L f internal params Is (Suc nx) (m(i_id I \<mapsto> nx)) ns = Some cl" for ns
    by (rule Cons.IH [of "insert (i_id I) seen"]) (use Cons.prems in auto)
  then show ?case by (simp add: ops Let_def)
qed simp

section \<open>Units\<close>

definition unit_src_insts :: "diff_region \<Rightarrow> inst list" where
  "unit_src_insts r = (if is_asymmetric r then src_region r else map src_inst (positions r))"

definition unit_tgt_insts :: "diff_region \<Rightarrow> inst list" where
  "unit_tgt_insts r = (if is_asymmetric r then tgt_region r else map tgt_inst (positions r))"

lemma buildTvUnit_lift:
  "buildTvUnit L src tgt r nm = Some u \<Longrightarrow>
     lift_pair L src tgt (unit_src_insts r) (unit_tgt_insts r) nm = Some u \<and>
     unit_src_insts r \<noteq> [] \<and> unit_tgt_insts r \<noteq> []"
  by (auto simp: buildTvUnit_def buildAsymTvUnit_def unit_src_insts_def unit_tgt_insts_def Let_def
      split: if_splits)

lemma lift_pairE:
  assumes "lift_pair L src tgt ss ts nm = Some u"
  obtains params where
    "buildHalf L src ss ''src'' params (set (map i_id ss)) = Some (u_src u)"
    "buildHalf L tgt ts ''tgt'' params (set (map i_id ts)) = Some (u_tgt u)"
    "distinct (map fst params)" "u_name u = nm"
    "\<And>V. V \<in> set (concat (map i_ops ss)) \<Longrightarrow> external (set (map i_id ss)) V \<Longrightarrow>
       hasName src V \<and> val_name src V \<in> set (map fst params)"
    "\<And>V. V \<in> set (concat (map i_ops ts)) \<Longrightarrow> external (set (map i_id ts)) V \<Longrightarrow>
       hasName tgt V \<and> val_name tgt V \<in> set (map fst params)"
proof -
  obtain se te params where s: "collectExternalOperands src ss (set (map i_id ss)) = Some se"
    and t: "collectExternalOperands tgt ts (set (map i_id ts)) = Some te"
    and u: "unionNamedOperands se te = Some params"
    and b: "buildHalf L src ss ''src'' params (set (map i_id ss)) = Some (u_src u)"
      "buildHalf L tgt ts ''tgt'' params (set (map i_id ts)) = Some (u_tgt u)" "u_name u = nm"
    using assms by (auto simp: lift_pair_def Let_def split: option.splits)
  note un = unionNamedOperands_ok [OF u]
  show thesis
  proof (rule that [OF b(1,2) _ b(3)])
    show "distinct (map fst params)" using un by simp
    show "hasName src V \<and> val_name src V \<in> set (map fst params)"
      if "V \<in> set (concat (map i_ops ss))" "external (set (map i_id ss)) V" for V
      using collect_ops_covers [OF s [unfolded collectExternalOperands_def] _ that] un by auto
    show "hasName tgt V \<and> val_name tgt V \<in> set (map fst params)"
      if "V \<in> set (concat (map i_ops ts))" "external (set (map i_id ts)) V" for V
      using collect_ops_covers [OF t [unfolded collectExternalOperands_def] _ that] un by auto
  qed
qed

section \<open>Properties\<close>

lemma const_env_start: "const_env (start_env vs)"
  unfolding const_env_def using start_env_const by blast

lemma buildHalf_args: "buildHalf L f insts n params internal = Some h \<Longrightarrow>
    f_args h = map (\<lambda>p. \<lparr>arg_name = fst p, arg_ty = snd p\<rparr>) params"
  by (auto simp: buildHalf_def split: if_splits)

lemma arg_names_map: "map arg_name (map (\<lambda>p. \<lparr>arg_name = fst p, arg_ty = snd p\<rparr>) ps) = map fst ps"
  by simp

lemma unit_interface_facts:
  assumes "buildTvUnit L src tgt r nm = Some u"
  shows "f_args (u_src u) = f_args (u_tgt u)" "distinct (map arg_name (f_args (u_src u)))"
    "V \<in> set (concat (map i_ops (unit_src_insts r))) \<Longrightarrow> external (set (map i_id (unit_src_insts r))) V \<Longrightarrow>
       hasName src V \<and> val_name src V \<in> set (map arg_name (f_args (u_src u)))"
    "V \<in> set (concat (map i_ops (unit_tgt_insts r))) \<Longrightarrow> external (set (map i_id (unit_tgt_insts r))) V \<Longrightarrow>
       hasName tgt V \<and> val_name tgt V \<in> set (map arg_name (f_args (u_tgt u)))"
proof -
  obtain params where p: "buildHalf L src (unit_src_insts r) ''src'' params (set (map i_id (unit_src_insts r))) = Some (u_src u)"
    "buildHalf L tgt (unit_tgt_insts r) ''tgt'' params (set (map i_id (unit_tgt_insts r))) = Some (u_tgt u)"
    and d: "distinct (map fst params)" "u_name u = nm"
    "\<And>V. V \<in> set (concat (map i_ops (unit_src_insts r))) \<Longrightarrow> external (set (map i_id (unit_src_insts r))) V \<Longrightarrow>
       hasName src V \<and> val_name src V \<in> set (map fst params)"
    "\<And>V. V \<in> set (concat (map i_ops (unit_tgt_insts r))) \<Longrightarrow> external (set (map i_id (unit_tgt_insts r))) V \<Longrightarrow>
       hasName tgt V \<and> val_name tgt V \<in> set (map fst params)"
    by (rule lift_pairE [OF conjunct1 [OF buildTvUnit_lift [OF assms]]]) blast
  note a = buildHalf_args [OF p(1)] buildHalf_args [OF p(2)]
  show "f_args (u_src u) = f_args (u_tgt u)" using a by simp
  show "distinct (map arg_name (f_args (u_src u)))" using a(1) d(1) by (simp only: arg_names_map)
  show "V \<in> set (concat (map i_ops (unit_src_insts r))) \<Longrightarrow> external (set (map i_id (unit_src_insts r))) V \<Longrightarrow>
       hasName src V \<and> val_name src V \<in> set (map arg_name (f_args (u_src u)))"
    unfolding a(1) arg_names_map by (rule d(3))
  show "V \<in> set (concat (map i_ops (unit_tgt_insts r))) \<Longrightarrow> external (set (map i_id (unit_tgt_insts r))) V \<Longrightarrow>
       hasName tgt V \<and> val_name tgt V \<in> set (map arg_name (f_args (u_tgt u)))"
    unfolding a(2) arg_names_map by (rule d(4))
qed

text \<open>
  The two functions of a unit have the same parameters, with distinct names, and
  every operand of the region that comes from outside it is named and is one of them, on both
  sides.
\<close>

theorem unit_interface:
  assumes "buildTvUnit L src tgt r nm = Some u"
  shows "f_args (u_src u) = f_args (u_tgt u) \<and> distinct (map arg_name (f_args (u_src u))) \<and>
    (\<forall>V \<in> set (concat (map i_ops (unit_src_insts r))). external (set (map i_id (unit_src_insts r))) V \<longrightarrow>
       hasName src V \<and> val_name src V \<in> set (map arg_name (f_args (u_src u)))) \<and>
    (\<forall>V \<in> set (concat (map i_ops (unit_tgt_insts r))). external (set (map i_id (unit_tgt_insts r))) V \<longrightarrow>
       hasName tgt V \<and> val_name tgt V \<in> set (map arg_name (f_args (u_tgt u))))"
  using unit_interface_facts [OF assms] by blast

text \<open>The binding of a unit's parameters to the values of a parent's environment.\<close>

definition binds :: "func \<Rightarrow> inst list \<Rightarrow> func \<Rightarrow> env \<Rightarrow> state_value list \<Rightarrow> bool" where
  "binds parent insts h \<rho> vs \<longleftrightarrow>
     (\<forall>V \<in> set (concat (map i_ops insts)). \<forall>i. external (set (map i_id insts)) V \<longrightarrow>
        param_index (map arg_name (f_args h)) (val_name parent V) = Some i \<longrightarrow> i < length vs \<and> vs ! i = \<rho> V)"

lemma unit_half_src:
  assumes u: "buildTvUnit L src tgt r nm = Some u" and c: "const_env \<rho>"
    and b: "binds src (unit_src_insts r) (u_src u) \<rho> vs"
  shows "eval_func (u_src u) vs =
    map_option (\<lambda>\<rho>. \<rho> (InstV (i_id (last (unit_src_insts r))))) (eval_insts \<rho> (unit_src_insts r))"
proof (rule lift_pairE [OF conjunct1 [OF buildTvUnit_lift [OF u]]])
  fix params
  assume h: "buildHalf L src (unit_src_insts r) ''src'' params (set (map i_id (unit_src_insts r))) = Some (u_src u)"
  have "params_bound src (set (map i_id (unit_src_insts r))) (unit_src_insts r) params \<rho> vs"
    using b unfolding binds_def params_bound_def buildHalf_args [OF h] arg_names_map .
  from buildHalf_computes_exit [OF h _ c this] show ?thesis by simp
qed

lemma unit_half_tgt:
  assumes u: "buildTvUnit L src tgt r nm = Some u" and c: "const_env \<rho>"
    and b: "binds tgt (unit_tgt_insts r) (u_tgt u) \<rho> vs"
  shows "eval_func (u_tgt u) vs =
    map_option (\<lambda>\<rho>. \<rho> (InstV (i_id (last (unit_tgt_insts r))))) (eval_insts \<rho> (unit_tgt_insts r))"
proof (rule lift_pairE [OF conjunct1 [OF buildTvUnit_lift [OF u]]])
  fix params
  assume h: "buildHalf L tgt (unit_tgt_insts r) ''tgt'' params (set (map i_id (unit_tgt_insts r))) = Some (u_tgt u)"
  have "params_bound tgt (set (map i_id (unit_tgt_insts r))) (unit_tgt_insts r) params \<rho> vs"
    using b unfolding binds_def params_bound_def buildHalf_args [OF h] arg_names_map .
  from buildHalf_computes_exit [OF h _ c this] show ?thesis by simp
qed

text \<open>
  C5 (equivalence). Lifting keeps the meaning of the region. When the parameters of the unit hold
  the values that the parents' environments give to the operands from outside the region, the
  lifted functions are undefined exactly where the instructions of the region are, and return
  the value the region's last instruction computes in the parent.
\<close>

theorem unit_computes_region_exits:
  assumes "buildTvUnit L src tgt r nm = Some u" "const_env \<rho>s" "const_env \<rho>t"
    "binds src (unit_src_insts r) (u_src u) \<rho>s vs" "binds tgt (unit_tgt_insts r) (u_tgt u) \<rho>t ws"
  shows "eval_func (u_src u) vs =
      map_option (\<lambda>\<rho>. \<rho> (InstV (i_id (last (unit_src_insts r))))) (eval_insts \<rho>s (unit_src_insts r)) \<and>
    eval_func (u_tgt u) ws =
      map_option (\<lambda>\<rho>. \<rho> (InstV (i_id (last (unit_tgt_insts r))))) (eval_insts \<rho>t (unit_tgt_insts r))"
  using unit_half_src [OF assms(1,2,4)] unit_half_tgt [OF assms(1,3,5)] by blast

text \<open>
  The iterators \<open>buildHalf\<close> dereferences without a test are valid: when the operands
  were collected and the instructions of the region are read only after their definition,
  both halves are built.
\<close>

theorem lift_dereferences_safe:
  assumes "collectExternalOperands src ss (set (map i_id ss)) = Some se"
    "collectExternalOperands tgt ts (set (map i_id ts)) = Some te"
    "unionNamedOperands se te = Some params" "ss \<noteq> []" "ts \<noteq> []"
    "in_order (set (map i_id ss)) {} ss" "in_order (set (map i_id ts)) {} ts"
  shows "\<exists>u. lift_pair L src tgt ss ts nm = Some u"
proof -
  note un = unionNamedOperands_ok [OF assms(3)]
  have "\<exists>cl. clone_loop L src (set (map i_id ss)) (map fst params) ss 0 Map.empty (map fst params) = Some cl"
    by (rule clone_loop_total [OF _ assms(6)])
      (use collect_ops_covers [OF assms(1) [unfolded collectExternalOperands_def]] un in auto)
  moreover have "\<exists>cl. clone_loop L tgt (set (map i_id ts)) (map fst params) ts 0 Map.empty (map fst params) = Some cl"
    by (rule clone_loop_total [OF _ assms(7)])
      (use collect_ops_covers [OF assms(2) [unfolded collectExternalOperands_def]] un in auto)
  ultimately show ?thesis using assms by (auto simp: lift_pair_def buildHalf_def)
qed

text \<open>The unit of the example of \<open>Diff\<close>.\<close>

definition demo_region :: diff_region where
  "demo_region = empty_region\<lparr>positions := [position 1 (demo_add 1 ''b'' False) (demo_add 1 ''b'' True)]\<rparr>"

definition demo_half :: "string \<Rightarrow> bool \<Rightarrow> func" where
  "demo_half nm nsw = \<lparr>f_name = nm,
     f_args = [\<lparr>arg_name = ''x'', arg_ty = IntTy 8\<rparr>, \<lparr>arg_name = ''y'', arg_ty = IntTy 8\<rparr>],
     f_blocks = [[demo_add 0 ''b'' nsw, ret_inst 1 (InstV 0)]]\<rparr>"

definition demo_unit :: tv_unit where
  "demo_unit = \<lparr>u_name = ''unit@2'', u_src = demo_half ''src'' False, u_tgt = demo_half ''tgt'' True\<rparr>"

lemma demo_build:
  "buildTvUnit demo_api (demo_func False) (demo_func True) demo_region ''unit@2'' = Some demo_unit"
  by (simp add: buildTvUnit_def demo_region_def empty_region_def position_def demo_add_def isTerminator_def
      lift_pair_def collectExternalOperands_def isConstant_def hasName_def val_name_def val_ty_def
      demo_func_def unionNamedOperands_def buildHalf_def rewire_def demo_api_def demo_unit_def demo_half_def
      Let_def)

theorem unit_interface_witness:
  "f_args (u_src demo_unit) = f_args (u_tgt demo_unit) \<and> distinct (map arg_name (f_args (u_src demo_unit)))"
  using unit_interface [OF demo_build] by blast

lemma demo_region_insts:
  "unit_src_insts demo_region = [demo_add 1 ''b'' False]" "unit_tgt_insts demo_region = [demo_add 1 ''b'' True]"
  by (simp_all add: unit_src_insts_def unit_tgt_insts_def demo_region_def empty_region_def position_def)

lemma demo_binds:
  "binds (demo_func p) [demo_add 1 ''b'' q] (demo_half nm q) (start_env [x, y]) [x, y]"
  by (simp add: binds_def demo_add_def demo_half_def demo_func_def val_name_def start_env_def)

theorem unit_computes_region_exits_witness:
  "eval_func (u_src demo_unit) [sv (mk 8 100) True, sv (mk 8 100) True] =
     map_option (\<lambda>\<rho>. \<rho> (InstV 1)) (eval_insts (start_env [sv (mk 8 100) True, sv (mk 8 100) True]) [demo_add 1 ''b'' False]) \<and>
   eval_func (u_tgt demo_unit) [sv (mk 8 100) True, sv (mk 8 100) True] =
     map_option (\<lambda>\<rho>. \<rho> (InstV 1)) (eval_insts (start_env [sv (mk 8 100) True, sv (mk 8 100) True]) [demo_add 1 ''b'' True])"
proof -
  have b: "binds (demo_func False) (unit_src_insts demo_region) (u_src demo_unit)
      (start_env [sv (mk 8 100) True, sv (mk 8 100) True]) [sv (mk 8 100) True, sv (mk 8 100) True]"
    "binds (demo_func True) (unit_tgt_insts demo_region) (u_tgt demo_unit)
      (start_env [sv (mk 8 100) True, sv (mk 8 100) True]) [sv (mk 8 100) True, sv (mk 8 100) True]"
    unfolding demo_region_insts demo_unit_def using demo_binds by simp_all
  have "i_id (last [demo_add 1 ''b'' q]) = 1" for q by (simp add: demo_add_def)
  then show ?thesis
    using unit_computes_region_exits [OF demo_build const_env_start const_env_start b]
    unfolding demo_region_insts by (simp only:)
qed

theorem lift_dereferences_safe_witness:
  "\<exists>u. lift_pair demo_api (demo_func False) (demo_func True) [demo_add 1 ''b'' False] [demo_add 1 ''b'' True] ''u'' = Some u"
  by (rule lift_dereferences_safe [where se = "[(''x'', IntTy 8), (''y'', IntTy 8)]" and
        te = "[(''x'', IntTy 8), (''y'', IntTy 8)]" and params = "[(''x'', IntTy 8), (''y'', IntTy 8)]"])
    (simp_all add: collectExternalOperands_def demo_add_def isConstant_def hasName_def val_name_def val_ty_def
      demo_func_def unionNamedOperands_def)

end
