(* ===== verification/Semantics.thy ===== *)
theory Semantics
  imports Unit
begin

text \<open>
  Two facts about the integer instructions that make unit-wise validation compose: they are
  monotone with respect to refinement (a less poisonous input gives a less poisonous output and
  never undefined behaviour that was not there), and they keep the widths of well-typed
  instructions.
\<close>

section \<open>Monotonicity\<close>

abbreviation refines_list :: "state_value list \<Rightarrow> state_value list \<Rightarrow> bool" where
  "refines_list \<equiv> list_all2 sv_implies"

lemma sv_implies_refl [simp]: "sv_implies v v"
  by (simp add: sv_implies_def)

lemma sv_implies_trans: "sv_implies a b \<Longrightarrow> sv_implies b c \<Longrightarrow> sv_implies a c"
  by (auto simp: sv_implies_def)

lemma sv_implies_eq: "sv_implies a b \<Longrightarrow> non_poison a \<Longrightarrow> b = a"
  by (simp add: sv_implies_def)

lemma binop_defined_mono:
  assumes "binop_defined op a b" "sv_implies a a'" "sv_implies b b'"
  shows "binop_defined op a' b'"
proof (cases "isDivOrRem op")
  case True
  then have b: "b' = b" using assms(1,3) sv_implies_eq by (auto simp: binop_defined_def)
  show ?thesis
  proof (cases "non_poison a")
    case True
    then show ?thesis using assms(1) sv_implies_eq [OF assms(2)] b by simp
  qed (use assms(1) b in \<open>auto simp: binop_defined_def div_ub_def\<close>)
qed (simp add: binop_defined_def)

lemma conv_scalar_mono: "sv_implies a a' \<Longrightarrow> sv_implies (conv_scalar op fl w a) (conv_scalar op fl w a')"
  by (cases "non_poison a") (auto dest: sv_implies_eq simp: sv_implies_def conv_scalar_def sv_def split: prod.splits)

lemma icmp_scalar_mono:
  "sv_implies a a' \<Longrightarrow> sv_implies b b' \<Longrightarrow> sv_implies (icmp_scalar c s a b) (icmp_scalar c s a' b')"
  by (auto simp: sv_implies_def icmp_scalar_def sv_def)

lemma select_scalar_mono:
  "sv_implies c c' \<Longrightarrow> sv_implies a a' \<Longrightarrow> sv_implies b b' \<Longrightarrow>
     sv_implies (select_scalar c a b) (select_scalar c' a' b')"
  by (cases "non_poison c") (auto simp: sv_implies_def select_scalar_def sv_def Let_def)

lemma op_fn_mono:
  assumes "op_fn opc w bf cf vs = Some v" "refines_list vs ws"
  shows "\<exists>v'. op_fn opc w bf cf ws = Some v' \<and> sv_implies v v'"
proof -
  consider (bin) op a b where "opc = OBin op" "vs = [a, b]" "binop_defined op a b"
      "v = binop_scalar no_facts no_facts w op bf a b"
    | (cast) op a where "opc = OCast op" "vs = [a]" "v = conv_scalar op cf w a"
    | (sel) c a b where "opc = OSelect" "vs = [c, a, b]" "v = select_scalar c a b"
    | (cmp) c a b where "opc = OICmp c" "vs = [a, b]" "v = icmp_scalar c False a b"
    using assms(1) by (auto simp: op_fn_def split: opcode.splits list.splits if_splits)
  then show ?thesis
  proof cases
    case bin
    then obtain a' b' where "ws = [a', b']" "sv_implies a a'" "sv_implies b b'"
      using assms(2) by (auto simp: list_all2_Cons1)
    then show ?thesis using bin binop_defined_mono binop_scalar_mono by (simp add: op_fn_def)
  next
    case cast
    then obtain a' where "ws = [a']" "sv_implies a a'" using assms(2) by (auto simp: list_all2_Cons1)
    then show ?thesis using cast conv_scalar_mono by (simp add: op_fn_def)
  next
    case sel
    then obtain c' a' b' where "ws = [c', a', b']" "sv_implies c c'" "sv_implies a a'" "sv_implies b b'"
      using assms(2) by (auto simp: list_all2_Cons1)
    then show ?thesis using sel select_scalar_mono by (simp add: op_fn_def)
  next
    case cmp
    then obtain a' b' where "ws = [a', b']" "sv_implies a a'" "sv_implies b b'"
      using assms(2) by (auto simp: list_all2_Cons1)
    then show ?thesis using cmp icmp_scalar_mono by (simp add: op_fn_def)
  qed
qed

definition env_refines :: "env \<Rightarrow> env \<Rightarrow> bool" where
  "env_refines \<rho> \<sigma> \<longleftrightarrow> (\<forall>V. sv_implies (\<rho> V) (\<sigma> V))"

lemma eval_insts_mono:
  "eval_insts \<rho> Is = Some \<rho>' \<Longrightarrow> env_refines \<rho> \<sigma> \<Longrightarrow> \<exists>\<sigma>'. eval_insts \<sigma> Is = Some \<sigma>' \<and> env_refines \<rho>' \<sigma>'"
proof (induction Is arbitrary: \<rho> \<sigma>)
  case (Cons I Is)
  obtain v where v: "inst_fn I (map \<rho> (i_ops I)) = Some v" "eval_insts (\<rho>(InstV (i_id I) := v)) Is = Some \<rho>'"
    using Cons.prems(1) by (auto split: option.splits)
  have "refines_list (map \<rho> (i_ops I)) (map \<sigma> (i_ops I))"
    using Cons.prems(2) by (simp add: list_all2_conv_all_nth env_refines_def)
  then obtain v' where v': "inst_fn I (map \<sigma> (i_ops I)) = Some v'" "sv_implies v v'"
    using op_fn_mono v(1) unfolding inst_fn_def by blast
  then have "env_refines (\<rho>(InstV (i_id I) := v)) (\<sigma>(InstV (i_id I) := v'))"
    using Cons.prems(2) by (simp add: env_refines_def)
  from Cons.IH [OF v(2) this] show ?case unfolding eval_insts.simps v'(1) option.case .
qed simp

lemma start_env_refines: "refines_list vs ws \<Longrightarrow> env_refines (start_env vs) (start_env ws)"
  by (auto simp: env_refines_def start_env_def list_all2_conv_all_nth split: val.splits)

lemma eval_func_mono:
  assumes "eval_func f vs = Some v" "refines_list vs ws"
  shows "\<exists>v'. eval_func f ws = Some v' \<and> sv_implies v v'"
proof -
  obtain bb r where bb: "f_blocks f = [bb]" "bb \<noteq> []" "i_ops (last bb) = [r]" "\<exists>t. i_op (last bb) = OTerm t"
    and "map_option (\<lambda>\<rho>. \<rho> r) (eval_insts (start_env vs) (butlast bb)) = Some v"
    using assms(1) by (auto simp: eval_func_def split: list.splits if_splits opcode.splits)
  then obtain \<rho> where \<rho>: "eval_insts (start_env vs) (butlast bb) = Some \<rho>" "v = \<rho> r" by auto
  from eval_insts_mono [OF \<rho>(1) start_env_refines [OF assms(2)]]
  obtain \<sigma> where "eval_insts (start_env ws) (butlast bb) = Some \<sigma>" "env_refines \<rho> \<sigma>" by blast
  then show ?thesis using bb \<rho>(2) by (auto simp: eval_func_def env_refines_def)
qed

section \<open>Widths\<close>

definition llvm_binop :: "binop \<Rightarrow> bool" where
  "llvm_binop op \<longleftrightarrow> op \<in> {Add, Sub, Mul, SDiv, UDiv, SRem, URem, Shl, AShr, LShr, And, Or, Xor}"

text \<open>The instructions of the theorem on composition, with their type rules.\<close>

definition pure_inst :: "(val \<Rightarrow> ty) \<Rightarrow> inst \<Rightarrow> bool" where
  "pure_inst tyof I =
     (case i_ty I of
        IntTy w \<Rightarrow> 0 < w \<and>
          (case (i_op I, i_ops I) of
             (OBin op, [a, b]) \<Rightarrow> llvm_binop op \<and> tyof a = IntTy w \<and> tyof b = IntTy w
           | (OCast op, [a]) \<Rightarrow>
               (case tyof a of IntTy w' \<Rightarrow> 0 < w' \<and> (if op = Trunc then w < w' else w' < w) | _ \<Rightarrow> False)
           | (OSelect, [c, a, b]) \<Rightarrow> tyof c = IntTy 1 \<and> tyof a = IntTy w \<and> tyof b = IntTy w
           | (OICmp c, [a, b]) \<Rightarrow> w = 1 \<and> tyof a = tyof b
           | _ \<Rightarrow> False)
      | _ \<Rightarrow> False)"

lemma binop_scalar_wf: "llvm_binop op \<Longrightarrow> wf_sv w a \<Longrightarrow> wf_sv w (binop_scalar fa fb res op fl a b)"
  by (cases op) (auto simp: llvm_binop_def binop_scalar_def wf_sv_def sv_def)

lemma conv_scalar_wf:
  "wf_sv w' a \<Longrightarrow> 0 < w \<Longrightarrow> if op = Trunc then w < w' else w' < w \<Longrightarrow> wf_sv w (conv_scalar op fl w a)"
  by (cases op) (auto simp: conv_scalar_def conv_fn_def wf_sv_def sv_def Let_def zext_eq trunc_eq)

lemma select_scalar_wf: "wf_sv w a \<Longrightarrow> wf_sv w b \<Longrightarrow> wf_sv w (select_scalar c a b)"
  by (simp add: select_scalar_def wf_sv_def sv_def Let_def)

lemma icmp_scalar_wf: "wf_sv 1 (icmp_scalar c s a b)"
  by (simp add: icmp_scalar_def wf_sv_def sv_def toBVBool_def)

definition typed :: "(val \<Rightarrow> ty) \<Rightarrow> env \<Rightarrow> val \<Rightarrow> bool" where
  "typed tyof \<rho> V \<longleftrightarrow> wf_sv (int_width (tyof V)) (\<rho> V)"

lemma inst_fn_typed:
  assumes p: "pure_inst tyof I" and v: "inst_fn I (map \<rho> (i_ops I)) = Some v"
    and o: "\<forall>V \<in> set (i_ops I). typed tyof \<rho> V"
  shows "wf_sv (int_width (i_ty I)) v"
proof -
  obtain w where w: "i_ty I = IntTy w" "0 < w" using p by (auto simp: pure_inst_def split: ty.splits)
  consider (bin) op a b where "i_op I = OBin op" "i_ops I = [a, b]" "llvm_binop op" "tyof a = IntTy w"
    | (cast) op a w' where "i_op I = OCast op" "i_ops I = [a]" "tyof a = IntTy w'"
        "if op = Trunc then w < w' else w' < w"
    | (sel) c a b where "i_op I = OSelect" "i_ops I = [c, a, b]" "tyof a = IntTy w" "tyof b = IntTy w"
    | (cmp) c a b where "i_op I = OICmp c" "i_ops I = [a, b]" "w = 1"
    using p w by (auto simp: pure_inst_def split: opcode.splits list.splits ty.splits)
  then show ?thesis
  proof cases
    case bin
    then show ?thesis using v o w binop_scalar_wf
      by (auto simp: inst_fn_def op_fn_def typed_def int_width_def split: if_splits)
  next
    case cast
    then show ?thesis using v o w conv_scalar_wf
      by (auto simp: inst_fn_def op_fn_def typed_def int_width_def split: if_splits)
  next
    case sel
    then show ?thesis using v o w select_scalar_wf
      by (auto simp: inst_fn_def op_fn_def typed_def int_width_def)
  next
    case cmp
    then show ?thesis using v w icmp_scalar_wf by (auto simp: inst_fn_def op_fn_def int_width_def)
  qed
qed

end
