(* ===== verification/InstrProps.thy ===== *)
theory InstrProps
  imports Semantics
begin

text \<open>
  What the encoding of integer operations guarantees: the overflow checks and the saturating and
  bit-counting operations of \<open>smt/expr.cpp\<close> against exact arithmetic, and the encoding of
  instructions in \<open>ir/instr.cpp\<close> against the LLVM rules.
\<close>

section \<open>Overflow checks\<close>

text \<open>
  C15 (equivalence). The overflow checks of \<open>smt/expr.cpp\<close>, whichever shortcut the known facts
  about the operands select, hold exactly when the exact result is a number of the width:
  signed and unsigned addition, subtraction, multiplication and left shift.
\<close>

theorem overflow_checks_exact:
  assumes "wf_bv a" "wf_bv b" "bits a = bits b" "honest_facts fa a" "honest_facts fb b"
  shows "add_no_soverflow fa fb a b = fits_s (bits a) (sval a + sval b) \<and>
    add_no_uoverflow fa fb a b = fits_u (bits a) (uval a + uval b) \<and>
    add_no_usoverflow fa fb a b = fits_u (bits a) (uval a + sval b) \<and>
    sub_no_soverflow fa fb a b = fits_s (bits a) (sval a - sval b) \<and>
    sub_no_uoverflow a b = fits_u (bits a) (uval a - uval b) \<and>
    mul_no_soverflow a b = fits_s (bits a) (sval a * sval b) \<and>
    mul_no_uoverflow a b = fits_u (bits a) (uval a * uval b) \<and>
    shl_no_soverflow a b = fits_s (bits a) (sval a * 2 ^ amt b) \<and>
    shl_no_uoverflow a b = fits_u (bits a) (uval a * 2 ^ amt b)"
  using add_no_soverflow_iff [OF assms] add_no_uoverflow_iff [OF assms] add_no_usoverflow_iff [OF assms]
    sub_no_soverflow_iff [OF assms] sub_no_uoverflow_iff [OF assms(1-3)]
    mul_no_soverflow_iff [OF assms(1,2) assms(3) [symmetric]]
    mul_no_uoverflow_iff [OF assms(1,2) assms(3) [symmetric]]
    shl_no_soverflow_iff [OF assms(1)] shl_no_uoverflow_iff [OF assms(1)]
  by blast

theorem overflow_checks_exact_witness:
  "add_no_soverflow no_facts no_facts (mk 8 100) (mk 8 100) = fits_s 8 (100 + 100) \<and>
   add_no_uoverflow no_facts no_facts (mk 8 100) (mk 8 100) = fits_u 8 (100 + 100)"
proof -
  have wf: "wf_bv (mk 8 100)" by (simp add: wf_bv_def mk_def)
  have v: "uval (mk 8 100) = 100" "sval (mk 8 100) = 100" by code_simp+
  show ?thesis
    using overflow_checks_exact [OF wf wf refl honest_no_facts [OF wf] honest_no_facts [OF wf]]
    by (simp only: v) (simp add: mk_def)
qed

text \<open>
  The saturating operations return the exact result clamped to the range of the
  width.
\<close>

theorem saturation_clamps:
  assumes "wf_bv a" "wf_bv b" "bits a = bits b" "honest_facts fa a" "honest_facts fb b"
  shows "sval (sadd_sat a b) = clamp (- (2 ^ (bits a - 1))) (2 ^ (bits a - 1) - 1) (sval a + sval b) \<and>
    sval (ssub_sat a b) = clamp (- (2 ^ (bits a - 1))) (2 ^ (bits a - 1) - 1) (sval a - sval b) \<and>
    uval (uadd_sat fa fb a b) = clamp 0 (2 ^ bits a - 1) (uval a + uval b) \<and>
    uval (usub_sat a b) = clamp 0 (2 ^ bits a - 1) (uval a - uval b)"
  using sadd_sat_sval [OF assms(1-3)] ssub_sat_sval [OF assms(1-3)] uadd_sat_uval [OF assms] usub_sat_uval [OF assms(1-3)]
  by blast

theorem saturation_clamps_witness:
  "sval (sadd_sat (mk 8 100) (mk 8 100)) = 127 \<and> uval (usub_sat (mk 8 100) (mk 8 100)) = 0"
proof -
  have wf: "wf_bv (mk 8 100)" by (simp add: wf_bv_def mk_def)
  have v: "uval (mk 8 100) = 100" "sval (mk 8 100) = 100" "bits (mk 8 100) = 8" by code_simp+
  show ?thesis
    using saturation_clamps [OF wf wf refl honest_no_facts [OF wf] honest_no_facts [OF wf]]
    by (simp only: v) (simp add: clamp_def)
qed

section \<open>Counting and permuting bits\<close>

text \<open>
  The bit-counting encodings, which unroll a loop over the bits: \<open>cttz\<close> of a
  non-zero value is the position of its lowest set bit, \<open>ctlz\<close> the number of bits above the highest one,
  \<open>ctpop\<close> the number of set bits; for zero \<open>cttz\<close> gives the default and \<open>ctlz\<close> the width.
\<close>

theorem bit_counts:
  assumes "wf_bv a"
  shows "uval (ctpop a) = int (card {i. i < bits a \<and> bit (uval a) i}) \<and>
    (uval a = 0 \<longrightarrow> cttz a z = z \<and> uval (ctlz a) = int (bits a)) \<and>
    (uval a \<noteq> 0 \<longrightarrow>
      (\<exists>i < bits a. bit (uval a) i \<and> (\<forall>j < i. \<not> bit (uval a) j) \<and> uval (cttz a z) = int i) \<and>
      (\<exists>i < bits a. bit (uval a) i \<and> (\<forall>j. i < j \<longrightarrow> \<not> bit (uval a) j) \<and> uval (ctlz a) = int (bits a - 1 - i)))"
  using ctpop_card [OF assms] cttz_zero [of a z] ctlz_zero [of a] cttz_some [OF assms, of z] ctlz_some [OF assms] by blast

theorem bit_counts_witness: "uval (ctpop (mk 4 10)) = int (card {i. i < 4 \<and> bit (10::int) i})"
  using bit_counts [of "mk 4 10" "mk 4 0"] by (simp add: wf_bv_def mk_def)

lemma wf_bvconcat: "wf_bv a \<Longrightarrow> wf_bv b \<Longrightarrow> wf_bv (bvconcat a b)"
proof -
  assume "wf_bv a" "wf_bv b"
  note a = wf_bvD [OF this(1)] and b = wf_bvD [OF this(2)]
  have "uval a * 2 ^ bits b \<le> (2 ^ bits a - 1) * 2 ^ bits b" using a by (intro mult_right_mono) simp_all
  then have "uval a * 2 ^ bits b + uval b < 2 ^ (bits a + bits b)"
    using b by (simp add: power_add algebra_simps)
  then show ?thesis using a b by (simp add: bvconcat_def wf_bv_def push_bit_eq_mult)
qed

lemma bitreverse_wf:
  assumes "wf_bv a"
  shows "wf_bv (bitreverse a)"
proof -
  have "wf_bv (fold (\<lambda>i res. bvconcat res (bvextract a i i)) xs r)" if "wf_bv r" for xs r
    using that by (induction xs arbitrary: r) (simp_all add: wf_bvconcat)
  then show ?thesis by (simp add: bitreverse_def)
qed

lemma wf_bv_bits_eqI:
  assumes "wf_bv a" "wf_bv b" "bits a = bits b" "\<And>j. j < bits a \<Longrightarrow> bit (uval a) j = bit (uval b) j"
  shows "a = b"
proof -
  have "bit (uval a) j = bit (uval b) j" for j
    using assms wf_bit_bound [of a j] wf_bit_bound [of b j] by (cases "j < bits a") auto
  then show ?thesis using assms(3) by (simp add: bv_eq_iff bit_eq_iff)
qed

text \<open>
  \<open>bitreverse\<close> keeps the width, reverses the bits, and is its own inverse.
\<close>

theorem bitreverse_twice:
  assumes "wf_bv a"
  shows "bitreverse (bitreverse a) = a"
proof (rule wf_bv_bits_eqI)
  note w = bitreverse_wf [OF assms] and p = wf_bvD(1) [OF assms]
  have b: "bits (bitreverse a) = bits a" using bitreverse_bit(1) [OF assms p] .
  then show bb: "bits (bitreverse (bitreverse a)) = bits a" using bitreverse_bit(1) [OF w, of 0] p by simp
  show "bit (uval (bitreverse (bitreverse a))) j = bit (uval a) j" if "j < bits (bitreverse (bitreverse a))" for j
    using that bitreverse_bit(2) [OF w, of j] bitreverse_bit(2) [OF assms, of "bits a - 1 - j"] by (simp add: b bb)
qed (use assms bitreverse_wf in blast)+

theorem bitreverse_twice_witness: "bitreverse (bitreverse (mk 4 6)) = mk 4 6"
  by (rule bitreverse_twice) (simp add: wf_bv_def mk_def)

section \<open>Instructions\<close>

text \<open>The second operand of \<open>Abs\<close> is a flag of one bit; only whether it is zero matters.\<close>

lemma abs_flag_correct:
  assumes "wf_sv w a" "wf_sv 1 b" "non_poison a" "non_poison b" "honest_facts fa (sv_value a)"
  shows "binop_scalar fa fb res Abs fl a b = sv (mk w \<bar>sval (sv_value a)\<bar>) (spec_no_poison Abs fl (sv_value a) (sv_value b))"
proof -
  let ?b = "sv (mk w (uval (sv_value b))) True"
  have w: "0 < w" "bits (sv_value a) = w" using assms(1) wf_bvD(1) [of "sv_value a"] by (auto simp: wf_sv_def)
  have b: "wf_bv (sv_value b)" "bits (sv_value b) = 1" using assms(2) by (auto simp: wf_sv_def)
  have "(2::int) ^ 1 \<le> 2 ^ w" by (rule power_increasing) (use w(1) in auto)
  then have u: "take_bit w (uval (sv_value b)) = uval (sv_value b)"
    using wf_bvD(2,3) [OF b(1)] b(2) by (intro take_bit_int_eq_self) auto
  have wb: "wf_sv w ?b" using w(1) by (simp add: wf_sv_def sv_def)
  have "binop_scalar fa no_facts res Abs fl a ?b = sv (mk w \<bar>sval (sv_value a)\<bar>) (spec_no_poison Abs fl (sv_value a) (sv_value ?b))"
    by (rule binop_scalar_correct [OF assms(1) wb assms(3) _ assms(5)]) (simp_all add: sv_def binop_defined_def w(1))
  moreover have "binop_scalar fa fb res Abs fl a b = binop_scalar fa no_facts res Abs fl a ?b"
    using b u assms(4) by (simp add: binop_scalar_def sv_def bv_eq_iff)
  ultimately show ?thesis using u by (simp add: sv_def)
qed

text \<open>
  C14 (functional). \<open>BinOp::toSMT\<close> encodes the LLVM rules: on defined operands that are not poison
  the value of a scalar binary operation is the specified number modulo \<open>2 ^ w\<close>, and it is not poison
  exactly when the rule for its flags holds. The operands have the same width, but for the flag of \<open>Abs\<close>, which has one bit.
\<close>

theorem binop_encoding_correct:
  assumes "wf_sv w a" "wf_sv w b \<or> op = Abs \<and> wf_sv 1 b" "non_poison a" "non_poison b"
    and "honest_facts fa (sv_value a)" "honest_facts fb (sv_value b)"
    and "binop_defined op a b" "spec_value op (sv_value a) (sv_value b) = Some v"
  shows "binop_scalar fa fb res op fl a b = sv (mk w v) (spec_no_poison op fl (sv_value a) (sv_value b))"
proof (cases "wf_sv w b")
  case True
  show ?thesis by (rule binop_scalar_correct [OF assms(1) True assms(3-8)])
next
  case False
  then show ?thesis using assms(2,8) abs_flag_correct [OF assms(1) _ assms(3-5)] by auto
qed

theorem binop_encoding_correct_witness:
  "binop_scalar no_facts no_facts 8 Add \<lparr>NSW = True, NUW = False, Exact = False, Disjoint = False\<rparr>
     (sv (mk 8 100) True) (sv (mk 8 50) True) = sv (mk 8 150) False"
proof -
  have wf: "wf_sv 8 (sv (mk 8 n) True)" "honest_facts no_facts (sv_value (sv (mk 8 n) True))" for n
    by (simp_all add: wf_sv_def sv_def)
  have v: "uval (mk 8 100) = 100" "sval (mk 8 100) = 100" "uval (mk 8 50) = 50" "sval (mk 8 50) = 50" by code_simp+
  show ?thesis
    using binop_encoding_correct [OF wf(1) [of 100] disjI1 [OF wf(1) [of 50]] _ _ wf(2) wf(2), of Add 150 8
        "\<lparr>NSW = True, NUW = False, Exact = False, Disjoint = False\<rparr>"]
    by (simp add: sv_def v binop_defined_def fits_s_def)
qed

text \<open>
  C18 (refinement). Straight-line integer code is monotone: on inputs that refine the given ones
  (poison replaced by any value), it has no undefined behaviour that was not there, and its
  result refines the previous one.
\<close>

theorem eval_func_monotone:
  assumes "eval_func f vs = Some v" "list_all2 sv_implies vs ws"
  shows "\<exists>v'. eval_func f ws = Some v' \<and> sv_implies v v'"
  by (rule eval_func_mono [OF assms])

theorem eval_func_monotone_witness:
  "\<exists>v'. eval_func (demo_half ''f'' False) [sv (mk 8 1) True, sv (mk 8 2) True] = Some v' \<and>
     sv_implies (sv (mk 8 2) False) v'"
  by (rule eval_func_monotone [of _ "[sv (mk 8 0) False, sv (mk 8 2) True]"])
    (simp_all add: demo_half_def demo_add_def ret_inst_def eval_func_def inst_fn_def op_fn_def binop_defined_def
      binop_scalar_def binop_flags_of_def sv_def sv_implies_def start_env_def bvadd_def mk_def)

text \<open>
  C19 (type). A well-typed integer instruction on operands of the widths of their types gives a
  value of the width of its own type.
\<close>

theorem instruction_widths:
  assumes "pure_inst tyof I" "inst_fn I (map \<rho> (i_ops I)) = Some v"
    and "\<forall>V \<in> set (i_ops I). wf_sv (int_width (tyof V)) (\<rho> V)"
  shows "wf_sv (int_width (i_ty I)) v"
  using inst_fn_typed [OF assms(1,2)] assms(3) by (simp add: typed_def)

theorem instruction_widths_witness: "wf_sv 8 (sv (mk 8 3) True)"
  using instruction_widths [of "\<lambda>_. IntTy 8" "demo_add 0 ''a'' False" "start_env [sv (mk 8 1) True, sv (mk 8 2) True]"
      "sv (mk 8 3) True"]
  by (simp add: pure_inst_def demo_add_def llvm_binop_def int_width_def inst_fn_def op_fn_def binop_defined_def
      binop_scalar_def binop_flags_of_def start_env_def bvadd_def wf_sv_def sv_def mk_def wf_bv_def)

end
