(* ===== verification/Verify.thy ===== *)
theory Verify
  imports Unit
begin

text \<open>
  Verification of one unit, aggregation of the verdicts, and the driver: \<open>tv-next/verify.cpp\<close>,
  \<open>tv-next/compose.cpp\<close> and \<open>main\<close> of \<open>tools/alive-tv-next.cpp\<close>. The translation to Alive2's IR
  and the whole-function verifier (\<open>llvm_util/llvm2alive.cpp\<close>, \<open>tools/transform.cpp\<close>) are the
  fields of a record; so is the proposer, which theory \<open>Proposer\<close> models. The progress callback
  and the dump of units are the log of units that are run.
\<close>

section \<open>Verdicts\<close>

datatype status = Correct | Unsound | FailedToProve | TypeCheckerFailed | ErrorStatus | SyntacticallyEqual

record unit_verdict =
  v_name :: string
  passed :: bool
  error_message :: string
  proposer_name :: string
  v_status :: status

definition fresh_verdict :: "string \<Rightarrow> unit_verdict" where
  "fresh_verdict nm = \<lparr>v_name = nm, passed = False, error_message = [], proposer_name = [],
     v_status = ErrorStatus\<rparr>"

datatype verify_errors = NoErrors | Errors bool string

record 'a alive =
  llvm2alive_src :: "func \<Rightarrow> 'a option"
  llvm2alive_tgt :: "'a \<Rightarrow> func \<Rightarrow> 'a option"
  print_alive :: "'a \<Rightarrow> string"
  preprocess :: "'a \<times> 'a \<Rightarrow> 'a \<times> 'a"
  has_typings :: "'a \<times> 'a \<Rightarrow> bool"
  transform_verify :: "'a \<times> 'a \<Rightarrow> verify_errors"

record assumed_tv_unit =
  modified_unit :: tv_unit
  assume_checks :: "tv_unit list"
  a_proposer :: string

section \<open>One unit\<close>

definition runOnce :: "'a alive \<Rightarrow> tv_unit \<Rightarrow> unit_verdict" where
  "runOnce A unit =
     (let v = fresh_verdict (u_name unit) in
      case llvm2alive_src A (u_src unit) of
        None \<Rightarrow> v\<lparr>v_status := ErrorStatus, error_message := ''could not translate src to alive2 IR''\<rparr>
      | Some s \<Rightarrow>
      (case llvm2alive_tgt A s (u_tgt unit) of
        None \<Rightarrow> v\<lparr>v_status := ErrorStatus, error_message := ''could not translate tgt to alive2 IR''\<rparr>
      | Some t \<Rightarrow>
        if print_alive A s = print_alive A t then v\<lparr>v_status := SyntacticallyEqual, passed := True\<rparr>
        else
          let st = preprocess A (s, t) in
          if \<not> has_typings A st then
            v\<lparr>v_status := TypeCheckerFailed, error_message := ''alive2 type-checker rejected the cut''\<rparr>
          else (case transform_verify A st of
                  Errors unsound msg \<Rightarrow>
                    v\<lparr>v_status := (if unsound then Unsound else FailedToProve), error_message := msg,
                      passed := False\<rparr>
                | NoErrors \<Rightarrow> v\<lparr>v_status := Correct, passed := True\<rparr>)))"

text \<open>The loop over the assume checks: the verdicts of the checks that were run, up to the first
  failure.\<close>

fun run_checks :: "'a alive \<Rightarrow> tv_unit list \<Rightarrow> (tv_unit \<times> unit_verdict) list \<times> (tv_unit \<times> unit_verdict) option"
where
  "run_checks A [] = ([], None)"
| "run_checks A (ac # acs) =
     (let check_v = runOnce A ac in
      if \<not> passed check_v then ([(ac, check_v)], Some (ac, check_v))
      else case run_checks A acs of (log, failed) \<Rightarrow> ((ac, check_v) # log, failed))"

definition verifyTvUnit ::
  "'a alive \<Rightarrow> (tv_unit \<Rightarrow> func \<Rightarrow> func \<Rightarrow> assumed_tv_unit option) \<Rightarrow> tv_unit \<Rightarrow> (func \<times> func) option
   \<Rightarrow> unit_verdict \<times> (tv_unit \<times> unit_verdict) list" where
  "verifyTvUnit A proposeAssume unit parents =
     (let v = runOnce A unit in
      if passed v then (v, [(unit, v)])
      else if v_status v \<noteq> Unsound \<and> v_status v \<noteq> FailedToProve then (v, [(unit, v)])
      else
      (case parents of None \<Rightarrow> (v, [(unit, v)])
      | Some (parent_src, parent_tgt) \<Rightarrow>
      (case proposeAssume unit parent_src parent_tgt of None \<Rightarrow> (v, [(unit, v)])
      | Some proposed \<Rightarrow>
      (case run_checks A (assume_checks proposed) of
         (log, Some (ac, check_v)) \<Rightarrow>
           (v\<lparr>error_message := error_message v @ [CHR 0x0A] @ ''  proposer '' @ a_proposer proposed @
                '' fired but assume-check '' @ [CHR 0x27] @ u_name ac @ [CHR 0x27] @ '' failed: '' @ error_message check_v\<rparr>,
            (unit, v) # log)
       | (log, None) \<Rightarrow>
           let mod_v = runOnce A (modified_unit proposed) in
           (if passed mod_v
            then mod_v\<lparr>v_name := u_name unit, proposer_name := a_proposer proposed\<rparr>
            else v\<lparr>error_message := error_message v @ [CHR 0x0A] @ ''  proposer '' @ a_proposer proposed @
                '' fired and assume-checks passed, but modified unit still does not verify: '' @
                error_message mod_v\<rparr>,
            (unit, v) # log @ [(modified_unit proposed, mod_v)])))))"

section \<open>Aggregation\<close>

record compose_result =
  c_passed :: bool
  identical_positions :: nat
  verdicts :: "unit_verdict list"
  c_error :: string

definition status_text :: "status \<Rightarrow> string" where
  "status_text s =
     (case s of Unsound \<Rightarrow> ''UNSOUND'' | FailedToProve \<Rightarrow> ''failed-to-prove''
      | TypeCheckerFailed \<Rightarrow> ''type-checker-failed'' | ErrorStatus \<Rightarrow> ''error'' | _ \<Rightarrow> ''unexpected status'')"

definition summary_line :: "unit_verdict \<Rightarrow> string" where
  "summary_line v = ''  '' @ v_name v @ '': '' @ status_text (v_status v) @
     (if error_message v \<noteq> [] then '': '' @ error_message v else []) @ [CHR 0x0A]"

fun compose_loop :: "unit_verdict list \<Rightarrow> bool \<Rightarrow> string \<Rightarrow> bool \<times> string" where
  "compose_loop [] all_passed err_summary = (all_passed, err_summary)"
| "compose_loop (v # vs) all_passed err_summary =
     (if \<not> passed v then compose_loop vs False (err_summary @ summary_line v)
      else compose_loop vs all_passed err_summary)"

definition composeVerdicts :: "unit_verdict list \<Rightarrow> nat \<Rightarrow> compose_result" where
  "composeVerdicts vs identical =
     (case compose_loop vs True [] of (all_passed, err_summary) \<Rightarrow>
        \<lparr>c_passed = all_passed, identical_positions = identical, verdicts = vs,
         c_error = (if all_passed then [] else err_summary)\<rparr>)"

section \<open>The driver\<close>

text \<open>\<open>std::to_string\<close>.\<close>

function nat_to_string :: "nat \<Rightarrow> string" where
  "nat_to_string n =
     (if n < 10 then [char_of (48 + n)] else nat_to_string (n div 10) @ [char_of (48 + n mod 10)])"
  by auto
termination by (relation "measure id") auto

definition region_span :: "diff_region \<Rightarrow> nat \<times> nat \<times> nat \<times> nat" where
  "region_span region =
     (if is_asymmetric region
      then (src_start_idx region, length (src_region region), tgt_start_idx region, length (tgt_region region))
      else (inst_idx (hd (positions region)), length (positions region),
            inst_idx (hd (positions region)), length (positions region)))"

text \<open>\<open>flushIdentical\<close>: one unit number per identical position before the region.\<close>

function flushIdentical :: "nat \<Rightarrow> nat \<Rightarrow> nat \<Rightarrow> nat \<Rightarrow> nat \<times> nat" where
  "flushIdentical n_src up_to unit_counter next_src_pos =
     (if next_src_pos < up_to \<and> next_src_pos < n_src
      then flushIdentical n_src up_to (Suc unit_counter) (Suc next_src_pos)
      else (unit_counter, max next_src_pos up_to))"
  by auto
termination by (relation "measure (\<lambda>(n, up_to, c, p). up_to - p)") auto

declare flushIdentical.simps [simp del] nat_to_string.simps [simp del]

fun region_loop ::
  "llvm_api \<Rightarrow> 'a alive \<Rightarrow> (tv_unit \<Rightarrow> func \<Rightarrow> func \<Rightarrow> assumed_tv_unit option) \<Rightarrow> func \<Rightarrow> func \<Rightarrow> nat
   \<Rightarrow> diff_region list \<Rightarrow> nat \<Rightarrow> nat \<Rightarrow> unit_verdict list" where
  "region_loop L A propose src tgt n_src [] unit_counter next_src_pos = []"
| "region_loop L A propose src tgt n_src (region # rs) unit_counter next_src_pos =
     (case region_span region of (src_start, src_size, tgt_start, tgt_size) \<Rightarrow>
      case flushIdentical n_src src_start unit_counter next_src_pos of (counter, _) \<Rightarrow>
        let diag_name = ''unit@'' @ nat_to_string (Suc counter);
            v = (case buildTvUnit L src tgt region diag_name of
                   None \<Rightarrow> (fresh_verdict diag_name)\<lparr>error_message := ''could not lift region into a TvUnit''\<rparr>
                 | Some unit \<Rightarrow> fst (verifyTvUnit A propose unit (Some (src, tgt))))
        in v # region_loop L A propose src tgt n_src rs (Suc counter) (src_start + src_size))"

definition alive_tv_next ::
  "llvm_api \<Rightarrow> 'a alive \<Rightarrow> (tv_unit \<Rightarrow> func \<Rightarrow> func \<Rightarrow> assumed_tv_unit option) \<Rightarrow> func \<Rightarrow> func
   \<Rightarrow> compose_result option" where
  "alive_tv_next L A propose src tgt =
     (case computeDiffRegions L src tgt of
        None \<Rightarrow> None
      | Some diff \<Rightarrow>
          Some (composeVerdicts
            (region_loop L A propose src tgt
               (length (filter (\<lambda>I. \<not> isTerminator I) (all_insts src))) (regions diff) 0 0)
            (identical_count diff)))"

definition exit_code :: "compose_result option \<Rightarrow> nat" where
  "exit_code r = (case r of Some c \<Rightarrow> if c_passed c then 0 else 1 | None \<Rightarrow> 1)"

section \<open>What a verdict means\<close>

text \<open>
  What the validator relies on of Alive2: the translation keeps the meaning, so that two
  functions with the same translation, or whose translations verify, are in the refinement
  relation \<open>R\<close>.
\<close>

definition alive_sound :: "'a alive \<Rightarrow> (func \<Rightarrow> func \<Rightarrow> bool) \<Rightarrow> bool" where
  "alive_sound A R \<longleftrightarrow>
     (\<forall>src tgt s t. llvm2alive_src A src = Some s \<longrightarrow> llvm2alive_tgt A s tgt = Some t \<longrightarrow>
        (print_alive A s = print_alive A t \<or>
         has_typings A (preprocess A (s, t)) \<and> transform_verify A (preprocess A (s, t)) = NoErrors) \<longrightarrow>
        R src tgt)"

lemma runOnce_sound:
  assumes A: "alive_sound A R" and p: "passed (runOnce A u)"
  shows "R (u_src u) (u_tgt u)"
proof -
  obtain s t where st: "llvm2alive_src A (u_src u) = Some s" "llvm2alive_tgt A s (u_tgt u) = Some t"
    "print_alive A s = print_alive A t \<or>
       has_typings A (preprocess A (s, t)) \<and> transform_verify A (preprocess A (s, t)) = NoErrors"
    using p by (auto simp: runOnce_def Let_def fresh_verdict_def split: option.splits if_splits verify_errors.splits)
  with A show ?thesis unfolding alive_sound_def by blast
qed

lemma runOnce_status: "passed (runOnce A u) \<longleftrightarrow> v_status (runOnce A u) \<in> {Correct, SyntacticallyEqual}"
  "v_name (runOnce A u) = u_name u"
  by (auto simp: runOnce_def Let_def fresh_verdict_def split: option.splits verify_errors.splits)

lemma run_checks_passed: "run_checks A acs = (log, None) \<Longrightarrow> \<forall>ac \<in> set acs. passed (runOnce A ac)"
  by (induction acs arbitrary: log) (auto simp: Let_def split: if_splits prod.splits)

lemma run_checks_failed: "run_checks A acs = (log, Some (ac, v)) \<Longrightarrow> ac \<in> set acs \<and> v = runOnce A ac \<and> \<not> passed v"
  by (induction acs arbitrary: log) (auto simp: Let_def split: if_splits prod.splits)

text \<open>The two ways to a passed verdict.\<close>

lemma verifyTvUnit_passed:
  assumes "passed (fst (verifyTvUnit A propose u parents))"
  shows "passed (runOnce A u) \<or>
    (\<exists>ps pt ap. parents = Some (ps, pt) \<and> propose u ps pt = Some ap \<and>
       v_status (runOnce A u) \<in> {Unsound, FailedToProve} \<and>
       (\<forall>ac \<in> set (assume_checks ap). passed (runOnce A ac)) \<and> passed (runOnce A (modified_unit ap)))"
proof (cases "passed (runOnce A u)")
  case False
  have s: "v_status (runOnce A u) \<in> {Unsound, FailedToProve}"
    using assms False by (auto simp: verifyTvUnit_def Let_def split: if_splits)
  obtain ps pt where p: "parents = Some (ps, pt)"
    using assms False by (auto simp: verifyTvUnit_def Let_def split: if_splits option.splits)
  obtain ap where ap: "propose u ps pt = Some ap"
    using assms False by (auto simp: verifyTvUnit_def Let_def p split: if_splits option.splits)
  obtain log failed where c: "run_checks A (assume_checks ap) = (log, failed)" by (cases "run_checks A (assume_checks ap)")
  have "failed = None" using assms False s
    by (cases failed) (auto simp: verifyTvUnit_def Let_def p ap c)
  moreover have "passed (runOnce A (modified_unit ap))"
    using assms False s calculation by (auto simp: verifyTvUnit_def Let_def p ap c split: if_splits)
  ultimately show ?thesis using p ap s run_checks_passed [of A "assume_checks ap" log] c by blast
qed simp

section \<open>Properties\<close>

text \<open>
  C8 (safety). A unit passes only with proofs: either Alive2 established refinement of the
  unit as it is, or the unit was refuted or not proved, the parents were given, a proposal was
  made, Alive2 established every assume check and then the unit with the assumptions
  injected. In every case the refinement relation that Alive2 is sound for holds of what was
  run.
\<close>

theorem unit_passes_only_with_proof:
  assumes "alive_sound A R" "passed (fst (verifyTvUnit A propose u parents))"
  shows "R (u_src u) (u_tgt u) \<or>
    (\<exists>ps pt ap. parents = Some (ps, pt) \<and> propose u ps pt = Some ap \<and>
       (\<forall>ac \<in> set (assume_checks ap). R (u_src ac) (u_tgt ac)) \<and>
       R (u_src (modified_unit ap)) (u_tgt (modified_unit ap)))"
  using verifyTvUnit_passed [OF assms(2)] runOnce_sound [OF assms(1)] by blast

text \<open>
  A retry never turns an error into a pass: a unit that could not be translated or
  was rejected by the type checker keeps its verdict, and the proposer is not consulted.
\<close>

theorem errors_are_final:
  assumes "v_status (runOnce A u) \<in> {ErrorStatus, TypeCheckerFailed}"
  shows "verifyTvUnit A propose u parents = (runOnce A u, [(u, runOnce A u)])"
  using assms runOnce_status(1) [of A u] by (auto simp: verifyTvUnit_def Let_def)

lemma compose_loop_result:
  "compose_loop vs b e = (b \<and> (\<forall>v \<in> set vs. passed v), e @ concat (map summary_line (filter (\<lambda>v. \<not> passed v) vs)))"
  by (induction vs arbitrary: b e) auto

text \<open>
  The aggregated verdict passes exactly when every unit passed; the error
  message has one line for every unit that did not, in order, and is empty otherwise.
\<close>

theorem composeVerdicts_iff:
  "c_passed (composeVerdicts vs n) = list_all passed vs \<and>
   c_error (composeVerdicts vs n) = concat (map summary_line (filter (\<lambda>v. \<not> passed v) vs)) \<and>
   verdicts (composeVerdicts vs n) = vs \<and> identical_positions (composeVerdicts vs n) = n"
proof -
  have "filter (\<lambda>v. \<not> passed v) vs = []" if "\<forall>v \<in> set vs. passed v" using that by (simp add: filter_empty_conv)
  then show ?thesis by (simp add: composeVerdicts_def compose_loop_result list_all_iff)
qed

section \<open>The driver\<close>

lemma region_loop_Cons:
  obtains nm c' p' where
    "region_loop L A propose src tgt n (r # rs) c p =
       (case buildTvUnit L src tgt r nm of
          None \<Rightarrow> (fresh_verdict nm)\<lparr>error_message := ''could not lift region into a TvUnit''\<rparr>
        | Some unit \<Rightarrow> fst (verifyTvUnit A propose unit (Some (src, tgt)))) #
       region_loop L A propose src tgt n rs c' p'"
  by (cases "region_span r"; cases "flushIdentical n (fst (region_span r)) c p")
    (simp add: Let_def del: append.simps)

lemma region_loop_all:
  "\<forall>v \<in> set (region_loop L A propose src tgt n rs c p). passed v \<Longrightarrow> r \<in> set rs \<Longrightarrow>
     \<exists>nm u. buildTvUnit L src tgt r nm = Some u \<and> passed (fst (verifyTvUnit A propose u (Some (src, tgt))))"
proof (induction rs arbitrary: c p)
  case (Cons r' rs)
  obtain nm c' p' where step: "region_loop L A propose src tgt n (r' # rs) c p =
       (case buildTvUnit L src tgt r' nm of
          None \<Rightarrow> (fresh_verdict nm)\<lparr>error_message := ''could not lift region into a TvUnit''\<rparr>
        | Some unit \<Rightarrow> fst (verifyTvUnit A propose unit (Some (src, tgt)))) #
       region_loop L A propose src tgt n rs c' p'" by (rule region_loop_Cons)
  show ?case
  proof (cases "r = r'")
    case True
    then show ?thesis using Cons.prems(1) unfolding step
      by (cases "buildTvUnit L src tgt r' nm") (auto simp: fresh_verdict_def)
  next
    case False
    then have "r \<in> set rs" using Cons.prems(2) by simp
    then show ?thesis using Cons.prems(1) Cons.IH [of c' p'] unfolding step by simp
  qed
qed simp

lemma alive_tv_next_units:
  assumes "alive_tv_next L A propose src tgt = Some c" "c_passed c"
  obtains diff where "computeDiffRegions L src tgt = Some diff"
    "\<And>r. r \<in> set (regions diff) \<Longrightarrow> \<exists>nm u. buildTvUnit L src tgt r nm = Some u \<and>
       passed (fst (verifyTvUnit A propose u (Some (src, tgt))))"
proof -
  obtain diff where d: "computeDiffRegions L src tgt = Some diff"
    and c: "c = composeVerdicts (region_loop L A propose src tgt
        (length (filter (\<lambda>I. \<not> isTerminator I) (all_insts src))) (regions diff) 0 0) (identical_count diff)"
    using assms(1) by (auto simp: alive_tv_next_def split: option.splits)
  have "\<forall>v \<in> set (region_loop L A propose src tgt
      (length (filter (\<lambda>I. \<not> isTerminator I) (all_insts src))) (regions diff) 0 0). passed v"
    using assms(2) unfolding c by (simp add: composeVerdicts_def compose_loop_result)
  then show thesis using that [OF d] region_loop_all by blast
qed

section \<open>Witnesses\<close>

text \<open>An Alive2 that translates the two halves of one unit only, and verifies it: the target drops
  an \<open>nsw\<close>.\<close>

definition demo_alive :: "func alive" where
  "demo_alive = \<lparr>llvm2alive_src = (\<lambda>f. if f = demo_half ''src'' True then Some f else None),
     llvm2alive_tgt = (\<lambda>_ f. if f = demo_half ''tgt'' False then Some f else None),
     print_alive = f_name, preprocess = id, has_typings = (\<lambda>_. True), transform_verify = (\<lambda>_. NoErrors)\<rparr>"

lemma drop_nsw_refines: "func_refines (demo_half a True) (demo_half b False)"
  unfolding func_refines_def
  by (auto simp: demo_half_def demo_add_def ret_inst_def eval_func_def inst_fn_def op_fn_def binop_defined_def
      binop_scalar_def binop_flags_of_def sv_implies_def sv_def split: prod.splits)

lemma demo_alive_sound: "alive_sound demo_alive func_refines"
  unfolding alive_sound_def by (auto simp: demo_alive_def drop_nsw_refines split: if_splits)

definition dropped_unit :: tv_unit where
  "dropped_unit = \<lparr>u_name = ''unit@2'', u_src = demo_half ''src'' True, u_tgt = demo_half ''tgt'' False\<rparr>"

lemma dropped_unit_passes: "passed (runOnce demo_alive dropped_unit)"
  by (simp add: runOnce_def demo_alive_def dropped_unit_def demo_half_def Let_def fresh_verdict_def)

theorem unit_passes_only_with_proof_witness:
  "func_refines (u_src dropped_unit) (u_tgt dropped_unit)"
  using unit_passes_only_with_proof [OF demo_alive_sound, of "\<lambda>_ _ _. None" dropped_unit None] dropped_unit_passes
  by (simp add: verifyTvUnit_def Let_def)

theorem errors_are_final_witness:
  "verifyTvUnit demo_alive (\<lambda>_ _ _. None) demo_unit None = (runOnce demo_alive demo_unit, [(demo_unit, runOnce demo_alive demo_unit)])"
  by (rule errors_are_final)
    (simp add: runOnce_def demo_alive_def demo_unit_def demo_half_def demo_add_def Let_def fresh_verdict_def)

end
