(* ===== verification/Compose.thy ===== *)
theory Compose
  imports Verify Semantics
begin

text \<open>
  When the composite verdict is right. A diff cuts the two bodies into segments, each a pair of
  identical instructions or a region. If every unit is verified, the values are named and
  unique, text determines an instruction, and outside a region only its exit is read, then the
  target refines the source: refinement is carried from segment to segment on the names that
  are visible. \<open>tv-next\<close> does not check the last condition, nor that the parameters of the two
  functions have the same names; both omissions are shown to matter.
\<close>

section \<open>Segments\<close>

datatype segment = Same inst inst | DiffSeg diff_region

fun seg_src :: "segment \<Rightarrow> inst list" where
  "seg_src (Same s t) = [s]"
| "seg_src (DiffSeg r) = unit_src_insts r"

fun seg_tgt :: "segment \<Rightarrow> inst list" where
  "seg_tgt (Same s t) = [t]"
| "seg_tgt (DiffSeg r) = unit_tgt_insts r"

fun seg_regions :: "segment list \<Rightarrow> diff_region list" where
  "seg_regions [] = []"
| "seg_regions (Same s t # segs) = seg_regions segs"
| "seg_regions (DiffSeg r # segs) = r # seg_regions segs"

fun seg_same :: "(inst \<Rightarrow> inst \<Rightarrow> bool) \<Rightarrow> segment \<Rightarrow> bool" where
  "seg_same same (Same s t) = same s t"
| "seg_same same (DiffSeg r) = True"

lemma seg_regions_append [simp]: "seg_regions (xs @ ys) = seg_regions xs @ seg_regions ys"
  by (induction xs rule: seg_regions.induct) auto

definition cuts :: "(inst \<Rightarrow> inst \<Rightarrow> bool) \<Rightarrow> segment list \<Rightarrow> inst list \<Rightarrow> inst list \<Rightarrow> diff_region list \<Rightarrow> bool" where
  "cuts same segs ss ts rs \<longleftrightarrow>
     concat (map seg_src segs) = ss \<and> concat (map seg_tgt segs) = ts \<and> seg_regions segs = rs \<and>
     list_all (seg_same same) segs"

definition pre :: "diff_position list \<Rightarrow> segment list" where
  "pre cur = (if cur = [] then [] else [DiffSeg (empty_region\<lparr>positions := cur\<rparr>)])"

lemma cuts_pre: "cuts same (pre cur) (map src_inst cur) (map tgt_inst cur) (flush_group cur [])"
  by (simp add: cuts_def pre_def flush_group_def unit_src_insts_def unit_tgt_insts_def empty_region_def)

lemma cuts_append:
  "cuts same xs ss ts rs \<Longrightarrow> cuts same ys ss' ts' rs' \<Longrightarrow> cuts same (xs @ ys) (ss @ ss') (ts @ ts') (rs @ rs')"
  by (simp add: cuts_def)

lemma cuts_Same: "same s t \<Longrightarrow> cuts same [Same s t] [s] [t] []"
  by (simp add: cuts_def)

lemma flush_append: "flush_group cur rs = rs @ flush_group cur []"
  by (simp add: flush_group_def)

lemma pos_insts [simp]: "src_inst (position i s t) = s" "tgt_inst (position i s t) = t"
  by (simp_all add: position_def)

lemma pair_loop_cuts:
  "length ss = length ts \<Longrightarrow> \<exists>segs rs'. regions (pair_loop same comm i ss ts cur rs n) = rs @ rs' \<and>
     cuts same segs (map src_inst cur @ ss) (map tgt_inst cur @ ts) rs'"
proof (induction same comm i ss ts cur rs n rule: pair_loop.induct [case_names step src_end tgt_end])
  case (step same comm i s ss t ts cur rs n)
  have len: "length ss = length ts" using step(4) by simp
  consider "same s t" | "\<not> same s t" "comm s t" | "\<not> same s t" "\<not> comm s t" by blast
  then show ?case
  proof cases
    assume c: "same s t"
    obtain segs rs' where IH: "regions (pair_loop same comm (Suc i) ss ts [] (flush_group cur rs) (Suc n)) =
        flush_group cur rs @ rs'" "cuts same segs ss ts rs'" using step(1) [OF c len] by auto
    have "cuts same (pre cur @ [Same s t] @ segs) (map src_inst cur @ [s] @ ss) (map tgt_inst cur @ [t] @ ts)
        (flush_group cur [] @ [] @ rs')"
      by (intro cuts_append cuts_pre cuts_Same IH(2) c)
    then show ?thesis using IH(1) c flush_append [of cur rs] by auto
  next
    assume c: "\<not> same s t" "comm s t"
    let ?p = "[position i s t]"
    obtain segs rs' where IH: "regions (pair_loop same comm (Suc i) ss ts [] (flush_group ?p (flush_group cur rs)) n) =
        flush_group ?p (flush_group cur rs) @ rs'" "cuts same segs ss ts rs'" using step(2) [OF c len] by auto
    have "cuts same (pre cur @ pre ?p @ segs) (map src_inst cur @ map src_inst ?p @ ss)
        (map tgt_inst cur @ map tgt_inst ?p @ ts) (flush_group cur [] @ flush_group ?p [] @ rs')"
      by (intro cuts_append cuts_pre IH(2))
    then show ?thesis using IH(1) c flush_append [of cur rs] flush_append [of ?p "flush_group cur rs"] by auto
  next
    assume c: "\<not> same s t" "\<not> comm s t"
    show ?thesis using step(3) [OF c len] c by auto
  qed
next
  case (src_end same comm i ts cur rs n)
  then show ?case using cuts_pre [of same cur] flush_append [of cur rs] by auto
next
  case (tgt_end same comm i ss cur rs n)
  then show ?case using cuts_pre [of same cur] flush_append [of cur rs] by auto
qed

lemma cuts_asym: "cuts same (map DiffSeg (asym_region i ss ts)) ss ts (asym_region i ss ts)"
  by (simp add: cuts_def asym_region_def unit_src_insts_def unit_tgt_insts_def empty_region_def)

lemma tail_loop_cuts:
  "\<exists>segs rs'. regions (tail_loop same comm i ss ts cur rs n) = rs @ rs' \<and>
     cuts same segs (map src_inst cur @ ss) (map tgt_inst cur @ ts) rs'"
proof (induction same comm i ss ts cur rs n rule: tail_loop.induct [case_names step src_end tgt_end])
  case (step same comm i s ss t ts cur rs n)
  let ?nm = "i_name s \<noteq> [] \<and> i_name t \<noteq> [] \<and> i_name s = i_name t"
  consider "same s t" | "\<not> same s t" "?nm" "comm s t" | "\<not> same s t" "?nm" "\<not> comm s t" | "\<not> same s t" "\<not> ?nm" by blast
  then show ?case
  proof cases
    assume c: "same s t"
    obtain segs rs' where IH: "regions (tail_loop same comm (Suc i) ss ts [] (flush_group cur rs) (Suc n)) =
        flush_group cur rs @ rs'" "cuts same segs ss ts rs'" using step(1) [OF c] by auto
    have "cuts same (pre cur @ [Same s t] @ segs) (map src_inst cur @ [s] @ ss) (map tgt_inst cur @ [t] @ ts)
        (flush_group cur [] @ [] @ rs')"
      by (intro cuts_append cuts_pre cuts_Same IH(2) c)
    then show ?thesis using IH(1) c flush_append [of cur rs] by auto
  next
    assume c: "\<not> same s t" "?nm" "comm s t"
    let ?p = "[position i s t]"
    obtain segs rs' where IH: "regions (tail_loop same comm (Suc i) ss ts [] (flush_group ?p (flush_group cur rs)) n) =
        flush_group ?p (flush_group cur rs) @ rs'" "cuts same segs ss ts rs'" using step(2) [OF c] by auto
    have "cuts same (pre cur @ pre ?p @ segs) (map src_inst cur @ map src_inst ?p @ ss)
        (map tgt_inst cur @ map tgt_inst ?p @ ts) (flush_group cur [] @ flush_group ?p [] @ rs')"
      by (intro cuts_append cuts_pre IH(2))
    then show ?thesis using IH(1) c flush_append [of cur rs] flush_append [of ?p "flush_group cur rs"] by auto
  next
    assume c: "\<not> same s t" "?nm" "\<not> comm s t"
    show ?thesis using step(3) [OF c] c by auto
  next
    assume c: "\<not> same s t" "\<not> ?nm"
    show ?thesis using c cuts_append [OF cuts_pre cuts_asym, of same cur i "s # ss" "t # ts"]
        flush_append [of cur rs] by auto
  qed
next
  case (src_end same comm i ts cur rs n)
  then show ?case using cuts_append [OF cuts_pre cuts_asym, of same cur i "[]" ts] flush_append [of cur rs] by auto
next
  case (tgt_end same comm i ss cur rs n)
  then show ?case using cuts_append [OF cuts_pre cuts_asym, of same cur i ss "[]"] flush_append [of cur rs] by auto
qed

lemma diff_cuts:
  assumes "computeDiffRegions L src tgt = Some d" "f_blocks src = [sb]" "f_blocks tgt = [tb]"
  shows "\<exists>segs. cuts (sameText L src tgt) segs (body_insts sb) (body_insts tb) (regions d)"
proof (rule computeDiffRegionsE [OF assms(1)])
  fix sb' tb'
  assume a: "f_blocks src = [sb']" "f_blocks tgt = [tb']"
    "d = (if length (body_insts sb') = length (body_insts tb')
       then pair_loop (sameText L src tgt) (isLikelyCommutativity L src tgt) 0 (body_insts sb') (body_insts tb') [] [] 0
       else tail_loop (sameText L src tgt) (isLikelyCommutativity L src tgt) 0 (body_insts sb') (body_insts tb') [] [] 0)"
  show ?thesis
    using a assms(2,3) pair_loop_cuts [of "body_insts sb" "body_insts tb" "sameText L src tgt" "isLikelyCommutativity L src tgt" 0 "[]" "[]" 0]
      tail_loop_cuts [of "sameText L src tgt" "isLikelyCommutativity L src tgt" 0 "body_insts sb" "body_insts tb" "[]" "[]" 0]
    by (cases "length (body_insts sb) = length (body_insts tb)") auto
qed

section \<open>Conditions\<close>

definition unique_names :: "func \<Rightarrow> bool" where
  "unique_names f \<longleftrightarrow> (\<forall>V W. val_name f V = val_name f W \<longrightarrow> val_name f V \<noteq> [] \<longrightarrow> V = W)"

text \<open>Two operands that print the same, and two instructions that do.\<close>

definition operand_match :: "func \<Rightarrow> func \<Rightarrow> val \<Rightarrow> val \<Rightarrow> bool" where
  "operand_match src tgt V W \<longleftrightarrow>
     (if isConstant V then V = W else \<not> isConstant W \<and> val_name src V = val_name tgt W)"

definition same_inst :: "func \<Rightarrow> func \<Rightarrow> inst \<Rightarrow> inst \<Rightarrow> bool" where
  "same_inst src tgt s t \<longleftrightarrow>
     i_op s = i_op t \<and> i_ty s = i_ty t \<and> binop_flags_of s = binop_flags_of t \<and>
     conv_flags_of s = conv_flags_of t \<and> i_name s = i_name t \<and>
     list_all2 (operand_match src tgt) (i_ops s) (i_ops t)"

text \<open>What the diff relies on of LLVM's printer: equal texts are equal instructions.\<close>

definition print_faithful :: "llvm_api \<Rightarrow> func \<Rightarrow> func \<Rightarrow> bool" where
  "print_faithful L src tgt \<longleftrightarrow>
     (\<forall>s \<in> set (all_insts src). \<forall>t \<in> set (all_insts tgt). sameText L src tgt s t \<longrightarrow> same_inst src tgt s t)"

text \<open>A body in which values are defined before they are read, once, and well-typed.\<close>

definition in_scope :: "func \<Rightarrow> nat set \<Rightarrow> val \<Rightarrow> bool" where
  "in_scope f D V =
     (case V of
        InstV n \<Rightarrow> n \<in> D
      | ArgV n \<Rightarrow> n < length (f_args f)
      | ConstInt c \<Rightarrow> wf_bv c
      | ConstOther _ _ \<Rightarrow> False)"

fun scoped :: "func \<Rightarrow> nat set \<Rightarrow> inst list \<Rightarrow> bool" where
  "scoped f D [] = True"
| "scoped f D (I # Is) \<longleftrightarrow>
     list_all (in_scope f D) (i_ops I) \<and> pure_inst (val_ty f) I \<and> i_id I \<notin> D \<and>
     val_ty f (InstV (i_id I)) = i_ty I \<and> val_name f (InstV (i_id I)) = i_name I \<and>
     scoped f (insert (i_id I) D) Is"

text \<open>The names a sequence reads from outside itself.\<close>

definition ext_names :: "func \<Rightarrow> inst list \<Rightarrow> string set" where
  "ext_names f insts =
     val_name f ` set (filter (external (set (map i_id insts))) (concat (map i_ops insts)))"

text \<open>Outside a region only its exit is read, and the exits have the same name.\<close>

fun only_exits_read :: "func \<Rightarrow> func \<Rightarrow> string set \<Rightarrow> segment list \<Rightarrow> bool" where
  "only_exits_read src tgt Vis [] = True"
| "only_exits_read src tgt Vis (Same s t # segs) \<longleftrightarrow>
     ext_names src [s] \<subseteq> Vis \<and> i_name s \<noteq> [] \<and> only_exits_read src tgt (insert (i_name s) Vis) segs"
| "only_exits_read src tgt Vis (DiffSeg r # segs) \<longleftrightarrow>
     ext_names src (unit_src_insts r) \<subseteq> Vis \<and> ext_names tgt (unit_tgt_insts r) \<subseteq> Vis \<and>
     i_name (last (unit_src_insts r)) \<noteq> [] \<and>
     i_name (last (unit_src_insts r)) = i_name (last (unit_tgt_insts r)) \<and>
     only_exits_read src tgt (insert (i_name (last (unit_src_insts r))) Vis) segs"

fun visible :: "string set \<Rightarrow> segment list \<Rightarrow> string set" where
  "visible Vis [] = Vis"
| "visible Vis (Same s t # segs) = visible (insert (i_name s) Vis) segs"
| "visible Vis (DiffSeg r # segs) = visible (insert (i_name (last (unit_src_insts r))) Vis) segs"

section \<open>Executions of well-formed bodies\<close>

lemma scoped_append: "scoped f D (xs @ ys) \<longleftrightarrow> scoped f D xs \<and> scoped f (D \<union> set (map i_id xs)) ys"
  by (induction xs arbitrary: D) (auto simp: insert_commute)

lemma in_scope_insert: "in_scope f (insert n D) V \<longleftrightarrow> V = InstV n \<or> in_scope f D V"
  by (auto simp: in_scope_def split: val.splits)

definition scope_typed :: "func \<Rightarrow> nat set \<Rightarrow> env \<Rightarrow> bool" where
  "scope_typed f D \<rho> \<longleftrightarrow> (\<forall>V. in_scope f D V \<longrightarrow> typed (val_ty f) \<rho> V)"

lemma scope_typed_step:
  assumes "scope_typed f D \<rho>" "scoped f D (I # Is)" "inst_fn I (map \<rho> (i_ops I)) = Some v"
  shows "scope_typed f (insert (i_id I) D) (\<rho>(InstV (i_id I) := v))"
proof -
  have "wf_sv (int_width (i_ty I)) v"
    by (rule inst_fn_typed [OF _ assms(3), of "val_ty f"]) (use assms(1,2) in \<open>auto simp: scope_typed_def list_all_iff\<close>)
  then show ?thesis using assms(1,2) by (auto simp: scope_typed_def in_scope_insert typed_def)
qed

lemma eval_scoped:
  "eval_insts \<rho> Is = Some \<rho>' \<Longrightarrow> scoped f D Is \<Longrightarrow> scope_typed f D \<rho> \<Longrightarrow>
     scope_typed f (D \<union> set (map i_id Is)) \<rho>'"
proof (induction Is arbitrary: \<rho> D)
  case (Cons I Is)
  obtain v where v: "inst_fn I (map \<rho> (i_ops I)) = Some v" "eval_insts (\<rho>(InstV (i_id I) := v)) Is = Some \<rho>'"
    using Cons.prems(1) by (auto split: option.splits)
  have "scope_typed f (insert (i_id I) D \<union> set (map i_id Is)) \<rho>'"
    by (rule Cons.IH [OF v(2) _ scope_typed_step [OF Cons.prems(3,2) v(1)]]) (use Cons.prems(2) in simp)
  then show ?case by simp
qed simp

lemma eval_keeps:
  "eval_insts \<rho> Is = Some \<rho>' \<Longrightarrow> scoped f D Is \<Longrightarrow> in_scope f D V \<Longrightarrow> \<rho>' V = \<rho> V"
proof (induction Is arbitrary: \<rho> D)
  case (Cons I Is)
  obtain v where v: "eval_insts (\<rho>(InstV (i_id I) := v)) Is = Some \<rho>'"
    using Cons.prems(1) by (auto split: option.splits)
  have "\<rho>' V = (\<rho>(InstV (i_id I) := v)) V"
    by (rule Cons.IH [OF v, of "insert (i_id I) D"]) (use Cons.prems(2,3) in \<open>simp_all add: in_scope_insert\<close>)
  moreover have "V \<noteq> InstV (i_id I)" using Cons.prems(2,3) by (auto simp: in_scope_def)
  ultimately show ?case by simp
qed simp

lemma eval_const: "eval_insts \<rho> Is = Some \<rho>' \<Longrightarrow> const_env \<rho> \<Longrightarrow> const_env \<rho>'"
proof (induction Is arbitrary: \<rho>)
  case (Cons I Is)
  obtain v where v: "eval_insts (\<rho>(InstV (i_id I) := v)) Is = Some \<rho>'"
    using Cons.prems(1) by (auto split: option.splits)
  have "const_env (\<rho>(InstV (i_id I) := v))" using Cons.prems(2) by (auto simp: const_env_def isConstant_def)
  then show ?case by (rule Cons.IH [OF v])
qed simp

lemma eval_append:
  "eval_insts \<rho> (xs @ ys) = (case eval_insts \<rho> xs of None \<Rightarrow> None | Some \<rho>' \<Rightarrow> eval_insts \<rho>' ys)"
  by (induction xs arbitrary: \<rho>) (auto split: option.splits)

lemma last_scoped:
  "scoped f D Is \<Longrightarrow> Is \<noteq> [] \<Longrightarrow> val_ty f (InstV (i_id (last Is))) = i_ty (last Is) \<and>
     val_name f (InstV (i_id (last Is))) = i_name (last Is)"
  by (induction Is arbitrary: D) auto

section \<open>Refinement along the segments\<close>

definition agree :: "func \<Rightarrow> func \<Rightarrow> string set \<Rightarrow> nat set \<Rightarrow> nat set \<Rightarrow> env \<Rightarrow> env \<Rightarrow> bool" where
  "agree src tgt Vis Ds Dt \<rho>s \<rho>t \<longleftrightarrow>
     (\<forall>x \<in> Vis. x \<noteq> [] \<and> (\<exists>V W. val_name src V = x \<and> val_name tgt W = x \<and> in_scope src Ds V \<and>
        in_scope tgt Dt W \<and> val_ty src V = val_ty tgt W \<and> sv_implies (\<rho>s V) (\<rho>t W)))"

lemma agreeD:
  assumes "agree src tgt Vis Ds Dt \<rho>s \<rho>t" "unique_names src" "unique_names tgt"
    and "x \<in> Vis" "val_name src V = x" "val_name tgt W = x"
  shows "x \<noteq> []" "in_scope src Ds V" "in_scope tgt Dt W" "val_ty src V = val_ty tgt W" "sv_implies (\<rho>s V) (\<rho>t W)"
proof -
  obtain V' W' where *: "x \<noteq> []" "val_name src V' = x" "val_name tgt W' = x" "in_scope src Ds V'"
    "in_scope tgt Dt W'" "val_ty src V' = val_ty tgt W'" "sv_implies (\<rho>s V') (\<rho>t W')"
    using assms(1,4) unfolding agree_def by blast
  moreover have "V' = V" "W' = W"
    using assms(2,3,5,6) * unfolding unique_names_def by metis+
  ultimately show "x \<noteq> []" "in_scope src Ds V" "in_scope tgt Dt W" "val_ty src V = val_ty tgt W"
    "sv_implies (\<rho>s V) (\<rho>t W)" by simp_all
qed

text \<open>The agreement survives when both sides execute further instructions and a new name, defined
  on both sides, is added.\<close>

lemma agree_extend:
  assumes a: "agree src tgt Vis Ds Dt \<rho>s \<rho>t"
    and s: "eval_insts \<rho>s Is = Some \<rho>s'" "scoped src Ds Is" and t: "eval_insts \<rho>t It = Some \<rho>t'" "scoped tgt Dt It"
    and ne: "Is \<noteq> []" "It \<noteq> []" and nm: "i_name (last Is) = i_name (last It)" "i_name (last Is) \<noteq> []"
    and ty: "i_ty (last Is) = i_ty (last It)"
    and v: "sv_implies (\<rho>s' (InstV (i_id (last Is)))) (\<rho>t' (InstV (i_id (last It))))"
  shows "agree src tgt (insert (i_name (last Is)) Vis) (Ds \<union> set (map i_id Is)) (Dt \<union> set (map i_id It)) \<rho>s' \<rho>t'"
  unfolding agree_def
proof (intro ballI conjI)
  fix x assume x: "x \<in> insert (i_name (last Is)) Vis"
  show "x \<noteq> []" using x a nm(2) by (auto simp: agree_def)
  show "\<exists>V W. val_name src V = x \<and> val_name tgt W = x \<and> in_scope src (Ds \<union> set (map i_id Is)) V \<and>
      in_scope tgt (Dt \<union> set (map i_id It)) W \<and> val_ty src V = val_ty tgt W \<and> sv_implies (\<rho>s' V) (\<rho>t' W)"
  proof (cases "x \<in> Vis")
    case True
    then obtain V W where *: "val_name src V = x" "val_name tgt W = x" "in_scope src Ds V" "in_scope tgt Dt W"
      "val_ty src V = val_ty tgt W" "sv_implies (\<rho>s V) (\<rho>t W)"
      using a unfolding agree_def by blast
    have "\<rho>s' V = \<rho>s V" "\<rho>t' W = \<rho>t W" by (rule eval_keeps [OF s *(3)], rule eval_keeps [OF t *(4)])
    moreover have "in_scope src (Ds \<union> set (map i_id Is)) V" "in_scope tgt (Dt \<union> set (map i_id It)) W"
      using *(3,4) by (auto simp: in_scope_def split: val.splits)
    ultimately show ?thesis using * by metis
  next
    case False
    then have x': "x = i_name (last Is)" using x by simp
    show ?thesis
      by (rule exI [of _ "InstV (i_id (last Is))"], rule exI [of _ "InstV (i_id (last It))"])
        (use last_scoped [OF s(2) ne(1)] last_scoped [OF t(2) ne(2)] x' nm ty v ne in
          \<open>auto simp: in_scope_def\<close>)
  qed
qed

lemma ext_names_in: "V \<in> set (concat (map i_ops Is)) \<Longrightarrow> external (set (map i_id Is)) V \<Longrightarrow> val_name f V \<in> ext_names f Is"
  by (auto simp: ext_names_def)

lemma Same_step:
  assumes a: "agree src tgt Vis Ds Dt \<rho>s \<rho>t" and u: "unique_names src" "unique_names tgt"
    and c: "const_env \<rho>s" "const_env \<rho>t" and same: "same_inst src tgt s t"
    and sc: "scoped src Ds [s]" "scoped tgt Dt [t]"
    and vis: "ext_names src [s] \<subseteq> Vis" "i_name s \<noteq> []" and e: "eval_insts \<rho>s [s] = Some \<rho>s'"
  shows "\<exists>\<rho>t'. eval_insts \<rho>t [t] = Some \<rho>t' \<and>
    agree src tgt (insert (i_name s) Vis) (Ds \<union> {i_id s}) (Dt \<union> {i_id t}) \<rho>s' \<rho>t'"
proof -
  have match: "list_all2 (operand_match src tgt) (i_ops s) (i_ops t)" using same by (simp add: same_inst_def)
  obtain v where v: "inst_fn s (map \<rho>s (i_ops s)) = Some v" "\<rho>s' = \<rho>s(InstV (i_id s) := v)"
    using e by (auto split: option.splits)
  have "sv_implies (\<rho>s V) (\<rho>t W)" if V: "V \<in> set (i_ops s)" and m: "operand_match src tgt V W" for V W
  proof (cases "isConstant V")
    case True
    then show ?thesis using m c by (simp add: operand_match_def const_env_def)
  next
    case False
    have "in_scope src Ds V" using sc(1) V by (simp add: list_all_iff)
    moreover have "i_id s \<notin> Ds" using sc(1) by simp
    ultimately have "external (set (map i_id [s])) V"
      using False by (auto simp: external_def in_scope_def split: val.splits)
    then have "val_name src V \<in> Vis" using vis(1) ext_names_in [of V "[s]" src] V by auto
    then show ?thesis
      using agreeD(5) [OF a u _ refl] m False by (simp add: operand_match_def)
  qed
  then have "refines_list (map \<rho>s (i_ops s)) (map \<rho>t (i_ops t))"
    using match by (auto simp: list_all2_conv_all_nth)
  moreover have "inst_fn t = inst_fn s" using same by (simp add: same_inst_def inst_fn_def)
  ultimately obtain v' where v': "inst_fn t (map \<rho>t (i_ops t)) = Some v'" "sv_implies v v'"
    using op_fn_mono v(1) unfolding inst_fn_def by metis
  have et: "eval_insts \<rho>t [t] = Some (\<rho>t(InstV (i_id t) := v'))" using v'(1) by simp
  have "agree src tgt (insert (i_name (last [s])) Vis) (Ds \<union> set (map i_id [s])) (Dt \<union> set (map i_id [t])) \<rho>s'
      (\<rho>t(InstV (i_id t) := v'))"
    by (rule agree_extend [OF a e sc(1) et sc(2)]) (use same vis(2) v v' in \<open>simp_all add: same_inst_def\<close>)
  then show ?thesis using et by auto
qed

section \<open>The parameters of a unit\<close>

lemma collect_ops_only:
  "collect_ops f internal Vs out = Some out' \<Longrightarrow> p \<in> set out' \<Longrightarrow>
     p \<in> set out \<or> (\<exists>V \<in> set Vs. external internal V \<and> p = (val_name f V, val_ty f V))"
proof (induction Vs arbitrary: out)
  case (Cons W Vs)
  consider "collect_ops f internal Vs out = Some out'"
    | "collect_ops f internal Vs (out @ [(val_name f W, val_ty f W)]) = Some out'" "external internal W"
    using Cons.prems(1) by (auto simp: external_def split: if_splits)
  then show ?case
  proof cases
    case 1
    then show ?thesis using Cons.IH [OF 1 Cons.prems(2)] by auto
  next
    case 2
    then show ?thesis using Cons.IH [OF 2(1) Cons.prems(2)] by auto
  qed
qed simp

definition reads_param :: "func \<Rightarrow> inst list \<Rightarrow> argument \<Rightarrow> bool" where
  "reads_param f Is a \<longleftrightarrow>
     (\<exists>V \<in> set (concat (map i_ops Is)). external (set (map i_id Is)) V \<and> val_name f V = arg_name a \<and> val_ty f V = arg_ty a)"

lemma reads_param_ext: "reads_param f Is a \<Longrightarrow> arg_name a \<in> ext_names f Is"
  unfolding reads_param_def by (elim bexE conjE) (drule ext_names_in [of _ Is f], assumption, simp)

lemma reads_param_ty:
  "reads_param f Is a \<Longrightarrow> unique_names f \<Longrightarrow> val_name f V = arg_name a \<Longrightarrow> arg_name a \<noteq> [] \<Longrightarrow> val_ty f V = arg_ty a"
  unfolding reads_param_def unique_names_def by (elim bexE conjE) (metis (no_types))

lemma unit_params:
  assumes "buildTvUnit L src tgt r nm = Some u" "a \<in> set (f_args (u_src u))"
  shows "reads_param src (unit_src_insts r) a \<or> reads_param tgt (unit_tgt_insts r) a"
proof -
  let ?ss = "unit_src_insts r" and ?ts = "unit_tgt_insts r"
  obtain se te params where s: "collectExternalOperands src ?ss (set (map i_id ?ss)) = Some se"
    and t: "collectExternalOperands tgt ?ts (set (map i_id ?ts)) = Some te"
    and un: "unionNamedOperands se te = Some params"
    and b: "buildHalf L src ?ss ''src'' params (set (map i_id ?ss)) = Some (u_src u)"
    using conjunct1 [OF buildTvUnit_lift [OF assms(1)]] by (auto simp: lift_pair_def Let_def split: option.splits)
  obtain p where p: "p \<in> set params" "arg_name a = fst p" "arg_ty a = snd p"
    using assms(2) unfolding buildHalf_args [OF b] by auto
  have "p \<in> set se \<or> p \<in> set te" using unionNamedOperands_ok [OF un] p(1) by auto
  then show ?thesis
    using collect_ops_only [OF s [unfolded collectExternalOperands_def], of p]
      collect_ops_only [OF t [unfolded collectExternalOperands_def], of p] p(2,3)
    unfolding reads_param_def by fastforce
qed

lemma check_positions_last: "check_positions ps \<Longrightarrow> ps \<noteq> [] \<Longrightarrow> i_ty (src_inst (last ps)) = i_ty (tgt_inst (last ps))"
  by (induction ps) (auto split: if_splits)

lemma unit_exit_types:
  "buildTvUnit L src tgt r nm = Some u \<Longrightarrow> i_ty (last (unit_src_insts r)) = i_ty (last (unit_tgt_insts r))"
  using check_positions_last [of "positions r"]
  by (auto simp: buildTvUnit_def buildAsymTvUnit_def unit_src_insts_def unit_tgt_insts_def Let_def last_map
      split: if_splits)

text \<open>The values the parents give to the parameters.\<close>

definition param_values :: "func \<Rightarrow> env \<Rightarrow> argument list \<Rightarrow> state_value list" where
  "param_values f \<rho> as = map (\<lambda>a. \<rho> (SOME V. val_name f V = arg_name a)) as"

lemma some_name: "unique_names f \<Longrightarrow> val_name f V \<noteq> [] \<Longrightarrow> (SOME W. val_name f W = val_name f V) = V"
  by (rule some_equality) (auto simp: unique_names_def)

lemma param_values_bind:
  assumes "unique_names f" "\<And>V. V \<in> set (concat (map i_ops Is)) \<Longrightarrow> external (set (map i_id Is)) V \<Longrightarrow> val_name f V \<noteq> []"
  shows "binds f Is h \<rho> (param_values f \<rho> (f_args h))"
  unfolding binds_def
proof (intro ballI allI impI)
  fix V i
  assume V: "V \<in> set (concat (map i_ops Is))" "external (set (map i_id Is)) V"
    and i: "param_index (map arg_name (f_args h)) (val_name f V) = Some i"
  have "i < length (f_args h)" "arg_name (f_args h ! i) = val_name f V"
    using param_index_nth [OF i] by auto
  then show "i < length (param_values f \<rho> (f_args h)) \<and> param_values f \<rho> (f_args h) ! i = \<rho> V"
    using some_name [OF assms(1) assms(2) [OF V]] by (simp add: param_values_def)
qed

lemma unit_params_visible:
  assumes u: "buildTvUnit L src tgt r nm = Some u" "a \<in> set (f_args (u_src u))"
    and vis: "ext_names src (unit_src_insts r) \<subseteq> Vis" "ext_names tgt (unit_tgt_insts r) \<subseteq> Vis"
    and ag: "agree src tgt Vis Ds Dt \<rho>s \<rho>t" and un: "unique_names src" "unique_names tgt"
  obtains V W where "val_name src V = arg_name a" "val_name tgt W = arg_name a" "in_scope src Ds V"
    "int_width (val_ty src V) = int_width (arg_ty a)" "sv_implies (\<rho>s V) (\<rho>t W)" "arg_name a \<noteq> []"
proof -
  have "arg_name a \<in> Vis"
    using unit_params [OF u] vis reads_param_ext by blast
  then obtain V W where *: "val_name src V = arg_name a" "val_name tgt W = arg_name a" "arg_name a \<noteq> []"
    "in_scope src Ds V" "val_ty src V = val_ty tgt W" "sv_implies (\<rho>s V) (\<rho>t W)"
    using ag unfolding agree_def by blast
  have "val_ty src V = arg_ty a"
    using unit_params [OF u] reads_param_ty [OF _ un(1) *(1,3)] reads_param_ty [OF _ un(2) *(2,3)] *(5) by auto
  then show thesis using that [OF *(1,2,4)] *(3,6) by simp
qed

lemma Diff_step:
  assumes ag: "agree src tgt Vis Ds Dt \<rho>s \<rho>t" and un: "unique_names src" "unique_names tgt"
    and c: "const_env \<rho>s" "const_env \<rho>t" and ty: "scope_typed src Ds \<rho>s"
    and u: "buildTvUnit L src tgt r nm = Some u" "func_refines (u_src u) (u_tgt u)"
    and sc: "scoped src Ds (unit_src_insts r)" "scoped tgt Dt (unit_tgt_insts r)"
    and vis: "ext_names src (unit_src_insts r) \<subseteq> Vis" "ext_names tgt (unit_tgt_insts r) \<subseteq> Vis"
    and ex: "i_name (last (unit_src_insts r)) \<noteq> []" "i_name (last (unit_src_insts r)) = i_name (last (unit_tgt_insts r))"
    and e: "eval_insts \<rho>s (unit_src_insts r) = Some \<rho>s'"
  shows "\<exists>\<rho>t'. eval_insts \<rho>t (unit_tgt_insts r) = Some \<rho>t' \<and>
    agree src tgt (insert (i_name (last (unit_src_insts r))) Vis) (Ds \<union> set (map i_id (unit_src_insts r)))
      (Dt \<union> set (map i_id (unit_tgt_insts r))) \<rho>s' \<rho>t'"
proof -
  let ?ss = "unit_src_insts r" and ?ts = "unit_tgt_insts r"
  let ?vs = "param_values src \<rho>s (f_args (u_src u))" and ?ws = "param_values tgt \<rho>t (f_args (u_tgt u))"
  have ne: "?ss \<noteq> []" "?ts \<noteq> []" using buildTvUnit_lift [OF u(1)] by auto
  have args: "f_args (u_tgt u) = f_args (u_src u)" using unit_interface_facts(1) [OF u(1)] by simp
  have per_arg: "wf_sv (int_width (arg_ty a)) (\<rho>s (SOME V. val_name src V = arg_name a)) \<and>
      sv_implies (\<rho>s (SOME V. val_name src V = arg_name a)) (\<rho>t (SOME V. val_name tgt V = arg_name a))"
    if "a \<in> set (f_args (u_src u))" for a
    by (rule unit_params_visible [OF u(1) that vis ag un])
      (use ty some_name [OF un(1)] some_name [OF un(2)] in \<open>metis scope_typed_def typed_def\<close>)
  have wf: "list_all2 (\<lambda>a x. wf_sv (int_width (arg_ty a)) x) (f_args (u_src u)) ?vs"
    using per_arg by (auto simp: param_values_def list_all2_conv_all_nth)
  have ref: "refines_list ?vs ?ws"
    using per_arg args by (auto simp: param_values_def list_all2_conv_all_nth)
  have bs: "binds src ?ss (u_src u) \<rho>s ?vs" "binds tgt ?ts (u_tgt u) \<rho>t ?ws"
    using unit_interface_facts(3,4) [OF u(1)] un by (auto intro!: param_values_bind simp: hasName_def)
  have "eval_func (u_src u) ?vs = Some (\<rho>s' (InstV (i_id (last ?ss))))"
    using unit_half_src [OF u(1) c(1) bs(1)] e by simp
  then obtain v' where v': "eval_func (u_tgt u) ?vs = Some v'" "sv_implies (\<rho>s' (InstV (i_id (last ?ss)))) v'"
    using u(2) wf unfolding func_refines_def by (metis list_all2_lengthD)
  obtain v'' where v'': "eval_func (u_tgt u) ?ws = Some v''" "sv_implies v' v''"
    using eval_func_mono [OF v'(1) ref] by blast
  obtain \<rho>t' where t: "eval_insts \<rho>t ?ts = Some \<rho>t'" "\<rho>t' (InstV (i_id (last ?ts))) = v''"
    using unit_half_tgt [OF u(1) c(2) bs(2)] v''(1) by (cases "eval_insts \<rho>t ?ts") simp_all
  have "agree src tgt (insert (i_name (last ?ss)) Vis) (Ds \<union> set (map i_id ?ss)) (Dt \<union> set (map i_id ?ts)) \<rho>s' \<rho>t'"
    by (rule agree_extend [OF ag e sc(1) t(1) sc(2) ne])
      (use ex unit_exit_types [OF u(1)] sv_implies_trans [OF v'(2) v''(2)] t(2) in simp_all)
  then show ?thesis using t(1) by blast
qed

section \<open>Composition\<close>

definition verified :: "llvm_api \<Rightarrow> func \<Rightarrow> func \<Rightarrow> diff_region \<Rightarrow> bool" where
  "verified L src tgt r \<longleftrightarrow> (\<exists>nm u. buildTvUnit L src tgt r nm = Some u \<and> func_refines (u_src u) (u_tgt u))"

lemma segments_refine:
  assumes un: "unique_names src" "unique_names tgt"
  shows "(\<And>s t. Same s t \<in> set segs \<Longrightarrow> same_inst src tgt s t) \<Longrightarrow> \<forall>r \<in> set (seg_regions segs). verified L src tgt r \<Longrightarrow>
    only_exits_read src tgt Vis segs \<Longrightarrow> scoped src Ds (concat (map seg_src segs)) \<Longrightarrow>
    scoped tgt Dt (concat (map seg_tgt segs)) \<Longrightarrow> agree src tgt Vis Ds Dt \<rho>s \<rho>t \<Longrightarrow>
    const_env \<rho>s \<Longrightarrow> const_env \<rho>t \<Longrightarrow> scope_typed src Ds \<rho>s \<Longrightarrow>
    eval_insts \<rho>s (concat (map seg_src segs)) = Some \<rho>s' \<Longrightarrow>
    \<exists>\<rho>t' Ds' Dt'. eval_insts \<rho>t (concat (map seg_tgt segs)) = Some \<rho>t' \<and>
      agree src tgt (visible Vis segs) Ds' Dt' \<rho>s' \<rho>t'"
proof (induction segs arbitrary: Vis Ds Dt \<rho>s \<rho>t)
  case (Cons seg segs)
  let ?rs = "concat (map seg_src segs)" and ?rt = "concat (map seg_tgt segs)"
  have sc: "scoped src Ds (seg_src seg)" "scoped src (Ds \<union> set (map i_id (seg_src seg))) ?rs"
    "scoped tgt Dt (seg_tgt seg)" "scoped tgt (Dt \<union> set (map i_id (seg_tgt seg))) ?rt"
    using Cons.prems(4,5) by (simp_all add: scoped_append)
  obtain \<rho>1 where e: "eval_insts \<rho>s (seg_src seg) = Some \<rho>1" "eval_insts \<rho>1 ?rs = Some \<rho>s'"
    using Cons.prems(10) by (auto simp: eval_append split: option.splits)
  have rest: "\<And>s t. Same s t \<in> set segs \<Longrightarrow> same_inst src tgt s t" "\<forall>r \<in> set (seg_regions segs). verified L src tgt r"
    using Cons.prems(1,2) by (simp, cases seg, simp_all)
  have ty: "scope_typed src (Ds \<union> set (map i_id (seg_src seg))) \<rho>1" by (rule eval_scoped [OF e(1) sc(1) Cons.prems(9)])
  have c1: "const_env \<rho>1" by (rule eval_const [OF e(1) Cons.prems(7)])
  obtain x where step: "\<exists>\<rho>2. eval_insts \<rho>t (seg_tgt seg) = Some \<rho>2 \<and>
      agree src tgt (insert x Vis) (Ds \<union> set (map i_id (seg_src seg))) (Dt \<union> set (map i_id (seg_tgt seg))) \<rho>1 \<rho>2"
    and vis: "only_exits_read src tgt (insert x Vis) segs" "visible Vis (seg # segs) = visible (insert x Vis) segs"
  proof (cases seg)
    case (Same s t)
    have "same_inst src tgt s t" using Cons.prems(1) Same by simp
    from Same_step [OF Cons.prems(6) un Cons.prems(7,8) this, of \<rho>1] show thesis
      by (intro that [of "i_name s"]) (use sc(1,3) e(1) Cons.prems(3) in \<open>simp_all add: Same\<close>)
  next
    case (DiffSeg r)
    obtain nm u where u: "buildTvUnit L src tgt r nm = Some u" "func_refines (u_src u) (u_tgt u)"
      using Cons.prems(2) DiffSeg by (auto simp: verified_def)
    have d: "ext_names src (unit_src_insts r) \<subseteq> Vis" "ext_names tgt (unit_tgt_insts r) \<subseteq> Vis"
      "i_name (last (unit_src_insts r)) \<noteq> []" "i_name (last (unit_src_insts r)) = i_name (last (unit_tgt_insts r))"
      "only_exits_read src tgt (insert (i_name (last (unit_src_insts r))) Vis) segs"
      using Cons.prems(3) unfolding DiffSeg only_exits_read.simps by blast+
    show thesis
      by (rule that [OF _ d(5)]; unfold DiffSeg seg_src.simps seg_tgt.simps)
        (rule Diff_step [OF Cons.prems(6) un Cons.prems(7,8,9) u
            sc(1,3) [unfolded DiffSeg seg_src.simps seg_tgt.simps] d(1-4) e(1) [unfolded DiffSeg seg_src.simps]],
          simp)
  qed
  obtain \<rho>2 where t: "eval_insts \<rho>t (seg_tgt seg) = Some \<rho>2"
    and ag: "agree src tgt (insert x Vis) (Ds \<union> set (map i_id (seg_src seg))) (Dt \<union> set (map i_id (seg_tgt seg))) \<rho>1 \<rho>2"
    using step by blast
  have c2: "const_env \<rho>2" by (rule eval_const [OF t Cons.prems(8)])
  from Cons.IH [OF rest vis(1) sc(2,4) ag c1 c2 ty e(2)] show ?case
    using t vis(2) by (auto simp: eval_append)
qed auto

text \<open>
  The pair of functions the composition theorem is about, with a cut \<open>segs\<close> of their bodies:
  single blocks \<open>ss\<close>, \<open>ts\<close> of well-typed integer instructions that end in a return, equal
  parameter lists, all values named; only the exits of regions are read outside them.
\<close>

definition composable ::
  "llvm_api \<Rightarrow> func \<Rightarrow> func \<Rightarrow> diff_result \<Rightarrow> inst list \<Rightarrow> inst \<Rightarrow> inst list \<Rightarrow> inst \<Rightarrow> segment list \<Rightarrow> bool" where
  "composable L src tgt d ss sret ts tret segs \<longleftrightarrow>
     f_blocks src = [ss @ [sret]] \<and> f_blocks tgt = [ts @ [tret]] \<and>
     list_all (\<lambda>I. \<not> isTerminator I) ss \<and> list_all (\<lambda>I. \<not> isTerminator I) ts \<and>
     isTerminator sret \<and> isTerminator tret \<and> length (i_ops sret) = 1 \<and>
     f_args src = f_args tgt \<and> list_all (\<lambda>a. arg_name a \<noteq> []) (f_args src) \<and>
     unique_names src \<and> unique_names tgt \<and> print_faithful L src tgt \<and>
     scoped src {} ss \<and> scoped tgt {} ts \<and>
     cuts (sameText L src tgt) segs ss ts (regions d) \<and>
     only_exits_read src tgt (set (map arg_name (f_args src))) segs \<and>
     (isConstant (hd (i_ops sret)) \<or>
      val_name src (hd (i_ops sret)) \<in> visible (set (map arg_name (f_args src))) segs)"

lemma body_of_block:
  "list_all (\<lambda>I. \<not> isTerminator I) ss \<Longrightarrow> isTerminator r \<Longrightarrow> body_insts (ss @ [r]) = ss \<and> getTerminator (ss @ [r]) = Some r"
  by (induction ss) (auto simp: body_insts_def getTerminator_def list_all_iff)

lemma agree_args:
  assumes "f_args src = f_args tgt" "list_all (\<lambda>a. arg_name a \<noteq> []) (f_args src)"
  shows "agree src tgt (set (map arg_name (f_args src))) {} {} (start_env args) (start_env args)"
  unfolding agree_def
proof (intro ballI conjI)
  fix x assume "x \<in> set (map arg_name (f_args src))"
  then obtain n where n: "n < length (f_args src)" "x = arg_name (f_args src ! n)"
    by (auto simp: in_set_conv_nth)
  show "x \<noteq> []" using n assms(2) by (simp add: list_all_length)
  show "\<exists>V W. val_name src V = x \<and> val_name tgt W = x \<and> in_scope src {} V \<and> in_scope tgt {} W \<and>
      val_ty src V = val_ty tgt W \<and> sv_implies (start_env args V) (start_env args W)"
    using n assms(1) by (intro exI [of _ "ArgV n"]) (simp add: val_name_def val_ty_def in_scope_def)
qed

lemma scope_typed_start:
  assumes "list_all2 (\<lambda>a x. wf_sv (int_width (arg_ty a)) x) (f_args f) args"
  shows "scope_typed f {} (start_env args)"
  using assms unfolding scope_typed_def in_scope_def typed_def
  by (auto simp: start_env_def val_ty_def int_width_def wf_sv_def sv_def list_all2_conv_all_nth split: val.splits)

lemma composition:
  assumes c: "composable L src tgt d ss sret ts tret segs" and d: "computeDiffRegions L src tgt = Some d"
    and v: "\<forall>r \<in> set (regions d). verified L src tgt r"
  shows "func_refines src tgt"
  unfolding func_refines_def
proof (intro allI impI)
  fix args v
  assume wf: "list_all2 (\<lambda>a x. wf_sv (int_width (arg_ty a)) x) (f_args src) args" and ev: "eval_func src args = Some v"
  note c = c [unfolded composable_def]
  have blocks: "f_blocks src = [ss @ [sret]]" "f_blocks tgt = [ts @ [tret]]" using c by blast+
  have body: "body_insts (ss @ [sret]) = ss" "getTerminator (ss @ [sret]) = Some sret"
    "body_insts (ts @ [tret]) = ts" "getTerminator (ts @ [tret]) = Some tret"
    using c body_of_block by blast+
  obtain V where V: "i_ops sret = [V]" using c by (auto simp: length_Suc_conv)
  have "sameText L src tgt sret tret"
    using d by (simp add: computeDiffRegions_def blocks body Let_def split: if_splits)
  moreover have all: "set (all_insts src) = insert sret (set ss)" "set (all_insts tgt) = insert tret (set ts)"
    by (auto simp: all_insts_def blocks)
  ultimately have term_same: "same_inst src tgt sret tret" using c unfolding print_faithful_def by blast
  then obtain W where W: "i_ops tret = [W]" "operand_match src tgt V W"
    using V by (auto simp: same_inst_def list_all2_Cons1)
  obtain \<rho>s' where e: "eval_insts (start_env args) ss = Some \<rho>s'" "v = \<rho>s' V"
    using ev by (auto simp: eval_func_def blocks V split: opcode.splits)
  have cut: "concat (map seg_src segs) = ss" "concat (map seg_tgt segs) = ts" "seg_regions segs = regions d"
    "list_all (seg_same (sameText L src tgt)) segs" using c unfolding cuts_def by blast+
  have same: "same_inst src tgt s t" if st: "Same s t \<in> set segs" for s t
  proof -
    have "s \<in> set ss" "t \<in> set ts" using st cut(1,2) by force+
    moreover have "sameText L src tgt s t" using st cut(4) by (auto simp: list_all_iff)
    ultimately show ?thesis using c all unfolding print_faithful_def by blast
  qed
  obtain \<rho>t' Ds' Dt' where t: "eval_insts (start_env args) ts = Some \<rho>t'"
    and ag: "agree src tgt (visible (set (map arg_name (f_args src))) segs) Ds' Dt' \<rho>s' \<rho>t'"
    using segments_refine [of src tgt segs L "set (map arg_name (f_args src))" "{}" "{}" "start_env args" "start_env args" \<rho>s']
      c cut same v agree_args const_env_start scope_typed_start [OF wf] e(1) by auto
  have "sv_implies (\<rho>s' V) (\<rho>t' W)"
  proof (cases "isConstant V")
    case True
    then show ?thesis using W(2) eval_const [OF e(1) const_env_start] eval_const [OF t const_env_start]
      by (simp add: operand_match_def const_env_def)
  next
    case False
    then have "val_name src V \<in> visible (set (map arg_name (f_args src))) segs" using c V by auto
    then show ?thesis
      using agreeD(5) [OF ag _ _ _ refl] c W(2) False by (auto simp: operand_match_def)
  qed
  moreover have "eval_func tgt args = Some (\<rho>t' W)"
    using c t W(1) by (auto simp: eval_func_def blocks isTerminator_def split: opcode.splits)
  ultimately show "\<exists>v'. eval_func tgt args = Some v' \<and> sv_implies v v'" using e(2) by blast
qed

section \<open>Properties\<close>

text \<open>
  C1 (refinement). When the composite verdict is sound. Suppose Alive2 is sound for refinement, the
  validator runs without the proposer and reports that the transformation is correct, and the
  pair is composable: single blocks of well-typed integer instructions, equal parameter lists,
  unique names, a printer that tells instructions apart, and regions of which only the exit,
  with the same name on both sides, is read outside. Then the target function refines the
  source function on all inputs.
\<close>

theorem validator_sound:
  assumes "alive_sound A func_refines" "alive_tv_next L A (\<lambda>_ _ _. None) src tgt = Some c" "c_passed c"
    "computeDiffRegions L src tgt = Some d" "composable L src tgt d ss sret ts tret segs"
  shows "func_refines src tgt"
proof (rule composition [OF assms(5,4)])
  obtain d' where "computeDiffRegions L src tgt = Some d'"
    "\<And>r. r \<in> set (regions d') \<Longrightarrow> \<exists>nm u. buildTvUnit L src tgt r nm = Some u \<and>
       passed (fst (verifyTvUnit A (\<lambda>_ _ _. None) u (Some (src, tgt))))"
    by (rule alive_tv_next_units [OF assms(2,3)]) blast
  then have "\<exists>nm u. buildTvUnit L src tgt r nm = Some u \<and>
       passed (fst (verifyTvUnit A (\<lambda>_ _ _. None) u (Some (src, tgt))))" if "r \<in> set (regions d)" for r
    using assms(4) that by simp
  then show "\<forall>r \<in> set (regions d). verified L src tgt r"
    unfolding verified_def using verifyTvUnit_passed runOnce_sound [OF assms(1)] by (metis option.distinct(1))
qed

text \<open>
  Every successful diff of two single blocks cuts their bodies into segments: in
  order, pairs of instructions with equal texts and the regions of the result, which together
  are exactly the two bodies.
\<close>

theorem diff_cuts_bodies:
  assumes "computeDiffRegions L src tgt = Some d" "f_blocks src = [sb]" "f_blocks tgt = [tb]"
  shows "\<exists>segs. concat (map seg_src segs) = body_insts sb \<and> concat (map seg_tgt segs) = body_insts tb \<and>
    seg_regions segs = regions d \<and> list_all (seg_same (sameText L src tgt)) segs"
  using diff_cuts [OF assms] unfolding cuts_def by blast

section \<open>Witnesses\<close>

definition dropped_region :: diff_region where
  "dropped_region = empty_region\<lparr>positions := [position 1 (demo_add 1 ''b'' True) (demo_add 1 ''b'' False)]\<rparr>"

definition dropped_result :: diff_result where
  "dropped_result = \<lparr>regions = [dropped_region], identical_count = 1\<rparr>"

lemma dropped_diff: "computeDiffRegions demo_api (demo_func True) (demo_func False) = Some dropped_result"
  by (simp add: computeDiffRegions_def demo_func_def demo_api_def dropped_result_def dropped_region_def demo_add_def
      demo_ret_def body_insts_def isTerminator_def getTerminator_def sameText_def instAsText_def
      isLikelyCommutativity_def getOperands_def isCall_def operandKey_def val_name_def isConstant_def sameOpcode_def flush_group_def
      position_def empty_region_def)

lemma dropped_build:
  "buildTvUnit demo_api (demo_func True) (demo_func False) dropped_region ''unit@2'' = Some dropped_unit"
  by (simp add: buildTvUnit_def dropped_region_def empty_region_def position_def demo_add_def isTerminator_def
      lift_pair_def collectExternalOperands_def isConstant_def hasName_def val_name_def val_ty_def
      demo_func_def unionNamedOperands_def buildHalf_def rewire_def demo_api_def dropped_unit_def demo_half_def
      Let_def)

lemma dropped_span: "region_span dropped_region = (1, 1, 1, 1)"
  by (simp add: region_span_def dropped_region_def empty_region_def position_def)

lemma dropped_passes:
  "\<exists>c. alive_tv_next demo_api demo_alive (\<lambda>_ _ _. None) (demo_func True) (demo_func False) = Some c \<and> c_passed c"
proof -
  have n: "length (filter (\<lambda>I. \<not> isTerminator I) (all_insts (demo_func True))) = 2"
    by (simp add: all_insts_def demo_func_def demo_add_def demo_ret_def isTerminator_def)
  have d: "nat_to_string (Suc (Suc 0)) = ''2''" by code_simp
  have l: "region_loop demo_api demo_alive (\<lambda>_ _ _. None) (demo_func True) (demo_func False) 2 [dropped_region] 0 0 =
      [runOnce demo_alive dropped_unit]"
    using dropped_build dropped_unit_passes d
    by (simp add: dropped_span flushIdentical.simps verifyTvUnit_def Let_def)
  show ?thesis unfolding alive_tv_next_def dropped_diff option.case n
    using dropped_unit_passes by (simp add: dropped_result_def l composeVerdicts_def del: region_loop.simps)
qed

lemma demo_find: "find_inst (demo_func b) n =
    (if n = 0 then Some (demo_add 0 ''a'' False) else if n = 1 then Some (demo_add 1 ''b'' b)
     else if n = 9 then Some demo_ret else None)"
  by (simp add: find_inst_def all_insts_def demo_func_def demo_add_def demo_ret_def)

lemma demo_unique: "unique_names (demo_func b)"
  unfolding unique_names_def val_name_def demo_find
  by (auto simp: demo_func_def demo_add_def demo_ret_def nth_Cons' split: val.splits if_splits)

lemma dropped_composable:
  "composable demo_api (demo_func True) (demo_func False) dropped_result
     [demo_add 0 ''a'' False, demo_add 1 ''b'' True] demo_ret
     [demo_add 0 ''a'' False, demo_add 1 ''b'' False] demo_ret
     [Same (demo_add 0 ''a'' False) (demo_add 0 ''a'' False), DiffSeg dropped_region]"
proof -
  have vn: "val_name (demo_func b) (InstV 0) = ''a''" "val_name (demo_func b) (InstV 1) = ''b''"
    "val_name (demo_func b) (ArgV 0) = ''x''" "val_name (demo_func b) (ArgV (Suc 0)) = ''y''"
    "val_ty (demo_func b) (InstV 0) = IntTy 8" "val_ty (demo_func b) (InstV 1) = IntTy 8"
    "val_ty (demo_func b) (ArgV 0) = IntTy 8" "val_ty (demo_func b) (ArgV (Suc 0)) = IntTy 8" for b
    by (simp_all add: val_name_def val_ty_def demo_find) (simp_all add: demo_func_def demo_add_def)
  have pf: "print_faithful demo_api (demo_func True) (demo_func False)"
    by (simp add: print_faithful_def all_insts_def demo_func_def demo_ret_def demo_add_def demo_api_def
        sameText_def instAsText_def same_inst_def operand_match_def isConstant_def binop_flags_of_def
        conv_flags_of_def val_name_def find_inst_def)
  have sc: "scoped (demo_func b) {} [demo_add 0 ''a'' False, demo_add 1 ''b'' b]" for b
    using vn by (simp add: demo_add_def in_scope_def demo_func_def pure_inst_def llvm_binop_def)
  have ex: "only_exits_read (demo_func True) (demo_func False) {''x'', ''y''}
      [Same (demo_add 0 ''a'' False) (demo_add 0 ''a'' False), DiffSeg dropped_region]"
    using vn by (simp add: ext_names_def demo_add_def external_def isConstant_def unit_src_insts_def unit_tgt_insts_def
        dropped_region_def empty_region_def position_def)
  have args: "f_args (demo_func b) = [\<lparr>arg_name = ''x'', arg_ty = IntTy 8\<rparr>, \<lparr>arg_name = ''y'', arg_ty = IntTy 8\<rparr>]" for b
    by (simp add: demo_func_def)
  have cut: "cuts (sameText demo_api (demo_func True) (demo_func False))
      [Same (demo_add 0 ''a'' False) (demo_add 0 ''a'' False), DiffSeg dropped_region]
      [demo_add 0 ''a'' False, demo_add 1 ''b'' True] [demo_add 0 ''a'' False, demo_add 1 ''b'' False] (regions dropped_result)"
    by (simp add: cuts_def dropped_result_def unit_src_insts_def unit_tgt_insts_def dropped_region_def empty_region_def
        position_def sameText_def instAsText_def demo_api_def)
  have vis: "''b'' \<in> visible {''x'', ''y''} [Same (demo_add 0 ''a'' False) (demo_add 0 ''a'' False), DiffSeg dropped_region]"
    by (simp add: unit_src_insts_def dropped_region_def empty_region_def position_def demo_add_def)
  have b: "f_blocks (demo_func b) = [[demo_add 0 ''a'' False, demo_add 1 ''b'' b] @ [demo_ret]]" for b
    by (simp add: demo_func_def)
  have r: "isTerminator demo_ret" "\<not> isTerminator (demo_add n nm b)" "i_ops demo_ret = [InstV 1]" for n nm b
    by (simp_all add: demo_ret_def demo_add_def isTerminator_def)
  show ?thesis unfolding composable_def args b
    using sc [of True] sc [of False] pf ex cut demo_unique vis vn(2) [of True]
    by (simp add: r del: scoped.simps only_exits_read.simps visible.simps)
qed

theorem validator_sound_witness: "func_refines (demo_func True) (demo_func False)"
  using dropped_passes validator_sound [OF demo_alive_sound _ _ dropped_diff dropped_composable] by blast

theorem diff_cuts_bodies_witness:
  "\<exists>segs. concat (map seg_src segs) = [demo_add 0 ''a'' False, demo_add 1 ''b'' True] \<and>
     concat (map seg_tgt segs) = [demo_add 0 ''a'' False, demo_add 1 ''b'' False] \<and> seg_regions segs = [dropped_region]"
proof -
  have "body_insts [demo_add 0 ''a'' False, demo_add 1 ''b'' b, demo_ret] = [demo_add 0 ''a'' False, demo_add 1 ''b'' b]" for b
    by (simp add: body_insts_def demo_add_def demo_ret_def isTerminator_def)
  moreover have b: "f_blocks (demo_func b) = [[demo_add 0 ''a'' False, demo_add 1 ''b'' b, demo_ret]]" for b
    by (simp add: demo_func_def)
  moreover have "regions dropped_result = [dropped_region]" by (simp add: dropped_result_def)
  ultimately show ?thesis using diff_cuts_bodies [OF dropped_diff b b] by (simp only:) blast
qed

end
