(* ===== verification/Gaps.thy ===== *)
theory Gaps
  imports Compose
begin

text \<open>
  Two pairs of functions that \<open>alive-tv-next\<close> accepts although the target does not refine the
  source, with an Alive2 that never errs: what the composition theorem asks of the pair beyond
  the verdict is not checked by the code.
\<close>

section \<open>The hypotheses of the composition theorem\<close>

text \<open>
  What \<^term>\<open>composable\<close> asks of a pair comes in three parts: well-formed functions with unique names whose
  instructions the printer tells apart, equal parameter lists, and regions of which only the exits are read
  outside them.
\<close>

definition well_formed_pair ::
  "llvm_api \<Rightarrow> func \<Rightarrow> func \<Rightarrow> diff_result \<Rightarrow> inst list \<Rightarrow> inst \<Rightarrow> inst list \<Rightarrow> inst \<Rightarrow> segment list \<Rightarrow> bool" where
  "well_formed_pair L src tgt d ss sret ts tret segs \<longleftrightarrow>
     f_blocks src = [ss @ [sret]] \<and> f_blocks tgt = [ts @ [tret]] \<and>
     list_all (\<lambda>I. \<not> isTerminator I) ss \<and> list_all (\<lambda>I. \<not> isTerminator I) ts \<and>
     isTerminator sret \<and> isTerminator tret \<and> length (i_ops sret) = 1 \<and>
     list_all (\<lambda>a. arg_name a \<noteq> []) (f_args src) \<and>
     unique_names src \<and> unique_names tgt \<and> print_faithful L src tgt \<and>
     scoped src {} ss \<and> scoped tgt {} ts \<and> cuts (sameText L src tgt) segs ss ts (regions d)"

definition exits_only :: "func \<Rightarrow> func \<Rightarrow> inst \<Rightarrow> segment list \<Rightarrow> bool" where
  "exits_only src tgt sret segs \<longleftrightarrow>
     only_exits_read src tgt (set (map arg_name (f_args src))) segs \<and>
     (isConstant (hd (i_ops sret)) \<or>
      val_name src (hd (i_ops sret)) \<in> visible (set (map arg_name (f_args src))) segs)"

lemma composable_parts:
  "composable L src tgt d ss sret ts tret segs \<longleftrightarrow>
     well_formed_pair L src tgt d ss sret ts tret segs \<and> f_args src = f_args tgt \<and> exits_only src tgt sret segs"
  unfolding composable_def well_formed_pair_def exits_only_def by blast

section \<open>A printer\<close>

text \<open>One-letter values and one-digit constants are enough for the two examples.\<close>

definition show_op :: "func \<Rightarrow> val \<Rightarrow> string" where
  "show_op f v = (case v of ConstInt c \<Rightarrow> [char_of (48 + nat (uval c))] | _ \<Rightarrow> CHR ''%'' # val_name f v)"

definition show_opcode :: "opcode \<Rightarrow> string" where
  "show_opcode oc = (case oc of OBin Add \<Rightarrow> ''add'' | OBin Sub \<Rightarrow> ''sub'' | OBin Mul \<Rightarrow> ''mul'' | OTerm t \<Rightarrow> t | _ \<Rightarrow> ''?'')"

definition text_api :: llvm_api where
  "text_api = \<lparr>print_inst = (\<lambda>f I. i_name I @ ''='' @ show_opcode (i_op I) @ concat (map (show_op f) (i_ops I))),
     print_operand = show_op \<lparr>f_name = [], f_args = [], f_blocks = []\<rparr>, unique_name = (\<lambda>ns n. n),
     const_fold = (\<lambda>_ _ _. None)\<rparr>"

definition i8_inst :: "nat \<Rightarrow> string \<Rightarrow> binop \<Rightarrow> val list \<Rightarrow> inst" where
  "i8_inst n nm bop ops = \<lparr>i_id = n, i_name = nm, i_op = OBin bop, i_ty = IntTy 8, i_ops = ops,
     i_nsw = False, i_nuw = False, i_exact = False, i_disjoint = False, i_nneg = False\<rparr>"

definition i8_arg :: "string \<Rightarrow> argument" where
  "i8_arg nm = \<lparr>arg_name = nm, arg_ty = IntTy 8\<rparr>"

lemma not_refines:
  "eval_func src args = Some v \<Longrightarrow> eval_func tgt args = Some w \<Longrightarrow>
     list_all2 (\<lambda>a x. wf_sv (int_width (arg_ty a)) x) (f_args src) args \<Longrightarrow> \<not> sv_implies v w \<Longrightarrow> \<not> func_refines src tgt"
  unfolding func_refines_def by (metis list_all2_lengthD option.inject)

section \<open>A value of a region that is read after it\<close>

text \<open>
  In both functions \<open>c = a + b\<close> is returned. The region is \<open>a\<close> and \<open>b\<close>; its exit \<open>b\<close> is \<open>x + x\<close>
  in the source and \<open>x * 2\<close> in the target, but \<open>a\<close> is \<open>x + 1\<close> in the source and \<open>x + 5\<close> in the target.
\<close>

definition leak_region_insts :: "bool \<Rightarrow> inst list" where
  "leak_region_insts s =
     [i8_inst 0 ''a'' Add [ArgV 0, ConstInt (mk 8 (if s then 1 else 5))],
      if s then i8_inst 1 ''b'' Add [ArgV 0, ArgV 0] else i8_inst 1 ''b'' Mul [ArgV 0, ConstInt (mk 8 2)]]"

definition leak_func :: "bool \<Rightarrow> func" where
  "leak_func s = \<lparr>f_name = ''f'', f_args = [i8_arg ''x''],
     f_blocks = [leak_region_insts s @ [i8_inst 2 ''c'' Add [InstV 0, InstV 1], ret_inst 3 (InstV 2)]]\<rparr>"

definition leak_half :: "bool \<Rightarrow> func" where
  "leak_half s = \<lparr>f_name = (if s then ''src'' else ''tgt''), f_args = [i8_arg ''x''],
     f_blocks = [leak_region_insts s @ [ret_inst 2 (InstV 1)]]\<rparr>"

definition leak_region :: diff_region where
  "leak_region = empty_region\<lparr>positions := map2 (\<lambda>i (s, t). position i s t) [0, 1]
     (zip (leak_region_insts True) (leak_region_insts False))\<rparr>"

definition leak_alive :: "func alive" where
  "leak_alive = \<lparr>llvm2alive_src = (\<lambda>f. if f = leak_half True then Some f else None),
     llvm2alive_tgt = (\<lambda>_ f. if f = leak_half False then Some f else None),
     print_alive = f_name, preprocess = id, has_typings = (\<lambda>_. True), transform_verify = (\<lambda>_. NoErrors)\<rparr>"

lemma leak_half_refines: "func_refines (leak_half True) (leak_half False)"
  unfolding func_refines_def
  by (auto simp: leak_half_def leak_region_insts_def i8_inst_def ret_inst_def eval_func_def inst_fn_def op_fn_def
      binop_defined_def binop_scalar_def binop_flags_of_def sv_implies_def sv_def start_env_def
      bvadd_def bvmul_def mk_def mult.commute split: prod.splits)

lemma leak_alive_sound: "alive_sound leak_alive func_refines"
  unfolding alive_sound_def by (auto simp: leak_alive_def leak_half_refines split: if_splits)

lemma leak_diff:
  "computeDiffRegions text_api (leak_func True) (leak_func False) = Some \<lparr>regions = [leak_region], identical_count = 1\<rparr>"
  by (simp add: computeDiffRegions_def leak_func_def leak_region_insts_def i8_inst_def i8_arg_def ret_inst_def text_api_def
      leak_region_def body_insts_def isTerminator_def getTerminator_def sameText_def instAsText_def show_op_def show_opcode_def
      isLikelyCommutativity_def getOperands_def isCall_def operandKey_def val_name_def isConstant_def sameOpcode_def flush_group_def
      position_def empty_region_def find_inst_def all_insts_def mk_def)

definition leak_unit :: "string \<Rightarrow> tv_unit" where
  "leak_unit nm = \<lparr>u_name = nm, u_src = leak_half True, u_tgt = leak_half False\<rparr>"

lemma leak_build: "buildTvUnit text_api (leak_func True) (leak_func False) leak_region nm = Some (leak_unit nm)"
  by (simp add: buildTvUnit_def leak_region_def leak_region_insts_def i8_inst_def i8_arg_def ret_inst_def
      empty_region_def position_def isTerminator_def lift_pair_def collectExternalOperands_def isConstant_def hasName_def
      val_name_def val_ty_def leak_func_def unionNamedOperands_def buildHalf_def rewire_def text_api_def leak_unit_def
      leak_half_def Let_def)

lemma leak_passes:
  "\<exists>c. alive_tv_next text_api leak_alive (\<lambda>_ _ _. None) (leak_func True) (leak_func False) = Some c \<and> c_passed c"
proof -
  have "passed (fst (verifyTvUnit leak_alive (\<lambda>_ _ _. None) (leak_unit nm) par))" for nm par
    by (simp add: verifyTvUnit_def runOnce_def leak_alive_def leak_unit_def leak_half_def Let_def fresh_verdict_def)
  then show ?thesis
    by (simp add: alive_tv_next_def leak_diff leak_build composeVerdicts_def compose_loop_result Let_def case_prod_beta)
qed

lemma leak_result:
  "eval_func (leak_func s) [sv (mk 8 0) True] = Some (sv (mk 8 (if s then 1 else 5)) True)"
  by (simp add: leak_func_def leak_region_insts_def i8_inst_def ret_inst_def eval_func_def inst_fn_def op_fn_def
      binop_defined_def binop_scalar_def binop_flags_of_def sv_def start_env_def bvadd_def bvmul_def mk_def)

lemma leak_wrong: "\<not> func_refines (leak_func True) (leak_func False)"
  by (rule not_refines [OF leak_result leak_result])
    (simp_all add: leak_func_def i8_arg_def int_width_def wf_sv_def wf_bv_def sv_def sv_implies_def mk_def)

lemma leak_printed: "print_faithful text_api (leak_func True) (leak_func False)"
  by (simp add: print_faithful_def all_insts_def leak_func_def leak_region_insts_def i8_inst_def i8_arg_def ret_inst_def
        text_api_def show_op_def show_opcode_def sameText_def instAsText_def same_inst_def operand_match_def isConstant_def
        binop_flags_of_def conv_flags_of_def val_name_def find_inst_def mk_def)

definition leak_segs :: "segment list" where
  "leak_segs = [DiffSeg leak_region, Same (i8_inst 2 ''c'' Add [InstV 0, InstV 1]) (i8_inst 2 ''c'' Add [InstV 0, InstV 1])]"

lemma leak_find: "find_inst (leak_func s) n =
    (if n = 0 then Some (leak_region_insts s ! 0) else if n = 1 then Some (leak_region_insts s ! 1)
     else if n = 2 then Some (i8_inst 2 ''c'' Add [InstV 0, InstV 1]) else if n = 3 then Some (ret_inst 3 (InstV 2)) else None)"
  by (simp add: find_inst_def all_insts_def leak_func_def leak_region_insts_def i8_inst_def ret_inst_def)

lemma leak_unique: "unique_names (leak_func s)"
  unfolding unique_names_def val_name_def leak_find
  by (auto simp: leak_func_def leak_region_insts_def i8_inst_def ret_inst_def i8_arg_def split: val.splits if_splits)

lemma leak_scoped: "scoped (leak_func s) {} (leak_region_insts s @ [i8_inst 2 ''c'' Add [InstV 0, InstV 1]])"
proof -
  have t: "val_ty (leak_func b) (InstV 0) = IntTy 8" "val_ty (leak_func b) (InstV (Suc 0)) = IntTy 8" "val_ty (leak_func b) (InstV 2) = IntTy 8" for b
    unfolding val_ty_def val.case leak_find by (simp_all add: leak_region_insts_def i8_inst_def)
  have n: "val_name (leak_func b) (InstV 0) = ''a''" "val_name (leak_func b) (InstV (Suc 0)) = ''b''" "val_name (leak_func b) (InstV 2) = ''c''" for b
    unfolding val_name_def val.case leak_find by (simp_all add: leak_region_insts_def i8_inst_def)
  have a: "val_ty (leak_func b) (ArgV 0) = IntTy 8" "f_args (leak_func b) \<noteq> []" "val_ty (leak_func b) (ConstInt (mk 8 c)) = IntTy 8" for b c
    by (simp_all add: val_ty_def leak_func_def i8_arg_def mk_def)
  show ?thesis
    by (cases s) (simp_all add: leak_region_insts_def i8_inst_def in_scope_def pure_inst_def llvm_binop_def t n a)
qed

lemma leak_well_formed:
  "well_formed_pair text_api (leak_func True) (leak_func False) \<lparr>regions = [leak_region], identical_count = 1\<rparr>
     (leak_region_insts True @ [i8_inst 2 ''c'' Add [InstV 0, InstV 1]]) (ret_inst 3 (InstV 2))
     (leak_region_insts False @ [i8_inst 2 ''c'' Add [InstV 0, InstV 1]]) (ret_inst 3 (InstV 2)) leak_segs"
proof -
  have b: "f_blocks (leak_func s) = [(leak_region_insts s @ [i8_inst 2 ''c'' Add [InstV 0, InstV 1]]) @ [ret_inst 3 (InstV 2)]]" for s
    by (simp add: leak_func_def)
  have "list_all (\<lambda>I. \<not> isTerminator I) (leak_region_insts s @ [i8_inst 2 ''c'' Add [InstV 0, InstV 1]])" for s
    by (simp add: leak_region_insts_def i8_inst_def isTerminator_def)
  moreover have "isTerminator (ret_inst 3 (InstV 2))" "i_ops (ret_inst 3 (InstV 2)) = [InstV 2]" by (simp_all add: ret_inst_def isTerminator_def)
  moreover have "sameText text_api (leak_func True) (leak_func False) (i8_inst 2 ''c'' Add [InstV 0, InstV 1]) (i8_inst 2 ''c'' Add [InstV 0, InstV 1])"
    by (simp add: sameText_def instAsText_def text_api_def show_op_def show_opcode_def val_name_def leak_find)
      (simp add: i8_inst_def leak_region_insts_def show_op_def val_name_def leak_find)
  then have "cuts (sameText text_api (leak_func True) (leak_func False)) leak_segs
      (leak_region_insts True @ [i8_inst 2 ''c'' Add [InstV 0, InstV 1]]) (leak_region_insts False @ [i8_inst 2 ''c'' Add [InstV 0, InstV 1]]) [leak_region]"
    by (simp add: cuts_def leak_segs_def unit_src_insts_def unit_tgt_insts_def leak_region_def leak_region_insts_def empty_region_def position_def)
  moreover have "list_all (\<lambda>a. arg_name a \<noteq> []) (f_args (leak_func True))" by (simp add: leak_func_def i8_arg_def)
  ultimately show ?thesis unfolding well_formed_pair_def b using leak_unique leak_scoped leak_printed by simp
qed

text \<open>
  C33 (safety, a gap). The live-out values of a region are not checked. With an Alive2 that is
  sound for refinement the validator accepts a well-formed pair of functions with unique names and equal parameter lists
  whose target does not refine the source: everything the composition theorem asks holds but that only exits are read
  outside their regions, and indeed the instruction after a region reads a value of the region that is not its exit.
\<close>

theorem live_out_unchecked:
  "\<exists>L A src tgt d c ss sret ts tret segs. alive_sound (A :: func alive) func_refines \<and>
     well_formed_pair L src tgt d ss sret ts tret segs \<and> f_args src = f_args tgt \<and> computeDiffRegions L src tgt = Some d \<and>
     (\<exists>r s t I. segs = [DiffSeg r, Same s t] \<and> I \<in> set (butlast (unit_src_insts r)) \<and> InstV (i_id I) \<in> set (i_ops s)) \<and>
     alive_tv_next L A (\<lambda>_ _ _. None) src tgt = Some c \<and> c_passed c \<and> \<not> func_refines src tgt"
proof -
  obtain c where c: "alive_tv_next text_api leak_alive (\<lambda>_ _ _. None) (leak_func True) (leak_func False) = Some c" "c_passed c"
    using leak_passes by blast
  have a: "f_args (leak_func True) = f_args (leak_func False)" by (simp add: leak_func_def)
  have "\<exists>r s t I. leak_segs = [DiffSeg r, Same s t] \<and> I \<in> set (butlast (unit_src_insts r)) \<and> InstV (i_id I) \<in> set (i_ops s)"
    unfolding leak_segs_def
    by (intro exI conjI, rule refl) (auto simp: unit_src_insts_def leak_region_def leak_region_insts_def empty_region_def position_def i8_inst_def)
  then show ?thesis using leak_alive_sound leak_well_formed a leak_diff c leak_wrong by blast
qed

section \<open>Parameters in another order\<close>

definition swap_func :: "bool \<Rightarrow> func" where
  "swap_func s = \<lparr>f_name = ''f'', f_args = (if s then [i8_arg ''x'', i8_arg ''y''] else [i8_arg ''y'', i8_arg ''x'']),
     f_blocks = [[i8_inst 0 ''a'' Sub (if s then [ArgV 0, ArgV 1] else [ArgV 1, ArgV 0]), ret_inst 1 (InstV 0)]]\<rparr>"

lemma swap_diff: "computeDiffRegions text_api (swap_func True) (swap_func False) = Some \<lparr>regions = [], identical_count = 1\<rparr>"
  by (simp add: computeDiffRegions_def swap_func_def i8_inst_def i8_arg_def ret_inst_def text_api_def
      body_insts_def isTerminator_def getTerminator_def sameText_def instAsText_def show_op_def show_opcode_def
      val_name_def flush_group_def find_inst_def all_insts_def)

lemma swap_passes: "\<exists>c. alive_tv_next text_api A propose (swap_func True) (swap_func False) = Some c \<and> c_passed c"
  by (simp add: alive_tv_next_def swap_diff composeVerdicts_def)

lemma swap_result:
  "eval_func (swap_func s) [sv (mk 8 7) True, sv (mk 8 3) True] = Some (sv (mk 8 (if s then 4 else 252)) True)"
  by (simp add: swap_func_def i8_inst_def ret_inst_def eval_func_def inst_fn_def op_fn_def
      binop_defined_def binop_scalar_def binop_flags_of_def sv_def start_env_def bvsub_def mk_def)

lemma swap_wrong: "\<not> func_refines (swap_func True) (swap_func False)"
  by (rule not_refines [OF swap_result swap_result])
    (simp_all add: swap_func_def i8_arg_def int_width_def wf_sv_def wf_bv_def sv_def sv_implies_def mk_def)

lemma swap_printed: "print_faithful text_api (swap_func True) (swap_func False)"
  by (simp add: print_faithful_def all_insts_def swap_func_def i8_inst_def i8_arg_def ret_inst_def
        text_api_def show_op_def show_opcode_def sameText_def instAsText_def same_inst_def operand_match_def isConstant_def
        binop_flags_of_def conv_flags_of_def val_name_def find_inst_def)

lemma swap_find: "find_inst (swap_func s) n =
    (if n = 0 then Some (i8_inst 0 ''a'' Sub (if s then [ArgV 0, ArgV 1] else [ArgV 1, ArgV 0]))
     else if n = 1 then Some (ret_inst 1 (InstV 0)) else None)"
  by (simp add: find_inst_def all_insts_def swap_func_def i8_inst_def ret_inst_def)

definition swap_body :: "bool \<Rightarrow> inst" where
  "swap_body s = i8_inst 0 ''a'' Sub (if s then [ArgV 0, ArgV 1] else [ArgV 1, ArgV 0])"

lemma swap_unique: "unique_names (swap_func s)"
  unfolding unique_names_def val_name_def swap_find
  by (auto simp: swap_func_def i8_inst_def ret_inst_def i8_arg_def nth_Cons' split: val.splits if_splits)

lemma swap_names: "val_name (swap_func s) (ArgV 0) = (if s then ''x'' else ''y'')" "val_name (swap_func s) (ArgV (Suc 0)) = (if s then ''y'' else ''x'')"
  "val_name (swap_func s) (InstV 0) = ''a''"
  by (simp_all add: val_name_def swap_find) (simp_all add: swap_func_def i8_arg_def i8_inst_def)

lemma swap_scoped: "scoped (swap_func s) {} [swap_body s]"
proof -
  have "val_ty (swap_func s) (ArgV 0) = IntTy 8" "val_ty (swap_func s) (ArgV (Suc 0)) = IntTy 8" "length (f_args (swap_func s)) = 2"
    "val_ty (swap_func s) (InstV 0) = IntTy 8"
    by (simp_all add: val_ty_def swap_find) (simp_all add: swap_func_def i8_arg_def i8_inst_def)
  then show ?thesis using swap_names [of s]
    by (cases s) (simp_all add: swap_body_def i8_inst_def in_scope_def pure_inst_def llvm_binop_def)
qed

lemma swap_well_formed:
  "well_formed_pair text_api (swap_func True) (swap_func False) \<lparr>regions = [], identical_count = 1\<rparr>
     [swap_body True] (ret_inst 1 (InstV 0)) [swap_body False] (ret_inst 1 (InstV 0)) [Same (swap_body True) (swap_body False)]"
proof -
  have b: "f_blocks (swap_func s) = [[swap_body s] @ [ret_inst 1 (InstV 0)]]" for s by (simp add: swap_func_def swap_body_def)
  have "\<not> isTerminator (swap_body s)" "isTerminator (ret_inst 1 (InstV 0))" "i_ops (ret_inst 1 (InstV 0)) = [InstV 0]" for s
    by (simp_all add: swap_body_def i8_inst_def ret_inst_def isTerminator_def)
  moreover have "sameText text_api (swap_func True) (swap_func False) (swap_body True) (swap_body False)"
    by (simp add: sameText_def instAsText_def text_api_def show_op_def show_opcode_def swap_names swap_body_def i8_inst_def)
  then have "cuts (sameText text_api (swap_func True) (swap_func False)) [Same (swap_body True) (swap_body False)] [swap_body True] [swap_body False] []"
    by (simp add: cuts_def)
  moreover have "list_all (\<lambda>a. arg_name a \<noteq> []) (f_args (swap_func True))" by (simp add: swap_func_def i8_arg_def)
  ultimately show ?thesis unfolding well_formed_pair_def b using swap_unique swap_scoped swap_printed by simp
qed

lemma swap_exits: "exits_only (swap_func True) (swap_func False) (ret_inst 1 (InstV 0)) [Same (swap_body True) (swap_body False)]"
proof -
  have a: "set (map arg_name (f_args (swap_func True))) = {''x'', ''y''}" by (simp add: swap_func_def i8_arg_def)
  show ?thesis unfolding exits_only_def a using swap_names [of True]
    by (simp add: ext_names_def external_def isConstant_def swap_body_def i8_inst_def ret_inst_def)
qed

text \<open>
  C34 (safety, a gap). The parameters of the two functions are matched by name inside a unit and
  never compared: a well-formed pair with unique names, of which only exits are read outside regions, and whose parameters
  are the same but for their order, is accepted without any query, whatever Alive2 answers, although the target
  does not refine the source. Equality of the parameter lists is the one hypothesis of the composition theorem that fails.
\<close>

theorem parameter_order_unchecked:
  "\<exists>L src tgt d ss sret ts tret segs. well_formed_pair L src tgt d ss sret ts tret segs \<and> exits_only src tgt sret segs \<and>
     computeDiffRegions L src tgt = Some d \<and>
     mset (f_args src) = mset (f_args tgt) \<and> map arg_ty (f_args src) = map arg_ty (f_args tgt) \<and> f_args src \<noteq> f_args tgt \<and>
     (\<forall>A propose. \<exists>c. alive_tv_next L (A :: func alive) propose src tgt = Some c \<and> c_passed c) \<and>
     \<not> func_refines src tgt"
proof -
  have "mset (f_args (swap_func True)) = mset (f_args (swap_func False))" "map arg_ty (f_args (swap_func True)) = map arg_ty (f_args (swap_func False))"
    "f_args (swap_func True) \<noteq> f_args (swap_func False)"
    by (simp_all add: swap_func_def i8_arg_def)
  then show ?thesis using swap_well_formed swap_exits swap_diff swap_passes swap_wrong by blast
qed

end
