(* ===== verification/Range.thy ===== *)
theory Range
  imports Llvm
begin

text \<open>
  The range and known-bits analysis of \<open>tv-next/range.cpp\<close>, one definition per branch of
  \<open>transfer\<close>. \<open>llvm::APInt\<close> values are bit-vectors of their width. The transfer functions of
  \<open>llvm::KnownBits\<close> and \<open>llvm::ConstantRange\<close> belong to LLVM: they are the fields of
  \<open>kb_ops\<close>, and \<open>sound_kb\<close> is what LLVM documents of them (each result describes every value
  the operation can produce from described operands).
\<close>

section \<open>Domain\<close>

datatype known_bits = KB (Zero: bv) (One: bv)

record kb_ops =
  kb_unknown :: "nat \<Rightarrow> known_bits"
  kb_makeConstant :: "bv \<Rightarrow> known_bits"
  kb_isUnknown :: "known_bits \<Rightarrow> bool"
  kb_and :: "known_bits \<Rightarrow> known_bits \<Rightarrow> known_bits"
  kb_or :: "known_bits \<Rightarrow> known_bits \<Rightarrow> known_bits"
  kb_xor :: "known_bits \<Rightarrow> known_bits \<Rightarrow> known_bits"
  kb_intersectWith :: "known_bits \<Rightarrow> known_bits \<Rightarrow> known_bits"
  kb_urem :: "known_bits \<Rightarrow> known_bits \<Rightarrow> known_bits"
  kb_udiv :: "known_bits \<Rightarrow> known_bits \<Rightarrow> known_bits"
  kb_lshr :: "known_bits \<Rightarrow> known_bits \<Rightarrow> known_bits"
  kb_ashr :: "known_bits \<Rightarrow> known_bits \<Rightarrow> known_bits"
  kb_mul :: "known_bits \<Rightarrow> known_bits \<Rightarrow> known_bits"
  kb_shl :: "known_bits \<Rightarrow> known_bits \<Rightarrow> bool \<Rightarrow> bool \<Rightarrow> known_bits"
  kb_computeForAddSub :: "bool \<Rightarrow> bool \<Rightarrow> bool \<Rightarrow> known_bits \<Rightarrow> known_bits \<Rightarrow> known_bits"
  kb_zext :: "known_bits \<Rightarrow> nat \<Rightarrow> known_bits"
  kb_sext :: "known_bits \<Rightarrow> nat \<Rightarrow> known_bits"
  kb_trunc :: "known_bits \<Rightarrow> nat \<Rightarrow> known_bits"
  cr_toKnownBits :: "bv \<Rightarrow> bv \<Rightarrow> known_bits"

record known_range =
  kr_u :: "(bv \<times> bv) option"
  kr_s :: "(bv \<times> bv) option"
  kr_bits :: "known_bits option"
  undef_free :: bool
  poison_free :: bool

definition empty_range :: known_range where
  "empty_range = \<lparr>kr_u = None, kr_s = None, kr_bits = None, undef_free = False, poison_free = False\<rparr>"

definition well_defined :: "known_range \<Rightarrow> bool" where
  "well_defined r \<longleftrightarrow> undef_free r \<and> poison_free r"

type_synonym range_map = "val \<Rightarrow> known_range option"

section \<open>Helpers\<close>

definition apint_lshr :: "bv \<Rightarrow> nat \<Rightarrow> bv" where "apint_lshr x k = mk (bits x) (drop_bit k (uval x))"
definition apint_ashr :: "bv \<Rightarrow> nat \<Rightarrow> bv" where "apint_ashr x k = mk (bits x) (drop_bit k (sval x))"
definition apint_shl :: "bv \<Rightarrow> nat \<Rightarrow> bv" where "apint_shl x k = mk (bits x) (push_bit k (uval x))"
definition apint_inc :: "bv \<Rightarrow> bv" where "apint_inc x = bvadd x (mk (bits x) 1)"
definition apint_dec :: "bv \<Rightarrow> bv" where "apint_dec x = bvsub x (mk (bits x) 1)"

fun activeBits :: "nat \<Rightarrow> int \<Rightarrow> nat" where
  "activeBits 0 n = 0"
| "activeBits (Suc k) n = (if bit n k then Suc k else activeBits k n)"

definition getActiveBits :: "bv \<Rightarrow> nat" where "getActiveBits x = activeBits (bits x) (uval x)"

definition getLowBitsSet :: "nat \<Rightarrow> nat \<Rightarrow> bv" where "getLowBitsSet w k = mk w (2 ^ k - 1)"

definition crossDerive :: "known_range \<Rightarrow> known_range" where
  "crossDerive r0 =
     (let r1 = (case kr_u r0 of
                  Some (lo, hi) \<Rightarrow> if kr_s r0 = None \<and> \<not> isNegative hi then r0\<lparr>kr_s := kr_u r0\<rparr> else r0
                | None \<Rightarrow> r0)
      in case kr_s r1 of
           Some (lo, hi) \<Rightarrow> if kr_u r1 = None \<and> \<not> isNegative lo then r1\<lparr>kr_u := kr_s r1\<rparr> else r1
         | None \<Rightarrow> r1)"

definition knownBitsOf :: "kb_ops \<Rightarrow> (val \<Rightarrow> ty) \<Rightarrow> val \<Rightarrow> range_map \<Rightarrow> known_bits" where
  "knownBitsOf K tyof V m =
     (case V of
        ConstInt c \<Rightarrow> kb_makeConstant K c
      | _ \<Rightarrow> (case m V of
                Some r \<Rightarrow> (case kr_bits r of Some b \<Rightarrow> b | None \<Rightarrow> kb_unknown K (int_width (tyof V)))
              | None \<Rightarrow> kb_unknown K (int_width (tyof V))))"

definition kb_join :: "known_bits \<Rightarrow> known_bits \<Rightarrow> known_bits" where
  "kb_join a b = KB (bvor (Zero a) (Zero b)) (bvor (One a) (One b))"

definition deriveBitsFromIntervals :: "kb_ops \<Rightarrow> known_range \<Rightarrow> nat \<Rightarrow> known_range" where
  "deriveBitsFromIntervals K r bw =
     (if bw = 0 then r
      else
        let acc0 = (case kr_bits r of Some b \<Rightarrow> b | None \<Rightarrow> kb_unknown K bw);
            acc1 = (case kr_u r of
                      Some (lo, hi) \<Rightarrow>
                        if bvule lo hi then kb_join acc0 (cr_toKnownBits K lo (apint_inc hi)) else acc0
                    | None \<Rightarrow> acc0);
            acc2 = (case kr_s r of
                      Some (lo, hi0) \<Rightarrow>
                        if bvsle lo hi0 then
                          let hi = apint_inc hi0
                          in if bvule lo hi then kb_join acc1 (cr_toKnownBits K lo hi) else acc1
                        else acc1
                    | None \<Rightarrow> acc1)
        in if \<not> kb_isUnknown K acc2 then r\<lparr>kr_bits := Some acc2\<rparr> else r)"

definition rangeOf :: "kb_ops \<Rightarrow> val \<Rightarrow> range_map \<Rightarrow> known_range option" where
  "rangeOf K V m =
     (case m V of
        Some r \<Rightarrow> Some r
      | None \<Rightarrow>
          (case V of
             ConstInt c \<Rightarrow> Some \<lparr>kr_u = Some (c, c), kr_s = Some (c, c),
                              kr_bits = Some (kb_makeConstant K c),
                              undef_free = True, poison_free = True\<rparr>
           | _ \<Rightarrow> None))"

definition shiftInRange :: "val \<Rightarrow> nat \<Rightarrow> known_range option \<Rightarrow> bool \<times> nat" where
  "shiftInRange amt_op bw rR =
     (case amt_op of
        ConstInt c \<Rightarrow> let sh = min (nat (uval c)) bw in (sh < bw, sh)
      | _ \<Rightarrow>
          (case rR of
             Some r \<Rightarrow> (case kr_u r of
                          Some (lo, hi) \<Rightarrow> if uval hi < int bw then (True, bw) else (False, bw)
                        | None \<Rightarrow> (False, bw))
           | None \<Rightarrow> (False, bw)))"

text \<open>\<open>(lR && lR->flag) && (rR && rR->flag)\<close>.\<close>

definition both :: "(known_range \<Rightarrow> bool) \<Rightarrow> known_range option \<Rightarrow> known_range option \<Rightarrow> bool" where
  "both p l r \<longleftrightarrow> (\<exists>a. l = Some a \<and> p a) \<and> (\<exists>b. r = Some b \<and> p b)"

lemma both_code [code]:
  "both p l r = (case (l, r) of (Some a, Some b) \<Rightarrow> p a \<and> p b | _ \<Rightarrow> False)"
  by (auto simp: both_def split: option.splits)

definition u_of :: "known_range option \<Rightarrow> (bv \<times> bv) option" where
  "u_of r = (case r of Some x \<Rightarrow> kr_u x | None \<Rightarrow> None)"

definition s_of :: "known_range option \<Rightarrow> (bv \<times> bv) option" where
  "s_of r = (case r of Some x \<Rightarrow> kr_s x | None \<Rightarrow> None)"

definition kb_opt_unknown :: "kb_ops \<Rightarrow> known_range \<Rightarrow> bool" where
  "kb_opt_unknown K r = (case kr_bits r of None \<Rightarrow> True | Some b \<Rightarrow> kb_isUnknown K b)"

text \<open>The common tail of every branch: cross-derive, then tighten the bits.\<close>

definition finish :: "kb_ops \<Rightarrow> nat \<Rightarrow> known_range \<Rightarrow> known_range option" where
  "finish K bw r = Some (deriveBitsFromIntervals K (crossDerive r) bw)"

text \<open>The range the validator seeds every integer argument with: the whole type, well-defined.\<close>

definition seed_range :: "nat \<Rightarrow> known_range" where
  "seed_range bw = \<lparr>kr_u = Some (mk bw 0, mk bw (- 1)), kr_s = Some (mk bw (2 ^ (bw - 1)), mk bw (2 ^ (bw - 1) - 1)),
     kr_bits = None, undef_free = True, poison_free = True\<rparr>"

section \<open>Transfer functions\<close>

text \<open>Every branch takes the LLVM functions \<open>K\<close>, the types of values, the operands and the map
  computed so far. \<open>lR\<close> and \<open>rR\<close> are what \<open>rangeOf\<close> gives for the operands.\<close>

definition transfer_select ::
  "kb_ops \<Rightarrow> (val \<Rightarrow> ty) \<Rightarrow> nat \<Rightarrow> val \<Rightarrow> val \<Rightarrow> val \<Rightarrow> range_map \<Rightarrow> known_range option" where
  "transfer_select K tyof bw c t f m =
     (let condR = rangeOf K c m; trueR = rangeOf K t m; falseR = rangeOf K f m in
      if trueR = None \<and> falseR = None then None
      else
        let u = (case (u_of trueR, u_of falseR) of
                   (Some (tlo, thi), Some (flo, fhi)) \<Rightarrow>
                     Some (if bvult tlo flo then tlo else flo, if bvult fhi thi then thi else fhi)
                 | _ \<Rightarrow> None);
            s = (case (s_of trueR, s_of falseR) of
                   (Some (tlo, thi), Some (flo, fhi)) \<Rightarrow>
                     Some (if bvslt tlo flo then tlo else flo, if bvslt fhi thi then thi else fhi)
                 | _ \<Rightarrow> None);
            b = kb_intersectWith K (knownBitsOf K tyof t m) (knownBitsOf K tyof f m)
        in if u = None \<and> s = None \<and> kb_isUnknown K b then None
           else finish K bw
             \<lparr>kr_u = u, kr_s = s, kr_bits = Some b,
              undef_free = both undef_free condR trueR \<and> both undef_free condR falseR,
              poison_free = both poison_free condR trueR \<and> both poison_free condR falseR\<rparr>)"

definition transfer_freeze :: "kb_ops \<Rightarrow> nat \<Rightarrow> val \<Rightarrow> range_map \<Rightarrow> known_range option" where
  "transfer_freeze K bw a m =
     (let srcR = rangeOf K a m;
          r = (case srcR of
                 Some x \<Rightarrow> \<lparr>kr_u = kr_u x, kr_s = kr_s x, kr_bits = kr_bits x,
                            undef_free = True, poison_free = True\<rparr>
               | None \<Rightarrow> empty_range\<lparr>undef_free := True, poison_free := True\<rparr>)
      in Some (deriveBitsFromIntervals K r bw))"

definition transfer_and ::
  "kb_ops \<Rightarrow> nat \<Rightarrow> known_range option \<Rightarrow> known_range option \<Rightarrow> known_bits \<Rightarrow> known_bits
   \<Rightarrow> known_range option" where
  "transfer_and K bw lR rR lb rb =
     (let tryConst = (\<lambda>cR. case u_of cR of
                         Some (lo, hi) \<Rightarrow> if \<not> isNegative hi then Some (mk bw 0, hi) else None
                       | None \<Rightarrow> None);
          u1 = tryConst rR;
          u2 = (if u1 = None then tryConst lR else u1);
          u3 = (if u2 = None then
                  (case (u_of lR, u_of rR) of
                     (Some (_, lhi), Some (_, rhi)) \<Rightarrow>
                       Some (mk bw 0, if bvult lhi rhi then lhi else rhi)
                   | _ \<Rightarrow> None)
                else u2);
          b = kb_and K lb rb
      in if u3 = None \<and> kb_isUnknown K b then None
         else finish K bw \<lparr>kr_u = u3, kr_s = None, kr_bits = Some b,
                undef_free = both undef_free lR rR, poison_free = both poison_free lR rR\<rparr>)"

definition transfer_or ::
  "kb_ops \<Rightarrow> nat \<Rightarrow> known_range option \<Rightarrow> known_range option \<Rightarrow> known_bits \<Rightarrow> known_bits
   \<Rightarrow> known_range option" where
  "transfer_or K bw lR rR lb rb =
     (let u = (case (u_of lR, u_of rR) of
                 (Some (llo, lhi), Some (rlo, rhi)) \<Rightarrow>
                   let lo = (if bvult rlo llo then llo else rlo);
                       maxBits = max (getActiveBits lhi) (getActiveBits rhi);
                       hi = (if maxBits = 0 then mk bw 0 else getLowBitsSet bw maxBits)
                   in Some (lo, hi)
               | _ \<Rightarrow> None);
          b = kb_or K lb rb
      in if u = None \<and> kb_isUnknown K b then None
         else finish K bw \<lparr>kr_u = u, kr_s = None, kr_bits = Some b,
                undef_free = both undef_free lR rR, poison_free = both poison_free lR rR\<rparr>)"

definition transfer_xor ::
  "kb_ops \<Rightarrow> nat \<Rightarrow> known_range option \<Rightarrow> known_range option \<Rightarrow> known_bits \<Rightarrow> known_bits
   \<Rightarrow> known_range option" where
  "transfer_xor K bw lR rR lb rb =
     (let b = kb_xor K lb rb
      in if kb_isUnknown K b then None
         else Some (deriveBitsFromIntervals K
                \<lparr>kr_u = None, kr_s = None, kr_bits = Some b,
                 undef_free = both undef_free lR rR, poison_free = both poison_free lR rR\<rparr> bw))"

definition transfer_urem ::
  "kb_ops \<Rightarrow> nat \<Rightarrow> known_range option \<Rightarrow> known_range option \<Rightarrow> known_bits \<Rightarrow> known_bits
   \<Rightarrow> known_range option" where
  "transfer_urem K bw lR rR lb rb =
     (case u_of rR of
        None \<Rightarrow> None
      | Some (rlo, rhi) \<Rightarrow>
          if uval rlo = 0 then None
          else finish K bw
            \<lparr>kr_u = Some (mk bw 0, apint_dec rhi), kr_s = None, kr_bits = Some (kb_urem K lb rb),
             undef_free = both undef_free lR rR, poison_free = both poison_free lR rR\<rparr>)"

definition transfer_udiv ::
  "kb_ops \<Rightarrow> nat \<Rightarrow> known_range option \<Rightarrow> known_range option \<Rightarrow> known_bits \<Rightarrow> known_bits
   \<Rightarrow> known_range option" where
  "transfer_udiv K bw lR rR lb rb =
     (case (u_of lR, u_of rR) of
        (Some (llo, lhi), Some (rlo, rhi)) \<Rightarrow>
          if uval rlo = 0 then None
          else finish K bw
            \<lparr>kr_u = Some (bvudiv llo rhi, bvudiv lhi rlo), kr_s = None,
             kr_bits = Some (kb_udiv K lb rb),
             undef_free = both undef_free lR rR, poison_free = both poison_free lR rR\<rparr>
      | _ \<Rightarrow> None)"

text \<open>\<open>!r.u && !r.s && !r.well_defined() && (!r.bits || r.bits->isUnknown())\<close>: nothing learnt.\<close>

definition uninformative :: "kb_ops \<Rightarrow> known_range \<Rightarrow> bool" where
  "uninformative K r \<longleftrightarrow>
     kr_u r = None \<and> kr_s r = None \<and> \<not> well_defined r \<and> kb_opt_unknown K r"

definition finish_if_informative :: "kb_ops \<Rightarrow> nat \<Rightarrow> known_range \<Rightarrow> known_range option" where
  "finish_if_informative K bw r = (if uninformative K r then None else finish K bw r)"

definition transfer_lshr ::
  "kb_ops \<Rightarrow> nat \<Rightarrow> val \<Rightarrow> known_range option \<Rightarrow> known_range option \<Rightarrow> known_bits \<Rightarrow> known_bits
   \<Rightarrow> known_range option" where
  "transfer_lshr K bw amt_op lR rR lb rb =
     (case shiftInRange amt_op bw rR of (in_range, const_shift) \<Rightarrow>
        if \<not> in_range then None
        else
          let u = (case u_of lR of
                     Some (llo, lhi) \<Rightarrow>
                       if const_shift < bw
                       then Some (apint_lshr llo const_shift, apint_lshr lhi const_shift)
                       else (case u_of rR of
                               Some (rlo, rhi) \<Rightarrow>
                                 Some (apint_lshr llo (nat (uval rhi)), apint_lshr lhi (nat (uval rlo)))
                             | None \<Rightarrow> None)
                   | None \<Rightarrow> None)
          in finish_if_informative K bw
               \<lparr>kr_u = u, kr_s = None, kr_bits = Some (kb_lshr K lb rb),
                undef_free = both undef_free lR rR, poison_free = both poison_free lR rR\<rparr>)"

definition transfer_ashr ::
  "kb_ops \<Rightarrow> nat \<Rightarrow> val \<Rightarrow> known_range option \<Rightarrow> known_range option \<Rightarrow> known_bits \<Rightarrow> known_bits
   \<Rightarrow> known_range option" where
  "transfer_ashr K bw amt_op lR rR lb rb =
     (case shiftInRange amt_op bw rR of (in_range, const_shift) \<Rightarrow>
        if \<not> in_range then None
        else
          let s = (case s_of lR of
                     Some (llo, lhi) \<Rightarrow>
                       if const_shift < bw
                       then Some (apint_ashr llo const_shift, apint_ashr lhi const_shift)
                       else (case u_of rR of
                               Some (rlo, rhi) \<Rightarrow>
                                 Some (apint_ashr llo (nat (uval rlo)), apint_ashr lhi (nat (uval rlo)))
                             | None \<Rightarrow> None)
                   | None \<Rightarrow> None)
          in finish_if_informative K bw
               \<lparr>kr_u = None, kr_s = s, kr_bits = Some (kb_ashr K lb rb),
                undef_free = both undef_free lR rR, poison_free = both poison_free lR rR\<rparr>)"

definition transfer_shl ::
  "kb_ops \<Rightarrow> nat \<Rightarrow> bool \<Rightarrow> bool \<Rightarrow> val \<Rightarrow> known_range option \<Rightarrow> known_range option
   \<Rightarrow> known_bits \<Rightarrow> known_bits \<Rightarrow> known_range option" where
  "transfer_shl K bw nuw nsw amt_op lR rR lb rb =
     (case shiftInRange amt_op bw rR of (in_range, const_shift) \<Rightarrow>
        if \<not> in_range then None
        else
          let u = (if const_shift < bw \<and> nuw then
                     map_option (\<lambda>(lo, hi). (apint_shl lo const_shift, apint_shl hi const_shift)) (u_of lR)
                   else None);
              s = (if const_shift < bw \<and> nsw then
                     map_option (\<lambda>(lo, hi). (apint_shl lo const_shift, apint_shl hi const_shift)) (s_of lR)
                   else None)
          in finish_if_informative K bw
               \<lparr>kr_u = u, kr_s = s, kr_bits = Some (kb_shl K lb rb nuw nsw),
                undef_free = both undef_free lR rR, poison_free = both poison_free lR rR\<rparr>)"

text \<open>\<open>!(nuw || nsw) || r.u || r.s\<close>: when the poison flag of an arithmetic result may be set.\<close>

definition arith_poison_free ::
  "bool \<Rightarrow> bool \<Rightarrow> (bv \<times> bv) option \<Rightarrow> (bv \<times> bv) option \<Rightarrow> known_range option \<Rightarrow> known_range option \<Rightarrow> bool"
where
  "arith_poison_free nuw nsw u s lR rR \<longleftrightarrow>
     (\<not> (nuw \<or> nsw) \<or> u \<noteq> None \<or> s \<noteq> None) \<and> both poison_free lR rR"

definition transfer_add ::
  "kb_ops \<Rightarrow> nat \<Rightarrow> bool \<Rightarrow> bool \<Rightarrow> known_range option \<Rightarrow> known_range option
   \<Rightarrow> known_bits \<Rightarrow> known_bits \<Rightarrow> known_range option" where
  "transfer_add K bw nuw nsw lR rR lb rb =
     (let u = (case (u_of lR, u_of rR) of
                 (Some (llo, lhi), Some (rlo, rhi)) \<Rightarrow>
                   if nuw then Some (bvadd llo rlo, bvadd lhi rhi) else None
               | _ \<Rightarrow> None);
          s = (case (s_of lR, s_of rR) of
                 (Some (llo, lhi), Some (rlo, rhi)) \<Rightarrow>
                   if nsw then Some (bvadd llo rlo, bvadd lhi rhi) else None
               | _ \<Rightarrow> None)
      in finish_if_informative K bw
           \<lparr>kr_u = u, kr_s = s, kr_bits = Some (kb_computeForAddSub K True nsw nuw lb rb),
            undef_free = both undef_free lR rR,
            poison_free = arith_poison_free nuw nsw u s lR rR\<rparr>)"

definition transfer_sub ::
  "kb_ops \<Rightarrow> nat \<Rightarrow> bool \<Rightarrow> bool \<Rightarrow> known_range option \<Rightarrow> known_range option
   \<Rightarrow> known_bits \<Rightarrow> known_bits \<Rightarrow> known_range option" where
  "transfer_sub K bw nuw nsw lR rR lb rb =
     (let u = (case (u_of lR, u_of rR) of
                 (Some (llo, lhi), Some (rlo, rhi)) \<Rightarrow>
                   if nuw \<and> bvule rlo lhi then Some (mk bw 0, bvsub lhi rlo) else None
               | _ \<Rightarrow> None);
          s = (case (s_of lR, s_of rR) of
                 (Some (llo, lhi), Some (rlo, rhi)) \<Rightarrow>
                   if nsw \<and> \<not> isNegative llo \<and> \<not> isNegative rhi \<and> bvsle rlo lhi
                   then Some (mk bw 0, bvsub lhi rlo) else None
               | _ \<Rightarrow> None)
      in finish_if_informative K bw
           \<lparr>kr_u = u, kr_s = s, kr_bits = Some (kb_computeForAddSub K False nsw nuw lb rb),
            undef_free = both undef_free lR rR,
            poison_free = arith_poison_free nuw nsw u s lR rR\<rparr>)"

definition transfer_mul ::
  "kb_ops \<Rightarrow> nat \<Rightarrow> bool \<Rightarrow> bool \<Rightarrow> known_range option \<Rightarrow> known_range option
   \<Rightarrow> known_bits \<Rightarrow> known_bits \<Rightarrow> known_range option" where
  "transfer_mul K bw nuw nsw lR rR lb rb =
     (let u = (case (u_of lR, u_of rR) of
                 (Some (llo, lhi), Some (rlo, rhi)) \<Rightarrow>
                   if nuw then Some (bvmul llo rlo, bvmul lhi rhi) else None
               | _ \<Rightarrow> None);
          s = (case (s_of lR, s_of rR) of
                 (Some (llo, lhi), Some (rlo, rhi)) \<Rightarrow>
                   if nsw \<and> \<not> isNegative llo \<and> \<not> isNegative rlo
                   then Some (bvmul llo rlo, bvmul lhi rhi) else None
               | _ \<Rightarrow> None)
      in finish_if_informative K bw
           \<lparr>kr_u = u, kr_s = s, kr_bits = Some (kb_mul K lb rb),
            undef_free = both undef_free lR rR,
            poison_free = arith_poison_free nuw nsw u s lR rR\<rparr>)"

definition transfer_zext :: "kb_ops \<Rightarrow> nat \<Rightarrow> known_range \<Rightarrow> known_bits \<Rightarrow> known_range option" where
  "transfer_zext K bw srcR sb =
     (let ext = (\<lambda>x. bvzext x (bw - bits x));
          u = (case kr_u srcR of
                 Some (lo, hi) \<Rightarrow> Some (ext lo, ext hi)
               | None \<Rightarrow> (case kr_s srcR of
                            Some (lo, hi) \<Rightarrow> if \<not> isNegative lo then Some (ext lo, ext hi) else None
                          | None \<Rightarrow> None));
          b = kb_zext K sb bw
      in if u = None \<and> kb_isUnknown K b then None
         else finish K bw \<lparr>kr_u = u, kr_s = None, kr_bits = Some b,
                undef_free = undef_free srcR, poison_free = poison_free srcR\<rparr>)"

definition transfer_sext :: "kb_ops \<Rightarrow> nat \<Rightarrow> known_range \<Rightarrow> known_bits \<Rightarrow> known_range option" where
  "transfer_sext K bw srcR sb =
     (let ext = (\<lambda>x. bvsext x (bw - bits x));
          s = (case kr_s srcR of
                 Some (lo, hi) \<Rightarrow> Some (ext lo, ext hi)
               | None \<Rightarrow> (case kr_u srcR of
                            Some (lo, hi) \<Rightarrow> if \<not> isNegative hi then Some (ext lo, ext hi) else None
                          | None \<Rightarrow> None));
          b = kb_sext K sb bw
      in if s = None \<and> kb_isUnknown K b then None
         else finish K bw \<lparr>kr_u = None, kr_s = s, kr_bits = Some b,
                undef_free = undef_free srcR, poison_free = poison_free srcR\<rparr>)"

definition transfer_trunc :: "kb_ops \<Rightarrow> nat \<Rightarrow> known_range \<Rightarrow> known_bits \<Rightarrow> known_range option" where
  "transfer_trunc K bw srcR sb =
     (let u = (case kr_u srcR of
                 Some (lo, hi) \<Rightarrow>
                   if getActiveBits hi \<le> bw then Some (bvtrunc lo bw, bvtrunc hi bw) else None
               | None \<Rightarrow> None);
          b = kb_trunc K sb bw
      in if u = None \<and> kb_isUnknown K b then None
         else finish K bw \<lparr>kr_u = u, kr_s = None, kr_bits = Some b,
                undef_free = undef_free srcR, poison_free = poison_free srcR\<rparr>)"

definition transfer_binop ::
  "kb_ops \<Rightarrow> (val \<Rightarrow> ty) \<Rightarrow> nat \<Rightarrow> inst \<Rightarrow> binop \<Rightarrow> val \<Rightarrow> val \<Rightarrow> range_map \<Rightarrow> known_range option" where
  "transfer_binop K tyof bw I op a b m =
     (let lR = rangeOf K a m; rR = rangeOf K b m;
          lb = knownBitsOf K tyof a m; rb = knownBitsOf K tyof b m
      in case op of
           And \<Rightarrow> transfer_and K bw lR rR lb rb
         | Or \<Rightarrow> transfer_or K bw lR rR lb rb
         | Xor \<Rightarrow> transfer_xor K bw lR rR lb rb
         | URem \<Rightarrow> transfer_urem K bw lR rR lb rb
         | UDiv \<Rightarrow> transfer_udiv K bw lR rR lb rb
         | LShr \<Rightarrow> transfer_lshr K bw b lR rR lb rb
         | AShr \<Rightarrow> transfer_ashr K bw b lR rR lb rb
         | Shl \<Rightarrow> transfer_shl K bw (i_nuw I) (i_nsw I) b lR rR lb rb
         | Add \<Rightarrow> transfer_add K bw (i_nuw I) (i_nsw I) lR rR lb rb
         | Sub \<Rightarrow> transfer_sub K bw (i_nuw I) (i_nsw I) lR rR lb rb
         | Mul \<Rightarrow> transfer_mul K bw (i_nuw I) (i_nsw I) lR rR lb rb
         | _ \<Rightarrow> None)"

definition transfer_cast ::
  "kb_ops \<Rightarrow> (val \<Rightarrow> ty) \<Rightarrow> nat \<Rightarrow> convop \<Rightarrow> val \<Rightarrow> range_map \<Rightarrow> known_range option" where
  "transfer_cast K tyof bw op a m =
     (case rangeOf K a m of
        None \<Rightarrow> None
      | Some srcR \<Rightarrow>
          let sb = knownBitsOf K tyof a m
          in case op of
               ZExt \<Rightarrow> transfer_zext K bw srcR sb
             | SExt \<Rightarrow> transfer_sext K bw srcR sb
             | Trunc \<Rightarrow> transfer_trunc K bw srcR sb)"

definition transfer :: "kb_ops \<Rightarrow> (val \<Rightarrow> ty) \<Rightarrow> inst \<Rightarrow> range_map \<Rightarrow> known_range option" where
  "transfer K tyof I m =
     (case i_ty I of
        IntTy bw \<Rightarrow>
          (case (i_op I, i_ops I) of
             (OSelect, [c, t, f]) \<Rightarrow> transfer_select K tyof bw c t f m
           | (OFreeze, [a]) \<Rightarrow> transfer_freeze K bw a m
           | (OBin op, [a, b]) \<Rightarrow> transfer_binop K tyof bw I op a b m
           | (OCast op, [a]) \<Rightarrow> transfer_cast K tyof bw op a m
           | _ \<Rightarrow> None)
      | _ \<Rightarrow> None)"

fun computeRanges :: "kb_ops \<Rightarrow> (val \<Rightarrow> ty) \<Rightarrow> inst list \<Rightarrow> range_map \<Rightarrow> range_map" where
  "computeRanges K tyof [] m = m"
| "computeRanges K tyof (I # insts) m =
     computeRanges K tyof insts
       (case transfer K tyof I m of Some r \<Rightarrow> m(InstV (i_id I) \<mapsto> r) | None \<Rightarrow> m)"

end
