(* ===== verification/RangeSound.thy ===== *)
theory RangeSound
  imports Range
begin

text \<open>
  What the range analysis promises and how far the promise is kept, measured against the
  instruction encodings of \<open>Instr\<close>. A range describes a value with a poison bit when every
  recorded interval and every recorded bit holds of the value whenever it is not poison, and
  when \<open>poison_free\<close> implies that it is not. The branches of \<open>transfer\<close> that keep the promise
  are proved sound; counterexamples for the others are stated with the properties of the
  development.
\<close>

section \<open>What a range describes\<close>

definition kb_has :: "known_bits \<Rightarrow> bv \<Rightarrow> bool" where
  "kb_has k x \<longleftrightarrow> uval x AND uval (Zero k) = 0 \<and> uval x AND uval (One k) = uval (One k)"

definition in_u :: "(bv \<times> bv) option \<Rightarrow> bv \<Rightarrow> bool" where
  "in_u i x = (case i of Some (lo, hi) \<Rightarrow> uval lo \<le> uval x \<and> uval x \<le> uval hi | None \<Rightarrow> True)"

definition in_s :: "(bv \<times> bv) option \<Rightarrow> bv \<Rightarrow> bool" where
  "in_s i x = (case i of Some (lo, hi) \<Rightarrow> sval lo \<le> sval x \<and> sval x \<le> sval hi | None \<Rightarrow> True)"

definition in_b :: "known_bits option \<Rightarrow> bv \<Rightarrow> bool" where
  "in_b k x = (case k of Some b \<Rightarrow> kb_has b x | None \<Rightarrow> True)"

definition holds :: "known_range \<Rightarrow> bv \<Rightarrow> bool" where
  "holds r x \<longleftrightarrow> in_u (kr_u r) x \<and> in_s (kr_s r) x \<and> in_b (kr_bits r) x"

definition wf_ivl :: "nat \<Rightarrow> (bv \<times> bv) option \<Rightarrow> bool" where
  "wf_ivl w i = (case i of Some (lo, hi) \<Rightarrow> wf_bv lo \<and> bits lo = w \<and> wf_bv hi \<and> bits hi = w | None \<Rightarrow> True)"

definition wf_kr :: "nat \<Rightarrow> known_range \<Rightarrow> bool" where
  "wf_kr w r \<longleftrightarrow> wf_ivl w (kr_u r) \<and> wf_ivl w (kr_s r)"

definition describes :: "known_range \<Rightarrow> state_value \<Rightarrow> bool" where
  "describes r v \<longleftrightarrow> (poison_free r \<longrightarrow> non_poison v) \<and> (non_poison v \<longrightarrow> holds r (sv_value v))"

text \<open>
  What the analysis relies on of LLVM's \<open>KnownBits\<close> and \<open>ConstantRange\<close>. A constant range with
  equal bounds is empty or full, and carries no information about bits.
\<close>

definition binary_sound ::
  "(known_bits \<Rightarrow> known_bits \<Rightarrow> known_bits) \<Rightarrow> (bv \<Rightarrow> bv \<Rightarrow> bool) \<Rightarrow> (bv \<Rightarrow> bv \<Rightarrow> bv) \<Rightarrow> bool" where
  "binary_sound k pre f \<longleftrightarrow>
     (\<forall>a b x y. wf_bv x \<longrightarrow> wf_bv y \<longrightarrow> bits x = bits y \<longrightarrow> kb_has a x \<longrightarrow> kb_has b y \<longrightarrow>
        pre x y \<longrightarrow> kb_has (k a b) (f x y))"

definition sound_kb :: "kb_ops \<Rightarrow> bool" where
  "sound_kb K \<longleftrightarrow>
     (\<forall>w x. kb_has (kb_unknown K w) x) \<and>
     (\<forall>c. wf_bv c \<longrightarrow> kb_has (kb_makeConstant K c) c) \<and>
     binary_sound (kb_and K) (\<lambda>_ _. True) bvand \<and>
     binary_sound (kb_or K) (\<lambda>_ _. True) bvor \<and>
     binary_sound (kb_xor K) (\<lambda>_ _. True) bvxor \<and>
     binary_sound (kb_urem K) (\<lambda>_ y. uval y \<noteq> 0) bvurem \<and>
     binary_sound (kb_udiv K) (\<lambda>_ y. uval y \<noteq> 0) bvudiv \<and>
     binary_sound (kb_lshr K) (\<lambda>x y. amt y < bits x) bvlshr \<and>
     binary_sound (kb_ashr K) (\<lambda>x y. amt y < bits x) bvashr \<and>
     binary_sound (kb_mul K) (\<lambda>_ _. True) bvmul \<and>
     binary_sound (\<lambda>a b. kb_shl K a b False False) (\<lambda>x y. amt y < bits x) bvshl \<and>
     binary_sound (kb_computeForAddSub K True False False) (\<lambda>_ _. True) bvadd \<and>
     binary_sound (kb_computeForAddSub K False False False) (\<lambda>_ _. True) bvsub \<and>
     (\<forall>a b x. kb_has a x \<or> kb_has b x \<longrightarrow> kb_has (kb_intersectWith K a b) x) \<and>
     (\<forall>a x w. wf_bv x \<longrightarrow> bits x \<le> w \<longrightarrow> kb_has a x \<longrightarrow> kb_has (kb_zext K a w) (bvzext x (w - bits x))) \<and>
     (\<forall>a x w. wf_bv x \<longrightarrow> bits x \<le> w \<longrightarrow> kb_has a x \<longrightarrow> kb_has (kb_sext K a w) (bvsext x (w - bits x))) \<and>
     (\<forall>a x w. wf_bv x \<longrightarrow> 0 < w \<longrightarrow> w \<le> bits x \<longrightarrow> kb_has a x \<longrightarrow> kb_has (kb_trunc K a w) (bvtrunc x w)) \<and>
     (\<forall>lo hi x. wf_bv x \<longrightarrow> uval lo \<le> uval x \<longrightarrow> uval x < uval hi \<or> uval hi = 0 \<longrightarrow>
        kb_has (cr_toKnownBits K lo hi) x) \<and>
     (\<forall>lo x. wf_bv x \<longrightarrow> kb_has (cr_toKnownBits K lo lo) x)"

lemma sound_kbD:
  assumes "sound_kb K"
  shows "kb_has (kb_unknown K w) x"
    "wf_bv c \<Longrightarrow> kb_has (kb_makeConstant K c) c"
    "binary_sound (kb_and K) (\<lambda>_ _. True) bvand"
    "binary_sound (kb_or K) (\<lambda>_ _. True) bvor"
    "binary_sound (kb_xor K) (\<lambda>_ _. True) bvxor"
    "binary_sound (kb_urem K) (\<lambda>_ y. uval y \<noteq> 0) bvurem"
    "binary_sound (kb_udiv K) (\<lambda>_ y. uval y \<noteq> 0) bvudiv"
    "binary_sound (kb_lshr K) (\<lambda>x y. amt y < bits x) bvlshr"
    "binary_sound (kb_ashr K) (\<lambda>x y. amt y < bits x) bvashr"
    "binary_sound (kb_mul K) (\<lambda>_ _. True) bvmul"
    "binary_sound (\<lambda>a b. kb_shl K a b False False) (\<lambda>x y. amt y < bits x) bvshl"
    "binary_sound (kb_computeForAddSub K True False False) (\<lambda>_ _. True) bvadd"
    "binary_sound (kb_computeForAddSub K False False False) (\<lambda>_ _. True) bvsub"
    "kb_has a x \<or> kb_has b x \<Longrightarrow> kb_has (kb_intersectWith K a b) x"
    "wf_bv x \<Longrightarrow> bits x \<le> w \<Longrightarrow> kb_has a x \<Longrightarrow> kb_has (kb_zext K a w) (bvzext x (w - bits x))"
    "wf_bv x \<Longrightarrow> bits x \<le> w \<Longrightarrow> kb_has a x \<Longrightarrow> kb_has (kb_sext K a w) (bvsext x (w - bits x))"
    "wf_bv x \<Longrightarrow> 0 < w \<Longrightarrow> w \<le> bits x \<Longrightarrow> kb_has a x \<Longrightarrow> kb_has (kb_trunc K a w) (bvtrunc x w)"
    "wf_bv x \<Longrightarrow> uval lo \<le> uval x \<Longrightarrow> uval x < uval hi \<or> uval hi = 0 \<Longrightarrow>
       kb_has (cr_toKnownBits K lo hi) x"
    "wf_bv x \<Longrightarrow> kb_has (cr_toKnownBits K lo lo) x"
  using assms by (simp_all only: sound_kb_def simp_thms)

lemma binary_soundD:
  "binary_sound k pre f \<Longrightarrow> wf_bv x \<Longrightarrow> wf_bv y \<Longrightarrow> bits x = bits y \<Longrightarrow> kb_has a x \<Longrightarrow>
     kb_has b y \<Longrightarrow> pre x y \<Longrightarrow> kb_has (k a b) (f x y)"
  unfolding binary_sound_def by blast

section \<open>The common tail\<close>

lemma kb_has_bits:
  "kb_has k x \<longleftrightarrow> (\<forall>i. (bit (uval (Zero k)) i \<longrightarrow> \<not> bit (uval x) i) \<and>
                        (bit (uval (One k)) i \<longrightarrow> bit (uval x) i))"
proof -
  have "uval x AND uval (Zero k) = 0 \<longleftrightarrow> (\<forall>i. bit (uval (Zero k)) i \<longrightarrow> \<not> bit (uval x) i)"
    unfolding bit_eq_iff by (auto simp: bit_and_iff)
  moreover have "uval x AND uval (One k) = uval (One k) \<longleftrightarrow>
      (\<forall>i. bit (uval (One k)) i \<longrightarrow> bit (uval x) i)"
    unfolding bit_eq_iff by (auto simp: bit_and_iff)
  ultimately show ?thesis by (auto simp: kb_has_def)
qed

lemma bit_wf: "wf_bv x \<Longrightarrow> bit (uval x) i \<Longrightarrow> i < bits x"
  by (metis bit_take_bit_iff wf_bvD(4))

lemma kb_has_join: "kb_has a x \<Longrightarrow> kb_has b x \<Longrightarrow> kb_has (kb_join a b) x"
  unfolding kb_has_bits kb_join_def by (auto simp: bvor_def bit_take_bit_iff bit_or_iff)

lemma in_u_in_s:
  assumes "wf_bv x" "in_u (Some (lo, hi)) x" "wf_bv lo" "wf_bv hi" "bits lo = bits x" "bits hi = bits x"
    "\<not> isNegative hi"
  shows "in_s (Some (lo, hi)) x"
proof -
  have hi: "uval hi < 2 ^ (bits x - 1)"
    using assms by (simp add: isNegative_iff sval_neg_iff not_le)
  then show ?thesis using assms by (simp add: in_u_def in_s_def sval_eq_uval)
qed

lemma in_s_in_u:
  assumes "wf_bv x" "in_s (Some (lo, hi)) x" "wf_bv lo" "wf_bv hi" "\<not> isNegative lo"
  shows "in_u (Some (lo, hi)) x"
proof -
  have "0 \<le> sval lo" using assms by (simp add: isNegative_iff)
  then show ?thesis
    using assms sval_nonneg_eq [of lo] sval_nonneg_eq [of x] sval_nonneg_eq [of hi]
    by (simp add: in_u_def in_s_def)
qed

lemma crossDerive_ok:
  assumes "wf_bv x" "wf_kr (bits x) r" "holds r x"
  shows "wf_kr (bits x) (crossDerive r) \<and> holds (crossDerive r) x"
proof -
  define r1 where "r1 = (case kr_u r of
      Some (lo, hi) \<Rightarrow> if kr_s r = None \<and> \<not> isNegative hi then r\<lparr>kr_s := kr_u r\<rparr> else r
    | None \<Rightarrow> r)"
  have s1: "wf_kr (bits x) r1 \<and> holds r1 x"
    using assms in_u_in_s [OF assms(1)]
    by (auto simp: r1_def wf_kr_def wf_ivl_def holds_def split: option.splits)
  have "wf_kr (bits x) (crossDerive r) \<and> holds (crossDerive r) x"
    using s1 in_s_in_u [OF assms(1)]
    unfolding crossDerive_def r1_def [symmetric] Let_def
    by (auto simp: wf_kr_def wf_ivl_def holds_def split: option.splits)
  then show ?thesis .
qed

lemma uval_apint_inc:
  assumes "wf_bv x"
  shows "uval (apint_inc x) = (if uval x = 2 ^ bits x - 1 then 0 else uval x + 1)"
  using wf_bvD [OF assms]
  by (auto simp: apint_inc_def bvadd_def take_bit_id)

lemma cr_unsigned_ok:
  assumes "sound_kb K" "wf_bv x" "in_u (Some (lo, hi)) x" "wf_bv hi" "bits hi = bits x"
  shows "kb_has (cr_toKnownBits K lo (apint_inc hi)) x"
  using assms uval_apint_inc [OF assms(4)]
  by (intro sound_kbD(18)) (auto simp: in_u_def)

lemma cr_signed_ok:
  assumes "sound_kb K" "wf_bv x" "in_s (Some (lo, hi)) x" "wf_bv lo" "wf_bv hi"
    "bits lo = bits x" "bits hi = bits x" "bvule lo (apint_inc hi)"
  shows "kb_has (cr_toKnownBits K lo (apint_inc hi)) x"
proof (cases "lo = apint_inc hi")
  case True
  then show ?thesis using sound_kbD(19) [OF assms(1,2)] by metis
next
  case False
  note w = wf_bvD [OF assms(2)] wf_bvD [OF assms(4)] wf_bvD [OF assms(5)]
  have "bits (apint_inc hi) = bits lo" by (simp add: apint_inc_def assms(6,7))
  with False assms(8) have lt: "uval lo < uval (apint_inc hi)"
    by (auto simp: bvule_def bv_eq_iff)
  have ord: "sval lo \<le> sval x" "sval x \<le> sval hi" using assms(3) by (simp_all add: in_s_def)
  have "uval lo \<le> uval x \<and> uval x < uval (apint_inc hi)"
    using lt ord w pow2_half [OF w(1)] uval_apint_inc [OF assms(5)]
    by (simp add: sval_cases assms split: if_splits)
  then show ?thesis by (intro sound_kbD(18) [OF assms(1,2)]) auto
qed

lemma deriveBits_ok:
  assumes K: "sound_kb K" and x: "wf_bv x" "wf_kr (bits x) r" "holds r x"
  shows "wf_kr (bits x) (deriveBitsFromIntervals K r bw) \<and> holds (deriveBitsFromIntervals K r bw) x"
proof -
  define a0 where "a0 = (case kr_bits r of Some b \<Rightarrow> b | None \<Rightarrow> kb_unknown K bw)"
  define a1 where "a1 = (case kr_u r of
      Some (lo, hi) \<Rightarrow> if bvule lo hi then kb_join a0 (cr_toKnownBits K lo (apint_inc hi)) else a0
    | None \<Rightarrow> a0)"
  define a2 where "a2 = (case kr_s r of
      Some (lo, hi0) \<Rightarrow>
        if bvsle lo hi0 then
          let hi = apint_inc hi0
          in if bvule lo hi then kb_join a1 (cr_toKnownBits K lo hi) else a1
        else a1
    | None \<Rightarrow> a1)"
  have "kb_has a0 x"
    using sound_kbD(1) [OF K] x(3) by (auto simp: a0_def holds_def in_b_def split: option.splits)
  then have "kb_has a1 x"
    using x cr_unsigned_ok [OF K x(1)]
    by (auto simp: a1_def holds_def wf_kr_def wf_ivl_def split: option.splits intro!: kb_has_join)
  then have a2: "kb_has a2 x"
    using x cr_signed_ok [OF K x(1)]
    by (auto simp: a2_def holds_def wf_kr_def wf_ivl_def Let_def split: option.splits
        intro!: kb_has_join)
  have "deriveBitsFromIntervals K r bw =
      (if bw = 0 then r else if \<not> kb_isUnknown K a2 then r\<lparr>kr_bits := Some a2\<rparr> else r)"
    unfolding deriveBitsFromIntervals_def a0_def a1_def a2_def Let_def by simp
  with a2 x show ?thesis by (auto simp: wf_kr_def holds_def in_b_def)
qed

lemma finish_ok:
  assumes "sound_kb K" "wf_bv x" "wf_kr (bits x) r" "holds r x" "finish K bw r = Some r'"
  shows "wf_kr (bits x) r' \<and> holds r' x"
  using assms(5) crossDerive_ok [OF assms(2-4)] deriveBits_ok [OF assms(1,2)]
  by (auto simp: finish_def)

lemma flags_kept [simp]:
  "poison_free (crossDerive r) = poison_free r" "undef_free (crossDerive r) = undef_free r"
  "poison_free (deriveBitsFromIntervals K r bw) = poison_free r"
  "undef_free (deriveBitsFromIntervals K r bw) = undef_free r"
  by (auto simp: crossDerive_def deriveBitsFromIntervals_def Let_def split: option.splits)

lemma wf_tail [simp]:
  "wf_kr w r \<Longrightarrow> wf_kr w (crossDerive r)" "wf_kr w r \<Longrightarrow> wf_kr w (deriveBitsFromIntervals K r bw)"
  by (auto simp: crossDerive_def deriveBitsFromIntervals_def Let_def wf_kr_def split: option.splits)

lemma intervals_kept [simp]:
  "kr_u (deriveBitsFromIntervals K r bw) = kr_u r" "kr_s (deriveBitsFromIntervals K r bw) = kr_s r"
  by (auto simp: deriveBitsFromIntervals_def Let_def split: option.splits)

lemma crossDerive_kept [simp]:
  "kr_u r = Some i \<Longrightarrow> kr_u (crossDerive r) = Some i" "kr_s r = Some i \<Longrightarrow> kr_s (crossDerive r) = Some i"
  by (cases i; auto simp: crossDerive_def Let_def split: option.splits)+

text \<open>A range fit for a value gives a range fit for the value after the common tail.\<close>

lemma tail_describes:
  assumes "sound_kb K" "wf_sv w v" "wf_kr w r"
    and "poison_free r \<Longrightarrow> non_poison v" "non_poison v \<Longrightarrow> holds r (sv_value v)"
  shows "wf_kr w (deriveBitsFromIntervals K r bw) \<and> describes (deriveBitsFromIntervals K r bw) v"
  using assms deriveBits_ok [OF assms(1), of "sv_value v" r bw]
  by (auto simp: describes_def wf_sv_def)

lemma finish_describes:
  assumes "sound_kb K" "wf_sv w v" "wf_kr w r"
    and "poison_free r \<Longrightarrow> non_poison v" "non_poison v \<Longrightarrow> holds r (sv_value v)"
    and "finish K bw r = Some r'"
  shows "wf_kr w r' \<and> describes r' v"
  using assms tail_describes [OF assms(1,2), of "crossDerive r" bw]
    crossDerive_ok [of "sv_value v" r]
  by (auto simp: finish_def wf_sv_def)

section \<open>Binary operations\<close>

text \<open>What is known of an operand: its range, its bits, and that it has the width.\<close>

definition operand_ok :: "nat \<Rightarrow> known_range option \<Rightarrow> known_bits \<Rightarrow> state_value \<Rightarrow> bool" where
  "operand_ok w R kb x \<longleftrightarrow>
     wf_sv w x \<and> (\<forall>r. R = Some r \<longrightarrow> wf_kr w r \<and> describes r x) \<and>
     (non_poison x \<longrightarrow> kb_has kb (sv_value x))"

lemma operand_okD:
  assumes "operand_ok w R kb x"
  shows "wf_bv (sv_value x)" "bits (sv_value x) = w" "0 < w"
    "non_poison x \<Longrightarrow> kb_has kb (sv_value x)"
    "u_of R = Some (lo, hi) \<Longrightarrow> wf_bv lo \<and> bits lo = w \<and> wf_bv hi \<and> bits hi = w"
    "s_of R = Some (lo, hi) \<Longrightarrow> wf_bv lo \<and> bits lo = w \<and> wf_bv hi \<and> bits hi = w"
    "non_poison x \<Longrightarrow> u_of R = Some (lo, hi) \<Longrightarrow>
       uval lo \<le> uval (sv_value x) \<and> uval (sv_value x) \<le> uval hi"
    "non_poison x \<Longrightarrow> s_of R = Some (lo, hi) \<Longrightarrow>
       sval lo \<le> sval (sv_value x) \<and> sval (sv_value x) \<le> sval hi"
    "R = Some r \<Longrightarrow> poison_free r \<Longrightarrow> non_poison x"
  using assms wf_bvD(1)
  by (auto simp: operand_ok_def wf_sv_def u_of_def s_of_def describes_def holds_def wf_kr_def
      wf_ivl_def in_u_def in_s_def split: option.splits)

lemma both_poison_free:
  "operand_ok w lR lb x \<Longrightarrow> operand_ok w' rR rb y \<Longrightarrow> both poison_free lR rR \<Longrightarrow>
     non_poison x \<and> non_poison y"
  by (auto simp: both_def operand_ok_def describes_def)

lemma in_b_binary:
  assumes "binary_sound k pre f" "operand_ok w lR lb x" "operand_ok w rR rb y"
    "non_poison x" "non_poison y" "pre (sv_value x) (sv_value y)"
  shows "in_b (Some (k lb rb)) (f (sv_value x) (sv_value y))"
  using assms operand_okD [OF assms(2)] operand_okD [OF assms(3)]
  by (auto simp: in_b_def intro!: binary_soundD [OF assms(1)])

text \<open>
  The contract between the branches and the encoding: an operation that, on operands that are
  not poison and satisfy \<open>pre\<close>, computes \<open>f\<close> and adds no poison of its own. Every branch is
  then proved by the facts it records about \<open>f\<close>.
\<close>

locale strict_binop =
  fixes op :: binop and fl :: binop_flags and f :: "bv \<Rightarrow> bv \<Rightarrow> bv" and pre :: "bv \<Rightarrow> bv \<Rightarrow> bool"
  assumes fn: "wf_bv a \<Longrightarrow> wf_bv b \<Longrightarrow> bits a = bits b \<Longrightarrow> pre a b \<Longrightarrow>
      binop_fn no_facts no_facts w op fl a True b True = (f a b, True)"
    and wf_fn: "wf_bv a \<Longrightarrow> wf_bv (fst (binop_fn no_facts no_facts w op fl a ap b bp))"
    and bits_fn: "bits (fst (binop_fn no_facts no_facts w op fl a ap b bp)) = bits a"
begin

lemma wf_result:
  assumes "wf_sv w x"
  shows "wf_sv w (binop_scalar no_facts no_facts w op fl x y)"
  using assms wf_fn bits_fn by (simp add: binop_scalar_def case_prod_beta wf_sv_def sv_def)

lemma result:
  assumes "wf_sv w x" "wf_sv w y" "non_poison x" "non_poison y" "pre (sv_value x) (sv_value y)"
  shows "binop_scalar no_facts no_facts w op fl x y = sv (f (sv_value x) (sv_value y)) True"
  using assms fn [of "sv_value x" "sv_value y" w]
  by (simp add: binop_scalar_def case_prod_beta wf_sv_def)

lemma facts_describe:
  assumes ops: "operand_ok w lR lb x" "operand_ok w rR rb y"
    and pre: "non_poison x \<Longrightarrow> non_poison y \<Longrightarrow> pre (sv_value x) (sv_value y)"
    and pf: "poison_free r \<Longrightarrow> both poison_free lR rR"
    and val: "non_poison x \<Longrightarrow> non_poison y \<Longrightarrow> holds r (f (sv_value x) (sv_value y))"
  shows "poison_free r \<Longrightarrow> non_poison (binop_scalar no_facts no_facts w op fl x y)"
    and "non_poison (binop_scalar no_facts no_facts w op fl x y) \<Longrightarrow>
           holds r (sv_value (binop_scalar no_facts no_facts w op fl x y))"
proof -
  have wf: "wf_sv w x" "wf_sv w y" using ops by (simp_all add: operand_ok_def)
  show "non_poison (binop_scalar no_facts no_facts w op fl x y)" if "poison_free r"
  proof -
    have "non_poison x" "non_poison y" using both_poison_free [OF ops] pf that by auto
    then show ?thesis using result [OF wf] pre by (simp add: sv_def)
  qed
  show "holds r (sv_value (binop_scalar no_facts no_facts w op fl x y))"
    if np: "non_poison (binop_scalar no_facts no_facts w op fl x y)"
  proof -
    have "non_poison x" "non_poison y" using binop_scalar_poison [OF np] by auto
    then show ?thesis using result [OF wf] pre val by (simp add: sv_def)
  qed
qed

lemma branch:
  assumes K: "sound_kb K" and ops: "operand_ok w lR lb x" "operand_ok w rR rb y"
    and pre: "non_poison x \<Longrightarrow> non_poison y \<Longrightarrow> pre (sv_value x) (sv_value y)"
    and wf: "wf_kr w r" and pf: "poison_free r \<Longrightarrow> both poison_free lR rR"
    and val: "non_poison x \<Longrightarrow> non_poison y \<Longrightarrow> holds r (f (sv_value x) (sv_value y))"
    and out: "finish K w r = Some r'"
  shows "wf_kr w r' \<and> describes r' (binop_scalar no_facts no_facts w op fl x y)"
  using wf_result [of w x y] ops(1) facts_describe [OF ops pre pf val]
  by (intro finish_describes [OF K _ wf _ _ out]) (simp_all add: operand_ok_def)

lemma interval_branch:
  assumes K: "sound_kb K" and ops: "operand_ok w lR lb x" "operand_ok w rR rb y"
    and pre: "non_poison x \<Longrightarrow> non_poison y \<Longrightarrow> pre (sv_value x) (sv_value y)"
    and k: "binary_sound k pre f"
    and wf: "wf_ivl w u" "wf_ivl w s" and pf: "p \<Longrightarrow> both poison_free lR rR"
    and val: "non_poison x \<Longrightarrow> non_poison y \<Longrightarrow> in_u u (f (sv_value x) (sv_value y))"
      "non_poison x \<Longrightarrow> non_poison y \<Longrightarrow> in_s s (f (sv_value x) (sv_value y))"
    and out: "finish K w \<lparr>kr_u = u, kr_s = s, kr_bits = Some (k lb rb),
        undef_free = d, poison_free = p\<rparr> = Some r'"
  shows "wf_kr w r' \<and> describes r' (binop_scalar no_facts no_facts w op fl x y)"
proof (rule branch [OF K ops pre _ _ _ out])
  show "holds \<lparr>kr_u = u, kr_s = s, kr_bits = Some (k lb rb), undef_free = d, poison_free = p\<rparr>
      (f (sv_value x) (sv_value y))" if "non_poison x" "non_poison y"
    using val [OF that] in_b_binary [OF k ops that pre [OF that]] by (simp add: holds_def)
qed (use wf pf in \<open>simp_all add: wf_kr_def\<close>)

end

definition plain_flags :: "binop_flags \<Rightarrow> bool" where
  "plain_flags fl \<longleftrightarrow> \<not> NSW fl \<and> \<not> NUW fl \<and> \<not> Exact fl \<and> \<not> Disjoint fl"

definition no_flags :: binop_flags where
  "no_flags = \<lparr>NSW = False, NUW = False, Exact = False, Disjoint = False\<rparr>"

lemma plain_flags_eq: "plain_flags fl \<Longrightarrow> fl = no_flags"
  by (cases fl) (simp add: plain_flags_def no_flags_def)

interpretation b_and: strict_binop And no_flags bvand "\<lambda>_ _. True"
  by unfold_locales (simp_all add: no_flags_def)
interpretation b_or: strict_binop Or no_flags bvor "\<lambda>_ _. True"
  by unfold_locales (simp_all add: no_flags_def)
interpretation b_xor: strict_binop Xor no_flags bvxor "\<lambda>_ _. True"
  by unfold_locales (simp_all add: no_flags_def)
interpretation b_add: strict_binop Add no_flags bvadd "\<lambda>_ _. True"
  by unfold_locales (simp_all add: no_flags_def)
interpretation b_sub: strict_binop Sub no_flags bvsub "\<lambda>_ _. True"
  by unfold_locales (simp_all add: no_flags_def)
interpretation b_mul: strict_binop Mul no_flags bvmul "\<lambda>_ _. True"
  by unfold_locales (simp_all add: no_flags_def)
interpretation b_urem: strict_binop URem no_flags bvurem "\<lambda>_ y. uval y \<noteq> 0"
  by unfold_locales (simp_all add: no_flags_def)
interpretation b_udiv: strict_binop UDiv no_flags bvudiv "\<lambda>_ y. uval y \<noteq> 0"
  by unfold_locales (simp_all add: no_flags_def)
interpretation b_lshr: strict_binop LShr no_flags bvlshr "\<lambda>x y. amt y < bits x"
  by unfold_locales (simp_all add: no_flags_def shift_amount_test)
interpretation b_ashr: strict_binop AShr no_flags bvashr "\<lambda>x y. amt y < bits x"
  by unfold_locales (simp_all add: no_flags_def shift_amount_test)
interpretation b_shl: strict_binop Shl no_flags bvshl "\<lambda>x y. amt y < bits x"
  by unfold_locales (simp_all add: no_flags_def shift_amount_test)

section \<open>The branches that keep the promise\<close>

lemma and_le: "0 \<le> (x::int) \<Longrightarrow> 0 \<le> y \<Longrightarrow> x AND y \<le> x \<and> x AND y \<le> y \<and> 0 \<le> x AND y"
  by (simp add: AND_upper1 AND_upper2')

lemma uval_bvand: "wf_bv x \<Longrightarrow> wf_bv y \<Longrightarrow> uval (bvand x y) = uval x AND uval y"
  using and_le [of "uval x" "uval y"] wf_bvD [of x] wf_bvD [of y]
  by (simp only: bvand_def uval_mk) (intro take_bit_id, auto)

lemma both_None_u [simp]: "in_u None x" "in_s None x" "wf_ivl w None"
  by (simp_all add: in_u_def in_s_def wf_ivl_def)

lemma transfer_and_sound:
  assumes K: "sound_kb K" and ops: "operand_ok w lR lb x" "operand_ok w rR rb y"
    and out: "transfer_and K w lR rR lb rb = Some r'"
  shows "wf_kr w r' \<and> describes r' (binop_scalar no_facts no_facts w And no_flags x y)"
proof -
  note l = operand_okD [OF ops(1)] and r = operand_okD [OF ops(2)]
  define tryC where "tryC cR = (case u_of cR of
      Some (lo, hi) \<Rightarrow> if \<not> isNegative hi then Some (mk w 0, hi) else None | None \<Rightarrow> None)"
    for cR :: "known_range option"
  define u3 where "u3 = (if (if tryC rR = None then tryC lR else tryC rR) = None then
      (case (u_of lR, u_of rR) of
         (Some (_, lhi), Some (_, rhi)) \<Rightarrow> Some (mk w 0, if bvult lhi rhi then lhi else rhi)
       | _ \<Rightarrow> None)
      else (if tryC rR = None then tryC lR else tryC rR))"
  have fin: "finish K w \<lparr>kr_u = u3, kr_s = None, kr_bits = Some (kb_and K lb rb),
      undef_free = both undef_free lR rR, poison_free = both poison_free lR rR\<rparr> = Some r'"
    using out unfolding transfer_and_def Let_def u3_def tryC_def by (auto split: if_splits)
  have wf3: "wf_ivl w u3"
    using l(3,5) r(5) by (auto simp: u3_def tryC_def wf_ivl_def split: option.splits if_splits)
  have hold: "in_u u3 (bvand (sv_value x) (sv_value y))" if "non_poison x" "non_poison y"
    using l(7) [OF that(1)] r(7) [OF that(2)] l(1) r(1) wf_bvD(2) [OF l(1)] wf_bvD(2) [OF r(1)]
      and_le [of "uval (sv_value x)" "uval (sv_value y)"]
    by (auto simp: u3_def tryC_def in_u_def uval_bvand bvult_def split: option.splits if_splits
        intro: order_trans)
  show ?thesis
    by (rule b_and.interval_branch [OF K ops _ sound_kbD(3) [OF K] wf3 _ _ _ _ fin])
      (use hold in simp_all)
qed

lemma or_facts:
  "0 \<le> (x::int) \<Longrightarrow> 0 \<le> y \<Longrightarrow> x < 2 ^ n \<Longrightarrow> y < 2 ^ n \<Longrightarrow> x \<le> x OR y \<and> y \<le> x OR y \<and> x OR y < 2 ^ n"
  using OR_lower [of x y] OR_upper [of x n y] or_greater_eq [of y x] or_greater_eq [of x y]
  by (simp add: or.commute)

lemma uval_bvor:
  assumes "wf_bv x" "wf_bv y" "bits x = bits y"
  shows "uval (bvor x y) = uval x OR uval y"
  using or_facts [of "uval x" "uval y" "bits x"] wf_bvD [OF assms(1)] wf_bvD [OF assms(2)] assms(3)
  by (simp only: bvor_def uval_mk) (intro take_bit_id, simp_all)

lemma activeBits_lt: "0 \<le> n \<Longrightarrow> n < 2 ^ k \<Longrightarrow> n < 2 ^ activeBits k n"
proof (induction k)
  case (Suc k)
  show ?case
  proof (cases "bit n k")
    case False
    have "take_bit (Suc k) n = take_bit k n" using False by (simp add: take_bit_Suc_from_most)
    then have "n < 2 ^ k" using Suc.prems by (metis take_bit_id take_bit_int_less_exp)
    then show ?thesis using False Suc by simp
  qed (use Suc.prems in simp)
qed simp

lemma activeBits_le: "activeBits k n \<le> k"
  by (induction k) auto

lemma getActiveBits_lt: "wf_bv x \<Longrightarrow> uval x < 2 ^ getActiveBits x"
  by (simp add: getActiveBits_def activeBits_lt wf_bvD)

lemma getActiveBits_le: "getActiveBits x \<le> bits x"
  by (simp add: getActiveBits_def activeBits_le)

lemma uval_getLowBitsSet: "k \<le> w \<Longrightarrow> uval (getLowBitsSet w k) = 2 ^ k - 1"
  unfolding getLowBitsSet_def uval_mk
  by (rule take_bit_id, simp, rule lt_pow2_mono [of _ k], simp_all)

lemma or_upper_bound:
  assumes "wf_bv x" "wf_bv y" "bits x = w" "bits y = w" "wf_bv xh" "wf_bv yh" "bits xh = w" "bits yh = w"
    "uval x \<le> uval xh" "uval y \<le> uval yh"
  shows "uval (bvor x y) \<le> uval (if max (getActiveBits xh) (getActiveBits yh) = 0 then mk w 0
           else getLowBitsSet w (max (getActiveBits xh) (getActiveBits yh)))"
proof -
  define m where "m = max (getActiveBits xh) (getActiveBits yh)"
  have m: "m \<le> w" using getActiveBits_le [of xh] getActiveBits_le [of yh] assms by (simp add: m_def)
  have "(2::int) ^ getActiveBits xh \<le> 2 ^ m" "(2::int) ^ getActiveBits yh \<le> 2 ^ m"
    by (simp_all add: m_def pow2_mono)
  then have "uval x < 2 ^ m" "uval y < 2 ^ m"
    using getActiveBits_lt [OF assms(5)] getActiveBits_lt [OF assms(6)] assms(9,10) by linarith+
  then have "uval x OR uval y < 2 ^ m"
    using or_facts [of "uval x" "uval y" m] wf_bvD [OF assms(1)] wf_bvD [OF assms(2)] by simp
  moreover have "uval (bvor x y) = uval x OR uval y"
    by (rule uval_bvor [OF assms(1,2)]) (simp add: assms)
  ultimately show ?thesis
    unfolding m_def [symmetric] using m by (cases "m = 0") (simp_all add: uval_getLowBitsSet)
qed

lemma transfer_or_sound:
  assumes K: "sound_kb K" and ops: "operand_ok w lR lb x" "operand_ok w rR rb y"
    and out: "transfer_or K w lR rR lb rb = Some r'"
  shows "wf_kr w r' \<and> describes r' (binop_scalar no_facts no_facts w Or no_flags x y)"
proof -
  note l = operand_okD [OF ops(1)] and r = operand_okD [OF ops(2)]
  define u where "u = (case (u_of lR, u_of rR) of
      (Some (llo, lhi), Some (rlo, rhi)) \<Rightarrow>
        Some (if bvult rlo llo then llo else rlo,
              if max (getActiveBits lhi) (getActiveBits rhi) = 0 then mk w 0
              else getLowBitsSet w (max (getActiveBits lhi) (getActiveBits rhi)))
    | _ \<Rightarrow> None)"
  have fin: "finish K w \<lparr>kr_u = u, kr_s = None, kr_bits = Some (kb_or K lb rb),
      undef_free = both undef_free lR rR, poison_free = both poison_free lR rR\<rparr> = Some r'"
    using out unfolding transfer_or_def Let_def u_def by (auto split: if_splits)
  have wf: "wf_ivl w u"
    using l(3,5) r(5) by (auto simp: u_def wf_ivl_def getLowBitsSet_def split: option.splits)
  have hold: "in_u u (bvor (sv_value x) (sv_value y))" if np: "non_poison x" "non_poison y"
  proof (cases "u_of lR"; cases "u_of rR")
    fix a b assume a: "u_of lR = Some a" and b: "u_of rR = Some b"
    obtain llo lhi rlo rhi where ab: "a = (llo, lhi)" "b = (rlo, rhi)" by (cases a; cases b)
    have "uval (sv_value x) \<le> uval (bvor (sv_value x) (sv_value y))"
      "uval (sv_value y) \<le> uval (bvor (sv_value x) (sv_value y))"
      using or_facts [of "uval (sv_value x)" "uval (sv_value y)" w] wf_bvD [OF l(1)] wf_bvD [OF r(1)]
      by (simp_all add: uval_bvor l(1,2) r(1,2))
    moreover have "uval (bvor (sv_value x) (sv_value y)) \<le>
        uval (if max (getActiveBits lhi) (getActiveBits rhi) = 0 then mk w 0
           else getLowBitsSet w (max (getActiveBits lhi) (getActiveBits rhi)))"
      using l(5,7) r(5,7) np a b unfolding ab
      by (intro or_upper_bound) (use l(1,2) r(1,2) in auto)
    ultimately show ?thesis
      using l(7) [OF np(1)] r(7) [OF np(2)] a b by (auto simp: u_def ab in_u_def bvult_def)
  qed (simp_all add: u_def)
  show ?thesis
    by (rule b_or.interval_branch [OF K ops _ sound_kbD(4) [OF K] wf _ _ _ _ fin])
      (use hold in simp_all)
qed

lemma transfer_xor_sound:
  assumes K: "sound_kb K" and ops: "operand_ok w lR lb x" "operand_ok w rR rb y"
    and out: "transfer_xor K w lR rR lb rb = Some r'"
  shows "wf_kr w r' \<and> describes r' (binop_scalar no_facts no_facts w Xor no_flags x y)"
proof -
  define R where "R = \<lparr>kr_u = None, kr_s = None, kr_bits = Some (kb_xor K lb rb),
      undef_free = both undef_free lR rR, poison_free = both poison_free lR rR\<rparr>"
  have out: "r' = deriveBitsFromIntervals K R w"
    using out by (auto simp: transfer_xor_def R_def Let_def split: if_splits)
  have hold: "holds R (bvxor (sv_value x) (sv_value y))" if "non_poison x" "non_poison y"
    using in_b_binary [OF sound_kbD(5) [OF K] ops that] by (simp add: holds_def R_def)
  show ?thesis unfolding out
    using b_xor.wf_result [of w x y] ops(1) b_xor.facts_describe [OF ops, of R] hold
    by (intro tail_describes [OF K]) (simp_all add: operand_ok_def R_def wf_kr_def)
qed

lemma uval_bvurem: "wf_bv x \<Longrightarrow> 0 < uval y \<Longrightarrow> uval (bvurem x y) = uval x mod uval y"
  using wf_bvD [of x] zmod_le_nonneg_dividend [of "uval x" "uval y"]
  by (simp add: bvurem_def take_bit_id pos_mod_sign)

lemma uval_bvudiv: "wf_bv x \<Longrightarrow> 0 < uval y \<Longrightarrow> uval (bvudiv x y) = uval x div uval y"
  using wf_bvD [of x] zdiv_le_self [of "uval x" "uval y"]
  by (simp add: bvudiv_def take_bit_id pos_imp_zdiv_nonneg_iff)

lemma transfer_urem_sound:
  assumes K: "sound_kb K" and ops: "operand_ok w lR lb x" "operand_ok w rR rb y"
    and out: "transfer_urem K w lR rR lb rb = Some r'"
  shows "wf_kr w r' \<and> describes r' (binop_scalar no_facts no_facts w URem no_flags x y)"
proof -
  note l = operand_okD [OF ops(1)] and r = operand_okD [OF ops(2)]
  obtain rlo rhi where u: "u_of rR = Some (rlo, rhi)" and nz: "uval rlo \<noteq> 0"
    and fin: "finish K w \<lparr>kr_u = Some (mk w 0, apint_dec rhi), kr_s = None,
        kr_bits = Some (kb_urem K lb rb), undef_free = both undef_free lR rR,
        poison_free = both poison_free lR rR\<rparr> = Some r'"
    using out by (auto simp: transfer_urem_def split: option.splits if_splits)
  note w = r(5) [OF u]
  have pos: "0 < uval (sv_value y)" if "non_poison y"
    using r(7) [OF that u] nz w wf_bvD(2) [of rlo] by linarith
  have hold: "in_u (Some (mk w 0, apint_dec rhi)) (bvurem (sv_value x) (sv_value y))"
    if "non_poison x" "non_poison y"
  proof -
    have "uval (sv_value x) mod uval (sv_value y) < uval (sv_value y)" "0 < uval rhi"
      "0 \<le> uval (sv_value x) mod uval (sv_value y)"
      using pos [OF that(2)] r(7) [OF that(2) u] by simp_all
    then show ?thesis
      using r(7) [OF that(2) u] w wf_bvD [of rhi]
      by (simp add: in_u_def uval_bvurem [OF l(1) pos [OF that(2)]] apint_dec_def bvsub_def take_bit_id)
  qed
  show ?thesis
    by (rule b_urem.interval_branch [OF K ops _ sound_kbD(6) [OF K] _ _ _ _ _ fin])
      (use hold pos l(3) w in \<open>auto simp: wf_ivl_def apint_dec_def\<close>)
qed

lemma transfer_udiv_sound:
  assumes K: "sound_kb K" and ops: "operand_ok w lR lb x" "operand_ok w rR rb y"
    and out: "transfer_udiv K w lR rR lb rb = Some r'"
  shows "wf_kr w r' \<and> describes r' (binop_scalar no_facts no_facts w UDiv no_flags x y)"
proof -
  note l = operand_okD [OF ops(1)] and r = operand_okD [OF ops(2)]
  obtain llo lhi rlo rhi where u: "u_of lR = Some (llo, lhi)" "u_of rR = Some (rlo, rhi)"
    and nz: "uval rlo \<noteq> 0"
    and fin: "finish K w \<lparr>kr_u = Some (bvudiv llo rhi, bvudiv lhi rlo), kr_s = None,
        kr_bits = Some (kb_udiv K lb rb), undef_free = both undef_free lR rR,
        poison_free = both poison_free lR rR\<rparr> = Some r'"
    using out by (auto simp: transfer_udiv_def split: option.splits if_splits)
  note w = l(5) [OF u(1)] r(5) [OF u(2)]
  have pos: "0 < uval rlo" "non_poison y \<Longrightarrow> 0 < uval (sv_value y)" "non_poison y \<Longrightarrow> 0 < uval rhi"
    using r(7) [OF _ u(2)] nz w wf_bvD(2) [of rlo] by linarith+
  have hold: "in_u (Some (bvudiv llo rhi, bvudiv lhi rlo)) (bvudiv (sv_value x) (sv_value y))"
    if np: "non_poison x" "non_poison y"
  proof -
    note bl = l(7) [OF np(1) u(1)] and br = r(7) [OF np(2) u(2)]
    have "uval llo div uval rhi \<le> uval (sv_value x) div uval rhi"
      using bl pos(3) [OF np(2)] by (simp add: zdiv_mono1)
    also have "\<dots> \<le> uval (sv_value x) div uval (sv_value y)"
      using br pos(2) [OF np(2)] wf_bvD(2) [OF l(1)] by (simp add: zdiv_mono2)
    finally have lo: "uval llo div uval rhi \<le> uval (sv_value x) div uval (sv_value y)" .
    have "uval (sv_value x) div uval (sv_value y) \<le> uval lhi div uval (sv_value y)"
      using bl pos(2) [OF np(2)] by (simp add: zdiv_mono1)
    also have "\<dots> \<le> uval lhi div uval rlo"
      using br pos(1) w wf_bvD(2) [of lhi] by (simp add: zdiv_mono2)
    finally show ?thesis
      using lo w pos by (simp add: in_u_def uval_bvudiv l(1) np)
  qed
  show ?thesis
    by (rule b_udiv.interval_branch [OF K ops _ sound_kbD(7) [OF K] _ _ _ _ _ fin])
      (use hold pos l(3) w in \<open>auto simp: wf_ivl_def\<close>)
qed

lemma informative: "finish_if_informative K w r = Some r' \<Longrightarrow> finish K w r = Some r'"
  by (simp add: finish_if_informative_def split: if_splits)

lemma apint_shifts:
  "apint_lshr x (nat (uval y)) = bvlshr x y" "apint_ashr x (nat (uval y)) = bvashr x y"
  by (simp_all add: apint_lshr_def bvlshr_def apint_ashr_def bvashr_def)

lemma lshr_mono:
  assumes "wf_bv a" "wf_bv b" "wf_bv s" "wf_bv t" "uval a \<le> uval b" "uval t \<le> uval s"
  shows "uval (bvlshr a s) \<le> uval (bvlshr b t)"
proof -
  have "(2::int) ^ amt t \<le> 2 ^ amt s"
    using assms(6) by (intro pow2_mono) (simp add: amt_def nat_mono)
  then have "uval a div 2 ^ amt s \<le> uval a div 2 ^ amt t"
    using wf_bvD(2) [OF assms(1)] by (simp add: zdiv_mono2)
  also have "\<dots> \<le> uval b div 2 ^ amt t" using assms(5) by (simp add: zdiv_mono1)
  finally show ?thesis by (simp add: uval_bvlshr assms(1,2))
qed

lemma ashr_mono: "wf_bv a \<Longrightarrow> wf_bv b \<Longrightarrow> sval a \<le> sval b \<Longrightarrow> sval (bvashr a s) \<le> sval (bvashr b s)"
  by (simp add: sval_bvashr zdiv_mono1)

text \<open>The amount of a shift that passes \<open>shiftInRange\<close> is below the width; a constant amount is
  the value of the operand.\<close>

lemma shiftInRange_ConstInt:
  "shiftInRange (ConstInt c) w rR = (min (nat (uval c)) w < w, min (nat (uval c)) w)"
  by (simp add: shiftInRange_def Let_def)

lemma shiftInRange_variable:
  "\<forall>c. amt_op \<noteq> ConstInt c \<Longrightarrow> shiftInRange amt_op w rR =
     (case u_of rR of Some i \<Rightarrow> (uval (snd i) < int w, w) | None \<Rightarrow> (False, w))"
  by (cases amt_op) (simp_all add: shiftInRange_def u_of_def case_prod_beta split: option.splits)

lemma shiftInRange_ok:
  assumes op: "operand_ok w rR rb y" and const: "\<And>c. amt_op = ConstInt c \<Longrightarrow> sv_value y = c"
    and s: "shiftInRange amt_op w rR = (True, k)" and np: "non_poison y"
  shows "amt (sv_value y) < w"
proof (cases "\<exists>c. amt_op = ConstInt c")
  case True
  then obtain c where c: "amt_op = ConstInt c" by blast
  then show ?thesis using s const [OF c] by (simp add: shiftInRange_ConstInt amt_def min_less_iff_disj)
next
  case False
  then obtain lo hi where "u_of rR = Some (lo, hi)" "uval hi < int w"
    using s by (simp add: shiftInRange_variable split: option.splits) (metis prod.collapse)
  then have "uval (sv_value y) < int w" using operand_okD(7) [OF op np] by fastforce
  then show ?thesis using wf_bvD(2) [OF operand_okD(1) [OF op]] by (simp add: amt_def)
qed

lemma shiftInRange_const:
  assumes "\<And>c. amt_op = ConstInt c \<Longrightarrow> sv_value y = c"
    and s: "shiftInRange amt_op w rR = (True, k)" "k < w"
  shows "k = nat (uval (sv_value y))"
proof (cases "\<exists>c. amt_op = ConstInt c")
  case True
  then obtain c where c: "amt_op = ConstInt c" by blast
  then show ?thesis using s assms(1) [OF c] by (auto simp: shiftInRange_ConstInt)
next
  case False
  then show ?thesis using s by (simp add: shiftInRange_variable split: option.splits)
qed

lemma transfer_lshr_sound:
  assumes K: "sound_kb K" and ops: "operand_ok w lR lb x" "operand_ok w rR rb y"
    and const: "\<And>c. amt_op = ConstInt c \<Longrightarrow> sv_value y = c"
    and out: "transfer_lshr K w amt_op lR rR lb rb = Some r'"
  shows "wf_kr w r' \<and> describes r' (binop_scalar no_facts no_facts w LShr no_flags x y)"
proof -
  note l = operand_okD [OF ops(1)] and r = operand_okD [OF ops(2)]
  obtain k where sr: "shiftInRange amt_op w rR = (True, k)"
    using out by (auto simp: transfer_lshr_def split: prod.splits if_splits)
  define u where "u = (case u_of lR of
      Some (llo, lhi) \<Rightarrow>
        if k < w then Some (apint_lshr llo k, apint_lshr lhi k)
        else (case u_of rR of
                Some (rlo, rhi) \<Rightarrow>
                  Some (apint_lshr llo (nat (uval rhi)), apint_lshr lhi (nat (uval rlo)))
              | None \<Rightarrow> None)
    | None \<Rightarrow> None)"
  have fin: "finish K w \<lparr>kr_u = u, kr_s = None, kr_bits = Some (kb_lshr K lb rb),
      undef_free = both undef_free lR rR, poison_free = both poison_free lR rR\<rparr> = Some r'"
    using out informative by (simp add: transfer_lshr_def sr u_def Let_def)
  have wf: "wf_ivl w u"
    using l(3,5) by (auto simp: u_def wf_ivl_def apint_lshr_def split: option.splits)
  have hold: "in_u u (bvlshr (sv_value x) (sv_value y))" if np: "non_poison x" "non_poison y"
  proof (cases "k < w")
    case True
    have k: "k = nat (uval (sv_value y))"
      using shiftInRange_const [OF const sr True] by simp
    show ?thesis using l(1,5) l(7) [OF np(1)] r(1) True
      by (auto simp: u_def k apint_shifts in_u_def split: option.splits intro!: lshr_mono)
  next
    case False
    then show ?thesis using l(1,5) l(7) [OF np(1)] r(1,5) r(7) [OF np(2)]
      by (auto simp: u_def apint_shifts in_u_def split: option.splits intro!: lshr_mono)
  qed
  show ?thesis
    by (rule b_lshr.interval_branch [OF K ops _ sound_kbD(8) [OF K] wf _ _ _ _ fin])
      (use hold shiftInRange_ok [OF ops(2) const sr] l(2) in simp_all)
qed

text \<open>For \<open>ashr\<close> the bounds of a constant shift are right.\<close>

lemma transfer_ashr_sound:
  assumes K: "sound_kb K" and ops: "operand_ok w lR lb x" "operand_ok w rR rb y"
    and const: "amt_op = ConstInt (sv_value y)"
    and out: "transfer_ashr K w amt_op lR rR lb rb = Some r'"
  shows "wf_kr w r' \<and> describes r' (binop_scalar no_facts no_facts w AShr no_flags x y)"
proof -
  note l = operand_okD [OF ops(1)] and r = operand_okD [OF ops(2)]
  have c: "\<And>c. amt_op = ConstInt c \<Longrightarrow> sv_value y = c" by (simp add: const)
  obtain k where sr: "shiftInRange amt_op w rR = (True, k)"
    using out by (auto simp: transfer_ashr_def split: prod.splits if_splits)
  have kw: "k < w" using sr by (auto simp: const shiftInRange_ConstInt)
  have k: "k = nat (uval (sv_value y))" using shiftInRange_const [OF c sr kw] by simp
  define s where "s = map_option (\<lambda>(lo, hi). (bvashr lo (sv_value y), bvashr hi (sv_value y))) (s_of lR)"
  have fin: "finish K w \<lparr>kr_u = None, kr_s = s, kr_bits = Some (kb_ashr K lb rb),
      undef_free = both undef_free lR rR, poison_free = both poison_free lR rR\<rparr> = Some r'"
    using out informative kw
    by (auto simp: transfer_ashr_def sr s_def Let_def k apint_shifts split: option.splits)
  have wf: "wf_ivl w s"
    using l(6) by (auto simp: s_def wf_ivl_def split: option.splits)
  have hold: "in_s s (bvashr (sv_value x) (sv_value y))" if np: "non_poison x" "non_poison y"
    using l(1,6) l(8) [OF np(1)]
    by (auto simp: s_def in_s_def split: option.splits intro!: ashr_mono)
  show ?thesis
    by (rule b_ashr.interval_branch [OF K ops _ sound_kbD(9) [OF K] _ wf _ _ _ fin])
      (use hold shiftInRange_ok [OF ops(2) c sr] l(2) in simp_all)
qed

text \<open>Without wrap flags the arithmetic branches record bits only.\<close>

lemma transfer_shl_sound:
  assumes K: "sound_kb K" and ops: "operand_ok w lR lb x" "operand_ok w rR rb y"
    and const: "\<And>c. amt_op = ConstInt c \<Longrightarrow> sv_value y = c"
    and out: "transfer_shl K w False False amt_op lR rR lb rb = Some r'"
  shows "wf_kr w r' \<and> describes r' (binop_scalar no_facts no_facts w Shl no_flags x y)"
proof -
  obtain k where sr: "shiftInRange amt_op w rR = (True, k)"
    using out by (auto simp: transfer_shl_def split: prod.splits if_splits)
  have fin: "finish K w \<lparr>kr_u = None, kr_s = None, kr_bits = Some (kb_shl K lb rb False False),
      undef_free = both undef_free lR rR, poison_free = both poison_free lR rR\<rparr> = Some r'"
    using out informative by (simp add: transfer_shl_def sr Let_def)
  show ?thesis
    by (rule b_shl.interval_branch [OF K ops _ sound_kbD(11) [OF K] _ _ _ _ _ fin])
      (use shiftInRange_ok [OF ops(2) const sr] operand_okD(2) [OF ops(1)] in simp_all)
qed

lemma transfer_add_sound:
  assumes K: "sound_kb K" and ops: "operand_ok w lR lb x" "operand_ok w rR rb y"
    and out: "transfer_add K w False False lR rR lb rb = Some r'"
  shows "wf_kr w r' \<and> describes r' (binop_scalar no_facts no_facts w Add no_flags x y)"
proof -
  have fin: "finish K w \<lparr>kr_u = None, kr_s = None, kr_bits = Some (kb_computeForAddSub K True False False lb rb),
      undef_free = both undef_free lR rR, poison_free = both poison_free lR rR\<rparr> = Some r'"
    using out informative by (simp add: transfer_add_def case_prod_beta arith_poison_free_def
        cong: option.case_cong split: option.splits)
  show ?thesis
    by (rule b_add.interval_branch [OF K ops _ sound_kbD(12) [OF K] _ _ _ _ _ fin]) simp_all
qed

lemma transfer_sub_sound:
  assumes K: "sound_kb K" and ops: "operand_ok w lR lb x" "operand_ok w rR rb y"
    and out: "transfer_sub K w False False lR rR lb rb = Some r'"
  shows "wf_kr w r' \<and> describes r' (binop_scalar no_facts no_facts w Sub no_flags x y)"
proof -
  have fin: "finish K w \<lparr>kr_u = None, kr_s = None, kr_bits = Some (kb_computeForAddSub K False False False lb rb),
      undef_free = both undef_free lR rR, poison_free = both poison_free lR rR\<rparr> = Some r'"
    using out informative by (simp add: transfer_sub_def case_prod_beta arith_poison_free_def
        cong: option.case_cong split: option.splits)
  show ?thesis
    by (rule b_sub.interval_branch [OF K ops _ sound_kbD(13) [OF K] _ _ _ _ _ fin]) simp_all
qed

lemma transfer_mul_sound:
  assumes K: "sound_kb K" and ops: "operand_ok w lR lb x" "operand_ok w rR rb y"
    and out: "transfer_mul K w False False lR rR lb rb = Some r'"
  shows "wf_kr w r' \<and> describes r' (binop_scalar no_facts no_facts w Mul no_flags x y)"
proof -
  have fin: "finish K w \<lparr>kr_u = None, kr_s = None, kr_bits = Some (kb_mul K lb rb),
      undef_free = both undef_free lR rR, poison_free = both poison_free lR rR\<rparr> = Some r'"
    using out informative by (simp add: transfer_mul_def case_prod_beta arith_poison_free_def
        cong: option.case_cong split: option.splits)
  show ?thesis
    by (rule b_mul.interval_branch [OF K ops _ sound_kbD(10) [OF K] _ _ _ _ _ fin]) simp_all
qed

section \<open>Casts, select and freeze\<close>

text \<open>What a cast needs of its only operand, with the width of the source.\<close>

lemma cast_branch:
  assumes K: "sound_kb K" and op: "operand_ok w' (Some R) sb x" and w: "0 < w"
    and res: "v = sv z (non_poison x)" "wf_bv z" "bits z = w"
    and k: "kb_has sb (sv_value x) \<Longrightarrow> kb_has kb z"
    and wf: "wf_ivl w u" "wf_ivl w s"
    and val: "non_poison x \<Longrightarrow> in_u u z" "non_poison x \<Longrightarrow> in_s s z"
    and out: "finish K w \<lparr>kr_u = u, kr_s = s, kr_bits = Some kb,
        undef_free = d, poison_free = poison_free R\<rparr> = Some r'"
  shows "wf_kr w r' \<and> describes r' v"
proof (rule finish_describes [OF K _ _ _ _ out])
  show "wf_sv w v" using res by (simp add: wf_sv_def sv_def)
  show "holds \<lparr>kr_u = u, kr_s = s, kr_bits = Some kb, undef_free = d, poison_free = poison_free R\<rparr>
      (sv_value v)" if "non_poison v"
    using that res(1) val k operand_okD(4) [OF op] by (simp add: sv_def holds_def in_b_def)
qed (use res(1) wf operand_okD(9) [OF op] in \<open>simp_all add: sv_def wf_kr_def\<close>)

lemma transfer_zext_sound:
  assumes K: "sound_kb K" and op: "operand_ok w' (Some R) sb x" and w: "w' < w" and fl: "\<not> c_nneg fl"
    and out: "transfer_zext K w R sb = Some r'"
  shows "wf_kr w r' \<and> describes r' (conv_scalar ZExt fl w x)"
proof -
  note x = operand_okD [OF op]
  have w0: "0 < w" using w by simp
  define ext where "ext = (\<lambda>a. bvzext a (w - bits a))"
  define u where "u = (case kr_u R of
      Some (lo, hi) \<Rightarrow> Some (ext lo, ext hi)
    | None \<Rightarrow> (case kr_s R of
                 Some (lo, hi) \<Rightarrow> if \<not> isNegative lo then Some (ext lo, ext hi) else None
               | None \<Rightarrow> None))"
  have fin: "finish K w \<lparr>kr_u = u, kr_s = None, kr_bits = Some (kb_zext K sb w),
      undef_free = undef_free R, poison_free = poison_free R\<rparr> = Some r'"
    using out unfolding transfer_zext_def Let_def u_def ext_def by (simp split: if_splits)
  have res: "conv_scalar ZExt fl w x = sv (ext (sv_value x)) (non_poison x)"
    using fl by (simp add: conv_scalar_def conv_fn_def zext_eq x(1,2) ext_def)
  have wfu: "wf_ivl w u"
    using x(5,6) w by (auto simp: u_def ext_def wf_ivl_def u_of_def s_of_def split: option.splits)
  have hold: "in_u u (ext (sv_value x))" if np: "non_poison x"
  proof -
    have "in_u (Some (lo, hi)) (sv_value x)" if "kr_s R = Some (lo, hi)" "\<not> isNegative lo" for lo hi
      by (rule in_s_in_u [OF x(1)]) (use x(6,8) np that in \<open>auto simp: s_of_def in_s_def\<close>)
    then show ?thesis
      using x(7) [OF np] by (auto simp: u_def ext_def in_u_def u_of_def split: option.splits)
  qed
  have kz: "kb_has sb (sv_value x) \<Longrightarrow> kb_has (kb_zext K sb w) (ext (sv_value x))"
    using sound_kbD(15) [OF K x(1)] w x(2) by (simp add: ext_def)
  show ?thesis
    by (rule cast_branch [OF K op w0 res _ _ kz wfu _ _ _ fin])
      (use hold w x(1,2) in \<open>simp_all add: ext_def\<close>)
qed

lemma transfer_sext_sound:
  assumes K: "sound_kb K" and op: "operand_ok w' (Some R) sb x" and w: "w' < w"
    and out: "transfer_sext K w R sb = Some r'"
  shows "wf_kr w r' \<and> describes r' (conv_scalar SExt fl w x)"
proof -
  note x = operand_okD [OF op]
  have w0: "0 < w" using w by simp
  define ext where "ext = (\<lambda>a. bvsext a (w - bits a))"
  define s where "s = (case kr_s R of
      Some (lo, hi) \<Rightarrow> Some (ext lo, ext hi)
    | None \<Rightarrow> (case kr_u R of
                 Some (lo, hi) \<Rightarrow> if \<not> isNegative hi then Some (ext lo, ext hi) else None
               | None \<Rightarrow> None))"
  have fin: "finish K w \<lparr>kr_u = None, kr_s = s, kr_bits = Some (kb_sext K sb w),
      undef_free = undef_free R, poison_free = poison_free R\<rparr> = Some r'"
    using out unfolding transfer_sext_def Let_def s_def ext_def by (simp split: if_splits)
  have res: "conv_scalar SExt fl w x = sv (ext (sv_value x)) (non_poison x)"
    by (simp add: conv_scalar_def conv_fn_def x(2) ext_def)
  have wfs: "wf_ivl w s"
    using x(5,6) w by (auto simp: s_def ext_def wf_ivl_def u_of_def s_of_def split: option.splits)
  have hold: "in_s s (ext (sv_value x))" if np: "non_poison x"
  proof -
    have "in_s (Some (lo, hi)) (sv_value x)" if "kr_u R = Some (lo, hi)" "\<not> isNegative hi" for lo hi
      by (rule in_u_in_s [OF x(1)]) (use x(2,5,7) np that in \<open>auto simp: u_of_def in_u_def\<close>)
    then show ?thesis
      using x(1,5,6) x(8) [OF np]
      by (auto simp: s_def ext_def in_s_def s_of_def u_of_def split: option.splits)
  qed
  have ks: "kb_has sb (sv_value x) \<Longrightarrow> kb_has (kb_sext K sb w) (ext (sv_value x))"
    using sound_kbD(16) [OF K x(1)] w x(2) by (simp add: ext_def)
  show ?thesis
    by (rule cast_branch [OF K op w0 res _ _ ks _ wfs _ _ fin])
      (use hold w x(1,2) in \<open>simp_all add: ext_def\<close>)
qed

lemma uval_bvtrunc: "0 \<le> uval x \<Longrightarrow> uval x < 2 ^ w \<Longrightarrow> uval (bvtrunc x w) = uval x"
  by (simp add: bvtrunc_def take_bit_id)

lemma transfer_trunc_sound:
  assumes K: "sound_kb K" and op: "operand_ok w' (Some R) sb x" and w: "0 < w" "w < w'"
    and fl: "\<not> c_nuw fl" "\<not> c_nsw fl" and out: "transfer_trunc K w R sb = Some r'"
  shows "wf_kr w r' \<and> describes r' (conv_scalar Trunc fl w x)"
proof -
  note x = operand_okD [OF op]
  define u where "u = (case kr_u R of
      Some (lo, hi) \<Rightarrow> if getActiveBits hi \<le> w then Some (bvtrunc lo w, bvtrunc hi w) else None
    | None \<Rightarrow> None)"
  have fin: "finish K w \<lparr>kr_u = u, kr_s = None, kr_bits = Some (kb_trunc K sb w),
      undef_free = undef_free R, poison_free = poison_free R\<rparr> = Some r'"
    using out unfolding transfer_trunc_def Let_def u_def by (simp split: if_splits)
  have res: "conv_scalar Trunc fl w x = sv (bvtrunc (sv_value x) w) (non_poison x)"
    using fl by (simp add: conv_scalar_def conv_fn_def Let_def trunc_eq w)
  have wfu: "wf_ivl w u" using w by (auto simp: u_def wf_ivl_def split: option.splits)
  have hold: "in_u u (bvtrunc (sv_value x) w)" if np: "non_poison x"
  proof -
    have "in_u (Some (bvtrunc lo w, bvtrunc hi w)) (bvtrunc (sv_value x) w)"
      if "kr_u R = Some (lo, hi)" "getActiveBits hi \<le> w" for lo hi
    proof -
      have i: "wf_bv lo" "wf_bv hi" "uval lo \<le> uval (sv_value x)" "uval (sv_value x) \<le> uval hi"
        using x(5,7) np that by (auto simp: u_of_def)
      have "uval hi < 2 ^ w" using lt_pow2_mono [OF getActiveBits_lt that(2)] i(2) by blast
      then show ?thesis
        using i wf_bvD(2) [OF i(1)] by (simp add: in_u_def uval_bvtrunc)
    qed
    then show ?thesis by (auto simp: u_def split: option.splits)
  qed
  have kt: "kb_has sb (sv_value x) \<Longrightarrow> kb_has (kb_trunc K sb w) (bvtrunc (sv_value x) w)"
    using sound_kbD(17) [OF K x(1) w(1)] w x(2) by simp
  show ?thesis
    by (rule cast_branch [OF K op w(1) res _ _ kt wfu _ _ _ fin]) (use hold w in simp_all)
qed

lemma transfer_select_sound:
  assumes K: "sound_kb K" and c: "\<And>r. rangeOf K cv m = Some r \<Longrightarrow> describes r c"
    and ops: "operand_ok w (rangeOf K tv m) (knownBitsOf K tyof tv m) x"
      "operand_ok w (rangeOf K fv m) (knownBitsOf K tyof fv m) y"
    and out: "transfer_select K tyof w cv tv fv m = Some r'"
  shows "wf_kr w r' \<and> describes r' (select_scalar c x y)"
proof -
  note l = operand_okD [OF ops(1)] and r = operand_okD [OF ops(2)]
  define tR where "tR = rangeOf K tv m"
  define fR where "fR = rangeOf K fv m"
  define u where "u = (case (u_of tR, u_of fR) of
      (Some (tlo, thi), Some (flo, fhi)) \<Rightarrow>
        Some (if bvult tlo flo then tlo else flo, if bvult fhi thi then thi else fhi)
    | _ \<Rightarrow> None)"
  define s where "s = (case (s_of tR, s_of fR) of
      (Some (tlo, thi), Some (flo, fhi)) \<Rightarrow>
        Some (if bvslt tlo flo then tlo else flo, if bvslt fhi thi then thi else fhi)
    | _ \<Rightarrow> None)"
  define b where "b = kb_intersectWith K (knownBitsOf K tyof tv m) (knownBitsOf K tyof fv m)"
  define p where "p = (both poison_free (rangeOf K cv m) tR \<and> both poison_free (rangeOf K cv m) fR)"
  have "\<exists>d. finish K w \<lparr>kr_u = u, kr_s = s, kr_bits = Some b, undef_free = d, poison_free = p\<rparr> = Some r'"
    using out unfolding transfer_select_def Let_def u_def s_def b_def p_def tR_def fR_def
    by (auto split: if_splits)
  then obtain d where fin: "finish K w \<lparr>kr_u = u, kr_s = s, kr_bits = Some b, undef_free = d,
      poison_free = p\<rparr> = Some r'" by blast
  have wf: "wf_ivl w u" "wf_ivl w s"
    using l(5,6) r(5,6) by (auto simp: u_def s_def tR_def fR_def wf_ivl_def split: option.splits)
  have hold: "in_u u z \<and> in_s s z \<and> kb_has b z"
    if "non_poison x \<and> z = sv_value x \<or> non_poison y \<and> z = sv_value y" for z
  proof (intro conjI)
    show "in_u u z" using that l(7) r(7)
      by (auto simp: u_def tR_def fR_def in_u_def bvult_def split: option.splits)
    show "in_s s z" using that l(8) r(8)
      by (auto simp: s_def tR_def fR_def in_s_def bvslt_def split: option.splits)
    show "kb_has b z" using that l(4) r(4) sound_kbD(14) [OF K] by (auto simp: b_def)
  qed
  show ?thesis
  proof (rule finish_describes [OF K _ _ _ _ fin])
    show "wf_sv w (select_scalar c x y)"
      using l(1,2) r(1,2) by (simp add: wf_sv_def select_scalar_def Let_def sv_def)
    show "non_poison (select_scalar c x y)"
      if "poison_free \<lparr>kr_u = u, kr_s = s, kr_bits = Some b, undef_free = d, poison_free = p\<rparr>"
      using that c l(9) r(9)
      by (auto simp: p_def both_def describes_def select_scalar_def Let_def sv_def tR_def fR_def)
    show "holds \<lparr>kr_u = u, kr_s = s, kr_bits = Some b, undef_free = d, poison_free = p\<rparr>
        (sv_value (select_scalar c x y))" if "non_poison (select_scalar c x y)"
      using that hold [of "sv_value x"] hold [of "sv_value y"]
      by (auto simp: select_scalar_def Let_def sv_def holds_def in_b_def split: if_splits)
  qed (use wf in \<open>simp add: wf_kr_def\<close>)
qed

text \<open>The result of \<open>freeze\<close> is never poison; it is in the range of the operand when the operand
  is not poison.\<close>

lemma transfer_freeze_sound:
  assumes K: "sound_kb K" and op: "operand_ok w (rangeOf K a m) kb x"
    and np: "non_poison x" and st: "freeze_step x y"
    and out: "transfer_freeze K w a m = Some r'"
  shows "wf_kr w r' \<and> describes r' y"
proof -
  note x = operand_okD [OF op]
  define R where "R = (case rangeOf K a m of
      Some x \<Rightarrow> \<lparr>kr_u = kr_u x, kr_s = kr_s x, kr_bits = kr_bits x, undef_free = True, poison_free = True\<rparr>
    | None \<Rightarrow> empty_range\<lparr>undef_free := True, poison_free := True\<rparr>)"
  have y: "sv_value y = sv_value x" "non_poison y" using st np by (simp_all add: freeze_step_def)
  have r: "r' = deriveBitsFromIntervals K R w"
    using out by (simp add: transfer_freeze_def R_def Let_def)
  have "wf_kr w R" using op
    by (auto simp: R_def operand_ok_def wf_kr_def empty_range_def split: option.splits)
  moreover have "holds R (sv_value x)" using op np
    by (auto simp: R_def operand_ok_def describes_def holds_def empty_range_def in_b_def
        split: option.splits)
  ultimately show ?thesis
    unfolding r using x(1,2) y by (intro tail_describes [OF K]) (simp_all add: wf_sv_def)
qed

end
