(* ===== verification/RangeFlow.thy ===== *)
theory RangeFlow
  imports RangeSound
begin

text \<open>
  The analysis along a straight-line sequence of instructions. Executions are the runs of the
  instruction encodings; the facts of \<open>computeRanges\<close> describe every value of every run of a
  sequence of trusted instructions, provided the seed does. Trusted are the instructions
  whose transfer branch keeps the promise: no poison-generating flag, constant amounts for
  \<open>ashr\<close>, and no \<open>freeze\<close>.
\<close>

section \<open>Executions\<close>

text \<open>Well-typed instructions, as the LLVM verifier accepts them.\<close>

definition wf_val :: "val \<Rightarrow> bool" where
  "wf_val v = (case v of ConstInt c \<Rightarrow> wf_bv c | _ \<Rightarrow> True)"

definition typed_inst :: "(val \<Rightarrow> ty) \<Rightarrow> inst \<Rightarrow> bool" where
  "typed_inst tyof I \<longleftrightarrow>
     tyof (InstV (i_id I)) = i_ty I \<and> list_all wf_val (i_ops I) \<and>
     (case i_ty I of
        IntTy w \<Rightarrow> 0 < w \<and>
          (case (i_op I, i_ops I) of
             (OBin op, [a, b]) \<Rightarrow> tyof a = IntTy w \<and> tyof b = IntTy w
           | (OCast op, [a]) \<Rightarrow>
               (case tyof a of IntTy w' \<Rightarrow> 0 < w' \<and> (if op = Trunc then w < w' else w' < w) | _ \<Rightarrow> False)
           | (OSelect, [c, a, b]) \<Rightarrow> tyof c = IntTy 1 \<and> tyof a = IntTy w \<and> tyof b = IntTy w
           | (OFreeze, [a]) \<Rightarrow> tyof a = IntTy w
           | _ \<Rightarrow> True)
      | _ \<Rightarrow> True)"

definition env_ok :: "(val \<Rightarrow> ty) \<Rightarrow> env \<Rightarrow> bool" where
  "env_ok tyof \<rho> \<longleftrightarrow>
     (\<forall>V w. tyof V = IntTy w \<longrightarrow> 0 < w \<longrightarrow> wf_sv w (\<rho> V)) \<and>
     (\<forall>c. wf_bv c \<longrightarrow> \<rho> (ConstInt c) = sv c True)"

section \<open>Maps of ranges\<close>

definition map_ok :: "(val \<Rightarrow> ty) \<Rightarrow> env \<Rightarrow> range_map \<Rightarrow> bool" where
  "map_ok tyof \<rho> m \<longleftrightarrow>
     (\<forall>V r. m V = Some r \<longrightarrow> (\<exists>w. tyof V = IntTy w \<and> 0 < w \<and> wf_kr w r \<and> describes r (\<rho> V)))"

definition isConstInt :: "val \<Rightarrow> bool" where
  "isConstInt v = (case v of ConstInt _ \<Rightarrow> True | _ \<Rightarrow> False)"

definition trusted_inst :: "inst \<Rightarrow> bool" where
  "trusted_inst I =
     (case (i_op I, i_ops I) of
        (OBin op, [a, b]) \<Rightarrow> plain_flags (binop_flags_of I) \<and> (op = AShr \<longrightarrow> isConstInt b)
      | (OCast op, [a]) \<Rightarrow> \<not> i_nneg I \<and> \<not> i_nuw I \<and> \<not> i_nsw I
      | (OFreeze, _) \<Rightarrow> False
      | _ \<Rightarrow> True)"

text \<open>A \<open>freeze\<close> whose operand happens not to be poison is harmless too.\<close>

definition faithful_inst :: "env \<Rightarrow> inst \<Rightarrow> bool" where
  "faithful_inst \<rho> I \<longleftrightarrow> trusted_inst I \<or> (\<exists>a. i_op I = OFreeze \<and> i_ops I = [a] \<and> non_poison (\<rho> a))"

lemma env_okD:
  assumes "env_ok tyof \<rho>"
  shows "tyof V = IntTy w \<Longrightarrow> 0 < w \<Longrightarrow> wf_sv w (\<rho> V)" "wf_bv c \<Longrightarrow> \<rho> (ConstInt c) = sv c True"
  using assms unfolding env_ok_def by blast+

lemma wf_kr_singleton: "wf_bv c \<Longrightarrow> wf_kr (bits c) \<lparr>kr_u = Some (c, c), kr_s = Some (c, c),
    kr_bits = b, undef_free = d, poison_free = p\<rparr>"
  by (simp add: wf_kr_def wf_ivl_def)

lemma operand_of:
  assumes K: "sound_kb K" and e: "env_ok tyof \<rho>" and m: "map_ok tyof \<rho> m"
    and V: "tyof V = IntTy w" "0 < w" "wf_val V"
  shows "operand_ok w (rangeOf K V m) (knownBitsOf K tyof V m) (\<rho> V)"
proof -
  have wf: "wf_sv w (\<rho> V)" by (rule env_okD(1) [OF e V(1,2)])
  have const: "\<rho> V = sv c True \<and> wf_bv c \<and> bits c = w" if "V = ConstInt c" for c
    using env_okD(2) [OF e, of c] V(3) wf that by (simp add: wf_val_def wf_sv_def sv_def)
  have entry: "wf_kr w r \<and> describes r (\<rho> V)" if "m V = Some r" for r
    using m [unfolded map_ok_def, rule_format, OF that] V(1) by auto
  have "wf_kr w r \<and> describes r (\<rho> V)" if r: "rangeOf K V m = Some r" for r
  proof (cases "m V")
    case None
    then obtain c where c: "V = ConstInt c" and r: "r = \<lparr>kr_u = Some (c, c), kr_s = Some (c, c),
        kr_bits = Some (kb_makeConstant K c), undef_free = True, poison_free = True\<rparr>"
      using r by (auto simp: rangeOf_def split: val.splits)
    show ?thesis using const [OF c] wf_kr_singleton [of c] sound_kbD(2) [OF K, of c]
      by (auto simp: r describes_def holds_def in_u_def in_s_def in_b_def sv_def)
  qed (use r entry in \<open>simp add: rangeOf_def\<close>)
  moreover have "kb_has (knownBitsOf K tyof V m) (sv_value (\<rho> V))" if np: "non_poison (\<rho> V)"
  proof (cases "\<exists>c. V = ConstInt c")
    case True
    then show ?thesis using const sound_kbD(2) [OF K] by (auto simp: knownBitsOf_def sv_def)
  next
    case False
    have "kb_has b (sv_value (\<rho> V))" if "m V = Some r" "kr_bits r = Some b" for r b
      using entry [OF that(1)] that(2) np by (auto simp: describes_def holds_def in_b_def)
    then show ?thesis using False sound_kbD(1) [OF K]
      by (cases V) (auto simp: knownBitsOf_def split: option.splits)
  qed
  ultimately show ?thesis using wf by (simp add: operand_ok_def)
qed

section \<open>One instruction\<close>

lemma transfer_binop_sound:
  assumes K: "sound_kb K" and e: "env_ok tyof \<rho>" and m: "map_ok tyof \<rho> m"
    and ab: "tyof a = IntTy w" "tyof b = IntTy w" "0 < w" "wf_val a" "wf_val b"
    and fl: "plain_flags (binop_flags_of I)" "op = AShr \<Longrightarrow> isConstInt b"
    and out: "transfer_binop K tyof w I op a b m = Some r"
  shows "wf_kr w r \<and> describes r (binop_scalar no_facts no_facts w op (binop_flags_of I) (\<rho> a) (\<rho> b))"
proof -
  have ops: "operand_ok w (rangeOf K a m) (knownBitsOf K tyof a m) (\<rho> a)"
    "operand_ok w (rangeOf K b m) (knownBitsOf K tyof b m) (\<rho> b)"
    by (rule operand_of [OF K e m ab(1,3,4)], rule operand_of [OF K e m ab(2,3,5)])
  have const: "\<And>c. b = ConstInt c \<Longrightarrow> sv_value (\<rho> b) = c"
    using ab(5) env_okD(2) [OF e] by (auto simp: wf_val_def sv_def)
  have flags: "binop_flags_of I = no_flags" "\<not> i_nsw I" "\<not> i_nuw I"
    using fl(1) plain_flags_eq by (auto simp: binop_flags_of_def plain_flags_def)
  have ashr: "b = ConstInt (sv_value (\<rho> b))" if "op = AShr"
    using fl(2) [OF that] const by (auto simp: isConstInt_def split: val.splits)
  show ?thesis
    unfolding flags(1) using out flags(2,3) ashr
    by (cases op) (simp_all add: transfer_binop_def Let_def,
      (rule transfer_and_sound [OF K ops] transfer_or_sound [OF K ops] transfer_xor_sound [OF K ops]
         transfer_urem_sound [OF K ops] transfer_udiv_sound [OF K ops]
         transfer_lshr_sound [OF K ops const] transfer_ashr_sound [OF K ops]
         transfer_shl_sound [OF K ops const] transfer_add_sound [OF K ops]
         transfer_sub_sound [OF K ops] transfer_mul_sound [OF K ops]; simp)+)
qed

lemma transfer_cast_sound:
  assumes K: "sound_kb K" and e: "env_ok tyof \<rho>" and m: "map_ok tyof \<rho> m"
    and a: "tyof a = IntTy w'" "0 < w'" "wf_val a" and w: "if op = Trunc then 0 < w \<and> w < w' else w' < w"
    and fl: "\<not> c_nneg fl" "\<not> c_nuw fl" "\<not> c_nsw fl"
    and out: "transfer_cast K tyof w op a m = Some r"
  shows "wf_kr w r \<and> describes r (conv_scalar op fl w (\<rho> a))"
proof -
  obtain R where R: "rangeOf K a m = Some R"
    using out by (auto simp: transfer_cast_def split: option.splits)
  have op: "operand_ok w' (Some R) (knownBitsOf K tyof a m) (\<rho> a)"
    using operand_of [OF K e m a] R by simp
  show ?thesis using out w
    by (cases op) (simp_all add: transfer_cast_def R Let_def,
      (rule transfer_zext_sound [OF K op _ fl(1)] transfer_sext_sound [OF K op]
        transfer_trunc_sound [OF K op _ _ fl(2,3)]; simp)+)
qed

lemma transfer_sound:
  assumes K: "sound_kb K" and e: "env_ok tyof \<rho>" and m: "map_ok tyof \<rho> m"
    and I: "typed_inst tyof I" "faithful_inst \<rho> I" and v: "inst_result \<rho> I v"
    and out: "transfer K tyof I m = Some r"
  shows "\<exists>w. i_ty I = IntTy w \<and> 0 < w \<and> wf_kr w r \<and> describes r v"
proof -
  obtain w where w: "i_ty I = IntTy w" "0 < w"
    using out I(1) by (auto simp: transfer_def typed_inst_def split: ty.splits)
  have wfv: "list_all wf_val (i_ops I)" using I(1) by (simp add: typed_inst_def)
  consider (select) c a b where "i_op I = OSelect" "i_ops I = [c, a, b]"
    | (freeze) a where "i_op I = OFreeze" "i_ops I = [a]"
    | (bin) op a b where "i_op I = OBin op" "i_ops I = [a, b]"
    | (cast) op a where "i_op I = OCast op" "i_ops I = [a]"
    using out w by (auto simp: transfer_def split: opcode.splits list.splits)
  then have "wf_kr w r \<and> describes r v"
  proof cases
    case select
    have t: "tyof c = IntTy 1" "tyof a = IntTy w" "tyof b = IntTy w"
      using I(1) w select by (auto simp: typed_inst_def)
    have "describes r (\<rho> c)" if "rangeOf K c m = Some r" for r
      using operand_of [OF K e m t(1)] wfv that select by (auto simp: operand_ok_def)
    then show ?thesis
      using transfer_select_sound [OF K _ operand_of [OF K e m t(2) w(2)] operand_of [OF K e m t(3) w(2)]]
        out v wfv w select by (auto simp: transfer_def inst_result.simps)
  next
    case freeze
    have t: "tyof a = IntTy w" using I(1) w freeze by (auto simp: typed_inst_def)
    have "non_poison (\<rho> a)" using I(2) freeze by (auto simp: faithful_inst_def trusted_inst_def)
    then show ?thesis
      using transfer_freeze_sound [OF K operand_of [OF K e m t w(2)]] out v wfv w freeze
      by (auto simp: transfer_def inst_result.simps)
  next
    case bin
    have t: "tyof a = IntTy w" "tyof b = IntTy w" "plain_flags (binop_flags_of I)"
        "op = AShr \<Longrightarrow> isConstInt b"
      using I w bin by (auto simp: typed_inst_def faithful_inst_def trusted_inst_def)
    show ?thesis
      using transfer_binop_sound [OF K e m t(1,2) w(2) _ _ t(3,4)] out v wfv w bin
      by (auto simp: transfer_def inst_result.simps int_width_def)
  next
    case cast
    obtain w' where t: "tyof a = IntTy w'" "0 < w'" "if op = Trunc then w < w' else w' < w"
      using I(1) w cast by (auto simp: typed_inst_def split: ty.splits)
    have "\<not> i_nneg I" "\<not> i_nuw I" "\<not> i_nsw I"
      using I(2) cast by (auto simp: faithful_inst_def trusted_inst_def)
    then show ?thesis
      using transfer_cast_sound [OF K e m t(1,2), of op w "conv_flags_of I"] t(3) out v wfv w cast
      by (auto simp: transfer_def inst_result.simps int_width_def conv_flags_of_def)
  qed
  with w show ?thesis by blast
qed

section \<open>A sequence of instructions\<close>

lemma env_ok_update:
  assumes "env_ok tyof \<rho>" "tyof (InstV n) = t" "\<forall>w. t = IntTy w \<longrightarrow> 0 < w \<longrightarrow> wf_sv w v"
  shows "env_ok tyof (\<rho>(InstV n := v))"
  using assms by (auto simp: env_ok_def)

lemma map_ok_update:
  assumes "map_ok tyof \<rho> m" "m (InstV n) = None"
    "\<And>r. R = Some r \<Longrightarrow> \<exists>w. tyof (InstV n) = IntTy w \<and> 0 < w \<and> wf_kr w r \<and> describes r v"
  shows "map_ok tyof (\<rho>(InstV n := v)) (case R of Some r \<Rightarrow> m(InstV n \<mapsto> r) | None \<Rightarrow> m)"
  using assms by (cases R) (auto simp: map_ok_def)

lemma computeRanges_sound_gen:
  assumes "run \<rho> insts \<rho>'" and "sound_kb K"
    and "env_ok tyof \<rho>" "map_ok tyof \<rho> m"
    and "\<forall>I \<in> set insts. typed_inst tyof I \<and> trusted_inst I \<and> m (InstV (i_id I)) = None"
    and "distinct (map i_id insts)"
  shows "env_ok tyof \<rho>' \<and> map_ok tyof \<rho>' (computeRanges K tyof insts m)"
  using assms
proof (induction arbitrary: m rule: run.induct)
  case (run_Cons \<rho> I v Is \<rho>')
  let ?m = "case transfer K tyof I m of Some r \<Rightarrow> m(InstV (i_id I) \<mapsto> r) | None \<Rightarrow> m"
  have I: "typed_inst tyof I" "trusted_inst I" "m (InstV (i_id I)) = None"
    using run_Cons.prems(4) by auto
  have ty: "tyof (InstV (i_id I)) = i_ty I" using I(1) by (simp add: typed_inst_def)
  have "\<exists>w. i_ty I = IntTy w \<and> 0 < w \<and> wf_kr w r \<and> describes r v" if "transfer K tyof I m = Some r" for r
    using transfer_sound [OF run_Cons.prems(1-3) I(1) _ run_Cons.hyps(2) that] I(2)
    by (simp add: faithful_inst_def)
  then have m: "map_ok tyof (\<rho>(InstV (i_id I) := v)) ?m"
    using ty by (intro map_ok_update [OF run_Cons.prems(3) I(3)]) simp
  have e: "env_ok tyof (\<rho>(InstV (i_id I) := v))"
    by (rule env_ok_update [OF run_Cons.prems(2) ty run_Cons.hyps(3)])
  have "\<forall>J \<in> set Is. ?m (InstV (i_id J)) = None"
    using run_Cons.prems(4,5) by (auto split: option.splits) (metis imageI)
  then have "\<forall>J \<in> set Is. typed_inst tyof J \<and> trusted_inst J \<and> ?m (InstV (i_id J)) = None"
    using run_Cons.prems(4) by simp
  from run_Cons.IH [OF run_Cons.prems(1) e m this] run_Cons.prems(5) show ?case by simp
qed simp

end
