(* ===== verification/RangeProps.thy ===== *)
theory RangeProps
  imports RangeFlow
begin

text \<open>
  The properties of the range analysis: soundness on trusted instructions, its branches on
  concrete inputs where the recorded facts do not hold, and an instance of the LLVM functions
  on which the soundness theorem is applied. The instance follows \<open>KnownBits\<close> exactly for
  constants and for the bitwise operations and knows nothing of the others.
\<close>

section \<open>An instance of the LLVM functions\<close>

definition kb_top :: "nat \<Rightarrow> known_bits" where "kb_top w = KB (mk w 0) (mk w 0)"

definition kb_width :: "known_bits \<Rightarrow> nat" where "kb_width k = bits (Zero k)"

definition simple_kb :: kb_ops where
  "simple_kb =
     \<lparr>kb_unknown = kb_top,
      kb_makeConstant = (\<lambda>c. KB (bvnot c) c),
      kb_isUnknown = (\<lambda>k. uval (Zero k) = 0 \<and> uval (One k) = 0),
      kb_and = (\<lambda>a b. KB (bvor (Zero a) (Zero b)) (bvand (One a) (One b))),
      kb_or = (\<lambda>a b. KB (bvand (Zero a) (Zero b)) (bvor (One a) (One b))),
      kb_xor = (\<lambda>a b. KB (bvor (bvand (Zero a) (Zero b)) (bvand (One a) (One b)))
                         (bvor (bvand (Zero a) (One b)) (bvand (One a) (Zero b)))),
      kb_intersectWith = (\<lambda>a b. KB (bvand (Zero a) (Zero b)) (bvand (One a) (One b))),
      kb_urem = (\<lambda>a b. kb_top (kb_width a)),
      kb_udiv = (\<lambda>a b. kb_top (kb_width a)),
      kb_lshr = (\<lambda>a b. kb_top (kb_width a)),
      kb_ashr = (\<lambda>a b. kb_top (kb_width a)),
      kb_mul = (\<lambda>a b. kb_top (kb_width a)),
      kb_shl = (\<lambda>a b nuw nsw. kb_top (kb_width a)),
      kb_computeForAddSub = (\<lambda>add nsw nuw a b. kb_top (kb_width a)),
      kb_zext = (\<lambda>a w. kb_top w),
      kb_sext = (\<lambda>a w. kb_top w),
      kb_trunc = (\<lambda>a w. kb_top w),
      cr_toKnownBits = (\<lambda>lo hi. kb_top (bits lo))\<rparr>"

lemma kb_has_top [simp]: "kb_has (kb_top w) = (\<lambda>_. True)"
  by (rule ext) (simp add: kb_has_def kb_top_def)

lemma kb_has_constant: "wf_bv c \<Longrightarrow> kb_has (KB (bvnot c) c) c"
  by (auto simp: kb_has_bits bvnot_def bit_take_bit_iff bit_not_iff)

lemma simple_bitwise:
  "binary_sound (kb_and simple_kb) (\<lambda>_ _. True) bvand"
  "binary_sound (kb_or simple_kb) (\<lambda>_ _. True) bvor"
  "binary_sound (kb_xor simple_kb) (\<lambda>_ _. True) bvxor"
  unfolding binary_sound_def simple_kb_def kb_has_bits
  by (auto simp: bv_defs bit_take_bit_iff bit_and_iff bit_or_iff bit_xor_iff dest: bit_wf)

lemma simple_kb_sound: "sound_kb simple_kb"
proof -
  have "kb_has (kb_intersectWith simple_kb a b) x" if "kb_has a x \<or> kb_has b x" for a b x
    using that by (auto simp: simple_kb_def kb_has_bits bv_defs bit_take_bit_iff bit_and_iff)
  then show ?thesis
    unfolding sound_kb_def
    using simple_bitwise kb_has_constant
    by (simp add: simple_kb_def binary_sound_def)
qed

section \<open>Branches whose facts do not hold\<close>

lemma not_in_u: "kr_u r = Some (lo, hi) \<Longrightarrow> uval x < uval lo \<or> uval hi < uval x \<Longrightarrow> \<not> holds r x"
  by (auto simp: holds_def in_u_def)

lemma not_in_s: "kr_s r = Some (lo, hi) \<Longrightarrow> sval x < sval lo \<or> sval hi < sval x \<Longrightarrow> \<not> holds r x"
  by (auto simp: holds_def in_s_def)

lemma seed_range_describes:
  assumes v: "wf_sv w v" "non_poison v"
  shows "wf_kr w (seed_range w) \<and> describes (seed_range w) v"
proof -
  have w: "wf_bv (sv_value v)" "bits (sv_value v) = w" "0 < w"
    using v wf_bvD(1) by (auto simp: wf_sv_def)
  have "uval (mk w (- 1)) = 2 ^ w - 1" by (simp add: mask_eq_exp_minus_1)
  moreover have "sval (mk w (2 ^ (w - 1))) = - (2 ^ (w - 1))" "sval (mk w (2 ^ (w - 1) - 1)) = 2 ^ (w - 1) - 1"
    using sval_IntSMin [OF w(3)] sval_IntSMax [OF w(3)] by (simp_all add: IntSMin_eq IntSMax_eq w(3))
  ultimately show ?thesis
    using wf_bvD [OF w(1)] sval_lower [of "sv_value v"] sval_upper [of "sv_value v"] w v
    by (auto simp: seed_range_def describes_def holds_def in_u_def in_s_def in_b_def wf_kr_def wf_ivl_def)
qed

definition flags_nuw :: binop_flags where
  "flags_nuw = \<lparr>NSW = False, NUW = True, Exact = False, Disjoint = False\<rparr>"

definition flags_nsw :: binop_flags where
  "flags_nsw = \<lparr>NSW = True, NUW = False, Exact = False, Disjoint = False\<rparr>"

text \<open>An operand that is known to be in a signed interval, with its poison flag.\<close>

definition in_signed :: "bv \<Rightarrow> bv \<Rightarrow> bool \<Rightarrow> known_range" where
  "in_signed lo hi p = \<lparr>kr_u = Some (lo, hi), kr_s = Some (lo, hi), kr_bits = None,
     undef_free = True, poison_free = p\<rparr>"

lemma finish_if_informative_u:
  "kr_u R = Some i \<Longrightarrow> \<exists>r. finish_if_informative K bw R = Some r \<and> kr_u r = Some i \<and>
     poison_free r = poison_free R"
  by (simp add: finish_if_informative_def uninformative_def finish_def)

lemma finish_if_informative_s:
  "kr_s R = Some i \<Longrightarrow> \<exists>r. finish_if_informative K bw R = Some r \<and> kr_s r = Some i \<and>
     poison_free r = poison_free R"
  by (simp add: finish_if_informative_def uninformative_def finish_def)

text \<open>
  C38 (bounds). The \<open>add nuw\<close> branch of \<open>transfer\<close> adds the bounds in the width of the value, so
  two unconstrained 8-bit operands give the interval [0, 254] and a poison-free result. Neither
  holds: 255 + 0 is 255 without poison, and 255 + 1 is poison.
\<close>

theorem add_nuw_bounds_wrap:
  "\<exists>r. transfer_add K 8 True False (Some (seed_range 8)) (Some (seed_range 8)) lb rb = Some r \<and>
     kr_u r = Some (mk 8 0, mk 8 254) \<and> poison_free r \<and>
     describes (seed_range 8) (sv (mk 8 255) True) \<and> describes (seed_range 8) (sv (mk 8 0) True) \<and>
     describes (seed_range 8) (sv (mk 8 1) True) \<and>
     \<not> describes r (binop_scalar no_facts no_facts 8 Add flags_nuw (sv (mk 8 255) True) (sv (mk 8 0) True)) \<and>
     \<not> describes r (binop_scalar no_facts no_facts 8 Add flags_nuw (sv (mk 8 255) True) (sv (mk 8 1) True))"
proof -
  have ivl: "(bvadd (mk 8 0) (mk 8 0), bvadd (mk 8 (- 1)) (mk 8 (- 1))) = (mk 8 0, mk 8 254)"
    by code_simp
  have t: "transfer_add K 8 True False (Some (seed_range 8)) (Some (seed_range 8)) lb rb =
      finish_if_informative K 8 \<lparr>kr_u = Some (mk 8 0, mk 8 254), kr_s = None,
        kr_bits = Some (kb_computeForAddSub K True False True lb rb), undef_free = True, poison_free = True\<rparr>"
    using ivl by (simp add: transfer_add_def seed_range_def u_of_def s_of_def both_def arith_poison_free_def)
  obtain r where r: "transfer_add K 8 True False (Some (seed_range 8)) (Some (seed_range 8)) lb rb = Some r"
      "kr_u r = Some (mk 8 0, mk 8 254)" "poison_free r"
    unfolding t by (rule exE [OF finish_if_informative_u]) auto
  have sum: "binop_scalar no_facts no_facts 8 Add flags_nuw (sv (mk 8 255) True) (sv (mk 8 0) True) =
      sv (mk 8 255) True"
    "\<not> non_poison (binop_scalar no_facts no_facts 8 Add flags_nuw (sv (mk 8 255) True) (sv (mk 8 1) True))"
    by code_simp+
  have "\<not> holds r (mk 8 255)" using not_in_u [OF r(2)] by simp
  moreover have "describes (seed_range 8) (sv (mk 8 n) True)" for n
    using seed_range_describes [of 8] by (simp add: wf_sv_def sv_def)
  ultimately show ?thesis using r sum by (auto simp: describes_def sv_def)
qed

text \<open>
  The \<open>sub nsw\<close> branch records 0 as a lower bound when both operands are
  non-negative, so 0 - 1, which is -1 and not poison, is outside the recorded interval.
\<close>

theorem sub_nsw_lower_bound:
  "\<exists>r. transfer_sub K 8 False True (Some (in_signed (mk 8 0) (mk 8 127) True))
         (Some (in_signed (mk 8 0) (mk 8 127) True)) lb rb = Some r \<and>
     describes (in_signed (mk 8 0) (mk 8 127) True) (sv (mk 8 0) True) \<and>
     describes (in_signed (mk 8 0) (mk 8 127) True) (sv (mk 8 1) True) \<and>
     kr_s r = Some (mk 8 0, mk 8 127) \<and>
     binop_scalar no_facts no_facts 8 Sub flags_nsw (sv (mk 8 0) True) (sv (mk 8 1) True) =
       sv (mk 8 (- 1)) True \<and>
     \<not> describes r (binop_scalar no_facts no_facts 8 Sub flags_nsw (sv (mk 8 0) True) (sv (mk 8 1) True))"
proof -
  have c: "bvsub (mk 8 127) (mk 8 0) = mk 8 127" "\<not> isNegative (mk 8 0)" "\<not> isNegative (mk 8 127)"
    "bvsle (mk 8 0) (mk 8 127)" by code_simp+
  have t: "transfer_sub K 8 False True (Some (in_signed (mk 8 0) (mk 8 127) True))
      (Some (in_signed (mk 8 0) (mk 8 127) True)) lb rb =
      finish_if_informative K 8 \<lparr>kr_u = None, kr_s = Some (mk 8 0, mk 8 127),
        kr_bits = Some (kb_computeForAddSub K False True False lb rb), undef_free = True, poison_free = True\<rparr>"
    by (simp add: transfer_sub_def in_signed_def u_of_def s_of_def c both_def arith_poison_free_def)
  obtain r where r: "transfer_sub K 8 False True (Some (in_signed (mk 8 0) (mk 8 127) True))
      (Some (in_signed (mk 8 0) (mk 8 127) True)) lb rb = Some r" "kr_s r = Some (mk 8 0, mk 8 127)"
    unfolding t by (rule exE [OF finish_if_informative_s]) auto
  have d: "binop_scalar no_facts no_facts 8 Sub flags_nsw (sv (mk 8 0) True) (sv (mk 8 1) True) =
      sv (mk 8 (- 1)) True" by code_simp
  have "\<not> holds r (mk 8 (- 1))" using not_in_s [OF r(2)] by (simp add: sval_mk)
  then show ?thesis using r d
    by (auto simp: describes_def sv_def in_signed_def holds_def in_u_def in_s_def in_b_def sval_mk)
qed

text \<open>
  The \<open>ashr\<close> branch shifts both bounds by the least amount when the amount is
  variable: a value known to be 8, shifted by an amount in [0, 2], is recorded as exactly 8,
  but 8 shifted by 2 is 2.
\<close>

theorem ashr_variable_lower_bound:
  "\<exists>r. transfer_ashr K 8 (ArgV 1) (Some (in_signed (mk 8 8) (mk 8 8) True))
         (Some (in_signed (mk 8 0) (mk 8 2) True)) lb rb = Some r \<and>
     kr_s r = Some (mk 8 8, mk 8 8) \<and>
     describes (in_signed (mk 8 8) (mk 8 8) True) (sv (mk 8 8) True) \<and>
     describes (in_signed (mk 8 0) (mk 8 2) True) (sv (mk 8 2) True) \<and>
     binop_scalar no_facts no_facts 8 AShr no_flags (sv (mk 8 8) True) (sv (mk 8 2) True) = sv (mk 8 2) True \<and>
     \<not> describes r (binop_scalar no_facts no_facts 8 AShr no_flags (sv (mk 8 8) True) (sv (mk 8 2) True))"
proof -
  have c: "apint_ashr (mk 8 8) 0 = mk 8 8" by code_simp
  have t: "transfer_ashr K 8 (ArgV 1) (Some (in_signed (mk 8 8) (mk 8 8) True))
      (Some (in_signed (mk 8 0) (mk 8 2) True)) lb rb =
      finish_if_informative K 8 \<lparr>kr_u = None, kr_s = Some (mk 8 8, mk 8 8),
        kr_bits = Some (kb_ashr K lb rb), undef_free = True, poison_free = True\<rparr>"
    by (simp add: transfer_ashr_def shiftInRange_def in_signed_def u_of_def s_of_def both_def c)
  obtain r where r: "transfer_ashr K 8 (ArgV 1) (Some (in_signed (mk 8 8) (mk 8 8) True))
      (Some (in_signed (mk 8 0) (mk 8 2) True)) lb rb = Some r" "kr_s r = Some (mk 8 8, mk 8 8)"
    unfolding t by (rule exE [OF finish_if_informative_s]) auto
  have d: "binop_scalar no_facts no_facts 8 AShr no_flags (sv (mk 8 8) True) (sv (mk 8 2) True) =
      sv (mk 8 2) True" by code_simp
  have "\<not> holds r (mk 8 2)" using not_in_s [OF r(2)] by (simp add: sval_mk)
  then show ?thesis using r d
    by (auto simp: describes_def sv_def in_signed_def holds_def in_u_def in_s_def in_b_def sval_mk)
qed

text \<open>
  \<open>freeze\<close> keeps the intervals of an operand that may be poison and marks the result
  poison-free; but the frozen poison can be any value, here 255 against an interval [0, 15].
\<close>

theorem freeze_of_poison_interval:
  "\<exists>r. transfer_freeze K 8 (ArgV 0) [ArgV 0 \<mapsto> in_signed (mk 8 0) (mk 8 15) False] = Some r \<and>
     describes (in_signed (mk 8 0) (mk 8 15) False) (sv (mk 8 255) False) \<and>
     freeze_step (sv (mk 8 255) False) (sv (mk 8 255) True) \<and>
     \<not> describes r (sv (mk 8 255) True)"
proof -
  obtain r where r: "transfer_freeze K 8 (ArgV 0) [ArgV 0 \<mapsto> in_signed (mk 8 0) (mk 8 15) False] = Some r"
      "kr_u r = Some (mk 8 0, mk 8 15)"
    by (simp add: transfer_freeze_def rangeOf_def in_signed_def)
  have "\<not> holds r (mk 8 255)" using not_in_u [OF r(2)] by simp
  then show ?thesis using r by (auto simp: describes_def sv_def in_signed_def freeze_step_def)
qed

section \<open>Soundness\<close>

lemma computeRanges_describes:
  assumes "sound_kb K" "run \<rho> insts \<rho>'" "env_ok tyof \<rho>" "map_ok tyof \<rho> m"
    "list_all (typed_inst tyof) insts" "list_all trusted_inst insts"
    "\<forall>I \<in> set insts. m (InstV (i_id I)) = None" "distinct (map i_id insts)"
    "computeRanges K tyof insts m V = Some r"
  shows "describes r (\<rho>' V)"
  using computeRanges_sound_gen [OF assms(2,1,3,4) _ assms(8)] assms(5,6,7,9)
  by (auto simp: list_all_iff map_ok_def)

text \<open>
  C6 (safety). Soundness of the analysis. Take any functions that keep what LLVM documents of
  \<open>KnownBits\<close>, a seed whose facts hold, and a well-typed straight-line sequence of trusted
  instructions with distinct results. After every run of the instruction encodings, every
  range \<open>computeRanges\<close> has recorded describes the value it is recorded for: the intervals and
  bits hold unless the value is poison, and it is not poison where \<open>poison_free\<close> is set.
\<close>

theorem computeRanges_sound:
  assumes "sound_kb K" "run \<rho> insts \<rho>'" "env_ok tyof \<rho>" "map_ok tyof \<rho> m"
    "list_all (typed_inst tyof) insts" "list_all trusted_inst insts"
    "\<forall>I \<in> set insts. m (InstV (i_id I)) = None" "distinct (map i_id insts)"
    "computeRanges K tyof insts m V = Some r"
  shows "describes r (\<rho>' V)"
  by (rule computeRanges_describes [OF assms])

text \<open>A run of \<open>%0 = and i8 %arg0, 15; %1 = add i8 %0, 3\<close> on 200.\<close>

definition demo_inst :: "nat \<Rightarrow> binop \<Rightarrow> val list \<Rightarrow> inst" where
  "demo_inst n op ops = \<lparr>i_id = n, i_name = [], i_op = OBin op, i_ty = IntTy 8, i_ops = ops,
     i_nsw = False, i_nuw = False, i_exact = False, i_disjoint = False, i_nneg = False\<rparr>"

definition demo_insts :: "inst list" where
  "demo_insts = [demo_inst 0 And [ArgV 0, ConstInt (mk 8 15)], demo_inst 1 Add [InstV 0, ConstInt (mk 8 3)]]"

definition demo_ty :: "val \<Rightarrow> ty" where
  "demo_ty V = (case V of ConstInt c \<Rightarrow> IntTy (bits c) | ConstOther _ t \<Rightarrow> VoidTy | _ \<Rightarrow> IntTy 8)"

definition demo_env :: env where
  "demo_env V = (case V of ConstInt c \<Rightarrow> sv (mk (bits c) (uval c)) True | _ \<Rightarrow> sv (mk 8 200) True)"

definition demo_env' :: env where
  "demo_env' = demo_env(InstV 0 := sv (mk 8 8) True, InstV 1 := sv (mk 8 11) True)"

lemma demo_env_ok: "env_ok demo_ty demo_env"
  by (auto simp: env_ok_def demo_ty_def demo_env_def wf_sv_def sv_def mk_uval split: val.splits)

lemma demo_run: "run demo_env demo_insts demo_env'"
proof -
  have "binop_scalar no_facts no_facts 8 And \<lparr>NSW = False, NUW = False, Exact = False, Disjoint = False\<rparr>
      (sv (mk 8 200) True) (sv (mk 8 15) True) = sv (mk 8 8) True"
    "binop_scalar no_facts no_facts 8 Add \<lparr>NSW = False, NUW = False, Exact = False, Disjoint = False\<rparr>
      (sv (mk 8 8) True) (sv (mk 8 3) True) = sv (mk 8 11) True"
    by code_simp+
  then show ?thesis unfolding demo_insts_def demo_env'_def
    by (auto intro!: run_Cons run_Nil simp: demo_inst_def inst_result.simps inst_defined_def
        binop_defined_def int_width_def binop_flags_of_def demo_env_def wf_sv_def sv_def mk_def wf_bv_def)
qed

definition demo_ranges :: range_map where
  "demo_ranges = computeRanges simple_kb demo_ty demo_insts Map.empty"

theorem computeRanges_sound_witness:
  "describes (the (demo_ranges (InstV 0))) (demo_env' (InstV 0)) \<and>
   kr_u (the (demo_ranges (InstV 0))) = Some (mk 8 0, mk 8 15) \<and> demo_ranges (InstV 0) \<noteq> None"
proof -
  have e: "map_option kr_u (demo_ranges (InstV 0)) = Some (Some (mk 8 0, mk 8 15))"
    unfolding demo_ranges_def by code_simp
  then obtain r where r: "demo_ranges (InstV 0) = Some r" by auto
  have "describes r (demo_env' (InstV 0))"
    by (rule computeRanges_sound [OF simple_kb_sound demo_run demo_env_ok, of Map.empty])
      (use r in \<open>auto simp: map_ok_def demo_insts_def demo_inst_def typed_inst_def trusted_inst_def
         wf_val_def demo_ty_def plain_flags_def binop_flags_of_def demo_ranges_def\<close>)
  then show ?thesis using e r by simp
qed

end
