(* ===== verification/Flags.thy ===== *)
theory Flags
  imports RangeSound
begin

text \<open>
  Which poison-generating flags the operand ranges prove harmless: \<open>FlagKind\<close> and
  \<open>canProveSafe\<close> of \<open>tv-next/proposer.cpp\<close>, against the meaning of the flags. The queries on
  \<open>llvm::KnownBits\<close> that the function makes are parameters with the meaning LLVM gives them.
\<close>

datatype FlagKind =
    AddNSW | AddNUW | SubNSW | SubNUW | MulNSW | MulNUW | ShlNSW | ShlNUW
  | ZExtNNeg | UDivExact | SDivExact | LShrExact | AShrExact | OrDisjoint

record kb_query =
  kb_haveNoCommonBitsSet :: "known_bits \<Rightarrow> known_bits \<Rightarrow> bool"
  kb_isConstant :: "known_bits \<Rightarrow> bool"
  kb_getConstant :: "known_bits \<Rightarrow> bv"

definition kb_sized :: "nat \<Rightarrow> known_bits \<Rightarrow> bool" where
  "kb_sized w k \<longleftrightarrow> bits (Zero k) = w \<and> bits (One k) = w"

definition sound_query :: "kb_query \<Rightarrow> bool" where
  "sound_query Q \<longleftrightarrow>
     (\<forall>a b x y. kb_haveNoCommonBitsSet Q a b \<longrightarrow> wf_bv x \<longrightarrow> wf_bv y \<longrightarrow> bits x = bits y \<longrightarrow>
        kb_sized (bits x) a \<longrightarrow> kb_sized (bits x) b \<longrightarrow> kb_has a x \<longrightarrow> kb_has b y \<longrightarrow> uval x AND uval y = 0) \<and>
     (\<forall>a x. kb_isConstant Q a \<longrightarrow> wf_bv x \<longrightarrow> kb_sized (bits x) a \<longrightarrow> kb_has a x \<longrightarrow>
        x = kb_getConstant Q a)"

definition bits_sized :: "nat \<Rightarrow> known_range \<Rightarrow> bool" where
  "bits_sized w r = (case kr_bits r of Some k \<Rightarrow> kb_sized w k | None \<Rightarrow> True)"

section \<open>Interval arithmetic in a wider type\<close>

definition apint_sext :: "nat \<Rightarrow> bv \<Rightarrow> bv" where "apint_sext w x = bvsext x (w - bits x)"
definition apint_zext :: "nat \<Rightarrow> bv \<Rightarrow> bv" where "apint_zext w x = bvzext x (w - bits x)"
definition apint_smin :: "bv \<Rightarrow> bv \<Rightarrow> bv" where "apint_smin a b = (if bvslt a b then a else b)"
definition apint_smax :: "bv \<Rightarrow> bv \<Rightarrow> bv" where "apint_smax a b = (if bvslt b a then a else b)"

fun count_trailing_ones :: "nat \<Rightarrow> int \<Rightarrow> nat" where
  "count_trailing_ones 0 n = 0"
| "count_trailing_ones (Suc k) n = (if odd n then Suc (count_trailing_ones k (n div 2)) else 0)"

definition countr_one :: "bv \<Rightarrow> nat" where "countr_one x = count_trailing_ones (bits x) (uval x)"

definition apint_logBase2 :: "bv \<Rightarrow> nat" where "apint_logBase2 x = getActiveBits x - 1"
definition apint_isPowerOf2 :: "bv \<Rightarrow> bool" where
  "apint_isPowerOf2 x \<longleftrightarrow> uval x = 2 ^ apint_logBase2 x"

definition combineCorners :: "bv \<Rightarrow> bv \<Rightarrow> bv \<Rightarrow> bv \<Rightarrow> (bv \<Rightarrow> bv \<Rightarrow> bv) \<Rightarrow> bv \<times> bv" where
  "combineCorners a_lo a_hi b_lo b_hi op =
     (let c1 = op a_lo b_lo; c2 = op a_lo b_hi; c3 = op a_hi b_lo; c4 = op a_hi b_hi
      in (apint_smin (apint_smin c1 c2) (apint_smin c3 c4),
          apint_smax (apint_smax c1 c2) (apint_smax c3 c4)))"

definition fitsSignedRange :: "bv \<Rightarrow> bv \<Rightarrow> nat \<Rightarrow> bool" where
  "fitsSignedRange mn mx result_bw =
     (let w = bits mn;
          lo = apint_sext w (IntSMin result_bw);
          hi = apint_sext w (IntSMax result_bw)
      in bvsle lo mn \<and> bvsle mx hi)"

definition fitsUnsignedRange :: "bv \<Rightarrow> bv \<Rightarrow> nat \<Rightarrow> bool" where
  "fitsUnsignedRange mn mx result_bw =
     (let w = bits mn;
          lo = apint_zext w (mk result_bw 0);
          hi = apint_zext w (mk result_bw (- 1))
      in bvsle lo mn \<and> bvsle mx hi)"

definition wide :: "nat \<Rightarrow> nat" where "wide result_bw = max result_bw (2 * result_bw + 4)"

section \<open>The test\<close>

text \<open>The signed and the unsigned arithmetic cases share a shape: extend the bounds, combine
  them, compare with the bounds of the result type.\<close>

definition safe_signed :: "(bv \<Rightarrow> bv \<Rightarrow> bv) \<Rightarrow> known_range \<Rightarrow> known_range \<Rightarrow> nat \<Rightarrow> bool" where
  "safe_signed op a b result_bw =
     (case (kr_s a, kr_s b) of
        (Some (al, ah), Some (bl, bh)) \<Rightarrow>
          let w = wide result_bw;
              mm = combineCorners (apint_sext w al) (apint_sext w ah) (apint_sext w bl) (apint_sext w bh) op
          in fitsSignedRange (fst mm) (snd mm) result_bw
      | _ \<Rightarrow> False)"

definition safe_unsigned :: "FlagKind \<Rightarrow> known_range \<Rightarrow> known_range \<Rightarrow> nat \<Rightarrow> bool" where
  "safe_unsigned kind a b result_bw =
     (case (kr_u a, kr_u b) of
        (Some (al0, ah0), Some (bl0, bh0)) \<Rightarrow>
          let w = wide result_bw;
              al = apint_zext w al0; ah = apint_zext w ah0; bl = apint_zext w bl0; bh = apint_zext w bh0
          in if kind = AddNUW then fitsUnsignedRange (bvadd al bl) (bvadd ah bh) result_bw
             else if kind = SubNUW then
               (if bvult al bh then False
                else fitsUnsignedRange (bvsub al bh) (bvsub ah bl) result_bw)
             else fitsUnsignedRange (bvmul al bl) (bvmul ah bh) result_bw
      | _ \<Rightarrow> False)"

definition safe_shl_nsw :: "known_range \<Rightarrow> known_range \<Rightarrow> nat \<Rightarrow> bool" where
  "safe_shl_nsw a b result_bw =
     (case (kr_s a, kr_u b) of
        (Some (slo, shi_a), Some (_, shi)) \<Rightarrow>
          if int result_bw \<le> uval shi then False
          else
            let remaining = result_bw - 1 - nat (uval shi);
                w = result_bw + 2;
                a_lo = apint_sext w slo; a_hi = apint_sext w shi_a;
                hi = bvsub (mk w (2 ^ remaining)) (mk w 1);
                lo = bvsub (bvneg hi) (mk w 1)
            in bvsle lo a_lo \<and> bvsle a_hi hi
      | _ \<Rightarrow> False)"

definition safe_shl_nuw :: "known_range \<Rightarrow> known_range \<Rightarrow> nat \<Rightarrow> bool" where
  "safe_shl_nuw a b result_bw =
     (case (kr_u a, kr_u b) of
        (Some (_, ahi), Some (_, shi)) \<Rightarrow>
          if int result_bw \<le> uval shi then False
          else
            let remaining = result_bw - nat (uval shi);
                w = result_bw + 2
            in bvult (apint_zext w ahi) (mk w (2 ^ remaining))
      | _ \<Rightarrow> False)"

definition safe_shift_exact :: "known_range \<Rightarrow> known_range \<Rightarrow> nat \<Rightarrow> bool" where
  "safe_shift_exact a b result_bw =
     (case (kr_bits a, kr_u b) of
        (Some ab, Some (_, bhi)) \<Rightarrow>
          let hi = min (nat (uval bhi)) result_bw
          in if hi = 0 then True
             else if result_bw \<le> hi then False
             else hi \<le> countr_one (Zero ab)
      | _ \<Rightarrow> False)"

definition safe_div_exact :: "kb_query \<Rightarrow> bool \<Rightarrow> known_range \<Rightarrow> known_range \<Rightarrow> bool" where
  "safe_div_exact Q sgnd a b =
     (case (kr_bits a, kr_bits b) of
        (Some ab, Some bb) \<Rightarrow>
          if \<not> kb_isConstant Q bb then False
          else
            let c = kb_getConstant Q bb
            in if uval c = 0 then False
               else
                 let abs_c = (if sgnd \<and> isNegative c then bvsub (mk (bits c) 0) c else c)
                 in if \<not> apint_isPowerOf2 abs_c then False
                    else apint_logBase2 abs_c \<le> countr_one (Zero ab)
      | _ \<Rightarrow> False)"

fun canProveSafe :: "kb_query \<Rightarrow> FlagKind \<Rightarrow> known_range \<Rightarrow> known_range \<Rightarrow> nat \<Rightarrow> bool" where
  "canProveSafe Q AddNSW a b bw = safe_signed bvadd a b bw"
| "canProveSafe Q SubNSW a b bw = safe_signed bvsub a b bw"
| "canProveSafe Q MulNSW a b bw = safe_signed bvmul a b bw"
| "canProveSafe Q AddNUW a b bw = safe_unsigned AddNUW a b bw"
| "canProveSafe Q SubNUW a b bw = safe_unsigned SubNUW a b bw"
| "canProveSafe Q MulNUW a b bw = safe_unsigned MulNUW a b bw"
| "canProveSafe Q ShlNSW a b bw = safe_shl_nsw a b bw"
| "canProveSafe Q ShlNUW a b bw = safe_shl_nuw a b bw"
| "canProveSafe Q ZExtNNeg a b bw = (case kr_s a of Some (lo, hi) \<Rightarrow> \<not> isNegative lo | None \<Rightarrow> False)"
| "canProveSafe Q OrDisjoint a b bw =
     (case (kr_bits a, kr_bits b) of
        (Some ab, Some bb) \<Rightarrow> kb_haveNoCommonBitsSet Q ab bb
      | _ \<Rightarrow> False)"
| "canProveSafe Q LShrExact a b bw = safe_shift_exact a b bw"
| "canProveSafe Q AShrExact a b bw = safe_shift_exact a b bw"
| "canProveSafe Q UDivExact a b bw = safe_div_exact Q False a b"
| "canProveSafe Q SDivExact a b bw = safe_div_exact Q True a b"

text \<open>What the flags mean, on operands that are not poison: the instruction adds no poison.\<close>

fun flag_ok :: "FlagKind \<Rightarrow> bv \<Rightarrow> bv \<Rightarrow> bool" where
  "flag_ok AddNSW x y = fits_s (bits x) (sval x + sval y)"
| "flag_ok AddNUW x y = fits_u (bits x) (uval x + uval y)"
| "flag_ok SubNSW x y = fits_s (bits x) (sval x - sval y)"
| "flag_ok SubNUW x y = fits_u (bits x) (uval x - uval y)"
| "flag_ok MulNSW x y = fits_s (bits x) (sval x * sval y)"
| "flag_ok MulNUW x y = fits_u (bits x) (uval x * uval y)"
| "flag_ok ShlNSW x y = (amt y < bits x \<and> fits_s (bits x) (sval x * 2 ^ amt y))"
| "flag_ok ShlNUW x y = (amt y < bits x \<and> fits_u (bits x) (uval x * 2 ^ amt y))"
| "flag_ok ZExtNNeg x y = (0 \<le> sval x)"
| "flag_ok UDivExact x y = (uval y dvd uval x)"
| "flag_ok SDivExact x y = (sval y dvd sval x)"
| "flag_ok LShrExact x y = (amt y < bits x \<and> 2 ^ amt y dvd uval x)"
| "flag_ok AShrExact x y = (amt y < bits x \<and> 2 ^ amt y dvd sval x)"
| "flag_ok OrDisjoint x y = (uval x AND uval y = 0)"

section \<open>Soundness of the test\<close>

lemma holds_s: "holds r x \<Longrightarrow> kr_s r = Some (lo, hi) \<Longrightarrow> sval lo \<le> sval x \<and> sval x \<le> sval hi"
  by (simp add: holds_def in_s_def)

lemma holds_u: "holds r x \<Longrightarrow> kr_u r = Some (lo, hi) \<Longrightarrow> uval lo \<le> uval x \<and> uval x \<le> uval hi"
  by (simp add: holds_def in_u_def)

lemma holds_b: "holds r x \<Longrightarrow> kr_bits r = Some k \<Longrightarrow> kb_has k x"
  by (simp add: holds_def in_b_def)

lemma wf_kr_s: "wf_kr w r \<Longrightarrow> kr_s r = Some (lo, hi) \<Longrightarrow> wf_bv lo \<and> bits lo = w \<and> wf_bv hi \<and> bits hi = w"
  by (simp add: wf_kr_def wf_ivl_def)

lemma wf_kr_u: "wf_kr w r \<Longrightarrow> kr_u r = Some (lo, hi) \<Longrightarrow> wf_bv lo \<and> bits lo = w \<and> wf_bv hi \<and> bits hi = w"
  by (simp add: wf_kr_def wf_ivl_def)

lemma apint_sext_props:
  assumes "wf_bv x" "bits x \<le> w"
  shows "wf_bv (apint_sext w x)" "bits (apint_sext w x) = w" "sval (apint_sext w x) = sval x"
  using assms by (simp_all add: apint_sext_def)

lemma apint_zext_props:
  assumes "wf_bv x" "bits x < w"
  shows "wf_bv (apint_zext w x)" "bits (apint_zext w x) = w" "uval (apint_zext w x) = uval x"
    "sval (apint_zext w x) = uval x"
  using assms by (simp_all add: apint_zext_def sval_bvzext)

lemma sval_smin_smax: "sval (apint_smin a b) = min (sval a) (sval b)" "sval (apint_smax a b) = max (sval a) (sval b)"
  by (simp_all add: apint_smin_def apint_smax_def bvslt_def)

lemma bits_smin_smax [simp]: "bits a = w \<Longrightarrow> bits b = w \<Longrightarrow> bits (apint_smin a b) = w"
  by (simp add: apint_smin_def)

text \<open>A product over a box is between the least and the greatest product of the corners.\<close>

lemma mult_between:
  assumes "(l::int) \<le> x" "x \<le> h"
  shows "min (l * y) (h * y) \<le> x * y \<and> x * y \<le> max (l * y) (h * y)"
proof (cases "0 \<le> y")
  case True
  then show ?thesis using assms mult_right_mono [of l x y] mult_right_mono [of x h y] by linarith
next
  case False
  then show ?thesis using assms mult_right_mono_neg [of l x y] mult_right_mono_neg [of x h y] by linarith
qed

lemma product_corners:
  assumes "(al::int) \<le> x" "x \<le> ah" "bl \<le> y" "y \<le> bh"
  shows "min (min (al * bl) (al * bh)) (min (ah * bl) (ah * bh)) \<le> x * y"
    "x * y \<le> max (max (al * bl) (al * bh)) (max (ah * bl) (ah * bh))"
  using mult_between [OF assms(1,2), of y] mult_between [OF assms(3,4), of al]
    mult_between [OF assms(3,4), of ah]
  by (simp_all add: mult.commute min_def max_def split: if_splits)

lemma sum_corners:
  assumes "(al::int) \<le> x" "x \<le> ah" "bl \<le> y" "y \<le> bh"
  shows "min (min (al + bl) (al + bh)) (min (ah + bl) (ah + bh)) \<le> x + y"
    "x + y \<le> max (max (al + bl) (al + bh)) (max (ah + bl) (ah + bh))"
    "min (min (al - bl) (al - bh)) (min (ah - bl) (ah - bh)) \<le> x - y"
    "x - y \<le> max (max (al - bl) (al - bh)) (max (ah - bl) (ah - bh))"
  using assms by linarith+

text \<open>In the wider type the three signed operations are exact.\<close>

definition exact_op :: "(bv \<Rightarrow> bv \<Rightarrow> bv) \<Rightarrow> (int \<Rightarrow> int \<Rightarrow> int) \<Rightarrow> bool" where
  "exact_op op g \<longleftrightarrow>
     (\<forall>W a b. wf_bv a \<longrightarrow> wf_bv b \<longrightarrow> bits a = W \<longrightarrow> bits b = W \<longrightarrow>
        - (2 ^ (W - 1)) \<le> g (sval a) (sval b) \<longrightarrow> g (sval a) (sval b) < 2 ^ (W - 1) \<longrightarrow>
        sval (op a b) = g (sval a) (sval b) \<and> bits (op a b) = W)"

lemma exact_ops: "exact_op bvadd (+)" "exact_op bvsub (-)" "exact_op bvmul (*)"
  unfolding exact_op_def
  by (auto simp: bvadd_signed bvsub_signed bvmul_signed sval_mk_id wf_bvD(1))

definition small_op :: "(int \<Rightarrow> int \<Rightarrow> int) \<Rightarrow> bool" where
  "small_op g \<longleftrightarrow>
     (\<forall>n x y. 0 < n \<longrightarrow> - (2 ^ (n - 1)) \<le> x \<longrightarrow> x \<le> 2 ^ (n - 1) \<longrightarrow> - (2 ^ (n - 1)) \<le> y \<longrightarrow> y \<le> 2 ^ (n - 1) \<longrightarrow>
        - (2 ^ (wide n - 1)) \<le> g x y \<and> g x y < 2 ^ (wide n - 1))"

lemma wide_eq: "wide n = 2 * n + 4" by (simp add: wide_def)

lemma small_sums:
  assumes "0 < n" "- (2 ^ (n - 1)) \<le> (x::int)" "x \<le> 2 ^ (n - 1)" "- (2 ^ (n - 1)) \<le> y" "y \<le> 2 ^ (n - 1)"
  shows "\<bar>x + y\<bar> \<le> 2 ^ n" "\<bar>x - y\<bar> \<le> 2 ^ n" "\<bar>x * y\<bar> \<le> 2 ^ (2 * n)"
proof -
  have p: "(2::int) ^ n = 2 * 2 ^ (n - 1)" using pow2_half [OF assms(1)] by simp
  show "\<bar>x + y\<bar> \<le> 2 ^ n" "\<bar>x - y\<bar> \<le> 2 ^ n" using assms p by linarith+
  have "\<bar>x * y\<bar> \<le> 2 ^ (n - 1) * 2 ^ (n - 1)"
    unfolding abs_mult by (rule mult_mono) (use assms in linarith)+
  also have "\<dots> = (2::int) ^ (2 * (n - 1))" by (simp add: power_add [symmetric] mult_2)
  also have "\<dots> \<le> 2 ^ (2 * n)" by (rule pow2_mono) simp
  finally show "\<bar>x * y\<bar> \<le> 2 ^ (2 * n)" .
qed

lemma small_ops: "small_op (+)" "small_op (-)" "small_op (*)"
proof -
  have b: "(2::int) ^ n < 2 ^ (wide n - 1)" "(2::int) ^ (2 * n) < 2 ^ (wide n - 1)" for n
    by (rule power_strict_increasing; simp add: wide_eq)+
  have s: "- (2 ^ (wide n - 1)) \<le> g \<and> g < 2 ^ (wide n - 1)"
    if "\<bar>g\<bar> \<le> 2 ^ n \<or> \<bar>g\<bar> \<le> 2 ^ (2 * n)" for g :: int and n
    using that b [of n] by linarith
  show "small_op (+)" unfolding small_op_def
    by (intro allI impI, rule s, rule disjI1, rule small_sums(1); assumption)
  show "small_op (-)" unfolding small_op_def
    by (intro allI impI, rule s, rule disjI1, rule small_sums(2); assumption)
  show "small_op (*)" unfolding small_op_def
    by (intro allI impI, rule s, rule disjI2, rule small_sums(3); assumption)
qed


lemma safe_signed_ok:
  assumes op: "exact_op op g" "small_op g"
    and corners: "\<And>al ah bl bh x y. al \<le> x \<Longrightarrow> x \<le> ah \<Longrightarrow> bl \<le> y \<Longrightarrow> y \<le> bh \<Longrightarrow>
      min (min (g al bl) (g al bh)) (min (g ah bl) (g ah bh)) \<le> g x y \<and>
      g x y \<le> max (max (g al bl) (g al bh)) (max (g ah bl) (g ah bh))"
    and wf: "wf_kr n a" "wf_kr n b" "0 < n" and x: "holds a x" "holds b y"
    and safe: "safe_signed op a b n"
  shows "fits_s n (g (sval x) (sval y))"
proof -
  obtain al ah bl bh where i: "kr_s a = Some (al, ah)" "kr_s b = Some (bl, bh)"
    using safe by (auto simp: safe_signed_def split: option.splits)
  note w = wf_kr_s [OF wf(1) i(1)] wf_kr_s [OF wf(2) i(2)]
  define W where "W = wide n"
  have nW: "n \<le> W" by (simp add: W_def wide_eq)
  have ext: "sval (op (apint_sext W p) (apint_sext W q)) = g (sval p) (sval q) \<and>
      bits (op (apint_sext W p) (apint_sext W q)) = W"
    if "wf_bv p \<and> bits p = n" "wf_bv q \<and> bits q = n" for p q
    using op [unfolded exact_op_def small_op_def] that wf(3) nW apint_sext_props [of p W]
      apint_sext_props [of q W] sval_lower [of p] sval_upper [of p] sval_lower [of q] sval_upper [of q]
    by (simp add: W_def)
  define mm where "mm = combineCorners (apint_sext W al) (apint_sext W ah) (apint_sext W bl) (apint_sext W bh) op"
  have fits: "fitsSignedRange (fst mm) (snd mm) n"
    using safe by (simp add: safe_signed_def i mm_def W_def Let_def)
  have mm: "sval (fst mm) = min (min (g (sval al) (sval bl)) (g (sval al) (sval bh)))
        (min (g (sval ah) (sval bl)) (g (sval ah) (sval bh)))"
    "sval (snd mm) = max (max (g (sval al) (sval bl)) (g (sval al) (sval bh)))
        (max (g (sval ah) (sval bl)) (g (sval ah) (sval bh)))" "bits (fst mm) = W"
    using w by (simp_all add: mm_def combineCorners_def Let_def sval_smin_smax ext)
  have "- (2 ^ (n - 1)) \<le> sval (fst mm)" "sval (snd mm) \<le> 2 ^ (n - 1) - 1"
    using fits wf(3) nW
    by (simp_all add: fitsSignedRange_def Let_def bvsle_def mm(3) apint_sext_props)
  then show ?thesis
    using corners [of "sval al" "sval x" "sval ah" "sval bl" "sval y" "sval bh"]
      holds_s [OF x(1) i(1)] holds_s [OF x(2) i(2)] mm(1,2)
    unfolding fits_s_def by linarith
qed

lemma wide_unsigned:
  assumes "0 \<le> x" "x < 2 ^ (wide n - 1)" "0 < n"
  shows "sval (mk (wide n) x) = x" "uval (mk (wide n) x) = x"
  using assms lt_pow2_mono [OF assms(2), of "wide n"] ge_neg_pow2_mono [of 0 x]
  by (auto intro!: sval_mk_id uval_mk_id simp: wide_eq simp del: uval_mk)

lemma fitsUnsigned_ok:
  assumes n: "0 < n" and w: "bits mn = wide n" and f: "fitsUnsignedRange mn mx n"
  shows "0 \<le> sval mn" "sval mx \<le> 2 ^ n - 1"
proof -
  have "wf_bv (mk n 0)" "wf_bv (mk n (- 1))" "n < wide n" using n by (simp_all add: wide_eq)
  then show "0 \<le> sval mn" "sval mx \<le> 2 ^ n - 1"
    using f w by (simp_all add: fitsUnsignedRange_def Let_def bvsle_def apint_zext_props mask_eq_exp_minus_1)
qed

lemma wide_room: "(2::int) ^ n * 2 ^ n < 2 ^ (wide n - 1)" "(2::int) ^ n + 2 ^ n < 2 ^ (wide n - 1)"
proof -
  have "(2::int) ^ (n + n) < 2 ^ (wide n - 1)" "(2::int) ^ (Suc n) < 2 ^ (wide n - 1)"
    by (rule power_strict_increasing; simp add: wide_eq)+
  then show "(2::int) ^ n * 2 ^ n < 2 ^ (wide n - 1)" "(2::int) ^ n + 2 ^ n < 2 ^ (wide n - 1)"
    by (simp_all only: power_add power_Suc mult_2)
qed

lemma wide_zext:
  assumes "wf_bv p" "bits p = n"
  shows "uval (apint_zext (wide n) p) = uval p" "bits (apint_zext (wide n) p) = wide n"
  using assms by (simp_all add: apint_zext_props wide_eq)

lemma wide_sum_product:
  assumes p: "wf_bv p" "bits p = n" and q: "wf_bv q" "bits q = n"
  shows "sval (bvadd (apint_zext (wide n) p) (apint_zext (wide n) q)) = uval p + uval q"
    "sval (bvmul (apint_zext (wide n) p) (apint_zext (wide n) q)) = uval p * uval q"
proof -
  have b: "0 \<le> uval p" "uval p < 2 ^ n" "0 \<le> uval q" "uval q < 2 ^ n" "0 < n"
    using wf_bvD [OF p(1)] wf_bvD [OF q(1)] p(2) q(2) by simp_all
  have "uval p * uval q < 2 ^ n * 2 ^ n" by (rule mult_strict_mono) (use b in simp_all)
  then have m: "0 \<le> uval p * uval q" "uval p * uval q < 2 ^ (wide n - 1)"
    using b wide_room(1) [of n] by (simp, linarith)
  have s: "0 \<le> uval p + uval q" "uval p + uval q < 2 ^ (wide n - 1)"
    using b wide_room(2) [of n] by linarith+
  show "sval (bvadd (apint_zext (wide n) p) (apint_zext (wide n) q)) = uval p + uval q"
    unfolding bvadd_def wide_zext [OF p] wide_zext [OF q] by (rule wide_unsigned(1) [OF s b(5)])
  show "sval (bvmul (apint_zext (wide n) p) (apint_zext (wide n) q)) = uval p * uval q"
    unfolding bvmul_def wide_zext [OF p] wide_zext [OF q] by (rule wide_unsigned(1) [OF m b(5)])
qed

lemma safe_unsignedE:
  assumes "safe_unsigned k a b n" "wf_kr n a" "wf_kr n b" "holds a x" "holds b y" "wf_bv x" "wf_bv y"
  obtains al ah bl bh where "kr_u a = Some (al, ah)" "kr_u b = Some (bl, bh)"
    "wf_bv al" "bits al = n" "wf_bv ah" "bits ah = n" "wf_bv bl" "bits bl = n" "wf_bv bh" "bits bh = n"
    "uval al \<le> uval x" "uval x \<le> uval ah" "uval y \<le> uval bh" "0 \<le> uval x" "0 \<le> uval y"
proof -
  obtain al ah bl bh where i: "kr_u a = Some (al, ah)" "kr_u b = Some (bl, bh)"
    using assms(1) by (auto simp: safe_unsigned_def split: option.splits)
  show thesis
    by (rule that [OF i])
      (use wf_kr_u [OF assms(2) i(1)] wf_kr_u [OF assms(3) i(2)] holds_u [OF assms(4) i(1)]
        holds_u [OF assms(5) i(2)] wf_bvD(2) [OF assms(6)] wf_bvD(2) [OF assms(7)] in blast)+
qed

lemma safe_add_nuw_ok:
  assumes "safe_unsigned AddNUW a b n" "wf_kr n a" "wf_kr n b" "holds a x" "holds b y" "wf_bv x" "wf_bv y"
    and n: "0 < n"
  shows "fits_u n (uval x + uval y)"
proof -
  obtain al ah bl bh where i: "kr_u a = Some (al, ah)" "kr_u b = Some (bl, bh)"
    and w: "wf_bv al" "bits al = n" "wf_bv ah" "bits ah = n" "wf_bv bl" "bits bl = n" "wf_bv bh" "bits bh = n"
    and h: "uval al \<le> uval x" "uval x \<le> uval ah" "uval y \<le> uval bh" "0 \<le> uval x" "0 \<le> uval y"
    by (rule safe_unsignedE [OF assms(1-7)])
  have "fitsUnsignedRange (bvadd (apint_zext (wide n) al) (apint_zext (wide n) bl))
      (bvadd (apint_zext (wide n) ah) (apint_zext (wide n) bh)) n"
    using assms(1) by (simp add: safe_unsigned_def i Let_def)
  then have "sval (bvadd (apint_zext (wide n) ah) (apint_zext (wide n) bh)) \<le> 2 ^ n - 1"
    by (rule fitsUnsigned_ok(2) [OF n, rotated]) (simp add: wide_zext(2) [OF w(1,2)])
  then have "uval ah + uval bh \<le> 2 ^ n - 1" unfolding wide_sum_product(1) [OF w(3,4,7,8)] .
  then show ?thesis using h by (simp add: fits_u_def)
qed

lemma safe_sub_nuw_ok:
  assumes "safe_unsigned SubNUW a b n" "wf_kr n a" "wf_kr n b" "holds a x" "holds b y" "wf_bv x" "wf_bv y"
  shows "0 \<le> uval x - uval y"
proof -
  obtain al ah bl bh where i: "kr_u a = Some (al, ah)" "kr_u b = Some (bl, bh)"
    and w: "wf_bv al" "bits al = n" "wf_bv ah" "bits ah = n" "wf_bv bl" "bits bl = n" "wf_bv bh" "bits bh = n"
    and h: "uval al \<le> uval x" "uval x \<le> uval ah" "uval y \<le> uval bh" "0 \<le> uval x" "0 \<le> uval y"
    by (rule safe_unsignedE [OF assms])
  have "\<not> bvult (apint_zext (wide n) al) (apint_zext (wide n) bh)"
    using assms(1) by (auto simp: safe_unsigned_def i Let_def)
  then show ?thesis
    using h unfolding bvult_def wide_zext(1) [OF w(1,2)] wide_zext(1) [OF w(7,8)] by linarith
qed

lemma safe_mul_nuw_ok:
  assumes "safe_unsigned MulNUW a b n" "wf_kr n a" "wf_kr n b" "holds a x" "holds b y" "wf_bv x" "wf_bv y"
    and n: "0 < n"
  shows "fits_u n (uval x * uval y)"
proof -
  obtain al ah bl bh where i: "kr_u a = Some (al, ah)" "kr_u b = Some (bl, bh)"
    and w: "wf_bv al" "bits al = n" "wf_bv ah" "bits ah = n" "wf_bv bl" "bits bl = n" "wf_bv bh" "bits bh = n"
    and h: "uval al \<le> uval x" "uval x \<le> uval ah" "uval y \<le> uval bh" "0 \<le> uval x" "0 \<le> uval y"
    by (rule safe_unsignedE [OF assms(1-7)])
  have "fitsUnsignedRange (bvmul (apint_zext (wide n) al) (apint_zext (wide n) bl))
      (bvmul (apint_zext (wide n) ah) (apint_zext (wide n) bh)) n"
    using assms(1) by (simp add: safe_unsigned_def i Let_def)
  then have "sval (bvmul (apint_zext (wide n) ah) (apint_zext (wide n) bh)) \<le> 2 ^ n - 1"
    by (rule fitsUnsigned_ok(2) [OF n, rotated]) (simp add: wide_zext(2) [OF w(1,2)])
  then have "uval ah * uval bh \<le> 2 ^ n - 1" unfolding wide_sum_product(2) [OF w(3,4,7,8)] .
  moreover have "uval x * uval y \<le> uval ah * uval bh"
    by (rule mult_mono) (use h in linarith)+
  moreover have "0 \<le> uval x * uval y" using h by simp
  ultimately show ?thesis unfolding fits_u_def by linarith
qed

lemma amt_bound:
  assumes "kr_u b = Some (lo, hi)" "holds b y" "wf_bv y" "uval hi < int n"
  shows "amt y \<le> nat (uval hi)" "amt y < n"
  using holds_u [OF assms(2,1)] wf_bvD(2) [OF assms(3)] assms(4)
  by (auto simp: amt_def nat_less_iff)

lemma bvsub_mk: "bvsub (mk w a) (mk w b) = mk w (a - b)"
  by (simp add: bvsub_def) (rule mk_sub_cong, simp_all)

lemma bvneg_mk: "bvneg (mk w a) = mk w (- a)"
  using mk_sub_cong [of w 0 0 "take_bit w a" a] by (simp add: bvneg_def)

lemma abs_scaled:
  assumes "- (2 ^ r) \<le> (x::int)" "x < 2 ^ r" "k + r \<le> m"
  shows "- (2 ^ m) \<le> x * 2 ^ k \<and> x * 2 ^ k < 2 ^ m"
proof -
  have "- (2 ^ r) * 2 ^ k \<le> x * 2 ^ k" "x * 2 ^ k < 2 ^ r * 2 ^ k"
    using assms by (simp_all add: mult_right_mono del: mult_minus_left)
  moreover have "(2::int) ^ r * 2 ^ k \<le> 2 ^ m"
    using pow2_mono [OF assms(3)] by (simp add: power_add mult.commute)
  ultimately show ?thesis by (simp only: mult_minus_left) linarith
qed

lemma safe_shl_nsw_ok:
  assumes safe: "safe_shl_nsw a b n" and wf: "wf_kr n a" "0 < n" and x: "holds a x" "holds b y" "wf_bv y"
  shows "amt y < n \<and> fits_s n (sval x * 2 ^ amt y)"
proof -
  obtain slo sh ulo shi where i: "kr_s a = Some (slo, sh)" "kr_u b = Some (ulo, shi)"
    using safe by (auto simp: safe_shl_nsw_def split: option.splits)
  have lt: "uval shi < int n" using safe by (auto simp: safe_shl_nsw_def i split: if_splits)
  define r where "r = n - 1 - nat (uval shi)"
  let ?W = "n + 2"
  have rn: "r \<le> n - 1" by (simp add: r_def)
  have p: "(2::int) ^ r < 2 ^ (?W - 1)" using rn by (intro power_strict_increasing) (simp_all add: r_def)
  have hi: "bvsub (mk ?W (2 ^ r)) (mk ?W 1) = mk ?W (2 ^ r - 1)"
    and lo: "bvsub (bvneg (mk ?W (2 ^ r - 1))) (mk ?W 1) = mk ?W (- (2 ^ r))"
    by (simp_all only: bvsub_mk bvneg_mk) simp
  have svals: "sval (mk ?W (2 ^ r - 1)) = 2 ^ r - 1" "sval (mk ?W (- (2 ^ r))) = - (2 ^ r)"
    by (rule sval_mk_id; use p zero_less_power [of "2::int" r] in linarith)+
  note w = wf_kr_s [OF wf(1) i(1)]
  have "- (2 ^ r) \<le> sval slo" "sval sh \<le> 2 ^ r - 1"
  proof -
    have "bvsle (bvsub (bvneg (bvsub (mk ?W (2 ^ r)) (mk ?W 1))) (mk ?W 1)) (apint_sext ?W slo)"
      "bvsle (apint_sext ?W sh) (bvsub (mk ?W (2 ^ r)) (mk ?W 1))"
      using safe lt unfolding safe_shl_nsw_def i r_def Let_def by auto
    then show "- (2 ^ r) \<le> sval slo" "sval sh \<le> 2 ^ r - 1"
      unfolding hi lo bvsle_def svals using w by (simp_all add: apint_sext_props)
  qed
  then have "- (2 ^ r) \<le> sval x" "sval x < 2 ^ r" using holds_s [OF x(1) i(1)] by linarith+
  moreover have "amt y + r \<le> n - 1"
    using amt_bound [OF i(2) x(2,3) lt] lt wf(2) by (simp add: r_def nat_less_iff)
  ultimately show ?thesis
    using abs_scaled [of r "sval x" "amt y" "n - 1"] amt_bound [OF i(2) x(2,3) lt]
    by (simp add: fits_s_def)
qed

lemma safe_shl_nuw_ok:
  assumes safe: "safe_shl_nuw a b n" and wf: "wf_kr n a" "0 < n" and x: "holds a x" "holds b y" "wf_bv x" "wf_bv y"
  shows "amt y < n \<and> fits_u n (uval x * 2 ^ amt y)"
proof -
  obtain alo ahi ulo shi where i: "kr_u a = Some (alo, ahi)" "kr_u b = Some (ulo, shi)"
    using safe by (auto simp: safe_shl_nuw_def split: option.splits)
  have lt: "uval shi < int n" using safe by (auto simp: safe_shl_nuw_def i split: if_splits)
  define r where "r = n - nat (uval shi)"
  have rn: "r < Suc (Suc n)" by (simp add: r_def)
  note w = wf_kr_u [OF wf(1) i(1)]
  have "uval ahi < 2 ^ r"
    using safe lt w rn
    by (simp add: safe_shl_nuw_def i Let_def r_def [symmetric] bvult_def apint_zext_props take_bit_id)
  then have "uval x < 2 ^ r" "0 \<le> uval x" using holds_u [OF x(1) i(1)] wf_bvD(2) [OF x(3)] by linarith+
  moreover have "amt y + r \<le> n"
    using amt_bound [OF i(2) x(2,4) lt] lt by (simp add: r_def nat_less_iff)
  moreover have "- (2 ^ r) \<le> uval x" using \<open>0 \<le> uval x\<close> by (simp add: order_trans [of _ 0])
  ultimately show ?thesis
    using abs_scaled [of r "uval x" "amt y" n] amt_bound [OF i(2) x(2,4) lt]
    by (simp add: fits_u_def)
qed

section \<open>Exactness\<close>

lemma count_trailing_ones_bit: "i < count_trailing_ones k n \<Longrightarrow> bit n i"
proof (induction k n arbitrary: i rule: count_trailing_ones.induct)
  case (2 k n)
  then show ?case by (cases i) (auto simp: bit_0 bit_Suc split: if_splits)
qed simp

lemma low_bits_zero:
  assumes "kb_has k x" "m \<le> countr_one (Zero k)"
  shows "2 ^ m dvd uval x"
proof -
  have "\<not> bit (uval x) i" if "i < m" for i
    using assms that count_trailing_ones_bit [of i "bits (Zero k)" "uval (Zero k)"]
    by (auto simp: kb_has_bits countr_one_def)
  then have "take_bit m (uval x) = 0" by (intro bit_eqI) (simp add: bit_take_bit_iff)
  then show ?thesis by (simp add: take_bit_eq_0_iff)
qed

lemma dvd_sval: "wf_bv x \<Longrightarrow> m \<le> bits x \<Longrightarrow> 2 ^ m dvd uval x \<Longrightarrow> 2 ^ m dvd sval x"
  by (auto simp: sval_cases dvd_diff le_imp_power_dvd)

lemma dvd_uval: "wf_bv x \<Longrightarrow> m \<le> bits x \<Longrightarrow> 2 ^ m dvd sval x \<Longrightarrow> 2 ^ m dvd uval x"
  using dvd_diff_commute [of "2 ^ m" "uval x" "2 ^ bits x"] le_imp_power_dvd [of m "bits x" "2::int"]
  by (auto simp: sval_cases dvd_diff_right_iff split: if_splits)

lemma safe_shift_exact_ok:
  assumes safe: "safe_shift_exact a b n" and n: "0 < n"
    and x: "holds a x" "holds b y" "wf_bv y"
  shows "amt y < n \<and> 2 ^ amt y dvd uval x"
proof -
  obtain ab ulo hi where i: "kr_bits a = Some ab" "kr_u b = Some (ulo, hi)"
    using safe by (auto simp: safe_shift_exact_def split: option.splits)
  have c: "min (nat (uval hi)) n = 0 \<or> min (nat (uval hi)) n < n \<and> min (nat (uval hi)) n \<le> countr_one (Zero ab)"
    using safe by (auto simp: safe_shift_exact_def i Let_def split: if_splits)
  have "amt y \<le> nat (uval hi)" using holds_u [OF x(2) i(2)] by (simp add: amt_def nat_mono)
  then show ?thesis
  proof (cases "min (nat (uval hi)) n = 0")
    case True
    then have "amt y = 0" using n \<open>amt y \<le> nat (uval hi)\<close> by (simp add: min_def split: if_splits)
    then show ?thesis using n by simp
  next
    case False
    with c have "nat (uval hi) < n" "nat (uval hi) \<le> countr_one (Zero ab)" by (auto simp: min_def split: if_splits)
    then show ?thesis
      using low_bits_zero [OF holds_b [OF x(1) i(1)], of "amt y"] \<open>amt y \<le> nat (uval hi)\<close> by linarith
  qed
qed

lemma isPowerOf2_sval:
  assumes "wf_bv c" "uval c \<noteq> 0"
    and "apint_isPowerOf2 (if isNegative c then bvsub (mk (bits c) 0) c else c)"
  shows "\<bar>sval c\<bar> = 2 ^ apint_logBase2 (if isNegative c then bvsub (mk (bits c) 0) c else c)"
proof (cases "isNegative c")
  case True
  have "sval c < 0" using True assms(1) by (simp add: isNegative_iff)
  then have sv: "sval c = uval c - 2 ^ bits c"
    using sval_cases [OF assms(1)] wf_bvD(2) [OF assms(1)] by (auto split: if_splits)
  have "take_bit (bits c) (- uval c) = take_bit (bits c) (2 ^ bits c - uval c)"
    by (simp add: take_bit_eq_mod mod_diff_left_eq [symmetric])
  also have "\<dots> = - sval c"
    unfolding sv using wf_bvD [OF assms(1)] assms(2) by (subst take_bit_id) auto
  finally have "take_bit (bits c) (- uval c) = - sval c" .
  then show ?thesis using assms(3) True \<open>sval c < 0\<close>
    by (simp add: apint_isPowerOf2_def bvsub_def)
next
  case False
  then have "sval c = uval c" using assms(1) by (simp add: isNegative_iff sval_nonneg_eq not_less)
  then show ?thesis using assms(3) False wf_bvD(2) [OF assms(1)] by (simp add: apint_isPowerOf2_def)
qed

lemma safe_div_exact_ok:
  assumes Q: "sound_query Q" and safe: "safe_div_exact Q sgnd a b"
    and x: "holds a x" "holds b y" "wf_bv x" "wf_bv y" "bits x = bits y" and sz: "bits_sized (bits y) b"
  shows "if sgnd then sval y dvd sval x else uval y dvd uval x"
proof -
  obtain ab bb where i: "kr_bits a = Some ab" "kr_bits b = Some bb" and c: "kb_isConstant Q bb"
    using safe by (auto simp: safe_div_exact_def split: option.splits if_splits)
  have y: "kb_getConstant Q bb = y"
    using Q c x(4) holds_b [OF x(2) i(2)] sz i(2) unfolding sound_query_def bits_sized_def by simp
  define d where "d = (if sgnd \<and> isNegative y then bvsub (mk (bits y) 0) y else y)"
  have s: "uval y \<noteq> 0" "apint_isPowerOf2 d" "apint_logBase2 d \<le> countr_one (Zero ab)"
    using safe c by (auto simp: safe_div_exact_def i y Let_def d_def split: if_splits)
  have dv: "2 ^ apint_logBase2 d dvd uval x" by (rule low_bits_zero [OF holds_b [OF x(1) i(1)] s(3)])
  have "bits d = bits x" by (simp add: d_def x(5))
  then have lb: "apint_logBase2 d \<le> bits x"
    using getActiveBits_le [of d] by (simp add: apint_logBase2_def)
  show ?thesis
  proof (cases sgnd)
    case True
    have "\<bar>sval y\<bar> = 2 ^ apint_logBase2 d"
      using isPowerOf2_sval [OF x(4) s(1)] s(2) True by (simp add: d_def)
    then show ?thesis using dvd_sval [OF x(3) lb dv] True by (metis abs_dvd_iff)
  next
    case False
    then show ?thesis using s(2) dv by (simp add: d_def apint_isPowerOf2_def)
  qed
qed

section \<open>The flags of the encoding\<close>

text \<open>The instruction a flag belongs to, with only that flag set.\<close>

fun flag_binop :: "FlagKind \<Rightarrow> (binop \<times> binop_flags) option" where
  "flag_binop AddNSW = Some (Add, no_flags\<lparr>NSW := True\<rparr>)"
| "flag_binop AddNUW = Some (Add, no_flags\<lparr>NUW := True\<rparr>)"
| "flag_binop SubNSW = Some (Sub, no_flags\<lparr>NSW := True\<rparr>)"
| "flag_binop SubNUW = Some (Sub, no_flags\<lparr>NUW := True\<rparr>)"
| "flag_binop MulNSW = Some (Mul, no_flags\<lparr>NSW := True\<rparr>)"
| "flag_binop MulNUW = Some (Mul, no_flags\<lparr>NUW := True\<rparr>)"
| "flag_binop ShlNSW = Some (Shl, no_flags\<lparr>NSW := True\<rparr>)"
| "flag_binop ShlNUW = Some (Shl, no_flags\<lparr>NUW := True\<rparr>)"
| "flag_binop UDivExact = Some (UDiv, no_flags\<lparr>Exact := True\<rparr>)"
| "flag_binop SDivExact = Some (SDiv, no_flags\<lparr>Exact := True\<rparr>)"
| "flag_binop LShrExact = Some (LShr, no_flags\<lparr>Exact := True\<rparr>)"
| "flag_binop AShrExact = Some (AShr, no_flags\<lparr>Exact := True\<rparr>)"
| "flag_binop OrDisjoint = Some (Or, no_flags\<lparr>Disjoint := True\<rparr>)"
| "flag_binop ZExtNNeg = None"

definition flag_result :: "FlagKind \<Rightarrow> nat \<Rightarrow> state_value \<Rightarrow> state_value \<Rightarrow> state_value" where
  "flag_result k w a b =
     (case flag_binop k of
        Some (op, fl) \<Rightarrow> binop_scalar no_facts no_facts w op fl a b
      | None \<Rightarrow> conv_scalar ZExt \<lparr>c_nneg = True, c_nuw = False, c_nsw = False\<rparr> w a)"

lemma canProveSafe_flag_ok:
  assumes Q: "sound_query Q" and safe: "canProveSafe Q k a b bw"
    and wf: "wf_kr n a" "wf_kr n b" and x: "holds a x" "holds b y" "wf_bv x" "wf_bv y" "bits x = n" "bits y = n"
    and sz: "bits_sized n a" "bits_sized n b" and bw: "k \<noteq> ZExtNNeg \<Longrightarrow> bw = n"
  shows "flag_ok k x y"
proof -
  have n: "0 < n" using x(3,5) wf_bvD(1) by blast
  have eqb: "bits x = bits y" using x(5,6) by simp
  have sc: "fits_s n (sval x + sval y)" if "safe_signed bvadd a b n"
    by (rule safe_signed_ok [OF exact_ops(1) small_ops(1) _ wf n x(1,2) that])
      (intro conjI sum_corners; assumption)
  have sb: "fits_s n (sval x - sval y)" if "safe_signed bvsub a b n"
    by (rule safe_signed_ok [OF exact_ops(2) small_ops(2) _ wf n x(1,2) that])
      (intro conjI sum_corners; assumption)
  have sm: "fits_s n (sval x * sval y)" if "safe_signed bvmul a b n"
    by (rule safe_signed_ok [OF exact_ops(3) small_ops(3) _ wf n x(1,2) that])
      (intro conjI product_corners; assumption)
  have ub: "uval x < 2 ^ n" "0 \<le> uval y" using wf_bvD [OF x(3)] wf_bvD(2) [OF x(4)] x(5) by simp_all
  show ?thesis
  proof (cases k)
    case SubNUW
    then have "0 \<le> uval x - uval y" using safe bw safe_sub_nuw_ok [OF _ wf x(1-4)] by simp
    then show ?thesis using SubNUW ub x(5) by (simp add: fits_u_def)
  next
    case ZExtNNeg
    then obtain lo hi where i: "kr_s a = Some (lo, hi)" "\<not> isNegative lo"
      using safe by (auto split: option.splits)
    then show ?thesis
      using ZExtNNeg holds_s [OF x(1) i(1)] wf_kr_s [OF wf(1) i(1)] by (simp add: isNegative_iff)
  next
    case OrDisjoint
    then show ?thesis
      using safe Q x(3-6) eqb sz holds_b [OF x(1)] holds_b [OF x(2)]
      by (auto simp: sound_query_def bits_sized_def split: option.splits)
  next
    case UDivExact
    then show ?thesis using safe safe_div_exact_ok [OF Q _ x(1-4) eqb, of False] sz(2) x(6) by simp
  next
    case SDivExact
    then show ?thesis using safe safe_div_exact_ok [OF Q _ x(1-4) eqb, of True] sz(2) x(6) by simp
  next
    case AShrExact
    then show ?thesis using safe bw safe_shift_exact_ok [OF _ n x(1,2,4)] dvd_sval [OF x(3)] x(5) by auto
  qed (use safe bw sc sb sm x(5) safe_add_nuw_ok [OF _ wf x(1-4) n] safe_mul_nuw_ok [OF _ wf x(1-4) n]
      safe_shl_nsw_ok [OF _ wf(1) n x(1,2,4)] safe_shl_nuw_ok [OF _ wf(1) n x(1-4)]
      safe_shift_exact_ok [OF _ n x(1,2,4)] in simp_all)
qed

lemma sv_select: "sv_value (sv v p) = v" "non_poison (sv v p) = p"
  by (simp_all add: sv_def)

lemma flag_result_poison:
  assumes x: "wf_bv x" "wf_bv y" "bits x = bits y"
    and d: "k \<in> {UDivExact, SDivExact} \<Longrightarrow> uval y \<noteq> 0"
  shows "non_poison (flag_result k w (sv x True) (sv y True)) \<longleftrightarrow> flag_ok k x y"
proof -
  have b: "non_poison (binop_scalar no_facts no_facts w op fl (sv x True) (sv y True)) \<longleftrightarrow>
      spec_no_poison op fl x y"
    if "isDivOrRem op \<longrightarrow> uval y \<noteq> 0" "spec_value op x y \<noteq> None" for op fl
    using binop_fn_poison [OF x(1,2,3) honest_no_facts [OF x(1)] honest_no_facts [OF x(2)] _ that(2)] that(1)
    by (simp add: binop_scalar_def case_prod_beta sv_def)
  show ?thesis
    by (cases k) (use d x(1) in \<open>simp_all add: flag_result_def b no_flags_def conv_scalar_def
      conv_fn_def isNegative_iff not_less sv_select\<close>)
qed

section \<open>Property\<close>

text \<open>
  C7 (safety). When \<open>canProveSafe\<close> answers true for a flag and ranges of the operands, then on
  all operand values in these ranges the instruction that carries the flag, as
  \<open>ir/instr.cpp\<close> encodes it, has a result that is not poison: the flag's violation cannot occur.
  This covers \<open>nsw\<close> and \<open>nuw\<close> on add, sub, mul and shl, \<open>exact\<close> on the divisions and shifts,
  \<open>disjoint\<close> on or and \<open>nneg\<close> on zext. A division is considered where the divisor is not 0.
\<close>

theorem canProveSafe_sound:
  assumes "sound_query Q" "canProveSafe Q k a b bw"
    "wf_kr n a" "wf_kr n b" "bits_sized n a" "bits_sized n b"
    "wf_bv x" "wf_bv y" "bits x = n" "bits y = n" "holds a x" "holds b y"
    "k \<noteq> ZExtNNeg \<Longrightarrow> bw = n" "k \<in> {UDivExact, SDivExact} \<Longrightarrow> uval y \<noteq> 0"
  shows "non_poison (flag_result k bw (sv x True) (sv y True))"
proof -
  have "flag_ok k x y"
    by (rule canProveSafe_flag_ok [OF assms(1,2,3,4,11,12,7,8,9,10,5,6,13)])
  then show ?thesis using flag_result_poison [OF assms(7,8) _ assms(14)] assms(9,10) by simp
qed

definition simple_query :: kb_query where
  "simple_query =
     \<lparr>kb_haveNoCommonBitsSet = (\<lambda>a b. uval (Zero a) OR uval (Zero b) = 2 ^ bits (Zero a) - 1),
      kb_isConstant = (\<lambda>a. uval (Zero a) OR uval (One a) = 2 ^ bits (Zero a) - 1),
      kb_getConstant = One\<rparr>"

lemma simple_query_sound: "sound_query simple_query"
proof -
  have full: "bit (z::int) i \<or> bit u i" if "z OR u = 2 ^ w - 1" "i < w" for z u w i
  proof -
    have "bit (mask w :: int) i" using that(2) by (simp add: bit_mask_iff)
    then show ?thesis using that(1) by (metis bit_or_iff mask_eq_exp_minus_1)
  qed
  have nc: "uval x AND uval y = 0"
    if "uval (Zero a) OR uval (Zero b) = 2 ^ bits (Zero a) - 1" "wf_bv x" "bits (Zero a) = bits x"
      "kb_has a x" "kb_has b y" for a b x y
  proof (rule bit_eqI)
    fix i
    show "bit (uval x AND uval y) i = bit 0 i"
      using that(4,5) full [OF that(1), of i] bit_wf [OF that(2), of i] that(3)
      by (auto simp: bit_and_iff kb_has_bits)
  qed
  have con: "x = One a"
    if "uval (Zero a) OR uval (One a) = 2 ^ bits (Zero a) - 1" "wf_bv x" "kb_sized (bits x) a" "kb_has a x"
    for a x
  proof -
    have "uval x = uval (One a)"
    proof (rule bit_eqI)
      fix i
      show "bit (uval x) i = bit (uval (One a)) i"
        using that(3,4) full [OF that(1), of i] bit_wf [OF that(2), of i]
        by (auto simp: kb_has_bits kb_sized_def)
    qed
    then show ?thesis using that(3) by (simp add: bv_eq_iff kb_sized_def)
  qed
  show ?thesis
    unfolding sound_query_def simple_query_def kb_query.select_convs
    by (intro conjI allI impI; (rule nc | rule con); (assumption | simp add: kb_sized_def))
qed

definition demo_fact :: "int \<Rightarrow> int \<Rightarrow> known_range" where
  "demo_fact lo hi = \<lparr>kr_u = Some (mk 8 lo, mk 8 hi), kr_s = Some (mk 8 lo, mk 8 hi), kr_bits = None,
     undef_free = True, poison_free = True\<rparr>"

theorem canProveSafe_sound_witness:
  "canProveSafe simple_query AddNSW (demo_fact 0 100) (demo_fact 0 27) 8 \<and>
   non_poison (flag_result AddNSW 8 (sv (mk 8 100) True) (sv (mk 8 27) True)) \<and>
   \<not> canProveSafe simple_query AddNSW (demo_fact 0 100) (demo_fact 0 28) 8"
proof -
  have safe: "canProveSafe simple_query AddNSW (demo_fact 0 100) (demo_fact 0 27) 8" by code_simp
  have unsafe: "\<not> canProveSafe simple_query AddNSW (demo_fact 0 100) (demo_fact 0 28) 8" by code_simp
  have "non_poison (flag_result AddNSW 8 (sv (mk 8 100) True) (sv (mk 8 27) True))"
    by (rule canProveSafe_sound [OF simple_query_sound safe])
      (simp_all add: demo_fact_def wf_kr_def wf_ivl_def bits_sized_def holds_def in_u_def in_s_def
        in_b_def sval_mk)
  with safe unsafe show ?thesis by blast
qed

end
