(* ===== verification/Back.thy ===== *)
theory Back
  imports Llvm
begin

text \<open>
  Backward slicing: \<open>collectBackwardSlice\<close> of \<open>tv-next/back.cpp\<close>. Instruction pointers are the
  numbers of the instructions; the worklist is a stack whose top is the head of the list; the
  sets of visited instructions and of arguments are sets of numbers. An operand that is an
  instruction outside the function does not occur in LLVM, and is passed over.
\<close>

record backward_slice =
  sl_insts :: "inst list"
  arg_roots :: "nat list"

definition inst_ids :: "func \<Rightarrow> nat set" where
  "inst_ids f = set (map i_id (all_insts f))"

definition op_insts :: "inst \<Rightarrow> nat list" where
  "op_insts I = concat (map (\<lambda>v. case v of InstV n \<Rightarrow> [n] | _ \<Rightarrow> []) (i_ops I))"

definition op_args :: "inst \<Rightarrow> nat list" where
  "op_args I = concat (map (\<lambda>v. case v of ArgV n \<Rightarrow> [n] | _ \<Rightarrow> []) (i_ops I))"

lemma find_inst_id: "find_inst f n = Some I \<Longrightarrow> i_id I = n \<and> I \<in> set (all_insts f) \<and> n \<in> inst_ids f"
  by (auto simp: find_inst_def find_Some_iff inst_ids_def)

lemma finite_inst_ids [simp]: "finite (inst_ids f)"
  by (simp add: inst_ids_def)

function slice_loop :: "func \<Rightarrow> nat set \<Rightarrow> nat set \<Rightarrow> nat list \<Rightarrow> nat set \<times> nat set" where
  "slice_loop f visited args [] = (visited, args)"
| "slice_loop f visited args (n # worklist) =
     (if n \<in> visited then slice_loop f visited args worklist
      else case find_inst f n of
             None \<Rightarrow> slice_loop f visited args worklist
           | Some I \<Rightarrow> slice_loop f (insert n visited) (args \<union> set (op_args I)) (rev (op_insts I) @ worklist))"
  by pat_completeness auto
termination
proof (relation "measures [\<lambda>(f, visited, args, wl). card (inst_ids f - visited), \<lambda>(f, visited, args, wl). length wl]")
  fix f n visited args worklist I
  assume "n \<notin> visited" "find_inst f n = Some I"
  then have "inst_ids f - insert n visited \<subset> inst_ids f - visited" using find_inst_id by blast
  then have "card (inst_ids f - insert n visited) < card (inst_ids f - visited)"
    by (intro psubset_card_mono) simp_all
  then show "((f, insert n visited, args \<union> set (op_args I), rev (op_insts I) @ worklist), f, visited, args, n # worklist)
      \<in> measures [\<lambda>(f, visited, args, wl). card (inst_ids f - visited), \<lambda>(f, visited, args, wl). length wl]"
    by simp
qed simp_all

text \<open>The scan for the root does not stop at the first match: the last one wins.\<close>

definition find_root :: "string \<Rightarrow> func \<Rightarrow> inst option" where
  "find_root name f =
     (case rev (filter (\<lambda>I. i_name I \<noteq> [] \<and> i_name I = name) (all_insts f)) of
        [] \<Rightarrow> None
      | root # _ \<Rightarrow> Some root)"

definition collectBackwardSlice :: "string \<Rightarrow> func \<Rightarrow> backward_slice option" where
  "collectBackwardSlice name f =
     (case find_root name f of
        None \<Rightarrow> None
      | Some root \<Rightarrow>
          (case slice_loop f {} {} [i_id root] of (visited, arg_set) \<Rightarrow>
             Some \<lparr>sl_insts = filter (\<lambda>I. i_id I \<in> visited) (all_insts f),
                   arg_roots = sorted_list_of_set arg_set\<rparr>))"

section \<open>The loop computes reachability\<close>

text \<open>One def-use edge, from an instruction to an instruction it reads.\<close>

definition reads :: "func \<Rightarrow> (nat \<times> nat) set" where
  "reads f = {(m, n). \<exists>I J. find_inst f m = Some I \<and> n \<in> set (op_insts I) \<and> find_inst f n = Some J}"

definition known :: "func \<Rightarrow> nat set" where
  "known f = {n. find_inst f n \<noteq> None}"

definition args_of :: "func \<Rightarrow> nat set \<Rightarrow> nat set" where
  "args_of f V = (\<Union>n \<in> V. case find_inst f n of Some I \<Rightarrow> set (op_args I) | None \<Rightarrow> {})"

lemma known_iff: "n \<in> known f \<longleftrightarrow> n \<in> inst_ids f"
  by (auto simp: known_def find_inst_def inst_ids_def find_None_iff)

definition slice_inv :: "func \<Rightarrow> nat \<Rightarrow> nat set \<Rightarrow> nat set \<Rightarrow> nat list \<Rightarrow> bool" where
  "slice_inv f root V A wl \<longleftrightarrow>
     (\<forall>n \<in> V \<union> (set wl \<inter> known f). (root, n) \<in> (reads f)\<^sup>*) \<and> V \<subseteq> known f \<and>
     (\<forall>m n. m \<in> V \<longrightarrow> (m, n) \<in> reads f \<longrightarrow> n \<in> V \<union> set wl) \<and>
     root \<in> V \<union> set wl \<and> A = args_of f V"

lemma reads_known: "(m, n) \<in> reads f \<Longrightarrow> n \<in> known f"
  and reads_op: "(m, n) \<in> reads f \<Longrightarrow> find_inst f m = Some I \<Longrightarrow> n \<in> set (op_insts I)"
  by (auto simp: reads_def known_def)

lemma slice_inv_skip:
  "slice_inv f root V A (n # wl) \<Longrightarrow> n \<in> V \<or> n \<notin> known f \<Longrightarrow> root \<in> known f \<Longrightarrow> slice_inv f root V A wl"
  unfolding slice_inv_def using reads_known by (auto, blast+)

lemma slice_inv_visit:
  assumes inv: "slice_inv f root V A (n # wl)" and I: "find_inst f n = Some I" and n: "n \<notin> V"
  shows "slice_inv f root (insert n V) (A \<union> set (op_args I)) (rev (op_insts I) @ wl)"
proof -
  have kn: "n \<in> known f" using I by (simp add: known_def)
  have rn: "(root, n) \<in> (reads f)\<^sup>*" using inv kn by (auto simp: slice_inv_def)
  have new: "(root, m) \<in> (reads f)\<^sup>*" if "m \<in> set (op_insts I)" "m \<in> known f" for m
  proof -
    have "(n, m) \<in> reads f" using I that by (auto simp: reads_def known_def)
    then show ?thesis using rn by (rule rtrancl_into_rtrancl [rotated])
  qed
  have "(root, m) \<in> (reads f)\<^sup>*"
    if "m \<in> insert n V \<union> (set (rev (op_insts I) @ wl) \<inter> known f)" for m
    using that inv rn new unfolding slice_inv_def by auto
  moreover have "q \<in> insert n V \<union> set (rev (op_insts I) @ wl)"
    if "p \<in> insert n V" "(p, q) \<in> reads f" for p q
    using that inv reads_op [OF that(2)] I unfolding slice_inv_def by auto
  moreover have "args_of f (insert n V) = set (op_args I) \<union> args_of f V"
    using I by (auto simp: args_of_def)
  ultimately show ?thesis
    using inv kn unfolding slice_inv_def by (simp, blast)
qed

lemma slice_loop_inv:
  "slice_inv f root V A wl \<Longrightarrow> root \<in> known f \<Longrightarrow>
     slice_inv f root (fst (slice_loop f V A wl)) (snd (slice_loop f V A wl)) []"
proof (induction f V A wl rule: slice_loop.induct)
  case (2 f V A n wl)
  consider "n \<in> V" | "n \<notin> V" "find_inst f n = None" | I where "n \<notin> V" "find_inst f n = Some I" by fastforce
  then show ?case
  proof cases
    case 1
    then show ?thesis using 2 slice_inv_skip [OF 2(4)] by simp
  next
    case n: 2
    then show ?thesis using 2 slice_inv_skip [OF 2(4)] by (simp add: known_def)
  next
    case 3
    then show ?thesis using 2(3) slice_inv_visit [OF 2(4)] 2(5) by simp
  qed
qed simp

lemma slice_inv_final:
  assumes "slice_inv f root V A []"
  shows "V = {n. (root, n) \<in> (reads f)\<^sup>*} \<and> A = args_of f V"
proof -
  have closed: "root \<in> V" "\<And>m n. m \<in> V \<Longrightarrow> (m, n) \<in> reads f \<Longrightarrow> n \<in> V"
    using assms by (simp_all add: slice_inv_def)
  have "n \<in> V" if "(root, n) \<in> (reads f)\<^sup>*" for n
    using that by (induction rule: rtrancl_induct) (auto intro: closed)
  moreover have "\<forall>n \<in> V. (root, n) \<in> (reads f)\<^sup>*" "A = args_of f V"
    using assms by (simp_all add: slice_inv_def)
  ultimately show ?thesis by blast
qed

lemma slice_loop_reach:
  assumes "root \<in> known f"
  shows "slice_loop f {} {} [root] =
    ({n. (root, n) \<in> (reads f)\<^sup>*}, args_of f {n. (root, n) \<in> (reads f)\<^sup>*})"
proof -
  have "slice_inv f root {} {} [root]" by (simp add: slice_inv_def args_of_def)
  from slice_inv_final [OF slice_loop_inv [OF this assms]] show ?thesis by (simp add: prod_eq_iff)
qed

section \<open>Properties\<close>

lemma find_root_props:
  "find_root name f = Some r \<Longrightarrow> r \<in> set (all_insts f) \<and> i_name r = name \<and> name \<noteq> []"
  "find_root name f = None \<longleftrightarrow> (\<forall>I \<in> set (all_insts f). i_name I = [] \<or> i_name I \<noteq> name)"
proof -
  show "r \<in> set (all_insts f) \<and> i_name r = name \<and> name \<noteq> []" if "find_root name f = Some r"
  proof -
    define L where "L = rev (filter (\<lambda>I. i_name I \<noteq> [] \<and> i_name I = name) (all_insts f))"
    have "r \<in> set L" using that by (cases L) (simp_all add: find_root_def L_def [symmetric])
    then have "r \<in> set (rev (filter (\<lambda>I. i_name I \<noteq> [] \<and> i_name I = name) (all_insts f)))"
      by (simp only: L_def)
    then show ?thesis unfolding set_rev set_filter by auto
  qed
  show "find_root name f = None \<longleftrightarrow> (\<forall>I \<in> set (all_insts f). i_name I = [] \<or> i_name I \<noteq> name)"
    by (auto simp: find_root_def list.case_eq_if filter_empty_conv)
qed

lemma in_known: "I \<in> set (all_insts f) \<Longrightarrow> i_id I \<in> known f"
  by (simp add: known_iff inst_ids_def)

lemma finite_args_of: "finite V \<Longrightarrow> finite (args_of f V)"
  by (auto simp: args_of_def split: option.splits)

lemma finite_reach: "root \<in> known f \<Longrightarrow> finite {n. (root, n) \<in> (reads f)\<^sup>*}"
proof -
  assume r: "root \<in> known f"
  have "n \<in> known f" if "(root, n) \<in> (reads f)\<^sup>*" for n
    using that by (induction rule: rtrancl_induct) (auto intro: r reads_known)
  then have "{n. (root, n) \<in> (reads f)\<^sup>*} \<subseteq> inst_ids f" by (auto simp: known_iff)
  then show ?thesis by (rule finite_subset) simp
qed

lemma slice_reach:
  assumes "collectBackwardSlice name f = Some sl"
  shows "\<exists>root. find_root name f = Some root \<and>
    sl_insts sl = filter (\<lambda>I. (i_id root, i_id I) \<in> (reads f)\<^sup>*) (all_insts f) \<and>
    set (arg_roots sl) = args_of f {n. (i_id root, n) \<in> (reads f)\<^sup>*} \<and>
    sorted (arg_roots sl) \<and> distinct (arg_roots sl)"
proof -
  obtain root where r: "find_root name f = Some root"
    using assms by (auto simp: collectBackwardSlice_def split: option.splits)
  have k: "i_id root \<in> known f" using find_root_props(1) [OF r] in_known by blast
  show ?thesis
    using assms r finite_args_of [OF finite_reach [OF k]]
    by (auto simp: collectBackwardSlice_def slice_loop_reach [OF k] simp del: slice_loop.simps)
qed

text \<open>
  C16 (functional). \<open>collectBackwardSlice\<close> returns, in program order, exactly the instructions the
  root reads, directly or through other instructions, the root included; and the arguments
  these instructions read, each once, in increasing order of their number.
\<close>

theorem slice_is_reachability:
  assumes "collectBackwardSlice name f = Some sl"
  shows "\<exists>root. find_root name f = Some root \<and>
    sl_insts sl = filter (\<lambda>I. (i_id root, i_id I) \<in> (reads f)\<^sup>*) (all_insts f) \<and>
    set (arg_roots sl) = args_of f {n. (i_id root, n) \<in> (reads f)\<^sup>*} \<and>
    sorted (arg_roots sl) \<and> distinct (arg_roots sl)"
  by (rule slice_reach [OF assms])

text \<open>
  A slice exists exactly for the names of instructions, so never for a parameter.
\<close>

theorem slice_exists_iff:
  "(\<exists>sl. collectBackwardSlice name f = Some sl) \<longleftrightarrow>
     name \<noteq> [] \<and> (\<exists>I \<in> set (all_insts f). i_name I = name)"
  using find_root_props(2) [of name f]
  by (cases "find_root name f") (auto simp: collectBackwardSlice_def split: prod.splits)

text \<open>Two instructions of a chain, on argument 0.\<close>

definition chain_inst :: "nat \<Rightarrow> string \<Rightarrow> val list \<Rightarrow> inst" where
  "chain_inst n nm ops = \<lparr>i_id = n, i_name = nm, i_op = OBin Add, i_ty = IntTy 8, i_ops = ops,
     i_nsw = False, i_nuw = False, i_exact = False, i_disjoint = False, i_nneg = False\<rparr>"

definition chain_func :: func where
  "chain_func = \<lparr>f_name = ''f'', f_args = [\<lparr>arg_name = ''x'', arg_ty = IntTy 8\<rparr>],
     f_blocks = [[chain_inst 0 ''a'' [ArgV 0, ArgV 0], chain_inst 1 ''b'' [ArgV 0, ArgV 0],
                  chain_inst 2 ''c'' [InstV 0, InstV 0]]]\<rparr>"

lemma chain_slice:
  "collectBackwardSlice ''c'' chain_func =
     Some \<lparr>sl_insts = [chain_inst 0 ''a'' [ArgV 0, ArgV 0], chain_inst 2 ''c'' [InstV 0, InstV 0]], arg_roots = [0]\<rparr>"
  by (simp add: collectBackwardSlice_def find_root_def chain_func_def chain_inst_def all_insts_def
      find_inst_def op_insts_def op_args_def)

theorem slice_is_reachability_witness:
  "\<exists>root. find_root ''c'' chain_func = Some root \<and>
     [chain_inst 0 ''a'' [ArgV 0, ArgV 0], chain_inst 2 ''c'' [InstV 0, InstV 0]] =
       filter (\<lambda>I. (i_id root, i_id I) \<in> (reads chain_func)\<^sup>*) (all_insts chain_func)"
  using slice_is_reachability [OF chain_slice] by auto

end
