(* ===== verification/Builder.thy ===== *)
theory Builder
  imports RangeProps Flags Back Semantics "HOL-Library.State_Monad"
begin

text \<open>
  The claims the proposer writes as LLVM instructions: \<open>KnownFact\<close>, \<open>buildFactPredicate\<close> and
  \<open>buildFlagClaim\<close> of \<open>tv-next/proposer.cpp\<close>. LLVM's instruction builder is a state monad over the
  instructions emitted so far; a builder call on constants may return a folded constant. The
  calculus \<open>emits\<close> describes the runs of the emitted code, and the claims are shown to be true
  exactly when the fact, or the flag, holds.
\<close>

section \<open>The instruction builder\<close>

record builder =
  b_next :: nat
  b_insts :: "inst list"
  b_names :: "string list"

definition mk_inst :: "nat \<Rightarrow> string \<Rightarrow> opcode \<Rightarrow> ty \<Rightarrow> val list \<Rightarrow> inst" where
  "mk_inst n nm oc t ops = \<lparr>i_id = n, i_name = nm, i_op = oc, i_ty = t, i_ops = ops,
     i_nsw = False, i_nuw = False, i_exact = False, i_disjoint = False, i_nneg = False\<rparr>"

definition pick_name :: "llvm_api \<Rightarrow> string list \<Rightarrow> string \<Rightarrow> string" where
  "pick_name L names nm = (if nm = [] then [] else unique_name L names nm)"

definition insert_inst :: "llvm_api \<Rightarrow> opcode \<Rightarrow> ty \<Rightarrow> val list \<Rightarrow> string \<Rightarrow> builder \<Rightarrow> val \<times> builder" where
  "insert_inst L oc t ops nm b =
     (let nm' = pick_name L (b_names b) nm in
      (InstV (b_next b),
       b\<lparr>b_next := Suc (b_next b), b_insts := b_insts b @ [mk_inst (b_next b) nm' oc t ops],
         b_names := (if nm' = [] then b_names b else nm' # b_names b)\<rparr>))"

definition create :: "llvm_api \<Rightarrow> opcode \<Rightarrow> ty \<Rightarrow> val list \<Rightarrow> string \<Rightarrow> (builder, val) state" where
  "create L oc t ops nm =
     State (\<lambda>b. case const_fold L oc t ops of Some V \<Rightarrow> (V, b) | None \<Rightarrow> insert_inst L oc t ops nm b)"

section \<open>Facts\<close>

record known_fact =
  kf_name :: string
  kf_slice :: backward_slice
  u_bound :: "(bv \<times> bv) option"
  s_bound :: "(bv \<times> bv) option"
  kf_bits :: "known_bits option"
  kf_poison_free :: bool

definition informative_bits :: "kb_ops \<Rightarrow> known_bits option \<Rightarrow> bool" where
  "informative_bits K k = (case k of Some b \<Rightarrow> \<not> kb_isUnknown K b | None \<Rightarrow> False)"

definition fact_empty :: "kb_ops \<Rightarrow> known_fact \<Rightarrow> bool" where
  "fact_empty K f \<longleftrightarrow> u_bound f = None \<and> s_bound f = None \<and> \<not> kf_poison_free f \<and> \<not> informative_bits K (kf_bits f)"

definition andIn :: "llvm_api \<Rightarrow> string \<Rightarrow> val option \<Rightarrow> val \<Rightarrow> (builder, val option) state" where
  "andIn L nm result p =
     (case result of
        None \<Rightarrow> State_Monad.return (Some p)
      | Some r \<Rightarrow> do { v \<leftarrow> create L (OBin And) (IntTy 1) [r, p] nm; State_Monad.return (Some v) })"

definition claim_u :: "llvm_api \<Rightarrow> string \<Rightarrow> val \<Rightarrow> bv \<Rightarrow> bv \<Rightarrow> (builder, val) state" where
  "claim_u L nm value lo hi =
     do { p \<leftarrow> create L (OICmp ULE) (IntTy 1) [value, ConstInt hi] (nm @ ''_uub'');
          if lo \<noteq> mk (bits lo) 0 then
            do { lp \<leftarrow> create L (OICmp UGE) (IntTy 1) [value, ConstInt lo] (nm @ ''_ulb'');
                 create L (OBin And) (IntTy 1) [p, lp] (nm @ ''_u'') }
          else State_Monad.return p }"

definition claim_s :: "llvm_api \<Rightarrow> string \<Rightarrow> val \<Rightarrow> bv \<Rightarrow> bv \<Rightarrow> (builder, val) state" where
  "claim_s L nm value lo hi =
     do { p \<leftarrow> create L (OICmp SLE) (IntTy 1) [value, ConstInt hi] (nm @ ''_sub'');
          lp \<leftarrow> create L (OICmp SGE) (IntTy 1) [value, ConstInt lo] (nm @ ''_slb'');
          create L (OBin And) (IntTy 1) [p, lp] (nm @ ''_s'') }"

definition claim_pf :: "llvm_api \<Rightarrow> string \<Rightarrow> ty \<Rightarrow> val \<Rightarrow> (builder, val) state" where
  "claim_pf L nm t value =
     do { frozen \<leftarrow> create L OFreeze t [value] (nm @ ''_fz'');
          create L (OICmp EQ) (IntTy 1) [value, frozen] (nm @ ''_pf'') }"

definition claim_bits :: "llvm_api \<Rightarrow> string \<Rightarrow> ty \<Rightarrow> val \<Rightarrow> known_bits \<Rightarrow> (builder, val) state" where
  "claim_bits L nm t value k =
     do { masked \<leftarrow> create L (OBin And) t [value, ConstInt (bvor (Zero k) (One k))] (nm @ ''_bm'');
          create L (OICmp EQ) (IntTy 1) [masked, ConstInt (One k)] (nm @ ''_b'') }"

definition buildFactPredicate :: "llvm_api \<Rightarrow> kb_ops \<Rightarrow> ty \<Rightarrow> val \<Rightarrow> known_fact \<Rightarrow> (builder, val option) state" where
  "buildFactPredicate L K t value kf =
     (let nm = kf_name kf; join = andIn L (nm @ ''_and'') in
      do { r1 \<leftarrow> (case u_bound kf of
                     Some (lo, hi) \<Rightarrow> do { p \<leftarrow> claim_u L nm value lo hi; join None p }
                   | None \<Rightarrow> State_Monad.return None);
           r2 \<leftarrow> (case s_bound kf of
                     Some (lo, hi) \<Rightarrow> do { p \<leftarrow> claim_s L nm value lo hi; join r1 p }
                   | None \<Rightarrow> State_Monad.return r1);
           r3 \<leftarrow> (if kf_poison_free kf then do { p \<leftarrow> claim_pf L nm t value; join r2 p }
                   else State_Monad.return r2);
           (case kf_bits kf of
              Some k \<Rightarrow> if \<not> kb_isUnknown K k then do { p \<leftarrow> claim_bits L nm t value k; join r3 p }
                        else State_Monad.return r3
            | None \<Rightarrow> State_Monad.return r3) })"

section \<open>Flags\<close>

definition buildOvfClaim :: "llvm_api \<Rightarrow> binop \<Rightarrow> val \<Rightarrow> val \<Rightarrow> (builder, val) state" where
  "buildOvfClaim L intr a b =
     do { call \<leftarrow> create L (OOvf intr) (OtherTy ''{iN, i1}'') [a, b] [];
          ovf \<leftarrow> create L (OExtractValue 1) (IntTy 1) [call] [];
          create L (OBin Xor) (IntTy 1) [ovf, ConstInt (mk 1 1)] [] }"

text \<open>\<open>first\<close> then \<open>second\<close> with the same right operand, compared with the left operand.\<close>

definition round_trip :: "llvm_api \<Rightarrow> ty \<Rightarrow> binop \<Rightarrow> binop \<Rightarrow> val \<Rightarrow> val \<Rightarrow> (builder, val) state" where
  "round_trip L t first second a b =
     do { v \<leftarrow> create L (OBin first) t [a, b] [];
          v' \<leftarrow> create L (OBin second) t [v, b] [];
          create L (OICmp EQ) (IntTy 1) [v', a] [] }"

text \<open>\<open>ops\<close> is the operand vector, \<open>t\<close> the type of its first element; \<open>operands[i]\<close> past the end is not
  reached for the kinds that arise.\<close>

definition buildFlagClaim :: "llvm_api \<Rightarrow> FlagKind \<Rightarrow> ty \<Rightarrow> val list \<Rightarrow> (builder, val option) state" where
  "buildFlagClaim L kind t ops =
     (case (kind, ops) of
        (AddNSW, [a, b]) \<Rightarrow> map_state Some (buildOvfClaim L SAdd_Overflow a b)
      | (AddNUW, [a, b]) \<Rightarrow> map_state Some (buildOvfClaim L UAdd_Overflow a b)
      | (SubNSW, [a, b]) \<Rightarrow> map_state Some (buildOvfClaim L SSub_Overflow a b)
      | (SubNUW, [a, b]) \<Rightarrow> map_state Some (buildOvfClaim L USub_Overflow a b)
      | (MulNSW, [a, b]) \<Rightarrow> map_state Some (buildOvfClaim L SMul_Overflow a b)
      | (MulNUW, [a, b]) \<Rightarrow> map_state Some (buildOvfClaim L UMul_Overflow a b)
      | (ShlNSW, [a, b]) \<Rightarrow> map_state Some (round_trip L t Shl AShr a b)
      | (ShlNUW, [a, b]) \<Rightarrow> map_state Some (round_trip L t Shl LShr a b)
      | (ZExtNNeg, a # _) \<Rightarrow>
          map_state Some (create L (OICmp SGE) (IntTy 1) [a, ConstInt (mk (int_width t) 0)] [])
      | (OrDisjoint, [a, b]) \<Rightarrow>
          map_state Some
            (do { anded \<leftarrow> create L (OBin And) t [a, b] [];
                  create L (OICmp EQ) (IntTy 1) [anded, ConstInt (mk (int_width t) 0)] [] })
      | (LShrExact, [a, b]) \<Rightarrow> map_state Some (round_trip L t LShr Shl a b)
      | (AShrExact, [a, b]) \<Rightarrow> map_state Some (round_trip L t AShr Shl a b)
      | (UDivExact, [a, b]) \<Rightarrow> map_state Some (round_trip L t UDiv Mul a b)
      | (SDivExact, [a, b]) \<Rightarrow> map_state Some (round_trip L t SDiv Mul a b)
      | _ \<Rightarrow> State_Monad.return None)"

section \<open>Runs of emitted code\<close>

inductive_simps run_Nil_iff: "run \<rho> [] \<rho>'"
inductive_simps run_Cons_iff: "run \<rho> (I # Is) \<rho>'"

lemma run_append: "run \<rho> (xs @ ys) \<rho>'' \<longleftrightarrow> (\<exists>\<rho>'. run \<rho> xs \<rho>' \<and> run \<rho>' ys \<rho>'')"
proof (induction xs arbitrary: \<rho>)
  case Nil
  show ?case by (simp add: run_Nil_iff)
next
  case (Cons I xs)
  show ?case unfolding append_Cons run_Cons_iff Cons.IH by blast
qed

text \<open>Values that exist before the next instruction is inserted, and environments that agree on them.\<close>

definition old :: "nat \<Rightarrow> val \<Rightarrow> bool" where
  "old n V = (case V of InstV k \<Rightarrow> k < n | _ \<Rightarrow> True)"

definition frame :: "nat \<Rightarrow> env \<Rightarrow> env \<Rightarrow> bool" where
  "frame n \<rho> \<rho>' \<longleftrightarrow> (\<forall>V. old n V \<longrightarrow> \<rho>' V = \<rho> V)"

lemma old_mono: "old n V \<Longrightarrow> n \<le> k \<Longrightarrow> old k V"
  by (auto simp: old_def split: val.splits)

lemma old_const [simp]: "isConstant V \<Longrightarrow> old n V" "old n (ConstInt c)" "old n (InstV k) \<longleftrightarrow> k < n" "old n (ArgV i)"
  by (auto simp: old_def isConstant_def split: val.splits)

lemma frameD: "frame n \<rho> \<rho>' \<Longrightarrow> old n V \<Longrightarrow> \<rho>' V = \<rho> V"
  by (simp add: frame_def)

lemma frame_refl [simp]: "frame n \<rho> \<rho>" "frame n \<rho> (\<rho>(InstV n := v))"
  by (auto simp: frame_def old_def)

lemma frame_trans: "frame n \<rho> \<rho>' \<Longrightarrow> frame k \<rho>' \<rho>'' \<Longrightarrow> n \<le> k \<Longrightarrow> frame n \<rho> \<rho>''"
  by (auto simp: frame_def dest: old_mono)

lemma frame_const_env: "frame n \<rho> \<rho>' \<Longrightarrow> const_env \<rho> \<Longrightarrow> const_env \<rho>'"
  by (auto simp: frame_def const_env_def)

text \<open>A computation only adds instructions, with numbers of their own.\<close>

definition extends :: "builder \<Rightarrow> builder \<Rightarrow> inst list \<Rightarrow> bool" where
  "extends b b' new \<longleftrightarrow> b_insts b' = b_insts b @ new \<and> b_next b \<le> b_next b' \<and>
     (\<forall>I \<in> set new. b_next b \<le> i_id I \<and> i_id I < b_next b')"

definition grows :: "(builder, 'a) state \<Rightarrow> bool" where
  "grows m \<longleftrightarrow> (\<forall>b. \<exists>new. extends b (snd (run_state m b)) new)"

lemma extends_refl [simp]: "extends b b []"
  by (simp add: extends_def)

lemma extends_trans: "extends b b' xs \<Longrightarrow> extends b' b'' ys \<Longrightarrow> extends b b'' (xs @ ys)"
  by (fastforce simp: extends_def)

lemma growsD: "grows m \<Longrightarrow> run_state m b = (V, b') \<Longrightarrow> \<exists>new. extends b b' new"
  unfolding grows_def by (metis snd_conv)

named_theorems grows

lemma grows_return [grows]: "grows (State_Monad.return V)"
  by (auto simp: grows_def intro: extends_refl)

lemma grows_bind [grows]: "grows m \<Longrightarrow> (\<And>V. grows (f V)) \<Longrightarrow> grows (State_Monad.bind m f)"
  unfolding grows_def run_state_bind case_prod_beta using extends_trans by blast

lemma run_map_state: "run_state (map_state f m) b = (case run_state m b of (V, b') \<Rightarrow> (f V, b'))"
  by (cases m) (simp add: map_prod_def split_beta)

lemma grows_map [grows]: "grows m \<Longrightarrow> grows (map_state f m)"
  by (simp add: grows_def run_map_state split_beta)

lemma grows_create [grows]: "grows (create L oc t ops nm)"
  by (auto simp: grows_def create_def insert_inst_def extends_def mk_inst_def Let_def split: option.splits)

lemma grows_option [grows]: "grows m \<Longrightarrow> (\<And>x. grows (f x)) \<Longrightarrow> grows (case z of None \<Rightarrow> m | Some x \<Rightarrow> f x)"
  by (simp split: option.splits)

lemma grows_prod [grows]: "(\<And>x y. grows (g x y)) \<Longrightarrow> grows (case p of (x, y) \<Rightarrow> g x y)"
  by (simp split: prod.splits)

lemma grows_if [grows]: "grows m \<Longrightarrow> grows m' \<Longrightarrow> grows (if c then m else m')"
  by simp

lemma grows_andIn [grows]: "grows (andIn L nm r p)"
  unfolding andIn_def by (intro grows)

lemma grows_claims [grows]: "grows (claim_u L nm v lo hi)" "grows (claim_s L nm v lo hi)"
  "grows (claim_pf L nm t v)" "grows (claim_bits L nm t v k)"
  unfolding claim_u_def claim_s_def claim_pf_def claim_bits_def by (intro grows)+

lemma grows_buildFactPredicate [grows]: "grows (buildFactPredicate L K t v kf)"
  unfolding buildFactPredicate_def Let_def by (intro grows)

lemma grows_flag_parts [grows]: "grows (buildOvfClaim L i a b)" "grows (round_trip L t x y a b)"
  unfolding buildOvfClaim_def round_trip_def by (intro grows)+

lemma grows_buildFlagClaim [grows]: "grows (buildFlagClaim L k t ops)"
  unfolding buildFlagClaim_def by (auto split: FlagKind.splits list.splits intro!: grows)

text \<open>
  Code that cannot go wrong from \<open>\<rho>\<close>: whatever values its instructions choose, the next one is defined and has a
  result of its type.
\<close>

definition steps_to :: "env \<Rightarrow> inst \<Rightarrow> state_value \<Rightarrow> bool" where
  "steps_to \<rho> I v \<longleftrightarrow> inst_result \<rho> I v \<and> (\<forall>w. i_ty I = IntTy w \<longrightarrow> 0 < w \<longrightarrow> wf_sv w v)"

fun safe :: "env \<Rightarrow> inst list \<Rightarrow> bool" where
  "safe \<rho> [] \<longleftrightarrow> True"
| "safe \<rho> (I # Is) \<longleftrightarrow> inst_defined \<rho> I \<and> (\<exists>v. steps_to \<rho> I v) \<and> (\<forall>v. steps_to \<rho> I v \<longrightarrow> safe (\<rho>(InstV (i_id I) := v)) Is)"

lemma run_step_iff: "run \<rho> (I # Is) \<rho>' \<longleftrightarrow> inst_defined \<rho> I \<and> (\<exists>v. steps_to \<rho> I v \<and> run (\<rho>(InstV (i_id I) := v)) Is \<rho>')"
  by (auto simp: run_Cons_iff steps_to_def)

lemma safe_run: "safe \<rho> Is \<Longrightarrow> \<exists>\<rho>'. run \<rho> Is \<rho>'"
proof (induction Is arbitrary: \<rho>)
  case (Cons I Is)
  then show ?case unfolding run_step_iff safe.simps by blast
qed (auto intro: run_Nil)

lemma safe_append: "safe \<rho> (xs @ ys) \<longleftrightarrow> safe \<rho> xs \<and> (\<forall>\<rho>'. run \<rho> xs \<rho>' \<longrightarrow> safe \<rho>' ys)"
proof (induction xs arbitrary: \<rho>)
  case (Cons I xs)
  show ?case unfolding append_Cons safe.simps run_step_iff Cons by blast
qed (auto simp: run_Nil_iff)

text \<open>
  \<open>emits D m b \<rho> Q\<close>: the code \<open>m\<close> adds to \<open>b\<close> cannot go wrong from \<open>\<rho>\<close> if \<open>D\<close>, and every run from \<open>\<rho>\<close>
  ends in an environment \<open>\<rho>'\<close> that agrees with \<open>\<rho>\<close> on the old values and satisfies \<open>Q V b' \<rho>'\<close> for
  the result \<open>V\<close>.
\<close>

definition emits :: "bool \<Rightarrow> (builder, 'a) state \<Rightarrow> builder \<Rightarrow> env \<Rightarrow> ('a \<Rightarrow> builder \<Rightarrow> env \<Rightarrow> bool) \<Rightarrow> bool" where
  "emits D m b \<rho> Q \<longleftrightarrow>
     (\<exists>V b' new. run_state m b = (V, b') \<and> extends b b' new \<and> (D \<longrightarrow> safe \<rho> new) \<and>
        (\<forall>\<rho>'. run \<rho> new \<rho>' \<longrightarrow> frame (b_next b) \<rho> \<rho>' \<and> Q V b' \<rho>'))"

lemma extends_unique: "extends b b' xs \<Longrightarrow> extends b b' ys \<Longrightarrow> xs = ys"
  by (simp add: extends_def)

lemma emits_return: "Q V b \<rho> \<Longrightarrow> emits D (State_Monad.return V) b \<rho> Q"
  unfolding emits_def by (intro exI conjI) (auto intro: run_Nil elim: run_NilE)

lemma emits_bind:
  assumes "emits D m b \<rho> (\<lambda>V b' \<rho>'. emits D (f V) b' \<rho>' Q)" "\<And>V. grows (f V)"
  shows "emits D (State_Monad.bind m f) b \<rho> Q"
proof -
  obtain V b' new where m: "run_state m b = (V, b')" "extends b b' new" "D \<longrightarrow> safe \<rho> new"
    "\<And>\<rho>'. run \<rho> new \<rho>' \<Longrightarrow> frame (b_next b) \<rho> \<rho>' \<and> emits D (f V) b' \<rho>' Q"
    using assms(1) unfolding emits_def by blast
  obtain W b'' where f: "run_state (f V) b' = (W, b'')" by (cases "run_state (f V) b'")
  then obtain new' where n: "extends b' b'' new'" using growsD [OF assms(2)] by blast
  have r: "(D \<longrightarrow> safe \<rho>' new') \<and> (\<forall>\<rho>''. run \<rho>' new' \<rho>'' \<longrightarrow> frame (b_next b') \<rho>' \<rho>'' \<and> Q W b'' \<rho>'')"
    if "run \<rho> new \<rho>'" for \<rho>'
    using m(4) [OF that] f n extends_unique unfolding emits_def by (metis Pair_inject)
  have "D \<longrightarrow> safe \<rho> (new @ new')" using m(3) r by (simp add: safe_append)
  moreover have "\<forall>\<rho>''. run \<rho> (new @ new') \<rho>'' \<longrightarrow> frame (b_next b) \<rho> \<rho>'' \<and> Q W b'' \<rho>''"
    unfolding run_append using r m(2,4) frame_trans [of "b_next b" \<rho> _ "b_next b'"] extends_def by meson
  ultimately show ?thesis unfolding emits_def using m(1) f extends_trans [OF m(2) n] by auto
qed

lemma emits_map: "emits D m b \<rho> (\<lambda>V. Q (f V)) \<Longrightarrow> emits D (map_state f m) b \<rho> Q"
  unfolding emits_def run_map_state case_prod_beta by (metis fst_conv snd_conv)

lemma emits_mono: "emits D m b \<rho> Q \<Longrightarrow> (\<And>V b' \<rho>'. b_next b \<le> b_next b' \<Longrightarrow> frame (b_next b) \<rho> \<rho>' \<Longrightarrow> Q V b' \<rho>' \<Longrightarrow> Q' V b' \<rho>') \<Longrightarrow>
    emits D m b \<rho> Q'"
  unfolding emits_def extends_def by blast

section \<open>What a builder call computes\<close>

definition same_value :: "state_value \<Rightarrow> state_value \<Rightarrow> bool" where
  "same_value v x \<longleftrightarrow> non_poison v = non_poison x \<and> (non_poison v \<longrightarrow> sv_value v = sv_value x)"

text \<open>What is relied on of LLVM's constant folding: a folded constant is the value of the
  instruction, and poison where the instruction is undefined.\<close>

definition fold_ok :: "llvm_api \<Rightarrow> bool" where
  "fold_ok L \<longleftrightarrow>
     (\<forall>oc t ops V n nm \<rho>. const_fold L oc t ops = Some V \<longrightarrow> const_env \<rho> \<longrightarrow>
        isConstant V \<and> (\<forall>w. t = IntTy w \<longrightarrow> 0 < w \<longrightarrow> wf_sv w (\<rho> V)) \<and>
        (if inst_defined \<rho> (mk_inst n nm oc t ops)
         then \<forall>v. inst_result \<rho> (mk_inst n nm oc t ops) v \<longrightarrow> same_value v (\<rho> V)
         else \<not> non_poison (\<rho> V)))"

lemma same_value_refl [simp]: "same_value v v"
  by (simp add: same_value_def)

lemma same_value_sym: "same_value v x \<Longrightarrow> same_value x v"
  by (auto simp: same_value_def)

lemma mk_inst_sel [simp]: "i_id (mk_inst n nm oc t ops) = n" "i_op (mk_inst n nm oc t ops) = oc"
  "i_ty (mk_inst n nm oc t ops) = t" "i_ops (mk_inst n nm oc t ops) = ops"
  "binop_flags_of (mk_inst n nm oc t ops) = no_flags" "conv_flags_of (mk_inst n nm oc t ops) = \<lparr>c_nneg = False, c_nuw = False, c_nsw = False\<rparr>"
  by (simp_all add: mk_inst_def binop_flags_of_def conv_flags_of_def no_flags_def)

lemma inst_sem_mk:
  "inst_defined \<rho> (mk_inst n nm oc t ops) = inst_defined \<rho> (mk_inst 0 [] oc t ops)"
  "inst_result \<rho> (mk_inst n nm oc t ops) = inst_result \<rho> (mk_inst 0 [] oc t ops)"
  unfolding inst_defined_def inst_result.simps fun_eq_iff mk_inst_sel by (rule refl allI)+

lemma emits_create:
  fixes t oc ops defines "I \<equiv> mk_inst 0 [] oc t ops"
  assumes f: "fold_ok L" "const_env \<rho>"
    and e: "D \<Longrightarrow> inst_defined \<rho> I \<and> (\<exists>v. inst_result \<rho> I v \<and> (\<forall>w. t = IntTy w \<longrightarrow> 0 < w \<longrightarrow> wf_sv w v))"
    and inserted: "\<And>v b'. inst_defined \<rho> I \<Longrightarrow> inst_result \<rho> I v \<Longrightarrow> (\<forall>w. t = IntTy w \<longrightarrow> 0 < w \<longrightarrow> wf_sv w v) \<Longrightarrow>
      b_next b' = Suc (b_next b) \<Longrightarrow> Q (InstV (b_next b)) b' (\<rho>(InstV (b_next b) := v))"
    and folded: "\<And>V. isConstant V \<Longrightarrow> (\<forall>w. t = IntTy w \<longrightarrow> 0 < w \<longrightarrow> wf_sv w (\<rho> V)) \<Longrightarrow>
      (if inst_defined \<rho> I then \<forall>v. inst_result \<rho> I v \<longrightarrow> same_value v (\<rho> V) else \<not> non_poison (\<rho> V)) \<Longrightarrow> Q V b \<rho>"
  shows "emits D (create L oc t ops nm) b \<rho> Q"
proof (cases "const_fold L oc t ops")
  case (Some V)
  have "Q V b \<rho>" using f Some unfolding fold_ok_def I_def by (intro folded) (simp_all add: I_def)
  then show ?thesis unfolding emits_def using Some
    by (intro exI [of _ V] exI [of _ b] exI [of _ "[]"]) (auto simp: create_def run_Nil_iff)
next
  case None
  let ?nm = "pick_name L (b_names b) nm"
  let ?b = "b\<lparr>b_next := Suc (b_next b), b_insts := b_insts b @ [mk_inst (b_next b) ?nm oc t ops],
         b_names := (if ?nm = [] then b_names b else ?nm # b_names b)\<rparr>"
  have r: "run_state (create L oc t ops nm) b = (InstV (b_next b), ?b)"
    using None by (simp add: create_def insert_inst_def Let_def)
  have x: "extends b ?b [mk_inst (b_next b) ?nm oc t ops]" by (simp add: extends_def mk_inst_def)
  note sem = run_Cons_iff run_Nil_iff inst_sem_mk [of _ "b_next b" ?nm]
  have "D \<longrightarrow> safe \<rho> [mk_inst (b_next b) ?nm oc t ops]"
    using e by (auto simp: sem I_def steps_to_def [abs_def])
  moreover have "frame (b_next b) \<rho> \<rho>' \<and> Q (InstV (b_next b)) ?b \<rho>'"
    if "run \<rho> [mk_inst (b_next b) ?nm oc t ops] \<rho>'" for \<rho>'
    using that inserted [of _ ?b] by (auto simp: sem I_def)
  ultimately show ?thesis unfolding emits_def using r x by blast
qed

text \<open>A value of width \<open>w\<close> that exists and is \<open>x\<close>, up to the bits of a poison value.\<close>

definition val_in :: "nat \<Rightarrow> env \<Rightarrow> nat \<Rightarrow> val \<Rightarrow> state_value \<Rightarrow> bool" where
  "val_in n \<rho> w V x \<longleftrightarrow> old n V \<and> wf_sv w (\<rho> V) \<and> same_value (\<rho> V) x"

definition bin_val :: "nat \<Rightarrow> binop \<Rightarrow> state_value \<Rightarrow> state_value \<Rightarrow> state_value" where
  "bin_val w op x y =
     (if binop_defined op x y then binop_scalar no_facts no_facts w op no_flags x y else sv (mk w 0) False)"

lemma val_in_frame: "val_in n \<rho> w V x \<Longrightarrow> frame n \<rho> \<rho>' \<Longrightarrow> n \<le> k \<Longrightarrow> val_in k \<rho>' w V x"
  by (auto simp: val_in_def frameD dest: old_mono)

lemma val_in_ConstInt: "const_env \<rho> \<Longrightarrow> wf_bv c \<Longrightarrow> bits c = w \<Longrightarrow> val_in n \<rho> w (ConstInt c) (sv c True)"
  by (simp add: val_in_def const_env_def isConstant_def start_env_def wf_sv_def sv_def)

lemma same_value_np: "same_value v x \<Longrightarrow> non_poison v = non_poison x"
  by (simp add: same_value_def)

lemma same_value_cases:
  assumes "same_value v x"
  obtains "v = x" "non_poison x" | "\<not> non_poison v" "\<not> non_poison x"
  using assms by (cases "non_poison v") (auto simp: same_value_def)

lemma same_defined: "same_value v x \<Longrightarrow> same_value u y \<Longrightarrow> binop_defined op v u = binop_defined op x y"
  by (auto simp: same_value_def binop_defined_def div_ub_def)

lemma same_binop:
  "same_value v x \<Longrightarrow> same_value u y \<Longrightarrow>
     same_value (binop_scalar fa fb w op fl v u) (binop_scalar fa fb w op fl x y)"
  by (erule same_value_cases; erule same_value_cases)
    (auto simp: same_value_def dest: binop_scalar_poison)

text \<open>A deterministic instruction of an integer type.\<close>

lemma emits_value:
  fixes b :: builder
  assumes f: "fold_ok L" "const_env \<rho>" and w: "0 < w" "wf_sv w u" and d: "D \<Longrightarrow> inst_defined \<rho> (mk_inst 0 [] oc (IntTy w) ops)"
    and res: "\<And>v. inst_result \<rho> (mk_inst 0 [] oc (IntTy w) ops) v \<longleftrightarrow> v = u"
    and x: "inst_defined \<rho> (mk_inst 0 [] oc (IntTy w) ops) \<Longrightarrow> same_value u x" "\<not> inst_defined \<rho> (mk_inst 0 [] oc (IntTy w) ops) \<Longrightarrow> \<not> non_poison x"
    and K: "\<And>V b' \<rho>'. b_next b \<le> b_next b' \<Longrightarrow> frame (b_next b) \<rho> \<rho>' \<Longrightarrow> const_env \<rho>' \<Longrightarrow>
      val_in (b_next b') \<rho>' w V x \<Longrightarrow> Q V b' \<rho>'"
  shows "emits D (create L oc (IntTy w) ops nm) b \<rho> Q"
proof (rule emits_create [OF f])
  let ?I = "mk_inst 0 [] oc (IntTy w) ops"
  show "inst_defined \<rho> ?I \<and> (\<exists>v. inst_result \<rho> ?I v \<and> (\<forall>k. IntTy w = IntTy k \<longrightarrow> 0 < k \<longrightarrow> wf_sv k v))" if D
    using d [OF that] w by (simp add: res)
next
  let ?I = "mk_inst 0 [] oc (IntTy w) ops"
  fix v and b' :: builder
  assume i: "inst_defined \<rho> ?I" "inst_result \<rho> ?I v" "b_next b' = Suc (b_next b)"
  have "val_in (b_next b') (\<rho>(InstV (b_next b) := v)) w (InstV (b_next b)) x"
    using i x w by (simp add: val_in_def res)
  then show "Q (InstV (b_next b)) b' (\<rho>(InstV (b_next b) := v))"
    using i(3) f(2) by (intro K) (simp_all add: frame_const_env [of "b_next b" \<rho>])
next
  let ?I = "mk_inst 0 [] oc (IntTy w) ops"
  fix V
  assume V: "isConstant V" "\<forall>k. IntTy w = IntTy k \<longrightarrow> 0 < k \<longrightarrow> wf_sv k (\<rho> V)"
    "if inst_defined \<rho> ?I then \<forall>v. inst_result \<rho> ?I v \<longrightarrow> same_value v (\<rho> V) else \<not> non_poison (\<rho> V)"
  then have "val_in (b_next b) \<rho> w V x" using x w by (auto simp: val_in_def res same_value_def split: if_splits)
  then show "Q V b \<rho>" using f(2) by (intro K) simp_all
qed

lemma emits_bin:
  fixes b :: builder
  assumes f: "fold_ok L" "const_env \<rho>" and w: "0 < w" "llvm_binop op"
    and a: "val_in (b_next b) \<rho> w a x" and c: "val_in (b_next b) \<rho> w c y" and d: "D \<Longrightarrow> binop_defined op x y"
    and K: "\<And>V b' \<rho>'. b_next b \<le> b_next b' \<Longrightarrow> frame (b_next b) \<rho> \<rho>' \<Longrightarrow> const_env \<rho>' \<Longrightarrow>
      val_in (b_next b') \<rho>' w V (bin_val w op x y) \<Longrightarrow> Q V b' \<rho>'"
  shows "emits D (create L (OBin op) (IntTy w) [a, c] nm) b \<rho> Q"
proof (rule emits_value [OF f w(1)])
  let ?I = "mk_inst 0 [] (OBin op) (IntTy w) [a, c]"
  have def_iff: "inst_defined \<rho> ?I \<longleftrightarrow> binop_defined op x y"
    using a c same_defined by (simp add: inst_defined_def val_in_def)
  show "wf_sv w (binop_scalar no_facts no_facts w op no_flags (\<rho> a) (\<rho> c))"
    using a w(2) binop_scalar_wf by (simp add: val_in_def)
  show "same_value (binop_scalar no_facts no_facts w op no_flags (\<rho> a) (\<rho> c)) (bin_val w op x y)"
    if "inst_defined \<rho> ?I" using a c that same_binop by (simp add: val_in_def bin_val_def def_iff)
  show "\<not> non_poison (bin_val w op x y)" if "\<not> inst_defined \<rho> ?I"
    using that by (simp add: def_iff bin_val_def sv_def)
  show "inst_defined \<rho> ?I" if D using d that by (simp add: def_iff)
qed (auto simp: inst_result.simps int_width_def intro: K)

lemma same_icmp: "same_value v x \<Longrightarrow> same_value u y \<Longrightarrow> same_value (icmp_scalar c s v u) (icmp_scalar c s x y)"
  by (auto simp: same_value_def icmp_scalar_def sv_def)

lemma emits_icmp:
  fixes b :: builder
  assumes f: "fold_ok L" "const_env \<rho>"
    and a: "val_in (b_next b) \<rho> w a x" and c: "val_in (b_next b) \<rho> w c y"
    and K: "\<And>V b' \<rho>'. b_next b \<le> b_next b' \<Longrightarrow> frame (b_next b) \<rho> \<rho>' \<Longrightarrow> const_env \<rho>' \<Longrightarrow>
      val_in (b_next b') \<rho>' 1 V (icmp_scalar cnd False x y) \<Longrightarrow> Q V b' \<rho>'"
  shows "emits D (create L (OICmp cnd) (IntTy 1) [a, c] nm) b \<rho> Q"
proof (rule emits_value [OF f])
  show "wf_sv 1 (icmp_scalar cnd False (\<rho> a) (\<rho> c))" by (rule icmp_scalar_wf)
  show "same_value (icmp_scalar cnd False (\<rho> a) (\<rho> c)) (icmp_scalar cnd False x y)"
    using a c same_icmp by (simp add: val_in_def)
qed (auto simp: inst_result.simps inst_defined_def intro: K)

lemma emits_extract:
  fixes b :: builder
  assumes f: "fold_ok L" "const_env \<rho>" and a: "same_value (\<rho> a) (sv_concat x y)" and y: "wf_sv 1 y"
    and K: "\<And>V b' \<rho>'. b_next b \<le> b_next b' \<Longrightarrow> frame (b_next b) \<rho> \<rho>' \<Longrightarrow> const_env \<rho>' \<Longrightarrow>
      val_in (b_next b') \<rho>' 1 V (sv (sv_value y) (non_poison x \<and> non_poison y)) \<Longrightarrow> Q V b' \<rho>'"
  shows "emits D (create L (OExtractValue 1) (IntTy 1) [a] nm) b \<rho> Q"
proof (rule emits_value [OF f])
  have low: "bvextract (bvconcat u v) 0 0 = v" if "bits v = 1" "wf_bv v" for u v
    using that by (auto simp: bvextract_def bvconcat_def bv_eq_iff wf_bv_def take_bit_Suc)
  show "wf_sv 1 (sv (bvextract (sv_value (\<rho> a)) 0 0) (non_poison (\<rho> a)))" by (simp add: wf_sv_def sv_def bvextract_def)
  show "same_value (sv (bvextract (sv_value (\<rho> a)) 0 0) (non_poison (\<rho> a))) (sv (sv_value y) (non_poison x \<and> non_poison y))"
    using a y low by (auto simp: same_value_def sv_concat_def sv_def wf_sv_def)
qed (auto simp: inst_result.simps inst_defined_def intro: K)

section \<open>Claims\<close>

text \<open>A value of type \<open>i1\<close> that is true, and not poison, exactly when \<open>P\<close> holds.\<close>

definition true_val :: "state_value \<Rightarrow> bool" where
  "true_val v \<longleftrightarrow> non_poison v \<and> sv_value v = mk 1 1"

definition is_claim :: "nat \<Rightarrow> env \<Rightarrow> val \<Rightarrow> bool \<Rightarrow> bool" where
  "is_claim n \<rho> V P \<longleftrightarrow> old n V \<and> wf_sv 1 (\<rho> V) \<and> (true_val (\<rho> V) \<longleftrightarrow> P)"

definition later :: "builder \<Rightarrow> env \<Rightarrow> builder \<Rightarrow> env \<Rightarrow> bool" where
  "later b \<rho> b' \<rho>' \<longleftrightarrow> b_next b \<le> b_next b' \<and> frame (b_next b) \<rho> \<rho>' \<and> const_env \<rho>'"

lemma laterD: "later b \<rho> b' \<rho>' \<Longrightarrow> const_env \<rho>'"
  "later b \<rho> b' \<rho>' \<Longrightarrow> val_in (b_next b) \<rho> w V x \<Longrightarrow> val_in (b_next b') \<rho>' w V x"
  "later b \<rho> b' \<rho>' \<Longrightarrow> is_claim (b_next b) \<rho> V P \<Longrightarrow> is_claim (b_next b') \<rho>' V P"
  by (auto simp: later_def is_claim_def frameD dest: val_in_frame old_mono)

lemma later_refl: "const_env \<rho> \<Longrightarrow> later b \<rho> b \<rho>"
  by (simp add: later_def)

lemma later_trans: "later b \<rho> b' \<rho>' \<Longrightarrow> later b' \<rho>' b'' \<rho>'' \<Longrightarrow> later b \<rho> b'' \<rho>''"
  by (auto simp: later_def intro: frame_trans)

lemma is_claimI: "val_in n \<rho> 1 V x \<Longrightarrow> (true_val x \<longleftrightarrow> P) \<Longrightarrow> is_claim n \<rho> V P"
  by (auto simp: is_claim_def val_in_def true_val_def same_value_def)

lemma true_icmp: "true_val (icmp_scalar c False x y) \<longleftrightarrow> non_poison x \<and> non_poison y \<and> icmp_fn c (sv_value x) (sv_value y)"
  by (auto simp: true_val_def icmp_scalar_def sv_def toBVBool_def)

lemma emits_icmp_claim:
  assumes "fold_ok L" "const_env \<rho>" "val_in (b_next b) \<rho> w a x" "val_in (b_next b) \<rho> w c y"
    and "\<And>V b' \<rho>'. later b \<rho> b' \<rho>' \<Longrightarrow>
      is_claim (b_next b') \<rho>' V (non_poison x \<and> non_poison y \<and> icmp_fn cnd (sv_value x) (sv_value y)) \<Longrightarrow> Q V b' \<rho>'"
  shows "emits D (create L (OICmp cnd) (IntTy 1) [a, c] nm) b \<rho> Q"
  by (rule emits_icmp [OF assms(1-4)]) (auto simp: later_def true_icmp intro!: assms(5) is_claimI)

lemma wf_sv1_cases: "wf_sv 1 v \<Longrightarrow> sv_value v = mk 1 0 \<or> sv_value v = mk 1 1"
  by (auto simp: wf_sv_def wf_bv_def bv_eq_iff)

lemma true_and: "wf_sv 1 x \<Longrightarrow> wf_sv 1 y \<Longrightarrow> true_val (bin_val 1 And x y) \<longleftrightarrow> true_val x \<and> true_val y"
  by (drule wf_sv1_cases, drule wf_sv1_cases)
    (auto simp: true_val_def bin_val_def binop_defined_def binop_scalar_def sv_def bvand_def bv_eq_iff)

lemma emits_and:
  assumes "fold_ok L" "const_env \<rho>" "is_claim (b_next b) \<rho> a P" "is_claim (b_next b) \<rho> c P'"
    and "\<And>V b' \<rho>'. later b \<rho> b' \<rho>' \<Longrightarrow> is_claim (b_next b') \<rho>' V (P \<and> P') \<Longrightarrow> Q V b' \<rho>'"
  shows "emits D (create L (OBin And) (IntTy 1) [a, c] nm) b \<rho> Q"
proof (rule emits_bin [OF assms(1,2)])
  show "val_in (b_next b) \<rho> 1 a (\<rho> a)" "val_in (b_next b) \<rho> 1 c (\<rho> c)"
    using assms(3,4) by (simp_all add: is_claim_def val_in_def)
  show "Q V b' \<rho>'" if "b_next b \<le> b_next b'" "frame (b_next b) \<rho> \<rho>'" "const_env \<rho>'"
    "val_in (b_next b') \<rho>' 1 V (bin_val 1 And (\<rho> a) (\<rho> c))" for V b' \<rho>'
  proof -
    have t: "true_val (bin_val 1 And (\<rho> a) (\<rho> c)) \<longleftrightarrow> P \<and> P'"
      using assms(3,4) true_and [of "\<rho> a" "\<rho> c"] by (simp add: is_claim_def)
    show ?thesis by (rule assms(5) [OF _ is_claimI [OF that(4) t]]) (simp add: later_def that)
  qed
qed (auto simp: llvm_binop_def binop_defined_def)

lemma emits_freeze:
  fixes b :: builder
  assumes f: "fold_ok L" "const_env \<rho>" and w: "0 < w" and a: "val_in (b_next b) \<rho> w a x"
    and K: "\<And>V b' \<rho>' y. later b \<rho> b' \<rho>' \<Longrightarrow> val_in (b_next b') \<rho>' w V y \<Longrightarrow> non_poison y \<Longrightarrow>
      (non_poison x \<longrightarrow> sv_value y = sv_value x) \<Longrightarrow> Q V b' \<rho>'"
  shows "emits D (create L OFreeze (IntTy w) [a] nm) b \<rho> Q"
proof -
  let ?I = "mk_inst 0 [] OFreeze (IntTy w) [a]"
  have d: "inst_defined \<rho> ?I" by (simp add: inst_defined_def)
  have res: "inst_result \<rho> ?I v \<longleftrightarrow> freeze_step (\<rho> a) v" for v by (simp add: inst_result.simps)
  have wf: "wf_sv w (\<rho> a)" "same_value (\<rho> a) x" using a by (simp_all add: val_in_def)
  have step: "freeze_step (\<rho> a) (sv (sv_value (\<rho> a)) True)"
    using wf by (simp add: freeze_step_def sv_def wf_sv_def)
  have np: "non_poison v \<and> wf_sv w v \<and> (non_poison x \<longrightarrow> sv_value v = sv_value x)" if "freeze_step (\<rho> a) v" for v
    using that wf by (auto simp: freeze_step_def wf_sv_def same_value_def)
  show ?thesis
  proof (rule emits_create [OF f])
    show "inst_defined \<rho> ?I \<and> (\<exists>v. inst_result \<rho> ?I v \<and> (\<forall>k. IntTy w = IntTy k \<longrightarrow> 0 < k \<longrightarrow> wf_sv k v))"
      using d step np by (auto simp: res)
  next
    fix v and b' :: builder
    assume i: "inst_result \<rho> ?I v" "b_next b' = Suc (b_next b)"
    show "Q (InstV (b_next b)) b' (\<rho>(InstV (b_next b) := v))"
      using i np f(2) by (intro K [of _ _ _ v]) (auto simp: res later_def val_in_def frame_const_env [of "b_next b" \<rho>])
  next
    fix V
    assume V: "isConstant V" "\<forall>k. IntTy w = IntTy k \<longrightarrow> 0 < k \<longrightarrow> wf_sv k (\<rho> V)"
      "if inst_defined \<rho> ?I then \<forall>v. inst_result \<rho> ?I v \<longrightarrow> same_value v (\<rho> V) else \<not> non_poison (\<rho> V)"
    then have "same_value (sv (sv_value (\<rho> a)) True) (\<rho> V)" using d step by (simp add: res)
    then show "Q V b \<rho>"
      using V(1,2) w f(2) np [OF step] by (intro K [of _ _ _ "\<rho> V"]) (auto simp: later_refl val_in_def same_value_def sv_def)
  qed
qed

section \<open>Facts\<close>

text \<open>Two comparisons with constants, joined.\<close>

lemma emits_between:
  assumes f: "fold_ok L" "const_env \<rho>" and V: "val_in (b_next b) \<rho> w V x"
    and wf: "wf_bv lo" "bits lo = w" "wf_bv hi" "bits hi = w"
    and K: "\<And>P b' \<rho>'. later b \<rho> b' \<rho>' \<Longrightarrow>
      is_claim (b_next b') \<rho>' P (non_poison x \<and> icmp_fn c (sv_value x) hi \<and> icmp_fn c' (sv_value x) lo) \<Longrightarrow> Q P b' \<rho>'"
  shows "emits D (do { p \<leftarrow> create L (OICmp c) (IntTy 1) [V, ConstInt hi] n1;
                      lp \<leftarrow> create L (OICmp c') (IntTy 1) [V, ConstInt lo] n2;
                      create L (OBin And) (IntTy 1) [p, lp] n3 }) b \<rho> Q"
proof (rule emits_bind [OF emits_icmp_claim [OF f V val_in_ConstInt [OF f(2) wf(3,4)]]])
  fix p b1 \<rho>1
  assume l: "later b \<rho> b1 \<rho>1" and p: "is_claim (b_next b1) \<rho>1 p (non_poison x \<and> non_poison (sv hi True) \<and> icmp_fn c (sv_value x) (sv_value (sv hi True)))"
  show "emits D (do { lp \<leftarrow> create L (OICmp c') (IntTy 1) [V, ConstInt lo] n2;
                      create L (OBin And) (IntTy 1) [p, lp] n3 }) b1 \<rho>1 Q"
  proof (rule emits_bind [OF emits_icmp_claim [OF f(1) laterD(1) [OF l] laterD(2) [OF l V]
        val_in_ConstInt [OF laterD(1) [OF l] wf(1,2)]]])
    fix q b2 \<rho>2
    assume l2: "later b1 \<rho>1 b2 \<rho>2"
      and q: "is_claim (b_next b2) \<rho>2 q (non_poison x \<and> non_poison (sv lo True) \<and> icmp_fn c' (sv_value x) (sv_value (sv lo True)))"
    show "emits D (create L (OBin And) (IntTy 1) [p, q] n3) b2 \<rho>2 Q"
      by (rule emits_and [OF f(1) laterD(1) [OF l2] laterD(3) [OF l2 p] q], rule K)
        (auto simp: sv_select is_claim_def intro: later_trans [OF later_trans [OF l l2]])
  qed (intro grows)
qed (intro grows)

lemma emits_claim_u:
  assumes f: "fold_ok L" "const_env \<rho>" and V: "val_in (b_next b) \<rho> w V x" and wf: "wf_ivl w (Some (lo, hi))"
    and K: "\<And>P b' \<rho>'. later b \<rho> b' \<rho>' \<Longrightarrow> is_claim (b_next b') \<rho>' P (non_poison x \<and> in_u (Some (lo, hi)) (sv_value x)) \<Longrightarrow>
      Q P b' \<rho>'"
  shows "emits D (claim_u L nm V lo hi) b \<rho> Q"
proof -
  have wf: "wf_bv lo" "bits lo = w" "wf_bv hi" "bits hi = w" using wf by (simp_all add: wf_ivl_def)
  show ?thesis
  proof (cases "lo = mk (bits lo) 0")
    case True
    then have "uval lo = 0" by (simp add: bv_eq_iff)
    moreover have "0 \<le> uval (sv_value x)" if "non_poison x"
      using V that by (auto simp: val_in_def same_value_def wf_sv_def wf_bv_def)
    ultimately have "is_claim n \<rho>' P (non_poison x \<and> non_poison (sv hi True) \<and> icmp_fn ULE (sv_value x) (sv_value (sv hi True))) \<Longrightarrow>
        is_claim n \<rho>' P (non_poison x \<and> in_u (Some (lo, hi)) (sv_value x))" for n \<rho>' P
      by (auto simp: is_claim_def in_u_def sv_select icmp_fn_def bvule_def)
    then show ?thesis unfolding claim_u_def using True
      by (intro emits_bind [OF emits_icmp_claim [OF f V val_in_ConstInt [OF f(2) wf(3,4)]]] grows)
        (auto intro!: emits_return K)
  next
    case False
    then show ?thesis unfolding claim_u_def if_P [OF False]
      by (intro emits_between [OF f V wf] K) (simp_all add: in_u_def icmp_fn_def bvule_def conj_ac)
  qed
qed

lemma emits_claim_s:
  assumes f: "fold_ok L" "const_env \<rho>" and V: "val_in (b_next b) \<rho> w V x" and wf: "wf_ivl w (Some (lo, hi))"
    and K: "\<And>P b' \<rho>'. later b \<rho> b' \<rho>' \<Longrightarrow> is_claim (b_next b') \<rho>' P (non_poison x \<and> in_s (Some (lo, hi)) (sv_value x)) \<Longrightarrow>
      Q P b' \<rho>'"
  shows "emits D (claim_s L nm V lo hi) b \<rho> Q"
  unfolding claim_s_def using wf
  by (intro emits_between [OF f V] K) (simp_all add: wf_ivl_def in_s_def icmp_fn_def bvsle_def conj_ac)

lemma emits_claim_pf:
  assumes f: "fold_ok L" "const_env \<rho>" and V: "val_in (b_next b) \<rho> w V x" and w: "0 < w"
    and K: "\<And>P b' \<rho>'. later b \<rho> b' \<rho>' \<Longrightarrow> is_claim (b_next b') \<rho>' P (non_poison x) \<Longrightarrow> Q P b' \<rho>'"
  shows "emits D (claim_pf L nm (IntTy w) V) b \<rho> Q"
  unfolding claim_pf_def
proof (rule emits_bind [OF emits_freeze [OF f w V]])
  fix z b1 \<rho>1 y
  assume l: "later b \<rho> b1 \<rho>1" and z: "val_in (b_next b1) \<rho>1 w z y" "non_poison y" "non_poison x \<longrightarrow> sv_value y = sv_value x"
  show "emits D (create L (OICmp EQ) (IntTy 1) [V, z] (nm @ ''_pf'')) b1 \<rho>1 Q"
    by (rule emits_icmp_claim [OF f(1) laterD(1) [OF l] laterD(2) [OF l V] z(1)], rule K)
      (use z in \<open>auto simp: icmp_fn_def is_claim_def intro: later_trans [OF l]\<close>)
qed (intro grows)

lemma masked_bits:
  fixes v z d :: int
  assumes "z AND d = 0"
  shows "v AND (z OR d) = d \<longleftrightarrow> v AND z = 0 \<and> v AND d = d"
  using assms by (auto simp: bit_eq_iff bit_and_iff bit_or_iff)

text \<open>A fact about a value of width \<open>w\<close>, as the analysis produces it, and its meaning.\<close>

definition wf_fact :: "nat \<Rightarrow> known_fact \<Rightarrow> bool" where
  "wf_fact w kf \<longleftrightarrow> wf_ivl w (u_bound kf) \<and> wf_ivl w (s_bound kf) \<and>
     (case kf_bits kf of
        Some k \<Rightarrow> kb_sized w k \<and> wf_bv (Zero k) \<and> wf_bv (One k) \<and> uval (Zero k) AND uval (One k) = 0
      | None \<Rightarrow> True)"

definition fact_holds :: "kb_ops \<Rightarrow> known_fact \<Rightarrow> bv \<Rightarrow> bool" where
  "fact_holds K kf x \<longleftrightarrow> in_u (u_bound kf) x \<and> in_s (s_bound kf) x \<and>
     (informative_bits K (kf_bits kf) \<longrightarrow> in_b (kf_bits kf) x)"

lemma emits_claim_bits:
  fixes b :: builder
  assumes f: "fold_ok L" "const_env \<rho>" and V: "val_in (b_next b) \<rho> w V x" and w: "0 < w"
    and k: "kb_sized w k" "wf_bv (Zero k)" "wf_bv (One k)" "uval (Zero k) AND uval (One k) = 0"
    and K: "\<And>P b' \<rho>'. later b \<rho> b' \<rho>' \<Longrightarrow> is_claim (b_next b') \<rho>' P (non_poison x \<and> kb_has k (sv_value x)) \<Longrightarrow> Q P b' \<rho>'"
  shows "emits D (claim_bits L nm (IntTy w) V k) b \<rho> Q"
proof -
  let ?m = "bvor (Zero k) (One k)"
  have sz: "bits (Zero k) = w" "bits (One k) = w" using k(1) by (simp_all add: kb_sized_def)
  have m: "val_in n \<rho>' w (ConstInt ?m) (sv ?m True)" "val_in n \<rho>' w (ConstInt (One k)) (sv (One k) True)"
    if "const_env \<rho>'" for n \<rho>' using that w sz k(3) by (simp_all add: val_in_ConstInt bvor_def)
  have u: "uval ?m = uval (Zero k) OR uval (One k)" using k(2,3) sz by (simp add: uval_bvor)
  have eq: "bvand (sv_value x) ?m = One k \<longleftrightarrow> kb_has k (sv_value x)" if "non_poison x"
  proof -
    have "wf_bv (sv_value x)" "bits (sv_value x) = w"
      using V that by (auto simp: val_in_def same_value_def wf_sv_def)
    moreover have "wf_bv ?m" "bits ?m = w" using w sz by (simp_all add: bvor_def)
    moreover have "bits (bvand (sv_value x) ?m) = w" using calculation(2) by (simp add: bvand_def)
    ultimately show ?thesis unfolding bv_eq_iff kb_has_def using sz masked_bits [OF k(4)] uval_bvand [of "sv_value x" ?m] by (simp only: u simp_thms)
  qed
  show ?thesis unfolding claim_bits_def
  proof (rule emits_bind [OF emits_bin [OF f w _ V m(1) [OF f(2)]]])
    fix z \<rho>1 and b1 :: builder
    assume l0: "b_next b \<le> b_next b1" "frame (b_next b) \<rho> \<rho>1" "const_env \<rho>1"
      and z: "val_in (b_next b1) \<rho>1 w z (bin_val w And x (sv ?m True))"
    have l: "later b \<rho> b1 \<rho>1" using l0 by (simp add: later_def)
    show "emits D (create L (OICmp EQ) (IntTy 1) [z, ConstInt (One k)] (nm @ ''_b'')) b1 \<rho>1 Q"
      by (rule emits_icmp_claim [OF f(1) l0(3) z m(2) [OF l0(3)]], rule K)
        (use eq in \<open>auto simp: icmp_fn_def is_claim_def bin_val_def binop_defined_def binop_scalar_def sv_select
          intro: later_trans [OF l]\<close>)
  qed (auto simp: llvm_binop_def binop_defined_def intro: grows)
qed

lemma emits_andIn:
  assumes f: "fold_ok L" "const_env \<rho>" and p: "is_claim (b_next b) \<rho> p P'"
    and r: "case r of None \<Rightarrow> P | Some R \<Rightarrow> is_claim (b_next b) \<rho> R P"
    and K: "\<And>V b' \<rho>'. later b \<rho> b' \<rho>' \<Longrightarrow> is_claim (b_next b') \<rho>' V (P \<and> P') \<Longrightarrow> Q (Some V) b' \<rho>'"
  shows "emits D (andIn L nm r p) b \<rho> Q"
proof (cases r)
  case None
  then show ?thesis using r p f(2) by (auto simp: andIn_def is_claim_def later_refl intro!: emits_return K)
next
  case (Some R)
  have R: "is_claim (b_next b) \<rho> R P" using r Some by simp
  show ?thesis unfolding andIn_def Some option.case
    by (intro emits_bind [OF emits_and [OF f R p]] emits_return K grows)
qed

definition joined :: "nat \<Rightarrow> env \<Rightarrow> val option \<Rightarrow> bool \<Rightarrow> bool" where
  "joined n \<rho> r P = (case r of None \<Rightarrow> P | Some V \<Rightarrow> is_claim n \<rho> V P)"

lemma joined_later: "later b \<rho> b' \<rho>' \<Longrightarrow> joined (b_next b) \<rho> r P \<Longrightarrow> joined (b_next b') \<rho>' r P"
  by (auto simp: joined_def dest: laterD(3) split: option.splits)

text \<open>One stage: a claim joined to what is there.\<close>

lemma emits_join:
  assumes f: "fold_ok L" and r: "joined (b_next b) \<rho> r P"
    and c: "\<And>Q'. (\<And>p b' \<rho>'. later b \<rho> b' \<rho>' \<Longrightarrow> is_claim (b_next b') \<rho>' p C \<Longrightarrow> Q' p b' \<rho>') \<Longrightarrow> emits D m b \<rho> Q'"
    and K: "\<And>V b' \<rho>'. later b \<rho> b' \<rho>' \<Longrightarrow> joined (b_next b') \<rho>' (Some V) (P \<and> C) \<Longrightarrow> Q (Some V) b' \<rho>'"
  shows "emits D (do { p \<leftarrow> m; andIn L nm r p }) b \<rho> Q"
proof (rule emits_bind [OF c])
  fix p b' \<rho>'
  assume l: "later b \<rho> b' \<rho>'" and p: "is_claim (b_next b') \<rho>' p C"
  show "emits D (andIn L nm r p) b' \<rho>' Q"
    by (rule emits_andIn [OF f laterD(1) [OF l] p])
      (use joined_later [OF l r] K later_trans [OF l] in \<open>auto simp: joined_def split: option.splits\<close>)
qed (intro grows)

definition stage_ok :: "builder \<Rightarrow> env \<Rightarrow> val option \<Rightarrow> bool \<Rightarrow> bool \<Rightarrow> bool" where
  "stage_ok b \<rho> r N P \<longleftrightarrow> joined (b_next b) \<rho> r P \<and> (r = None \<longleftrightarrow> N)"

text \<open>A stage that adds the claim \<open>C\<close> if \<open>c\<close>, at any point after \<open>b\<close>.\<close>

definition adds :: "bool \<Rightarrow> builder \<Rightarrow> env \<Rightarrow> (val option \<Rightarrow> (builder, val option) state) \<Rightarrow> bool \<Rightarrow> bool \<Rightarrow> bool" where
  "adds D b \<rho> g c C \<longleftrightarrow>
     (\<forall>b1 \<rho>1 r N P Q. later b \<rho> b1 \<rho>1 \<longrightarrow> stage_ok b1 \<rho>1 r N P \<longrightarrow>
        (\<forall>r' b' \<rho>'. later b1 \<rho>1 b' \<rho>' \<longrightarrow> stage_ok b' \<rho>' r' (N \<and> \<not> c) (P \<and> (c \<longrightarrow> C)) \<longrightarrow> Q r' b' \<rho>') \<longrightarrow>
        emits D (g r) b1 \<rho>1 Q)"

lemma adds_claim:
  assumes f: "fold_ok L"
    and m: "\<And>b1 \<rho>1 Q'. later b \<rho> b1 \<rho>1 \<Longrightarrow> (\<And>p b' \<rho>'. later b1 \<rho>1 b' \<rho>' \<Longrightarrow> is_claim (b_next b') \<rho>' p C \<Longrightarrow> Q' p b' \<rho>') \<Longrightarrow>
      emits D m b1 \<rho>1 Q'"
  shows "adds D b \<rho> (\<lambda>r. do { p \<leftarrow> m; andIn L nm r p }) True C"
  unfolding adds_def
proof (intro allI impI)
  fix b1 \<rho>1 r N P Q
  assume l: "later b \<rho> b1 \<rho>1" and r: "stage_ok b1 \<rho>1 r N P"
    and K: "\<forall>r' b' \<rho>'. later b1 \<rho>1 b' \<rho>' \<longrightarrow> stage_ok b' \<rho>' r' (N \<and> \<not> True) (P \<and> (True \<longrightarrow> C)) \<longrightarrow> Q r' b' \<rho>'"
  have j: "joined (b_next b1) \<rho>1 r P" using r by (simp add: stage_ok_def)
  show "emits D (do { p \<leftarrow> m; andIn L nm r p }) b1 \<rho>1 Q"
    by (rule emits_join [OF f j m [OF l]]) (use K in \<open>auto simp: stage_ok_def\<close>)
qed

lemma adds_none: "const_env \<rho> \<Longrightarrow> adds D b \<rho> State_Monad.return False C"
  unfolding adds_def by (auto intro!: emits_return simp: later_refl dest: laterD(1))

lemma adds_bind:
  assumes "adds D b \<rho> g c C" "later b \<rho> b1 \<rho>1" "stage_ok b1 \<rho>1 r N P" "\<And>r. grows (h r)"
    and "\<And>r' b' \<rho>'. later b \<rho> b' \<rho>' \<Longrightarrow> stage_ok b' \<rho>' r' (N \<and> \<not> c) (P \<and> (c \<longrightarrow> C)) \<Longrightarrow> emits D (h r') b' \<rho>' Q"
  shows "emits D (do { r' \<leftarrow> g r; h r' }) b1 \<rho>1 Q"
  by (rule emits_bind [OF assms(1) [unfolded adds_def, rule_format, OF assms(2,3)] assms(4)])
    (use assms(2,5) later_trans in blast)

lemma emits_buildFactPredicate:
  assumes f: "fold_ok L" "const_env \<rho>" and V: "val_in (b_next b) \<rho> w V x" and w: "0 < w" and kf: "wf_fact w kf"
    and K: "\<And>r b' \<rho>'. later b \<rho> b' \<rho>' \<Longrightarrow>
      (case r of None \<Rightarrow> fact_empty K kf | Some C \<Rightarrow> is_claim (b_next b') \<rho>' C (non_poison x \<and> fact_holds K kf (sv_value x))) \<Longrightarrow>
      Q r b' \<rho>'"
  shows "emits D (buildFactPredicate L K (IntTy w) V kf) b \<rho> Q"
proof -
  let ?nm = "kf_name kf" and ?t = "IntTy w" let ?join = "andIn L (?nm @ ''_and'')"
  let ?g1 = "\<lambda>r. case u_bound kf of Some (lo, hi) \<Rightarrow> do { p \<leftarrow> claim_u L ?nm V lo hi; ?join r p } | None \<Rightarrow> State_Monad.return r"
  let ?g2 = "\<lambda>r. case s_bound kf of Some (lo, hi) \<Rightarrow> do { p \<leftarrow> claim_s L ?nm V lo hi; ?join r p } | None \<Rightarrow> State_Monad.return r"
  let ?g3 = "\<lambda>r. if kf_poison_free kf then do { p \<leftarrow> claim_pf L ?nm ?t V; ?join r p } else State_Monad.return r"
  let ?g4 = "\<lambda>r. case kf_bits kf of Some k \<Rightarrow> if \<not> kb_isUnknown K k then do { p \<leftarrow> claim_bits L ?nm ?t V k; ?join r p }
      else State_Monad.return r | None \<Rightarrow> State_Monad.return r"
  note V' = laterD(1) laterD(2) [OF _ V]
  note wf = kf [unfolded wf_fact_def]
  have g1: "adds D b \<rho> ?g1 (u_bound kf \<noteq> None) (non_poison x \<and> in_u (u_bound kf) (sv_value x))"
  proof (cases "u_bound kf")
    case (Some i)
    obtain lo hi where i: "i = (lo, hi)" by (cases i)
    have "wf_ivl w (Some (lo, hi))" using wf Some i by simp
    then have "adds D b \<rho> (\<lambda>r. do { p \<leftarrow> claim_u L ?nm V lo hi; ?join r p }) True (non_poison x \<and> in_u (Some (lo, hi)) (sv_value x))"
      by (intro adds_claim [OF f(1)] emits_claim_u [OF f(1) V']) auto
    then show ?thesis using Some i by simp
  qed (use adds_none [OF f(2)] in simp)
  have g2: "adds D b \<rho> ?g2 (s_bound kf \<noteq> None) (non_poison x \<and> in_s (s_bound kf) (sv_value x))"
  proof (cases "s_bound kf")
    case (Some i)
    obtain lo hi where i: "i = (lo, hi)" by (cases i)
    have "wf_ivl w (Some (lo, hi))" using wf Some i by simp
    then have "adds D b \<rho> (\<lambda>r. do { p \<leftarrow> claim_s L ?nm V lo hi; ?join r p }) True (non_poison x \<and> in_s (Some (lo, hi)) (sv_value x))"
      by (intro adds_claim [OF f(1)] emits_claim_s [OF f(1) V']) auto
    then show ?thesis using Some i by simp
  qed (use adds_none [OF f(2)] in simp)
  have g3: "adds D b \<rho> ?g3 (kf_poison_free kf) (non_poison x)"
  proof (cases "kf_poison_free kf")
    case True
    have "adds D b \<rho> (\<lambda>r. do { p \<leftarrow> claim_pf L ?nm ?t V; ?join r p }) True (non_poison x)"
      by (intro adds_claim [OF f(1)] emits_claim_pf [OF f(1) V' w]) auto
    then show ?thesis using True by simp
  qed (use adds_none [OF f(2)] in simp)
  have g4: "adds D b \<rho> ?g4 (informative_bits K (kf_bits kf)) (non_poison x \<and> in_b (kf_bits kf) (sv_value x))"
  proof (cases "informative_bits K (kf_bits kf)")
    case True
    then obtain k where k: "kf_bits kf = Some k" "\<not> kb_isUnknown K k" by (auto simp: informative_bits_def split: option.splits)
    have "adds D b \<rho> (\<lambda>r. do { p \<leftarrow> claim_bits L ?nm ?t V k; ?join r p }) True (non_poison x \<and> kb_has k (sv_value x))"
      using wf k(1) by (intro adds_claim [OF f(1)] emits_claim_bits [OF f(1) V' w]) auto
    then show ?thesis using True k by (simp add: in_b_def)
  qed (use adds_none [OF f(2)] in \<open>auto simp: informative_bits_def split: option.splits\<close>)
  have s0: "stage_ok b \<rho> None True True" by (simp add: stage_ok_def joined_def)
  have build: "buildFactPredicate L K ?t V kf =
      do { r1 \<leftarrow> ?g1 None; r2 \<leftarrow> ?g2 r1; r3 \<leftarrow> ?g3 r2; r4 \<leftarrow> ?g4 r3; State_Monad.return r4 }"
    by (simp add: buildFactPredicate_def Let_def)
  show ?thesis unfolding build
  proof (rule adds_bind [OF g1 later_refl [OF f(2)] s0], goal_cases)
    case (2 r1 b1 \<rho>1)
    show ?case
    proof (rule adds_bind [OF g2 2], goal_cases)
      case (2 r2 b2 \<rho>2)
      show ?case
      proof (rule adds_bind [OF g3 2], goal_cases)
        case (2 r3 b3 \<rho>3)
        show ?case
        proof (rule adds_bind [OF g4 2], goal_cases)
          case (2 r4 b4 \<rho>4)
          then show ?case
            by (intro emits_return K)
              (auto simp: stage_ok_def joined_def fact_empty_def fact_holds_def is_claim_def in_u_def in_s_def split: option.splits)
        qed (intro grows)
      qed (intro grows)
    qed (intro grows)
  qed (intro grows)
qed

section \<open>Flags\<close>

lemma emits_ovf:
  fixes b :: builder
  assumes f: "fold_ok L" "const_env \<rho>" and a: "val_in (b_next b) \<rho> w a x" and c: "val_in (b_next b) \<rho> w c y"
    and K: "\<And>V b' \<rho>'. later b \<rho> b' \<rho>' \<Longrightarrow> old (b_next b') V \<Longrightarrow>
      same_value (\<rho>' V) (case binop_zip no_facts no_facts op x y of (v, ovf) \<Rightarrow> sv_concat v ovf) \<Longrightarrow> Q V b' \<rho>'"
  shows "emits D (create L (OOvf op) (OtherTy s) [a, c] nm) b \<rho> Q"
proof -
  let ?I = "mk_inst 0 [] (OOvf op) (OtherTy s) [a, c]"
  let ?pair = "\<lambda>x y. case binop_zip no_facts no_facts op x y of (v, ovf) \<Rightarrow> sv_concat v ovf"
  have d: "inst_defined \<rho> ?I" by (simp add: inst_defined_def)
  have res: "inst_result \<rho> ?I v \<longleftrightarrow> v = ?pair (\<rho> a) (\<rho> c)" for v
    by (simp add: inst_result.simps split: prod.splits)
  have sv: "same_value (?pair (\<rho> a) (\<rho> c)) (?pair x y)"
    using a c by (auto simp: val_in_def same_value_def binop_zip_def sv_concat_def sv_def Let_def split: prod.splits)
  show ?thesis
  proof (rule emits_create [OF f])
    fix v and b' :: builder
    assume i: "inst_result \<rho> ?I v" "b_next b' = Suc (b_next b)"
    show "Q (InstV (b_next b)) b' (\<rho>(InstV (b_next b) := v))"
      using i sv f(2) by (intro K) (auto simp: res later_def frame_const_env [of "b_next b" \<rho>])
  next
    fix V
    assume V: "isConstant V"
      "if inst_defined \<rho> ?I then \<forall>v. inst_result \<rho> ?I v \<longrightarrow> same_value v (\<rho> V) else \<not> non_poison (\<rho> V)"
    then show "Q V b \<rho>" using d sv f(2) by (intro K) (auto simp: res later_refl same_value_def)
  qed (use d res in auto)
qed

lemma xor_true: "wf_sv 1 v \<Longrightarrow> true_val (bin_val 1 Xor v (sv (mk 1 1) True)) \<longleftrightarrow> non_poison v \<and> sv_value v = mk 1 0"
  by (drule wf_sv1_cases)
    (auto simp: true_val_def bin_val_def binop_defined_def binop_scalar_def sv_def bvxor_def bv_eq_iff)

lemma emits_buildOvfClaim:
  fixes b :: builder
  assumes f: "fold_ok L" "const_env \<rho>" and a: "val_in (b_next b) \<rho> w a x" and c: "val_in (b_next b) \<rho> w c y"
    and z: "binop_zip no_facts no_facts op x y = (sv u (non_poison x \<and> non_poison y), sv (toBVBool (\<not> ok)) (non_poison x \<and> non_poison y))"
    and K: "\<And>V b' \<rho>'. later b \<rho> b' \<rho>' \<Longrightarrow> is_claim (b_next b') \<rho>' V (non_poison x \<and> non_poison y \<and> ok) \<Longrightarrow> Q V b' \<rho>'"
  shows "emits D (buildOvfClaim L op a c) b \<rho> Q"
  unfolding buildOvfClaim_def
proof (rule emits_bind [OF emits_ovf [OF f a c]], goal_cases)
  case (1 call b1 \<rho>1)
  let ?o = "sv (toBVBool (\<not> ok)) (non_poison x \<and> non_poison y)"
  have o: "wf_sv 1 ?o" by (simp add: wf_sv_def sv_def toBVBool_def)
  have call: "same_value (\<rho>1 call) (sv_concat (sv u (non_poison x \<and> non_poison y)) ?o)" using 1(3) z by simp
  show ?case
  proof (rule emits_bind [OF emits_extract [OF f(1) laterD(1) [OF 1(1)] call o]], goal_cases)
    case (1 ovf b2 \<rho>2)
    have l: "later b \<rho> b2 \<rho>2" using later_trans [OF \<open>later b \<rho> b1 \<rho>1\<close>] 1 by (simp add: later_def)
    have one: "val_in (b_next b2) \<rho>2 1 (ConstInt (mk 1 1)) (sv (mk 1 1) True)" using 1(3) by (intro val_in_ConstInt) simp_all
    let ?v = "sv (sv_value ?o) (non_poison (sv u (non_poison x \<and> non_poison y)) \<and> non_poison ?o)"
    have t: "true_val (bin_val 1 Xor ?v (sv (mk 1 1) True)) \<longleftrightarrow> non_poison x \<and> non_poison y \<and> ok"
      by (subst xor_true) (auto simp: wf_sv_def sv_select toBVBool_def)
    show ?case
    proof (rule emits_bin [OF f(1) 1(3) _ _ 1(4) one], goal_cases)
      case (4 V b' \<rho>')
      show ?case by (rule K [OF later_trans [OF l] is_claimI [OF 4(4) t]]) (use 4 in \<open>simp add: later_def\<close>)
    qed (auto simp: llvm_binop_def binop_defined_def)
  qed (intro grows)
qed (intro grows)

definition np_val :: "state_value \<Rightarrow> bv \<Rightarrow> bool" where
  "np_val v x \<longleftrightarrow> non_poison v \<and> sv_value v = x"

lemma emits_round_trip:
  fixes b :: builder
  assumes f: "fold_ok L" "const_env \<rho>" and w: "0 < w" "llvm_binop op1" "llvm_binop op2"
    and a: "val_in (b_next b) \<rho> w a x" and c: "val_in (b_next b) \<rho> w c y"
    and d: "D \<Longrightarrow> binop_defined op1 x y" "D \<Longrightarrow> binop_defined op2 (bin_val w op1 x y) y"
    and K: "\<And>V b' \<rho>'. later b \<rho> b' \<rho>' \<Longrightarrow>
      is_claim (b_next b') \<rho>' V (non_poison x \<and> np_val (bin_val w op2 (bin_val w op1 x y) y) (sv_value x)) \<Longrightarrow> Q V b' \<rho>'"
  shows "emits D (round_trip L (IntTy w) op1 op2 a c) b \<rho> Q"
  unfolding round_trip_def
proof (rule emits_bind [OF emits_bin [OF f w(1,2) a c d(1)]], goal_cases)
  case (2 v b1 \<rho>1)
  have l: "later b \<rho> b1 \<rho>1" using 2 by (simp add: later_def)
  show ?case
  proof (rule emits_bind [OF emits_bin [OF f(1) laterD(1) [OF l] w(1,3) 2(4) laterD(2) [OF l c] d(2)]], goal_cases)
    case (2 v' b2 \<rho>2)
    have l2: "later b1 \<rho>1 b2 \<rho>2" using 2 by (simp add: later_def)
    note l' = later_trans [OF l l2]
    show ?case
      by (rule emits_icmp_claim [OF f(1) laterD(1) [OF l2] 2(4) laterD(2) [OF l' a]], rule K)
        (auto simp: icmp_fn_def np_val_def is_claim_def intro: later_trans [OF l'])
  qed (auto intro: grows)
qed (auto intro: grows)

lemma round_trip_meaning:
  assumes "wf_sv w x" "wf_sv w y"
  shows
    "non_poison x \<and> np_val (bin_val w AShr (bin_val w Shl x y) y) (sv_value x) \<longleftrightarrow>
       non_poison x \<and> non_poison y \<and> flag_ok ShlNSW (sv_value x) (sv_value y)"
    "non_poison x \<and> np_val (bin_val w LShr (bin_val w Shl x y) y) (sv_value x) \<longleftrightarrow>
       non_poison x \<and> non_poison y \<and> flag_ok ShlNUW (sv_value x) (sv_value y)"
    "non_poison x \<and> np_val (bin_val w Shl (bin_val w LShr x y) y) (sv_value x) \<longleftrightarrow>
       non_poison x \<and> non_poison y \<and> flag_ok LShrExact (sv_value x) (sv_value y)"
    "non_poison x \<and> np_val (bin_val w Shl (bin_val w AShr x y) y) (sv_value x) \<longleftrightarrow>
       non_poison x \<and> non_poison y \<and> flag_ok AShrExact (sv_value x) (sv_value y)"
    "non_poison x \<and> np_val (bin_val w Mul (bin_val w UDiv x y) y) (sv_value x) \<longleftrightarrow>
       non_poison x \<and> binop_defined UDiv x y \<and> flag_ok UDivExact (sv_value x) (sv_value y)"
    "non_poison x \<and> np_val (bin_val w Mul (bin_val w SDiv x y) y) (sv_value x) \<longleftrightarrow>
       non_poison x \<and> binop_defined SDiv x y \<and> flag_ok SDivExact (sv_value x) (sv_value y)"
proof -
  have wf: "wf_bv (sv_value x)" "wf_bv (sv_value y)" "bits (sv_value x) = w" "bits (sv_value y) = w"
    using assms by (simp_all add: wf_sv_def)
  note s = np_val_def bin_val_def binop_defined_def binop_scalar_def no_flags_def sv_select
    shift_amount_test [OF wf(2), unfolded wf(4)] wf(3,4)
  show "non_poison x \<and> np_val (bin_val w AShr (bin_val w Shl x y) y) (sv_value x) \<longleftrightarrow>
       non_poison x \<and> non_poison y \<and> flag_ok ShlNSW (sv_value x) (sv_value y)"
    using shl_no_soverflow_iff [OF wf(1), of "sv_value y"] by (auto simp: s shl_no_soverflow_def)
  show "non_poison x \<and> np_val (bin_val w LShr (bin_val w Shl x y) y) (sv_value x) \<longleftrightarrow>
       non_poison x \<and> non_poison y \<and> flag_ok ShlNUW (sv_value x) (sv_value y)"
    using shl_no_uoverflow_iff [OF wf(1), of "sv_value y"] by (auto simp: s shl_no_uoverflow_def)
  show "non_poison x \<and> np_val (bin_val w Shl (bin_val w LShr x y) y) (sv_value x) \<longleftrightarrow>
       non_poison x \<and> non_poison y \<and> flag_ok LShrExact (sv_value x) (sv_value y)"
    using lshr_exact_iff [OF wf(1), of "sv_value y"] by (auto simp: s lshr_exact_def)
  show "non_poison x \<and> np_val (bin_val w Shl (bin_val w AShr x y) y) (sv_value x) \<longleftrightarrow>
       non_poison x \<and> non_poison y \<and> flag_ok AShrExact (sv_value x) (sv_value y)"
    using ashr_exact_iff [OF wf(1), of "sv_value y"] by (auto simp: s ashr_exact_def)
  show "non_poison x \<and> np_val (bin_val w Mul (bin_val w UDiv x y) y) (sv_value x) \<longleftrightarrow>
       non_poison x \<and> binop_defined UDiv x y \<and> flag_ok UDivExact (sv_value x) (sv_value y)"
    using udiv_exact_iff [OF wf(1,2)] by (auto simp: s udiv_exact_def div_ub_def eq_zero_uval [of "sv_value y", unfolded wf(4)])
  show "non_poison x \<and> np_val (bin_val w Mul (bin_val w SDiv x y) y) (sv_value x) \<longleftrightarrow>
       non_poison x \<and> binop_defined SDiv x y \<and> flag_ok SDivExact (sv_value x) (sv_value y)"
    using sdiv_exact_iff [OF wf(1,2)] by (auto simp: s sdiv_exact_def div_ub_def eq_zero_uval [of "sv_value y", unfolded wf(4)])
qed

text \<open>The condition a flag claim states: operands that are not poison, a division that is defined, and the
  flag's rule.\<close>

definition flag_claim :: "FlagKind \<Rightarrow> state_value \<Rightarrow> state_value \<Rightarrow> bool" where
  "flag_claim k x y \<longleftrightarrow> non_poison x \<and> (k \<noteq> ZExtNNeg \<longrightarrow> non_poison y) \<and> flag_ok k (sv_value x) (sv_value y) \<and>
     (k = UDivExact \<longrightarrow> binop_defined UDiv x y) \<and> (k = SDivExact \<longrightarrow> binop_defined SDiv x y)"

definition flag_defined :: "FlagKind \<Rightarrow> state_value \<Rightarrow> state_value \<Rightarrow> bool" where
  "flag_defined k x y \<longleftrightarrow> (k = UDivExact \<longrightarrow> binop_defined UDiv x y) \<and> (k = SDivExact \<longrightarrow> binop_defined SDiv x y)"

fun ovf_intrinsic :: "FlagKind \<Rightarrow> binop option" where
  "ovf_intrinsic AddNSW = Some SAdd_Overflow"
| "ovf_intrinsic AddNUW = Some UAdd_Overflow"
| "ovf_intrinsic SubNSW = Some SSub_Overflow"
| "ovf_intrinsic SubNUW = Some USub_Overflow"
| "ovf_intrinsic MulNSW = Some SMul_Overflow"
| "ovf_intrinsic MulNUW = Some UMul_Overflow"
| "ovf_intrinsic _ = None"

lemma overflow_bit:
  assumes "wf_sv w x" "wf_sv w y" "ovf_intrinsic k = Some op"
  shows "\<exists>u. binop_zip no_facts no_facts op x y =
    (sv u (non_poison x \<and> non_poison y), sv (toBVBool (\<not> flag_ok k (sv_value x) (sv_value y))) (non_poison x \<and> non_poison y))"
proof -
  have wf: "wf_bv (sv_value x)" "wf_bv (sv_value y)" "bits (sv_value x) = bits (sv_value y)"
    using assms by (simp_all add: wf_sv_def)
  note h = honest_no_facts [OF wf(1)] honest_no_facts [OF wf(2)]
  note iffs = add_no_soverflow_iff [OF wf h] add_no_uoverflow_iff [OF wf h] sub_no_soverflow_iff [OF wf h]
    sub_no_uoverflow_iff [OF wf] mul_no_soverflow_iff [OF wf(1,2) wf(3) [symmetric]]
    mul_no_uoverflow_iff [OF wf(1,2) wf(3) [symmetric]]
  show ?thesis using assms(3)
    by (cases k) (auto simp: binop_zip_def iffs wf(3) Let_def)
qed

lemma emits_buildFlagClaim:
  fixes b :: builder
  assumes f: "fold_ok L" "const_env \<rho>" and w: "0 < w"
    and a: "val_in (b_next b) \<rho> w a x" and c: "val_in (b_next b) \<rho> w c y" and wf: "wf_sv w x" "wf_sv w y"
    and d: "D \<Longrightarrow> flag_defined k x y"
    and K: "\<And>V b' \<rho>'. later b \<rho> b' \<rho>' \<Longrightarrow> is_claim (b_next b') \<rho>' V (flag_claim k x y) \<Longrightarrow> Q (Some V) b' \<rho>'"
  shows "emits D (buildFlagClaim L k (IntTy w) [a, c]) b \<rho> Q"
proof -
  note ovf = emits_buildOvfClaim [OF f a c]
  have rt: "emits D (map_state Some (round_trip L (IntTy w) op1 op2 a c)) b \<rho> Q"
    if "llvm_binop op1" "llvm_binop op2" "D \<Longrightarrow> binop_defined op1 x y" "\<not> isDivOrRem op2"
      "non_poison x \<and> np_val (bin_val w op2 (bin_val w op1 x y) y) (sv_value x) \<longleftrightarrow> flag_claim k x y" for op1 op2
    using that by (intro emits_map emits_round_trip [OF f w _ _ a c]) (auto simp: binop_defined_def intro: K)
  have ov: "emits D (map_state Some (buildOvfClaim L op a c)) b \<rho> Q" if op: "ovf_intrinsic k = Some op" for op
  proof -
    obtain u where z: "binop_zip no_facts no_facts op x y = (sv u (non_poison x \<and> non_poison y),
        sv (toBVBool (\<not> flag_ok k (sv_value x) (sv_value y))) (non_poison x \<and> non_poison y))"
      using overflow_bit [OF wf op] by blast
    have "flag_claim k x y \<longleftrightarrow> non_poison x \<and> non_poison y \<and> flag_ok k (sv_value x) (sv_value y)"
      using op by (cases k) (auto simp: flag_claim_def)
    then show ?thesis by (intro emits_map emits_buildOvfClaim [OF f a c z] K) simp_all
  qed
  note rm = round_trip_meaning [OF wf]
  have zero: "const_env \<rho>' \<Longrightarrow> val_in n \<rho>' w (ConstInt (mk w 0)) (sv (mk w 0) True)" for n \<rho>'
    using w by (simp add: val_in_ConstInt)
  have sval0: "sval (mk w 0) = 0" using w by (simp add: sval_zero_iff)
  have bv: "wf_bv (sv_value x)" "wf_bv (sv_value y)" "bits (sv_value x) = w" "bits (sv_value y) = w"
    using wf by (simp_all add: wf_sv_def)
  have dj: "bvand (sv_value x) (sv_value y) = mk w 0 \<longleftrightarrow> uval (sv_value x) AND uval (sv_value y) = 0"
    using and_zero_iff [OF bv(1,2)] bv(3,4) by simp
  show ?thesis
  proof (cases k)
    case ZExtNNeg
    then show ?thesis unfolding buildFlagClaim_def
      by (simp add: int_width_def del: One_nat_def)
        (intro emits_map emits_icmp_claim [OF f a zero [OF f(2)]] K,
          simp_all add: flag_claim_def icmp_fn_def bvsle_def sv_select sval0)
  next
    case OrDisjoint
    have "emits D (do { z \<leftarrow> create L (OBin And) (IntTy w) [a, c] [];
        create L (OICmp EQ) (IntTy 1) [z, ConstInt (mk w 0)] [] }) b \<rho> (\<lambda>V. Q (Some V))"
    proof (rule emits_bind [OF emits_bin [OF f w _ a c]], goal_cases)
      case (3 z b1 \<rho>1)
      have l: "later b \<rho> b1 \<rho>1" using 3 by (simp add: later_def)
      show ?case
        by (rule emits_icmp_claim [OF f(1) 3(3,4) zero [OF 3(3)]], rule K)
          (auto simp: OrDisjoint flag_claim_def is_claim_def icmp_fn_def bin_val_def binop_defined_def binop_scalar_def
            sv_select dj intro: later_trans [OF l])
    qed (auto simp: llvm_binop_def binop_defined_def intro: grows)
    then show ?thesis unfolding buildFlagClaim_def by (simp add: OrDisjoint int_width_def emits_map del: One_nat_def)
  next
    case ShlNSW
    then show ?thesis unfolding buildFlagClaim_def using rt [of Shl AShr] rm(1)
      by (simp add: llvm_binop_def binop_defined_def flag_claim_def)
  next
    case ShlNUW
    then show ?thesis unfolding buildFlagClaim_def using rt [of Shl LShr] rm(2)
      by (simp add: llvm_binop_def binop_defined_def flag_claim_def)
  next
    case LShrExact
    then show ?thesis unfolding buildFlagClaim_def using rt [of LShr Shl] rm(3)
      by (simp add: llvm_binop_def binop_defined_def flag_claim_def)
  next
    case AShrExact
    then show ?thesis unfolding buildFlagClaim_def using rt [of AShr Shl] rm(4)
      by (simp add: llvm_binop_def binop_defined_def flag_claim_def)
  next
    case UDivExact
    then show ?thesis unfolding buildFlagClaim_def using rt [of UDiv Mul] rm(5) d
      by (auto simp: llvm_binop_def flag_claim_def flag_defined_def) (auto simp: binop_defined_def)
  next
    case SDivExact
    then show ?thesis unfolding buildFlagClaim_def using rt [of SDiv Mul] rm(6) d
      by (auto simp: llvm_binop_def flag_claim_def flag_defined_def) (auto simp: binop_defined_def)
  qed (use ov in \<open>simp_all add: buildFlagClaim_def\<close>)
qed

section \<open>Properties\<close>

lemma emits_claim_runs:
  assumes "emits True m b \<rho> (\<lambda>r b' \<rho>'. \<exists>C. r = Some C \<and> is_claim (b_next b') \<rho>' C P)"
  shows "\<exists>C b' new. run_state m b = (Some C, b') \<and> b_insts b' = b_insts b @ new \<and> (\<exists>\<rho>'. run \<rho> new \<rho>') \<and>
    (\<forall>\<rho>'. run \<rho> new \<rho>' \<longrightarrow> frame (b_next b) \<rho> \<rho>' \<and> (non_poison (\<rho>' C) \<and> sv_value (\<rho>' C) = mk 1 1 \<longleftrightarrow> P))"
proof -
  obtain r b' new where m: "run_state m b = (r, b')" "extends b b' new" "safe \<rho> new"
    and q: "\<And>\<rho>'. run \<rho> new \<rho>' \<Longrightarrow> frame (b_next b) \<rho> \<rho>' \<and> (\<exists>C. r = Some C \<and> is_claim (b_next b') \<rho>' C P)"
    using assms unfolding emits_def by auto
  note m = m(1,2) safe_run [OF m(3)]
  obtain C where C: "r = Some C" using m(3) q by blast
  show ?thesis
  proof (intro exI conjI)
    show "run_state m b = (Some C, b')" "b_insts b' = b_insts b @ new" using m C by (simp_all add: extends_def)
    show "run \<rho> new (SOME \<rho>'. run \<rho> new \<rho>')" by (rule someI_ex [OF m(3)])
    show "\<forall>\<rho>'. run \<rho> new \<rho>' \<longrightarrow> frame (b_next b) \<rho> \<rho>' \<and> (non_poison (\<rho>' C) \<and> sv_value (\<rho>' C) = mk 1 1 \<longleftrightarrow> P)"
      using q C by (auto simp: is_claim_def true_val_def)
  qed
qed

text \<open>
  C10 (equivalence). The predicate built for a fact says the fact. For a value of width \<open>w\<close> and a
  well-formed fact about it that is not empty, the emitted instructions always run, change no
  earlier value, and in every run the predicate is true, and not poison, exactly when the value
  is not poison and the fact holds of it.
\<close>

theorem fact_predicate_exact:
  assumes "fold_ok L" "const_env \<rho>" "wf_sv w (\<rho> V)" "0 < w" "old (b_next b) V" "wf_fact w kf" "\<not> fact_empty K kf"
  shows "\<exists>C b' new. run_state (buildFactPredicate L K (IntTy w) V kf) b = (Some C, b') \<and> b_insts b' = b_insts b @ new \<and>
    (\<exists>\<rho>'. run \<rho> new \<rho>') \<and>
    (\<forall>\<rho>'. run \<rho> new \<rho>' \<longrightarrow> frame (b_next b) \<rho> \<rho>' \<and>
       (non_poison (\<rho>' C) \<and> sv_value (\<rho>' C) = mk 1 1 \<longleftrightarrow> non_poison (\<rho> V) \<and> fact_holds K kf (sv_value (\<rho> V))))"
proof -
  have V: "val_in (b_next b) \<rho> w V (\<rho> V)" using assms(3,5) by (simp add: val_in_def)
  have "emits True (buildFactPredicate L K (IntTy w) V kf) b \<rho> (\<lambda>r b' \<rho>'. \<exists>C. r = Some C \<and>
      is_claim (b_next b') \<rho>' C (non_poison (\<rho> V) \<and> fact_holds K kf (sv_value (\<rho> V))))"
    by (rule emits_buildFactPredicate [OF assms(1,2) V assms(4,6)]) (use assms(7) in \<open>auto split: option.splits\<close>)
  then show ?thesis by (rule emits_claim_runs)
qed

text \<open>
  C11 (equivalence). The predicate built for a flag says that the flag is harmless. For two operands
  of width \<open>w\<close> (of which \<open>nneg\<close> reads the first), the emitted instructions run if the division they
  contain is defined, and in every run the predicate is true, and not poison, exactly when the
  operands are not poison and the flag's rule holds.
\<close>

theorem flag_claim_exact:
  assumes "fold_ok L" "const_env \<rho>" "0 < w" "wf_sv w (\<rho> a)" "wf_sv w (\<rho> c)" "old (b_next b) a" "old (b_next b) c"
    "flag_defined k (\<rho> a) (\<rho> c)"
  shows "\<exists>C b' new. run_state (buildFlagClaim L k (IntTy w) [a, c]) b = (Some C, b') \<and> b_insts b' = b_insts b @ new \<and>
    (\<exists>\<rho>'. run \<rho> new \<rho>') \<and>
    (\<forall>\<rho>'. run \<rho> new \<rho>' \<longrightarrow> frame (b_next b) \<rho> \<rho>' \<and>
       (non_poison (\<rho>' C) \<and> sv_value (\<rho>' C) = mk 1 1 \<longleftrightarrow> flag_claim k (\<rho> a) (\<rho> c)))"
proof -
  have v: "val_in (b_next b) \<rho> w a (\<rho> a)" "val_in (b_next b) \<rho> w c (\<rho> c)" using assms by (simp_all add: val_in_def)
  have "emits True (buildFlagClaim L k (IntTy w) [a, c]) b \<rho> (\<lambda>r b' \<rho>'. \<exists>C. r = Some C \<and>
      is_claim (b_next b') \<rho>' C (flag_claim k (\<rho> a) (\<rho> c)))"
    by (rule emits_buildFlagClaim [OF assms(1-3) v assms(4,5,8)]) auto
  then show ?thesis by (rule emits_claim_runs)
qed

section \<open>Witnesses\<close>

definition start_builder :: builder where
  "start_builder = \<lparr>b_next = 0, b_insts = [], b_names = []\<rparr>"

definition small_fact :: known_fact where
  "small_fact = \<lparr>kf_name = ''x'', kf_slice = \<lparr>sl_insts = [], arg_roots = []\<rparr>, u_bound = Some (mk 8 3, mk 8 9),
     s_bound = None, kf_bits = None, kf_poison_free = True\<rparr>"

lemma demo_fold_ok: "fold_ok demo_api"
  by (simp add: fold_ok_def demo_api_def)

lemma demo_args: "wf_sv 8 (start_env [sv (mk 8 5) True, sv (mk 8 7) True] (ArgV n))" if "n < 2"
  using that by (cases n) (simp_all add: start_env_def wf_sv_def sv_def)

theorem fact_predicate_exact_witness:
  "\<exists>C b' new. run_state (buildFactPredicate demo_api simple_kb (IntTy 8) (ArgV 0) small_fact) start_builder = (Some C, b') \<and>
     b_insts b' = new \<and>
     (\<exists>\<rho>'. run (start_env [sv (mk 8 5) True, sv (mk 8 7) True]) new \<rho>' \<and> non_poison (\<rho>' C) \<and> sv_value (\<rho>' C) = mk 1 1)"
proof -
  let ?\<rho> = "start_env [sv (mk 8 5) True, sv (mk 8 7) True]"
  have wf: "wf_fact 8 small_fact" "\<not> fact_empty simple_kb small_fact"
    by (simp_all add: wf_fact_def small_fact_def wf_ivl_def fact_empty_def)
  have h: "non_poison (?\<rho> (ArgV 0)) \<and> fact_holds simple_kb small_fact (sv_value (?\<rho> (ArgV 0)))"
    by (simp add: start_env_def sv_def fact_holds_def small_fact_def in_u_def in_s_def informative_bits_def mk_def)
  show ?thesis
    using fact_predicate_exact [OF demo_fold_ok const_env_start demo_args [of 0] _ _ wf, of start_builder] h
    unfolding start_builder_def by (simp only: builder.select_convs append_Nil old_const zero_less_numeral simp_thms) metis
qed

theorem flag_claim_exact_witness:
  "\<exists>C b' new. run_state (buildFlagClaim demo_api AddNSW (IntTy 8) [ArgV 0, ArgV 1]) start_builder = (Some C, b') \<and>
     b_insts b' = new \<and>
     (\<exists>\<rho>'. run (start_env [sv (mk 8 5) True, sv (mk 8 7) True]) new \<rho>' \<and> non_poison (\<rho>' C) \<and> sv_value (\<rho>' C) = mk 1 1)"
proof -
  let ?\<rho> = "start_env [sv (mk 8 5) True, sv (mk 8 7) True]"
  have v: "sval (mk 8 5) = 5" "sval (mk 8 7) = 7" by code_simp+
  have h: "flag_claim AddNSW (?\<rho> (ArgV 0)) (?\<rho> (ArgV 1))" "flag_defined AddNSW (?\<rho> (ArgV 0)) (?\<rho> (ArgV 1))"
    by (simp_all add: start_env_def sv_def flag_claim_def flag_defined_def fits_s_def v)
  show ?thesis
    using flag_claim_exact [OF demo_fold_ok const_env_start _ demo_args [of 0] demo_args [of 1] _ _ h(2), of start_builder] h(1)
    unfolding start_builder_def
    by (simp only: builder.select_convs append_Nil old_const zero_less_numeral simp_thms numeral_2_eq_2 One_nat_def lessI zero_less_Suc) metis
qed

end
