(* ===== verification/Proposer.thy ===== *)
theory Proposer
  imports Builder Verify
begin

text \<open>
  Preconditions proposed for a unit that does not verify on its own: the rest of
  \<open>tv-next/proposer.cpp\<close>. Range facts are collected from either parent function, flags that are
  new in the target and provably harmless become obligations, both are injected into the unit as
  calls of \<open>llvm.assume\<close>, and for each parent a stand-alone check unit claims that they hold.

  Opcodes that are not modelled one by one are identified by LLVM's name for them. Operands
  that are globals have no key; they do not occur in the integer instructions that carry flags.
  Labels of basic blocks are not part of the symbol tables.
\<close>

section \<open>Values by name\<close>

definition findArgByName :: "func \<Rightarrow> string \<Rightarrow> nat option" where
  "findArgByName fn name = find (\<lambda>n. arg_name (f_args fn ! n) = name) [0..<length (f_args fn)]"

definition findValueByName :: "string \<Rightarrow> func \<Rightarrow> val option" where
  "findValueByName name fn =
     (case find (\<lambda>I. i_name I \<noteq> [] \<and> i_name I = name) (all_insts fn) of
        Some I \<Rightarrow> Some (InstV (i_id I))
      | None \<Rightarrow>
          map_option ArgV
            (find (\<lambda>n. arg_name (f_args fn ! n) \<noteq> [] \<and> arg_name (f_args fn ! n) = name) [0..<length (f_args fn)]))"

text \<open>The range of an operand of a function \<open>fn\<close>, from facts about named values.\<close>

definition rangeForOperand :: "kb_ops \<Rightarrow> func \<Rightarrow> val \<Rightarrow> known_fact list \<Rightarrow> known_range" where
  "rangeForOperand K fn V facts =
     (case V of
        ConstInt c \<Rightarrow> \<lparr>kr_u = Some (c, c), kr_s = Some (c, c), kr_bits = Some (kb_makeConstant K c),
                       undef_free = True, poison_free = True\<rparr>
      | _ \<Rightarrow>
        (case (if hasName fn V then find (\<lambda>kf. kf_name kf = val_name fn V) facts else None) of
           Some kf \<Rightarrow> empty_range\<lparr>kr_u := u_bound kf, kr_s := s_bound kf, kr_bits := kf_bits kf,
                        poison_free := kf_poison_free kf\<rparr>
         | None \<Rightarrow>
             (case val_ty fn V of
                IntTy bw \<Rightarrow> empty_range\<lparr>kr_u := Some (mk bw 0, mk bw (- 1)),
                              kr_s := Some (IntSMin bw, IntSMax bw)\<rparr>
              | _ \<Rightarrow> empty_range)))"

section \<open>Matching instructions\<close>

record operand_key =
  k_name :: string
  const_val :: bv
  k_is_const :: bool

definition keyForOperand :: "func \<Rightarrow> val \<Rightarrow> operand_key" where
  "keyForOperand fn V =
     (case V of
        ConstInt c \<Rightarrow> \<lparr>k_name = [], const_val = c, k_is_const = True\<rparr>
      | _ \<Rightarrow> \<lparr>k_name = val_name fn V, const_val = mk 1 0, k_is_const = False\<rparr>)"

definition operandKeysEqual :: "operand_key \<Rightarrow> operand_key \<Rightarrow> bool" where
  "operandKeysEqual a b =
     (if k_is_const a \<noteq> k_is_const b then False
      else if k_is_const a then const_val a = const_val b
      else k_name a \<noteq> [] \<and> k_name a = k_name b)"

text \<open>\<open>Instruction::getOpcode\<close>: a comparison has one opcode for all predicates, \<open>extractvalue\<close> one
  for all positions. Calls differ by their callee, which is an operand.\<close>

definition getOpcode :: "opcode \<Rightarrow> opcode" where
  "getOpcode oc = (case oc of OICmp _ \<Rightarrow> OICmp EQ | OExtractValue _ \<Rightarrow> OExtractValue 0 | _ \<Rightarrow> oc)"

text \<open>\<open>Instruction::isCommutative\<close> for the opcodes with two operands.\<close>

definition isCommutative :: "opcode \<Rightarrow> bool" where
  "isCommutative oc =
     (case oc of
        OBin op \<Rightarrow> op \<in> {Add, Mul, And, Or, Xor}
      | OOther nm \<Rightarrow> nm \<in> {''fadd'', ''fmul''}
      | _ \<Rightarrow> False)"

definition keys_match :: "bool \<Rightarrow> operand_key list \<Rightarrow> operand_key list \<Rightarrow> bool" where
  "keys_match commutative tkeys ikeys =
     (if commutative \<and> length ikeys = 2
      then (operandKeysEqual (tkeys ! 0) (ikeys ! 0) \<and> operandKeysEqual (tkeys ! 1) (ikeys ! 1)) \<or>
           (operandKeysEqual (tkeys ! 0) (ikeys ! 1) \<and> operandKeysEqual (tkeys ! 1) (ikeys ! 0))
      else list_all2 operandKeysEqual tkeys ikeys)"

definition findStructuralMatch :: "func \<Rightarrow> inst \<Rightarrow> func \<Rightarrow> inst option" where
  "findStructuralMatch tfn T fn =
     find (\<lambda>I. getOpcode (i_op I) = getOpcode (i_op T) \<and> i_ty I = i_ty T \<and> length (i_ops I) = length (i_ops T) \<and>
             keys_match (isCommutative (i_op T)) (map (keyForOperand tfn) (i_ops T)) (map (keyForOperand fn) (i_ops I)))
       (all_insts fn)"

section \<open>Flags the target adds\<close>

record flag_obligation =
  ob_inst :: inst
  ob_kind :: FlagKind
  op_keys :: "operand_key list"

definition isOverflowing :: "opcode \<Rightarrow> bool" where
  "isOverflowing oc = (case oc of OBin op \<Rightarrow> op \<in> {Add, Sub, Mul, Shl} | _ \<Rightarrow> False)"

definition isPossiblyExact :: "opcode \<Rightarrow> bool" where
  "isPossiblyExact oc = (case oc of OBin op \<Rightarrow> op \<in> {UDiv, SDiv, LShr, AShr} | _ \<Rightarrow> False)"

definition both_kinds :: "bool \<Rightarrow> bool \<Rightarrow> FlagKind \<Rightarrow> FlagKind \<Rightarrow> FlagKind list" where
  "both_kinds nsw nuw k k' = (if nsw then [k] else []) @ (if nuw then [k'] else [])"

definition added_wrap_flags :: "inst \<Rightarrow> inst \<Rightarrow> FlagKind list" where
  "added_wrap_flags T S =
     (if isOverflowing (i_op T) \<and> isOverflowing (i_op S) then
        let nsw = i_nsw T \<and> \<not> i_nsw S; nuw = i_nuw T \<and> \<not> i_nuw S in
        (case i_op T of
           OBin Add \<Rightarrow> both_kinds nsw nuw AddNSW AddNUW
         | OBin Sub \<Rightarrow> both_kinds nsw nuw SubNSW SubNUW
         | OBin Mul \<Rightarrow> both_kinds nsw nuw MulNSW MulNUW
         | OBin Shl \<Rightarrow> both_kinds nsw nuw ShlNSW ShlNUW
         | _ \<Rightarrow> [])
      else [])"

definition added_exact_flags :: "inst \<Rightarrow> inst \<Rightarrow> FlagKind list" where
  "added_exact_flags T S =
     (if isPossiblyExact (i_op T) \<and> isPossiblyExact (i_op S) \<and> i_exact T \<and> \<not> i_exact S then
        (case i_op T of
           OBin UDiv \<Rightarrow> [UDivExact]
         | OBin SDiv \<Rightarrow> [SDivExact]
         | OBin LShr \<Rightarrow> [LShrExact]
         | OBin AShr \<Rightarrow> [AShrExact]
         | _ \<Rightarrow> [])
      else [])"

definition collectAddedFlags :: "inst \<Rightarrow> inst \<Rightarrow> FlagKind list" where
  "collectAddedFlags T S =
     added_wrap_flags T S @
     (if i_op T = OCast ZExt \<and> i_op S = OCast ZExt \<and> i_nneg T \<and> \<not> i_nneg S then [ZExtNNeg] else []) @
     added_exact_flags T S @
     (if i_op T = OBin Or \<and> i_op S = OBin Or \<and> i_disjoint T \<and> \<not> i_disjoint S then [OrDisjoint] else [])"

section \<open>Facts and obligations of one parent\<close>

record per_side_facts =
  facts :: "known_fact list"
  obligations :: "flag_obligation list"
  ob_op_tys :: "ty list list"
  ob_result_bws :: "nat list"

definition side_empty :: "per_side_facts \<Rightarrow> bool" where
  "side_empty side \<longleftrightarrow> facts side = [] \<and> obligations side = []"

definition seed_map :: "func \<Rightarrow> range_map" where
  "seed_map fn V =
     (case V of
        ArgV n \<Rightarrow> if n < length (f_args fn)
                  then (case arg_ty (f_args fn ! n) of IntTy bw \<Rightarrow> Some (seed_range bw) | _ \<Rightarrow> None)
                  else None
      | _ \<Rightarrow> None)"

definition parent_ranges :: "kb_ops \<Rightarrow> func \<Rightarrow> range_map" where
  "parent_ranges K fn = computeRanges K (val_ty fn) (filter (\<lambda>I. \<not> isTerminator I) (all_insts fn)) (seed_map fn)"

definition fact_of_range :: "kb_ops \<Rightarrow> string \<Rightarrow> known_range \<Rightarrow> known_fact" where
  "fact_of_range K name r =
     \<lparr>kf_name = name, kf_slice = \<lparr>sl_insts = [], arg_roots = []\<rparr>,
      u_bound = (case kr_u r of
          Some (lo, hi) \<Rightarrow> if hi \<noteq> IntUMax (bits hi) then Some (lo, hi) else None | None \<Rightarrow> None),
      s_bound = (case kr_s r of
          Some (lo, hi) \<Rightarrow> if lo \<noteq> IntSMin (bits lo) \<or> hi \<noteq> IntSMax (bits hi) then Some (lo, hi) else None
        | None \<Rightarrow> None),
      kf_bits = (if informative_bits K (kr_bits r) then kr_bits r else None),
      kf_poison_free = poison_free r\<rparr>"

definition isPhi :: "inst \<Rightarrow> bool" where "isPhi I \<longleftrightarrow> i_op I = OPhi"

definition harvest :: "kb_ops \<Rightarrow> func \<Rightarrow> range_map \<Rightarrow> argument \<Rightarrow> known_fact option" where
  "harvest K parent_fn ranges a =
     (if arg_name a = [] then None
      else case findValueByName (arg_name a) parent_fn of None \<Rightarrow> None
      | Some parent_val \<Rightarrow>
      (case ranges parent_val of None \<Rightarrow> None
      | Some r \<Rightarrow>
        let kf = fact_of_range K (arg_name a) r in
        if fact_empty K kf then None
        else (case collectBackwardSlice (arg_name a) parent_fn of None \<Rightarrow> None
              | Some sl \<Rightarrow> if list_ex isPhi (sl_insts sl) then None else Some (kf\<lparr>kf_slice := sl\<rparr>))))"

definition factByName :: "known_fact list \<Rightarrow> string \<Rightarrow> known_fact option" where
  "factByName fs n = find (\<lambda>kf. kf_name kf = n) fs"

fun operand_keys :: "func \<Rightarrow> known_fact list \<Rightarrow> val list \<Rightarrow> (operand_key list \<times> ty list) option" where
  "operand_keys fn fs [] = Some ([], [])"
| "operand_keys fn fs (V # Vs) =
     (let k = keyForOperand fn V in
      if \<not> k_is_const k \<and> (k_name k = [] \<or> factByName fs (k_name k) = None) then None
      else map_option (\<lambda>(ks, ts). (k # ks, val_ty fn V # ts)) (operand_keys fn fs Vs))"

definition operand_range :: "kb_ops \<Rightarrow> func \<Rightarrow> inst \<Rightarrow> known_fact list \<Rightarrow> nat \<Rightarrow> known_range" where
  "operand_range K fn T fs i = (if i < length (i_ops T) then rangeForOperand K fn (i_ops T ! i) fs else empty_range)"

text \<open>The obligations one instruction of the target gives, with operand types and result width.\<close>

definition inst_obligations ::
  "kb_ops \<Rightarrow> kb_query \<Rightarrow> tv_unit \<Rightarrow> known_fact list \<Rightarrow> inst \<Rightarrow> (flag_obligation \<times> ty list \<times> nat) list" where
  "inst_obligations K Q unit fs T =
     (case findStructuralMatch (u_tgt unit) T (u_src unit) of None \<Rightarrow> []
      | Some S \<Rightarrow>
        let added = collectAddedFlags T S in
        if added = [] then []
        else (case operand_keys (u_tgt unit) fs (i_ops T) of None \<Rightarrow> []
              | Some (keys, tys) \<Rightarrow>
                let result_bw = int_width (i_ty T) in
                if result_bw = 0 then []
                else map (\<lambda>fk. (\<lparr>ob_inst = T, ob_kind = fk, op_keys = keys\<rparr>, tys, result_bw))
                       (filter (\<lambda>fk. canProveSafe Q fk (operand_range K (u_tgt unit) T fs 0)
                                       (operand_range K (u_tgt unit) T fs 1) result_bw) added)))"

definition collectFromParent :: "kb_ops \<Rightarrow> kb_query \<Rightarrow> tv_unit \<Rightarrow> func \<Rightarrow> per_side_facts" where
  "collectFromParent K Q unit parent_fn =
     (let ranges = parent_ranges K parent_fn;
          fs = List.map_filter (harvest K parent_fn ranges) (f_args (u_src unit));
          obs = concat (map (inst_obligations K Q unit fs) (all_insts (u_tgt unit)))
      in \<lparr>facts = fs, obligations = map fst obs, ob_op_tys = map (fst \<circ> snd) obs, ob_result_bws = map (snd \<circ> snd) obs\<rparr>)"

section \<open>Injection\<close>

definition next_id :: "func \<Rightarrow> nat" where
  "next_id fn = fold (\<lambda>I n. max (Suc (i_id I)) n) (all_insts fn) 0"

definition symbols :: "func \<Rightarrow> string list" where
  "symbols fn = filter (\<lambda>nm. nm \<noteq> []) (map arg_name (f_args fn) @ map i_name (all_insts fn))"

text \<open>A builder whose insertion point is the beginning of the entry block.\<close>

definition at_entry :: "(builder, unit) state \<Rightarrow> func \<Rightarrow> func" where
  "at_entry m fn =
     (case f_blocks fn of
        [] \<Rightarrow> fn
      | entry # rest \<Rightarrow>
          fn\<lparr>f_blocks := (b_insts (snd (run_state m \<lparr>b_next = next_id fn, b_insts = [], b_names = symbols fn\<rparr>)) @ entry)
               # rest\<rparr>)"

definition create_assume :: "llvm_api \<Rightarrow> val \<Rightarrow> (builder, unit) state" where
  "create_assume L c = State (\<lambda>b. ((), snd (insert_inst L OAssume VoidTy [c] [] b)))"

definition assume_claim :: "llvm_api \<Rightarrow> (builder, val option) state \<Rightarrow> (builder, unit) state" where
  "assume_claim L m =
     do { r \<leftarrow> m; case r of None \<Rightarrow> State_Monad.return () | Some c \<Rightarrow> create_assume L c }"

definition injectFactAssumes :: "llvm_api \<Rightarrow> kb_ops \<Rightarrow> known_fact \<Rightarrow> func \<Rightarrow> func" where
  "injectFactAssumes L K kf fn =
     (if fact_empty K kf then fn
      else case findArgByName fn (kf_name kf) of None \<Rightarrow> fn
      | Some n \<Rightarrow> at_entry (assume_claim L (buildFactPredicate L K (arg_ty (f_args fn ! n)) (ArgV n) kf)) fn)"

definition resolveKeyInFn :: "func \<Rightarrow> operand_key \<Rightarrow> val option" where
  "resolveKeyInFn fn k =
     (if k_is_const k then Some (ConstInt (const_val k)) else map_option ArgV (findArgByName fn (k_name k)))"

definition first_ty :: "ty list \<Rightarrow> ty" where
  "first_ty ts = (case ts of [] \<Rightarrow> VoidTy | t # _ \<Rightarrow> t)"

definition injectObligationAssume :: "llvm_api \<Rightarrow> flag_obligation \<Rightarrow> func \<Rightarrow> func" where
  "injectObligationAssume L ob fn =
     (case those (map (resolveKeyInFn fn) (op_keys ob)) of None \<Rightarrow> fn
      | Some ops \<Rightarrow> at_entry (assume_claim L (buildFlagClaim L (ob_kind ob) (first_ty (map (val_ty fn) ops)) ops)) fn)"

section \<open>The check unit\<close>

type_synonym value_map = "val \<Rightarrow> val option"

definition union_args :: "known_fact list \<Rightarrow> nat list" where
  "union_args fs = sorted_list_of_set (\<Union>kf \<in> set fs. set (arg_roots (kf_slice kf)))"

text \<open>The parameters of the check are the arguments \<open>all_args\<close> of the parent, each assumed not to be poison.\<close>

fun assume_args :: "llvm_api \<Rightarrow> func \<Rightarrow> nat \<Rightarrow> nat list \<Rightarrow> (builder, unit) state" where
  "assume_args L parent i [] = State_Monad.return ()"
| "assume_args L parent i (n # ns) =
     do { pf \<leftarrow> claim_pf L (arg_name (f_args parent ! n)) (arg_ty (f_args parent ! n)) (ArgV i);
          create_assume L pf;
          assume_args L parent (Suc i) ns }"

definition map_operand :: "value_map \<Rightarrow> val \<Rightarrow> val" where
  "map_operand vmap V = (case vmap V of None \<Rightarrow> V | Some V' \<Rightarrow> V')"

definition insert_clone :: "llvm_api \<Rightarrow> value_map \<Rightarrow> inst \<Rightarrow> (builder, val) state" where
  "insert_clone L vmap I =
     State (\<lambda>b. let nm = pick_name L (b_names b) (i_name I) in
       (InstV (b_next b),
        b\<lparr>b_next := Suc (b_next b),
          b_insts := b_insts b @ [I\<lparr>i_id := b_next b, i_name := nm, i_ops := map (map_operand vmap) (i_ops I)\<rparr>],
          b_names := (if nm = [] then b_names b else nm # b_names b)\<rparr>))"

fun clone_slice :: "llvm_api \<Rightarrow> nat set \<Rightarrow> inst list \<Rightarrow> value_map \<Rightarrow> (builder, value_map) state" where
  "clone_slice L inst_set [] vmap = State_Monad.return vmap"
| "clone_slice L inst_set (I # Is) vmap =
     (if i_id I \<notin> inst_set then clone_slice L inst_set Is vmap
      else do { V \<leftarrow> insert_clone L vmap I; clone_slice L inst_set Is (vmap(InstV (i_id I) \<mapsto> V)) })"

definition mapped_value :: "func \<Rightarrow> value_map \<Rightarrow> string \<Rightarrow> (val \<times> ty) option" where
  "mapped_value parent vmap name =
     (case findValueByName name parent of None \<Rightarrow> None
      | Some parent_val \<Rightarrow> map_option (\<lambda>V. (V, val_ty parent parent_val)) (vmap parent_val))"

definition andInOpt :: "llvm_api \<Rightarrow> val option \<Rightarrow> val option \<Rightarrow> (builder, val option) state" where
  "andInOpt L result p = (case p of None \<Rightarrow> State_Monad.return result | Some q \<Rightarrow> andIn L ''all'' result q)"

fun fact_claims :: "llvm_api \<Rightarrow> kb_ops \<Rightarrow> func \<Rightarrow> value_map \<Rightarrow> known_fact list \<Rightarrow> val option \<Rightarrow> (builder, val option) state"
where
  "fact_claims L K parent vmap [] result = State_Monad.return result"
| "fact_claims L K parent vmap (kf # kfs) result =
     (case mapped_value parent vmap (kf_name kf) of
        None \<Rightarrow> fact_claims L K parent vmap kfs result
      | Some (V, t) \<Rightarrow>
          do { p \<leftarrow> buildFactPredicate L K t V kf; r \<leftarrow> andInOpt L result p; fact_claims L K parent vmap kfs r })"

definition check_operand :: "func \<Rightarrow> value_map \<Rightarrow> operand_key \<times> ty \<Rightarrow> (val \<times> ty) option" where
  "check_operand parent vmap kt =
     (if k_is_const (fst kt) then Some (ConstInt (const_val (fst kt)), snd kt)
      else mapped_value parent vmap (k_name (fst kt)))"

fun obligation_claims ::
  "llvm_api \<Rightarrow> func \<Rightarrow> value_map \<Rightarrow> (flag_obligation \<times> ty list) list \<Rightarrow> val option \<Rightarrow> (builder, val option) state"
where
  "obligation_claims L parent vmap [] result = State_Monad.return result"
| "obligation_claims L parent vmap ((ob, tys) # obs) result =
     (case those (map (check_operand parent vmap) (zip (op_keys ob) tys)) of
        None \<Rightarrow> obligation_claims L parent vmap obs result
      | Some ops \<Rightarrow>
          do { p \<leftarrow> buildFlagClaim L (ob_kind ob) (first_ty (map snd ops)) (map fst ops);
               r \<leftarrow> andInOpt L result p;
               obligation_claims L parent vmap obs r })"

definition check_tgt_body :: "llvm_api \<Rightarrow> kb_ops \<Rightarrow> per_side_facts \<Rightarrow> func \<Rightarrow> nat list \<Rightarrow> (builder, val option) state" where
  "check_tgt_body L K side parent all_args =
     do { assume_args L parent 0 all_args;
          vmap \<leftarrow> clone_slice L (\<Union>kf \<in> set (facts side). set (map i_id (sl_insts (kf_slice kf)))) (all_insts parent)
                   (\<lambda>V. case V of ArgV n \<Rightarrow> map_option ArgV (find (\<lambda>i. all_args ! i = n) [0..<length all_args]) | _ \<Rightarrow> None);
          r \<leftarrow> fact_claims L K parent vmap (facts side) None;
          obligation_claims L parent vmap (zip (obligations side) (ob_op_tys side)) r }"

definition check_func :: "string \<Rightarrow> argument list \<Rightarrow> (builder, val) state \<Rightarrow> func" where
  "check_func nm args m =
     (case run_state m \<lparr>b_next = 0, b_insts = [], b_names = filter (\<lambda>nm. nm \<noteq> []) (map arg_name args)\<rparr> of
        (v, b) \<Rightarrow> \<lparr>f_name = nm, f_args = args, f_blocks = [b_insts b @ [ret_inst (b_next b) v]]\<rparr>)"

definition const_true :: val where "const_true = ConstInt (mk 1 1)"

definition buildCombinedFactCheck :: "llvm_api \<Rightarrow> kb_ops \<Rightarrow> per_side_facts \<Rightarrow> func \<Rightarrow> string \<Rightarrow> tv_unit" where
  "buildCombinedFactCheck L K side parent_fn diag_name =
     (let all_args = union_args (facts side); args = map (\<lambda>n. f_args parent_fn ! n) all_args in
      \<lparr>u_name = diag_name,
       u_src = check_func ''src'' args (do { assume_args L parent_fn 0 all_args; State_Monad.return const_true }),
       u_tgt = check_func ''tgt'' args
         (do { r \<leftarrow> check_tgt_body L K side parent_fn all_args;
               State_Monad.return (case r of None \<Rightarrow> const_true | Some v \<Rightarrow> v) })\<rparr>)"

section \<open>The proposer\<close>

definition inject_both :: "(func \<Rightarrow> func) \<Rightarrow> func \<times> func \<Rightarrow> func \<times> func" where
  "inject_both g p = (g (fst p), g (snd p))"

definition injectFromSide :: "llvm_api \<Rightarrow> kb_ops \<Rightarrow> per_side_facts \<Rightarrow> func \<times> func \<Rightarrow> func \<times> func" where
  "injectFromSide L K side p =
     fold (\<lambda>ob. inject_both (injectObligationAssume L ob)) (obligations side)
       (fold (\<lambda>kf. inject_both (injectFactAssumes L K kf)) (facts side) p)"

definition proposeFromRanges ::
  "llvm_api \<Rightarrow> kb_ops \<Rightarrow> kb_query \<Rightarrow> tv_unit \<Rightarrow> func \<Rightarrow> func \<Rightarrow> assumed_tv_unit option" where
  "proposeFromRanges L K Q unit parent_src parent_tgt =
     (let src_side = collectFromParent K Q unit parent_src; tgt_side = collectFromParent K Q unit parent_tgt in
      if side_empty src_side \<and> side_empty tgt_side then None
      else
        case injectFromSide L K tgt_side (injectFromSide L K src_side (u_src unit, u_tgt unit)) of
          (s, t) \<Rightarrow>
            Some \<lparr>modified_unit = \<lparr>u_name = u_name unit @ ''.range-assume'', u_src = s, u_tgt = t\<rparr>,
                  assume_checks =
                    (if side_empty src_side then []
                     else [buildCombinedFactCheck L K src_side parent_src (u_name unit @ ''.src-assume-check'')]) @
                    (if side_empty tgt_side then []
                     else [buildCombinedFactCheck L K tgt_side parent_tgt (u_name unit @ ''.tgt-assume-check'')]),
                  a_proposer = ''FromRanges''\<rparr>)"

type_synonym assume_proposer = "tv_unit \<Rightarrow> func \<Rightarrow> func \<Rightarrow> assumed_tv_unit option"

definition kPatterns :: "assume_proposer list" where "kPatterns = []"

fun first_match :: "assume_proposer list \<Rightarrow> assume_proposer" where
  "first_match [] unit s t = None"
| "first_match (p # ps) unit s t = (case p unit s t of Some r \<Rightarrow> Some r | None \<Rightarrow> first_match ps unit s t)"

definition proposeAssume :: "llvm_api \<Rightarrow> kb_ops \<Rightarrow> kb_query \<Rightarrow> assume_proposer" where
  "proposeAssume L K Q unit parent_src parent_tgt =
     (case first_match kPatterns unit parent_src parent_tgt of
        Some r \<Rightarrow> Some r
      | None \<Rightarrow> proposeFromRanges L K Q unit parent_src parent_tgt)"

end
