(* ===== verification/Inject.thy ===== *)
theory Inject
  imports Proposer
begin

text \<open>
  What the injected assumptions of the proposer do to a unit: the emitted code reads only values that
  exist, and assuming a condition at the entry of a function keeps its behaviour where the condition
  holds and makes it undefined where it does not. The locale \<open>injector\<close> is this contract; it is
  interpreted for a fact, an obligation and all claims of one parent.
\<close>

section \<open>Emitted code reads only what exists\<close>

definition tidy_builder :: "builder \<Rightarrow> bool" where
  "tidy_builder b \<longleftrightarrow> (\<forall>I \<in> set (b_insts b). i_id I < b_next b \<and> list_all (old (i_id I)) (i_ops I))"

text \<open>\<open>tidy n m R\<close>: from a builder with numbers from \<open>n\<close> on, \<open>m\<close> keeps the builder tidy and returns a
  result that satisfies \<open>R\<close> at the new number.\<close>

definition tidy :: "nat \<Rightarrow> (builder, 'a) state \<Rightarrow> (nat \<Rightarrow> 'a \<Rightarrow> bool) \<Rightarrow> bool" where
  "tidy n m R \<longleftrightarrow> (\<forall>b. n \<le> b_next b \<longrightarrow> tidy_builder b \<longrightarrow>
     tidy_builder (snd (run_state m b)) \<and> b_next b \<le> b_next (snd (run_state m b)) \<and>
     R (b_next (snd (run_state m b))) (fst (run_state m b)))"

definition fold_constant :: "llvm_api \<Rightarrow> bool" where
  "fold_constant L \<longleftrightarrow> (\<forall>oc t ops V. const_fold L oc t ops = Some V \<longrightarrow> isConstant V)"

lemma fold_ok_constant: "fold_ok L \<Longrightarrow> fold_constant L"
  using const_env_start unfolding fold_ok_def fold_constant_def by blast

named_theorems tidy

lemma tidy_return [tidy]: "(\<And>k. n \<le> k \<Longrightarrow> R k V) \<Longrightarrow> tidy n (State_Monad.return V) R"
  by (simp add: tidy_def)

lemma tidy_bind:
  "tidy n m R \<Longrightarrow> (\<And>V k. n \<le> k \<Longrightarrow> R k V \<Longrightarrow> tidy k (f V) R') \<Longrightarrow> tidy n (State_Monad.bind m f) R'"
  unfolding tidy_def run_state_bind case_prod_beta by (meson le_refl le_trans)

lemmas tidy_bind_val [tidy] = tidy_bind [where R = old]
lemmas tidy_bind_unit [tidy] = tidy_bind [where R = "\<lambda>_ (_::unit). True"]

lemma tidy_map [tidy]: "tidy n m (\<lambda>k V. R k (f V)) \<Longrightarrow> tidy n (map_state f m) R"
  by (simp add: tidy_def run_map_state case_prod_beta)

lemma tidy_if [tidy]: "tidy n m R \<Longrightarrow> tidy n m' R \<Longrightarrow> tidy n (if c then m else m') R"
  by simp

lemma tidy_mono: "tidy n m R \<Longrightarrow> n \<le> k \<Longrightarrow> (\<And>i V. R i V \<Longrightarrow> R' i V) \<Longrightarrow> tidy k m R'"
  unfolding tidy_def by (meson le_trans)

lemma tidy_builder_snoc:
  "tidy_builder b \<Longrightarrow> list_all (old (b_next b)) (i_ops I) \<Longrightarrow> i_id I = b_next b \<Longrightarrow>
     tidy_builder (b\<lparr>b_next := Suc (b_next b), b_insts := b_insts b @ [I], b_names := nms\<rparr>)"
  by (fastforce simp: tidy_builder_def list_all_iff intro: old_mono)

lemma list_all_old_mono: "list_all (old n) ops \<Longrightarrow> n \<le> k \<Longrightarrow> list_all (old k) ops"
  by (auto simp: list_all_iff intro: old_mono)

lemma tidy_insert:
  "list_all (old n) ops \<Longrightarrow> tidy n (State (insert_inst L oc t ops nm)) old"
  unfolding tidy_def insert_inst_def Let_def
  using tidy_builder_snoc [of _ "mk_inst _ _ oc t ops"] list_all_old_mono [of n ops] by simp

lemma tidy_create [tidy]:
  "fold_constant L \<Longrightarrow> list_all (old n) ops \<Longrightarrow> tidy n (create L oc t ops nm) old"
  using tidy_insert [of n ops] by (auto simp: tidy_def create_def fold_constant_def split: option.splits)

lemma tidy_create_assume [tidy]: "old n C \<Longrightarrow> tidy n (create_assume L C) (\<lambda>_ _. True)"
  using tidy_insert [of n "[C]"] by (simp add: tidy_def create_assume_def)

abbreviation old_opt :: "nat \<Rightarrow> val option \<Rightarrow> bool" where
  "old_opt k r \<equiv> (\<forall>V. r = Some V \<longrightarrow> old k V)"

lemma old_opt_mono: "old_opt n r \<Longrightarrow> n \<le> k \<Longrightarrow> old_opt k r"
  by (auto intro: old_mono)

lemma tidy_andIn [tidy]:
  "fold_constant L \<Longrightarrow> old_opt n r \<Longrightarrow> old n p \<Longrightarrow> tidy n (andIn L nm r p) old_opt"
  unfolding andIn_def by (auto split: option.splits intro!: tidy intro: old_mono)

lemma tidy_claims [tidy]:
  assumes "fold_constant L" "old n v"
  shows "tidy n (claim_u L nm v lo hi) old" "tidy n (claim_s L nm v lo hi) old"
    "tidy n (claim_pf L nm t v) old" "tidy n (claim_bits L nm t v k) old"
  unfolding claim_u_def claim_s_def claim_pf_def claim_bits_def using assms
  by (intro tidy; auto intro: old_mono)+


lemmas tidy_bind_opt [tidy] = tidy_bind [where R = old_opt]

lemma tidy_option: "tidy n m R \<Longrightarrow> (\<And>x. z = Some x \<Longrightarrow> tidy n (f x) R) \<Longrightarrow> tidy n (case z of None \<Rightarrow> m | Some x \<Rightarrow> f x) R"
  by (cases z) simp_all

lemma tidy_prod: "(\<And>x y. tidy n (g x y) R) \<Longrightarrow> tidy n (case p of (x, y) \<Rightarrow> g x y) R"
  by (cases p) simp

lemma tidy_buildFactPredicate [tidy]:
  assumes "fold_constant L" "old n v"
  shows "tidy n (buildFactPredicate L K t v kf) old_opt"
  unfolding buildFactPredicate_def Let_def using assms
  by (intro tidy tidy_option tidy_prod; auto intro: old_mono)

lemma tidy_flag_parts [tidy]:
  assumes "fold_constant L" "old n a" "old n b"
  shows "tidy n (buildOvfClaim L i a b) old" "tidy n (round_trip L t x y a b) old"
  unfolding buildOvfClaim_def round_trip_def using assms by (intro tidy; auto intro: old_mono)+

lemma tidy_Some: "tidy n m old \<Longrightarrow> tidy n (map_state Some m) old_opt"
  by (rule tidy_map) (erule tidy_mono, auto)

lemma tidy_buildFlagClaim [tidy]:
  assumes "fold_constant L" "list_all (old n) ops"
  shows "tidy n (buildFlagClaim L k t ops) old_opt"
proof -
  have *: "tidy n (map_state Some (create L oc t' ops' nm)) old_opt" if "list_all (old n) ops'" for oc t' ops' nm
    using that assms(1) by (intro tidy_Some tidy)
  have o: "tidy n (map_state Some (do { z \<leftarrow> create L (OBin And) t [a, b] []; create L (OICmp EQ) (IntTy 1) [z, ConstInt c] [] })) old_opt"
    if "old n a" "old n b" for a b c
    using that assms(1) by (intro tidy_Some tidy; auto intro: old_mono)
  have r: "tidy n (State_Monad.return None) old_opt" by (rule tidy_return) simp
  have p: "tidy n (map_state Some (buildOvfClaim L i a b)) old_opt" "tidy n (map_state Some (round_trip L t' x y a b)) old_opt"
    if "old n a" "old n b" for i a b t' x y
    by (intro tidy_Some tidy_flag_parts that assms(1))+
  consider "ops = []" | a where "ops = [a]" | a b where "ops = [a, b]" | a b c xs where "ops = a # b # c # xs"
    by (metis list.exhaust)
  then show ?thesis
    using assms(2) * o r p by cases (cases k; simp add: buildFlagClaim_def)+
qed

lemma tidy_assume_claim [tidy]: "tidy n m old_opt \<Longrightarrow> tidy n (assume_claim L m) (\<lambda>_ _. True)"
  unfolding assume_claim_def
  by (rule tidy_bind_opt) (auto split: option.splits intro!: tidy_return tidy_create_assume)


section \<open>Results of a function\<close>

text \<open>The results of a function of one block that returns a value: one for every run, none where the behaviour
  is undefined.\<close>

definition func_results :: "func \<Rightarrow> state_value list \<Rightarrow> state_value set" where
  "func_results fn args =
     (case f_blocks fn of
        [bb] \<Rightarrow>
          (if bb = [] then {}
           else case (i_op (last bb), i_ops (last bb)) of
                  (OTerm _, [v]) \<Rightarrow> {r. \<exists>\<rho>. run (start_env args) (butlast bb) \<rho> \<and> r = \<rho> v}
                | _ \<Rightarrow> {})
      | _ \<Rightarrow> {})"

text \<open>Such a function behaves at the given arguments if its code cannot go wrong.\<close>

definition func_safe :: "func \<Rightarrow> state_value list \<Rightarrow> bool" where
  "func_safe fn args =
     (case f_blocks fn of
        [bb] \<Rightarrow>
          (if bb = [] then False
           else case (i_op (last bb), i_ops (last bb)) of
                  (OTerm _, [v]) \<Rightarrow> safe (start_env args) (butlast bb)
                | _ \<Rightarrow> False)
      | _ \<Rightarrow> False)"

text \<open>Every instruction reads instructions with smaller numbers only.\<close>

definition ordered_code :: "inst list \<Rightarrow> bool" where
  "ordered_code Is \<longleftrightarrow> (\<forall>I \<in> set Is. list_all (old (i_id I)) (i_ops I))"

lemma inst_sem_cong:
  assumes "\<forall>V \<in> set (i_ops I). \<sigma> V = \<rho> V"
  shows "inst_defined \<sigma> I = inst_defined \<rho> I" "inst_result \<sigma> I v = inst_result \<rho> I v"
  using assms by (auto simp: inst_defined_def inst_result.simps split: opcode.splits list.splits)

lemma run_frame:
  "run \<rho> Is \<rho>' \<Longrightarrow> frame n \<rho> \<sigma> \<Longrightarrow> \<forall>I \<in> set Is. i_id I < n \<Longrightarrow> ordered_code Is \<Longrightarrow> \<exists>\<sigma>'. run \<sigma> Is \<sigma>' \<and> frame n \<rho>' \<sigma>'"
proof (induction arbitrary: \<sigma> rule: run.induct)
  case (run_Cons \<rho> I v Is \<rho>')
  have "\<sigma> V = \<rho> V" if "V \<in> set (i_ops I)" for V
  proof -
    have "old (i_id I) V" "i_id I < n" using that run_Cons.prems(2,3) by (simp_all add: ordered_code_def list_all_iff)
    then show ?thesis using frameD [OF run_Cons.prems(1)] old_mono [of "i_id I" V n] by simp
  qed
  then have same: "inst_defined \<sigma> I" "inst_result \<sigma> I v"
    using inst_sem_cong [of I \<sigma> \<rho>] run_Cons.hyps(1,2) by blast+
  have "frame n (\<rho>(InstV (i_id I) := v)) (\<sigma>(InstV (i_id I) := v))"
    using run_Cons.prems(1) by (simp add: frame_def)
  moreover have "\<forall>J \<in> set Is. i_id J < n" "ordered_code Is" using run_Cons.prems(2,3) by (simp_all add: ordered_code_def)
  ultimately obtain \<sigma>' where "run (\<sigma>(InstV (i_id I) := v)) Is \<sigma>'" "frame n \<rho>' \<sigma>'" using run_Cons.IH by blast
  then show ?case using run.run_Cons [OF same run_Cons.hyps(3)] by blast
qed (auto intro: run.run_Nil)

lemma frame_sym: "frame n \<rho> \<sigma> \<Longrightarrow> frame n \<sigma> \<rho>"
  by (simp add: frame_def)

lemma safe_frame: "frame n \<rho> \<sigma> \<Longrightarrow> \<forall>I \<in> set Is. i_id I < n \<Longrightarrow> ordered_code Is \<Longrightarrow> safe \<rho> Is = safe \<sigma> Is"
proof (induction Is arbitrary: \<rho> \<sigma>)
  case (Cons I Is)
  have "\<sigma> V = \<rho> V" if "V \<in> set (i_ops I)" for V
  proof -
    have "old (i_id I) V" "i_id I < n" using that Cons.prems(2,3) by (simp_all add: ordered_code_def list_all_iff)
    then show ?thesis using frameD [OF Cons.prems(1)] old_mono [of "i_id I" V n] by simp
  qed
  then have same: "inst_defined \<sigma> I = inst_defined \<rho> I" "steps_to \<sigma> I = steps_to \<rho> I"
    using inst_sem_cong [of I \<sigma> \<rho>] by (simp_all add: steps_to_def fun_eq_iff)
  have "safe (\<rho>(InstV (i_id I) := v)) Is = safe (\<sigma>(InstV (i_id I) := v)) Is" for v
    by (rule Cons.IH) (use Cons.prems in \<open>simp_all add: frame_def ordered_code_def\<close>)
  then show ?case by (simp add: same)
qed simp

lemma fold_max_ge: "(n::nat) \<le> fold (\<lambda>I n. max (Suc (g I)) n) xs n \<and> (\<forall>x \<in> set xs. g x < fold (\<lambda>I n. max (Suc (g I)) n) xs n)"
proof (induction xs arbitrary: n)
  case (Cons x xs)
  show ?case using Cons.IH [of "max (Suc (g x)) n"] by simp
qed simp

lemma next_id_gt: "I \<in> set (all_insts fn) \<Longrightarrow> i_id I < next_id fn"
  using fold_max_ge [of 0 i_id "all_insts fn"] by (simp add: next_id_def)

definition entry_builder :: "func \<Rightarrow> builder" where
  "entry_builder fn = \<lparr>b_next = next_id fn, b_insts = [], b_names = symbols fn\<rparr>"

definition returns :: "func \<Rightarrow> inst list \<Rightarrow> val \<Rightarrow> bool" where
  "returns fn bb v \<longleftrightarrow> (\<exists>I t. f_blocks fn = [bb @ [I]] \<and> i_op I = OTerm t \<and> i_ops I = [v] \<and> ordered_code (bb @ [I]))"

lemma func_results_returns:
  "returns fn bb v \<Longrightarrow> func_results fn args = {r. \<exists>\<rho>. run (start_env args) bb \<rho> \<and> r = \<rho> v}"
  by (auto simp: returns_def func_results_def)

lemma func_safe_returns: "returns fn bb v \<Longrightarrow> func_safe fn args = safe (start_env args) bb"
  by (auto simp: returns_def func_safe_def)

lemma at_entry_args [simp]: "f_args (at_entry m fn) = f_args fn"
  by (simp add: at_entry_def split: list.splits)

lemma at_entry_returns:
  assumes r: "returns fn bb v" and t: "tidy (next_id fn) m R"
  shows "returns (at_entry m fn) (b_insts (snd (run_state m (entry_builder fn))) @ bb) v"
proof -
  have "tidy_builder (entry_builder fn)" "next_id fn \<le> b_next (entry_builder fn)"
    by (simp_all add: tidy_builder_def entry_builder_def)
  then have "tidy_builder (snd (run_state m (entry_builder fn)))" using t by (simp add: tidy_def)
  then show ?thesis using r
    by (auto simp: returns_def at_entry_def entry_builder_def tidy_builder_def ordered_code_def)
qed

lemma returns_old:
  assumes "returns fn bb v"
  shows "\<forall>I \<in> set bb. i_id I < next_id fn" "ordered_code bb" "old (next_id fn) v"
proof -
  obtain I where I: "f_blocks fn = [bb @ [I]]" "i_ops I = [v]" "ordered_code (bb @ [I])"
    using assms by (auto simp: returns_def)
  have lt: "i_id J < next_id fn" if "J \<in> set (bb @ [I])" for J
    using that by (intro next_id_gt) (simp add: all_insts_def I)
  show "\<forall>I \<in> set bb. i_id I < next_id fn" "ordered_code bb" using lt I(3) by (simp_all add: ordered_code_def)
  show "old (next_id fn) v" using lt [of I] I(2,3) old_mono [of "i_id I" v "next_id fn"] by (simp add: ordered_code_def)
qed

text \<open>
  A function that behaves like another where a condition holds and is undefined elsewhere. A condition emitted at the entry
  and assumed makes it one.
\<close>

definition restricted :: "bool \<Rightarrow> func \<Rightarrow> func \<Rightarrow> state_value list \<Rightarrow> bool" where
  "restricted P fn' fn args \<longleftrightarrow> func_results fn' args = (if P then func_results fn args else {}) \<and>
     (func_safe fn' args \<longleftrightarrow> P \<and> func_safe fn args)"

lemma restricted_True [simp]: "restricted True fn fn args"
  by (simp add: restricted_def)

lemma restricted_trans: "restricted P fn' fn args \<Longrightarrow> restricted Q fn'' fn' args \<Longrightarrow> restricted (P \<and> Q) fn'' fn args"
  by (auto simp: restricted_def)

lemma at_entry_results:
  assumes r: "returns fn bb v" and t: "tidy (next_id fn) m R"
    and m: "emits P m (entry_builder fn) (start_env args) (\<lambda>_ _ _. P)"
  shows "restricted P (at_entry m fn) fn args"
proof -
  let ?\<rho> = "start_env args" and ?N = "next_id fn" let ?new = "b_insts (snd (run_state m (entry_builder fn)))"
  have sf: "P \<longrightarrow> safe ?\<rho> ?new" and fr: "\<And>\<rho>'. run ?\<rho> ?new \<rho>' \<Longrightarrow> frame ?N ?\<rho> \<rho>' \<and> P"
    using m unfolding emits_def extends_def entry_builder_def by auto
  have new: "P \<longrightarrow> (\<exists>\<rho>'. run ?\<rho> ?new \<rho>')" "\<And>\<rho>'. run ?\<rho> ?new \<rho>' \<Longrightarrow> frame ?N ?\<rho> \<rho>' \<and> P"
    using sf safe_run fr by blast+
  note old = returns_old [OF r]
  note frun = run_frame [OF _ _ old(1,2)]
  have "(\<exists>\<sigma>. run ?\<rho> (?new @ bb) \<sigma> \<and> x = \<sigma> v) \<longleftrightarrow> P \<and> (\<exists>\<rho>'. run ?\<rho> bb \<rho>' \<and> x = \<rho>' v)" for x
  proof
    assume "\<exists>\<sigma>. run ?\<rho> (?new @ bb) \<sigma> \<and> x = \<sigma> v"
    then obtain \<rho>1 \<sigma> where s: "run ?\<rho> ?new \<rho>1" "run \<rho>1 bb \<sigma>" "x = \<sigma> v" by (auto simp: run_append)
    then show "P \<and> (\<exists>\<rho>'. run ?\<rho> bb \<rho>' \<and> x = \<rho>' v)"
      using frun [OF s(2) frame_sym] new(2) frameD [OF _ old(3)] by metis
  next
    assume "P \<and> (\<exists>\<rho>'. run ?\<rho> bb \<rho>' \<and> x = \<rho>' v)"
    then obtain \<rho>1 \<rho>' where s: "run ?\<rho> ?new \<rho>1" "run ?\<rho> bb \<rho>'" "x = \<rho>' v" using new(1) by blast
    then show "\<exists>\<sigma>. run ?\<rho> (?new @ bb) \<sigma> \<and> x = \<sigma> v"
      using frun [OF s(2)] new(2) frameD [OF _ old(3)] unfolding run_append by metis
  qed
  then have "func_results (at_entry m fn) args = (if P then func_results fn args else {})"
    using func_results_returns [OF r] func_results_returns [OF at_entry_returns [OF r t]] by auto
  moreover have "safe ?\<rho> (?new @ bb) \<longleftrightarrow> P \<and> safe ?\<rho> bb"
    unfolding safe_append using sf safe_run [of ?\<rho> ?new] fr safe_frame [OF _ old(1,2)] by metis
  ultimately show ?thesis
    unfolding restricted_def func_safe_returns [OF r] func_safe_returns [OF at_entry_returns [OF r t]] by simp
qed


section \<open>Injected assumptions\<close>

lemma emits_create_assume:
  assumes "is_claim (b_next b) \<rho> C P"
  shows "emits P (create_assume L C) b \<rho> (\<lambda>_ _ _. P)"
proof -
  obtain I where I: "run_state (create_assume L C) b = ((), snd (insert_inst L OAssume VoidTy [C] [] b))"
      "b_insts (snd (insert_inst L OAssume VoidTy [C] [] b)) = b_insts b @ [I]"
      "b_next (snd (insert_inst L OAssume VoidTy [C] [] b)) = Suc (b_next b)"
      "i_id I = b_next b" "i_op I = OAssume" "i_ops I = [C]" "i_ty I = VoidTy"
    by (simp add: create_assume_def insert_inst_def Let_def mk_inst_def)
  have "sv_value (\<rho> C) = mk 1 0 \<or> sv_value (\<rho> C) = mk 1 1"
    using assms by (intro wf_sv1_cases) (simp add: is_claim_def)
  then have d: "inst_defined \<rho> I \<longleftrightarrow> P"
    using assms by (auto simp: inst_defined_def I is_claim_def true_val_def bv_eq_iff)
  have r: "inst_result \<rho> I v" for v by (simp add: inst_result.simps I)
  have "safe \<rho> [I] \<longleftrightarrow> P" by (auto simp: d r steps_to_def [abs_def] I)
  moreover have "run \<rho> [I] \<rho>' \<longleftrightarrow> P \<and> (\<exists>v. \<rho>' = \<rho>(InstV (b_next b) := v))" for \<rho>'
    by (auto simp: I run_Cons_iff run_Nil_iff d r)
  ultimately show ?thesis unfolding emits_def
    by (intro exI [of _ "()"] exI [of _ "snd (insert_inst L OAssume VoidTy [C] [] b)"] exI [of _ "[I]"])
      (auto simp: I extends_def)
qed

lemma grows_assume [grows]: "grows (create_assume L C)" "grows m \<Longrightarrow> grows (assume_claim L m)"
proof -
  show a: "grows (create_assume L C)" for C
    by (auto simp: grows_def create_assume_def insert_inst_def extends_def mk_inst_def Let_def)
  show "grows m \<Longrightarrow> grows (assume_claim L m)" unfolding assume_claim_def by (intro grows a)
qed

lemma emits_assume_claim:
  assumes "emits P m b \<rho> (\<lambda>r b' \<rho>'. \<exists>C. r = Some C \<and> is_claim (b_next b') \<rho>' C P)"
  shows "emits P (assume_claim L m) b \<rho> (\<lambda>_ _ _. P)"
  unfolding assume_claim_def
proof (rule emits_bind)
  show "emits P m b \<rho> (\<lambda>V b' \<rho>'. emits P (case V of None \<Rightarrow> State_Monad.return () | Some c \<Rightarrow> create_assume L c) b' \<rho>' (\<lambda>_ _ _. P))"
    by (rule emits_mono [OF assms]) (auto intro: emits_create_assume)
qed (auto split: option.splits intro!: grows)

text \<open>What an injected fact and an injected obligation say of the arguments of a function.\<close>

definition fact_true :: "kb_ops \<Rightarrow> func \<Rightarrow> state_value list \<Rightarrow> known_fact \<Rightarrow> bool" where
  "fact_true K fn args kf \<longleftrightarrow>
     fact_empty K kf \<or>
     (case findArgByName fn (kf_name kf) of
        None \<Rightarrow> True
      | Some n \<Rightarrow> non_poison (args ! n) \<and> fact_holds K kf (sv_value (args ! n)))"

definition ob_true :: "func \<Rightarrow> state_value list \<Rightarrow> flag_obligation \<Rightarrow> bool" where
  "ob_true fn args ob \<longleftrightarrow>
     (case those (map (resolveKeyInFn fn) (op_keys ob)) of
        Some [a] \<Rightarrow> flag_claim (ob_kind ob) (start_env args a) (start_env args a)
      | Some [a, b] \<Rightarrow> flag_claim (ob_kind ob) (start_env args a) (start_env args b)
      | _ \<Rightarrow> True)"

text \<open>Arguments of the types of the parameters.\<close>

definition wf_args :: "func \<Rightarrow> state_value list \<Rightarrow> bool" where
  "wf_args fn args \<longleftrightarrow> list_all2 (\<lambda>a x. wf_sv (int_width (arg_ty a)) x) (f_args fn) args"

definition fits_fact :: "func \<Rightarrow> known_fact \<Rightarrow> bool" where
  "fits_fact fn kf \<longleftrightarrow>
     (case findArgByName fn (kf_name kf) of
        None \<Rightarrow> True
      | Some n \<Rightarrow> (\<exists>w. arg_ty (f_args fn ! n) = IntTy w \<and> 0 < w \<and> wf_fact w kf))"

lemma findArgByName_Some: "findArgByName fn nm = Some n \<Longrightarrow> n < length (f_args fn) \<and> arg_name (f_args fn ! n) = nm"
  by (auto simp: findArgByName_def find_Some_iff)

lemma start_env_arg: "wf_args fn args \<Longrightarrow> n < length (f_args fn) \<Longrightarrow>
    start_env args (ArgV n) = args ! n \<and> wf_sv (int_width (arg_ty (f_args fn ! n))) (args ! n)"
  by (auto simp: wf_args_def start_env_def list_all2_conv_all_nth)

lemma injectFact_results:
  assumes L: "fold_ok L" and r: "returns fn bb v" and a: "wf_args fn args" and k: "fits_fact fn kf"
  shows "restricted (fact_true K fn args kf) (injectFactAssumes L K kf fn) fn args \<and>
    (\<exists>bb'. returns (injectFactAssumes L K kf fn) bb' v) \<and> f_args (injectFactAssumes L K kf fn) = f_args fn"
proof (cases "fact_empty K kf \<or> findArgByName fn (kf_name kf) = None")
  case True
  then show ?thesis using r by (auto simp: injectFactAssumes_def fact_true_def)
next
  case False
  then obtain n where n: "findArgByName fn (kf_name kf) = Some n" "\<not> fact_empty K kf" by auto
  then obtain w where w: "arg_ty (f_args fn ! n) = IntTy w" "0 < w" "wf_fact w kf" using k by (auto simp: fits_fact_def)
  have v: "start_env args (ArgV n) = args ! n" "wf_sv w (args ! n)"
    using start_env_arg [OF a conjunct1 [OF findArgByName_Some [OF n(1)]]] w(1) by (simp_all add: int_width_def)
  let ?m = "buildFactPredicate L K (IntTy w) (ArgV n) kf" let ?P = "fact_true K fn args kf"
  have P: "?P \<longleftrightarrow> non_poison (args ! n) \<and> fact_holds K kf (sv_value (args ! n))" using n by (simp add: fact_true_def)
  have V: "val_in (b_next (entry_builder fn)) (start_env args) w (ArgV n) (args ! n)" using v by (simp add: val_in_def)
  have "emits ?P ?m (entry_builder fn) (start_env args) (\<lambda>r b' \<rho>'. \<exists>C. r = Some C \<and> is_claim (b_next b') \<rho>' C ?P)"
    by (rule emits_buildFactPredicate [OF L const_env_start V w(2,3)]) (use n(2) P in \<open>auto split: option.splits\<close>)
  note e = emits_assume_claim [OF this, of L]
  have t: "tidy (next_id fn) (assume_claim L ?m) (\<lambda>_ _. True)"
    using fold_ok_constant [OF L] by (intro tidy_assume_claim tidy_buildFactPredicate) simp_all
  have i: "injectFactAssumes L K kf fn = at_entry (assume_claim L ?m) fn" using n w(1) by (simp add: injectFactAssumes_def)
  show ?thesis unfolding i using at_entry_results [OF r t e] at_entry_returns [OF r t] by auto
qed


definition fits_ob :: "func \<Rightarrow> flag_obligation \<Rightarrow> bool" where
  "fits_ob fn ob \<longleftrightarrow>
     (case those (map (resolveKeyInFn fn) (op_keys ob)) of
        None \<Rightarrow> True
      | Some ops \<Rightarrow> (\<exists>w > 0. \<forall>V \<in> set ops. val_ty fn V = IntTy w \<and> wf_val V) \<and>
                    length ops = (if ob_kind ob = ZExtNNeg then 1 else 2))"

lemma those_Some: "those xs = Some ys \<longleftrightarrow> xs = map Some ys"
proof (induction xs arbitrary: ys)
  case (Cons x xs)
  then show ?case by (cases x; cases ys) (auto simp: Cons)
qed auto

lemma those_in: "those (map g ks) = Some ys \<Longrightarrow> y \<in> set ys \<Longrightarrow> \<exists>k \<in> set ks. g k = Some y"
  unfolding those_Some by (metis imageE imageI set_map)

lemma resolve_old: "resolveKeyInFn fn k = Some V \<Longrightarrow> old n V"
  by (auto simp: resolveKeyInFn_def split: if_splits)

lemma resolved_value:
  assumes "wf_args fn args" "resolveKeyInFn fn k = Some V" "val_ty fn V = IntTy w" "wf_val V" "0 < w"
  shows "val_in n (start_env args) w V (start_env args V) \<and> old n V \<and> wf_sv w (start_env args V)"
proof (cases "k_is_const k")
  case True
  then have "V = ConstInt (const_val k)" using assms(2) by (simp add: resolveKeyInFn_def)
  then show ?thesis using assms(3,4) by (simp add: val_in_def val_ty_def wf_val_def start_env_def wf_sv_def sv_def)
next
  case False
  then obtain i where i: "V = ArgV i" "i < length (f_args fn)"
    using assms(2) findArgByName_Some by (auto simp: resolveKeyInFn_def)
  then show ?thesis using start_env_arg [OF assms(1) i(2)] assms(3) by (simp add: val_in_def val_ty_def int_width_def)
qed

lemma nneg_one_operand: "buildFlagClaim L ZExtNNeg t [a] = buildFlagClaim L ZExtNNeg t [a, a]"
  by (simp add: buildFlagClaim_def)

lemma emits_obligation:
  assumes L: "fold_ok L" and a: "wf_args fn args" and o: "fits_ob fn ob"
    and ops: "those (map (resolveKeyInFn fn) (op_keys ob)) = Some ops"
  shows "emits (ob_true fn args ob) (buildFlagClaim L (ob_kind ob) (first_ty (map (val_ty fn) ops)) ops) b (start_env args)
    (\<lambda>r b' \<rho>'. \<exists>C. r = Some C \<and> is_claim (b_next b') \<rho>' C (ob_true fn args ob))"
proof -
  obtain w where w: "0 < w" "\<forall>V \<in> set ops. val_ty fn V = IntTy w \<and> wf_val V"
      "length ops = (if ob_kind ob = ZExtNNeg then 1 else 2)"
    using o ops by (auto simp: fits_ob_def)
  have V: "val_in (b_next b) (start_env args) w V (start_env args V)" "wf_sv w (start_env args V)" if V: "V \<in> set ops" for V
  proof -
    obtain k where "resolveKeyInFn fn k = Some V" using those_in [OF ops V] by blast
    then show "val_in (b_next b) (start_env args) w V (start_env args V)" "wf_sv w (start_env args V)"
      using resolved_value [OF a] w(1,2) V by blast+
  qed
  have claim: "emits (flag_claim (ob_kind ob) (start_env args x) (start_env args y))
      (buildFlagClaim L (ob_kind ob) (IntTy w) [x, y]) b (start_env args)
      (\<lambda>r b' \<rho>'. \<exists>C. r = Some C \<and> is_claim (b_next b') \<rho>' C (flag_claim (ob_kind ob) (start_env args x) (start_env args y)))"
    if "x \<in> set ops" "y \<in> set ops" for x y
    by (rule emits_buildFlagClaim [OF L const_env_start w(1) V(1) V(1) V(2) V(2), OF that that])
      (auto simp: flag_claim_def flag_defined_def)
  show ?thesis
  proof (cases "ob_kind ob = ZExtNNeg")
    case True
    then obtain x where x: "ops = [x]" using w(3) by (auto simp: length_Suc_conv)
    show ?thesis using claim [of x x] ops w(2) True by (simp add: x ob_true_def first_ty_def nneg_one_operand)
  next
    case False
    then obtain x y where x: "ops = [x, y]" using w(3) by (auto simp: length_Suc_conv numeral_2_eq_2)
    show ?thesis using claim [of x y] ops w(2) by (simp add: x ob_true_def first_ty_def)
  qed
qed

lemma injectObligation_results:
  assumes L: "fold_ok L" and r: "returns fn bb v" and a: "wf_args fn args" and o: "fits_ob fn ob"
  shows "restricted (ob_true fn args ob) (injectObligationAssume L ob fn) fn args \<and>
    (\<exists>bb'. returns (injectObligationAssume L ob fn) bb' v) \<and> f_args (injectObligationAssume L ob fn) = f_args fn"
proof (cases "those (map (resolveKeyInFn fn) (op_keys ob))")
  case None
  then show ?thesis using r by (auto simp: injectObligationAssume_def ob_true_def)
next
  case (Some ops)
  let ?m = "buildFlagClaim L (ob_kind ob) (first_ty (map (val_ty fn) ops)) ops"
  note e = emits_assume_claim [OF emits_obligation [OF L a o Some, of "entry_builder fn"], of L]
  have "list_all (old (next_id fn)) ops"
    unfolding list_all_iff using those_in [OF Some] resolve_old by blast
  then have t: "tidy (next_id fn) (assume_claim L ?m) (\<lambda>_ _. True)"
    using fold_ok_constant [OF L] by (intro tidy_assume_claim tidy_buildFlagClaim)
  have i: "injectObligationAssume L ob fn = at_entry (assume_claim L ?m) fn" using Some by (simp add: injectObligationAssume_def)
  show ?thesis unfolding i using at_entry_results [OF r t e] at_entry_returns [OF r t] by auto
qed


section \<open>All injections\<close>

text \<open>
  The interface of an injection: for a claim \<open>c\<close> that fits the parameters, \<open>inject c\<close> keeps the results
  of a function, and whether it can go wrong, on the arguments that satisfy the claim, and is undefined on all others.
\<close>

locale injector =
  fixes ok :: bool and inject :: "'c \<Rightarrow> func \<Rightarrow> func" and says :: "func \<Rightarrow> state_value list \<Rightarrow> 'c \<Rightarrow> bool" and fits :: "func \<Rightarrow> 'c \<Rightarrow> bool"
  assumes step: "ok \<Longrightarrow> returns fn bb v \<Longrightarrow> wf_args fn args \<Longrightarrow> fits fn c \<Longrightarrow>
      restricted (says fn args c) (inject c fn) fn args \<and>
      (\<exists>bb'. returns (inject c fn) bb' v) \<and> f_args (inject c fn) = f_args fn"
    and params: "f_args fn = f_args fn' \<Longrightarrow> says fn args c = says fn' args c"
      "f_args fn = f_args fn' \<Longrightarrow> fits fn c = fits fn' c"
begin

lemma inject_all:
  "ok \<Longrightarrow> returns fn bb v \<Longrightarrow> wf_args fn args \<Longrightarrow> list_all (fits fn) cs \<Longrightarrow>
     restricted (list_all (says fn args) cs) (fold inject cs fn) fn args \<and>
     (\<exists>bb'. returns (fold inject cs fn) bb' v) \<and> f_args (fold inject cs fn) = f_args fn"
proof (induction cs arbitrary: fn bb)
  case (Cons c cs)
  have "fits fn c" using Cons.prems(4) by simp
  note st = step [OF Cons.prems(1-3) this]
  obtain bb' where s: "returns (inject c fn) bb' v" "f_args (inject c fn) = f_args fn" using st by blast
  have p: "says (inject c fn) args = says fn args" "fits (inject c fn) = fits fn"
    using params [OF s(2)] by (simp_all add: fun_eq_iff)
  have a: "wf_args (inject c fn) args" "list_all (fits (inject c fn)) cs"
    using Cons.prems(3,4) by (simp_all add: wf_args_def s(2) p(2))
  note all = Cons.IH [OF Cons.prems(1) s(1) a, unfolded p]
  have e: "fold inject (c # cs) fn = fold inject cs (inject c fn)" by simp
  show ?case unfolding e list.pred_inject
  proof (intro conjI)
    show "restricted (says fn args c \<and> list_all (says fn args) cs) (fold inject cs (inject c fn)) fn args"
      by (rule restricted_trans [OF conjunct1 [OF st] conjunct1 [OF all]])
  qed (use all s(2) in simp_all)
qed auto

end

lemma find_args_cong: "f_args fn = f_args fn' \<Longrightarrow> findArgByName fn = findArgByName fn'"
  by (simp add: findArgByName_def fun_eq_iff)

lemma resolve_cong: "f_args fn = f_args fn' \<Longrightarrow> resolveKeyInFn fn = resolveKeyInFn fn'"
  using find_args_cong [of fn fn'] by (simp add: resolveKeyInFn_def fun_eq_iff)

interpretation facts: injector "fold_ok L" "injectFactAssumes L K" "fact_true K" fits_fact for L K
proof (unfold_locales, rule injectFact_results)
  fix fn fn' :: func and args kf
  assume e: "f_args fn = f_args fn'"
  show "fact_true K fn args kf = fact_true K fn' args kf" "fits_fact fn kf = fits_fact fn' kf"
    using find_args_cong [OF e] e by (simp_all add: fact_true_def fits_fact_def cong: option.case_cong)
qed

lemma fits_ob_cong:
  assumes e: "f_args fn = f_args fn'"
  shows "fits_ob fn ob = fits_ob fn' ob"
proof -
  have "val_ty fn V = val_ty fn' V" if "resolveKeyInFn fn' k = Some V" for k V
    using that e by (auto simp: resolveKeyInFn_def val_ty_def split: if_splits)
  then have "(\<forall>V \<in> set ops. val_ty fn V = IntTy w \<and> wf_val V) = (\<forall>V \<in> set ops. val_ty fn' V = IntTy w \<and> wf_val V)"
    if "those (map (resolveKeyInFn fn') (op_keys ob)) = Some ops" for ops w
    using those_in [OF that] by metis
  then show ?thesis unfolding fits_ob_def resolve_cong [OF e] by (simp split: option.splits)
qed

interpretation obs: injector "fold_ok L" "injectObligationAssume L" ob_true fits_ob for L
proof (unfold_locales, rule injectObligation_results)
  fix fn fn' :: func and args ob
  assume e: "f_args fn = f_args fn'"
  show "ob_true fn args ob = ob_true fn' args ob" using resolve_cong [OF e] by (simp add: ob_true_def)
  show "fits_ob fn ob = fits_ob fn' ob" by (rule fits_ob_cong [OF e])
qed

text \<open>All claims of one side.\<close>

definition side_true :: "kb_ops \<Rightarrow> func \<Rightarrow> per_side_facts \<Rightarrow> state_value list \<Rightarrow> bool" where
  "side_true K fn side args \<longleftrightarrow> list_all (fact_true K fn args) (facts side) \<and> list_all (ob_true fn args) (obligations side)"

definition side_fits :: "func \<Rightarrow> per_side_facts \<Rightarrow> bool" where
  "side_fits fn side \<longleftrightarrow> list_all (fits_fact fn) (facts side) \<and> list_all (fits_ob fn) (obligations side)"

definition inject_side :: "llvm_api \<Rightarrow> kb_ops \<Rightarrow> per_side_facts \<Rightarrow> func \<Rightarrow> func" where
  "inject_side L K side fn =
     fold (injectObligationAssume L) (obligations side) (fold (injectFactAssumes L K) (facts side) fn)"

lemma side_cong: "f_args fn = f_args fn' \<Longrightarrow> side_true K fn = side_true K fn'" "f_args fn = f_args fn' \<Longrightarrow> side_fits fn = side_fits fn'"
  using facts.params [of fn fn'] obs.params [of fn fn'] by (simp_all add: side_true_def side_fits_def fun_eq_iff list_all_iff)

lemma inject_side_results:
  assumes L: "fold_ok L" and r: "returns fn bb v" and a: "wf_args fn args" and s: "side_fits fn side"
  shows "restricted (side_true K fn side args) (inject_side L K side fn) fn args \<and>
    (\<exists>bb'. returns (inject_side L K side fn) bb' v) \<and> f_args (inject_side L K side fn) = f_args fn"
proof -
  define fn1 where "fn1 = fold (injectFactAssumes L K) (facts side) fn"
  have f: "restricted (list_all (fact_true K fn args) (facts side)) fn1 fn args \<and>
      (\<exists>bb'. returns fn1 bb' v) \<and> f_args fn1 = f_args fn"
    unfolding fn1_def using s by (intro facts.inject_all [OF L r a]) (simp add: side_fits_def)
  then obtain bb' where bb': "returns fn1 bb' v" and e: "f_args fn1 = f_args fn" by blast
  have p: "ob_true fn1 args = ob_true fn args" "fits_ob fn1 = fits_ob fn" using obs.params [OF e] by (simp_all add: fun_eq_iff)
  have a1: "wf_args fn1 args" "list_all (fits_ob fn1) (obligations side)"
    using a s e by (simp_all add: wf_args_def side_fits_def p)
  show ?thesis using obs.inject_all [OF L bb' a1] restricted_trans [OF conjunct1 [OF f]]
    unfolding p inject_side_def fn1_def [symmetric] side_true_def e by blast
qed

interpretation side: injector "fold_ok L" "inject_side L K" "\<lambda>fn args side. side_true K fn side args" side_fits for L K
proof (unfold_locales, rule inject_side_results)
  fix fn fn' :: func and args side
  assume e: "f_args fn = f_args fn'"
  show "side_true K fn side args = side_true K fn' side args" using side_cong(1) [OF e, of K] by simp
  show "side_fits fn side = side_fits fn' side" using side_cong(2) [OF e] by simp
qed

lemma inject_both_fold: "fold (\<lambda>c. inject_both (g c)) cs (s, t) = (fold g cs s, fold g cs t)"
  by (induction cs arbitrary: s t) (simp_all add: inject_both_def)

lemma injectFromSide_eq: "injectFromSide L K side (s, t) = (inject_side L K side s, inject_side L K side t)"
  by (simp add: injectFromSide_def inject_side_def inject_both_fold)

lemma proposeAssume_eq: "proposeAssume L K Q unit s t = proposeFromRanges L K Q unit s t"
  by (simp add: proposeAssume_def kPatterns_def)

text \<open>
  C9 (refinement). The unit with assumptions restricts the inputs and changes nothing else. For claims
  that are well-formed facts and flags about parameters of the unit, source and target of the modified
  unit have the results of the original unit on the arguments on which the claims of both parents
  hold, and no result, so undefined behaviour, on all others.
\<close>

theorem proposal_restricts_inputs:
  assumes "fold_ok L" "proposeAssume L K Q unit parent_src parent_tgt = Some p"
    "fn \<in> {u_src, u_tgt}" "returns (fn unit) bb v" "wf_args (fn unit) args"
    "side_fits (fn unit) (collectFromParent K Q unit parent_src)" "side_fits (fn unit) (collectFromParent K Q unit parent_tgt)"
  shows "func_results (fn (modified_unit p)) args =
    (if side_true K (fn unit) (collectFromParent K Q unit parent_src) args \<and>
        side_true K (fn unit) (collectFromParent K Q unit parent_tgt) args
     then func_results (fn unit) args else {})"
proof -
  let ?s = "collectFromParent K Q unit parent_src" and ?t = "collectFromParent K Q unit parent_tgt"
  have m: "fn (modified_unit p) = fold (inject_side L K) [?s, ?t] (fn unit)"
    using assms(2,3) unfolding proposeAssume_eq proposeFromRanges_def Let_def injectFromSide_eq
    by (auto split: if_splits)
  show ?thesis unfolding m
    using side.inject_all [OF assms(1,4,5), of "[?s, ?t]" K] assms(6,7) by (simp add: restricted_def)
qed


section \<open>A proposal\<close>

text \<open>\<open>%a = and i8 %x, 15; %b = add i8 %a, 3\<close>, where the target adds \<open>nsw\<close>.\<close>

definition w_inst :: "nat \<Rightarrow> string \<Rightarrow> binop \<Rightarrow> bool \<Rightarrow> val list \<Rightarrow> inst" where
  "w_inst n nm op nsw ops = (mk_inst n nm (OBin op) (IntTy 8) ops)\<lparr>i_nsw := nsw\<rparr>"

definition w_parent :: "bool \<Rightarrow> func" where
  "w_parent nsw = \<lparr>f_name = ''f'', f_args = [\<lparr>arg_name = ''x'', arg_ty = IntTy 8\<rparr>],
     f_blocks = [[w_inst 0 ''a'' And False [ArgV 0, ConstInt (mk 8 15)],
                  w_inst 1 ''b'' Add nsw [InstV 0, ConstInt (mk 8 3)], ret_inst 2 (InstV 1)]]\<rparr>"

definition w_half :: "string \<Rightarrow> bool \<Rightarrow> func" where
  "w_half nm nsw = \<lparr>f_name = nm, f_args = [\<lparr>arg_name = ''a'', arg_ty = IntTy 8\<rparr>],
     f_blocks = [[w_inst 0 ''b'' Add nsw [ArgV 0, ConstInt (mk 8 3)], ret_inst 1 (InstV 0)]]\<rparr>"

definition w_unit :: tv_unit where
  "w_unit = \<lparr>u_name = ''u'', u_src = w_half ''src'' False, u_tgt = w_half ''tgt'' True\<rparr>"

definition w_side :: per_side_facts where
  "w_side = \<lparr>facts = [\<lparr>kf_name = ''a'',
       kf_slice = \<lparr>sl_insts = [w_inst 0 ''a'' And False [ArgV 0, ConstInt (mk 8 15)]], arg_roots = [0]\<rparr>,
       u_bound = Some (mk 8 0, mk 8 15), s_bound = Some (mk 8 0, mk 8 15),
       kf_bits = Some (KB (mk 8 240) (mk 8 0)), kf_poison_free = True\<rparr>],
     obligations = [\<lparr>ob_inst = w_inst 0 ''b'' Add True [ArgV 0, ConstInt (mk 8 3)], ob_kind = AddNSW,
       op_keys = [\<lparr>k_name = ''a'', const_val = mk 1 0, k_is_const = False\<rparr>,
                  \<lparr>k_name = [], const_val = mk 8 3, k_is_const = True\<rparr>]\<rparr>],
     ob_op_tys = [[IntTy 8, IntTy 8]], ob_result_bws = [8]\<rparr>"

lemma w_collect:
  "collectFromParent simple_kb simple_query w_unit (w_parent False) = w_side"
  "collectFromParent simple_kb simple_query w_unit (w_parent True) = w_side"
  by code_simp+


lemma w_returns: "returns (w_half nm nsw) [w_inst 0 ''b'' Add nsw [ArgV 0, ConstInt (mk 8 3)]] (InstV 0)"
  by (simp add: returns_def w_half_def ret_inst_def w_inst_def ordered_code_def mk_inst_def)

lemma w_args: "wf_args (w_half nm nsw) [sv (mk 8 n) True]"
  by (simp add: wf_args_def w_half_def wf_sv_def sv_def int_width_def)

lemma w_arg: "findArgByName (w_half nm nsw) ''a'' = Some 0"
  by (simp add: findArgByName_def w_half_def)

lemma w_fits: "side_fits (w_half nm nsw) w_side"
proof -
  have "wf_fact 8 (hd (facts w_side))"
    by (simp add: w_side_def wf_fact_def wf_ivl_def kb_sized_def)
  then show ?thesis
    by (simp add: side_fits_def w_side_def fits_fact_def fits_ob_def w_arg resolveKeyInFn_def wf_val_def val_ty_def)
      (simp add: w_half_def)
qed

lemma w_true: "side_true simple_kb (w_half nm nsw) w_side [sv (mk 8 5) True]"
  and w_false: "\<not> side_true simple_kb (w_half nm nsw) w_side [sv (mk 8 20) True]"
proof -
  have b: "kb_has (KB (mk 8 240) (mk 8 0)) (mk 8 5)" by code_simp
  have s: "sval (mk 8 5) = 5" "sval (mk 8 3) = 3" "sval (mk 8 0) = 0" "sval (mk 8 15) = 15" by code_simp+
  show "side_true simple_kb (w_half nm nsw) w_side [sv (mk 8 5) True]"
    by (simp add: side_true_def w_side_def fact_true_def ob_true_def w_arg resolveKeyInFn_def fact_holds_def
        in_u_def in_s_def sv_def s flag_claim_def start_env_def fits_s_def in_b_def b)
  show "\<not> side_true simple_kb (w_half nm nsw) w_side [sv (mk 8 20) True]"
    by (simp add: side_true_def w_side_def fact_true_def fact_empty_def w_arg fact_holds_def in_u_def sv_def)
qed

theorem proposal_restricts_inputs_witness:
  "\<exists>p. proposeAssume demo_api simple_kb simple_query w_unit (w_parent False) (w_parent True) = Some p \<and>
     func_results (u_tgt (modified_unit p)) [sv (mk 8 5) True] = func_results (u_tgt w_unit) [sv (mk 8 5) True] \<and>
     func_results (u_tgt (modified_unit p)) [sv (mk 8 20) True] = {}"
proof -
  have "\<exists>p. proposeAssume demo_api simple_kb simple_query w_unit (w_parent False) (w_parent True) = Some p"
    by (simp add: proposeAssume_eq proposeFromRanges_def Let_def w_collect side_empty_def w_side_def split: prod.splits)
  then obtain p where p: "proposeAssume demo_api simple_kb simple_query w_unit (w_parent False) (w_parent True) = Some p" by blast
  have t: "u_tgt w_unit = w_half ''tgt'' True" by (simp add: w_unit_def)
  have r: "func_results (u_tgt (modified_unit p)) [sv (mk 8 n) True] =
      (if side_true simple_kb (u_tgt w_unit) w_side [sv (mk 8 n) True] then func_results (u_tgt w_unit) [sv (mk 8 n) True] else {})" for n
    using proposal_restricts_inputs [where fn = u_tgt, OF demo_fold_ok p _ w_returns [of "''tgt''" True, folded t] w_args [of "''tgt''" True n, folded t]] w_fits
    by (simp add: w_collect t)
  show ?thesis using p r [of 5] r [of 20] w_true w_false by (simp add: t)
qed

end
