(* ===== verification/Collect.thy ===== *)
theory Collect
  imports Inject
begin

text \<open>
  What \<open>collectFromParent\<close> collects: facts about named instructions of the parent that hold in its
  runs, and obligations that follow from the facts.
\<close>

section \<open>Where facts come from\<close>

lemma map_filter_in: "y \<in> set (List.map_filter g xs) \<longleftrightarrow> (\<exists>x \<in> set xs. g x = Some y)"
  by (force simp: List.map_filter_def)

lemma collected_fact:
  assumes "kf \<in> set (facts (collectFromParent K Q unit parent))"
  shows "\<exists>a V r sl. a \<in> set (f_args (u_src unit)) \<and> arg_name a = kf_name kf \<and> kf_name kf \<noteq> [] \<and>
    findValueByName (kf_name kf) parent = Some V \<and> parent_ranges K parent V = Some r \<and>
    collectBackwardSlice (kf_name kf) parent = Some sl \<and> \<not> list_ex isPhi (sl_insts sl) \<and>
    kf = (fact_of_range K (kf_name kf) r)\<lparr>kf_slice := sl\<rparr> \<and> \<not> fact_empty K (fact_of_range K (kf_name kf) r)"
proof -
  obtain a where a: "a \<in> set (f_args (u_src unit))" "harvest K parent (parent_ranges K parent) a = Some kf"
    using assms by (auto simp: collectFromParent_def Let_def map_filter_in)
  have n: "kf_name (fact_of_range K nm r) = nm" for nm r by (simp add: fact_of_range_def)
  obtain V r sl where V: "findValueByName (arg_name a) parent = Some V" "parent_ranges K parent V = Some r"
      "collectBackwardSlice (arg_name a) parent = Some sl" "\<not> list_ex isPhi (sl_insts sl)" "arg_name a \<noteq> []"
      "kf = (fact_of_range K (arg_name a) r)\<lparr>kf_slice := sl\<rparr>" "\<not> fact_empty K (fact_of_range K (arg_name a) r)"
    using a(2) by (auto simp: harvest_def Let_def split: if_splits option.splits)
  then have "kf_name kf = arg_name a" by (simp add: n)
  then show ?thesis using V a(1) by metis
qed

lemma slice_named_inst:
  assumes "collectBackwardSlice nm f = Some sl"
  shows "\<exists>I \<in> set (all_insts f). i_name I = nm \<and> nm \<noteq> [] \<and> findValueByName nm f = Some (InstV (i_id I))"
proof -
  have ex: "nm \<noteq> []" "\<exists>I \<in> set (all_insts f). i_name I = nm"
    using assms find_root_props(2) [of nm f] by (auto simp: collectBackwardSlice_def split: option.splits)
  then obtain I where I: "find (\<lambda>I. i_name I \<noteq> [] \<and> i_name I = nm) (all_insts f) = Some I"
    by (metis (mono_tags, lifting) find_None_iff not_None_eq)
  then have "I \<in> set (all_insts f) \<and> i_name I = nm" by (auto simp: find_Some_iff)
  then show ?thesis using I ex(1) by (auto simp: findValueByName_def)
qed

lemma in_b_None [simp]: "in_b None x"
  by (simp add: in_b_def)

lemma fact_of_range_holds:
  "holds r x \<Longrightarrow> fact_holds K ((fact_of_range K nm r)\<lparr>kf_slice := sl\<rparr>) x"
  by (auto simp: holds_def fact_holds_def fact_of_range_def in_u_def in_s_def split: option.splits prod.splits)

lemma seed_map_ok:
  assumes "env_ok (val_ty parent) \<rho>" "\<And>n. n < length (f_args parent) \<Longrightarrow> non_poison (\<rho> (ArgV n))"
    "\<And>a. a \<in> set (f_args parent) \<Longrightarrow> arg_ty a \<noteq> IntTy 0"
  shows "map_ok (val_ty parent) \<rho> (seed_map parent)"
  unfolding map_ok_def
proof (intro allI impI)
  fix W s
  assume "seed_map parent W = Some s"
  then obtain n w where n: "W = ArgV n" "n < length (f_args parent)" "arg_ty (f_args parent ! n) = IntTy w" "s = seed_range w"
    by (auto simp: seed_map_def split: val.splits ty.splits if_splits)
  have w: "0 < w" using assms(3) [of "f_args parent ! n"] n(2,3) by (cases w) auto
  have t: "val_ty parent W = IntTy w" using n by (simp add: val_ty_def)
  then have "wf_sv w (\<rho> W)" using assms(1) w by (simp add: env_ok_def)
  then show "\<exists>w. val_ty parent W = IntTy w \<and> 0 < w \<and> wf_kr w s \<and> describes s (\<rho> W)"
    using seed_range_describes [of w "\<rho> W"] assms(2) [OF n(2)] n w t by auto
qed

text \<open>
  C13 (safety). The facts collected from a parent are about instructions of the parent, never about its
  parameters, and they hold in every run of a straight-line parent of trusted instructions on
  arguments that are not poison: where poison-freedom is recorded the value is not poison, and
  a value that is not poison lies in the recorded intervals and has the recorded bits.
\<close>

theorem collected_facts_hold:
  assumes "sound_kb K" "kf \<in> set (facts (collectFromParent K Q unit parent))"
    "run \<rho> (filter (\<lambda>I. \<not> isTerminator I) (all_insts parent)) \<rho>'" "env_ok (val_ty parent) \<rho>"
    "list_all (typed_inst (val_ty parent)) (all_insts parent)" "list_all trusted_inst (all_insts parent)"
    "distinct (map i_id (all_insts parent))" "\<And>n. n < length (f_args parent) \<Longrightarrow> non_poison (\<rho> (ArgV n))"
    "\<And>a. a \<in> set (f_args parent) \<Longrightarrow> arg_ty a \<noteq> IntTy 0"
  shows "\<exists>I \<in> set (all_insts parent). i_name I = kf_name kf \<and> findValueByName (kf_name kf) parent = Some (InstV (i_id I)) \<and>
    (kf_poison_free kf \<longrightarrow> non_poison (\<rho>' (InstV (i_id I)))) \<and>
    (non_poison (\<rho>' (InstV (i_id I))) \<longrightarrow> fact_holds K kf (sv_value (\<rho>' (InstV (i_id I)))))"
proof -
  obtain V r sl where c: "findValueByName (kf_name kf) parent = Some V" "parent_ranges K parent V = Some r"
      "collectBackwardSlice (kf_name kf) parent = Some sl" "kf = (fact_of_range K (kf_name kf) r)\<lparr>kf_slice := sl\<rparr>"
    using collected_fact [OF assms(2)] by blast
  obtain I where I: "I \<in> set (all_insts parent)" "i_name I = kf_name kf" "findValueByName (kf_name kf) parent = Some (InstV (i_id I))"
    using slice_named_inst [OF c(3)] by blast
  have "describes r (\<rho>' (InstV (i_id I)))"
    by (rule computeRanges_describes [OF assms(1,3,4) seed_map_ok [OF assms(4,8,9)]])
      (use assms(5-7) c(1,2) I(3) in \<open>auto simp: parent_ranges_def list_all_iff seed_map_def distinct_map_filter\<close>)
  then have "(poison_free r \<longrightarrow> non_poison (\<rho>' (InstV (i_id I)))) \<and>
      (non_poison (\<rho>' (InstV (i_id I))) \<longrightarrow> fact_holds K kf (sv_value (\<rho>' (InstV (i_id I)))))"
    using fact_of_range_holds c(4) unfolding describes_def by metis
  moreover have "kf_poison_free kf = poison_free r" using arg_cong [OF c(4), of kf_poison_free] by (simp add: fact_of_range_def)
  ultimately show ?thesis using I by auto
qed


section \<open>Where obligations come from\<close>

lemma factByName_Some: "factByName fs nm = Some kf \<Longrightarrow> kf \<in> set fs \<and> kf_name kf = nm"
  by (auto simp: factByName_def find_Some_iff)

lemma operand_keys_Some:
  "operand_keys fn fs Vs = Some (ks, ts) \<Longrightarrow> ks = map (keyForOperand fn) Vs \<and> ts = map (val_ty fn) Vs \<and>
     (\<forall>V \<in> set Vs. k_is_const (keyForOperand fn V) \<or> (val_name fn V \<noteq> [] \<and> (\<exists>kf \<in> set fs. factByName fs (val_name fn V) = Some kf \<and> kf_name kf = val_name fn V)))"
proof (induction Vs arbitrary: ks ts)
  case (Cons V Vs)
  have k: "k_is_const (keyForOperand fn V) \<or> k_name (keyForOperand fn V) = val_name fn V"
    by (simp add: keyForOperand_def split: val.splits)
  obtain ks' ts' where r: "operand_keys fn fs Vs = Some (ks', ts')" "ks = keyForOperand fn V # ks'" "ts = val_ty fn V # ts'"
      "k_is_const (keyForOperand fn V) \<or> (k_name (keyForOperand fn V) \<noteq> [] \<and> factByName fs (k_name (keyForOperand fn V)) \<noteq> None)"
    using Cons.prems by (auto simp: Let_def split: if_splits)
  show ?case using Cons.IH [OF r(1)] r k by (auto dest: factByName_Some)
qed simp

lemma collected_obligation:
  assumes "ob \<in> set (obligations (collectFromParent K Q unit parent))"
  shows "\<exists>S. let T = ob_inst ob; fs = facts (collectFromParent K Q unit parent) in
    T \<in> set (all_insts (u_tgt unit)) \<and> findStructuralMatch (u_tgt unit) T (u_src unit) = Some S \<and>
    ob_kind ob \<in> set (collectAddedFlags T S) \<and> operand_keys (u_tgt unit) fs (i_ops T) = Some (op_keys ob, map (val_ty (u_tgt unit)) (i_ops T)) \<and>
    canProveSafe Q (ob_kind ob) (operand_range K (u_tgt unit) T fs 0) (operand_range K (u_tgt unit) T fs 1) (int_width (i_ty T))"
proof -
  define fs where "fs = facts (collectFromParent K Q unit parent)"
  obtain T ts bw where T: "T \<in> set (all_insts (u_tgt unit))" "(ob, ts, bw) \<in> set (inst_obligations K Q unit fs T)"
    using assms by (auto simp: collectFromParent_def Let_def fs_def)
  obtain S where m: "findStructuralMatch (u_tgt unit) T (u_src unit) = Some S"
    using T(2) by (cases "findStructuralMatch (u_tgt unit) T (u_src unit)") (simp_all add: inst_obligations_def)
  obtain keys tys where o: "operand_keys (u_tgt unit) fs (i_ops T) = Some (keys, tys)"
    using T(2) m by (cases "operand_keys (u_tgt unit) fs (i_ops T)") (auto simp: inst_obligations_def Let_def split: if_splits)
  have S: "findStructuralMatch (u_tgt unit) T (u_src unit) = Some S"
      "operand_keys (u_tgt unit) fs (i_ops T) = Some (keys, tys)" "ob_kind ob \<in> set (collectAddedFlags T S)"
      "canProveSafe Q (ob_kind ob) (operand_range K (u_tgt unit) T fs 0) (operand_range K (u_tgt unit) T fs 1) (int_width (i_ty T))"
      "ob_inst ob = T" "op_keys ob = keys"
    using T(2) m o by (auto simp: inst_obligations_def Let_def split: if_splits)
  then have "tys = map (val_ty (u_tgt unit)) (i_ops T)" using operand_keys_Some by blast
  then show ?thesis using S T(1) by (auto simp: Let_def fs_def [symmetric])
qed

lemma collected_bits:
  "\<forall>kf \<in> set (facts (collectFromParent K Q unit parent)). kf_bits kf \<noteq> None \<longrightarrow> informative_bits K (kf_bits kf)"
proof (intro ballI impI)
  fix kf
  assume kf: "kf \<in> set (facts (collectFromParent K Q unit parent))" "kf_bits kf \<noteq> None"
  then obtain r sl where e: "kf = (fact_of_range K (kf_name kf) r)\<lparr>kf_slice := sl\<rparr>" using collected_fact by blast
  have "kf_bits kf = (if informative_bits K (kr_bits r) then kr_bits r else None)"
    using arg_cong [OF e, of kf_bits] by (simp add: fact_of_range_def)
  then show "informative_bits K (kf_bits kf)" using kf(2) by (auto split: if_splits)
qed

definition sized_constants :: "kb_ops \<Rightarrow> bool" where
  "sized_constants K \<longleftrightarrow> (\<forall>c. kb_sized (bits c) (kb_makeConstant K c))"

text \<open>An operand of width \<open>n\<close> that is not poison and of which the collected facts hold.\<close>

definition meets_facts :: "kb_ops \<Rightarrow> func \<Rightarrow> known_fact list \<Rightarrow> nat \<Rightarrow> env \<Rightarrow> val \<Rightarrow> bool" where
  "meets_facts K fn fs n \<rho> V \<longleftrightarrow> wf_sv n (\<rho> V) \<and> non_poison (\<rho> V) \<and>
     (case V of
        ConstInt c \<Rightarrow> \<rho> V = sv c True
      | _ \<Rightarrow> \<forall>kf \<in> set fs. kf_name kf = val_name fn V \<longrightarrow> wf_fact n kf \<and> fact_holds K kf (sv_value (\<rho> V)))"

lemma rangeForOperand_holds:
  assumes K: "sound_kb K" "sized_constants K" and V: "meets_facts K fn fs n \<rho> V"
    and k: "k_is_const (keyForOperand fn V) \<or> (val_name fn V \<noteq> [] \<and> (\<exists>kf \<in> set fs. factByName fs (val_name fn V) = Some kf \<and> kf_name kf = val_name fn V))"
    and i: "\<forall>kf \<in> set fs. kf_bits kf \<noteq> None \<longrightarrow> informative_bits K (kf_bits kf)"
  shows "wf_kr n (rangeForOperand K fn V fs) \<and> bits_sized n (rangeForOperand K fn V fs) \<and>
    holds (rangeForOperand K fn V fs) (sv_value (\<rho> V))"
proof (cases "\<exists>c. V = ConstInt c")
  case True
  then obtain c where c: "V = ConstInt c" by blast
  then have wf: "wf_bv c" "bits c = n" "sv_value (\<rho> V) = c" using V by (auto simp: meets_facts_def wf_sv_def sv_def)
  have b: "kb_has (kb_makeConstant K c) c" "kb_sized n (kb_makeConstant K c)"
    using sound_kbD(2) [OF K(1) wf(1)] K(2) wf(2) by (auto simp: sized_constants_def)
  show ?thesis using wf b unfolding c
    by (simp add: rangeForOperand_def wf_kr_def wf_ivl_def bits_sized_def holds_def in_u_def in_s_def in_b_def)
next
  case False
  then have nc: "\<not> k_is_const (keyForOperand fn V)" by (simp add: keyForOperand_def split: val.splits)
  then obtain kf where kf: "kf \<in> set fs" "factByName fs (val_name fn V) = Some kf" "kf_name kf = val_name fn V" "hasName fn V"
    using k by (auto simp: hasName_def)
  then have h: "wf_fact n kf" "fact_holds K kf (sv_value (\<rho> V))" using V False by (auto simp: meets_facts_def split: val.splits)
  have r: "rangeForOperand K fn V fs =
      empty_range\<lparr>kr_u := u_bound kf, kr_s := s_bound kf, kr_bits := kf_bits kf, poison_free := kf_poison_free kf\<rparr>"
    using kf(2,4) False by (cases V) (simp_all add: rangeForOperand_def factByName_def)
  show ?thesis unfolding r using h i kf(1)
    by (auto simp: wf_kr_def wf_fact_def bits_sized_def holds_def fact_holds_def split: option.splits)
qed

text \<open>
  C12 (safety). An obligation is a flag of an instruction of the unit's target that the matching instruction
  of the source does not carry, and it follows from the facts: when the operands of the
  instruction are not poison and satisfy the facts collected from the parent, then the claim of
  the flag holds for them, so the flag adds no poison. A division is considered where it is
  defined.
\<close>

theorem obligations_follow_from_facts:
  assumes "sound_kb K" "sized_constants K" "sound_query Q"
    "ob \<in> set (obligations (collectFromParent K Q unit parent))"
    "i_ops (ob_inst ob) = [a, b] \<or> ob_kind ob = ZExtNNeg \<and> i_ops (ob_inst ob) = [a] \<and> b = a"
    "\<forall>V \<in> {a, b}. meets_facts K (u_tgt unit) (facts (collectFromParent K Q unit parent)) n \<rho> V"
    "ob_kind ob \<noteq> ZExtNNeg \<Longrightarrow> i_ty (ob_inst ob) = IntTy n" "flag_defined (ob_kind ob) (\<rho> a) (\<rho> b)"
  shows "flag_claim (ob_kind ob) (\<rho> a) (\<rho> b) \<and>
    (\<exists>S. findStructuralMatch (u_tgt unit) (ob_inst ob) (u_src unit) = Some S \<and> ob_kind ob \<in> set (collectAddedFlags (ob_inst ob) S))"
proof -
  let ?fs = "facts (collectFromParent K Q unit parent)" and ?T = "ob_inst ob" and ?f = "u_tgt unit"
  obtain S where S: "findStructuralMatch ?f ?T (u_src unit) = Some S" "ob_kind ob \<in> set (collectAddedFlags ?T S)"
      "operand_keys ?f ?fs (i_ops ?T) = Some (op_keys ob, map (val_ty ?f) (i_ops ?T))"
      "canProveSafe Q (ob_kind ob) (operand_range K ?f ?T ?fs 0) (operand_range K ?f ?T ?fs 1) (int_width (i_ty ?T))"
    using collected_obligation [OF assms(4)] by (auto simp: Let_def)
  have R: "wf_kr n (rangeForOperand K ?f V ?fs) \<and> bits_sized n (rangeForOperand K ?f V ?fs) \<and> holds (rangeForOperand K ?f V ?fs) (sv_value (\<rho> V))"
    if "V \<in> set (i_ops ?T)" for V
    by (rule rangeForOperand_holds [OF assms(1,2) _ _ collected_bits])
      (use that assms(5,6) conjunct2 [OF conjunct2 [OF operand_keys_Some [OF S(3)]]] in auto)
  have e: "wf_kr n empty_range" "bits_sized n empty_range" "holds empty_range x" for x
    by (simp_all add: empty_range_def wf_kr_def wf_ivl_def bits_sized_def holds_def in_u_def in_s_def)
  have wf: "wf_sv n (\<rho> a)" "wf_sv n (\<rho> b)" "non_poison (\<rho> a)" "non_poison (\<rho> b)"
    using assms(6) by (simp_all add: meets_facts_def)
  have ra: "wf_kr n (operand_range K ?f ?T ?fs 0)" "bits_sized n (operand_range K ?f ?T ?fs 0)"
      "holds (operand_range K ?f ?T ?fs 0) (sv_value (\<rho> a))"
    using R [of a] assms(5) by (auto simp: operand_range_def)
  have rb: "wf_kr n (operand_range K ?f ?T ?fs 1)" "bits_sized n (operand_range K ?f ?T ?fs 1)"
      "holds (operand_range K ?f ?T ?fs 1) (sv_value (\<rho> b))"
    using R [of b] e assms(5) by (auto simp: operand_range_def)
  have "flag_ok (ob_kind ob) (sv_value (\<rho> a)) (sv_value (\<rho> b))"
    by (rule canProveSafe_flag_ok [OF assms(3) S(4) ra(1) rb(1) ra(3) rb(3) _ _ _ _ ra(2) rb(2)])
      (use wf assms(7) in \<open>auto simp: wf_sv_def int_width_def\<close>)
  then show ?thesis using S wf assms(8) by (auto simp: flag_claim_def flag_defined_def)
qed


section \<open>Witnesses\<close>

definition w_fact :: known_fact where "w_fact = hd (facts w_side)"
definition w_ob :: flag_obligation where "w_ob = hd (obligations w_side)"

definition w_env :: env where
  "w_env V =
     (case V of
        ConstInt c \<Rightarrow> sv (mk (bits c) (uval c)) True
      | ConstOther _ t \<Rightarrow> sv (mk (int_width t) 0) False
      | ArgV n \<Rightarrow> sv (mk 8 200) True
      | InstV n \<Rightarrow> sv (mk 8 0) False)"

definition w_env' :: env where
  "w_env' = w_env(InstV 0 := sv (mk 8 8) True, InstV 1 := sv (mk 8 11) True)"

lemma w_insts: "all_insts (w_parent nsw) = [w_inst 0 ''a'' And False [ArgV 0, ConstInt (mk 8 15)],
    w_inst 1 ''b'' Add nsw [InstV 0, ConstInt (mk 8 3)], ret_inst 2 (InstV 1)]"
  by (simp add: all_insts_def w_parent_def)

lemma w_f_args: "f_args (w_parent nsw) = [\<lparr>arg_name = ''x'', arg_ty = IntTy 8\<rparr>]"
  by (simp add: w_parent_def)

lemma w_inst_sel [simp]: "i_id (w_inst n nm op nsw ops) = n" "i_op (w_inst n nm op nsw ops) = OBin op" "i_ty (w_inst n nm op nsw ops) = IntTy 8"
  "i_ops (w_inst n nm op nsw ops) = ops" "i_name (w_inst n nm op nsw ops) = nm" "binop_flags_of (w_inst n nm op False ops) = no_flags"
  "\<not> isTerminator (w_inst n nm op nsw ops)"
  by (simp_all add: w_inst_def mk_inst_def binop_flags_of_def no_flags_def isTerminator_def)

lemma w_val_ty: "val_ty (w_parent nsw) (ConstInt c) = IntTy (bits c)" "val_ty (w_parent nsw) (ArgV 0) = IntTy 8"
  "val_ty (w_parent nsw) (InstV 0) = IntTy 8" "val_ty (w_parent nsw) (InstV (Suc 0)) = IntTy 8" "val_ty (w_parent nsw) (InstV 2) = VoidTy"
  by (simp_all add: val_ty_def find_inst_def w_insts ret_inst_def) (simp add: w_parent_def)

lemma w_env_ok: "env_ok (val_ty (w_parent nsw)) w_env"
proof -
  have "wf_sv w (w_env V)" if "val_ty (w_parent nsw) V = IntTy w" "0 < w" for V w
  proof (cases V)
    case (ArgV n)
    then show ?thesis using that by (cases n) (auto simp: w_env_def val_ty_def w_parent_def wf_sv_def sv_def split: if_splits)
  next
    case (InstV n)
    then show ?thesis using that
      by (auto simp: w_env_def val_ty_def find_inst_def w_insts ret_inst_def wf_sv_def sv_def split: if_splits)
  qed (use that in \<open>auto simp: w_env_def val_ty_def wf_sv_def sv_def int_width_def\<close>)
  then show ?thesis by (auto simp: env_ok_def w_env_def mk_uval)
qed

lemma w_run: "run w_env (filter (\<lambda>I. \<not> isTerminator I) (all_insts (w_parent False))) w_env'"
proof -
  have "binop_scalar no_facts no_facts 8 And no_flags (sv (mk 8 200) True) (sv (mk 8 15) True) = sv (mk 8 8) True"
    "binop_scalar no_facts no_facts 8 Add no_flags (sv (mk 8 8) True) (sv (mk 8 3) True) = sv (mk 8 11) True"
    by code_simp+
  then show ?thesis unfolding w_insts w_env'_def
    by (auto intro!: run_Cons run_Nil simp: inst_result.simps inst_defined_def binop_defined_def int_width_def
        w_env_def wf_sv_def sv_def mk_def wf_bv_def ret_inst_def isTerminator_def)
qed

theorem collected_facts_hold_witness:
  "w_fact \<in> set (facts (collectFromParent simple_kb simple_query w_unit (w_parent False))) \<and>
   (\<exists>I \<in> set (all_insts (w_parent False)). i_name I = ''a'' \<and> non_poison (w_env' (InstV (i_id I))) \<and>
      fact_holds simple_kb w_fact (sv_value (w_env' (InstV (i_id I)))))"
proof -
  have m: "w_fact \<in> set (facts (collectFromParent simple_kb simple_query w_unit (w_parent False)))"
    by (simp add: w_collect w_fact_def) (simp add: w_side_def)
  have n: "kf_name w_fact = ''a''" "kf_poison_free w_fact" by (simp_all add: w_fact_def w_side_def)
  have "\<exists>I \<in> set (all_insts (w_parent False)). i_name I = kf_name w_fact \<and> findValueByName (kf_name w_fact) (w_parent False) = Some (InstV (i_id I)) \<and>
    (kf_poison_free w_fact \<longrightarrow> non_poison (w_env' (InstV (i_id I)))) \<and>
    (non_poison (w_env' (InstV (i_id I))) \<longrightarrow> fact_holds simple_kb w_fact (sv_value (w_env' (InstV (i_id I)))))"
    by (rule collected_facts_hold [OF simple_kb_sound m w_run w_env_ok])
      (auto simp: w_insts typed_inst_def w_val_ty wf_val_def trusted_inst_def plain_flags_def no_flags_def ret_inst_def
        w_env_def sv_def w_f_args)
  then show ?thesis using m n by auto
qed

theorem obligations_follow_from_facts_witness:
  "w_ob \<in> set (obligations (collectFromParent simple_kb simple_query w_unit (w_parent False))) \<and> ob_kind w_ob = AddNSW \<and>
   flag_claim AddNSW (sv (mk 8 5) True) (sv (mk 8 3) True)"
proof -
  let ?\<rho> = "start_env [sv (mk 8 5) True]"
  have m: "w_ob \<in> set (obligations (collectFromParent simple_kb simple_query w_unit (w_parent False)))"
    by (simp add: w_collect w_ob_def) (simp add: w_side_def)
  have o: "ob_kind w_ob = AddNSW" "i_ops (ob_inst w_ob) = [ArgV 0, ConstInt (mk 8 3)]" "i_ty (ob_inst w_ob) = IntTy 8"
    by (simp_all add: w_ob_def w_side_def)
  have z: "sized_constants simple_kb" by (simp add: sized_constants_def simple_kb_def kb_sized_def bvnot_def)
  have k: "kb_has (KB (mk 8 240) (mk 8 0)) (mk 8 5)" by code_simp
  have f: "wf_fact 8 w_fact" "fact_holds simple_kb w_fact (mk 8 5)"
    by (simp_all add: w_fact_def w_side_def wf_fact_def wf_ivl_def kb_sized_def fact_holds_def in_u_def in_s_def in_b_def k sval_mk)
  have fs: "facts (collectFromParent simple_kb simple_query w_unit (w_parent False)) = [w_fact]"
    by (simp add: w_collect w_fact_def) (simp add: w_side_def)
  have "\<forall>V \<in> {ArgV 0, ConstInt (mk 8 3)}. meets_facts simple_kb (u_tgt w_unit) [w_fact] 8 ?\<rho> V"
    using f by (simp add: meets_facts_def start_env_def wf_sv_def sv_def)
  then have "flag_claim (ob_kind w_ob) (?\<rho> (ArgV 0)) (?\<rho> (ConstInt (mk 8 3)))"
    using obligations_follow_from_facts [OF simple_kb_sound z simple_query_sound m, of "ArgV 0" "ConstInt (mk 8 3)" 8 ?\<rho>] o
    unfolding fs by (simp add: flag_defined_def)
  then show ?thesis using m o by (simp add: start_env_def)
qed

end
