(* ===== verification/AssumeCheck.thy ===== *)
theory AssumeCheck
  imports Collect
begin

text \<open>
  The assume-check of the proposer is sound: its target rebuilds the slices of the facts with the
  values they have in the parent, so a check that refines its source discharges every collected
  fact and obligation; and with it the unit with assumptions stands for the original unit
  wherever the unit occurs.
\<close>

section \<open>One run of emitted code\<close>

text \<open>
  \<open>reaches m b \<sigma> Q\<close>: if the code \<open>m\<close> adds to \<open>b\<close> cannot go wrong from \<open>\<sigma>\<close>, it has a run that ends with \<open>Q\<close>.
\<close>

definition reaches :: "(builder, 'a) state \<Rightarrow> builder \<Rightarrow> env \<Rightarrow> ('a \<Rightarrow> builder \<Rightarrow> env \<Rightarrow> bool) \<Rightarrow> bool" where
  "reaches m b \<sigma> Q \<longleftrightarrow> (\<exists>V b' new. run_state m b = (V, b') \<and> extends b b' new \<and>
     (safe \<sigma> new \<longrightarrow> (\<exists>\<sigma>'. run \<sigma> new \<sigma>' \<and> later b \<sigma> b' \<sigma>' \<and> Q V b' \<sigma>')))"

lemma reaches_return: "const_env \<sigma> \<Longrightarrow> Q V b \<sigma> \<Longrightarrow> reaches (State_Monad.return V) b \<sigma> Q"
  unfolding reaches_def by (intro exI conjI) (auto intro: run_Nil later_refl)

lemma reaches_bind:
  assumes "reaches m b \<sigma> (\<lambda>V b' \<sigma>'. reaches (f V) b' \<sigma>' Q)" "\<And>V. grows (f V)"
  shows "reaches (State_Monad.bind m f) b \<sigma> Q"
proof -
  obtain V b1 new where m: "run_state m b = (V, b1)" "extends b b1 new"
      "safe \<sigma> new \<longrightarrow> (\<exists>\<sigma>1. run \<sigma> new \<sigma>1 \<and> later b \<sigma> b1 \<sigma>1 \<and> reaches (f V) b1 \<sigma>1 Q)"
    using assms(1) unfolding reaches_def [of m] by blast
  obtain W b2 where f: "run_state (f V) b1 = (W, b2)" by (cases "run_state (f V) b1")
  then obtain new' where n: "extends b1 b2 new'" using growsD [OF assms(2)] by blast
  have "\<exists>\<sigma>2. run \<sigma> (new @ new') \<sigma>2 \<and> later b \<sigma> b2 \<sigma>2 \<and> Q W b2 \<sigma>2" if s: "safe \<sigma> (new @ new')"
  proof -
    obtain \<sigma>1 where 1: "run \<sigma> new \<sigma>1" "later b \<sigma> b1 \<sigma>1" "reaches (f V) b1 \<sigma>1 Q" "safe \<sigma>1 new'"
      using s m(3) unfolding safe_append by blast
    then obtain \<sigma>2 where "run \<sigma>1 new' \<sigma>2" "later b1 \<sigma>1 b2 \<sigma>2" "Q W b2 \<sigma>2"
      using f n extends_unique unfolding reaches_def by (metis Pair_inject)
    then show ?thesis using 1(1,2) later_trans unfolding run_append by blast
  qed
  then show ?thesis unfolding reaches_def using m(1) f extends_trans [OF m(2) n] by auto
qed

lemma reaches_emits:
  assumes "emits D m b \<sigma> Q" "const_env \<sigma>"
  shows "reaches m b \<sigma> Q"
proof -
  obtain V b' new where e: "run_state m b = (V, b')" "extends b b' new"
      "\<And>\<sigma>'. run \<sigma> new \<sigma>' \<Longrightarrow> frame (b_next b) \<sigma> \<sigma>' \<and> Q V b' \<sigma>'"
    using assms(1) unfolding emits_def by auto
  have "later b \<sigma> b' \<sigma>'" if "run \<sigma> new \<sigma>'" for \<sigma>'
    using frame_const_env [OF conjunct1 [OF e(3) [OF that]] assms(2)] e(2,3) that by (simp add: later_def extends_def)
  then show ?thesis unfolding reaches_def using e safe_run by blast
qed

lemma reaches_mono: "reaches m b \<sigma> Q \<Longrightarrow> (\<And>V b' \<sigma>'. later b \<sigma> b' \<sigma>' \<Longrightarrow> Q V b' \<sigma>' \<Longrightarrow> Q' V b' \<sigma>') \<Longrightarrow> reaches m b \<sigma> Q'"
  unfolding reaches_def by blast

section \<open>Claims of a check\<close>

text \<open>The truth of the claim a fact, or an obligation, contributes, by the values the clones have.\<close>

definition fact_said :: "kb_ops \<Rightarrow> func \<Rightarrow> value_map \<Rightarrow> env \<Rightarrow> known_fact \<Rightarrow> bool" where
  "fact_said K parent vmap \<sigma> kf \<longleftrightarrow>
     (case mapped_value parent vmap (kf_name kf) of
        None \<Rightarrow> True
      | Some (V, t) \<Rightarrow> non_poison (\<sigma> V) \<and> fact_holds K kf (sv_value (\<sigma> V)))"

definition fact_placed :: "kb_ops \<Rightarrow> func \<Rightarrow> value_map \<Rightarrow> nat \<Rightarrow> env \<Rightarrow> known_fact \<Rightarrow> bool" where
  "fact_placed K parent vmap n \<sigma> kf \<longleftrightarrow> \<not> fact_empty K kf \<and>
     (\<forall>V t. mapped_value parent vmap (kf_name kf) = Some (V, t) \<longrightarrow>
        (\<exists>w. t = IntTy w \<and> 0 < w \<and> wf_fact w kf \<and> val_in n \<sigma> w V (\<sigma> V)))"

lemma placed_later:
  assumes "later b \<sigma> b' \<sigma>'" "fact_placed K parent vmap (b_next b) \<sigma> kf"
  shows "fact_placed K parent vmap (b_next b') \<sigma>' kf" "fact_said K parent vmap \<sigma>' kf = fact_said K parent vmap \<sigma> kf"
proof -
  have e: "\<sigma>' V = \<sigma> V" if "val_in (b_next b) \<sigma> w V x" for V w x
    using assms(1) that frameD [of "b_next b" \<sigma> \<sigma>' V] by (simp add: later_def val_in_def)
  show "fact_placed K parent vmap (b_next b') \<sigma>' kf"
    using assms e laterD(2) [OF assms(1)] unfolding fact_placed_def by metis
  have "\<sigma>' V = \<sigma> V" if "mapped_value parent vmap (kf_name kf) = Some (V, t)" for V t
    using assms(2) that e unfolding fact_placed_def by blast
  then show "fact_said K parent vmap \<sigma>' kf = fact_said K parent vmap \<sigma> kf"
    by (cases "mapped_value parent vmap (kf_name kf)") (auto simp: fact_said_def)
qed

lemma grows_andInOpt [grows]: "grows (andInOpt L r p)"
  unfolding andInOpt_def by (intro grows)

lemma grows_fact_claims [grows]: "grows (fact_claims L K parent vmap kfs r)"
  by (induction kfs arbitrary: r) (auto split: option.splits intro!: grows)

lemma grows_obligation_claims [grows]: "grows (obligation_claims L parent vmap ots r)"
proof (induction ots arbitrary: r)
  case (Cons ot ots)
  then show ?case by (cases ot) (auto split: option.splits intro!: grows)
qed (simp add: grows)

lemma grows_insert_clone [grows]: "grows (insert_clone L vmap I)"
  by (auto simp: grows_def insert_clone_def extends_def Let_def)

lemma grows_clone_slice [grows]: "grows (clone_slice L S Is vmap)"
  by (induction Is arbitrary: vmap) (auto intro!: grows)

lemma grows_assume_args [grows]: "grows (assume_args L parent i ns)"
  by (induction ns arbitrary: i) (auto intro!: grows)

lemma reaches_andInOpt:
  assumes L: "fold_ok L" "const_env \<sigma>" and r: "joined (b_next b) \<sigma> r P" and p: "joined (b_next b) \<sigma> p C"
  shows "reaches (andInOpt L r p) b \<sigma> (\<lambda>r' b' \<sigma>'. joined (b_next b') \<sigma>' r' (P \<and> C))"
proof (cases p)
  case None
  then have "joined (b_next b) \<sigma> r (P \<and> C)" using r p by (auto simp: joined_def)
  then show ?thesis using None L(2) by (simp add: andInOpt_def reaches_return)
next
  case (Some q)
  then have q: "is_claim (b_next b) \<sigma> q C" using p by (simp add: joined_def)
  have "emits True (andIn L ''all'' r q) b \<sigma> (\<lambda>r' b' \<sigma>'. joined (b_next b') \<sigma>' r' (P \<and> C))"
    by (rule emits_andIn [OF L q]) (use r in \<open>auto simp: joined_def\<close>)
  then show ?thesis using Some L(2) by (simp add: andInOpt_def reaches_emits)
qed

lemma reaches_joined:
  assumes L: "fold_ok L" "const_env \<sigma>" and r: "joined (b_next b) \<sigma> r P"
    and m: "emits D m b \<sigma> (\<lambda>p b1 \<sigma>1. later b \<sigma> b1 \<sigma>1 \<and> joined (b_next b1) \<sigma>1 p C)"
    and f: "\<And>r2 b2 \<sigma>2. later b \<sigma> b2 \<sigma>2 \<Longrightarrow> joined (b_next b2) \<sigma>2 r2 (P \<and> C) \<Longrightarrow> reaches (f r2) b2 \<sigma>2 Q"
    and g: "\<And>r2. grows (f r2)"
  shows "reaches (do { p \<leftarrow> m; r' \<leftarrow> andInOpt L r p; f r' }) b \<sigma> Q"
proof (rule reaches_bind, rule reaches_mono [OF reaches_emits [OF m L(2)]], elim conjE, rule reaches_bind [OF _ g])
  fix p b1 \<sigma>1
  assume l: "later b \<sigma> b1 \<sigma>1" and p: "joined (b_next b1) \<sigma>1 p C"
  show "reaches (andInOpt L r p) b1 \<sigma>1 (\<lambda>r2 b2 \<sigma>2. reaches (f r2) b2 \<sigma>2 Q)"
    by (rule reaches_mono [OF reaches_andInOpt [OF L(1) laterD(1) [OF l] joined_later [OF l r] p]])
      (rule f [OF later_trans [OF l]])
qed (intro grows g)

lemma reaches_fact_claims:
  assumes L: "fold_ok L"
  shows "const_env \<sigma> \<Longrightarrow> joined (b_next b) \<sigma> r P \<Longrightarrow> \<forall>kf \<in> set kfs. fact_placed K parent vmap (b_next b) \<sigma> kf \<Longrightarrow>
    reaches (fact_claims L K parent vmap kfs r) b \<sigma>
      (\<lambda>r' b' \<sigma>'. joined (b_next b') \<sigma>' r' (P \<and> (\<forall>kf \<in> set kfs. fact_said K parent vmap \<sigma> kf)))"
proof (induction kfs arbitrary: b \<sigma> r P)
  case (Cons kf kfs)
  show ?case
  proof (cases "mapped_value parent vmap (kf_name kf)")
    case None
    then show ?thesis using Cons.IH [OF Cons.prems(1,2)] Cons.prems(3) by (simp add: fact_said_def)
  next
    case (Some p)
    obtain V t where V: "mapped_value parent vmap (kf_name kf) = Some (V, t)" using Some by (cases p) simp
    then obtain w where w: "t = IntTy w" "0 < w" "wf_fact w kf" "val_in (b_next b) \<sigma> w V (\<sigma> V)" "\<not> fact_empty K kf"
      using Cons.prems(3) by (auto simp: fact_placed_def)
    let ?C = "fact_said K parent vmap \<sigma> kf" and ?R = "\<forall>kf \<in> set kfs. fact_said K parent vmap \<sigma> kf"
    have C: "?C \<longleftrightarrow> non_poison (\<sigma> V) \<and> fact_holds K kf (sv_value (\<sigma> V))" using V by (simp add: fact_said_def)
    let ?Q = "\<lambda>r' b' \<sigma>'. joined (b_next b') \<sigma>' r' (P \<and> (\<forall>kf \<in> set (kf # kfs). fact_said K parent vmap \<sigma> kf))"
    have rest: "reaches (fact_claims L K parent vmap kfs r2) b2 \<sigma>2 ?Q"
      if l: "later b \<sigma> b2 \<sigma>2" and j: "joined (b_next b2) \<sigma>2 r2 (P \<and> ?C)" for r2 b2 \<sigma>2
    proof -
      have s: "\<forall>kf \<in> set kfs. fact_placed K parent vmap (b_next b2) \<sigma>2 kf \<and> fact_said K parent vmap \<sigma>2 kf = fact_said K parent vmap \<sigma> kf"
        using placed_later [OF l] Cons.prems(3) by simp
      show ?thesis
        by (rule reaches_mono [OF Cons.IH [OF laterD(1) [OF l] j]]) (use s in \<open>auto simp: conj_ac\<close>)
    qed
    have "emits True (buildFactPredicate L K (IntTy w) V kf) b \<sigma>
        (\<lambda>p b1 \<sigma>1. later b \<sigma> b1 \<sigma>1 \<and> joined (b_next b1) \<sigma>1 p ?C)"
      by (rule emits_buildFactPredicate [OF L Cons.prems(1) w(4,2,3)]) (use w(5) in \<open>auto simp: joined_def C split: option.splits\<close>)
    from reaches_joined [OF L Cons.prems(1,2) this rest grows_fact_claims] show ?thesis unfolding fact_claims.simps V option.case prod.case w(1) .
  qed
qed (simp add: reaches_return)


definition ob_ops :: "func \<Rightarrow> value_map \<Rightarrow> flag_obligation \<times> ty list \<Rightarrow> (val \<times> ty) list option" where
  "ob_ops parent vmap ot = those (map (check_operand parent vmap) (zip (op_keys (fst ot)) (snd ot)))"

definition ob_said :: "func \<Rightarrow> value_map \<Rightarrow> env \<Rightarrow> flag_obligation \<times> ty list \<Rightarrow> bool" where
  "ob_said parent vmap \<sigma> ot \<longleftrightarrow>
     (\<forall>ops. ob_ops parent vmap ot = Some ops \<longrightarrow> flag_claim (ob_kind (fst ot)) (\<sigma> (fst (hd ops))) (\<sigma> (fst (last ops))))"

definition ob_placed :: "func \<Rightarrow> value_map \<Rightarrow> nat \<Rightarrow> env \<Rightarrow> flag_obligation \<times> ty list \<Rightarrow> bool" where
  "ob_placed parent vmap n \<sigma> ot \<longleftrightarrow>
     (\<forall>ops. ob_ops parent vmap ot = Some ops \<longrightarrow>
        (\<exists>w > 0. \<forall>(V, t) \<in> set ops. t = IntTy w \<and> val_in n \<sigma> w V (\<sigma> V)) \<and>
        length ops = (if ob_kind (fst ot) = ZExtNNeg then 1 else 2))"

lemma ob_placed_ops:
  assumes "ob_placed parent vmap n \<sigma> ot" "ob_ops parent vmap ot = Some ops"
  obtains w V V' where "0 < w" "map snd ops = replicate (length ops) (IntTy w)" "val_in n \<sigma> w V (\<sigma> V)" "val_in n \<sigma> w V' (\<sigma> V')"
    "fst (hd ops) = V" "fst (last ops) = V'"
    "if ob_kind (fst ot) = ZExtNNeg then map fst ops = [V] \<and> V' = V else map fst ops = [V, V']" "ops \<noteq> []"
proof -
  obtain w where w: "0 < w" "\<forall>(V, t) \<in> set ops. t = IntTy w \<and> val_in n \<sigma> w V (\<sigma> V)"
      "length ops = (if ob_kind (fst ot) = ZExtNNeg then 1 else 2)"
    using assms by (auto simp: ob_placed_def)
  consider p where "ops = [p]" "ob_kind (fst ot) = ZExtNNeg" | p q where "ops = [p, q]" "ob_kind (fst ot) \<noteq> ZExtNNeg"
    using w(3) by (auto simp: length_Suc_conv numeral_2_eq_2 split: if_splits)
  then show thesis
  proof cases
    case 1
    then show thesis using that [of w "fst p" "fst p"] w by (cases p) auto
  next
    case 2
    then show thesis using that [of w "fst p" "fst q"] w by (cases p; cases q) (auto simp: numeral_2_eq_2)
  qed
qed

lemma ob_later:
  assumes l: "later b \<sigma> b' \<sigma>'" and p: "ob_placed parent vmap (b_next b) \<sigma> ot"
  shows "ob_placed parent vmap (b_next b') \<sigma>' ot" "ob_said parent vmap \<sigma>' ot = ob_said parent vmap \<sigma> ot"
proof -
  have e: "\<sigma>' V = \<sigma> V" if "val_in (b_next b) \<sigma> w V x" for V w x
    using l that frameD [of "b_next b" \<sigma> \<sigma>' V] by (simp add: later_def val_in_def)
  have "ob_placed parent vmap (b_next b') \<sigma>' ot \<and> ob_said parent vmap \<sigma>' ot = ob_said parent vmap \<sigma> ot"
  proof (cases "ob_ops parent vmap ot")
    case (Some ops)
    obtain w where w: "0 < w" "\<forall>(V, t) \<in> set ops. t = IntTy w \<and> val_in (b_next b) \<sigma> w V (\<sigma> V)"
        "length ops = (if ob_kind (fst ot) = ZExtNNeg then 1 else 2)"
      using p Some by (auto simp: ob_placed_def)
    have ne: "ops \<noteq> []" using w(3) by (auto split: if_splits)
    have same: "\<sigma>' (fst q) = \<sigma> (fst q)" if "q \<in> set ops" for q using w(2) that e by (cases q) auto
    have "\<forall>(V, t) \<in> set ops. t = IntTy w \<and> val_in (b_next b') \<sigma>' w V (\<sigma>' V)"
      using w(2) laterD(2) [OF l] same by fastforce
    then show ?thesis using w(1,3) same hd_in_set [OF ne] last_in_set [OF ne] Some
      by (auto simp: ob_placed_def ob_said_def)
  qed (simp add: ob_placed_def ob_said_def)
  then show "ob_placed parent vmap (b_next b') \<sigma>' ot" "ob_said parent vmap \<sigma>' ot = ob_said parent vmap \<sigma> ot" by blast+
qed

lemma reaches_obligation_claims:
  assumes L: "fold_ok L"
  shows "const_env \<sigma> \<Longrightarrow> joined (b_next b) \<sigma> r P \<Longrightarrow> \<forall>ot \<in> set ots. ob_placed parent vmap (b_next b) \<sigma> ot \<Longrightarrow>
    reaches (obligation_claims L parent vmap ots r) b \<sigma>
      (\<lambda>r' b' \<sigma>'. joined (b_next b') \<sigma>' r' (P \<and> (\<forall>ot \<in> set ots. ob_said parent vmap \<sigma> ot)))"
proof (induction ots arbitrary: b \<sigma> r P)
  case (Cons ot ots)
  obtain ob tys where ot: "ot = (ob, tys)" by (cases ot)
  have eq: "obligation_claims L parent vmap (ot # ots) r =
      (case ob_ops parent vmap ot of None \<Rightarrow> obligation_claims L parent vmap ots r
       | Some ops \<Rightarrow> do { p \<leftarrow> buildFlagClaim L (ob_kind ob) (first_ty (map snd ops)) (map fst ops);
                          r' \<leftarrow> andInOpt L r p; obligation_claims L parent vmap ots r' })"
    by (simp add: ot ob_ops_def)
  show ?case
  proof (cases "ob_ops parent vmap ot")
    case None
    then show ?thesis unfolding eq using Cons.IH [OF Cons.prems(1,2)] Cons.prems(3) by (simp add: ob_said_def)
  next
    case (Some ops)
    have pl: "ob_placed parent vmap (b_next b) \<sigma> ot" using Cons.prems(3) by simp
    obtain w V V' where w: "0 < w" "map snd ops = replicate (length ops) (IntTy w)" "val_in (b_next b) \<sigma> w V (\<sigma> V)"
        "val_in (b_next b) \<sigma> w V' (\<sigma> V')" "fst (hd ops) = V" "fst (last ops) = V'"
        "if ob_kind ob = ZExtNNeg then map fst ops = [V] \<and> V' = V else map fst ops = [V, V']" "ops \<noteq> []"
      using ob_placed_ops [OF pl Some] by (metis ot fst_conv)
    let ?C = "ob_said parent vmap \<sigma> ot"
    have C: "?C \<longleftrightarrow> flag_claim (ob_kind ob) (\<sigma> V) (\<sigma> V')" using Some w(5,6) by (simp add: ob_said_def ot)
    have ops: "buildFlagClaim L (ob_kind ob) (first_ty (map snd ops)) (map fst ops) = buildFlagClaim L (ob_kind ob) (IntTy w) [V, V']"
      using w(2,7,8) nneg_one_operand by (cases ops) (auto simp: first_ty_def split: if_splits)
    let ?Q = "\<lambda>r' b' \<sigma>'. joined (b_next b') \<sigma>' r' (P \<and> (\<forall>ot \<in> set (ot # ots). ob_said parent vmap \<sigma> ot))"
    have rest: "reaches (obligation_claims L parent vmap ots r2) b2 \<sigma>2 ?Q"
      if l: "later b \<sigma> b2 \<sigma>2" and j: "joined (b_next b2) \<sigma>2 r2 (P \<and> ?C)" for r2 b2 \<sigma>2
    proof -
      have s: "\<forall>ot \<in> set ots. ob_placed parent vmap (b_next b2) \<sigma>2 ot \<and> ob_said parent vmap \<sigma>2 ot = ob_said parent vmap \<sigma> ot"
        using ob_later [OF l] Cons.prems(3) by simp
      show ?thesis by (rule reaches_mono [OF Cons.IH [OF laterD(1) [OF l] j]]) (use s in \<open>auto simp: conj_ac\<close>)
    qed
    have "emits False (buildFlagClaim L (ob_kind ob) (IntTy w) [V, V']) b \<sigma> (\<lambda>p b1 \<sigma>1. later b \<sigma> b1 \<sigma>1 \<and> joined (b_next b1) \<sigma>1 p ?C)"
      by (rule emits_buildFlagClaim [OF L Cons.prems(1) w(1,3,4)]) (use w(3,4) in \<open>auto simp: joined_def C val_in_def\<close>)
    from reaches_joined [OF L Cons.prems(1,2) this rest grows_obligation_claims] show ?thesis unfolding eq Some option.case ops .
  qed
qed (simp add: reaches_return)


section \<open>Parameters and clones\<close>

lemma emits_later: "emits D m b \<sigma> Q \<Longrightarrow> const_env \<sigma> \<Longrightarrow> emits D m b \<sigma> (\<lambda>V b' \<sigma>'. later b \<sigma> b' \<sigma>' \<and> Q V b' \<sigma>')"
  by (erule emits_mono) (auto simp: later_def dest: frame_const_env)

lemma emits_assume_args:
  assumes L: "fold_ok L"
  shows "const_env \<sigma> \<Longrightarrow>
    \<forall>k < length ns. \<exists>w > 0. arg_ty (f_args parent ! (ns ! k)) = IntTy w \<and> wf_sv w (\<sigma> (ArgV (i + k))) \<and> non_poison (\<sigma> (ArgV (i + k))) \<Longrightarrow>
    emits True (assume_args L parent i ns) b \<sigma> (\<lambda>_ _ _. True)"
proof (induction ns arbitrary: i b \<sigma>)
  case (Cons n ns)
  obtain w where w: "0 < w" "arg_ty (f_args parent ! n) = IntTy w" "wf_sv w (\<sigma> (ArgV i))" "non_poison (\<sigma> (ArgV i))"
    using Cons.prems(2) by force
  have V: "val_in (b_next b) \<sigma> w (ArgV i) (\<sigma> (ArgV i))" using w(3) by (simp add: val_in_def)
  have same: "\<sigma>' (ArgV j) = \<sigma> (ArgV j)" if "later b \<sigma> b' \<sigma>'" for b' \<sigma>' j
    using that frameD [of "b_next b" \<sigma> \<sigma>' "ArgV j"] by (simp add: later_def)
  have rest: "emits True (assume_args L parent (Suc i) ns) b' \<sigma>' (\<lambda>_ _ _. True)" if l: "later b \<sigma> b' \<sigma>'" for b' \<sigma>'
    by (rule Cons.IH [OF laterD(1) [OF l]]) (use Cons.prems(2) same [OF l] in \<open>force simp: all_conj_distrib\<close>)
  have pf: "emits True (claim_pf L (arg_name (f_args parent ! n)) (IntTy w) (ArgV i)) b \<sigma>
      (\<lambda>p b1 \<sigma>1. later b \<sigma> b1 \<sigma>1 \<and> is_claim (b_next b1) \<sigma>1 p True)"
    by (rule emits_claim_pf [OF L Cons.prems(1) V w(1)]) (use w(4) in simp)
  show ?case unfolding assume_args.simps w(2)
  proof (rule emits_bind, rule emits_mono [OF pf], elim conjE, rule emits_bind)
    fix p b1 \<sigma>1
    assume l: "later b \<sigma> b1 \<sigma>1" and p: "is_claim (b_next b1) \<sigma>1 p True"
    show "emits True (create_assume L p) b1 \<sigma>1 (\<lambda>_ b2 \<sigma>2. emits True (assume_args L parent (Suc i) ns) b2 \<sigma>2 (\<lambda>_ _ _. True))"
      by (rule emits_mono [OF emits_later [OF emits_create_assume [OF p] laterD(1) [OF l]]]) (auto intro: rest later_trans [OF l])
  qed (intro grows)+
qed (simp add: emits_return)

lemma inst_sem_rename:
  assumes "map \<sigma> ops = map \<rho> (i_ops I)"
  shows "inst_defined \<sigma> (I\<lparr>i_id := n, i_name := nm, i_ops := ops\<rparr>) = inst_defined \<rho> I"
    "inst_result \<sigma> (I\<lparr>i_id := n, i_name := nm, i_ops := ops\<rparr>) v = inst_result \<rho> I v"
proof -
  have l: "length ops = length (i_ops I)" using arg_cong [OF assms, of length] by simp
  consider "i_ops I = []" | a where "i_ops I = [a]" | a b where "i_ops I = [a, b]" | a b c where "i_ops I = [a, b, c]"
    | a b c d xs where "i_ops I = a # b # c # d # xs" by (metis list.exhaust)
  then have "inst_defined \<sigma> (I\<lparr>i_id := n, i_name := nm, i_ops := ops\<rparr>) = inst_defined \<rho> I \<and>
      inst_result \<sigma> (I\<lparr>i_id := n, i_name := nm, i_ops := ops\<rparr>) v = inst_result \<rho> I v"
    using assms l
    by cases (auto simp: inst_defined_def inst_result.simps binop_flags_of_def conv_flags_of_def length_Suc_conv split: opcode.splits)
  then show "inst_defined \<sigma> (I\<lparr>i_id := n, i_name := nm, i_ops := ops\<rparr>) = inst_defined \<rho> I"
    "inst_result \<sigma> (I\<lparr>i_id := n, i_name := nm, i_ops := ops\<rparr>) v = inst_result \<rho> I v" by blast+
qed

text \<open>The clones made so far have the values of their originals.\<close>

definition mirrors :: "value_map \<Rightarrow> nat \<Rightarrow> env \<Rightarrow> env \<Rightarrow> bool" where
  "mirrors vmap n \<rho> \<sigma> \<longleftrightarrow> (\<forall>V V'. vmap V = Some V' \<longrightarrow> old n V' \<and> \<sigma> V' = \<rho> V) \<and> const_env \<rho>"

lemma reaches_insert_clone:
  assumes "const_env \<sigma>" "map \<sigma> (map (map_operand vmap) (i_ops I)) = map \<rho> (i_ops I)" "inst_defined \<rho> I" "inst_result \<rho> I v"
    "\<forall>w. i_ty I = IntTy w \<longrightarrow> 0 < w \<longrightarrow> wf_sv w v"
  shows "reaches (insert_clone L vmap I) b \<sigma> (\<lambda>V b' \<sigma>'. V = InstV (b_next b) \<and> b_next b' = Suc (b_next b) \<and> \<sigma>' = \<sigma>(InstV (b_next b) := v))"
proof -
  define nm where "nm = pick_name L (b_names b) (i_name I)"
  let ?c = "I\<lparr>i_id := b_next b, i_name := nm, i_ops := map (map_operand vmap) (i_ops I)\<rparr>"
  let ?b = "b\<lparr>b_next := Suc (b_next b), b_insts := b_insts b @ [?c], b_names := (if nm = [] then b_names b else nm # b_names b)\<rparr>"
  have r: "run_state (insert_clone L vmap I) b = (InstV (b_next b), ?b)" by (simp add: insert_clone_def Let_def nm_def)
  have x: "extends b ?b [?c]" by (simp add: extends_def)
  have "run \<sigma> [?c] (\<sigma>(InstV (i_id ?c) := v))"
    using assms(3-5) inst_sem_rename [OF assms(2)] by (simp add: run_Cons_iff run_Nil_iff) blast
  moreover have "later b \<sigma> ?b (\<sigma>(InstV (b_next b) := v))"
    using frame_const_env [of "b_next b" \<sigma> "\<sigma>(InstV (b_next b) := v)"] assms(1) by (simp add: later_def)
  ultimately show ?thesis unfolding reaches_def using r x by (intro exI conjI) auto
qed

text \<open>An instruction whose operands are constants or have clones.\<close>

definition covered :: "nat set \<Rightarrow> nat set \<Rightarrow> inst \<Rightarrow> bool" where
  "covered S A I \<longleftrightarrow> (\<forall>V \<in> set (i_ops I). case V of InstV n \<Rightarrow> n \<in> S | ArgV n \<Rightarrow> n \<in> A | _ \<Rightarrow> True)"

lemma covered_operand:
  assumes "mirrors vmap n \<rho> \<sigma>" "const_env \<sigma>" "covered {n. vmap (InstV n) \<noteq> None} {n. vmap (ArgV n) \<noteq> None} I" "V \<in> set (i_ops I)"
  shows "\<sigma> (map_operand vmap V) = \<rho> V"
proof (cases "vmap V")
  case None
  then have "isConstant V" using assms(3,4) by (auto simp: covered_def isConstant_def split: val.splits)
  then show ?thesis using None assms(1,2) by (simp add: mirrors_def map_operand_def const_env_def)
qed (use assms(1) in \<open>auto simp: mirrors_def map_operand_def\<close>)

lemma mirrors_skip:
  assumes "mirrors vmap n \<rho> \<sigma>" "vmap (InstV k) = None"
  shows "mirrors vmap n (\<rho>(InstV k := v)) \<sigma>"
  using assms unfolding mirrors_def const_env_def by (auto simp: isConstant_def)

lemma mirrors_clone:
  assumes "mirrors vmap n \<rho> \<sigma>" "vmap (InstV k) = None"
  shows "mirrors (vmap(InstV k \<mapsto> InstV n)) (Suc n) (\<rho>(InstV k := v)) (\<sigma>(InstV n := v))"
proof -
  have "old (Suc n) V' \<and> (\<sigma>(InstV n := v)) V' = (\<rho>(InstV k := v)) V" if "vmap V = Some V'" "V \<noteq> InstV k" for V V'
  proof -
    have "old n V'" "\<sigma> V' = \<rho> V" using assms(1) that(1) by (simp_all add: mirrors_def)
    moreover from this have "V' \<noteq> InstV n" by auto
    ultimately show ?thesis using that(2) old_mono [of n V' "Suc n"] by simp
  qed
  moreover have "const_env (\<rho>(InstV k := v))" using mirrors_skip [OF assms] by (simp add: mirrors_def)
  ultimately show ?thesis unfolding mirrors_def by simp
qed

lemma covered_mono: "covered S A I \<Longrightarrow> S \<subseteq> S' \<Longrightarrow> A \<subseteq> A' \<Longrightarrow> covered S' A' I"
  unfolding covered_def by (fastforce split: val.splits)

text \<open>Every instruction of \<open>S\<close> reads constants, values that have clones, and instructions of \<open>S\<close> before it.\<close>

fun readable :: "nat set \<Rightarrow> nat set \<Rightarrow> nat set \<Rightarrow> inst list \<Rightarrow> bool" where
  "readable S D A [] \<longleftrightarrow> True"
| "readable S D A (I # Is) \<longleftrightarrow> (i_id I \<in> S \<longrightarrow> covered D A I) \<and> readable S (if i_id I \<in> S then insert (i_id I) D else D) A Is"

abbreviation clone_dom :: "value_map \<Rightarrow> nat set" where "clone_dom vmap \<equiv> {n. vmap (InstV n) \<noteq> None}"
abbreviation arg_dom :: "value_map \<Rightarrow> nat set" where "arg_dom vmap \<equiv> {n. vmap (ArgV n) \<noteq> None}"

lemma reaches_clone_slice:
  assumes L: "fold_ok L"
  shows "run \<rho> Is \<rho>' \<Longrightarrow> const_env \<sigma> \<Longrightarrow> mirrors vmap (b_next b) \<rho> \<sigma> \<Longrightarrow> distinct (map i_id Is) \<Longrightarrow>
    \<forall>I \<in> set Is. vmap (InstV (i_id I)) = None \<Longrightarrow> readable S (clone_dom vmap) (arg_dom vmap) Is \<Longrightarrow>
    reaches (clone_slice L S Is vmap) b \<sigma>
      (\<lambda>vmap' b' \<sigma>'. mirrors vmap' (b_next b') \<rho>' \<sigma>' \<and>
         (\<forall>V. vmap' V \<noteq> None \<longleftrightarrow> vmap V \<noteq> None \<or> (\<exists>I \<in> set Is. V = InstV (i_id I) \<and> i_id I \<in> S)))"
proof (induction arbitrary: vmap b \<sigma> rule: run.induct)
  case (run_Nil \<rho>)
  then show ?case by (simp add: reaches_return)
next
  case (run_Cons \<rho> I v Is \<rho>')
  have fresh: "vmap (InstV (i_id I)) = None" using run_Cons.prems(4) by simp
  show ?case
  proof (cases "i_id I \<in> S")
    case False
    have "readable S (clone_dom vmap) (arg_dom vmap) Is" "distinct (map i_id Is)" "\<forall>I \<in> set Is. vmap (InstV (i_id I)) = None"
      using run_Cons.prems(3-5) False by simp_all
    from run_Cons.IH [OF run_Cons.prems(1) mirrors_skip [OF run_Cons.prems(2) fresh] this(2,3,1)]
    show ?thesis using False by simp
  next
    case True
    let ?vm = "vmap(InstV (i_id I) \<mapsto> InstV (b_next b))"
    have cov: "covered (clone_dom vmap) (arg_dom vmap) I" "readable S (insert (i_id I) (clone_dom vmap)) (arg_dom vmap) Is"
      using run_Cons.prems(5) True by simp_all
    have dom: "clone_dom ?vm = insert (i_id I) (clone_dom vmap)" "arg_dom ?vm = arg_dom vmap" by auto
    have ops: "map \<sigma> (map (map_operand vmap) (i_ops I)) = map \<rho> (i_ops I)"
      using covered_operand [OF run_Cons.prems(2,1) cov(1)] by simp
    have d: "distinct (map i_id Is)" "\<forall>J \<in> set Is. ?vm (InstV (i_id J)) = None" using run_Cons.prems(3,4) by (auto simp: image_iff)
    have step: "reaches (clone_slice L S Is ?vm) b1 (\<sigma>(InstV (b_next b) := v))
        (\<lambda>vmap' b' \<sigma>'. mirrors vmap' (b_next b') \<rho>' \<sigma>' \<and>
         (\<forall>V. vmap' V \<noteq> None \<longleftrightarrow> vmap V \<noteq> None \<or> (\<exists>J \<in> set (I # Is). V = InstV (i_id J) \<and> i_id J \<in> S)))"
      if b1: "b_next b1 = Suc (b_next b)" "const_env (\<sigma>(InstV (b_next b) := v))" for b1
    proof -
      have m: "mirrors ?vm (b_next b1) (\<rho>(InstV (i_id I) := v)) (\<sigma>(InstV (b_next b) := v))"
        unfolding b1(1) by (rule mirrors_clone [OF run_Cons.prems(2) fresh])
      show ?thesis
        by (rule reaches_mono [OF run_Cons.IH [OF b1(2) m d, unfolded dom, OF cov(2)]]) (use True in auto)
    qed
    have e: "clone_slice L S (I # Is) vmap = do { V \<leftarrow> insert_clone L vmap I; clone_slice L S Is (vmap(InstV (i_id I) \<mapsto> V)) }"
      using True by simp
    show ?thesis unfolding e
    proof (rule reaches_bind, rule reaches_mono [OF reaches_insert_clone [OF run_Cons.prems(1) ops run_Cons.hyps(1-3)]], elim conjE)
      fix V b1 \<sigma>1
      assume "later b \<sigma> b1 \<sigma>1" "V = InstV (b_next b)" "b_next b1 = Suc (b_next b)" "\<sigma>1 = \<sigma>(InstV (b_next b) := v)"
      then show "reaches (clone_slice L S Is (vmap(InstV (i_id I) \<mapsto> V))) b1 \<sigma>1 (\<lambda>vmap' b' \<sigma>'. mirrors vmap' (b_next b') \<rho>' \<sigma>' \<and>
         (\<forall>V. vmap' V \<noteq> None \<longleftrightarrow> vmap V \<noteq> None \<or> (\<exists>J \<in> set (I # Is). V = InstV (i_id J) \<and> i_id J \<in> S)))"
        using step laterD(1) by blast
    qed (intro grows)
  qed
qed


section \<open>Slices are closed\<close>

text \<open>A parent without branches, numbered in program order, with distinct names.\<close>

definition straight :: "func \<Rightarrow> bool" where
  "straight f \<longleftrightarrow> sorted_wrt (<) (map i_id (all_insts f)) \<and> ordered_code (all_insts f) \<and>
     (\<forall>I \<in> set (all_insts f). \<forall>V \<in> set (i_ops I).
        case V of InstV n \<Rightarrow> n \<in> inst_ids f | ArgV n \<Rightarrow> n < length (f_args f) | _ \<Rightarrow> True) \<and>
     (\<forall>I \<in> set (all_insts f). \<forall>J \<in> set (all_insts f). i_name I \<noteq> [] \<longrightarrow> i_name I = i_name J \<longrightarrow> I = J)"

lemma straight_distinct: "straight f \<Longrightarrow> distinct (map i_id (all_insts f))"
  by (simp add: straight_def strict_sorted_iff)

lemma find_inst_straight: "straight f \<Longrightarrow> I \<in> set (all_insts f) \<Longrightarrow> find_inst f (i_id I) = Some I"
  using straight_distinct [of f] unfolding find_inst_def
  by (induction "all_insts f" arbitrary: f rule: list.induct) (auto simp: find_Some_iff distinct_conv_nth in_set_conv_nth)

lemma readable_closed:
  "sorted_wrt (<) (map i_id Is) \<Longrightarrow> ordered_code Is \<Longrightarrow> \<forall>I \<in> set Is. i_id I \<in> S \<longrightarrow> covered S A I \<Longrightarrow>
     \<forall>n \<in> S. n \<notin> set (map i_id Is) \<longrightarrow> n \<in> D \<Longrightarrow> readable S D A Is"
proof (induction Is arbitrary: D)
  case (Cons I Is)
  have "covered D A I" if "i_id I \<in> S"
    unfolding covered_def
  proof (intro ballI)
    fix V
    assume V: "V \<in> set (i_ops I)"
    have c: "case V of InstV n \<Rightarrow> n \<in> S | ArgV n \<Rightarrow> n \<in> A | _ \<Rightarrow> True" using Cons.prems(3) that V by (simp add: covered_def)
    have o: "old (i_id I) V" using Cons.prems(2) V by (simp add: ordered_code_def list_all_iff)
    have "n \<notin> set (map i_id (I # Is))" if "n < i_id I" for n using Cons.prems(1) that by auto
    then show "case V of InstV n \<Rightarrow> n \<in> D | ArgV n \<Rightarrow> n \<in> A | _ \<Rightarrow> True"
      using c o Cons.prems(4) by (cases V) auto
  qed
  moreover have "readable S (if i_id I \<in> S then insert (i_id I) D else D) A Is"
    by (rule Cons.IH) (use Cons.prems in \<open>auto simp: ordered_code_def\<close>)
  ultimately show ?case by simp
qed simp

lemma slice_covered:
  assumes st: "straight f" and sl: "collectBackwardSlice nm f = Some sl" and I: "I \<in> set (sl_insts sl)"
  shows "covered (set (map i_id (sl_insts sl))) (set (arg_roots sl)) I" "I \<in> set (all_insts f)"
proof -
  obtain root where "find_root nm f = Some root" and r: "sl_insts sl = filter (\<lambda>I. (i_id root, i_id I) \<in> (reads f)\<^sup>*) (all_insts f)"
      "set (arg_roots sl) = args_of f {n. (i_id root, n) \<in> (reads f)\<^sup>*}"
    using slice_reach [OF sl] by (elim exE conjE)
  show If: "I \<in> set (all_insts f)" using I r(1) by simp
  note fI = find_inst_straight [OF st If]
  have reach: "(i_id root, i_id I) \<in> (reads f)\<^sup>*" using I r(1) by simp
  show "covered (set (map i_id (sl_insts sl))) (set (arg_roots sl)) I"
    unfolding covered_def
  proof (intro ballI)
    fix V
    assume V: "V \<in> set (i_ops I)"
    show "case V of InstV n \<Rightarrow> n \<in> set (map i_id (sl_insts sl)) | ArgV n \<Rightarrow> n \<in> set (arg_roots sl) | _ \<Rightarrow> True"
    proof (cases V)
      case (InstV n)
      then have "n \<in> inst_ids f" using st If V by (fastforce simp: straight_def)
      then obtain J where J: "J \<in> set (all_insts f)" "i_id J = n" by (auto simp: inst_ids_def)
      have "(i_id I, n) \<in> reads f"
        using fI find_inst_straight [OF st J(1)] J(2) V InstV by (force simp: reads_def op_insts_def)
      then have "(i_id root, i_id J) \<in> (reads f)\<^sup>*" using reach J(2) by simp
      then show ?thesis using J InstV r(1) by auto
    next
      case (ArgV n)
      then have "n \<in> set (op_args I)" using V by (force simp: op_args_def)
      then show ?thesis using ArgV r(2) reach fI by (auto simp: args_of_def intro!: exI [of _ "i_id I"])
    qed simp_all
  qed
qed


section \<open>The check unit\<close>

definition slice_set :: "known_fact list \<Rightarrow> nat set" where
  "slice_set fs = (\<Union>kf \<in> set fs. set (map i_id (sl_insts (kf_slice kf))))"

definition arg_set :: "known_fact list \<Rightarrow> nat set" where
  "arg_set fs = (\<Union>kf \<in> set fs. set (arg_roots (kf_slice kf)))"

definition arg_map :: "nat list \<Rightarrow> value_map" where
  "arg_map ns V = (case V of ArgV n \<Rightarrow> map_option ArgV (find (\<lambda>i. ns ! i = n) [0..<length ns]) | _ \<Rightarrow> None)"

lemma union_args_set: "set (union_args fs) = arg_set fs"
  unfolding union_args_def arg_set_def by (intro set_sorted_list_of_set) simp

lemma arg_map_Some: "arg_map ns (ArgV n) = Some V' \<Longrightarrow> \<exists>i < length ns. V' = ArgV i \<and> ns ! i = n"
  by (auto simp: arg_map_def find_Some_iff)

lemma arg_map_dom: "arg_map ns (ArgV n) \<noteq> None \<longleftrightarrow> n \<in> set ns" "arg_map ns (InstV n) = None" "arg_map ns (ConstInt c) = None"
  "arg_map ns (ConstOther s t) = None"
  by (auto simp: arg_map_def find_None_iff in_set_conv_nth)

text \<open>Facts whose slices are those of the parent.\<close>

definition from_parent :: "func \<Rightarrow> known_fact list \<Rightarrow> bool" where
  "from_parent f fs \<longleftrightarrow> (\<forall>kf \<in> set fs. collectBackwardSlice (kf_name kf) f = Some (kf_slice kf))"

lemma slices_covered:
  assumes st: "straight f" and fs: "from_parent f fs" and I: "I \<in> set (all_insts f)" "i_id I \<in> slice_set fs"
  shows "covered (slice_set fs) (arg_set fs) I"
proof -
  obtain kf J where kf: "kf \<in> set fs" "J \<in> set (sl_insts (kf_slice kf))" "i_id J = i_id I" using I(2) by (auto simp: slice_set_def)
  then have sl: "collectBackwardSlice (kf_name kf) f = Some (kf_slice kf)" using fs by (simp add: from_parent_def)
  note c = slice_covered [OF st sl kf(2)]
  have "J = I"
    using trans [OF find_inst_straight [OF st c(2), symmetric, unfolded kf(3)] find_inst_straight [OF st I(1)]] by (rule option.inject [THEN iffD1])
  moreover have "covered (slice_set fs) (arg_set fs) J"
  proof (rule covered_mono [OF c(1)])
    show "set (map i_id (sl_insts (kf_slice kf))) \<subseteq> slice_set fs" unfolding slice_set_def using kf(1) by (intro UN_upper)
    show "set (arg_roots (kf_slice kf)) \<subseteq> arg_set fs" unfolding arg_set_def using kf(1) by (intro UN_upper)
  qed
  ultimately show ?thesis by simp
qed

lemma slice_set_ids:
  assumes "straight f" "from_parent f fs"
  shows "slice_set fs \<subseteq> set (map i_id (all_insts f))"
proof
  fix n
  assume "n \<in> slice_set fs"
  then obtain kf J where kf: "kf \<in> set fs" "J \<in> set (sl_insts (kf_slice kf))" "i_id J = n" by (auto simp: slice_set_def)
  then have "collectBackwardSlice (kf_name kf) f = Some (kf_slice kf)" using assms(2) by (simp add: from_parent_def)
  then show "n \<in> set (map i_id (all_insts f))" using slice_covered(2) [OF assms(1) _ kf(2)] kf(3) by auto
qed

lemma arg_set_args:
  assumes st: "straight f" and fs: "from_parent f fs" and n: "n \<in> arg_set fs"
  shows "n < length (f_args f)"
proof -
  obtain kf where kf: "kf \<in> set fs" "n \<in> set (arg_roots (kf_slice kf))" using n by (auto simp: arg_set_def)
  have sl: "collectBackwardSlice (kf_name kf) f = Some (kf_slice kf)" using fs kf(1) by (simp add: from_parent_def)
  obtain root where "find_root (kf_name kf) f = Some root"
      and r: "set (arg_roots (kf_slice kf)) = args_of f {n. (i_id root, n) \<in> (reads f)\<^sup>*}"
    using slice_reach [OF sl] by (elim exE conjE)
  obtain k I where I: "find_inst f k = Some I" "n \<in> set (op_args I)" using kf(2) unfolding r args_of_def by (auto split: option.splits)
  have V: "ArgV n \<in> set (i_ops I)" using I(2) by (auto simp: op_args_def split: val.splits)
  have "I \<in> set (all_insts f)" using find_inst_id [OF I(1)] by simp
  then have "case ArgV n of InstV n \<Rightarrow> n \<in> inst_ids f | ArgV n \<Rightarrow> n < length (f_args f) | _ \<Rightarrow> True"
    using st V unfolding straight_def by blast
  then show ?thesis by simp
qed

text \<open>The root of a slice has a clone.\<close>

lemma named_root:
  assumes st: "straight f" and sl: "collectBackwardSlice nm f = Some sl"
  shows "\<exists>I \<in> set (all_insts f). findValueByName nm f = Some (InstV (i_id I)) \<and> I \<in> set (sl_insts sl)"
proof -
  obtain I where I: "I \<in> set (all_insts f)" "i_name I = nm" "nm \<noteq> []" "findValueByName nm f = Some (InstV (i_id I))"
    using slice_named_inst [OF sl] by blast
  obtain root where r: "find_root nm f = Some root"
    and s: "sl_insts sl = filter (\<lambda>I. (i_id root, i_id I) \<in> (reads f)\<^sup>*) (all_insts f)"
    using slice_reach [OF sl] by (elim exE conjE)
  have "root \<in> set (all_insts f) \<and> i_name root = nm" using find_root_props(1) [OF r] by simp
  then have "root = I" using st I by (auto simp: straight_def)
  then show ?thesis using I s by auto
qed

lemma run_typed:
  "run \<rho> Is \<rho>' \<Longrightarrow> distinct (map i_id Is) \<Longrightarrow>
     (\<forall>V. (\<forall>I \<in> set Is. V \<noteq> InstV (i_id I)) \<longrightarrow> \<rho>' V = \<rho> V) \<and>
     (\<forall>I \<in> set Is. \<forall>w. i_ty I = IntTy w \<longrightarrow> 0 < w \<longrightarrow> wf_sv w (\<rho>' (InstV (i_id I))))"
proof (induction rule: run.induct)
  case (run_Cons \<rho> I v Is \<rho>')
  then have IH: "\<forall>V. (\<forall>I \<in> set Is. V \<noteq> InstV (i_id I)) \<longrightarrow> \<rho>' V = (\<rho>(InstV (i_id I) := v)) V"
      "\<forall>I \<in> set Is. \<forall>w. i_ty I = IntTy w \<longrightarrow> 0 < w \<longrightarrow> wf_sv w (\<rho>' (InstV (i_id I)))"
    by simp_all
  have "\<rho>' (InstV (i_id I)) = v" using IH(1) run_Cons.prems by (auto simp: image_iff)
  then show ?case using IH run_Cons.hyps(3) by auto
qed simp


text \<open>What a fact and an obligation say of the values of the parent.\<close>

definition fact_in :: "kb_ops \<Rightarrow> func \<Rightarrow> env \<Rightarrow> known_fact \<Rightarrow> bool" where
  "fact_in K f \<rho> kf \<longleftrightarrow>
     (\<exists>V. findValueByName (kf_name kf) f = Some V \<and> non_poison (\<rho> V) \<and> fact_holds K kf (sv_value (\<rho> V)))"

definition key_value :: "func \<Rightarrow> env \<Rightarrow> operand_key \<Rightarrow> state_value" where
  "key_value f \<rho> k =
     (if k_is_const k then sv (const_val k) True
      else case findValueByName (k_name k) f of Some V \<Rightarrow> \<rho> V | None \<Rightarrow> poison_of VoidTy)"

definition ob_in :: "func \<Rightarrow> env \<Rightarrow> flag_obligation \<Rightarrow> bool" where
  "ob_in f \<rho> ob \<longleftrightarrow> flag_claim (ob_kind ob) (key_value f \<rho> (hd (op_keys ob))) (key_value f \<rho> (last (op_keys ob)))"

text \<open>Well-formed facts and obligations about the parent.\<close>

definition wf_parent_fact :: "kb_ops \<Rightarrow> func \<Rightarrow> known_fact \<Rightarrow> bool" where
  "wf_parent_fact K f kf \<longleftrightarrow> \<not> fact_empty K kf \<and>
     (\<exists>w > 0. \<exists>V. findValueByName (kf_name kf) f = Some V \<and> val_ty f V = IntTy w \<and> wf_fact w kf)"

definition wf_key :: "func \<Rightarrow> known_fact list \<Rightarrow> nat \<Rightarrow> operand_key \<times> ty \<Rightarrow> bool" where
  "wf_key f fs w kt \<longleftrightarrow>
     (if k_is_const (fst kt) then snd kt = IntTy w \<and> wf_bv (const_val (fst kt)) \<and> bits (const_val (fst kt)) = w
      else k_name (fst kt) \<in> kf_name ` set fs \<and>
           (\<exists>V. findValueByName (k_name (fst kt)) f = Some V \<and> val_ty f V = IntTy w))"

definition wf_parent_ob :: "func \<Rightarrow> known_fact list \<Rightarrow> flag_obligation \<times> ty list \<Rightarrow> bool" where
  "wf_parent_ob f fs ot \<longleftrightarrow>
     length (snd ot) = length (op_keys (fst ot)) \<and> length (op_keys (fst ot)) = (if ob_kind (fst ot) = ZExtNNeg then 1 else 2) \<and>
     (\<exists>w > 0. \<forall>kt \<in> set (zip (op_keys (fst ot)) (snd ot)). wf_key f fs w kt)"

lemma mapped_fact:
  assumes st: "straight f" and fs: "from_parent f fs" and kf: "kf \<in> set fs" and m: "mirrors vm n \<rho> \<sigma>"
    and dom: "\<And>I. I \<in> set (all_insts f) \<Longrightarrow> i_id I \<in> slice_set fs \<Longrightarrow> vm (InstV (i_id I)) \<noteq> None"
  shows "\<exists>I V. I \<in> set (all_insts f) \<and> findValueByName (kf_name kf) f = Some (InstV (i_id I)) \<and>
    mapped_value f vm (kf_name kf) = Some (V, val_ty f (InstV (i_id I))) \<and> val_ty f (InstV (i_id I)) = i_ty I \<and>
    \<sigma> V = \<rho> (InstV (i_id I)) \<and> old n V"
proof -
  have sl: "collectBackwardSlice (kf_name kf) f = Some (kf_slice kf)" using fs kf by (simp add: from_parent_def)
  obtain I where I: "I \<in> set (all_insts f)" "findValueByName (kf_name kf) f = Some (InstV (i_id I))" "I \<in> set (sl_insts (kf_slice kf))"
    using named_root [OF st sl] by blast
  have "i_id I \<in> slice_set fs" using I(3) kf by (auto simp: slice_set_def)
  then obtain V where V: "vm (InstV (i_id I)) = Some V" using dom [OF I(1)] by blast
  have "val_ty f (InstV (i_id I)) = i_ty I" using find_inst_straight [OF st I(1)] by (simp add: val_ty_def)
  then show ?thesis using I V m by (auto simp: mapped_value_def mirrors_def)
qed

lemma check_ops:
  "\<forall>kt \<in> set kts. \<exists>V. check_operand f vm kt = Some (V, IntTy w) \<and> val_in n \<sigma> w V (\<sigma> V) \<and> \<sigma> V = g (fst kt) \<Longrightarrow>
   \<exists>ops. those (map (check_operand f vm) kts) = Some ops \<and> length ops = length kts \<and>
     (\<forall>(V, t) \<in> set ops. t = IntTy w \<and> val_in n \<sigma> w V (\<sigma> V)) \<and> map (\<lambda>p. \<sigma> (fst p)) ops = map (\<lambda>kt. g (fst kt)) kts"
proof (induction kts)
  case (Cons kt kts)
  then obtain V ops where "check_operand f vm kt = Some (V, IntTy w)" "val_in n \<sigma> w V (\<sigma> V)" "\<sigma> V = g (fst kt)"
      "those (map (check_operand f vm) kts) = Some ops" "length ops = length kts"
      "\<forall>(V, t) \<in> set ops. t = IntTy w \<and> val_in n \<sigma> w V (\<sigma> V)" "map (\<lambda>p. \<sigma> (fst p)) ops = map (\<lambda>kt. g (fst kt)) kts"
    by auto
  then show ?case by (intro exI [of _ "(V, IntTy w) # ops"]) simp
qed simp

lemma ob_placed_in:
  assumes st: "straight f" and fs: "from_parent f fs" and m: "mirrors vm n \<rho> \<sigma>" and c: "const_env \<sigma>"
    and dom: "\<And>I. I \<in> set (all_insts f) \<Longrightarrow> i_id I \<in> slice_set fs \<Longrightarrow> vm (InstV (i_id I)) \<noteq> None"
    and ty: "\<And>I w. I \<in> set (all_insts f) \<Longrightarrow> i_ty I = IntTy w \<Longrightarrow> 0 < w \<Longrightarrow> wf_sv w (\<rho> (InstV (i_id I)))"
    and ot: "wf_parent_ob f fs ot"
  shows "ob_placed f vm n \<sigma> ot" "ob_said f vm \<sigma> ot = ob_in f \<rho> (fst ot)"
proof -
  obtain w where w: "0 < w" "\<forall>kt \<in> set (zip (op_keys (fst ot)) (snd ot)). wf_key f fs w kt" using ot by (auto simp: wf_parent_ob_def)
  have key: "\<exists>V. check_operand f vm kt = Some (V, IntTy w) \<and> val_in n \<sigma> w V (\<sigma> V) \<and> \<sigma> V = key_value f \<rho> (fst kt)" if kt: "wf_key f fs w kt" for kt
  proof (cases "k_is_const (fst kt)")
    case True
    then have k: "snd kt = IntTy w" "wf_bv (const_val (fst kt))" "bits (const_val (fst kt)) = w" using kt by (simp_all add: wf_key_def)
    have "\<sigma> (ConstInt (const_val (fst kt))) = sv (const_val (fst kt)) True"
      using c by (simp add: const_env_def isConstant_def start_env_def)
    then show ?thesis using True k val_in_ConstInt [OF c k(2,3)] by (simp add: check_operand_def key_value_def)
  next
    case False
    then obtain kf where kf: "kf \<in> set fs" "kf_name kf = k_name (fst kt)" using kt by (auto simp: wf_key_def)
    obtain I V where I: "I \<in> set (all_insts f)" "findValueByName (kf_name kf) f = Some (InstV (i_id I))"
        "mapped_value f vm (kf_name kf) = Some (V, val_ty f (InstV (i_id I)))" "val_ty f (InstV (i_id I)) = i_ty I"
        "\<sigma> V = \<rho> (InstV (i_id I))" "old n V"
      using mapped_fact [OF st fs kf(1) m dom] by blast
    have t: "i_ty I = IntTy w" using kt False I(2,4) kf(2) by (auto simp: wf_key_def)
    then show ?thesis using False I kf(2) ty [OF I(1) t w(1)] by (simp add: check_operand_def key_value_def val_in_def)
  qed
  have kts: "\<forall>kt \<in> set (zip (op_keys (fst ot)) (snd ot)). \<exists>V. check_operand f vm kt = Some (V, IntTy w) \<and> val_in n \<sigma> w V (\<sigma> V) \<and> \<sigma> V = key_value f \<rho> (fst kt)"
    using key w(2) by blast
  obtain ops where ops: "ob_ops f vm ot = Some ops" "length ops = length (zip (op_keys (fst ot)) (snd ot))"
      "\<forall>(V, t) \<in> set ops. t = IntTy w \<and> val_in n \<sigma> w V (\<sigma> V)"
      "map (\<lambda>p. \<sigma> (fst p)) ops = map (\<lambda>kt. key_value f \<rho> (fst kt)) (zip (op_keys (fst ot)) (snd ot))"
    using check_ops [OF kts] by (auto simp: ob_ops_def)
  have len: "length (snd ot) = length (op_keys (fst ot))" "length (op_keys (fst ot)) = (if ob_kind (fst ot) = ZExtNNeg then 1 else 2)"
    using ot by (simp_all add: wf_parent_ob_def)
  have "map (\<lambda>p. \<sigma> (fst p)) ops = map (key_value f \<rho>) (op_keys (fst ot))"
    unfolding ops(4) using len(1) by (metis (no_types, lifting) map_fst_zip map_map comp_def map_cong)
  moreover have ne: "ops \<noteq> []" "op_keys (fst ot) \<noteq> []" using ops(2) len by (auto split: if_splits)
  ultimately have ends: "\<sigma> (fst (hd ops)) = key_value f \<rho> (hd (op_keys (fst ot)))" "\<sigma> (fst (last ops)) = key_value f \<rho> (last (op_keys (fst ot)))"
    by (metis (no_types, lifting) hd_map, metis (no_types, lifting) last_map)
  show "ob_placed f vm n \<sigma> ot"
    using ops(1-3) w(1) len ends ot by (auto simp: ob_placed_def wf_parent_ob_def)
  show "ob_said f vm \<sigma> ot = ob_in f \<rho> (fst ot)" using ops(1) ends by (simp add: ob_said_def ob_in_def)
qed


section \<open>Soundness of the check\<close>

text \<open>A parent and one of its runs, on arguments that are not poison.\<close>

definition good_run :: "func \<Rightarrow> state_value list \<Rightarrow> env \<Rightarrow> bool" where
  "good_run f args \<rho> \<longleftrightarrow> straight f \<and> run (start_env args) (all_insts f) \<rho> \<and> wf_args f args \<and> list_all non_poison args \<and>
     list_all (\<lambda>a. \<exists>w > 0. arg_ty a = IntTy w) (f_args f)"

lemma good_arg:
  assumes "good_run f args \<rho>" "n < length (f_args f)"
  shows "n < length args" "\<exists>w > 0. arg_ty (f_args f ! n) = IntTy w \<and> wf_sv w (args ! n) \<and> non_poison (args ! n)"
proof -
  have l: "length args = length (f_args f)" using assms(1) by (auto simp: good_run_def wf_args_def list_all2_conv_all_nth)
  then show "n < length args" using assms(2) by simp
  have "\<exists>w > 0. arg_ty (f_args f ! n) = IntTy w" "wf_sv (int_width (arg_ty (f_args f ! n))) (args ! n)" "non_poison (args ! n)"
    using assms l by (auto simp: good_run_def wf_args_def list_all2_conv_all_nth list_all_length)
  then show "\<exists>w > 0. arg_ty (f_args f ! n) = IntTy w \<and> wf_sv w (args ! n) \<and> non_poison (args ! n)" by (auto simp: int_width_def)
qed

definition check_args :: "state_value list \<Rightarrow> known_fact list \<Rightarrow> state_value list" where
  "check_args args fs = map (\<lambda>n. args ! n) (union_args fs)"

lemma emits_params:
  assumes L: "fold_ok L" and g: "good_run f args \<rho>" and fs: "from_parent f fs"
  shows "emits True (assume_args L f 0 (union_args fs)) b (start_env (check_args args fs)) (\<lambda>_ _ _. True)"
proof (rule emits_assume_args [OF L const_env_start], intro allI impI)
  fix k
  assume k: "k < length (union_args fs)"
  then have "union_args fs ! k \<in> arg_set fs" using nth_mem union_args_set by blast
  then have "union_args fs ! k < length (f_args f)" using arg_set_args [OF _ fs] g by (simp add: good_run_def)
  moreover have "start_env (check_args args fs) (ArgV (0 + k)) = args ! (union_args fs ! k)" using k by (simp add: start_env_def check_args_def)
  ultimately show "\<exists>w > 0. arg_ty (f_args f ! (union_args fs ! k)) = IntTy w \<and> wf_sv w (start_env (check_args args fs) (ArgV (0 + k))) \<and>
      non_poison (start_env (check_args args fs) (ArgV (0 + k)))"
    using good_arg(2) [OF g] by simp
qed

lemma params_mirror:
  assumes g: "good_run f args \<rho>" and fs: "from_parent f fs" and l: "later b (start_env (check_args args fs)) b' \<sigma>"
  shows "mirrors (arg_map (union_args fs)) n (start_env args) \<sigma>"
proof -
  have "old n V' \<and> \<sigma> V' = start_env args V" if m: "arg_map (union_args fs) V = Some V'" for V V'
  proof -
    obtain k where k: "V = ArgV k" using m arg_map_dom by (cases V) auto
    obtain i where i: "i < length (union_args fs)" "V' = ArgV i" "union_args fs ! i = k" using arg_map_Some m k by blast
    have "k \<in> arg_set fs" using i nth_mem union_args_set by blast
    then have kl: "k < length args" using arg_set_args [OF _ fs] g good_arg(1) [OF g] by (simp add: good_run_def)
    have "\<sigma> (ArgV i) = start_env (check_args args fs) (ArgV i)" using l frameD [of "b_next b" "start_env (check_args args fs)" \<sigma> "ArgV i"] by (simp add: later_def)
    then show ?thesis using i k kl by (simp add: start_env_def check_args_def)
  qed
  then show ?thesis using const_env_start by (simp add: mirrors_def)
qed

abbreviation all_in :: "kb_ops \<Rightarrow> func \<Rightarrow> env \<Rightarrow> per_side_facts \<Rightarrow> bool" where
  "all_in K f \<rho> side \<equiv> (\<forall>kf \<in> set (facts side). fact_in K f \<rho> kf) \<and> (\<forall>ot \<in> set (zip (obligations side) (ob_op_tys side)). ob_in f \<rho> (fst ot))"

definition wf_side :: "kb_ops \<Rightarrow> func \<Rightarrow> per_side_facts \<Rightarrow> bool" where
  "wf_side K f side \<longleftrightarrow> (\<forall>kf \<in> set (facts side). wf_parent_fact K f kf) \<and>
     (\<forall>ot \<in> set (zip (obligations side) (ob_op_tys side)). wf_parent_ob f (facts side) ot)"

lemma reaches_check_claims:
  assumes L: "fold_ok L" and g: "good_run f args \<rho>" and fs: "from_parent f (facts side)" and wf: "wf_side K f side"
    and c: "const_env \<sigma>" and m: "mirrors vm (b_next b) \<rho> \<sigma>"
    and dom: "\<And>I. I \<in> set (all_insts f) \<Longrightarrow> i_id I \<in> slice_set (facts side) \<Longrightarrow> vm (InstV (i_id I)) \<noteq> None"
  shows "reaches (do { r \<leftarrow> fact_claims L K f vm (facts side) None; obligation_claims L f vm (zip (obligations side) (ob_op_tys side)) r }) b \<sigma>
    (\<lambda>r b' \<sigma>'. joined (b_next b') \<sigma>' r (all_in K f \<rho> side))"
proof -
  let ?fs = "facts side" and ?ots = "zip (obligations side) (ob_op_tys side)"
  have st: "straight f" and rn: "run (start_env args) (all_insts f) \<rho>" using g by (simp_all add: good_run_def)
  have typed: "wf_sv w (\<rho> (InstV (i_id I)))" if "I \<in> set (all_insts f)" "i_ty I = IntTy w" "0 < w" for I w
    using run_typed [OF rn straight_distinct [OF st]] that by blast
  have F: "fact_placed K f vm (b_next b) \<sigma> kf \<and> fact_said K f vm \<sigma> kf = fact_in K f \<rho> kf" if kf: "kf \<in> set ?fs" for kf
  proof -
    obtain I V where I: "I \<in> set (all_insts f)" "findValueByName (kf_name kf) f = Some (InstV (i_id I))"
        "mapped_value f vm (kf_name kf) = Some (V, val_ty f (InstV (i_id I)))" "val_ty f (InstV (i_id I)) = i_ty I"
        "\<sigma> V = \<rho> (InstV (i_id I))" "old (b_next b) V"
      using mapped_fact [OF st fs kf m dom] by blast
    obtain w where w: "0 < w" "i_ty I = IntTy w" "wf_fact w kf" "\<not> fact_empty K kf"
      using wf kf I(2,4) by (auto simp: wf_side_def wf_parent_fact_def)
    show ?thesis using I w typed [OF I(1) w(2,1)] by (auto simp: fact_placed_def fact_said_def fact_in_def val_in_def)
  qed
  note P = ob_placed_in [OF st fs m c dom typed]
  have step: "reaches (obligation_claims L f vm ?ots r) b3 \<sigma>3 (\<lambda>r b' \<sigma>'. joined (b_next b') \<sigma>' r (all_in K f \<rho> side))"
    if l: "later b \<sigma> b3 \<sigma>3" and j: "joined (b_next b3) \<sigma>3 r (\<forall>kf \<in> set ?fs. fact_in K f \<rho> kf)" for r b3 \<sigma>3
  proof -
    have o: "\<forall>ot \<in> set ?ots. ob_placed f vm (b_next b3) \<sigma>3 ot \<and> ob_said f vm \<sigma>3 ot = ob_in f \<rho> (fst ot)"
      using P wf ob_later [OF l] unfolding wf_side_def by blast
    show ?thesis by (rule reaches_mono [OF reaches_obligation_claims [OF L laterD(1) [OF l] j]]) (use o in auto)
  qed
  have j0: "joined (b_next b) \<sigma> None True" by (simp add: joined_def)
  show ?thesis
    by (rule reaches_bind, rule reaches_mono [OF reaches_fact_claims [OF L c j0]]) (use F step in \<open>auto intro!: grows\<close>)
qed

lemma reaches_check_body:
  assumes L: "fold_ok L" and g: "good_run f args \<rho>" and fs: "from_parent f (facts side)" and wf: "wf_side K f side"
  shows "reaches (check_tgt_body L K side f (union_args (facts side))) b (start_env (check_args args (facts side)))
    (\<lambda>r b' \<sigma>'. joined (b_next b') \<sigma>' r (all_in K f \<rho> side))"
proof -
  let ?fs = "facts side" and ?ots = "zip (obligations side) (ob_op_tys side)" let ?ns = "union_args ?fs"
  have st: "straight f" and rn: "run (start_env args) (all_insts f) \<rho>" using g by (simp_all add: good_run_def)
  have doms: "clone_dom (arg_map ?ns) = {}" "arg_dom (arg_map ?ns) = arg_set ?fs"
    using arg_map_dom(1,2) union_args_set by auto
  have none: "\<forall>I \<in> set (all_insts f). arg_map ?ns (InstV (i_id I)) = None" by (simp add: arg_map_dom)
  have rd: "readable (slice_set ?fs) (clone_dom (arg_map ?ns)) (arg_dom (arg_map ?ns)) (all_insts f)"
    unfolding doms by (rule readable_closed) (use st slices_covered [OF st fs] slice_set_ids [OF st fs] in \<open>auto simp: straight_def\<close>)
  show ?thesis unfolding check_tgt_body_def arg_map_def [symmetric] slice_set_def [symmetric]
  proof (rule reaches_bind, rule reaches_mono [OF reaches_emits [OF emits_params [OF L g fs] const_env_start]], rule reaches_bind)
    fix u b1 \<sigma>1
    assume l: "later b (start_env (check_args args ?fs)) b1 \<sigma>1"
    note cl = reaches_clone_slice [OF L rn laterD(1) [OF l] params_mirror [OF g fs l] straight_distinct [OF st] none rd]
    show "reaches (clone_slice L (slice_set ?fs) (all_insts f) (arg_map ?ns)) b1 \<sigma>1
        (\<lambda>vm b2 \<sigma>2. reaches (do { r \<leftarrow> fact_claims L K f vm ?fs None; obligation_claims L f vm ?ots r }) b2 \<sigma>2
          (\<lambda>r b' \<sigma>'. joined (b_next b') \<sigma>' r (all_in K f \<rho> side)))"
    proof (rule reaches_mono [OF cl], elim conjE)
      fix vm b2 \<sigma>2
      assume l2: "later b1 \<sigma>1 b2 \<sigma>2" and m: "mirrors vm (b_next b2) \<rho> \<sigma>2"
        and dom: "\<forall>V. (vm V \<noteq> None) = (arg_map ?ns V \<noteq> None \<or> (\<exists>I \<in> set (all_insts f). V = InstV (i_id I) \<and> i_id I \<in> slice_set ?fs))"
      show "reaches (do { r \<leftarrow> fact_claims L K f vm ?fs None; obligation_claims L f vm ?ots r }) b2 \<sigma>2
          (\<lambda>r b' \<sigma>'. joined (b_next b') \<sigma>' r (all_in K f \<rho> side))"
        by (rule reaches_check_claims [OF L g fs wf laterD(1) [OF l2] m]) (use dom in blast)
    qed
  qed (intro grows)+
qed


text \<open>
  Refinement of a unit at given arguments, and at all arguments: where the source cannot go wrong, the target cannot
  either, and each of its results refines a result of the source.
\<close>

definition refines_at :: "tv_unit \<Rightarrow> state_value list \<Rightarrow> bool" where
  "refines_at u args \<longleftrightarrow> (func_safe (u_src u) args \<longrightarrow> func_safe (u_tgt u) args \<and>
     (\<forall>r \<in> func_results (u_tgt u) args. \<exists>s \<in> func_results (u_src u) args. sv_implies s r))"

definition unit_refines :: "tv_unit \<Rightarrow> bool" where
  "unit_refines u \<longleftrightarrow> (\<forall>args. wf_args (u_src u) args \<longrightarrow> refines_at u args)"

lemma run_constant: "run \<rho> Is \<rho>' \<Longrightarrow> isConstant V \<Longrightarrow> \<rho>' V = \<rho> V"
  by (induction rule: run.induct) (auto simp: isConstant_def)

lemma check_func_results:
  assumes "run_state m \<lparr>b_next = 0, b_insts = [], b_names = filter (\<lambda>nm. nm \<noteq> []) (map arg_name as)\<rparr> = (v, b)"
  shows "func_results (check_func nm as m) vs = {r. \<exists>\<sigma>. run (start_env vs) (b_insts b) \<sigma> \<and> r = \<sigma> v}"
  using assms by (simp add: check_func_def func_results_def ret_inst_def)

lemma check_func_safe:
  assumes "run_state m \<lparr>b_next = 0, b_insts = [], b_names = filter (\<lambda>nm. nm \<noteq> []) (map arg_name as)\<rparr> = (v, b)"
  shows "func_safe (check_func nm as m) vs = safe (start_env vs) (b_insts b)"
  using assms by (simp add: check_func_def func_safe_def ret_inst_def)

lemma check_func_reaches:
  assumes "reaches m \<lparr>b_next = 0, b_insts = [], b_names = filter (\<lambda>nm. nm \<noteq> []) (map arg_name as)\<rparr> (start_env vs) Q"
    "func_safe (check_func nm as m) vs"
  shows "\<exists>v b \<sigma>. \<sigma> v \<in> func_results (check_func nm as m) vs \<and> Q v b \<sigma>"
proof -
  obtain v b where e: "run_state m \<lparr>b_next = 0, b_insts = [], b_names = filter (\<lambda>nm. nm \<noteq> []) (map arg_name as)\<rparr> = (v, b)"
      "safe (start_env vs) (b_insts b) \<longrightarrow> (\<exists>\<sigma>. run (start_env vs) (b_insts b) \<sigma> \<and> Q v b \<sigma>)"
    using assms(1) unfolding reaches_def extends_def by auto
  then obtain \<sigma> where "run (start_env vs) (b_insts b) \<sigma>" "Q v b \<sigma>" using assms(2) check_func_safe [OF e(1)] by blast
  then show ?thesis unfolding check_func_results [OF e(1)] by blast
qed

lemma check_src_results:
  assumes L: "fold_ok L" and g: "good_run f args \<rho>" and fs: "from_parent f (facts side)"
  shows "func_safe (u_src (buildCombinedFactCheck L K side f nm)) (check_args args (facts side))"
    "func_results (u_src (buildCombinedFactCheck L K side f nm)) (check_args args (facts side)) \<subseteq> {sv (mk 1 1) True}"
proof -
  let ?ns = "union_args (facts side)" let ?as = "map (\<lambda>n. f_args f ! n) ?ns" let ?vs = "check_args args (facts side)"
  let ?m = "do { assume_args L f 0 ?ns; State_Monad.return const_true }"
  let ?b = "\<lparr>b_next = 0, b_insts = [], b_names = filter (\<lambda>nm. nm \<noteq> []) (map arg_name ?as)\<rparr>"
  have u: "u_src (buildCombinedFactCheck L K side f nm) = check_func ''src'' ?as ?m"
    by (simp add: buildCombinedFactCheck_def Let_def)
  have c: "isConstant const_true" "start_env vs const_true = sv (mk 1 1) True" for vs
    by (simp_all add: const_true_def isConstant_def start_env_def)
  obtain b where b: "run_state ?m ?b = (const_true, b)" "run_state (assume_args L f 0 ?ns) ?b = ((), b)"
    by (cases "run_state (assume_args L f 0 ?ns) ?b") simp
  have "safe (start_env ?vs) (b_insts b)" using emits_params [OF L g fs, of ?b] b(2) unfolding emits_def extends_def by auto
  then show "func_safe (u_src (buildCombinedFactCheck L K side f nm)) ?vs" unfolding u check_func_safe [OF b(1)] .
  show "func_results (u_src (buildCombinedFactCheck L K side f nm)) ?vs \<subseteq> {sv (mk 1 1) True}"
    unfolding u check_func_results [OF b(1)] by (auto simp: run_constant [OF _ c(1)] c(2))
qed

lemma check_discharges:
  assumes L: "fold_ok L" and g: "good_run f args \<rho>" and fs: "from_parent f (facts side)" and wf: "wf_side K f side"
    and ref: "unit_refines (buildCombinedFactCheck L K side f nm)"
  shows "all_in K f \<rho> side"
proof -
  let ?ns = "union_args (facts side)" let ?as = "map (\<lambda>n. f_args f ! n) ?ns" let ?vs = "check_args args (facts side)"
  let ?m = "do { r \<leftarrow> check_tgt_body L K side f ?ns; State_Monad.return (case r of None \<Rightarrow> const_true | Some v \<Rightarrow> v) }"
  let ?u = "buildCombinedFactCheck L K side f nm"
  have u: "u_tgt ?u = check_func ''tgt'' ?as ?m" "f_args (u_src ?u) = ?as"
    by (simp_all add: buildCombinedFactCheck_def Let_def check_func_def split: prod.splits)
  have "arg_set (facts side) \<subseteq> {..< length (f_args f)}" using arg_set_args [OF _ fs] g by (auto simp: good_run_def)
  then have "\<forall>n \<in> set ?ns. n < length (f_args f)" unfolding union_args_set by auto
  then have wa: "wf_args (u_src ?u) ?vs"
    using g unfolding wf_args_def u(2) good_run_def check_args_def list_all2_conv_all_nth by auto
  have "refines_at ?u ?vs" using ref wa by (simp add: unit_refines_def)
  then have t: "func_safe (u_tgt ?u) ?vs" "\<forall>r \<in> func_results (u_tgt ?u) ?vs. sv_implies (sv (mk 1 1) True) r"
    using check_src_results [OF L g fs, of K nm] unfolding refines_at_def by blast+
  have "reaches ?m \<lparr>b_next = 0, b_insts = [], b_names = filter (\<lambda>nm. nm \<noteq> []) (map arg_name ?as)\<rparr> (start_env ?vs)
      (\<lambda>v b' \<sigma>'. true_val (\<sigma>' v) \<longrightarrow> all_in K f \<rho> side)"
    by (rule reaches_bind, rule reaches_mono [OF reaches_check_body [OF L g fs wf]], rule reaches_return)
      (auto simp: joined_def is_claim_def grows_return dest: laterD(1) split: option.splits)
  from check_func_reaches [OF this, of "''tgt''"]
  obtain r where r: "r \<in> func_results (u_tgt ?u) ?vs" "true_val r \<longrightarrow> all_in K f \<rho> side" using t(1) unfolding u(1) by blast
  then have "true_val r" using t(2) by (auto simp: sv_implies_def true_val_def sv_def)
  then show ?thesis using r(2) by blast
qed


lemma collected_from_parent: "from_parent parent (facts (collectFromParent K Q unit parent))"
  unfolding from_parent_def
proof
  fix kf
  assume "kf \<in> set (facts (collectFromParent K Q unit parent))"
  then obtain r sl where e: "collectBackwardSlice (kf_name kf) parent = Some sl" "kf = (fact_of_range K (kf_name kf) r)\<lparr>kf_slice := sl\<rparr>"
    using collected_fact by blast
  have "kf_slice kf = sl" using arg_cong [OF e(2), of kf_slice] by simp
  then show "collectBackwardSlice (kf_name kf) parent = Some (kf_slice kf)" using e(1) by simp
qed

text \<open>
  Typing. A unit is typed within a parent if the LLVM verifier accepts the instructions of its target and the values both
  functions name have the same types in the unit and in the parent. The facts of a side are sized if they are about integer
  values, their bounds and bits have the width of the value, and no bit is known to be both zero and one.
\<close>

definition same_type :: "func \<Rightarrow> string \<Rightarrow> ty \<Rightarrow> bool" where
  "same_type f nm t = (case findValueByName nm f of None \<Rightarrow> True | Some V \<Rightarrow> val_ty f V = t)"

definition arity_ok :: "inst \<Rightarrow> bool" where
  "arity_ok I = (case i_op I of OBin _ \<Rightarrow> length (i_ops I) = 2 | OCast _ \<Rightarrow> length (i_ops I) = 1 | _ \<Rightarrow> True)"

definition typed_unit :: "tv_unit \<Rightarrow> func \<Rightarrow> bool" where
  "typed_unit unit f \<longleftrightarrow>
     list_all (\<lambda>I. typed_inst (val_ty (u_tgt unit)) I \<and> arity_ok I \<and>
       list_all (\<lambda>V. same_type f (val_name (u_tgt unit) V) (val_ty (u_tgt unit) V)) (i_ops I)) (all_insts (u_tgt unit)) \<and>
     list_all (\<lambda>a. same_type f (arg_name a) (arg_ty a)) (f_args (u_src unit))"

definition sized_facts :: "func \<Rightarrow> per_side_facts \<Rightarrow> bool" where
  "sized_facts f side \<longleftrightarrow>
     list_all (\<lambda>kf. case findValueByName (kf_name kf) f of
         None \<Rightarrow> True
       | Some V \<Rightarrow> (case val_ty f V of IntTy w \<Rightarrow> 0 < w \<and> wf_fact w kf | _ \<Rightarrow> False)) (facts side)"

lemma collected_pair:
  assumes "(ob, tys) \<in> set (zip (obligations (collectFromParent K Q unit parent)) (ob_op_tys (collectFromParent K Q unit parent)))"
  shows "\<exists>T S. T \<in> set (all_insts (u_tgt unit)) \<and> ob_kind ob \<in> set (collectAddedFlags T S) \<and> int_width (i_ty T) \<noteq> 0 \<and>
    operand_keys (u_tgt unit) (facts (collectFromParent K Q unit parent)) (i_ops T) = Some (op_keys ob, tys)"
proof -
  define fs where "fs = facts (collectFromParent K Q unit parent)"
  obtain T bw where T: "T \<in> set (all_insts (u_tgt unit))" "(ob, tys, bw) \<in> set (inst_obligations K Q unit fs T)"
  proof -
    let ?obs = "concat (map (inst_obligations K Q unit fs) (all_insts (u_tgt unit)))"
    have "zip (map fst xs) (map (fst \<circ> snd) xs) = map (\<lambda>x. (fst x, fst (snd x))) xs" for xs :: "(flag_obligation \<times> ty list \<times> nat) list"
      by (induction xs) simp_all
    then have "(ob, tys) \<in> set (map (\<lambda>x. (fst x, fst (snd x))) ?obs)"
      using assms unfolding fs_def by (simp add: collectFromParent_def Let_def)
    then show thesis using that by (auto simp: fs_def)
  qed
  obtain S where m: "findStructuralMatch (u_tgt unit) T (u_src unit) = Some S"
    using T(2) by (cases "findStructuralMatch (u_tgt unit) T (u_src unit)") (simp_all add: inst_obligations_def)
  obtain keys ts where o: "operand_keys (u_tgt unit) fs (i_ops T) = Some (keys, ts)"
    using T(2) m by (cases "operand_keys (u_tgt unit) fs (i_ops T)") (auto simp: inst_obligations_def Let_def split: if_splits)
  show ?thesis unfolding fs_def [symmetric]
    by (intro exI [of _ T] exI [of _ S]) (use T m o in \<open>auto simp: inst_obligations_def Let_def split: if_splits\<close>)
qed

text \<open>An instruction with an added flag has the operands the flag is about, all of one width.\<close>

lemma added_flag_operands:
  assumes "k \<in> set (collectAddedFlags T S)" "typed_inst tyof T" "arity_ok T" "int_width (i_ty T) \<noteq> 0"
  shows "length (i_ops T) = (if k = ZExtNNeg then 1 else 2)" "\<exists>w > 0. \<forall>V \<in> set (i_ops T). tyof V = IntTy w \<and> wf_val V"
proof -
  have w: "added_wrap_flags T S = [] \<or> (\<exists>op. i_op T = OBin op) \<and> ZExtNNeg \<notin> set (added_wrap_flags T S)"
  proof (cases "isOverflowing (i_op T)")
    case True
    then obtain op where op: "i_op T = OBin op" "op = Add \<or> op = Sub \<or> op = Mul \<or> op = Shl"
      by (auto simp: isOverflowing_def split: opcode.splits)
    have "ZExtNNeg \<notin> set (both_kinds p q x y)" if "x \<noteq> ZExtNNeg" "y \<noteq> ZExtNNeg" for p q x y
      using that by (cases p; cases q) (simp_all add: both_kinds_def)
    then show ?thesis using op by (elim disjE) (simp_all add: added_wrap_flags_def Let_def)
  qed (simp add: added_wrap_flags_def)
  have x: "added_exact_flags T S = [] \<or> (\<exists>op. i_op T = OBin op) \<and> ZExtNNeg \<notin> set (added_exact_flags T S)"
  proof (cases "isPossiblyExact (i_op T)")
    case True
    then obtain op where op: "i_op T = OBin op" "op = UDiv \<or> op = SDiv \<or> op = LShr \<or> op = AShr"
      by (auto simp: isPossiblyExact_def split: opcode.splits)
    then have "added_exact_flags T S \<in> {[], [UDivExact], [SDivExact], [LShrExact], [AShrExact]}"
      by (elim disjE) (simp_all add: added_exact_flags_def)
    then show ?thesis using op(1) by auto
  qed (simp add: added_exact_flags_def)
  have "(\<exists>op. i_op T = OBin op) \<and> k \<noteq> ZExtNNeg \<or> i_op T = OCast ZExt \<and> k = ZExtNNeg"
    using assms(1) w x by (auto simp: collectAddedFlags_def)
  then consider op where "i_op T = OBin op" "k \<noteq> ZExtNNeg" | "i_op T = OCast ZExt" "k = ZExtNNeg" by blast
  then have "length (i_ops T) = (if k = ZExtNNeg then 1 else 2) \<and> (\<exists>w > 0. \<forall>V \<in> set (i_ops T). tyof V = IntTy w \<and> wf_val V)"
  proof cases
    case 1
    then obtain a b where ops: "i_ops T = [a, b]" using assms(3) by (auto simp: arity_ok_def length_Suc_conv numeral_2_eq_2)
    then show ?thesis using 1 assms(2,4) by (auto simp: typed_inst_def int_width_def split: ty.splits)
  next
    case 2
    then obtain a where ops: "i_ops T = [a]" using assms(3) by (auto simp: arity_ok_def length_Suc_conv)
    then show ?thesis using 2 assms(2,4) by (auto simp: typed_inst_def int_width_def split: ty.splits)
  qed
  then show "length (i_ops T) = (if k = ZExtNNeg then 1 else 2)" "\<exists>w > 0. \<forall>V \<in> set (i_ops T). tyof V = IntTy w \<and> wf_val V" by blast+
qed

lemma collected_wf_ob:
  assumes t: "typed_unit unit parent"
    and ot: "(ob, tys) \<in> set (zip (obligations (collectFromParent K Q unit parent)) (ob_op_tys (collectFromParent K Q unit parent)))"
  shows "wf_parent_ob parent (facts (collectFromParent K Q unit parent)) (ob, tys)"
proof -
  let ?t = "u_tgt unit" and ?fs = "facts (collectFromParent K Q unit parent)"
  obtain T S where T: "T \<in> set (all_insts ?t)" "ob_kind ob \<in> set (collectAddedFlags T S)" "int_width (i_ty T) \<noteq> 0"
      "operand_keys ?t ?fs (i_ops T) = Some (op_keys ob, tys)"
    using collected_pair [OF ot] by blast
  have ty: "typed_inst (val_ty ?t) T" "arity_ok T" "\<forall>V \<in> set (i_ops T). same_type parent (val_name ?t V) (val_ty ?t V)"
    using t T(1) by (auto simp: typed_unit_def list_all_iff)
  note ops = added_flag_operands [OF T(2) ty(1,2) T(3)]
  note ks = operand_keys_Some [OF T(4)]
  obtain w where w: "0 < w" "\<forall>V \<in> set (i_ops T). val_ty ?t V = IntTy w \<and> wf_val V" using ops(2) by blast
  have "wf_key parent ?fs w (keyForOperand ?t V, val_ty ?t V)" if V: "V \<in> set (i_ops T)" for V
  proof (cases "k_is_const (keyForOperand ?t V)")
    case True
    then show ?thesis using w(2) V by (auto simp: wf_key_def keyForOperand_def val_ty_def wf_val_def split: val.splits)
  next
    case False
    then have n: "k_name (keyForOperand ?t V) = val_name ?t V" by (simp add: keyForOperand_def split: val.splits)
    obtain kf where kf: "kf \<in> set ?fs" "kf_name kf = val_name ?t V" using ks V False by blast
    then obtain U where U: "findValueByName (val_name ?t V) parent = Some U" using collected_fact [OF kf(1)] by auto
    then have "val_ty parent U = IntTy w" using ty(3) w(2) V by (auto simp: same_type_def)
    then show ?thesis using False kf(1) U n by (simp add: wf_key_def kf(2) [symmetric])
  qed
  then have "\<exists>w > 0. \<forall>kt \<in> set (zip (op_keys ob) tys). wf_key parent ?fs w kt"
    using w(1) ks by (auto simp: zip_map_map zip_same_conv_map)
  then show ?thesis unfolding wf_parent_ob_def using ks ops(1) by simp
qed

lemma collected_wf_side:
  assumes t: "typed_unit unit parent" and s: "sized_facts parent (collectFromParent K Q unit parent)"
  shows "wf_side K parent (collectFromParent K Q unit parent)"
proof -
  have "wf_parent_fact K parent kf" if kf: "kf \<in> set (facts (collectFromParent K Q unit parent))" for kf
  proof -
    obtain V r sl where c: "findValueByName (kf_name kf) parent = Some V"
        "kf = (fact_of_range K (kf_name kf) r)\<lparr>kf_slice := sl\<rparr>" "\<not> fact_empty K (fact_of_range K (kf_name kf) r)"
      using collected_fact [OF kf] by blast
    have "fact_empty K (k\<lparr>kf_slice := sl\<rparr>) = fact_empty K k" for k by (simp add: fact_empty_def)
    then have "\<not> fact_empty K kf" using c(2,3) by metis
    moreover have "case val_ty parent V of IntTy w \<Rightarrow> 0 < w \<and> wf_fact w kf | _ \<Rightarrow> False"
      using s kf c(1) unfolding sized_facts_def list_all_iff by fastforce
    ultimately show ?thesis using c(1) by (auto simp: wf_parent_fact_def split: ty.splits)
  qed
  then show ?thesis unfolding wf_side_def using collected_wf_ob [OF t] by auto
qed

lemma collected_fits:
  assumes t: "typed_unit unit parent" and s: "sized_facts parent (collectFromParent K Q unit parent)"
  shows "side_fits (u_src unit) (collectFromParent K Q unit parent)"
proof -
  let ?fn = "u_src unit" and ?side = "collectFromParent K Q unit parent"
  have arg: "same_type parent nm (arg_ty (f_args ?fn ! n))" if "findArgByName ?fn nm = Some n" for nm n
    using findArgByName_Some [OF that] t nth_mem by (fastforce simp: typed_unit_def list_all_iff)
  have wf: "wf_side K parent ?side" by (rule collected_wf_side [OF assms])
  have "fits_fact ?fn kf" if kf: "kf \<in> set (facts ?side)" for kf
  proof (cases "findArgByName ?fn (kf_name kf)")
    case (Some n)
    obtain w V where "0 < w" "findValueByName (kf_name kf) parent = Some V" "val_ty parent V = IntTy w" "wf_fact w kf"
      using wf kf by (auto simp: wf_side_def wf_parent_fact_def)
    then show ?thesis using Some arg [OF Some] by (auto simp: fits_fact_def same_type_def intro!: exI [of _ w])
  qed (simp add: fits_fact_def)
  moreover have "fits_ob ?fn ob" if ob: "ob \<in> set (obligations ?side)" for ob
  proof (cases "those (map (resolveKeyInFn ?fn) (op_keys ob))")
    case (Some ops)
    have "length (ob_op_tys ?side) = length (obligations ?side)" by (simp add: collectFromParent_def Let_def)
    then obtain tys where ot: "(ob, tys) \<in> set (zip (obligations ?side) (ob_op_tys ?side))"
      using ob by (metis in_set_impl_in_set_zip1)
    obtain w where w: "0 < w" "\<forall>kt \<in> set (zip (op_keys ob) tys). wf_key parent (facts ?side) w kt"
        "length tys = length (op_keys ob)" "length (op_keys ob) = (if ob_kind ob = ZExtNNeg then 1 else 2)"
      using wf ot by (fastforce simp: wf_side_def wf_parent_ob_def)
    have m: "map (resolveKeyInFn ?fn) (op_keys ob) = map Some ops" using Some by (simp add: those_Some)
    have l: "length ops = length (op_keys ob)" using arg_cong [OF m, of length] by simp
    have "val_ty ?fn V = IntTy w \<and> wf_val V" if V: "V \<in> set ops" for V
    proof -
      obtain i where i: "i < length ops" "V = ops ! i" using V by (auto simp: in_set_conv_nth)
      have r: "resolveKeyInFn ?fn (op_keys ob ! i) = Some V" using m i l by (metis nth_map)
      have k: "wf_key parent (facts ?side) w (op_keys ob ! i, tys ! i)" using w(2,3) i(1) l by (force simp: set_zip)
      show ?thesis
      proof (cases "k_is_const (op_keys ob ! i)")
        case True
        then show ?thesis using r k by (auto simp: resolveKeyInFn_def wf_key_def val_ty_def wf_val_def)
      next
        case False
        then obtain n where n: "findArgByName ?fn (k_name (op_keys ob ! i)) = Some n" "V = ArgV n"
          using r by (auto simp: resolveKeyInFn_def)
        then show ?thesis using False k arg [OF n(1)] findArgByName_Some [OF n(1)]
          by (auto simp: wf_key_def same_type_def val_ty_def wf_val_def)
      qed
    qed
    then show ?thesis using Some w(1,4) l by (auto simp: fits_ob_def)
  qed (simp add: fits_ob_def)
  ultimately show ?thesis by (simp add: side_fits_def list_all_iff)
qed

text \<open>
  C4 (safety). A passed assume-check discharges the assumptions. Let the unit be typed within a straight-line parent, and let
  the facts collected from the parent have the width of the values they name and no conflicting bits. If the target of the
  check unit refines its source, then in every run of the parent on arguments that are not poison every collected fact holds
  of the value it names, and every collected obligation holds of its operands, which therefore are not poison and, for an
  exact division, do not divide by zero.
\<close>

theorem assume_check_sound:
  assumes "fold_ok L" "good_run parent args \<rho>" "typed_unit unit parent" "sized_facts parent (collectFromParent K Q unit parent)"
    "unit_refines (buildCombinedFactCheck L K (collectFromParent K Q unit parent) parent nm)"
  shows "list_all (fact_in K parent \<rho>) (facts (collectFromParent K Q unit parent)) \<and>
    list_all (ob_in parent \<rho>) (obligations (collectFromParent K Q unit parent))"
proof -
  let ?s = "collectFromParent K Q unit parent"
  have "all_in K parent \<rho> ?s"
    by (rule check_discharges [OF assms(1,2) collected_from_parent collected_wf_side [OF assms(3,4)] assms(5)])
  moreover have "map fst (zip (obligations ?s) (ob_op_tys ?s)) = obligations ?s" by (simp add: collectFromParent_def Let_def)
  ultimately show ?thesis unfolding list_all_iff by (metis (no_types, lifting) imageE set_map)
qed

text \<open>The parameters of a unit have the values of the parent's values of the same names.\<close>

definition bound_to :: "func \<Rightarrow> state_value list \<Rightarrow> func \<Rightarrow> env \<Rightarrow> bool" where
  "bound_to fn vs parent \<rho> \<longleftrightarrow>
     (\<forall>n < length (f_args fn). \<forall>V. findValueByName (arg_name (f_args fn ! n)) parent = Some V \<longrightarrow> vs ! n = \<rho> V)"


lemma bound_arg:
  assumes "bound_to fn vs parent \<rho>" "wf_args fn vs" "findArgByName fn nm = Some n" "findValueByName nm parent = Some V"
  shows "start_env vs (ArgV n) = \<rho> V" "vs ! n = \<rho> V"
proof -
  have n: "n < length (f_args fn)" "arg_name (f_args fn ! n) = nm" using findArgByName_Some [OF assms(3)] by simp_all
  then show "vs ! n = \<rho> V" using assms(1,4) by (simp add: bound_to_def)
  then show "start_env vs (ArgV n) = \<rho> V" using start_env_arg [OF assms(2) n(1)] by simp
qed

lemma bound_key:
  assumes b: "bound_to fn vs parent \<rho>" "wf_args fn vs" and k: "resolveKeyInFn fn k = Some a" "wf_key parent fs w (k, t)"
  shows "start_env vs a = key_value parent \<rho> k"
proof (cases "k_is_const k")
  case True
  then show ?thesis using k(1) by (auto simp: resolveKeyInFn_def key_value_def start_env_def)
next
  case False
  then obtain n where n: "findArgByName fn (k_name k) = Some n" "a = ArgV n" using k(1) by (auto simp: resolveKeyInFn_def)
  obtain V where V: "findValueByName (k_name k) parent = Some V" using False k(2) by (auto simp: wf_key_def)
  show ?thesis using bound_arg(1) [OF b n(1) V] n(2) False V by (simp add: key_value_def)
qed

lemma ob_true_of_parent:
  assumes b: "bound_to fn vs parent \<rho>" "wf_args fn vs" and o: "wf_parent_ob parent fs (ob, tys)" "ob_in parent \<rho> ob"
  shows "ob_true fn vs ob"
proof (cases "those (map (resolveKeyInFn fn) (op_keys ob))")
  case (Some ops)
  have m: "map (resolveKeyInFn fn) (op_keys ob) = map Some ops" using Some by (simp add: those_Some)
  obtain w where w: "\<forall>kt \<in> set (zip (op_keys ob) tys). wf_key parent fs w kt" "length tys = length (op_keys ob)"
      "length (op_keys ob) = (if ob_kind ob = ZExtNNeg then 1 else 2)"
    using o(1) by (auto simp: wf_parent_ob_def)
  have v: "start_env vs (ops ! i) = key_value parent \<rho> (op_keys ob ! i)" if "i < length (op_keys ob)" for i
  proof (rule bound_key [OF b])
    show "resolveKeyInFn fn (op_keys ob ! i) = Some (ops ! i)" using m that by (metis length_map nth_map)
    show "wf_key parent fs w (op_keys ob ! i, tys ! i)" using w(1,2) that by (force simp: set_zip)
  qed
  have l: "length ops = length (op_keys ob)" using arg_cong [OF m, of length] by simp
  show ?thesis
  proof (cases "ob_kind ob = ZExtNNeg")
    case True
    then obtain a k where "ops = [a]" "op_keys ob = [k]" using w(3) l by (auto simp: length_Suc_conv)
    then show ?thesis using o(2) Some v [of 0] by (simp add: ob_true_def ob_in_def)
  next
    case False
    then obtain a c k k' where "ops = [a, c]" "op_keys ob = [k, k']" using w(3) l by (auto simp: length_Suc_conv numeral_2_eq_2)
    then show ?thesis using o(2) Some v [of 0] v [of 1] by (simp add: ob_true_def ob_in_def)
  qed
qed (simp add: ob_true_def)

lemma side_true_of_parent:
  assumes b: "bound_to fn vs parent \<rho>" "wf_args fn vs" and wf: "wf_side K parent side" and a: "all_in K parent \<rho> side"
    and l: "length (ob_op_tys side) = length (obligations side)"
  shows "side_true K fn side vs"
proof -
  have "fact_true K fn vs kf" if kf: "kf \<in> set (facts side)" for kf
  proof -
    obtain V where V: "findValueByName (kf_name kf) parent = Some V" "non_poison (\<rho> V)" "fact_holds K kf (sv_value (\<rho> V))"
      using a kf by (auto simp: fact_in_def)
    then show ?thesis using bound_arg(2) [OF b _ V(1)] by (auto simp: fact_true_def split: option.splits)
  qed
  moreover have "ob_true fn vs ob" if ob: "ob \<in> set (obligations side)" for ob
  proof -
    obtain tys where "(ob, tys) \<in> set (zip (obligations side) (ob_op_tys side))"
      using ob l by (metis in_set_impl_in_set_zip1)
    then show ?thesis using ob_true_of_parent [OF b] wf a unfolding wf_side_def by fastforce
  qed
  ultimately show ?thesis by (simp add: side_true_def list_all_iff)
qed

text \<open>The unit occurs in a run of a parent: the run is on arguments that are not poison, and the parameters of the unit have
  the values the parent's values of the same names have in it.\<close>

definition in_context :: "tv_unit \<Rightarrow> state_value list \<Rightarrow> func \<Rightarrow> state_value list \<Rightarrow> env \<Rightarrow> bool" where
  "in_context unit vs parent args \<rho> \<longleftrightarrow> good_run parent args \<rho> \<and> bound_to (u_src unit) vs parent \<rho>"

lemma context_side_true:
  assumes L: "fold_ok L" and c: "in_context unit vs parent args \<rho>" and a: "wf_args (u_src unit) vs"
    and t: "typed_unit unit parent" "sized_facts parent (collectFromParent K Q unit parent)"
    and chk: "side_empty (collectFromParent K Q unit parent) \<or> unit_refines (buildCombinedFactCheck L K (collectFromParent K Q unit parent) parent nm)"
  shows "side_true K (u_src unit) (collectFromParent K Q unit parent) vs"
proof (cases "side_empty (collectFromParent K Q unit parent)")
  case True
  then show ?thesis by (simp add: side_empty_def side_true_def)
next
  case False
  let ?s = "collectFromParent K Q unit parent"
  have g: "good_run parent args \<rho>" "bound_to (u_src unit) vs parent \<rho>" using c by (simp_all add: in_context_def)
  have "all_in K parent \<rho> ?s"
    by (rule check_discharges [OF L g(1) collected_from_parent collected_wf_side [OF t], of nm]) (use chk False in simp)
  then show ?thesis
    by (intro side_true_of_parent [OF g(2) a collected_wf_side [OF t]]) (simp_all add: collectFromParent_def Let_def)
qed

lemma proposal_refines:
  assumes "fold_ok L" "proposeAssume L K Q unit parent_src parent_tgt = Some p"
    "list_all unit_refines (assume_checks p)" "unit_refines (modified_unit p)"
    "in_context unit vs parent_src args \<rho>" "in_context unit vs parent_tgt args' \<rho>'"
    "typed_unit unit parent_src" "typed_unit unit parent_tgt"
    "sized_facts parent_src (collectFromParent K Q unit parent_src)" "sized_facts parent_tgt (collectFromParent K Q unit parent_tgt)"
    "returns (u_src unit) sb r" "returns (u_tgt unit) tb r'" "wf_args (u_src unit) vs" "f_args (u_tgt unit) = f_args (u_src unit)"
  shows "refines_at unit vs"
proof -
  let ?s = "collectFromParent K Q unit parent_src" and ?t = "collectFromParent K Q unit parent_tgt"
  have m: "u_src (modified_unit p) = fold (inject_side L K) [?s, ?t] (u_src unit)"
      "u_tgt (modified_unit p) = fold (inject_side L K) [?s, ?t] (u_tgt unit)"
    and ch: "assume_checks p =
      (if side_empty ?s then [] else [buildCombinedFactCheck L K ?s parent_src (u_name unit @ ''.src-assume-check'')]) @
      (if side_empty ?t then [] else [buildCombinedFactCheck L K ?t parent_tgt (u_name unit @ ''.tgt-assume-check'')])"
    using assms(2) unfolding proposeAssume_eq proposeFromRanges_def Let_def injectFromSide_eq by (auto split: if_splits)
  have true: "side_true K (u_src unit) ?s vs" "side_true K (u_src unit) ?t vs"
    using assms(3) unfolding ch
    by (auto intro!: context_side_true [OF assms(1,5,13,7,9)] context_side_true [OF assms(1,6,13,8,10)] split: if_splits)
  have fits: "list_all (side_fits (u_src unit)) [?s, ?t]" using collected_fits assms(7-10) by simp
  have src: "restricted True (u_src (modified_unit p)) (u_src unit) vs" "f_args (u_src (modified_unit p)) = f_args (u_src unit)"
    using side.inject_all [OF assms(1,11,13) fits, of K] true unfolding m by simp_all
  have wt: "wf_args (u_tgt unit) vs" "list_all (side_fits (u_tgt unit)) [?s, ?t]" "side_true K (u_tgt unit) = side_true K (u_src unit)"
    using assms(13,14) fits side_cong [OF assms(14)] by (simp_all add: wf_args_def)
  have tgt: "restricted True (u_tgt (modified_unit p)) (u_tgt unit) vs"
    using side.inject_all [OF assms(1,12) wt(1,2), of K] true unfolding m wt(3) by simp
  have "wf_args (u_src (modified_unit p)) vs" using assms(13) src(2) by (simp add: wf_args_def)
  then have "refines_at (modified_unit p) vs" using assms(4) by (simp add: unit_refines_def)
  then show ?thesis using src(1) tgt unfolding refines_at_def restricted_def by simp
qed

text \<open>
  C3 (refinement). Soundness of the proposer. Let the unit be typed within the two parents, and let the facts collected from
  them have the width of the values they name and no conflicting bits. If all assume-checks of a proposal and the modified
  unit are refinements, then the original unit refines at all arguments that occur: those its parameters have in a run of
  the source parent and in a run of the target parent, the two agreeing at the boundary of the unit. Refinement includes
  that the target has no undefined behaviour where the source has none.
\<close>

theorem proposal_sound:
  assumes "fold_ok L" "proposeAssume L K Q unit parent_src parent_tgt = Some p"
    "list_all unit_refines (assume_checks p)" "unit_refines (modified_unit p)"
    "in_context unit vs parent_src args \<rho>" "in_context unit vs parent_tgt args' \<rho>'"
    "typed_unit unit parent_src" "typed_unit unit parent_tgt"
    "sized_facts parent_src (collectFromParent K Q unit parent_src)" "sized_facts parent_tgt (collectFromParent K Q unit parent_tgt)"
    "returns (u_src unit) sb r" "returns (u_tgt unit) tb r'" "wf_args (u_src unit) vs" "f_args (u_tgt unit) = f_args (u_src unit)"
  shows "refines_at unit vs"
  by (rule proposal_refines [OF assms])

section \<open>A proposal that is discharged\<close>

text \<open>Code whose instructions are all deterministic in the environment they are run in has one run at most.\<close>

definition only_result :: "env \<Rightarrow> inst \<Rightarrow> state_value option" where
  "only_result \<sigma> I =
     (case (i_op I, i_ops I) of
        (OBin op, [a, b]) \<Rightarrow> Some (binop_scalar no_facts no_facts (int_width (i_ty I)) op (binop_flags_of I) (\<sigma> a) (\<sigma> b))
      | (OICmp c, [a, b]) \<Rightarrow> Some (icmp_scalar c False (\<sigma> a) (\<sigma> b))
      | (OFreeze, [a]) \<Rightarrow> if non_poison (\<sigma> a) \<and> wf_bv (sv_value (\<sigma> a)) then Some (\<sigma> a) else None
      | (OOvf op, [a, b]) \<Rightarrow> Some (case binop_zip no_facts no_facts op (\<sigma> a) (\<sigma> b) of (v, ovf) \<Rightarrow> sv_concat v ovf)
      | (OExtractValue (Suc 0), [a]) \<Rightarrow> Some (sv (bvextract (sv_value (\<sigma> a)) 0 0) (non_poison (\<sigma> a)))
      | _ \<Rightarrow> None)"

fun only_run :: "env \<Rightarrow> inst list \<Rightarrow> env option" where
  "only_run \<sigma> [] = Some \<sigma>"
| "only_run \<sigma> (I # Is) = (case only_result \<sigma> I of None \<Rightarrow> None | Some v \<Rightarrow> only_run (\<sigma>(InstV (i_id I) := v)) Is)"

lemma only_result_unique:
  assumes "only_result \<sigma> I = Some v" "inst_result \<sigma> I u"
  shows "u = v"
  using assms
  by (auto simp: only_result_def inst_result.simps freeze_step_def state_value.equality
      split: opcode.splits list.splits if_splits nat.splits)

lemma only_run_unique: "only_run \<sigma> Is = Some \<sigma>1 \<Longrightarrow> run \<sigma> Is \<sigma>' \<Longrightarrow> \<sigma>' = \<sigma>1"
proof (induction Is arbitrary: \<sigma>)
  case (Cons I Is)
  obtain v where v: "only_result \<sigma> I = Some v" "only_run (\<sigma>(InstV (i_id I) := v)) Is = Some \<sigma>1"
    using Cons.prems(1) by (auto split: option.splits)
  obtain u where "inst_result \<sigma> I u" "run (\<sigma>(InstV (i_id I) := u)) Is \<sigma>'" using Cons.prems(2) by (auto simp: run_Cons_iff)
  then show ?case using Cons.IH [OF v(2)] only_result_unique [OF v(1)] by metis
qed (auto simp: run_Nil_iff)

text \<open>Deterministic code that does not go wrong.\<close>

definition sized_result :: "ty \<Rightarrow> state_value \<Rightarrow> bool" where
  "sized_result t v = (case t of IntTy w \<Rightarrow> w = 0 \<or> wf_sv w v | _ \<Rightarrow> True)"

fun only_safe :: "env \<Rightarrow> inst list \<Rightarrow> bool" where
  "only_safe \<sigma> [] = True"
| "only_safe \<sigma> (I # Is) = (inst_defined \<sigma> I \<and>
     (case only_result \<sigma> I of None \<Rightarrow> False | Some v \<Rightarrow> sized_result (i_ty I) v \<and> only_safe (\<sigma>(InstV (i_id I) := v)) Is))"

lemma only_result_result: "only_result \<sigma> I = Some v \<Longrightarrow> inst_result \<sigma> I v"
  by (auto simp: only_result_def inst_result.simps freeze_step_def split: opcode.splits list.splits if_splits nat.splits)

lemma only_safe_safe: "only_safe \<sigma> Is \<Longrightarrow> safe \<sigma> Is"
proof (induction Is arbitrary: \<sigma>)
  case (Cons I Is)
  obtain v where v: "inst_defined \<sigma> I" "only_result \<sigma> I = Some v" "sized_result (i_ty I) v" "only_safe (\<sigma>(InstV (i_id I) := v)) Is"
    using Cons.prems by (auto split: option.splits)
  have st: "steps_to \<sigma> I u \<longleftrightarrow> u = v" for u
  proof
    assume "steps_to \<sigma> I u"
    then show "u = v" using only_result_unique [OF v(2)] unfolding steps_to_def by blast
  next
    assume "u = v"
    then show "steps_to \<sigma> I u" using only_result_result [OF v(2)] v(3) unfolding steps_to_def sized_result_def by (auto split: ty.splits)
  qed
  have "safe (\<sigma>(InstV (i_id I) := v)) Is" by (rule Cons.IH) (rule v(4))
  then show ?case unfolding safe.simps st using v(1) by blast
qed simp

text \<open>A parent without parameters: \<open>%a = and i8 7, 15; %b = add i8 %a, 3\<close>.\<close>

definition c_parent :: "bool \<Rightarrow> func" where
  "c_parent nsw = \<lparr>f_name = ''f'', f_args = [],
     f_blocks = [[w_inst 0 ''a'' And False [ConstInt (mk 8 7), ConstInt (mk 8 15)],
                  w_inst 1 ''b'' Add nsw [InstV 0, ConstInt (mk 8 3)], ret_inst 2 (InstV 1)]]\<rparr>"

definition c_fact :: known_fact where
  "c_fact = \<lparr>kf_name = ''a'',
       kf_slice = \<lparr>sl_insts = [w_inst 0 ''a'' And False [ConstInt (mk 8 7), ConstInt (mk 8 15)]], arg_roots = []\<rparr>,
       u_bound = Some (mk 8 0, mk 8 15), s_bound = Some (mk 8 0, mk 8 15),
       kf_bits = Some (KB (mk 8 248) (mk 8 7)), kf_poison_free = True\<rparr>"

definition c_side :: per_side_facts where
  "c_side = \<lparr>facts = [c_fact], obligations = [w_ob], ob_op_tys = [[IntTy 8, IntTy 8]], ob_result_bws = [8]\<rparr>"

lemma c_collect: "collectFromParent simple_kb simple_query w_unit (c_parent nsw) = c_side"
proof -
  have "collectFromParent simple_kb simple_query w_unit (c_parent False) = c_side"
    "collectFromParent simple_kb simple_query w_unit (c_parent True) = c_side" by code_simp+
  then show ?thesis by (cases nsw) simp_all
qed


lemma run_create_demo:
  "run_state (create demo_api oc t ops nm) b =
     (InstV (b_next b), b\<lparr>b_next := Suc (b_next b), b_insts := b_insts b @ [mk_inst (b_next b) nm oc t ops],
        b_names := (if nm = [] then b_names b else nm # b_names b)\<rparr>)"
  by (simp add: create_def demo_api_def insert_inst_def pick_name_def Let_def)

lemma c_named: "findValueByName ''a'' (c_parent nsw) = Some (InstV 0)" "val_ty (c_parent nsw) (InstV 0) = IntTy 8"
  by (simp_all add: findValueByName_def val_ty_def find_inst_def all_insts_def c_parent_def)

definition c_code :: "inst list" where
  "c_code = [w_inst 0 ''a'' And False [ConstInt (mk 8 7), ConstInt (mk 8 15)],
     mk_inst 1 ''a_uub'' (OICmp ULE) (IntTy 1) [InstV 0, ConstInt (mk 8 15)],
     mk_inst 2 ''a_sub'' (OICmp SLE) (IntTy 1) [InstV 0, ConstInt (mk 8 15)],
     mk_inst 3 ''a_slb'' (OICmp SGE) (IntTy 1) [InstV 0, ConstInt (mk 8 0)],
     mk_inst 4 ''a_s'' (OBin And) (IntTy 1) [InstV 2, InstV 3],
     mk_inst 5 ''a_and'' (OBin And) (IntTy 1) [InstV 1, InstV 4],
     mk_inst 6 ''a_fz'' OFreeze (IntTy 8) [InstV 0],
     mk_inst 7 ''a_pf'' (OICmp EQ) (IntTy 1) [InstV 0, InstV 6],
     mk_inst 8 ''a_and'' (OBin And) (IntTy 1) [InstV 5, InstV 7],
     mk_inst 9 ''a_bm'' (OBin And) (IntTy 8) [InstV 0, ConstInt (mk 8 255)],
     mk_inst 10 ''a_b'' (OICmp EQ) (IntTy 1) [InstV 9, ConstInt (mk 8 7)],
     mk_inst 11 ''a_and'' (OBin And) (IntTy 1) [InstV 8, InstV 10],
     mk_inst 12 [] (OOvf SAdd_Overflow) (OtherTy ''{iN, i1}'') [InstV 0, ConstInt (mk 8 3)],
     mk_inst 13 [] (OExtractValue 1) (IntTy 1) [InstV 12],
     mk_inst 14 [] (OBin Xor) (IntTy 1) [InstV 13, ConstInt (mk 1 1)],
     mk_inst 15 ''all'' (OBin And) (IntTy 1) [InstV 11, InstV 14]]"

lemma c_code_run: "map_option (\<lambda>\<sigma>. \<sigma> (InstV 15)) (only_run (start_env []) c_code) = Some (sv (mk 1 1) True)"
  by code_simp

lemma c_code_safe: "safe (start_env []) c_code"
proof -
  have "only_safe (start_env []) c_code" by code_simp
  then show ?thesis by (rule only_safe_safe)
qed

lemma c_insts: "all_insts (c_parent nsw) = [w_inst 0 ''a'' And False [ConstInt (mk 8 7), ConstInt (mk 8 15)],
    w_inst 1 ''b'' Add nsw [InstV 0, ConstInt (mk 8 3)], ret_inst 2 (InstV 1)]"
  by (simp add: all_insts_def c_parent_def)

lemma pick_demo: "pick_name demo_api ns nm = nm"
  by (simp add: pick_name_def demo_api_def)

definition c_vmap :: value_map where "c_vmap = [InstV 0 \<mapsto> InstV 0]"

definition c_builder :: "nat \<Rightarrow> nat \<Rightarrow> string list \<Rightarrow> builder" where
  "c_builder n k ns = \<lparr>b_next = n, b_insts = take k c_code, b_names = ns\<rparr>"

lemma w_inst_same: "(w_inst 0 ''a'' And False ops)\<lparr>i_id := 0, i_name := ''a'', i_ops := ops\<rparr> = w_inst 0 ''a'' And False ops"
  by (simp add: w_inst_def mk_inst_def)

lemma c_clone:
  "run_state (clone_slice demo_api {0} (all_insts (c_parent nsw)) (\<lambda>V. None)) (c_builder 0 0 []) = (c_vmap, c_builder 1 1 [''a''])"
proof -
  have k: "map_operand (\<lambda>V. None) V = V" for V by (simp add: map_operand_def)
  have e: "(\<lambda>V. None)(InstV 0 \<mapsto> InstV 0) = c_vmap" by (simp add: c_vmap_def)
  show ?thesis
    by (simp add: c_insts insert_clone_def run_state_bind pick_demo k e w_inst_same ret_inst_def c_builder_def c_code_def Let_def)
qed

lemma c_mapped: "mapped_value (c_parent nsw) c_vmap ''a'' = Some (InstV 0, IntTy 8)"
  by (simp add: mapped_value_def c_named c_vmap_def)

lemma c_facts:
  "\<exists>ns. run_state (fact_claims demo_api simple_kb (c_parent nsw) c_vmap [c_fact] None) (c_builder 1 1 [''a'']) = (Some (InstV 11), c_builder 12 12 ns)"
proof -
  have or: "bvor (mk 8 248) (mk 8 7) = mk 8 255" by code_simp
  have u: "\<not> kb_isUnknown simple_kb (KB (mk 8 248) (mk 8 7))" by code_simp
  have n: "kf_name c_fact = ''a''" by (simp add: c_fact_def)
  show ?thesis
    by (simp add: n c_mapped run_state_bind buildFactPredicate_def)
      (simp add: c_fact_def run_state_bind run_create_demo claim_u_def claim_s_def claim_pf_def claim_bits_def
        andIn_def andInOpt_def or u c_builder_def c_code_def, simp add: eval_nat_numeral)
qed

lemma c_obligations:
  "\<exists>ns'. run_state (obligation_claims demo_api (c_parent nsw) c_vmap [(w_ob, [IntTy 8, IntTy 8])] (Some (InstV 11))) (c_builder 12 12 ns) =
     (Some (InstV 15), c_builder 16 16 ns')"
  by (simp add: w_ob_def w_side_def check_operand_def c_mapped first_ty_def buildFlagClaim_def buildOvfClaim_def run_state_bind run_map_state
      run_create_demo andInOpt_def andIn_def c_builder_def c_code_def)

lemma c_body:
  "\<exists>ns. run_state (check_tgt_body demo_api simple_kb c_side (c_parent nsw) []) (c_builder 0 0 []) = (Some (InstV 15), c_builder 16 16 ns)"
proof -
  have s: "(\<Union>kf \<in> set (facts c_side). set (map i_id (sl_insts (kf_slice kf)))) = {0}" by (simp add: c_side_def c_fact_def)
  have v: "(\<lambda>V. case V of ArgV n \<Rightarrow> map_option ArgV (find (\<lambda>i. [] ! i = n) [0..<length []]) | _ \<Rightarrow> None) = (\<lambda>V. None)"
    by (auto split: val.splits)
  show ?thesis
    using c_clone [of nsw] c_facts [of nsw] c_obligations [of nsw]
    unfolding check_tgt_body_def s v by (auto simp: run_state_bind c_side_def)
qed


definition c_check :: "bool \<Rightarrow> string \<Rightarrow> tv_unit" where
  "c_check nsw nm = buildCombinedFactCheck demo_api simple_kb c_side (c_parent nsw) nm"

lemma c_check_refines: "unit_refines (c_check nsw nm)"
proof -
  have a: "union_args (facts c_side) = []" by (simp add: union_args_def c_side_def c_fact_def)
  obtain ns where b: "run_state (check_tgt_body demo_api simple_kb c_side (c_parent nsw) []) \<lparr>b_next = 0, b_insts = [], b_names = []\<rparr> =
      (Some (InstV 15), c_builder 16 16 ns)"
    using c_body [of nsw] by (auto simp: c_builder_def)
  have e: "b_insts (c_builder 16 16 ns) = c_code" by (simp add: c_builder_def c_code_def)
  have r: "run_state (do { r \<leftarrow> check_tgt_body demo_api simple_kb c_side (c_parent nsw) [];
      State_Monad.return (case r of None \<Rightarrow> const_true | Some v \<Rightarrow> v) })
      \<lparr>b_next = 0, b_insts = [], b_names = filter (\<lambda>nm. nm \<noteq> []) (map arg_name [])\<rparr> = (InstV 15, c_builder 16 16 ns)"
    using b by (simp add: run_state_bind)
  have t: "func_results (u_tgt (c_check nsw nm)) [] = {r. \<exists>\<sigma>. run (start_env []) c_code \<sigma> \<and> r = \<sigma> (InstV 15)}"
    using check_func_results [OF r, of "''tgt''" "[]"] by (simp add: c_check_def buildCombinedFactCheck_def a e)
  have ts: "func_safe (u_tgt (c_check nsw nm)) []"
    using check_func_safe [OF r, of "''tgt''" "[]"] c_code_safe by (simp add: c_check_def buildCombinedFactCheck_def a e)
  obtain \<sigma>1 where \<sigma>1: "only_run (start_env []) c_code = Some \<sigma>1" "\<sigma>1 (InstV 15) = sv (mk 1 1) True" using c_code_run by auto
  have s: "func_results (u_src (c_check nsw nm)) [] = {sv (mk 1 1) True}" "f_args (u_src (c_check nsw nm)) = []"
    by (auto simp: c_check_def buildCombinedFactCheck_def a check_func_def func_results_def run_state_bind ret_inst_def run_Nil_iff
        const_true_def start_env_def)
  show ?thesis unfolding unit_refines_def
  proof (intro allI impI)
    fix args
    assume "wf_args (u_src (c_check nsw nm)) args"
    then have "args = []" by (simp add: wf_args_def s(2))
    then show "refines_at (c_check nsw nm) args" using only_run_unique [OF \<sigma>1(1)] \<sigma>1(2) by (auto simp: refines_at_def s(1) t ts)
  qed
qed

definition c_env :: env where
  "c_env = (start_env [])(InstV 0 := sv (mk 8 7) True, InstV 1 := sv (mk 8 10) True, InstV 2 := sv (mk 8 0) True)"

lemma c_good: "good_run (c_parent nsw) [] c_env"
proof -
  have v: "binop_scalar no_facts no_facts 8 And no_flags (sv (mk 8 7) True) (sv (mk 8 15) True) = sv (mk 8 7) True"
    "binop_scalar no_facts no_facts 8 Add \<lparr>NSW = False, NUW = False, Exact = False, Disjoint = False\<rparr> (sv (mk 8 7) True) (sv (mk 8 3) True) = sv (mk 8 10) True"
    "binop_scalar no_facts no_facts 8 Add \<lparr>NSW = True, NUW = False, Exact = False, Disjoint = False\<rparr> (sv (mk 8 7) True) (sv (mk 8 3) True) = sv (mk 8 10) True"
    by code_simp+
  have fl: "binop_flags_of (w_inst n nm op nsw ops) = \<lparr>NSW = nsw, NUW = False, Exact = False, Disjoint = False\<rparr>" for n nm op nsw ops
    by (simp add: w_inst_def mk_inst_def binop_flags_of_def)
  have "run (start_env []) (all_insts (c_parent nsw)) c_env"
    unfolding c_insts c_env_def using v
    by (cases nsw) (auto intro!: run_Cons run_Nil simp: inst_result.simps inst_defined_def binop_defined_def int_width_def fl no_flags_def
        start_env_def wf_sv_def sv_def mk_def wf_bv_def ret_inst_def)
  moreover have "straight (c_parent nsw)"
    by (auto simp: straight_def c_insts inst_ids_def ordered_code_def ret_inst_def w_inst_def mk_inst_def)
  ultimately show ?thesis by (simp add: good_run_def wf_args_def c_parent_def)
qed

lemma c_sized: "sized_facts (c_parent nsw) c_side"
proof -
  have "wf_fact 8 c_fact" "kf_name c_fact = ''a''"
    by (simp_all add: c_fact_def wf_fact_def wf_ivl_def kb_sized_def)
  then show ?thesis by (simp add: sized_facts_def c_side_def c_named)
qed

lemma c_sized_collected: "sized_facts (c_parent nsw) (collectFromParent simple_kb simple_query w_unit (c_parent nsw))"
  unfolding c_collect by (rule c_sized)

lemma c_typed: "typed_unit w_unit (c_parent nsw)"
proof -
  have "all_insts (w_half ''tgt'' True) = [w_inst 0 ''b'' Add True [ArgV 0, ConstInt (mk 8 3)], ret_inst 1 (InstV 0)]"
    by (simp add: all_insts_def w_half_def)
  moreover have "findValueByName ''b'' (c_parent nsw) = Some (InstV 1)" "val_ty (c_parent nsw) (InstV 1) = IntTy 8"
      "findValueByName [] (c_parent nsw) = None"
    by (simp_all add: findValueByName_def val_ty_def find_inst_def all_insts_def c_parent_def ret_inst_def)
  ultimately show ?thesis
    by (simp add: typed_unit_def w_unit_def typed_inst_def arity_ok_def same_type_def val_ty_def val_name_def find_inst_def wf_val_def
        c_named ret_inst_def) (simp add: w_half_def c_named)
qed

theorem assume_check_sound_witness:
  "facts (collectFromParent simple_kb simple_query w_unit (c_parent True)) = [c_fact] \<and>
   fact_in simple_kb (c_parent True) c_env c_fact \<and> ob_in (c_parent True) c_env w_ob"
proof -
  have "list_all (fact_in simple_kb (c_parent True) c_env) (facts c_side) \<and> list_all (ob_in (c_parent True) c_env) (obligations c_side)"
    using assume_check_sound [OF demo_fold_ok c_good [of True] c_typed [of True], of simple_kb simple_query "[]"] c_sized [of True] c_check_refines [of True "[]"]
    by (simp only: c_collect c_check_def)
  then show ?thesis by (simp add: c_collect c_side_def)
qed


lemma w_half_results:
  assumes "wf_sv 8 x"
  shows "func_results (w_half nm nsw) [x] =
    {binop_scalar no_facts no_facts 8 Add \<lparr>NSW = nsw, NUW = False, Exact = False, Disjoint = False\<rparr> x (sv (mk 8 3) True)}"
proof -
  have "binop_flags_of (w_inst 0 ''b'' Add nsw [ArgV 0, ConstInt (mk 8 3)]) = \<lparr>NSW = nsw, NUW = False, Exact = False, Disjoint = False\<rparr>"
    by (simp add: w_inst_def mk_inst_def binop_flags_of_def)
  moreover have "wf_sv 8 (binop_scalar no_facts no_facts 8 Add fl x (sv (mk 8 3) True))" for fl
    using assms by (intro binop_scalar_wf) (simp_all add: llvm_binop_def)
  ultimately show ?thesis unfolding func_results_returns [OF w_returns]
    by (auto simp: run_Cons_iff run_Nil_iff inst_result.simps inst_defined_def binop_defined_def int_width_def start_env_def)
qed

lemma c_modified:
  assumes "side_true simple_kb (w_half nm True) c_side [x]" "wf_sv 8 x"
  shows "func_results (w_half nm True) [x] = func_results (w_half nm' False) [x]"
proof -
  have k: "flag_claim AddNSW x (sv (mk 8 3) True)"
    using assms(1) by (simp add: side_true_def c_side_def ob_true_def w_ob_def w_side_def resolveKeyInFn_def w_arg start_env_def)
  have "add_no_soverflow no_facts no_facts (sv_value x) (mk 8 3) \<longleftrightarrow> flag_ok AddNSW (sv_value x) (mk 8 3)"
    using assms(2) add_no_soverflow_iff [of "sv_value x" "mk 8 3" no_facts no_facts] by (simp add: wf_sv_def)
  then show ?thesis unfolding w_half_results [OF assms(2)] using k
    by (simp add: binop_scalar_def flag_claim_def sv_def)
qed


lemma c_fits: "side_fits (w_half nm nsw) c_side"
proof -
  have "wf_fact 8 c_fact" by (simp add: c_fact_def wf_fact_def wf_ivl_def kb_sized_def)
  moreover have "kf_name c_fact = ''a''" by (simp add: c_fact_def)
  ultimately show ?thesis
    by (simp add: side_fits_def c_side_def w_ob_def w_side_def fits_fact_def fits_ob_def w_arg resolveKeyInFn_def wf_val_def val_ty_def)
      (simp add: w_half_def)
qed

lemma w_half_safe:
  assumes "wf_sv 8 x"
  shows "func_safe (w_half nm nsw) [x]"
proof -
  have "wf_sv 8 (binop_scalar no_facts no_facts 8 Add fl x (sv (mk 8 3) True))" for fl
    using assms by (intro binop_scalar_wf) (simp_all add: llvm_binop_def)
  then show ?thesis unfolding func_safe_returns [OF w_returns]
    by (auto simp: steps_to_def [abs_def] inst_result.simps inst_defined_def binop_defined_def int_width_def start_env_def)
qed

lemma c_inject_results:
  assumes "wf_sv 8 x"
  shows "restricted (side_true simple_kb (w_half nm nsw) c_side [x])
      (fold (inject_side demo_api simple_kb) [c_side, c_side] (w_half nm nsw)) (w_half nm nsw) [x]"
    "f_args (fold (inject_side demo_api simple_kb) [c_side, c_side] (w_half nm nsw)) = f_args (w_half nm nsw)"
proof -
  have a: "wf_args (w_half nm nsw) [x]" using assms by (simp add: wf_args_def w_half_def int_width_def)
  have "list_all (side_fits (w_half nm nsw)) [c_side, c_side]" using c_fits by simp
  note r = side.inject_all [OF demo_fold_ok w_returns a this, of simple_kb]
  show "restricted (side_true simple_kb (w_half nm nsw) c_side [x])
      (fold (inject_side demo_api simple_kb) [c_side, c_side] (w_half nm nsw)) (w_half nm nsw) [x]"
    "f_args (fold (inject_side demo_api simple_kb) [c_side, c_side] (w_half nm nsw)) = f_args (w_half nm nsw)"
    using r by simp_all
qed

definition c_proposal :: assumed_tv_unit where
  "c_proposal =
     \<lparr>modified_unit = \<lparr>u_name = ''u.range-assume'',
        u_src = fold (inject_side demo_api simple_kb) [c_side, c_side] (w_half ''src'' False),
        u_tgt = fold (inject_side demo_api simple_kb) [c_side, c_side] (w_half ''tgt'' True)\<rparr>,
      assume_checks = [c_check False ''u.src-assume-check'', c_check True ''u.tgt-assume-check''], a_proposer = ''FromRanges''\<rparr>"

lemma c_proposed: "proposeAssume demo_api simple_kb simple_query w_unit (c_parent False) (c_parent True) = Some c_proposal"
proof -
  have ne: "\<not> side_empty c_side" by (simp add: side_empty_def c_side_def)
  show ?thesis
    unfolding proposeAssume_eq proposeFromRanges_def Let_def c_collect injectFromSide_eq
    by (simp add: ne c_proposal_def c_check_def w_unit_def)
qed

lemma c_modified_refines: "unit_refines (modified_unit c_proposal)"
  unfolding unit_refines_def
proof (intro allI impI)
  fix args
  let ?s = "fold (inject_side demo_api simple_kb) [c_side, c_side] (w_half ''src'' False)"
  assume wf: "wf_args (u_src (modified_unit c_proposal)) args"
  have "wf_sv 8 (sv (mk 8 0) True)" by (simp add: wf_sv_def sv_def)
  then have "f_args ?s = f_args (w_half ''src'' False)" by (rule c_inject_results(2))
  then obtain x where x: "args = [x]" "wf_sv 8 x"
    using wf by (auto simp: c_proposal_def wf_args_def w_half_def list_all2_Cons1 int_width_def)
  have st: "side_true simple_kb (w_half ''src'' False) = side_true simple_kb (w_half ''tgt'' True)"
    by (rule side_cong(1)) (simp add: w_half_def)
  show "refines_at (modified_unit c_proposal) args"
    unfolding refines_at_def using c_inject_results(1) [OF x(2), unfolded restricted_def] c_modified [OF _ x(2), of "''tgt''" "''src''"]
      w_half_safe [OF x(2)]
    by (auto simp: c_proposal_def x(1) st split: if_splits intro: sv_implies_refl)
qed

lemma w_unit_sel: "u_src w_unit = w_half ''src'' False" "u_tgt w_unit = w_half ''tgt'' True"
  and w_half_args: "f_args (w_half nm nsw) = [\<lparr>arg_name = ''a'', arg_ty = IntTy 8\<rparr>]"
  by (simp_all add: w_unit_def w_half_def)

lemma c_context: "in_context w_unit [sv (mk 8 7) True] (c_parent nsw) [] c_env"
proof -
  have "bound_to (w_half nm nsw') [sv (mk 8 7) True] (c_parent nsw) c_env" for nm nsw'
    by (simp add: bound_to_def w_half_args c_named c_env_def)
  then show ?thesis using c_good by (simp add: in_context_def w_unit_sel)
qed

theorem proposal_sound_witness:
  "proposeAssume demo_api simple_kb simple_query w_unit (c_parent False) (c_parent True) = Some c_proposal \<and>
   refines_at w_unit [sv (mk 8 7) True]"
proof -
  have u: "list_all unit_refines (assume_checks c_proposal)" using c_check_refines by (simp add: c_proposal_def)
  have "refines_at w_unit [sv (mk 8 7) True]"
    by (rule proposal_sound [OF demo_fold_ok c_proposed u c_modified_refines c_context c_context c_typed c_typed
          c_sized_collected c_sized_collected w_returns [of "''src''" False, folded w_unit_sel] w_returns [of "''tgt''" True, folded w_unit_sel]])
      (simp_all add: w_unit_sel w_args w_half_args)
  then show ?thesis using c_proposed by simp
qed

end
