(* ===== verification/DomSets.thy ===== *)
theory DomSets
  imports Main
begin

text \<open>
  The mathematics of the dominator algorithm: a partial map that sends every vertex to a smaller
  one is a tree, its ancestor sets, and what re-parenting a vertex does to them.
\<close>

section \<open>Ancestors\<close>

type_synonym parents = "nat \<Rightarrow> nat option"

definition up :: "parents \<Rightarrow> (nat \<times> nat) set" where
  "up d = {(c, x). d c = Some x}"

definition anc :: "parents \<Rightarrow> nat \<Rightarrow> nat set" where
  "anc d c = {y. (c, y) \<in> (up d)\<^sup>*}"

definition tree :: "parents \<Rightarrow> bool" where
  "tree d \<longleftrightarrow> d 0 = Some 0 \<and> (\<forall>c x. d c = Some x \<longrightarrow> (c = 0 \<or> x < c) \<and> d x \<noteq> None)"

lemma treeD:
  assumes "tree d"
  shows "d 0 = Some 0" "d c = Some x \<Longrightarrow> c \<noteq> 0 \<Longrightarrow> x < c" "d c = Some x \<Longrightarrow> d x \<noteq> None"
  using assms by (auto simp: tree_def)

lemma anc_refl [simp]: "c \<in> anc d c"
  by (simp add: anc_def)

lemma anc_None: "d c = None \<Longrightarrow> anc d c = {c}"
  by (auto simp: anc_def up_def elim: converse_rtranclE)

lemma anc_step: "d c = Some x \<Longrightarrow> anc d c = insert c (anc d x)"
proof
  assume d: "d c = Some x"
  show "anc d c \<subseteq> insert c (anc d x)"
    using d by (auto simp: anc_def up_def elim: converse_rtranclE)
  show "insert c (anc d x) \<subseteq> anc d c"
    using d by (auto simp: anc_def up_def intro: converse_rtrancl_into_rtrancl)
qed

lemma anc_trans: "y \<in> anc d c \<Longrightarrow> anc d y \<subseteq> anc d c"
  by (auto simp: anc_def)

lemma anc_zero: "tree d \<Longrightarrow> anc d 0 = {0}"
proof -
  assume t: "tree d"
  have "y = 0" if "(0, y) \<in> (up d)\<^sup>*" for y
    using that by (induction rule: rtrancl_induct) (use treeD(1) [OF t] in \<open>auto simp: up_def\<close>)
  then show ?thesis by (auto simp: anc_def)
qed

lemma anc_le: "tree d \<Longrightarrow> y \<in> anc d c \<Longrightarrow> y \<le> c"
proof (induction c rule: less_induct)
  case (less c)
  show ?case
  proof (cases "c = 0 \<or> d c = None")
    case True
    then show ?thesis using less.prems anc_zero anc_None by auto
  next
    case False
    then obtain x where x: "d c = Some x" "x < c" using treeD(2) [OF less.prems(1)] by blast
    then show ?thesis using less anc_step [of d c x] by fastforce
  qed
qed

lemma anc_defined: "tree d \<Longrightarrow> d c \<noteq> None \<Longrightarrow> y \<in> anc d c \<Longrightarrow> d y \<noteq> None"
proof -
  assume t: "tree d" "d c \<noteq> None" "y \<in> anc d c"
  from t(3) have "(c, y) \<in> (up d)\<^sup>*" by (simp add: anc_def)
  then show ?thesis by (induction rule: rtrancl_induct) (use t treeD(3) [OF t(1)] in \<open>auto simp: up_def\<close>)
qed

lemma anc_root: "tree d \<Longrightarrow> d c \<noteq> None \<Longrightarrow> 0 \<in> anc d c"
proof (induction c rule: less_induct)
  case (less c)
  show ?case
  proof (cases "c = 0")
    case False
    then obtain x where x: "d c = Some x" "x < c" "d x \<noteq> None" using less.prems treeD by blast
    then show ?thesis using less anc_step by blast
  qed simp
qed

text \<open>Ancestors form a chain.\<close>

lemma anc_chain:
  assumes "tree d" "y \<in> anc d c" "z \<in> anc d c" "y \<le> z"
  shows "y \<in> anc d z"
  using assms
proof (induction c rule: less_induct)
  case (less c)
  show ?case
  proof (cases "z = c")
    case False
    have "c \<noteq> 0" using less.prems(3) False anc_zero [OF less.prems(1)] by (metis singletonD)
    moreover have "d c \<noteq> None"
    proof
      assume "d c = None"
      then show False using less.prems(3) False by (simp add: anc_None)
    qed
    then obtain x where "d c = Some x" by blast
    ultimately have x: "d c = Some x" "x < c" using treeD(2) [OF less.prems(1)] by simp_all
    note c = anc_step [of d c x, OF x(1)]
    have z: "z \<in> anc d x" using less.prems(3) False c by simp
    have "y \<noteq> c" using anc_le [OF less.prems(1) z] x(2) less.prems(4) by linarith
    then have "y \<in> anc d x" using less.prems(2) c by simp
    then show ?thesis using less.IH [OF x(2) less.prems(1)] less.prems(4) z by simp
  qed (use less.prems in simp)
qed

lemma anc_inj: "tree d \<Longrightarrow> anc d x = anc d y \<Longrightarrow> x = y"
  using anc_le anc_refl by (metis le_antisym)

section \<open>Re-parenting\<close>

lemma anc_below:
  assumes "tree d" "c < b" shows "anc (d(b := v)) c = anc d c"
proof
  have "(c, y) \<in> (up (d(b := v)))\<^sup>*" if "(c, y) \<in> (up d)\<^sup>*" for y
    using that
  proof (induction rule: rtrancl_induct)
    case (step y z)
    then have "y \<le> c" using anc_le [OF assms(1)] by (simp add: anc_def)
    then have "(y, z) \<in> up (d(b := v))" using step(2) assms(2) by (auto simp: up_def)
    with step(3) show ?case by (rule rtrancl_into_rtrancl)
  qed simp
  then show "anc d c \<subseteq> anc (d(b := v)) c" by (auto simp: anc_def)
  have "(c, y) \<in> (up d)\<^sup>*" if "(c, y) \<in> (up (d(b := v)))\<^sup>*" for y
    using that
  proof (induction rule: rtrancl_induct)
    case (step y z)
    then have "y \<le> c" using anc_le [OF assms(1)] by (simp add: anc_def)
    then have "(y, z) \<in> up d" using step(2) assms(2) by (auto simp: up_def split: if_splits)
    with step(3) show ?case by (rule rtrancl_into_rtrancl)
  qed simp
  then show "anc (d(b := v)) c \<subseteq> anc d c" by (auto simp: anc_def)
qed

lemma tree_upd: "tree d \<Longrightarrow> x < b \<Longrightarrow> d x \<noteq> None \<Longrightarrow> tree (d(b := Some x))"
  by (auto simp: tree_def)

lemma anc_upd:
  assumes "tree d" "x < b" "d x \<noteq> None"
  shows "anc (d(b := Some x)) c = (if b \<in> anc d c then {y \<in> anc d c. b \<le> y} \<union> anc d x else anc d c)"
proof (induction c rule: less_induct)
  case (less c)
  let ?d = "d(b := Some x)"
  consider (small) "c < b" | (same) "c = b" | (large) "b < c" by linarith
  then show ?case
  proof cases
    case small
    then have "b \<notin> anc d c" using anc_le [OF assms(1)] by (meson not_le)
    then show ?thesis using anc_below [OF assms(1) small, of "Some x"] by (simp only: if_False)
  next
    case same
    have "{y \<in> anc d b. b \<le> y} = {b}" using anc_le [OF assms(1)] by (auto intro: le_antisym)
    moreover have "anc ?d b = insert b (anc d x)"
      using anc_step [of ?d b x, OF fun_upd_same] unfolding anc_below [OF assms(1,2)] .
    ultimately show ?thesis unfolding same using anc_refl [of b d] by (simp only: if_True) blast
  next
    case large
    show ?thesis
    proof (cases "d c")
      case None
      then have "anc ?d c = {c}" "anc d c = {c}" using large anc_None [of ?d c] anc_None [of d c] by simp_all
      then show ?thesis using large by (simp del: fun_upd_apply)
    next
      case (Some z)
      then have z: "z < c" using large treeD(2) [OF assms(1)] by auto
      have "anc ?d c = insert c (anc ?d z)" using Some large by (intro anc_step) simp
      moreover have "b \<in> anc d c \<longleftrightarrow> b \<in> anc d z" using anc_step [of d c z, OF Some] large by simp
      ultimately show ?thesis unfolding less [OF z] anc_step [of d c z, OF Some] using large
        by (auto simp del: fun_upd_apply)
    qed
  qed
qed

lemma anc_upd_shrinks:
  assumes "tree d" "x < b" "d x \<noteq> None" "d c \<noteq> None" "\<And>z. d b = Some z \<Longrightarrow> x \<in> anc d z"
  shows "anc (d(b := Some x)) c \<subseteq> anc d c"
proof (cases "b \<in> anc d c")
  case True
  then obtain z where z: "d b = Some z" using anc_defined [OF assms(1,4)] by blast
  then have "anc d x \<subseteq> anc d b" using anc_trans [OF assms(5) [OF z]] anc_step [of d b z, OF z] by auto
  also have "\<dots> \<subseteq> anc d c" by (rule anc_trans [OF True])
  finally show ?thesis using True by (simp add: anc_upd [OF assms(1-3)])
qed (simp add: anc_upd [OF assms(1-3)])

text \<open>
  When every vertex of the new tree that is not below its old parent in the chain hangs from an
  ancestor of it, the part of a chain below an old ancestor is a chain from there.
\<close>

lemma chain_through:
  assumes "tree d" "\<And>c x. c < b \<Longrightarrow> o' c = Some x \<Longrightarrow> \<exists>x'. d c = Some x' \<and> x' \<in> anc d x"
    and "(c, q) \<in> (up o')\<^sup>*" "tree o'" "c < b" "y \<in> anc d c" "y \<le> q"
  shows "y \<in> anc d q"
  using assms(3,5,6)
proof (induction rule: converse_rtrancl_induct)
  case base
  then show ?case by simp
next
  case (step c z)
  have oz: "o' c = Some z" using step(1) by (simp add: up_def)
  obtain x where x: "d c = Some x" "x \<in> anc d z" using assms(2) [OF step(4) oz] by blast
  have zc: "z \<le> c" using treeD(1) [OF assms(4)] treeD(2) [OF assms(4) oz] oz by (cases "c = 0") auto
  have qz: "q \<le> z" using anc_le [OF assms(4), of q z] step(2) by (simp add: anc_def)
  have "y \<in> anc d z"
  proof (cases "y = c")
    case True
    then have "y = z" using assms(7) qz zc by linarith
    then show ?thesis by simp
  next
    case False
    then have "y \<in> anc d x" using step(5) anc_step [of d c x, OF x(1)] by simp
    then show ?thesis using anc_trans [OF x(2)] by blast
  qed
  then show ?case using step(3) step(4) zc by linarith
qed

end
