(* ===== verification/DomPass.thy ===== *)
theory DomPass
  imports DomSets
begin

text \<open>
  Why the passes of the dominator algorithm are right. The tree always has every dominator of a
  vertex among its ancestors; every vertex can be reached from its parent through larger
  vertices; and a visit moves a vertex up its own chain. The last point makes the passes end,
  and when one changes nothing the ancestors are exactly the dominators.
\<close>

section \<open>Domination\<close>

fun walk :: "(nat \<times> nat) set \<Rightarrow> nat list \<Rightarrow> bool" where
  "walk E (u # v # vs) \<longleftrightarrow> (u, v) \<in> E \<and> walk E (v # vs)"
| "walk E [v] \<longleftrightarrow> True"
| "walk E [] \<longleftrightarrow> False"

definition on_all_paths :: "(nat \<times> nat) set \<Rightarrow> nat \<Rightarrow> nat \<Rightarrow> bool" where
  "on_all_paths E y c \<longleftrightarrow> (\<forall>p. walk E p \<longrightarrow> hd p = 0 \<longrightarrow> last p = c \<longrightarrow> y \<in> set p)"

definition avoiding :: "(nat \<times> nat) set \<Rightarrow> nat \<Rightarrow> (nat \<times> nat) set" where
  "avoiding E y = {(u, v) \<in> E. v \<noteq> y}"

definition above :: "(nat \<times> nat) set \<Rightarrow> nat \<Rightarrow> (nat \<times> nat) set" where
  "above E x = {(u, v) \<in> E. x < v}"

lemma walk_avoids: "walk E p \<Longrightarrow> y \<notin> set p \<Longrightarrow> (hd p, last p) \<in> (avoiding E y)\<^sup>*"
proof (induction E p rule: walk.induct)
  case (1 E u v vs)
  then have "(u, v) \<in> avoiding E y" by (auto simp: avoiding_def)
  then show ?case using 1 by (auto intro: converse_rtrancl_into_rtrancl)
qed auto

lemma walk_snoc: "walk E p \<Longrightarrow> (last p, v) \<in> E \<Longrightarrow> walk E (p @ [v])"
  by (induction E p rule: walk.induct) auto

lemma avoids_walk:
  "(u, c) \<in> (avoiding E y)\<^sup>* \<Longrightarrow> u \<noteq> y \<Longrightarrow> \<exists>p. walk E p \<and> hd p = u \<and> last p = c \<and> y \<notin> set p"
proof (induction rule: rtrancl_induct)
  case base
  then show ?case by (intro exI [of _ "[u]"]) simp
next
  case (step v w)
  then obtain p where p: "walk E p" "hd p = u" "last p = v" "y \<notin> set p" by blast
  moreover from p(1) have "p \<noteq> []" by auto
  ultimately show ?case using step(2) walk_snoc [of E p w]
    by (intro exI [of _ "p @ [w]"]) (auto simp: avoiding_def)
qed

lemma dom_iff: "on_all_paths E y c \<longleftrightarrow> y = 0 \<or> (0, c) \<notin> (avoiding E y)\<^sup>*"
proof
  assume d: "on_all_paths E y c"
  show "y = 0 \<or> (0, c) \<notin> (avoiding E y)\<^sup>*"
  proof (rule ccontr)
    assume "\<not> ?thesis"
    then obtain p where "walk E p" "hd p = 0" "last p = c" "y \<notin> set p" using avoids_walk [of 0 c E y] by blast
    then show False using d by (auto simp: on_all_paths_def)
  qed
next
  assume a: "y = 0 \<or> (0, c) \<notin> (avoiding E y)\<^sup>*"
  show "on_all_paths E y c" unfolding on_all_paths_def
  proof (intro allI impI)
    fix p assume p: "walk E p" "hd p = 0" "last p = c"
    then have "p \<noteq> []" by auto
    then show "y \<in> set p" using a walk_avoids [OF p(1), of y] p(2,3) hd_in_set [of p] by auto
  qed
qed

lemma dom_pred: "on_all_paths E y c \<Longrightarrow> y \<noteq> c \<Longrightarrow> (p, c) \<in> E \<Longrightarrow> on_all_paths E y p"
  by (auto simp: dom_iff avoiding_def intro: rtrancl_into_rtrancl)

section \<open>The state between two visits\<close>

definition meet :: "parents \<Rightarrow> nat list \<Rightarrow> nat set" where
  "meet d ps = {y. \<forall>p\<in>set ps. d p \<noteq> None \<longrightarrow> y \<in> anc d p}"

definition ordered_graph :: "nat \<Rightarrow> (nat \<Rightarrow> nat list) \<Rightarrow> (nat \<times> nat) set \<Rightarrow> bool" where
  "ordered_graph n P E \<longleftrightarrow> P 0 = [] \<and> (\<forall>u v. u \<in> set (P v) \<longleftrightarrow> (u, v) \<in> E) \<and> (\<forall>(u, v) \<in> E. u < n) \<and>
     (\<forall>b. 0 < b \<longrightarrow> b < n \<longrightarrow> P b \<noteq> [] \<and> hd (P b) < b)"

lemma ordered_graphD:
  assumes "ordered_graph n P E"
  shows "P 0 = []" "u \<in> set (P v) \<longleftrightarrow> (u, v) \<in> E" "(u, v) \<in> E \<Longrightarrow> u < n"
    and "0 < b \<Longrightarrow> b < n \<Longrightarrow> P b \<noteq> []" "0 < b \<Longrightarrow> b < n \<Longrightarrow> hd (P b) < b"
    and "0 < b \<Longrightarrow> b < n \<Longrightarrow> (hd (P b), b) \<in> E"
proof -
  show h: "u \<in> set (P v) \<longleftrightarrow> (u, v) \<in> E" for u v using assms by (simp add: ordered_graph_def)
  show "P 0 = []" "(u, v) \<in> E \<Longrightarrow> u < n" "0 < b \<Longrightarrow> b < n \<Longrightarrow> hd (P b) < b"
    using assms by (auto simp: ordered_graph_def)
  show ne: "P b \<noteq> []" if "0 < b" "b < n" using assms that by (simp add: ordered_graph_def)
  show "(hd (P b), b) \<in> E" if "0 < b" "b < n" using h [of "hd (P b)" b] hd_in_set [OF ne [OF that]] by blast
qed

definition dom_inv :: "(nat \<Rightarrow> nat list) \<Rightarrow> (nat \<times> nat) set \<Rightarrow> parents \<Rightarrow> bool" where
  "dom_inv P E d \<longleftrightarrow> tree d \<and>
     (\<forall>c y. d c \<noteq> None \<longrightarrow> on_all_paths E y c \<longrightarrow> y \<in> anc d c) \<and>
     (\<forall>c x. c \<noteq> 0 \<longrightarrow> d c = Some x \<longrightarrow> (x, c) \<in> (above E x)\<^sup>*) \<and>
     (\<forall>c x. c \<noteq> 0 \<longrightarrow> d c = Some x \<longrightarrow> (\<forall>y\<in>meet d (P c). y \<le> x))"

lemma dom_invD:
  assumes "dom_inv P E d"
  shows "tree d" "d c \<noteq> None \<Longrightarrow> on_all_paths E y c \<Longrightarrow> y \<in> anc d c"
    "c \<noteq> 0 \<Longrightarrow> d c = Some x \<Longrightarrow> (x, c) \<in> (above E x)\<^sup>*"
    "c \<noteq> 0 \<Longrightarrow> d c = Some x \<Longrightarrow> y \<in> meet d (P c) \<Longrightarrow> y \<le> x"
  using assms by (auto simp: dom_inv_def)

lemma above_mono: "q \<le> x \<Longrightarrow> (above E x)\<^sup>* \<subseteq> (above E q)\<^sup>*"
  by (rule rtrancl_mono) (auto simp: above_def)

lemma above_avoids: "y < x \<Longrightarrow> (above E x)\<^sup>* \<subseteq> (avoiding E y)\<^sup>*"
  by (rule rtrancl_mono) (auto simp: above_def avoiding_def)

lemma anc_reaches:
  assumes "dom_inv P E d" "q \<in> anc d c"
  shows "(q, c) \<in> (above E q)\<^sup>*"
  using assms(2)
proof (induction c rule: less_induct)
  case (less c)
  note t = dom_invD(1) [OF assms(1)]
  show ?case
  proof (cases "q = c")
    case False
    have "c \<noteq> 0" using less.prems False anc_zero [OF t] by (metis singletonD)
    moreover have "d c \<noteq> None" using less.prems False anc_None [of d c] by (metis singletonD)
    ultimately obtain x where x: "d c = Some x" "x < c" "c \<noteq> 0" using treeD(2) [OF t] by blast
    have q: "q \<in> anc d x" using less.prems False anc_step [of d c x, OF x(1)] by simp
    have "(x, c) \<in> (above E q)\<^sup>*"
      using dom_invD(3) [OF assms(1) x(3,1)] above_mono [OF anc_le [OF t q]] by blast
    with less.IH [OF x(2) q] show ?thesis by (rule rtrancl_trans)
  qed simp
qed

section \<open>One visit\<close>

lemma visit_below:
  assumes "dom_inv P E d" "ordered_graph n P E" "0 < b" "b < n" "d (hd (P b)) \<noteq> None" "anc d x = meet d (P b)"
  shows "x \<in> anc d (hd (P b))" "x < b" "d x \<noteq> None"
proof -
  have h: "hd (P b) \<in> set (P b)" "hd (P b) < b" using ordered_graphD(4,5) [OF assms(2-4)] by auto
  have "x \<in> meet d (P b)" using anc_refl [of x d] assms(6) by simp
  then show x: "x \<in> anc d (hd (P b))" using h(1) assms(5) by (simp add: meet_def)
  note t = dom_invD(1) [OF assms(1)]
  show "x < b" using anc_le [OF t x] h(2) by linarith
  show "d x \<noteq> None" by (rule anc_defined [OF t assms(5) x])
qed

lemma visit_inv:
  assumes inv: "dom_inv P E d" and g: "ordered_graph n P E" and b: "0 < b" "b < n"
    and h: "d (hd (P b)) \<noteq> None" and x: "anc d x = meet d (P b)"
    and up: "\<And>z. d b = Some z \<Longrightarrow> x \<in> anc d z"
  shows "dom_inv P E (d(b := Some x))"
proof -
  let ?d = "d(b := Some x)"
  note t = dom_invD(1) [OF inv] and v = visit_below [OF inv g b h x]
  note shrinks = anc_upd_shrinks [OF t v(2,3) _ up]
  note a = anc_upd [OF t v(2,3)]
  have meet_le: "meet ?d ps \<subseteq> meet d ps" for ps
    using shrinks by (fastforce simp: meet_def)
  have hb: "(hd (P b), b) \<in> E" by (rule ordered_graphD(6) [OF g b])
  have domb: "y \<in> anc d x" if "on_all_paths E y b" "y \<noteq> b" for y
    using dom_pred [OF that] dom_invD(2) [OF inv] g by (auto simp: x meet_def ordered_graph_def)
  have sound: "y \<in> anc ?d c" if c: "?d c \<noteq> None" "on_all_paths E y c" for c y
  proof (cases "b \<in> anc d c")
    case False
    then have "c \<noteq> b" by auto
    then show ?thesis using False c dom_invD(2) [OF inv, of c y] by (simp add: a)
  next
    case True
    show ?thesis
    proof (cases "b \<le> y")
      case large: True
      have "y \<in> anc d c"
      proof (cases "c = b")
        case cb: True
        have "y = b" using domb [of y] c(2) anc_le [OF t, of y x] v(2) large cb by fastforce
        then show ?thesis using cb by simp
      next
        case False
        then show ?thesis using c dom_invD(2) [OF inv] by simp
      qed
      then show ?thesis using True by (simp add: a large)
    next
      case False
      have "on_all_paths E y b"
      proof (rule ccontr)
        assume "\<not> on_all_paths E y b"
        then have "y \<noteq> 0" "(0, b) \<in> (avoiding E y)\<^sup>*" by (auto simp: dom_iff)
        moreover have "(b, c) \<in> (avoiding E y)\<^sup>*"
          using anc_reaches [OF inv True] above_avoids [of y b E] False by auto
        ultimately show False using c(2) by (auto simp: dom_iff dest: rtrancl_trans)
      qed
      then have "y \<in> anc d x" using domb False by simp
      then show ?thesis using True by (simp add: a)
    qed
  qed
  have reach: "(z, c) \<in> (above E z)\<^sup>*" if "c \<noteq> 0" "?d c = Some z" for c z
  proof (cases "c = b")
    case True
    then have z: "z = x" using that by simp
    have "(x, hd (P b)) \<in> (above E x)\<^sup>*" by (rule anc_reaches [OF inv v(1)])
    moreover have "(hd (P b), b) \<in> above E x" using hb v(2) by (simp add: above_def)
    ultimately show ?thesis using True z by (simp add: rtrancl_into_rtrancl)
  next
    case False
    then show ?thesis using that dom_invD(3) [OF inv] by simp
  qed
  have low: "y \<le> z" if "c \<noteq> 0" "?d c = Some z" "y \<in> meet ?d (P c)" for c y z
  proof (cases "c = b")
    case True
    then have "y \<in> anc d x" using that(3) meet_le x by auto
    then show ?thesis using anc_le [OF t] that(2) True by simp
  next
    case False
    then show ?thesis using that dom_invD(4) [OF inv that(1), of z y] meet_le by auto
  qed
  show ?thesis unfolding dom_inv_def using tree_upd [OF t v(2,3)] sound reach low by blast
qed

section \<open>One pass\<close>

text \<open>
  \<open>o\<close> is the tree before the pass, \<open>d\<close> the tree when the vertices below \<open>b\<close> have been visited.
\<close>

definition settled :: "(nat \<Rightarrow> nat list) \<Rightarrow> parents \<Rightarrow> nat \<Rightarrow> bool" where
  "settled P d b \<longleftrightarrow> (\<forall>c x. 0 < c \<longrightarrow> c < b \<longrightarrow> d c = Some x \<longrightarrow> x \<in> anc d (hd (P c)))"

definition pass_inv ::
  "nat \<Rightarrow> (nat \<Rightarrow> nat list) \<Rightarrow> (nat \<times> nat) set \<Rightarrow> parents \<Rightarrow> parents \<Rightarrow> nat \<Rightarrow> bool" where
  "pass_inv n P E o' d b \<longleftrightarrow> dom_inv P E d \<and> tree o' \<and> settled P o' n \<and> settled P d b \<and>
     (\<forall>c<b. d c \<noteq> None) \<and> (\<forall>c\<ge>b. d c = o' c) \<and> (\<forall>c\<ge>n. d c = None) \<and>
     (\<forall>c x. c < b \<longrightarrow> o' c = Some x \<longrightarrow> (\<exists>x'. d c = Some x' \<and> x' \<in> anc d x))"

lemma pass_invD:
  assumes "pass_inv n P E o' d b"
  shows "dom_inv P E d" "tree o'" "settled P o' n" "settled P d b" "c < b \<Longrightarrow> d c \<noteq> None"
    "b \<le> c \<Longrightarrow> d c = o' c" "n \<le> c \<Longrightarrow> d c = None"
    "c < b \<Longrightarrow> o' c = Some x \<Longrightarrow> \<exists>x'. d c = Some x' \<and> x' \<in> anc d x"
  using assms by (auto simp: pass_inv_def)

lemma visit_moves_up:
  assumes p: "pass_inv n P E o' d b" and g: "ordered_graph n P E" and b: "0 < b" "b < n"
    and x: "anc d x = meet d (P b)" and z: "d b = Some z"
  shows "x \<in> anc d z"
proof -
  note inv = pass_invD(1) [OF p]
  have h: "hd (P b) < b" by (rule ordered_graphD(5) [OF g b])
  have oz: "o' b = Some z" using pass_invD(6) [OF p, of b] z by simp
  have "(hd (P b), z) \<in> (up o')\<^sup>*" using pass_invD(3) [OF p] b oz by (simp add: settled_def anc_def)
  moreover have "x \<in> anc d (hd (P b))" by (rule visit_below(1) [OF inv g b pass_invD(5) [OF p h] x])
  moreover have "x \<le> z" using dom_invD(4) [OF inv _ z, of x] b(1) x anc_refl [of x d] by simp
  ultimately show ?thesis
    using chain_through [OF dom_invD(1) [OF inv] pass_invD(8) [OF p] _ pass_invD(2) [OF p] h] by blast
qed

lemma settled_upd:
  assumes "settled P d b" "tree d" "ordered_graph n P E" "0 < b" "b < n" "x \<in> anc d (hd (P b))"
  shows "settled P (d(b := Some x)) (Suc b)"
  unfolding settled_def
proof (intro allI impI)
  fix c z assume c: "0 < c" "c < Suc b" "(d(b := Some x)) c = Some z"
  then have h: "hd (P c) < c" using ordered_graphD(5) [OF assms(3)] assms(5) by simp
  have "anc (d(b := Some x)) (hd (P c)) = anc d (hd (P c))"
    by (rule anc_below [OF assms(2)]) (use h c(2) in simp)
  then show "z \<in> anc (d(b := Some x)) (hd (P c))"
    using assms(1,6) c unfolding settled_def by (cases "c = b") (simp_all del: fun_upd_apply add: fun_upd_same fun_upd_other)
qed

lemma visit_pass:
  assumes p: "pass_inv n P E o' d b" and g: "ordered_graph n P E" and b: "0 < b" "b < n"
    and x: "anc d x = meet d (P b)"
  shows "pass_inv n P E o' (d(b := Some x)) (Suc b)"
proof -
  let ?d = "d(b := Some x)"
  note inv = pass_invD(1) [OF p]
  note t = dom_invD(1) [OF inv]
  have h: "d (hd (P b)) \<noteq> None" using pass_invD(5) [OF p ordered_graphD(5) [OF g b]] .
  note v = visit_below [OF inv g b h x]
  have "dom_inv P E ?d" by (rule visit_inv [OF inv g b h x visit_moves_up [OF p g b x]])
  moreover have "settled P ?d (Suc b)" by (rule settled_upd [OF pass_invD(4) [OF p] t g b v(1)])
  moreover have "\<exists>x'. ?d c = Some x' \<and> x' \<in> anc ?d z" if c: "c < Suc b" "o' c = Some z" for c z
  proof -
    have "z \<le> c" using treeD(1,2) [OF pass_invD(2) [OF p]] c(2) by (cases "c = 0") (auto intro: less_imp_le)
    show ?thesis
    proof (cases "c = b")
      case True
      then have z: "d b = Some z" using pass_invD(6) [OF p, of b] c(2) by simp
      then have "z < b" using treeD(2) [OF t z] b(1) by simp
      then have "x \<in> anc ?d z" using visit_moves_up [OF p g b x z] anc_below [OF t] by simp
      then show ?thesis using True by simp
    next
      case False
      then have "c < b" "z < b" using c(1) \<open>z \<le> c\<close> by auto
      then show ?thesis using pass_invD(8) [OF p _ c(2)] anc_below [OF t \<open>z < b\<close>, of "Some x"] False by auto
    qed
  qed
  moreover have "?d c \<noteq> None" if "c < Suc b" for c using pass_invD(5) [OF p, of c] that by auto
  moreover have "?d c = o' c" if "Suc b \<le> c" for c using pass_invD(6) [OF p, of c] that by auto
  moreover have "?d c = None" if "n \<le> c" for c using pass_invD(7) [OF p, of c] that b(2) by auto
  ultimately show ?thesis unfolding pass_inv_def using pass_invD(2,3) [OF p] by blast
qed

lemma pass_start: "pass_inv n P E o' d n \<Longrightarrow> 0 < n \<Longrightarrow> pass_inv n P E d d 1"
proof -
  assume p: "pass_inv n P E o' d n" and n: "0 < n"
  note t = dom_invD(1) [OF pass_invD(1) [OF p]]
  have "settled P d n" by (rule pass_invD(4) [OF p])
  moreover have "settled P d 1" by (simp add: settled_def)
  moreover have "\<exists>x'. d c = Some x' \<and> x' \<in> anc d x" if "c < 1" "d c = Some x" for c x using that by auto
  moreover have "d c \<noteq> None" if "c < 1" for c using pass_invD(5) [OF p, of c] that n by simp
  ultimately show ?thesis unfolding pass_inv_def using pass_invD(1) [OF p] pass_invD(7) [OF p] t by blast
qed

section \<open>The fixed point\<close>

lemma fixed_point_dominates:
  assumes "tree d" "ordered_graph n P E" "\<And>c. c < n \<Longrightarrow> d c \<noteq> None"
    and stable: "\<And>c x. 0 < c \<Longrightarrow> c < n \<Longrightarrow> d c = Some x \<Longrightarrow> anc d x = meet d (P c)"
  shows "y \<in> anc d c \<Longrightarrow> c < n \<Longrightarrow> on_all_paths E y c"
proof (rule ccontr)
  assume a: "y \<in> anc d c" "c < n" and "\<not> on_all_paths E y c"
  then have y: "y \<noteq> 0" "(0, c) \<in> (avoiding E y)\<^sup>*" by (auto simp: dom_iff)
  have "c < n \<longrightarrow> y \<notin> anc d c"
    using y(2)
  proof (induction rule: rtrancl_induct)
    case base
    then show ?case using y(1) anc_zero [OF assms(1)] by auto
  next
    case (step u v)
    have e: "(u, v) \<in> E" "v \<noteq> y" using step(2) by (auto simp: avoiding_def)
    then have u: "u \<in> set (P v)" "u < n" using ordered_graphD(2,3) [OF assms(2)] by auto
    show ?case
    proof
      assume v: "v < n"
      have "0 < v" using u(1) ordered_graphD(1) [OF assms(2)] by (metis empty_iff gr0I list.set(1))
      obtain x where x: "d v = Some x" using assms(3) [OF v] by blast
      have "y \<notin> meet d (P v)" using step(3) u assms(3) [OF u(2)] by (auto simp: meet_def)
      then show "y \<notin> anc d v"
        using stable [OF \<open>0 < v\<close> v x] anc_step [of d v x, OF x] e(2) by auto
    qed
  qed
  then show False using a by blast
qed

end
