(* ===== verification/DomTree.thy ===== *)
theory DomTree
  imports DomPass "HOL-Library.Monad_Syntax"
begin

text \<open>
  The control-flow edges and the dominator tree of \<open>ir/function.cpp\<close>. Blocks are named by their
  position in the order of the function; the sink comes after them. \<open>DomTree\<close> follows Cooper,
  Harvey and Kennedy: passes over the blocks, each block taking the nearest common ancestor of
  its predecessors as dominator, until a pass changes nothing.
\<close>

section \<open>Edges\<close>

text \<open>
  For every block, the targets of its terminator if that is a jump. The iterator is at a block
  with the targets still to come; \<^const>\<open>None\<close> is a dereference past the targets of a block.
\<close>

type_synonym cfg = "nat list option list"

function cfg_next :: "cfg \<Rightarrow> nat \<Rightarrow> nat \<times> nat list" where
  "cfg_next bbs i =
     (if length bbs \<le> i then (i, [])
      else case bbs ! i of Some ts \<Rightarrow> (i, ts) | None \<Rightarrow> cfg_next bbs (Suc i))"
  by pat_completeness auto
termination by (relation "measure (\<lambda>(bbs, i). length bbs - i)") auto

declare cfg_next.simps [simp del]

lemma cfg_next_le: "i \<le> fst (cfg_next bbs i)"
proof (induction bbs i rule: cfg_next.induct)
  case (1 bbs i)
  show ?case
  proof (cases "i < length bbs \<and> bbs ! i = None")
    case True
    then show ?thesis using 1 by (subst cfg_next.simps) simp
  qed (subst cfg_next.simps, auto split: option.splits)
qed

lemma cfg_next_gt: "(j, ts) = cfg_next bbs (Suc i) \<Longrightarrow> i < j"
  using cfg_next_le [of "Suc i" bbs] by (metis Suc_le_eq fst_conv)

function cfg_walk :: "cfg \<Rightarrow> nat \<Rightarrow> nat list \<Rightarrow> (nat \<times> nat) list option" where
  "cfg_walk bbs i ts =
     (if length bbs \<le> i then Some []
      else case ts of
             [] \<Rightarrow> None
           | t # ts' \<Rightarrow>
               map_option (Cons (i, t))
                 (if ts' = [] then case cfg_next bbs (Suc i) of (j, us) \<Rightarrow> cfg_walk bbs j us
                  else cfg_walk bbs i ts'))"
  by pat_completeness auto
termination
  by (relation "measures [\<lambda>(bbs, i, ts). length bbs - i, \<lambda>(bbs, i, ts). length ts]")
    (auto dest: cfg_next_gt [OF sym] intro!: diff_less_mono2 split: prod.splits)

declare cfg_walk.simps [simp del]

definition cfg_edges :: "cfg \<Rightarrow> (nat \<times> nat) list option" where
  "cfg_edges bbs = (case cfg_next bbs 0 of (i, ts) \<Rightarrow> cfg_walk bbs i ts)"

section \<open>The dominator tree\<close>

record dom_node =
  preds :: "nat list"
  dominator :: "nat option"
  order :: nat

type_synonym dom_tree = "dom_node list"

partial_function (option) climb :: "dom_tree \<Rightarrow> nat \<Rightarrow> nat \<Rightarrow> nat option" where
  "climb doms f1 f2 =
     (if order (doms ! f1) < order (doms ! f2)
      then do { f \<leftarrow> dominator (doms ! f1); climb doms f f2 }
      else Some f1)"

partial_function (option) intersect :: "dom_tree \<Rightarrow> nat \<Rightarrow> nat \<Rightarrow> nat option" where
  "intersect doms f1 f2 =
     (if order (doms ! f1) = order (doms ! f2) then Some f1
      else do { g1 \<leftarrow> climb doms f1 f2; g2 \<leftarrow> climb doms f2 g1; intersect doms g1 g2 })"

fun idom_loop :: "dom_tree \<Rightarrow> nat list \<Rightarrow> nat \<Rightarrow> nat option" where
  "idom_loop doms [] new_idom = Some new_idom"
| "idom_loop doms (p # ps) new_idom =
     (if dominator (doms ! p) \<noteq> None
      then do { x \<leftarrow> intersect doms p new_idom; idom_loop doms ps x }
      else idom_loop doms ps new_idom)"

definition visit_block :: "dom_tree \<Rightarrow> nat \<Rightarrow> (dom_tree \<times> bool) option" where
  "visit_block doms b =
     (case preds (doms ! b) of
        [] \<Rightarrow> Some (doms, False)
      | p # ps \<Rightarrow> do {
          new_idom \<leftarrow> idom_loop doms (p # ps) p;
          if dominator (doms ! b) \<noteq> Some new_idom
          then Some (doms[b := (doms ! b)\<lparr>dominator := Some new_idom\<rparr>], True)
          else Some (doms, False) })"

fun dom_pass :: "dom_tree \<Rightarrow> nat list \<Rightarrow> bool \<Rightarrow> (dom_tree \<times> bool) option" where
  "dom_pass doms [] changed = Some (doms, changed)"
| "dom_pass doms (b # bs) changed = do {
     (doms', c) \<leftarrow> visit_block doms b;
     dom_pass doms' bs (changed \<or> c) }"

partial_function (option) dom_loop :: "dom_tree \<Rightarrow> nat list \<Rightarrow> dom_tree option" where
  "dom_loop doms bs = do {
     (doms', changed) \<leftarrow> dom_pass doms bs False;
     if changed then dom_loop doms' bs else Some doms' }"

definition preds_of :: "(nat \<times> nat) list \<Rightarrow> nat \<Rightarrow> nat list" where
  "preds_of es b = [s. (s, t) \<leftarrow> es, t = b]"

definition init_doms :: "nat \<Rightarrow> (nat \<times> nat) list \<Rightarrow> dom_tree" where
  "init_doms n es =
     map (\<lambda>b. \<lparr>preds = preds_of es b, dominator = (if b = 0 then Some 0 else None), order = n - b\<rparr>)
       [0..<Suc n]"

definition buildDominators :: "cfg \<Rightarrow> dom_tree option" where
  "buildDominators bbs = do {
     es \<leftarrow> cfg_edges bbs;
     dom_loop (init_doms (length bbs) es) [0..<length bbs] }"

definition getIDominator :: "dom_tree \<Rightarrow> nat \<Rightarrow> nat option" where
  "getIDominator doms b = dominator (doms ! b)"

partial_function (option) dominates :: "dom_tree \<Rightarrow> nat \<Rightarrow> nat \<Rightarrow> bool option" where
  "dominates doms a b =
     (if b = a then Some True
      else if dominator (doms ! b) = Some b then Some False
      else do { d \<leftarrow> dominator (doms ! b); dominates doms a d })"

declare climb.simps [code] intersect.simps [code] dom_loop.simps [code] dominates.simps [code]

section \<open>Edges are listed block by block\<close>

definition jumps_ok :: "cfg \<Rightarrow> bool" where
  "jumps_ok bbs \<longleftrightarrow> list_all (\<lambda>b. b \<noteq> Some []) bbs"

definition edges_from :: "cfg \<Rightarrow> nat \<Rightarrow> (nat \<times> nat) list" where
  "edges_from bbs i = concat (map (\<lambda>j. case bbs ! j of Some ts \<Rightarrow> map (Pair j) ts | None \<Rightarrow> []) [i..<length bbs])"

lemma edges_from_Suc:
  "i < length bbs \<Longrightarrow>
     edges_from bbs i = (case bbs ! i of Some ts \<Rightarrow> map (Pair i) ts | None \<Rightarrow> []) @ edges_from bbs (Suc i)"
  by (simp add: edges_from_def upt_conv_Cons)

lemma cfg_next_edges:
  "cfg_next bbs i = (j, ts) \<Longrightarrow> jumps_ok bbs \<Longrightarrow>
     length bbs \<le> j \<and> edges_from bbs i = [] \<or>
     j < length bbs \<and> i \<le> j \<and> ts \<noteq> [] \<and> edges_from bbs i = map (Pair j) ts @ edges_from bbs (Suc j)"
proof (induction bbs i rule: cfg_next.induct)
  case (1 bbs i)
  show ?case
  proof (cases "i < length bbs")
    case False
    then show ?thesis using 1(2) by (simp add: cfg_next.simps [of bbs i] edges_from_def)
  next
    case True
    show ?thesis
    proof (cases "bbs ! i")
      case None
      then have "cfg_next bbs (Suc i) = (j, ts)" using 1(2) True by (simp add: cfg_next.simps [of bbs i])
      then show ?thesis using 1(1) [OF _ None _ 1(3)] True None edges_from_Suc [OF True] by auto
    next
      case (Some us)
      then have "j = i" "ts = us" using 1(2) True by (auto simp: cfg_next.simps [of bbs i])
      moreover have "us \<noteq> []" using 1(3) True Some by (auto simp: jumps_ok_def list_all_length)
      ultimately show ?thesis using True Some edges_from_Suc [OF True] by simp
    qed
  qed
qed

lemma cfg_walk_edges:
  "jumps_ok bbs \<Longrightarrow> i < length bbs \<Longrightarrow> ts \<noteq> [] \<Longrightarrow>
     cfg_walk bbs i ts = Some (map (Pair i) ts @ edges_from bbs (Suc i))"
proof (induction bbs i ts rule: cfg_walk.induct)
  case (1 bbs i ts)
  then obtain t ts' where ts: "ts = t # ts'" by (cases ts) auto
  show ?case
  proof (cases "ts' = []")
    case False
    then show ?thesis using 1(2) [OF _ ts False] 1(3,4) by (simp add: cfg_walk.simps [of bbs i "t # ts'"] ts)
  next
    case True
    obtain j us where n: "cfg_next bbs (Suc i) = (j, us)" by fastforce
    have step: "cfg_walk bbs i ts = map_option (Cons (i, t)) (cfg_walk bbs j us)"
      using 1(4) by (simp add: cfg_walk.simps [of bbs i "[t]"] ts True n)
    from cfg_next_edges [OF n 1(3)] show ?thesis
    proof
      assume "length bbs \<le> j \<and> edges_from bbs (Suc i) = []"
      then show ?thesis unfolding step by (simp add: ts True cfg_walk.simps [of bbs j us])
    next
      assume a: "j < length bbs \<and> Suc i \<le> j \<and> us \<noteq> [] \<and>
        edges_from bbs (Suc i) = map (Pair j) us @ edges_from bbs (Suc j)"
      then have "cfg_walk bbs j us = Some (map (Pair j) us @ edges_from bbs (Suc j))"
        using 1(1) [OF _ ts True n [symmetric] 1(3)] 1(4) by simp
      then show ?thesis unfolding step using a by (simp add: ts True)
    qed
  qed
qed

lemma cfg_edges_all: "jumps_ok bbs \<Longrightarrow> cfg_edges bbs = Some (edges_from bbs 0)"
proof -
  assume ok: "jumps_ok bbs"
  obtain j ts where n: "cfg_next bbs 0 = (j, ts)" by fastforce
  from cfg_next_edges [OF n ok] show ?thesis
  proof
    assume "length bbs \<le> j \<and> edges_from bbs 0 = []"
    then show ?thesis by (simp add: cfg_edges_def n cfg_walk.simps [of bbs j ts])
  next
    assume "j < length bbs \<and> 0 \<le> j \<and> ts \<noteq> [] \<and> edges_from bbs 0 = map (Pair j) ts @ edges_from bbs (Suc j)"
    then show ?thesis using cfg_walk_edges [OF ok, of j ts] by (simp add: cfg_edges_def n)
  qed
qed

section \<open>Common ancestors\<close>

definition par :: "dom_tree \<Rightarrow> parents" where
  "par doms c = (if c < length doms then dominator (doms ! c) else None)"

definition dom_state :: "nat \<Rightarrow> (nat \<Rightarrow> nat list) \<Rightarrow> dom_tree \<Rightarrow> bool" where
  "dom_state n P doms \<longleftrightarrow> length doms = Suc n \<and>
     (\<forall>c\<le>n. preds (doms ! c) = P c \<and> order (doms ! c) = n - c)"

lemma dom_stateD:
  assumes "dom_state n P doms"
  shows "length doms = Suc n" "c \<le> n \<Longrightarrow> preds (doms ! c) = P c" "c \<le> n \<Longrightarrow> order (doms ! c) = n - c"
    "c \<le> n \<Longrightarrow> dominator (doms ! c) = par doms c" "par doms c \<noteq> None \<Longrightarrow> c \<le> n"
    "par doms c = Some x \<Longrightarrow> c \<le> n"
  using assms by (auto simp: dom_state_def par_def split: if_splits)

lemma climb_spec:
  assumes "dom_state n P doms" "tree (par doms)" "f2 \<le> n"
  shows "par doms f1 \<noteq> None \<Longrightarrow>
    \<exists>g. climb doms f1 f2 = Some g \<and> g \<le> f2 \<and> g \<in> anc (par doms) f1 \<and>
        (\<forall>y\<in>anc (par doms) f1. y \<le> f2 \<longrightarrow> y \<in> anc (par doms) g)"
proof (induction f1 rule: less_induct)
  case (less f1)
  note D = dom_stateD [OF assms(1)]
  have f1: "f1 \<le> n" by (rule D(5) [OF less.prems])
  have o: "order (doms ! f1) < order (doms ! f2) \<longleftrightarrow> f2 < f1"
    using D(3) [OF f1] D(3) [OF assms(3)] f1 assms(3) by auto
  show ?case
  proof (cases "f2 < f1")
    case False
    then show ?thesis using o by (simp add: climb.simps [of doms f1])
  next
    case True
    then obtain x where x: "par doms f1 = Some x" "x < f1" "par doms x \<noteq> None"
      using less.prems treeD(2,3) [OF assms(2), of f1] by fastforce
    from less.IH [OF x(2,3)] obtain g where g: "climb doms x f2 = Some g" "g \<le> f2" "g \<in> anc (par doms) x"
      "\<forall>y\<in>anc (par doms) x. y \<le> f2 \<longrightarrow> y \<in> anc (par doms) g" by blast
    have "climb doms f1 f2 = Some g"
      using True o g(1) D(4) [OF f1] x(1) by (simp add: climb.simps [of doms f1])
    then show ?thesis using g(2-4) True anc_step [of "par doms" f1 x, OF x(1)] by auto
  qed
qed

lemma intersect_spec:
  assumes "dom_state n P doms" "tree (par doms)"
  shows "par doms f1 \<noteq> None \<Longrightarrow> par doms f2 \<noteq> None \<Longrightarrow>
    \<exists>x. intersect doms f1 f2 = Some x \<and> anc (par doms) x = anc (par doms) f1 \<inter> anc (par doms) f2"
proof (induction "f1 + f2" arbitrary: f1 f2 rule: less_induct)
  case less
  let ?d = "par doms"
  note D = dom_stateD [OF assms(1)]
  have f: "f1 \<le> n" "f2 \<le> n" using D(5) less.prems by auto
  have o: "order (doms ! f1) = order (doms ! f2) \<longleftrightarrow> f1 = f2" using D(3) [OF f(1)] D(3) [OF f(2)] f by auto
  show ?case
  proof (cases "f1 = f2")
    case True
    then show ?thesis by (simp add: intersect.simps [of doms f2])
  next
    case False
    obtain g1 where g1: "climb doms f1 f2 = Some g1" "g1 \<le> f2" "g1 \<in> anc ?d f1"
      "\<forall>y\<in>anc ?d f1. y \<le> f2 \<longrightarrow> y \<in> anc ?d g1"
      using climb_spec [OF assms f(2) less.prems(1)] by blast
    have d1: "?d g1 \<noteq> None" "g1 \<le> f1" "g1 \<le> n"
      using anc_defined [OF assms(2) less.prems(1) g1(3)] anc_le [OF assms(2) g1(3)] g1(2) f by auto
    obtain g2 where g2: "climb doms f2 g1 = Some g2" "g2 \<le> g1" "g2 \<in> anc ?d f2"
      "\<forall>y\<in>anc ?d f2. y \<le> g1 \<longrightarrow> y \<in> anc ?d g2"
      using climb_spec [OF assms d1(3) less.prems(2)] by blast
    have d2: "?d g2 \<noteq> None" by (rule anc_defined [OF assms(2) less.prems(2) g2(3)])
    have "g1 + g2 < f1 + f2" using g1(2) d1(2) g2(2) False by linarith
    from less.hyps [OF this d1(1) d2] obtain x where
      x: "intersect doms g1 g2 = Some x" "anc ?d x = anc ?d g1 \<inter> anc ?d g2" by blast
    have "anc ?d g1 \<inter> anc ?d g2 = anc ?d f1 \<inter> anc ?d f2"
    proof
      show "anc ?d g1 \<inter> anc ?d g2 \<subseteq> anc ?d f1 \<inter> anc ?d f2" using anc_trans [OF g1(3)] anc_trans [OF g2(3)] by blast
      show "anc ?d f1 \<inter> anc ?d f2 \<subseteq> anc ?d g1 \<inter> anc ?d g2"
        using g1(4) g2(4) anc_le [OF assms(2)] by blast
    qed
    then show ?thesis using x g1(1) g2(1) False o by (simp add: intersect.simps [of doms f1])
  qed
qed

lemma idom_loop_spec:
  assumes "dom_state n P doms" "tree (par doms)"
  shows "par doms new \<noteq> None \<Longrightarrow> \<forall>p\<in>set ps. p \<le> n \<Longrightarrow>
    \<exists>x. idom_loop doms ps new = Some x \<and> anc (par doms) x = anc (par doms) new \<inter> meet (par doms) ps"
proof (induction ps arbitrary: new)
  case Nil
  then show ?case by (simp add: meet_def)
next
  case (Cons p ps)
  have p: "dominator (doms ! p) = par doms p" using dom_stateD(4) [OF assms(1)] Cons.prems(2) by simp
  show ?case
  proof (cases "par doms p = None")
    case True
    then show ?thesis using Cons p by (simp add: meet_def)
  next
    case False
    from intersect_spec [OF assms False Cons.prems(1)] obtain x where
      x: "intersect doms p new = Some x" "anc (par doms) x = anc (par doms) p \<inter> anc (par doms) new" by blast
    have "x \<in> anc (par doms) p" using x(2) anc_refl [of x] by blast
    then have "par doms x \<noteq> None" by (rule anc_defined [OF assms(2) False])
    from Cons.IH [OF this] Cons.prems(2) obtain y where
      "idom_loop doms ps x = Some y" "anc (par doms) y = anc (par doms) x \<inter> meet (par doms) ps" by auto
    then show ?thesis using x False p by (auto simp: meet_def)
  qed
qed

section \<open>Visits and passes\<close>

lemma visit_block_spec:
  assumes s: "dom_state n P doms" and p: "pass_inv n P E o' (par doms) b"
    and g: "ordered_graph n P E" and b: "0 < b" "b < n"
  shows "\<exists>doms' x. visit_block doms b = Some (doms', par doms b \<noteq> Some x) \<and> dom_state n P doms' \<and>
    par doms' = (par doms)(b := Some x) \<and> anc (par doms) x = meet (par doms) (P b) \<and> x < b \<and>
    (par doms b = Some x \<longrightarrow> doms' = doms) \<and> (\<forall>z. par doms b = Some z \<longrightarrow> x \<le> z)"
proof -
  note D = dom_stateD [OF s]
  note inv = pass_invD(1) [OF p]
  note t = dom_invD(1) [OF inv]
  obtain q ps where P: "P b = q # ps" "q < b" using ordered_graphD(4,5) [OF g b] by (cases "P b") auto
  have q: "par doms q \<noteq> None" by (rule pass_invD(5) [OF p P(2)])
  have "\<forall>r\<in>set (P b). r \<le> n" using ordered_graphD(2,3) [OF g] by (auto intro: less_imp_le)
  from idom_loop_spec [OF s t q this] obtain x where
    x: "idom_loop doms (P b) q = Some x" "anc (par doms) x = anc (par doms) q \<inter> meet (par doms) (P b)" by blast
  then have m: "anc (par doms) x = meet (par doms) (P b)" using q by (auto simp: meet_def P)
  note v = visit_below [OF inv g b _ m]
  have xb: "x < b" using v(2) q by (simp add: P)
  have le: "x \<le> z" if "par doms b = Some z" for z
    using visit_moves_up [OF p g b m that] anc_le [OF t] by blast
  have pb: "preds (doms ! b) = q # ps" "dominator (doms ! b) = par doms b" "b < length doms"
    using D(1,2,4) b P by auto
  let ?new = "doms[b := (doms ! b)\<lparr>dominator := Some x\<rparr>]"
  have new: "dom_state n P ?new" "par ?new = (par doms)(b := Some x)"
    using s pb(3) by (auto simp: dom_state_def par_def nth_list_update fun_eq_iff)
  show ?thesis
  proof (cases "par doms b = Some x")
    case True
    then have "visit_block doms b = Some (doms, False)" using x(1) pb P by (simp add: visit_block_def)
    moreover have "par doms = (par doms)(b := Some x)" using True by (simp add: fun_eq_iff)
    ultimately show ?thesis using s m xb True by (intro exI [of _ doms] exI [of _ x]) simp
  next
    case False
    then have "visit_block doms b = Some (?new, True)" using x(1) pb P by (simp add: visit_block_def)
    then show ?thesis using new m xb le False by (intro exI [of _ ?new] exI [of _ x]) simp
  qed
qed

definition dom_total :: "nat \<Rightarrow> parents \<Rightarrow> nat" where
  "dom_total n d = (\<Sum>c<n. case d c of None \<Rightarrow> n | Some x \<Rightarrow> x)"

lemma total_upd:
  assumes "b < n" "x < b" "\<forall>z. d b = Some z \<longrightarrow> x \<le> z"
  shows "dom_total n (d(b := Some x)) \<le> dom_total n d" "d b \<noteq> Some x \<Longrightarrow> dom_total n (d(b := Some x)) < dom_total n d"
proof -
  let ?v = "\<lambda>d c. case d c of None \<Rightarrow> n | Some x \<Rightarrow> (x :: nat)"
  have "(\<Sum>c<n. ?v d c) = ?v d b + (\<Sum>c\<in>{..<n} - {b}. ?v d c)" for d
    using assms(1) by (simp add: sum.remove)
  moreover have "(\<Sum>c\<in>{..<n} - {b}. ?v (d(b := Some x)) c) = (\<Sum>c\<in>{..<n} - {b}. ?v d c)"
    by (rule sum.cong) auto
  ultimately have e: "dom_total n (d(b := Some x)) + ?v d b = dom_total n d + x" by (simp add: dom_total_def)
  have le: "x \<le> ?v d b" using assms by (auto split: option.splits)
  show "dom_total n (d(b := Some x)) \<le> dom_total n d" using e le by linarith
  assume "d b \<noteq> Some x"
  then have "x < ?v d b" using assms by (auto split: option.splits intro: le_neq_implies_less)
  then show "dom_total n (d(b := Some x)) < dom_total n d" using e by linarith
qed

lemma dom_pass_spec:
  assumes g: "ordered_graph n P E"
  shows "dom_state n P doms \<Longrightarrow> pass_inv n P E o' (par doms) b \<Longrightarrow> 0 < b \<Longrightarrow> b \<le> n \<Longrightarrow>
    \<exists>doms' ch. dom_pass doms [b..<n] c = Some (doms', c \<or> ch) \<and> dom_state n P doms' \<and>
      pass_inv n P E o' (par doms') n \<and> dom_total n (par doms') \<le> dom_total n (par doms) \<and>
      (ch \<longrightarrow> dom_total n (par doms') < dom_total n (par doms)) \<and>
      (\<not> ch \<longrightarrow> doms' = doms \<and>
         (\<forall>a\<in>{b..<n}. \<exists>x. par doms a = Some x \<and> anc (par doms) x = meet (par doms) (P a)))"
proof (induction "n - b" arbitrary: doms b c)
  case 0
  then show ?case by (intro exI [of _ doms] exI [of _ False]) auto
next
  case (Suc k)
  have b: "0 < b" "b < n" using Suc.hyps(2) Suc.prems(3) by auto
  obtain doms1 x where v: "visit_block doms b = Some (doms1, par doms b \<noteq> Some x)" "dom_state n P doms1"
    "par doms1 = (par doms)(b := Some x)" "anc (par doms) x = meet (par doms) (P b)" "x < b"
    "par doms b = Some x \<longrightarrow> doms1 = doms" "\<forall>z. par doms b = Some z \<longrightarrow> x \<le> z"
    using visit_block_spec [OF Suc.prems(1,2) g b] by blast
  note tot = total_upd [of b n x "par doms", OF b(2) v(5,7), folded v(3)]
  have "pass_inv n P E o' (par doms1) (Suc b)" unfolding v(3) by (rule visit_pass [OF Suc.prems(2) g b v(4)])
  moreover have "k = n - Suc b" using Suc.hyps(2) by simp
  ultimately obtain doms' ch where r:
    "dom_pass doms1 [Suc b..<n] (c \<or> par doms b \<noteq> Some x) = Some (doms', (c \<or> par doms b \<noteq> Some x) \<or> ch)"
    "dom_state n P doms'" "pass_inv n P E o' (par doms') n" "dom_total n (par doms') \<le> dom_total n (par doms1)"
    "ch \<longrightarrow> dom_total n (par doms') < dom_total n (par doms1)"
    "\<not> ch \<longrightarrow> doms' = doms1 \<and>
       (\<forall>a\<in>{Suc b..<n}. \<exists>x. par doms1 a = Some x \<and> anc (par doms1) x = meet (par doms1) (P a))"
    using Suc.hyps(1) [OF _ v(2), of "Suc b" "c \<or> par doms b \<noteq> Some x"] b by auto
  let ?ch = "par doms b \<noteq> Some x \<or> ch"
  have "dom_pass doms [b..<n] c = Some (doms', c \<or> ?ch)"
    using r(1) v(1) b(2) by (simp add: upt_conv_Cons)
  moreover have "dom_total n (par doms') \<le> dom_total n (par doms)" using r(4) tot(1) by linarith
  moreover have "?ch \<longrightarrow> dom_total n (par doms') < dom_total n (par doms)" using r(4,5) tot by linarith
  moreover have "doms' = doms \<and>
         (\<forall>a\<in>{b..<n}. \<exists>x. par doms a = Some x \<and> anc (par doms) x = meet (par doms) (P a))" if "\<not> ?ch"
  proof -
    have d: "doms1 = doms" "par doms b = Some x" using that v(6) by auto
    then have "\<exists>x. par doms a = Some x \<and> anc (par doms) x = meet (par doms) (P a)" if "a \<in> {b..<n}" for a
      using r(6) \<open>\<not> ?ch\<close> v(4) that by (cases "a = b") auto
    then show ?thesis using r(6) that d by blast
  qed
  ultimately show ?case using r(2,3) by blast
qed

section \<open>The loop and the queries\<close>

definition finished :: "nat \<Rightarrow> (nat \<Rightarrow> nat list) \<Rightarrow> (nat \<times> nat) set \<Rightarrow> dom_tree \<Rightarrow> bool" where
  "finished n P E doms \<longleftrightarrow> dom_state n P doms \<and> dom_inv P E (par doms) \<and> (\<forall>c<n. par doms c \<noteq> None) \<and>
     (\<forall>c x. 0 < c \<longrightarrow> c < n \<longrightarrow> par doms c = Some x \<longrightarrow> anc (par doms) x = meet (par doms) (P c))"

lemma dom_loop_spec:
  assumes g: "ordered_graph n P E" and n: "0 < n"
  shows "dom_state n P doms \<Longrightarrow> pass_inv n P E (par doms) (par doms) 1 \<Longrightarrow>
    \<exists>doms'. dom_loop doms [0..<n] = Some doms' \<and> finished n P E doms'"
proof (induction "dom_total n (par doms)" arbitrary: doms rule: less_induct)
  case less
  have "preds (doms ! 0) = []" using dom_stateD(2) [OF less.prems(1)] ordered_graphD(1) [OF g] by simp
  then have first: "dom_pass doms [0..<n] False = dom_pass doms [1..<n] False"
    using n by (simp add: upt_conv_Cons visit_block_def)
  obtain doms' ch where r: "dom_pass doms [1..<n] False = Some (doms', ch)" "dom_state n P doms'"
    "pass_inv n P E (par doms) (par doms') n" "ch \<longrightarrow> dom_total n (par doms') < dom_total n (par doms)"
    "\<not> ch \<longrightarrow> doms' = doms \<and>
       (\<forall>a\<in>{1..<n}. \<exists>x. par doms a = Some x \<and> anc (par doms) x = meet (par doms) (P a))"
    using dom_pass_spec [OF g less.prems, of False] n by auto
  show ?case
  proof (cases ch)
    case True
    then have "\<exists>d. dom_loop doms' [0..<n] = Some d \<and> finished n P E d"
      using less.hyps r(4) r(2) pass_start [OF r(3) n] by blast
    then show ?thesis using True r(1) first by (simp add: dom_loop.simps [of doms])
  next
    case False
    then have d: "doms' = doms" and
      f: "\<forall>a\<in>{1..<n}. \<exists>x. par doms a = Some x \<and> anc (par doms) x = meet (par doms) (P a)" using r(5) by auto
    have "anc (par doms) x = meet (par doms) (P c)" if "0 < c" "c < n" "par doms c = Some x" for c x
      using f [rule_format, of c] that by auto
    then have "finished n P E doms" unfolding finished_def
      using less.prems(1) pass_invD(1,5) [OF r(3) [unfolded d]] by blast
    then show ?thesis using False r(1) first d by (simp add: dom_loop.simps [of doms])
  qed
qed

lemma dominates_spec:
  assumes "dom_state n P doms" "tree (par doms)"
  shows "par doms b \<noteq> None \<Longrightarrow> dominates doms a b = Some (a \<in> anc (par doms) b)"
proof (induction b rule: less_induct)
  case (less b)
  note D = dom_stateD [OF assms(1)]
  have b: "dominator (doms ! b) = par doms b" by (rule D(4) [OF D(5) [OF less.prems]])
  show ?case
  proof (cases "b = 0")
    case True
    then show ?thesis using b treeD(1) [OF assms(2)] anc_zero [OF assms(2)]
      by (simp add: dominates.simps [of doms a 0])
  next
    case False
    then obtain x where x: "par doms b = Some x" "x < b" "par doms x \<noteq> None"
      using less.prems treeD(2,3) [OF assms(2), of b] by fastforce
    then show ?thesis using less.IH [OF x(2,3)] b anc_step [of "par doms" b x, OF x(1)]
      by (simp add: dominates.simps [of doms a b])
  qed
qed

lemma finished_dominates:
  assumes "finished n P E doms" "ordered_graph n P E" "b < n"
  shows "dominates doms a b = Some (on_all_paths E a b)"
proof -
  note f = assms(1) [unfolded finished_def]
  have t: "tree (par doms)" using f dom_invD(1) by blast
  have "a \<in> anc (par doms) b \<longleftrightarrow> on_all_paths E a b"
    using fixed_point_dominates [OF t assms(2), of a b] dom_invD(2) [of P E "par doms" b a] f assms(3) by blast
  then show ?thesis using dominates_spec [OF _ t, of n P b a] f assms(3) by simp
qed

section \<open>The tree of a control-flow graph\<close>

definition flow_edges :: "cfg \<Rightarrow> (nat \<times> nat) set" where
  "flow_edges bbs = {(u, v). u < length bbs \<and> (\<exists>ts. bbs ! u = Some ts \<and> v \<in> set ts)}"

text \<open>
  The order of the blocks: nothing jumps to the entry, and every other block has a predecessor
  before it, as in the reverse post-order of a graph whose blocks are all reachable.
\<close>

definition cfg_ordered :: "cfg \<Rightarrow> bool" where
  "cfg_ordered bbs \<longleftrightarrow> bbs \<noteq> [] \<and> jumps_ok bbs \<and> (\<forall>u. (u, 0) \<notin> flow_edges bbs) \<and>
     (\<forall>b. 0 < b \<longrightarrow> b < length bbs \<longrightarrow> (\<exists>u<b. (u, b) \<in> flow_edges bbs))"

lemma set_edges_from: "set (edges_from bbs 0) = flow_edges bbs"
  by (auto simp: edges_from_def flow_edges_def image_iff split: option.splits) (metis)

lemma sorted_edges_from: "sorted (map fst (edges_from bbs i))"
proof (induction "length bbs - i" arbitrary: i)
  case 0
  then show ?case by (simp add: edges_from_def)
next
  case (Suc k)
  then have i: "i < length bbs" by simp
  have "k = length bbs - Suc i" using Suc.hyps(2) by simp
  then have "sorted (map fst (edges_from bbs (Suc i)))" by (rule Suc.hyps(1))
  moreover have "i \<le> fst e" if "e \<in> set (edges_from bbs (Suc i))" for e
    using that by (fastforce simp: edges_from_def split: option.splits)
  ultimately show ?case unfolding edges_from_Suc [OF i]
    by (auto simp: sorted_append comp_def map_replicate_const split: option.splits)
qed

lemma preds_of_alt: "preds_of es b = map fst (filter (\<lambda>e. snd e = b) es)"
  by (induction es) (auto simp: preds_of_def)

lemma cfg_ordered_graph:
  assumes "cfg_ordered bbs"
  shows "ordered_graph (length bbs) (preds_of (edges_from bbs 0)) (flow_edges bbs)"
proof -
  let ?P = "preds_of (edges_from bbs 0)"
  have P: "u \<in> set (?P v) \<longleftrightarrow> (u, v) \<in> flow_edges bbs" for u v
    unfolding preds_of_alt set_edges_from [symmetric] by force
  have "?P b \<noteq> [] \<and> hd (?P b) < b" if b: "0 < b" "b < length bbs" for b
  proof -
    obtain u where u: "u < b" "u \<in> set (?P b)" using assms b unfolding cfg_ordered_def P by blast
    have "sorted (?P b)" unfolding preds_of_alt by (intro sorted_filter sorted_edges_from)
    then have "hd (?P b) \<le> u" using u(2) by (cases "?P b") auto
    then show ?thesis using u by auto
  qed
  moreover have "?P 0 = []" using P assms by (metis cfg_ordered_def hd_in_set)
  ultimately show ?thesis using P by (auto simp: ordered_graph_def flow_edges_def)
qed

lemma init_pass:
  assumes "0 < n"
  shows "dom_state n (preds_of es) (init_doms n es)"
    "pass_inv n (preds_of es) E (par (init_doms n es)) (par (init_doms n es)) 1"
proof -
  show "dom_state n (preds_of es) (init_doms n es)"
    by (simp add: dom_state_def init_doms_def del: upt_Suc)
  have d: "par (init_doms n es) = [0 \<mapsto> 0]"
    by (auto simp: par_def init_doms_def fun_eq_iff simp del: upt_Suc)
  have t: "tree [0 \<mapsto> 0]" by (auto simp: tree_def split: if_splits)
  have "on_all_paths E y 0 \<Longrightarrow> y \<in> anc [0 \<mapsto> 0] 0" for y by (auto simp: dom_iff simp del: fun_upd_apply)
  then have "dom_inv (preds_of es) E [0 \<mapsto> 0]"
    unfolding dom_inv_def using t by (auto split: if_splits)
  then show "pass_inv n (preds_of es) E (par (init_doms n es)) (par (init_doms n es)) 1"
    unfolding d pass_inv_def using t assms by (auto simp: settled_def split: if_splits)
qed

lemma buildDominators_correct:
  assumes "cfg_ordered bbs"
  shows "\<exists>doms. buildDominators bbs = Some doms \<and> finished (length bbs) (preds_of (edges_from bbs 0)) (flow_edges bbs) doms \<and>
    (\<forall>a b. b < length bbs \<longrightarrow> dominates doms a b = Some (on_all_paths (flow_edges bbs) a b))"
proof -
  let ?n = "length bbs" and ?E = "flow_edges bbs" and ?P = "preds_of (edges_from bbs 0)"
  have n: "0 < ?n" and j: "jumps_ok bbs" using assms by (auto simp: cfg_ordered_def)
  note g = cfg_ordered_graph [OF assms]
  obtain doms where r: "dom_loop (init_doms ?n (edges_from bbs 0)) [0..<?n] = Some doms" "finished ?n ?P ?E doms"
    using dom_loop_spec [OF g n init_pass(1,2) [OF n]] by blast
  have "buildDominators bbs = Some doms" using r(1) cfg_edges_all [OF j] by (simp add: buildDominators_def)
  then show ?thesis using r(2) finished_dominates [OF r(2) g] by blast
qed

text \<open>
  Claim C24 (functional). On a graph whose blocks are ordered so that nothing jumps to the entry
  and every other block has an earlier predecessor, \<open>buildDominators\<close> ends without following a
  null dominator; \<open>dominates\<close> answers for every block exactly whether all paths from the entry to
  it pass through the other block; and \<open>getIDominator\<close> is the strict dominator of a block that all
  its other strict dominators dominate.
\<close>

theorem dom_tree_correct:
  assumes "cfg_ordered bbs"
  shows "\<exists>doms. buildDominators bbs = Some doms \<and>
    (\<forall>a b. b < length bbs \<longrightarrow> dominates doms a b = Some (on_all_paths (flow_edges bbs) a b)) \<and>
    (\<forall>b. 0 < b \<longrightarrow> b < length bbs \<longrightarrow>
       (\<exists>x. getIDominator doms b = Some x \<and> x \<noteq> b \<and> on_all_paths (flow_edges bbs) x b \<and>
            (\<forall>y. on_all_paths (flow_edges bbs) y b \<longrightarrow> y \<noteq> b \<longrightarrow> on_all_paths (flow_edges bbs) y x)))"
proof -
  let ?n = "length bbs" and ?E = "flow_edges bbs" and ?P = "preds_of (edges_from bbs 0)"
  obtain doms where r: "buildDominators bbs = Some doms" "finished ?n ?P ?E doms"
    and q: "\<forall>a b. b < ?n \<longrightarrow> dominates doms a b = Some (on_all_paths ?E a b)"
    using buildDominators_correct [OF assms] by blast
  have "\<exists>x. getIDominator doms b = Some x \<and> x \<noteq> b \<and> on_all_paths ?E x b \<and> (\<forall>y. on_all_paths ?E y b \<longrightarrow> y \<noteq> b \<longrightarrow> on_all_paths ?E y x)"
    if b: "0 < b" "b < ?n" for b
  proof -
    note f = r(2) [unfolded finished_def]
    have s: "dom_state ?n ?P doms" and t: "tree (par doms)" using f dom_invD(1) by blast+
    obtain x where x: "par doms b = Some x" "x < b" using f b treeD(2) [OF t] by blast
    have anc: "a \<in> anc (par doms) c \<longleftrightarrow> on_all_paths ?E a c" if "c < ?n" for a c
      using q that dominates_spec [OF s t, of c a] f that by simp
    have "getIDominator doms b = Some x" using dom_stateD(4) [OF s] b(2) x(1) by (simp add: getIDominator_def)
    moreover have "anc (par doms) b = insert b (anc (par doms) x)" by (rule anc_step [of "par doms" b x, OF x(1)])
    ultimately show ?thesis using x(2) anc b(2) anc_refl [of x "par doms"] by (intro exI [of _ x]) auto
  qed
  then show ?thesis using r(1) q by blast
qed

text \<open>A witness: a diamond whose join is also the header of a loop.\<close>

theorem dom_tree_correct_witness:
  "\<exists>doms. buildDominators [Some [1, 2], Some [3], Some [3], Some [4, 5], Some [3], None] = Some doms \<and>
     dominates doms 3 5 = Some True \<and> dominates doms 1 3 = Some False"
proof -
  let ?g = "[Some [1, 2], Some [3], Some [3], Some [4, 5], Some [3], None] :: cfg"
  have E: "flow_edges ?g = {(0, 1), (0, 2), (1, 3), (2, 3), (3, 4), (3, 5), (4, 3)}"
    unfolding set_edges_from [symmetric] by code_simp
  have "\<forall>b\<in>set [1..<6]. \<exists>u\<in>set [0..<b]. (u, b) \<in> flow_edges ?g" unfolding E by code_simp
  then have "\<forall>b. 0 < b \<longrightarrow> b < length ?g \<longrightarrow> (\<exists>u<b. (u, b) \<in> flow_edges ?g)" by fastforce
  moreover have "\<forall>u. (u, 0) \<notin> flow_edges ?g" unfolding E by simp
  moreover have "jumps_ok ?g" "?g \<noteq> []" by (simp_all add: jumps_ok_def)
  ultimately have "cfg_ordered ?g" unfolding cfg_ordered_def by blast
  from dom_tree_correct [OF this] obtain doms where
    d: "buildDominators ?g = Some doms" "\<forall>a b. b < 6 \<longrightarrow> dominates doms a b = Some (on_all_paths (flow_edges ?g) a b)"
    by auto
  have "c \<in> {0, 1, 2}" if "(0, c) \<in> (avoiding (flow_edges ?g) 3)\<^sup>*" for c
    using that unfolding E by (induction rule: rtrancl_induct) (auto simp: avoiding_def)
  then have "on_all_paths (flow_edges ?g) 3 5" by (fastforce simp: dom_iff)
  moreover have "(0, 3) \<in> (avoiding (flow_edges ?g) 1)\<^sup>*" unfolding E
    by (rule rtrancl_trans [of 0 2]; rule r_into_rtrancl) (simp_all add: avoiding_def)
  then have "\<not> on_all_paths (flow_edges ?g) 1 3" by (simp add: dom_iff)
  ultimately show ?thesis using d by auto
qed

end
