(* ===== verification/LoopDfs.thy ===== *)
theory LoopDfs
  imports DomTree
begin

text \<open>
  \<open>LoopAnalysis::getDepthFirstSpanningTree\<close> of \<open>ir/function.cpp\<close>: blocks are numbered in the order in which
  a work list with marks first reaches them, and \<open>last\<close> is the greatest number given below a block.
  A block is marked as visited when it is pushed, so the tree is not always that of a
  depth-first search; what the loop analysis needs of it, that a block reaches everything
  numbered in its interval, holds all the same.
\<close>

section \<open>The search\<close>

definition targets_of :: "cfg \<Rightarrow> nat \<Rightarrow> nat list" where
  "targets_of g b = (if b < length g then case g ! b of Some ts \<Rightarrow> ts | None \<Rightarrow> [] else [])"

record dfs =
  node :: "nat option list"
  number :: "nat \<rightharpoonup> nat"
  last_nr :: "nat list"
  current :: nat
  visited :: "nat set"
  worklist :: "(nat \<times> bool) list"

fun push_targets :: "nat list \<Rightarrow> nat set \<Rightarrow> (nat \<times> bool) list \<Rightarrow> nat set \<times> (nat \<times> bool) list" where
  "push_targets [] vis work = (vis, work)"
| "push_targets (t # ts) vis work =
     (if t \<in> vis then push_targets ts vis work
      else push_targets ts (insert t vis) ((t, False) # work))"

text \<open>The number of a block that has none reads as zero, as it does from the map of the code.\<close>

definition number_at :: "dfs \<Rightarrow> nat \<Rightarrow> nat" where
  "number_at s b = (case number s b of Some v \<Rightarrow> v | None \<Rightarrow> 0)"

definition dfs_step :: "cfg \<Rightarrow> nat \<Rightarrow> bool \<Rightarrow> (nat \<times> bool) list \<Rightarrow> dfs \<Rightarrow> dfs" where
  "dfs_step g bb flag rest s =
     (if flag
      then s\<lparr>last_nr := (last_nr s)[number_at s bb := current s - 1], worklist := rest\<rparr>
      else case push_targets (targets_of g bb) (visited s) ((bb, True) # rest) of
             (vis, work) \<Rightarrow>
               s\<lparr>node := (node s)[current s := Some bb], number := (number s)(bb \<mapsto> current s),
                 current := current s + 1, visited := vis, worklist := work\<rparr>)"

definition all_targets :: "cfg \<Rightarrow> nat set" where
  "all_targets g = (\<Union>b<length g. set (targets_of g b))"

definition work_size :: "(nat \<times> bool) list \<Rightarrow> nat" where
  "work_size work = sum_list (map (\<lambda>(b, f). if f then 1 else 2) work)"

lemma work_size_Cons [simp]:
  "work_size [] = 0" "work_size ((b, f) # w) = (if f then 1 else 2) + work_size w"
  by (simp_all add: work_size_def)

lemma push_size:
  assumes fin: "finite A"
  shows "set ts \<subseteq> A \<Longrightarrow> push_targets ts vis work = (vis', work') \<Longrightarrow>
     2 * card (A - vis') + work_size work' = 2 * card (A - vis) + work_size work"
proof (induction ts arbitrary: vis work)
  case (Cons t ts)
  show ?case
  proof (cases "t \<in> vis")
    case True
    then have "push_targets ts vis work = (vis', work')" using Cons.prems(2) by simp
    then show ?thesis using Cons.IH Cons.prems(1) by simp
  next
    case False
    then have p: "push_targets ts (insert t vis) ((t, False) # work) = (vis', work')" using Cons.prems(2) by simp
    have e: "A - vis = insert t (A - insert t vis)" using Cons.prems(1) False by auto
    have f: "finite (A - insert t vis)" using fin by (rule finite_Diff)
    have "card (A - vis) = Suc (card (A - insert t vis))" unfolding e by (rule card_insert_disjoint [OF f]) simp
    moreover have "2 * card (A - vis') + work_size work' = 2 * card (A - insert t vis) + work_size ((t, False) # work)"
      by (rule Cons.IH [OF _ p]) (use Cons.prems(1) in simp)
    ultimately show ?thesis by simp
  qed
qed simp

lemma dfs_step_size:
  assumes "worklist s = (bb, flag) # rest"
  shows "2 * card (all_targets g - visited (dfs_step g bb flag rest s)) + work_size (worklist (dfs_step g bb flag rest s))
      < 2 * card (all_targets g - visited s) + work_size (worklist s)"
proof (cases flag)
  case True
  then have "visited (dfs_step g bb flag rest s) = visited s" "worklist (dfs_step g bb flag rest s) = rest"
    by (simp_all add: dfs_step_def)
  then show ?thesis using assms True by (simp add: work_size_def)
next
  case False
  have fin: "finite (all_targets g)" by (simp add: all_targets_def)
  have sub: "set (targets_of g bb) \<subseteq> all_targets g"
    by (cases "bb < length g") (auto simp: all_targets_def, simp add: targets_of_def)
  obtain vis work where p: "push_targets (targets_of g bb) (visited s) ((bb, True) # rest) = (vis, work)" by fastforce
  have "visited (dfs_step g bb flag rest s) = vis" "worklist (dfs_step g bb flag rest s) = work"
    using False by (simp_all add: dfs_step_def p)
  then show ?thesis using False assms push_size [OF fin sub p] by (simp add: work_size_def)
qed

function dfs_loop :: "cfg \<Rightarrow> dfs \<Rightarrow> dfs" where
  "dfs_loop g s =
     (case worklist s of
        [] \<Rightarrow> s
      | (bb, flag) # rest \<Rightarrow> dfs_loop g (dfs_step g bb flag rest s))"
  by pat_completeness auto
termination
  by (relation "measure (\<lambda>(g, s). 2 * card (all_targets g - visited s) + work_size (worklist s))")
    (use dfs_step_size in force)+

declare dfs_loop.simps [simp del]

text \<open>The \<open>-1u\<close> that marks a number not given to any block.\<close>

definition uint_max :: nat where
  "uint_max = 2 ^ 32 - 1"

declare uint_max_def [code del]

definition getDepthFirstSpanningTree :: "cfg \<Rightarrow> dfs" where
  "getDepthFirstSpanningTree g =
     (let bb_count = length g + 1 in
      dfs_loop g \<lparr>node = replicate bb_count None, number = Map.empty, last_nr = replicate bb_count uint_max,
        current = 0, visited = {}, worklist = [(0, False)]\<rparr>)"

section \<open>Its invariant\<close>

fun stack_ok :: "(nat \<times> nat) set \<Rightarrow> (nat \<times> bool) list \<Rightarrow> bool" where
  "stack_ok E [] \<longleftrightarrow> True"
| "stack_ok E ((b, f) # rest) \<longleftrightarrow> stack_ok E rest \<and> (\<forall>a. (a, True) \<in> set rest \<longrightarrow> (a, b) \<in> E\<^sup>*)"

definition pending :: "(nat \<times> bool) list \<Rightarrow> nat list" where
  "pending work = map fst (filter (\<lambda>(b, f). \<not> f) work)"

definition nodes_numbered :: "dfs \<Rightarrow> bool" where
  "nodes_numbered s \<longleftrightarrow> (\<forall>i < length (node s). i < current s \<longleftrightarrow> node s ! i \<noteq> None) \<and>
     (\<forall>b i. number s b = Some i \<longleftrightarrow> i < length (node s) \<and> node s ! i = Some b)"

definition dfs_inv :: "cfg \<Rightarrow> dfs \<Rightarrow> bool" where
  "dfs_inv g s \<longleftrightarrow> length (node s) = length g + 1 \<and> length (last_nr s) = length g + 1 \<and> nodes_numbered s \<and>
     current s = card (dom (number s)) \<and> finite (dom (number s)) \<and>
     distinct (pending (worklist s)) \<and> dom (number s) \<inter> set (pending (worklist s)) = {} \<and>
     dom (number s) \<union> set (pending (worklist s)) = insert 0 (visited s) \<and>
     insert 0 (visited s) \<subseteq> {..length g} \<and> 0 \<notin> visited s \<and>
     (\<forall>b. (b, True) \<in> set (worklist s) \<longrightarrow> b \<in> dom (number s))"

definition dfs_reach :: "cfg \<Rightarrow> dfs \<Rightarrow> bool" where
  "dfs_reach g s \<longleftrightarrow> stack_ok (flow_edges g) (worklist s) \<and>
     (\<forall>a k i b. (a, True) \<in> set (worklist s) \<longrightarrow> number s a = Some k \<longrightarrow> k \<le> i \<longrightarrow> number s b = Some i \<longrightarrow>
        (a, b) \<in> (flow_edges g)\<^sup>*) \<and>
     (\<forall>a k i. number s a = Some k \<longrightarrow> (a, True) \<notin> set (worklist s) \<longrightarrow> k \<le> i \<longrightarrow> i \<le> last_nr s ! k \<longrightarrow>
        (\<exists>b. number s b = Some i \<and> (a, b) \<in> (flow_edges g)\<^sup>*))"

lemma push_props:
  assumes "push_targets ts vis work = (vis', work')"
  shows "\<exists>new. work' = map (\<lambda>t. (t, False)) new @ work \<and> distinct new \<and> set new \<inter> vis = {} \<and>
    vis' = vis \<union> set new \<and> set new \<subseteq> set ts"
  using assms
proof (induction ts vis work rule: push_targets.induct)
  case (2 t ts vis work)
  show ?case
  proof (cases "t \<in> vis")
    case True
    then show ?thesis using 2(1) [OF True] 2(3) by auto
  next
    case False
    then obtain new where "work' = map (\<lambda>t. (t, False)) new @ (t, False) # work" "distinct new"
      "set new \<inter> insert t vis = {}" "vis' = insert t vis \<union> set new" "set new \<subseteq> set ts"
      using 2(2) [OF False] 2(3) by auto
    then show ?thesis by (intro exI [of _ "new @ [t]"]) (auto simp: False)
  qed
qed simp

lemma push_all: "push_targets ts vis work = (vis', work') \<Longrightarrow> vis \<union> set ts \<subseteq> vis'"
  by (induction ts vis work rule: push_targets.induct) (auto split: if_splits)

lemma pending_simps [simp]:
  "pending [] = []" "pending ((b, True) # w) = pending w" "pending ((b, False) # w) = b # pending w"
  "pending (v @ w) = pending v @ pending w" "pending (map (\<lambda>t. (t, False)) ts) = ts"
  by (simp_all add: pending_def comp_def filter_map)

lemma targets_edges: "t \<in> set (targets_of g b) \<longleftrightarrow> (b, t) \<in> flow_edges g"
  by (cases "b < length g"; cases "g ! b") (simp_all add: targets_of_def flow_edges_def)

lemma stack_push:
  "stack_ok E work \<Longrightarrow> \<forall>a t. (a, True) \<in> set work \<longrightarrow> t \<in> set new \<longrightarrow> (a, t) \<in> E\<^sup>* \<Longrightarrow>
     stack_ok E (map (\<lambda>t. (t, False)) new @ work)"
  by (induction new) auto

lemma dfs_inv_visit:
  assumes i: "dfs_inv g s" and w: "worklist s = (bb, False) # rest" and r: "\<And>u v. (u, v) \<in> flow_edges g \<Longrightarrow> 0 < v \<and> v \<le> length g"
  shows "dfs_inv g (dfs_step g bb False rest s) \<and> current s < length (node s)"
proof -
  obtain vis work where p: "push_targets (targets_of g bb) (visited s) ((bb, True) # rest) = (vis, work)" by fastforce
  from push_props [OF p] obtain new where new: "work = map (\<lambda>t. (t, False)) new @ (bb, True) # rest" "distinct new"
    "set new \<inter> visited s = {}" "vis = visited s \<union> set new" "set new \<subseteq> set (targets_of g bb)" by auto
  let ?s = "dfs_step g bb False rest s"
  have st: "?s = s\<lparr>node := (node s)[current s := Some bb], number := (number s)(bb \<mapsto> current s),
      current := current s + 1, visited := vis, worklist := work\<rparr>" by (simp add: dfs_step_def p)
  have len: "length (node s) = length g + 1" "length (last_nr s) = length g + 1"
    and cur: "current s = card (dom (number s))" "finite (dom (number s))"
    and dis: "distinct (pending (worklist s))" "dom (number s) \<inter> set (pending (worklist s)) = {}"
    and all: "dom (number s) \<union> set (pending (worklist s)) = insert 0 (visited s)"
    and bnd: "insert 0 (visited s) \<subseteq> {..length g}" "0 \<notin> visited s"
    and opn: "\<forall>b. (b, True) \<in> set (worklist s) \<longrightarrow> b \<in> dom (number s)"
    and nrd: "nodes_numbered s"
    using i unfolding dfs_inv_def by simp_all
  have pend: "pending (worklist s) = bb # pending rest" "pending (worklist ?s) = new @ pending rest"
    using w new(1) by (simp_all add: st)
  have old: "bb \<notin> set (pending rest)" "distinct (pending rest)" "bb \<notin> dom (number s)"
    "dom (number s) \<inter> set (pending rest) = {}" "bb \<in> insert 0 (visited s)"
    "insert bb (dom (number s)) \<union> set (pending rest) = insert 0 (visited s)"
    using dis all unfolding pend(1) by auto
  have dom: "dom (number ?s) = insert bb (dom (number s))" by (simp add: st)
  have "insert bb (dom (number s)) \<subseteq> {..length g}" using old(6) bnd(1) by blast
  then have "card (insert bb (dom (number s))) \<le> card {..length g}" by (intro card_mono) simp_all
  then have c: "current s < length (node s)" using cur len(1) old(3) by simp
  have pos: "0 < t \<and> t \<le> length g" if "t \<in> set new" for t using that new(5) targets_edges r by blast
  then have new0: "0 \<notin> set new" "set new \<subseteq> {..length g}" by blast+
  have n: "\<And>i. i < length (node s) \<Longrightarrow> i < current s \<longleftrightarrow> node s ! i \<noteq> None"
    "\<And>b i. number s b = Some i \<longleftrightarrow> i < length (node s) \<and> node s ! i = Some b"
    using nrd unfolding nodes_numbered_def by blast+
  have nb: "node s ! i \<noteq> Some bb" if "i < length (node s)" for i using n(2) [of bb i] old(3) that by auto
  have "nodes_numbered ?s" unfolding nodes_numbered_def
  proof (intro conjI allI impI)
    fix i assume "i < length (node ?s)"
    then show "i < current ?s \<longleftrightarrow> node ?s ! i \<noteq> None" using n(1) [of i] by (cases "i = current s") (auto simp: st)
  next
    fix b i
    have "node s ! current s = None" using n(1) [OF c] by simp
    then show "number ?s b = Some i \<longleftrightarrow> i < length (node ?s) \<and> node ?s ! i = Some b"
      using n(2) [of b i] nb [of i] c by (cases "i = current s"; cases "b = bb") (auto simp: st)
  qed
  moreover have "set new \<inter> insert 0 (visited s) = {}" using new(3) new0(1) by blast
  then have disj: "set new \<inter> insert bb (dom (number s)) = {}" "set new \<inter> set (pending rest) = {}"
    using old(6) by blast+
  have "dom (number ?s) \<union> set (pending (worklist ?s)) = (insert bb (dom (number s)) \<union> set (pending rest)) \<union> set new"
    unfolding dom pend(2) by auto
  then have "dom (number ?s) \<union> set (pending (worklist ?s)) = insert 0 vis" unfolding old(6) new(4) by simp
  moreover have "distinct (pending (worklist ?s))" unfolding pend(2) using disj(2) new(2) old(2) by simp
  moreover have "dom (number ?s) \<inter> set (pending (worklist ?s)) = {}"
    unfolding dom pend(2) using disj(1) old(1,4) by auto
  moreover have "insert 0 vis \<subseteq> {..length g}" "0 \<notin> vis" unfolding new(4) using bnd new0 by auto
  moreover have "current ?s = card (dom (number ?s))" "finite (dom (number ?s))"
    unfolding dom using cur old(3) by (simp_all add: st)
  moreover have "\<forall>b. (b, True) \<in> set (worklist ?s) \<longrightarrow> b \<in> dom (number ?s)"
    using opn w unfolding dom by (auto simp: st new(1))
  moreover have "length (node ?s) = length g + 1" "length (last_nr ?s) = length g + 1" "visited ?s = vis"
    using len by (simp_all add: st)
  ultimately show ?thesis using c unfolding dfs_inv_def by blast
qed

lemma dfs_inv_finish:
  assumes "dfs_inv g s" "worklist s = (bb, True) # rest"
  shows "dfs_inv g (dfs_step g bb True rest s)"
  using assms by (auto simp: dfs_inv_def dfs_step_def nodes_numbered_def)

lemma dfs_reach_finish:
  assumes i: "dfs_inv g s" and q: "dfs_reach g s" and w: "worklist s = (bb, True) # rest"
  shows "dfs_reach g (dfs_step g bb True rest s)"
proof -
  let ?s = "dfs_step g bb True rest s" and ?E = "flow_edges g"
  obtain k where k: "number s bb = Some k" using i w by (auto simp: dfs_inv_def)
  have kl: "k < length (last_nr s)" "k < current s"
    using i k by (auto simp: dfs_inv_def nodes_numbered_def)
  have st: "?s = s\<lparr>last_nr := (last_nr s)[k := current s - 1], worklist := rest\<rparr>"
    by (simp add: dfs_step_def number_at_def k)
  have nr: "\<exists>b. number s b = Some j" if "j < current s" for j
  proof -
    have "current s \<le> length (node s)"
    proof -
      have "dom (number s) \<subseteq> {..length g}" using i unfolding dfs_inv_def by blast
      then have "card (dom (number s)) \<le> Suc (length g)" using card_mono [of "{..length g}"] by fastforce
      then show ?thesis using i by (simp add: dfs_inv_def)
    qed
    then have j: "j < length (node s)" using that by simp
    moreover have n: "nodes_numbered s" using i by (simp add: dfs_inv_def)
    ultimately have "node s ! j \<noteq> None" using that unfolding nodes_numbered_def by blast
    then show ?thesis using j n unfolding nodes_numbered_def by blast
  qed
  have closed_off: "\<exists>b. number s b = Some j \<and> (a, b) \<in> ?E\<^sup>*"
    if a: "number s a = Some m" "(a, True) \<notin> set rest" "m \<le> j" "j \<le> (last_nr s)[k := current s - 1] ! m" for a m j
  proof (cases "a = bb")
    case True
    then have m: "m = k" using a(1) k by simp
    then have "j \<le> current s - 1" using a(4) kl(1) by simp
    then have "j < current s" using kl(2) by linarith
    then obtain b where b: "number s b = Some j" using nr by blast
    then have "(a, b) \<in> ?E\<^sup>*" using q w k m a(3) True unfolding dfs_reach_def by (metis list.set_intros(1))
    then show ?thesis using b by blast
  next
    case False
    then have "m \<noteq> k" using a(1) k i unfolding dfs_inv_def nodes_numbered_def by (metis option.inject)
    then have "j \<le> last_nr s ! m" using a(4) by simp
    moreover have "(a, True) \<notin> set (worklist s)" using False a(2) w by simp
    ultimately show ?thesis using q a(1,3) unfolding dfs_reach_def by blast
  qed
  have "stack_ok ?E rest" using q w by (simp add: dfs_reach_def)
  moreover have "\<forall>a k i b. (a, True) \<in> set rest \<longrightarrow> number s a = Some k \<longrightarrow> k \<le> i \<longrightarrow> number s b = Some i \<longrightarrow>
      (a, b) \<in> ?E\<^sup>*" using q w unfolding dfs_reach_def by (metis list.set_intros(2))
  ultimately show ?thesis using closed_off unfolding dfs_reach_def st by simp
qed

lemma dfs_reach_visit:
  assumes i: "dfs_inv g s" and q: "dfs_reach g s" and w: "worklist s = (bb, False) # rest"
  shows "dfs_reach g (dfs_step g bb False rest s)"
proof -
  let ?s = "dfs_step g bb False rest s" and ?E = "flow_edges g"
  obtain vis work where p: "push_targets (targets_of g bb) (visited s) ((bb, True) # rest) = (vis, work)" by fastforce
  from push_props [OF p] obtain new where new: "work = map (\<lambda>t. (t, False)) new @ (bb, True) # rest"
    "set new \<subseteq> set (targets_of g bb)" by auto
  have st: "?s = s\<lparr>node := (node s)[current s := Some bb], number := (number s)(bb \<mapsto> current s),
      current := current s + 1, visited := vis, worklist := work\<rparr>" by (simp add: dfs_step_def p)
  note d = i [unfolded dfs_inv_def]
  have bb: "bb \<notin> dom (number s)" using d w by auto
  have lt: "k < current s" if "number s a = Some k" for a k
    using d that unfolding nodes_numbered_def by (metis option.distinct(1))
  have open_le: "(a, bb) \<in> ?E\<^sup>*" if "(a, True) \<in> set rest" for a using q w that by (simp add: dfs_reach_def)
  have kid: "(bb, t) \<in> ?E\<^sup>*" if "t \<in> set new" for t using that new(2) targets_edges by blast
  have "stack_ok ?E ((bb, True) # rest)" using q w by (simp add: dfs_reach_def)
  then have "stack_ok ?E work" unfolding new(1)
    by (rule stack_push) (use kid open_le in \<open>auto intro: rtrancl_trans\<close>)
  moreover have "(a, b) \<in> ?E\<^sup>*" if a: "(a, True) \<in> set work" "number ?s a = Some k" "k \<le> j" "number ?s b = Some j" for a k j b
  proof (cases "a = bb")
    case True
    then have "k = current s" using a(2) by (simp add: st)
    then have "b = bb" using a(3,4) lt [of b j] by (auto simp: st split: if_splits)
    then show ?thesis using True by simp
  next
    case False
    then have ar: "(a, True) \<in> set rest" "number s a = Some k" using a(1,2) new(1) by (auto simp: st)
    show ?thesis
    proof (cases "b = bb")
      case True
      then show ?thesis using open_le [OF ar(1)] by simp
    next
      case f: False
      then have "number s b = Some j" using a(4) by (simp add: st)
      then show ?thesis using q w ar a(3) unfolding dfs_reach_def by (metis list.set_intros(2))
    qed
  qed
  moreover have "\<exists>b. number ?s b = Some j \<and> (a, b) \<in> ?E\<^sup>*"
    if a: "number ?s a = Some k" "(a, True) \<notin> set work" "k \<le> j" "j \<le> last_nr s ! k" for a k j
  proof -
    have "a \<noteq> bb" using a(2) new(1) by auto
    then have "number s a = Some k" "(a, True) \<notin> set (worklist s)" using a(1,2) w new(1) by (auto simp: st)
    then obtain b where b: "number s b = Some j" "(a, b) \<in> ?E\<^sup>*" using q a(3,4) unfolding dfs_reach_def by blast
    then have "b \<noteq> bb" using bb by auto
    then show ?thesis using b by (auto simp: st)
  qed
  ultimately show ?thesis unfolding dfs_reach_def by (simp add: st)
qed

text \<open>What every step keeps holds when the work list is empty.\<close>

definition step_keeps :: "cfg \<Rightarrow> (dfs \<Rightarrow> bool) \<Rightarrow> bool" where
  "step_keeps g I \<longleftrightarrow> (\<forall>s bb flag rest. I s \<longrightarrow> worklist s = (bb, flag) # rest \<longrightarrow> I (dfs_step g bb flag rest s))"

lemma dfs_loop_rule: "I s \<Longrightarrow> step_keeps g I \<Longrightarrow> I (dfs_loop g s) \<and> worklist (dfs_loop g s) = []"
proof (induction g s rule: dfs_loop.induct [case_names loop])
  case (loop g s)
  show ?case
  proof (cases "worklist s")
    case Nil
    then have "dfs_loop g s = s" by (simp add: dfs_loop.simps [of g s])
    then show ?thesis using loop.prems(1) Nil by simp
  next
    case (Cons x rest)
    obtain bb flag where x: "x = (bb, flag)" by fastforce
    have st: "I (dfs_step g bb flag rest s)" using loop.prems Cons x unfolding step_keeps_def by blast
    have "dfs_loop g s = dfs_loop g (dfs_step g bb flag rest s)" using Cons x by (simp add: dfs_loop.simps [of g s])
    then show ?thesis using loop.IH [OF Cons x [symmetric] st loop.prems(2)] by simp
  qed
qed

end
