(* ===== verification/LoopTree.thy ===== *)
theory LoopTree
  imports LoopDfs
begin

text \<open>
  The other half of what the spanning tree of the loop analysis promises: every block that can be
  reached has a number, and the interval of a block holds the numbers of all blocks it dominates.
  So a back edge of a natural loop is always recognised, although the tree is not always that of
  a depth-first search.
\<close>

section \<open>Walks around a block\<close>

definition around :: "cfg \<Rightarrow> nat \<Rightarrow> nat \<Rightarrow> bool" where
  "around g a b \<longleftrightarrow> (0, b) \<in> (avoiding (flow_edges g) a)\<^sup>*"

lemma around_step: "around g a b \<Longrightarrow> t \<in> set (targets_of g b) \<Longrightarrow> t \<noteq> a \<Longrightarrow> around g a t"
  unfolding around_def by (rule rtrancl_into_rtrancl) (simp_all add: avoiding_def targets_edges)

fun stack_around :: "cfg \<Rightarrow> (nat \<times> bool) list \<Rightarrow> bool" where
  "stack_around g [] \<longleftrightarrow> True"
| "stack_around g ((a, f) # rest) \<longleftrightarrow> stack_around g rest \<and> (f \<longrightarrow> (\<forall>b \<in> set (pending rest). around g a b))"

lemma stack_around_push: "stack_around g (map (\<lambda>t. (t, False)) new @ work) \<longleftrightarrow> stack_around g work"
  by (induction new) auto

lemma stack_around_open:
  "stack_around g work \<Longrightarrow> work = (a, True) # rest \<Longrightarrow> b \<in> set (pending rest) \<Longrightarrow> around g a b"
  by simp

definition dfs_around :: "cfg \<Rightarrow> dfs \<Rightarrow> bool" where
  "dfs_around g s \<longleftrightarrow> stack_around g (worklist s) \<and>
     (\<forall>a b. a \<notin> dom (number s) \<longrightarrow> b \<in> dom (number s) \<union> set (pending (worklist s)) \<longrightarrow> b \<noteq> a \<longrightarrow> around g a b) \<and>
     (\<forall>a k b j. number s a = Some k \<longrightarrow> number s b = Some j \<longrightarrow> j < k \<longrightarrow> around g a b) \<and>
     (\<forall>a k b. number s a = Some k \<longrightarrow> (a, True) \<notin> set (worklist s) \<longrightarrow> b \<in> set (pending (worklist s)) \<longrightarrow> around g a b) \<and>
     (\<forall>a k b j. number s a = Some k \<longrightarrow> (a, True) \<notin> set (worklist s) \<longrightarrow> number s b = Some j \<longrightarrow> last_nr s ! k < j \<longrightarrow>
        around g a b) \<and>
     (\<forall>a \<in> dom (number s). set (targets_of g a) \<subseteq> visited s)"

lemma dfs_aroundD:
  assumes "dfs_around g s"
  shows "stack_around g (worklist s)"
    "a \<notin> dom (number s) \<Longrightarrow> b \<in> dom (number s) \<union> set (pending (worklist s)) \<Longrightarrow> b \<noteq> a \<Longrightarrow> around g a b"
    "number s a = Some k \<Longrightarrow> number s b = Some j \<Longrightarrow> j < k \<Longrightarrow> around g a b"
    "number s a = Some k \<Longrightarrow> (a, True) \<notin> set (worklist s) \<Longrightarrow> b \<in> set (pending (worklist s)) \<Longrightarrow> around g a b"
    "number s a = Some k \<Longrightarrow> (a, True) \<notin> set (worklist s) \<Longrightarrow> number s b = Some j \<Longrightarrow> last_nr s ! k < j \<Longrightarrow> around g a b"
    "a \<in> dom (number s) \<Longrightarrow> set (targets_of g a) \<subseteq> visited s"
  using assms unfolding dfs_around_def by blast+

lemma dfs_invD:
  assumes "dfs_inv g s"
  shows "distinct (pending (worklist s))" "dom (number s) \<inter> set (pending (worklist s)) = {}"
    "dom (number s) \<union> set (pending (worklist s)) = insert 0 (visited s)"
    "(b, True) \<in> set (worklist s) \<Longrightarrow> b \<in> dom (number s)"
    "number s b = Some i \<Longrightarrow> i < current s" "number s a = Some i \<Longrightarrow> number s b = Some i \<Longrightarrow> a = b"
    "length (last_nr s) = length g + 1" "number s b = Some i \<Longrightarrow> i < length g + 1"
proof -
  have nr: "nodes_numbered s" using assms by (simp add: dfs_inv_def)
  have n: "\<And>i. i < length (node s) \<Longrightarrow> i < current s \<longleftrightarrow> node s ! i \<noteq> None"
    "\<And>b i. number s b = Some i \<longleftrightarrow> i < length (node s) \<and> node s ! i = Some b"
    using nr unfolding nodes_numbered_def by blast+
  show "distinct (pending (worklist s))" "dom (number s) \<inter> set (pending (worklist s)) = {}"
    "dom (number s) \<union> set (pending (worklist s)) = insert 0 (visited s)" "length (last_nr s) = length g + 1"
    using assms by (simp_all add: dfs_inv_def)
  show "(b, True) \<in> set (worklist s) \<Longrightarrow> b \<in> dom (number s)" using assms by (simp add: dfs_inv_def)
  show "number s b = Some i \<Longrightarrow> i < current s" using n(1) [of i] n(2) [of b i] by simp
  show "number s a = Some i \<Longrightarrow> number s b = Some i \<Longrightarrow> a = b" using n(2) [of a i] n(2) [of b i] by simp
  show "number s b = Some i \<Longrightarrow> i < length g + 1" using assms n(2) [of b i] by (simp add: dfs_inv_def)
qed

lemma dfs_around_finish:
  assumes i: "dfs_inv g s" and q: "dfs_around g s" and w: "worklist s = (bb, True) # rest"
  shows "dfs_around g (dfs_step g bb True rest s)"
proof -
  note I = dfs_invD [OF i] and Q = dfs_aroundD [OF q]
  obtain k where k: "number s bb = Some k" using I(4) [of bb] w by auto
  have kl: "k < length (last_nr s)" using I(7) I(8) [OF k] by simp
  have st: "dfs_step g bb True rest s = s\<lparr>last_nr := (last_nr s)[k := current s - 1], worklist := rest\<rparr>"
    by (simp add: dfs_step_def number_at_def k)
  have pend: "pending (worklist s) = pending rest" using w by simp
  have bbp: "around g bb b" if "b \<in> set (pending rest)" for b by (rule stack_around_open [OF Q(1) w that])
  have p: "around g a b" if a: "number s a = Some m" "(a, True) \<notin> set rest" "b \<in> set (pending rest)" for a b m
  proof (cases "a = bb")
    case False
    then show ?thesis using Q(4) [OF a(1)] a(2,3) w by simp
  qed (use bbp a(3) in simp)
  have l: "around g a b"
    if a: "number s a = Some m" "(a, True) \<notin> set rest" "number s b = Some j" "(last_nr s)[k := current s - 1] ! m < j" for a m b j
  proof (cases "a = bb")
    case True
    then have "current s - 1 < j" using a(1,4) k kl by simp
    then show ?thesis using I(5) [OF a(3)] by simp
  next
    case False
    then have "m \<noteq> k" using I(6) [OF k] a(1) by blast
    then have "last_nr s ! m < j" using a(4) by simp
    then show ?thesis using Q(5) [OF a(1)] a(2,3) w False by simp
  qed
  have "stack_around g rest" using Q(1) w by simp
  then show ?thesis using Q(2,3,6) p l unfolding dfs_around_def st by (simp add: pend)
qed

lemma dfs_around_visit:
  assumes i: "dfs_inv g s" and q: "dfs_around g s" and w: "worklist s = (bb, False) # rest"
    and r: "\<And>u v. (u, v) \<in> flow_edges g \<Longrightarrow> 0 < v \<and> v \<le> length g"
  shows "dfs_around g (dfs_step g bb False rest s)"
proof -
  note I = dfs_invD [OF i] and Q = dfs_aroundD [OF q]
  let ?s = "dfs_step g bb False rest s"
  obtain vis work where p: "push_targets (targets_of g bb) (visited s) ((bb, True) # rest) = (vis, work)" by fastforce
  from push_props [OF p] obtain new where new: "work = map (\<lambda>t. (t, False)) new @ (bb, True) # rest"
    "set new \<subseteq> set (targets_of g bb)" "set new \<inter> visited s = {}" "vis = visited s \<union> set new" by auto
  have st: "?s = s\<lparr>node := (node s)[current s := Some bb], number := (number s)(bb \<mapsto> current s),
      current := current s + 1, visited := vis, worklist := work\<rparr>" by (simp add: dfs_step_def p)
  have pend: "pending (worklist s) = bb # pending rest" "pending work = new @ pending rest" using w new(1) by simp_all
  have bb: "bb \<notin> dom (number s)" "bb \<notin> set (pending rest)" using I(1,2) unfolding pend by auto
  have fresh: "t \<noteq> a" if "t \<in> set new" "a \<in> dom (number s)" for t a
  proof -
    have "t \<noteq> 0" using that(1) new(2) r targets_edges by blast
    then have "t \<notin> insert 0 (visited s)" using that(1) new(3) by auto
    then show ?thesis using I(3) that(2) by blast
  qed
  have A: "around g a b" if a: "a \<notin> dom (number ?s)" "b \<in> dom (number ?s) \<union> set (pending (worklist ?s))" "b \<noteq> a" for a b
  proof -
    have an: "a \<notin> dom (number s)" "a \<noteq> bb" using a(1) by (auto simp: st)
    have ab: "around g a bb" by (rule Q(2) [OF an(1)]) (use an(2) pend(1) in auto)
    show ?thesis
    proof (cases "b \<in> set new")
      case True
      then show ?thesis using around_step [OF ab] new(2) a(3) by blast
    next
      case False
      then have "b \<in> dom (number s) \<union> set (pending (worklist s))" using a(2) unfolding pend(1) by (auto simp: st pend(2))
      then show ?thesis by (rule Q(2) [OF an(1) _ a(3)])
    qed
  qed
  have bbr: "around g bb b" if "b \<in> dom (number s) \<union> set (pending rest)" for b
    by (rule Q(2) [OF bb(1)]) (use that bb pend(1) in auto)
  then have s1: "stack_around g work" using Q(1) w unfolding new(1) stack_around_push by simp
  have s3: "around g a b" if ab: "number ?s a = Some k" "number ?s b = Some j" "j < k" for a k b j
  proof (cases "a = bb")
    case True
    then have "b \<noteq> bb" using ab by auto
    then show ?thesis using True ab(2) bbr [of b] by (auto simp: st)
  next
    case False
    then have a: "number s a = Some k" using ab(1) by (simp add: st)
    have "b \<noteq> bb" using ab(2,3) I(5) [OF a] by (auto simp: st)
    then show ?thesis using Q(3) [OF a] ab(2,3) by (simp add: st)
  qed
  have s4: "around g a b"
    if ab: "number ?s a = Some k" "(a, True) \<notin> set work" "b \<in> set (pending work)" for a k b
  proof -
    have "a \<noteq> bb" using ab(2) new(1) by auto
    then have a: "number s a = Some k" "(a, True) \<notin> set (worklist s)" using ab(1,2) w new(1) by (auto simp: st)
    have abb: "around g a bb" by (rule Q(4) [OF a]) (simp add: pend)
    show ?thesis
    proof (cases "b \<in> set new")
      case True
      then have t: "b \<in> set (targets_of g bb)" using new(2) by blast
      show ?thesis by (rule around_step [OF abb t fresh [OF True]]) (use a(1) in blast)
    next
      case False
      then have "b \<in> set (pending (worklist s))" using ab(3) pend by simp
      then show ?thesis by (rule Q(4) [OF a])
    qed
  qed
  have s5: "around g a b"
    if ab: "number ?s a = Some k" "(a, True) \<notin> set work" "number ?s b = Some j" "last_nr s ! k < j" for a k b j
  proof -
    have "a \<noteq> bb" using ab(2) new(1) by auto
    then have a: "number s a = Some k" "(a, True) \<notin> set (worklist s)" using ab(1,2) w new(1) by (auto simp: st)
    show ?thesis
    proof (cases "b = bb")
      case True
      then show ?thesis using Q(4) [OF a] pend(1) by simp
    next
      case False
      then show ?thesis using Q(5) [OF a] ab(3,4) by (simp add: st)
    qed
  qed
  have s6: "\<forall>a \<in> dom (number ?s). set (targets_of g a) \<subseteq> vis"
  proof
    fix a assume a: "a \<in> dom (number ?s)"
    show "set (targets_of g a) \<subseteq> vis"
    proof (cases "a = bb")
      case True
      then show ?thesis using push_all [OF p] by simp
    next
      case False
      then have "a \<in> dom (number s)" using a by (auto simp: st)
      then show ?thesis using Q(6) new(4) by blast
    qed
  qed
  have e: "worklist ?s = work" "visited ?s = vis" "last_nr ?s = last_nr s" by (simp_all add: st)
  show ?thesis unfolding dfs_around_def e
    by (intro conjI allI impI s1 s6) (rule A [unfolded e] s3 s4 s5; assumption)+
qed

section \<open>The finished tree\<close>

definition started :: "dfs \<Rightarrow> bool" where
  "started s \<longleftrightarrow> current s = 0 \<and> worklist s = [(0, False)] \<or> number s 0 = Some 0"

lemma started_step: "dfs_inv g s \<Longrightarrow> started s \<Longrightarrow> worklist s = (bb, flag) # rest \<Longrightarrow> started (dfs_step g bb flag rest s)"
  using dfs_invD(2) [of g s]
  by (auto simp: started_def dfs_step_def split: prod.splits)

text \<open>The jumps of a function: at least one target each, in the function or the sink, and never the entry.\<close>

definition flow_ok :: "cfg \<Rightarrow> bool" where
  "flow_ok g \<longleftrightarrow> list_all (\<lambda>b. case b of None \<Rightarrow> True | Some ts \<Rightarrow> ts \<noteq> [] \<and> list_all (\<lambda>t. 0 < t \<and> t \<le> length g) ts) g"

lemma flow_okD: "flow_ok g \<Longrightarrow> (u, v) \<in> flow_edges g \<Longrightarrow> 0 < v \<and> v \<le> length g"
  by (fastforce simp: flow_ok_def flow_edges_def list_all_iff dest: nth_mem)

lemma flow_ok_jumps: "flow_ok g \<Longrightarrow> jumps_ok g"
  by (fastforce simp: flow_ok_def jumps_ok_def list_all_iff)

definition tree_ok :: "cfg \<Rightarrow> dfs \<Rightarrow> bool" where
  "tree_ok g s \<longleftrightarrow> dfs_inv g s \<and> dfs_reach g s \<and> dfs_around g s \<and> started s"

lemma tree_ok_step:
  assumes "flow_ok g" "tree_ok g s" "worklist s = (bb, flag) # rest"
  shows "tree_ok g (dfs_step g bb flag rest s)"
proof -
  have t: "dfs_inv g s" "dfs_reach g s" "dfs_around g s" "started s" using assms(2) by (simp_all add: tree_ok_def)
  note r = flow_okD [OF assms(1)]
  have "dfs_inv g (dfs_step g bb flag rest s) \<and> dfs_reach g (dfs_step g bb flag rest s) \<and> dfs_around g (dfs_step g bb flag rest s)"
  proof (cases flag)
    case True
    then show ?thesis using dfs_inv_finish [OF t(1)] dfs_reach_finish [OF t(1,2)] dfs_around_finish [OF t(1,3)] assms(3) by simp
  next
    case False
    then show ?thesis
      using dfs_inv_visit [OF t(1) _ r] dfs_reach_visit [OF t(1,2)] dfs_around_visit [OF t(1,3) _ r] assms(3) by simp
  qed
  then show ?thesis using started_step [OF t(1,4) assms(3)] by (simp add: tree_ok_def)
qed

lemma tree_finished:
  assumes "flow_ok g"
  shows "tree_ok g (getDepthFirstSpanningTree g) \<and> worklist (getDepthFirstSpanningTree g) = []"
proof -
  let ?s = "\<lparr>node = replicate (length g + 1) None, number = Map.empty, last_nr = replicate (length g + 1) uint_max,
        current = 0, visited = {}, worklist = [(0, False)]\<rparr>"
  have "dfs_inv g ?s" by (auto simp: dfs_inv_def nodes_numbered_def nth_append simp del: replicate_Suc)
  moreover have "dfs_reach g ?s" by (simp add: dfs_reach_def)
  moreover have "dfs_around g ?s" by (auto simp: dfs_around_def around_def)
  ultimately have "tree_ok g ?s" by (simp add: tree_ok_def started_def)
  then show ?thesis unfolding getDepthFirstSpanningTree_def Let_def
    by (rule dfs_loop_rule) (use tree_ok_step [OF assms] in \<open>simp add: step_keeps_def\<close>)
qed

lemma spanning_tree:
  assumes ok: "flow_ok g"
  defines "s \<equiv> getDepthFirstSpanningTree g"
  shows "number s b = Some i \<longleftrightarrow> i < current s \<and> node s ! i = Some b"
    and "i < current s \<Longrightarrow> \<exists>b. number s b = Some i"
    and "current s \<le> length g + 1"
    and "number s 0 = Some 0"
    and "number s a = Some k \<Longrightarrow> k \<le> i \<Longrightarrow> i \<le> last_nr s ! k \<Longrightarrow> \<exists>b. number s b = Some i \<and> (a, b) \<in> (flow_edges g)\<^sup>*"
    and "number s a = Some k \<Longrightarrow> (a, b) \<in> flow_edges g \<Longrightarrow> \<exists>i. number s b = Some i"
    and "h \<noteq> 0 \<Longrightarrow> on_all_paths (flow_edges g) h b \<Longrightarrow> number s b = Some i \<Longrightarrow>
           \<exists>k. number s h = Some k \<and> k \<le> i \<and> i \<le> last_nr s ! k"
proof -
  have t: "dfs_inv g s" "dfs_reach g s" "dfs_around g s" "started s" "worklist s = []"
    using tree_finished [OF ok] by (simp_all add: tree_ok_def s_def)
  note I = dfs_invD [OF t(1)] and Q = dfs_aroundD [OF t(3)]
  have "dom (number s) \<subseteq> {..length g}" using t(1) unfolding dfs_inv_def by blast
  then have "card (dom (number s)) \<le> Suc (length g)" using card_mono [of "{..length g}"] by fastforce
  then show cur: "current s \<le> length g + 1" using t(1) by (simp add: dfs_inv_def)
  have nr: "nodes_numbered s" and len: "length (node s) = length g + 1" using t(1) by (simp_all add: dfs_inv_def)
  have n: "i < current s \<longleftrightarrow> node s ! i \<noteq> None" if "i < length g + 1" for i using nr that unfolding nodes_numbered_def len by blast
  have n2: "number s b = Some i \<longleftrightarrow> i < length g + 1 \<and> node s ! i = Some b" for b i using nr unfolding nodes_numbered_def len by blast
  show "number s b = Some i \<longleftrightarrow> i < current s \<and> node s ! i = Some b" using n2 [of b i] n [of i] cur by auto
  show "\<exists>b. number s b = Some i" if "i < current s" using n [of i] n2 [of _ i] that cur by auto
  show "number s 0 = Some 0" using t(4,5) by (simp add: started_def)
  show "\<exists>b. number s b = Some i \<and> (a, b) \<in> (flow_edges g)\<^sup>*" if "number s a = Some k" "k \<le> i" "i \<le> last_nr s ! k"
    using t(2,5) that unfolding dfs_reach_def by simp
  show "\<exists>i. number s b = Some i" if "number s a = Some k" "(a, b) \<in> flow_edges g"
  proof -
    have "b \<in> visited s" using Q(6) [of a] that targets_edges by blast
    then show ?thesis using I(3) t(5) by auto
  qed
  assume h: "h \<noteq> 0" "on_all_paths (flow_edges g) h b" "number s b = Some i"
  then have na: "\<not> around g h b" by (simp add: dom_iff around_def)
  have "h \<in> dom (number s)"
  proof (rule ccontr)
    assume "h \<notin> dom (number s)"
    moreover from this have "b \<noteq> h" using h(3) by auto
    ultimately show False using Q(2) [of h b] h(3) na by auto
  qed
  then obtain k where k: "number s h = Some k" by blast
  have "k \<le> i" using Q(3) [OF k h(3)] na by (meson not_le)
  moreover have "i \<le> last_nr s ! k" using Q(5) [OF k _ h(3)] na t(5) by (cases "last_nr s ! k < i") simp_all
  ultimately show "\<exists>k. number s h = Some k \<and> k \<le> i \<and> i \<le> last_nr s ! k" using k by blast
qed

end
