(* ===== verification/UnionFind.thy ===== *)
theory UnionFind
  imports Main "HOL-Library.Monad_Syntax"
begin

text \<open>
  The disjoint-set structure of \<open>util/unionfind.cpp\<close>: a vector of parent indices with path
  compression at the queried index. The loop of \<open>find\<close> follows parents until it meets a root
  and has no bound of its own, so it is a partial function: \<^const>\<open>None\<close> stands for a run that
  never ends, and for an index outside the vector. The theorem at the end shows that neither
  happens to a client that only passes indices it has created, and that the classes a client
  observes are the equivalence closure of the pairs it has merged.
\<close>

section \<open>The structure\<close>

record union_find = id_vec :: "nat list"

definition UnionFind :: "nat \<Rightarrow> union_find" where
  "UnionFind n = \<lparr>id_vec = [0..<n]\<rparr>"

definition uf_mk :: "union_find \<Rightarrow> nat \<times> union_find" where
  "uf_mk u = (let n = length (id_vec u) in (n, u\<lparr>id_vec := id_vec u @ [n]\<rparr>))"

partial_function (option) root_loop :: "nat list \<Rightarrow> nat \<Rightarrow> nat option" where
  "root_loop ids root =
     (if root < length ids
      then if root = ids ! root then Some root else root_loop ids (ids ! root)
      else None)"

definition uf_find :: "union_find \<Rightarrow> nat \<Rightarrow> (nat \<times> union_find) option" where
  "uf_find u i = do {
     root \<leftarrow> root_loop (id_vec u) i;
     Some (root, u\<lparr>id_vec := (id_vec u)[i := root]\<rparr>)
   }"

definition uf_merge :: "union_find \<Rightarrow> nat \<Rightarrow> nat \<Rightarrow> (nat \<times> union_find) option" where
  "uf_merge u p q = do {
     (i, u1) \<leftarrow> uf_find u p;
     (j, u2) \<leftarrow> uf_find u1 q;
     Some (j, u2\<lparr>id_vec := (id_vec u2)[i := j]\<rparr>)
   }"

section \<open>Forests\<close>

text \<open>Every index is inside the vector and leads to a root in finitely many steps.\<close>

inductive leads :: "nat list \<Rightarrow> nat \<Rightarrow> nat \<Rightarrow> bool" for ids where
  here: "r < length ids \<Longrightarrow> ids ! r = r \<Longrightarrow> leads ids r r"
| up: "i < length ids \<Longrightarrow> ids ! i \<noteq> i \<Longrightarrow> leads ids (ids ! i) r \<Longrightarrow> leads ids i r"

inductive_cases leadsE: "leads ids i r"

definition forest :: "nat list \<Rightarrow> bool" where
  "forest ids \<longleftrightarrow> (\<forall>i < length ids. \<exists>r. leads ids i r)"

lemma leads_bounds: "leads ids i r \<Longrightarrow> i < length ids \<and> r < length ids \<and> ids ! r = r"
  by (induction rule: leads.induct) auto

lemma leads_unique: "leads ids i r \<Longrightarrow> leads ids i s \<Longrightarrow> r = s"
proof (induction arbitrary: s rule: leads.induct)
  case (here r)
  from here(3) show ?case by (rule leadsE) (use here in simp_all)
next
  case (up i r)
  from up.prems have "leads ids (ids ! i) s" by (rule leadsE) (use up.hyps in simp_all)
  then show ?case by (rule up.IH)
qed

lemma root_loop_leads: "leads ids i r \<Longrightarrow> root_loop ids i = Some r"
proof (induction rule: leads.induct)
  case (here r)
  then show ?case by (subst root_loop.simps) simp
next
  case (up i r)
  then show ?case by (subst root_loop.simps) (simp add: eq_commute)
qed

lemma leads_root: "leads ids r r \<longleftrightarrow> r < length ids \<and> ids ! r = r"
  using leads_bounds leads.here by blast

lemma forestD: "forest ids \<Longrightarrow> i < length ids \<Longrightarrow> \<exists>r. leads ids i r"
  by (simp add: forest_def)

text \<open>
  Redirecting one index \<open>k\<close> to \<open>r\<close>, where \<open>r\<close> is a root and \<open>k\<close> is either below \<open>r\<close> or a
  root itself: path compression is the first case and the union of two classes the second.
\<close>

lemma leads_compress:
  assumes "leads ids k r" "leads ids i s"
  shows "leads (ids[k := r]) i s"
  using assms(2)
proof (induction rule: leads.induct)
  case (here s)
  then show ?case using assms(1) leads_unique leads.here [of s ids] leads.here [of s "ids[k := r]"]
    by (cases "s = k") auto
next
  case (up i s)
  show ?case
  proof (cases "i = k")
    case True
    have "leads ids i s" using up.hyps leads.up by blast
    then have "s = r" using assms(1) True leads_unique by blast
    moreover have r: "r < length ids" "ids ! r = r" using leads_bounds [OF assms(1)] by auto
    moreover have "r \<noteq> k" using r up.hyps(2) True by auto
    ultimately show ?thesis
      using up.hyps True leads.here [of r "ids[k := r]"] leads.up [of k "ids[k := r]" r] by simp
  next
    case False
    then show ?thesis using up leads.up [of i "ids[k := r]"] by simp
  qed
qed

lemma leads_union:
  assumes "leads ids i s" "p < length ids" "ids ! p = p" "q < length ids" "ids ! q = q"
  shows "leads (ids[p := q]) i (if s = p then q else s)"
  using assms(1)
proof (induction rule: leads.induct)
  case (here s)
  have q: "leads (ids[p := q]) q q" using assms leads.here [of q "ids[p := q]"]
    by (cases "p = q") auto
  show ?case
  proof (cases "s = p")
    case True
    then show ?thesis using q assms leads.up [of p "ids[p := q]" q] by (cases "p = q") auto
  next
    case False
    then show ?thesis using here leads.here [of s "ids[p := q]"] by simp
  qed
next
  case (up i s)
  then have "i \<noteq> p" using assms(3) by auto
  then show ?case using up leads.up [of i "ids[p := q]"] by simp
qed

lemma leads_append: "leads ids i r \<Longrightarrow> leads (ids @ xs) i r"
proof (induction rule: leads.induct)
  case (here r)
  then show ?case using leads.here [of r "ids @ xs"] by (simp add: nth_append)
next
  case (up i r)
  then show ?case using leads.up [of i "ids @ xs" r] by (simp add: nth_append)
qed

section \<open>The classes a client observes\<close>

definition rep :: "nat list \<Rightarrow> nat \<Rightarrow> nat" where
  "rep ids i = (case root_loop ids i of Some r \<Rightarrow> r | None \<Rightarrow> i)"

lemma rep_leads: "leads ids i r \<Longrightarrow> rep ids i = r"
  by (simp add: rep_def root_loop_leads)

lemma forest_leads_rep: "forest ids \<Longrightarrow> i < length ids \<Longrightarrow> leads ids i (rep ids i)"
  using forestD rep_leads by metis

definition classes :: "union_find \<Rightarrow> (nat \<times> nat) set" where
  "classes u = {(x, y). x < length (id_vec u) \<and> y < length (id_vec u) \<and>
                        rep (id_vec u) x = rep (id_vec u) y}"

lemma find_step:
  assumes "forest (id_vec u)" "i < length (id_vec u)"
  shows "\<exists>u'. uf_find u i = Some (rep (id_vec u) i, u') \<and> forest (id_vec u') \<and>
              length (id_vec u') = length (id_vec u) \<and> classes u' = classes u \<and>
              (\<forall>x < length (id_vec u). rep (id_vec u') x = rep (id_vec u) x)"
proof -
  let ?ids = "id_vec u" and ?r = "rep (id_vec u) i"
  let ?u = "u\<lparr>id_vec := ?ids[i := ?r]\<rparr>"
  have l: "leads ?ids i ?r" using assms by (rule forest_leads_rep)
  have k: "leads (?ids[i := ?r]) x (rep ?ids x)" if "x < length ?ids" for x
    using leads_compress [OF l] forest_leads_rep [OF assms(1) that] by blast
  have "forest (id_vec ?u)" using k by (auto simp: forest_def)
  moreover have "\<forall>x < length ?ids. rep (id_vec ?u) x = rep ?ids x" using k rep_leads by simp
  ultimately show ?thesis
    using root_loop_leads [OF l] by (auto simp: uf_find_def classes_def)
qed

lemma merge_step:
  assumes "forest (id_vec u)" "p < length (id_vec u)" "q < length (id_vec u)"
  shows "\<exists>u'. uf_merge u p q = Some (rep (id_vec u) q, u') \<and> forest (id_vec u') \<and>
              length (id_vec u') = length (id_vec u) \<and>
              (\<forall>x < length (id_vec u). rep (id_vec u') x =
                 (if rep (id_vec u) x = rep (id_vec u) p then rep (id_vec u) q
                  else rep (id_vec u) x))"
proof -
  let ?R = "rep (id_vec u)"
  obtain u1 where u1: "uf_find u p = Some (?R p, u1)" "forest (id_vec u1)"
    "length (id_vec u1) = length (id_vec u)"
    "\<forall>x < length (id_vec u). rep (id_vec u1) x = ?R x"
    using find_step [OF assms(1,2)] by blast
  obtain u2 where u2: "uf_find u1 q = Some (?R q, u2)" "forest (id_vec u2)"
    "length (id_vec u2) = length (id_vec u)"
    "\<forall>x < length (id_vec u). rep (id_vec u2) x = ?R x"
    using find_step [of u1 q] u1 assms by metis
  have root: "?R y < length (id_vec u) \<and> id_vec u2 ! ?R y = ?R y" if "y < length (id_vec u)" for y
    using forest_leads_rep [OF u2(2), of y] leads_bounds u2(3,4) that by (metis (full_types))
  let ?ids = "(id_vec u2)[?R p := ?R q]"
  have k: "leads ?ids x (if ?R x = ?R p then ?R q else ?R x)" if "x < length (id_vec u)" for x
    using leads_union [OF forest_leads_rep [OF u2(2)], of x "?R p" "?R q"] root u2(3,4) that
      assms(2,3) by metis
  have "forest ?ids" using k u2(3) by (auto simp: forest_def)
  then show ?thesis using k u1(1) u2(1,3) rep_leads by (simp add: uf_merge_def)
qed

section \<open>Equivalence closure\<close>

definition closure :: "(nat \<times> nat) set \<Rightarrow> (nat \<times> nat) set" where
  "closure R = (R \<union> R\<inverse>)\<^sup>*"

lemma closure_least:
  assumes "R \<subseteq> S" "refl S" "sym S" "trans S" shows "closure R \<subseteq> S"
proof -
  have "R \<union> R\<inverse> \<subseteq> S" using assms(1,3) by (auto dest: symD)
  then have "closure R \<subseteq> S\<^sup>*" unfolding closure_def by (rule rtrancl_mono)
  also have "S\<^sup>* \<subseteq> S" using assms(2,4) by (auto simp: rtrancl_trancl_reflcl trancl_id refl_on_def)
  finally show ?thesis .
qed

lemma closure_equiv: "refl (closure R)" "sym (closure R)" "trans (closure R)"
proof -
  show "refl (closure R)" by (simp add: closure_def refl_rtrancl)
  show "sym (closure R)" unfolding closure_def by (intro sym_rtrancl sym_Un_converse)
  show "trans (closure R)" by (simp add: closure_def trans_rtrancl)
qed

lemma closure_incl: "R \<subseteq> closure R"
  by (auto simp: closure_def)

lemma closure_mono: "R \<subseteq> S \<Longrightarrow> closure R \<subseteq> closure S"
  unfolding closure_def by (rule rtrancl_mono) auto

lemma closure_nest: "closure (closure A \<union> B) = closure (A \<union> B)"
proof
  have "closure A \<union> B \<subseteq> closure (A \<union> B)"
    using closure_mono [of A "A \<union> B"] closure_incl [of "A \<union> B"] by blast
  then show "closure (closure A \<union> B) \<subseteq> closure (A \<union> B)"
    by (rule closure_least) (rule closure_equiv)+
  show "closure (A \<union> B) \<subseteq> closure (closure A \<union> B)"
    by (rule closure_mono) (use closure_incl [of A] in blast)
qed

definition eqv :: "union_find \<Rightarrow> (nat \<times> nat) set" where
  "eqv u = Id \<union> classes u"

lemma eqv_equiv: "refl (eqv u)" "sym (eqv u)" "trans (eqv u)"
  by (auto simp: eqv_def classes_def refl_on_def sym_def trans_def)

lemma closure_eqv: "closure (eqv u) = eqv u"
  using closure_least [OF subset_refl] eqv_equiv closure_incl by blast

lemma eqv_find:
  assumes "forest (id_vec u)" "uf_find u i = Some (r, u')" "i < length (id_vec u)"
  shows "eqv u' = eqv u"
  using find_step [OF assms(1,3)] assms(2) by (auto simp: eqv_def)

lemma eqv_merge:
  assumes "forest (id_vec u)" "p < length (id_vec u)" "q < length (id_vec u)"
    and "uf_merge u p q = Some (r, u')"
  shows "eqv u' = closure (eqv u \<union> {(p, q)})"
proof
  let ?R = "rep (id_vec u)" and ?n = "length (id_vec u)"
  have m: "length (id_vec u') = ?n"
    "\<forall>x < ?n. rep (id_vec u') x = (if ?R x = ?R p then ?R q else ?R x)"
    using merge_step [OF assms(1-3)] assms(4) by auto
  have "eqv u \<union> {(p, q)} \<subseteq> eqv u'" using m assms(2,3) by (auto simp: eqv_def classes_def)
  then show "closure (eqv u \<union> {(p, q)}) \<subseteq> eqv u'" by (rule closure_least) (rule eqv_equiv)+
  let ?C = "closure (eqv u \<union> {(p, q)})"
  have base: "(x, y) \<in> ?C" if "x < ?n" "y < ?n" "?R x = ?R y" for x y
    using that closure_incl [of "eqv u \<union> {(p, q)}"] by (auto simp: eqv_def classes_def)
  have pq: "(p, q) \<in> ?C" using closure_incl [of "eqv u \<union> {(p, q)}"] by blast
  have to_q: "(x, q) \<in> ?C" if "x < ?n" "rep (id_vec u') x = ?R q" for x
  proof (cases "?R x = ?R p")
    case True
    then have "(x, p) \<in> ?C" using base that assms(2) by blast
    then show ?thesis using pq closure_equiv(3) by (rule transD [rotated])
  next
    case False
    then show ?thesis using base that m assms(3) by simp
  qed
  show "eqv u' \<subseteq> ?C"
  proof (rule subrelI)
    fix x y assume "(x, y) \<in> eqv u'"
    then consider "x = y" | "x < ?n" "y < ?n" "rep (id_vec u') x = rep (id_vec u') y"
      using m(1) by (auto simp: eqv_def classes_def)
    then show "(x, y) \<in> ?C"
    proof cases
      case 1
      then show ?thesis using closure_equiv(1) by (auto simp: refl_on_def)
    next
      case 2
      show ?thesis
      proof (cases "rep (id_vec u') x = ?R q")
        case True
        then have "(x, q) \<in> ?C" "(q, y) \<in> ?C"
          using to_q 2 closure_equiv(2) [of "eqv u \<union> {(p, q)}"] by (auto dest: symD)
        then show ?thesis using closure_equiv(3) by (rule transD [rotated])
      next
        case False
        then show ?thesis using base 2 m(2) by (metis (full_types))
      qed
    qed
  qed
qed

lemma mk_step:
  assumes "forest (id_vec u)" "uf_mk u = (i, u')"
  shows "forest (id_vec u')" "length (id_vec u') = Suc (length (id_vec u))" "eqv u' = eqv u"
    "i = length (id_vec u)"
proof -
  let ?n = "length (id_vec u)"
  have e: "i = ?n" "id_vec u' = id_vec u @ [?n]" using assms(2) by (auto simp: uf_mk_def Let_def)
  have new: "leads (id_vec u') ?n ?n" using e by (intro leads.here) auto
  have old: "leads (id_vec u') x (rep (id_vec u) x)" if "x < ?n" for x
    using forest_leads_rep [OF assms(1) that] e leads_append by simp
  then have r: "rep (id_vec u') x = rep (id_vec u) x" if "x < ?n" for x using rep_leads that by blast
  have fresh: "rep (id_vec u) x < ?n" if "x < ?n" for x
    using forest_leads_rep [OF assms(1) that] leads_bounds by blast
  show "forest (id_vec u')" using new old e by (auto simp: forest_def less_Suc_eq)
  show "length (id_vec u') = Suc ?n" "i = ?n" using e by auto
  have "classes u' = insert (?n, ?n) (classes u)"
    using e r fresh rep_leads [OF new] by (fastforce simp: classes_def less_Suc_eq)
  then show "eqv u' = eqv u" by (auto simp: eqv_def)
qed

section \<open>Runs of a client\<close>

datatype uf_op = Mk | Find nat | Merge nat nat

fun uf_run :: "union_find \<Rightarrow> uf_op list \<Rightarrow> union_find option" where
  "uf_run u [] = Some u"
| "uf_run u (Mk # ops) = uf_run (snd (uf_mk u)) ops"
| "uf_run u (Find i # ops) = do { (_, u') \<leftarrow> uf_find u i; uf_run u' ops }"
| "uf_run u (Merge p q # ops) = do { (_, u') \<leftarrow> uf_merge u p q; uf_run u' ops }"

text \<open>A client that only passes indices it has created, and the pairs it has merged.\<close>

fun uf_valid :: "nat \<Rightarrow> uf_op list \<Rightarrow> bool" where
  "uf_valid n [] \<longleftrightarrow> True"
| "uf_valid n (Mk # ops) \<longleftrightarrow> uf_valid (Suc n) ops"
| "uf_valid n (Find i # ops) \<longleftrightarrow> i < n \<and> uf_valid n ops"
| "uf_valid n (Merge p q # ops) \<longleftrightarrow> p < n \<and> q < n \<and> uf_valid n ops"

fun merged_pairs :: "uf_op list \<Rightarrow> (nat \<times> nat) set" where
  "merged_pairs [] = {}"
| "merged_pairs (Merge p q # ops) = insert (p, q) (merged_pairs ops)"
| "merged_pairs (_ # ops) = merged_pairs ops"

lemma uf_run_closure:
  "forest (id_vec u) \<Longrightarrow> uf_valid (length (id_vec u)) ops \<Longrightarrow>
     \<exists>u'. uf_run u ops = Some u' \<and> forest (id_vec u') \<and>
          eqv u' = closure (eqv u \<union> merged_pairs ops)"
proof (induction u ops rule: uf_run.induct)
  case (1 u)
  then show ?case by (simp add: closure_eqv)
next
  case (2 u ops)
  then show ?case using mk_step [OF 2(2) prod.collapse [symmetric]] by simp
next
  case (3 u i ops)
  then obtain u' where "uf_find u i = Some (rep (id_vec u) i, u')" "forest (id_vec u')"
    "length (id_vec u') = length (id_vec u)" using find_step [of u i] by auto
  with 3 show ?case using eqv_find [of u i _ u'] by auto
next
  case (4 u p q ops)
  then obtain u' where u': "uf_merge u p q = Some (rep (id_vec u) q, u')" "forest (id_vec u')"
    "length (id_vec u') = length (id_vec u)" using merge_step [of u p q] by auto
  then obtain v where "uf_run u' ops = Some v" "forest (id_vec v)"
    "eqv v = closure (eqv u' \<union> merged_pairs ops)" using 4(1) [OF u'(1) refl] 4(3) by auto
  with u' 4 show ?case using eqv_merge [of u p q _ u'] by (auto simp: closure_nest Un_assoc)
qed

lemma forest_init: "forest (id_vec (UnionFind n))"
  by (auto simp: forest_def UnionFind_def intro!: leads.here exI)

lemma eqv_init: "eqv (UnionFind n) = Id"
proof -
  have "rep [0..<n] x = x" if "x < n" for x
    by (rule rep_leads) (use that in \<open>simp add: leads.here\<close>)
  then show ?thesis by (auto simp: eqv_def classes_def UnionFind_def)
qed

lemma closure_Id: "closure (Id \<union> R) = closure R"
proof -
  have "closure (closure {} \<union> R) = closure ({} \<union> R)" by (rule closure_nest)
  then show ?thesis by (simp add: closure_def)
qed

text \<open>
  C20 (the disjoint sets implement an equivalence): a client that starts from \<open>n\<close> singletons
  and only passes indices it has created never makes an operation diverge or leave the vector.
  After its run, \<open>find\<close> succeeds on every index, and it returns the same representative for two
  indices exactly when they are related by the equivalence closure of the merged pairs.
\<close>

theorem union_find_is_closure:
  assumes "uf_valid n ops"
  shows "\<exists>u. uf_run (UnionFind n) ops = Some u \<and>
     (\<forall>x < length (id_vec u). \<forall>y < length (id_vec u). \<exists>r s u1 u2.
        uf_find u x = Some (r, u1) \<and> uf_find u y = Some (s, u2) \<and>
        (r = s \<longleftrightarrow> (x, y) \<in> (merged_pairs ops \<union> (merged_pairs ops)\<inverse>)\<^sup>*))"
proof -
  have "uf_valid (length (id_vec (UnionFind n))) ops" using assms by (simp add: UnionFind_def)
  from uf_run_closure [OF forest_init this]
  obtain u where u: "uf_run (UnionFind n) ops = Some u" "forest (id_vec u)"
    "eqv u = closure (merged_pairs ops)"
    by (auto simp: eqv_init closure_Id)
  have e: "rep (id_vec u) x = rep (id_vec u) y \<longleftrightarrow> (x, y) \<in> closure (merged_pairs ops)"
    if "x < length (id_vec u)" "y < length (id_vec u)" for x y
    unfolding u(3) [symmetric] using that by (auto simp: eqv_def classes_def)
  have f: "\<exists>u'. uf_find u x = Some (rep (id_vec u) x, u')" if "x < length (id_vec u)" for x
    using find_step [OF u(2) that] by blast
  from u(1) e f show ?thesis unfolding closure_def by metis
qed

theorem union_find_is_closure_witness:
  "\<exists>u. uf_run (UnionFind 3) [Merge 0 1, Mk, Find 0, Merge 3 0] = Some u \<and>
     (\<forall>x < length (id_vec u). \<forall>y < length (id_vec u). \<exists>r s u1 u2.
        uf_find u x = Some (r, u1) \<and> uf_find u y = Some (s, u2) \<and>
        (r = s \<longleftrightarrow> (x, y) \<in> ({(0, 1), (3, 0)} \<union> {(0, 1), (3, 0)}\<inverse>)\<^sup>*))"
  using union_find_is_closure [of 3 "[Merge 0 1, Mk, Find 0, Merge 3 0]"] by simp

end
