(* ===== verification/LoopNest.thy ===== *)
theory LoopNest
  imports UnionFind
begin

text \<open>
  The Tarjan-Havlak loop of \<open>LoopAnalysis::run\<close> in \<open>ir/function.cpp\<close>, on the numbers of the blocks:
  from the last number down to the first, the sources of the back edges into a number and what
  reaches them without passing it are collected, and their classes are merged into it.
  \<^const>\<open>None\<close> stands for a read outside a vector, for the failure of the \<open>ENSURE\<close> after a merge
  and for a work list that is never exhausted.
\<close>

section \<open>The loop\<close>

datatype node_type = nonheader | self | reducible | irreducible

record loops =
  uf :: union_find
  header :: "nat list"
  ltype :: "node_type list"
  nonBackPreds :: "nat set list"

definition isAncestor :: "nat list \<Rightarrow> nat \<Rightarrow> nat \<Rightarrow> bool" where
  "isAncestor lst w v \<longleftrightarrow> w \<le> v \<and> v \<le> lst ! w"

definition set_type :: "nat \<Rightarrow> node_type \<Rightarrow> loops \<Rightarrow> loops" where
  "set_type w t l = l\<lparr>ltype := (ltype l)[w := t]\<rparr>"

fun back_preds :: "nat \<Rightarrow> nat list \<Rightarrow> loops \<Rightarrow> nat set \<Rightarrow> (loops \<times> nat set) option" where
  "back_preds w [] l P = Some (l, P)"
| "back_preds w (v # vs) l P =
     (if v \<noteq> w
      then do { (r, u) \<leftarrow> uf_find (uf l) v; back_preds w vs (l\<lparr>uf := u\<rparr>) (insert r P) }
      else back_preds w vs (set_type w self l) P)"

text \<open>
  The sources of the other edges into \<open>x\<close>. The set of \<open>w\<close> may grow on the way, never the one that is
  being read: \<open>x\<close> is in \<open>P\<close> and \<open>w\<close> never is.
\<close>

fun chase_preds :: "nat list \<Rightarrow> nat \<Rightarrow> nat list \<Rightarrow> loops \<Rightarrow> nat set \<Rightarrow> nat set \<Rightarrow> (loops \<times> nat set \<times> nat set) option" where
  "chase_preds lst w [] l P W = Some (l, P, W)"
| "chase_preds lst w (y # ys) l P W = do {
     (yy, u) \<leftarrow> uf_find (uf l) y;
     if \<not> isAncestor lst w yy
     then chase_preds lst w ys
            (set_type w irreducible (l\<lparr>uf := u, nonBackPreds := (nonBackPreds l)[w := insert yy (nonBackPreds l ! w)]\<rparr>)) P W
     else if yy \<noteq> w \<and> yy \<notin> P then chase_preds lst w ys (l\<lparr>uf := u\<rparr>) (insert yy P) (insert yy W)
     else chase_preds lst w ys (l\<lparr>uf := u\<rparr>) P W }"

partial_function (option) chase :: "nat list \<Rightarrow> nat \<Rightarrow> loops \<Rightarrow> nat set \<Rightarrow> nat set \<Rightarrow> (loops \<times> nat set) option" where
  "chase lst w l P W =
     (if W = {} then Some (l, P)
      else let x = Min W in
        if x < length (nonBackPreds l)
        then do {
          (l', P', W') \<leftarrow> chase_preds lst w (sorted_list_of_set (nonBackPreds l ! x)) l P (W - {x});
          chase lst w l' P' W' }
        else None)"

declare chase.simps [code] root_loop.simps [code]

fun merge_preds :: "nat \<Rightarrow> nat list \<Rightarrow> loops \<Rightarrow> loops option" where
  "merge_preds w [] l = Some l"
| "merge_preds w (x # xs) l = do {
     (r, u) \<leftarrow> uf_merge (uf l) x w;
     if r = w then merge_preds w xs (l\<lparr>header := (header l)[x := w], uf := u\<rparr>) else None }"

definition header_step :: "nat list \<Rightarrow> nat set list \<Rightarrow> nat \<Rightarrow> loops \<Rightarrow> loops option" where
  "header_step lst backPreds w l = do {
     (l1, P) \<leftarrow> back_preds w (sorted_list_of_set (backPreds ! w)) l {};
     (l2, P') \<leftarrow> chase lst w (if P \<noteq> {} then set_type w reducible l1 else l1) P P;
     merge_preds w (sorted_list_of_set P') l2 }"

fun header_loop :: "nat list \<Rightarrow> nat set list \<Rightarrow> nat list \<Rightarrow> loops \<Rightarrow> loops option" where
  "header_loop lst backPreds [] l = Some l"
| "header_loop lst backPreds (w # ws) l = do { l' \<leftarrow> header_step lst backPreds w l; header_loop lst backPreds ws l' }"

section \<open>Classes of the loop\<close>

abbreviation root_of :: "loops \<Rightarrow> nat \<Rightarrow> nat" where
  "root_of l \<equiv> rep (id_vec (uf l))"

definition uf_ok :: "nat \<Rightarrow> loops \<Rightarrow> bool" where
  "uf_ok n l \<longleftrightarrow> UnionFind.forest (id_vec (uf l)) \<and> length (id_vec (uf l)) = n"

lemma find_ok:
  assumes "uf_ok n l" "i < n"
  obtains u where "uf_find (uf l) i = Some (root_of l i, u)" "UnionFind.forest (id_vec u)" "length (id_vec u) = n"
    "\<And>x. x < n \<Longrightarrow> rep (id_vec u) x = root_of l x"
  using find_step [of "uf l" i] assms unfolding uf_ok_def by blast

lemma merge_ok:
  assumes "uf_ok n l" "p < n" "q < n"
  obtains u where "uf_merge (uf l) p q = Some (root_of l q, u)" "UnionFind.forest (id_vec u)" "length (id_vec u) = n"
    "\<And>x. x < n \<Longrightarrow> rep (id_vec u) x = (if root_of l x = root_of l p then root_of l q else root_of l x)"
  using merge_step [of "uf l" p q] assms unfolding uf_ok_def by blast

lemma rep_idem: "uf_ok n l \<Longrightarrow> i < n \<Longrightarrow> root_of l (root_of l i) = root_of l i \<and> root_of l i < n"
  unfolding uf_ok_def using forest_leads_rep leads_bounds leads_root rep_leads by metis

text \<open>A step that changes neither the classes nor the headers, and the types and sets only at \<open>w\<close>.\<close>

definition same_but :: "nat \<Rightarrow> nat \<Rightarrow> loops \<Rightarrow> loops \<Rightarrow> bool" where
  "same_but n w l l' \<longleftrightarrow> uf_ok n l' \<and> (\<forall>x<n. root_of l' x = root_of l x) \<and> header l' = header l \<and>
     length (ltype l') = length (ltype l) \<and> length (nonBackPreds l') = length (nonBackPreds l) \<and>
     (\<forall>x. x \<noteq> w \<longrightarrow> ltype l' ! x = ltype l ! x \<and> nonBackPreds l' ! x = nonBackPreds l ! x) \<and>
     nonBackPreds l ! w \<subseteq> nonBackPreds l' ! w"

lemma same_but_refl: "uf_ok n l \<Longrightarrow> same_but n w l l"
  by (simp add: same_but_def)

lemma same_but_trans: "same_but n w l l' \<Longrightarrow> same_but n w l' l'' \<Longrightarrow> same_but n w l l''"
  unfolding same_but_def by auto

lemma same_but_uf:
  "uf_ok n l \<Longrightarrow> UnionFind.forest (id_vec u) \<Longrightarrow> length (id_vec u) = n \<Longrightarrow> (\<And>x. x < n \<Longrightarrow> rep (id_vec u) x = root_of l x) \<Longrightarrow>
     same_but n w l (l\<lparr>uf := u\<rparr>)"
  by (simp add: same_but_def uf_ok_def)

lemma same_but_type: "uf_ok n l \<Longrightarrow> same_but n w l (set_type w t l)"
  by (simp add: same_but_def set_type_def uf_ok_def)

lemma same_but_pred:
  "uf_ok n l \<Longrightarrow> same_but n w l (l\<lparr>nonBackPreds := (nonBackPreds l)[w := insert y (nonBackPreds l ! w)]\<rparr>)"
  by (cases "w < length (nonBackPreds l)") (auto simp: same_but_def uf_ok_def not_less list_update_beyond)

lemma back_preds_ok:
  "uf_ok n l \<Longrightarrow> \<forall>v\<in>set vs. v < n \<Longrightarrow> w < length (ltype l) \<Longrightarrow>
    \<exists>l'. back_preds w vs l P = Some (l', P \<union> root_of l ` (set vs - {w})) \<and> same_but n w l l' \<and>
      nonBackPreds l' = nonBackPreds l \<and> ltype l' ! w = (if w \<in> set vs then self else ltype l ! w)"
proof (induction vs arbitrary: l P)
  case Nil
  then show ?case by (simp add: same_but_refl)
next
  case (Cons v vs)
  show ?case
  proof (cases "v = w")
    case True
    have sb: "same_but n w l (set_type w self l)" by (rule same_but_type [OF Cons.prems(1)])
    have "uf_ok n (set_type w self l)" "w < length (ltype (set_type w self l))"
      using sb Cons.prems(3) by (simp_all add: same_but_def)
    from Cons.IH [OF this(1) _ this(2), of P] obtain l' where l': "back_preds w vs (set_type w self l) P =
        Some (l', P \<union> root_of (set_type w self l) ` (set vs - {w}))" "same_but n w (set_type w self l) l'"
      "nonBackPreds l' = nonBackPreds (set_type w self l)"
      "ltype l' ! w = (if w \<in> set vs then self else ltype (set_type w self l) ! w)" using Cons.prems(2) by auto
    have "same_but n w l l'" by (rule same_but_trans [OF sb l'(2)])
    then show ?thesis using l' True Cons.prems(3) by (simp add: set_type_def)
  next
    case False
    obtain u where u: "uf_find (uf l) v = Some (root_of l v, u)" "UnionFind.forest (id_vec u)" "length (id_vec u) = n"
      "\<And>x. x < n \<Longrightarrow> rep (id_vec u) x = root_of l x" using find_ok [OF Cons.prems(1)] Cons.prems(2) by auto
    let ?l = "l\<lparr>uf := u\<rparr>"
    have sb: "same_but n w l ?l" by (rule same_but_uf [OF Cons.prems(1) u(2-4)])
    have "uf_ok n ?l" "w < length (ltype ?l)" using sb Cons.prems(3) by (simp_all add: same_but_def)
    from Cons.IH [OF this(1) _ this(2), of "insert (root_of l v) P"] obtain l' where l': "back_preds w vs ?l (insert (root_of l v) P) =
        Some (l', insert (root_of l v) P \<union> root_of ?l ` (set vs - {w}))" "same_but n w ?l l'"
      "nonBackPreds l' = nonBackPreds l" "ltype l' ! w = (if w \<in> set vs then self else ltype l ! w)"
      using Cons.prems(2) by auto
    have "root_of ?l ` (set vs - {w}) = root_of l ` (set vs - {w})" by (rule image_cong) (use u(4) Cons.prems(2) in auto)
    moreover have "same_but n w l l'" by (rule same_but_trans [OF sb l'(2)])
    moreover have "insert v (set vs) - {w} = insert v (set vs - {w})" using False by auto
    ultimately show ?thesis using l' u(1) False by simp
  qed
qed


definition near :: "nat list \<Rightarrow> nat \<Rightarrow> nat set \<Rightarrow> nat set" where
  "near lst w A = {y \<in> A. isAncestor lst w y \<and> y \<noteq> w}"

definition far :: "nat list \<Rightarrow> nat \<Rightarrow> nat set \<Rightarrow> nat set" where
  "far lst w A = {y \<in> A. \<not> isAncestor lst w y}"

lemma chase_preds_ok:
  "uf_ok n l \<Longrightarrow> \<forall>y\<in>set ys. y < n \<Longrightarrow> w < length (ltype l) \<Longrightarrow> w < length (nonBackPreds l) \<Longrightarrow>
    \<exists>l'. chase_preds lst w ys l P W =
        Some (l', P \<union> near lst w (root_of l ` set ys), W \<union> (near lst w (root_of l ` set ys) - P)) \<and> same_but n w l l' \<and>
      nonBackPreds l' ! w = nonBackPreds l ! w \<union> far lst w (root_of l ` set ys) \<and>
      (ltype l' ! w = ltype l ! w \<or> ltype l' ! w = irreducible)"
proof (induction ys arbitrary: l P W)
  case Nil
  then show ?case by (simp add: same_but_refl near_def far_def)
next
  case (Cons y ys)
  have yn: "y < n" "\<forall>y\<in>set ys. y < n" using Cons.prems(2) by auto
  obtain u where u: "uf_find (uf l) y = Some (root_of l y, u)" "UnionFind.forest (id_vec u)" "length (id_vec u) = n"
    "\<And>x. x < n \<Longrightarrow> rep (id_vec u) x = root_of l x" using find_ok [OF Cons.prems(1) yn(1)] by blast
  let ?l1 = "l\<lparr>uf := u\<rparr>" and ?yy = "root_of l y"
  define l2 where "l2 = (if isAncestor lst w ?yy then ?l1 else
    set_type w irreducible (?l1\<lparr>nonBackPreds := (nonBackPreds ?l1)[w := insert ?yy (nonBackPreds ?l1 ! w)]\<rparr>))"
  have s1: "same_but n w l ?l1" by (rule same_but_uf [OF Cons.prems(1) u(2-4)])
  then have o1: "uf_ok n ?l1" by (simp add: same_but_def)
  have s2: "same_but n w l l2"
  proof (cases "isAncestor lst w ?yy")
    case False
    note sp = same_but_pred [OF o1, of w ?yy]
    then have "uf_ok n (?l1\<lparr>nonBackPreds := (nonBackPreds ?l1)[w := insert ?yy (nonBackPreds ?l1 ! w)]\<rparr>)"
      by (simp add: same_but_def)
    from same_but_trans [OF same_but_trans [OF s1 sp] same_but_type [OF this, of w irreducible]]
    show ?thesis using False by (simp add: l2_def)
  qed (use s1 in \<open>simp add: l2_def\<close>)
  then have o2: "uf_ok n l2" "w < length (ltype l2)" "w < length (nonBackPreds l2)"
    using Cons.prems(3,4) by (simp_all add: same_but_def)
  have R2: "root_of l2 ` set ys = root_of l ` set ys" by (rule image_cong) (use s2 yn(2) in \<open>auto simp: same_but_def\<close>)
  have t2: "ltype l2 ! w = ltype l ! w \<or> ltype l2 ! w = irreducible" using Cons.prems(3) by (simp add: l2_def set_type_def)
  have n2: "nonBackPreds l2 ! w = nonBackPreds l ! w \<union> far lst w {?yy}"
    using Cons.prems(4) by (auto simp: l2_def set_type_def far_def)
  note IH = Cons.IH [OF o2(1) yn(2) o2(2,3), unfolded R2]
  have fin: "?case" if step: "chase_preds lst w (y # ys) l P W = chase_preds lst w ys l2 (P \<union> near lst w {?yy}) (W \<union> (near lst w {?yy} - P))"
  proof -
    from IH [of "P \<union> near lst w {?yy}" "W \<union> (near lst w {?yy} - P)"] obtain l' where
      l': "chase_preds lst w (y # ys) l P W = Some (l', P \<union> near lst w {?yy} \<union> near lst w (root_of l ` set ys),
          W \<union> (near lst w {?yy} - P) \<union> (near lst w (root_of l ` set ys) - (P \<union> near lst w {?yy})))"
        "same_but n w l2 l'" "nonBackPreds l' ! w = nonBackPreds l2 ! w \<union> far lst w (root_of l ` set ys)"
        "ltype l' ! w = ltype l2 ! w \<or> ltype l' ! w = irreducible" unfolding step by blast
    have e: "P \<union> near lst w {?yy} \<union> near lst w (root_of l ` set ys) = P \<union> near lst w (root_of l ` set (y # ys))"
      "W \<union> (near lst w {?yy} - P) \<union> (near lst w (root_of l ` set ys) - (P \<union> near lst w {?yy})) =
        W \<union> (near lst w (root_of l ` set (y # ys)) - P)" by (auto simp: near_def)
    have f: "nonBackPreds l' ! w = nonBackPreds l ! w \<union> far lst w (root_of l ` set (y # ys))"
      unfolding l'(3) n2 by (auto simp: far_def)
    show ?thesis using l'(1) [unfolded e] same_but_trans [OF s2 l'(2)] f l'(4) t2 by auto
  qed
  show ?case
  proof (rule fin, cases "isAncestor lst w ?yy")
    case False
    then have "near lst w {?yy} = {}" by (auto simp: near_def)
    then show "chase_preds lst w (y # ys) l P W = chase_preds lst w ys l2 (P \<union> near lst w {?yy}) (W \<union> (near lst w {?yy} - P))"
      using u(1) False by (simp add: l2_def)
  next
    case True
    show "chase_preds lst w (y # ys) l P W = chase_preds lst w ys l2 (P \<union> near lst w {?yy}) (W \<union> (near lst w {?yy} - P))"
    proof (cases "?yy \<noteq> w \<and> ?yy \<notin> P")
      case t: True
      then have "near lst w {?yy} = {?yy}" "near lst w {?yy} - P = {?yy}" using True by (auto simp: near_def)
      then show ?thesis using u(1) True t by (simp add: l2_def)
    next
      case f: False
      then have "P \<union> near lst w {?yy} = P" "W \<union> (near lst w {?yy} - P) = W" by (auto simp: near_def)
      then show ?thesis using u(1) True f by (auto simp: l2_def)
    qed
  qed
qed


lemma merge_preds_ok:
  "uf_ok n l \<Longrightarrow> distinct xs \<Longrightarrow> \<forall>x\<in>set xs. x < n \<and> x \<noteq> w \<and> root_of l x = x \<Longrightarrow> w < n \<Longrightarrow> root_of l w = w \<Longrightarrow>
    \<exists>l'. merge_preds w xs l = Some l' \<and> uf_ok n l' \<and> (\<forall>y<n. root_of l' y = (if root_of l y \<in> set xs then w else root_of l y)) \<and>
      length (header l') = length (header l) \<and>
      (\<forall>i<length (header l). header l' ! i = (if i \<in> set xs then w else header l ! i)) \<and>
      ltype l' = ltype l \<and> nonBackPreds l' = nonBackPreds l"
proof (induction xs arbitrary: l)
  case (Cons x xs)
  have x: "x < n" "x \<noteq> w" "root_of l x = x" "x \<notin> set xs" using Cons.prems by auto
  obtain u where u: "uf_merge (uf l) x w = Some (w, u)" "UnionFind.forest (id_vec u)" "length (id_vec u) = n"
    "\<And>y. y < n \<Longrightarrow> rep (id_vec u) y = (if root_of l y = x then w else root_of l y)"
    using merge_ok [OF Cons.prems(1) x(1) Cons.prems(4)] x(3) Cons.prems(5) by metis
  let ?l = "l\<lparr>header := (header l)[x := w], uf := u\<rparr>"
  have ok: "uf_ok n ?l" using u by (simp add: uf_ok_def)
  have roots: "\<forall>y\<in>set xs. y < n \<and> y \<noteq> w \<and> root_of ?l y = y" using Cons.prems(3) x(4) u(4) by auto
  have "root_of ?l w = w" using u(4) [OF Cons.prems(4)] Cons.prems(5) x(2) by simp
  from Cons.IH [OF ok _ roots Cons.prems(4) this] Cons.prems(2)
  obtain l' where l': "merge_preds w xs ?l = Some l'" "uf_ok n l'"
    "\<forall>y<n. root_of l' y = (if root_of ?l y \<in> set xs then w else root_of ?l y)" "length (header l') = length (header ?l)"
    "\<forall>i<length (header ?l). header l' ! i = (if i \<in> set xs then w else header ?l ! i)"
    "ltype l' = ltype ?l" "nonBackPreds l' = nonBackPreds ?l" by auto
  have "merge_preds w (x # xs) l = Some l'" using u(1) l'(1) by simp
  moreover have "root_of l' y = (if root_of l y \<in> set (x # xs) then w else root_of l y)" if "y < n" for y
    using l'(3) that u(4) [OF that] roots by auto
  moreover have "header l' ! i = (if i \<in> set (x # xs) then w else header l ! i)" if "i < length (header l)" for i
    using l'(5) that by (cases "i = x") auto
  ultimately show ?case using l'(2,4,6,7) by auto
qed simp

end
