(* ===== verification/LoopHeaders.thy ===== *)
theory LoopHeaders
  imports LoopNest
begin

text \<open>
  What the Tarjan-Havlak loop keeps. The spanning tree it relies on is a locale; the invariant says
  which classes have been merged, that every edge is inside a class, recorded at the class it enters,
  or a back edge still to come, and that the headers found so far are right.
\<close>

section \<open>The spanning tree, and what the loop keeps\<close>

text \<open>
  The edges between numbers, the intervals and the count of the numbers in use: a number reaches
  everything in its interval, and no edge enters number zero.
\<close>

locale numbered_flow =
  fixes e :: "(nat \<times> nat) set" and lst :: "nat list" and m n :: nat
  assumes edge: "(v, w) \<in> e \<Longrightarrow> v < m \<and> 0 < w \<and> w < m"
    and used: "m \<le> n"
    and ancestor: "w < m \<Longrightarrow> isAncestor lst w v \<Longrightarrow> v < m \<and> (w, v) \<in> e\<^sup>*"
begin

definition linked :: "nat \<Rightarrow> nat \<Rightarrow> bool" where
  "linked x y \<longleftrightarrow> (x, y) \<in> e\<^sup>* \<and> (y, x) \<in> e\<^sup>*"

definition hdr :: "loops \<Rightarrow> (nat \<times> nat) set" where
  "hdr l = {(x, header l ! x) | x. x < n \<and> header l ! x \<noteq> 0}"

definition body :: "nat \<Rightarrow> nat set" where
  "body w = {b. \<exists>v. (v, w) \<in> e \<and> isAncestor lst w v \<and> (b, v) \<in> {(y, x) \<in> e. isAncestor lst w y \<and> x \<noteq> w}\<^sup>*}"

definition shape :: "loops \<Rightarrow> bool" where
  "shape l \<longleftrightarrow> uf_ok n l \<and> length (header l) = n \<and> length (ltype l) = n \<and> length (nonBackPreds l) = n"

definition preds_ok :: "loops \<Rightarrow> bool" where
  "preds_ok l \<longleftrightarrow> (\<forall>x<n. \<forall>z \<in> nonBackPreds l ! x. z < m \<and> x < m \<and> (z, x) \<in> e\<^sup>*)"

definition classes_ok :: "nat \<Rightarrow> loops \<Rightarrow> bool" where
  "classes_ok k l \<longleftrightarrow> (\<forall>y<n. root_of l y \<le> y \<and> (root_of l y \<noteq> y \<longrightarrow> k \<le> root_of l y)) \<and> (\<forall>y<m. linked y (root_of l y)) \<and>
     (\<forall>y<n. (y, root_of l y) \<in> (hdr l)\<^sup>* \<and> (root_of l y = y \<longrightarrow> header l ! y = 0))"

definition edges_ok :: "nat \<Rightarrow> loops \<Rightarrow> bool" where
  "edges_ok k l \<longleftrightarrow> (\<forall>(y, x) \<in> e. root_of l y = root_of l x \<or>
     (\<exists>z \<in> nonBackPreds l ! root_of l x. root_of l z = root_of l y \<and> (x \<noteq> root_of l x \<longrightarrow> \<not> isAncestor lst (root_of l x) (root_of l z))) \<or>
     (x < k \<and> isAncestor lst x y))"

definition headers_ok :: "nat \<Rightarrow> loops \<Rightarrow> bool" where
  "headers_ok k l \<longleftrightarrow> (\<forall>x<n. header l ! x \<noteq> 0 \<longrightarrow> k \<le> header l ! x \<and> header l ! x < x \<and> x < m \<and> linked x (header l ! x)) \<and>
     (\<forall>w<n. ltype l ! w \<noteq> nonheader \<longrightarrow> (w, w) \<in> e\<^sup>+) \<and>
     (\<forall>w<n. k \<le> w \<longrightarrow> (\<exists>v. (v, w) \<in> e \<and> isAncestor lst w v) \<longrightarrow> ltype l ! w \<noteq> nonheader) \<and>
     (\<forall>w<n. k \<le> w \<longrightarrow> (\<forall>b \<in> body w. (b, w) \<in> (hdr l)\<^sup>*))"

definition loop_inv :: "nat \<Rightarrow> loops \<Rightarrow> bool" where
  "loop_inv k l \<longleftrightarrow> shape l \<and> preds_ok l \<and> classes_ok k l \<and> edges_ok k l \<and> headers_ok k l"

text \<open>What the collection of one number keeps.\<close>

definition collecting :: "nat \<Rightarrow> loops \<Rightarrow> nat set \<Rightarrow> nat set \<Rightarrow> bool" where
  "collecting w l P W \<longleftrightarrow> shape l \<and> preds_ok l \<and> W \<subseteq> P \<and> w < m \<and>
     (\<forall>x\<in>P. x < m \<and> w \<noteq> x \<and> isAncestor lst w x \<and> root_of l x = x \<and> (x, w) \<in> e\<^sup>*) \<and> (\<forall>y<m. linked y (root_of l y)) \<and>
     (\<forall>x\<in>P - W. \<forall>z \<in> nonBackPreds l ! x. root_of l z \<in> insert w P \<or> \<not> isAncestor lst w (root_of l z) \<and> root_of l z \<in> nonBackPreds l ! w)"

lemma linked_trans: "linked x y \<Longrightarrow> linked y z \<Longrightarrow> linked x z"
  by (auto simp: linked_def)

lemma chase_preds_keeps:
  assumes c: "collecting w l P W" and x: "x \<in> W"
  defines "A \<equiv> root_of l ` (nonBackPreds l ! x)"
  shows "\<exists>l'. chase_preds lst w (sorted_list_of_set (nonBackPreds l ! x)) l P (W - {x}) =
      Some (l', P \<union> near lst w A, (W - {x}) \<union> (near lst w A - P)) \<and> same_but n w l l' \<and>
    (ltype l' ! w = ltype l ! w \<or> ltype l' ! w = irreducible) \<and>
    collecting w l' (P \<union> near lst w A) ((W - {x}) \<union> (near lst w A - P))"
proof -
  have sh: "uf_ok n l" "length (header l) = n" "length (ltype l) = n" "length (nonBackPreds l) = n"
    using c by (simp_all add: collecting_def shape_def)
  have wm: "w < m" "w < n" using c used by (auto simp: collecting_def)
  have Pd: "x < m" "w \<noteq> x" "isAncestor lst w x" "root_of l x = x" "(x, w) \<in> e\<^sup>*" if "x \<in> P" for x
    using c that by (auto simp: collecting_def)
  have xP: "x \<in> P" "x < n" using c x Pd(1) used by (auto simp: collecting_def intro: less_le_trans)
  have zs: "z < m" "(z, x) \<in> e\<^sup>*" if "z \<in> nonBackPreds l ! x" for z
    using c xP that by (auto simp: collecting_def preds_ok_def)
  then have fin: "finite (nonBackPreds l ! x)" by (meson finite_nat_set_iff_bounded)
  have bd: "\<forall>y\<in>set (sorted_list_of_set (nonBackPreds l ! x)). y < n" using fin zs(1) used by (auto intro: less_le_trans)
  from chase_preds_ok [OF sh(1) bd, of w lst P "W - {x}"] wm sh
  obtain l' where l': "chase_preds lst w (sorted_list_of_set (nonBackPreds l ! x)) l P (W - {x}) =
      Some (l', P \<union> near lst w A, (W - {x}) \<union> (near lst w A - P))" "same_but n w l l'"
    "nonBackPreds l' ! w = nonBackPreds l ! w \<union> far lst w A" "ltype l' ! w = ltype l ! w \<or> ltype l' ! w = irreducible"
    using fin by (auto simp: A_def)
  have sb: "uf_ok n l'" "\<And>x. x < n \<Longrightarrow> root_of l' x = root_of l x" "header l' = header l" "length (ltype l') = n" "length (nonBackPreds l') = n"
    "\<And>x. x \<noteq> w \<Longrightarrow> nonBackPreds l' ! x = nonBackPreds l ! x" using l'(2) sh by (simp_all add: same_but_def)
  have Rm: "root_of l' y = root_of l y" if "y < m" for y by (rule sb(2)) (use that used in simp)
  have mutual: "linked y (root_of l y)" if "y < m" for y using c that by (simp add: collecting_def)
  have An: "a < m \<and> root_of l a = a \<and> (a, w) \<in> e\<^sup>*" if a: "a \<in> A" for a
  proof -
    obtain z where z: "z \<in> nonBackPreds l ! x" "a = root_of l z" using a by (auto simp: A_def)
    have "(z, w) \<in> e\<^sup>*" using zs(2) [OF z(1)] Pd(5) [OF xP(1)] by (rule rtrancl_trans)
    moreover have "(a, z) \<in> e\<^sup>*" using mutual [OF zs(1) [OF z(1)]] z(2) by (simp add: linked_def)
    moreover have "a < m"
    proof (cases "a = z")
      case False
      then have "(a, z) \<in> e\<^sup>+" using \<open>(a, z) \<in> e\<^sup>*\<close> by (simp add: rtrancl_eq_or_trancl)
      then show ?thesis using edge by (auto elim: converse_tranclE)
    qed (use zs(1) z(1) in simp)
    ultimately show ?thesis using rep_idem [OF sh(1), of z] zs(1) [OF z(1)] used z(2) by (auto intro: rtrancl_trans)
  qed
  have N': "nonBackPreds l' ! y \<subseteq> nonBackPreds l ! y \<union> (if y = w then far lst w A else {})" for y
    using l'(3) sb(6) [of y] by auto
  have "preds_ok l'" unfolding preds_ok_def
  proof (intro allI impI ballI)
    fix y z assume y: "y < n" "z \<in> nonBackPreds l' ! y"
    show "z < m \<and> y < m \<and> (z, y) \<in> e\<^sup>*"
    proof (cases "z \<in> nonBackPreds l ! y")
      case True
      then show ?thesis using c y(1) by (auto simp: collecting_def preds_ok_def)
    next
      case False
      then have "y = w" "z \<in> A" using N' [of y] y(2) by (auto simp: far_def split: if_splits)
      then show ?thesis using An wm(1) by blast
    qed
  qed
  moreover have "\<forall>y\<in>P \<union> near lst w A. y < m \<and> w \<noteq> y \<and> isAncestor lst w y \<and> root_of l' y = y \<and> (y, w) \<in> e\<^sup>*"
    using Pd An Rm by (auto simp: near_def)
  moreover have "\<forall>y<m. linked y (root_of l' y)" using mutual Rm by simp
  moreover have "root_of l' z \<in> insert w (P \<union> near lst w A) \<or> \<not> isAncestor lst w (root_of l' z) \<and> root_of l' z \<in> nonBackPreds l' ! w"
    if y: "y \<in> P \<union> near lst w A" "y \<notin> (W - {x}) \<union> (near lst w A - P)" "z \<in> nonBackPreds l' ! y" for y z
  proof -
    have yP: "y \<in> P" "y = x \<or> y \<notin> W" using y(1,2) by auto
    then have zN: "z \<in> nonBackPreds l ! y" using y(3) sb(6) [of y] Pd(2) [of y] by auto
    then have "z < n" using c yP(1) Pd(1) used unfolding collecting_def preds_ok_def by (meson less_le_trans)
    then have Rz: "root_of l' z = root_of l z" by (rule sb(2))
    show ?thesis
    proof (cases "y = x")
      case True
      then have "root_of l z \<in> A" using zN by (simp add: A_def)
      then show ?thesis using Rz l'(3) by (auto simp: near_def far_def)
    next
      case False
      then have "y \<in> P - W" using yP by auto
      then have "root_of l z \<in> insert w P \<or> \<not> isAncestor lst w (root_of l z) \<and> root_of l z \<in> nonBackPreds l ! w"
        using c zN unfolding collecting_def by blast
      then show ?thesis using Rz l'(3) by auto
    qed
  qed
  ultimately have "collecting w l' (P \<union> near lst w A) ((W - {x}) \<union> (near lst w A - P))"
    using c sb sh(2) wm unfolding collecting_def shape_def by auto
  then show ?thesis using l' by blast
qed

lemma chase_total:
  "collecting w l P W \<Longrightarrow> \<exists>l' P'. chase lst w l P W = Some (l', P') \<and> P \<subseteq> P' \<and> collecting w l' P' {} \<and>
     same_but n w l l' \<and> (ltype l' ! w = ltype l ! w \<or> ltype l' ! w = irreducible)"
proof (induction "2 * card ({..<m} - P) + card W" arbitrary: l P W rule: less_induct)
  case less
  note c = less.prems
  have ok: "uf_ok n l" and PW: "W \<subseteq> P" "P \<subseteq> {..<m}" using c by (auto simp: collecting_def shape_def)
  have "finite P" using PW(2) by (rule finite_subset) simp
  with PW(1) have fin: "finite W" by (rule finite_subset)
  show ?case
  proof (cases "W = {}")
    case True
    then show ?thesis using c by (subst chase.simps) (simp add: same_but_refl [OF ok])
  next
    case False
    let ?x = "Min W"
    let ?A = "root_of l ` (nonBackPreds l ! ?x)"
    let ?P = "P \<union> near lst w ?A" and ?W = "(W - {?x}) \<union> (near lst w ?A - P)"
    have x: "?x \<in> W" using False fin by simp
    have xl: "?x < length (nonBackPreds l)" using x PW used c by (auto simp: collecting_def shape_def)
    from chase_preds_keeps [OF c x] obtain l1 where l1:
      "chase_preds lst w (sorted_list_of_set (nonBackPreds l ! ?x)) l P (W - {?x}) = Some (l1, ?P, ?W)" "same_but n w l l1"
      "ltype l1 ! w = ltype l ! w \<or> ltype l1 ! w = irreducible" "collecting w l1 ?P ?W" by blast
    let ?D = "near lst w ?A - P"
    have P1: "?P \<subseteq> {..<m}" using l1(4) by (auto simp: collecting_def)
    then have D: "?D \<subseteq> {..<m} - P" by auto
    have "{..<m} - ?P = ({..<m} - P) - ?D" by auto
    then have c1: "card ({..<m} - ?P) + card ?D = card ({..<m} - P)"
      using card_Diff_subset [OF finite_subset [OF D] D] card_mono [OF _ D] by simp
    have "card ?W \<le> card (W - {?x}) + card ?D" by (rule card_Un_le)
    moreover have "card (W - {?x}) < card W" using fin x by (rule card_Diff1_less)
    ultimately have "2 * card ({..<m} - ?P) + card ?W < 2 * card ({..<m} - P) + card W" using c1 by linarith
    from less.hyps [OF this l1(4)] obtain l' P' where l': "chase lst w l1 ?P ?W = Some (l', P')" "?P \<subseteq> P'"
      "collecting w l' P' {}" "same_but n w l1 l'" "ltype l' ! w = ltype l1 ! w \<or> ltype l' ! w = irreducible" by blast
    have "chase lst w l P W = Some (l', P')" using l1(1) l'(1) False xl by (subst chase.simps) (simp add: Let_def)
    then show ?thesis using l' l1(3) same_but_trans [OF l1(2) l'(4)] by auto
  qed
qed

text \<open>The outcome of one number: the classes of \<open>P\<close> are merged into \<open>w\<close>.\<close>

definition merged :: "nat \<Rightarrow> loops \<Rightarrow> loops \<Rightarrow> nat set \<Rightarrow> bool" where
  "merged w l l' P \<longleftrightarrow> shape l' \<and> preds_ok l' \<and> 0 < w \<and> w < m \<and> (\<forall>y<n. root_of l' y = (if root_of l y \<in> P then w else root_of l y)) \<and>
     (\<forall>i<n. header l' ! i = (if i \<in> P then w else header l ! i)) \<and>
     (\<forall>x. x \<noteq> w \<longrightarrow> ltype l' ! x = ltype l ! x \<and> nonBackPreds l' ! x = nonBackPreds l ! x) \<and>
     nonBackPreds l ! w \<subseteq> nonBackPreds l' ! w \<and> ltype l' ! w \<noteq> nonheader \<and>
     (\<forall>x\<in>P. x < m \<and> w < x \<and> isAncestor lst w x \<and> root_of l x = x \<and> linked x w) \<and>
     (\<forall>v. (v, w) \<in> e \<longrightarrow> isAncestor lst w v \<longrightarrow> v \<noteq> w \<longrightarrow> root_of l v \<in> P) \<and>
     (\<forall>x\<in>P. \<forall>z \<in> nonBackPreds l ! x. root_of l z \<in> insert w P \<or> \<not> isAncestor lst w (root_of l z) \<and> root_of l z \<in> nonBackPreds l' ! w)"

lemma collecting_start:
  assumes inv: "loop_inv (Suc w) l" and w: "w < m" and sb: "same_but n w l l1" and nb: "nonBackPreds l1 = nonBackPreds l"
  shows "collecting w l1 (root_of l ` ({v. (v, w) \<in> e \<and> isAncestor lst w v} - {w})) (root_of l ` ({v. (v, w) \<in> e \<and> isAncestor lst w v} - {w}))"
proof -
  have l: "shape l" "preds_ok l" "\<And>y. y < n \<Longrightarrow> root_of l y \<le> y \<and> (root_of l y \<noteq> y \<longrightarrow> Suc w \<le> root_of l y)" "\<And>y. y < m \<Longrightarrow> linked y (root_of l y)"
    using inv by (auto simp: loop_inv_def classes_ok_def)
  have Rm: "root_of l1 y = root_of l y" if "y < m" for y using sb that used by (simp add: same_but_def)
  have "root_of l v < m \<and> w \<noteq> root_of l v \<and> isAncestor lst w (root_of l v) \<and> root_of l1 (root_of l v) = root_of l v \<and> (root_of l v, w) \<in> e\<^sup>*"
    if v: "(v, w) \<in> e" "isAncestor lst w v" "v \<noteq> w" for v
  proof -
    have vm: "v < m" "v < n" using edge [OF v(1)] used by auto
    have b: "root_of l v \<le> v" "root_of l v \<noteq> v \<longrightarrow> Suc w \<le> root_of l v" using l(3) [OF vm(2)] by auto
    have wv: "w \<le> v" "v \<le> lst ! w" using v(2) by (auto simp: isAncestor_def)
    have "w < root_of l v" using b(2) wv(1) v(3) by (cases "root_of l v = v") auto
    moreover have "(root_of l v, w) \<in> e\<^sup>*" using l(4) [OF vm(1)] v(1) by (auto simp: linked_def)
    moreover have "root_of l (root_of l v) = root_of l v" using rep_idem [OF _ vm(2), of l] l(1) by (simp add: shape_def)
    ultimately show ?thesis using b(1) wv vm Rm [of "root_of l v"] by (auto simp: isAncestor_def)
  qed
  moreover have "shape l1" using l(1) sb by (simp add: shape_def same_but_def)
  moreover have "preds_ok l1" using l(2) nb by (simp add: preds_ok_def)
  moreover have "\<forall>y<m. linked y (root_of l1 y)" using l(4) Rm by simp
  ultimately show ?thesis unfolding collecting_def using w by auto
qed

lemma header_step_merges:
  assumes inv: "loop_inv (Suc w) l" and w: "w < n" and bk: "backPreds ! w = {v. (v, w) \<in> e \<and> isAncestor lst w v}"
    and some: "(v0, w) \<in> e" "isAncestor lst w v0"
  shows "\<exists>l' P. header_step lst backPreds w l = Some l' \<and> merged w l l' P"
proof -
  have wm: "0 < w" "w < m" using edge [OF some(1)] by auto
  have sh: "uf_ok n l" "length (header l) = n" "length (ltype l) = n" "length (nonBackPreds l) = n"
    using inv by (simp_all add: loop_inv_def shape_def)
  let ?B = "backPreds ! w" and ?P = "root_of l ` (backPreds ! w - {w})"
  have "?B \<subseteq> {..<m}" unfolding bk using edge by auto
  then have Bf: "finite ?B" by (rule finite_subset) simp
  have Bn: "\<forall>v\<in>set (sorted_list_of_set ?B). v < n" using Bf edge used unfolding bk by fastforce
  from back_preds_ok [OF sh(1) Bn, of w "{}"] obtain l1 where l1: "back_preds w (sorted_list_of_set ?B) l {} = Some (l1, ?P)"
    "same_but n w l l1" "nonBackPreds l1 = nonBackPreds l" "ltype l1 ! w = (if w \<in> ?B then self else ltype l ! w)"
    using Bf w sh(3) by auto
  define l1' where "l1' = (if ?P \<noteq> {} then set_type w reducible l1 else l1)"
  have ok1: "uf_ok n l1" "length (ltype l1) = n" using l1(2) sh(3) by (simp_all add: same_but_def)
  have sb1: "same_but n w l l1'" unfolding l1'_def using l1(2) same_but_trans [OF l1(2) same_but_type [OF ok1(1)]] by simp
  have nb1: "nonBackPreds l1' = nonBackPreds l" using l1(3) by (simp add: l1'_def set_type_def)
  have t1: "ltype l1' ! w \<noteq> nonheader"
  proof (cases "?P = {}")
    case True
    then have "w \<in> ?B" using some unfolding bk by auto
    then show ?thesis using True l1(4) by (simp add: l1'_def)
  qed (use ok1(2) w in \<open>simp add: l1'_def set_type_def\<close>)
  have "collecting w l1' ?P ?P" using collecting_start [OF inv wm(2) sb1 nb1] unfolding bk .
  from chase_total [OF this] obtain l2 P where l2: "chase lst w l1' ?P ?P = Some (l2, P)" "?P \<subseteq> P" "collecting w l2 P {}"
    "same_but n w l1' l2" "ltype l2 ! w = ltype l1' ! w \<or> ltype l2 ! w = irreducible" by blast
  have sb2: "same_but n w l l2" by (rule same_but_trans [OF sb1 l2(4)])
  have c2: "shape l2" "preds_ok l2" "\<And>x. x \<in> P \<Longrightarrow> x < m \<and> w \<noteq> x \<and> isAncestor lst w x \<and> root_of l2 x = x \<and> (x, w) \<in> e\<^sup>*"
    "\<And>x z. x \<in> P \<Longrightarrow> z \<in> nonBackPreds l2 ! x \<Longrightarrow> root_of l2 z \<in> insert w P \<or> \<not> isAncestor lst w (root_of l2 z) \<and> root_of l2 z \<in> nonBackPreds l2 ! w"
    using l2(3) by (simp_all add: collecting_def)
  have R2: "root_of l2 y = root_of l y" if "y < n" for y using sb2 that by (simp add: same_but_def)
  have "P \<subseteq> {..<m}" using c2(3) by auto
  then have Pf: "finite P" by (rule finite_subset) simp
  have "root_of l w = w"
  proof (rule ccontr)
    assume "root_of l w \<noteq> w"
    then have "Suc w \<le> root_of l w" "root_of l w \<le> w" using inv w by (auto simp: loop_inv_def classes_ok_def)
    then show False by simp
  qed
  then have Rw: "root_of l2 w = w" using R2 w by simp
  have Pn: "\<forall>x\<in>set (sorted_list_of_set P). x < n \<and> x \<noteq> w \<and> root_of l2 x = x" using c2(3) Pf used by fastforce
  have ok2: "uf_ok n l2" "length (header l2) = n" using c2(1) by (simp_all add: shape_def)
  from merge_preds_ok [OF ok2(1) _ Pn w Rw] obtain l' where l': "merge_preds w (sorted_list_of_set P) l2 = Some l'"
    "uf_ok n l'" "\<forall>y<n. root_of l' y = (if root_of l2 y \<in> P then w else root_of l2 y)" "length (header l') = n"
    "\<forall>i<n. header l' ! i = (if i \<in> P then w else header l2 ! i)" "ltype l' = ltype l2" "nonBackPreds l' = nonBackPreds l2"
    using Pf ok2(2) by auto
  have "header_step lst backPreds w l = Some l'"
    using l1(1) l2(1) l'(1) by (simp add: header_step_def l1'_def)
  moreover have "merged w l l' P"
  proof -
    have a: "shape l'" "preds_ok l'" using c2(1,2) l' by (simp_all add: shape_def preds_ok_def)
    have b: "x < m \<and> w < x \<and> isAncestor lst w x \<and> root_of l x = x \<and> linked x w" if x: "x \<in> P" for x
    proof -
      have x2: "x < m" "w \<noteq> x" "isAncestor lst w x" "root_of l2 x = x" "(x, w) \<in> e\<^sup>*" using c2(3) [OF x] by auto
      have "w < x" using x2(2,3) by (simp add: isAncestor_def)
      moreover have "linked x w" using x2(5) ancestor [OF wm(2) x2(3)] by (simp add: linked_def)
      ultimately show ?thesis using x2 R2 [of x] used by simp
    qed
    have z: "root_of l z \<in> insert w P \<or> \<not> isAncestor lst w (root_of l z) \<and> root_of l z \<in> nonBackPreds l' ! w"
      if x: "x \<in> P" "z \<in> nonBackPreds l ! x" for x z
    proof -
      have xn: "x < n" "x \<noteq> w" using b [OF x(1)] used by auto
      then have z2: "z \<in> nonBackPreds l2 ! x" using sb2 x(2) by (simp add: same_but_def)
      then have "z < n" using c2(2) xn(1) used unfolding preds_ok_def by (meson less_le_trans)
      then show ?thesis using c2(4) [OF x(1) z2] R2 l'(7) by simp
    qed
    have bk2: "root_of l v \<in> P" if "(v, w) \<in> e" "isAncestor lst w v" "v \<noteq> w" for v using that l2(2) unfolding bk by blast
    have same: "\<And>x. x \<noteq> w \<Longrightarrow> ltype l' ! x = ltype l ! x \<and> nonBackPreds l' ! x = nonBackPreds l ! x"
      "nonBackPreds l ! w \<subseteq> nonBackPreds l' ! w" "header l2 = header l" using sb2 l'(6,7) by (simp_all add: same_but_def)
    have "ltype l' ! w \<noteq> nonheader" using l2(5) t1 l'(6) by auto
    moreover have "\<forall>y<n. root_of l' y = (if root_of l y \<in> P then w else root_of l y)" using l'(3) R2 by simp
    ultimately show ?thesis unfolding merged_def using a wm l'(5) same b z bk2 by simp
  qed
  ultimately show ?thesis by blast
qed

lemma classesD:
  assumes "classes_ok k l" "y < n"
  shows "root_of l y \<le> y" "root_of l y \<noteq> y \<Longrightarrow> k \<le> root_of l y" "(y, root_of l y) \<in> (hdr l)\<^sup>*" "root_of l y = y \<Longrightarrow> header l ! y = 0"
    "y < m \<Longrightarrow> linked y (root_of l y)"
  using assms by (auto simp: classes_ok_def)

lemma root_below: "classes_ok (Suc w) l \<Longrightarrow> w < n \<Longrightarrow> root_of l w = w"
  using classesD(1,2) by (metis Suc_n_not_le_n order_trans)

lemma mergedD:
  assumes "merged w l l' P"
  shows "0 < w" "w < m" "w < n" "y < n \<Longrightarrow> root_of l' y = (if root_of l y \<in> P then w else root_of l y)"
    "i < n \<Longrightarrow> header l' ! i = (if i \<in> P then w else header l ! i)"
    "x \<noteq> w \<Longrightarrow> ltype l' ! x = ltype l ! x" "x \<noteq> w \<Longrightarrow> nonBackPreds l' ! x = nonBackPreds l ! x"
    "nonBackPreds l ! w \<subseteq> nonBackPreds l' ! w" "ltype l' ! w \<noteq> nonheader"
    "x \<in> P \<Longrightarrow> x < m \<and> x < n \<and> w < x \<and> isAncestor lst w x \<and> root_of l x = x \<and> linked x w"
    "(v, w) \<in> e \<Longrightarrow> isAncestor lst w v \<Longrightarrow> v \<noteq> w \<Longrightarrow> root_of l v \<in> P"
    "x \<in> P \<Longrightarrow> z \<in> nonBackPreds l ! x \<Longrightarrow> root_of l z \<in> insert w P \<or> \<not> isAncestor lst w (root_of l z) \<and> root_of l z \<in> nonBackPreds l' ! w"
  using assms used unfolding merged_def by auto

lemma hdr_grows:
  assumes c: "classes_ok (Suc w) l" and mg: "merged w l l' P"
  shows "hdr l \<subseteq> hdr l'"
proof
  fix p assume "p \<in> hdr l"
  then obtain x where x: "p = (x, header l ! x)" "x < n" "header l ! x \<noteq> 0" by (auto simp: hdr_def)
  have "x \<notin> P" using mergedD(10) [OF mg, of x] classesD(4) [OF c x(2)] x(3) by blast
  then show "p \<in> hdr l'" using x mergedD(5) [OF mg x(2)] by (auto simp: hdr_def)
qed

lemma merged_classes:
  assumes c: "classes_ok (Suc w) l" and mg: "merged w l l' P"
  shows "classes_ok w l'"
proof -
  note M = mergedD [OF mg]
  have Rw: "root_of l w = w" by (rule root_below [OF c M(3)])
  have "root_of l' y \<le> y \<and> (root_of l' y \<noteq> y \<longrightarrow> w \<le> root_of l' y) \<and> (y, root_of l' y) \<in> (hdr l')\<^sup>* \<and>
      (root_of l' y = y \<longrightarrow> header l' ! y = 0) \<and> (y < m \<longrightarrow> linked y (root_of l' y))" if y: "y < n" for y
  proof (cases "root_of l y \<in> P")
    case True
    note yP = M(10) [OF True]
    have R': "root_of l' y = w" using M(4) [OF y] True by simp
    have "(root_of l y, w) \<in> hdr l'" using M(5) [of "root_of l y"] yP True M(1) by (auto simp: hdr_def)
    moreover have "(y, root_of l y) \<in> (hdr l')\<^sup>*" using rtrancl_mono [OF hdr_grows [OF c mg]] classesD(3) [OF c y] by blast
    ultimately have "(y, w) \<in> (hdr l')\<^sup>*" by simp
    moreover have "w < y" using yP classesD(1) [OF c y] by simp
    moreover have "linked y w" if "y < m" using classesD(5) [OF c y that] yP linked_trans by blast
    ultimately show ?thesis unfolding R' by simp
  next
    case False
    have R': "root_of l' y = root_of l y" using M(4) [OF y] False by simp
    have "header l' ! y = 0" if "root_of l y = y" using M(5) [OF y] False that classesD(4) [OF c y that] by simp
    then show ?thesis unfolding R' using rtrancl_mono [OF hdr_grows [OF c mg]] classesD [OF c y] by fastforce
  qed
  then show ?thesis using used by (auto simp: classes_ok_def)
qed

lemma merged_edges:
  assumes c: "classes_ok (Suc w) l" and ed: "edges_ok (Suc w) l" and pk: "preds_ok l" and ok: "uf_ok n l" and mg: "merged w l l' P"
  shows "edges_ok w l'"
proof -
  note M = mergedD [OF mg]
  have Rw: "root_of l w = w" by (rule root_below [OF c M(3)])
  then have wP: "w \<notin> P" using M(10) [of w] by blast
  have "root_of l' y = root_of l' x \<or> (\<exists>z \<in> nonBackPreds l' ! root_of l' x. root_of l' z = root_of l' y \<and> (x \<noteq> root_of l' x \<longrightarrow> \<not> isAncestor lst (root_of l' x) (root_of l' z))) \<or>
     (x < w \<and> isAncestor lst x y)" (is ?goal) if yx: "(y, x) \<in> e" for y x
  proof -
    have n: "y < n" "x < n" using edge [OF yx] used by auto
    consider (same) "root_of l y = root_of l x"
      | (pred) z where "z \<in> nonBackPreds l ! root_of l x" "root_of l z = root_of l y" "x \<noteq> root_of l x \<longrightarrow> \<not> isAncestor lst (root_of l x) (root_of l z)"
      | (anc) "x < Suc w" "isAncestor lst x y" using ed yx unfolding edges_ok_def by blast
    then show ?goal
    proof cases
      case same
      then show ?thesis using M(4) n by simp
    next
      case pred
      have Rx: "root_of l x < n" using rep_idem [OF ok n(2)] by simp
      then have zn: "z < n" using pk pred(1) used unfolding preds_ok_def by (meson less_le_trans)
      show ?thesis
      proof (cases "root_of l x \<in> P")
        case True
        then have x': "root_of l' x = w" using M(4) n by simp
        from M(12) [OF True pred(1)] consider "root_of l y \<in> insert w P" | "\<not> isAncestor lst w (root_of l y)" "root_of l y \<in> nonBackPreds l' ! w"
          unfolding pred(2) by blast
        then show ?thesis
        proof cases
          case 1
          then show ?thesis using M(4) [OF n(1)] x' by auto
        next
          case 2
          then have yP: "root_of l y \<notin> P" using M(10) by blast
          have "root_of l' (root_of l y) = root_of l y" "root_of l' y = root_of l y" using rep_idem [OF ok n(1)] M(4) n yP by auto
          then show ?thesis using 2 x' by auto
        qed
      next
        case False
        then have x': "root_of l' x = root_of l x" using M(4) n by simp
        have z': "root_of l' z = root_of l' y" using M(4) zn n pred(2) by simp
        have "z \<in> nonBackPreds l' ! root_of l x" using pred(1) M(7,8) by (cases "root_of l x = w") auto
        moreover have "\<not> isAncestor lst (root_of l x) (root_of l' z)" if "x \<noteq> root_of l x"
          using pred(3) that classesD(2) [OF c n(2)] M(4) [OF zn] by (auto simp: isAncestor_def)
        ultimately show ?thesis using x' z' by auto
      qed
    next
      case anc
      show ?thesis
      proof (cases "x = w")
        case True
        then have "root_of l' x = w" using M(4) n Rw wP by simp
        moreover have "root_of l' y = w" using M(4) [OF n(1)] M(11) [of y] yx anc(2) True Rw wP by (cases "y = w") auto
        ultimately show ?thesis by simp
      qed (use anc in simp)
    qed
  qed
  then show ?thesis by (auto simp: edges_ok_def)
qed

lemma merged_body:
  assumes c: "classes_ok (Suc w) l" and ed: "edges_ok w l'" and mg: "merged w l l' P" and b: "b \<in> body w"
  shows "root_of l' b = w \<and> b < n"
proof -
  note M = mergedD [OF mg]
  note c' = merged_classes [OF c mg]
  have Rw: "root_of l w = w" by (rule root_below [OF c M(3)])
  then have wP: "w \<notin> P" using M(10) [of w] by blast
  from b obtain v where v: "(v, w) \<in> e" "isAncestor lst w v" "(b, v) \<in> {(y, x) \<in> e. isAncestor lst w y \<and> x \<noteq> w}\<^sup>*"
    by (auto simp: body_def)
  from v(3) show ?thesis
  proof (induction rule: converse_rtrancl_induct)
    case base
    have "v < n" using edge [OF v(1)] used by auto
    then show ?case using M(4) M(11) [OF v(1,2)] Rw wP by (cases "v = w") auto
  next
    case (step y x)
    have yx: "(y, x) \<in> e" "isAncestor lst w y" "x \<noteq> w" using step(1) by auto
    have n: "y < n" "x < n" using edge [OF yx(1)] used by auto
    have "isAncestor lst w (root_of l' y)"
      using classesD(1,2) [OF c' n(1)] yx(2) by (cases "root_of l' y = y") (auto simp: isAncestor_def)
    moreover have "w \<le> x" using classesD(1) [OF c' n(2)] step(3) by simp
    moreover have "root_of l' y = root_of l' x \<or> (\<exists>z \<in> nonBackPreds l' ! root_of l' x. root_of l' z = root_of l' y \<and> (x \<noteq> root_of l' x \<longrightarrow> \<not> isAncestor lst (root_of l' x) (root_of l' z))) \<or>
     (x < w \<and> isAncestor lst x y)" using ed yx(1) unfolding edges_ok_def by blast
    ultimately show ?case using step(3) yx(3) n(1) by auto
  qed
qed

lemma merged_headers:
  assumes inv: "loop_inv (Suc w) l" and mg: "merged w l l' P" and some: "(v, w) \<in> e" "isAncestor lst w v"
  shows "headers_ok w l'"
proof -
  note M = mergedD [OF mg]
  have c: "classes_ok (Suc w) l" and h: "headers_ok (Suc w) l" using inv by (simp_all add: loop_inv_def)
  have ed: "edges_ok w l'" using merged_edges [OF c _ _ _ mg] inv by (simp add: loop_inv_def shape_def)
  have up: "(hdr l)\<^sup>* \<subseteq> (hdr l')\<^sup>*" by (rule rtrancl_mono [OF hdr_grows [OF c mg]])
  have "(w, v) \<in> e\<^sup>*" using ancestor [OF M(2) some(2)] by simp
  then have cyc: "(w, w) \<in> e\<^sup>+" using some(1) by (rule rtrancl_into_trancl1)
  have "w \<le> header l' ! x \<and> header l' ! x < x \<and> x < m \<and> linked x (header l' ! x)" if x: "x < n" "header l' ! x \<noteq> 0" for x
  proof (cases "x \<in> P")
    case True
    then show ?thesis using M(5) [OF x(1)] M(10) by simp
  next
    case False
    then show ?thesis using M(5) [OF x(1)] x h unfolding headers_ok_def by fastforce
  qed
  moreover have "(x, x) \<in> e\<^sup>+" if "x < n" "ltype l' ! x \<noteq> nonheader" for x
    using that cyc M(6) [of x] h by (cases "x = w") (auto simp: headers_ok_def)
  moreover have "ltype l' ! x \<noteq> nonheader" if "x < n" "w \<le> x" "(u, x) \<in> e" "isAncestor lst x u" for x u
  proof (cases "x = w")
    case False
    then have "Suc w \<le> x" using that(2) by simp
    then have "ltype l ! x \<noteq> nonheader" using that h unfolding headers_ok_def by blast
    then show ?thesis using M(6) [OF False] by simp
  qed (use M(9) in simp)
  moreover have "(b, x) \<in> (hdr l')\<^sup>*" if "x < n" "w \<le> x" "b \<in> body x" for x b
  proof (cases "x = w")
    case True
    then show ?thesis using merged_body [OF c ed mg] classesD(3) [OF merged_classes [OF c mg], of b] that(3) by auto
  next
    case False
    then have "Suc w \<le> x" using that(2) by simp
    then show ?thesis using that h up unfolding headers_ok_def by blast
  qed
  ultimately show ?thesis unfolding headers_ok_def by blast
qed

lemma header_step_keeps:
  assumes inv: "loop_inv (Suc w) l" and w: "w < n" and bk: "backPreds ! w = {v. (v, w) \<in> e \<and> isAncestor lst w v}"
  shows "\<exists>l'. header_step lst backPreds w l = Some l' \<and> loop_inv w l'"
proof (cases "\<exists>v. (v, w) \<in> e \<and> isAncestor lst w v")
  case True
  then obtain v where v: "(v, w) \<in> e" "isAncestor lst w v" by blast
  from header_step_merges [OF inv w bk v] obtain l' P where l': "header_step lst backPreds w l = Some l'" "merged w l l' P" by blast
  have i: "classes_ok (Suc w) l" "edges_ok (Suc w) l" "preds_ok l" "uf_ok n l" using inv by (simp_all add: loop_inv_def shape_def)
  have "loop_inv w l'"
    using merged_classes [OF i(1) l'(2)] merged_edges [OF i l'(2)] merged_headers [OF inv l'(2) v] l'(2)
    by (simp add: loop_inv_def merged_def)
  then show ?thesis using l'(1) by blast
next
  case False
  then have "backPreds ! w = {}" using bk by auto
  then have "header_step lst backPreds w l = Some l" by (simp add: header_step_def chase.simps)
  moreover have "loop_inv w l"
  proof -
    have old: "classes_ok (Suc w) l" "edges_ok (Suc w) l" "headers_ok (Suc w) l" using inv by (simp_all add: loop_inv_def)
    have c: "classes_ok w l" using old(1) by (auto simp: classes_ok_def intro: Suc_leD)
    have none: "x < w" if "(y, x) \<in> e" "x < Suc w" "isAncestor lst x y" for x y using False that by (cases "x = w") auto
    have ed: "edges_ok w l" using old(2) none unfolding edges_ok_def by blast
    have "body w = {}" using False by (auto simp: body_def)
    then have b: "(b, x) \<in> (hdr l)\<^sup>*" if "x < n" "w \<le> x" "b \<in> body x" for x b
      using that old(3) by (cases "x = w") (auto simp: headers_ok_def)
    have t: "ltype l ! x \<noteq> nonheader" if "x < n" "w \<le> x" "(u, x) \<in> e" "isAncestor lst x u" for x u
    proof -
      have "x \<noteq> w" using that(3,4) False by blast
      then have "Suc w \<le> x" using that(2) by simp
      then show ?thesis using that old(3) unfolding headers_ok_def by blast
    qed
    have "w \<le> header l ! x \<and> header l ! x < x \<and> x < m \<and> linked x (header l ! x)" if "x < n" "header l ! x \<noteq> 0" for x
      using that old(3) by (auto simp: headers_ok_def intro: Suc_leD)
    moreover have "(x, x) \<in> e\<^sup>+" if "x < n" "ltype l ! x \<noteq> nonheader" for x using that old(3) by (simp add: headers_ok_def)
    ultimately have "headers_ok w l" unfolding headers_ok_def using t b by blast
    then show ?thesis using c ed inv by (simp add: loop_inv_def)
  qed
  ultimately show ?thesis by blast
qed

lemma header_loop_keeps:
  "loop_inv k l \<Longrightarrow> k \<le> n \<Longrightarrow> (\<And>w. w < n \<Longrightarrow> backPreds ! w = {v. (v, w) \<in> e \<and> isAncestor lst w v}) \<Longrightarrow>
     \<exists>l'. header_loop lst backPreds (rev [0..<k]) l = Some l' \<and> loop_inv 0 l'"
proof (induction k arbitrary: l)
  case (Suc k)
  then obtain l' where "header_step lst backPreds k l = Some l'" "loop_inv k l'"
    using header_step_keeps [of k l backPreds] by auto
  then show ?case using Suc by simp
qed simp

lemma loop_inv_init:
  assumes nb: "length nb = n" "\<And>w. w < n \<Longrightarrow> nb ! w = {v. (v, w) \<in> e \<and> \<not> isAncestor lst w v}"
  shows "loop_inv n \<lparr>uf = UnionFind n, header = replicate n 0, ltype = replicate n nonheader, nonBackPreds = nb\<rparr>"
    (is "loop_inv n ?l")
proof -
  have R: "root_of ?l y = y" if "y < n" for y by (rule rep_leads) (use that in \<open>simp add: leads.here UnionFind_def\<close>)
  have "shape ?l" using forest_init [of n] nb(1) by (simp add: shape_def uf_ok_def UnionFind_def)
  moreover have "preds_ok ?l" using nb(2) edge by (auto simp: preds_ok_def)
  moreover have "classes_ok n ?l" using R used by (simp add: classes_ok_def linked_def)
  moreover have "edges_ok n ?l"
  proof -
    have "(\<exists>z\<in>nonBackPreds ?l ! root_of ?l x. root_of ?l z = root_of ?l y \<and> (x \<noteq> root_of ?l x \<longrightarrow> \<not> isAncestor lst (root_of ?l x) (root_of ?l z))) \<or>
        x < n \<and> isAncestor lst x y" if a: "(y, x) \<in> e" for y x
    proof -
      have n: "y < n" "x < n" using edge [OF a] used by auto
      then have "y \<in> nonBackPreds ?l ! root_of ?l x" if "\<not> isAncestor lst x y" using a nb(2) R that by simp
      then show ?thesis using R n by (metis (no_types, lifting))
    qed
    then show ?thesis unfolding edges_ok_def by blast
  qed
  moreover have "headers_ok n ?l" by (simp add: headers_ok_def)
  ultimately show ?thesis by (simp add: loop_inv_def)
qed

lemmas header_loop_run = header_loop_keeps [OF loop_inv_init order_refl]

lemma loop_result:
  assumes inv: "loop_inv 0 l"
  shows "x < n \<Longrightarrow> header l ! x \<noteq> 0 \<Longrightarrow>
      header l ! x < x \<and> x < m \<and> (x, header l ! x) \<in> e\<^sup>+ \<and> (header l ! x, x) \<in> e\<^sup>+"
    and "x < n \<Longrightarrow> ltype l ! x \<noteq> nonheader \<Longrightarrow> (x, x) \<in> e\<^sup>+"
    and "(v, w) \<in> e \<Longrightarrow> isAncestor lst w v \<Longrightarrow> ltype l ! w \<noteq> nonheader"
    and "(v, w) \<in> e \<Longrightarrow> isAncestor lst w v \<Longrightarrow> (b, v) \<in> {(y, x) \<in> e. isAncestor lst w y \<and> x \<noteq> w}\<^sup>* \<Longrightarrow>
      (b, w) \<in> {(x, header l ! x) | x. x < n \<and> header l ! x \<noteq> 0}\<^sup>*"
proof -
  have h: "headers_ok 0 l" using inv by (simp add: loop_inv_def)
  show "header l ! x < x \<and> x < m \<and> (x, header l ! x) \<in> e\<^sup>+ \<and> (header l ! x, x) \<in> e\<^sup>+" if x: "x < n" "header l ! x \<noteq> 0"
  proof -
    have b: "header l ! x < x" "x < m" "linked x (header l ! x)" using h x by (auto simp: headers_ok_def)
    then show ?thesis by (auto simp: linked_def rtrancl_eq_or_trancl)
  qed
  show "(x, x) \<in> e\<^sup>+" if "x < n" "ltype l ! x \<noteq> nonheader" using h that by (simp add: headers_ok_def)
  assume v: "(v, w) \<in> e" "isAncestor lst w v"
  have w: "w < n" using edge [OF v(1)] used by simp
  show "ltype l ! w \<noteq> nonheader" using h v w unfolding headers_ok_def by blast
  assume "(b, v) \<in> {(y, x) \<in> e. isAncestor lst w y \<and> x \<noteq> w}\<^sup>*"
  then have "b \<in> body w" using v by (auto simp: body_def)
  then show "(b, w) \<in> {(x, header l ! x) | x. x < n \<and> header l ! x \<noteq> 0}\<^sup>*"
    using h w unfolding headers_ok_def hdr_def by blast
qed

end

end
