(* ===== verification/LoopAnalysis.thy ===== *)
theory LoopAnalysis
  imports LoopTree LoopHeaders
begin

text \<open>
  \<open>LoopAnalysis\<close> of \<open>ir/function.cpp\<close> put together: the spanning tree, the edges sorted into back
  edges and others, the Tarjan-Havlak loop and the loop forest. Every parent in the forest lies on a common
  cycle with its child, and the header of every natural loop is above all blocks of the loop.
\<close>

section \<open>The analysis\<close>

type_synonym bb_ptr = "nat option"

record loop_forest =
  la_parent :: "bb_ptr \<rightharpoonup> bb_ptr"
  la_forest :: "bb_ptr \<rightharpoonup> bb_ptr list"
  la_roots :: "bb_ptr list"

fun classify :: "dfs \<Rightarrow> (nat \<times> nat) list \<Rightarrow> nat set list \<Rightarrow> nat set list \<Rightarrow> nat set list \<times> nat set list" where
  "classify s [] nb bp = (nb, bp)"
| "classify s ((src, dst) # es) nb bp =
     (case number s src of
        None \<Rightarrow> classify s es nb bp
      | Some v \<Rightarrow>
          case number s dst of
            None \<Rightarrow> classify s es nb bp
          | Some w \<Rightarrow>
              if isAncestor (last_nr s) w v then classify s es nb (bp[w := insert v (bp ! w)])
              else classify s es (nb[w := insert v (nb ! w)]) bp)"

definition forest_step :: "bb_ptr list \<Rightarrow> loops \<Rightarrow> nat \<Rightarrow> loop_forest \<Rightarrow> loop_forest" where
  "forest_step nodes l i f =
     (let h = header l ! i in
      if h = 0 \<and> ltype l ! i \<noteq> nonheader
      then f\<lparr>la_roots := la_roots f @ [nodes ! i],
             la_forest := (case la_forest f (nodes ! i) of None \<Rightarrow> (la_forest f)(nodes ! i \<mapsto> []) | Some _ \<Rightarrow> la_forest f)\<rparr>
      else if h \<noteq> 0 \<or> ltype l ! i \<noteq> nonheader
      then f\<lparr>la_parent := (case la_parent f (nodes ! i) of
                 None \<Rightarrow> (la_parent f)(nodes ! i \<mapsto> nodes ! h) | Some _ \<Rightarrow> la_parent f),
             la_forest := (la_forest f)(nodes ! h \<mapsto>
                 (case la_forest f (nodes ! h) of None \<Rightarrow> [] | Some bs \<Rightarrow> bs) @ [nodes ! i])\<rparr>
      else f)"

definition LoopAnalysis_run :: "cfg \<Rightarrow> loop_forest option" where
  "LoopAnalysis_run g = do {
     let s = getDepthFirstSpanningTree g;
     let bb_count = length g + 1;
     es \<leftarrow> cfg_edges g;
     let (nonBack, backPreds) = classify s es (replicate bb_count {}) (replicate bb_count {});
     l \<leftarrow> header_loop (last_nr s) backPreds (rev [0..<bb_count])
            \<lparr>uf = UnionFind bb_count, header = replicate bb_count 0, ltype = replicate bb_count nonheader,
             nonBackPreds = nonBack\<rparr>;
     Some (fold (forest_step (node s) l) [0..<bb_count] \<lparr>la_parent = Map.empty, la_forest = Map.empty, la_roots = []\<rparr>) }"

definition getParent :: "loop_forest \<Rightarrow> nat \<Rightarrow> bb_ptr" where
  "getParent f bb = (case la_parent f (Some bb) of Some p \<Rightarrow> p | None \<Rightarrow> None)"

section \<open>The numbers as a flow graph\<close>

definition flow_nr :: "cfg \<Rightarrow> (nat \<times> nat) set" where
  "flow_nr g = {(v, w). \<exists>a b. (a, b) \<in> flow_edges g \<and> number (getDepthFirstSpanningTree g) a = Some v \<and>
     number (getDepthFirstSpanningTree g) b = Some w}"

lemma flow_nr_lift:
  assumes ok: "flow_ok g"
  defines "s \<equiv> getDepthFirstSpanningTree g"
  assumes a: "number s a = Some v" and p: "(a, b) \<in> (flow_edges g)\<^sup>*"
  shows "\<exists>w. number s b = Some w \<and> (v, w) \<in> (flow_nr g)\<^sup>*"
  using p
proof (induction rule: rtrancl_induct)
  case (step b c)
  then obtain w where w: "number s b = Some w" "(v, w) \<in> (flow_nr g)\<^sup>*" by blast
  obtain x where x: "number s c = Some x" using spanning_tree(6) [OF ok w(1) [unfolded s_def] step(2)] by (auto simp: s_def)
  have "(w, x) \<in> flow_nr g" using w(1) x step(2) by (auto simp: flow_nr_def s_def)
  then show ?case using x w(2) by (auto intro: rtrancl_into_rtrancl)
qed (use a in auto)

lemma flow_nr_number:
  assumes ok: "flow_ok g" and e: "(v, w) \<in> flow_nr g"
  shows "v < current (getDepthFirstSpanningTree g)" "0 < w" "w < current (getDepthFirstSpanningTree g)"
proof -
  let ?s = "getDepthFirstSpanningTree g"
  obtain a b where ab: "(a, b) \<in> flow_edges g" "number ?s a = Some v" "number ?s b = Some w" using e by (auto simp: flow_nr_def)
  then show "v < current ?s" "w < current ?s" using spanning_tree(1) [OF ok] by blast+
  show "0 < w"
  proof (rule ccontr)
    assume "\<not> 0 < w"
    then have "b = 0" using ab(3) spanning_tree(1) [OF ok, of b 0] spanning_tree(1) [OF ok, of 0 0] spanning_tree(4) [OF ok] by simp
    then show False using flow_okD [OF ok ab(1)] by simp
  qed
qed

lemma flow_nr_ancestor:
  assumes ok: "flow_ok g"
  defines "s \<equiv> getDepthFirstSpanningTree g"
  assumes w: "w < current s" "isAncestor (last_nr s) w v"
  shows "v < current s \<and> (w, v) \<in> (flow_nr g)\<^sup>*"
proof -
  obtain a where a: "number s a = Some w" using spanning_tree(2) [OF ok, of w] w(1) by (auto simp: s_def)
  obtain b where b: "number s b = Some v" "(a, b) \<in> (flow_edges g)\<^sup>*"
    using spanning_tree(5) [OF ok a [unfolded s_def], of v] w(2) by (auto simp: isAncestor_def s_def)
  have "v < current s" using b(1) spanning_tree(1) [OF ok] unfolding s_def by blast
  then show ?thesis using flow_nr_lift [OF ok a [unfolded s_def] b(2)] b(1) by (auto simp: s_def)
qed

text \<open>The laws of the Tarjan-Havlak loop hold of the spanning tree of every graph that can occur.\<close>

definition bounded :: "cfg \<Rightarrow> cfg" where
  "bounded g = (if flow_ok g then g else [])"

lemma bounded_ok: "flow_ok (bounded g)"
  by (simp add: bounded_def flow_ok_def)

interpretation nest: numbered_flow "flow_nr (bounded g)" "last_nr (getDepthFirstSpanningTree (bounded g))"
  "current (getDepthFirstSpanningTree (bounded g))" "length (bounded g) + 1" for g
  by unfold_locales
    (use bounded_ok flow_nr_number spanning_tree(3) flow_nr_ancestor in blast)+


section \<open>Edges and forest\<close>

definition sources :: "dfs \<Rightarrow> (nat \<times> nat) set \<Rightarrow> nat \<Rightarrow> nat set" where
  "sources s E w = {v. \<exists>a b. (a, b) \<in> E \<and> number s a = Some v \<and> number s b = Some w}"

lemma sources_insert:
  "sources s (insert (a, b) E) w = sources s E w \<union> {v. number s a = Some v \<and> number s b = Some w}"
  by (auto simp: sources_def)

lemma classify_ok:
  "classify s es nb bp = (nb', bp') \<Longrightarrow> length nb = n \<Longrightarrow> length bp = n \<Longrightarrow> w < n \<Longrightarrow>
     length nb' = n \<and> length bp' = n \<and> nb' ! w = nb ! w \<union> {v \<in> sources s (set es) w. \<not> isAncestor (last_nr s) w v} \<and>
     bp' ! w = bp ! w \<union> {v \<in> sources s (set es) w. isAncestor (last_nr s) w v}"
proof (induction s es nb bp rule: classify.induct)
  case (1 s nb bp)
  then show ?case by (auto simp: sources_def)
next
  case (2 s src dst es nb bp)
  note [simp] = sources_insert
  show ?case
  proof (cases "number s src")
    case None
    then show ?thesis using 2(1) [OF None] 2(5-) by simp
  next
    case v: (Some v)
    show ?thesis
    proof (cases "number s dst")
      case None
      then show ?thesis using 2(2) [OF v None] 2(5-) v by simp
    next
      case x: (Some x)
      show ?thesis
      proof (cases "isAncestor (last_nr s) x v")
        case True
        then show ?thesis using 2(3) [OF v x True] 2(5-) v x by (cases "x = w") auto
      next
        case False
        then show ?thesis using 2(4) [OF v x False] 2(5-) v x by (cases "x = w") auto
      qed
    qed
  qed
qed

definition forest_of :: "bb_ptr list \<Rightarrow> loops \<Rightarrow> nat \<Rightarrow> loop_forest \<Rightarrow> bool" where
  "forest_of nodes l k f \<longleftrightarrow>
     (\<forall>p q. la_parent f p = Some q \<longleftrightarrow> (\<exists>i<k. header l ! i \<noteq> 0 \<and> nodes ! i = p \<and> nodes ! (header l ! i) = q)) \<and>
     (\<forall>p q. (\<exists>bs. la_forest f q = Some bs \<and> p \<in> set bs) \<longleftrightarrow> (\<exists>i<k. header l ! i \<noteq> 0 \<and> nodes ! i = p \<and> nodes ! (header l ! i) = q)) \<and>
     (\<forall>p. p \<in> set (la_roots f) \<longleftrightarrow> (\<exists>i<k. header l ! i = 0 \<and> ltype l ! i \<noteq> nonheader \<and> nodes ! i = p))"

lemma forest_ofD:
  assumes "forest_of nodes l k f"
  shows "la_parent f p = Some q \<longleftrightarrow> (\<exists>i<k. header l ! i \<noteq> 0 \<and> nodes ! i = p \<and> nodes ! (header l ! i) = q)"
    "(\<exists>bs. la_forest f q = Some bs \<and> p \<in> set bs) \<longleftrightarrow> (\<exists>i<k. header l ! i \<noteq> 0 \<and> nodes ! i = p \<and> nodes ! (header l ! i) = q)"
    "p \<in> set (la_roots f) \<longleftrightarrow> (\<exists>i<k. header l ! i = 0 \<and> ltype l ! i \<noteq> nonheader \<and> nodes ! i = p)"
  using assms unfolding forest_of_def by blast+

lemma forest_step_ok:
  assumes f: "forest_of nodes l k f" and inj: "\<And>i. i < k \<Longrightarrow> header l ! i \<noteq> 0 \<Longrightarrow> header l ! k \<noteq> 0 \<Longrightarrow> nodes ! i \<noteq> nodes ! k"
  shows "forest_of nodes l (Suc k) (forest_step nodes l k f)"
proof -
  let ?f = "forest_step nodes l k f" and ?h = "header l ! k"
  note F = forest_ofD [OF f]
  show ?thesis
  proof (cases "?h = 0")
    case True
    have "la_parent ?f = la_parent f" by (simp add: forest_step_def Let_def True)
    moreover have "(\<exists>bs. la_forest ?f q = Some bs \<and> p \<in> set bs) \<longleftrightarrow> (\<exists>bs. la_forest f q = Some bs \<and> p \<in> set bs)" for p q
      by (simp add: forest_step_def Let_def True split: option.splits)
    moreover have "set (la_roots ?f) = (if ltype l ! k \<noteq> nonheader then insert (nodes ! k) (set (la_roots f)) else set (la_roots f))"
      by (simp add: forest_step_def Let_def True)
    ultimately show ?thesis unfolding forest_of_def using F True by (auto simp: less_Suc_eq)
  next
    case False
    have "la_parent f (nodes ! k) = None" using F(1) [of "nodes ! k"] inj False by (metis not_Some_eq)
    then have p: "la_parent ?f = (la_parent f)(nodes ! k \<mapsto> nodes ! ?h)" by (simp add: forest_step_def Let_def False)
    have q: "(\<exists>bs. la_forest ?f q = Some bs \<and> p \<in> set bs) \<longleftrightarrow>
        (\<exists>bs. la_forest f q = Some bs \<and> p \<in> set bs) \<or> q = nodes ! ?h \<and> p = nodes ! k" for p q
      by (cases "la_forest f (nodes ! ?h)"; cases "q = nodes ! ?h") (auto simp: forest_step_def Let_def False)
    have r: "la_roots ?f = la_roots f" by (simp add: forest_step_def Let_def False)
    have "la_parent ?f p = Some q \<longleftrightarrow> (\<exists>i<Suc k. header l ! i \<noteq> 0 \<and> nodes ! i = p \<and> nodes ! (header l ! i) = q)" for p q
    proof (cases "p = nodes ! k")
      case True
      then show ?thesis using p inj False by (auto simp: less_Suc_eq)
    next
      case n: False
      then show ?thesis using p F(1) [of p q] by (auto simp: less_Suc_eq)
    qed
    then show ?thesis unfolding forest_of_def q r F using False by (auto simp: less_Suc_eq)
  qed
qed

lemma forest_built:
  assumes "\<And>i j. i < n \<Longrightarrow> j < n \<Longrightarrow> header l ! i \<noteq> 0 \<Longrightarrow> header l ! j \<noteq> 0 \<Longrightarrow> nodes ! i = nodes ! j \<Longrightarrow> i = j"
  shows "forest_of nodes l n (fold (forest_step nodes l) [0..<n] \<lparr>la_parent = Map.empty, la_forest = Map.empty, la_roots = []\<rparr>)"
  using assms
proof (induction n)
  case 0
  show ?case by (simp add: forest_of_def)
next
  case (Suc k)
  have "nodes ! i \<noteq> nodes ! k" if "i < k" "header l ! i \<noteq> 0" "header l ! k \<noteq> 0" for i
    using Suc.prems [of i k] that by auto
  then show ?case using forest_step_ok [OF Suc.IH] Suc.prems by simp
qed


section \<open>What the analysis finds\<close>

lemma getParent_iff: "getParent f b = Some h \<longleftrightarrow> la_parent f (Some b) = Some (Some h)"
  by (simp add: getParent_def split: option.splits)

lemma run_inv:
  assumes ok: "flow_ok g"
  defines "s \<equiv> getDepthFirstSpanningTree g"
  shows "\<exists>l. LoopAnalysis_run g = Some (fold (forest_step (node s) l) [0..<length g + 1]
      \<lparr>la_parent = Map.empty, la_forest = Map.empty, la_roots = []\<rparr>) \<and> nest.loop_inv g 0 l"
proof -
  have b: "bounded g = g" using ok by (simp add: bounded_def)
  let ?n = "length g + 1"
  have es: "cfg_edges g = Some (edges_from g 0)" by (rule cfg_edges_all [OF flow_ok_jumps [OF ok]])
  obtain nb bp where c: "classify s (edges_from g 0) (replicate ?n {}) (replicate ?n {}) = (nb, bp)" by fastforce
  have src: "sources s (flow_edges g) w = {v. (v, w) \<in> flow_nr g}" for w by (auto simp: sources_def flow_nr_def s_def)
  have cl: "length nb = ?n" "length bp = ?n" "nb ! w = {v. (v, w) \<in> flow_nr g \<and> \<not> isAncestor (last_nr s) w v}"
      "bp ! w = {v. (v, w) \<in> flow_nr g \<and> isAncestor (last_nr s) w v}" if "w < ?n" for w
    using classify_ok [OF c _ _ that] that unfolding set_edges_from src by (simp_all del: replicate_Suc)
  note run = nest.header_loop_run [of nb g bp, unfolded b]
  have "\<exists>l. header_loop (last_nr s) bp (rev [0..<?n])
      \<lparr>uf = UnionFind ?n, header = replicate ?n 0, ltype = replicate ?n nonheader, nonBackPreds = nb\<rparr> = Some l \<and> nest.loop_inv g 0 l"
    unfolding b s_def by (rule run) (use cl [of 0] cl in \<open>simp_all add: s_def\<close>)
  then show ?thesis using es c by (auto simp: LoopAnalysis_run_def s_def [symmetric] Let_def simp del: upt_Suc replicate_Suc)
qed


lemma number_inj: "flow_ok g \<Longrightarrow> number (getDepthFirstSpanningTree g) a = Some i \<Longrightarrow>
    number (getDepthFirstSpanningTree g) b = Some i \<Longrightarrow> a = b"
  using spanning_tree(1) [of g a i] spanning_tree(1) [of g b i] by simp

lemma flow_nr_lower:
  assumes ok: "flow_ok g"
  defines "s \<equiv> getDepthFirstSpanningTree g"
  assumes p: "(v, w) \<in> (flow_nr g)\<^sup>+" and a: "number s a = Some v" and b: "number s b = Some w"
  shows "(a, b) \<in> (flow_edges g)\<^sup>+"
  using p b
proof (induction arbitrary: b rule: trancl_induct)
  case (base w)
  then obtain a' b' where c: "(a', b') \<in> flow_edges g" "number s a' = Some v" "number s b' = Some w"
    by (auto simp: flow_nr_def s_def)
  have "a' = a" "b' = b" using number_inj [OF ok] c(2,3) a base(2) unfolding s_def by blast+
  then show ?case using c(1) by blast
next
  case (step w x)
  then obtain c b' where c: "(c, b') \<in> flow_edges g" "number s c = Some w" "number s b' = Some x"
    by (auto simp: flow_nr_def s_def)
  have "b' = b" using number_inj [OF ok] c(3) step(4) unfolding s_def by blast
  then show ?case using step(3) [OF c(2)] c(1) by (auto intro: trancl_into_trancl)
qed

text \<open>The finished analysis, as a relation between numbers and one between blocks.\<close>

lemma run_result:
  assumes ok: "flow_ok g"
  defines "s \<equiv> getDepthFirstSpanningTree g"
  obtains f l where "LoopAnalysis_run g = Some f" "forest_of (node s) l (length g + 1) f" "nest.loop_inv g 0 l"
    "\<And>b h. getParent f b = Some h \<longleftrightarrow> (\<exists>i k. number s b = Some i \<and> number s h = Some k \<and> header l ! i = k \<and> k \<noteq> 0)"
    "\<And>h. Some h \<in> set (la_roots f) \<longleftrightarrow> (\<exists>i. number s h = Some i \<and> header l ! i = 0 \<and> ltype l ! i \<noteq> nonheader)"
proof -
  obtain l where l: "LoopAnalysis_run g = Some (fold (forest_step (node s) l) [0..<length g + 1]
      \<lparr>la_parent = Map.empty, la_forest = Map.empty, la_roots = []\<rparr>)" "nest.loop_inv g 0 l"
    using run_inv [OF ok, folded s_def] by (elim exE conjE)
  let ?f = "fold (forest_step (node s) l) [0..<length g + 1] \<lparr>la_parent = Map.empty, la_forest = Map.empty, la_roots = []\<rparr>"
  have b: "bounded g = g" using ok by (simp add: bounded_def)
  note N = spanning_tree [OF ok, folded s_def]
  note res = nest.loop_result [OF l(2), unfolded b, folded s_def]
  have nd: "\<exists>b h. number s b = Some i \<and> node s ! i = Some b \<and> number s h = Some (header l ! i) \<and> node s ! (header l ! i) = Some h"
    if "i < length g + 1" "header l ! i \<noteq> 0" for i
  proof -
    have "header l ! i < current s" "i < current s" using res(1) [OF that] by simp_all
    then obtain b h where bh: "number s b = Some i" "number s h = Some (header l ! i)" using N(2) by blast
    then show ?thesis using N(1) [of b i] N(1) [of h "header l ! i"] by auto
  qed
  have num: "i < length g + 1" if "number s b = Some i" for b i using N(1) [of b i] N(3) that by simp
  have fo: "forest_of (node s) l (length g + 1) ?f"
  proof (rule forest_built)
    fix i j assume ij: "i < length g + 1" "j < length g + 1" "header l ! i \<noteq> 0" "header l ! j \<noteq> 0" "node s ! i = node s ! j"
    obtain b where "number s b = Some i" "node s ! i = Some b" using nd [OF ij(1,3)] by blast
    moreover obtain c where "number s c = Some j" "node s ! j = Some c" using nd [OF ij(2,4)] by blast
    ultimately show "i = j" using ij(5) by simp
  qed
  have "getParent ?f b = Some h \<longleftrightarrow> (\<exists>i k. number s b = Some i \<and> number s h = Some k \<and> header l ! i = k \<and> k \<noteq> 0)" for b h
  proof -
    have "getParent ?f b = Some h \<longleftrightarrow> la_parent ?f (Some b) = Some (Some h)"
      by (rule getParent_iff)
    also have "\<dots> \<longleftrightarrow> (\<exists>i<length g + 1. header l ! i \<noteq> 0 \<and> node s ! i = Some b \<and> node s ! (header l ! i) = Some h)"
      by (rule forest_ofD(1) [OF fo])
    also have "\<dots> \<longleftrightarrow> (\<exists>i k. number s b = Some i \<and> number s h = Some k \<and> header l ! i = k \<and> k \<noteq> 0)"
    proof
      assume "\<exists>i<length g + 1. header l ! i \<noteq> 0 \<and> node s ! i = Some b \<and> node s ! (header l ! i) = Some h"
      then obtain i where i: "i < length g + 1" "header l ! i \<noteq> 0" "node s ! i = Some b" "node s ! (header l ! i) = Some h" by blast
      with nd [OF i(1,2)] show "\<exists>i k. number s b = Some i \<and> number s h = Some k \<and> header l ! i = k \<and> k \<noteq> 0" by auto
    next
      assume "\<exists>i k. number s b = Some i \<and> number s h = Some k \<and> header l ! i = k \<and> k \<noteq> 0"
      then obtain i where "number s b = Some i" "number s h = Some (header l ! i)" "header l ! i \<noteq> 0" by blast
      then show "\<exists>i<length g + 1. header l ! i \<noteq> 0 \<and> node s ! i = Some b \<and> node s ! (header l ! i) = Some h"
        using num [of b i] N(1) [of b i] N(1) [of h "header l ! i"] by auto
    qed
    finally show ?thesis .
  qed
  moreover have "Some h \<in> set (la_roots ?f) \<longleftrightarrow> (\<exists>i. number s h = Some i \<and> header l ! i = 0 \<and> ltype l ! i \<noteq> nonheader)" for h
  proof -
    have "Some h \<in> set (la_roots ?f) \<longleftrightarrow> (\<exists>i<length g + 1. header l ! i = 0 \<and> ltype l ! i \<noteq> nonheader \<and> node s ! i = Some h)"
      by (rule forest_ofD(3) [OF fo])
    moreover have "number s h = Some i" if i: "i < length g + 1" "ltype l ! i \<noteq> nonheader" "node s ! i = Some h" for i
    proof -
      have "(i, i) \<in> (flow_nr g)\<^sup>+" by (rule res(2) [OF i(1,2)])
      then obtain j where "(i, j) \<in> flow_nr g" by (meson tranclD)
      then have "i < current s" using flow_nr_number(1) [OF ok] by (simp add: s_def)
      then show ?thesis using N(1) [of h i] i(3) by simp
    qed
    moreover have "i < length g + 1 \<and> node s ! i = Some h" if "number s h = Some i" for i
      using num [OF that] N(1) [of h i] that by simp
    ultimately show ?thesis by blast
  qed
  ultimately show thesis by (rule that [OF l(1) fo l(2)])
qed


text \<open>
  C26 (safety). The analysis ends without failing its internal check, and its forest is sound: a
  block and its parent are distinct and on a common cycle, a root is on a cycle and has no parent, the lists of
  children agree with the parents, and following parents never returns to a block.
\<close>

theorem loop_forest_sound:
  assumes "flow_ok g"
  shows "\<exists>f. LoopAnalysis_run g = Some f \<and>
    (\<forall>b h. getParent f b = Some h \<longrightarrow> (b, h) \<in> (flow_edges g)\<^sup>+ \<and> (h, b) \<in> (flow_edges g)\<^sup>+) \<and>
    (\<forall>h. Some h \<in> set (la_roots f) \<longrightarrow> (h, h) \<in> (flow_edges g)\<^sup>+ \<and> getParent f h = None) \<and>
    (\<forall>b h. getParent f b = Some h \<longleftrightarrow> (\<exists>bs. la_forest f (Some h) = Some bs \<and> Some b \<in> set bs)) \<and>
    acyclic {(b, h). getParent f b = Some h}"
proof -
  let ?s = "getDepthFirstSpanningTree g"
  have b: "bounded g = g" using assms by (simp add: bounded_def)
  obtain f l where f: "LoopAnalysis_run g = Some f" "forest_of (node ?s) l (length g + 1) f" "nest.loop_inv g 0 l"
    "\<And>b h. getParent f b = Some h \<longleftrightarrow> (\<exists>i k. number ?s b = Some i \<and> number ?s h = Some k \<and> header l ! i = k \<and> k \<noteq> 0)"
    "\<And>h. Some h \<in> set (la_roots f) \<longleftrightarrow> (\<exists>i. number ?s h = Some i \<and> header l ! i = 0 \<and> ltype l ! i \<noteq> nonheader)"
    by (rule run_result [OF assms], rule that)
  note res = nest.loop_result [OF f(3), unfolded b]
  have num: "i < length g + 1" if "number ?s b = Some i" for b i
    using spanning_tree(1) [OF assms, of b i] spanning_tree(3) [OF assms] that by simp
  have par: "(b, h) \<in> (flow_edges g)\<^sup>+ \<and> (h, b) \<in> (flow_edges g)\<^sup>+ \<and> the (number ?s h) < the (number ?s b)"
    if p: "getParent f b = Some h" for b h
  proof -
    obtain i where i: "number ?s b = Some i" "number ?s h = Some (header l ! i)" "header l ! i \<noteq> 0" using p unfolding f(4) by blast
    have r: "header l ! i < i" "(i, header l ! i) \<in> (flow_nr g)\<^sup>+" "(header l ! i, i) \<in> (flow_nr g)\<^sup>+"
      using res(1) [OF num [OF i(1)] i(3)] by simp_all
    show ?thesis using flow_nr_lower [OF assms r(2) i(1,2)] flow_nr_lower [OF assms r(3) i(2,1)] r(1) i(1,2) by simp
  qed
  have root: "(h, h) \<in> (flow_edges g)\<^sup>+ \<and> getParent f h = None" if p: "Some h \<in> set (la_roots f)" for h
  proof -
    obtain i where i: "number ?s h = Some i" "header l ! i = 0" "ltype l ! i \<noteq> nonheader" using p unfolding f(5) by blast
    have "getParent f h = None" using f(4) [of h] i(1,2) by (cases "getParent f h") auto
    then show ?thesis using flow_nr_lower [OF assms res(2) [OF num [OF i(1)] i(3)] i(1) i(1)] by simp
  qed
  have kids: "getParent f b = Some h \<longleftrightarrow> (\<exists>bs. la_forest f (Some h) = Some bs \<and> Some b \<in> set bs)" for b h
    unfolding getParent_iff forest_ofD(1) [OF f(2)] forest_ofD(2) [OF f(2)] ..
  have "{(b, h). getParent f b = Some h} \<subseteq> (measure (\<lambda>b. the (number ?s b)))\<inverse>" using par by auto
  then have "acyclic {(b, h). getParent f b = Some h}"
    by (rule acyclic_subset [OF acyclic_converse [THEN iffD2, OF wf_acyclic [OF wf_measure]]])
  then show ?thesis using f(1) par root kids by (intro exI [of _ f] conjI allI impI) simp_all
qed


text \<open>Two nested loops, evaluated: the inner header lies below the outer one.\<close>

definition nested_loops :: cfg where
  "nested_loops = [Some [1], Some [2, 4], Some [3, 1], Some [2], None]"

lemma nested_loops_run:
  "map_option (\<lambda>f. (la_roots f, map (getParent f) [0, 1, 2, 3, 4])) (LoopAnalysis_run nested_loops) =
     Some ([Some 1], [None, None, Some 1, Some 2, None])"
  by code_simp

theorem loop_forest_sound_witness:
  "flow_ok nested_loops \<and> (\<exists>f. LoopAnalysis_run nested_loops = Some f \<and> getParent f 3 = Some 2 \<and>
     (3, 2) \<in> (flow_edges nested_loops)\<^sup>+ \<and> (2, 3) \<in> (flow_edges nested_loops)\<^sup>+)"
proof -
  have ok: "flow_ok nested_loops" by code_simp
  from loop_forest_sound [OF ok] obtain f where f: "LoopAnalysis_run nested_loops = Some f"
    "\<forall>b h. getParent f b = Some h \<longrightarrow> (b, h) \<in> (flow_edges nested_loops)\<^sup>+ \<and> (h, b) \<in> (flow_edges nested_loops)\<^sup>+" by blast
  moreover have "getParent f 3 = Some 2" using nested_loops_run f(1) by simp
  ultimately show ?thesis using ok by blast
qed

text \<open>A path into the source of a back edge, around the header, on the numbers.\<close>

lemma natural_path:
  assumes ok: "flow_ok g" and h: "h \<noteq> 0" "on_all_paths (flow_edges g) h v"
  defines "s \<equiv> getDepthFirstSpanningTree g"
  assumes w: "number s h = Some w" and v: "number s v = Some nv" and p: "(b, v) \<in> (avoiding (flow_edges g) h)\<^sup>*"
    and b: "number s b = Some i"
  shows "(i, nv) \<in> {(y, x) \<in> flow_nr g. isAncestor (last_nr s) w y \<and> x \<noteq> w}\<^sup>*"
proof -
  have "on_all_paths (flow_edges g) h b \<and>
      (\<forall>i. number s b = Some i \<longrightarrow> (i, nv) \<in> {(y, x) \<in> flow_nr g. isAncestor (last_nr s) w y \<and> x \<noteq> w}\<^sup>*)"
    using p
  proof (induction rule: converse_rtrancl_induct)
    case base
    then show ?case using h(2) v by auto
  next
    case (step y z)
    have yz: "(y, z) \<in> flow_edges g" "z \<noteq> h" using step(1) by (auto simp: avoiding_def)
    have dom: "on_all_paths (flow_edges g) h y" using dom_pred [of _ h z y] step(3) yz by blast
    have "(i, nv) \<in> {(y, x) \<in> flow_nr g. isAncestor (last_nr s) w y \<and> x \<noteq> w}\<^sup>*" if i: "number s y = Some i" for i
    proof -
      obtain j where j: "number s z = Some j" using spanning_tree(6) [OF ok i [unfolded s_def] yz(1)] by (auto simp: s_def)
      have "isAncestor (last_nr s) w i"
        using spanning_tree(7) [OF ok h(1) dom i [unfolded s_def]] w by (auto simp: isAncestor_def s_def)
      moreover have "(i, j) \<in> flow_nr g" using i j yz(1) by (auto simp: flow_nr_def s_def)
      moreover have "j \<noteq> w" using number_inj [OF ok, of z j h] j w yz(2) by (auto simp: s_def)
      moreover have "(j, nv) \<in> {(y, x) \<in> flow_nr g. isAncestor (last_nr s) w y \<and> x \<noteq> w}\<^sup>*" using step(3) j by blast
      ultimately show ?thesis by (auto intro: converse_rtrancl_into_rtrancl)
    qed
    then show ?case using dom by blast
  qed
  then show ?thesis using b by blast
qed

text \<open>Headers between numbers are parents between blocks.\<close>

lemma headers_parents:
  assumes ok: "flow_ok g" and inv: "nest.loop_inv g 0 l"
  defines "s \<equiv> getDepthFirstSpanningTree g"
  assumes par: "\<And>b h. getParent f b = Some h \<longleftrightarrow> (\<exists>i k. number s b = Some i \<and> number s h = Some k \<and> header l ! i = k \<and> k \<noteq> 0)"
    and p: "(x, y) \<in> {(x, header l ! x) | x. x < length g + 1 \<and> header l ! x \<noteq> 0}\<^sup>*" and b: "number s b = Some x"
  shows "\<exists>c. number s c = Some y \<and> (b, c) \<in> {(x, y). getParent f x = Some y}\<^sup>*"
  using p b
proof (induction arbitrary: b rule: converse_rtrancl_induct)
  case (step x z)
  have bo: "bounded g = g" using ok by (simp add: bounded_def)
  have z: "z = header l ! x" "x < length g + 1" "header l ! x \<noteq> 0" using step(1) by auto
  then have "z < current s" using nest.loop_result(1) [OF inv, unfolded bo, OF z(2,3)] by (simp add: s_def)
  then obtain d where d: "number s d = Some z" using spanning_tree(2) [OF ok] by (auto simp: s_def)
  then have "getParent f b = Some d" unfolding par using step(4) z by blast
  then show ?case using step(3) [OF d] by (auto intro: converse_rtrancl_into_rtrancl)
qed auto

text \<open>
  C27 (liveness). Every natural loop is found. For a reachable edge to a block \<open>h\<close> from a block \<open>v\<close> that it dominates,
  \<open>h\<close> is in the forest, as a root or below a parent, and every reachable block from which \<open>v\<close>
  can be reached around \<open>h\<close> has \<open>h\<close> above it.
\<close>

theorem natural_loops_found:
  assumes "flow_ok g" "(v, h) \<in> flow_edges g" "on_all_paths (flow_edges g) h v" "(0, v) \<in> (flow_edges g)\<^sup>*"
  shows "\<exists>f. LoopAnalysis_run g = Some f \<and> (Some h \<in> set (la_roots f) \<or> getParent f h \<noteq> None) \<and>
    (\<forall>b. (0, b) \<in> (flow_edges g)\<^sup>* \<longrightarrow> (b, v) \<in> (avoiding (flow_edges g) h)\<^sup>* \<longrightarrow>
       (b, h) \<in> {(x, y). getParent f x = Some y}\<^sup>*)"
proof -
  let ?s = "getDepthFirstSpanningTree g"
  have bo: "bounded g = g" using assms(1) by (simp add: bounded_def)
  obtain f l where f: "LoopAnalysis_run g = Some f" "forest_of (node ?s) l (length g + 1) f" "nest.loop_inv g 0 l"
    "\<And>b h. getParent f b = Some h \<longleftrightarrow> (\<exists>i k. number ?s b = Some i \<and> number ?s h = Some k \<and> header l ! i = k \<and> k \<noteq> 0)"
    "\<And>h. Some h \<in> set (la_roots f) \<longleftrightarrow> (\<exists>i. number ?s h = Some i \<and> header l ! i = 0 \<and> ltype l ! i \<noteq> nonheader)"
    by (rule run_result [OF assms(1)], rule that)
  note res = nest.loop_result [OF f(3), unfolded bo] and N = spanning_tree [OF assms(1)]
  have num: "\<exists>i. number ?s b = Some i" if "(0, b) \<in> (flow_edges g)\<^sup>*" for b
    using flow_nr_lift [OF assms(1) N(4) that] by blast
  have h0: "h \<noteq> 0" using flow_okD [OF assms(1,2)] by simp
  obtain nv where nv: "number ?s v = Some nv" using num [OF assms(4)] by blast
  obtain w where w: "number ?s h = Some w" "isAncestor (last_nr ?s) w nv"
    using N(7) [OF h0 assms(3) nv] by (auto simp: isAncestor_def)
  have e: "(nv, w) \<in> flow_nr g" using assms(2) nv w(1) by (auto simp: flow_nr_def)
  have "(b, h) \<in> {(x, y). getParent f x = Some y}\<^sup>*"
    if b: "(0, b) \<in> (flow_edges g)\<^sup>*" "(b, v) \<in> (avoiding (flow_edges g) h)\<^sup>*" for b
  proof -
    obtain i where i: "number ?s b = Some i" using num [OF b(1)] by blast
    have "(i, w) \<in> {(x, header l ! x) | x. x < length g + 1 \<and> header l ! x \<noteq> 0}\<^sup>*"
      by (rule res(4) [OF e w(2) natural_path [OF assms(1) h0 assms(3) w(1) nv b(2) i]])
    from headers_parents [OF assms(1) f(3,4) this i] obtain c where "number ?s c = Some w" "(b, c) \<in> {(x, y). getParent f x = Some y}\<^sup>*" by blast
    then show ?thesis using number_inj [OF assms(1) w(1), of c] by simp
  qed
  moreover have "Some h \<in> set (la_roots f) \<or> getParent f h \<noteq> None"
  proof (cases "header l ! w = 0")
    case True
    then show ?thesis unfolding f(5) using w(1) res(3) [OF e w(2)] by blast
  next
    case False
    have "w < length g + 1" using N(1) [of h w] N(3) w(1) by simp
    then have "header l ! w < current ?s" using res(1) [OF _ False] by simp
    then obtain d where "number ?s d = Some (header l ! w)" using N(2) by blast
    then have "getParent f h = Some d" unfolding f(4) using w(1) False by blast
    then show ?thesis by simp
  qed
  ultimately show ?thesis using f(1) by blast
qed


theorem natural_loops_found_witness:
  "\<exists>f. LoopAnalysis_run nested_loops = Some f \<and> (Some 1 \<in> set (la_roots f) \<or> getParent f 1 \<noteq> None) \<and>
    (3, 1) \<in> {(x, y). getParent f x = Some y}\<^sup>*"
proof -
  let ?E = "flow_edges nested_loops"
  have E: "(u, v) \<in> ?E \<longleftrightarrow> (u, v) \<in> {(0, 1), (1, 2), (1, 4), (2, 3), (2, 1), (3, 2)}" for u v
    by (cases "u < 5") (auto simp: flow_edges_def nested_loops_def less_Suc_eq numeral_eq_Suc)
  have ok: "flow_ok nested_loops" by code_simp
  have r: "(0, 1) \<in> ?E" "(1, 2) \<in> ?E" "(2, 3) \<in> ?E" "(2, 1) \<in> ?E" "(3, 2) \<in> avoiding ?E 1" by (simp_all add: E avoiding_def)
  have "v = 0 \<longleftrightarrow> u = (0::nat)" if "(u, v) \<in> (avoiding ?E 1)\<^sup>*" for u v
    using that by (induction rule: rtrancl_induct) (auto simp: avoiding_def E)
  from this [of 0 2] have d: "on_all_paths ?E 1 2" by (auto simp: dom_iff)
  have p: "(0, 2) \<in> ?E\<^sup>*" "(0, 3) \<in> ?E\<^sup>*" using r by (meson rtrancl.rtrancl_into_rtrancl rtrancl.rtrancl_refl)+
  show ?thesis using natural_loops_found [OF ok r(4) d p(1)] p(2) r(5) by blast
qed

text \<open>
  An example of a loop that can be entered at two blocks and is missed: blocks are marked
  when they are pushed, so the second block is no descendant of the first and neither edge
  between the two is a back edge. In a depth-first search one of them would be.
\<close>

theorem two_entry_loop_missed:
  "map_option (\<lambda>f. (la_roots f, map (getParent f) [0, 1, 2])) (LoopAnalysis_run [Some [1, 2], Some [2], Some [1]]) =
     Some ([], [None, None, None]) \<and>
   (1, 2) \<in> flow_edges [Some [1, 2], Some [2], Some [1]] \<and> (2, 1) \<in> flow_edges [Some [1, 2], Some [2], Some [1]]"
proof (intro conjI)
  show "map_option (\<lambda>f. (la_roots f, map (getParent f) [0, 1, 2])) (LoopAnalysis_run [Some [1, 2], Some [2], Some [1]]) =
     Some ([], [None, None, None])" by code_simp
qed (simp_all add: flow_edges_def)

end
