(* ===== verification/TopSort.thy ===== *)
theory TopSort
  imports Main
begin

text \<open>
  The topological sort of \<open>util/sort.cpp\<close> and its use on basic blocks in \<open>ir/function.cpp\<close>. The
  depth-first search marks a vertex, visits its children, and appends the vertex to the output,
  which is reversed at the end. Edges that close a loop are ignored: they are followed to a
  vertex that is already marked.
\<close>

section \<open>The sort\<close>

text \<open>
  The state is the vector of marks and the vertices finished so far. \<open>visit\<close> of the source is
  \<open>visit_all\<close> on one vertex; the loop over the children is \<open>visit_all\<close> on all of them. The
  children of a vertex are a list: the order of an unordered set is whatever the set has.
\<close>

type_synonym edges = "nat list list"

function (sequential) visit_all ::
  "edges \<Rightarrow> nat list \<Rightarrow> bool list \<Rightarrow> nat list \<Rightarrow> bool list \<times> nat list" where
  "visit_all E [] marked out = (marked, out)"
| "visit_all E (v # vs) marked out =
     (if v < length marked \<and> \<not> marked ! v
      then (case visit_all E (E ! v) (marked[v := True]) out of
              (m, s) \<Rightarrow> visit_all E vs m (s @ [v]))
      else visit_all E vs marked out)"
  by pat_completeness auto

definition unmarked :: "bool list \<Rightarrow> nat set" where
  "unmarked m = {i. i < length m \<and> \<not> m ! i}"

lemma finite_unmarked [simp]: "finite (unmarked m)"
  by (simp add: unmarked_def)

lemma unmarked_mark: "v < length m \<Longrightarrow> unmarked (m[v := True]) = unmarked m - {v}"
  by (auto simp: unmarked_def nth_list_update)

lemma visit_all_shrinks:
  "visit_all_dom (E, vs, marked, out) \<Longrightarrow> visit_all E vs marked out = (m', s') \<Longrightarrow>
     length m' = length marked \<and> unmarked m' \<subseteq> unmarked marked"
proof (induction arbitrary: m' s' rule: visit_all.pinduct)
  case (1 E marked out)
  then show ?case by (simp add: visit_all.psimps)
next
  case (2 E v vs marked out)
  show ?case
  proof (cases "v < length marked \<and> \<not> marked ! v")
    case True
    obtain m s where r: "visit_all E (E ! v) (marked[v := True]) out = (m, s)" by fastforce
    have "length m = length marked \<and> unmarked m \<subseteq> unmarked marked"
      using 2(2) [OF True r] True by (auto simp: unmarked_mark)
    moreover have "visit_all E vs m (s @ [v]) = (m', s')"
      using 2(5) r True by (simp add: visit_all.psimps(2) [OF 2(1)])
    ultimately show ?thesis using 2(3) [OF True r [symmetric]] by auto
  next
    case False
    have "visit_all E vs marked out = (m', s')"
      using 2(5) unfolding visit_all.psimps(2) [OF 2(1)] if_not_P [OF False] .
    then show ?thesis using 2(4) False by blast
  qed
qed

definition visit_rel :: "((edges \<times> nat list \<times> bool list \<times> nat list) \<times>
    (edges \<times> nat list \<times> bool list \<times> nat list)) set" where
  "visit_rel = inv_image (finite_psubset <*lex*> less_than)
                 (\<lambda>(E, vs, marked, out). (unmarked marked, length vs))"

lemma visit_relI:
  "unmarked m' \<subset> unmarked m \<or> unmarked m' = unmarked m \<and> length ws < length vs \<Longrightarrow>
     ((E', ws, m', s'), (E, vs, m, s)) \<in> visit_rel"
  by (auto simp: visit_rel_def finite_psubset_def)

termination visit_all
proof (relation visit_rel)
  show "wf visit_rel"
    unfolding visit_rel_def by (intro wf_inv_image wf_lex_prod wf_finite_psubset wf_less_than)
next
  fix E :: edges and v vs marked out x y
  assume v: "v < length marked \<and> \<not> marked ! v"
  then have "v \<in> unmarked marked" by (simp add: unmarked_def)
  then have less: "unmarked (marked[v := True]) \<subset> unmarked marked"
    using v unmarked_mark [of v marked] by blast
  show "((E, E ! v, marked[v := True], out), E, v # vs, marked, out) \<in> visit_rel"
    by (rule visit_relI, rule disjI1, rule less)
  assume "(x, y) = visit_all E (E ! v) (marked[v := True]) out"
    "visit_all_dom (E, E ! v, marked[v := True], out)"
  then have "unmarked x \<subseteq> unmarked (marked[v := True])"
    using visit_all_shrinks [of E "E ! v" "marked[v := True]" out x y] by simp
  then have "unmarked x \<subset> unmarked marked" using less by (rule subset_psubset_trans)
  then show "((E, vs, x, y @ [v]), E, v # vs, marked, out) \<in> visit_rel"
    by (rule visit_relI [OF disjI1])
next
  fix E :: edges and v vs marked out
  show "((E, vs, marked, out), E, v # vs, marked, out) \<in> visit_rel" by (rule visit_relI) simp
qed

definition top_sort :: "edges \<Rightarrow> nat list" where
  "top_sort E =
     (case visit_all E [1..<length E] (replicate (length E) False) [] of (marked, out) \<Rightarrow>
        rev (snd (if E \<noteq> [] then visit_all E [0] marked out else (marked, out))))"

section \<open>What a search adds\<close>

definition edge :: "edges \<Rightarrow> (nat \<times> nat) set" where
  "edge E = {(v, c). v < length E \<and> c \<in> set (E ! v)}"

definition wf_edges :: "edges \<Rightarrow> bool" where
  "wf_edges E \<longleftrightarrow> (\<forall>cs \<in> set E. \<forall>c \<in> set cs. c < length E)"

definition marks :: "bool list \<Rightarrow> nat set" where
  "marks m = {i. i < length m \<and> m ! i}"

lemma marks_mark: "v < length m \<Longrightarrow> marks (m[v := True]) = insert v (marks m)"
  by (auto simp: marks_def nth_list_update)

text \<open>
  Every child of a finished vertex was finished before it, or the edge closes a loop.
\<close>

definition finished_in_order :: "edges \<Rightarrow> nat list \<Rightarrow> bool" where
  "finished_in_order E s \<longleftrightarrow>
     (\<forall>xs v ys. s = xs @ v # ys \<longrightarrow>
        (\<forall>c \<in> set (E ! v). c \<in> set xs \<or> (c, v) \<in> (edge E)\<^sup>*))"

lemma finished_snoc:
  assumes "finished_in_order E s" "\<forall>c \<in> set (E ! v). c \<in> set s \<or> (c, v) \<in> (edge E)\<^sup>*"
  shows "finished_in_order E (s @ [v])"
  unfolding finished_in_order_def
proof (intro allI impI)
  fix xs w ys assume e: "s @ [v] = xs @ w # ys"
  show "\<forall>c \<in> set (E ! w). c \<in> set xs \<or> (c, w) \<in> (edge E)\<^sup>*"
  proof (cases ys rule: rev_cases)
    case Nil
    then show ?thesis using e assms(2) by simp
  next
    case (snoc ys' y)
    then have "s = xs @ w # ys'" using e by simp
    then show ?thesis using assms(1) by (auto simp: finished_in_order_def)
  qed
qed

text \<open>
  The invariant of the search over its marks \<open>m\<close> and its output \<open>s\<close>: a finished vertex is
  marked and finished once, in order.
\<close>

definition search_inv :: "edges \<Rightarrow> bool list \<Rightarrow> nat list \<Rightarrow> bool" where
  "search_inv E m s \<longleftrightarrow> length m = length E \<and> set s \<subseteq> marks m \<and> distinct s \<and> finished_in_order E s"

lemma visit_all_search:
  assumes "wf_edges E" "search_inv E marked out" "set vs \<subseteq> {..<length E}"
    and "\<forall>g \<in> marks marked - set out. \<forall>v \<in> set vs. (g, v) \<in> (edge E)\<^sup>*"
    and "visit_all E vs marked out = (m', s')"
  shows "search_inv E m' s' \<and> (\<exists>t. s' = out @ t \<and> marks m' = marks marked \<union> set t \<and>
           set t \<inter> marks marked = {} \<and> set t \<subseteq> set vs \<union> \<Union> (set ` set E)) \<and>
         set vs \<subseteq> marks m'"
  using assms
proof (induction E vs marked out arbitrary: m' s' rule: visit_all.induct)
  case (1 E marked out)
  then show ?case by auto
next
  case (2 E v vs marked out)
  show ?case
  proof (cases "v < length marked \<and> \<not> marked ! v")
    case False
    then have "v \<in> marks marked" using 2(5,6) by (auto simp: marks_def search_inv_def)
    then show ?thesis using 2(3) [OF False 2(4,5)] 2(6-8) False by auto
  next
    case True
    let ?mk = "marked[v := True]"
    obtain m s where r: "visit_all E (E ! v) ?mk out = (m, s)" by fastforce
    have v: "v < length E" "v \<notin> marks marked" "length marked = length E"
      using True 2(5) by (auto simp: search_inv_def marks_def)
    have kids: "set (E ! v) \<subseteq> {..<length E}" "set (E ! v) \<subseteq> \<Union> (set ` set E)"
      using v(1) 2(4) by (force simp: wf_edges_def)+
    have mk: "marks ?mk = insert v (marks marked)" using v by (simp add: marks_mark)
    have step: "(v, c) \<in> (edge E)\<^sup>*" if "c \<in> set (E ! v)" for c
      using that v(1) by (auto simp: edge_def)
    have gray: "\<forall>g \<in> marks ?mk - set out. \<forall>c \<in> set (E ! v). (g, c) \<in> (edge E)\<^sup>*"
      using 2(7) step mk by (auto intro: rtrancl_trans)
    have inv: "search_inv E ?mk out" using 2(5) mk v by (auto simp: search_inv_def)
    from 2(1) [OF True 2(4) inv kids(1) gray r]
    obtain t where i: "search_inv E m s" and t: "s = out @ t" "marks m = insert v (marks marked) \<union> set t"
      "set t \<inter> insert v (marks marked) = {}" "set t \<subseteq> set (E ! v) \<union> \<Union> (set ` set E)"
      "set (E ! v) \<subseteq> marks m" using mk by auto
    have "\<forall>c \<in> set (E ! v). c \<in> set s \<or> (c, v) \<in> (edge E)\<^sup>*"
      using t 2(7) by auto
    then have i2: "search_inv E m (s @ [v])"
      using i t 2(5) v finished_snoc [of E s v] by (auto simp: search_inv_def)
    have rest: "visit_all E vs m (s @ [v]) = (m', s')" using 2(8) r True by simp
    have gray2: "\<forall>g \<in> marks m - set (s @ [v]). \<forall>w \<in> set vs. (g, w) \<in> (edge E)\<^sup>*"
      using 2(7) t by auto
    from 2(2) [OF True r [symmetric] 2(4) i2 _ gray2 rest] 2(6)
    obtain t2 where "search_inv E m' s'" "s' = s @ v # t2" "marks m' = marks m \<union> set t2"
      "set t2 \<inter> marks m = {}" "set t2 \<subseteq> set vs \<union> \<Union> (set ` set E)" "set vs \<subseteq> marks m'"
      by auto
    then show ?thesis using t kids v by auto
  qed
qed

text \<open>
  The sort of a graph is a permutation of its vertices in which every edge that does not close
  a loop leads forward, and vertex 0, which is visited last, comes first when no edge enters it.
\<close>

lemma rev_splits:
  assumes "rev s = xs @ v # ys" shows "s = rev ys @ v # rev xs"
  using arg_cong [OF assms, of rev] by simp

lemma top_sort_correct:
  assumes "wf_edges E"
  shows "distinct (top_sort E)" and "set (top_sort E) = {..<length E}"
    and "top_sort E = xs @ v # ys \<Longrightarrow> c \<in> set (E ! v) \<Longrightarrow> c \<in> set ys \<or> (c, v) \<in> (edge E)\<^sup>*"
    and "E \<noteq> [] \<Longrightarrow> \<forall>cs \<in> set E. 0 \<notin> set cs \<Longrightarrow> \<exists>ys. top_sort E = 0 # ys"
proof -
  let ?n = "length E"
  obtain m1 s1 where r1: "visit_all E [1..<?n] (replicate ?n False) [] = (m1, s1)" by fastforce
  have 0: "search_inv E (replicate ?n False) []" "marks (replicate ?n False) = {}"
    by (auto simp: search_inv_def finished_in_order_def marks_def)
  have dom: "set [1..<?n] \<subseteq> {..<?n}" by auto
  have i1: "search_inv E m1 s1" "marks m1 = set s1" "set s1 \<subseteq> set [1..<?n] \<union> \<Union> (set ` set E)"
    "set [1..<?n] \<subseteq> set s1"
    using visit_all_search [OF assms 0(1) dom _ r1] 0(2) by auto
  define s2 where "s2 = snd (if E \<noteq> [] then visit_all E [0] m1 s1 else (m1, s1))"
  have ts: "top_sort E = rev s2" by (simp only: top_sort_def r1 s2_def prod.case)
  have i2: "distinct s2 \<and> finished_in_order E s2 \<and> set s2 = {..<?n} \<and>
    (E \<noteq> [] \<longrightarrow> 0 \<notin> set s1 \<longrightarrow> s2 = s1 @ [0])"
  proof (cases "E = []")
    case True
    then show ?thesis using i1 by (auto simp: s2_def search_inv_def marks_def)
  next
    case False
    obtain m3 s3 where r: "visit_all E [0] m1 s1 = (m3, s3)" by fastforce
    with False have s2: "s2 = s3" by (simp add: s2_def del: visit_all.simps)
    from visit_all_search [OF assms i1(1) _ _ r] False i1(2)
    obtain t where t: "search_inv E m3 s3" "s3 = s1 @ t" "marks m3 = set s3"
      "set t \<inter> set s1 = {}" "0 \<in> set s3" by auto
    have sub: "set s3 \<subseteq> {..<?n}" using t(1,3) by (auto simp: search_inv_def marks_def)
    have all: "set s3 = {..<?n}"
    proof
      show "{..<?n} \<subseteq> set s3"
      proof
        fix x assume "x \<in> {..<?n}"
        then show "x \<in> set s3" using i1(4) t(2,5) by (cases "x = 0") auto
      qed
    qed (rule sub)
    have "t = [0]" if "0 \<notin> set s1"
    proof -
      have "set t \<subseteq> {0}" using t(2,4) sub i1(4) by (force simp: subset_iff)
      moreover have "0 \<in> set t" using t(2,5) that by auto
      moreover have "distinct t" using t(1,2) by (simp add: search_inv_def)
      ultimately show ?thesis
        by (cases t; cases "tl t") (auto simp: subset_iff)
    qed
    then show ?thesis using t(1,2) all s2 by (auto simp: search_inv_def)
  qed
  show "distinct (top_sort E)" "set (top_sort E) = {..<?n}" using i2 ts by auto
  show "c \<in> set ys \<or> (c, v) \<in> (edge E)\<^sup>*"
    if "top_sort E = xs @ v # ys" "c \<in> set (E ! v)"
  proof -
    have "s2 = rev ys @ v # rev xs" using rev_splits that(1) ts by metis
    with i2 that(2) have "c \<in> set (rev ys) \<or> (c, v) \<in> (edge E)\<^sup>*"
      unfolding finished_in_order_def by blast
    then show ?thesis by simp
  qed
  show "\<exists>ys. top_sort E = 0 # ys" if "E \<noteq> []" "\<forall>cs \<in> set E. 0 \<notin> set cs"
  proof -
    have "0 \<notin> set s1" using i1(3) that(2) by auto
    then show ?thesis using i2 that(1) ts by simp
  qed
qed

section \<open>Sorting basic blocks\<close>

text \<open>
  \<open>top_sort\<close> of \<open>ir/function.cpp\<close>: blocks are numbered by their position, an edge is drawn to
  every target and every loop exit block that is in the list, and the numbers that come out
  are read back as blocks. \<open>targets\<close> and \<open>getExitBlocks\<close> are given by the caller's blocks.
\<close>

definition bb_map :: "'b list \<Rightarrow> 'b \<Rightarrow> nat option" where
  "bb_map bbs = map_of (zip bbs [0..<length bbs])"

definition bb_edges :: "('b \<Rightarrow> 'b list) \<Rightarrow> ('b \<Rightarrow> 'b list) \<Rightarrow> 'b list \<Rightarrow> edges" where
  "bb_edges targets exits bbs =
     map (\<lambda>bb. remdups (List.map_filter (bb_map bbs) (targets bb @ exits bb))) bbs"

definition top_sort_bbs :: "('b \<Rightarrow> 'b list) \<Rightarrow> ('b \<Rightarrow> 'b list) \<Rightarrow> 'b list \<Rightarrow> 'b list" where
  "top_sort_bbs targets exits bbs = map ((!) bbs) (top_sort (bb_edges targets exits bbs))"

definition flow :: "('b \<Rightarrow> 'b list) \<Rightarrow> ('b \<Rightarrow> 'b list) \<Rightarrow> 'b list \<Rightarrow> ('b \<times> 'b) set" where
  "flow targets exits bbs = {(a, b). a \<in> set bbs \<and> b \<in> set bbs \<and> b \<in> set (targets a @ exits a)}"

lemma bb_map_Some:
  assumes "distinct bbs" shows "bb_map bbs b = Some i \<longleftrightarrow> i < length bbs \<and> bbs ! i = b"
  using assms by (auto simp: bb_map_def in_set_zip map_of_zip_nth dest!: map_of_SomeD)

lemma bb_edges_nth:
  assumes "distinct bbs" "i < length bbs"
  shows "c \<in> set (bb_edges targets exits bbs ! i) \<longleftrightarrow>
           c < length bbs \<and> bbs ! c \<in> set (targets (bbs ! i) @ exits (bbs ! i))"
proof -
  let ?ds = "targets (bbs ! i) @ exits (bbs ! i)"
  have "c \<in> set (bb_edges targets exits bbs ! i) \<longleftrightarrow> (\<exists>d \<in> set ?ds. bb_map bbs d = Some c)"
    using assms(2) by (force simp: bb_edges_def map_filter_def image_iff)
  then show ?thesis using bb_map_Some [OF assms(1)] by auto
qed

lemma edge_flow:
  assumes "distinct bbs" "(c, v) \<in> (edge (bb_edges targets exits bbs))\<^sup>*"
  shows "(bbs ! c, bbs ! v) \<in> (flow targets exits bbs)\<^sup>*"
  using assms(2)
proof (induction rule: rtrancl_induct)
  case (step y z)
  then have "(bbs ! y, bbs ! z) \<in> flow targets exits bbs"
    using bb_edges_nth [OF assms(1), of y z targets exits]
    by (auto simp: edge_def flow_def bb_edges_def)
  with step.IH show ?case by (rule rtrancl_into_rtrancl)
qed simp

lemma wf_bb_edges:
  assumes "distinct bbs" shows "wf_edges (bb_edges targets exits bbs)"
  unfolding wf_edges_def all_set_conv_all_nth [of "bb_edges targets exits bbs"]
  using bb_edges_nth [OF assms, of _ _ targets exits] by (auto simp: bb_edges_def)

text \<open>
  C21 (blocks are sorted topologically): on distinct blocks the sort returns the same blocks,
  each once. Every target or loop exit of a block that is in the list comes after the block,
  unless control can flow from it back to the block. The entry block stays in front when
  nothing leads to it.
\<close>

theorem top_sort_bbs_correct:
  assumes "distinct bbs"
  shows "distinct (top_sort_bbs targets exits bbs) \<and> set (top_sort_bbs targets exits bbs) = set bbs \<and>
    (\<forall>xs b ys d. top_sort_bbs targets exits bbs = xs @ b # ys \<longrightarrow> (b, d) \<in> flow targets exits bbs \<longrightarrow>
       d \<in> set ys \<or> (d, b) \<in> (flow targets exits bbs)\<^sup>*) \<and>
    (\<forall>entry rest. bbs = entry # rest \<longrightarrow> (\<forall>b. (b, entry) \<notin> flow targets exits bbs) \<longrightarrow>
       (\<exists>ys. top_sort_bbs targets exits bbs = entry # ys))"
proof (intro conjI allI impI)
  let ?E = "bb_edges targets exits bbs" and ?T = "top_sort_bbs targets exits bbs"
  note wf = wf_bb_edges [OF assms, of targets exits]
  have len: "length ?E = length bbs" by (simp add: bb_edges_def)
  note ts = top_sort_correct [OF wf]
  have in_range: "set (top_sort ?E) = {..<length bbs}" using ts(2) len by simp
  have inj: "inj_on ((!) bbs) {..<length bbs}"
    using assms by (auto simp: inj_on_def nth_eq_iff_index_eq)
  show "distinct ?T" using ts(1) inj in_range by (simp add: top_sort_bbs_def distinct_map)
  show "set ?T = set bbs"
    using in_range nth_image [of "length bbs" bbs] by (simp add: top_sort_bbs_def lessThan_atLeast0)
  show "d \<in> set ys \<or> (d, b) \<in> (flow targets exits bbs)\<^sup>*"
    if split: "?T = xs @ b # ys" and e: "(b, d) \<in> flow targets exits bbs" for xs b ys d
  proof -
    from split obtain ks v js where i: "top_sort ?E = ks @ v # js" "b = bbs ! v"
      "ys = map ((!) bbs) js"
      by (auto simp: top_sort_bbs_def map_eq_append_conv map_eq_Cons_conv)
    have v: "v < length bbs" using i(1) in_range by (auto simp: set_eq_iff)
    from e obtain c where c: "c < length bbs" "bbs ! c = d" "d \<in> set (targets b @ exits b)"
      by (auto simp: flow_def in_set_conv_nth)
    then have "c \<in> set (?E ! v)" using bb_edges_nth [OF assms v] i(2) by simp
    then have "c \<in> set js \<or> (c, v) \<in> (edge ?E)\<^sup>*" using ts(3) [OF i(1)] by blast
    then show ?thesis using edge_flow [OF assms, of c v] c(2) i(2,3) by auto
  qed
  show "\<exists>ys. ?T = entry # ys"
    if bbs: "bbs = entry # rest" and no: "\<forall>b. (b, entry) \<notin> flow targets exits bbs" for entry rest
  proof -
    have "\<forall>cs \<in> set ?E. 0 \<notin> set cs"
    proof
      fix cs assume "cs \<in> set ?E"
      then obtain i where i: "i < length bbs" "cs = ?E ! i" using len by (metis in_set_conv_nth)
      have "(bbs ! i, bbs ! 0) \<notin> flow targets exits bbs" using no bbs by simp
      then show "0 \<notin> set cs"
        using bb_edges_nth [OF assms i(1), of 0 targets exits] i by (auto simp: flow_def)
    qed
    moreover have "?E \<noteq> []" using bbs len by auto
    ultimately obtain ys where "top_sort ?E = 0 # ys" using ts(4) by blast
    then show ?thesis using bbs by (simp add: top_sort_bbs_def)
  qed
qed

definition diamond :: "nat \<Rightarrow> nat list" where
  "diamond b = (if b = 0 then [2, 1] else if b = 1 then [3] else if b = 2 then [1, 3] else [])"

theorem top_sort_bbs_correct_witness:
  "top_sort_bbs diamond (\<lambda>_. []) [0, 1, 2, 3] = [0, 2, 1, 3] \<and>
   distinct (top_sort_bbs diamond (\<lambda>_. []) [0, 1, 2, 3])"
proof
  show "top_sort_bbs diamond (\<lambda>_. []) [0, 1, 2, 3] = [0, 2, 1, 3]"
    by code_simp
  show "distinct (top_sort_bbs diamond (\<lambda>_. []) [0, 1, 2, 3])"
    using top_sort_bbs_correct [of "[0, 1, 2, 3]" diamond "\<lambda>_. []"] by simp
qed

end
