(* ===== verification/DomOrder.thy ===== *)
theory DomOrder
  imports TopSort DomTree
begin

text \<open>
  \<open>Function::topSort\<close> followed by \<open>DomTree\<close>, as in \<open>Function::unroll\<close>. The sort starts its searches at
  the blocks after the entry, so it need not give a reverse post-order from the entry; but it
  keeps the property that every block has a predecessor before it, which the dominator
  algorithm needs.
\<close>

section \<open>Parents in the search\<close>

text \<open>Every vertex added to the output is one of \<open>A\<close> or has a predecessor added later.\<close>

fun late :: "edges \<Rightarrow> nat set \<Rightarrow> nat list \<Rightarrow> bool" where
  "late E A [] \<longleftrightarrow> True"
| "late E A (v # t) \<longleftrightarrow> (v \<in> A \<or> (\<exists>u\<in>set t. (u, v) \<in> edge E)) \<and> late E A t"

lemma late_append:
  "late E B s \<Longrightarrow> late E A t \<Longrightarrow> \<forall>b\<in>B. b \<in> A \<or> (\<exists>u\<in>set t. (u, b) \<in> edge E) \<Longrightarrow> late E A (s @ t)"
  by (induction s) auto

lemma late_mono: "late E A t \<Longrightarrow> A \<subseteq> B \<Longrightarrow> late E B t"
  by (induction t) auto

lemma late_split: "late E A (xs @ v # ys) \<Longrightarrow> v \<in> A \<or> (\<exists>u\<in>set ys. (u, v) \<in> edge E)"
  by (induction xs) auto

lemma marks_length: "visit_all E vs marked out = (m', s') \<Longrightarrow> length m' = length marked \<and> marks marked \<subseteq> marks m'"
proof (induction E vs marked out arbitrary: m' s' rule: visit_all.induct)
  case (2 E v vs marked out)
  show ?case
  proof (cases "v < length marked \<and> \<not> marked ! v")
    case True
    obtain m s where r: "visit_all E (E ! v) (marked[v := True]) out = (m, s)" by fastforce
    have "length m = length marked \<and> marks marked \<subseteq> marks m"
      using 2(1) [OF True r] True by (auto simp: marks_mark)
    moreover have "visit_all E vs m (s @ [v]) = (m', s')" using 2(4) True r by simp
    ultimately show ?thesis using 2(2) [OF True r [symmetric]] by fastforce
  next
    case False
    then show ?thesis using 2(3) [OF False] 2(4) by auto
  qed
qed simp

lemma visit_all_late:
  assumes "visit_all E vs marked out = (m', s')" "length marked = length E" "wf_edges E"
  shows "\<exists>t. s' = out @ t \<and> late E (set vs - marks marked) t \<and> (set vs \<subseteq> {..<length E} \<longrightarrow> set vs \<subseteq> marks m') \<and>
    (\<forall>v\<in>set t. set (E ! v) \<subseteq> marks m') \<and> marks m' = marks marked \<union> set t"
  using assms
proof (induction E vs marked out arbitrary: m' s' rule: visit_all.induct)
  case (1 E marked out)
  then show ?case by simp
next
  case (2 E v vs marked out)
  show ?case
  proof (cases "v < length marked \<and> \<not> marked ! v")
    case True
    obtain m s where r: "visit_all E (E ! v) (marked[v := True]) out = (m, s)" by fastforce
    have v: "v < length E" using True 2(5) by simp
    have mk: "marks (marked[v := True]) = insert v (marks marked)" using True by (simp add: marks_mark)
    from 2(1) [OF True r] 2(5,6) obtain t1 where t1: "s = out @ t1"
      "late E (set (E ! v) - marks (marked[v := True])) t1" "set (E ! v) \<subseteq> {..<length E} \<longrightarrow> set (E ! v) \<subseteq> marks m"
      "\<forall>w\<in>set t1. set (E ! w) \<subseteq> marks m" "marks m = marks (marked[v := True]) \<union> set t1" by auto
    have rest: "visit_all E vs m (s @ [v]) = (m', s')" using 2(4) True r by simp
    have len: "length m = length E" using marks_length [OF r] 2(5) by simp
    from 2(2) [OF True r [symmetric] rest len 2(6)] obtain t2 where t2: "s' = (s @ [v]) @ t2"
      "late E (set vs - marks m) t2" "set vs \<subseteq> {..<length E} \<longrightarrow> set vs \<subseteq> marks m'"
      "\<forall>w\<in>set t2. set (E ! w) \<subseteq> marks m'" "marks m' = marks m \<union> set t2" by auto
    have "late E (set (v # vs) - marks marked) (t1 @ v # t2)"
    proof (rule late_append [OF t1(2)])
      have "late E (set (v # vs) - marks marked) t2"
        by (rule late_mono [OF t2(2)]) (use t1(5) mk in auto)
      then show "late E (set (v # vs) - marks marked) (v # t2)" using True by (simp add: marks_def)
      show "\<forall>b\<in>set (E ! v) - marks (marked[v := True]).
          b \<in> set (v # vs) - marks marked \<or> (\<exists>u\<in>set (v # t2). (u, b) \<in> edge E)"
        using v by (auto simp: edge_def)
    qed
    moreover have "set (E ! v) \<subseteq> marks m" using t1(3) 2(6) v by (auto simp: wf_edges_def)
    moreover have "v \<in> marks m" using t1(5) mk by simp
    ultimately show ?thesis using t1 t2 mk by (intro exI [of _ "t1 @ v # t2"]) auto
  next
    case False
    then have "visit_all E vs marked out = (m', s')" using 2(4) by auto
    moreover have "v \<in> marks marked \<or> \<not> v < length E" using False 2(5) by (auto simp: marks_def)
    moreover obtain t where t: "s' = out @ t" "late E (set vs - marks marked) t"
      "set vs \<subseteq> {..<length E} \<longrightarrow> set vs \<subseteq> marks m'" "\<forall>v\<in>set t. set (E ! v) \<subseteq> marks m'"
      "marks m' = marks marked \<union> set t"
      using 2(3) [OF False calculation(1) 2(5,6)] by blast
    moreover have "late E (set (v # vs) - marks marked) t" by (rule late_mono [OF t(2)]) auto
    ultimately show ?thesis by (intro exI [of _ t]) auto
  qed
qed

section \<open>Every block keeps an earlier predecessor\<close>

definition search_roots :: "edges \<Rightarrow> nat set" where
  "search_roots E = {b. \<forall>u. 0 < u \<longrightarrow> u < b \<longrightarrow> (u, b) \<notin> edge E}"

definition closed :: "edges \<Rightarrow> bool list \<Rightarrow> bool" where
  "closed E m \<longleftrightarrow> length m = length E \<and> (\<forall>v\<in>marks m. set (E ! v) \<subseteq> marks m)"

lemma visit_all_Cons:
  "visit_all E (v # vs) m s = (case visit_all E [v] m s of (m', s') \<Rightarrow> visit_all E vs m' s')"
  by (auto split: prod.splits)

lemma visit_one:
  assumes "wf_edges E" "closed E m" "{1..<k} \<subseteq> marks m" "k < length E" "visit_all E [k] m s = (m', s')"
  shows "closed E m' \<and> {1..<Suc k} \<subseteq> marks m' \<and> (\<exists>t. s' = s @ t \<and> late E (search_roots E) t)"
proof -
  have len: "length m = length E" using assms(2) by (simp add: closed_def)
  from visit_all_late [OF assms(5) len assms(1)] assms(4) obtain t where
    t: "s' = s @ t" "late E ({k} - marks m) t" "k \<in> marks m'" "\<forall>v\<in>set t. set (E ! v) \<subseteq> marks m'"
      "marks m' = marks m \<union> set t" by auto
  have "(u, k) \<notin> edge E" if "0 < u" "u < k" "k \<notin> marks m" for u
  proof -
    have "u \<in> marks m" using assms(3) that(1,2) by auto
    then have "set (E ! u) \<subseteq> marks m" using assms(2) by (simp add: closed_def)
    then show ?thesis using that(3) by (auto simp: edge_def)
  qed
  then have "{k} - marks m \<subseteq> search_roots E" by (auto simp: search_roots_def)
  then have "late E (search_roots E) t" by (rule late_mono [OF t(2)])
  moreover have "closed E m'" using assms(2) t(4,5) marks_length [OF assms(5)] by (auto simp: closed_def)
  moreover have "{1..<Suc k} \<subseteq> marks m'" using assms(3) t(3,5) by (auto simp: less_Suc_eq)
  ultimately show ?thesis using t(1) by blast
qed

lemma visit_range:
  assumes "wf_edges E"
  shows "closed E m \<Longrightarrow> {1..<k} \<subseteq> marks m \<Longrightarrow> late E (search_roots E) s \<Longrightarrow>
    visit_all E [k..<length E] m s = (m', s') \<Longrightarrow> closed E m' \<and> late E (search_roots E) s'"
proof (induction "length E - k" arbitrary: k m s)
  case 0
  then show ?case by simp
next
  case (Suc j)
  have k: "k < length E" using Suc.hyps(2) by simp
  obtain m1 s1 where r: "visit_all E [k] m s = (m1, s1)" by fastforce
  from visit_one [OF assms Suc.prems(1,2) k r] obtain t where
    t: "closed E m1" "{1..<Suc k} \<subseteq> marks m1" "s1 = s @ t" "late E (search_roots E) t" by blast
  have "late E (search_roots E) s1" unfolding t(3) by (rule late_append [OF Suc.prems(3) t(4)]) simp
  moreover have "visit_all E [Suc k..<length E] m1 s1 = (m', s')"
    using Suc.prems(4) r k visit_all_Cons [of E k "[Suc k..<length E]" m s] by (simp add: upt_conv_Cons del: visit_all.simps)
  moreover have "j = length E - Suc k" using Suc.hyps(2) by simp
  ultimately show ?case using Suc.hyps(1) [OF _ t(1,2)] by blast
qed

lemma before_split: "v \<in> set bs \<Longrightarrow> xs @ v # ys = as @ p # bs \<Longrightarrow> distinct (xs @ v # ys) \<Longrightarrow> p \<in> set xs"
proof (induction xs arbitrary: as)
  case Nil
  then show ?case by (cases as) auto
next
  case (Cons x xs)
  then show ?case by (cases as) auto
qed

text \<open>In the sorted order a vertex follows one of its predecessors, unless it is a root of the search.\<close>

lemma top_sort_parent:
  assumes "wf_edges E" "top_sort E = xs @ v # ys"
  shows "v \<in> search_roots E \<or> (\<exists>u\<in>set xs. (u, v) \<in> edge E)"
proof -
  let ?n = "length E"
  have "v \<in> set (top_sort E)" using assms(2) by simp
  then have "E \<noteq> []" unfolding top_sort_correct(2) [OF assms(1)] by auto
  obtain m1 s1 where r1: "visit_all E [1..<?n] (replicate ?n False) [] = (m1, s1)" by fastforce
  obtain m2 s2 where r2: "visit_all E [0] m1 s1 = (m2, s2)" by fastforce
  have e: "top_sort E = rev s2" unfolding top_sort_def r1 prod.case if_P [OF \<open>E \<noteq> []\<close>] r2 snd_conv ..
  have "closed E (replicate ?n False)" by (auto simp: closed_def marks_def)
  then have c: "closed E m1" "late E (search_roots E) s1"
    using visit_range [OF assms(1) _ _ _ r1] by simp_all
  have len: "length m1 = length E" using c(1) by (simp add: closed_def)
  obtain t where t: "s2 = s1 @ t" "late E (set [0] - marks m1) t" using visit_all_late [OF r2 len assms(1)] by blast
  have "late E (search_roots E) t" by (rule late_mono [OF t(2)]) (auto simp: search_roots_def)
  then have "late E (search_roots E) s2" unfolding t(1) by (rule late_append [OF c(2)]) simp
  then show ?thesis
    using late_split [of E "search_roots E" "rev ys" v "rev xs"]
    unfolding rev_splits [OF assms(2) [unfolded e]] set_rev by blast
qed

section \<open>Blocks\<close>

text \<open>
  The control-flow graph of a list of blocks: a block without targets does not end in a jump,
  and what is not in the list, such as the sink, comes after it.
\<close>

definition bb_pos :: "'b list \<Rightarrow> 'b \<Rightarrow> nat" where
  "bb_pos bbs b = (case bb_map bbs b of Some i \<Rightarrow> i | None \<Rightarrow> length bbs)"

definition cfg_of :: "('b \<Rightarrow> 'b list) \<Rightarrow> 'b list \<Rightarrow> cfg" where
  "cfg_of targets bbs =
     map (\<lambda>b. if targets b = [] then None else Some (map (bb_pos bbs) (targets b))) bbs"

lemma bb_pos_iff: "distinct bbs \<Longrightarrow> i < length bbs \<Longrightarrow> bb_pos bbs b = i \<longleftrightarrow> bbs ! i = b"
  using bb_map_Some [of bbs b i] bb_map_Some [of bbs b "bb_pos bbs b"]
  by (cases "bb_map bbs b") (simp_all add: bb_pos_def)

lemma flow_edges_cfg_of:
  assumes "distinct bbs" "j < length bbs"
  shows "(i, j) \<in> flow_edges (cfg_of targets bbs) \<longleftrightarrow> i < length bbs \<and> bbs ! j \<in> set (targets (bbs ! i))"
proof -
  have p: "bb_pos bbs t = j \<longleftrightarrow> t = bbs ! j" for t using bb_pos_iff [OF assms, of t] by auto
  show ?thesis
  proof (cases "i < length bbs")
    case True
    let ?ts = "targets (bbs ! i)"
    have "(i, j) \<in> flow_edges (cfg_of targets bbs) \<longleftrightarrow> (\<exists>t\<in>set ?ts. bb_pos bbs t = j)"
      using True by (auto simp: flow_edges_def cfg_of_def)
    then show ?thesis using True unfolding p by blast
  qed (simp add: flow_edges_def cfg_of_def)
qed

lemma cfg_ordered_of:
  assumes "distinct bbs"
  shows "cfg_ordered (cfg_of targets bbs) \<longleftrightarrow> bbs \<noteq> [] \<and>
    (\<forall>i<length bbs. bbs ! 0 \<notin> set (targets (bbs ! i))) \<and>
    (\<forall>j. 0 < j \<longrightarrow> j < length bbs \<longrightarrow> (\<exists>i<j. bbs ! j \<in> set (targets (bbs ! i))))"
proof (cases "bbs = []")
  case True
  then show ?thesis by (simp add: cfg_ordered_def cfg_of_def)
next
  case False
  then have n: "0 < length bbs" by simp
  have j: "jumps_ok (cfg_of targets bbs)" by (auto simp: jumps_ok_def cfg_of_def list_all_iff)
  have l: "length (cfg_of targets bbs) = length bbs" "cfg_of targets bbs \<noteq> []" using False by (auto simp: cfg_of_def)
  have e: "(\<exists>u<b. (u, b) \<in> flow_edges (cfg_of targets bbs)) \<longleftrightarrow> (\<exists>u<b. bbs ! b \<in> set (targets (bbs ! u)))"
    if b: "b < length bbs" for b
  proof -
    have "(u, b) \<in> flow_edges (cfg_of targets bbs) \<longleftrightarrow> bbs ! b \<in> set (targets (bbs ! u))" if "u < b" for u
      using flow_edges_cfg_of [OF assms b, of u targets] that b by simp
    then show ?thesis by blast
  qed
  have z: "(\<forall>u. (u, 0) \<notin> flow_edges (cfg_of targets bbs)) \<longleftrightarrow> (\<forall>i<length bbs. bbs ! 0 \<notin> set (targets (bbs ! i)))"
    using flow_edges_cfg_of [OF assms n, of _ targets] by blast
  have "(\<forall>b. 0 < b \<longrightarrow> b < length bbs \<longrightarrow> (\<exists>u<b. (u, b) \<in> flow_edges (cfg_of targets bbs))) \<longleftrightarrow>
      (\<forall>b. 0 < b \<longrightarrow> b < length bbs \<longrightarrow> (\<exists>u<b. bbs ! b \<in> set (targets (bbs ! u))))"
    using e by blast
  with z show ?thesis unfolding cfg_ordered_def l(1) using False j l(2) by blast
qed

text \<open>
  What a function needs before it is sorted. Nothing leads to the entry. Every other block has a predecessor it does not lead
  back to, or it has a predecessor earlier in the function and the headers it is recorded for as an exit block jump to it
  themselves. The first holds of all blocks once no cycle is left; the second of the blocks of loops still to be unrolled,
  when these are left at their headers.
\<close>

definition sortable :: "('b \<Rightarrow> 'b list) \<Rightarrow> ('b \<Rightarrow> 'b list) \<Rightarrow> 'b list \<Rightarrow> bool" where
  "sortable targets exits bbs \<longleftrightarrow> bbs \<noteq> [] \<and> (\<forall>i<length bbs. bbs ! 0 \<notin> set (targets (bbs ! i) @ exits (bbs ! i))) \<and>
     (\<forall>j. 0 < j \<longrightarrow> j < length bbs \<longrightarrow>
        (\<exists>p<length bbs. bbs ! j \<in> set (targets (bbs ! p)) \<and> (bbs ! j, bbs ! p) \<notin> (flow targets exits bbs)\<^sup>*) \<or>
        ((\<exists>i<j. bbs ! j \<in> set (targets (bbs ! i))) \<and>
         (\<forall>h<length bbs. bbs ! j \<in> set (exits (bbs ! h)) \<longrightarrow> bbs ! j \<in> set (targets (bbs ! h)))))"

lemma sortable_no_exits:
  "distinct bbs \<Longrightarrow> cfg_ordered (cfg_of targets bbs) \<Longrightarrow> sortable targets (\<lambda>_. []) bbs"
  unfolding cfg_ordered_of by (auto simp: sortable_def)

lemma top_sort_keeps_order:
  assumes "distinct bbs" "sortable targets exits bbs"
  shows "cfg_ordered (cfg_of targets (top_sort_bbs targets exits bbs))"
proof -
  let ?E = "bb_edges targets exits bbs" and ?T = "top_sort_bbs targets exits bbs" and ?n = "length bbs"
  note o = assms(2) [unfolded sortable_def]
  have n: "0 < ?n" "length ?E = ?n" using o by (auto simp: bb_edges_def)
  note wf = wf_bb_edges [OF assms(1), of targets exits]
  note ts = top_sort_correct [OF wf]
  have edge: "(i, j) \<in> edge ?E \<longleftrightarrow> i < ?n \<and> j < ?n \<and> bbs ! j \<in> set (targets (bbs ! i) @ exits (bbs ! i))" for i j
    using bb_edges_nth [OF assms(1), of i j targets exits] n(2) by (auto simp: edge_def)
  have "?E \<noteq> []" using n by auto
  have no0: "\<forall>cs\<in>set ?E. 0 \<notin> set cs"
  proof
    fix cs assume "cs \<in> set ?E"
    then obtain i where "i < length ?E" "cs = ?E ! i" by (metis in_set_conv_nth)
    then show "0 \<notin> set cs" using edge [of i 0] o n by (auto simp: edge_def)
  qed
  obtain zs where z: "top_sort ?E = 0 # zs" using ts(4) [OF \<open>?E \<noteq> []\<close> no0] by blast
  have dT: "distinct ?T" "set ?T = set bbs" "length ?T = ?n"
  proof -
    have inj: "inj_on ((!) bbs) {..<?n}" using assms(1) by (auto simp: inj_on_def nth_eq_iff_index_eq)
    then show "distinct ?T" using ts(1,2) n(2) by (simp add: top_sort_bbs_def distinct_map)
    show "set ?T = set bbs"
      using ts(2) n(2) nth_image [of ?n bbs] by (simp add: top_sort_bbs_def lessThan_atLeast0)
    show "length ?T = ?n" using distinct_card [OF ts(1)] ts(2) n(2) by (simp add: top_sort_bbs_def)
  qed
  have L: "length (top_sort ?E) = ?n" using dT(3) by (simp add: top_sort_bbs_def)
  have pos: "top_sort ?E ! j < ?n" "?T ! j = bbs ! (top_sort ?E ! j)" if "j < ?n" for j
    using that L ts(2) n(2) nth_mem [of j "top_sort ?E"] by (auto simp: top_sort_bbs_def)
  have "\<exists>i<j. ?T ! j \<in> set (targets (?T ! i))" if j: "0 < j" "j < ?n" for j
  proof -
    let ?v = "top_sort ?E ! j" and ?xs = "take j (top_sort ?E)" and ?ys = "drop (Suc j) (top_sort ?E)"
    have split: "top_sort ?E = ?xs @ ?v # ?ys" using j L by (simp add: id_take_nth_drop)
    have v: "?v \<noteq> 0" "?v < ?n" using z j L nth_eq_iff_index_eq [OF ts(1), of j 0] n(1) pos(1) by (metis nth_Cons_0 neq0_conv)+
    have "0 \<in> set ?xs" using z j by (cases j) simp_all
    have "\<exists>u\<in>set ?xs. u < ?n \<and> bbs ! ?v \<in> set (targets (bbs ! u))"
    proof (cases "\<exists>p<?n. bbs ! ?v \<in> set (targets (bbs ! p)) \<and> (bbs ! ?v, bbs ! p) \<notin> (flow targets exits bbs)\<^sup>*")
      case True
      then obtain p where p: "p < ?n" "bbs ! ?v \<in> set (targets (bbs ! p))" "(bbs ! ?v, bbs ! p) \<notin> (flow targets exits bbs)\<^sup>*" by blast
      have e: "?v \<in> set (?E ! p)" using edge [of p ?v] p(1,2) v(2) by (simp add: edge_def)
      have r: "(?v, p) \<notin> (edge ?E)\<^sup>*" using edge_flow [OF assms(1)] p(3) by blast
      have "p \<in> set (top_sort ?E)" using ts(2) p(1) n(2) by simp
      then obtain as bs where s: "top_sort ?E = as @ p # bs" by (meson split_list)
      then have "?v \<in> set bs" using ts(3) [OF s e] r by blast
      then have "p \<in> set ?xs" by (rule before_split [OF _ trans [OF split [symmetric] s]]) (use ts(1) split in metis)
      then show ?thesis using p(1,2) by blast
    next
      case False
      then have e: "\<exists>i<?v. bbs ! ?v \<in> set (targets (bbs ! i))"
          "\<forall>h<?n. bbs ! ?v \<in> set (exits (bbs ! h)) \<longrightarrow> bbs ! ?v \<in> set (targets (bbs ! h))"
        using o v by (metis neq0_conv)+
      have t: "bbs ! ?v \<in> set (targets (bbs ! u))" "u < ?n" if "(u, ?v) \<in> edge ?E" for u
        using that edge [of u ?v] e(2) by auto
      consider "?v \<in> search_roots ?E" | u where "u \<in> set ?xs" "(u, ?v) \<in> edge ?E" using top_sort_parent [OF wf split] by blast
      then show ?thesis
      proof cases
        case 1
        obtain u where u: "u < ?v" "bbs ! ?v \<in> set (targets (bbs ! u))" using e(1) by blast
        then have "(u, ?v) \<in> edge ?E" using edge [of u ?v] v(2) by simp
        then have "u = 0" using 1 u(1) by (auto simp: search_roots_def)
        then show ?thesis using u(2) \<open>0 \<in> set ?xs\<close> n(1) by blast
      qed (use t in blast)
    qed
    then obtain u where u: "u \<in> set ?xs" "bbs ! ?v \<in> set (targets (bbs ! u))" by blast
    then obtain i where i: "i < j" "u = top_sort ?E ! i" using j L by (auto simp: in_set_conv_nth)
    then show ?thesis using u(2) pos(2) j by auto
  qed
  moreover have "?T ! 0 \<notin> set (targets (?T ! i))" if "i < ?n" for i
    using o pos [OF that] pos(2) [OF n(1)] z by simp
  moreover have "?T \<noteq> []" using dT(3) n(1) by auto
  ultimately show ?thesis unfolding cfg_ordered_of [OF dT(1)] dT(3) by blast
qed

text \<open>
  C25 (safety). \<open>DomTree\<close> on a function sorted by \<open>topSort\<close>, whatever exit blocks were recorded for its loop headers: if, before
  sorting, nothing led to the entry and every other block had a predecessor it does not lead back to, or an earlier
  predecessor and headers that jump to it wherever it is recorded as their exit block, the construction
  ends and answers dominance queries between the blocks of the sorted function correctly.
\<close>

theorem sorted_dom_tree:
  assumes "distinct bbs" "sortable targets exits bbs"
  defines "graph \<equiv> cfg_of targets (top_sort_bbs targets exits bbs)"
  shows "\<exists>doms. buildDominators graph = Some doms \<and>
    (\<forall>a b. b < length bbs \<longrightarrow> dominates doms a b = Some (on_all_paths (flow_edges graph) a b))"
proof -
  have c: "cfg_ordered graph" unfolding graph_def by (rule top_sort_keeps_order [OF assms(1,2)])
  have "length (top_sort (bb_edges targets exits bbs)) = length bbs"
    using top_sort_correct(1,2) [OF wf_bb_edges [OF assms(1)], of targets exits] distinct_card
    by (fastforce simp: bb_edges_def)
  then have "length graph = length bbs" by (simp add: graph_def cfg_of_def top_sort_bbs_def)
  then show ?thesis using buildDominators_correct [OF c] by auto
qed

definition loop_targets :: "nat \<Rightarrow> nat list" where
  "loop_targets b = (if b = 0 then [1] else if b = 1 then [2, 3] else if b = 2 then [1] else [])"

definition loop_exits :: "nat \<Rightarrow> nat list" where
  "loop_exits b = (if b = 1 then [3] else [])"

text \<open>A witness: a loop with its header before its body, left at the header.\<close>

theorem sorted_dom_tree_witness:
  "\<exists>doms. buildDominators (cfg_of loop_targets (top_sort_bbs loop_targets loop_exits [0, 1, 2, 3])) = Some doms \<and>
     (\<exists>r. dominates doms 1 2 = Some r)"
proof -
  have "\<forall>j\<in>set [1..<4]. \<exists>i\<in>set [0..<j]. [0, 1, 2, 3] ! j \<in> set (loop_targets ([0, 1, 2, 3] ! i))" by code_simp
  then have "\<forall>j. 0 < j \<longrightarrow> j < length [0::nat, 1, 2, 3] \<longrightarrow>
      (\<exists>i<j. [0, 1, 2, 3] ! j \<in> set (loop_targets ([0, 1, 2, 3] ! i)))" by fastforce
  moreover have "\<forall>i<length [0::nat, 1, 2, 3]. [0, 1, 2, 3] ! 0 \<notin> set (loop_targets ([0, 1, 2, 3] ! i) @ loop_exits ([0, 1, 2, 3] ! i))"
    by (simp add: loop_targets_def loop_exits_def)
  moreover have "set (loop_exits b) \<subseteq> set (loop_targets b)" for b by (simp add: loop_exits_def loop_targets_def)
  ultimately have "sortable loop_targets loop_exits [0, 1, 2, 3]" unfolding sortable_def by blast
  from sorted_dom_tree [OF _ this] show ?thesis by auto
qed

text \<open>
  The order of the blocks matters. With the body of a loop before its header the
  sort, whose searches start at the blocks after the entry, leaves the body in front; its only
  predecessor then has no dominator yet when it is visited, is taken as its dominator all the
  same, and the next intersection follows the null dominator of the header.
\<close>

theorem dom_tree_null_dominator:
  "top_sort_bbs (\<lambda>b. [[2], [2], [1, 3], []] ! b) (\<lambda>_. []) [0, 1, 2, 3] = [0, 1, 2, 3::nat] \<and>
   buildDominators (cfg_of (\<lambda>b. [[2], [2], [1, 3], []] ! b) [0, 1, 2, 3::nat]) = None"
proof
  show "top_sort_bbs (\<lambda>b. [[2], [2], [1, 3], []] ! b) (\<lambda>_. []) [0, 1, 2, 3] = [0, 1, 2, 3::nat]" by code_simp
  show "buildDominators (cfg_of (\<lambda>b. [[2], [2], [1, 3], []] ! b) [0, 1, 2, 3::nat]) = None" by code_simp
qed

end
