(* ===== verification/BvBits.thy ===== *)
theory BvBits
  imports Expr
begin

text \<open>
  Bit-vectors by their bits: an extensionality rule and the bits of the structural and bitwise
  primitives. The rewrite rules of the expression builders are equations between such terms and
  are proved with these rules.
\<close>

unbundle bit_operations_syntax

named_theorems bv_bits "the bits of the bit-vector primitives"

lemma bv_eqI:
  assumes "wf_bv a" "wf_bv b" "bits a = bits b"
    and "\<And>i. i < bits a \<Longrightarrow> bit (uval a) i = bit (uval b) i"
  shows "a = b"
proof -
  have "bit (uval a) i = bit (uval b) i" for i
    using assms(4) [of i] bit_take_bit_iff [of "bits a" "uval a" i]
      bit_take_bit_iff [of "bits b" "uval b" i] wf_bvD(4) [OF assms(1)] wf_bvD(4) [OF assms(2)]
      assms(3) by auto
  then show ?thesis using assms(3) by (auto simp: bv_eq_iff intro: bit_eqI)
qed

lemma bit_bvextract [bv_bits]:
  "bit (uval (bvextract a h l)) i \<longleftrightarrow> i < Suc h - l \<and> bit (uval a) (i + l)"
  by (simp add: bvextract_def bit_take_bit_iff bit_drop_bit_eq add.commute)

lemma bit_bvconcat [bv_bits]:
  assumes "wf_bv b"
  shows "bit (uval (bvconcat a b)) i =
           (if i < bits b then bit (uval b) i else bit (uval a) (i - bits b))"
proof -
  have "uval (bvconcat a b) = concat_bit (bits b) (uval b) (uval a)"
    using wf_bvD(4) [OF assms] by (simp add: bvconcat_def concat_bit_eq)
  then show ?thesis by (auto simp: bit_concat_bit_iff)
qed

lemma wf_concat [simp]: "wf_bv a \<Longrightarrow> wf_bv b \<Longrightarrow> wf_bv (bvconcat a b)"
proof -
  assume a: "wf_bv a" and b: "wf_bv b"
  note w = wf_bvD [OF a] wf_bvD [OF b]
  have "push_bit (bits b) (uval a) + uval b = concat_bit (bits b) (uval b) (uval a)"
    using w(8) by (simp add: concat_bit_eq)
  moreover have "uval a * 2 ^ bits b + uval b < 2 ^ (bits a + bits b)"
  proof -
    have "uval a * 2 ^ bits b \<le> (2 ^ bits a - 1) * 2 ^ bits b"
      using w(3) by (intro mult_right_mono) auto
    then show ?thesis using w(7) by (simp add: power_add algebra_simps)
  qed
  ultimately show ?thesis using w by (simp add: wf_bv_def bvconcat_def push_bit_eq_mult)
qed

lemma bit_bvsext [bv_bits]:
  "bit (uval (bvsext a n)) i \<longleftrightarrow> i < bits a + n \<and> bit (uval a) (min (bits a - 1) i)"
  by (simp add: bvsext_def sval_def bit_take_bit_iff bit_signed_take_bit_iff)

lemma bit_bvashr [bv_bits]:
  "bit (uval (bvashr a b)) i \<longleftrightarrow> i < bits a \<and> bit (uval a) (min (bits a - 1) (nat (uval b) + i))"
  by (simp add: bvashr_def sval_def bit_take_bit_iff bit_drop_bit_eq bit_signed_take_bit_iff)

lemma bit_bvand [bv_bits]:
  "bit (uval (bvand a b)) i \<longleftrightarrow> i < bits a \<and> bit (uval a) i \<and> bit (uval b) i"
  by (auto simp: bvand_def bit_take_bit_iff bit_and_iff)

lemma bit_bvor [bv_bits]:
  "bit (uval (bvor a b)) i \<longleftrightarrow> i < bits a \<and> (bit (uval a) i \<or> bit (uval b) i)"
  by (auto simp: bvor_def bit_take_bit_iff bit_or_iff)

lemma bit_bvxor [bv_bits]:
  "bit (uval (bvxor a b)) i \<longleftrightarrow> i < bits a \<and> (bit (uval a) i \<noteq> bit (uval b) i)"
  by (auto simp: bvxor_def bit_take_bit_iff bit_xor_iff)

lemma bit_bvnot [bv_bits]: "bit (uval (bvnot a)) i \<longleftrightarrow> i < bits a \<and> \<not> bit (uval a) i"
  by (simp add: bvnot_def bit_take_bit_iff bit_not_iff)

lemma bit_mk0 [bv_bits]: "bit (uval (mk w 0)) i \<longleftrightarrow> False"
  by simp

lemma bit_mk_ones [bv_bits]: "bit (uval (mk w (- 1))) i \<longleftrightarrow> i < w"
  by (simp add: bit_mask_iff)

lemma bit_bound: "wf_bv a \<Longrightarrow> bit (uval a) i \<Longrightarrow> i < bits a"
  by (metis bit_take_bit_iff wf_bvD(4))

section \<open>Equations between structural terms\<close>

lemma extract_all: "wf_bv a \<Longrightarrow> bvextract a (bits a - 1) 0 = a"
  using wf_bvD(1) [of a] by (intro bv_eqI) (auto simp: bv_bits)

lemma extract_extract:
  assumes "h \<le> h2 - l2" "l2 \<le> h2" "l \<le> h"
  shows "bvextract (bvextract a h2 l2) h l = bvextract a (h + l2) (l + l2)"
  using assms by (intro bv_eqI) (auto simp: bv_bits ac_simps)

lemma extract_sext_low: "wf_bv a \<Longrightarrow> h < bits a \<Longrightarrow> bvextract (bvsext a n) h 0 = bvextract a h 0"
  by (intro bv_eqI) (auto simp: bv_bits min_absorb2)

lemma extract_sext_high:
  "wf_bv a \<Longrightarrow> bits a \<le> h \<Longrightarrow> h < bits a + n \<Longrightarrow>
     bvextract (bvsext a n) h 0 = bvsext a (Suc h - bits a)"
  by (intro bv_eqI) (auto simp: bv_bits min_def)

lemma extract_ashr:
  "wf_bv a \<Longrightarrow> h + nat (uval b) < bits a \<Longrightarrow> l \<le> h \<Longrightarrow>
     bvextract (bvashr a b) h l = bvextract a (h + nat (uval b)) (l + nat (uval b))"
  by (intro bv_eqI) (auto simp: bv_bits min_absorb2 ac_simps)

lemma extract_concat_low:
  "wf_bv a \<Longrightarrow> wf_bv b \<Longrightarrow> l \<le> h \<Longrightarrow> h < bits b \<Longrightarrow> bvextract (bvconcat a b) h l = bvextract b h l"
  by (intro bv_eqI) (auto simp: bv_bits)

lemma extract_concat_high:
  "wf_bv a \<Longrightarrow> wf_bv b \<Longrightarrow> l \<le> h \<Longrightarrow> bits b \<le> l \<Longrightarrow> h < bits a + bits b \<Longrightarrow>
     bvextract (bvconcat a b) h l = bvextract a (h - bits b) (l - bits b)"
  by (intro bv_eqI) (auto simp: bv_bits)

lemma extract_concat_split:
  "wf_bv a \<Longrightarrow> wf_bv b \<Longrightarrow> l < bits b \<Longrightarrow> bits b \<le> h \<Longrightarrow> h < bits a + bits b \<Longrightarrow>
     bvextract (bvconcat a b) h l =
       bvconcat (bvextract a (h - bits b) 0) (bvextract b (bits b - 1) l)"
  by (intro bv_eqI) (auto simp: bv_bits)

lemma concat_extracts:
  "wf_bv a \<Longrightarrow> m \<le> h \<Longrightarrow> h < bits a \<Longrightarrow> l < m \<Longrightarrow>
     bvconcat (bvextract a h m) (bvextract a (m - 1) l) = bvextract a h l"
  by (intro bv_eqI) (auto simp: bv_bits)

lemma concat_assoc:
  "wf_bv a \<Longrightarrow> wf_bv b \<Longrightarrow> wf_bv c \<Longrightarrow> bvconcat (bvconcat a b) c = bvconcat a (bvconcat b c)"
  by (intro bv_eqI) (auto simp: bv_bits add.commute)

lemma sext_sext: "wf_bv a \<Longrightarrow> bvsext (bvsext a m) n = bvsext a (m + n)"
  by (intro bv_eqI) (auto simp: bv_bits min_def wf_bvD)

lemma sext_nonneg:
  assumes "wf_bv a" "\<not> isNegative a" "0 < n" shows "bvsext a n = bvconcat (mk n 0) a"
proof -
  have "sval a = uval a" using assms sval_nonneg_eq [of a] by (simp add: isNegative_iff)
  then show ?thesis using assms(1) wf_bvD [OF assms(1)] wf_bvzext [OF assms(1), of n]
    by (auto simp: bvsext_def bvconcat_def bv_eq_iff bvzext_def wf_bv_def take_bit_int_eq_self)
qed

lemma concat_eq_iff:
  assumes "wf_bv a" "wf_bv b" "wf_bv c" "wf_bv d" "bits b = bits d"
  shows "bvconcat a b = bvconcat c d \<longleftrightarrow> a = c \<and> b = d"
proof
  assume e: "bvconcat a b = bvconcat c d"
  then have "bits a = bits c" using assms(5) by (metis add_right_cancel bits_ops(16))
  moreover have "bvextract (bvconcat a b) (bits b - 1) 0 = b"
    "bvextract (bvconcat c d) (bits d - 1) 0 = d"
    using extract_concat_low [of a b 0 "bits b - 1"] extract_concat_low [of c d 0 "bits d - 1"]
      assms extract_all [of b] extract_all [of d] wf_bvD(1) by auto
  moreover have "bvextract (bvconcat a b) (bits a + bits b - 1) (bits b) = a"
    "bvextract (bvconcat c d) (bits c + bits d - 1) (bits d) = c"
    using extract_concat_high [of a b "bits b" "bits a + bits b - 1"] extract_all [of a]
      extract_concat_high [of c d "bits d" "bits c + bits d - 1"] extract_all [of c]
      assms wf_bvD(1) [of a] wf_bvD(1) [of c] by auto
  ultimately show "a = c \<and> b = d" using e assms(5) by metis
qed simp

end
