(* ===== verification/Term.thy ===== *)
theory Term
  imports BvBits "HOL-Library.Monad_Syntax"
begin

text \<open>
  The terms that \<open>smt::expr\<close> handles: literals, variables and applications of the interpreted
  functions the builders of \<open>smt/expr.cpp\<close> look for or create. Z3 shares equal terms, so the
  pointer comparison of \<open>expr::eq\<close> is equality of terms. Every other term, such as a load from
  an array or a conversion from floating point, is an opaque leaf whose value the assignment
  gives.

  Z3 itself is the record \<open>z3\<close>: the simplifier the builders call on applications to literals,
  and the identifier of a term, by which sets of terms are ordered.
\<close>

section \<open>Terms\<close>

datatype sort = BoolS | BVS nat

datatype kind = OP_AND | OP_OR | OP_NOT | OP_EQ | OP_ITE
  | OP_BADD | OP_BMUL | OP_BUDIV | OP_BSDIV | OP_BUREM | OP_BSREM
  | OP_BAND | OP_BOR | OP_BXOR | OP_BNOT | OP_BSHL | OP_BLSHR | OP_BASHR | OP_CONCAT | OP_EXTRACT nat nat | OP_SIGN_EXT nat | OP_ULEQ | OP_SLEQ

datatype tm = TBool bool | Num nat int | Var string sort | Other string sort | App kind "tm list"

record z3 =
  z3_simplify :: "tm \<Rightarrow> tm"
  ast_id :: "tm \<Rightarrow> nat"

fun sort_bits :: "sort \<Rightarrow> nat" where
  "sort_bits BoolS = 0"
| "sort_bits (BVS w) = w"

text \<open>The sort of an application, and when Z3 accepts it.\<close>

fun op_sort :: "kind \<Rightarrow> sort list \<Rightarrow> sort" where
  "op_sort OP_ITE ss = ss ! 1"
| "op_sort OP_CONCAT ss = BVS (sum_list (map sort_bits ss))"
| "op_sort (OP_EXTRACT h l) ss = BVS (Suc h - l)"
| "op_sort (OP_SIGN_EXT n) ss = BVS (sort_bits (hd ss) + n)"
| "op_sort k ss = (if k \<in> {OP_AND, OP_OR, OP_NOT, OP_EQ, OP_ULEQ, OP_SLEQ} then BoolS else hd ss)"

definition is_bv :: "sort \<Rightarrow> bool" where
  "is_bv s \<longleftrightarrow> 0 < sort_bits s"

fun op_ok :: "kind \<Rightarrow> sort list \<Rightarrow> bool" where
  "op_ok OP_ITE ss = (case ss of [c, t, e] \<Rightarrow> c = BoolS \<and> t = e | _ \<Rightarrow> False)"
| "op_ok OP_CONCAT ss = (2 \<le> length ss \<and> list_all is_bv ss)"
| "op_ok (OP_EXTRACT h l) ss = (case ss of [s] \<Rightarrow> l \<le> h \<and> h < sort_bits s | _ \<Rightarrow> False)"
| "op_ok (OP_SIGN_EXT n) ss = (case ss of [s] \<Rightarrow> is_bv s | _ \<Rightarrow> False)"
| "op_ok OP_NOT ss = (ss = [BoolS])"
| "op_ok OP_AND ss = list_all (\<lambda>s. s = BoolS) ss"
| "op_ok OP_OR ss = list_all (\<lambda>s. s = BoolS) ss"
| "op_ok OP_EQ ss = (case ss of [s, t] \<Rightarrow> s = t | _ \<Rightarrow> False)"
| "op_ok OP_BNOT ss = (case ss of [s] \<Rightarrow> is_bv s | _ \<Rightarrow> False)"
| "op_ok k ss =
     (if k \<in> {OP_BADD, OP_BMUL, OP_BAND, OP_BOR, OP_BXOR}
      then ss \<noteq> [] \<and> is_bv (hd ss) \<and> list_all (\<lambda>s. s = hd ss) ss
      else case ss of [s, t] \<Rightarrow> is_bv s \<and> s = t | _ \<Rightarrow> False)"

fun sort_of :: "tm \<Rightarrow> sort" where
  "sort_of (TBool b) = BoolS"
| "sort_of (Num w n) = BVS w"
| "sort_of (Var x s) = s"
| "sort_of (Other x s) = s"
| "sort_of (App k as) = op_sort k (map sort_of as)"

fun wt :: "tm \<Rightarrow> bool" where
  "wt (TBool b) \<longleftrightarrow> True"
| "wt (Num w n) \<longleftrightarrow> 0 < w \<and> 0 \<le> n \<and> n < 2 ^ w"
| "wt (Var x s) \<longleftrightarrow> s \<noteq> BVS 0"
| "wt (Other x s) \<longleftrightarrow> s \<noteq> BVS 0"
| "wt (App k as) \<longleftrightarrow> list_all wt as \<and> op_ok k (map sort_of as)"

definition bits_of :: "tm \<Rightarrow> nat" where
  "bits_of e = sort_bits (sort_of e)"

section \<open>Values\<close>

datatype smt_val = VBool bool | VBv bv

fun to_bool :: "smt_val \<Rightarrow> bool" where
  "to_bool (VBool b) = b"
| "to_bool (VBv v) = False"

fun to_bv :: "smt_val \<Rightarrow> bv" where
  "to_bv (VBv v) = v"
| "to_bv (VBool b) = mk 1 0"

fun value_sort :: "smt_val \<Rightarrow> sort \<Rightarrow> bool" where
  "value_sort (VBool b) s \<longleftrightarrow> s = BoolS"
| "value_sort (VBv v) s \<longleftrightarrow> wf_bv v \<and> s = BVS (bits v)"

fun foldl1 :: "('a \<Rightarrow> 'a \<Rightarrow> 'a) \<Rightarrow> 'a list \<Rightarrow> 'a" where
  "foldl1 f (x # xs) = foldl f x xs"
| "foldl1 f [] = undefined"

definition bv2 :: "(bv \<Rightarrow> bv \<Rightarrow> bv) \<Rightarrow> smt_val list \<Rightarrow> smt_val" where
  "bv2 f vs = VBv (f (to_bv (vs ! 0)) (to_bv (vs ! 1)))"

fun apply_op :: "kind \<Rightarrow> smt_val list \<Rightarrow> smt_val" where
  "apply_op OP_AND vs = VBool (list_all to_bool vs)"
| "apply_op OP_OR vs = VBool (list_ex to_bool vs)"
| "apply_op OP_NOT vs = VBool (\<not> to_bool (vs ! 0))"
| "apply_op OP_EQ vs = VBool (vs ! 0 = vs ! 1)"
| "apply_op OP_ITE vs = (if to_bool (vs ! 0) then vs ! 1 else vs ! 2)"
| "apply_op OP_BADD vs = VBv (foldl1 bvadd (map to_bv vs))"
| "apply_op OP_BMUL vs = VBv (foldl1 bvmul (map to_bv vs))"
| "apply_op OP_BAND vs = VBv (foldl1 bvand (map to_bv vs))"
| "apply_op OP_BOR vs = VBv (foldl1 bvor (map to_bv vs))"
| "apply_op OP_BXOR vs = VBv (foldl1 bvxor (map to_bv vs))"
| "apply_op OP_CONCAT vs = VBv (foldl1 bvconcat (map to_bv vs))"
| "apply_op OP_BUDIV vs = bv2 bvudiv vs"
| "apply_op OP_BSDIV vs = bv2 bvsdiv vs"
| "apply_op OP_BUREM vs = bv2 bvurem vs"
| "apply_op OP_BSREM vs = bv2 bvsrem vs"
| "apply_op OP_BSHL vs = bv2 bvshl vs"
| "apply_op OP_BLSHR vs = bv2 bvlshr vs"
| "apply_op OP_BASHR vs = bv2 bvashr vs"
| "apply_op OP_BNOT vs = VBv (bvnot (to_bv (vs ! 0)))"
| "apply_op (OP_EXTRACT h l) vs = VBv (bvextract (to_bv (vs ! 0)) h l)"
| "apply_op (OP_SIGN_EXT n) vs = VBv (bvsext (to_bv (vs ! 0)) n)"
| "apply_op OP_ULEQ vs = VBool (bvule (to_bv (vs ! 0)) (to_bv (vs ! 1)))"
| "apply_op OP_SLEQ vs = VBool (bvsle (to_bv (vs ! 0)) (to_bv (vs ! 1)))"

text \<open>An assignment gives the leaves values of their sorts.\<close>

type_synonym model = "string \<Rightarrow> bool \<Rightarrow> sort \<Rightarrow> smt_val"

definition model_ok :: "model \<Rightarrow> bool" where
  "model_ok \<rho> \<longleftrightarrow> (\<forall>x p s. s \<noteq> BVS 0 \<longrightarrow> value_sort (\<rho> x p s) s)"

fun eval :: "model \<Rightarrow> tm \<Rightarrow> smt_val" where
  "eval \<rho> (TBool b) = VBool b"
| "eval \<rho> (Num w n) = VBv (BV w n)"
| "eval \<rho> (Var x s) = \<rho> x False s"
| "eval \<rho> (Other x s) = \<rho> x True s"
| "eval \<rho> (App k as) = apply_op k (map (eval \<rho>) as)"

definition sat :: "model \<Rightarrow> tm \<Rightarrow> bool" where
  "sat \<rho> e = to_bool (eval \<rho> e)"

definition bv_of :: "model \<Rightarrow> tm \<Rightarrow> bv" where
  "bv_of \<rho> e = to_bv (eval \<rho> e)"

text \<open>
  A remainder by zero has a value in SMT-LIB, but a program that computes one has undefined
  behaviour, and one rewrite of \<open>cmp_eq\<close> relies on divisors not being zero. An assignment is
  admissible for a term when it gives no remainder in it a zero divisor.
\<close>

fun nz :: "model \<Rightarrow> tm \<Rightarrow> bool" where
  "nz \<rho> (App k as) \<longleftrightarrow> list_all (nz \<rho>) as \<and> (k = OP_BUREM \<longrightarrow> uval (bv_of \<rho> (as ! 1)) \<noteq> 0)"
| "nz \<rho> _ \<longleftrightarrow> True"

definition adm :: "model \<Rightarrow> tm \<Rightarrow> bool" where
  "adm \<rho> e \<longleftrightarrow> model_ok \<rho> \<and> nz \<rho> e"

text \<open>
  A weight of terms that bounds the recursion of the builders. A concatenation weighs the same
  whether its arguments are flat or nested.
\<close>

fun op_weight :: "kind \<Rightarrow> nat \<Rightarrow> nat" where
  "op_weight OP_CONCAT n = 2 * (n - 1)"
| "op_weight (OP_EXTRACT h l) n = 1"
| "op_weight (OP_SIGN_EXT m) n = 3"
| "op_weight k n = 8"

fun weight :: "tm \<Rightarrow> nat" where
  "weight (App k as) = op_weight k (length as) + sum_list (map weight as)"
| "weight _ = 0"

section \<open>Evaluation respects sorts\<close>

lemma foldl_wf:
  assumes "\<And>a b. wf_bv a \<Longrightarrow> wf_bv (f a b)" "\<And>a b. bits (f a b) = bits a"
  shows "wf_bv x \<Longrightarrow> wf_bv (foldl f x xs) \<and> bits (foldl f x xs) = bits x"
  using assms by (induction xs arbitrary: x) auto

lemma foldl_concat_wf:
  "wf_bv x \<Longrightarrow> list_all wf_bv xs \<Longrightarrow>
     wf_bv (foldl bvconcat x xs) \<and> bits (foldl bvconcat x xs) = bits x + sum_list (map bits xs)"
  by (induction xs arbitrary: x) auto

lemma value_sort_bv:
  "value_sort v s \<Longrightarrow> is_bv s \<Longrightarrow> \<exists>b. v = VBv b \<and> wf_bv b \<and> s = BVS (bits b)"
  by (cases v) (auto simp: is_bv_def)

lemma value_sort_BVS: "value_sort v (BVS w) \<longleftrightarrow> (\<exists>b. v = VBv b \<and> wf_bv b \<and> bits b = w)"
  by (cases v) auto

lemma value_sort_BoolS: "value_sort v BoolS \<longleftrightarrow> (\<exists>b. v = VBool b)"
  by (cases v) auto

lemma value_sorts_concat:
  "list_all2 value_sort vs ss \<Longrightarrow> list_all is_bv ss \<Longrightarrow>
     list_all wf_bv (map to_bv vs) \<and> map bits (map to_bv vs) = map sort_bits ss"
  by (induction rule: list_all2_induct) (auto dest: value_sort_bv)

lemma apply_op_sort:
  assumes "op_ok k ss" "list_all2 value_sort vs ss"
  shows "value_sort (apply_op k vs) (op_sort k ss)"
proof -
  have L: "length vs = length ss" using assms(2) by (rule list_all2_lengthD)
  have nth: "value_sort (vs ! i) (ss ! i)" if "i < length ss" for i
    using assms(2) that by (simp add: list_all2_conv_all_nth)
  consider (nary) "k \<in> {OP_BADD, OP_BMUL, OP_BAND, OP_BOR, OP_BXOR}" | (concat) "k = OP_CONCAT"
    | (two) "k \<in> {OP_BUDIV, OP_BSDIV, OP_BUREM, OP_BSREM, OP_BSHL, OP_BLSHR, OP_BASHR}"
    | (rest) "k \<in> {OP_AND, OP_OR, OP_NOT, OP_EQ, OP_ITE, OP_BNOT, OP_ULEQ, OP_SLEQ} \<or>
              (\<exists>h l. k = OP_EXTRACT h l) \<or> (\<exists>n. k = OP_SIGN_EXT n)"
    by (cases k) auto
  then show ?thesis
  proof cases
    case nary
    then have "ss \<noteq> []" "is_bv (hd ss)" using assms(1) by auto
    then obtain s ss' v vs' where "ss = s # ss'" "vs = v # vs'" "is_bv s"
      using L by (cases ss; cases vs) auto
    moreover from this obtain b where "v = VBv b" "wf_bv b" "s = BVS (bits b)"
      using nth [of 0] by (auto dest: value_sort_bv)
    ultimately show ?thesis using nary foldl_wf [of _ b "map to_bv vs'"] by auto
  next
    case concat
    then obtain s ss' v vs' where c: "ss = s # ss'" "vs = v # vs'"
      using assms(1) L by (cases ss; cases vs) auto
    have "list_all wf_bv (map to_bv vs)" "map bits (map to_bv vs) = map sort_bits ss"
      using value_sorts_concat [OF assms(2)] assms(1) concat by auto
    with c show ?thesis using concat foldl_concat_wf [of "to_bv v" "map to_bv vs'"]
      by (auto simp: comp_def)
  next
    case two
    then obtain s where "ss = [s, s]" "is_bv s" using assms(1) by (auto split: list.splits)
    moreover from this obtain a b where "vs = [VBv a, VBv b]" "wf_bv a" "s = BVS (bits a)"
      using assms(2) by (auto simp: list_all2_Cons2 dest!: value_sort_bv)
    ultimately show ?thesis using two by (auto simp: bv2_def)
  next
    case rest
    then show ?thesis using assms nth
      by (elim disjE exE insertE emptyE)
        (auto split: list.splits simp: list_all2_Cons2 is_bv_def dest!: value_sort_bv)
  qed
qed

lemma wt_sort: "wt e \<Longrightarrow> sort_of e \<noteq> BVS 0"
proof (induction e)
  case (App k as)
  let ?ss = "map sort_of as"
  show ?case
  proof (cases "k \<in> {OP_ITE, OP_CONCAT} \<or> (\<exists>h l. k = OP_EXTRACT h l) \<or> (\<exists>n. k = OP_SIGN_EXT n)")
    case True
    then show ?thesis using App
      by (auto simp: is_bv_def list_all_iff split: list.splits)
  next
    case False
    then show ?thesis using App.prems
      by (cases k) (auto simp: is_bv_def split: list.splits)
  qed
qed auto

theorem eval_sort:
  assumes "model_ok \<rho>" "wt e" shows "value_sort (eval \<rho> e) (sort_of e)"
  using assms(2)
proof (induction e)
  case (App k as)
  then have "list_all2 value_sort (map (eval \<rho>) as) (map sort_of as)"
    by (auto simp: list_all2_conv_all_nth list_all_length)
  then show ?case using App.prems apply_op_sort by simp
qed (use assms(1) in \<open>auto simp: model_ok_def wf_bv_def\<close>)

lemma bv_of_wf [simp]:
  assumes "model_ok \<rho>" "wt e" "sort_of e = BVS w"
  shows "wf_bv (bv_of \<rho> e)" "bits (bv_of \<rho> e) = w" "eval \<rho> e = VBv (bv_of \<rho> e)"
  using eval_sort [OF assms(1,2)] assms(3) by (auto simp: bv_of_def value_sort_BVS)

lemma uval_bv_of_lt: "model_ok \<rho> \<Longrightarrow> wt e \<Longrightarrow> sort_of e = BVS w \<Longrightarrow> uval (bv_of \<rho> e) < 2 ^ w"
  using bv_of_wf [of \<rho> e w] wf_bvD(3) [of "bv_of \<rho> e"] by simp

lemma sort_is_bv: "is_bv s \<longleftrightarrow> (\<exists>w. s = BVS w \<and> 0 < w)"
  by (cases s) (auto simp: is_bv_def)

lemma concat_args:
  assumes "model_ok \<rho>" "list_all wt as" "list_all is_bv (map sort_of as)"
  shows "list_all wf_bv (map (bv_of \<rho>) as) \<and> map bits (map (bv_of \<rho>) as) = map bits_of as"
  using assms(2,3)
proof (induction as)
  case (Cons a as)
  then obtain w where "sort_of a = BVS w" by (auto simp: sort_is_bv)
  then show ?case using Cons bv_of_wf(1,2) [OF assms(1), of a w] by (auto simp: bits_of_def)
qed simp

lemma bv_of_concat: "bv_of \<rho> (App OP_CONCAT as) = foldl1 bvconcat (map (bv_of \<rho>) as)"
  by (simp add: bv_of_def) (simp add: bv_of_def [abs_def] comp_def)

lemma sat_eval:
  assumes "model_ok \<rho>" "wt e" "sort_of e = BoolS"
  shows "eval \<rho> e = VBool (sat \<rho> e)"
  using eval_sort [OF assms(1,2)] assms(3) by (auto simp: sat_def value_sort_BoolS)

section \<open>Recognisers\<close>

definition isConst :: "tm \<Rightarrow> bool" where
  "isConst e \<longleftrightarrow> (case e of Num w n \<Rightarrow> True | TBool b \<Rightarrow> True | _ \<Rightarrow> False)"

definition isVar :: "tm \<Rightarrow> bool" where
  "isVar e \<longleftrightarrow> (case e of Var x s \<Rightarrow> True | _ \<Rightarrow> False)"

definition isBool :: "tm \<Rightarrow> bool" where "isBool e \<longleftrightarrow> sort_of e = BoolS"

definition isBV :: "tm \<Rightarrow> bool" where "isBV e \<longleftrightarrow> (case sort_of e of BVS w \<Rightarrow> True | BoolS \<Rightarrow> False)"

definition isTrue :: "tm \<Rightarrow> bool" where "isTrue e \<longleftrightarrow> e = TBool True"

definition isFalse :: "tm \<Rightarrow> bool" where "isFalse e \<longleftrightarrow> e = TBool False"

text \<open>\<open>Z3_get_numeral_uint64\<close> succeeds on the literals that fit 64 bits.\<close>

definition isUInt :: "tm \<Rightarrow> int option" where
  "isUInt e = (case e of Num w n \<Rightarrow> if n < 2 ^ 64 then Some n else None | _ \<Rightarrow> None)"

definition isZero :: "tm \<Rightarrow> bool" where "isZero e \<longleftrightarrow> isUInt e = Some 0"

definition isOne :: "tm \<Rightarrow> bool" where "isOne e \<longleftrightarrow> isUInt e = Some 1"

definition mkUInt :: "int \<Rightarrow> nat \<Rightarrow> tm" where
  "mkUInt n w = Num w (take_bit w n)"

definition mkInt :: "int \<Rightarrow> nat \<Rightarrow> tm" where
  "mkInt n w = Num w (take_bit w n)"

definition isAllOnes :: "tm \<Rightarrow> bool" where "isAllOnes e \<longleftrightarrow> e = mkInt (- 1) (bits_of e)"

definition isAppOf :: "kind \<Rightarrow> tm \<Rightarrow> tm list option" where
  "isAppOf k e = (case e of App k' as \<Rightarrow> if k' = k then Some as else None | _ \<Rightarrow> None)"

definition isUnOp :: "kind \<Rightarrow> tm \<Rightarrow> tm option" where
  "isUnOp k e = (case isAppOf k e of Some (a # _) \<Rightarrow> Some a | _ \<Rightarrow> None)"

definition isBinOp :: "kind \<Rightarrow> tm \<Rightarrow> (tm \<times> tm) option" where
  "isBinOp k e = (case isAppOf k e of Some [a, b] \<Rightarrow> Some (a, b) | _ \<Rightarrow> None)"

definition isTernaryOp :: "kind \<Rightarrow> tm \<Rightarrow> (tm \<times> tm \<times> tm) option" where
  "isTernaryOp k e = (case isAppOf k e of Some (a # b # c # _) \<Rightarrow> Some (a, b, c) | _ \<Rightarrow> None)"

definition isEq :: "tm \<Rightarrow> (tm \<times> tm) option" where "isEq = isBinOp OP_EQ"

definition isIf :: "tm \<Rightarrow> (tm \<times> tm \<times> tm) option" where "isIf = isTernaryOp OP_ITE"

definition isAnd :: "tm \<Rightarrow> (tm \<times> tm) option" where "isAnd = isBinOp OP_AND"

definition isNot :: "tm \<Rightarrow> tm option" where "isNot = isUnOp OP_NOT"

definition isAdd :: "tm \<Rightarrow> (tm \<times> tm) option" where "isAdd = isBinOp OP_BADD"

definition isURem :: "tm \<Rightarrow> (tm \<times> tm) option" where "isURem = isBinOp OP_BUREM"

definition isAShr :: "tm \<Rightarrow> (tm \<times> tm) option" where "isAShr = isBinOp OP_BASHR"

definition isExtract :: "tm \<Rightarrow> (tm \<times> nat \<times> nat) option" where
  "isExtract e = (case e of App (OP_EXTRACT h l) (a # _) \<Rightarrow> Some (a, h, l) | _ \<Rightarrow> None)"

definition isSignExt :: "tm \<Rightarrow> tm option" where
  "isSignExt e = (case e of App (OP_SIGN_EXT n) (a # _) \<Rightarrow> Some a | _ \<Rightarrow> None)"

definition isBasePlusOffset :: "tm \<Rightarrow> tm \<times> int" where
  "isBasePlusOffset e =
     (case isAdd e of
        Some (a, b) \<Rightarrow>
          (case isUInt a of Some n \<Rightarrow> (b, n)
           | None \<Rightarrow> (case isUInt b of Some n \<Rightarrow> (a, n) | None \<Rightarrow> (e, 0)))
      | None \<Rightarrow> (e, 0))"

text \<open>The counting functions of the standard library on 64-bit words.\<close>

function bit_width :: "int \<Rightarrow> nat" where
  "bit_width n = (if n \<le> 0 then 0 else Suc (bit_width (n div 2)))"
  by pat_completeness auto
termination by (relation "measure nat") auto

definition countl_zero :: "int \<Rightarrow> nat" where
  "countl_zero n = 64 - bit_width n"

function std_countr_one :: "int \<Rightarrow> nat" where
  "std_countr_one n = (if n \<le> 0 \<or> even n then 0 else Suc (std_countr_one (n div 2)))"
  by pat_completeness auto
termination by (relation "measure nat") auto

declare bit_width.simps [simp del] std_countr_one.simps [simp del]

fun min_leading_zeros_tm :: "tm \<Rightarrow> nat" where
  "min_leading_zeros_tm (App k (a # as)) = (if k = OP_CONCAT then min_leading_zeros_tm a else 0)"
| "min_leading_zeros_tm (Num w n) =
     (case isUInt (Num w n) of Some n \<Rightarrow> countl_zero n + w - 64 | None \<Rightarrow> 0)"
| "min_leading_zeros_tm _ = 0"

definition min_trailing_ones :: "tm \<Rightarrow> nat" where
  "min_trailing_ones e = (case isUInt e of Some n \<Rightarrow> std_countr_one n | None \<Rightarrow> 0)"

section \<open>What the recognisers report\<close>

lemma isAppOf_Some: "isAppOf k e = Some as \<longleftrightarrow> e = App k as"
  by (cases e) (auto simp: isAppOf_def)

lemma isBinOp_Some: "isBinOp k e = Some (a, b) \<longleftrightarrow> e = App k [a, b]"
  by (cases e) (auto simp: isBinOp_def isAppOf_def split: list.splits)

lemma isUnOp_Some: "isUnOp k e = Some a \<longleftrightarrow> (\<exists>as. e = App k (a # as))"
  by (cases e) (auto simp: isUnOp_def isAppOf_def split: list.splits)

lemma isTernaryOp_Some: "isTernaryOp k e = Some (a, b, c) \<longleftrightarrow> (\<exists>as. e = App k (a # b # c # as))"
  by (cases e) (auto simp: isTernaryOp_def isAppOf_def split: list.splits)

lemma isExtract_Some: "isExtract e = Some (a, h, l) \<longleftrightarrow> (\<exists>as. e = App (OP_EXTRACT h l) (a # as))"
  by (auto simp: isExtract_def split: tm.splits kind.splits list.splits)

lemma isSignExt_Some: "isSignExt e = Some a \<longleftrightarrow> (\<exists>n as. e = App (OP_SIGN_EXT n) (a # as))"
  by (auto simp: isSignExt_def split: tm.splits kind.splits list.splits)

lemma isUInt_Some: "isUInt e = Some n \<longleftrightarrow> (\<exists>w. e = Num w n \<and> n < 2 ^ 64)"
  by (auto simp: isUInt_def split: tm.splits)

lemmas recognised = isEq_def isIf_def isAnd_def isNot_def isAdd_def isURem_def isAShr_def
  isBinOp_Some isUnOp_Some isTernaryOp_Some isExtract_Some isSignExt_Some isAppOf_Some

lemma isConst_cases: "isConst e \<longleftrightarrow> (\<exists>b. e = TBool b) \<or> (\<exists>w n. e = Num w n)"
  by (auto simp: isConst_def split: tm.splits)

lemma isConst_simps:
  "isConst e \<Longrightarrow> weight e = 0" "isConst e \<Longrightarrow> nz \<rho> e"
  by (auto simp: isConst_cases)

lemma isZero_iff: "isZero e \<longleftrightarrow> (\<exists>w. e = Num w 0)"
  and isOne_iff: "isOne e \<longleftrightarrow> (\<exists>w. e = Num w 1)"
  by (auto simp: isZero_def isOne_def isUInt_Some)

lemma isAllOnes_iff: "isAllOnes e \<longleftrightarrow> (\<exists>w. e = Num w (2 ^ w - 1))"
  by (cases e) (auto simp: isAllOnes_def mkInt_def bits_of_def take_bit_minus_one_eq_mask mask_eq_exp_minus_1)

lemma mk_tm [simp]:
  "sort_of (mkUInt n w) = BVS w" "sort_of (mkInt n w) = BVS w"
  "wt (mkUInt n w) \<longleftrightarrow> 0 < w" "wt (mkInt n w) \<longleftrightarrow> 0 < w"
  "bv_of \<rho> (mkUInt n w) = mk w n" "bv_of \<rho> (mkInt n w) = mk w n"
  "isConst (mkUInt n w)" "isConst (mkInt n w)"
  by (auto simp: mkUInt_def mkInt_def bv_of_def isConst_def mk_def)

lemma bit_width_iff: "0 \<le> n \<Longrightarrow> bit_width n \<le> k \<longleftrightarrow> n < 2 ^ k"
proof (induction n arbitrary: k rule: bit_width.induct)
  case (1 n)
  show ?case
  proof (cases "n = 0")
    case True
    then show ?thesis by (simp add: bit_width.simps)
  next
    case False
    then have e: "bit_width n = Suc (bit_width (n div 2))" using 1(2) by (subst bit_width.simps) simp
    show ?thesis
    proof (cases k)
      case 0
      then show ?thesis using e False 1(2) by simp
    next
      case (Suc m)
      have "n div 2 < 2 ^ m \<longleftrightarrow> n < 2 ^ m * 2" by (rule zdiv_less_iff) simp
      then show ?thesis using e Suc 1 False by (simp add: mult.commute)
    qed
  qed
qed

lemma std_countr_one_le: "0 \<le> n \<Longrightarrow> 2 ^ std_countr_one n \<le> n + 1"
proof (induction n rule: std_countr_one.induct)
  case (1 n)
  show ?case
  proof (cases "n \<le> 0 \<or> even n")
    case True
    then show ?thesis using 1(2) by (simp add: std_countr_one.simps)
  next
    case False
    then have "2 ^ std_countr_one (n div 2) \<le> n div 2 + 1" using 1 by simp
    moreover have "n = 2 * (n div 2) + 1" using False by (metis odd_two_times_div_two_succ)
    moreover have "std_countr_one n = Suc (std_countr_one (n div 2))" using False by (subst std_countr_one.simps) simp
    ultimately show ?thesis by (simp only: power_Suc)
  qed
qed

lemma min_leading_zeros_sound:
  assumes "model_ok \<rho>" "wt e" "sort_of e = BVS w"
  shows "min_leading_zeros_tm e \<le> w \<and> uval (bv_of \<rho> e) < 2 ^ (w - min_leading_zeros_tm e)"
  using assms(2,3)
proof (induction e arbitrary: w rule: min_leading_zeros_tm.induct)
  case (1 k a as)
  show ?case
  proof (cases "k = OP_CONCAT")
    case False
    then show ?thesis using uval_bv_of_lt [OF assms(1) 1(2,3)] by simp
  next
    case k: True
  let ?m = "min_leading_zeros_tm a"
  from 1(2) k have a: "wt a" "is_bv (sort_of a)" "list_all wt as" "list_all is_bv (map sort_of as)" by auto
  then obtain v where v: "sort_of a = BVS v" by (cases "sort_of a") (auto simp: is_bv_def)
  have ih: "?m \<le> v" "uval (bv_of \<rho> a) < 2 ^ (v - ?m)" using 1(1) [OF k a(1) v] by auto
  let ?bs = "map (bv_of \<rho>) as"
  have bs: "list_all wf_bv ?bs" "map bits ?bs = map bits_of as"
    using concat_args [OF assms(1) a(3,4)] by auto
  have le: "wf_bv x \<Longrightarrow> list_all wf_bv xs \<Longrightarrow> m \<le> bits x \<Longrightarrow> uval x < 2 ^ (bits x - m) \<Longrightarrow>
     uval (foldl bvconcat x xs) < 2 ^ (bits x + sum_list (map bits xs) - m)" for x xs m
  proof (induction xs arbitrary: x)
    case (Cons y ys)
    have "uval x * 2 ^ bits y + uval y < 2 ^ (bits x - m) * 2 ^ bits y"
    proof -
      have "uval x * 2 ^ bits y \<le> (2 ^ (bits x - m) - 1) * 2 ^ bits y"
        using Cons.prems by (intro mult_right_mono) auto
      then show ?thesis using Cons.prems(2) wf_bvD(3) [of y] by (simp add: algebra_simps)
    qed
    then have "uval (bvconcat x y) < 2 ^ (bits (bvconcat x y) - m)"
      using Cons.prems(3) by (simp add: bvconcat_def push_bit_eq_mult flip: power_add)
    then show ?case using Cons.IH [of "bvconcat x y"] Cons.prems by (simp add: add.assoc)
  qed simp
  have "bv_of \<rho> (App OP_CONCAT (a # as)) = foldl bvconcat (bv_of \<rho> a) ?bs"
    by (simp add: bv_of_concat)
  moreover have "w = v + sum_list (map bits ?bs)"
    using 1(3) v k unfolding bs(2) by (simp add: bits_of_def [abs_def] comp_def)
  ultimately show ?thesis using le [of "bv_of \<rho> a" ?bs ?m] bv_of_wf [OF assms(1) a(1) v] bs(1) ih k
    by simp
  qed
next
  case (2 u n)
  then have n: "0 \<le> n" "n < 2 ^ u" "w = u" by auto
  have b: "bit_width n \<le> u" "n < 2 ^ bit_width n" using n bit_width_iff by blast+
  have "bit_width n \<le> 64" if "n < 2 ^ 64" using bit_width_iff [OF n(1)] that by blast
  then have "countl_zero n + u - 64 = u - bit_width n" if "n < 2 ^ 64"
    using that b(1) by (simp add: countl_zero_def)
  then show ?case using n b by (simp add: isUInt_def bv_of_def)
qed (use uval_bv_of_lt [OF assms(1)] in \<open>simp_all del: wt.simps sort_of.simps\<close>)

end
