(* ===== verification/TermBool.thy ===== *)
theory TermBool
  imports Term
begin

text \<open>
  The Boolean builders of \<open>smt/expr.cpp\<close> and the conditional. None of them yields a node where a
  smaller term will do; the lemmas show that whatever they return has the value of the
  operation, under every assignment.
\<close>

section \<open>Builders\<close>

definition simplify_const :: "z3 \<Rightarrow> tm \<Rightarrow> tm list \<Rightarrow> tm" where
  "simplify_const Z e inputs = (if list_all isConst inputs then z3_simplify Z e else e)"

definition unop_fold :: "z3 \<Rightarrow> kind \<Rightarrow> tm \<Rightarrow> tm" where
  "unop_fold Z k a = simplify_const Z (App k [a]) [a]"

definition binop_fold :: "z3 \<Rightarrow> kind \<Rightarrow> tm \<Rightarrow> tm \<Rightarrow> tm" where
  "binop_fold Z k a b = simplify_const Z (App k [a, b]) [a, b]"

definition binop_commutative2 :: "z3 \<Rightarrow> kind \<Rightarrow> tm \<Rightarrow> tm \<Rightarrow> tm" where
  "binop_commutative2 Z k a b =
     (let cmp = ast_id Z a < ast_id Z b in
      binop_fold Z k (if cmp then a else b) (if cmp then b else a))"

definition t_not :: "tm \<Rightarrow> tm" where
  "t_not a =
     (if isTrue a then TBool False else if isFalse a then TBool True
      else case isNot a of Some e \<Rightarrow> e | None \<Rightarrow> App OP_NOT [a])"

definition t_bvnot :: "z3 \<Rightarrow> tm \<Rightarrow> tm" where
  "t_bvnot Z a = unop_fold Z OP_BNOT a"

definition t_and :: "tm \<Rightarrow> tm \<Rightarrow> tm" where
  "t_and a b =
     (if a = b \<or> isFalse a \<or> isTrue b then a
      else if isTrue a \<or> isFalse b then b
      else App OP_AND [a, b])"

definition negated :: "tm \<Rightarrow> tm \<Rightarrow> bool" where
  "negated a b \<longleftrightarrow> isNot a = Some b"

definition t_or :: "tm \<Rightarrow> tm \<Rightarrow> tm" where
  "t_or a b =
     (if a = b \<or> isFalse b \<or> isTrue a then a
      else if isTrue b \<or> isFalse a then b
      else if negated a b \<or> negated b a then TBool True
      else case (isAnd a, isAnd b) of
             (Some (x, y), Some (c, d)) \<Rightarrow>
               if y = d \<and> (negated x c \<or> negated c x) then y else App OP_OR [a, b]
           | _ \<Rightarrow> App OP_OR [a, b])"

definition t_mk_and :: "tm list \<Rightarrow> tm" where
  "t_mk_and vals = foldl t_and (TBool True) vals"

definition t_mk_or :: "tm list \<Rightarrow> tm" where
  "t_mk_or vals = foldl t_or (TBool False) vals"

definition t_implies :: "tm \<Rightarrow> tm \<Rightarrow> tm" where
  "t_implies a b = (if a = b then TBool True else t_or (t_not a) b)"

definition t_notImplies :: "tm \<Rightarrow> tm \<Rightarrow> tm" where
  "t_notImplies a b = (if a = b then TBool False else t_and a (t_not b))"

text \<open>The rewrites of a conditional on one bit: \<open>(ite (= x 1) 1 0)\<close> and its negation.\<close>

definition mkIf_bit :: "z3 \<Rightarrow> tm \<Rightarrow> tm \<Rightarrow> tm \<Rightarrow> tm option" where
  "mkIf_bit Z c t e =
     (case isEq c of
        Some (lhs, rhs) \<Rightarrow>
          if isBV t \<and> bits_of t = 1 \<and> isBV lhs \<and> bits_of lhs = 1
          then if isOne t \<and> isZero e \<and> isOne lhs then Some rhs
               else if isOne t \<and> isZero e \<and> isOne rhs then Some lhs
               else if isZero t \<and> isOne e \<and> isOne lhs then Some (t_bvnot Z rhs)
               else if isZero t \<and> isOne e \<and> isOne rhs then Some (t_bvnot Z lhs)
               else None
          else None
      | None \<Rightarrow> None)"

lemma isNot_size: "isNot c = Some d \<Longrightarrow> size d < size c"
  by (auto simp: recognised)

lemma isIf_size: "isIf e = Some (c, t, f) \<Longrightarrow> size f < size e"
  by (auto simp: recognised)

function mkIf :: "z3 \<Rightarrow> tm \<Rightarrow> tm \<Rightarrow> tm \<Rightarrow> tm" where
  "mkIf Z cond then' els =
     (if isTrue cond \<or> then' = els then then'
      else if isFalse cond then els
      else if isTrue then' \<or> cond = then' then t_or cond els
      else if isFalse then' then t_and (t_not cond) els
      else if isTrue els then t_or (t_not cond) then'
      else if isFalse els then t_and cond then'
      else case isNot cond of
             Some notcond \<Rightarrow> mkIf Z notcond els then'
           | None \<Rightarrow>
               (case mkIf_bit Z cond then' els of
                  Some r \<Rightarrow> r
                | None \<Rightarrow>
                    (case isIf els of
                       Some (cond2, then2, else2) \<Rightarrow>
                         if then' = then2 then mkIf Z (t_or cond cond2) then' else2
                         else App OP_ITE [cond, then', els]
                     | None \<Rightarrow> App OP_ITE [cond, then', els])))"
  by pat_completeness auto
termination
  by (relation "measures [\<lambda>(Z, c, t, e). size t + size e, \<lambda>(Z, c, t, e). size c]")
    (auto dest: isNot_size isIf_size)

declare mkIf.simps [simp del]

definition t_toBVBool :: "z3 \<Rightarrow> tm \<Rightarrow> tm" where
  "t_toBVBool Z e = mkIf Z e (mkUInt 1 1) (mkUInt 0 1)"

definition get_bool :: "tm \<Rightarrow> tm option" where
  "get_bool e =
     (case isIf e of
        Some (cond, then', els) \<Rightarrow>
          if isOne then' \<and> isZero els then Some cond
          else if isZero then' \<and> isOne els then Some (t_not cond)
          else None
      | None \<Rightarrow> None)"

section \<open>What Z3's simplifier promises\<close>

text \<open>
  An application of an interpreted function to literals simplifies to the literal of its value.
\<close>

fun lit :: "smt_val \<Rightarrow> tm" where
  "lit (VBool b) = TBool b"
| "lit (VBv v) = Num (bits v) (uval v)"

definition no_model :: model where "no_model x p s = VBool False"

definition z3_folds :: "z3 \<Rightarrow> bool" where
  "z3_folds Z \<longleftrightarrow> (\<forall>k as. wt (App k as) \<longrightarrow> list_all isConst as \<longrightarrow>
     z3_simplify Z (App k as) = lit (eval no_model (App k as)))"

definition z3_eval :: z3 where
  "z3_eval = \<lparr>z3_simplify = (\<lambda>e. lit (eval no_model e)), ast_id = size\<rparr>"

lemma z3_folds_eval: "z3_folds z3_eval"
  by (simp add: z3_folds_def z3_eval_def)

lemma eval_literal: "isConst e \<Longrightarrow> eval \<rho> e = eval \<rho>' e"
  by (auto simp: isConst_cases)

lemma lit_props: "value_sort v s \<Longrightarrow> wt (lit v) \<and> sort_of (lit v) = s \<and> eval \<rho> (lit v) = v \<and> isConst (lit v)"
  by (cases v) (auto simp: wf_bv_def isConst_def)

text \<open>\<open>simplify_const\<close> keeps sort and value, and is a literal when its inputs are.\<close>

lemma simplify_const_sound:
  assumes "z3_folds Z" "wt (App k as)"
  defines "r \<equiv> simplify_const Z (App k as) as"
  shows "wt r" "sort_of r = sort_of (App k as)" "eval \<rho> r = eval \<rho> (App k as)"
    "list_all isConst as \<Longrightarrow> isConst r" "\<not> list_all isConst as \<Longrightarrow> r = App k as"
proof -
  let ?v = "eval no_model (App k as)"
  have c: "r = lit ?v \<and> value_sort ?v (sort_of (App k as)) \<and> (\<forall>\<rho>. eval \<rho> (App k as) = ?v)"
    if l: "list_all isConst as"
  proof -
    have "r = lit ?v" using assms(1,2) l by (simp add: r_def simplify_const_def z3_folds_def)
    moreover have e: "eval \<rho> (App k as) = ?v" for \<rho>
    proof -
      have "map (eval \<rho>) as = map (eval no_model) as"
        using l by (intro map_cong refl eval_literal) (simp add: list_all_iff)
      then show ?thesis by (simp only: eval.simps)
    qed
    moreover have "model_ok (\<lambda>x p s. case s of BoolS \<Rightarrow> VBool False | BVS w \<Rightarrow> VBv (mk w 0))"
      by (auto simp: model_ok_def split: sort.splits)
    then have "value_sort ?v (sort_of (App k as))" using eval_sort [OF _ assms(2)] e by metis
    ultimately show ?thesis by blast
  qed
  have n: "\<not> list_all isConst as \<Longrightarrow> r = App k as" by (simp add: r_def simplify_const_def)
  note L = lit_props [of ?v "sort_of (App k as)"]
  show "wt r" using c n assms(2) L by metis
  show "sort_of r = sort_of (App k as)" using c n L by metis
  show "eval \<rho> r = eval \<rho> (App k as)" using c n L by metis
  show "list_all isConst as \<Longrightarrow> isConst r" using c L by metis
  show "\<not> list_all isConst as \<Longrightarrow> r = App k as" by (rule n)
qed

section \<open>Formulas and bit-vector terms\<close>

definition formula :: "tm \<Rightarrow> bool" where
  "formula e \<longleftrightarrow> wt e \<and> sort_of e = BoolS"

definition bvterm :: "nat \<Rightarrow> tm \<Rightarrow> bool" where
  "bvterm w e \<longleftrightarrow> wt e \<and> sort_of e = BVS w"

lemma formula_simps [simp]:
  "formula (TBool v)"
  "formula (App OP_NOT [a]) \<longleftrightarrow> formula a"
  "formula (App OP_AND as) \<longleftrightarrow> list_all formula as"
  "formula (App OP_OR as) \<longleftrightarrow> list_all formula as"
  "formula (App OP_EQ [a, b]) \<longleftrightarrow> wt a \<and> wt b \<and> sort_of a = sort_of b"
  by (auto simp: formula_def list_all_iff)

lemma sat_simps [simp]:
  "sat \<rho> (TBool v) \<longleftrightarrow> v"
  "sat \<rho> (App OP_NOT [a]) \<longleftrightarrow> \<not> sat \<rho> a"
  "sat \<rho> (App OP_AND as) \<longleftrightarrow> list_all (sat \<rho>) as"
  "sat \<rho> (App OP_OR as) \<longleftrightarrow> list_ex (sat \<rho>) as"
  "sat \<rho> (App OP_EQ [a, b]) \<longleftrightarrow> eval \<rho> a = eval \<rho> b"
  by (simp_all add: sat_def [abs_def] list_all_iff list_ex_iff)

lemma formula_eval: "model_ok \<rho> \<Longrightarrow> formula e \<Longrightarrow> eval \<rho> e = VBool (sat \<rho> e)"
  by (simp add: formula_def sat_eval)

lemma bvterm_eval: "model_ok \<rho> \<Longrightarrow> bvterm w e \<Longrightarrow> eval \<rho> e = VBv (bv_of \<rho> e)"
  by (simp add: bvterm_def)

lemma bvterm_wf:
  "model_ok \<rho> \<Longrightarrow> bvterm w e \<Longrightarrow> wf_bv (bv_of \<rho> e)"
  "model_ok \<rho> \<Longrightarrow> bvterm w e \<Longrightarrow> bits (bv_of \<rho> e) = w"
  by (auto simp: bvterm_def)

lemma isNot_sub: "isNot a = Some e \<Longrightarrow> formula a \<Longrightarrow> a = App OP_NOT [e] \<and> formula e"
  by (auto simp: recognised formula_def)

lemma t_not_sound [simp]:
  "formula a \<Longrightarrow> formula (t_not a)" "formula a \<Longrightarrow> sat \<rho> (t_not a) \<longleftrightarrow> \<not> sat \<rho> a"
  by (auto simp: t_not_def isTrue_def isFalse_def split: option.splits dest: isNot_sub)

lemma t_and_sound [simp]:
  "formula a \<Longrightarrow> formula b \<Longrightarrow> formula (t_and a b)"
  "sat \<rho> (t_and a b) \<longleftrightarrow> sat \<rho> a \<and> sat \<rho> b"
  by (auto simp: t_and_def isTrue_def isFalse_def)

lemma negated_sound: "negated a b \<Longrightarrow> formula a \<Longrightarrow> sat \<rho> a \<longleftrightarrow> \<not> sat \<rho> b"
  by (auto simp: negated_def dest: isNot_sub)

lemma t_or_sound [simp]:
  assumes "formula a" "formula b"
  shows "formula (t_or a b)" "sat \<rho> (t_or a b) \<longleftrightarrow> sat \<rho> a \<or> sat \<rho> b"
  using assms
  by (auto simp: t_or_def isTrue_def isFalse_def recognised split: option.splits
      dest: negated_sound [where \<rho> = \<rho>])

lemma t_mk_and_sound [simp]:
  "list_all formula vals \<Longrightarrow> formula (t_mk_and vals)"
  "sat \<rho> (t_mk_and vals) \<longleftrightarrow> list_all (sat \<rho>) vals"
proof -
  have "formula a \<Longrightarrow> list_all formula vals \<Longrightarrow> formula (foldl t_and a vals)" for a
    by (induction vals arbitrary: a) auto
  then show "list_all formula vals \<Longrightarrow> formula (t_mk_and vals)" by (simp add: t_mk_and_def)
  have "sat \<rho> (foldl t_and a vals) \<longleftrightarrow> sat \<rho> a \<and> list_all (sat \<rho>) vals" for a
    by (induction vals arbitrary: a) auto
  then show "sat \<rho> (t_mk_and vals) \<longleftrightarrow> list_all (sat \<rho>) vals" by (simp add: t_mk_and_def)
qed

lemma t_mk_or_sound [simp]:
  assumes "list_all formula vals"
  shows "formula (t_mk_or vals)" "sat \<rho> (t_mk_or vals) \<longleftrightarrow> list_ex (sat \<rho>) vals"
proof -
  have "formula a \<Longrightarrow> list_all formula vals \<Longrightarrow> formula (foldl t_or a vals) \<and>
      (sat \<rho> (foldl t_or a vals) \<longleftrightarrow> sat \<rho> a \<or> list_ex (sat \<rho>) vals)" for a
    by (induction vals arbitrary: a) auto
  then show "formula (t_mk_or vals)" "sat \<rho> (t_mk_or vals) \<longleftrightarrow> list_ex (sat \<rho>) vals"
    using assms by (auto simp: t_mk_or_def)
qed

lemma t_implies_sound [simp]:
  assumes "formula a" "formula b"
  shows "formula (t_implies a b)" "sat \<rho> (t_implies a b) \<longleftrightarrow> (sat \<rho> a \<longrightarrow> sat \<rho> b)"
    "formula (t_notImplies a b)" "sat \<rho> (t_notImplies a b) \<longleftrightarrow> sat \<rho> a \<and> \<not> sat \<rho> b"
  using assms by (auto simp: t_implies_def t_notImplies_def)

lemma wt_bv_app:
  "bvterm w (App OP_BNOT [a]) \<longleftrightarrow> bvterm w a"
  "bvterm w (App OP_BAND [a, b]) \<longleftrightarrow> bvterm w a \<and> bvterm w b"
  "bvterm w (App OP_BOR [a, b]) \<longleftrightarrow> bvterm w a \<and> bvterm w b"
  using wt_sort [of a] by (auto simp: bvterm_def sort_is_bv)

lemma t_bvnot_sound:
  assumes "z3_folds Z" "bvterm w a"
  shows "bvterm w (t_bvnot Z a)" "model_ok \<rho> \<Longrightarrow> bv_of \<rho> (t_bvnot Z a) = bvnot (bv_of \<rho> a)"
proof -
  have wt: "wt (App OP_BNOT [a])" "sort_of (App OP_BNOT [a]) = BVS w"
    using wt_bv_app(1) [of w a] assms(2) by (auto simp: bvterm_def)
  note S = simplify_const_sound [OF assms(1) wt(1)]
  show "bvterm w (t_bvnot Z a)" using S(1,2) wt(2) by (simp add: t_bvnot_def unop_fold_def bvterm_def)
  show "bv_of \<rho> (t_bvnot Z a) = bvnot (bv_of \<rho> a)" using S(3)
    by (simp add: t_bvnot_def unop_fold_def bv_of_def)
qed

lemma one_bit_values:
  assumes "wf_bv v" "bits v = 1" shows "v = BV 1 0 \<or> v = BV 1 1"
proof -
  have "0 \<le> uval v" "uval v < 2" using wf_bvD [OF assms(1)] assms(2) by auto
  then have "uval v = 0 \<or> uval v = 1" by linarith
  then show ?thesis using assms(2) by (auto simp: bv_eq_iff)
qed

lemma bvnot_bit: "bvnot (BV 1 0) = BV 1 1" "bvnot (BV 1 1) = BV 1 0"
  by (simp_all add: bvnot_def mk_def)

section \<open>The conditional\<close>

definition is_ite :: "tm \<Rightarrow> tm \<Rightarrow> tm \<Rightarrow> tm \<Rightarrow> bool" where
  "is_ite c t e r \<longleftrightarrow> wt r \<and> sort_of r = sort_of t \<and>
     (\<forall>\<rho>. model_ok \<rho> \<longrightarrow> eval \<rho> r = (if sat \<rho> c then eval \<rho> t else eval \<rho> e))"

lemma bit_eval:
  assumes "model_ok \<rho>" "bvterm 1 x"
  shows "eval \<rho> x = VBv (BV 1 0) \<or> eval \<rho> x = VBv (BV 1 1)"
  using bvterm_eval [OF assms] bvterm_wf [OF assms] one_bit_values by metis

lemma is_ite_bit:
  assumes "bvterm 1 x" "c = App OP_EQ [x, Num 1 1] \<or> c = App OP_EQ [Num 1 1, x]"
  shows "is_ite c (Num 1 1) (Num 1 0) x"
proof -
  have "eval \<rho> x = (if sat \<rho> c then eval \<rho> (Num 1 1) else eval \<rho> (Num 1 0))" if "model_ok \<rho>" for \<rho>
    using bit_eval [OF that assms(1)] assms(2) by auto
  then show ?thesis using assms(1) by (simp add: is_ite_def bvterm_def)
qed

lemma is_ite_notbit:
  assumes "z3_folds Z" "bvterm 1 x" "c = App OP_EQ [x, Num 1 1] \<or> c = App OP_EQ [Num 1 1, x]"
  shows "is_ite c (Num 1 0) (Num 1 1) (t_bvnot Z x)"
proof -
  note n = t_bvnot_sound [OF assms(1,2)]
  have "eval \<rho> (t_bvnot Z x) = (if sat \<rho> c then eval \<rho> (Num 1 0) else eval \<rho> (Num 1 1))"
    if "model_ok \<rho>" for \<rho>
    using bit_eval [OF that assms(2)] bvterm_eval [OF that n(1)] n(2) [OF that] assms(3)
    by (auto simp: bv_of_def bvnot_bit [simplified])
  then show ?thesis using n(1) by (simp add: is_ite_def bvterm_def)
qed

lemma mkIf_bit_sound:
  assumes "z3_folds Z" "formula c" "wt t" "wt e" "sort_of t = sort_of e" "mkIf_bit Z c t e = Some r"
  shows "is_ite c t e r"
proof -
  from assms(6) obtain lhs rhs where c: "isEq c = Some (lhs, rhs)" "isBV t" "bits_of t = 1"
    "isBV lhs" "bits_of lhs = 1"
    by (auto simp: mkIf_bit_def split: option.splits if_splits)
  then have ce: "c = App OP_EQ [lhs, rhs]" by (simp add: recognised)
  then have b: "bvterm 1 lhs" "bvterm 1 rhs" "sort_of t = BVS 1"
    using c assms(2) by (auto simp: bvterm_def isBV_def bits_of_def split: sort.splits)
  have one: "x = Num 1 1" if "isOne x" "sort_of x = BVS 1" for x using that by (auto simp: isOne_iff)
  have zero: "x = Num 1 0" if "isZero x" "sort_of x = BVS 1" for x using that by (auto simp: isZero_iff)
  have sorts: "sort_of e = BVS 1" "sort_of lhs = BVS 1" "sort_of rhs = BVS 1"
    using b assms(5) by (auto simp: bvterm_def)
  consider "isOne t" "isZero e" "isOne lhs" "r = rhs" | "isOne t" "isZero e" "isOne rhs" "r = lhs"
    | "isZero t" "isOne e" "isOne lhs" "r = t_bvnot Z rhs"
    | "isZero t" "isOne e" "isOne rhs" "r = t_bvnot Z lhs"
    using assms(6) c by (auto simp: mkIf_bit_def split: if_splits)
  then show ?thesis
  proof cases
    case 1
    then show ?thesis using one [of t] zero [of e] one [of lhs] b sorts ce is_ite_bit [OF b(2)] by metis
  next
    case 2
    then show ?thesis using one [of t] zero [of e] one [of rhs] b sorts ce is_ite_bit [OF b(1)] by metis
  next
    case 3
    then show ?thesis using zero [of t] one [of e] one [of lhs] b sorts ce
        is_ite_notbit [OF assms(1) b(2)] by metis
  next
    case 4
    then show ?thesis using zero [of t] one [of e] one [of rhs] b sorts ce
        is_ite_notbit [OF assms(1) b(1)] by metis
  qed
qed

lemma is_ite_formula:
  "formula t \<Longrightarrow> formula e \<Longrightarrow> formula r \<Longrightarrow>
     (\<And>\<rho>. sat \<rho> r \<longleftrightarrow> (if sat \<rho> c then sat \<rho> t else sat \<rho> e)) \<Longrightarrow> is_ite c t e r"
  by (auto simp: is_ite_def formula_eval) (auto simp: formula_def)

lemma is_ite_node:
  "formula c \<Longrightarrow> wt t \<Longrightarrow> wt e \<Longrightarrow> sort_of t = sort_of e \<Longrightarrow> is_ite c t e (App OP_ITE [c, t, e])"
  by (auto simp: is_ite_def formula_def sat_def)

lemma is_ite_refl:
  "wt t \<Longrightarrow> sort_of t = sort_of e \<Longrightarrow> is_ite c t t t" "wt t \<Longrightarrow> is_ite (TBool True) t e t"
  "wt e \<Longrightarrow> sort_of t = sort_of e \<Longrightarrow> is_ite (TBool False) t e e"
  by (auto simp: is_ite_def)

definition bool_ite :: "tm \<Rightarrow> tm \<Rightarrow> tm \<Rightarrow> tm" where
  "bool_ite c t e = (if isTrue t \<or> c = t then t_or c e else if isFalse t then t_and (t_not c) e
                     else if isTrue e then t_or (t_not c) t else t_and c t)"

lemma bool_ite_cases: "bool_ite c t e \<in> {t_or c e, t_and (t_not c) e, t_or (t_not c) t, t_and c t}"
  by (simp add: bool_ite_def)

lemma bool_ite_holds:
  assumes "formula c" "formula t" "formula e"
    and "isTrue t \<or> c = t \<or> isFalse t \<or> isTrue e \<or> isFalse e"
  shows "sat \<rho> (bool_ite c t e) \<longleftrightarrow> (if sat \<rho> c then sat \<rho> t else sat \<rho> e)"
proof -
  have h: "sat \<rho> x" if "isTrue x" for x using that by (simp add: isTrue_def)
  have n: "\<not> sat \<rho> x" if "isFalse x" for x using that by (simp add: isFalse_def)
  show ?thesis
    unfolding bool_ite_def using assms h [of t] n [of t] h [of e] n [of e] by (simp split: if_splits) blast
qed

text \<open>
  Everything about the result of the conditional is proved by this rule, with one case per
  kind of rewrite.
\<close>

lemma mkIf_rule:
  assumes true: "\<And>t e. P (TBool True) t e t"
    and same: "\<And>c t. P c t t t"
    and false: "\<And>t e. P (TBool False) t e e"
    and bool: "\<And>c t e r. formula c \<Longrightarrow> formula t \<Longrightarrow> formula e \<Longrightarrow>
           r \<in> {t_or c e, t_and (t_not c) e, t_or (t_not c) t, t_and c t} \<Longrightarrow>
           (\<And>\<rho>. sat \<rho> r \<longleftrightarrow> (if sat \<rho> c then sat \<rho> t else sat \<rho> e)) \<Longrightarrow> P c t e r"
    and neg: "\<And>d t e r. sort_of t = sort_of e \<Longrightarrow> P d e t r \<Longrightarrow> P (App OP_NOT [d]) t e r"
    and bit: "\<And>c t e r. formula c \<Longrightarrow> wt t \<Longrightarrow> wt e \<Longrightarrow> sort_of t = sort_of e \<Longrightarrow>
           mkIf_bit Z c t e = Some r \<Longrightarrow> P c t e r"
    and merge: "\<And>c t c2 e2 r. formula c \<Longrightarrow> formula c2 \<Longrightarrow> sort_of e2 = sort_of t \<Longrightarrow>
           P (t_or c c2) t e2 r \<Longrightarrow> P c t (App OP_ITE [c2, t, e2]) r"
    and node: "\<And>c t e. formula c \<Longrightarrow> wt t \<Longrightarrow> wt e \<Longrightarrow> sort_of t = sort_of e \<Longrightarrow>
           P c t e (App OP_ITE [c, t, e])"
  shows "formula c \<Longrightarrow> wt t \<Longrightarrow> wt e \<Longrightarrow> sort_of t = sort_of e \<Longrightarrow> P c t e (mkIf Z c t e)"
proof -
  have "Z' = Z \<Longrightarrow> formula c \<Longrightarrow> wt t \<Longrightarrow> wt e \<Longrightarrow> sort_of t = sort_of e \<Longrightarrow> P c t e (mkIf Z' c t e)"
    for Z' c t e
  proof (induction Z' c t e rule: mkIf.induct)
    case (1 Z' c t e)
    note prems = 1(4-7)
    consider "isTrue c" | "t = e" | "\<not> (isTrue c \<or> t = e)" "isFalse c"
      | (boolean) "\<not> (isTrue c \<or> t = e)" "\<not> isFalse c" "isTrue t \<or> c = t \<or> isFalse t \<or> isTrue e \<or> isFalse e"
      | (other) "\<not> (isTrue c \<or> t = e)" "\<not> isFalse c" "\<not> (isTrue t \<or> c = t)" "\<not> isFalse t"
          "\<not> isTrue e" "\<not> isFalse e"
      by blast
    then show ?case
    proof cases
      case boolean
      then have f: "formula t" "formula e" using prems by (auto simp: isTrue_def isFalse_def formula_def)
      have r: "mkIf Z' c t e = bool_ite c t e"
        using boolean by (subst mkIf.simps) (auto simp: bool_ite_def)
      have "P c t e (bool_ite c t e)"
        using bool [OF prems(1) f bool_ite_cases] bool_ite_holds [OF prems(1) f boolean(3)] by blast
      then show ?thesis unfolding r .
    next
      case other
      show ?thesis
      proof (cases "isNot c")
        case (Some d)
        then have d: "c = App OP_NOT [d]" "formula d" using isNot_sub prems(1) by auto
        have r: "mkIf Z' c t e = mkIf Z' d e t" using other Some by (subst mkIf.simps) simp
        have "P d e t (mkIf Z' d e t)"
          by (rule 1(2) [OF other Some 1(3) d(2) prems(3,2) prems(4) [symmetric]])
        then have "P (App OP_NOT [d]) t e (mkIf Z' d e t)" by (rule neg [OF prems(4)])
        then show ?thesis using r d(1) by metis
      next
        case n: None
        show ?thesis
        proof (cases "mkIf_bit Z' c t e")
          case (Some r)
          then have "mkIf Z' c t e = r" using other n by (subst mkIf.simps) simp
          moreover have "P c t e r" by (rule bit [OF prems]) (use Some 1(3) in simp)
          ultimately show ?thesis by metis
        next
          case b: None
          show ?thesis
          proof (cases "\<exists>c2 e2. isIf e = Some (c2, t, e2)")
            case True
            then obtain c2 e2 where i: "isIf e = Some (c2, t, e2)" by blast
            then obtain as where "e = App OP_ITE (c2 # t # e2 # as)" by (auto simp: recognised)
            with prems(3) have e: "e = App OP_ITE [c2, t, e2]" "formula c2" "wt e2" "sort_of e2 = sort_of t"
              by (auto simp: formula_def split: list.splits)
            have "P (t_or c c2) t e2 (mkIf Z' (t_or c c2) t e2)"
              by (rule 1(1) [OF other n b i refl refl refl 1(3) _ prems(2) e(3) e(4) [symmetric]])
                (use prems(1) e(2) in simp)
            then have "P c t (App OP_ITE [c2, t, e2]) (mkIf Z' (t_or c c2) t e2)"
              by (rule merge [OF prems(1) e(2,4)])
            moreover have "mkIf Z' c t e = mkIf Z' (t_or c c2) t e2"
              using other n b i by (subst mkIf.simps) simp
            ultimately show ?thesis using e(1) by metis
          next
            case False
            then have "mkIf Z' c t e = App OP_ITE [c, t, e]"
              using other n b by (subst mkIf.simps) (auto split: option.splits)
            then show ?thesis using node [OF prems] by metis
          qed
        qed
      qed
    next
      case 1
      then have "mkIf Z' c t e = t" by (subst mkIf.simps) simp
      then show ?thesis using 1 true by (simp add: isTrue_def)
    next
      case 2
      then have "mkIf Z' c t e = t" by (subst mkIf.simps) simp
      then show ?thesis using 2 same by simp
    next
      case 3
      then have "mkIf Z' c t e = e" by (subst mkIf.simps) simp
      then show ?thesis using 3 false by (simp add: isFalse_def)
    qed
  qed
  then show "formula c \<Longrightarrow> wt t \<Longrightarrow> wt e \<Longrightarrow> sort_of t = sort_of e \<Longrightarrow> P c t e (mkIf Z c t e)" by blast
qed

lemma mkIf_sound:
  assumes "z3_folds Z" "formula c" "wt t" "wt e" "sort_of t = sort_of e"
  shows "is_ite c t e (mkIf Z c t e)"
proof -
  have "wt t \<longrightarrow> wt e \<longrightarrow> sort_of t = sort_of e \<longrightarrow> is_ite c t e (mkIf Z c t e)"
  proof (rule mkIf_rule [OF _ _ _ _ _ _ _ _ assms(2-5)])
    fix c t e r assume "formula c" "formula t" "formula e"
      "r \<in> {t_or c e, t_and (t_not c) e, t_or (t_not c) t, t_and c t}"
      "\<And>\<rho>. sat \<rho> r \<longleftrightarrow> (if sat \<rho> c then sat \<rho> t else sat \<rho> e)"
    then show "wt t \<longrightarrow> wt e \<longrightarrow> sort_of t = sort_of e \<longrightarrow> is_ite c t e r"
      by (intro impI is_ite_formula) auto
  next
    fix c t c2 e2 r assume "formula c" "formula c2" "sort_of e2 = sort_of t"
      "wt t \<longrightarrow> wt e2 \<longrightarrow> sort_of t = sort_of e2 \<longrightarrow> is_ite (t_or c c2) t e2 r"
    then show "wt t \<longrightarrow> wt (App OP_ITE [c2, t, e2]) \<longrightarrow> sort_of t = sort_of (App OP_ITE [c2, t, e2]) \<longrightarrow>
        is_ite c t (App OP_ITE [c2, t, e2]) r"
      by (auto simp: is_ite_def sat_def [symmetric])
  next
    fix c t e r assume "formula c" "wt t" "wt e" "sort_of t = sort_of e" "mkIf_bit Z c t e = Some r"
    then show "wt t \<longrightarrow> wt e \<longrightarrow> sort_of t = sort_of e \<longrightarrow> is_ite c t e r"
      using mkIf_bit_sound [OF assms(1)] by blast
  next
    fix c t e assume "formula c" "wt t" "wt e" "sort_of t = sort_of e"
    then show "wt t \<longrightarrow> wt e \<longrightarrow> sort_of t = sort_of e \<longrightarrow> is_ite c t e (App OP_ITE [c, t, e])"
      using is_ite_node by blast
  qed (simp_all add: is_ite_def)
  then show ?thesis using assms by blast
qed

lemma t_toBVBool_sound:
  assumes "z3_folds Z" "formula e"
  shows "bvterm 1 (t_toBVBool Z e)" "model_ok \<rho> \<Longrightarrow> bv_of \<rho> (t_toBVBool Z e) = toBVBool (sat \<rho> e)"
proof -
  have "is_ite e (mkUInt 1 1) (mkUInt 0 1) (t_toBVBool Z e)"
    unfolding t_toBVBool_def by (rule mkIf_sound [OF assms]) simp_all
  then have i: "wt (t_toBVBool Z e)" "sort_of (t_toBVBool Z e) = BVS 1"
    "model_ok \<rho> \<longrightarrow> eval \<rho> (t_toBVBool Z e) =
       (if sat \<rho> e then eval \<rho> (mkUInt 1 1) else eval \<rho> (mkUInt 0 1))"
    unfolding is_ite_def mk_tm(1) by blast+
  show "bvterm 1 (t_toBVBool Z e)" using i(1,2) by (simp add: bvterm_def)
  show "bv_of \<rho> (t_toBVBool Z e) = toBVBool (sat \<rho> e)" if "model_ok \<rho>"
    using i(3) that by (simp add: bv_of_def toBVBool_def mkUInt_def mk_def)
qed

lemma get_bool_sound:
  assumes "bvterm 1 e" "get_bool e = Some c"
  shows "formula c" "model_ok \<rho> \<Longrightarrow> bv_of \<rho> e = toBVBool (sat \<rho> c)"
proof -
  from assms(2) obtain d t f where i: "isIf e = Some (d, t, f)"
    and c: "isOne t \<and> isZero f \<and> c = d \<or> isZero t \<and> isOne f \<and> c = t_not d"
    by (auto simp: get_bool_def split: option.splits if_splits)
  then obtain as where e: "e = App OP_ITE (d # t # f # as)" by (auto simp: recognised)
  with assms(1) have w: "as = []" "formula d" "sort_of t = BVS 1" "sort_of f = BVS 1"
    by (auto simp: bvterm_def formula_def split: list.splits)
  show "formula c" using c w by auto
  show "bv_of \<rho> e = toBVBool (sat \<rho> c)" if "model_ok \<rho>"
  proof -
    have v: "bv_of \<rho> e = (if sat \<rho> d then bv_of \<rho> t else bv_of \<rho> f)"
      using e w(1) by (simp add: bv_of_def sat_def)
    from c show ?thesis
    proof (elim disjE conjE)
      assume "isOne t" "isZero f" "c = d"
      with w(3,4) have "bv_of \<rho> t = BV 1 1" "bv_of \<rho> f = BV 1 0" by (auto simp: isOne_iff isZero_iff bv_of_def)
      then show ?thesis using v \<open>c = d\<close> by (simp add: toBVBool_def mk_def)
    next
      assume "isZero t" "isOne f" "c = t_not d"
      with w(3,4) have "bv_of \<rho> t = BV 1 0" "bv_of \<rho> f = BV 1 1" by (auto simp: isOne_iff isZero_iff bv_of_def)
      then show ?thesis using v \<open>c = t_not d\<close> w(2) by (simp add: toBVBool_def mk_def)
    qed
  qed
qed

section \<open>No new remainders, and the weight of results\<close>

lemma nz_t_not: "nz \<rho> a \<Longrightarrow> nz \<rho> (t_not a)"
  by (auto simp: t_not_def recognised split: option.splits)

lemma nz_t_and: "nz \<rho> a \<Longrightarrow> nz \<rho> b \<Longrightarrow> nz \<rho> (t_and a b)"
  by (auto simp: t_and_def)

lemma nz_t_or: "nz \<rho> a \<Longrightarrow> nz \<rho> b \<Longrightarrow> nz \<rho> (t_or a b)"
  by (auto simp: t_or_def recognised split: option.splits)

lemma nz_simplify_const:
  "z3_folds Z \<Longrightarrow> wt (App k as) \<Longrightarrow> nz \<rho> (App k as) \<Longrightarrow> nz \<rho> (simplify_const Z (App k as) as)"
  using simplify_const_sound(4,5) [of Z k as] isConst_simps(2) by metis

lemma weight_simplify_const:
  "z3_folds Z \<Longrightarrow> wt (App k as) \<Longrightarrow> weight (simplify_const Z (App k as) as) \<le> weight (App k as)"
  using simplify_const_sound(4,5) [of Z k as] isConst_simps(1) by (metis le0 order_refl)

lemma weight_t_or: "weight (t_or a b) \<le> 8 + weight a + weight b"
  by (auto simp: t_or_def recognised split: option.splits)

lemma bvnot_small:
  assumes "z3_folds Z" "bvterm w x"
  shows "nz \<rho> x \<Longrightarrow> nz \<rho> (t_bvnot Z x)" "weight (t_bvnot Z x) \<le> 8 + weight x"
proof -
  have "wt (App OP_BNOT [x])" using wt_bv_app(1) [of w x] assms(2) by (simp add: bvterm_def)
  then show "nz \<rho> x \<Longrightarrow> nz \<rho> (t_bvnot Z x)" "weight (t_bvnot Z x) \<le> 8 + weight x"
    using nz_simplify_const [OF assms(1), of OP_BNOT "[x]" \<rho>]
      weight_simplify_const [OF assms(1), of OP_BNOT "[x]"]
    by (simp_all add: t_bvnot_def unop_fold_def)
qed

lemma mkIf_bit_small:
  assumes "z3_folds Z" "formula c" "mkIf_bit Z c t e = Some r"
  shows "nz \<rho> c \<Longrightarrow> nz \<rho> r" "weight r \<le> 8 + weight c"
proof -
  from assms(3) obtain lhs rhs where i: "isEq c = Some (lhs, rhs)" "isBV lhs" "bits_of lhs = 1"
    by (auto simp: mkIf_bit_def split: option.splits if_splits)
  have r: "r \<in> {lhs, rhs, t_bvnot Z lhs, t_bvnot Z rhs}"
    using assms(3) i by (auto simp: mkIf_bit_def split: if_splits)
  have c: "c = App OP_EQ [lhs, rhs]" using i(1) by (simp add: recognised)
  have b: "bvterm 1 lhs" "bvterm 1 rhs"
    using assms(2) c i by (auto simp: bvterm_def isBV_def bits_of_def split: sort.splits)
  show "nz \<rho> c \<Longrightarrow> nz \<rho> r"
    using r c bvnot_small(1) [OF assms(1) b(1)] bvnot_small(1) [OF assms(1) b(2)] by auto
  show "weight r \<le> 8 + weight c"
    using r c bvnot_small(2) [OF assms(1) b(1)] bvnot_small(2) [OF assms(1) b(2)] by auto
qed

lemma nz_mkIf:
  assumes "z3_folds Z" "formula c" "wt t" "wt e" "sort_of t = sort_of e" "nz \<rho> c" "nz \<rho> t" "nz \<rho> e"
  shows "nz \<rho> (mkIf Z c t e)"
proof -
  have "nz \<rho> c \<longrightarrow> nz \<rho> t \<longrightarrow> nz \<rho> e \<longrightarrow> nz \<rho> (mkIf Z c t e)"
    by (rule mkIf_rule [OF _ _ _ _ _ _ _ _ assms(2-5)])
      (use mkIf_bit_small(1) [OF assms(1)] in \<open>auto simp: nz_t_or nz_t_and nz_t_not\<close>)
  then show ?thesis using assms by blast
qed

lemma weight_mkIf:
  assumes "z3_folds Z" "formula c" "wt t" "wt e" "sort_of t = sort_of e" "sort_of t = BVS w"
  shows "weight (mkIf Z c t e) \<le> 8 + weight c + weight t + weight e"
proof -
  have "sort_of t = BVS w \<longrightarrow> weight (mkIf Z c t e) \<le> 8 + weight c + weight t + weight e"
  proof (rule mkIf_rule [OF _ _ _ _ _ _ _ _ assms(2-5)])
    fix c t c2 e2 r
    assume "sort_of t = BVS w \<longrightarrow> weight r \<le> 8 + weight (t_or c c2) + weight t + weight e2"
    then show "sort_of t = BVS w \<longrightarrow> weight r \<le> 8 + weight c + weight t + weight (App OP_ITE [c2, t, e2])"
      using weight_t_or [of c c2] by auto
  next
    fix c t e r assume "formula c" "mkIf_bit Z c t e = Some r"
    then show "sort_of t = BVS w \<longrightarrow> weight r \<le> 8 + weight c + weight t + weight e"
      using mkIf_bit_small(2) [OF assms(1), of c t e r] by simp
  qed (auto simp: formula_def)
  then show ?thesis using assms(6) by blast
qed

section \<open>Property\<close>

text \<open>
  Claim C23 (equivalence). \<open>!\<close>, \<open>&&\<close>, \<open>||\<close>, \<open>implies\<close>, \<open>notImplies\<close> and \<open>mkIf\<close>, whichever of their
  simplifications applies, return a well-sorted term with the value of the connective under
  every assignment.
\<close>

theorem boolean_builders_correct:
  assumes "z3_folds Z" "formula a" "formula b" "wt t" "wt e" "sort_of t = sort_of e"
  shows "list_all formula [t_not a, t_and a b, t_or a b, t_implies a b, t_notImplies a b] \<and>
    wt (mkIf Z a t e) \<and> sort_of (mkIf Z a t e) = sort_of t \<and>
    (\<forall>\<rho>. model_ok \<rho> \<longrightarrow>
       (sat \<rho> (t_not a) \<longleftrightarrow> \<not> sat \<rho> a) \<and> (sat \<rho> (t_and a b) \<longleftrightarrow> sat \<rho> a \<and> sat \<rho> b) \<and>
       (sat \<rho> (t_or a b) \<longleftrightarrow> sat \<rho> a \<or> sat \<rho> b) \<and> (sat \<rho> (t_implies a b) \<longleftrightarrow> (sat \<rho> a \<longrightarrow> sat \<rho> b)) \<and>
       (sat \<rho> (t_notImplies a b) \<longleftrightarrow> sat \<rho> a \<and> \<not> sat \<rho> b) \<and>
       eval \<rho> (mkIf Z a t e) = (if sat \<rho> a then eval \<rho> t else eval \<rho> e))"
  using assms mkIf_sound [OF assms(1,2,4-6)] by (auto simp: is_ite_def)

text \<open>A witness: a conditional on a negated bit, nested in another one with the same arm.\<close>

theorem boolean_builders_correct_witness:
  "formula (t_or (Var ''a'' BoolS) (App OP_NOT [Var ''a'' BoolS])) \<and>
   t_or (Var ''a'' BoolS) (App OP_NOT [Var ''a'' BoolS]) = TBool True \<and>
   mkIf z3_eval (Var ''a'' BoolS) (Num 8 1) (App OP_ITE [Var ''b'' BoolS, Num 8 1, Num 8 2]) =
     App OP_ITE [App OP_OR [Var ''a'' BoolS, Var ''b'' BoolS], Num 8 1, Num 8 2] \<and>
   sort_of (mkIf z3_eval (Var ''a'' BoolS) (Num 8 1) (App OP_ITE [Var ''b'' BoolS, Num 8 1, Num 8 2])) = BVS 8"
proof -
  have "t_or (Var ''a'' BoolS) (App OP_NOT [Var ''a'' BoolS]) = TBool True" by code_simp
  moreover have "mkIf z3_eval (Var ''a'' BoolS) (Num 8 1) (App OP_ITE [Var ''b'' BoolS, Num 8 1, Num 8 2]) =
     App OP_ITE [App OP_OR [Var ''a'' BoolS, Var ''b'' BoolS], Num 8 1, Num 8 2]" by code_simp
  ultimately show ?thesis
    using boolean_builders_correct [OF z3_folds_eval, of "Var ''a'' BoolS" "App OP_NOT [Var ''a'' BoolS]" "Num 8 1"
        "App OP_ITE [Var ''b'' BoolS, Num 8 1, Num 8 2]"]
    by (simp add: formula_def)
qed

end
