(* ===== verification/TermCore.thy ===== *)
theory TermCore
  imports TermBool
begin

text \<open>
  The builders of \<open>smt/expr.cpp\<close> that call each other: \<open>extract\<close>, \<open>concat\<close>, \<open>sext\<close>, \<open>==\<close> and
  \<open>ule\<close>. Each body is a definition over a record of builders for its recursive calls; the record
  \<open>builders Z n\<close> ties the knot with \<open>n\<close> nested calls allowed, and \<^const>\<open>None\<close> is the result of a
  call that would need more. That a number of calls bounded by the weight of the operands is
  always enough is part of the correctness theorem.

  Bit widths are far below the range of \<open>unsigned\<close>, so their sums and differences do not wrap.
\<close>

section \<open>Sets of conjuncts\<close>

text \<open>\<open>AndExpr\<close> of \<open>smt/exprs.h\<close>: an ordered set of terms, by their identifiers.\<close>

type_synonym conjuncts = "tm list"

fun insert_expr :: "z3 \<Rightarrow> tm \<Rightarrow> tm list \<Rightarrow> tm list" where
  "insert_expr Z e [] = [e]"
| "insert_expr Z e (x # xs) =
     (if e = x then x # xs else if ast_id Z e < ast_id Z x then e # x # xs
      else x # insert_expr Z e xs)"

fun and_add :: "z3 \<Rightarrow> nat \<Rightarrow> tm \<Rightarrow> conjuncts \<Rightarrow> conjuncts" where
  "and_add Z 0 e es = (if isTrue e then es else insert_expr Z e es)"
| "and_add Z (Suc limit) e es =
     (if isTrue e then es
      else case isAnd e of
             Some (a, b) \<Rightarrow> and_add Z limit b (and_add Z limit a es)
           | None \<Rightarrow> insert_expr Z e es)"

definition and_valid :: "conjuncts \<Rightarrow> bool" where
  "and_valid es \<longleftrightarrow> TBool False \<notin> set es"

definition and_expr :: "conjuncts \<Rightarrow> tm" where
  "and_expr es = t_mk_and es"

section \<open>Open recursion\<close>

record calls =
  b_extract :: "tm \<Rightarrow> nat \<Rightarrow> nat \<Rightarrow> nat \<Rightarrow> tm option"
  b_concat :: "tm \<Rightarrow> tm \<Rightarrow> tm option"
  b_sext :: "tm \<Rightarrow> nat \<Rightarrow> tm option"
  b_eq :: "tm \<Rightarrow> tm \<Rightarrow> tm option"
  b_ule :: "tm \<Rightarrow> tm \<Rightarrow> tm option"

text \<open>
  A rewrite rule either fires with a result or leaves the term to the next rule.
\<close>

definition attempt :: "tm option option \<Rightarrow> tm option \<Rightarrow> tm option" where
  "attempt rule rest = do { r \<leftarrow> rule; case r of Some t \<Rightarrow> Some t | None \<Rightarrow> rest }"

definition fires :: "tm option \<Rightarrow> tm option option" where
  "fires m = map_option Some m"

definition passes :: "tm option option" where "passes = Some None"

fun concat_all :: "calls \<Rightarrow> tm \<Rightarrow> tm list \<Rightarrow> tm option" where
  "concat_all B b [] = Some b"
| "concat_all B b (x # xs) = do { b' \<leftarrow> b_concat B b x; concat_all B b' xs }"

definition isConcat :: "calls \<Rightarrow> tm \<Rightarrow> (tm \<times> tm) option option" where
  "isConcat B e =
     (case isAppOf OP_CONCAT e of
        Some (a # b # rest) \<Rightarrow> map_option (\<lambda>b'. Some (a, b')) (concat_all B b rest)
      | _ \<Rightarrow> Some None)"

definition t_sign :: "calls \<Rightarrow> tm \<Rightarrow> tm option" where
  "t_sign B e = (let bit = bits_of e - 1 in b_extract B e bit bit 3)"

definition t_isNegative :: "calls \<Rightarrow> tm \<Rightarrow> tm option" where
  "t_isNegative B e = do { s \<leftarrow> t_sign B e; b_eq B s (mkUInt 1 (bits_of s)) }"

definition t_zext :: "calls \<Rightarrow> tm \<Rightarrow> nat \<Rightarrow> tm option" where
  "t_zext B e amount = (if amount = 0 then Some e else b_concat B (mkUInt 0 amount) e)"

definition t_ult :: "calls \<Rightarrow> tm \<Rightarrow> tm \<Rightarrow> tm option" where
  "t_ult B a b =
     (case isUInt b of
        Some n \<Rightarrow> if n = 0 then Some (TBool False) else b_ule B a (mkUInt (n - 1) (bits_of a))
      | None \<Rightarrow> map_option t_not (b_ule B b a))"

definition t_uge :: "calls \<Rightarrow> tm \<Rightarrow> tm \<Rightarrow> tm option" where
  "t_uge B a b = b_ule B b a"

section \<open>Extraction\<close>

definition extract_node :: "z3 \<Rightarrow> tm \<Rightarrow> nat \<Rightarrow> nat \<Rightarrow> tm" where
  "extract_node Z e high low = simplify_const Z (App (OP_EXTRACT high low) [e]) [e]"

definition extract_extract_rule :: "calls \<Rightarrow> tm \<Rightarrow> nat \<Rightarrow> nat \<Rightarrow> tm option option" where
  "extract_extract_rule B e high low =
     (case isExtract e of
        Some (sub, high2, low2) \<Rightarrow> fires (b_extract B sub (high + low2) (low + low2) 3)
      | None \<Rightarrow> passes)"

definition extract_sext_rule :: "calls \<Rightarrow> tm \<Rightarrow> nat \<Rightarrow> nat \<Rightarrow> tm option option" where
  "extract_sext_rule B e high low =
     (case isSignExt e of
        Some v \<Rightarrow>
          if low = 0
          then if high < bits_of v then fires (b_extract B v high 0 3)
               else fires (b_sext B v (high - bits_of v + 1))
          else passes
      | None \<Rightarrow> passes)"

definition extract_ashr_rule :: "calls \<Rightarrow> tm \<Rightarrow> nat \<Rightarrow> nat \<Rightarrow> tm option option" where
  "extract_ashr_rule B e high low =
     (case isAShr e of
        Some (a, b) \<Rightarrow>
          (case isUInt b of
             Some shift \<Rightarrow>
               if shift < int (bits_of a) \<and> int high + shift < int (bits_of a)
               then fires (b_extract B a (high + nat shift) (low + nat shift) 3) else passes
           | None \<Rightarrow> passes)
      | None \<Rightarrow> passes)"

definition extract_concat_rule :: "calls \<Rightarrow> tm \<Rightarrow> nat \<Rightarrow> nat \<Rightarrow> tm option option" where
  "extract_concat_rule B e high low = do {
     ab \<leftarrow> isConcat B e;
     (case ab of
        Some (a, b) \<Rightarrow>
          (let b_bw = bits_of b in
           if high < b_bw then fires (b_extract B b high low 3)
           else if b_bw \<le> low then fires (b_extract B a (high - b_bw) (low - b_bw) 3)
           else if low = 0
           then fires (do { x \<leftarrow> b_extract B a (high - b_bw) 0 3; b_concat B x b })
           else if isConst a \<or> isConst b
           then fires (do { x \<leftarrow> b_extract B a (high - b_bw) 0 3;
                            y \<leftarrow> b_extract B b (b_bw - 1) low 3; b_concat B x y })
           else passes)
      | None \<Rightarrow> passes)
   }"

definition extract_ite_rule ::
  "z3 \<Rightarrow> calls \<Rightarrow> tm \<Rightarrow> nat \<Rightarrow> nat \<Rightarrow> nat \<Rightarrow> tm option option" where
  "extract_ite_rule Z B e high low depth =
     (case isIf e of
        Some (cond, then', els) \<Rightarrow> do {
          t \<leftarrow> b_extract B then' high low depth;
          f \<leftarrow> b_extract B els high low depth;
          if t = f then Some (Some t)
          else if isConst t \<and> isConst f then Some (Some (mkIf Z cond t f))
          else passes }
      | None \<Rightarrow> passes)"

text \<open>
  \<open>simpl_bitwise\<close>: an absorbing argument is the result, and so is the common value of all
  arguments.
\<close>

fun bitwise_loop ::
  "calls \<Rightarrow> (tm \<Rightarrow> bool) \<Rightarrow> nat \<Rightarrow> nat \<Rightarrow> nat \<Rightarrow> tm list \<Rightarrow> bool \<Rightarrow> tm option \<Rightarrow> tm option option" where
  "bitwise_loop B absorvent high low depth [] first extracted = Some extracted"
| "bitwise_loop B absorvent high low depth (a # as) first extracted = do {
     arg \<leftarrow> b_extract B a high low depth;
     if absorvent arg then Some (Some arg)
     else bitwise_loop B absorvent high low depth as False
            (if first then Some arg else if extracted = Some arg then extracted else None) }"

definition simpl_bitwise ::
  "calls \<Rightarrow> kind \<Rightarrow> (tm \<Rightarrow> bool) \<Rightarrow> tm \<Rightarrow> nat \<Rightarrow> nat \<Rightarrow> nat \<Rightarrow> tm option option" where
  "simpl_bitwise B k absorvent e high low depth =
     (case isAppOf k e of
        Some as \<Rightarrow> bitwise_loop B absorvent high low depth as True None
      | None \<Rightarrow> passes)"

definition extract_body :: "z3 \<Rightarrow> calls \<Rightarrow> tm \<Rightarrow> nat \<Rightarrow> nat \<Rightarrow> nat \<Rightarrow> tm option" where
  "extract_body Z B e high low depth =
     (if low = 0 \<and> high = bits_of e - 1 then Some e
      else if depth = 0 then Some (extract_node Z e high low)
      else
        attempt (extract_extract_rule B e high low)
       (attempt (extract_sext_rule B e high low)
       (attempt (extract_ashr_rule B e high low)
       (attempt (extract_concat_rule B e high low)
       (attempt (extract_ite_rule Z B e high low (depth - 1))
       (attempt (simpl_bitwise B OP_BAND isZero e high low (depth - 1))
       (attempt (simpl_bitwise B OP_BOR isAllOnes e high low (depth - 1))
       (Some (extract_node Z e high low)))))))))"

section \<open>Concatenation and sign extension\<close>

definition concat_pair_rule :: "calls \<Rightarrow> tm \<Rightarrow> tm \<Rightarrow> tm option option" where
  "concat_pair_rule B x y =
     (case (isExtract x, isExtract y) of
        (Some (a, h, l), Some (b, h2, l2)) \<Rightarrow>
          if l = h2 + 1
          then if a = b then fires (b_extract B a h l2 3)
               else if l2 = 0
               then do {
                 p \<leftarrow> isConcat B a;
                 (case p of
                    Some (aa, ab) \<Rightarrow>
                      if ab = b \<and> int h - int (bits_of aa) = int (bits_of b)
                      then fires (b_concat B aa b) else passes
                  | None \<Rightarrow> passes) }
               else passes
          else passes
      | _ \<Rightarrow> passes)"

definition concat_right_rule :: "calls \<Rightarrow> tm \<Rightarrow> tm \<Rightarrow> tm option option" where
  "concat_right_rule B x y =
     (case isExtract x of
        Some (a, h, l) \<Rightarrow> do {
          p \<leftarrow> isConcat B y;
          (case p of
             Some (b, c) \<Rightarrow>
               (case isExtract b of
                  Some (d, h2, l2) \<Rightarrow>
                    if l = h2 + 1 \<and> a = d
                    then fires (do { r \<leftarrow> b_extract B a h l2 3; b_concat B r c }) else passes
                | None \<Rightarrow> passes)
           | None \<Rightarrow> passes) }
      | None \<Rightarrow> passes)"

definition concat_left_rule :: "calls \<Rightarrow> tm \<Rightarrow> tm \<Rightarrow> tm option option" where
  "concat_left_rule B x y = do {
     p \<leftarrow> isConcat B x;
     (case p of
        Some (a, b) \<Rightarrow>
          (case (isExtract b, isExtract y) of
             (Some (c, h, l), Some (d, h2, l2)) \<Rightarrow>
               if l = h2 + 1 \<and> c = d
               then fires (do { r \<leftarrow> b_extract B c h l2 3; b_concat B a r }) else passes
           | _ \<Rightarrow> passes)
      | None \<Rightarrow> passes) }"

definition concat_const_rule :: "calls \<Rightarrow> tm \<Rightarrow> tm \<Rightarrow> tm option option" where
  "concat_const_rule B x y =
     (if isConst x
      then do {
        p \<leftarrow> isConcat B y;
        (case p of
           Some (a, b) \<Rightarrow>
             if isConst a then fires (do { r \<leftarrow> b_concat B x a; b_concat B r b }) else passes
         | None \<Rightarrow> passes) }
      else passes)"

definition concat_body :: "z3 \<Rightarrow> calls \<Rightarrow> tm \<Rightarrow> tm \<Rightarrow> tm option" where
  "concat_body Z B x y =
     attempt (concat_pair_rule B x y)
    (attempt (concat_right_rule B x y)
    (attempt (concat_left_rule B x y)
    (attempt (concat_const_rule B x y)
    (Some (binop_fold Z OP_CONCAT x y)))))"

definition sext_body :: "z3 \<Rightarrow> calls \<Rightarrow> tm \<Rightarrow> nat \<Rightarrow> tm option" where
  "sext_body Z B e amount =
     (if amount = 0 then Some e
      else case isSignExt e of
             Some a \<Rightarrow> b_sext B a ((bits_of e - bits_of a) + amount)
           | None \<Rightarrow> do {
               neg \<leftarrow> t_isNegative B e;
               if isFalse neg then t_zext B e amount
               else Some (simplify_const Z (App (OP_SIGN_EXT amount) [e]) [e]) })"

section \<open>Comparison\<close>

definition eq_bits_rule :: "calls \<Rightarrow> tm \<Rightarrow> tm \<Rightarrow> tm option option" where
  "eq_bits_rule B x y =
     (case (isEq x, isEq y) of
        (Some (lhs_a, lhs_b), Some (rhs_a, rhs_b)) \<Rightarrow>
          if isBV lhs_a \<and> bits_of lhs_a = 1 \<and> lhs_a = rhs_a then fires (b_eq B lhs_b rhs_b)
          else passes
      | _ \<Rightarrow> passes)"

definition eq_offset_rule :: "tm \<Rightarrow> tm \<Rightarrow> tm option option" where
  "eq_offset_rule x y =
     (let (lhs_base, lhs_offset) = isBasePlusOffset x; (rhs_base, rhs_offset) = isBasePlusOffset y in
      if lhs_base = rhs_base \<and> lhs_offset \<noteq> rhs_offset then Some (Some (TBool False)) else passes)"

fun concat_const_eqs ::
  "z3 \<Rightarrow> calls \<Rightarrow> tm \<Rightarrow> nat \<Rightarrow> tm list \<Rightarrow> conjuncts \<Rightarrow> conjuncts option" where
  "concat_const_eqs Z B y high [] eqs = Some eqs"
| "concat_const_eqs Z B y high (arg # as) eqs =
     (let low = high - bits_of arg in do {
        c \<leftarrow> b_extract B y (high - 1) low 3;
        q \<leftarrow> b_eq B arg c;
        concat_const_eqs Z B y low as (and_add Z 16 q eqs) })"

text \<open>The constant bits two arguments have in common when the concatenations are not aligned.\<close>

definition overlap_eq :: "calls \<Rightarrow> tm \<Rightarrow> tm \<Rightarrow> nat \<Rightarrow> nat \<Rightarrow> tm option option" where
  "overlap_eq B l r l_idx r_idx =
     (let l_bits = bits_of l; r_bits = bits_of r in
      if r_idx \<le> l_idx \<and> l_idx < r_idx + r_bits
      then let overlap = min (r_bits - (l_idx - r_idx)) l_bits;
               r_off = r_idx + r_bits - (l_idx + overlap)
           in do { a \<leftarrow> b_extract B l (l_bits - 1) (l_bits - overlap) 3;
                   b \<leftarrow> b_extract B r (r_off + overlap - 1) r_off 3; fires (b_eq B a b) }
      else if l_idx \<le> r_idx \<and> r_idx < l_idx + l_bits
      then let overlap = min (l_bits - (r_idx - l_idx)) r_bits;
               l_off = l_idx + l_bits - (r_idx + overlap)
           in do { a \<leftarrow> b_extract B l (l_off + overlap - 1) l_off 3;
                   b \<leftarrow> b_extract B r (r_bits - 1) (r_bits - overlap) 3; fires (b_eq B a b) }
      else passes)"

fun concat_concat_eqs ::
  "z3 \<Rightarrow> calls \<Rightarrow> nat \<Rightarrow> nat \<Rightarrow> tm list \<Rightarrow> tm list \<Rightarrow> conjuncts \<Rightarrow> bool \<Rightarrow> (conjuncts \<times> bool) option" where
  "concat_concat_eqs Z B l_idx r_idx (l # ls) (r # rs) eqs all_aligned =
     (let l_bits = bits_of l; r_bits = bits_of r in do {
        q \<leftarrow> (if l_idx = r_idx \<and> l_bits = r_bits then fires (b_eq B l r)
              else if isConst l \<and> isConst r then overlap_eq B l r l_idx r_idx
              else passes);
        concat_concat_eqs Z B (l_idx + l_bits) (r_idx + r_bits) ls rs
          (case q of Some q \<Rightarrow> and_add Z 16 q eqs | None \<Rightarrow> eqs) (all_aligned \<and> l_bits = r_bits) })"
| "concat_concat_eqs Z B l_idx r_idx _ _ eqs all_aligned = Some (eqs, all_aligned)"

definition eq_concat_rule :: "z3 \<Rightarrow> calls \<Rightarrow> tm \<Rightarrow> tm \<Rightarrow> tm option option" where
  "eq_concat_rule Z B x y =
     (case isAppOf OP_CONCAT x of
        Some as \<Rightarrow>
          if isConst y
          then fires (map_option and_expr (concat_const_eqs Z B y (bits_of x) as []))
          else (case isAppOf OP_CONCAT y of
                  Some bs \<Rightarrow>
                    if length as = length bs
                    then do {
                      (eqs, all_aligned) \<leftarrow> concat_concat_eqs Z B 0 0 as bs [] True;
                      if all_aligned \<or> \<not> and_valid eqs then Some (Some (and_expr eqs)) else passes }
                    else passes
                | None \<Rightarrow> passes)
      | None \<Rightarrow> passes)"

definition eq_ite_rule :: "z3 \<Rightarrow> calls \<Rightarrow> tm \<Rightarrow> tm \<Rightarrow> tm option option" where
  "eq_ite_rule Z B x y =
     (case isIf x of
        Some (c, t, e) \<Rightarrow>
          (case isIf y of
             Some (c2, t2, e2) \<Rightarrow>
               if t = t2 \<and> e = e2 \<and> t \<noteq> e \<and> isConst t \<and> isConst e then fires (b_eq B c c2)
               else passes
           | None \<Rightarrow> passes)
          \<bind> (\<lambda>r. case r of
             Some q \<Rightarrow> Some (Some q)
           | None \<Rightarrow>
               if isConst y \<and> (isConst t \<or> isConst e) \<or> isConst t \<and> isConst e \<and> \<not> isVar y
               then do { a \<leftarrow> b_eq B t y; b \<leftarrow> b_eq B e y; Some (Some (mkIf Z c a b)) }
               else passes)
      | None \<Rightarrow> if isAppOf OP_ITE y \<noteq> None then fires (b_eq B y x) else passes)"

definition eq_add_rule :: "calls \<Rightarrow> tm \<Rightarrow> tm \<Rightarrow> tm option option" where
  "eq_add_rule B x y =
     (case isAdd x of
        Some (a, b) \<Rightarrow> do {
          na \<leftarrow> t_isNegative B a;
          if \<not> isFalse na then passes
          else do {
            nb \<leftarrow> t_isNegative B b;
            if \<not> isFalse nb then passes
            else do {
              u \<leftarrow> t_ult B y a;
              if isTrue u then Some (Some (TBool False))
              else do {
                v \<leftarrow> t_ult B y b;
                if isTrue v then Some (Some (TBool False)) else passes }}}}
      | None \<Rightarrow> passes)"

definition eq_urem_rule :: "calls \<Rightarrow> tm \<Rightarrow> tm \<Rightarrow> tm option option" where
  "eq_urem_rule B x y =
     (case isURem x of
        Some (a, b) \<Rightarrow> do {
          u \<leftarrow> t_uge B y b;
          if isTrue u then Some (Some (TBool False)) else passes }
      | None \<Rightarrow> passes)"

definition eq_sext_rule :: "calls \<Rightarrow> tm \<Rightarrow> tm \<Rightarrow> tm option option" where
  "eq_sext_rule B x y =
     (case isSignExt x of
        Some a \<Rightarrow>
          (case isSignExt y of
             Some b \<Rightarrow> if bits_of a = bits_of b then fires (b_eq B a b)
                      else if isZero y then fires (b_eq B a (mkUInt 0 (bits_of a))) else passes
           | None \<Rightarrow> if isZero y then fires (b_eq B a (mkUInt 0 (bits_of a))) else passes)
      | None \<Rightarrow> passes)"

definition cmp_eq_body :: "z3 \<Rightarrow> calls \<Rightarrow> tm \<Rightarrow> tm \<Rightarrow> tm option" where
  "cmp_eq_body Z B x y =
     (if x = y then Some (TBool True)
      else if isConst x then if isConst y then Some (TBool False) else b_eq B y x
      else if isTrue y then Some x
      else if isFalse y then Some (t_not x)
      else
        attempt (eq_bits_rule B x y)
       (attempt (eq_offset_rule x y)
       (attempt (eq_concat_rule Z B x y)
       (attempt (eq_ite_rule Z B x y)
       (attempt (eq_add_rule B x y)
       (attempt (eq_urem_rule B x y)
       (attempt (eq_sext_rule B x y)
       (Some (binop_commutative2 Z OP_EQ x y)))))))))"

definition ule_body :: "z3 \<Rightarrow> calls \<Rightarrow> tm \<Rightarrow> tm \<Rightarrow> tm option" where
  "ule_body Z B x y =
     (if x = y \<or> isZero x \<or> isAllOnes y then Some (TBool True)
      else if isZero y \<or> isAllOnes x then b_eq B x y
      else if bits_of x \<le> min_leading_zeros_tm x + min_trailing_ones y then Some (TBool True)
      else Some (binop_fold Z OP_ULEQ x y))"

section \<open>Tying the knot\<close>

primrec builders :: "z3 \<Rightarrow> nat \<Rightarrow> calls" where
  "builders Z 0 =
     \<lparr>b_extract = (\<lambda>_ _ _ _. None), b_concat = (\<lambda>_ _. None), b_sext = (\<lambda>_ _. None),
      b_eq = (\<lambda>_ _. None), b_ule = (\<lambda>_ _. None)\<rparr>"
| "builders Z (Suc n) =
     \<lparr>b_extract = extract_body Z (builders Z n), b_concat = concat_body Z (builders Z n),
      b_sext = sext_body Z (builders Z n), b_eq = cmp_eq_body Z (builders Z n),
      b_ule = ule_body Z (builders Z n)\<rparr>"

end
