(* ===== verification/TermExtract.thy ===== *)
theory TermExtract
  imports TermCore
begin

text \<open>
  What the mutually recursive builders promise: with as many nested calls as the weight of the
  operands asks for, each of them yields, and what it yields is a well-sorted term with the
  value of the operation under every admissible assignment. This theory states the promises and
  proves that of \<open>extract\<close>, assuming those of the calls it makes.
\<close>

section \<open>Shapes of bit-vector terms\<close>

lemma bvtermD: "bvterm w e \<Longrightarrow> bits_of e = w" "bvterm w e \<Longrightarrow> 0 < w"
  using wt_sort [of e] by (auto simp: bvterm_def bits_of_def intro: Suc_leI)

lemma bvterm_ex: "wt e \<Longrightarrow> is_bv (sort_of e) \<longleftrightarrow> (\<exists>w. bvterm w e)"
  using wt_sort [of e] by (auto simp: sort_is_bv bvterm_def intro: gr0I)

lemma bvterm_extract:
  "bvterm w (App (OP_EXTRACT h l) as) \<longleftrightarrow>
     (\<exists>a v. as = [a] \<and> bvterm v a \<and> l \<le> h \<and> h < v \<and> w = Suc h - l)"
proof -
  have "l \<le> h \<and> h < sort_bits (sort_of a) \<longleftrightarrow> (\<exists>v. sort_of a = BVS v \<and> l \<le> h \<and> h < v)" for a
    by (cases "sort_of a") auto
  then show ?thesis by (auto simp: bvterm_def split: list.splits)
qed

lemma bvterm_sext:
  "bvterm w (App (OP_SIGN_EXT n) as) \<longleftrightarrow> (\<exists>a v. as = [a] \<and> bvterm v a \<and> w = v + n)"
  by (auto simp: bvterm_def sort_is_bv split: list.splits) (metis gr0I wt_sort)

lemma bvterm_two:
  assumes "k \<in> {OP_BUDIV, OP_BSDIV, OP_BUREM, OP_BSREM, OP_BSHL, OP_BLSHR, OP_BASHR}"
  shows "bvterm w (App k as) \<longleftrightarrow> (\<exists>a b. as = [a, b] \<and> bvterm w a \<and> bvterm w b)"
  using assms wt_sort by (fastforce simp: bvterm_def sort_is_bv split: list.splits)

lemma bvterm_ite:
  "bvterm w (App OP_ITE as) \<longleftrightarrow> (\<exists>c t e. as = [c, t, e] \<and> formula c \<and> bvterm w t \<and> bvterm w e)"
  by (auto simp: bvterm_def formula_def split: list.splits)

lemma bvterm_nary:
  assumes "k \<in> {OP_BADD, OP_BMUL, OP_BAND, OP_BOR, OP_BXOR}"
  shows "bvterm w (App k as) \<longleftrightarrow> as \<noteq> [] \<and> list_all (bvterm w) as"
  using assms wt_sort by (cases as) (fastforce simp: bvterm_def sort_is_bv list_all_iff)+

lemma bvterm_concat:
  "bvterm w (App OP_CONCAT as) \<longleftrightarrow>
     2 \<le> length as \<and> list_all (\<lambda>a. bvterm (bits_of a) a) as \<and> w = sum_list (map bits_of as)"
proof -
  have "wt a \<and> is_bv (sort_of a) \<longleftrightarrow> bvterm (bits_of a) a" for a
    using bvterm_ex [of a] bvtermD(1) by (auto simp: bvterm_def)
  then have "list_all wt as \<and> list_all is_bv (map sort_of as) \<longleftrightarrow>
      list_all (\<lambda>a. bvterm (bits_of a) a) as"
    by (auto simp: list_all_iff)
  moreover have "map sort_bits (map sort_of as) = map bits_of as" by (simp add: bits_of_def)
  ultimately show ?thesis by (auto simp: bvterm_def simp del: map_map)
qed

lemma bv_of_app [simp]:
  "bv_of \<rho> (App (OP_EXTRACT h l) [a]) = bvextract (bv_of \<rho> a) h l"
  "bv_of \<rho> (App (OP_SIGN_EXT n) [a]) = bvsext (bv_of \<rho> a) n"
  "bv_of \<rho> (App OP_BASHR [a, b]) = bvashr (bv_of \<rho> a) (bv_of \<rho> b)"
  "bv_of \<rho> (App OP_BUREM [a, b]) = bvurem (bv_of \<rho> a) (bv_of \<rho> b)"
  "bv_of \<rho> (App OP_BADD [a, b]) = bvadd (bv_of \<rho> a) (bv_of \<rho> b)"
  "bv_of \<rho> (App OP_CONCAT [a, b]) = bvconcat (bv_of \<rho> a) (bv_of \<rho> b)"
  "bv_of \<rho> (App OP_ITE [c, a, b]) = (if sat \<rho> c then bv_of \<rho> a else bv_of \<rho> b)"
  "bv_of \<rho> (App OP_BAND as) = foldl1 bvand (map (bv_of \<rho>) as)"
  "bv_of \<rho> (App OP_BOR as) = foldl1 bvor (map (bv_of \<rho>) as)"
  by (simp_all add: bv_of_def [abs_def] sat_def bv2_def comp_def)

lemma adm_app:
  "adm \<rho> (App k as) \<Longrightarrow> a \<in> set as \<Longrightarrow> adm \<rho> a"
  by (auto simp: adm_def list_all_iff)

lemma adm_const: "isConst e \<Longrightarrow> adm \<rho> e \<longleftrightarrow> model_ok \<rho>"
  by (simp add: adm_def isConst_simps)

section \<open>Specifications\<close>

definition yields :: "('a \<Rightarrow> bool) \<Rightarrow> 'a option \<Rightarrow> bool" where
  "yields P m \<longleftrightarrow> (\<exists>r. m = Some r \<and> P r)"

definition rule_ok :: "(tm \<Rightarrow> bool) \<Rightarrow> tm option option \<Rightarrow> bool" where
  "rule_ok P m \<longleftrightarrow> yields (\<lambda>r. \<forall>t. r = Some t \<longrightarrow> P t) m"

lemma yields_Some [simp]: "yields P (Some r) \<longleftrightarrow> P r"
  by (simp add: yields_def)

lemma yields_bind: "yields Q m \<Longrightarrow> (\<And>r. Q r \<Longrightarrow> yields P (f r)) \<Longrightarrow> yields P (m \<bind> f)"
  by (auto simp: yields_def)

lemma yields_map: "yields (\<lambda>r. P (f r)) m \<Longrightarrow> yields P (map_option f m)"
  by (auto simp: yields_def)

lemma yields_mono: "yields Q m \<Longrightarrow> (\<And>r. Q r \<Longrightarrow> P r) \<Longrightarrow> yields P m"
  by (auto simp: yields_def)

lemma rule_ok_passes [simp]: "rule_ok P passes"
  by (simp add: rule_ok_def passes_def)

lemma rule_ok_Some [simp]: "rule_ok P (Some (Some t)) \<longleftrightarrow> P t"
  by (simp add: rule_ok_def)

lemma rule_ok_fires: "yields P m \<Longrightarrow> rule_ok P (fires m)"
  by (auto simp: rule_ok_def fires_def yields_def)

lemma rule_ok_bind: "yields Q m \<Longrightarrow> (\<And>r. Q r \<Longrightarrow> rule_ok P (f r)) \<Longrightarrow> rule_ok P (m \<bind> f)"
  by (auto simp: rule_ok_def intro: yields_bind)

lemma attempt_ok: "rule_ok P m \<Longrightarrow> yields P rest \<Longrightarrow> yields P (attempt m rest)"
  by (auto simp: attempt_def rule_ok_def yields_def split: option.splits)

definition ext_spec :: "tm \<Rightarrow> nat \<Rightarrow> nat \<Rightarrow> tm \<Rightarrow> bool" where
  "ext_spec e h l r \<longleftrightarrow> bvterm (Suc h - l) r \<and> weight r \<le> weight e + 1 \<and> (isConst e \<longrightarrow> isConst r) \<and>
     (\<forall>\<rho>. adm \<rho> e \<longrightarrow> adm \<rho> r \<and> bv_of \<rho> r = bvextract (bv_of \<rho> e) h l)"

definition cat_spec :: "tm \<Rightarrow> tm \<Rightarrow> tm \<Rightarrow> bool" where
  "cat_spec x y r \<longleftrightarrow> bvterm (bits_of x + bits_of y) r \<and> weight r \<le> weight x + weight y + 2 \<and>
     (isConst x \<and> isConst y \<longrightarrow> isConst r) \<and>
     (\<forall>\<rho>. adm \<rho> x \<and> adm \<rho> y \<longrightarrow> adm \<rho> r \<and> bv_of \<rho> r = bvconcat (bv_of \<rho> x) (bv_of \<rho> y))"

definition sext_spec :: "tm \<Rightarrow> nat \<Rightarrow> tm \<Rightarrow> bool" where
  "sext_spec e n r \<longleftrightarrow> bvterm (bits_of e + n) r \<and> weight r \<le> weight e + 3 \<and>
     (\<forall>\<rho>. adm \<rho> e \<longrightarrow> adm \<rho> r \<and> bv_of \<rho> r = bvsext (bv_of \<rho> e) n)"

definition eq_spec :: "tm \<Rightarrow> tm \<Rightarrow> tm \<Rightarrow> bool" where
  "eq_spec x y r \<longleftrightarrow> formula r \<and>
     (\<forall>\<rho>. adm \<rho> x \<and> adm \<rho> y \<longrightarrow> adm \<rho> r \<and> (sat \<rho> r \<longleftrightarrow> eval \<rho> x = eval \<rho> y))"

definition ule_spec :: "tm \<Rightarrow> tm \<Rightarrow> tm \<Rightarrow> bool" where
  "ule_spec x y r \<longleftrightarrow> formula r \<and>
     (\<forall>\<rho>. adm \<rho> x \<and> adm \<rho> y \<longrightarrow> adm \<rho> r \<and> (sat \<rho> r \<longleftrightarrow> bvule (bv_of \<rho> x) (bv_of \<rho> y)))"

text \<open>
  A comparison is turned around at most once: when its left operand is a literal, or its right
  operand is a conditional and its left one is not.
\<close>

definition turns :: "tm \<Rightarrow> tm \<Rightarrow> nat" where
  "turns x y = (if isConst x \<or> isAppOf OP_ITE y \<noteq> None \<and> isIf x = None then 1 else 0)"

definition calls_ok :: "calls \<Rightarrow> nat \<Rightarrow> bool" where
  "calls_ok B N \<longleftrightarrow>
     (\<forall>e h l d w. bvterm w e \<longrightarrow> l \<le> h \<longrightarrow> h < w \<longrightarrow> 4 * weight e < N \<longrightarrow>
        yields (ext_spec e h l) (b_extract B e h l d)) \<and>
     (\<forall>x y w v. bvterm w x \<longrightarrow> bvterm v y \<longrightarrow> 4 * (weight x + weight y) + 1 < N \<longrightarrow>
        yields (cat_spec x y) (b_concat B x y)) \<and>
     (\<forall>e n w. bvterm w e \<longrightarrow> 4 * weight e + 6 < N \<longrightarrow> yields (sext_spec e n) (b_sext B e n)) \<and>
     (\<forall>x y. wt x \<longrightarrow> wt y \<longrightarrow> sort_of x = sort_of y \<longrightarrow> 4 * (weight x + weight y) + turns x y < N \<longrightarrow>
        yields (eq_spec x y) (b_eq B x y)) \<and>
     (\<forall>x y w. bvterm w x \<longrightarrow> bvterm w y \<longrightarrow> 4 * (weight x + weight y) + 2 < N \<longrightarrow>
        yields (ule_spec x y) (b_ule B x y))"

lemma calls_okD:
  assumes "calls_ok B N"
  shows "bvterm w e \<Longrightarrow> l \<le> h \<Longrightarrow> h < w \<Longrightarrow> 4 * weight e < N \<Longrightarrow> yields (ext_spec e h l) (b_extract B e h l d)"
    and "bvterm w x \<Longrightarrow> bvterm v y \<Longrightarrow> 4 * (weight x + weight y) + 1 < N \<Longrightarrow>
           yields (cat_spec x y) (b_concat B x y)"
    and "bvterm w e \<Longrightarrow> 4 * weight e + 6 < N \<Longrightarrow> yields (sext_spec e n) (b_sext B e n)"
    and "wt x \<Longrightarrow> wt y \<Longrightarrow> sort_of x = sort_of y \<Longrightarrow> 4 * (weight x + weight y) + turns x y < N \<Longrightarrow>
           yields (eq_spec x y) (b_eq B x y)"
    and "bvterm w x \<Longrightarrow> bvterm w y \<Longrightarrow> 4 * (weight x + weight y) + 2 < N \<Longrightarrow>
           yields (ule_spec x y) (b_ule B x y)"
  using assms unfolding calls_ok_def by blast+

lemma turns_le: "turns x y \<le> 1"
  by (simp add: turns_def)

section \<open>Taking a concatenation apart\<close>

definition parts_spec :: "tm \<Rightarrow> tm \<times> tm \<Rightarrow> bool" where
  "parts_spec e p \<longleftrightarrow> (case p of (a, b) \<Rightarrow>
     bvterm (bits_of a) a \<and> bvterm (bits_of b) b \<and> bits_of e = bits_of a + bits_of b \<and>
     weight a + weight b + 2 \<le> weight e \<and>
     (\<forall>\<rho>. adm \<rho> e \<longrightarrow> adm \<rho> a \<and> adm \<rho> b \<and> bv_of \<rho> e = bvconcat (bv_of \<rho> a) (bv_of \<rho> b)))"

lemma foldl_concat:
  "wf_bv a \<Longrightarrow> wf_bv b \<Longrightarrow> list_all wf_bv vs \<Longrightarrow>
     foldl bvconcat (bvconcat a b) vs = bvconcat a (foldl bvconcat b vs)"
  by (induction vs arbitrary: b) (auto simp: concat_assoc)

lemma concat_all_ok:
  assumes "calls_ok B N"
  shows "bvterm (bits_of b) b \<Longrightarrow> list_all (\<lambda>a. bvterm (bits_of a) a) xs \<Longrightarrow>
     4 * (weight b + sum_list (map weight xs) + 2 * length xs) + 1 < N + 8 \<Longrightarrow>
     yields (\<lambda>r. bvterm (bits_of b + sum_list (map bits_of xs)) r \<and>
       weight r \<le> weight b + sum_list (map weight xs) + 2 * length xs \<and>
       (\<forall>\<rho>. adm \<rho> b \<and> list_all (adm \<rho>) xs \<longrightarrow>
          adm \<rho> r \<and> bv_of \<rho> r = foldl bvconcat (bv_of \<rho> b) (map (bv_of \<rho>) xs)))
     (concat_all B b xs)"
proof (induction xs arbitrary: b)
  case Nil
  then show ?case by simp
next
  case (Cons x xs)
  have "yields (cat_spec b x) (b_concat B b x)"
    by (rule calls_okD(2) [OF assms, of "bits_of b" _ "bits_of x"]) (use Cons.prems in auto)
  then show ?case unfolding concat_all.simps
  proof (rule yields_bind)
    fix r assume r: "cat_spec b x r"
    then have br: "bits_of r = bits_of b + bits_of x" "bvterm (bits_of r) r"
      "weight r \<le> weight b + weight x + 2"
      using bvtermD(1) by (auto simp: cat_spec_def)
    show "yields (\<lambda>s. bvterm (bits_of b + sum_list (map bits_of (x # xs))) s \<and>
       weight s \<le> weight b + sum_list (map weight (x # xs)) + 2 * length (x # xs) \<and>
       (\<forall>\<rho>. adm \<rho> b \<and> list_all (adm \<rho>) (x # xs) \<longrightarrow>
          adm \<rho> s \<and> bv_of \<rho> s = foldl bvconcat (bv_of \<rho> b) (map (bv_of \<rho>) (x # xs))))
      (concat_all B r xs)"
      by (rule yields_mono, rule Cons.IH)
        (use br Cons.prems r in \<open>auto simp: cat_spec_def add.assoc\<close>)
  qed
qed

lemma isConcat_ok:
  assumes "calls_ok B N" "bvterm w e" "4 * weight e < N + 15"
  shows "yields (\<lambda>p. case p of Some ab \<Rightarrow> parts_spec e ab | None \<Rightarrow> True) (isConcat B e)"
proof (cases "\<exists>as. e = App OP_CONCAT as")
  case False
  then have "isAppOf OP_CONCAT e = None" using isAppOf_Some [of OP_CONCAT e] by (metis option.exhaust)
  then show ?thesis by (simp add: isConcat_def)
next
  case True
  then obtain as where "e = App OP_CONCAT as" by blast
  moreover from this obtain a b xs where "as = a # b # xs"
    using assms(2) by (auto simp: bvterm_concat Suc_le_length_iff numeral_2_eq_2)
  ultimately have e: "e = App OP_CONCAT (a # b # xs)" by simp
  note t = assms(2) [unfolded e bvterm_concat]
  have c: "isConcat B e = map_option (\<lambda>b'. Some (a, b')) (concat_all B b xs)"
    by (simp add: isConcat_def e isAppOf_def)
  show ?thesis unfolding c
  proof (rule yields_map, rule yields_mono, rule concat_all_ok [OF assms(1)])
    show "4 * (weight b + sum_list (map weight xs) + 2 * length xs) + 1 < N + 8"
      using assms(3) by (simp add: e)
    fix r assume r: "bvterm (bits_of b + sum_list (map bits_of xs)) r \<and>
       weight r \<le> weight b + sum_list (map weight xs) + 2 * length xs \<and>
       (\<forall>\<rho>. adm \<rho> b \<and> list_all (adm \<rho>) xs \<longrightarrow>
          adm \<rho> r \<and> bv_of \<rho> r = foldl bvconcat (bv_of \<rho> b) (map (bv_of \<rho>) xs))"
    then have br: "bits_of r = bits_of b + sum_list (map bits_of xs)" using bvtermD(1) by blast
    have vals: "adm \<rho> a \<and> adm \<rho> r \<and> bv_of \<rho> e = bvconcat (bv_of \<rho> a) (bv_of \<rho> r)" if "adm \<rho> e" for \<rho>
    proof -
      have ok: "model_ok \<rho>" using that by (simp add: adm_def)
      have "list_all wf_bv (map (bv_of \<rho>) (a # b # xs))"
        using t bvterm_wf(1) [OF ok] by (auto simp: list_all_iff)
      moreover have "list_all (adm \<rho>) (a # b # xs)" using that by (simp add: e adm_def list_all_iff)
      ultimately show ?thesis
        using r ok foldl_concat [of "bv_of \<rho> a" "bv_of \<rho> b" "map (bv_of \<rho>) xs"]
        by (simp add: e bv_of_concat adm_def)
    qed
    show "case Some (a, r) of Some ab \<Rightarrow> parts_spec e ab | None \<Rightarrow> True"
      unfolding parts_spec_def using r br vals t bvtermD(1) [OF assms(2)] by (auto simp: e)
  qed (use t in auto)
qed

section \<open>Extraction\<close>

lemma ext_node:
  assumes "z3_folds Z" "bvterm w e" "l \<le> h" "h < w"
  shows "ext_spec e h l (extract_node Z e h l)"
proof -
  have b: "bvterm (Suc h - l) (App (OP_EXTRACT h l) [e])" using assms by (auto simp: bvterm_extract)
  note S = simplify_const_sound [OF assms(1), of "OP_EXTRACT h l" "[e]"]
  have "nz \<rho> e \<Longrightarrow> nz \<rho> (extract_node Z e h l)" for \<rho>
    using b nz_simplify_const [OF assms(1), of "OP_EXTRACT h l" "[e]" \<rho>]
    by (simp add: bvterm_def extract_node_def)
  moreover have "weight (extract_node Z e h l) \<le> weight e + 1"
    using b weight_simplify_const [OF assms(1), of "OP_EXTRACT h l" "[e]"]
    by (simp add: bvterm_def extract_node_def)
  moreover have "bv_of \<rho> (extract_node Z e h l) = bvextract (bv_of \<rho> e) h l" for \<rho>
    using b S(3) [of \<rho>] by (simp add: bvterm_def extract_node_def bv_of_def)
  ultimately show ?thesis using b S(1,2,4)
    by (simp add: ext_spec_def adm_def bvterm_def extract_node_def)
qed

lemma ext_mono:
  assumes "yields (ext_spec a h l) m"
    and "Suc h - l = Suc h' - l'" "weight a \<le> weight e" "\<not> isConst e"
    and "\<And>\<rho>. adm \<rho> e \<Longrightarrow> adm \<rho> a \<and> bvextract (bv_of \<rho> a) h l = bvextract (bv_of \<rho> e) h' l'"
  shows "yields (ext_spec e h' l') m"
  using assms(1) by (rule yields_mono) (use assms(2-5) in \<open>auto simp: ext_spec_def\<close>)

lemma extract_extract_ok:
  assumes "calls_ok B N" "bvterm w e" "l \<le> h" "h < w" "4 * weight e \<le> N"
  shows "rule_ok (ext_spec e h l) (extract_extract_rule B e h l)"
proof (cases "isExtract e")
  case None
  then show ?thesis by (simp add: extract_extract_rule_def)
next
  case (Some p)
  then obtain a h2 l2 as where e: "isExtract e = Some (a, h2, l2)" "e = App (OP_EXTRACT h2 l2) (a # as)"
    by (cases p) (auto simp: isExtract_Some)
  then obtain v where v: "as = []" "bvterm v a" "l2 \<le> h2" "h2 < v" "w = Suc h2 - l2"
    using assms(2) by (auto simp: bvterm_extract)
  have "yields (ext_spec a (h + l2) (l + l2)) (b_extract B a (h + l2) (l + l2) 3)"
    by (rule calls_okD(1) [OF assms(1) v(2)]) (use assms v e in auto)
  then have "yields (ext_spec e h l) (b_extract B a (h + l2) (l + l2) 3)"
    by (rule ext_mono) (use assms(3,4) v e adm_app [of _ "OP_EXTRACT h2 l2" "[a]" a] in
        \<open>auto simp: extract_extract isConst_def\<close>)
  then show ?thesis by (simp add: extract_extract_rule_def e(1) rule_ok_fires)
qed

lemma extract_sext_ok:
  assumes "calls_ok B N" "bvterm w e" "l \<le> h" "h < w" "4 * weight e \<le> N"
  shows "rule_ok (ext_spec e h l) (extract_sext_rule B e h l)"
proof (cases "isSignExt e")
  case None
  then show ?thesis by (simp add: extract_sext_rule_def)
next
  case (Some a)
  then obtain n as where "e = App (OP_SIGN_EXT n) (a # as)" by (auto simp: isSignExt_Some)
  with assms(2) obtain v where e: "e = App (OP_SIGN_EXT n) [a]" "bvterm v a" "w = v + n"
    by (auto simp: bvterm_sext)
  have adm: "adm \<rho> a \<and> wf_bv (bv_of \<rho> a) \<and> bits (bv_of \<rho> a) = v" if "adm \<rho> e" for \<rho>
    using that e adm_app [of \<rho> "OP_SIGN_EXT n" "[a]" a] bvterm_wf [OF _ e(2)] by (auto simp: adm_def)
  show ?thesis
  proof (cases "l = 0")
    case False
    then show ?thesis using Some by (simp add: extract_sext_rule_def)
  next
    case l: True
    show ?thesis
    proof (cases "h < v")
      case True
      have "yields (ext_spec a h 0) (b_extract B a h 0 3)"
        by (rule calls_okD(1) [OF assms(1) e(2)]) (use assms True e in auto)
      then have "yields (ext_spec e h 0) (b_extract B a h 0 3)"
        by (rule ext_mono) (use True adm e in \<open>auto simp: isConst_def extract_sext_low\<close>)
      then show ?thesis using Some l True bvtermD(1) [OF e(2)]
        by (simp add: extract_sext_rule_def rule_ok_fires)
    next
      case False
      have "yields (sext_spec a (h - v + 1)) (b_sext B a (h - v + 1))"
        by (rule calls_okD(3) [OF assms(1) e(2)]) (use assms(5) e in auto)
      then have "yields (ext_spec e h 0) (b_sext B a (h - v + 1))"
        by (rule yields_mono)
          (use False adm e assms(4) bvtermD(1) [OF e(2)] in
            \<open>auto simp: ext_spec_def sext_spec_def isConst_def extract_sext_high Suc_diff_le\<close>)
      then show ?thesis using Some l False bvtermD(1) [OF e(2)]
        by (simp add: extract_sext_rule_def rule_ok_fires)
    qed
  qed
qed

lemma extract_ashr_ok:
  assumes "calls_ok B N" "bvterm w e" "l \<le> h" "h < w" "4 * weight e \<le> N"
  shows "rule_ok (ext_spec e h l) (extract_ashr_rule B e h l)"
proof (cases "\<exists>a b s. isAShr e = Some (a, b) \<and> isUInt b = Some s \<and> s < int (bits_of a) \<and>
                    int h + s < int (bits_of a)")
  case False
  then show ?thesis by (auto simp: extract_ashr_rule_def split: option.splits)
next
  case True
  then obtain a b s where i: "isAShr e = Some (a, b)" "isUInt b = Some s" "s < int (bits_of a)"
    "int h + s < int (bits_of a)" by blast
  then have e: "e = App OP_BASHR [a, b]" by (simp add: recognised)
  with assms(2) have t: "bvterm w a" "bvterm w b" using bvterm_two [of OP_BASHR w] by auto
  from i(2) t(2) have b: "b = Num w s" "0 \<le> s" by (auto simp: isUInt_Some bvterm_def)
  have vals: "adm \<rho> a \<and> bvextract (bv_of \<rho> a) (h + nat s) (l + nat s) = bvextract (bv_of \<rho> e) h l"
    if "adm \<rho> e" for \<rho>
  proof -
    have a: "adm \<rho> a" using that e adm_app [of \<rho> OP_BASHR "[a, b]" a] by simp
    then have "wf_bv (bv_of \<rho> a)" "bits (bv_of \<rho> a) = w" using bvterm_wf [OF _ t(1)] by (auto simp: adm_def)
    moreover have "uval (bv_of \<rho> b) = s" using b by (simp add: bv_of_def)
    ultimately show ?thesis
      using a extract_ashr [of "bv_of \<rho> a" h "bv_of \<rho> b" l] e b i(4) assms(3) bvtermD(1) [OF t(1)]
      by auto
  qed
  have "yields (ext_spec a (h + nat s) (l + nat s)) (b_extract B a (h + nat s) (l + nat s) 3)"
    by (rule calls_okD(1) [OF assms(1) t(1)]) (use assms(3,5) i(4) b bvtermD(1) [OF t(1)] e in auto)
  then have "yields (ext_spec e h l) (b_extract B a (h + nat s) (l + nat s) 3)"
    by (rule ext_mono) (use vals e in \<open>auto simp: isConst_def\<close>)
  then show ?thesis using i by (simp add: extract_ashr_rule_def rule_ok_fires)
qed

lemma ext_specD:
  assumes "ext_spec e h l r"
  shows "bvterm (Suc h - l) r" "weight r \<le> weight e + 1" "isConst e \<Longrightarrow> isConst r"
    "adm \<rho> e \<Longrightarrow> adm \<rho> r" "adm \<rho> e \<Longrightarrow> bv_of \<rho> r = bvextract (bv_of \<rho> e) h l"
  using assms by (auto simp: ext_spec_def)

text \<open>Two parts, extracted and joined again.\<close>

lemma ext_of_cat:
  assumes "cat_spec x y r" "\<not> isConst e" "weight x + weight y + 2 \<le> weight e + 1"
    and "bits_of x + bits_of y = Suc h - l"
    and "\<And>\<rho>. adm \<rho> e \<Longrightarrow> adm \<rho> x \<and> adm \<rho> y \<and>
           bvconcat (bv_of \<rho> x) (bv_of \<rho> y) = bvextract (bv_of \<rho> e) h l"
  shows "ext_spec e h l r"
  using assms unfolding cat_spec_def ext_spec_def by (metis order_trans)

lemma concat_not_const: "parts_spec e p \<Longrightarrow> \<not> isConst e"
  using isConst_simps(1) [of e] by (cases p) (auto simp: parts_spec_def)

lemma parts_specD:
  assumes "parts_spec e (a, b)" "bvterm w e"
  shows "bvterm (bits_of a) a" "bvterm (bits_of b) b" "w = bits_of a + bits_of b"
    "weight a + weight b + 2 \<le> weight e" "\<not> isConst e" "0 < bits_of b" "0 < bits_of a"
    and "adm \<rho> e \<Longrightarrow> adm \<rho> a" "adm \<rho> e \<Longrightarrow> adm \<rho> b"
    "adm \<rho> e \<Longrightarrow> wf_bv (bv_of \<rho> a)" "adm \<rho> e \<Longrightarrow> bits (bv_of \<rho> a) = bits_of a"
    "adm \<rho> e \<Longrightarrow> wf_bv (bv_of \<rho> b)" "adm \<rho> e \<Longrightarrow> bits (bv_of \<rho> b) = bits_of b"
    "adm \<rho> e \<Longrightarrow> bv_of \<rho> e = bvconcat (bv_of \<rho> a) (bv_of \<rho> b)"
proof -
  show p: "bvterm (bits_of a) a" "bvterm (bits_of b) b" "w = bits_of a + bits_of b"
    "weight a + weight b + 2 \<le> weight e" "\<not> isConst e"
    using assms bvtermD(1) [OF assms(2)] concat_not_const [OF assms(1)] by (auto simp: parts_spec_def)
  show "0 < bits_of b" "0 < bits_of a" using p bvtermD(2) by blast+
  assume e: "adm \<rho> e"
  then have ok: "model_ok \<rho>" by (simp add: adm_def)
  show "adm \<rho> a" "adm \<rho> b" "bv_of \<rho> e = bvconcat (bv_of \<rho> a) (bv_of \<rho> b)"
    using assms(1) e by (auto simp: parts_spec_def)
  show "wf_bv (bv_of \<rho> a)" "bits (bv_of \<rho> a) = bits_of a" "wf_bv (bv_of \<rho> b)" "bits (bv_of \<rho> b) = bits_of b"
    using bvterm_wf [OF ok p(1)] bvterm_wf [OF ok p(2)] by auto
qed

lemma extract_concat_zero:
  assumes "calls_ok B N" "bvterm w e" "h < w" "4 * weight e \<le> N" "parts_spec e (a, b)"
    and "bits_of b \<le> h"
  shows "yields (ext_spec e h 0) (do { x \<leftarrow> b_extract B a (h - bits_of b) 0 3; b_concat B x b })"
proof -
  note P = parts_specD [OF assms(5,2)]
  have "yields (ext_spec a (h - bits_of b) 0) (b_extract B a (h - bits_of b) 0 3)"
    by (rule calls_okD(1) [OF assms(1) P(1)]) (use assms(3,4,6) P(3,4) in simp_all)
  then show ?thesis
  proof (rule yields_bind)
    fix x assume xs: "ext_spec a (h - bits_of b) 0 x"
    note X = ext_specD [OF xs]
    have wx: "bits_of x = Suc (h - bits_of b)" using bvtermD(1) [OF X(1)] by simp
    have "yields (cat_spec x b) (b_concat B x b)"
      by (rule calls_okD(2) [OF assms(1) X(1) P(2)]) (use X(2) P(4) assms(4) in simp)
    then show "yields (ext_spec e h 0) (b_concat B x b)"
    proof (rule yields_mono, intro ext_of_cat [OF _ P(5)])
      fix \<rho> assume e: "adm \<rho> e"
      have "bvextract (bv_of \<rho> e) h 0 =
          bvconcat (bvextract (bv_of \<rho> a) (h - bits_of b) 0) (bvextract (bv_of \<rho> b) (bits_of b - 1) 0)"
        using extract_concat_split [of "bv_of \<rho> a" "bv_of \<rho> b" 0 h] P(3,6,10-14) e assms(3,6) by simp
      then show "adm \<rho> x \<and> adm \<rho> b \<and> bvconcat (bv_of \<rho> x) (bv_of \<rho> b) = bvextract (bv_of \<rho> e) h 0"
        using X(4,5) P(8,9) e extract_all [OF P(12) [OF e]] P(13) [OF e] by simp
    qed (use wx X(2) P(4) assms(6) in simp_all)
  qed
qed

lemma extract_concat_const:
  assumes "calls_ok B N" "bvterm w e" "h < w" "4 * weight e \<le> N" "parts_spec e (a, b)"
    and "bits_of b \<le> h" "l < bits_of b" "isConst a \<or> isConst b"
  shows "yields (ext_spec e h l)
    (do { x \<leftarrow> b_extract B a (h - bits_of b) 0 3; y \<leftarrow> b_extract B b (bits_of b - 1) l 3; b_concat B x y })"
proof -
  note P = parts_specD [OF assms(5,2)]
  have x: "yields (ext_spec a (h - bits_of b) 0) (b_extract B a (h - bits_of b) 0 3)"
    by (rule calls_okD(1) [OF assms(1) P(1)]) (use assms(3,4,6) P(3,4) in simp_all)
  have y: "yields (ext_spec b (bits_of b - 1) l) (b_extract B b (bits_of b - 1) l 3)"
    by (rule calls_okD(1) [OF assms(1) P(2)]) (use assms(4,7) P(4,6) in simp_all)
  from x show ?thesis
  proof (rule yields_bind)
    fix x assume xs: "ext_spec a (h - bits_of b) 0 x"
    from y show "yields (ext_spec e h l) (do { y \<leftarrow> b_extract B b (bits_of b - 1) l 3; b_concat B x y })"
    proof (rule yields_bind)
      fix y assume ys: "ext_spec b (bits_of b - 1) l y"
      note X = ext_specD [OF xs] and Y = ext_specD [OF ys]
      have w: "bits_of x = Suc (h - bits_of b)" "bits_of y = bits_of b - l"
        using bvtermD(1) [OF X(1)] bvtermD(1) [OF Y(1)] P(6) by auto
      have small: "weight x + weight y \<le> weight a + weight b + 1"
        using assms(8)
      proof
        assume "isConst a"
        then show ?thesis using isConst_simps(1) [OF X(3)] Y(2) by simp
      next
        assume "isConst b"
        then show ?thesis using isConst_simps(1) [OF Y(3)] X(2) by simp
      qed
      have "yields (cat_spec x y) (b_concat B x y)"
        by (rule calls_okD(2) [OF assms(1) X(1) Y(1)]) (use small P(4) assms(4) in simp)
      then show "yields (ext_spec e h l) (b_concat B x y)"
      proof (rule yields_mono, intro ext_of_cat [OF _ P(5)])
        fix \<rho> assume e: "adm \<rho> e"
        have "bvextract (bv_of \<rho> e) h l =
            bvconcat (bvextract (bv_of \<rho> a) (h - bits_of b) 0) (bvextract (bv_of \<rho> b) (bits_of b - 1) l)"
          using extract_concat_split [of "bv_of \<rho> a" "bv_of \<rho> b" l h] P(3,6,10-14) e assms(3,6,7) by simp
        then show "adm \<rho> x \<and> adm \<rho> y \<and> bvconcat (bv_of \<rho> x) (bv_of \<rho> y) = bvextract (bv_of \<rho> e) h l"
          using X(4,5) Y(4,5) P(8,9) e by simp
      qed (use w small P(4) assms(6,7) in simp_all)
    qed
  qed
qed

lemma extract_concat_ok:
  assumes "calls_ok B N" "bvterm w e" "l \<le> h" "h < w" "4 * weight e \<le> N"
  shows "rule_ok (ext_spec e h l) (extract_concat_rule B e h l)"
  unfolding extract_concat_rule_def
proof (rule rule_ok_bind [OF isConcat_ok [OF assms(1,2)]])
  show "4 * weight e < N + 15" using assms(5) by simp
  fix p assume p: "case p of Some ab \<Rightarrow> parts_spec e ab | None \<Rightarrow> True"
  show "rule_ok (ext_spec e h l)
    (case p of Some (a, b) \<Rightarrow>
       (let b_bw = bits_of b in
           if h < b_bw then fires (b_extract B b h l 3)
           else if b_bw \<le> l then fires (b_extract B a (h - b_bw) (l - b_bw) 3)
           else if l = 0
           then fires (do { x \<leftarrow> b_extract B a (h - b_bw) 0 3; b_concat B x b })
           else if isConst a \<or> isConst b
           then fires (do { x \<leftarrow> b_extract B a (h - b_bw) 0 3;
                            y \<leftarrow> b_extract B b (b_bw - 1) l 3; b_concat B x y })
           else passes)
     | None \<Rightarrow> passes)"
  proof (cases p)
    case (Some ab)
    then obtain a b where ab: "p = Some (a, b)" "parts_spec e (a, b)" using p by (cases ab) auto
    note P = parts_specD [OF ab(2) assms(2)]
    have low: "yields (ext_spec e h l) (b_extract B b h l 3)" if "h < bits_of b"
    proof (rule ext_mono [OF calls_okD(1) [OF assms(1) P(2)]])
      show "adm \<rho> b \<and> bvextract (bv_of \<rho> b) h l = bvextract (bv_of \<rho> e) h l" if "adm \<rho> e" for \<rho>
        using extract_concat_low [of "bv_of \<rho> a" "bv_of \<rho> b" l h] P(9-14) that \<open>h < bits_of b\<close> assms(3) by simp
    qed (use that assms(3,5) P(4,5) in simp_all)
    have high: "yields (ext_spec e h l) (b_extract B a (h - bits_of b) (l - bits_of b) 3)" if "bits_of b \<le> l"
    proof (rule ext_mono [OF calls_okD(1) [OF assms(1) P(1)]])
      show "adm \<rho> a \<and> bvextract (bv_of \<rho> a) (h - bits_of b) (l - bits_of b) = bvextract (bv_of \<rho> e) h l"
        if "adm \<rho> e" for \<rho>
        using extract_concat_high [of "bv_of \<rho> a" "bv_of \<rho> b" l h] P(3,8,10-14) that \<open>bits_of b \<le> l\<close>
          assms(3,4) by simp
    qed (use that assms(3-5) P(3-5) in simp_all)
    show ?thesis
      using ab(1) low high extract_concat_zero [OF assms(1,2,4,5) ab(2)]
        extract_concat_const [OF assms(1,2,4,5) ab(2), of l]
      by (simp add: Let_def rule_ok_fires)
  qed simp
qed

lemma extract_ite_ok:
  assumes "z3_folds Z" "calls_ok B N" "bvterm w e" "l \<le> h" "h < w" "4 * weight e \<le> N"
  shows "rule_ok (ext_spec e h l) (extract_ite_rule Z B e h l d)"
proof (cases "isIf e")
  case None
  then show ?thesis by (simp add: extract_ite_rule_def)
next
  case (Some p)
  then obtain c t f as where i: "isIf e = Some (c, t, f)" "e = App OP_ITE (c # t # f # as)"
    by (cases p) (auto simp: recognised)
  with assms(3) have e: "e = App OP_ITE [c, t, f]" "formula c" "bvterm w t" "bvterm w f"
    by (auto simp: bvterm_ite)
  have adm: "adm \<rho> c \<and> adm \<rho> t \<and> adm \<rho> f" if "adm \<rho> e" for \<rho>
    using that e(1) by (auto simp: adm_def)
  have t: "yields (ext_spec t h l) (b_extract B t h l d)" and f: "yields (ext_spec f h l) (b_extract B f h l d)"
    using calls_okD(1) [OF assms(2) e(3) assms(4,5)] calls_okD(1) [OF assms(2) e(4) assms(4,5)] assms(6) e(1)
    by simp_all
  have "rule_ok (ext_spec e h l)
     (do { t \<leftarrow> b_extract B t h l d; f \<leftarrow> b_extract B f h l d;
           if t = f then Some (Some t) else if isConst t \<and> isConst f then Some (Some (mkIf Z c t f)) else passes })"
  proof (rule rule_ok_bind [OF t], rule rule_ok_bind [OF f])
    fix t' f' assume "ext_spec t h l t'" "ext_spec f h l f'"
    note T = ext_specD [OF this(1)] and F = ext_specD [OF this(2)]
    have ite: "is_ite c t' f' (mkIf Z c t' f')" "weight (mkIf Z c t' f') \<le> 8 + weight c + weight t' + weight f'"
      using mkIf_sound [OF assms(1) e(2), of t' f'] weight_mkIf [OF assms(1) e(2), of t' f'] T(1) F(1)
      by (auto simp: bvterm_def)
    have nz: "nz \<rho> (mkIf Z c t' f')" if "adm \<rho> e" for \<rho>
      using nz_mkIf [OF assms(1) e(2), of t' f' \<rho>] T(1,4) F(1,4) adm [OF that] by (auto simp: bvterm_def adm_def)
    have "ext_spec e h l t'" if "t' = f'"
    proof -
      have "bv_of \<rho> t' = bvextract (bv_of \<rho> e) h l" if "adm \<rho> e" for \<rho>
        using T(5) [of \<rho>] F(5) [of \<rho>] adm [OF that] \<open>t' = f'\<close> e(1) by (cases "sat \<rho> c") auto
      then show ?thesis unfolding ext_spec_def using T(1,2,4) adm e(1) by (simp add: isConst_def)
    qed
    moreover have "ext_spec e h l (mkIf Z c t' f')" if "isConst t'" "isConst f'"
      unfolding ext_spec_def
    proof (intro conjI allI impI)
      show "bvterm (Suc h - l) (mkIf Z c t' f')" using ite(1) T(1) by (simp add: is_ite_def bvterm_def)
      show "weight (mkIf Z c t' f') \<le> weight e + 1" using ite(2) that isConst_simps(1) e(1) by simp
      show "isConst e \<Longrightarrow> isConst (mkIf Z c t' f')" using e(1) by (simp add: isConst_def)
      fix \<rho> assume a: "adm \<rho> e"
      then show "adm \<rho> (mkIf Z c t' f')" using nz by (simp add: adm_def)
      have "eval \<rho> (mkIf Z c t' f') = (if sat \<rho> c then eval \<rho> t' else eval \<rho> f')"
        using ite(1) a by (simp add: is_ite_def adm_def)
      then have "bv_of \<rho> (mkIf Z c t' f') = (if sat \<rho> c then bv_of \<rho> t' else bv_of \<rho> f')"
        by (simp add: bv_of_def)
      then show "bv_of \<rho> (mkIf Z c t' f') = bvextract (bv_of \<rho> e) h l"
        using T(5) F(5) adm [OF a] e(1) by simp
    qed
    ultimately show "rule_ok (ext_spec e h l)
      (if t' = f' then Some (Some t') else if isConst t' \<and> isConst f' then Some (Some (mkIf Z c t' f')) else passes)"
      by simp
  qed
  then show ?thesis by (simp add: extract_ite_rule_def i(1))
qed

lemma bitwise_loop_ok:
  assumes "calls_ok B N" "list_all (\<lambda>a. bvterm w a \<and> 4 * weight a < N) as" "l \<le> h" "h < w"
    and "\<forall>x. extracted = Some x \<longrightarrow> list_all (\<lambda>p. ext_spec p h l x) ps" "first \<longleftrightarrow> ps = []"
  shows "rule_ok (\<lambda>r. absorvent r \<and> list_ex (\<lambda>p. ext_spec p h l r) (ps @ as) \<or>
                      list_all (\<lambda>p. ext_spec p h l r) (ps @ as))
           (bitwise_loop B absorvent h l d as first extracted)"
  using assms(2,5,6)
proof (induction as arbitrary: ps first extracted)
  case Nil
  then show ?case by (simp add: rule_ok_def)
next
  case (Cons a as)
  have "yields (ext_spec a h l) (b_extract B a h l d)"
    by (rule calls_okD(1) [OF assms(1) _ assms(3,4)]) (use Cons.prems(1) in auto)
  then show ?case unfolding bitwise_loop.simps
  proof (rule rule_ok_bind)
    fix r assume r: "ext_spec a h l r"
    let ?x = "if first then Some r else if extracted = Some r then extracted else None"
    have ih: "rule_ok (\<lambda>r. absorvent r \<and> list_ex (\<lambda>p. ext_spec p h l r) ((ps @ [a]) @ as) \<or>
                      list_all (\<lambda>p. ext_spec p h l r) ((ps @ [a]) @ as))
           (bitwise_loop B absorvent h l d as False ?x)"
      by (rule Cons.IH) (use Cons.prems r in \<open>auto split: if_splits\<close>)
    show "rule_ok (\<lambda>r. absorvent r \<and> list_ex (\<lambda>p. ext_spec p h l r) (ps @ a # as) \<or>
                      list_all (\<lambda>p. ext_spec p h l r) (ps @ a # as))
       (if absorvent r then Some (Some r) else bitwise_loop B absorvent h l d as False ?x)"
      using r ih by simp
  qed
qed

lemma foldl_bits:
  "wf_bv v \<Longrightarrow> list_all (\<lambda>u. bits u = bits v) vs \<Longrightarrow> i < bits v \<Longrightarrow>
     bit (uval (foldl bvand v vs)) i = (\<forall>u \<in> set (v # vs). bit (uval u) i)"
  "wf_bv v \<Longrightarrow> list_all (\<lambda>u. bits u = bits v) vs \<Longrightarrow> i < bits v \<Longrightarrow>
     bit (uval (foldl bvor v vs)) i = (\<exists>u \<in> set (v # vs). bit (uval u) i)"
  by (induction vs arbitrary: v) (auto simp: bv_bits)

lemma extract_all_same:
  assumes "k = OP_BAND \<or> k = OP_BOR" "model_ok \<rho>" "as \<noteq> []" "list_all (bvterm w) as" "l \<le> h" "h < w"
    and "list_all (\<lambda>p. bv_of \<rho> r = bvextract (bv_of \<rho> p) h l) as"
  shows "bv_of \<rho> r = bvextract (bv_of \<rho> (App k as)) h l"
proof -
  obtain a as' where as: "as = a # as'" using assms(3) by (cases as) auto
  have wf: "wf_bv (bv_of \<rho> p)" "bits (bv_of \<rho> p) = w" if "p \<in> set as" for p
    using that assms(4) bvterm_wf [OF assms(2)] by (auto simp: list_all_iff)
  have r: "bit (uval (bv_of \<rho> r)) i \<longleftrightarrow> i < Suc h - l \<and> bit (uval (bv_of \<rho> p)) (i + l)" if "p \<in> set as" for p i
    using assms(7) that bit_bvextract [of "bv_of \<rho> p" h l i] by (simp add: list_all_iff)
  have b: "bits (bv_of \<rho> r) = Suc h - l" using assms(7) as by simp
  show ?thesis
  proof (rule bv_eqI)
    show "wf_bv (bv_of \<rho> r)" using assms(5,7) as by simp
    fix i assume "i < bits (bv_of \<rho> r)"
    then have i: "i < Suc h - l" "i + l < w" using b assms(5,6) by auto
    then show "bit (uval (bv_of \<rho> r)) i = bit (uval (bvextract (bv_of \<rho> (App k as)) h l)) i"
      using r [of a i] r [of _ i] assms(1) wf as
        foldl_bits [of "bv_of \<rho> a" "map (bv_of \<rho>) as'" "i + l"]
      by (auto simp: bit_bvextract list_all_iff)
  qed (use b assms(5) in auto)
qed

lemma extract_absorbs:
  assumes "k = OP_BAND \<and> v = 0 \<or> k = OP_BOR \<and> v = - 1" "model_ok \<rho>" "list_all (bvterm w) as" "l \<le> h" "h < w"
    and "p \<in> set as" "bvextract (bv_of \<rho> p) h l = mk (Suc h - l) v"
  shows "bvextract (bv_of \<rho> (App k as)) h l = mk (Suc h - l) v"
proof -
  obtain a as' where as: "as = a # as'" using assms(6) by (cases as) auto
  have wf: "wf_bv (bv_of \<rho> p)" "bits (bv_of \<rho> p) = w" if "p \<in> set as" for p
    using that assms(3) bvterm_wf [OF assms(2)] by (auto simp: list_all_iff)
  show ?thesis
  proof (rule bv_eqI)
    fix i assume "i < bits (bvextract (bv_of \<rho> (App k as)) h l)"
    then have i: "i < Suc h - l" "i + l < w" using assms(4,5) by auto
    have "bit (uval (bv_of \<rho> p)) (i + l) \<longleftrightarrow> bit (uval (mk (Suc h - l) v)) i"
      using bit_bvextract [of "bv_of \<rho> p" h l i] i(1) assms(7) by simp
    then show "bit (uval (bvextract (bv_of \<rho> (App k as)) h l)) i = bit (uval (mk (Suc h - l) v)) i"
      using i assms(1,6) wf as foldl_bits [of "bv_of \<rho> a" "map (bv_of \<rho>) as'" "i + l"]
      by (auto simp: bit_bvextract list_all_iff bv_bits simp del: uval_mk)
  qed (use assms(4) in auto)
qed

lemma simpl_bitwise_ok:
  assumes "calls_ok B N" "bvterm w e" "l \<le> h" "h < w" "4 * weight e \<le> N"
    and "k = OP_BAND \<and> absorvent = isZero \<or> k = OP_BOR \<and> absorvent = isAllOnes"
  shows "rule_ok (ext_spec e h l) (simpl_bitwise B k absorvent e h l d)"
proof (cases "isAppOf k e")
  case None
  then show ?thesis by (simp add: simpl_bitwise_def)
next
  case (Some as)
  then have e: "e = App k as" by (simp add: isAppOf_Some)
  have as: "as \<noteq> []" "list_all (bvterm w) as"
    using assms(2,6) e bvterm_nary [of k w as] by auto
  have small: "weight p \<le> weight e \<and> 4 * weight p < N" if "p \<in> set as" for p
    using member_le_sum_list [of "weight p" "map weight as"] that assms(5,6) e by auto
  have adm: "adm \<rho> p" if "p \<in> set as" "adm \<rho> e" for \<rho> p using adm_app that e by blast
  have "rule_ok (\<lambda>r. absorvent r \<and> list_ex (\<lambda>p. ext_spec p h l r) ([] @ as) \<or>
                     list_all (\<lambda>p. ext_spec p h l r) ([] @ as))
          (bitwise_loop B absorvent h l d as True None)"
    by (rule bitwise_loop_ok [OF assms(1) _ assms(3,4)]) (use as small in \<open>auto simp: list_all_iff\<close>)
  moreover have "ext_spec e h l r" if same: "list_all (\<lambda>p. ext_spec p h l r) as" for r
  proof -
    obtain p where p: "p \<in> set as" "ext_spec p h l r" using as(1) same by (cases as) auto
    have "bv_of \<rho> r = bvextract (bv_of \<rho> e) h l" if a: "adm \<rho> e" for \<rho>
      unfolding e
    proof (rule extract_all_same [OF _ _ as assms(3,4)])
      show "list_all (\<lambda>p. bv_of \<rho> r = bvextract (bv_of \<rho> p) h l) as"
        using same adm [OF _ a] by (auto simp: list_all_iff ext_spec_def)
    qed (use assms(6) a in \<open>auto simp: adm_def\<close>)
    then show ?thesis using ext_specD [OF p(2)] small [OF p(1)] adm [OF p(1)]
      unfolding ext_spec_def by (auto simp: e isConst_def intro: order_trans)
  qed
  moreover have "ext_spec e h l r" if q: "absorvent r" "p \<in> set as" "ext_spec p h l r" for r p
  proof -
    note P = ext_specD [OF q(3)]
    obtain v where v: "k = OP_BAND \<and> v = 0 \<or> k = OP_BOR \<and> v = - 1" "r = mkInt v (Suc h - l)"
      using assms(6) q(1) P(1)
      by (auto simp: isZero_iff isAllOnes_iff mkInt_def bvterm_def mask_eq_exp_minus_1)
    have "bv_of \<rho> r = bvextract (bv_of \<rho> e) h l" if a: "adm \<rho> e" for \<rho>
    proof -
      have "bvextract (bv_of \<rho> p) h l = mk (Suc h - l) v"
        using P(5) [OF adm [OF q(2) a]] v(2) by simp
      then show ?thesis using extract_absorbs [OF v(1) _ as(2) assms(3,4) q(2)] a v(2) e
        by (simp add: adm_def)
    qed
    then show ?thesis using P small [OF q(2)] adm [OF q(2)]
      unfolding ext_spec_def by (auto simp: e isConst_def intro: order_trans)
  qed
  ultimately show ?thesis
    unfolding simpl_bitwise_def Some option.case rule_ok_def
    by (elim yields_mono) (auto simp: list_ex_iff)
qed

lemma extract_body_ok:
  assumes "z3_folds Z" "calls_ok B N" "bvterm w e" "l \<le> h" "h < w" "4 * weight e \<le> N"
  shows "yields (ext_spec e h l) (extract_body Z B e h l d)"
proof -
  note A = assms(2-6)
  have whole: "ext_spec e h l e" if "l = 0" "h = bits_of e - 1"
  proof -
    have w: "bits_of e = w" "0 < w" using bvtermD [OF assms(3)] by auto
    have "bv_of \<rho> e = bvextract (bv_of \<rho> e) h l" if "adm \<rho> e" for \<rho>
      using extract_all [of "bv_of \<rho> e"] bvterm_wf [OF _ assms(3)] that \<open>l = 0\<close> \<open>h = bits_of e - 1\<close> w
      by (auto simp: adm_def)
    then show ?thesis using that w assms(3) by (auto simp: ext_spec_def)
  qed
  show ?thesis
    unfolding extract_body_def using whole
    by (auto intro!: attempt_ok extract_extract_ok [OF A] extract_sext_ok [OF A] extract_ashr_ok [OF A]
        extract_concat_ok [OF A] extract_ite_ok [OF assms(1) A] simpl_bitwise_ok [OF A]
        ext_node [OF assms(1,3-5)])
qed

end
