(* ===== verification/TermConcat.thy ===== *)
theory TermConcat
  imports TermExtract
begin

text \<open>
  Correctness of \<open>concat\<close>, \<open>zext\<close> and \<open>sext\<close>, assuming the promises of the calls they make.
\<close>

section \<open>Concatenation\<close>

lemma cat_specD:
  assumes "cat_spec x y r"
  shows "bvterm (bits_of x + bits_of y) r" "weight r \<le> weight x + weight y + 2"
    "isConst x \<Longrightarrow> isConst y \<Longrightarrow> isConst r"
    "adm \<rho> x \<Longrightarrow> adm \<rho> y \<Longrightarrow> adm \<rho> r"
    "adm \<rho> x \<Longrightarrow> adm \<rho> y \<Longrightarrow> bv_of \<rho> r = bvconcat (bv_of \<rho> x) (bv_of \<rho> y)"
  using assms by (auto simp: cat_spec_def)

lemma isExtract_bvterm:
  assumes "isExtract e = Some (a, h, l)" "bvterm w e"
  obtains v where "e = App (OP_EXTRACT h l) [a]" "bvterm v a" "l \<le> h" "h < v" "w = Suc h - l"
  using assms by (auto simp: isExtract_Some bvterm_extract)

lemma extract_adm: "adm \<rho> (App (OP_EXTRACT h l) [a]) \<longleftrightarrow> adm \<rho> a"
  by (simp add: adm_def)

lemma cat_node:
  assumes "z3_folds Z" "bvterm w x" "bvterm v y"
  shows "cat_spec x y (binop_fold Z OP_CONCAT x y)"
proof -
  have b: "bvterm (bits_of x + bits_of y) (App OP_CONCAT [x, y])"
    using assms(2,3) bvtermD(1) by (auto simp: bvterm_concat)
  note S = simplify_const_sound [OF assms(1), of OP_CONCAT "[x, y]"]
  have "weight (binop_fold Z OP_CONCAT x y) \<le> weight x + weight y + 2"
    using b weight_simplify_const [OF assms(1), of OP_CONCAT "[x, y]"]
    by (simp add: bvterm_def binop_fold_def)
  moreover have "adm \<rho> (binop_fold Z OP_CONCAT x y)" if "adm \<rho> x" "adm \<rho> y" for \<rho>
    using b nz_simplify_const [OF assms(1), of OP_CONCAT "[x, y]" \<rho>] that
    by (simp add: bvterm_def binop_fold_def adm_def)
  moreover have "bv_of \<rho> (binop_fold Z OP_CONCAT x y) = bvconcat (bv_of \<rho> x) (bv_of \<rho> y)" for \<rho>
    using b S(3) [of \<rho>] by (simp add: bvterm_def binop_fold_def bv_of_def)
  ultimately show ?thesis using b S(1,2,4) by (simp add: cat_spec_def bvterm_def binop_fold_def)
qed

lemma concat_extracts':
  assumes "bvterm v a" "model_ok \<rho>" "l = h2 + 1" "l \<le> h" "h < v" "l2 \<le> h2"
  shows "bvconcat (bvextract (bv_of \<rho> a) h l) (bvextract (bv_of \<rho> a) h2 l2) = bvextract (bv_of \<rho> a) h l2"
  using concat_extracts [of "bv_of \<rho> a" l h l2] bvterm_wf [OF assms(2,1)] assms(3-6) by simp

lemma concat_pair_ok:
  assumes "calls_ok B N" "bvterm w x" "bvterm v y" "4 * (weight x + weight y) < N"
  shows "rule_ok (cat_spec x y) (concat_pair_rule B x y)"
proof (cases "\<exists>a h l b h2 l2. isExtract x = Some (a, h, l) \<and> isExtract y = Some (b, h2, l2) \<and> l = h2 + 1")
  case False
  then show ?thesis by (auto simp: concat_pair_rule_def split: option.splits)
next
  case True
  then obtain a h l b h2 l2 where i: "isExtract x = Some (a, h, l)" "isExtract y = Some (b, h2, l2)"
    and l: "l = h2 + 1" by blast
  obtain va where x: "x = App (OP_EXTRACT h l) [a]" "bvterm va a" "l \<le> h" "h < va" "w = Suc h - l"
    using isExtract_bvterm [OF i(1) assms(2)] by blast
  obtain vb where y: "y = App (OP_EXTRACT h2 l2) [b]" "bvterm vb b" "l2 \<le> h2" "h2 < vb" "v = Suc h2 - l2"
    using isExtract_bvterm [OF i(2) assms(3)] by blast
  note wxy = bvtermD(1) [OF assms(2)] bvtermD(1) [OF assms(3)]
  have same: "yields (cat_spec x y) (b_extract B a h l2 3)" if "a = b"
  proof -
    have "yields (ext_spec a h l2) (b_extract B a h l2 3)"
      by (rule calls_okD(1) [OF assms(1) x(2)]) (use x y l assms(4) in auto)
    then show ?thesis
    proof (rule yields_mono)
      fix r assume "ext_spec a h l2 r"
      note R = ext_specD [OF this]
      have "adm \<rho> r \<and> bv_of \<rho> r = bvconcat (bv_of \<rho> x) (bv_of \<rho> y)" if "adm \<rho> x" for \<rho>
        using concat_extracts' [OF x(2) _ l x(3,4) y(3), of \<rho>] R(4,5) that x(1) y(1) \<open>a = b\<close>
        by (simp add: extract_adm adm_def)
      then show "cat_spec x y r" using R(1,2) wxy x y l by (auto simp: cat_spec_def isConst_def)
    qed
  qed
  text \<open>The second rewrite never fires: its test asks for a bit above the top of the operand.\<close>
  have dead: "rule_ok (cat_spec x y)
     (do { p \<leftarrow> isConcat B a;
           (case p of
              Some (aa, ab) \<Rightarrow> if ab = b \<and> int h - int (bits_of aa) = int (bits_of b)
                              then fires (b_concat B aa b) else passes
            | None \<Rightarrow> passes) })"
  proof (rule rule_ok_bind [OF isConcat_ok [OF assms(1) x(2)]])
    show "4 * weight a < N + 15" using assms(4) x(1) by simp
    fix p assume p: "case p of Some ab \<Rightarrow> parts_spec a ab | None \<Rightarrow> True"
    show "rule_ok (cat_spec x y)
       (case p of Some (aa, ab) \<Rightarrow> if ab = b \<and> int h - int (bits_of aa) = int (bits_of b)
                              then fires (b_concat B aa b) else passes
        | None \<Rightarrow> passes)"
    proof (cases p)
      case (Some q)
      then obtain aa ab where q: "p = Some (aa, ab)" "parts_spec a (aa, ab)" using p by (cases q) auto
      have "va = bits_of aa + bits_of ab" by (rule parts_specD(3) [OF q(2) x(2)])
      then show ?thesis using q(1) x(4) by auto
    qed simp
  qed
  show ?thesis using i l same dead by (simp add: concat_pair_rule_def rule_ok_fires)
qed

lemma concat_right_ok:
  assumes "calls_ok B N" "bvterm w x" "bvterm v y" "4 * (weight x + weight y) < N"
  shows "rule_ok (cat_spec x y) (concat_right_rule B x y)"
proof (cases "isExtract x")
  case None
  then show ?thesis by (simp add: concat_right_rule_def)
next
  case (Some p)
  then obtain a h l where i: "isExtract x = Some (a, h, l)" by (cases p) auto
  obtain va where x: "x = App (OP_EXTRACT h l) [a]" "bvterm va a" "l \<le> h" "h < va" "w = Suc h - l"
    using isExtract_bvterm [OF i assms(2)] by blast
  note wxy = bvtermD(1) [OF assms(2)] bvtermD(1) [OF assms(3)]
  have fire: "yields (cat_spec x y) (do { r \<leftarrow> b_extract B a h l2 3; b_concat B r c })"
    if q: "parts_spec y (b, c)" and b: "isExtract b = Some (a, h2, l2)" and l: "l = h2 + 1" for b c h2 l2
  proof -
    note P = parts_specD [OF q assms(3)]
    obtain vb where y: "b = App (OP_EXTRACT h2 l2) [a]" "l2 \<le> h2" "bits_of b = Suc h2 - l2"
      using isExtract_bvterm [OF b P(1)] by blast
    have "yields (ext_spec a h l2) (b_extract B a h l2 3)"
      by (rule calls_okD(1) [OF assms(1) x(2)]) (use x y l assms(4) in auto)
    then show ?thesis
    proof (rule yields_bind)
      fix r assume "ext_spec a h l2 r"
      note R = ext_specD [OF this]
      have "yields (cat_spec r c) (b_concat B r c)"
        by (rule calls_okD(2) [OF assms(1) R(1) P(2)]) (use R(2) P(4) x(1) y(1) assms(4) in simp)
      then show "yields (cat_spec x y) (b_concat B r c)"
      proof (rule yields_mono)
        fix s assume "cat_spec r c s"
        note S = cat_specD [OF this]
        have "adm \<rho> s \<and> bv_of \<rho> s = bvconcat (bv_of \<rho> x) (bv_of \<rho> y)" if a: "adm \<rho> x" "adm \<rho> y" for \<rho>
        proof -
          have ok: "model_ok \<rho>" and aa: "adm \<rho> a" using a x(1) by (auto simp: adm_def)
          have "bvconcat (bvextract (bv_of \<rho> a) h l) (bv_of \<rho> b) = bv_of \<rho> r"
            using concat_extracts' [OF x(2) ok l x(3,4) y(2)] R(5) [OF aa] y(1) by simp
          then have "bv_of \<rho> s = bvconcat (bvconcat (bv_of \<rho> x) (bv_of \<rho> b)) (bv_of \<rho> c)"
            using S(5) [OF R(4) [OF aa] P(9) [OF a(2)]] x(1) by simp
          then show ?thesis
            using S(4) [OF R(4) [OF aa] P(9) [OF a(2)]] P(14) [OF a(2)]
              concat_assoc [OF bvterm_wf(1) [OF ok assms(2)] P(10,12) [OF a(2)]] by simp
        qed
        then show "cat_spec x y s"
          using S(1,2) R(2) P(3,4) wxy bvtermD(1) [OF R(1)] x y l by (auto simp: cat_spec_def isConst_def)
      qed
    qed
  qed
  have "rule_ok (cat_spec x y)
     (do { p \<leftarrow> isConcat B y;
          (case p of
             Some (b, c) \<Rightarrow>
               (case isExtract b of
                  Some (d, h2, l2) \<Rightarrow>
                    if l = h2 + 1 \<and> a = d
                    then fires (do { r \<leftarrow> b_extract B a h l2 3; b_concat B r c }) else passes
                | None \<Rightarrow> passes)
           | None \<Rightarrow> passes) })"
    by (rule rule_ok_bind [OF isConcat_ok [OF assms(1,3)]])
      (use assms(4) fire in \<open>auto simp: rule_ok_fires split: option.splits\<close>)
  then show ?thesis using i by (simp add: concat_right_rule_def)
qed

lemma concat_left_ok:
  assumes "calls_ok B N" "bvterm w x" "bvterm v y" "4 * (weight x + weight y) < N"
  shows "rule_ok (cat_spec x y) (concat_left_rule B x y)"
proof -
  note wxy = bvtermD(1) [OF assms(2)] bvtermD(1) [OF assms(3)]
  have fire: "yields (cat_spec x y) (do { r \<leftarrow> b_extract B c h l2 3; b_concat B a r })"
    if q: "parts_spec x (a, b)" and b: "isExtract b = Some (c, h, l)" and y: "isExtract y = Some (c, h2, l2)"
      and l: "l = h2 + 1" for a b c h l h2 l2
  proof -
    note P = parts_specD [OF q assms(2)]
    obtain vc where B: "b = App (OP_EXTRACT h l) [c]" "bvterm vc c" "l \<le> h" "h < vc" "bits_of b = Suc h - l"
      using isExtract_bvterm [OF b P(2)] by blast
    obtain vd where Y: "y = App (OP_EXTRACT h2 l2) [c]" "l2 \<le> h2" "v = Suc h2 - l2"
      using isExtract_bvterm [OF y assms(3)] by blast
    have "yields (ext_spec c h l2) (b_extract B c h l2 3)"
      by (rule calls_okD(1) [OF assms(1) B(2)]) (use B Y l P(4) assms(4) in auto)
    then show ?thesis
    proof (rule yields_bind)
      fix r assume "ext_spec c h l2 r"
      note R = ext_specD [OF this]
      have "yields (cat_spec a r) (b_concat B a r)"
        by (rule calls_okD(2) [OF assms(1) P(1) R(1)]) (use R(2) P(4) B(1) Y(1) assms(4) in simp)
      then show "yields (cat_spec x y) (b_concat B a r)"
      proof (rule yields_mono)
        fix s assume "cat_spec a r s"
        note S = cat_specD [OF this]
        have "adm \<rho> s \<and> bv_of \<rho> s = bvconcat (bv_of \<rho> x) (bv_of \<rho> y)" if a: "adm \<rho> x" "adm \<rho> y" for \<rho>
        proof -
          have ok: "model_ok \<rho>" and ca: "adm \<rho> c" using a Y(1) by (auto simp: adm_def)
          have "bv_of \<rho> r = bvconcat (bv_of \<rho> b) (bv_of \<rho> y)"
            using concat_extracts' [OF B(2) ok l B(3,4) Y(2)] R(5) [OF ca] B(1) Y(1) by simp
          then have "bv_of \<rho> s = bvconcat (bv_of \<rho> a) (bvconcat (bv_of \<rho> b) (bv_of \<rho> y))"
            using S(5) [OF P(8) [OF a(1)] R(4) [OF ca]] by simp
          then show ?thesis
            using S(4) [OF P(8) [OF a(1)] R(4) [OF ca]] P(14) [OF a(1)]
              concat_assoc [OF P(10,12) [OF a(1)] bvterm_wf(1) [OF ok assms(3)]] by simp
        qed
        then show "cat_spec x y s"
          using S(1,2) R(2) P(3-5) wxy bvtermD(1) [OF R(1)] B Y l by (auto simp: cat_spec_def)
      qed
    qed
  qed
  show ?thesis unfolding concat_left_rule_def
    by (rule rule_ok_bind [OF isConcat_ok [OF assms(1,2)]])
      (use assms(4) fire in \<open>auto simp: rule_ok_fires split: option.splits\<close>)
qed

lemma concat_const_ok:
  assumes "calls_ok B N" "bvterm w x" "bvterm v y" "4 * (weight x + weight y) < N"
  shows "rule_ok (cat_spec x y) (concat_const_rule B x y)"
proof (cases "isConst x")
  case False
  then show ?thesis by (simp add: concat_const_rule_def)
next
  case x: True
  note wxy = bvtermD(1) [OF assms(2)] bvtermD(1) [OF assms(3)]
  have fire: "yields (cat_spec x y) (do { r \<leftarrow> b_concat B x a; b_concat B r b })"
    if q: "parts_spec y (a, b)" and a: "isConst a" for a b
  proof -
    note P = parts_specD [OF q assms(3)]
    have "yields (cat_spec x a) (b_concat B x a)"
      by (rule calls_okD(2) [OF assms(1,2) P(1)]) (use P(4) assms(4) in simp)
    then show ?thesis
    proof (rule yields_bind)
      fix r assume "cat_spec x a r"
      note R = cat_specD [OF this]
      have "yields (cat_spec r b) (b_concat B r b)"
        by (rule calls_okD(2) [OF assms(1) R(1) P(2)])
          (use isConst_simps(1) [OF R(3) [OF x a]] P(4) assms(4) in simp)
      then show "yields (cat_spec x y) (b_concat B r b)"
      proof (rule yields_mono)
        fix s assume "cat_spec r b s"
        note S = cat_specD [OF this]
        have "adm \<rho> s \<and> bv_of \<rho> s = bvconcat (bv_of \<rho> x) (bv_of \<rho> y)" if "adm \<rho> x" "adm \<rho> y" for \<rho>
        proof -
          have ok: "model_ok \<rho>" using that by (simp add: adm_def)
          note r = R(4,5) [OF that(1) P(8) [OF that(2)]]
          show ?thesis
            using S(4,5) [OF r(1) P(9) [OF that(2)]] r(2) P(14) [OF that(2)]
              concat_assoc [OF bvterm_wf(1) [OF ok assms(2)] P(10,12) [OF that(2)]] by simp
        qed
        then show "cat_spec x y s"
          using S(1,2) isConst_simps(1) [OF R(3) [OF x a]] P(3-5) wxy bvtermD(1) [OF R(1)]
          by (auto simp: cat_spec_def add.assoc)
      qed
    qed
  qed
  have "rule_ok (cat_spec x y)
    (do { p \<leftarrow> isConcat B y;
        (case p of
           Some (a, b) \<Rightarrow>
             if isConst a then fires (do { r \<leftarrow> b_concat B x a; b_concat B r b }) else passes
         | None \<Rightarrow> passes) })"
    by (rule rule_ok_bind [OF isConcat_ok [OF assms(1,3)]])
      (use assms(4) fire in \<open>auto simp: rule_ok_fires split: option.splits\<close>)
  then show ?thesis using x by (simp add: concat_const_rule_def)
qed

lemma concat_body_ok:
  assumes "z3_folds Z" "calls_ok B N" "bvterm w x" "bvterm v y" "4 * (weight x + weight y) < N"
  shows "yields (cat_spec x y) (concat_body Z B x y)"
  unfolding concat_body_def using cat_node [OF assms(1,3,4)]
  by (auto intro!: attempt_ok concat_pair_ok [OF assms(2-5)] concat_right_ok [OF assms(2-5)]
      concat_left_ok [OF assms(2-5)] concat_const_ok [OF assms(2-5)])

section \<open>Sign extension\<close>

text \<open>The sign of a term, as its most significant bit.\<close>

lemma t_isNegative_ok:
  assumes "calls_ok B N" "bvterm w e" "4 * weight e + 5 < N"
  shows "yields (\<lambda>r. formula r \<and> (\<forall>\<rho>. adm \<rho> e \<longrightarrow> (sat \<rho> r \<longleftrightarrow> isNegative (bv_of \<rho> e)))) (t_isNegative B e)"
  unfolding t_isNegative_def t_sign_def Let_def bvtermD(1) [OF assms(2)]
proof (rule yields_bind)
  note w = bvtermD [OF assms(2)]
  show "yields (ext_spec e (w - 1) (w - 1)) (b_extract B e (w - 1) (w - 1) 3)"
    by (rule calls_okD(1) [OF assms(1,2)]) (use assms(3) w in auto)
  fix s assume "ext_spec e (w - 1) (w - 1) s"
  note S = ext_specD [OF this]
  have s: "bvterm 1 s" "bits_of s = 1" using S(1) w bvtermD(1) by auto
  have "yields (eq_spec s (mkUInt 1 (bits_of s))) (b_eq B s (mkUInt 1 (bits_of s)))"
    by (rule calls_okD(4) [OF assms(1)])
      (use s S(2) assms(3) turns_le [of s "mkUInt 1 1"] in \<open>auto simp: bvterm_def isConst_simps(1)\<close>)
  then show "yields (\<lambda>r. formula r \<and> (\<forall>\<rho>. adm \<rho> e \<longrightarrow> (sat \<rho> r \<longleftrightarrow> isNegative (bv_of \<rho> e))))
      (b_eq B s (mkUInt 1 (bits_of s)))"
  proof (rule yields_mono)
    fix r assume r: "eq_spec s (mkUInt 1 (bits_of s)) r"
    have "sat \<rho> r \<longleftrightarrow> isNegative (bv_of \<rho> e)" if a: "adm \<rho> e" for \<rho>
    proof -
      have ok: "model_ok \<rho>" using a by (simp add: adm_def)
      have "sat \<rho> r \<longleftrightarrow> eval \<rho> s = eval \<rho> (mkUInt 1 1)"
        using r s(2) S(4) [OF a] ok by (auto simp: eq_spec_def adm_const)
      also have "\<dots> \<longleftrightarrow> bv_of \<rho> s = mk 1 1"
        using bvterm_eval [OF ok s(1)] by (simp add: mkUInt_def mk_def)
      finally show ?thesis
        using S(5) [OF a] bvterm_wf(2) [OF ok assms(2)] by (simp add: isNegative_def sign_def Let_def)
    qed
    then show "formula r \<and> (\<forall>\<rho>. adm \<rho> e \<longrightarrow> (sat \<rho> r \<longleftrightarrow> isNegative (bv_of \<rho> e)))"
      using r by (simp add: eq_spec_def)
  qed
qed

lemma sext_node:
  assumes "z3_folds Z" "bvterm w e"
  shows "sext_spec e n (simplify_const Z (App (OP_SIGN_EXT n) [e]) [e])"
proof -
  have b: "bvterm (bits_of e + n) (App (OP_SIGN_EXT n) [e])"
    using assms(2) bvtermD(1) by (auto simp: bvterm_sext)
  let ?r = "simplify_const Z (App (OP_SIGN_EXT n) [e]) [e]"
  note S = simplify_const_sound [OF assms(1), of "OP_SIGN_EXT n" "[e]"]
  have "weight ?r \<le> weight e + 3"
    using b weight_simplify_const [OF assms(1), of "OP_SIGN_EXT n" "[e]"] by (simp add: bvterm_def)
  moreover have "adm \<rho> ?r" if "adm \<rho> e" for \<rho>
    using b nz_simplify_const [OF assms(1), of "OP_SIGN_EXT n" "[e]" \<rho>] that
    by (simp add: bvterm_def adm_def)
  moreover have "bv_of \<rho> ?r = bvsext (bv_of \<rho> e) n" for \<rho>
    using b S(3) [of \<rho>] by (simp add: bvterm_def bv_of_def)
  ultimately show ?thesis using b S(1,2) by (simp add: sext_spec_def bvterm_def)
qed

lemma sext_body_ok:
  assumes "z3_folds Z" "calls_ok B N" "bvterm w e" "4 * weight e + 5 < N"
  shows "yields (sext_spec e n) (sext_body Z B e n)"
proof -
  note w = bvtermD [OF assms(3)]
  consider "n = 0" | (nest) a where "n \<noteq> 0" "isSignExt e = Some a" | (plain) "n \<noteq> 0" "isSignExt e = None"
    by fastforce
  then show ?thesis
  proof cases
    case 1
    have "bvsext (bv_of \<rho> e) 0 = bv_of \<rho> e" if "adm \<rho> e" for \<rho>
      using bvterm_wf(1) [OF _ assms(3)] that mk_sval [of "bv_of \<rho> e"] by (auto simp: bvsext_def adm_def)
    then show ?thesis using 1 assms(3) w by (simp add: sext_body_def sext_spec_def)
  next
    case nest
    then obtain m v where e: "e = App (OP_SIGN_EXT m) [a]" "bvterm v a" "w = v + m"
      using assms(3) by (auto simp: isSignExt_Some bvterm_sext)
    have "yields (sext_spec a (m + n)) (b_sext B a (m + n))"
      by (rule calls_okD(3) [OF assms(2) e(2)]) (use assms(4) e(1) in simp)
    then have "yields (sext_spec e n) (b_sext B a (m + n))"
    proof (rule yields_mono)
      fix r assume r: "sext_spec a (m + n) r"
      have "adm \<rho> r \<and> bv_of \<rho> r = bvsext (bv_of \<rho> e) n" if "adm \<rho> e" for \<rho>
        using r that e sext_sext [of "bv_of \<rho> a" m n] bvterm_wf(1) [OF _ e(2)]
        by (auto simp: sext_spec_def adm_def)
      then show "sext_spec e n r" using r e w bvtermD(1) [OF e(2)] by (auto simp: sext_spec_def add.assoc)
    qed
    then show ?thesis using nest e w bvtermD(1) [OF e(2)] by (simp add: sext_body_def)
  next
    case plain
    have "yields (sext_spec e n) (do {
               neg \<leftarrow> t_isNegative B e;
               if isFalse neg then t_zext B e n
               else Some (simplify_const Z (App (OP_SIGN_EXT n) [e]) [e]) })"
    proof (rule yields_bind [OF t_isNegative_ok [OF assms(2-4)]])
      fix neg assume neg: "formula neg \<and> (\<forall>\<rho>. adm \<rho> e \<longrightarrow> (sat \<rho> neg \<longleftrightarrow> isNegative (bv_of \<rho> e)))"
      have zero: "yields (sext_spec e n) (t_zext B e n)" if f: "isFalse neg"
      proof -
        have "yields (cat_spec (mkUInt 0 n) e) (b_concat B (mkUInt 0 n) e)"
          by (rule calls_okD(2) [OF assms(2) _ assms(3), of n])
            (use plain(1) assms(4) in \<open>auto simp: bvterm_def isConst_simps(1)\<close>)
        then have "yields (sext_spec e n) (b_concat B (mkUInt 0 n) e)"
        proof (rule yields_mono)
          fix r assume "cat_spec (mkUInt 0 n) e r"
          note R = cat_specD [OF this]
          have "adm \<rho> r \<and> bv_of \<rho> r = bvsext (bv_of \<rho> e) n" if a: "adm \<rho> e" for \<rho>
          proof -
            have ok: "model_ok \<rho>" using a by (simp add: adm_def)
            have "\<not> isNegative (bv_of \<rho> e)" using neg f a by (auto simp: isFalse_def)
            then show ?thesis
              using R(4,5) [OF _ a] ok sext_nonneg [OF bvterm_wf(1) [OF ok assms(3)] _ , of n] plain(1)
              by (simp add: adm_const)
          qed
          then show "sext_spec e n r"
            using R(1,2) w by (simp add: sext_spec_def bits_of_def isConst_simps(1) add.commute)
        qed
        then show ?thesis using plain(1) by (simp add: t_zext_def)
      qed
      show "yields (sext_spec e n)
         (if isFalse neg then t_zext B e n else Some (simplify_const Z (App (OP_SIGN_EXT n) [e]) [e]))"
        using zero sext_node [OF assms(1,3), of n] by simp
    qed
    then show ?thesis using plain by (simp add: sext_body_def)
  qed
qed

end
