(* ===== verification/TermEq.thy ===== *)
theory TermEq
  imports TermConcat
begin

text \<open>
  Correctness of \<open>==\<close> and \<open>ule\<close>, assuming the promises of the calls they make; then the knot is
  tied and the promises hold of all builders at once.
\<close>

section \<open>Sets of conjuncts\<close>

lemma set_insert_expr [simp]: "set (insert_expr Z e es) = insert e (set es)"
  by (induction es) auto

lemma and_add_sound:
  assumes "formula e" "list_all formula es"
  shows "list_all formula (and_add Z n e es) \<and>
    (list_all (sat \<rho>) (and_add Z n e es) \<longleftrightarrow> sat \<rho> e \<and> list_all (sat \<rho>) es) \<and>
    (nz \<rho> e \<longrightarrow> list_all (nz \<rho>) es \<longrightarrow> list_all (nz \<rho>) (and_add Z n e es))"
  using assms
proof (induction Z n e es rule: and_add.induct)
  case (1 Z e es)
  then show ?case by (auto simp: isTrue_def list_all_iff)
next
  case (2 Z n e es)
  show ?case
  proof (cases "isTrue e")
    case True
    then show ?thesis using 2(3,4) by (auto simp: isTrue_def)
  next
    case t: False
    show ?thesis
    proof (cases "isAnd e")
      case None
      then show ?thesis using t 2(3,4) by (auto simp: list_all_iff)
    next
      case (Some p)
      then obtain a b where p: "isAnd e = Some (a, b)" "e = App OP_AND [a, b]"
        by (cases p) (auto simp: recognised)
      then have f: "formula a" "formula b" using 2(3) by auto
      note A = 2(1) [OF t p(1) refl f(1) 2(4)]
      note B = 2(2) [OF t p(1) refl f(2)]
      show ?thesis using A B p t by auto
    qed
  qed
qed

lemma nz_mk_and: "list_all (nz \<rho>) es \<Longrightarrow> nz \<rho> (t_mk_and es)"
proof -
  have "nz \<rho> a \<Longrightarrow> list_all (nz \<rho>) es \<Longrightarrow> nz \<rho> (foldl t_and a es)" for a
    by (induction es arbitrary: a) (auto simp: nz_t_and)
  then show "list_all (nz \<rho>) es \<Longrightarrow> nz \<rho> (t_mk_and es)" by (simp add: t_mk_and_def)
qed

section \<open>Single rewrites of a comparison\<close>

lemma eq_specD:
  assumes "eq_spec x y r"
  shows "formula r" "adm \<rho> x \<Longrightarrow> adm \<rho> y \<Longrightarrow> adm \<rho> r"
    "adm \<rho> x \<Longrightarrow> adm \<rho> y \<Longrightarrow> sat \<rho> r \<longleftrightarrow> eval \<rho> x = eval \<rho> y"
  using assms by (auto simp: eq_spec_def)

lemma eq_specI:
  assumes "formula r" "\<And>\<rho>. adm \<rho> x \<Longrightarrow> adm \<rho> y \<Longrightarrow> adm \<rho> r"
    "\<And>\<rho>. adm \<rho> x \<Longrightarrow> adm \<rho> y \<Longrightarrow> sat \<rho> r \<longleftrightarrow> eval \<rho> x = eval \<rho> y"
  shows "eq_spec x y r"
  using assms by (auto simp: eq_spec_def)

lemma eq_spec_sym: "eq_spec x y r \<longleftrightarrow> eq_spec y x r"
  by (auto simp: eq_spec_def)

lemma eq_spec_false:
  "(\<And>\<rho>. adm \<rho> x \<Longrightarrow> adm \<rho> y \<Longrightarrow> eval \<rho> x \<noteq> eval \<rho> y) \<Longrightarrow> eq_spec x y (TBool False)"
  by (auto simp: eq_spec_def adm_def)

lemma adm_ok: "adm \<rho> e \<Longrightarrow> model_ok \<rho>"
  by (simp add: adm_def)

lemma eval_eq_bv:
  "model_ok \<rho> \<Longrightarrow> bvterm w x \<Longrightarrow> bvterm w y \<Longrightarrow> eval \<rho> x = eval \<rho> y \<longleftrightarrow> bv_of \<rho> x = bv_of \<rho> y"
  by (simp add: bvterm_eval)

lemma const_differ:
  assumes "isConst x" "isConst y" "x \<noteq> y" "sort_of x = sort_of y"
  shows "eval \<rho> x \<noteq> eval \<rho> y"
  using assms by (auto simp: isConst_cases)

lemma eq_bits_ok:
  assumes "calls_ok B N" "wt x" "wt y" "4 * (weight x + weight y) \<le> N"
  shows "rule_ok (eq_spec x y) (eq_bits_rule B x y)"
proof (cases "\<exists>a b c. isEq x = Some (a, b) \<and> isEq y = Some (a, c) \<and> isBV a \<and> bits_of a = 1")
  case False
  then show ?thesis by (auto simp: eq_bits_rule_def split: option.splits)
next
  case True
  then obtain a b c where i: "isEq x = Some (a, b)" "isEq y = Some (a, c)" "isBV a" "bits_of a = 1" by blast
  then have e: "x = App OP_EQ [a, b]" "y = App OP_EQ [a, c]" by (auto simp: recognised)
  then have t: "bvterm 1 a" "bvterm 1 b" "bvterm 1 c"
    using assms(2,3) i by (auto simp: bvterm_def isBV_def bits_of_def split: sort.splits)
  have "yields (eq_spec b c) (b_eq B b c)"
    by (rule calls_okD(4) [OF assms(1)])
      (use t e assms(4) turns_le [of b c] in \<open>auto simp: bvterm_def\<close>)
  then have "yields (eq_spec x y) (b_eq B b c)"
  proof (rule yields_mono)
    fix r assume "eq_spec b c r"
    note R = eq_specD [OF this]
    show "eq_spec x y r"
    proof (rule eq_specI [OF R(1)])
      fix \<rho> assume a: "adm \<rho> x" "adm \<rho> y"
      then have bc: "adm \<rho> b" "adm \<rho> c" "model_ok \<rho>" using e by (auto simp: adm_def)
      show "adm \<rho> r" by (rule R(2) [OF bc(1,2)])
      have "eval \<rho> b = eval \<rho> c \<longleftrightarrow> (eval \<rho> a = eval \<rho> b \<longleftrightarrow> eval \<rho> a = eval \<rho> c)"
        using bit_eval [OF bc(3) t(1)] bit_eval [OF bc(3) t(2)] bit_eval [OF bc(3) t(3)] by auto
      then show "sat \<rho> r \<longleftrightarrow> eval \<rho> x = eval \<rho> y" using R(3) [OF bc(1,2)] e by simp
    qed
  qed
  then show ?thesis using i by (simp add: eq_bits_rule_def rule_ok_fires)
qed

lemma base_plus_offset:
  assumes "isBasePlusOffset e = (b, n)" "wt e"
  shows "b = e \<and> n = 0 \<or>
    (\<exists>w. bvterm w e \<and> bvterm w b \<and> 0 \<le> n \<and> n < 2 ^ w \<and> (\<forall>\<rho>. nz \<rho> e \<longrightarrow> nz \<rho> b) \<and>
         (\<forall>\<rho>. model_ok \<rho> \<longrightarrow> bv_of \<rho> e = mk w (uval (bv_of \<rho> b) + n)))"
proof (cases "isAdd e")
  case None
  then show ?thesis using assms(1) by (simp add: isBasePlusOffset_def)
next
  case (Some p)
  then obtain x y where p: "isAdd e = Some (x, y)" "e = App OP_BADD [x, y]" by (cases p) (auto simp: recognised)
  then obtain w where "bvterm w e" using assms(2) bvterm_ex [of e] by auto
  then have t: "bvterm w e" "bvterm w x" "bvterm w y" using p(2) bvterm_nary [of OP_BADD w "[x, y]"] by auto
  have v: "bv_of \<rho> e = mk w (uval (bv_of \<rho> x) + uval (bv_of \<rho> y))" if "model_ok \<rho>" for \<rho>
    using bvterm_wf(2) [OF that t(2)] p(2) by (simp add: bvadd_def)
  have num: "0 \<le> m \<and> m < 2 ^ w \<and> uval (bv_of \<rho> z) = m" if "isUInt z = Some m" "bvterm w z" for z m \<rho>
    using that by (auto simp: isUInt_Some bvterm_def bv_of_def)
  show ?thesis
  proof (cases "isUInt x")
    case (Some m)
    then show ?thesis using assms(1) p t v num [OF Some t(2)]
      by (auto simp: isBasePlusOffset_def add.commute)
  next
    case n: None
    show ?thesis
    proof (cases "isUInt y")
      case (Some m)
      then show ?thesis using assms(1) p t v n num [OF Some t(3)] by (auto simp: isBasePlusOffset_def)
    next
      case None
      then show ?thesis using assms(1) p n by (simp add: isBasePlusOffset_def)
    qed
  qed
qed

lemma mk_offset_inj:
  assumes "mk w (u + m) = mk w (u + n)" "0 \<le> m" "m < 2 ^ w" "0 \<le> n" "n < 2 ^ w"
  shows "m = n"
proof -
  have "take_bit w (u + m) = take_bit w (u + n)" using assms(1) by (simp add: mk_def)
  then have "(u + m) mod 2 ^ w = (u + n) mod 2 ^ w" by (simp add: take_bit_eq_mod)
  then have "m mod 2 ^ w = n mod 2 ^ w" by (simp add: mod_eq_dvd_iff)
  then show ?thesis using assms(2-5) by simp
qed

lemma eq_offset_ok:
  assumes "wt x" "wt y" "sort_of x = sort_of y"
  shows "rule_ok (eq_spec x y) (eq_offset_rule x y)"
proof -
  obtain b m c n where o: "isBasePlusOffset x = (b, m)" "isBasePlusOffset y = (c, n)" by fastforce
  have "eval \<rho> x \<noteq> eval \<rho> y" if bc: "b = c" "m \<noteq> n" "model_ok \<rho>" for \<rho>
  proof -
    obtain w where w: "bvterm w x \<or> bvterm w y"
      using base_plus_offset [OF o(1) assms(1)] base_plus_offset [OF o(2) assms(2)] bc(1,2) by blast
    then have t: "bvterm w x" "bvterm w y" using assms by (auto simp: bvterm_def)
    have self: "bv_of \<rho> e = mk w (uval (bv_of \<rho> e) + 0)" if "bvterm w e" for e
      using mk_uval [OF bvterm_wf(1) [OF \<open>model_ok \<rho>\<close> that]] bvterm_wf(2) [OF \<open>model_ok \<rho>\<close> that] by simp
    have vals: "bv_of \<rho> e = mk w (uval (bv_of \<rho> b) + k) \<and> 0 \<le> k \<and> k < 2 ^ w"
      if "isBasePlusOffset e = (b, k)" "wt e" "bvterm w e" for e b k
      using base_plus_offset [OF that(1,2)] self [OF that(3)] that(3) \<open>model_ok \<rho>\<close> by (auto simp: bvterm_def)
    show ?thesis
      using vals [OF o(1) assms(1) t(1)] vals [OF o(2) assms(2) t(2)] bc mk_offset_inj [of w "uval (bv_of \<rho> b)" m n]
        eval_eq_bv [OF bc(3) t] by metis
  qed
  then have "eq_spec x y (TBool False)" if "b = c" "m \<noteq> n" using that by (intro eq_spec_false) (auto simp: adm_def)
  then show ?thesis by (simp add: eq_offset_rule_def o)
qed

section \<open>Comparing concatenations\<close>

lemma foldl1_concat_Cons:
  "wf_bv v \<Longrightarrow> wf_bv u \<Longrightarrow> list_all wf_bv vs \<Longrightarrow>
     foldl1 bvconcat (v # u # vs) = bvconcat v (foldl1 bvconcat (u # vs))"
  by (simp add: foldl_concat)

lemma foldl1_concat_wf:
  "vs \<noteq> [] \<Longrightarrow> list_all wf_bv vs \<Longrightarrow>
     wf_bv (foldl1 bvconcat vs) \<and> bits (foldl1 bvconcat vs) = sum_list (map bits vs)"
  using foldl_concat_wf [of "hd vs" "tl vs"] by (cases vs) auto

text \<open>The values \<open>vs\<close> are the bits of \<open>v\<close>, from the \<open>i\<close>-th most significant one on.\<close>

fun located :: "bv \<Rightarrow> nat \<Rightarrow> bv list \<Rightarrow> bool" where
  "located v i [] \<longleftrightarrow> True"
| "located v i (u # us) \<longleftrightarrow> i + bits u \<le> bits v \<and>
     u = bvextract v (bits v - i - 1) (bits v - i - bits u) \<and> located v (i + bits u) us"

lemma located_suffix:
  assumes "vs \<noteq> []" "list_all wf_bv vs" "wf_bv v" "bits v = i + sum_list (map bits vs)"
    and "bvextract v (sum_list (map bits vs) - 1) 0 = foldl1 bvconcat vs"
  shows "located v i vs"
  using assms(1,2,4,5)
proof (induction vs arbitrary: i)
  case (Cons u us)
  show ?case
  proof (cases "us = []")
    case True
    then show ?thesis using Cons.prems by simp
  next
    case False
    then obtain u2 us' where us: "us = u2 # us'" by (cases us) auto
    let ?s = "sum_list (map bits us)" and ?F = "foldl1 bvconcat us"
    have F: "wf_bv ?F" "bits ?F = ?s" "foldl1 bvconcat (u # us) = bvconcat u ?F" "wf_bv u" "0 < bits u" "0 < ?s"
      using foldl1_concat_wf [of us] foldl1_concat_Cons [of u u2 us'] Cons.prems(2) us False
        wf_bvD(1) [of u] wf_bvD(1) [of ?F] by auto
    have top: "bvextract v (bits u + ?s - 1) 0 = bvconcat u ?F" using Cons.prems(4) F(3) by simp
    have b: "bits v = i + bits u + ?s" using Cons.prems(3) by simp
    have "bvextract (bvextract v (bits u + ?s - 1) 0) (?s - 1) 0 = bvextract v (?s - 1) 0"
      using extract_extract [of "?s - 1" "bits u + ?s - 1" 0 0 v] F(5,6) by simp
    then have low: "bvextract v (?s - 1) 0 = ?F"
      using top extract_concat_low [OF F(4,1), of 0 "?s - 1"] F(2,6) extract_all [OF F(1)] by simp
    have "bvextract (bvextract v (bits u + ?s - 1) 0) (bits u + ?s - 1) ?s = bvextract v (bits u + ?s - 1) ?s"
      using extract_extract [of "bits u + ?s - 1" "bits u + ?s - 1" 0 ?s v] F(5,6) by simp
    then have high: "bvextract v (bits u + ?s - 1) ?s = u"
      using top extract_concat_high [OF F(4,1), of ?s "bits u + ?s - 1"] F(2,5,6) extract_all [OF F(4)] by simp
    have "located v (i + bits u) us"
      by (rule Cons.IH) (use False Cons.prems(2) b low in auto)
    then show ?thesis using b high by simp
  qed
qed simp

lemma located_concat:
  assumes "vs \<noteq> []" "list_all wf_bv vs" shows "located (foldl1 bvconcat vs) 0 vs"
  using foldl1_concat_wf [OF assms] extract_all [of "foldl1 bvconcat vs"]
  by (intro located_suffix) (use assms in auto)

text \<open>A concatenation equals the low bits of a value when its arguments match piece by piece.\<close>

lemma concat_match:
  assumes "wf_bv u" "list_all wf_bv vs" "wf_bv y" "high = bits u + sum_list (map bits vs)" "high \<le> bits y"
  shows "foldl1 bvconcat (u # vs) = bvextract y (high - 1) 0 \<longleftrightarrow>
     u = bvextract y (high - 1) (high - bits u) \<and>
     (vs \<noteq> [] \<longrightarrow> foldl1 bvconcat vs = bvextract y (high - bits u - 1) 0)"
proof (cases vs)
  case Nil
  then show ?thesis using assms by simp
next
  case (Cons v vs')
  let ?s = "sum_list (map bits vs)" and ?F = "foldl1 bvconcat vs"
  have F: "wf_bv ?F" "bits ?F = ?s" "foldl1 bvconcat (u # vs) = bvconcat u ?F" "0 < bits u" "0 < ?s"
    using foldl1_concat_wf [of vs] foldl1_concat_Cons [of u v vs'] assms(1,2) Cons
      wf_bvD(1) [OF assms(1)] wf_bvD(1) [of ?F] by auto
  have "bvextract y (high - 1) 0 = bvconcat (bvextract y (high - 1) ?s) (bvextract y (?s - 1) 0)"
    using concat_extracts [OF assms(3), of ?s "high - 1" 0] assms(4,5) F(4,5) by simp
  moreover have "bvconcat u ?F = bvconcat (bvextract y (high - 1) ?s) (bvextract y (?s - 1) 0) \<longleftrightarrow>
      u = bvextract y (high - 1) ?s \<and> ?F = bvextract y (?s - 1) 0"
    by (rule concat_eq_iff [OF assms(1) F(1)]) (use F assms(4) in auto)
  ultimately show ?thesis using F(3) assms(4) Cons by simp
qed

definition const_eqs_spec :: "tm \<Rightarrow> nat \<Rightarrow> tm list \<Rightarrow> conjuncts \<Rightarrow> conjuncts \<Rightarrow> bool" where
  "const_eqs_spec y high as eqs es \<longleftrightarrow>
     list_all formula es \<and> (\<forall>\<rho>. list_all (adm \<rho>) as \<longrightarrow> model_ok \<rho> \<longrightarrow>
        (list_all (nz \<rho>) eqs \<longrightarrow> list_all (nz \<rho>) es) \<and>
        (list_all (sat \<rho>) es \<longleftrightarrow> list_all (sat \<rho>) eqs \<and>
           (as \<noteq> [] \<longrightarrow> foldl1 bvconcat (map (bv_of \<rho>) as) = bvextract (bv_of \<rho> y) (high - 1) 0)))"

lemma concat_const_eqs_ok:
  assumes "calls_ok B N" "bvterm w y" "isConst y"
  shows "list_all (\<lambda>a. bvterm (bits_of a) a) as \<Longrightarrow> list_all formula eqs \<Longrightarrow>
     high = sum_list (map bits_of as) \<Longrightarrow> high \<le> w \<Longrightarrow> list_all (\<lambda>a. 4 * weight a + 1 < N) as \<Longrightarrow>
     yields (const_eqs_spec y high as eqs)
     (concat_const_eqs Z B y high as eqs)"
proof (induction as arbitrary: high eqs)
  case Nil
  then show ?case by (simp add: const_eqs_spec_def)
next
  case (Cons a as)
  let ?low = "high - bits_of a"
  have a: "bvterm (bits_of a) a" "0 < bits_of a" using Cons.prems(1) bvtermD(2) by auto
  have ext: "yields (ext_spec y (high - 1) ?low) (b_extract B y (high - 1) ?low 3)"
    by (rule calls_okD(1) [OF assms(1,2)])
      (use Cons.prems(3-5) a(2) isConst_simps(1) [OF assms(3)] in auto)
  show ?case unfolding concat_const_eqs.simps Let_def
  proof (rule yields_bind [OF ext])
    fix c assume "ext_spec y (high - 1) ?low c"
    note C = ext_specD [OF this]
    have c: "bvterm (bits_of a) c" "weight c = 0" "isConst c"
      using C(1) Cons.prems(3) a(2) C(3) assms(3) isConst_simps(1) by auto
    have eq: "yields (eq_spec a c) (b_eq B a c)"
      by (rule calls_okD(4) [OF assms(1)])
        (use a c Cons.prems(5) turns_le [of a c] in \<open>auto simp: bvterm_def\<close>)
    show "yields (const_eqs_spec y high (a # as) eqs)
     (b_eq B a c \<bind> (\<lambda>q. concat_const_eqs Z B y ?low as (and_add Z 16 q eqs)))"
    proof (rule yields_bind [OF eq])
      fix q assume "eq_spec a c q"
      note Q = eq_specD [OF this]
      note add = and_add_sound [OF Q(1) Cons.prems(2), of Z 16]
      have ih: "yields (const_eqs_spec y ?low as (and_add Z 16 q eqs))
         (concat_const_eqs Z B y ?low as (and_add Z 16 q eqs))"
        by (rule Cons.IH) (use Cons.prems add in auto)
      then show "yields (const_eqs_spec y high (a # as) eqs)
         (concat_const_eqs Z B y ?low as (and_add Z 16 q eqs))"
      proof (rule yields_mono, unfold const_eqs_spec_def, intro conjI allI impI)
        fix es \<rho>
        assume es: "list_all formula es \<and> (\<forall>\<rho>. list_all (adm \<rho>) as \<longrightarrow> model_ok \<rho> \<longrightarrow>
          (list_all (nz \<rho>) (and_add Z 16 q eqs) \<longrightarrow> list_all (nz \<rho>) es) \<and>
          (list_all (sat \<rho>) es \<longleftrightarrow> list_all (sat \<rho>) (and_add Z 16 q eqs) \<and>
             (as \<noteq> [] \<longrightarrow> foldl1 bvconcat (map (bv_of \<rho>) as) = bvextract (bv_of \<rho> y) (?low - 1) 0)))"
        then show "list_all formula es" by blast
        assume ad: "list_all (adm \<rho>) (a # as)" and ok: "model_ok \<rho>"
        have ac: "adm \<rho> a" "adm \<rho> c" "adm \<rho> y" using ad ok adm_const c(3) assms(3) by auto
        note E = conjunct2 [OF es, rule_format, of \<rho>]
        show "list_all (nz \<rho>) es" if "list_all (nz \<rho>) eqs"
          using E ad ok that add Q(2) [OF ac(1,2)] by (auto simp: adm_def)
        have q: "sat \<rho> q \<longleftrightarrow> bv_of \<rho> a = bvextract (bv_of \<rho> y) (high - 1) ?low"
          using Q(3) [OF ac(1,2)] eval_eq_bv [OF ok a(1) c(1)] C(5) [OF ac(3)] by simp
        have wf: "wf_bv (bv_of \<rho> a)" "bits (bv_of \<rho> a) = bits_of a" "list_all wf_bv (map (bv_of \<rho>) as)"
          "map bits (map (bv_of \<rho>) as) = map bits_of as" "wf_bv (bv_of \<rho> y)" "bits (bv_of \<rho> y) = w"
          using bvterm_wf [OF ok] a(1) Cons.prems(1) assms(2) by (auto simp: list_all_iff)
        have "foldl1 bvconcat (map (bv_of \<rho>) (a # as)) = bvextract (bv_of \<rho> y) (high - 1) 0 \<longleftrightarrow>
            bv_of \<rho> a = bvextract (bv_of \<rho> y) (high - 1) ?low \<and>
            (as \<noteq> [] \<longrightarrow> foldl1 bvconcat (map (bv_of \<rho>) as) = bvextract (bv_of \<rho> y) (?low - 1) 0)"
          using concat_match [OF wf(1,3,5), of high] wf(2,6) Cons.prems(3,4) unfolding wf(4) by simp
        then show "list_all (sat \<rho>) es \<longleftrightarrow> list_all (sat \<rho>) eqs \<and>
           (a # as \<noteq> [] \<longrightarrow> foldl1 bvconcat (map (bv_of \<rho>) (a # as)) = bvextract (bv_of \<rho> y) (high - 1) 0)"
          using E ad ok add [of \<rho>] q by auto
      qed
    qed
  qed
qed

text \<open>
  Two concatenations with equal values agree on the bits two of their arguments have in common.
\<close>

lemma overlap_extract:
  assumes "i + bits u \<le> bits v" "u = bvextract v (bits v - i - 1) (bits v - i - bits u)"
    and "n \<le> bits u" "k < n" "0 < bits u"
  shows "bvextract u (n - 1) k = bvextract v (bits v - i - bits u + n - 1) (bits v - i - bits u + k)"
proof -
  have "bvextract u (n - 1) k = bvextract (bvextract v (bits v - i - 1) (bits v - i - bits u)) (n - 1) k"
    using assms(2) by simp
  also have "\<dots> = bvextract v (n - 1 + (bits v - i - bits u)) (k + (bits v - i - bits u))"
    by (rule extract_extract) (use assms in auto)
  finally show ?thesis using assms(3,4) by (simp add: add.commute)
qed

lemma overlap_eq_ok:
  assumes "calls_ok B N" "bvterm wl l" "bvterm wr r" "isConst l" "isConst r" "2 < N"
  shows "rule_ok (\<lambda>q. formula q \<and> (\<forall>\<rho> v. model_ok \<rho> \<longrightarrow> nz \<rho> q \<and>
       (located v i [bv_of \<rho> l] \<longrightarrow> located v j [bv_of \<rho> r] \<longrightarrow> sat \<rho> q)))
     (overlap_eq B l r i j)"
proof -
  note w = bvtermD [OF assms(2)] bvtermD [OF assms(3)]
  note c = isConst_simps(1) [OF assms(4)] isConst_simps(1) [OF assms(5)]
  have fire: "rule_ok (\<lambda>q. formula q \<and> (\<forall>\<rho> v. model_ok \<rho> \<longrightarrow> nz \<rho> q \<and>
       (located v i [bv_of \<rho> l] \<longrightarrow> located v j [bv_of \<rho> r] \<longrightarrow> sat \<rho> q)))
     (do { a \<leftarrow> b_extract B l (n + lo - 1) lo 3; b \<leftarrow> b_extract B r (n + ro - 1) ro 3; fires (b_eq B a b) })"
    if n: "0 < n" "n + lo \<le> wl" "n + ro \<le> wr" and off: "i + wl - lo = j + wr - ro" for n lo ro
  proof -
    have a: "yields (ext_spec l (n + lo - 1) lo) (b_extract B l (n + lo - 1) lo 3)"
      by (rule calls_okD(1) [OF assms(1,2)]) (use n assms(6) c in auto)
    have b: "yields (ext_spec r (n + ro - 1) ro) (b_extract B r (n + ro - 1) ro 3)"
      by (rule calls_okD(1) [OF assms(1,3)]) (use n assms(6) c in auto)
    show ?thesis
    proof (rule rule_ok_bind [OF a], rule rule_ok_bind [OF b], rule rule_ok_fires)
      fix a b assume "ext_spec l (n + lo - 1) lo a" "ext_spec r (n + ro - 1) ro b"
      note A = ext_specD [OF this(1)] and B = ext_specD [OF this(2)]
      have t: "bvterm n a" "bvterm n b" "isConst a" "isConst b"
        using A(1,3) B(1,3) n assms(4,5) by (auto simp: Suc_diff_le)
      have "yields (eq_spec a b) (b_eq B a b)"
        by (rule calls_okD(4) [OF assms(1)])
          (use t assms(6) turns_le [of a b] isConst_simps(1) in \<open>auto simp: bvterm_def\<close>)
      then show "yields (\<lambda>q. formula q \<and> (\<forall>\<rho> v. model_ok \<rho> \<longrightarrow> nz \<rho> q \<and>
          (located v i [bv_of \<rho> l] \<longrightarrow> located v j [bv_of \<rho> r] \<longrightarrow> sat \<rho> q))) (b_eq B a b)"
      proof (rule yields_mono, intro conjI allI impI)
        fix q \<rho> v assume "eq_spec a b q"
        note Q = eq_specD [OF this]
        show "formula q" by (rule Q(1))
        assume ok: "model_ok \<rho>"
        then have ab: "adm \<rho> a" "adm \<rho> b" "adm \<rho> l" "adm \<rho> r" using t assms(4,5) adm_const by auto
        show "nz \<rho> q" using Q(2) [OF ab(1,2)] by (simp add: adm_def)
        assume loc: "located v i [bv_of \<rho> l]" "located v j [bv_of \<rho> r]"
        note wf = bvterm_wf [OF ok assms(2)] bvterm_wf [OF ok assms(3)]
        have "bvextract (bv_of \<rho> l) (n + lo - 1) lo = bvextract (bv_of \<rho> r) (n + ro - 1) ro"
        proof -
          have "bvextract (bv_of \<rho> l) (n + lo - 1) lo =
              bvextract v (bits v - i - wl + (n + lo) - 1) (bits v - i - wl + lo)"
            using overlap_extract [of i "bv_of \<rho> l" v "n + lo" lo] loc(1) wf n w by simp
          moreover have "bvextract (bv_of \<rho> r) (n + ro - 1) ro =
              bvextract v (bits v - j - wr + (n + ro) - 1) (bits v - j - wr + ro)"
            using overlap_extract [of j "bv_of \<rho> r" v "n + ro" ro] loc(2) wf n w by simp
          moreover have "bits v - i - wl + lo = bits v - j - wr + ro"
            "bits v - i - wl + (n + lo) = bits v - j - wr + (n + ro)"
            using off loc wf n by simp_all
          ultimately show ?thesis by metis
        qed
        then show "sat \<rho> q"
          using Q(3) [OF ab(1,2)] A(5) [OF ab(3)] B(5) [OF ab(4)] eval_eq_bv [OF ok t(1,2)] by simp
      qed
    qed
  qed
  show ?thesis
  proof (cases "j \<le> i \<and> i < j + wr")
    case True
    define n where "n = min (wr - (i - j)) wl"
    define ro where "ro = j + wr - (i + n)"
    have n: "0 < n" "n \<le> wl" "i + n \<le> j + wr" using True w by (auto simp: n_def)
    then have "i + n = j + wr - ro" by (simp add: ro_def)
    then have *: "i + wl - (wl - n) = j + wr - ro" "n + ro \<le> wr" "n + (wl - n) = wl"
      using n True by (auto simp: ro_def)
    have "overlap_eq B l r i j =
       (do { a \<leftarrow> b_extract B l (wl - 1) (wl - n) 3; b \<leftarrow> b_extract B r (n + ro - 1) ro 3; fires (b_eq B a b) })"
      using True w by (simp add: overlap_eq_def Let_def n_def ro_def add.commute)
    then show ?thesis using fire [OF n(1) _ *(2,1)] *(3) by simp
  next
    case False
    show ?thesis
    proof (cases "i \<le> j \<and> j < i + wl")
      case True
      define n where "n = min (wl - (j - i)) wr"
      define lo where "lo = i + wl - (j + n)"
      have n: "0 < n" "n \<le> wr" "j + n \<le> i + wl" using True w by (auto simp: n_def)
      then have "j + n = i + wl - lo" by (simp add: lo_def)
      then have *: "i + wl - lo = j + wr - (wr - n)" "n + lo \<le> wl" "n + (wr - n) = wr"
        using n True by (auto simp: lo_def)
      have "overlap_eq B l r i j =
         (do { a \<leftarrow> b_extract B l (n + lo - 1) lo 3; b \<leftarrow> b_extract B r (wr - 1) (wr - n) 3; fires (b_eq B a b) })"
        using True False w by (simp add: overlap_eq_def Let_def n_def lo_def add.commute)
      then show ?thesis using fire [OF n(1) *(2) _ *(1)] *(3) by simp
    next
      case f: False
      then show ?thesis using False w by (auto simp: overlap_eq_def Let_def)
    qed
  qed
qed

end
