(* ===== verification/TermPairs.thy ===== *)
theory TermPairs
  imports TermEq
begin

text \<open>
  Comparing two concatenations argument by argument: equal values satisfy every conjunct, and
  when all arguments are aligned the conjuncts make the values equal.
\<close>

definition pairs_spec :: "nat \<Rightarrow> nat \<Rightarrow> tm list \<Rightarrow> tm list \<Rightarrow> conjuncts \<Rightarrow> bool \<Rightarrow> conjuncts \<times> bool \<Rightarrow> bool" where
  "pairs_spec i j ls rs eqs aligned = (\<lambda>(es, al).
     list_all formula es \<and> (al \<longrightarrow> aligned) \<and>
     (\<forall>\<rho>. model_ok \<rho> \<longrightarrow> list_all (adm \<rho>) ls \<longrightarrow> list_all (adm \<rho>) rs \<longrightarrow>
        (list_all (nz \<rho>) eqs \<longrightarrow> list_all (nz \<rho>) es) \<and>
        (list_all (sat \<rho>) es \<longrightarrow> list_all (sat \<rho>) eqs) \<and>
        (\<forall>v. located v i (map (bv_of \<rho>) ls) \<longrightarrow> located v j (map (bv_of \<rho>) rs) \<longrightarrow>
             list_all (sat \<rho>) eqs \<longrightarrow> list_all (sat \<rho>) es) \<and>
        (al \<longrightarrow> i = j \<longrightarrow> list_all (sat \<rho>) es \<longrightarrow> map (bv_of \<rho>) ls = map (bv_of \<rho>) rs)))"

definition pair_spec :: "nat \<Rightarrow> nat \<Rightarrow> tm \<Rightarrow> tm \<Rightarrow> tm \<Rightarrow> bool" where
  "pair_spec i j l r q \<longleftrightarrow> formula q \<and> (\<forall>\<rho>. adm \<rho> l \<longrightarrow> adm \<rho> r \<longrightarrow> nz \<rho> q \<and>
     (\<forall>v. located v i [bv_of \<rho> l] \<longrightarrow> located v j [bv_of \<rho> r] \<longrightarrow> sat \<rho> q) \<and>
     (i = j \<longrightarrow> bits_of l = bits_of r \<longrightarrow> sat \<rho> q \<longrightarrow> bv_of \<rho> l = bv_of \<rho> r))"

lemma pair_ok:
  assumes "calls_ok B N" "bvterm wl l" "bvterm wr r" "4 * (weight l + weight r) + 2 < N"
  shows "yields (\<lambda>q. (i = j \<and> wl = wr \<longrightarrow> q \<noteq> None) \<and> (\<forall>t. q = Some t \<longrightarrow> pair_spec i j l r t))
     (if i = j \<and> bits_of l = bits_of r then fires (b_eq B l r)
      else if isConst l \<and> isConst r then overlap_eq B l r i j else passes)"
proof -
  note w = bvtermD(1) [OF assms(2)] bvtermD(1) [OF assms(3)]
  show ?thesis
  proof (cases "i = j \<and> wl = wr")
    case True
    have "yields (eq_spec l r) (b_eq B l r)"
      by (rule calls_okD(4) [OF assms(1)])
        (use assms(2-4) True turns_le [of l r] in \<open>auto simp: bvterm_def\<close>)
    then have "yields (pair_spec i j l r) (b_eq B l r)"
    proof (rule yields_mono)
      fix q assume "eq_spec l r q"
      note Q = eq_specD [OF this]
      have "nz \<rho> q \<and> (sat \<rho> q \<longleftrightarrow> bv_of \<rho> l = bv_of \<rho> r)" if "adm \<rho> l" "adm \<rho> r" for \<rho>
        using Q(2,3) [OF that] eval_eq_bv [OF adm_ok [OF that(1)], of wl l r] assms(2,3) True
        by (simp add: adm_def)
      moreover have "bits (bv_of \<rho> l) = wl" "bits (bv_of \<rho> r) = wr" if "adm \<rho> l" for \<rho>
        using bvterm_wf(2) adm_ok [OF that] assms(2,3) by auto
      ultimately show "pair_spec i j l r q" using Q(1) True w by (auto simp: pair_spec_def)
    qed
    then show ?thesis using True w by (auto simp: fires_def yields_def)
  next
    case False
    then have nf: "\<not> (i = j \<and> bits_of l = bits_of r)" using w by simp
    show ?thesis
    proof (cases "isConst l \<and> isConst r")
      case True
      have "rule_ok (\<lambda>q. formula q \<and> (\<forall>\<rho> v. model_ok \<rho> \<longrightarrow> nz \<rho> q \<and>
       (located v i [bv_of \<rho> l] \<longrightarrow> located v j [bv_of \<rho> r] \<longrightarrow> sat \<rho> q))) (overlap_eq B l r i j)"
        by (rule overlap_eq_ok [OF assms(1-3)]) (use True assms(4) in auto)
      then have "rule_ok (pair_spec i j l r) (overlap_eq B l r i j)"
        unfolding rule_ok_def
        by (rule yields_mono) (use False w adm_ok in \<open>auto simp: pair_spec_def simp del: located.simps\<close>)
      then have "yields (\<lambda>q. (i = j \<and> wl = wr \<longrightarrow> q \<noteq> None) \<and> (\<forall>t. q = Some t \<longrightarrow> pair_spec i j l r t))
          (overlap_eq B l r i j)"
        unfolding rule_ok_def by (rule yields_mono) (use False in blast)
      then show ?thesis unfolding if_not_P [OF nf] if_P [OF True] .
    next
      case c: False
      show ?thesis unfolding if_not_P [OF nf] if_not_P [OF c] using False by (simp add: passes_def)
    qed
  qed
qed

lemma pair_conjunct:
  fixes Z :: z3
  assumes q: "\<forall>t. q = Some t \<longrightarrow> pair_spec i j l r t" and eqs: "list_all formula eqs"
  defines "eqs' \<equiv> case q of Some q \<Rightarrow> and_add Z 16 q eqs | None \<Rightarrow> eqs"
  shows "list_all formula eqs'"
    "list_all (sat \<rho>) eqs' \<longleftrightarrow> list_all (sat \<rho>) eqs \<and> (\<forall>t. q = Some t \<longrightarrow> sat \<rho> t)"
    "adm \<rho> l \<Longrightarrow> adm \<rho> r \<Longrightarrow> list_all (nz \<rho>) eqs \<Longrightarrow> list_all (nz \<rho>) eqs'"
proof -
  have "list_all formula eqs' \<and>
    (list_all (sat \<rho>) eqs' \<longleftrightarrow> list_all (sat \<rho>) eqs \<and> (\<forall>t. q = Some t \<longrightarrow> sat \<rho> t)) \<and>
    (adm \<rho> l \<longrightarrow> adm \<rho> r \<longrightarrow> list_all (nz \<rho>) eqs \<longrightarrow> list_all (nz \<rho>) eqs')"
  proof (cases q)
    case None
    then show ?thesis using eqs by (simp add: eqs'_def)
  next
    case (Some t)
    then have t: "formula t" "adm \<rho> l \<Longrightarrow> adm \<rho> r \<Longrightarrow> nz \<rho> t" using q by (auto simp: pair_spec_def)
    show ?thesis using and_add_sound [OF t(1) eqs, of Z 16 \<rho>] t(2) Some by (auto simp: eqs'_def)
  qed
  then show "list_all formula eqs'"
    "list_all (sat \<rho>) eqs' \<longleftrightarrow> list_all (sat \<rho>) eqs \<and> (\<forall>t. q = Some t \<longrightarrow> sat \<rho> t)"
    "adm \<rho> l \<Longrightarrow> adm \<rho> r \<Longrightarrow> list_all (nz \<rho>) eqs \<Longrightarrow> list_all (nz \<rho>) eqs'"
    by blast+
qed

lemma pairs_step:
  assumes t: "bvterm (bits_of l) l" "bvterm (bits_of r) r" and eqs: "list_all formula eqs"
    and q: "i = j \<and> bits_of l = bits_of r \<longrightarrow> q \<noteq> None" "\<forall>t. q = Some t \<longrightarrow> pair_spec i j l r t"
    and p: "pairs_spec (i + bits_of l) (j + bits_of r) ls rs
      (case q of Some q \<Rightarrow> and_add Z 16 q eqs | None \<Rightarrow> eqs) (aligned \<and> bits_of l = bits_of r) (es, al)"
  shows "pairs_spec i j (l # ls) (r # rs) eqs aligned (es, al)"
  unfolding pairs_spec_def prod.case
proof (intro conjI allI impI)
  let ?eqs = "case q of Some q \<Rightarrow> and_add Z 16 q eqs | None \<Rightarrow> eqs"
  note E = pair_conjunct [OF q(2) eqs, where Z = Z]
  show "list_all formula es" using p unfolding pairs_spec_def prod.case by blast
  have al: "al \<longrightarrow> aligned \<and> bits_of l = bits_of r" using p unfolding pairs_spec_def prod.case by blast
  then show "aligned" if "al" using that by blast
  fix \<rho> assume ad: "model_ok \<rho>" "list_all (adm \<rho>) (l # ls)" "list_all (adm \<rho>) (r # rs)"
  have lr: "adm \<rho> l" "adm \<rho> r" "list_all (adm \<rho>) ls" "list_all (adm \<rho>) rs" using ad(2,3) by simp_all
  have b: "bits (bv_of \<rho> l) = bits_of l" "bits (bv_of \<rho> r) = bits_of r"
    using bvterm_wf(2) [OF ad(1)] t by blast+
  from p have I: "list_all (nz \<rho>) ?eqs \<longrightarrow> list_all (nz \<rho>) es"
    "list_all (sat \<rho>) es \<longrightarrow> list_all (sat \<rho>) ?eqs"
    "\<forall>v. located v (i + bits_of l) (map (bv_of \<rho>) ls) \<longrightarrow> located v (j + bits_of r) (map (bv_of \<rho>) rs) \<longrightarrow>
       list_all (sat \<rho>) ?eqs \<longrightarrow> list_all (sat \<rho>) es"
    "al \<longrightarrow> i + bits_of l = j + bits_of r \<longrightarrow> list_all (sat \<rho>) es \<longrightarrow> map (bv_of \<rho>) ls = map (bv_of \<rho>) rs"
    using ad(1) lr(3,4) unfolding pairs_spec_def prod.case by blast+
  show "list_all (nz \<rho>) es" if "list_all (nz \<rho>) eqs" using I(1) E(3) [OF lr(1,2) that] by blast
  show "list_all (sat \<rho>) eqs" if "list_all (sat \<rho>) es" using I(2) E(2) [of \<rho>] that by blast
  show "list_all (sat \<rho>) es" if loc: "located v i (map (bv_of \<rho>) (l # ls))"
    "located v j (map (bv_of \<rho>) (r # rs))" and h: "list_all (sat \<rho>) eqs" for v
  proof -
    have L: "located v i [bv_of \<rho> l]" "located v (i + bits_of l) (map (bv_of \<rho>) ls)"
      "located v j [bv_of \<rho> r]" "located v (j + bits_of r) (map (bv_of \<rho>) rs)"
      using loc b by simp_all
    have "sat \<rho> t" if "q = Some t" for t
      using q(2) that lr(1,2) L(1,3) unfolding pair_spec_def by blast
    then show ?thesis using I(3) E(2) [of \<rho>] h L(2,4) by blast
  qed
  show "map (bv_of \<rho>) (l # ls) = map (bv_of \<rho>) (r # rs)" if a: "al" "i = j" and h: "list_all (sat \<rho>) es"
  proof -
    have w: "bits_of l = bits_of r" using al a(1) by blast
    then obtain t where s: "q = Some t" using q(1) a(2) by blast
    have "sat \<rho> t" using I(2) h E(2) [of \<rho>] s by blast
    then have "bv_of \<rho> l = bv_of \<rho> r" using q(2) s lr(1,2) a(2) w unfolding pair_spec_def by blast
    then show ?thesis using I(4) a h w by simp
  qed
qed

lemma concat_concat_eqs_ok:
  assumes "calls_ok B N"
  shows "length ls = length rs \<Longrightarrow> list_all (\<lambda>a. bvterm (bits_of a) a) ls \<Longrightarrow>
     list_all (\<lambda>a. bvterm (bits_of a) a) rs \<Longrightarrow> list_all formula eqs \<Longrightarrow>
     list_all2 (\<lambda>l r. 4 * (weight l + weight r) + 2 < N) ls rs \<Longrightarrow>
     yields (pairs_spec i j ls rs eqs aligned) (concat_concat_eqs Z B i j ls rs eqs aligned)"
proof (induction ls rs arbitrary: i j eqs aligned rule: list_induct2)
  case Nil
  then show ?case by (simp add: pairs_spec_def)
next
  case (Cons l ls r rs)
  have t: "bvterm (bits_of l) l" "bvterm (bits_of r) r" using Cons.prems by auto
  show ?case unfolding concat_concat_eqs.simps Let_def
  proof (rule yields_bind [OF pair_ok [OF assms t, of i j]])
    show "4 * (weight l + weight r) + 2 < N" using Cons.prems(4) by simp
    fix q assume q: "(i = j \<and> bits_of l = bits_of r \<longrightarrow> q \<noteq> None) \<and> (\<forall>t. q = Some t \<longrightarrow> pair_spec i j l r t)"
    let ?eqs = "case q of Some q \<Rightarrow> and_add Z 16 q eqs | None \<Rightarrow> eqs"
    let ?al = "aligned \<and> bits_of l = bits_of r"
    note q' = conjunct1 [OF q] conjunct2 [OF q]
    have "list_all formula ?eqs" by (rule pair_conjunct(1) [OF q'(2) Cons.prems(3)])
    moreover have "list_all (\<lambda>a. bvterm (bits_of a) a) ls" "list_all (\<lambda>a. bvterm (bits_of a) a) rs"
      "list_all2 (\<lambda>l r. 4 * (weight l + weight r) + 2 < N) ls rs" using Cons.prems by simp_all
    ultimately have "yields (pairs_spec (i + bits_of l) (j + bits_of r) ls rs ?eqs ?al)
      (concat_concat_eqs Z B (i + bits_of l) (j + bits_of r) ls rs ?eqs ?al)"
      by (intro Cons.IH)
    then show "yields (pairs_spec i j (l # ls) (r # rs) eqs aligned)
      (concat_concat_eqs Z B (i + bits_of l) (j + bits_of r) ls rs ?eqs ?al)"
    proof (rule yields_mono)
      fix p assume "pairs_spec (i + bits_of l) (j + bits_of r) ls rs ?eqs ?al p"
      then show "pairs_spec i j (l # ls) (r # rs) eqs aligned p"
        using pairs_step [OF t Cons.prems(3) q'] by (cases p) blast
    qed
  qed
qed

lemma eq_concat_ok:
  assumes "calls_ok B N" "wt x" "wt y" "sort_of x = sort_of y" "4 * (weight x + weight y) \<le> N"
  shows "rule_ok (eq_spec x y) (eq_concat_rule Z B x y)"
proof (cases "isAppOf OP_CONCAT x")
  case None
  then show ?thesis by (simp add: eq_concat_rule_def)
next
  case (Some as)
  then have x: "x = App OP_CONCAT as" by (simp add: isAppOf_Some)
  then obtain w where w: "bvterm w x" "bvterm w y" using assms(2-4) by (auto simp: bvterm_def)
  have as: "as \<noteq> []" "list_all (\<lambda>a. bvterm (bits_of a) a) as" "w = sum_list (map bits_of as)" "2 \<le> length as"
    using w(1) x by (auto simp: bvterm_concat)
  have wa: "weight a + 2 \<le> weight x" if "a \<in> set as" for a
    using member_le_sum_list [of "weight a" "map weight as"] that as(4) x by auto
  have adm: "list_all (adm \<rho>) as" if "adm \<rho> x" for \<rho> using that x by (auto simp: adm_def list_all_iff)
  have vx: "bv_of \<rho> x = foldl1 bvconcat (map (bv_of \<rho>) as)" for \<rho> by (simp add: x bv_of_concat)
  show ?thesis
  proof (cases "isConst y")
    case True
    have "yields (const_eqs_spec y w as []) (concat_const_eqs Z B y w as [])"
    proof (rule concat_const_eqs_ok [OF assms(1) w(2) True as(2)])
      show "list_all (\<lambda>a. 4 * weight a + 1 < N) as" using wa assms(5) by (fastforce simp: list_all_iff)
    qed (use as in simp_all)
    then have "yields (eq_spec x y) (map_option and_expr (concat_const_eqs Z B y w as []))"
    proof (intro yields_map, elim yields_mono, intro eq_specI)
      fix es assume es: "const_eqs_spec y w as [] es"
      then show "formula (and_expr es)" by (simp add: const_eqs_spec_def and_expr_def)
      fix \<rho> assume a: "adm \<rho> x" "adm \<rho> y"
      note ok = adm_ok [OF a(1)]
      show "adm \<rho> (and_expr es)"
        using es adm [OF a(1)] ok nz_mk_and [of \<rho> es] by (simp add: const_eqs_spec_def and_expr_def adm_def)
      have "sat \<rho> (and_expr es) \<longleftrightarrow> bv_of \<rho> x = bvextract (bv_of \<rho> y) (w - 1) 0"
        using es adm [OF a(1)] ok as(1) vx by (simp add: const_eqs_spec_def and_expr_def)
      then show "sat \<rho> (and_expr es) \<longleftrightarrow> eval \<rho> x = eval \<rho> y"
        using extract_all [OF bvterm_wf(1) [OF ok w(2)]] bvterm_wf(2) [OF ok w(2)] eval_eq_bv [OF ok w] by simp
    qed
    then show ?thesis using Some True bvtermD(1) [OF w(1)] by (simp add: eq_concat_rule_def rule_ok_fires)
  next
    case nc: False
    show ?thesis
    proof (cases "\<exists>bs. isAppOf OP_CONCAT y = Some bs \<and> length as = length bs")
      case False
      then show ?thesis using Some nc by (auto simp: eq_concat_rule_def split: option.splits)
    next
      case True
      then obtain bs where y: "isAppOf OP_CONCAT y = Some bs" "y = App OP_CONCAT bs" "length as = length bs"
        by (auto simp: isAppOf_Some)
      have bs: "bs \<noteq> []" "list_all (\<lambda>a. bvterm (bits_of a) a) bs" "2 \<le> length bs"
        using w(2) y(2) by (auto simp: bvterm_concat)
      have wb: "weight b + 2 \<le> weight y" if "b \<in> set bs" for b
        using member_le_sum_list [of "weight b" "map weight bs"] that bs(3) y(2) by auto
      have "yields (pairs_spec 0 0 as bs [] True) (concat_concat_eqs Z B 0 0 as bs [] True)"
      proof (rule concat_concat_eqs_ok [OF assms(1) y(3) as(2) bs(2)])
        show "list_all2 (\<lambda>l r. 4 * (weight l + weight r) + 2 < N) as bs"
          unfolding list_all2_conv_all_nth
        proof (intro conjI allI impI y(3))
          fix k assume "k < length as"
          then have "weight (as ! k) + 2 \<le> weight x" "weight (bs ! k) + 2 \<le> weight y"
            using wa wb y(3) by simp_all
          then show "4 * (weight (as ! k) + weight (bs ! k)) + 2 < N"
            using assms(5) by (simp add: algebra_simps)
        qed
      qed auto
      then have "rule_ok (eq_spec x y) (do {
                      (eqs, all_aligned) \<leftarrow> concat_concat_eqs Z B 0 0 as bs [] True;
                      if all_aligned \<or> \<not> and_valid eqs then Some (Some (and_expr eqs)) else passes })"
      proof (rule rule_ok_bind)
        fix p assume p: "pairs_spec 0 0 as bs [] True p"
        obtain es al where ea: "p = (es, al)" by fastforce
        have spec: "eq_spec x y (and_expr es)" if c: "al \<or> \<not> and_valid es"
        proof (rule eq_specI)
          show "formula (and_expr es)" using p by (simp add: ea pairs_spec_def and_expr_def)
          fix \<rho> assume a: "adm \<rho> x" "adm \<rho> y"
          note ok = adm_ok [OF a(1)]
          have ab: "list_all (adm \<rho>) as" "list_all (adm \<rho>) bs"
            using adm [OF a(1)] a(2) y(2) by (auto simp: adm_def list_all_iff)
          have P: "list_all (nz \<rho>) es"
            "\<And>v. located v 0 (map (bv_of \<rho>) as) \<longrightarrow> located v 0 (map (bv_of \<rho>) bs) \<longrightarrow> list_all (sat \<rho>) es"
            "al \<longrightarrow> list_all (sat \<rho>) es \<longrightarrow> map (bv_of \<rho>) as = map (bv_of \<rho>) bs"
            using p ok ab by (auto simp: ea pairs_spec_def)
          show "adm \<rho> (and_expr es)" using P(1) ok nz_mk_and by (simp add: and_expr_def adm_def)
          have wf: "list_all wf_bv (map (bv_of \<rho>) as)" "list_all wf_bv (map (bv_of \<rho>) bs)"
            using as(2) bs(2) bvterm_wf(1) [OF ok] by (auto simp: list_all_iff)
          have vy: "bv_of \<rho> y = foldl1 bvconcat (map (bv_of \<rho>) bs)" by (simp add: y(2) bv_of_concat)
          have fwd: "list_all (sat \<rho>) es" if "bv_of \<rho> x = bv_of \<rho> y"
            using P(2) [of "bv_of \<rho> x"] located_concat [OF _ wf(1)] located_concat [OF _ wf(2)] vx [of \<rho>] vy that
              as(1) bs(1) by simp
          have bwd: "bv_of \<rho> x = bv_of \<rho> y" if h: "list_all (sat \<rho>) es"
          proof -
            have "al" using c h by (auto simp: and_valid_def list_all_iff)
            then show ?thesis using P(3) h vx [of \<rho>] vy by simp
          qed
          show "sat \<rho> (and_expr es) \<longleftrightarrow> eval \<rho> x = eval \<rho> y"
            using fwd bwd eval_eq_bv [OF ok w] by (auto simp: and_expr_def)
        qed
        then show "rule_ok (eq_spec x y) (case p of (eqs, all_aligned) \<Rightarrow>
            if all_aligned \<or> \<not> and_valid eqs then Some (Some (and_expr eqs)) else passes)"
          by (simp add: ea)
      qed
      then show ?thesis using Some nc y by (simp add: eq_concat_rule_def)
    qed
  qed
qed

end
