(* ===== verification/TermCmp.thy ===== *)
theory TermCmp
  imports TermPairs
begin

text \<open>
  The rest of \<open>==\<close>, and \<open>ule\<close>; then the knot is tied: the promises hold of all builders at once.
\<close>

section \<open>Shared facts\<close>

lemma rule_ok_if: "rule_ok P (if c then m else k) \<longleftrightarrow> (c \<longrightarrow> rule_ok P m) \<and> (\<not> c \<longrightarrow> rule_ok P k)"
  by simp

lemma bvsext_inj: "wf_bv a \<Longrightarrow> wf_bv b \<Longrightarrow> bits a = bits b \<Longrightarrow> bvsext a n = bvsext b n \<longleftrightarrow> a = b"
  using sval_bvsext [of a n] sval_bvsext [of b n] bv_eq_sval by metis

lemma bvsext_zero: "0 < w \<Longrightarrow> bvsext (mk w 0) n = mk (w + n) 0"
  by (simp add: bvsext_def sval_def bv_eq_iff)

lemma isSignExt_wt: "isSignExt x = Some a \<Longrightarrow> wt x \<Longrightarrow> \<exists>n. x = App (OP_SIGN_EXT n) [a]"
  by (auto simp: isSignExt_Some split: list.splits)

lemma urem_less: "wf_bv a \<Longrightarrow> wf_bv b \<Longrightarrow> uval b \<noteq> 0 \<Longrightarrow> uval (bvurem a b) < uval b"
proof -
  assume "wf_bv a" "wf_bv b" "uval b \<noteq> 0"
  then have "0 < uval b" using wf_bvD(2) [of b] by simp
  then have "0 \<le> uval a mod uval b" "uval a mod uval b < uval b" by simp_all
  then show ?thesis
    using take_bit_int_less_eq_self_iff [of "bits a" "uval a mod uval b"] by (simp add: bvurem_def)
qed

section \<open>Conditionals\<close>

lemma wt_ite:
  "wt (App OP_ITE as) \<Longrightarrow>
     \<exists>c t e. as = [c, t, e] \<and> formula c \<and> wt t \<and> wt e \<and> sort_of t = sort_of e \<and> sort_of (App OP_ITE as) = sort_of t"
  by (auto simp: formula_def split: list.splits)

lemma isIf_wt: "isIf x = Some (c, t, e) \<Longrightarrow> wt x \<Longrightarrow> x = App OP_ITE [c, t, e]"
  by (auto simp: recognised split: list.splits)

lemma eq_same_arms_ok:
  assumes "calls_ok B N" "wt x" "wt y" "sort_of x = sort_of y" "4 * (weight x + weight y) \<le> N"
    and x: "x = App OP_ITE [c, t, e]" and y: "y = App OP_ITE [c2, t, e]"
    and te: "t \<noteq> e" "isConst t" "isConst e"
  shows "yields (eq_spec x y) (b_eq B c c2)"
proof -
  have f: "formula c" "formula c2" "sort_of t = sort_of e"
    using wt_ite [of "[c, t, e]"] wt_ite [of "[c2, t, e]"] assms(2,3) x y by auto
  have "yields (eq_spec c c2) (b_eq B c c2)"
    by (rule calls_okD(4) [OF assms(1)]) (use f assms(5) x y turns_le [of c c2] in \<open>auto simp: formula_def\<close>)
  then show ?thesis
  proof (rule yields_mono)
    fix r assume "eq_spec c c2 r"
    note R = eq_specD [OF this]
    show "eq_spec x y r"
    proof (rule eq_specI [OF R(1)])
      fix \<rho> assume a: "adm \<rho> x" "adm \<rho> y"
      have cc: "adm \<rho> c" "adm \<rho> c2" using a x y adm_app by (metis list.set_intros(1))+
      show "adm \<rho> r" by (rule R(2) [OF cc])
      show "sat \<rho> r \<longleftrightarrow> eval \<rho> x = eval \<rho> y"
        using R(3) [OF cc] formula_eval [OF adm_ok [OF a(1)]] f const_differ [OF te(2,3,1) f(3), of \<rho>]
        by (auto simp: x y)
    qed
  qed
qed

lemma eq_split_ok:
  assumes "z3_folds Z" "calls_ok B N" "wt x" "wt y" "sort_of x = sort_of y" "4 * (weight x + weight y) \<le> N"
    and x: "x = App OP_ITE [c, t, e]"
  shows "rule_ok (eq_spec x y) (do { a \<leftarrow> b_eq B t y; b \<leftarrow> b_eq B e y; Some (Some (mkIf Z c a b)) })"
proof -
  have f: "formula c" "wt t" "wt e" "sort_of t = sort_of y" "sort_of e = sort_of y"
    using wt_ite [of "[c, t, e]"] assms(3,5) x by auto
  have "yields (eq_spec t y) (b_eq B t y)"
    by (rule calls_okD(4) [OF assms(2)]) (use f assms(4,6) x turns_le [of t y] in auto)
  moreover have "yields (eq_spec e y) (b_eq B e y)"
    by (rule calls_okD(4) [OF assms(2)]) (use f assms(4,6) x turns_le [of e y] in auto)
  moreover have "eq_spec x y (mkIf Z c a b)" if ab: "eq_spec t y a" "eq_spec e y b" for a b
  proof -
    note A = eq_specD [OF ab(1)] and B = eq_specD [OF ab(2)]
    have s: "wt a" "wt b" "sort_of a = BoolS" "sort_of b = BoolS"
      using A(1) B(1) by (auto simp: formula_def)
    have i: "is_ite c a b (mkIf Z c a b)" by (rule mkIf_sound [OF assms(1) f(1)]) (use s in auto)
    show ?thesis
    proof (rule eq_specI)
      show "formula (mkIf Z c a b)" using i s by (simp add: is_ite_def formula_def)
      fix \<rho> assume a: "adm \<rho> x" "adm \<rho> y"
      note ok = adm_ok [OF a(1)]
      have cte: "adm \<rho> c" "adm \<rho> t" "adm \<rho> e" using a(1) by (auto simp: x adm_def)
      show "adm \<rho> (mkIf Z c a b)"
        using nz_mkIf [OF assms(1) f(1) s(1,2), of \<rho>] s(3,4) cte(1) A(2) [OF cte(2) a(2)] B(2) [OF cte(3) a(2)]
        by (simp add: adm_def)
      show "sat \<rho> (mkIf Z c a b) \<longleftrightarrow> eval \<rho> x = eval \<rho> y"
        using i ok A(3) [OF cte(2) a(2)] B(3) [OF cte(3) a(2)]
        by (simp add: is_ite_def sat_def x split: if_splits)
    qed
  qed
  ultimately show ?thesis by (elim rule_ok_bind) (simp only: rule_ok_Some)
qed

lemma eq_ite_ok:
  assumes "z3_folds Z" "calls_ok B N" "wt x" "wt y" "sort_of x = sort_of y"
    "4 * (weight x + weight y) + turns x y \<le> N"
  shows "rule_ok (eq_spec x y) (eq_ite_rule Z B x y)"
proof (cases "isIf x")
  case None
  show ?thesis
  proof (cases "isAppOf OP_ITE y = None")
    case True
    then show ?thesis using None by (simp add: eq_ite_rule_def)
  next
    case False
    then obtain as where y: "y = App OP_ITE as" by (auto simp: isAppOf_Some)
    have "isIf y \<noteq> None" using wt_ite [of as] assms(4) y by (auto simp: isIf_def isTernaryOp_def isAppOf_def)
    then have "turns y x = 0" "turns x y = 1"
      using None y False by (auto simp: turns_def isConst_def)
    then have "yields (eq_spec y x) (b_eq B y x)"
      by (intro calls_okD(4) [OF assms(2)]) (use assms(3-6) in auto)
    then have "yields (eq_spec x y) (b_eq B y x)" by (rule yields_mono) (simp add: eq_spec_sym)
    then show ?thesis using None False by (simp add: eq_ite_rule_def rule_ok_fires)
  qed
next
  case (Some p)
  then obtain c t e where i: "isIf x = Some (c, t, e)" by (cases p) auto
  then have x: "x = App OP_ITE [c, t, e]" by (rule isIf_wt [OF _ assms(3)])
  have le: "4 * (weight x + weight y) \<le> N" using assms(6) by simp
  let ?r = "case isIf y of
             Some (c2, t2, e2) \<Rightarrow>
               if t = t2 \<and> e = e2 \<and> t \<noteq> e \<and> isConst t \<and> isConst e then fires (b_eq B c c2)
               else passes
           | None \<Rightarrow> passes"
  have r: "rule_ok (eq_spec x y) ?r"
  proof (cases "\<exists>c2. isIf y = Some (c2, t, e) \<and> t \<noteq> e \<and> isConst t \<and> isConst e")
    case False
    then show ?thesis by (auto split: option.splits)
  next
    case True
    then obtain c2 where j: "isIf y = Some (c2, t, e)" and te: "t \<noteq> e" "isConst t" "isConst e" by blast
    then have y: "y = App OP_ITE [c2, t, e]" by (intro isIf_wt assms(4))
    show ?thesis using eq_same_arms_ok [OF assms(2-5) le x y te] j te by (simp add: rule_ok_fires)
  qed
  note s = eq_split_ok [OF assms(1-5) le x]
  show ?thesis unfolding eq_ite_rule_def i option.case prod.case
    by (rule rule_ok_bind [OF r [unfolded rule_ok_def]]) (use s in \<open>auto split: option.splits\<close>)
qed

section \<open>Arithmetic\<close>

definition ult_spec :: "tm \<Rightarrow> tm \<Rightarrow> tm \<Rightarrow> bool" where
  "ult_spec x y r \<longleftrightarrow> formula r \<and>
     (\<forall>\<rho>. adm \<rho> x \<and> adm \<rho> y \<longrightarrow> (sat \<rho> r \<longleftrightarrow> uval (bv_of \<rho> x) < uval (bv_of \<rho> y)))"

lemma t_ult_ok:
  assumes "calls_ok B N" "bvterm w x" "bvterm w y" "4 * (weight x + weight y) + 2 < N"
  shows "yields (ult_spec x y) (t_ult B x y)"
proof (cases "isUInt y")
  case None
  have "yields (ule_spec y x) (b_ule B y x)"
    by (rule calls_okD(5) [OF assms(1,3,2)]) (use assms(4) in auto)
  then have "yields (ult_spec x y) (map_option t_not (b_ule B y x))"
    by (intro yields_map, elim yields_mono) (auto simp: ule_spec_def ult_spec_def bvule_def not_le)
  then show ?thesis using None by (simp add: t_ult_def)
next
  case (Some n)
  then have y: "y = Num w n" using assms(3) by (auto simp: isUInt_Some bvterm_def)
  have n: "0 \<le> n" "n < 2 ^ w" "0 < w" using assms(3) y by (auto simp: bvterm_def)
  show ?thesis
  proof (cases "n = 0")
    case True
    have "\<not> uval (bv_of \<rho> x) < 0" if "adm \<rho> x" for \<rho>
      using wf_bvD(2) bvterm_wf(1) [OF adm_ok [OF that] assms(2)] by (meson not_le)
    then show ?thesis using Some y True by (auto simp: t_ult_def ult_spec_def bv_of_def)
  next
    case False
    then have m: "take_bit w (n - 1) = n - 1" using n by (simp add: take_bit_int_eq_self)
    have v: "uval (bv_of \<rho> y) = n" for \<rho> by (simp add: y bv_of_def)
    have "yields (ule_spec x (mkUInt (n - 1) w)) (b_ule B x (mkUInt (n - 1) w))"
      by (rule calls_okD(5) [OF assms(1,2)])
        (use assms(4) n in \<open>auto simp: isConst_simps(1) bvterm_def\<close>)
    then have "yields (ult_spec x y) (b_ule B x (mkUInt (n - 1) w))"
      by (rule yields_mono)
        (use m v in \<open>auto simp: ule_spec_def ult_spec_def bvule_def adm_const adm_ok\<close>)
    then show ?thesis using Some False bvtermD(1) [OF assms(2)] by (simp add: t_ult_def)
  qed
qed

lemma add_nonneg_ge:
  assumes "wf_bv a" "wf_bv b" "bits a = bits b" "\<not> isNegative a" "\<not> isNegative b"
  shows "uval (bvadd a b) = uval a + uval b"
proof -
  have "uval a < 2 ^ (bits a - 1)" "uval b < 2 ^ (bits a - 1)"
    using assms by (auto simp: isNegative_iff sval_neg_iff)
  then have "uval a + uval b < 2 * 2 ^ (bits a - 1)" by simp
  also have "\<dots> = 2 ^ bits a" using wf_bvD(1) [OF assms(1)] by (simp flip: power_Suc)
  finally show ?thesis using wf_bvD(2) [OF assms(1)] wf_bvD(2) [OF assms(2)]
    by (simp add: bvadd_def take_bit_int_eq_self)
qed

lemma eq_add_ok:
  assumes "calls_ok B N" "wt x" "wt y" "sort_of x = sort_of y" "4 * (weight x + weight y) \<le> N"
  shows "rule_ok (eq_spec x y) (eq_add_rule B x y)"
proof (cases "isAdd x")
  case None
  then show ?thesis by (simp add: eq_add_rule_def)
next
  case (Some p)
  then obtain a b where i: "isAdd x = Some (a, b)" and x: "x = App OP_BADD [a, b]"
    by (cases p) (auto simp: recognised)
  then obtain w where t: "bvterm w x" "bvterm w y" "bvterm w a" "bvterm w b"
    using assms(2-4) bvterm_nary [of OP_BADD _ "[a, b]"] by (auto simp: bvterm_def sort_is_bv)
  have low: "eq_spec x y (TBool False)"
    if na: "\<And>\<rho>. adm \<rho> a \<Longrightarrow> \<not> isNegative (bv_of \<rho> a)" and nb: "\<And>\<rho>. adm \<rho> b \<Longrightarrow> \<not> isNegative (bv_of \<rho> b)"
      and u: "\<And>\<rho>. adm \<rho> y \<Longrightarrow> adm \<rho> a \<Longrightarrow> adm \<rho> b \<Longrightarrow>
         uval (bv_of \<rho> y) < uval (bv_of \<rho> a) \<or> uval (bv_of \<rho> y) < uval (bv_of \<rho> b)"
  proof (rule eq_spec_false)
    fix \<rho> assume ad: "adm \<rho> x" "adm \<rho> y"
    note ok = adm_ok [OF ad(1)]
    have ab: "adm \<rho> a" "adm \<rho> b" using ad(1) by (auto simp: x adm_def)
    have wf: "wf_bv (bv_of \<rho> a)" "wf_bv (bv_of \<rho> b)" "bits (bv_of \<rho> a) = bits (bv_of \<rho> b)"
      using bvterm_wf [OF ok] t by auto
    have "uval (bv_of \<rho> x) = uval (bv_of \<rho> a) + uval (bv_of \<rho> b)"
      using add_nonneg_ge [OF wf na [OF ab(1)] nb [OF ab(2)]] by (simp add: x)
    then have "bv_of \<rho> x \<noteq> bv_of \<rho> y"
      using u [OF ad(2) ab] wf_bvD(2) [OF wf(1)] wf_bvD(2) [OF wf(2)] by auto
    then show "eval \<rho> x \<noteq> eval \<rho> y" using eval_eq_bv [OF ok t(1,2)] by simp
  qed
  have N: "4 * weight a + 5 < N" "4 * weight b + 5 < N" "4 * (weight y + weight a) + 2 < N"
    "4 * (weight y + weight b) + 2 < N" using assms(5) by (auto simp: x)
  show ?thesis unfolding eq_add_rule_def i option.case prod.case
  proof (rule rule_ok_bind [OF t_isNegative_ok [OF assms(1) t(3) N(1)]], unfold rule_ok_if, intro conjI impI)
    fix na assume na: "formula na \<and> (\<forall>\<rho>. adm \<rho> a \<longrightarrow> (sat \<rho> na \<longleftrightarrow> isNegative (bv_of \<rho> a)))"
    assume "\<not> \<not> isFalse na"
    then have na': "\<And>\<rho>. adm \<rho> a \<Longrightarrow> \<not> isNegative (bv_of \<rho> a)" using na by (auto simp: isFalse_def)
    show "rule_ok (eq_spec x y) (t_isNegative B b \<bind> (\<lambda>nb. if \<not> isFalse nb then passes
       else t_ult B y a \<bind> (\<lambda>u. if isTrue u then Some (Some (TBool False))
         else t_ult B y b \<bind> (\<lambda>v. if isTrue v then Some (Some (TBool False)) else passes))))"
    proof (rule rule_ok_bind [OF t_isNegative_ok [OF assms(1) t(4) N(2)]], unfold rule_ok_if, intro conjI impI)
      fix nb assume nb: "formula nb \<and> (\<forall>\<rho>. adm \<rho> b \<longrightarrow> (sat \<rho> nb \<longleftrightarrow> isNegative (bv_of \<rho> b)))"
      assume "\<not> \<not> isFalse nb"
      then have nb': "\<And>\<rho>. adm \<rho> b \<Longrightarrow> \<not> isNegative (bv_of \<rho> b)" using nb by (auto simp: isFalse_def)
      note low = low [OF na' nb']
      show "rule_ok (eq_spec x y) (t_ult B y a \<bind> (\<lambda>u. if isTrue u then Some (Some (TBool False))
         else t_ult B y b \<bind> (\<lambda>v. if isTrue v then Some (Some (TBool False)) else passes)))"
      proof (rule rule_ok_bind [OF t_ult_ok [OF assms(1) t(2,3) N(3)]], unfold rule_ok_if, intro conjI impI)
        show "rule_ok (eq_spec x y) (Some (Some (TBool False)))" if "ult_spec y a u" "isTrue u" for u
          using low that by (auto simp: ult_spec_def isTrue_def)
        show "rule_ok (eq_spec x y)
          (t_ult B y b \<bind> (\<lambda>v. if isTrue v then Some (Some (TBool False)) else passes))"
          by (rule rule_ok_bind [OF t_ult_ok [OF assms(1) t(2,4) N(4)]])
            (use low in \<open>auto simp: ult_spec_def isTrue_def\<close>)
      qed
    qed simp
  qed simp
qed

lemma eq_urem_ok:
  assumes "calls_ok B N" "wt x" "wt y" "sort_of x = sort_of y" "4 * (weight x + weight y) \<le> N"
  shows "rule_ok (eq_spec x y) (eq_urem_rule B x y)"
proof (cases "isURem x")
  case None
  then show ?thesis by (simp add: eq_urem_rule_def)
next
  case (Some p)
  then obtain a b where i: "isURem x = Some (a, b)" and x: "x = App OP_BUREM [a, b]"
    by (cases p) (auto simp: recognised)
  then obtain w where t: "bvterm w x" "bvterm w y" "bvterm w a" "bvterm w b"
    using assms(2-4) bvterm_two [of OP_BUREM _ "[a, b]"] by (auto simp: bvterm_def sort_is_bv)
  have "yields (ule_spec b y) (b_ule B b y)"
    by (rule calls_okD(5) [OF assms(1) t(4,2)]) (use assms(5) in \<open>simp add: x\<close>)
  moreover have "eq_spec x y (TBool False)" if u: "ule_spec b y u" "isTrue u" for u
  proof (rule eq_spec_false)
    fix \<rho> assume ad: "adm \<rho> x" "adm \<rho> y"
    note ok = adm_ok [OF ad(1)]
    have b: "adm \<rho> b" "uval (bv_of \<rho> b) \<noteq> 0" using ad(1) by (auto simp: x adm_def)
    have "uval (bv_of \<rho> b) \<le> uval (bv_of \<rho> y)" using u b(1) ad(2) by (auto simp: ule_spec_def isTrue_def bvule_def)
    moreover have "uval (bv_of \<rho> x) < uval (bv_of \<rho> b)"
      using urem_less [OF bvterm_wf(1) [OF ok t(3)] bvterm_wf(1) [OF ok t(4)] b(2)] by (simp add: x)
    ultimately show "eval \<rho> x \<noteq> eval \<rho> y" using eval_eq_bv [OF ok t(1,2)] by auto
  qed
  ultimately show ?thesis unfolding eq_urem_rule_def i option.case prod.case t_uge_def
    by (auto intro: rule_ok_bind)
qed

lemma eq_sext_ok:
  assumes "calls_ok B N" "wt x" "wt y" "sort_of x = sort_of y" "4 * (weight x + weight y) \<le> N"
  shows "rule_ok (eq_spec x y) (eq_sext_rule B x y)"
proof (cases "isSignExt x")
  case None
  then show ?thesis by (simp add: eq_sext_rule_def)
next
  case (Some a)
  then obtain n where x: "x = App (OP_SIGN_EXT n) [a]" using isSignExt_wt assms(2) by blast
  then obtain w v where t: "bvterm w x" "bvterm w y" "bvterm v a" "w = v + n"
    using assms(2-4) bvterm_sext [of _ n "[a]"] by (auto simp: bvterm_def sort_is_bv)
  have fire: "yields (eq_spec x y) (b_eq B a b)"
    if b: "bvterm v b" "weight b \<le> weight y" "\<And>\<rho>. adm \<rho> y \<Longrightarrow> adm \<rho> b \<and> bv_of \<rho> y = bvsext (bv_of \<rho> b) n" for b
  proof -
    have "yields (eq_spec a b) (b_eq B a b)"
      by (rule calls_okD(4) [OF assms(1)])
        (use t(3) b(1,2) assms(5) turns_le [of a b] in \<open>auto simp: bvterm_def x\<close>)
    then show ?thesis
    proof (rule yields_mono)
      fix r assume "eq_spec a b r"
      note R = eq_specD [OF this]
      show "eq_spec x y r"
      proof (rule eq_specI [OF R(1)])
        fix \<rho> assume ad: "adm \<rho> x" "adm \<rho> y"
        note ok = adm_ok [OF ad(1)]
        have ab: "adm \<rho> a" "adm \<rho> b" using ad b(3) by (auto simp: x adm_def)
        show "adm \<rho> r" by (rule R(2) [OF ab])
        have wf: "wf_bv (bv_of \<rho> a)" "wf_bv (bv_of \<rho> b)" "bits (bv_of \<rho> a) = bits (bv_of \<rho> b)"
          using bvterm_wf [OF ok] t(3) b(1) by auto
        have "bv_of \<rho> x = bv_of \<rho> y \<longleftrightarrow> bv_of \<rho> a = bv_of \<rho> b"
          using bvsext_inj [OF wf] b(3) [OF ad(2)] by (simp add: x)
        then show "sat \<rho> r \<longleftrightarrow> eval \<rho> x = eval \<rho> y"
          using R(3) [OF ab] eval_eq_bv [OF ok t(1,2)] eval_eq_bv [OF ok t(3) b(1)] by simp
      qed
    qed
  qed
  have zero: "rule_ok (eq_spec x y) (if isZero y then fires (b_eq B a (mkUInt 0 (bits_of a))) else passes)"
  proof (cases "isZero y")
    case True
    then have y: "y = Num w 0" using t(2) by (auto simp: isZero_iff bvterm_def)
    have "yields (eq_spec x y) (b_eq B a (mkUInt 0 v))"
    proof (rule fire)
      show "bvterm v (mkUInt 0 v)" using bvtermD(2) [OF t(3)] by (simp add: bvterm_def)
      show "weight (mkUInt 0 v) \<le> weight y" by (simp add: isConst_simps(1))
      show "adm \<rho> (mkUInt 0 v) \<and> bv_of \<rho> y = bvsext (bv_of \<rho> (mkUInt 0 v)) n" if "adm \<rho> y" for \<rho>
        using adm_ok [OF that] bvsext_zero [OF bvtermD(2) [OF t(3)], of n] t(4)
        by (simp add: adm_const y) (simp add: bv_of_def mk_def)
    qed
    then show ?thesis using True bvtermD(1) [OF t(3)] by (simp add: rule_ok_fires)
  qed simp
  show ?thesis
  proof (cases "\<exists>b. isSignExt y = Some b \<and> bits_of a = bits_of b")
    case False
    then show ?thesis using Some zero by (auto simp: eq_sext_rule_def split: option.splits)
  next
    case True
    then obtain b m where y: "isSignExt y = Some b" "y = App (OP_SIGN_EXT m) [b]" "bits_of a = bits_of b"
      using isSignExt_wt assms(3) by blast
    then have b: "bvterm v b" "m = n" using t bvtermD(1) [OF t(3)] bvterm_sext [of w m "[b]"] bvtermD(1) [of _ b] by auto
    have "yields (eq_spec x y) (b_eq B a b)"
      by (rule fire [OF b(1)]) (use y b in \<open>auto simp: adm_def\<close>)
    then show ?thesis using Some y by (simp add: eq_sext_rule_def rule_ok_fires)
  qed
qed

end
