(* ===== verification/TermBuild.thy ===== *)
theory TermBuild
  imports TermCmp
begin

text \<open>
  \<open>==\<close> and \<open>ule\<close> as a whole, and the theorem about all builders: \<open>builders Z n\<close> keeps every
  promise for operands whose weight is below \<open>n / 4\<close>.
\<close>

section \<open>Equality and unsigned comparison\<close>

lemma eq_node:
  assumes "z3_folds Z" "wt x" "wt y" "sort_of x = sort_of y"
  shows "eq_spec x y (binop_commutative2 Z OP_EQ x y)"
proof -
  have node: "eq_spec a b (binop_fold Z OP_EQ a b)" if "wt a" "wt b" "sort_of a = sort_of b" for a b
  proof -
    have wt: "wt (App OP_EQ [a, b])" using that by simp
    note S = simplify_const_sound [OF assms(1) wt]
    show ?thesis unfolding binop_fold_def
    proof (rule eq_specI)
      show "formula (simplify_const Z (App OP_EQ [a, b]) [a, b])" using S(1,2) by (simp add: formula_def)
      fix \<rho> assume "adm \<rho> a" "adm \<rho> b"
      then show "adm \<rho> (simplify_const Z (App OP_EQ [a, b]) [a, b])"
        using nz_simplify_const [OF assms(1) wt, of \<rho>] by (simp add: adm_def)
      show "sat \<rho> (simplify_const Z (App OP_EQ [a, b]) [a, b]) \<longleftrightarrow> eval \<rho> a = eval \<rho> b"
        using S(3) by (simp add: sat_def)
    qed
  qed
  show ?thesis using node [of x y] node [of y x] assms(2-4)
    by (auto simp: binop_commutative2_def Let_def eq_spec_sym)
qed

lemma cmp_eq_body_ok:
  assumes "z3_folds Z" "calls_ok B N" "wt x" "wt y" "sort_of x = sort_of y"
    "4 * (weight x + weight y) + turns x y \<le> N"
  shows "yields (eq_spec x y) (cmp_eq_body Z B x y)"
proof -
  have le: "4 * (weight x + weight y) \<le> N" using assms(6) by simp
  consider (same) "x = y" | (lits) "x \<noteq> y" "isConst x" "isConst y" | (turn) "isConst x" "\<not> isConst y"
    | (bool) b where "\<not> isConst x" "x \<noteq> y" "y = TBool b"
    | (rules) "x \<noteq> y" "\<not> isConst x" "\<not> isTrue y" "\<not> isFalse y"
    by (auto simp: isTrue_def isFalse_def)
  then show ?thesis
  proof cases
    case same
    then show ?thesis by (auto simp: cmp_eq_body_def eq_spec_def adm_def)
  next
    case lits
    then have "eq_spec x y (TBool False)" by (intro eq_spec_false const_differ assms(5))
    then show ?thesis using lits by (simp add: cmp_eq_body_def)
  next
    case turn
    have "turns x y = 1" "turns y x = 0" using turn by (auto simp: turns_def isAppOf_def isConst_cases)
    then have "yields (eq_spec y x) (b_eq B y x)"
      by (intro calls_okD(4) [OF assms(2)]) (use assms(3-6) in auto)
    moreover have "eq_spec y x = eq_spec x y" by (rule ext) (rule eq_spec_sym)
    ultimately show ?thesis using turn by (auto simp: cmp_eq_body_def)
  next
    case (bool b)
    then have f: "formula x" using assms(3,5) by (simp add: formula_def)
    have "adm \<rho> (t_not x)" if "adm \<rho> x" for \<rho> using that nz_t_not by (simp add: adm_def)
    then have "eq_spec x y (if b then x else t_not x)"
      using f bool formula_eval [OF adm_ok f] by (auto simp: eq_spec_def)
    then show ?thesis using bool by (auto simp: cmp_eq_body_def isTrue_def isFalse_def)
  next
    case rules
    have "yields (eq_spec x y)
       (attempt (eq_bits_rule B x y) (attempt (eq_offset_rule x y) (attempt (eq_concat_rule Z B x y)
       (attempt (eq_ite_rule Z B x y) (attempt (eq_add_rule B x y) (attempt (eq_urem_rule B x y)
       (attempt (eq_sext_rule B x y) (Some (binop_commutative2 Z OP_EQ x y)))))))))"
      by (intro attempt_ok eq_bits_ok [OF assms(2-4) le] eq_offset_ok [OF assms(3-5)]
          eq_concat_ok [OF assms(2-5) le] eq_ite_ok [OF assms] eq_add_ok [OF assms(2-5) le]
          eq_urem_ok [OF assms(2-5) le] eq_sext_ok [OF assms(2-5) le])
        (simp add: eq_node [OF assms(1,3-5)])
    then show ?thesis using rules by (simp add: cmp_eq_body_def)
  qed
qed

lemma ule_node:
  assumes "z3_folds Z" "bvterm w x" "bvterm w y"
  shows "ule_spec x y (binop_fold Z OP_ULEQ x y)"
proof -
  have wt: "wt (App OP_ULEQ [x, y])" using assms(2,3) bvtermD(2) [OF assms(2)]
    by (auto simp: bvterm_def is_bv_def)
  note S = simplify_const_sound [OF assms(1) wt]
  have "adm \<rho> (binop_fold Z OP_ULEQ x y)" if "adm \<rho> x" "adm \<rho> y" for \<rho>
    using nz_simplify_const [OF assms(1) wt, of \<rho>] that by (simp add: adm_def binop_fold_def)
  moreover have "sat \<rho> (binop_fold Z OP_ULEQ x y) \<longleftrightarrow> bvule (bv_of \<rho> x) (bv_of \<rho> y)" for \<rho>
    using S(3) by (simp add: sat_def bv_of_def binop_fold_def)
  ultimately show ?thesis using S(1,2) by (simp add: ule_spec_def formula_def binop_fold_def)
qed

lemma ule_zeros_ones:
  assumes "model_ok \<rho>" "bvterm w x" "bvterm w y" "w \<le> min_leading_zeros_tm x + min_trailing_ones y"
  shows "bvule (bv_of \<rho> x) (bv_of \<rho> y)"
proof -
  have x: "uval (bv_of \<rho> x) < 2 ^ (w - min_leading_zeros_tm x)" "min_leading_zeros_tm x \<le> w"
    using min_leading_zeros_sound [OF assms(1)] assms(2) by (auto simp: bvterm_def)
  have y: "2 ^ min_trailing_ones y \<le> uval (bv_of \<rho> y) + 1"
  proof (cases "isUInt y")
    case None
    then show ?thesis using wf_bvD(2) [OF bvterm_wf(1) [OF assms(1,3)]] by (simp add: min_trailing_ones_def)
  next
    case (Some n)
    then have "y = Num w n" "0 \<le> n" using assms(3) by (auto simp: isUInt_Some bvterm_def)
    then show ?thesis using Some std_countr_one_le [of n] by (simp add: min_trailing_ones_def bv_of_def)
  qed
  have "(2::int) ^ (w - min_leading_zeros_tm x) \<le> 2 ^ min_trailing_ones y"
    using assms(4) by (intro power_increasing) auto
  then show ?thesis unfolding bvule_def using x(1) y by linarith
qed

lemma bv_of_range:
  assumes "adm \<rho> e" "bvterm w e"
  shows "0 \<le> uval (bv_of \<rho> e)" "uval (bv_of \<rho> e) \<le> 2 ^ w - 1" "bits (bv_of \<rho> e) = w"
  using wf_bvD(2,3) [OF bvterm_wf(1) [OF adm_ok [OF assms(1)] assms(2)]]
    bvterm_wf(2) [OF adm_ok [OF assms(1)] assms(2)] by auto

lemma bv_of_extreme:
  assumes "bvterm w e"
  shows "isZero e \<Longrightarrow> uval (bv_of \<rho> e) = 0" "isAllOnes e \<Longrightarrow> uval (bv_of \<rho> e) = 2 ^ w - 1"
  using assms by (auto simp: isZero_iff isAllOnes_iff bvterm_def bv_of_def)

lemma ule_extreme:
  assumes "adm \<rho> x" "adm \<rho> y" "bvterm w x" "bvterm w y"
  shows "isZero x \<or> isAllOnes y \<Longrightarrow> bvule (bv_of \<rho> x) (bv_of \<rho> y)"
    and "isZero y \<or> isAllOnes x \<Longrightarrow> bvule (bv_of \<rho> x) (bv_of \<rho> y) \<longleftrightarrow> bv_of \<rho> x = bv_of \<rho> y"
proof -
  note x = bv_of_range [OF assms(1,3)] and y = bv_of_range [OF assms(2,4)]
  show "isZero x \<or> isAllOnes y \<Longrightarrow> bvule (bv_of \<rho> x) (bv_of \<rho> y)"
    unfolding bvule_def using x y bv_of_extreme(1) [OF assms(3), of \<rho>] bv_of_extreme(2) [OF assms(4), of \<rho>]
    by fastforce
  have "uval (bv_of \<rho> y) \<le> uval (bv_of \<rho> x)" if "isZero y \<or> isAllOnes x"
    using x y bv_of_extreme(1) [OF assms(4), of \<rho>] bv_of_extreme(2) [OF assms(3), of \<rho>] that by fastforce
  then show "isZero y \<or> isAllOnes x \<Longrightarrow> bvule (bv_of \<rho> x) (bv_of \<rho> y) \<longleftrightarrow> bv_of \<rho> x = bv_of \<rho> y"
    using x(3) y(3) by (auto simp: bvule_def bv_eq_iff)
qed

lemma ule_body_ok:
  assumes "z3_folds Z" "calls_ok B N" "bvterm w x" "bvterm w y" "4 * (weight x + weight y) + 2 \<le> N"
  shows "yields (ule_spec x y) (ule_body Z B x y)"
proof -
  note E = ule_extreme [OF _ _ assms(3,4)]
  have always: "ule_spec x y (TBool True)"
    if "\<And>\<rho>. adm \<rho> x \<Longrightarrow> adm \<rho> y \<Longrightarrow> bvule (bv_of \<rho> x) (bv_of \<rho> y)"
    using that by (auto simp: ule_spec_def adm_def)
  let ?t = "x = y \<or> isZero x \<or> isAllOnes y" and ?e = "isZero y \<or> isAllOnes x"
  let ?b = "bits_of x \<le> min_leading_zeros_tm x + min_trailing_ones y"
  consider (true) "?t" | (eq) "\<not> ?t" "?e" | (zeros) "\<not> ?t" "\<not> ?e" "?b" | (node) "\<not> ?t" "\<not> ?e" "\<not> ?b"
    by blast
  then show ?thesis
  proof cases
    case true
    have "bvule (bv_of \<rho> x) (bv_of \<rho> y)" if "adm \<rho> x" "adm \<rho> y" for \<rho>
      using true E(1) [OF that] by (auto simp: bvule_def)
    then show ?thesis unfolding ule_body_def if_P [OF true] yields_Some by (rule always)
  next
    case eq
    have "yields (eq_spec x y) (b_eq B x y)"
      by (rule calls_okD(4) [OF assms(2)]) (use assms(3-5) turns_le [of x y] in \<open>auto simp: bvterm_def\<close>)
    then show ?thesis unfolding ule_body_def if_not_P [OF eq(1)] if_P [OF eq(2)]
    proof (rule yields_mono)
      fix r assume "eq_spec x y r"
      note R = eq_specD [OF this]
      show "ule_spec x y r" unfolding ule_spec_def
      proof (intro conjI R(1) allI impI)
        fix \<rho> assume a: "adm \<rho> x \<and> adm \<rho> y"
        then show "adm \<rho> r" using R(2) by blast
        show "sat \<rho> r \<longleftrightarrow> bvule (bv_of \<rho> x) (bv_of \<rho> y)"
          using a R(3) [of \<rho>] E(2) [of \<rho>] eq(2) eval_eq_bv [OF adm_ok assms(3,4), of \<rho> x] by blast
      qed
    qed
  next
    case zeros
    show ?thesis unfolding ule_body_def if_not_P [OF zeros(1)] if_not_P [OF zeros(2)] if_P [OF zeros(3)] yields_Some
      by (rule always, rule ule_zeros_ones [OF adm_ok assms(3,4)])
        (use zeros(3) bvtermD(1) [OF assms(3)] in auto)
  next
    case node
    show ?thesis unfolding ule_body_def if_not_P [OF node(1)] if_not_P [OF node(2)] if_not_P [OF node(3)] yields_Some
      by (rule ule_node [OF assms(1,3,4)])
  qed
qed

section \<open>All builders\<close>

lemma calls_okI:
  assumes "\<And>e h l d w. bvterm w e \<Longrightarrow> l \<le> h \<Longrightarrow> h < w \<Longrightarrow> 4 * weight e < N \<Longrightarrow>
      yields (ext_spec e h l) (b_extract B e h l d)"
    and "\<And>x y w v. bvterm w x \<Longrightarrow> bvterm v y \<Longrightarrow> 4 * (weight x + weight y) + 1 < N \<Longrightarrow>
      yields (cat_spec x y) (b_concat B x y)"
    and "\<And>e n w. bvterm w e \<Longrightarrow> 4 * weight e + 6 < N \<Longrightarrow> yields (sext_spec e n) (b_sext B e n)"
    and "\<And>x y. wt x \<Longrightarrow> wt y \<Longrightarrow> sort_of x = sort_of y \<Longrightarrow> 4 * (weight x + weight y) + turns x y < N \<Longrightarrow>
      yields (eq_spec x y) (b_eq B x y)"
    and "\<And>x y w. bvterm w x \<Longrightarrow> bvterm w y \<Longrightarrow> 4 * (weight x + weight y) + 2 < N \<Longrightarrow>
      yields (ule_spec x y) (b_ule B x y)"
  shows "calls_ok B N"
  unfolding calls_ok_def by (intro conjI allI impI) (rule assms; assumption)+

lemma builders_ok: "z3_folds Z \<Longrightarrow> calls_ok (builders Z n) n"
proof (induction n)
  case 0
  then show ?case by (simp add: calls_ok_def)
next
  case (Suc n)
  note ih = Suc.IH [OF Suc.prems]
  let ?B = "builders Z (Suc n)"
  show ?case
  proof (rule calls_okI)
    show "yields (ext_spec e h l) (b_extract ?B e h l d)"
      if "bvterm w e" "l \<le> h" "h < w" "4 * weight e < Suc n" for e h l d w
      using extract_body_ok [OF Suc.prems ih that(1-3)] that(4) by simp
    show "yields (cat_spec x y) (b_concat ?B x y)"
      if "bvterm w x" "bvterm v y" "4 * (weight x + weight y) + 1 < Suc n" for x y w v
      using concat_body_ok [OF Suc.prems ih that(1,2)] that(3) by simp
    show "yields (sext_spec e m) (b_sext ?B e m)" if "bvterm w e" "4 * weight e + 6 < Suc n" for e m w
      using sext_body_ok [OF Suc.prems ih that(1)] that(2) by simp
    show "yields (eq_spec x y) (b_eq ?B x y)"
      if "wt x" "wt y" "sort_of x = sort_of y" "4 * (weight x + weight y) + turns x y < Suc n" for x y
      using cmp_eq_body_ok [OF Suc.prems ih that(1-3)] that(4) by simp
    show "yields (ule_spec x y) (b_ule ?B x y)"
      if "bvterm w x" "bvterm w y" "4 * (weight x + weight y) + 2 < Suc n" for x y w
      using ule_body_ok [OF Suc.prems ih that(1,2)] that(3) by simp
  qed
qed

section \<open>Properties\<close>

text \<open>
  Claim C22 (refinement). The five builders that call each other, \<open>extract\<close>, \<open>concat\<close>, \<open>sext\<close>,
  \<open>==\<close> and \<open>ule\<close>, always return, on operands of any shape, with no more nested calls than
  four times the weight of the operands plus eight; and the term they return, whichever rewrites
  fired, has the sort of the operation and its bit-vector value under every assignment that gives
  no remainder of the operands a zero divisor.
\<close>

theorem builders_correct:
  assumes "z3_folds Z" "bvterm w x" "bvterm w y" "bvterm v z" "l \<le> h" "h < w"
    and "4 * (weight x + weight y + weight z) + 8 \<le> n"
  defines "B \<equiv> builders Z n"
  shows "\<exists>e c s q u.
    b_extract B x h l depth = Some e \<and> b_concat B x z = Some c \<and> b_sext B x m = Some s \<and>
    b_eq B x y = Some q \<and> b_ule B x y = Some u \<and>
    bvterm (Suc h - l) e \<and> bvterm (w + v) c \<and> bvterm (w + m) s \<and> formula q \<and> formula u \<and>
    (\<forall>\<rho>. adm \<rho> x \<longrightarrow> adm \<rho> y \<longrightarrow> adm \<rho> z \<longrightarrow>
       bv_of \<rho> e = bvextract (bv_of \<rho> x) h l \<and> bv_of \<rho> c = bvconcat (bv_of \<rho> x) (bv_of \<rho> z) \<and>
       bv_of \<rho> s = bvsext (bv_of \<rho> x) m \<and> (sat \<rho> q \<longleftrightarrow> bv_of \<rho> x = bv_of \<rho> y) \<and>
       (sat \<rho> u \<longleftrightarrow> bvule (bv_of \<rho> x) (bv_of \<rho> y)))"
proof -
  note ok = calls_okD [OF builders_ok [OF assms(1), of n], folded B_def]
  have "yields (ext_spec x h l) (b_extract B x h l depth)"
    by (rule ok(1) [OF assms(2,5,6)]) (use assms(7) in simp)
  moreover have "yields (cat_spec x z) (b_concat B x z)"
    by (rule ok(2) [OF assms(2,4)]) (use assms(7) in simp)
  moreover have "yields (sext_spec x m) (b_sext B x m)"
    by (rule ok(3) [OF assms(2)]) (use assms(7) in simp)
  moreover have "yields (eq_spec x y) (b_eq B x y)"
    by (rule ok(4)) (use assms(2,3,7) turns_le [of x y] in \<open>auto simp: bvterm_def\<close>)
  moreover have "yields (ule_spec x y) (b_ule B x y)"
    by (rule ok(5) [OF assms(2,3)]) (use assms(7) in simp)
  ultimately obtain e c s q u where *: "b_extract B x h l depth = Some e" "b_concat B x z = Some c"
    "b_sext B x m = Some s" "b_eq B x y = Some q" "b_ule B x y = Some u" "ext_spec x h l e"
    "cat_spec x z c" "sext_spec x m s" "eq_spec x y q" "ule_spec x y u"
    by (auto simp: yields_def)
  note w = bvtermD(1) [OF assms(2)] bvtermD(1) [OF assms(4)]
  have "bv_of \<rho> e = bvextract (bv_of \<rho> x) h l \<and> bv_of \<rho> c = bvconcat (bv_of \<rho> x) (bv_of \<rho> z) \<and>
       bv_of \<rho> s = bvsext (bv_of \<rho> x) m \<and> (sat \<rho> q \<longleftrightarrow> bv_of \<rho> x = bv_of \<rho> y) \<and>
       (sat \<rho> u \<longleftrightarrow> bvule (bv_of \<rho> x) (bv_of \<rho> y))"
    if a: "adm \<rho> x" "adm \<rho> y" "adm \<rho> z" for \<rho>
    using *(6-10) a eval_eq_bv [OF adm_ok [OF a(1)] assms(2,3)]
    by (simp add: ext_spec_def cat_spec_def sext_spec_def eq_spec_def ule_spec_def)
  moreover have "bvterm (Suc h - l) e" "bvterm (w + v) c" "bvterm (w + m) s" "formula q" "formula u"
    using *(6-10) w by (auto simp: ext_spec_def cat_spec_def sext_spec_def eq_spec_def ule_spec_def)
  ultimately show ?thesis using *(1-5) by blast
qed

text \<open>
  A witness: the low half of a concatenation of a byte with zeros, compared with the byte.
\<close>

theorem builders_correct_witness:
  "\<exists>e c s q u.
    b_extract (builders z3_eval 16) (App OP_CONCAT [Num 8 0, Var ''b'' (BVS 8)]) 7 0 3 = Some e \<and>
    b_concat (builders z3_eval 16) (App OP_CONCAT [Num 8 0, Var ''b'' (BVS 8)]) (Var ''b'' (BVS 8)) = Some c \<and>
    b_sext (builders z3_eval 16) (App OP_CONCAT [Num 8 0, Var ''b'' (BVS 8)]) 16 = Some s \<and>
    b_eq (builders z3_eval 16) (App OP_CONCAT [Num 8 0, Var ''b'' (BVS 8)]) (Num 16 300) = Some q \<and>
    b_ule (builders z3_eval 16) (App OP_CONCAT [Num 8 0, Var ''b'' (BVS 8)]) (Num 16 300) = Some u \<and>
    bvterm 8 e \<and> bvterm 24 c \<and> bvterm 32 s \<and> formula q \<and> formula u \<and> e = Var ''b'' (BVS 8)"
proof -
  have "b_extract (builders Z (Suc (Suc n))) (App OP_CONCAT [Num 8 0, Var ''b'' (BVS 8)]) 7 0 3 =
      Some (Var ''b'' (BVS 8))" for Z n
    by (simp add: extract_body_def extract_extract_rule_def extract_sext_rule_def extract_ashr_rule_def
        extract_concat_rule_def attempt_def passes_def fires_def isExtract_def isSignExt_def isAShr_def
        isBinOp_def isConcat_def isAppOf_def bits_of_def)
  from this [of z3_eval 14]
  have "b_extract (builders z3_eval 16) (App OP_CONCAT [Num 8 0, Var ''b'' (BVS 8)]) 7 0 3 =
      Some (Var ''b'' (BVS 8))" by simp
  then show ?thesis
    using builders_correct [OF z3_folds_eval, of 16 "App OP_CONCAT [Num 8 0, Var ''b'' (BVS 8)]" "Num 16 300" 8
        "Var ''b'' (BVS 8)" 0 7 16 3 16]
    by (auto simp: bvterm_def is_bv_def)
qed

text \<open>
  C35 (error). The hypothesis on divisors is needed. For every term \<open>a\<close> and every variable \<open>b\<close> of its width the builder rewrites
  \<open>(a u% b) == b\<close> to false, but in SMT-LIB, where the remainder by zero is the dividend, the two sides have the same value
  exactly under the assignments that make both \<open>a\<close> and \<open>b\<close> zero.
\<close>

theorem urem_eq_divisor_false:
  assumes "bvterm w a"
  shows "b_eq (builders Z (Suc (Suc n))) (App OP_BUREM [a, Var b (BVS w)]) (Var b (BVS w)) = Some (TBool False) \<and>
    (\<forall>\<rho>. model_ok \<rho> \<longrightarrow>
       (eval \<rho> (App OP_BUREM [a, Var b (BVS w)]) = eval \<rho> (Var b (BVS w)) \<longleftrightarrow>
        uval (bv_of \<rho> a) = 0 \<and> uval (bv_of \<rho> (Var b (BVS w))) = 0))"
proof (intro conjI allI impI)
  show "b_eq (builders Z (Suc (Suc n))) (App OP_BUREM [a, Var b (BVS w)]) (Var b (BVS w)) = Some (TBool False)"
    by (simp add: cmp_eq_body_def eq_bits_rule_def eq_offset_rule_def eq_concat_rule_def eq_ite_rule_def
        eq_add_rule_def eq_urem_rule_def ule_body_def t_uge_def isBasePlusOffset_def attempt_def passes_def
        isEq_def isIf_def isAdd_def isURem_def isBinOp_def isTernaryOp_def isAppOf_def isConst_def
        isTrue_def isFalse_def)
next
  fix \<rho> assume ok: "model_ok \<rho>"
  let ?b = "Var b (BVS w)"
  have b: "bvterm w ?b" and u: "bvterm w (App OP_BUREM [a, ?b])" using assms bvtermD [OF assms] by (auto simp: bvterm_def is_bv_def)
  note wf = bvterm_wf [OF ok assms] bvterm_wf [OF ok b]
  have "bv_of \<rho> (App OP_BUREM [a, ?b]) = bv_of \<rho> ?b \<longleftrightarrow> uval (bv_of \<rho> a) = 0 \<and> uval (bv_of \<rho> ?b) = 0"
    using wf urem_less [OF wf(1) wf(3)] wf_bvD(4) [OF wf(1)]
    by (cases "uval (bv_of \<rho> ?b) = 0") (auto simp: bvurem_def bv_eq_iff)
  then show "eval \<rho> (App OP_BUREM [a, ?b]) = eval \<rho> ?b \<longleftrightarrow> uval (bv_of \<rho> a) = 0 \<and> uval (bv_of \<rho> ?b) = 0"
    using eval_eq_bv [OF ok u b] by simp
qed

text \<open>A witness: two variables that are zero.\<close>

theorem urem_eq_divisor_false_witness:
  "\<exists>\<rho>. model_ok \<rho> \<and> b_eq (builders z3_eval 2) (App OP_BUREM [Var ''a'' (BVS 8), Var ''b'' (BVS 8)]) (Var ''b'' (BVS 8)) = Some (TBool False) \<and>
     eval \<rho> (App OP_BUREM [Var ''a'' (BVS 8), Var ''b'' (BVS 8)]) = eval \<rho> (Var ''b'' (BVS 8))"
proof -
  let ?\<rho> = "\<lambda>x p s. case s of BoolS \<Rightarrow> VBool False | BVS w \<Rightarrow> VBv (mk w 0)"
  have ok: "model_ok ?\<rho>" by (auto simp: model_ok_def split: sort.splits)
  have z: "uval (bv_of ?\<rho> (Var x (BVS 8))) = 0" for x by (simp add: bv_of_def mk_def)
  have "bvterm 8 (Var ''a'' (BVS 8))" by (simp add: bvterm_def is_bv_def)
  from urem_eq_divisor_false [OF this, of z3_eval 0 "''b''"] show ?thesis
    unfolding numeral_2_eq_2 using ok z by metis
qed
end
