(* ===== verification/Aggregate.thy ===== *)
theory Aggregate
  imports BvBits "HOL-Library.Monad_Syntax"
begin

text \<open>
  Types and aggregate values of \<open>ir/type.cpp\<close>. A value is a bit-vector with its poison state: a Boolean for a
  scalar, a bit-vector with one bit per scalar element for an aggregate. Aggregates are
  concatenations; \<open>extract\<close> takes an element out, in the layout of values or in that of memory.
  \<^const>\<open>None\<close> stands for a failing assertion, an index out of range or an ill-sorted term.
\<close>

section \<open>Types\<close>

datatype fp_type = Half | Float | Double | Quad | BFloat

datatype agg_kind = ArrayK | VectorK | StructK

datatype ir_type =
    IntTy nat
  | FloatTy fp_type
  | PtrTy nat
  | AggTy agg_kind (children: "ir_type list") (is_padding: "bool list")

text \<open>The globals the layout depends on.\<close>

record layout =
  little_endian :: bool
  bits_poison_per_byte :: nat
  bits_byte :: nat
  pointer_bits :: nat
  bits_program_pointer :: nat

definition divide_up :: "nat \<Rightarrow> nat \<Rightarrow> nat" where
  "divide_up n amount = (n + amount - 1) div amount"

definition round_up_nat :: "nat \<Rightarrow> nat \<Rightarrow> nat" where
  "round_up_nat n amount = divide_up n amount * amount"

fun float_sizes :: "fp_type \<Rightarrow> nat \<times> nat" where
  "float_sizes Half = (16, 5)"
| "float_sizes Float = (32, 8)"
| "float_sizes Double = (64, 11)"
| "float_sizes Quad = (128, 15)"
| "float_sizes BFloat = (16, 8)"

definition expBits :: "fp_type \<Rightarrow> nat" where
  "expBits t = snd (float_sizes t)"

definition fractionBits :: "fp_type \<Rightarrow> nat" where
  "fractionBits t = fst (float_sizes t) - expBits t - 1"

fun ty_bits :: "layout \<Rightarrow> ir_type \<Rightarrow> nat" where
  "ty_bits L (IntTy w) = w"
| "ty_bits L (FloatTy t) = fst (float_sizes t)"
| "ty_bits L (PtrTy _) = pointer_bits L"
| "ty_bits L (AggTy k cs ps) = (if cs = [] then 1 else sum_list (map (ty_bits L) cs))"

definition scalar_np_bits :: "layout \<Rightarrow> ir_type \<Rightarrow> bool \<Rightarrow> nat" where
  "scalar_np_bits L t fromInt =
     (if \<not> fromInt then 1
      else min (ty_bits L t) (divide_up (ty_bits L t * bits_poison_per_byte L) (bits_byte L)))"

fun np_bits :: "layout \<Rightarrow> bool \<Rightarrow> ir_type \<Rightarrow> nat" where
  "np_bits L fromInt (IntTy w) = scalar_np_bits L (IntTy w) fromInt"
| "np_bits L fromInt (FloatTy t) = scalar_np_bits L (FloatTy t) fromInt"
| "np_bits L fromInt (PtrTy _) = 1"
| "np_bits L fromInt (AggTy k cs ps) = (if cs = [] then 1 else sum_list (map (np_bits L fromInt) cs))"

fun maxSubBitAccess :: "ir_type \<Rightarrow> nat" where
  "maxSubBitAccess (IntTy w) = (if w mod 8 \<noteq> 0 then w else 0)"
| "maxSubBitAccess (FloatTy _) = 0"
| "maxSubBitAccess (PtrTy _) = 0"
| "maxSubBitAccess (AggTy k cs ps) =
     (if k = VectorK then case map maxSubBitAccess cs of n # _ \<Rightarrow> length cs * n | [] \<Rightarrow> 0
      else fold max (map maxSubBitAccess cs) 0)"

fun isPtrType :: "ir_type \<Rightarrow> bool" where
  "isPtrType (PtrTy _) \<longleftrightarrow> True"
| "isPtrType _ \<longleftrightarrow> False"

fun isAggregateType :: "ir_type \<Rightarrow> bool" where
  "isAggregateType (AggTy _ _ _) \<longleftrightarrow> True"
| "isAggregateType _ \<longleftrightarrow> False"

definition ArrayType :: "nat \<Rightarrow> ir_type \<Rightarrow> ir_type option \<Rightarrow> ir_type" where
  "ArrayType elements elementTy paddingTy =
     (case paddingTy of
        Some p \<Rightarrow>
          AggTy ArrayK (map (\<lambda>i. if odd i then p else elementTy) [0..<elements * 2]) (map odd [0..<elements * 2])
      | None \<Rightarrow> AggTy ArrayK (replicate elements elementTy) (replicate elements False))"

definition VectorType :: "nat \<Rightarrow> ir_type \<Rightarrow> ir_type option" where
  "VectorType elements elementTy =
     (if elements \<noteq> 0 then Some (AggTy VectorK (replicate elements elementTy) (replicate elements False)) else None)"

definition StructType :: "ir_type list \<Rightarrow> bool list \<Rightarrow> ir_type option" where
  "StructType cs ps = (if length cs = length ps then Some (AggTy StructK cs ps) else None)"

definition countPaddings :: "ir_type \<Rightarrow> nat \<Rightarrow> nat" where
  "countPaddings t to_idx = length (filter (\<lambda>p. p) (take (Suc to_idx) (is_padding t)))"

definition numPaddingsConst :: "ir_type \<Rightarrow> nat" where
  "numPaddingsConst t = (if is_padding t = [] then 0 else countPaddings t (length (is_padding t) - 1))"

fun numPointerElements :: "ir_type \<Rightarrow> nat" where
  "numPointerElements (AggTy k cs ps) =
     sum_list (map (\<lambda>c. if isPtrType c then 1 else if isAggregateType c then numPointerElements c else 0) cs)"
| "numPointerElements _ = 0"

fun hasPtr :: "ir_type \<Rightarrow> bool" where
  "hasPtr (PtrTy _) \<longleftrightarrow> True"
| "hasPtr (AggTy k cs ps) \<longleftrightarrow> list_ex hasPtr cs"
| "hasPtr _ \<longleftrightarrow> False"

definition isNonPtrVector :: "ir_type \<Rightarrow> bool" where
  "isNonPtrVector t = (case t of AggTy VectorK cs ps \<Rightarrow> \<not> isPtrType (hd cs) | _ \<Rightarrow> False)"

definition gcd_step :: "nat \<Rightarrow> nat \<Rightarrow> nat" where
  "gcd_step ch val = (if ch = 0 then val else if val \<noteq> 0 then gcd val ch else ch)"

fun minVectorElemSize :: "layout \<Rightarrow> ir_type \<Rightarrow> nat" where
  "minVectorElemSize L (AggTy k cs ps) =
     (if k = VectorK then if isPtrType (hd cs) then bits_program_pointer L else ty_bits L (hd cs)
      else fold gcd_step (map (minVectorElemSize L) cs) 0)"
| "minVectorElemSize L _ = 0"

fun getCommonAccessSize :: "layout \<Rightarrow> ir_type \<Rightarrow> nat" where
  "getCommonAccessSize L (AggTy k cs ps) =
     (if k = VectorK \<and> \<not> isPtrType (hd cs) then divide_up (length cs * ty_bits L (hd cs)) 8
      else case map (getCommonAccessSize L) cs of [] \<Rightarrow> 1 | n # ns \<Rightarrow> fold (\<lambda>n sz. gcd sz n) ns n)"
| "getCommonAccessSize L (PtrTy _) = bits_program_pointer L div 8"
| "getCommonAccessSize L t = divide_up (ty_bits L t) 8"

section \<open>Values\<close>

datatype np = PBool bool | PBv bv

record agg_val =
  a_value :: bv
  a_np :: np

definition av :: "bv \<Rightarrow> np \<Rightarrow> agg_val" where
  "av v p = \<lparr>a_value = v, a_np = p\<rparr>"

fun np_concat :: "np \<Rightarrow> np \<Rightarrow> np option" where
  "np_concat (PBool a) (PBool b) = Some (PBool (a \<and> b))"
| "np_concat (PBv a) (PBv b) = Some (PBv (bvconcat a b))"
| "np_concat _ _ = None"

definition av_concat :: "agg_val \<Rightarrow> agg_val \<Rightarrow> agg_val option" where
  "av_concat a b = map_option (av (bvconcat (a_value a) (a_value b))) (np_concat (a_np a) (a_np b))"

fun toBV :: "ir_type \<Rightarrow> agg_val \<Rightarrow> agg_val option" where
  "toBV (AggTy k cs ps) v = Some v"
| "toBV t v = (case a_np v of PBool b \<Rightarrow> Some (av (a_value v) (PBv (toBVBool b))) | PBv _ \<Rightarrow> None)"

fun fromBV :: "ir_type \<Rightarrow> agg_val \<Rightarrow> agg_val option" where
  "fromBV (AggTy k cs ps) v = Some v"
| "fromBV t v = (case a_np v of PBv p \<Rightarrow> Some (av (a_value v) (PBool (p = mk (bits p) (- 1)))) | PBool _ \<Rightarrow> None)"

text \<open>
  The loop of \<open>aggregateVals\<close>. The value under construction is \<^const>\<open>None\<close> before its first element;
  the dummies of the elements fill the padding.
\<close>

fun agg_loop :: "layout \<Rightarrow> ir_type list \<Rightarrow> bool list \<Rightarrow> agg_val option list \<Rightarrow> agg_val list \<Rightarrow> agg_val option \<Rightarrow>
    agg_val option option" where
  "agg_loop L (c # cs) (p # ps) (d # ds) vals v =
     (if ty_bits L c = 0
      then if p then None else agg_loop L cs ps ds (tl vals) v
      else do {
        (vv, rest) \<leftarrow>
          (if p then do { vv \<leftarrow> d; Some (vv, vals) }
           else case vals of [] \<Rightarrow> None | x # xs \<Rightarrow> Some (x, xs));
        vv \<leftarrow> toBV c vv;
        v' \<leftarrow> (case v of None \<Rightarrow> Some vv | Some a \<Rightarrow> av_concat a vv);
        agg_loop L cs ps ds rest (Some v') })"
| "agg_loop L _ _ _ vals v = Some v"

definition aggregate_with :: "layout \<Rightarrow> ir_type list \<Rightarrow> bool list \<Rightarrow> agg_val option list \<Rightarrow> agg_val list \<Rightarrow> agg_val option" where
  "aggregate_with L cs ps ds vals =
     (if length vals + length (filter (\<lambda>p. p) ps) \<noteq> length cs then None
      else if cs = [] then Some (av (mk 1 0) (PBv (mk 1 0)))
      else do { v \<leftarrow> agg_loop L cs ps ds vals None; v })"

fun getDummyValue :: "layout \<Rightarrow> bool \<Rightarrow> ir_type \<Rightarrow> agg_val option" where
  "getDummyValue L b (AggTy k cs ps) = do {
     vals \<leftarrow> those (map fst (filter (\<lambda>(_, p). \<not> p) (zip (map (getDummyValue L b) cs) ps)));
     aggregate_with L cs ps (map (getDummyValue L False) cs) vals }"
| "getDummyValue L b t = Some (av (mk (ty_bits L t) 0) (PBool b))"

definition aggregateVals :: "layout \<Rightarrow> ir_type \<Rightarrow> agg_val list \<Rightarrow> agg_val option" where
  "aggregateVals L t vals =
     aggregate_with L (children t) (is_padding t) (map (getDummyValue L False) (children t)) vals"

text \<open>The extent of an element in the value, or in its poison bits: the high and the low bit.\<close>

definition extent :: "bool \<Rightarrow> nat list \<Rightarrow> nat \<Rightarrow> nat \<times> nat" where
  "extent low_first widths i =
     (let before = sum_list (take i widths) in
      if low_first then (before + widths ! i - 1, before)
      else let high = sum_list widths - before in (high - 1, high - widths ! i))"

definition scalar_fromInt :: "agg_val \<Rightarrow> agg_val" where
  "scalar_fromInt v = (case a_np v of PBool b \<Rightarrow> v | PBv p \<Rightarrow> av (a_value v) (PBool (p = mk (bits p) (- 1))))"

definition elem_slice :: "layout \<Rightarrow> ir_type \<Rightarrow> agg_val \<Rightarrow> nat \<Rightarrow> bool \<Rightarrow> agg_val option" where
  "elem_slice L t val index fromInt =
     (if index < length (children t)
      then case a_np val of
             PBool _ \<Rightarrow> None
           | PBv p \<Rightarrow>
               let low_first = fromInt \<and> little_endian L;
                   (h_val, l_val) = extent low_first (map (ty_bits L) (children t)) index;
                   (h_np, l_np) = extent low_first (map (np_bits L fromInt) (children t)) index
               in Some (av (bvextract (a_value val) h_val l_val) (PBv (bvextract p h_np l_np)))
      else None)"

lemma child_size: "i < length cs \<Longrightarrow> size (cs ! i :: ir_type) \<le> size_list size cs"
  using size_list_estimation' [of "cs ! i" cs "size (cs ! i)" size] by simp

function fromInt :: "layout \<Rightarrow> ir_type \<Rightarrow> agg_val \<Rightarrow> agg_val option" where
  "fromInt L (AggTy k cs ps) v = do {
     child_vals \<leftarrow> those (map (\<lambda>i. do { sv \<leftarrow> elem_slice L (AggTy k cs ps) v i True; fromInt L (cs ! i) sv }) [0..<length cs]);
     aggregateVals L (AggTy k cs ps) child_vals }"
| "fromInt L (IntTy w) v = Some (scalar_fromInt v)"
| "fromInt L (FloatTy f) v = Some (scalar_fromInt v)"
| "fromInt L (PtrTy a) v = Some (scalar_fromInt v)"
  by pat_completeness auto
termination
  by (relation "measure (\<lambda>(L, t, v). size t)") (auto simp: child_size less_Suc_eq_le)

definition scalar_toInt :: "layout \<Rightarrow> ir_type \<Rightarrow> agg_val \<Rightarrow> agg_val option" where
  "scalar_toInt L t v =
     (case a_np v of
        PBool b \<Rightarrow> Some (av (a_value v) (PBv (mk (np_bits L True t) (if b then - 1 else 0))))
      | PBv _ \<Rightarrow> None)"

fun int_concat :: "layout \<Rightarrow> agg_val list \<Rightarrow> agg_val \<Rightarrow> agg_val option" where
  "int_concat L [] ret = Some ret"
| "int_concat L (vv # vs) ret = do {
     r \<leftarrow> (if little_endian L then av_concat vv ret else av_concat ret vv);
     int_concat L vs r }"

definition extract_elem :: "layout \<Rightarrow> ir_type \<Rightarrow> agg_val \<Rightarrow> nat \<Rightarrow> bool \<Rightarrow> agg_val option" where
  "extract_elem L t val index from_int = do {
     sv \<leftarrow> elem_slice L t val index from_int;
     if from_int then fromInt L (children t ! index) sv else fromBV (children t ! index) sv }"

function toInt :: "layout \<Rightarrow> ir_type \<Rightarrow> agg_val \<Rightarrow> agg_val option" where
  "toInt L (AggTy k cs ps) v =
     (if cs = [] then Some (av (mk 1 0) (PBv (mk 1 1)))
      else do {
        vs \<leftarrow> those (map (\<lambda>i. do { x \<leftarrow> extract_elem L (AggTy k cs ps) v i False; toInt L (cs ! i) x }) [0..<length cs]);
        int_concat L (tl vs) (hd vs) })"
| "toInt L (IntTy w) v = scalar_toInt L (IntTy w) v"
| "toInt L (FloatTy f) v = scalar_toInt L (FloatTy f) v"
| "toInt L (PtrTy a) v = scalar_toInt L (PtrTy a) v"
  by pat_completeness auto
termination
  by (relation "measure (\<lambda>(L, t, v). size t)") (auto simp: child_size less_Suc_eq_le)

end
