(* ===== verification/AggProps.thy ===== *)
theory AggProps
  imports Aggregate
begin

text \<open>
  What is put into an aggregate comes out of it, in the layout of values and through memory.
\<close>

section \<open>Concatenations and their parts\<close>

fun bv_cat :: "bv list \<Rightarrow> bv" where
  "bv_cat [] = mk 1 0"
| "bv_cat [x] = x"
| "bv_cat (x # y # ys) = bvconcat x (bv_cat (y # ys))"

lemma bv_cat_Cons: "xs \<noteq> [] \<Longrightarrow> bv_cat (x # xs) = bvconcat x (bv_cat xs)"
  by (cases xs) simp_all

lemma bv_cat_wf: "\<forall>x\<in>set xs. wf_bv x \<Longrightarrow> wf_bv (bv_cat xs)"
  by (induction xs rule: bv_cat.induct) simp_all

lemma bits_bv_cat: "xs \<noteq> [] \<Longrightarrow> bits (bv_cat xs) = sum_list (map bits xs)"
  by (induction xs rule: bv_cat.induct) simp_all

lemma bv_cat_append:
  "xs \<noteq> [] \<Longrightarrow> ys \<noteq> [] \<Longrightarrow> \<forall>x\<in>set (xs @ ys). wf_bv x \<Longrightarrow> bv_cat (xs @ ys) = bvconcat (bv_cat xs) (bv_cat ys)"
proof (induction xs rule: bv_cat.induct)
  case (2 x)
  then show ?case by (simp add: bv_cat_Cons)
next
  case (3 x y ys')
  then show ?case using concat_assoc [of x "bv_cat (y # ys')" "bv_cat ys"] by (simp add: bv_cat_wf)
qed simp

lemma extract_part:
  "\<forall>x\<in>set xs. wf_bv x \<Longrightarrow> i < length xs \<Longrightarrow>
     (case extent False (map bits xs) i of (h, l) \<Rightarrow> bvextract (bv_cat xs) h l) = xs ! i"
proof (induction xs arbitrary: i)
  case (Cons x xs)
  have x: "wf_bv x" "0 < bits x" using Cons.prems(1) wf_bvD(1) [of x] by auto
  show ?case
  proof (cases "xs = []")
    case True
    then show ?thesis using Cons.prems x extract_all by (simp add: extent_def)
  next
    case False
    let ?b = "bv_cat xs"
    have b: "wf_bv ?b" "bits ?b = sum_list (map bits xs)" using Cons.prems(1) False bv_cat_wf bits_bv_cat by auto
    show ?thesis
    proof (cases i)
      case 0
      have "bvextract (bvconcat x ?b) (bits x + bits ?b - 1) (bits ?b) = bvextract x (bits x - 1) 0"
        using extract_concat_high [of x ?b "bits ?b" "bits x + bits ?b - 1"] x b(1) by simp
      then show ?thesis using 0 False x b extract_all [OF x(1)] by (simp add: extent_def bv_cat_Cons)
    next
      case (Suc j)
      then have j: "j < length xs" using Cons.prems(2) by simp
      have wj: "0 < bits (xs ! j)" using Cons.prems(1) j wf_bvD(1) by simp
      let ?before = "sum_list (take j (map bits xs))" and ?S = "sum_list (map bits xs)"
      have split: "?S = ?before + sum_list (drop j (map bits xs))" by (simp add: sum_list_append [symmetric])
      have "sum_list (drop j (map bits xs)) = bits (xs ! j) + sum_list (drop (Suc j) (map bits xs))"
        using j by (simp add: Cons_nth_drop_Suc [symmetric])
      then have le: "?before + bits (xs ! j) \<le> ?S" using split by simp
      have e: "extent False (map bits (x # xs)) i = extent False (map bits xs) j"
        using Suc j by (simp add: extent_def Let_def)
      have "bvextract (bvconcat x ?b) (?S - ?before - 1) (?S - ?before - bits (xs ! j)) =
          bvextract ?b (?S - ?before - 1) (?S - ?before - bits (xs ! j))"
        by (rule extract_concat_low) (use x b le wj in auto)
      moreover have "bvextract ?b (?S - ?before - 1) (?S - ?before - bits (xs ! j)) = xs ! j"
        using Cons.IH [OF _ j] Cons.prems(1) j by (simp add: extent_def Let_def)
      ultimately show ?thesis unfolding e using Suc j False by (simp add: extent_def Let_def bv_cat_Cons)
    qed
  qed
qed simp

text \<open>The same in the order of little-endian memory, where the first element has the low bits.\<close>

lemma extent_rev:
  assumes "i < length ws" shows "extent True ws i = extent False (rev ws) (length ws - 1 - i)"
proof -
  have t: "take (length ws - Suc i) (rev ws) = rev (drop (Suc i) ws)" using assms by (simp add: take_rev)
  have n: "rev ws ! (length ws - Suc i) = ws ! i" using assms by (simp add: rev_nth)
  have "sum_list ws = sum_list (take i ws) + (ws ! i + sum_list (drop (Suc i) ws))"
    using assms by (metis Cons_nth_drop_Suc append_take_drop_id sum_list.Cons sum_list_append)
  then show ?thesis by (simp add: extent_def Let_def t n sum_list_rev)
qed

lemma extract_part_le:
  assumes "\<forall>x\<in>set xs. wf_bv x" "i < length xs"
  shows "(case extent True (map bits xs) i of (h, l) \<Rightarrow> bvextract (bv_cat (rev xs)) h l) = xs ! i"
  using extract_part [of "rev xs" "length xs - 1 - i"] assms extent_rev [of i "map bits xs"]
  by (simp add: rev_map rev_nth)


section \<open>Well-formed types and values\<close>

fun wf_ty :: "layout \<Rightarrow> ir_type \<Rightarrow> bool" where
  "wf_ty L (AggTy k cs ps) \<longleftrightarrow> length cs = length ps \<and> list_all (wf_ty L) cs"
| "wf_ty L t \<longleftrightarrow> 0 < ty_bits L t"

text \<open>A value of a type, and one whose poison state is a bit-vector whatever the type.\<close>

definition bv_ok :: "layout \<Rightarrow> ir_type \<Rightarrow> agg_val \<Rightarrow> bool" where
  "bv_ok L t v \<longleftrightarrow> wf_bv (a_value v) \<and> bits (a_value v) = ty_bits L t \<and>
     (case a_np v of PBool _ \<Rightarrow> False | PBv p \<Rightarrow> wf_bv p \<and> bits p = np_bits L False t)"

definition val_ok :: "layout \<Rightarrow> ir_type \<Rightarrow> agg_val \<Rightarrow> bool" where
  "val_ok L t v \<longleftrightarrow>
     (if isAggregateType t then bv_ok L t v
      else wf_bv (a_value v) \<and> bits (a_value v) = ty_bits L t \<and> (case a_np v of PBool _ \<Rightarrow> True | PBv _ \<Rightarrow> False))"

lemma av_sel [simp]: "a_value (av v p) = v" "a_np (av v p) = p"
  by (simp_all add: av_def)

lemma av_eq: "av (a_value v) (a_np v) = v"
  by (simp add: av_def)

lemma sum_pos: "xs \<noteq> [] \<Longrightarrow> \<forall>x\<in>set xs. 0 < f x \<Longrightarrow> 0 < sum_list (map f xs)" for f :: "'a \<Rightarrow> nat"
  by (cases xs) auto

lemma ty_bits_pos: "wf_ty L t \<Longrightarrow> 0 < ty_bits L t"
  by (induction t) (auto simp: list_all_iff simp del: sum_list_eq_0_iff intro!: sum_pos)

lemma np_bits_pos: "0 < np_bits L False t"
  by (induction t) (auto simp: scalar_np_bits_def simp del: sum_list_eq_0_iff intro!: sum_pos)

lemma toBV_ok:
  assumes "val_ok L t v"
  shows "\<exists>u. toBV t v = Some u \<and> bv_ok L t u \<and> fromBV t u = Some v"
proof (cases "isAggregateType t")
  case True
  then show ?thesis using assms by (cases t) (auto simp: val_ok_def)
next
  case False
  then obtain b where b: "a_np v = PBool b" "wf_bv (a_value v)" "bits (a_value v) = ty_bits L t"
    using assms by (auto simp: val_ok_def split: np.splits)
  have v: "av (a_value v) (PBool b) = v" using b(1) by (metis av_eq)
  have w: "np_bits L False t = 1" using False by (cases t) (simp_all add: scalar_np_bits_def)
  have "toBVBool b = mk (bits (toBVBool b)) (- 1) \<longleftrightarrow> b" "wf_bv (toBVBool b)" "bits (toBVBool b) = 1"
    by (auto simp: toBVBool_def bv_eq_iff)
  then show ?thesis using b v w False by (cases t) (simp_all add: bv_ok_def)
qed

lemma av_concat_ok:
  assumes "a_np x = PBv p" "a_np y = PBv q"
  shows "av_concat x y = Some (av (bvconcat (a_value x) (a_value y)) (PBv (bvconcat p q)))"
  by (simp add: av_concat_def assms)

definition np_of :: "agg_val \<Rightarrow> bv" where
  "np_of v = (case a_np v of PBv p \<Rightarrow> p | PBool b \<Rightarrow> toBVBool b)"

definition av_cat :: "agg_val list \<Rightarrow> agg_val" where
  "av_cat us = av (bv_cat (map a_value us)) (PBv (bv_cat (map np_of us)))"

lemma bv_okD:
  "bv_ok L t v \<Longrightarrow> a_np v = PBv (np_of v) \<and> wf_bv (a_value v) \<and> wf_bv (np_of v) \<and>
     bits (a_value v) = ty_bits L t \<and> bits (np_of v) = np_bits L False t"
  by (auto simp: bv_ok_def np_of_def split: np.splits)

lemma av_cat_snoc:
  assumes "us \<noteq> []" "\<forall>u\<in>set (us @ [u']). wf_bv (a_value u) \<and> wf_bv (np_of u)" "a_np u' = PBv (np_of u')"
  shows "av_concat (av_cat us) u' = Some (av_cat (us @ [u']))"
  using assms bv_cat_append [of "map a_value us" "[a_value u']"] bv_cat_append [of "map np_of us" "[np_of u']"]
  by (subst av_concat_ok [of _ "bv_cat (map np_of us)" _ "np_of u'"]) (auto simp: av_cat_def)

lemma av_cat_single: "a_np u = PBv (np_of u) \<Longrightarrow> av_cat [u] = u"
  by (metis av_cat_def av_eq bv_cat.simps(2) list.simps(8,9))

section \<open>Building an aggregate\<close>

text \<open>The values of all elements, padding included.\<close>

fun place :: "bool list \<Rightarrow> 'a list \<Rightarrow> 'a list \<Rightarrow> 'a list" where
  "place (True # ps) (d # ds) vals = d # place ps ds vals"
| "place (False # ps) (d # ds) (x # xs) = x # place ps ds xs"
| "place _ _ _ = []"

lemma agg_loop_cat:
  "list_all2 (\<lambda>c v. \<exists>u. toBV c v = Some u \<and> bv_ok L c u) cs (place ps ds vals) \<Longrightarrow>
   length cs = length ps \<Longrightarrow> length ds = length ps \<Longrightarrow> \<forall>c\<in>set cs. 0 < ty_bits L c \<Longrightarrow>
   \<forall>u\<in>set us. wf_bv (a_value u) \<and> wf_bv (np_of u) \<Longrightarrow>
   agg_loop L cs ps (map Some ds) vals (if us = [] then None else Some (av_cat us)) =
     Some (if us = [] \<and> cs = [] then None else Some (av_cat (us @ map (\<lambda>(c, v). the (toBV c v)) (zip cs (place ps ds vals)))))"
proof (induction ps ds vals arbitrary: cs us rule: place.induct)
  case (1 ps d ds vals)
  then obtain c cs' u where c: "cs = c # cs'" "toBV c d = Some u" "bv_ok L c u"
    "list_all2 (\<lambda>c v. \<exists>u. toBV c v = Some u \<and> bv_ok L c u) cs' (place ps ds vals)" by (auto simp: list_all2_Cons2)
  note u = bv_okD [OF c(3)]
  have "(case if us = [] then None else Some (av_cat us) of None \<Rightarrow> Some u | Some a \<Rightarrow> av_concat a u) = Some (av_cat (us @ [u]))"
    using u 1(6) av_cat_snoc [of us u] av_cat_single [of u] by auto
  then show ?case using 1(1) [OF c(4), of "us @ [u]"] 1(3-) c(1,2) u by (auto split: if_splits)
next
  case (2 ps d ds x xs)
  then obtain c cs' u where c: "cs = c # cs'" "toBV c x = Some u" "bv_ok L c u"
    "list_all2 (\<lambda>c v. \<exists>u. toBV c v = Some u \<and> bv_ok L c u) cs' (place ps ds xs)" by (auto simp: list_all2_Cons2)
  note u = bv_okD [OF c(3)]
  have "(case if us = [] then None else Some (av_cat us) of None \<Rightarrow> Some u | Some a \<Rightarrow> av_concat a u) = Some (av_cat (us @ [u]))"
    using u 2(6) av_cat_snoc [of us u] av_cat_single [of u] by auto
  then show ?case using 2(1) [OF c(4), of "us @ [u]"] 2(3-) c(1,2) u by (auto split: if_splits)
qed auto


lemma filter_not_longer [simp]: "length (filter P xs) \<noteq> Suc (length xs)"
  by (metis length_filter_le not_less_eq_eq order_refl)

lemma length_place:
  "length ds = length ps \<Longrightarrow> length vals + length (filter (\<lambda>p. p) ps) = length ps \<Longrightarrow> length (place ps ds vals) = length ps"
  by (induction ps ds vals rule: place.induct) auto

lemma place_nth:
  "length ds = length ps \<Longrightarrow> length vals + length (filter (\<lambda>p. p) ps) = length ps \<Longrightarrow> i < length ps \<Longrightarrow>
     place ps ds vals ! i = (if ps ! i then ds ! i else vals ! (i - length (filter (\<lambda>p. p) (take (Suc i) ps))))"
proof (induction ps ds vals arbitrary: i rule: place.induct)
  case (1 ps d ds vals)
  then show ?case by (cases i) auto
next
  case (2 ps d ds x xs)
  show ?case
  proof (cases i)
    case (Suc j)
    have "length (filter (\<lambda>p. p) (take (Suc j) ps)) \<le> Suc j" using length_filter_le [of "\<lambda>p. p" "take (Suc j) ps"] by simp
    moreover have "length (filter (\<lambda>p. p) (take (Suc j) ps)) \<le> j" if "\<not> ps ! j" "j < length ps"
      using that length_filter_le [of "\<lambda>p. p" "take j ps"] by (simp add: take_Suc_conv_app_nth)
    ultimately show ?thesis using 2 Suc by (auto simp: Suc_diff_le)
  qed simp
qed auto


lemma aggregate_with_ok:
  assumes wf: "wf_ty L (AggTy k cs ps)" and ds: "length ds = length ps"
    and n: "length vals + length (filter (\<lambda>p. p) ps) = length cs"
    and ok: "list_all2 (val_ok L) cs (place ps ds vals)"
  defines "us \<equiv> map (\<lambda>(c, v). the (toBV c v)) (zip cs (place ps ds vals))"
  shows "aggregate_with L cs ps (map Some ds) vals =
      Some (if cs = [] then av (mk 1 0) (PBv (mk 1 0)) else av_cat us)"
    and "list_all2 (bv_ok L) cs us"
    and "i < length cs \<Longrightarrow> fromBV (cs ! i) (us ! i) = Some (place ps ds vals ! i)"
proof -
  have len: "length cs = length ps" and wfc: "\<forall>c\<in>set cs. 0 < ty_bits L c"
    using wf ty_bits_pos by (auto simp: list_all_iff)
  have pl: "length (place ps ds vals) = length cs" using length_place [OF ds] n len by simp
  have el: "\<exists>u. toBV (cs ! i) (place ps ds vals ! i) = Some u \<and> bv_ok L (cs ! i) u \<and> fromBV (cs ! i) u = Some (place ps ds vals ! i)"
    if "i < length cs" for i
    using toBV_ok ok that by (simp add: list_all2_conv_all_nth)
  then have "list_all2 (\<lambda>c v. \<exists>u. toBV c v = Some u \<and> bv_ok L c u) cs (place ps ds vals)"
    using pl by (fastforce simp: list_all2_conv_all_nth)
  from agg_loop_cat [OF this len ds wfc, of "[]"]
  show "aggregate_with L cs ps (map Some ds) vals =
      Some (if cs = [] then av (mk 1 0) (PBv (mk 1 0)) else av_cat us)"
    using n by (simp add: aggregate_with_def us_def)
  have u: "length us = length cs" "\<And>i. i < length cs \<Longrightarrow> us ! i = the (toBV (cs ! i) (place ps ds vals ! i))"
    using pl by (simp_all add: us_def)
  show "list_all2 (bv_ok L) cs us" using el u by (fastforce simp: list_all2_conv_all_nth)
  show "fromBV (cs ! i) (us ! i) = Some (place ps ds vals ! i)" if "i < length cs" using el [OF that] u(2) [OF that] by auto
qed

lemma av_cat_ok:
  assumes "list_all2 (bv_ok L) cs us" "cs \<noteq> []"
  shows "bv_ok L (AggTy k cs ps) (av_cat us)"
proof -
  have n: "length us = length cs" "us \<noteq> []" using assms by (auto simp: list_all2_conv_all_nth)
  have d: "wf_bv (a_value u) \<and> wf_bv (np_of u)" if "u \<in> set us" for u
    using assms(1) that bv_okD by (metis in_set_conv_nth list_all2_conv_all_nth)
  have "map bits (map a_value us) = map (ty_bits L) cs" "map bits (map np_of us) = map (np_bits L False) cs"
    using assms(1) bv_okD by (auto simp: list_all2_conv_all_nth intro!: nth_equalityI)
  then show ?thesis using n d assms(2) bv_cat_wf [of "map a_value us"] bv_cat_wf [of "map np_of us"]
      bits_bv_cat [of "map a_value us"] bits_bv_cat [of "map np_of us"]
    by (simp add: bv_ok_def av_cat_def)
qed

text \<open>Taking an element out of a concatenation of elements.\<close>

lemma slice_cat:
  assumes "list_all2 (bv_ok L) cs us" "i < length cs"
  shows "elem_slice L (AggTy k cs ps) (av_cat us) i False = Some (us ! i)"
proof -
  have n: "length us = length cs" using assms(1) by (simp add: list_all2_lengthD)
  have u: "a_np (us ! i) = PBv (np_of (us ! i)) \<and> wf_bv (a_value (us ! i)) \<and> wf_bv (np_of (us ! i)) \<and>
     bits (a_value (us ! i)) = ty_bits L (cs ! i) \<and> bits (np_of (us ! i)) = np_bits L False (cs ! i)" if "i < length cs" for i
    using assms(1) that bv_okD by (auto simp: list_all2_conv_all_nth)
  have d: "wf_bv (a_value u) \<and> wf_bv (np_of u)" if "u \<in> set us" for u using that u n by (metis in_set_conv_nth)
  have "map bits (map a_value us) = map (ty_bits L) cs" "map bits (map np_of us) = map (np_bits L False) cs"
    using u n by (auto intro!: nth_equalityI)
  with extract_part [of "map a_value us" i] extract_part [of "map np_of us" i]
  have "(case extent False (map (ty_bits L) cs) i of (h, l) \<Rightarrow> bvextract (bv_cat (map a_value us)) h l) = a_value (us ! i)"
    "(case extent False (map (np_bits L False) cs) i of (h, l) \<Rightarrow> bvextract (bv_cat (map np_of us)) h l) = np_of (us ! i)"
    using d n assms(2) by simp_all
  then show ?thesis using u [OF assms(2)] assms(2) av_eq [of "us ! i"]
    by (simp add: elem_slice_def av_cat_def split: prod.splits)
qed

lemma dummy_ok: "wf_ty L t \<Longrightarrow> \<exists>v. getDummyValue L b t = Some v \<and> val_ok L t v"
proof (induction t arbitrary: b)
  case (AggTy k cs ps)
  have c: "\<exists>v. getDummyValue L b (cs ! i) = Some v \<and> val_ok L (cs ! i) v" if "i < length cs" for i b
    using AggTy that by (simp add: list_all_length)
  define f where "f b c = the (getDummyValue L b c)" for b c
  have f: "getDummyValue L b (cs ! i) = Some (f b (cs ! i))" "val_ok L (cs ! i) (f b (cs ! i))" if "i < length cs" for b i
    using c [OF that, of b] by (auto simp: f_def)
  have m: "map (getDummyValue L b) cs = map Some (map (f b) cs)" for b by (rule nth_equalityI) (use f in simp_all)
  let ?vals = "map fst (filter (\<lambda>(_, p). \<not> p) (zip (map (f b) cs) ps))"
  have th: "those (map Some xs) = Some xs" for xs :: "agg_val list" by (induction xs) auto
  have len: "length cs = length ps" using AggTy.prems by simp
  have z: "map fst (filter (\<lambda>(_, p). \<not> p) (zip (map Some (map (f b) cs)) ps)) = map Some ?vals"
    by (simp add: zip_map1 filter_map comp_def case_prod_unfold)
  have cnt: "length (filter (\<lambda>(_, p). \<not> p) (zip xs ps)) + length (filter (\<lambda>p. p) ps) = length ps" if "length xs = length ps" for xs :: "agg_val list"
    using that by (induction xs ps rule: list_induct2) auto
  have n: "length ?vals + length (filter (\<lambda>p. p) ps) = length cs" using cnt [of "map (f b) cs"] len by simp
  have pl: "list_all2 (val_ok L) cs (place ps (map (f False) cs) ?vals)"
  proof -
    have "list_all2 (val_ok L) cs' (place ps' (map (f False) cs') (map fst (filter (\<lambda>(_, p). \<not> p) (zip (map (f b) cs') ps'))))"
      if "length cs' = length ps'" "\<forall>c\<in>set cs'. val_ok L c (f False c) \<and> val_ok L c (f b c)" for cs' ps'
      using that
    proof (induction cs' ps' rule: list_induct2)
      case (Cons c cs' p ps')
      then show ?case by (cases p) auto
    qed simp
    then show ?thesis using len f by (metis in_set_conv_nth)
  qed
  have "getDummyValue L b (AggTy k cs ps) = aggregate_with L cs ps (map Some (map (f False) cs)) ?vals"
    unfolding getDummyValue.simps(1) m z th by simp
  then show ?case
    using aggregate_with_ok(1,2) [OF AggTy.prems _ n pl] len av_cat_ok [of L cs _ k ps]
    by (cases "cs = []") (auto simp: val_ok_def bv_ok_def)
qed (auto simp: val_ok_def)


lemma aggregate_elements:
  assumes "wf_ty L (AggTy k cs ps)" "length vals + numPaddingsConst (AggTy k cs ps) = length cs"
    and "\<And>i. i < length cs \<Longrightarrow> \<not> ps ! i \<Longrightarrow> val_ok L (cs ! i) (vals ! (i - countPaddings (AggTy k cs ps) i))"
  shows "\<exists>v. aggregateVals L (AggTy k cs ps) vals = Some v \<and> val_ok L (AggTy k cs ps) v \<and>
    (\<forall>i < length cs. \<not> ps ! i \<longrightarrow>
       extract_elem L (AggTy k cs ps) v i False = Some (vals ! (i - countPaddings (AggTy k cs ps) i)))"
proof -
  define ds where "ds = map (\<lambda>c. the (getDummyValue L False c)) cs"
  have wf: "wf_ty L c" if "c \<in> set cs" for c using assms(1) that by (simp add: list_all_iff)
  have len: "length cs = length ps" "length ds = length ps" using assms(1) by (simp_all add: ds_def)
  have dm: "getDummyValue L False (cs ! i) = Some (ds ! i)" "val_ok L (cs ! i) (ds ! i)" if "i < length cs" for i
    using dummy_ok [OF wf, of "cs ! i" False] that by (auto simp: ds_def)
  have m: "map (getDummyValue L False) cs = map Some ds" by (rule nth_equalityI) (use dm len in simp_all)
  have n: "length vals + length (filter (\<lambda>p. p) ps) = length cs"
    using assms(2) by (cases "ps = []") (simp_all add: numPaddingsConst_def countPaddings_def)
  have pn: "place ps ds vals ! i = (if ps ! i then ds ! i else vals ! (i - countPaddings (AggTy k cs ps) i))" if "i < length cs" for i
    using place_nth [OF len(2), of vals i] n len that by (simp add: countPaddings_def)
  have "list_all2 (val_ok L) cs (place ps ds vals)"
    using length_place [OF len(2)] n len pn dm assms(3) by (simp add: list_all2_conv_all_nth)
  note a = aggregate_with_ok [OF assms(1) len(2) n this]
  let ?us = "map (\<lambda>(c, v). the (toBV c v)) (zip cs (place ps ds vals))"
  let ?v = "if cs = [] then av (mk 1 0) (PBv (mk 1 0)) else av_cat ?us"
  have "aggregateVals L (AggTy k cs ps) vals = Some ?v" using a(1) m by (simp add: aggregateVals_def)
  moreover have "val_ok L (AggTy k cs ps) ?v" using av_cat_ok [OF a(2)] by (simp add: val_ok_def bv_ok_def)
  moreover have "extract_elem L (AggTy k cs ps) ?v i False = Some (vals ! (i - countPaddings (AggTy k cs ps) i))"
    if "i < length cs" "\<not> ps ! i" for i
  proof -
    have "cs \<noteq> []" using that(1) by auto
    then show ?thesis using slice_cat [OF a(2) that(1), of k ps] a(3) [OF that(1)] pn [OF that(1)] that(2)
      by (simp add: extract_elem_def)
  qed
  ultimately show ?thesis by blast
qed

text \<open>
  An aggregate built from values of the types of its elements is well-formed, and
  every element that is not padding comes out of it as it was put in, at the position
  that \<open>countPaddings\<close> gives.
\<close>

theorem aggregate_extract:
  assumes "wf_ty L (AggTy k cs ps)" "length vals + numPaddingsConst (AggTy k cs ps) = length cs"
    and "\<And>i. i < length cs \<Longrightarrow> \<not> ps ! i \<Longrightarrow> val_ok L (cs ! i) (vals ! (i - countPaddings (AggTy k cs ps) i))"
  shows "\<exists>v. aggregateVals L (AggTy k cs ps) vals = Some v \<and> val_ok L (AggTy k cs ps) v \<and>
    (\<forall>i < length cs. \<not> ps ! i \<longrightarrow>
       extract_elem L (AggTy k cs ps) v i False = Some (vals ! (i - countPaddings (AggTy k cs ps) i)))"
  by (rule aggregate_elements [OF assms])

section \<open>Sizes and classification of types\<close>

text \<open>\<open>round_up\<close> gives the least multiple that is not smaller.\<close>

lemma round_up_least:
  assumes "0 < a" shows "a dvd round_up_nat n a" "n \<le> round_up_nat n a" "round_up_nat n a < n + a"
proof -
  have "(n + a - 1) div a * a + (n + a - 1) mod a = n + a - 1" by simp
  moreover have "(n + a - 1) mod a < a" using assms by simp
  ultimately show "n \<le> round_up_nat n a" "round_up_nat n a < n + a"
    using assms unfolding round_up_nat_def divide_up_def by linarith+
qed (simp add: round_up_nat_def)

text \<open>An aggregate has a pointer in it exactly when it has pointer elements.\<close>

lemma hasPtr_elements: "hasPtr t \<longleftrightarrow> isPtrType t \<or> 0 < numPointerElements t"
proof (induction t)
  case (AggTy k cs ps)
  let ?n = "\<lambda>c. if isPtrType c then 1 else if isAggregateType c then numPointerElements c else (0::nat)"
  have z: "\<not> isAggregateType c \<Longrightarrow> numPointerElements c = 0" for c by (cases c) auto
  have "hasPtr c \<longleftrightarrow> 0 < ?n c" if "c \<in> set cs" for c using AggTy [OF that] z [of c] by simp
  then have "list_ex hasPtr cs \<longleftrightarrow> (\<exists>c\<in>set cs. 0 < ?n c)" unfolding list_ex_iff by blast
  moreover have "0 < sum_list (map ?n cs) \<longleftrightarrow> (\<exists>c\<in>set cs. 0 < ?n c)" by (induction cs) auto
  ultimately show ?case by simp
qed auto

lemma fold_gcd_dvd: "fold (\<lambda>n sz. gcd sz n) ns a dvd a \<and> (\<forall>n\<in>set ns. fold (\<lambda>n sz. gcd sz n) ns a dvd n)"
  for a :: nat
proof (induction ns arbitrary: a)
  case (Cons n ns)
  have "fold (\<lambda>n sz. gcd sz n) ns (gcd a n) dvd gcd a n" using Cons by blast
  then show ?case using Cons by (auto intro: dvd_trans)
qed simp

text \<open>Outside vectors the common access size divides that of every element.\<close>

lemma commonAccess_dvd:
  assumes "k \<noteq> VectorK" "c \<in> set cs"
  shows "getCommonAccessSize L (AggTy k cs ps) dvd getCommonAccessSize L c"
proof -
  obtain d ds where "cs = d # ds" using assms(2) by (cases cs) auto
  then show ?thesis
    using assms fold_gcd_dvd [of "map (getCommonAccessSize L) ds" "getCommonAccessSize L d"] by auto
qed

end
