(* ===== verification/AggMemory.thy ===== *)
theory AggMemory
  imports AggProps
begin

text \<open>
  Values in memory: \<open>toInt\<close> and \<open>fromInt\<close> of \<open>ir/type.cpp\<close> write an aggregate as one integer in the byte
  order of the target, with the poison bits of memory, and read it back.
\<close>

section \<open>Taking values apart\<close>

lemma bv_cat_surj:
  "ws \<noteq> [] \<Longrightarrow> \<forall>w\<in>set ws. 0 < w \<Longrightarrow> wf_bv v \<Longrightarrow> bits v = sum_list ws \<Longrightarrow>
     \<exists>xs. map bits xs = ws \<and> (\<forall>x\<in>set xs. wf_bv x) \<and> bv_cat xs = v"
proof (induction ws arbitrary: v)
  case (Cons w ws)
  show ?case
  proof (cases "ws = []")
    case True
    then show ?thesis using Cons.prems by (intro exI [of _ "[v]"]) simp
  next
    case False
    let ?S = "sum_list ws"
    have S: "0 < ?S" using sum_pos [of ws "\<lambda>x. x"] False Cons.prems(2) by simp
    let ?lo = "bvextract v (?S - 1) 0" and ?hi = "bvextract v (w + ?S - 1) ?S"
    have lo: "wf_bv ?lo" "bits ?lo = ?S" using S by simp_all
    have le: "?S \<le> w + ?S - 1" using Cons.prems(2) by auto
    then have hi: "wf_bv ?hi" "bits ?hi = w" using S by simp_all
    from Cons.IH [OF False _ lo] Cons.prems(2) obtain xs where xs: "map bits xs = ws" "\<forall>x\<in>set xs. wf_bv x" "bv_cat xs = ?lo" by auto
    have "xs \<noteq> []" using xs(1) False by auto
    have "bvconcat ?hi ?lo = bvextract v (w + ?S - 1) 0"
      using concat_extracts [of v ?S "w + ?S - 1" 0] Cons.prems S le by simp
    also have "\<dots> = v" using extract_all [OF Cons.prems(3)] Cons.prems(4) by simp
    finally show ?thesis using xs hi \<open>xs \<noteq> []\<close> by (intro exI [of _ "?hi # xs"]) (simp add: bv_cat_Cons)
  qed
qed simp

lemma av_cat_surj:
  assumes wf: "wf_ty L (AggTy k cs ps)" and ne: "cs \<noteq> []" and v: "bv_ok L (AggTy k cs ps) v"
  shows "\<exists>us. list_all2 (bv_ok L) cs us \<and> v = av_cat us"
proof -
  note d = bv_okD [OF v]
  have p: "\<forall>w\<in>set (map (ty_bits L) cs). 0 < w" "\<forall>w\<in>set (map (np_bits L False) cs). 0 < w"
    using wf ty_bits_pos np_bits_pos by (auto simp: list_all_iff)
  obtain xs where xs: "map bits xs = map (ty_bits L) cs" "\<forall>x\<in>set xs. wf_bv x" "bv_cat xs = a_value v"
    using bv_cat_surj [OF _ p(1), of "a_value v"] d ne by auto
  obtain qs where qs: "map bits qs = map (np_bits L False) cs" "\<forall>x\<in>set qs. wf_bv x" "bv_cat qs = np_of v"
    using bv_cat_surj [OF _ p(2), of "np_of v"] d ne by auto
  let ?us = "map (\<lambda>(x, q). av x (PBv q)) (zip xs qs)"
  have n: "length xs = length cs" "length qs = length cs" using xs(1) qs(1) by (auto dest: map_eq_imp_length_eq)
  have b: "bits (xs ! i) = ty_bits L (cs ! i)" "bits (qs ! i) = np_bits L False (cs ! i)" if "i < length cs" for i
    using arg_cong [OF xs(1), of "\<lambda>l. l ! i"] arg_cong [OF qs(1), of "\<lambda>l. l ! i"] that n by simp_all
  have "list_all2 (bv_ok L) cs ?us" using n b xs(2) qs(2) by (simp add: list_all2_conv_all_nth bv_ok_def)
  moreover have "map a_value ?us = xs" "map np_of ?us = qs"
    by (rule nth_equalityI; use n in \<open>simp add: np_of_def\<close>)+
  then have "av_cat ?us = v" using xs(3) qs(3) d av_eq [of v] by (simp add: av_cat_def del: map_map)
  ultimately show ?thesis by metis
qed

lemma fromBV_ok:
  assumes "bv_ok L t u"
  shows "\<exists>x. fromBV t u = Some x \<and> val_ok L t x \<and> toBV t x = Some u"
proof (cases "isAggregateType t")
  case True
  then show ?thesis using assms by (cases t) (auto simp: val_ok_def)
next
  case False
  note d = bv_okD [OF assms]
  have "np_bits L False t = 1" using False by (cases t) (simp_all add: scalar_np_bits_def)
  then have p: "bits (np_of u) = 1" "wf_bv (np_of u)" using d by auto
  have "uval (np_of u) = 0 \<or> uval (np_of u) = 1" using wf_bvD(2,3) [OF p(2)] p(1) by auto
  then have e: "toBVBool (np_of u = mk 1 (- 1)) = np_of u" using p(1) by (auto simp: toBVBool_def bv_eq_iff)
  have "av (a_value u) (PBv (np_of u)) = u" using d by (metis av_eq)
  then show ?thesis using False d p e by (cases t) (simp_all add: val_ok_def)
qed

section \<open>Through memory and back\<close>

definition int_ok :: "layout \<Rightarrow> ir_type \<Rightarrow> agg_val \<Rightarrow> bool" where
  "int_ok L t v \<longleftrightarrow> a_np v = PBv (np_of v) \<and> wf_bv (a_value v) \<and> wf_bv (np_of v) \<and>
     bits (a_value v) = ty_bits L t \<and> bits (np_of v) = np_bits L True t"

definition memory_layout :: "layout \<Rightarrow> bool" where
  "memory_layout L \<longleftrightarrow> 0 < bits_poison_per_byte L \<and> 0 < bits_byte L"

lemma divide_up_pos: "0 < n \<Longrightarrow> 0 < d \<Longrightarrow> 0 < divide_up n d"
  by (simp add: divide_up_def div_greater_zero_iff)

lemma scalar_np_pos: "memory_layout L \<Longrightarrow> wf_ty L t \<Longrightarrow> \<not> isAggregateType t \<Longrightarrow> 0 < np_bits L True t"
  by (cases t) (auto simp: scalar_np_bits_def memory_layout_def intro!: divide_up_pos)

lemma scalar_round_trip:
  assumes "memory_layout L" "wf_ty L t" "val_ok L t v" "\<not> isAggregateType t"
  shows "\<exists>u. toInt L t v = Some u \<and> int_ok L t u \<and> fromInt L t u = Some v"
proof -
  obtain b where b: "a_np v = PBool b" "wf_bv (a_value v)" "bits (a_value v) = ty_bits L t"
    using assms(3,4) by (auto simp: val_ok_def split: np.splits)
  have w: "0 < np_bits L True t" by (rule scalar_np_pos [OF assms(1,2,4)])
  let ?p = "mk (np_bits L True t) (if b then - 1 else 0)"
  have v: "av (a_value v) (PBool b) = v" using b(1) by (metis av_eq)
  have "(mask (np_bits L True t) :: int) \<noteq> 0" using w by simp
  then have "?p = mk (bits ?p) (- 1) \<longleftrightarrow> b" by (auto simp: bv_eq_iff)
  then have f: "scalar_fromInt (av (a_value v) (PBv ?p)) = v" using v by (simp add: scalar_fromInt_def)
  have "int_ok L t (av (a_value v) (PBv ?p))" using b w by (simp add: int_ok_def np_of_def)
  moreover have "scalar_toInt L t v = Some (av (a_value v) (PBv ?p))" by (simp add: scalar_toInt_def b(1))
  ultimately show ?thesis using f assms(4) by (cases t) auto
qed

text \<open>The concatenation of the elements in the order of the target.\<close>

definition order_of :: "layout \<Rightarrow> agg_val list \<Rightarrow> agg_val list" where
  "order_of L ys = (if little_endian L then rev ys else ys)"

lemma int_concat_cat:
  "ys \<noteq> [] \<Longrightarrow> \<forall>y\<in>set (ys @ zs). a_np y = PBv (np_of y) \<and> wf_bv (a_value y) \<and> wf_bv (np_of y) \<Longrightarrow>
     int_concat L zs (av_cat (order_of L ys)) = Some (av_cat (order_of L (ys @ zs)))"
proof (induction zs arbitrary: ys)
  case (Cons z zs)
  have "(if little_endian L then av_concat z (av_cat (order_of L ys)) else av_concat (av_cat (order_of L ys)) z) =
      Some (av_cat (order_of L (ys @ [z])))"
  proof (cases "little_endian L")
    case True
    have "av_concat z (av_cat (rev ys)) = Some (av_cat (z # rev ys))"
      using Cons.prems by (subst av_concat_ok [of _ "np_of z" _ "bv_cat (map np_of (rev ys))"])
        (simp_all add: av_cat_def bv_cat_Cons)
    then show ?thesis using True by (simp add: order_of_def)
  next
    case False
    then show ?thesis using av_cat_snoc [of ys z] Cons.prems by (simp add: order_of_def)
  qed
  then show ?case using Cons.IH [of "ys @ [z]"] Cons.prems by simp
qed simp

lemma int_concat_all:
  assumes "\<forall>y\<in>set ys. a_np y = PBv (np_of y) \<and> wf_bv (a_value y) \<and> wf_bv (np_of y)" "ys \<noteq> []"
  shows "int_concat L (tl ys) (hd ys) = Some (av_cat (order_of L ys))"
proof -
  obtain y zs where y: "ys = y # zs" using assms(2) by (cases ys) auto
  have "av_cat (order_of L [y]) = y" using assms(1) y av_cat_single [of y] by (simp add: order_of_def)
  then show ?thesis using int_concat_cat [of "[y]" zs L] assms(1) y by simp
qed

lemma slice_int:
  assumes "list_all2 (int_ok L) cs ys" "i < length cs"
  shows "elem_slice L (AggTy k cs ps) (av_cat (order_of L ys)) i True = Some (ys ! i)"
proof -
  have n: "length ys = length cs" using assms(1) by (simp add: list_all2_lengthD)
  have y: "int_ok L (cs ! i) (ys ! i)" if "i < length cs" for i using assms(1) that by (simp add: list_all2_conv_all_nth)
  have d: "wf_bv (a_value u) \<and> wf_bv (np_of u)" if "u \<in> set ys" for u
    using that y n by (metis in_set_conv_nth int_ok_def)
  have "map bits (map a_value ys) = map (ty_bits L) cs" "map bits (map np_of ys) = map (np_bits L True) cs"
    using y n by (auto simp: int_ok_def intro!: nth_equalityI)
  note w = this [symmetric]
  have "(case extent (little_endian L) (map (ty_bits L) cs) i of (h, l) \<Rightarrow> bvextract (bv_cat (map a_value (order_of L ys))) h l) = a_value (ys ! i)"
    "(case extent (little_endian L) (map (np_bits L True) cs) i of (h, l) \<Rightarrow> bvextract (bv_cat (map np_of (order_of L ys))) h l) = np_of (ys ! i)"
    unfolding w using extract_part [of "map a_value ys" i] extract_part [of "map np_of ys" i]
      extract_part_le [of "map a_value ys" i] extract_part_le [of "map np_of ys" i] d n assms(2)
    by (simp_all add: order_of_def rev_map del: map_map)
  moreover have "av (a_value (ys ! i)) (PBv (np_of (ys ! i))) = ys ! i"
    using y [OF assms(2)] av_eq [of "ys ! i"] by (simp add: int_ok_def)
  ultimately show ?thesis using assms(2) by (simp add: elem_slice_def av_cat_def split: prod.splits)
qed


text \<open>Types without padding and without empty aggregates.\<close>

fun packed :: "ir_type \<Rightarrow> bool" where
  "packed (AggTy k cs ps) \<longleftrightarrow> cs \<noteq> [] \<and> \<not> list_ex (\<lambda>p. p) ps \<and> list_all packed cs"
| "packed _ \<longleftrightarrow> True"

lemma place_packed:
  "\<not> list_ex (\<lambda>p. p) ps \<Longrightarrow> length ds = length ps \<Longrightarrow> length vals = length ps \<Longrightarrow> place ps ds vals = vals"
  by (induction ps ds vals rule: place.induct) auto

lemma those_all:
  assumes "\<And>i. i < n \<Longrightarrow> f i = Some (xs ! i)" "length xs = n"
  shows "those (map f [0..<n]) = Some xs"
proof -
  have "map f [0..<n] = map Some xs" by (rule nth_equalityI) (use assms in simp_all)
  moreover have "those (map Some xs) = Some xs" for xs :: "'b list" by (induction xs) auto
  ultimately show ?thesis by simp
qed

lemma rebuild:
  assumes wf: "wf_ty L (AggTy k cs ps)" and pk: "packed (AggTy k cs ps)" and us: "list_all2 (bv_ok L) cs us"
    and xs: "list_all2 (val_ok L) cs xs" "\<And>i. i < length cs \<Longrightarrow> toBV (cs ! i) (xs ! i) = Some (us ! i)"
  shows "aggregateVals L (AggTy k cs ps) xs = Some (av_cat us)"
proof -
  define ds where "ds = map (\<lambda>c. the (getDummyValue L False c)) cs"
  have len: "length cs = length ps" "length ds = length ps" using wf by (simp_all add: ds_def)
  have n: "length xs = length cs" "length us = length cs"
    using list_all2_lengthD [OF xs(1)] list_all2_lengthD [OF us] by simp_all
  have dm: "\<exists>v. getDummyValue L False c = Some v" if "c \<in> set cs" for c
    using dummy_ok [of L c False] wf that by (auto simp: list_all_iff)
  have m: "map (getDummyValue L False) cs = map Some ds" using dm by (auto simp: ds_def)
  have pl: "place ps ds xs = xs" by (rule place_packed) (use pk len n in auto)
  have c0: "length xs + length (filter (\<lambda>p. p) ps) = length cs" using pk n by (auto simp: list_ex_iff filter_empty_conv)
  have "map (\<lambda>(c, v). the (toBV c v)) (zip cs xs) = us" by (rule nth_equalityI) (use n xs(2) in simp_all)
  moreover have "list_all2 (val_ok L) cs (place ps ds xs)" using pl xs(1) by simp
  note aggregate_with_ok(1) [OF wf len(2) c0 this]
  ultimately show ?thesis using pk m pl by (simp add: aggregateVals_def)
qed

lemma int_cat_ok:
  assumes "list_all2 (int_ok L) cs ys" "cs \<noteq> []"
  shows "int_ok L (AggTy k cs ps) (av_cat (order_of L ys))"
proof -
  have n: "length ys = length cs" "ys \<noteq> []" using assms by (auto simp: list_all2_conv_all_nth)
  have y: "int_ok L (cs ! i) (ys ! i)" if "i < length cs" for i using assms(1) that by (simp add: list_all2_conv_all_nth)
  have d: "wf_bv (a_value u) \<and> wf_bv (np_of u)" if "u \<in> set ys" for u
    using that y n(1) by (metis in_set_conv_nth int_ok_def)
  have w: "map (bits \<circ> a_value) ys = map (ty_bits L) cs" "map (bits \<circ> np_of) ys = map (np_bits L True) cs"
    using y n(1) by (auto simp: int_ok_def intro!: nth_equalityI)
  have s: "sum_list (map (bits \<circ> a_value) (order_of L ys)) = sum_list (map (bits \<circ> a_value) ys)"
    "sum_list (map (bits \<circ> np_of) (order_of L ys)) = sum_list (map (bits \<circ> np_of) ys)"
    by (simp_all add: order_of_def rev_map [symmetric] sum_list_rev)
  have o: "set (order_of L ys) = set ys" "order_of L ys \<noteq> []" using n(2) by (simp_all add: order_of_def)
  show ?thesis
    using assms(2) s w o d bits_bv_cat [of "map a_value (order_of L ys)"] bits_bv_cat [of "map np_of (order_of L ys)"]
      bv_cat_wf [of "map a_value (order_of L ys)"] bv_cat_wf [of "map np_of (order_of L ys)"]
    by (simp add: int_ok_def av_cat_def np_of_def)
qed

lemma memory_round_trip:
  "memory_layout L \<Longrightarrow> wf_ty L t \<Longrightarrow> packed t \<Longrightarrow> val_ok L t v \<Longrightarrow>
     \<exists>u. toInt L t v = Some u \<and> int_ok L t u \<and> fromInt L t u = Some v"
proof (induction t arbitrary: v)
  case (AggTy k cs ps)
  note m = AggTy.prems(1) and wf = AggTy.prems(2) and pk = AggTy.prems(3)
  have ne: "cs \<noteq> []" using pk by simp
  obtain us where us: "list_all2 (bv_ok L) cs us" "v = av_cat us"
    using av_cat_surj [OF wf ne] AggTy.prems(4) by (auto simp: val_ok_def)
  have "\<forall>i. \<exists>x y. i < length cs \<longrightarrow> fromBV (cs ! i) (us ! i) = Some x \<and> val_ok L (cs ! i) x \<and> toBV (cs ! i) x = Some (us ! i) \<and>
      toInt L (cs ! i) x = Some y \<and> int_ok L (cs ! i) y \<and> fromInt L (cs ! i) y = Some x"
  proof
    fix i
    show "\<exists>x y. i < length cs \<longrightarrow> fromBV (cs ! i) (us ! i) = Some x \<and> val_ok L (cs ! i) x \<and> toBV (cs ! i) x = Some (us ! i) \<and>
      toInt L (cs ! i) x = Some y \<and> int_ok L (cs ! i) y \<and> fromInt L (cs ! i) y = Some x"
    proof (cases "i < length cs")
      case True
      then have "bv_ok L (cs ! i) (us ! i)" using us(1) by (simp add: list_all2_conv_all_nth)
      from fromBV_ok [OF this] obtain x where x: "fromBV (cs ! i) (us ! i) = Some x" "val_ok L (cs ! i) x" "toBV (cs ! i) x = Some (us ! i)" by blast
      have "wf_ty L (cs ! i)" "packed (cs ! i)" using wf pk True by (simp_all add: list_all_length)
      from AggTy.IH [OF nth_mem [OF True] m this x(2)] x show ?thesis by blast
    qed simp
  qed
  then obtain X Y where XY: "\<And>i. i < length cs \<Longrightarrow> fromBV (cs ! i) (us ! i) = Some (X i) \<and> val_ok L (cs ! i) (X i) \<and>
      toBV (cs ! i) (X i) = Some (us ! i) \<and> toInt L (cs ! i) (X i) = Some (Y i) \<and> int_ok L (cs ! i) (Y i) \<and> fromInt L (cs ! i) (Y i) = Some (X i)"
    by metis
  let ?xs = "map X [0..<length cs]" and ?ys = "map Y [0..<length cs]"
  have ys: "list_all2 (int_ok L) cs ?ys" and xs: "list_all2 (val_ok L) cs ?xs" using XY by (simp_all add: list_all2_conv_all_nth)
  have ne': "?ys \<noteq> []" using ne by simp
  have "\<forall>y\<in>set ?ys. a_np y = PBv (np_of y) \<and> wf_bv (a_value y) \<and> wf_bv (np_of y)"
    using XY by (auto simp: int_ok_def)
  then have cat: "int_concat L (tl ?ys) (hd ?ys) = Some (av_cat (order_of L ?ys))"
    using ne' by (intro int_concat_all)
  have "those (map (\<lambda>i. do { x \<leftarrow> extract_elem L (AggTy k cs ps) v i False; toInt L (cs ! i) x }) [0..<length cs]) = Some ?ys"
    by (rule those_all) (use XY slice_cat [OF us(1)] in \<open>simp_all add: extract_elem_def us(2)\<close>)
  then have "toInt L (AggTy k cs ps) v = Some (av_cat (order_of L ?ys))" using cat ne by simp
  moreover have "those (map (\<lambda>i. do { sv \<leftarrow> elem_slice L (AggTy k cs ps) (av_cat (order_of L ?ys)) i True; fromInt L (cs ! i) sv })
      [0..<length cs]) = Some ?xs"
    by (rule those_all) (use XY slice_int [OF ys] in simp_all)
  then have "fromInt L (AggTy k cs ps) (av_cat (order_of L ?ys)) = Some v"
    using rebuild [OF wf pk us(1) xs] XY us(2) by simp
  ultimately show ?case using int_cat_ok [OF ys ne] by blast
qed (use scalar_round_trip in \<open>simp_all del: toInt.simps fromInt.simps\<close>)

text \<open>
  C29 (roundtrip). A value of a type without padding and empty aggregates is written to an integer of the
  width of its type, and reading that back gives the value, whichever byte order
  and granularity of poison the memory has.
\<close>

theorem toInt_fromInt:
  assumes "0 < bits_poison_per_byte L" "0 < bits_byte L" "wf_ty L t" "packed t" "val_ok L t v"
  shows "\<exists>u. toInt L t v = Some u \<and> bits (a_value u) = ty_bits L t \<and> fromInt L t u = Some v"
  using memory_round_trip [OF _ assms(3-5)] assms(1,2) by (auto simp: memory_layout_def int_ok_def)

end
