(* ===== verification/VectorOps.thy ===== *)
theory VectorOps
  imports AggMemory
begin

text \<open>
  Vectors with a symbolic index: \<open>VectorType::extract\<close> and \<open>VectorType::update\<close> of \<open>ir/type.cpp\<close> shift and mask
  the whole vector. They agree with the operations on constant indices.
\<close>

section \<open>The operations\<close>

definition lane_index :: "bv \<Rightarrow> nat \<Rightarrow> nat \<Rightarrow> bv" where
  "lane_index index w n = bvmul (zextOrTrunc index (w * n)) (mk (w * n) (int w))"

definition lane_read :: "nat \<Rightarrow> nat \<Rightarrow> bv \<Rightarrow> bv \<Rightarrow> bv" where
  "lane_read w n vector index =
     bvextract (bvshl vector (lane_index index w n)) (n * w - 1) ((n - 1) * w)"

definition lane_write :: "nat \<Rightarrow> nat \<Rightarrow> bv \<Rightarrow> bv \<Rightarrow> bv \<Rightarrow> bv" where
  "lane_write w n vector x index =
     (let idx = lane_index index w n;
          fill = mk (w * n - w) 0;
          mask = bvnot (bvlshr (bvconcat (mk w (- 1)) fill) idx)
      in bvor (bvand vector mask) (bvlshr (bvconcat x fill) idx))"

definition vec_extract :: "layout \<Rightarrow> ir_type \<Rightarrow> agg_val \<Rightarrow> bv \<Rightarrow> agg_val option" where
  "vec_extract L t vector index =
     (let elementTy = children t ! 0; elements = length (children t) in
      case a_np vector of
        PBool _ \<Rightarrow> None
      | PBv p \<Rightarrow>
          fromBV elementTy
            (av (lane_read (ty_bits L elementTy) elements (a_value vector) index)
                (PBv (lane_read (np_bits L False elementTy) elements p index))))"

definition vec_update :: "layout \<Rightarrow> ir_type \<Rightarrow> agg_val \<Rightarrow> agg_val \<Rightarrow> bv \<Rightarrow> agg_val option" where
  "vec_update L t vector val index =
     (let elementTy = children t ! 0; elements = length (children t) in do {
        val_bv \<leftarrow> toBV elementTy val;
        if elements = 1 then Some val_bv
        else case (a_np vector, a_np val_bv) of
               (PBv p, PBv q) \<Rightarrow>
                 fromBV t
                   (av (lane_write (ty_bits L elementTy) elements (a_value vector) (a_value val_bv) index)
                       (PBv (lane_write (np_bits L False elementTy) elements p q index)))
             | _ \<Rightarrow> None })"

section \<open>Lanes\<close>

lemma bit_bvshl [bv_bits]:
  "bit (uval (bvshl a b)) i \<longleftrightarrow> i < bits a \<and> nat (uval b) \<le> i \<and> bit (uval a) (i - nat (uval b))"
  by (simp add: bvshl_def bit_take_bit_iff bit_push_bit_iff)

lemma bit_bvlshr [bv_bits]: "bit (uval (bvlshr a b)) i \<longleftrightarrow> i < bits a \<and> bit (uval a) (i + nat (uval b))"
  by (simp add: bvlshr_def bit_take_bit_iff bit_drop_bit_eq add.commute)

lemma lane_index_value:
  assumes "wf_bv index" "uval index < int n" "0 < w"
  shows "nat (uval (lane_index index w n)) = nat (uval index) * w"
proof -
  let ?W = "w * n"
  have n: "0 < n" using assms(2) wf_bvD(2) [OF assms(1)] by linarith
  have i: "0 \<le> uval index" using wf_bvD(2) [OF assms(1)] .
  have W: "int ?W < 2 ^ ?W" by (metis less_exp of_nat_less_iff of_nat_numeral of_nat_power)
  have "n \<le> ?W" using assms(3) by simp
  then have iw: "uval index < 2 ^ ?W" using assms(2) W by linarith
  have W0: "0 < ?W" using n assms(3) by simp
  have z: "uval (zextOrTrunc index ?W) = uval index"
    using iw i assms(1) W0 by (auto simp: zextOrTrunc_def zext_eq trunc_eq bvtrunc_def take_bit_int_eq_self)
  have "w \<le> ?W" using n by simp
  then have "int w < 2 ^ ?W" using W by linarith
  then have m: "take_bit ?W (int w) = int w" by (simp add: take_bit_int_eq_self)
  have "uval index * int w < int n * int w" using assms(2,3) by simp
  then have "uval index * int w < 2 ^ ?W" using W by (simp add: mult.commute)
  moreover have b: "bits (zextOrTrunc index ?W) = ?W" using W0 assms(1)
    by (auto simp: zextOrTrunc_def zext_eq trunc_eq bvtrunc_def)
  ultimately have "uval (lane_index index w n) = uval index * int w"
    using z m i by (simp add: lane_index_def bvmul_def take_bit_int_eq_self)
  then show ?thesis using i by (simp add: nat_mult_distrib)
qed


lemma lane_extent:
  assumes "j < n" shows "extent False (replicate n w) j = ((n - j) * w - 1, (n - 1 - j) * w)"
proof -
  have "n * w - j * w - w = (n - 1 - j) * w" using assms by (simp add: diff_mult_distrib)
  then show ?thesis using assms by (simp add: extent_def Let_def sum_list_replicate min_absorb1 diff_mult_distrib)
qed

lemma lane_low: "j < n \<Longrightarrow> (n - j) * w = (n - 1 - j) * w + (w :: nat)"
  by (cases n) (simp_all add: Suc_diff_le)

lemma lane_read_extract:
  assumes v: "wf_bv v" "bits v = n * w" and i: "wf_bv index" "uval index < int n" and w: "0 < w"
  shows "lane_read w n v index = bvextract v ((n - nat (uval index)) * w - 1) ((n - 1 - nat (uval index)) * w)"
proof -
  let ?j = "nat (uval index)"
  have j: "?j < n" using i wf_bvD(2) [OF i(1)] by linarith
  note x = lane_index_value [OF i w] and lo = lane_low [OF j, of w] lane_low [of 0 n w]
  have e: "(n - 1) * w = (n - 1 - ?j) * w + ?j * w" using j by (simp add: diff_mult_distrib [symmetric] add_mult_distrib [symmetric])
  show ?thesis
  proof (rule bv_eqI)
    fix k assume "k < bits (lane_read w n v index)"
    then have k: "k < w" using lo(2) j w by (simp add: lane_read_def)
    have "k + (n - 1) * w < n * w" using lo(2) j k by simp
    moreover have "k + (n - 1) * w - ?j * w = k + (n - 1 - ?j) * w" using e by simp
    ultimately show "bit (uval (lane_read w n v index)) k = bit (uval (bvextract v ((n - ?j) * w - 1) ((n - 1 - ?j) * w))) k"
      using k lo j v e by (simp add: lane_read_def bv_bits x)
  next
    have "a \<le> a + w - 1" for a using w by simp
    then show "wf_bv (lane_read w n v index)" "wf_bv (bvextract v ((n - ?j) * w - 1) ((n - 1 - ?j) * w))"
      using lo j by (simp_all add: lane_read_def)
  qed (use lo j w in \<open>simp add: lane_read_def\<close>)
qed

text \<open>A value shifted to the lane of an index covers that lane and no other.\<close>

lemma lane_shifted:
  assumes x: "wf_bv x" "bits x = w" and i: "wf_bv index" "uval index < int n" and j: "j < n" and n: "1 < n" and b: "b < w"
  shows "bit (uval (bvlshr (bvconcat x (mk (w * n - w) 0)) (lane_index index w n))) ((n - 1 - j) * w + b) \<longleftrightarrow>
    nat (uval index) = j \<and> bit (uval x) b"
proof -
  let ?i = "nat (uval index)" and ?f = "mk (w * n - w) 0"
  have w: "0 < w" using b by simp
  have i': "?i < n" using i wf_bvD(2) [OF i(1)] by linarith
  have f: "w * n - w = (n - 1) * w" "0 < (n - 1) * w" using n w by (auto simp: algebra_simps diff_mult_distrib)
  note v = lane_index_value [OF i w]
  let ?q = "(n - 1 - j) * w + b + ?i * w"
  have q: "?q + j * w = (n - 1) * w + b + ?i * w"
  proof -
    have "(n - 1 - j) * w + j * w = (n - 1) * w" using j by (simp add: add_mult_distrib [symmetric])
    then show ?thesis by simp
  qed
  have "bit (uval (bvconcat x ?f)) ?q \<longleftrightarrow> (n - 1) * w \<le> ?q \<and> bit (uval x) (?q - (n - 1) * w)"
    using f by (simp add: bit_bvconcat)
  also have "\<dots> \<longleftrightarrow> ?i = j \<and> bit (uval x) b"
  proof (cases ?i j rule: linorder_cases)
    case less
    then have "Suc ?i * w \<le> j * w" by (intro mult_right_mono) auto
    then have "?q < (n - 1) * w" using q b by simp
    then show ?thesis using less by simp
  next
    case equal
    then have "?q = (n - 1) * w + b" using q by simp
    then show ?thesis unfolding \<open>?q = (n - 1) * w + b\<close> using equal by simp
  next
    case greater
    then have "Suc j * w \<le> ?i * w" by (intro mult_right_mono) auto
    then have "w \<le> ?q - (n - 1) * w" using q by simp
    then have "\<not> bit (uval x) (?q - (n - 1) * w)" using bit_bound [OF x(1), of "?q - (n - 1) * w"] x(2) by linarith
    then show ?thesis using greater by simp
  qed
  moreover have "(n - 1 - j) * w + b < w + (n - 1) * w" using b by (simp add: add_strict_mono mult_le_mono1 add.commute add_less_le_mono)
  ultimately show ?thesis using x(2) f by (simp add: bv_bits v)
qed

lemma lane_write_read:
  assumes v: "wf_bv v" "bits v = n * w" and x: "wf_bv x" "bits x = w" and i: "wf_bv index" "uval index < int n"
    and j: "j < n" and n: "1 < n"
  shows "bvextract (lane_write w n v x index) ((n - j) * w - 1) ((n - 1 - j) * w) =
    (if nat (uval index) = j then x else bvextract v ((n - j) * w - 1) ((n - 1 - j) * w))"
proof -
  have w: "0 < w" using wf_bvD(1) [OF x(1)] x(2) by simp
  note lo = lane_low [OF j, of w]
  have o: "wf_bv (mk w (- 1))" using w by simp
  have bits: "bit (uval (bvextract (lane_write w n v x index) ((n - j) * w - 1) ((n - 1 - j) * w))) b \<longleftrightarrow>
      (if nat (uval index) = j then bit (uval x) b else bit (uval v) ((n - 1 - j) * w + b))" if b: "b < w" for b
  proof -
    have "(n - j) * w \<le> n * w" by (intro mult_right_mono) auto
    then have p: "(n - 1 - j) * w + b < n * w" using lo b by linarith
    have "w * n - w + w = n * w" using n by (simp add: algebra_simps)
    then have f: "w + (w * n - w) = n * w" by simp
    show ?thesis
      using lane_shifted [OF x i j n b] lane_shifted [OF o _ i j n b] b lo p v(2) x(2) f
      by (simp add: bv_bits lane_write_def Let_def add.commute bit_mask_iff)
  qed
  show ?thesis
  proof (rule bv_eqI)
    fix k assume "k < bits (bvextract (lane_write w n v x index) ((n - j) * w - 1) ((n - 1 - j) * w))"
    then have k: "k < w" using lo w by simp
    then show "bit (uval (bvextract (lane_write w n v x index) ((n - j) * w - 1) ((n - 1 - j) * w))) k =
        bit (uval (if nat (uval index) = j then x else bvextract v ((n - j) * w - 1) ((n - 1 - j) * w))) k"
      unfolding bits [OF k] using lo by (simp add: bit_bvextract add.commute)
  qed (use lo w x in auto)
qed


section \<open>Vectors\<close>

lemma lane_write_ok:
  assumes "wf_bv v" "bits v = n * w" "0 < n * w"
  shows "wf_bv (lane_write w n v x index) \<and> bits (lane_write w n v x index) = n * w"
  using assms by (simp add: lane_write_def Let_def)

definition vector_of :: "nat \<Rightarrow> ir_type \<Rightarrow> ir_type" where
  "vector_of n t = AggTy VectorK (replicate n t) (replicate n False)"

lemma vector_of_simps [simp]:
  "children (vector_of n t) = replicate n t" "isAggregateType (vector_of n t)"
  "0 < n \<Longrightarrow> ty_bits L (vector_of n t) = n * ty_bits L t" "0 < n \<Longrightarrow> np_bits L b (vector_of n t) = n * np_bits L b t"
  by (simp_all add: vector_of_def sum_list_replicate)

lemma vector_slice:
  assumes "bv_ok L (vector_of n t) v" "j < n"
  shows "elem_slice L (vector_of n t) v j False =
    Some (av (bvextract (a_value v) ((n - j) * ty_bits L t - 1) ((n - 1 - j) * ty_bits L t))
             (PBv (bvextract (np_of v) ((n - j) * np_bits L False t - 1) ((n - 1 - j) * np_bits L False t))))"
  using assms bv_okD [OF assms(1)] lane_extent [OF assms(2)] by (simp add: elem_slice_def map_replicate)

text \<open>
  Reading a vector at a symbolic index in range reads the element of that index.
\<close>

lemma vector_symbolic_read:
  assumes "0 < ty_bits L t" "0 < n" "val_ok L (vector_of n t) v" "wf_bv index" "uval index < int n"
  shows "vec_extract L (vector_of n t) v index = extract_elem L (vector_of n t) v (nat (uval index)) False"
proof -
  let ?j = "nat (uval index)"
  have j: "?j < n" using assms(5) wf_bvD(2) [OF assms(4)] by linarith
  have ok: "bv_ok L (vector_of n t) v" using assms(3) by (simp add: val_ok_def)
  note d = bv_okD [OF ok]
  have "vec_extract L (vector_of n t) v index = fromBV t
      (av (bvextract (a_value v) ((n - ?j) * ty_bits L t - 1) ((n - 1 - ?j) * ty_bits L t))
          (PBv (bvextract (np_of v) ((n - ?j) * np_bits L False t - 1) ((n - 1 - ?j) * np_bits L False t))))"
    using lane_read_extract [of "a_value v" n "ty_bits L t" index] lane_read_extract [of "np_of v" n "np_bits L False t" index]
      d assms(1,2,4,5) np_bits_pos [of L t] by (simp add: vec_extract_def Let_def)
  then show ?thesis using vector_slice [OF ok j] j by (simp add: extract_elem_def)
qed

text \<open>
  Writing an element of a vector at a symbolic index in range gives a vector of the
  type with that element replaced and all others kept, poison included.
\<close>

lemma vector_read_over_write:
  assumes "0 < ty_bits L t" "0 < n" "val_ok L (vector_of n t) v" "val_ok L t x" "wf_bv index" "uval index < int n"
  shows "\<exists>u. vec_update L (vector_of n t) v x index = Some u \<and> val_ok L (vector_of n t) u \<and>
    (\<forall>j<n. extract_elem L (vector_of n t) u j False =
       (if j = nat (uval index) then Some x else extract_elem L (vector_of n t) v j False))"
proof -
  have ok: "bv_ok L (vector_of n t) v" using assms(3) by (simp add: val_ok_def)
  obtain y where y: "toBV t x = Some y" "bv_ok L t y" "fromBV t y = Some x" using toBV_ok [OF assms(4)] by blast
  note d = bv_okD [OF ok] and e = bv_okD [OF y(2)] and p = np_bits_pos [of L t]
  have yy: "av (a_value y) (PBv (np_of y)) = y" using e av_eq [of y] by simp
  show ?thesis
  proof (cases "n = 1")
    case True
    have ov: "bv_ok L (vector_of n t) y" using y(2) True by (simp add: bv_ok_def split: np.splits)
    have "vec_update L (vector_of n t) v x index = Some y" using True y(1) by (simp add: vec_update_def)
    moreover have "uval index = 0" using assms(6) True wf_bvD(2) [OF assms(5)] by simp
    moreover have "elem_slice L (vector_of n t) y 0 False = Some y"
      using vector_slice [OF ov, of 0] True e yy extract_all [of "a_value y"] extract_all [of "np_of y"] by simp
    ultimately show ?thesis using ov True y(3) by (simp add: val_ok_def extract_elem_def)
  next
    case False
    then have n: "1 < n" using assms(2) by simp
    let ?u = "av (lane_write (ty_bits L t) n (a_value v) (a_value y) index) (PBv (lane_write (np_bits L False t) n (np_of v) (np_of y) index))"
    have "vec_update L (vector_of n t) v x index = fromBV (vector_of n t) ?u"
      using d e y(1) n by (simp add: vec_update_def)
    then have u: "vec_update L (vector_of n t) v x index = Some ?u" by (simp add: vector_of_def)
    have uok: "bv_ok L (vector_of n t) ?u"
      using lane_write_ok [of "a_value v" n "ty_bits L t"] lane_write_ok [of "np_of v" n "np_bits L False t"] d p assms(1,2)
      by (simp add: bv_ok_def)
    have nu: "np_of ?u = lane_write (np_bits L False t) n (np_of v) (np_of y) index" by (simp add: np_of_def)
    have "extract_elem L (vector_of n t) ?u j False =
       (if j = nat (uval index) then Some x else extract_elem L (vector_of n t) v j False)" if j: "j < n" for j
    proof -
      have w: "bvextract (lane_write (ty_bits L t) n (a_value v) (a_value y) index) ((n - j) * ty_bits L t - 1) ((n - 1 - j) * ty_bits L t) =
          (if nat (uval index) = j then a_value y else bvextract (a_value v) ((n - j) * ty_bits L t - 1) ((n - 1 - j) * ty_bits L t))"
        "bvextract (lane_write (np_bits L False t) n (np_of v) (np_of y) index) ((n - j) * np_bits L False t - 1) ((n - 1 - j) * np_bits L False t) =
          (if nat (uval index) = j then np_of y else bvextract (np_of v) ((n - j) * np_bits L False t - 1) ((n - 1 - j) * np_bits L False t))"
        by (rule lane_write_read; use d e assms(2,5,6) j n in simp)+
      have "elem_slice L (vector_of n t) ?u j False = (if nat (uval index) = j then Some y else elem_slice L (vector_of n t) v j False)"
        unfolding vector_slice [OF uok j] vector_slice [OF ok j] nu av_sel w using yy by simp
      then show ?thesis using y(3) j by (auto simp: extract_elem_def)
    qed
    then show ?thesis using u uok by (auto simp: val_ok_def)
  qed
qed

end
