(* ===== verification/AggInstr.thy ===== *)
theory AggInstr
  imports VectorOps Instr
begin

text \<open>
  The instructions of \<open>ir/instr.cpp\<close> on aggregates: \<open>extractvalue\<close>, \<open>insertvalue\<close>, \<open>extractelement\<close>,
  \<open>insertelement\<close>, \<open>shufflevector\<close>, and the vector case of the integer operations.
\<close>

section \<open>Elements at constant indices\<close>

fun extractvalue :: "layout \<Rightarrow> ir_type \<Rightarrow> nat list \<Rightarrow> agg_val \<Rightarrow> agg_val option" where
  "extractvalue L t [] v = Some v"
| "extractvalue L (AggTy k cs ps) (i # idxs) v = do {
     x \<leftarrow> extract_elem L (AggTy k cs ps) v i False;
     extractvalue L (cs ! i) idxs x }"
| "extractvalue L t (i # idxs) v = None"

text \<open>The indices come in the order in which \<open>update_repack\<close> takes them off its reversed list.\<close>

fun update_repack :: "layout \<Rightarrow> ir_type \<Rightarrow> agg_val \<Rightarrow> agg_val \<Rightarrow> nat list \<Rightarrow> agg_val option" where
  "update_repack L (AggTy k cs ps) val elem (cur_idx # indices) = do {
     vals \<leftarrow> those (map (\<lambda>i. do {
         v \<leftarrow> extract_elem L (AggTy k cs ps) val i False;
         if i = cur_idx then if indices = [] then Some elem else update_repack L (cs ! i) v elem indices
         else Some v }) (filter (\<lambda>i. \<not> ps ! i) [0..<length cs]));
     aggregateVals L (AggTy k cs ps) vals }"
| "update_repack L t val elem indices = None"

definition insertvalue :: "layout \<Rightarrow> ir_type \<Rightarrow> nat list \<Rightarrow> agg_val \<Rightarrow> agg_val \<Rightarrow> agg_val option" where
  "insertvalue L t idxs val elem = update_repack L t val elem idxs"

section \<open>Elements at symbolic indices\<close>

definition to_sv :: "agg_val \<Rightarrow> state_value option" where
  "to_sv v = (case a_np v of PBool b \<Rightarrow> Some (sv (a_value v) b) | PBv _ \<Rightarrow> None)"

definition of_sv :: "state_value \<Rightarrow> agg_val" where
  "of_sv x = av (sv_value x) (PBool (non_poison x))"

text \<open>The bound is a numeral of the width of the index, so it wraps when the index is too narrow for it.\<close>

definition inbounds :: "bv \<Rightarrow> nat \<Rightarrow> bool" where
  "inbounds iv n \<longleftrightarrow> bvult iv (mk (bits iv) (int n))"

definition extractelement :: "layout \<Rightarrow> ir_type \<Rightarrow> agg_val \<Rightarrow> state_value \<Rightarrow> state_value option" where
  "extractelement L t v idx = do {
     r \<leftarrow> vec_extract L t v (sv_value idx);
     x \<leftarrow> to_sv r;
     Some (sv (sv_value x) (non_poison idx \<and> inbounds (sv_value idx) (length (children t)) \<and> non_poison x)) }"

definition insertelement :: "layout \<Rightarrow> ir_type \<Rightarrow> agg_val \<Rightarrow> agg_val \<Rightarrow> state_value \<Rightarrow> agg_val option" where
  "insertelement L t v e idx = do {
     r \<leftarrow> vec_update L t v e (sv_value idx);
     d \<leftarrow> getDummyValue L False t;
     Some (av (a_value r)
       (if non_poison idx \<and> inbounds (sv_value idx) (length (children t)) then a_np r else a_np d)) }"

definition shuffle_lane :: "layout \<Rightarrow> ir_type \<Rightarrow> agg_val \<Rightarrow> agg_val \<Rightarrow> nat \<Rightarrow> agg_val option" where
  "shuffle_lane L t v1 v2 m =
     (let sz = length (children t) in
      if 2 * sz \<le> m then getDummyValue L False (children t ! 0)
      else extract_elem L t (if m < sz then v1 else v2) (m mod sz) False)"

definition shufflevector :: "layout \<Rightarrow> ir_type \<Rightarrow> ir_type \<Rightarrow> agg_val \<Rightarrow> agg_val \<Rightarrow> nat list \<Rightarrow> agg_val option" where
  "shufflevector L retty t v1 v2 msk = do {
     vals \<leftarrow> those (map (shuffle_lane L t v1 v2) msk);
     aggregateVals L retty vals }"

section \<open>Operations on every lane\<close>

definition lanes :: "layout \<Rightarrow> ir_type \<Rightarrow> agg_val \<Rightarrow> state_value list option" where
  "lanes L t v = those (map (\<lambda>i. do { x \<leftarrow> extract_elem L t v i False; to_sv x }) [0..<length (children t)])"

definition binop_lanes ::
  "layout \<Rightarrow> ir_type \<Rightarrow> ir_type \<Rightarrow> operand_facts \<Rightarrow> operand_facts \<Rightarrow> binop \<Rightarrow> binop_flags \<Rightarrow> agg_val \<Rightarrow> agg_val \<Rightarrow> agg_val option"
where
  "binop_lanes L retty opty fa fb op fl a b = do {
     as \<leftarrow> lanes L opty a;
     bs \<leftarrow> (if op \<in> {Abs, Cttz, Ctlz} then map_option (\<lambda>x. [x]) (to_sv b) else lanes L opty b);
     aggregateVals L retty (map of_sv (binop_vector fa fb (ty_bits L (children retty ! 0)) op fl as bs)) }"

definition unop_lanes :: "layout \<Rightarrow> ir_type \<Rightarrow> ir_type \<Rightarrow> unop \<Rightarrow> agg_val \<Rightarrow> agg_val option" where
  "unop_lanes L retty t op v = do {
     vs \<leftarrow> lanes L t v;
     aggregateVals L retty (map (\<lambda>x. of_sv (unop_scalar op x)) vs) }"

definition ternop_lanes :: "layout \<Rightarrow> ir_type \<Rightarrow> ternop \<Rightarrow> agg_val \<Rightarrow> agg_val \<Rightarrow> agg_val \<Rightarrow> agg_val option" where
  "ternop_lanes L t op a b c = do {
     as \<leftarrow> lanes L t a;
     bs \<leftarrow> lanes L t b;
     cs \<leftarrow> (if op = FShl \<or> op = FShr then lanes L t c
            else map_option (\<lambda>x. replicate (length (children t)) x) (to_sv c));
     aggregateVals L t (map (\<lambda>(x, y, z). of_sv (ternop_scalar op x y z)) (zip as (zip bs cs))) }"

definition conv_lanes :: "layout \<Rightarrow> ir_type \<Rightarrow> ir_type \<Rightarrow> convop \<Rightarrow> conv_flags \<Rightarrow> agg_val \<Rightarrow> agg_val option" where
  "conv_lanes L retty valty op fl v = do {
     vs \<leftarrow> lanes L valty v;
     aggregateVals L retty (map (\<lambda>(x, t). of_sv (conv_scalar op fl (ty_bits L t) x)) (zip vs (children retty))) }"

definition icmp_lanes :: "layout \<Rightarrow> ir_type \<Rightarrow> ir_type \<Rightarrow> icmp_cond \<Rightarrow> bool \<Rightarrow> agg_val \<Rightarrow> agg_val \<Rightarrow> agg_val option" where
  "icmp_lanes L retty t c samesign a b = do {
     as \<leftarrow> lanes L t a;
     bs \<leftarrow> lanes L t b;
     aggregateVals L retty (map2 (\<lambda>x y. of_sv (icmp_scalar c samesign x y)) as bs) }"

section \<open>Elements of well-formed aggregates\<close>

lemma extract_ok:
  assumes "wf_ty L (AggTy k cs ps)" "val_ok L (AggTy k cs ps) v" "i < length cs"
  shows "\<exists>x. extract_elem L (AggTy k cs ps) v i False = Some x \<and> val_ok L (cs ! i) x"
proof -
  have "cs \<noteq> []" using assms(3) by auto
  then obtain us where us: "list_all2 (bv_ok L) cs us" "v = av_cat us"
    using av_cat_surj [OF assms(1)] assms(2) by (auto simp: val_ok_def)
  have "bv_ok L (cs ! i) (us ! i)" using us(1) assms(3) by (simp add: list_all2_conv_all_nth)
  from fromBV_ok [OF this] show ?thesis using slice_cat [OF us(1) assms(3)] assms(3) us(2)
    by (auto simp: extract_elem_def)
qed

lemma upt_split_at: "j < n \<Longrightarrow> [0..<n] = [0..<j] @ j # [Suc j..<n]"
  using upt_add_eq_append [of 0 j "n - j"] upt_conv_Cons [of j n] by simp

lemma filter_nth_self: "P j \<Longrightarrow> j < n \<Longrightarrow> filter P [0..<n] ! length (filter P [0..<j]) = j"
proof -
  assume p: "P j" "j < n"
  then show ?thesis unfolding upt_split_at [OF p(2)] by (simp add: nth_append)
qed

lemma nonpad_position:
  assumes "j < length ps" "\<not> ps ! j"
  shows "length (filter (\<lambda>i. \<not> ps ! i) [0..<j]) = j - countPaddings (AggTy k cs ps) j"
proof -
  have "length (filter (\<lambda>i. \<not> ps ! i) [0..<j]) + length (filter (\<lambda>p. p) (take j ps)) = j" using assms(1)
  proof (induction j)
    case (Suc j)
    then show ?case by (simp add: take_Suc_conv_app_nth)
  qed simp
  moreover have "countPaddings (AggTy k cs ps) j = length (filter (\<lambda>p. p) (take j ps))"
    using assms by (simp add: countPaddings_def take_Suc_conv_app_nth)
  ultimately show ?thesis by simp
qed

lemma nonpad_count:
  assumes "length cs = length ps"
  shows "length (filter (\<lambda>i. \<not> ps ! i) [0..<length cs]) + numPaddingsConst (AggTy k cs ps) = length cs"
proof -
  have "length (filter (\<lambda>i. \<not> ps ! i) [0..<j]) + length (filter (\<lambda>p. p) (take j ps)) = j" if "j \<le> length ps" for j
    using that
  proof (induction j)
    case (Suc j)
    then show ?case by (simp add: take_Suc_conv_app_nth)
  qed simp
  from this [of "length ps"] show ?thesis
    using assms by (cases "ps = []") (simp_all add: numPaddingsConst_def countPaddings_def)
qed

text \<open>An aggregate rebuilt from new values for its elements has these elements.\<close>

lemma repack:
  assumes wf: "wf_ty L (AggTy k cs ps)"
    and f: "\<And>i. i < length cs \<Longrightarrow> \<not> ps ! i \<Longrightarrow> \<exists>x. f i = Some x \<and> val_ok L (cs ! i) x"
  shows "\<exists>u. do { vals \<leftarrow> those (map f (filter (\<lambda>i. \<not> ps ! i) [0..<length cs])); aggregateVals L (AggTy k cs ps) vals } = Some u \<and>
    val_ok L (AggTy k cs ps) u \<and> (\<forall>i<length cs. \<not> ps ! i \<longrightarrow> extract_elem L (AggTy k cs ps) u i False = f i)"
proof -
  have len: "length cs = length ps" using wf by simp
  let ?js = "filter (\<lambda>i. \<not> ps ! i) [0..<length cs]"
  define vals where "vals = map (\<lambda>i. the (f i)) ?js"
  have m: "map f ?js = map Some vals" using f by (fastforce simp: vals_def)
  have th: "those (map Some xs) = Some xs" for xs :: "agg_val list" by (induction xs) auto
  have at: "vals ! (i - countPaddings (AggTy k cs ps) i) = the (f i)" if "i < length cs" "\<not> ps ! i" for i
  proof -
    have e: "?js ! (i - countPaddings (AggTy k cs ps) i) = i"
      using filter_nth_self [of "\<lambda>i. \<not> ps ! i" i "length cs"] nonpad_position [of i ps k cs] that len by simp
    have "length (filter (\<lambda>i. \<not> ps ! i) [0..<i]) < length ?js"
      unfolding upt_split_at [OF that(1)] using that(2) by simp
    then show ?thesis using e nonpad_position [of i ps k cs] that len by (simp add: vals_def)
  qed
  have n: "length vals + numPaddingsConst (AggTy k cs ps) = length cs" using nonpad_count [OF len] by (simp add: vals_def)
  have ok: "val_ok L (cs ! i) (vals ! (i - countPaddings (AggTy k cs ps) i))" if "i < length cs" "\<not> ps ! i" for i
    using f [OF that] at [OF that] by auto
  from aggregate_elements [OF wf n ok] obtain u where u: "aggregateVals L (AggTy k cs ps) vals = Some u" "val_ok L (AggTy k cs ps) u"
    "\<forall>i<length cs. \<not> ps ! i \<longrightarrow> extract_elem L (AggTy k cs ps) u i False = Some (vals ! (i - countPaddings (AggTy k cs ps) i))" by blast
  have "extract_elem L (AggTy k cs ps) u i False = f i" if "i < length cs" "\<not> ps ! i" for i
    using u(3) that at [OF that] f [OF that] by auto
  then show ?thesis using u(1,2) m th by auto
qed


section \<open>Paths into an aggregate\<close>

fun type_at :: "ir_type \<Rightarrow> nat list \<Rightarrow> ir_type option" where
  "type_at t [] = Some t"
| "type_at (AggTy k cs ps) (i # idxs) = (if i < length cs \<and> \<not> ps ! i then type_at (cs ! i) idxs else None)"
| "type_at t (i # idxs) = None"

fun apart :: "nat list \<Rightarrow> nat list \<Rightarrow> bool" where
  "apart (i # p) (j # q) \<longleftrightarrow> i \<noteq> j \<or> apart p q"
| "apart p q \<longleftrightarrow> False"

lemma insert_path:
  "wf_ty L t \<Longrightarrow> val_ok L t v \<Longrightarrow> p \<noteq> [] \<Longrightarrow> type_at t p = Some te \<Longrightarrow> val_ok L te e \<Longrightarrow>
    \<exists>u. update_repack L t v e p = Some u \<and> val_ok L t u \<and> extractvalue L t p u = Some e \<and>
      (\<forall>q. apart p q \<longrightarrow> type_at t q \<noteq> None \<longrightarrow> extractvalue L t q u = extractvalue L t q v)"
proof (induction p arbitrary: t v)
  case (Cons i p)
  obtain k cs ps where t: "t = AggTy k cs ps" using Cons.prems(4) by (cases t) auto
  note wf = Cons.prems(1) [unfolded t] and ok = Cons.prems(2) [unfolded t]
  have i: "i < length cs" "\<not> ps ! i" "type_at (cs ! i) p = Some te" using Cons.prems(4) t by (auto split: if_splits)
  obtain x where x: "extract_elem L (AggTy k cs ps) v i False = Some x" "val_ok L (cs ! i) x" using extract_ok [OF wf ok i(1)] by blast
  have wi: "wf_ty L (cs ! i)" using wf i(1) by (simp add: list_all_length)
  define f where "f j = do { y \<leftarrow> extract_elem L (AggTy k cs ps) v j False;
      if j = i then if p = [] then Some e else update_repack L (cs ! j) y e p else Some y }" for j
  have fi: "\<exists>y. f i = Some y \<and> val_ok L (cs ! i) y \<and> extractvalue L (cs ! i) p y = Some e \<and>
      (\<forall>q. apart p q \<longrightarrow> type_at (cs ! i) q \<noteq> None \<longrightarrow> extractvalue L (cs ! i) q y = extractvalue L (cs ! i) q x)"
  proof (cases "p = []")
    case True
    then show ?thesis using x i(3) Cons.prems(5) by (simp add: f_def)
  next
    case False
    then show ?thesis using Cons.IH [OF wi x(2) False i(3) Cons.prems(5)] x(1) by (simp add: f_def)
  qed
  have "\<exists>y. f j = Some y \<and> val_ok L (cs ! j) y" if "j < length cs" "\<not> ps ! j" for j
    using fi extract_ok [OF wf ok that(1)] by (cases "j = i") (auto simp: f_def)
  from repack [OF wf, of f, OF this] obtain u where u:
    "do { vals \<leftarrow> those (map f (filter (\<lambda>i. \<not> ps ! i) [0..<length cs])); aggregateVals L (AggTy k cs ps) vals } = Some u"
    "val_ok L (AggTy k cs ps) u" "\<forall>i<length cs. \<not> ps ! i \<longrightarrow> extract_elem L (AggTy k cs ps) u i False = f i" by blast
  have "update_repack L t v e (i # p) = Some u" using u(1) by (simp add: t f_def [abs_def])
  moreover have "extractvalue L t (i # p) u = Some e" using fi u(3) i by (auto simp: t)
  moreover have "extractvalue L t q u = extractvalue L t q v" if q: "apart (i # p) q" "type_at t q \<noteq> None" for q
  proof -
    obtain j r where r: "q = j # r" using q(1) by (cases q) auto
    have j: "j < length cs" "\<not> ps ! j" "type_at (cs ! j) r \<noteq> None" using q(2) by (auto simp: r t split: if_splits)
    then have uj: "extract_elem L (AggTy k cs ps) u j False = f j" using u(3) by blast
    show ?thesis
    proof (cases "j = i")
      case True
      then show ?thesis using fi uj q(1) j(3) x(1) by (auto simp: r t)
    next
      case False
      then show ?thesis using uj extract_ok [OF wf ok j(1)] by (auto simp: r t f_def)
    qed
  qed
  ultimately show ?case using u(2) t by blast
qed simp

text \<open>
  C28 (functional). \<open>insertvalue\<close> at a path that exists gives a value of the same type; \<open>extractvalue\<close>
  finds the inserted element at that path, and what it found before at every other path.
\<close>

theorem insertvalue_extractvalue:
  assumes "wf_ty L t" "val_ok L t v" "p \<noteq> []" "type_at t p = Some te" "val_ok L te e"
  shows "\<exists>u. insertvalue L t p v e = Some u \<and> val_ok L t u \<and> extractvalue L t p u = Some e \<and>
    (\<forall>q. apart p q \<longrightarrow> type_at t q \<noteq> None \<longrightarrow> extractvalue L t q u = extractvalue L t q v)"
  unfolding insertvalue_def by (rule insert_path [OF assms])


section \<open>Vectors\<close>

lemma vector_wf: "wf_ty L t \<Longrightarrow> wf_ty L (vector_of n t)"
  by (simp add: vector_of_def list_all_iff)

lemma vector_extract_ok:
  "wf_ty L t \<Longrightarrow> val_ok L (vector_of n t) v \<Longrightarrow> i < n \<Longrightarrow>
     \<exists>x. extract_elem L (vector_of n t) v i False = Some x \<and> val_ok L t x"
  using extract_ok [of L VectorK "replicate n t" "replicate n False" v i] vector_wf [of L t n] by (simp add: vector_of_def)

text \<open>A vector built from its lanes.\<close>

lemma vector_build:
  assumes "wf_ty L t" "\<And>i. i < n \<Longrightarrow> val_ok L t (vals ! i)" "length vals = n"
  shows "\<exists>v. aggregateVals L (vector_of n t) vals = Some v \<and> val_ok L (vector_of n t) v \<and>
    (\<forall>i<n. extract_elem L (vector_of n t) v i False = Some (vals ! i))"
proof -
  have c: "countPaddings (vector_of n t) i = 0" for i by (simp add: countPaddings_def vector_of_def)
  have "numPaddingsConst (vector_of n t) = 0" by (simp add: numPaddingsConst_def c)
  then show ?thesis
    using aggregate_elements [of L VectorK "replicate n t" "replicate n False" vals] vector_wf [OF assms(1), of n] assms(2,3) c
    unfolding vector_of_def by simp
qed

lemma those_map:
  assumes "\<And>x. x \<in> set xs \<Longrightarrow> f x = Some (h x)" shows "those (map f xs) = Some (map h xs)"
  using assms by (induction xs) auto

lemma scalar_sv:
  assumes "val_ok L t x" "\<not> isAggregateType t"
  shows "\<exists>y. to_sv x = Some y \<and> of_sv y = x \<and> wf_sv (ty_bits L t) y"
  using assms av_eq [of x] by (auto simp: val_ok_def to_sv_def of_sv_def wf_sv_def sv_def split: np.splits)

lemma of_sv_ok: "wf_sv (ty_bits L t) y \<Longrightarrow> \<not> isAggregateType t \<Longrightarrow> val_ok L t (of_sv y)"
  by (simp add: val_ok_def of_sv_def wf_sv_def)

lemma to_of_sv: "to_sv (of_sv y) = Some y"
  by (simp add: to_sv_def of_sv_def sv_def)

lemma lanes_ok:
  assumes "wf_ty L t" "\<not> isAggregateType t" "val_ok L (vector_of n t) v"
  shows "\<exists>ys. lanes L (vector_of n t) v = Some ys \<and> length ys = n \<and>
    (\<forall>i<n. extract_elem L (vector_of n t) v i False = Some (of_sv (ys ! i)) \<and> wf_sv (ty_bits L t) (ys ! i))"
proof -
  have "\<exists>y. extract_elem L (vector_of n t) v i False = Some (of_sv y) \<and> wf_sv (ty_bits L t) y" if "i < n" for i
    using vector_extract_ok [OF assms(1,3) that] scalar_sv [OF _ assms(2)] by metis
  then obtain Y where Y: "\<And>i. i < n \<Longrightarrow> extract_elem L (vector_of n t) v i False = Some (of_sv (Y i)) \<and> wf_sv (ty_bits L t) (Y i)"
    by metis
  have "lanes L (vector_of n t) v = Some (map Y [0..<n])"
    unfolding lanes_def by (simp, rule those_map) (use Y to_of_sv in simp)
  then show ?thesis using Y by simp
qed

text \<open>
  Every lane of a \<open>shufflevector\<close> is the lane of the operands its index selects, and
  poison where the index selects none.
\<close>

theorem shufflevector_lanes:
  assumes "wf_ty L t" "\<not> isAggregateType t" "0 < n" "val_ok L (vector_of n t) v1" "val_ok L (vector_of n t) v2" "msk \<noteq> []"
  shows "\<exists>u. shufflevector L (vector_of (length msk) t) (vector_of n t) v1 v2 msk = Some u \<and>
    val_ok L (vector_of (length msk) t) u \<and>
    (\<forall>i < length msk. extract_elem L (vector_of (length msk) t) u i False =
       (if msk ! i < n then extract_elem L (vector_of n t) v1 (msk ! i) False
        else if msk ! i < 2 * n then extract_elem L (vector_of n t) v2 (msk ! i - n) False
        else Some (av (mk (ty_bits L t) 0) (PBool False))))"
proof -
  define lane where "lane m = (if m < n then extract_elem L (vector_of n t) v1 m False
        else if m < 2 * n then extract_elem L (vector_of n t) v2 (m - n) False
        else Some (av (mk (ty_bits L t) 0) (PBool False)))" for m
  have d: "getDummyValue L False t = Some (av (mk (ty_bits L t) 0) (PBool False))" using assms(2) by (cases t) auto
  have sl: "shuffle_lane L (vector_of n t) v1 v2 m = lane m" for m
    using assms(3) d by (auto simp: shuffle_lane_def lane_def Let_def mod_if)
  have "val_ok L t (av (mk (ty_bits L t) 0) (PBool False))" using assms(1,2) ty_bits_pos [OF assms(1)] by (simp add: val_ok_def)
  then have ok: "\<exists>x. lane m = Some x \<and> val_ok L t x" for m
    using vector_extract_ok [OF assms(1,4), of m] vector_extract_ok [OF assms(1,5), of "m - n"] by (auto simp: lane_def)
  then obtain h where h: "\<And>m. lane m = Some (h m) \<and> val_ok L t (h m)" by metis
  have "those (map (shuffle_lane L (vector_of n t) v1 v2) msk) = Some (map h msk)" by (rule those_map) (simp add: sl h)
  moreover obtain u where "aggregateVals L (vector_of (length msk) t) (map h msk) = Some u" "val_ok L (vector_of (length msk) t) u"
    "\<forall>i<length msk. extract_elem L (vector_of (length msk) t) u i False = Some (map h msk ! i)"
    using vector_build [OF assms(1), of "length msk" "map h msk"] h by auto
  moreover have "lane (msk ! i) = Some (h (msk ! i))" for i using h by blast
  ultimately show ?thesis by (simp add: shufflevector_def lane_def)
qed

text \<open>An index that is not poison, in range, and of a type that can express the number of elements.\<close>

definition index_ok :: "nat \<Rightarrow> state_value \<Rightarrow> bool" where
  "index_ok n idx \<longleftrightarrow> non_poison idx \<and> wf_bv (sv_value idx) \<and> uval (sv_value idx) < int n \<and> int n < 2 ^ bits (sv_value idx)"

lemma index_ok_inbounds: "index_ok n idx \<Longrightarrow> inbounds (sv_value idx) n"
  by (simp add: index_ok_def inbounds_def bvult_def take_bit_int_eq_self)

lemma scalar_dummy: "\<not> isAggregateType t \<Longrightarrow> getDummyValue L b t = Some (av (mk (ty_bits L t) 0) (PBool b))"
  by (cases t) auto

lemma vector_dummy:
  assumes "wf_ty L t" "\<not> isAggregateType t"
  shows "\<exists>d. getDummyValue L b (vector_of n t) = Some d"
proof -
  let ?d = "av (mk (ty_bits L t) 0) (PBool b)"
  have "those (replicate m (Some x)) = Some (replicate m x)" for m and x :: agg_val by (induction m) auto
  then have "getDummyValue L b (vector_of n t) = aggregateVals L (vector_of n t) (replicate n ?d)"
    using scalar_dummy [OF assms(2)] by (simp add: vector_of_def aggregateVals_def zip_replicate)
  moreover have "val_ok L t ?d" using assms ty_bits_pos [OF assms(1)] by (simp add: val_ok_def)
  ultimately show ?thesis using vector_build [OF assms(1), of n "replicate n ?d"] by auto
qed

lemma extractelement_lane:
  assumes "wf_ty L t" "\<not> isAggregateType t" "0 < n" "val_ok L (vector_of n t) v" "index_ok n idx"
  shows "extractelement L (vector_of n t) v idx = extract_elem L (vector_of n t) v (nat (uval (sv_value idx))) False \<bind> to_sv"
proof -
  have i: "wf_bv (sv_value idx)" "uval (sv_value idx) < int n" using assms(5) by (auto simp: index_ok_def)
  have "vec_extract L (vector_of n t) v (sv_value idx) = extract_elem L (vector_of n t) v (nat (uval (sv_value idx))) False"
    by (rule vector_symbolic_read [OF ty_bits_pos [OF assms(1)] assms(3,4) i])
  then show ?thesis using assms(5) index_ok_inbounds [OF assms(5)]
    by (cases "extract_elem L (vector_of n t) v (nat (uval (sv_value idx))) False")
      (auto simp: extractelement_def index_ok_def sv_def split: Option.bind_splits)
qed

text \<open>
  C30 (functional). \<open>insertelement\<close> at a symbolic index in range gives a vector of the type; \<open>extractelement\<close>
  at a symbolic index in range finds the inserted element where the indices are equal and what it found before
  where they differ, poison included.
\<close>

theorem insertelement_extractelement:
  assumes "wf_ty L t" "\<not> isAggregateType t" "0 < n" "val_ok L (vector_of n t) v" "val_ok L t e" "index_ok n idx"
  shows "\<exists>u. insertelement L (vector_of n t) v e idx = Some u \<and> val_ok L (vector_of n t) u \<and>
    (\<forall>jdx. index_ok n jdx \<longrightarrow> extractelement L (vector_of n t) u jdx =
       (if uval (sv_value jdx) = uval (sv_value idx) then to_sv e else extractelement L (vector_of n t) v jdx))"
proof -
  have i: "non_poison idx" "wf_bv (sv_value idx)" "uval (sv_value idx) < int n" using assms(6) by (auto simp: index_ok_def)
  obtain u where u: "vec_update L (vector_of n t) v e (sv_value idx) = Some u" "val_ok L (vector_of n t) u"
    "\<forall>j<n. extract_elem L (vector_of n t) u j False =
       (if j = nat (uval (sv_value idx)) then Some e else extract_elem L (vector_of n t) v j False)"
    using vector_read_over_write [OF ty_bits_pos [OF assms(1)] assms(3,4,5) i(2,3)] by blast
  obtain d where "getDummyValue L False (vector_of n t) = Some d" using vector_dummy [OF assms(1,2)] by blast
  then have "insertelement L (vector_of n t) v e idx = Some u"
    using u(1) i(1) index_ok_inbounds [OF assms(6)] by (simp add: insertelement_def av_eq)
  moreover have "extractelement L (vector_of n t) u jdx =
       (if uval (sv_value jdx) = uval (sv_value idx) then to_sv e else extractelement L (vector_of n t) v jdx)"
    if j: "index_ok n jdx" for jdx
  proof -
    have r: "0 \<le> uval (sv_value jdx)" "nat (uval (sv_value jdx)) < n"
      using j wf_bvD(2) [of "sv_value jdx"] by (auto simp: index_ok_def)
    have "nat (uval (sv_value jdx)) = nat (uval (sv_value idx)) \<longleftrightarrow> uval (sv_value jdx) = uval (sv_value idx)"
      using r(1) wf_bvD(2) [OF i(2)] by auto
    then show ?thesis
      using u(3) r(2) extractelement_lane [OF assms(1-3) u(2) j] extractelement_lane [OF assms(1-4) j] by simp
  qed
  ultimately show ?thesis using u(2) by blast
qed

text \<open>The operations that take both operands per lane and keep the width.\<close>

definition lane_op :: "binop \<Rightarrow> bool" where
  "lane_op op \<longleftrightarrow> \<not> vertical_zip op \<and> op \<notin> {Abs, Cttz, Ctlz, UCmp, SCmp, Clmul, PExt, PDep}"

lemma binop_width:
  assumes "lane_op op" "wf_sv w a" "wf_sv w b" shows "wf_sv w (binop_scalar fa fb res op fl a b)"
  using assms wf_bvD(1) [of "sv_value a"]
  by (cases op) (auto simp: lane_op_def binop_scalar_def wf_sv_def sv_def uadd_sat_def usub_sat_def ushl_sat_def
      umin_def umax_def smin_def smax_def)

text \<open>
  C31 (equivalence). A binary operation on vectors gives a vector of the same type whose lanes are the results
  of the scalar operation on the lanes of the operands.
\<close>

theorem binop_lanes_scalar:
  assumes "wf_ty L t" "\<not> isAggregateType t" "0 < n" "val_ok L (vector_of n t) a" "val_ok L (vector_of n t) b" "lane_op op"
  shows "\<exists>u. binop_lanes L (vector_of n t) (vector_of n t) fa fb op fl a b = Some u \<and> val_ok L (vector_of n t) u \<and>
    (\<forall>i<n. \<exists>x y. extract_elem L (vector_of n t) a i False = Some (of_sv x) \<and> extract_elem L (vector_of n t) b i False = Some (of_sv y) \<and>
       extract_elem L (vector_of n t) u i False = Some (of_sv (binop_scalar fa fb (ty_bits L t) op fl x y)))"
proof -
  obtain as where as: "lanes L (vector_of n t) a = Some as" "length as = n"
    "\<forall>i<n. extract_elem L (vector_of n t) a i False = Some (of_sv (as ! i)) \<and> wf_sv (ty_bits L t) (as ! i)"
    using lanes_ok [OF assms(1,2,4)] by blast
  obtain bs where bs: "lanes L (vector_of n t) b = Some bs" "length bs = n"
    "\<forall>i<n. extract_elem L (vector_of n t) b i False = Some (of_sv (bs ! i)) \<and> wf_sv (ty_bits L t) (bs ! i)"
    using lanes_ok [OF assms(1,2,5)] by blast
  let ?vals = "map of_sv (map2 (binop_scalar fa fb (ty_bits L t) op fl) as bs)"
  have v: "?vals ! i = of_sv (binop_scalar fa fb (ty_bits L t) op fl (as ! i) (bs ! i))" if "i < n" for i
    using that as(2) bs(2) by simp
  have ok: "val_ok L t (?vals ! i)" if "i < n" for i
    unfolding v [OF that] using as(3) bs(3) that binop_width [OF assms(6)] assms(2) of_sv_ok by blast
  obtain u where "aggregateVals L (vector_of n t) ?vals = Some u" "val_ok L (vector_of n t) u"
    "\<forall>i<n. extract_elem L (vector_of n t) u i False = Some (?vals ! i)"
    using vector_build [OF assms(1) ok] as(2) bs(2) by auto
  moreover have "op \<notin> {Abs, Cttz, Ctlz}" using assms(6) by (simp add: lane_op_def)
  ultimately show ?thesis using as bs v assms(3) by (auto simp: binop_lanes_def binop_vector_def)
qed

section \<open>Examples\<close>

definition demo_layout :: layout where
  "demo_layout = \<lparr>little_endian = True, bits_poison_per_byte = 8, bits_byte = 8, pointer_bits = 8, bits_program_pointer = 64\<rparr>"

definition demo_struct :: ir_type where
  "demo_struct = AggTy StructK [IntTy 8, IntTy 8, AggTy StructK [IntTy 4, IntTy 12] [False, False]] [False, True, False]"

definition demo_value :: agg_val where
  "demo_value = av (mk 32 0) (PBv (mk 4 5))"

theorem insertvalue_extractvalue_witness:
  "\<exists>u. insertvalue demo_layout demo_struct [2, 1] demo_value (av (mk 12 7) (PBool True)) = Some u \<and>
     extractvalue demo_layout demo_struct [2, 1] u = Some (av (mk 12 7) (PBool True)) \<and>
     extractvalue demo_layout demo_struct [2, 0] u = extractvalue demo_layout demo_struct [2, 0] demo_value"
proof -
  have "wf_ty demo_layout demo_struct" "type_at demo_struct [2, 1] = Some (IntTy 12)" "type_at demo_struct [2, 0] = Some (IntTy 4)"
    by (simp_all add: demo_struct_def)
  moreover have "val_ok demo_layout demo_struct demo_value" "val_ok demo_layout (IntTy 12) (av (mk 12 7) (PBool True))"
    by (simp_all add: val_ok_def bv_ok_def demo_struct_def demo_value_def scalar_np_bits_def)
  moreover have "apart [2, 1] [2, 0]" by simp
  moreover have "[2, 1 :: nat] \<noteq> []" by simp
  ultimately obtain u where u: "insertvalue demo_layout demo_struct [2, 1] demo_value (av (mk 12 7) (PBool True)) = Some u"
    "extractvalue demo_layout demo_struct [2, 1] u = Some (av (mk 12 7) (PBool True))"
    "\<forall>q. apart [2, 1] q \<longrightarrow> type_at demo_struct q \<noteq> None \<longrightarrow>
       extractvalue demo_layout demo_struct q u = extractvalue demo_layout demo_struct q demo_value"
    using insertvalue_extractvalue [of demo_layout demo_struct demo_value "[2, 1]" "IntTy 12" "av (mk 12 7) (PBool True)"] by blast
  have "extractvalue demo_layout demo_struct [2, 0] u = extractvalue demo_layout demo_struct [2, 0] demo_value"
    by (rule u(3) [rule_format]) (simp_all add: demo_struct_def)
  then show ?thesis using u(1,2) by blast
qed

definition demo_vector :: agg_val where
  "demo_vector = av (mk 16 0x0203) (PBv (mk 2 2))"

lemma demo_vector_ok: "val_ok demo_layout (vector_of 2 (IntTy 8)) demo_vector"
  by (simp add: val_ok_def bv_ok_def demo_vector_def scalar_np_bits_def)

definition demo_facts :: operand_facts where
  "demo_facts = \<lparr>is_const = False, min_leading_zeros = 0\<rparr>"

theorem binop_lanes_scalar_witness:
  "\<exists>u. binop_lanes demo_layout (vector_of 2 (IntTy 8)) (vector_of 2 (IntTy 8)) demo_facts demo_facts Add
       \<lparr>NSW = True, NUW = False, Exact = False, Disjoint = False\<rparr> demo_vector demo_vector = Some u \<and>
     val_ok demo_layout (vector_of 2 (IntTy 8)) u"
  using binop_lanes_scalar [of demo_layout "IntTy 8" 2 demo_vector demo_vector Add demo_facts demo_facts
      "\<lparr>NSW = True, NUW = False, Exact = False, Disjoint = False\<rparr>"] demo_vector_ok
  by (auto simp: lane_op_def)

theorem insertelement_extractelement_witness:
  "\<exists>u. insertelement demo_layout (vector_of 2 (IntTy 8)) demo_vector (av (mk 8 7) (PBool True)) (sv (mk 32 1) True) = Some u \<and>
     extractelement demo_layout (vector_of 2 (IntTy 8)) u (sv (mk 16 1) True) = Some (sv (mk 8 7) True) \<and>
     extractelement demo_layout (vector_of 2 (IntTy 8)) u (sv (mk 8 0) True) =
       extractelement demo_layout (vector_of 2 (IntTy 8)) demo_vector (sv (mk 8 0) True)"
proof -
  have "wf_ty demo_layout (IntTy 8)" "\<not> isAggregateType (IntTy 8)" "(0::nat) < 2" "val_ok demo_layout (IntTy 8) (av (mk 8 7) (PBool True))"
    by (simp_all add: val_ok_def)
  moreover have i: "index_ok 2 (sv (mk 32 1) True)" "index_ok 2 (sv (mk 16 1) True)" "index_ok 2 (sv (mk 8 0) True)"
    by (simp_all add: index_ok_def sv_def)
  ultimately obtain u where u: "insertelement demo_layout (vector_of 2 (IntTy 8)) demo_vector (av (mk 8 7) (PBool True)) (sv (mk 32 1) True) = Some u"
    "\<forall>jdx. index_ok 2 jdx \<longrightarrow> extractelement demo_layout (vector_of 2 (IntTy 8)) u jdx =
       (if uval (sv_value jdx) = uval (sv_value (sv (mk 32 1) True)) then to_sv (av (mk 8 7) (PBool True))
        else extractelement demo_layout (vector_of 2 (IntTy 8)) demo_vector jdx)"
    using insertelement_extractelement [OF _ _ _ demo_vector_ok] by blast
  then show ?thesis using u(2) [rule_format, OF i(2)] u(2) [rule_format, OF i(3)] by (simp add: sv_def to_sv_def)
qed

theorem toInt_fromInt_witness:
  "\<exists>u. toInt demo_layout (vector_of 2 (IntTy 8)) demo_vector = Some u \<and> bits (a_value u) = 16 \<and>
     fromInt demo_layout (vector_of 2 (IntTy 8)) u = Some demo_vector"
  using toInt_fromInt [of demo_layout "vector_of 2 (IntTy 8)" demo_vector] demo_vector_ok
  by (simp add: demo_layout_def vector_of_def numeral_2_eq_2)

lemma inbounds_iff: "wf_bv iv \<Longrightarrow> inbounds iv n \<longleftrightarrow> uval iv < int n mod 2 ^ bits iv"
  by (simp add: inbounds_def bvult_def take_bit_eq_mod)

text \<open>
  C36 (error). \<open>extractelement\<close> at an index in range, of whatever width, reads the lane of that index, but compares the
  index with the number of elements modulo the width of the index. So a lane that is not poison reads as poison exactly when
  the index is not below the wrapped number of elements, as are all indices when the elements are as many as the index
  type has values.
\<close>

theorem narrow_index_reads_poison:
  assumes "wf_ty L t" "\<not> isAggregateType t" "0 < n" "val_ok L (vector_of n t) v" "wf_bv i" "uval i < int n"
  shows "\<exists>e x. extract_elem L (vector_of n t) v (nat (uval i)) False = Some e \<and> to_sv e = Some x \<and>
    extractelement L (vector_of n t) v (sv i True) = Some (sv (sv_value x) (uval i < int n mod 2 ^ bits i \<and> non_poison x)) \<and>
    (int n = 2 ^ bits i \<longrightarrow> extractelement L (vector_of n t) v (sv i True) = Some (sv (sv_value x) False))"
proof -
  have c: "children (vector_of n t) = replicate n t" by (simp add: vector_of_def)
  have j: "nat (uval i) < n" using assms(6) wf_bvD(2) [OF assms(5)] by linarith
  have r: "vec_extract L (vector_of n t) v i = extract_elem L (vector_of n t) v (nat (uval i)) False"
    by (rule vector_symbolic_read [OF ty_bits_pos [OF assms(1)] assms(3-6)])
  obtain e where e: "extract_elem L (vector_of n t) v (nat (uval i)) False = Some e" "val_ok L t e"
    using vector_extract_ok [OF assms(1,4) j] by blast
  then obtain x where x: "to_sv e = Some x" using assms(2) by (auto simp: val_ok_def to_sv_def split: np.splits)
  have "extractelement L (vector_of n t) v (sv i True) = Some (sv (sv_value x) (uval i < int n mod 2 ^ bits i \<and> non_poison x))"
    using r e x inbounds_iff [OF assms(5)] c by (simp add: extractelement_def sv_def)
  moreover have "\<not> uval i < int n mod 2 ^ bits i" if "int n = 2 ^ bits i" using that wf_bvD(2) [OF assms(5)] by simp
  ultimately show ?thesis using e(1) x by auto
qed

text \<open>A witness: a vector of four elements at an index of two bits.\<close>

theorem narrow_index_reads_poison_witness:
  "extractelement demo_layout (vector_of 4 (IntTy 8)) (av (mk 32 0x01020304) (PBv (mk 4 15))) (sv (mk 2 3) True) = Some (sv (mk 8 4) False)"
proof -
  have "val_ok demo_layout (vector_of 4 (IntTy 8)) (av (mk 32 0x01020304) (PBv (mk 4 15)))"
    by (simp add: val_ok_def bv_ok_def scalar_np_bits_def)
  moreover have "extract_elem demo_layout (vector_of 4 (IntTy 8)) (av (mk 32 0x01020304) (PBv (mk 4 15))) 3 False = Some (av (mk 8 4) (PBool True))"
    by code_simp
  ultimately show ?thesis
    using narrow_index_reads_poison [of demo_layout "IntTy 8" 4 "av (mk 32 0x01020304) (PBv (mk 4 15))" "mk 2 3"]
    by (auto simp: to_sv_def sv_def)
qed

end
