(* ===== verification/Attrs.thy ===== *)
theory Attrs
  imports Instr "HOL-Library.Word" "HOL-Library.Monad_Syntax" "HOL-Library.Product_Lexorder"
begin

text \<open>
  Attributes of functions and parameters, \<open>ir/attrs.h\<close> and \<open>ir/attrs.cpp\<close>: the memory a call may access, as
  pairs of bits of a 32-bit word, the attributes of parameters and of functions as bit sets with their payload, and
  the size of allocations. What encodes attributes over pointers and floating-point values is left out.
\<close>

unbundle bit_operations_syntax

section \<open>Memory access\<close>

datatype AccessType = Args | Globals | Inaccessible | Errno | Other

definition access_types :: "AccessType list" where
  "access_types = [Args, Globals, Inaccessible, Errno, Other]"

fun access_no :: "AccessType \<Rightarrow> nat" where
  "access_no Args = 0"
| "access_no Globals = 1"
| "access_no Inaccessible = 2"
| "access_no Errno = 3"
| "access_no Other = 4"

type_synonym memory_access = "32 word"

definition canRead :: "memory_access \<Rightarrow> AccessType \<Rightarrow> bool" where
  "canRead v ty \<longleftrightarrow> drop_bit (2 * access_no ty) v AND 2 \<noteq> 0"

definition canWrite :: "memory_access \<Rightarrow> AccessType \<Rightarrow> bool" where
  "canWrite v ty \<longleftrightarrow> drop_bit (2 * access_no ty) v AND 1 \<noteq> 0"

definition canOnlyRead :: "memory_access \<Rightarrow> AccessType \<Rightarrow> bool" where
  "canOnlyRead v ty \<longleftrightarrow> list_all (\<lambda>i. \<not> (i \<noteq> ty \<and> canRead v i)) access_types \<and> canRead v ty"

definition canOnlyWrite :: "memory_access \<Rightarrow> AccessType \<Rightarrow> bool" where
  "canOnlyWrite v ty \<longleftrightarrow> list_all (\<lambda>i. \<not> (i \<noteq> ty \<and> canWrite v i)) access_types \<and> canWrite v ty"

definition canReadAnything :: "memory_access \<Rightarrow> bool" where
  "canReadAnything v \<longleftrightarrow> list_all (canRead v) access_types"

definition canWriteAnything :: "memory_access \<Rightarrow> bool" where
  "canWriteAnything v \<longleftrightarrow> list_all (canWrite v) access_types"

definition canAccessAnything :: "memory_access \<Rightarrow> bool" where
  "canAccessAnything v \<longleftrightarrow> canReadAnything v \<and> canWriteAnything v"

definition canReadSomething :: "memory_access \<Rightarrow> bool" where
  "canReadSomething v \<longleftrightarrow> list_ex (canRead v) access_types"

definition canWriteSomething :: "memory_access \<Rightarrow> bool" where
  "canWriteSomething v \<longleftrightarrow> list_ex (canWrite v) access_types"

definition setNoAccess :: "memory_access \<Rightarrow> memory_access" where
  "setNoAccess v = 0"

definition setCanAlsoRead :: "AccessType \<Rightarrow> memory_access \<Rightarrow> memory_access" where
  "setCanAlsoRead ty v = v OR push_bit (access_no ty * 2) 2"

definition setCanAlsoWrite :: "AccessType \<Rightarrow> memory_access \<Rightarrow> memory_access" where
  "setCanAlsoWrite ty v = v OR push_bit (access_no ty * 2) 1"

definition setCanAlsoAccess :: "AccessType \<Rightarrow> memory_access \<Rightarrow> memory_access" where
  "setCanAlsoAccess ty v = setCanAlsoWrite ty (setCanAlsoRead ty v)"

definition setFullAccess :: "memory_access \<Rightarrow> memory_access" where
  "setFullAccess v = fold setCanAlsoAccess access_types v"

definition setCanOnlyRead_any :: "memory_access \<Rightarrow> memory_access" where
  "setCanOnlyRead_any v = fold setCanAlsoRead access_types (setNoAccess v)"

definition setCanOnlyRead :: "AccessType \<Rightarrow> memory_access \<Rightarrow> memory_access" where
  "setCanOnlyRead ty v = setCanAlsoRead ty (setNoAccess v)"

definition setCanOnlyWrite :: "AccessType \<Rightarrow> memory_access \<Rightarrow> memory_access" where
  "setCanOnlyWrite ty v = setCanAlsoWrite ty (setNoAccess v)"

text \<open>The loop calls the overload that starts from no access, as the source does.\<close>

definition setCanOnlyWrite_any :: "memory_access \<Rightarrow> memory_access" where
  "setCanOnlyWrite_any v = fold setCanOnlyWrite access_types (setNoAccess v)"

definition setCanOnlyAccess :: "AccessType \<Rightarrow> memory_access \<Rightarrow> memory_access" where
  "setCanOnlyAccess ty v = setCanAlsoWrite ty (setCanOnlyRead ty v)"

fun access_name :: "AccessType \<Rightarrow> string" where
  "access_name Args = ''argmem''"
| "access_name Globals = ''globals''"
| "access_name Inaccessible = ''inaccessiblemem''"
| "access_name Errno = ''errno''"
| "access_name Other = ''other''"

definition print_entry :: "memory_access \<Rightarrow> AccessType \<Rightarrow> string \<times> bool \<Rightarrow> string \<times> bool" where
  "print_entry v ty = (\<lambda>(os, first).
     if canRead v ty
     then (os @ (if first then '''' else '', '') @ access_name ty @ (if canWrite v ty then '': readwrite'' else '': read''), False)
     else if canWrite v ty then (os @ (if first then '''' else '', '') @ access_name ty @ '': write'', False)
     else (os, first))"

definition print_access :: "memory_access \<Rightarrow> string" where
  "print_access v =
     (if v = 0 then '' memory(none)''
      else if canReadAnything v then if canWriteAnything v then '''' else '' memory(read)''
      else if canWriteAnything v then '' memory(write)''
      else fst (fold (print_entry v) access_types ('' memory('', True)) @ '')'')"

text \<open>
  \<open>parse_memory_access\<close> of the textual front end, on the tokens after \<open>memory\<close>. \<^const>\<open>None\<close> is a syntax error.
\<close>

datatype mem_token = LPAREN | RPAREN | COMMA | NONE | READ | WRITE | OTHER_TOKEN

fun ensure :: "mem_token \<Rightarrow> mem_token list \<Rightarrow> mem_token list option" where
  "ensure t (u # us) = (if u = t then Some us else None)"
| "ensure t [] = None"

fun skip_entries :: "mem_token list \<Rightarrow> mem_token list option" where
  "skip_entries [] = None"
| "skip_entries (t # ts) = (if t = RPAREN then Some (t # ts) else if t = COMMA then skip_entries ts else None)"

text \<open>The first round of the loop consumes nothing; every later round expects a comma.\<close>

definition parse_memory_access :: "mem_token list \<Rightarrow> (memory_access \<times> mem_token list) option" where
  "parse_memory_access ts = do {
     ts \<leftarrow> ensure LPAREN ts;
     (mem, ts) \<leftarrow>
       (case ts of
          NONE # us \<Rightarrow> Some (setNoAccess 0, us)
        | READ # us \<Rightarrow> Some (setCanOnlyRead_any (setNoAccess 0), us)
        | WRITE # us \<Rightarrow> Some (setCanOnlyWrite_any (setNoAccess 0), us)
        | _ \<Rightarrow> map_option (\<lambda>us. (setNoAccess 0, us)) (skip_entries ts));
     ts \<leftarrow> ensure RPAREN ts;
     Some (mem, ts) }"

text \<open>The memory a value allows to read and to write.\<close>

definition read_places :: "memory_access \<Rightarrow> AccessType set" where
  "read_places v = {ty. canRead v ty}"

definition written_places :: "memory_access \<Rightarrow> AccessType set" where
  "written_places v = {ty. canWrite v ty}"

lemma set_access_types [simp]: "set access_types = UNIV"
  using AccessType.exhaust by (auto simp: access_types_def)

lemma access_no_less: "access_no ty < 5" by (cases ty) auto

lemma access_no_inj [simp]: "access_no a = access_no b \<longleftrightarrow> a = b" by (cases a; cases b) auto

lemma drop_and: "drop_bit n v AND push_bit k 1 \<noteq> 0 \<longleftrightarrow> bit v (n + k)" for v :: memory_access
  using bit_iff_and_push_bit_not_eq_0 [of "drop_bit n v" k] by (simp add: bit_drop_bit_eq)

lemma canRead_bit: "canRead v ty \<longleftrightarrow> bit v (2 * access_no ty + 1)"
  using drop_and [of "2 * access_no ty" v 1] by (simp add: canRead_def)

lemma canWrite_bit: "canWrite v ty \<longleftrightarrow> bit v (2 * access_no ty)"
  using drop_and [of "2 * access_no ty" v 0] by (simp add: canWrite_def)

lemma write_bit: "bit (push_bit (access_no ty * 2) 1 :: memory_access) n \<longleftrightarrow> n = 2 * access_no ty"
  using access_no_less [of ty] by (auto simp: bit_push_bit_iff bit_1_iff simp del: push_bit_of_1)

lemma read_bit: "bit (push_bit (access_no ty * 2) 2 :: memory_access) n \<longleftrightarrow> n = 2 * access_no ty + 1"
proof -
  have "push_bit (access_no ty * 2) 2 = push_bit (access_no ty * 2) (push_bit 1 1 :: memory_access)" by simp
  then show ?thesis using access_no_less [of ty]
    by (simp only: push_bit_push_bit bit_push_bit_iff bit_1_iff) auto
qed

lemma even_odd_ne [simp]: "Suc (2 * a) \<noteq> 2 * b" "2 * b \<noteq> Suc (2 * a)" for a b :: nat by presburger+

lemmas access_bits = read_places_def written_places_def canRead_bit canWrite_bit setCanAlsoRead_def setCanAlsoWrite_def bit_or_iff read_bit write_bit

lemma also_read: "read_places (setCanAlsoRead ty v) = insert ty (read_places v)" "written_places (setCanAlsoRead ty v) = written_places v"
  by (auto simp: access_bits)

lemma also_write: "read_places (setCanAlsoWrite ty v) = read_places v" "written_places (setCanAlsoWrite ty v) = insert ty (written_places v)"
  by (auto simp: access_bits simp del: push_bit_of_1)

lemma no_access: "read_places (setNoAccess v) = {}" "written_places (setNoAccess v) = {}"
  by (auto simp: access_bits setNoAccess_def)

lemmas access_sets = also_read also_write no_access setCanAlsoAccess_def setCanOnlyRead_def setCanOnlyWrite_def setCanOnlyAccess_def

lemma fold_reads: "read_places (fold setCanAlsoRead ts v) = set ts \<union> read_places v" "written_places (fold setCanAlsoRead ts v) = written_places v"
  by (induction ts arbitrary: v) (auto simp: access_sets)

lemma fold_access: "read_places (fold setCanAlsoAccess ts v) = set ts \<union> read_places v" "written_places (fold setCanAlsoAccess ts v) = set ts \<union> written_places v"
  by (induction ts arbitrary: v) (auto simp: access_sets)

text \<open>
  A memory access value is a set of places that may be read and a set of places that may be written:
  the setters, except \<open>setCanOnlyWrite()\<close>, and the join and meet are the operations on these sets, and the queries
  ask for them.
\<close>

theorem memory_access_sets:
  "read_places (setCanAlsoAccess ty v) = insert ty (read_places v) \<and> written_places (setCanAlsoAccess ty v) = insert ty (written_places v) \<and>
   read_places (setFullAccess v) = UNIV \<and> written_places (setFullAccess v) = UNIV \<and>
   read_places (setCanOnlyRead_any v) = UNIV \<and> written_places (setCanOnlyRead_any v) = {} \<and>
   read_places (setCanOnlyRead ty v) = {ty} \<and> written_places (setCanOnlyRead ty v) = {} \<and>
   read_places (setCanOnlyWrite ty v) = {} \<and> written_places (setCanOnlyWrite ty v) = {ty} \<and>
   read_places (setCanOnlyAccess ty v) = {ty} \<and> written_places (setCanOnlyAccess ty v) = {ty} \<and>
   read_places (v OR w) = read_places v \<union> read_places w \<and> written_places (v OR w) = written_places v \<union> written_places w \<and>
   read_places (v AND w) = read_places v \<inter> read_places w \<and> written_places (v AND w) = written_places v \<inter> written_places w \<and>
   (canOnlyRead v ty \<longleftrightarrow> read_places v = {ty}) \<and> (canOnlyWrite v ty \<longleftrightarrow> written_places v = {ty}) \<and>
   (canAccessAnything v \<longleftrightarrow> read_places v = UNIV \<and> written_places v = UNIV) \<and>
   (canReadSomething v \<longleftrightarrow> read_places v \<noteq> {}) \<and> (canWriteSomething v \<longleftrightarrow> written_places v \<noteq> {})"
proof (intro conjI)
  show "read_places (setFullAccess v) = UNIV" "written_places (setFullAccess v) = UNIV"
    by (simp_all add: setFullAccess_def fold_access)
  show "read_places (setCanOnlyRead_any v) = UNIV" "written_places (setCanOnlyRead_any v) = {}"
    by (simp_all add: setCanOnlyRead_any_def fold_reads no_access)
  show "read_places (v OR w) = read_places v \<union> read_places w" "written_places (v OR w) = written_places v \<union> written_places w"
    "read_places (v AND w) = read_places v \<inter> read_places w" "written_places (v AND w) = written_places v \<inter> written_places w"
    by (auto simp: access_bits bit_and_iff)
  show "canOnlyRead v ty \<longleftrightarrow> read_places v = {ty}" "canOnlyWrite v ty \<longleftrightarrow> written_places v = {ty}"
    by (auto simp: canOnlyRead_def canOnlyWrite_def list_all_iff read_places_def written_places_def)
  show "canAccessAnything v \<longleftrightarrow> read_places v = UNIV \<and> written_places v = UNIV"
    by (auto simp: canAccessAnything_def canReadAnything_def canWriteAnything_def list_all_iff read_places_def written_places_def)
  show "canReadSomething v \<longleftrightarrow> read_places v \<noteq> {}" "canWriteSomething v \<longleftrightarrow> written_places v \<noteq> {}"
    by (auto simp: canReadSomething_def canWriteSomething_def list_ex_iff read_places_def written_places_def)
qed (simp_all add: access_sets)

lemma fold_only_write: "ts \<noteq> [] \<Longrightarrow> fold setCanOnlyWrite ts v = setCanOnlyWrite (last ts) 0"
  by (induction ts arbitrary: v) (auto simp: setCanOnlyWrite_def setNoAccess_def)

lemma only_write_any: "setCanOnlyWrite_any v = setCanOnlyWrite Other 0"
  unfolding setCanOnlyWrite_any_def access_types_def by (subst fold_only_write) simp_all

text \<open>
  C37 (error). \<open>setCanOnlyWrite()\<close> allows writes to other memory only: its loop calls the overload that first
  takes all access away. The front end reads \<open>memory(write)\<close> with it, so such a function may not write
  through its arguments, and the attribute is printed as another one.
\<close>

theorem memory_write_loses_places:
  "written_places (setCanOnlyWrite_any v) = {Other} \<and> \<not> canWriteAnything (setCanOnlyWrite_any v) \<and>
   parse_memory_access (LPAREN # WRITE # RPAREN # ts) = Some (setCanOnlyWrite_any 0, ts) \<and>
   print_access (setCanOnlyWrite_any v) = '' memory(other: write)''"
proof (intro conjI)
  show "written_places (setCanOnlyWrite_any v) = {Other}" by (simp add: only_write_any access_sets)
  then show "\<not> canWriteAnything (setCanOnlyWrite_any v)" by (auto simp: canWriteAnything_def list_all_iff written_places_def)
  show "parse_memory_access (LPAREN # WRITE # RPAREN # ts) = Some (setCanOnlyWrite_any 0, ts)"
    by (simp add: parse_memory_access_def setNoAccess_def)
  have "print_access (setCanOnlyWrite Other 0) = '' memory(other: write)''" by code_simp
  then show "print_access (setCanOnlyWrite_any v) = '' memory(other: write)''" by (simp add: only_write_any)
qed


section \<open>Attributes of parameters\<close>

datatype param_attr = NonNull | ByVal | NoCapture | NoRead | NoWrite | Dereferenceable | NoUndef | Align | Returned |
  NoAlias | DereferenceableOrNull | AllocPtr | AllocAlign | ZeroExt | SignExt | InReg | NoFPClass | DeadOnUnwind |
  Writable | DeadOnReturn | NoFree | NoFreeObj | IsArg

fun param_bit :: "param_attr \<Rightarrow> nat" where
  "param_bit NonNull = 0" | "param_bit ByVal = 1" | "param_bit NoCapture = 2" | "param_bit NoRead = 3"
| "param_bit NoWrite = 4" | "param_bit Dereferenceable = 5" | "param_bit NoUndef = 6" | "param_bit Align = 7"
| "param_bit Returned = 8" | "param_bit NoAlias = 9" | "param_bit DereferenceableOrNull = 10" | "param_bit AllocPtr = 11"
| "param_bit AllocAlign = 12" | "param_bit ZeroExt = 13" | "param_bit SignExt = 14" | "param_bit InReg = 15"
| "param_bit NoFPClass = 16" | "param_bit DeadOnUnwind = 17" | "param_bit Writable = 18" | "param_bit DeadOnReturn = 19"
| "param_bit NoFree = 20" | "param_bit NoFreeObj = 21" | "param_bit IsArg = 31"

definition pmask :: "param_attr \<Rightarrow> 32 word" where
  "pmask a = push_bit (param_bit a) 1"

record ParamAttrs =
  p_bits :: "32 word"
  derefBytes :: "64 word"
  derefOrNullBytes :: "64 word"
  blockSize :: "64 word"
  p_align :: "64 word"
  p_nofpclass :: "16 word"
  deadOnReturnBytes :: "64 word option"
  initializes :: "(64 word \<times> 64 word) list"

definition p_has :: "ParamAttrs \<Rightarrow> param_attr \<Rightarrow> bool" where
  "p_has p a \<longleftrightarrow> p_bits p AND pmask a \<noteq> 0"

definition p_set :: "param_attr \<Rightarrow> ParamAttrs \<Rightarrow> ParamAttrs" where
  "p_set a p = p\<lparr>p_bits := p_bits p OR pmask a\<rparr>"

definition p_refinedBy :: "ParamAttrs \<Rightarrow> ParamAttrs \<Rightarrow> bool" where
  "p_refinedBy p other =
     (let attrs = pmask ByVal OR pmask NoUndef OR pmask Writable;
          other_params = p_bits other AND attrs
      in if p_bits p AND other_params \<noteq> other_params then False
         else let attrs = pmask SignExt OR pmask ZeroExt OR pmask InReg
              in if p_bits p AND attrs \<noteq> p_bits other AND attrs then False
                 else blockSize p = blockSize other)"

definition p_poisonImpliesUB :: "ParamAttrs \<Rightarrow> bool" where
  "p_poisonImpliesUB p \<longleftrightarrow> p_has p ByVal \<or> p_has p Dereferenceable \<or> p_has p DereferenceableOrNull \<or>
     p_has p NoUndef \<or> p_has p Writable \<or> initializes p \<noteq> []"

definition getDerefBytes :: "ParamAttrs \<Rightarrow> 64 word" where
  "getDerefBytes p =
     (let bytes = if p_has p Dereferenceable then derefBytes p else 0
      in if p_has p ByVal then max bytes (blockSize p) else bytes)"

definition round_up64 :: "64 word \<Rightarrow> 64 word \<Rightarrow> 64 word" where
  "round_up64 n amount = (n + amount - 1) div amount * amount"

definition maxAccessSize :: "ParamAttrs \<Rightarrow> 64 word" where
  "maxAccessSize p =
     (let bytes = getDerefBytes p;
          bytes = if p_has p DereferenceableOrNull then max bytes (derefOrNullBytes p) else bytes;
          bytes = fold (\<lambda>(low, high) bytes. max bytes high) (initializes p) bytes
      in round_up64 bytes (p_align p))"

text \<open>\<open>std::ranges::set_union\<close> on sorted ranges.\<close>

fun set_union :: "'a::linorder list \<Rightarrow> 'a list \<Rightarrow> 'a list" where
  "set_union [] ys = ys"
| "set_union xs [] = xs"
| "set_union (x # xs) (y # ys) =
     (if x < y then x # set_union xs (y # ys)
      else if y < x then y # set_union (x # xs) ys
      else x # set_union xs ys)"

definition p_merge :: "ParamAttrs \<Rightarrow> ParamAttrs \<Rightarrow> ParamAttrs" where
  "p_merge p other = p\<lparr>
     p_bits := p_bits p OR p_bits other,
     derefBytes := max (derefBytes p) (derefBytes other),
     derefOrNullBytes := max (derefOrNullBytes p) (derefOrNullBytes other),
     blockSize := max (blockSize p) (blockSize other),
     p_align := max (p_align p) (p_align other),
     initializes := set_union (initializes p) (initializes other)\<rparr>"

lemma param_bit_less: "param_bit a < 32" by (cases a) auto

lemma param_bit_inj: "param_bit a = param_bit b \<longleftrightarrow> a = b" by (cases a; cases b) simp_all

lemma pmask_bit: "bit (pmask a) n \<longleftrightarrow> n = param_bit a"
  using param_bit_less [of a] by (auto simp: pmask_def bit_push_bit_iff bit_1_iff simp del: push_bit_of_1)

lemma p_has_bit: "p_has p a \<longleftrightarrow> bit (p_bits p) (param_bit a)"
  using bit_iff_and_push_bit_not_eq_0 [of "p_bits p" "param_bit a"] by (simp add: p_has_def pmask_def)

lemma and_keep_iff: "x AND y = y \<longleftrightarrow> (\<forall>n. bit y n \<longrightarrow> bit x n)" for x y :: "'a::len word"
  by (auto simp: bit_eq_iff bit_and_iff dest: bit_imp_le_length)

lemma and_same_iff: "x AND m = y AND m \<longleftrightarrow> (\<forall>n. bit m n \<longrightarrow> bit x n = bit y n)" for x y m :: "'a::len word"
  by (auto simp: bit_eq_iff bit_and_iff dest: bit_imp_le_length)

text \<open>
  Attributes whose addition can cause undefined behaviour may only be removed; the calling convention is fixed.
\<close>

lemma p_refinedBy_iff:
  "p_refinedBy p q \<longleftrightarrow>
     (\<forall>a\<in>{ByVal, NoUndef, Writable}. p_has q a \<longrightarrow> p_has p a) \<and>
     (\<forall>a\<in>{SignExt, ZeroExt, InReg}. p_has q a \<longleftrightarrow> p_has p a) \<and> blockSize p = blockSize q"
  by (auto simp: p_refinedBy_def Let_def and_keep_iff and_same_iff bit_and_iff bit_or_iff pmask_bit p_has_bit)

lemma set_set_union: "set (set_union xs ys) = set xs \<union> set ys"
  by (induction xs ys rule: set_union.induct) auto

lemma sorted_set_union: "sorted xs \<Longrightarrow> sorted ys \<Longrightarrow> sorted (set_union xs ys)"
  by (induction xs ys rule: set_union.induct) (auto simp: set_set_union less_imp_le intro: order.strict_implies_order order_trans)

lemma merge_has: "p_has (p_merge p q) a \<longleftrightarrow> p_has p a \<or> p_has q a"
  by (simp add: p_has_bit p_merge_def bit_or_iff)

lemma deref_merge: "getDerefBytes p \<le> getDerefBytes (p_merge p q)" "getDerefBytes q \<le> getDerefBytes (p_merge p q)"
  by (auto simp: getDerefBytes_def merge_has Let_def) (auto simp: p_merge_def le_max_iff_disj)

text \<open>
  Merging attributes keeps the attributes of both sides, what either promises to be
  dereferenceable and to be initialized, sorted, and the rule whether poison is undefined behaviour.
\<close>

theorem merge_keeps_promises:
  assumes "sorted (initializes p)" "sorted (initializes q)"
  shows "(\<forall>a. p_has (p_merge p q) a \<longleftrightarrow> p_has p a \<or> p_has q a) \<and>
    getDerefBytes p \<le> getDerefBytes (p_merge p q) \<and> getDerefBytes q \<le> getDerefBytes (p_merge p q) \<and>
    set (initializes (p_merge p q)) = set (initializes p) \<union> set (initializes q) \<and> sorted (initializes (p_merge p q)) \<and>
    (p_poisonImpliesUB (p_merge p q) \<longleftrightarrow> p_poisonImpliesUB p \<or> p_poisonImpliesUB q)"
proof -
  have i: "initializes (p_merge p q) = set_union (initializes p) (initializes q)" by (simp add: p_merge_def)
  have s: "set (initializes (p_merge p q)) = set (initializes p) \<union> set (initializes q)" by (simp add: i set_set_union)
  then have "initializes (p_merge p q) = [] \<longleftrightarrow> initializes p = [] \<and> initializes q = []"
    by (metis Un_empty set_empty)
  then have "p_poisonImpliesUB (p_merge p q) \<longleftrightarrow> p_poisonImpliesUB p \<or> p_poisonImpliesUB q"
    by (auto simp: p_poisonImpliesUB_def merge_has)
  then show ?thesis using s merge_has deref_merge sorted_set_union [OF assms] i by metis
qed

section \<open>Attributes of functions\<close>

datatype fn_attr = FNNaN | FNoReturn | FDereferenceable | FNonNull | FNoFree | FNoUndef | FAlign | FNoThrow | FNoAlias |
  FWillReturn | FDereferenceableOrNull | FNullPointerIsValid | FAllocSize | FZeroExt | FSignExt | FNoFPClass | FAsm | FNoFreeObj

fun fn_bit :: "fn_attr \<Rightarrow> nat" where
  "fn_bit FNNaN = 0" | "fn_bit FNoReturn = 1" | "fn_bit FDereferenceable = 2" | "fn_bit FNonNull = 3"
| "fn_bit FNoFree = 4" | "fn_bit FNoUndef = 5" | "fn_bit FAlign = 6" | "fn_bit FNoThrow = 7" | "fn_bit FNoAlias = 8"
| "fn_bit FWillReturn = 9" | "fn_bit FDereferenceableOrNull = 10" | "fn_bit FNullPointerIsValid = 11"
| "fn_bit FAllocSize = 12" | "fn_bit FZeroExt = 13" | "fn_bit FSignExt = 14" | "fn_bit FNoFPClass = 15"
| "fn_bit FAsm = 16" | "fn_bit FNoFreeObj = 17"

definition fmask :: "fn_attr \<Rightarrow> 32 word" where
  "fmask a = push_bit (fn_bit a) 1"

datatype denormal = IEEE | PositiveZero | PreserveSign | Dynamic

record FPDenormalAttrs =
  fp_input :: denormal
  fp_output :: denormal

record FnAttrs =
  fp_denormal :: FPDenormalAttrs
  fp_denormal32 :: "FPDenormalAttrs option"
  f_bits :: "32 word"
  allockind :: "8 word"
  f_derefBytes :: "64 word"
  f_derefOrNullBytes :: "64 word"
  f_align :: "64 word"
  allocsize_0 :: "32 word"
  allocsize_1 :: "32 word"
  f_mem :: memory_access
  allocfamily :: string
  f_nofpclass :: "16 word"

definition f_has :: "FnAttrs \<Rightarrow> fn_attr \<Rightarrow> bool" where
  "f_has f a \<longleftrightarrow> f_bits f AND fmask a \<noteq> 0"

definition f_set :: "fn_attr \<Rightarrow> FnAttrs \<Rightarrow> FnAttrs" where
  "f_set a f = f\<lparr>f_bits := f_bits f OR fmask a\<rparr>"

datatype AllocKind = Alloc | Realloc | Free | Uninitialized | Zeroed | Aligned

fun kind_bit :: "AllocKind \<Rightarrow> nat" where
  "kind_bit Alloc = 0" | "kind_bit Realloc = 1" | "kind_bit Free = 2" | "kind_bit Uninitialized = 3"
| "kind_bit Zeroed = 4" | "kind_bit Aligned = 5"

definition add_kind :: "AllocKind \<Rightarrow> FnAttrs \<Rightarrow> FnAttrs" where
  "add_kind k f = f\<lparr>allockind := allockind f OR push_bit (kind_bit k) 1\<rparr>"

definition has_kind :: "FnAttrs \<Rightarrow> AllocKind \<Rightarrow> bool" where
  "has_kind f k \<longleftrightarrow> allockind f AND push_bit (kind_bit k) 1 \<noteq> 0"

definition isAlloc :: "FnAttrs \<Rightarrow> bool" where
  "isAlloc f \<longleftrightarrow> allockind f \<noteq> 0 \<or> f_has f FAllocSize"

definition inferImpliedAttributes :: "FnAttrs \<Rightarrow> FnAttrs" where
  "inferImpliedAttributes f = (if \<not> canWriteSomething (f_mem f) then f_set FNoFree f else f)"

definition f_isNonNull :: "FnAttrs \<Rightarrow> bool" where
  "f_isNonNull f \<longleftrightarrow> f_has f FNonNull \<or> (\<not> f_has f FNullPointerIsValid \<and> 0 < f_derefBytes f)"

definition f_poisonImpliesUB :: "FnAttrs \<Rightarrow> bool" where
  "f_poisonImpliesUB f \<longleftrightarrow> f_has f FNoUndef \<or> f_has f FDereferenceable \<or> f_has f FDereferenceableOrNull \<or>
     f_has f FAllocSize \<or> f_has f FNNaN"

definition setFPDenormal :: "FPDenormalAttrs \<Rightarrow> nat \<Rightarrow> FnAttrs \<Rightarrow> FnAttrs option" where
  "setFPDenormal attr w f =
     (if w = 0 then Some (f\<lparr>fp_denormal := attr\<rparr>)
      else if w = 32 then Some (f\<lparr>fp_denormal32 := Some attr\<rparr>) else None)"

definition getFPDenormal :: "FnAttrs \<Rightarrow> nat \<Rightarrow> FPDenormalAttrs" where
  "getFPDenormal f w =
     (if w = 32 then case fp_denormal32 f of Some a \<Rightarrow> a | None \<Rightarrow> fp_denormal f else fp_denormal f)"

definition f_refinedBy :: "FnAttrs \<Rightarrow> FnAttrs \<Rightarrow> bool" where
  "f_refinedBy f other =
     (let attrs = fmask FNullPointerIsValid in
      if f_bits f AND attrs \<noteq> f_bits other AND attrs then False
      else if f_has f FNoReturn \<and> f_has other FWillReturn then False
      else fp_denormal f = fp_denormal other \<and> fp_denormal32 f = fp_denormal32 other)"

lemma fn_bit_less: "fn_bit a < 32" by (cases a) auto

lemma fn_bit_inj: "fn_bit a = fn_bit b \<longleftrightarrow> a = b" by (cases a; cases b) simp_all

lemma fmask_bit: "bit (fmask a) n \<longleftrightarrow> n = fn_bit a"
  using fn_bit_less [of a] by (auto simp: fmask_def bit_push_bit_iff bit_1_iff simp del: push_bit_of_1)

lemma f_has_bit: "f_has f a \<longleftrightarrow> bit (f_bits f) (fn_bit a)"
  using bit_iff_and_push_bit_not_eq_0 [of "f_bits f" "fn_bit a"] by (simp add: f_has_def fmask_def)

lemma f_has_set: "f_has (f_set a f) b \<longleftrightarrow> b = a \<or> f_has f b"
  by (auto simp: f_has_bit f_set_def bit_or_iff fmask_bit fn_bit_inj)

text \<open>A function that writes nothing frees nothing.\<close>

lemma inferred_nofree:
  "f_has (inferImpliedAttributes f) a \<longleftrightarrow> f_has f a \<or> (a = FNoFree \<and> written_places (f_mem f) = {})"
  by (auto simp: inferImpliedAttributes_def f_has_set canWriteSomething_def list_ex_iff written_places_def)

lemma f_refinedBy_iff:
  "f_refinedBy f g \<longleftrightarrow> (f_has f FNullPointerIsValid \<longleftrightarrow> f_has g FNullPointerIsValid) \<and>
     \<not> (f_has f FNoReturn \<and> f_has g FWillReturn) \<and> fp_denormal f = fp_denormal g \<and> fp_denormal32 f = fp_denormal32 g"
  by (auto simp: f_refinedBy_def and_same_iff fmask_bit f_has_bit)

section \<open>Sizes of allocations\<close>

text \<open>
  The size of an allocation, whether it is defined, and the conditions added to the state. An argument index out of
  range gives \<^const>\<open>None\<close>; without the attribute there is no size.
\<close>

definition arg_at :: "'a list \<Rightarrow> 32 word \<Rightarrow> 'a option" where
  "arg_at args i = (if unat i < length args then Some (args ! unat i) else None)"

definition check_trunc :: "nat \<Rightarrow> bv \<Rightarrow> bool" where
  "check_trunc bits_size_t var \<longleftrightarrow>
     (bits_size_t < bits var \<longrightarrow> bvextract var (bits var - 1) bits_size_t = mk (bits var - bits_size_t) 0)"

definition computeAllocSize ::
  "nat \<Rightarrow> FnAttrs \<Rightarrow> state_value list \<Rightarrow> (bv option \<times> bool \<times> bool list) option" where
  "computeAllocSize bits_size_t f args =
     (if \<not> f_has f FAllocSize then Some (None, True, [])
      else do {
        arg0 \<leftarrow> arg_at args (allocsize_0 f);
        let allocsize = zextOrTrunc (sv_value arg0) bits_size_t;
        let np_size = (non_poison arg0 \<and> check_trunc bits_size_t (sv_value arg0));
        if allocsize_1 f \<noteq> - 1
        then do {
          arg1 \<leftarrow> arg_at args (allocsize_1 f);
          let v = zextOrTrunc (sv_value arg1) bits_size_t;
          Some (Some (bvmul allocsize v),
            np_size \<and> non_poison arg1 \<and> mul_no_uoverflow allocsize v \<and> check_trunc bits_size_t (sv_value arg1),
            [non_poison arg0, non_poison arg1]) }
        else Some (Some allocsize, np_size, [non_poison arg0]) })"

lemma zextOrTrunc_size:
  assumes "wf_bv a" "0 < s" "uval a < 2 ^ s"
  shows "wf_bv (zextOrTrunc a s)" "bits (zextOrTrunc a s) = s" "uval (zextOrTrunc a s) = uval a"
proof -
  note u = wf_bvD(2) [OF assms(1)]
  show b: "bits (zextOrTrunc a s) = s" and v: "uval (zextOrTrunc a s) = uval a"
    using assms u by (auto simp: zextOrTrunc_def zext_eq trunc_eq bvtrunc_def bvzext_def take_bit_int_eq_self)
  show "wf_bv (zextOrTrunc a s)" using b v u assms(2,3) by (simp add: wf_bv_def)
qed

lemma check_trunc_iff:
  assumes "wf_bv a" "0 < s" shows "check_trunc s a \<longleftrightarrow> uval a < 2 ^ s"
proof (cases "s < bits a")
  case True
  note u = wf_bvD(2,3) [OF assms(1)]
  have "(2::int) ^ (bits a - s) * 2 ^ s = 2 ^ bits a" using True by (simp add: power_add [symmetric])
  moreover have "uval a div 2 ^ s * 2 ^ s \<le> uval a"
    using minus_mod_eq_div_mult [of "uval a" "2 ^ s"] pos_mod_sign [OF zero_less_power, of 2 "uval a" s] by linarith
  ultimately have "uval a div 2 ^ s * 2 ^ s < 2 ^ (bits a - s) * 2 ^ s" using u(2) by linarith
  then have "uval a div 2 ^ s < 2 ^ (bits a - s)" by simp
  moreover have "0 \<le> uval a div 2 ^ s" using u by (simp add: pos_imp_zdiv_nonneg_iff)
  ultimately have "uval (bvextract a (bits a - 1) s) = uval a div 2 ^ s"
    using True by (simp add: bvextract_def drop_bit_eq_div take_bit_int_eq_self)
  moreover have "uval a div 2 ^ s = 0 \<longleftrightarrow> uval a < 2 ^ s" using u(1) by (auto simp: zdiv_eq_0_iff)
  ultimately show ?thesis using True by (simp add: check_trunc_def bv_eq_iff bvextract_def)
next
  case False
  have "(2::int) ^ bits a \<le> 2 ^ s" using False by (intro power_increasing) auto
  then have "uval a < 2 ^ s" using wf_bvD(3) [OF assms(1)] by linarith
  then show ?thesis using False by (simp add: check_trunc_def)
qed

text \<open>
  C32 (bounds). The size of an allocation of several elements is defined exactly when both arguments are not poison and
  they and their product fit the width of sizes; it is then their product. Poison arguments are undefined behaviour.
\<close>

theorem alloc_size_exact:
  assumes "0 < s" "f_has f FAllocSize" "allocsize_1 f \<noteq> - 1"
    and "unat (allocsize_0 f) < length args" "unat (allocsize_1 f) < length args"
    and "args ! unat (allocsize_0 f) = a" "args ! unat (allocsize_1 f) = b" "wf_bv (sv_value a)" "wf_bv (sv_value b)"
  shows "\<exists>size np. computeAllocSize s f args = Some (Some size, np, [non_poison a, non_poison b]) \<and>
    (np \<longleftrightarrow> non_poison a \<and> non_poison b \<and> uval (sv_value a) < 2 ^ s \<and> uval (sv_value b) < 2 ^ s \<and>
       uval (sv_value a) * uval (sv_value b) < 2 ^ s) \<and>
    (np \<longrightarrow> uval size = uval (sv_value a) * uval (sv_value b) \<and> bits size = s)"
proof -
  let ?x = "zextOrTrunc (sv_value a) s" and ?y = "zextOrTrunc (sv_value b) s"
  have c: "computeAllocSize s f args = Some (Some (bvmul ?x ?y),
      ((non_poison a \<and> check_trunc s (sv_value a)) \<and> non_poison b \<and> mul_no_uoverflow ?x ?y \<and> check_trunc s (sv_value b)),
      [non_poison a, non_poison b])"
    using assms by (simp add: computeAllocSize_def arg_at_def Let_def)
  note t = check_trunc_iff [OF assms(8,1)] check_trunc_iff [OF assms(9,1)]
  have p: "0 \<le> uval (sv_value a) * uval (sv_value b)" using wf_bvD(2) [OF assms(8)] wf_bvD(2) [OF assms(9)] by simp
  have m: "(mul_no_uoverflow ?x ?y \<longleftrightarrow> uval (sv_value a) * uval (sv_value b) < 2 ^ s) \<and> bits (bvmul ?x ?y) = s \<and>
      (uval (sv_value a) * uval (sv_value b) < 2 ^ s \<longrightarrow> uval (bvmul ?x ?y) = uval (sv_value a) * uval (sv_value b))"
    if "uval (sv_value a) < 2 ^ s" "uval (sv_value b) < 2 ^ s"
    using zextOrTrunc_size [OF assms(8,1) that(1)] zextOrTrunc_size [OF assms(9,1) that(2)] p
      mul_no_uoverflow_iff [of ?x ?y] by (simp add: fits_u_def bvmul_def take_bit_int_eq_self)
  show ?thesis unfolding c using m t by auto
qed

definition calloc_attrs :: FnAttrs where
  "calloc_attrs = \<lparr>fp_denormal = \<lparr>fp_input = IEEE, fp_output = IEEE\<rparr>, fp_denormal32 = None, f_bits = fmask FAllocSize,
     allockind = 0, f_derefBytes = 0, f_derefOrNullBytes = 0, f_align = 1, allocsize_0 = 0, allocsize_1 = 1,
     f_mem = 0, allocfamily = [], f_nofpclass = 0\<rparr>"

theorem alloc_size_exact_witness:
  "\<exists>size. computeAllocSize 16 calloc_attrs [sv (mk 32 100) True, sv (mk 64 8) True] = Some (Some size, True, [True, True]) \<and>
     uval size = 800 \<and> bits size = 16"
proof -
  have "f_has calloc_attrs FAllocSize" "allocsize_1 calloc_attrs \<noteq> - 1" "unat (allocsize_0 calloc_attrs) = 0" "unat (allocsize_1 calloc_attrs) = 1"
    by (simp_all add: calloc_attrs_def f_has_bit fmask_bit)
  moreover have "wf_bv (mk 32 100)" "wf_bv (mk 64 8)" "uval (mk 32 100) = 100" "uval (mk 64 8) = 8" by code_simp+
  ultimately show ?thesis
    using alloc_size_exact [of 16 calloc_attrs "[sv (mk 32 100) True, sv (mk 64 8) True]" "sv (mk 32 100) True" "sv (mk 64 8) True"]
    by (auto simp: sv_def)
qed

definition demo_params :: "(64 word \<times> 64 word) list \<Rightarrow> ParamAttrs" where
  "demo_params rs = \<lparr>p_bits = pmask NoUndef, derefBytes = 0, derefOrNullBytes = 0, blockSize = 0, p_align = 1,
     p_nofpclass = 0, deadOnReturnBytes = None, initializes = rs\<rparr>"

theorem merge_keeps_promises_witness:
  "sorted (initializes (p_merge (demo_params [(0, 4), (8, 12)]) (demo_params [(4, 8)]))) \<and>
   p_has (p_merge (demo_params [(0, 4), (8, 12)]) (demo_params [(4, 8)])) NoUndef"
proof -
  have "p_has (demo_params rs) NoUndef" for rs by (simp add: demo_params_def p_has_bit pmask_bit)
  moreover have "sorted (initializes (demo_params [(0, 4), (8, 12)]))" "sorted (initializes (demo_params [(4, 8)]))"
    by (simp_all add: demo_params_def less_eq_prod_def)
  ultimately show ?thesis using merge_keeps_promises by blast
qed

end
