(* ===== verification/Spec2Isabelle.thy ===== *)
theory Spec2Isabelle
  imports InstrProps Gaps AssumeCheck LoopAnalysis DomOrder TermBuild AggInstr Attrs
begin

text \<open>
  A verification library for \<open>alive-next\<close>, a translation validator for LLVM that extends Alive2
  with a compositional mode. The program takes a source and a target function, cuts them into
  regions where they differ, lifts every region to a small pair of functions (a unit), has
  Alive2 verify each unit, and aggregates the verdicts. A unit that does not verify on its own
  is retried with assumptions that a range analysis of the two parent functions proposes, and
  that are checked separately.

  \<^bold>\<open>Parts and theories.\<close> File names are relative to \<open>src/\<close>.

  \<^item> \<open>Prelude\<close>: lemma collections and generic facts on lists and integers.
  \<^item> \<open>Bv\<close>: bit-vectors with the width as a value, the meaning of the SMT terms of \<open>smt/expr.cpp\<close>
    and of \<open>llvm::APInt\<close>.
  \<^item> \<open>Expr\<close>, \<open>ExprBits\<close>: the composite builders of \<open>smt/expr.cpp\<close> on integers: overflow checks with
    their shortcuts, saturation, funnel shifts, fixed-point products, bit counts and permutations.
  \<^item> \<open>BvBits\<close>, \<open>Term\<close>: bits of bit-vectors; the terms \<open>smt/expr.cpp\<close> builds and its recognisers of their
    shapes. \<open>TermBool\<close>: the connectives and \<open>mkIf\<close>. \<open>TermCore\<close>: the builders that call each other,
    \<open>extract\<close>, \<open>concat\<close>, \<open>sext\<close>, \<open>==\<close> and \<open>ule\<close>, one definition per rewrite, and \<open>AndExpr\<close> of
    \<open>smt/exprs.h\<close>. \<open>TermExtract\<close>, \<open>TermConcat\<close>, \<open>TermEq\<close>, \<open>TermPairs\<close>, \<open>TermCmp\<close> prove the rewrites and
    \<open>TermBuild\<close> the builders.
  \<^item> \<open>Instr\<close>: values with a poison bit (\<open>ir/state_value.h\<close>, \<open>ir/state_value.cpp\<close>) and the \<open>toSMT\<close> of the
    integer instructions of \<open>ir/instr.cpp\<close>: binary, unary and ternary operations, conversions,
    reductions, select and comparison. \<open>InstrProps\<close> has the properties of both groups.
  \<^item> \<open>Aggregate\<close>: types and aggregate values of \<open>ir/type.cpp\<close>: sizes, building an aggregate, taking an
    element out, the layout in memory; \<open>AggProps\<close> and \<open>AggMemory\<close> have their round trips. \<open>VectorOps\<close>: vectors at
    symbolic indices. \<open>AggInstr\<close>: the instructions of \<open>ir/instr.cpp\<close> on aggregates and the vector case of the
    integer instructions.
  \<^item> \<open>Attrs\<close>: attributes of \<open>ir/attrs.cpp\<close>: memory access with its printer and the parser of
    \<open>tools/alive_parser.cpp\<close>, parameters, functions, sizes of allocations.
  \<^item> \<open>Llvm\<close>: the part of an LLVM function \<open>tv-next/\<close> looks at, and its meaning: \<open>inst_defined\<close> and
    \<open>inst_result\<close> take the encodings of \<open>Instr\<close>, \<open>run\<close> is the step relation of straight-line code,
    \<open>eval_func\<close> its deterministic fragment. \<open>Semantics\<close>: monotonicity and widths.
  \<^item> \<open>Diff\<close>: \<open>computeDiffRegions\<close> (\<open>tv-next/diff.cpp\<close>). \<open>Back\<close>: \<open>collectBackwardSlice\<close>
    (\<open>tv-next/back.cpp\<close>). \<open>Unit\<close>: \<open>buildTvUnit\<close> (\<open>tv-next/unit.cpp\<close>).
  \<^item> \<open>Range\<close>: \<open>computeRanges\<close> and its transfer functions (\<open>tv-next/range.cpp\<close>); \<open>RangeSound\<close>,
    \<open>RangeFlow\<close>, \<open>RangeProps\<close>: where they are sound and where they are not.
  \<^item> \<open>Flags\<close>, \<open>Builder\<close>, \<open>Proposer\<close>: \<open>tv-next/proposer.cpp\<close>: the fit test \<open>canProveSafe\<close>, the claims written
    as LLVM instructions, and collection, injection and check units. \<open>Inject\<close>, \<open>Collect\<close> and
    \<open>AssumeCheck\<close> prove the three steps of its argument.
  \<^item> \<open>Verify\<close>: \<open>runOnce\<close>, \<open>verifyTvUnit\<close> (\<open>tv-next/verify.cpp\<close>), \<open>composeVerdicts\<close>
    (\<open>tv-next/compose.cpp\<close>) and the loop of \<open>main\<close> (\<open>tools/alive-tv-next.cpp\<close>). \<open>Compose\<close>: when the
    composite verdict is right. \<open>Gaps\<close>: two of its hypotheses that the code does not check.
  \<^item> \<open>UnionFind\<close>: \<open>util/unionfind.cpp\<close>. \<open>TopSort\<close>: \<open>util/sort.cpp\<close> and the ordering of basic blocks in
    \<open>ir/function.cpp\<close>. \<open>DomTree\<close>: the edge iterator and the dominator tree of that file, over
    \<open>DomSets\<close> (ancestors in a tree) and \<open>DomPass\<close> (the invariant of its passes); \<open>DomOrder\<close>: the tree of a
    sorted function. \<open>LoopAnalysis\<close>: the loop analysis of that file, from the spanning tree in
    \<open>LoopDfs\<close> and \<open>LoopTree\<close> and the Tarjan-Havlak loop in \<open>LoopNest\<close>, whose invariant is in \<open>LoopHeaders\<close>.

  \<^bold>\<open>Correspondence.\<close> Structures of the code are records with its field names (prefixed where
  they clash), enumerations are datatypes, loops are recursions over the same sequence, and a
  \<open>std::nullopt\<close> or an error return is \<open>None\<close> or an error verdict. Pointers to instructions are
  numbers. What is called but not part of the repository is a parameter, with what is relied on
  as a named predicate: the LLVM printer, symbol table and constant folder (\<open>llvm_api\<close>, \<open>fold_ok\<close>),
  \<open>llvm::KnownBits\<close> (\<open>kb_ops\<close>, \<open>sound_kb\<close>; \<open>kb_query\<close>, \<open>sound_query\<close>), and the translation and
  whole-function verifier of Alive2 (\<open>alive\<close>, \<open>alive_sound\<close>). The LLVM instruction builder is a
  state monad over the emitted instructions.

  \<^bold>\<open>What is shown.\<close>

  \<^item> End to end: a passed verdict without proposals implies refinement of the functions for
    pairs that satisfy \<open>composable\<close> (\<open>Compose\<close>); a unit that passes, also through a proposal,
    refines wherever it occurs in runs of the parents (below, from \<open>AssumeCheck\<close>), where refinement
    asks that the target cannot go wrong (\<open>func_safe\<close>) where the source cannot. For this the unit is typed within
    the parents (\<open>typed_unit\<close>) and the facts have the widths of the values they name and no conflicting
    bits (\<open>sized_facts\<close>); the shape of the obligations follows.
  \<^item> The diff accounts for every instruction and cuts the bodies; a unit computes the exits of its
    region; a slice is reachability over operands and the search ends; look-ups the code
    dereferences untested succeed.
  \<^item> The range analysis is sound on trusted instructions, and four transfer branches are
    shown unsound on concrete values. The fit test is sound. The claims the proposer writes
    are true exactly when the fact, or the rule of the flag, holds; injected claims restrict the
    inputs and change nothing else; a passed check discharges them. The locale \<open>injector\<close> is
    the contract of an injection, interpreted for facts, obligations and whole sides; \<open>strict_binop\<close>
    is the contract of a strict binary operation, interpreted for eleven operations.
  \<^item> The overflow checks and encodings agree with exact arithmetic at every width.
  \<^item> What \<open>insertvalue\<close> and \<open>insertelement\<close> put into an aggregate is what \<open>extractvalue\<close> and
    \<open>extractelement\<close> find, and nothing else changes; a value survives memory in both byte orders; vector
    operations are the scalar ones on every lane. The bound of a symbolic index is taken modulo the
    width of the index, so that an index type too narrow for the number of elements makes elements in range poison.
  \<^item> The size of an allocation is exact or not defined; memory access values are sets of places, but
    restricting them to writes by \<open>setCanOnlyWrite()\<close> loses most places.
  \<^item> Whatever rewrites fire, the terms built for the connectives, the conditional, \<open>extract\<close>,
    \<open>concat\<close>, \<open>sext\<close>, \<open>==\<close> and \<open>ule\<close> have the sort and the value of the operation; the one exception,
    a remainder compared with its divisor, is wrong exactly where both operands are zero.
  \<^item> The disjoint sets are the closure of the merged pairs; the topological sort puts every
    edge that closes no loop forward. The dominator tree is right on graphs in which every
    block has an earlier predecessor, and fails on others; the sort gives that property under a condition on the
    function (\<open>sortable\<close>) that takes the exit blocks recorded for loop headers into account.
  \<^item> The loop analysis ends and its internal check never fails; a parent in its forest is on a
    common cycle with its child, and every natural loop is in the forest with its whole body below its
    header. A loop with two entries can be missed. The locale \<open>numbered_flow\<close> is what the
    Tarjan-Havlak loop needs of a spanning tree, interpreted for the tree the code builds.

  \<^bold>\<open>Bounds.\<close> The builders of \<open>TermCore\<close> call each other; \<open>builders Z n\<close> allows \<open>n\<close> nested calls, and
  four times the weight of the operands plus eight is shown to be enough for a result. No other
  definition has fuel: the passes over the dominator tree and its climbs are option-valued
  recursions shown to end on ordered graphs, as is the work list of the loop analysis on all graphs, the work-list search has a termination proof by the number of
  instructions not yet visited, the loop to the root of a disjoint set is shown to end on the
  states the operations reach, all other loops are structural or bounded by a position. Widths are arbitrary positive numbers.

  \<^bold>\<open>Not modelled.\<close> Floating point, memory, calls and the encoding of control flow of \<open>ir/\<close>, with loop unrolling; inference over
  symbolic types; what attributes mean for pointers and floating-point values; the symbolic state and
  the refinement query of \<open>tools/transform.cpp\<close>; the translation in \<open>llvm_util/\<close> and the textual front
  end but for the memory attribute, which talk to LLVM or are generated; the Z3 interface in \<open>smt/\<close>; option parsing, loading,
  dumping and verbose output of the driver; the rest of \<open>util/\<close>, and \<open>cache/\<close>. Undef is not distinguished from
  poison, as in the code of \<open>tv-next/\<close>, which assumes its inputs well-defined.
\<close>

section \<open>Verification of a unit in its context\<close>

text \<open>The refinement Alive2 has to establish of a pair of functions.\<close>

definition pair_refines :: "func \<Rightarrow> func \<Rightarrow> bool" where
  "pair_refines s t \<longleftrightarrow> unit_refines \<lparr>u_name = [], u_src = s, u_tgt = t\<rparr>"

lemma pair_refines_unit: "pair_refines (u_src u) (u_tgt u) = unit_refines u"
  by (simp add: pair_refines_def unit_refines_def refines_at_def)

text \<open>
  C2 (refinement). Verification of a unit with the range-based proposer is sound in context. Let Alive2 be
  sound for refinement of functions, let the unit be typed within the two parents, and let the facts collected from them
  have the width of the values they name and no conflicting bits. If the unit passes, by itself or after its assumptions
  were proposed, checked and injected, then it refines at all arguments that occur: those
  its parameters have in a run of the source parent and in a run of the target parent, the two
  agreeing at the boundary of the unit. Refinement includes that the target has no undefined behaviour where the source
  has none.
\<close>

theorem proposer_in_context:
  assumes "alive_sound A pair_refines" "fold_ok L"
    "passed (fst (verifyTvUnit A (proposeAssume L K Q) unit (Some (parent_src, parent_tgt))))"
    "in_context unit vs parent_src args \<rho>" "in_context unit vs parent_tgt args' \<rho>'"
    "typed_unit unit parent_src" "typed_unit unit parent_tgt"
    "sized_facts parent_src (collectFromParent K Q unit parent_src)" "sized_facts parent_tgt (collectFromParent K Q unit parent_tgt)"
    "returns (u_src unit) sb r" "returns (u_tgt unit) tb r'" "wf_args (u_src unit) vs" "f_args (u_tgt unit) = f_args (u_src unit)"
  shows "refines_at unit vs"
proof -
  have run: "unit_refines u" if "passed (runOnce A u)" for u
    using runOnce_sound [OF assms(1) that] by (simp add: pair_refines_unit)
  from verifyTvUnit_passed [OF assms(3)]
  consider "passed (runOnce A unit)"
    | p where "proposeAssume L K Q unit parent_src parent_tgt = Some p"
        "\<forall>ac \<in> set (assume_checks p). passed (runOnce A ac)" "passed (runOnce A (modified_unit p))"
    by auto
  then show ?thesis
  proof cases
    case 1
    then show ?thesis using run [OF 1] assms(12) by (simp add: unit_refines_def)
  next
    case 2
    then show ?thesis
      using proposal_refines [OF assms(2) 2(1) _ run [OF 2(3)] assms(4-13)] run by (simp add: list_all_iff)
  qed
qed

text \<open>A verifier that accepts three pairs that are refinements.\<close>

definition c_accepted :: "(func \<times> func) list" where
  "c_accepted = map (\<lambda>u. (u_src u, u_tgt u)) (modified_unit c_proposal # assume_checks c_proposal)"

definition c_alive :: "(bool \<times> func) alive" where
  "c_alive = \<lparr>llvm2alive_src = (\<lambda>f. Some (True, f)), llvm2alive_tgt = (\<lambda>s f. Some (False, f)),
     print_alive = (\<lambda>(b, f). if b then ''s'' else ''t''), preprocess = (\<lambda>p. p), has_typings = (\<lambda>p. True),
     transform_verify = (\<lambda>((b, s), (c, t)). if (s, t) \<in> set c_accepted then NoErrors else Errors True ''value mismatch'')\<rparr>"

lemma c_run: "passed (runOnce c_alive u) \<longleftrightarrow> (u_src u, u_tgt u) \<in> set c_accepted"
  "v_status (runOnce c_alive u) \<in> {Correct, Unsound}"
  by (simp_all add: runOnce_def c_alive_def Let_def fresh_verdict_def)

lemma c_alive_sound: "alive_sound c_alive pair_refines"
proof -
  have "pair_refines s t" if "(s, t) \<in> set c_accepted" for s t
  proof -
    obtain u where "u \<in> set (modified_unit c_proposal # assume_checks c_proposal)" "s = u_src u" "t = u_tgt u"
      using \<open>(s, t) \<in> set c_accepted\<close> by (auto simp: c_accepted_def)
    moreover have "\<forall>u \<in> set (modified_unit c_proposal # assume_checks c_proposal). unit_refines u"
      using c_modified_refines c_check_refines by (simp add: c_proposal_def)
    ultimately show ?thesis using pair_refines_unit by blast
  qed
  then show ?thesis by (auto simp: alive_sound_def c_alive_def split: if_splits)
qed

lemma c_unit_passes:
  "passed (fst (verifyTvUnit c_alive (proposeAssume demo_api simple_kb simple_query) w_unit (Some (c_parent False, c_parent True))))"
proof -
  have checks: "run_checks A acs = (l, None)" if "\<forall>ac \<in> set acs. passed (runOnce A ac)" "l = map (\<lambda>ac. (ac, runOnce A ac)) acs" for A :: "'b alive" and acs l
    using that by (induction acs arbitrary: l) (auto simp: Let_def)
  have ok: "\<forall>ac \<in> set (assume_checks c_proposal). passed (runOnce c_alive ac)" "passed (runOnce c_alive (modified_unit c_proposal))"
    by (auto simp: c_run c_accepted_def)
  have "passed (runOnce c_alive w_unit) \<or> v_status (runOnce c_alive w_unit) = Unsound"
    using c_run(2) [of w_unit] runOnce_status(1) [of c_alive w_unit] by auto
  then show ?thesis
    using checks [OF ok(1) refl] ok(2) by (auto simp: verifyTvUnit_def Let_def c_proposed)
qed

theorem proposer_in_context_witness: "refines_at w_unit [sv (mk 8 7) True]"
  by (rule proposer_in_context [OF c_alive_sound demo_fold_ok c_unit_passes c_context c_context c_typed c_typed
        c_sized_collected c_sized_collected w_returns [of "''src''" False, folded w_unit_sel] w_returns [of "''tgt''" True, folded w_unit_sel]])
    (simp_all add: w_unit_sel w_args w_half_args)

end
